(* ===== verification/Prelude.thy ===== *)
theory Prelude
  imports Main "HOL-Library.Word" "HOL-Library.Monad_Syntax"
begin

text \<open>
  Shared vocabulary of the development: the fixed-width integer types of
  \<^verbatim>\<open>include/rtdef.h\<close>, the error codes, the alignment macros, the model of
  \<^verbatim>\<open>RT_ASSERT\<close>, the fact collections used by the component theories, and the generic
  lemmas on lists and words that several components need.

  An operation that can hit an assertion returns an \<open>option\<close>: \<open>None\<close> is the
  system stopped in \<^verbatim>\<open>rt_assert_handler\<close>, which never returns to the caller.
\<close>

unbundle bit_operations_syntax

named_theorems rt_list_simps "the representation lemmas of the intrusive lists"
named_theorems rt_flag_simps "evaluation of the flag and state masks"
named_theorems kernel_defs "definitions of the kernel state accessors"
named_theorems kernel_frame "fields an operation does not write"
named_theorems kernel_inv "preservation of the scheduler invariant"

section \<open>Integer types and constants\<close>

type_synonym rt_uint8 = "8 word"
type_synonym rt_uint16 = "16 word"
type_synonym rt_uint32 = "32 word"
type_synonym rt_err = int

abbreviation (input) RT_EOK :: rt_err where "RT_EOK \<equiv> 0"
abbreviation (input) RT_ERROR :: rt_err where "RT_ERROR \<equiv> 1"
abbreviation (input) RT_ETIMEOUT :: rt_err where "RT_ETIMEOUT \<equiv> 2"
abbreviation (input) RT_EFULL :: rt_err where "RT_EFULL \<equiv> 3"
abbreviation (input) RT_EEMPTY :: rt_err where "RT_EEMPTY \<equiv> 4"
abbreviation (input) RT_ENOMEM :: rt_err where "RT_ENOMEM \<equiv> 5"
abbreviation (input) RT_ENOSYS :: rt_err where "RT_ENOSYS \<equiv> 6"
abbreviation (input) RT_EBUSY :: rt_err where "RT_EBUSY \<equiv> 7"
abbreviation (input) RT_EINTR :: rt_err where "RT_EINTR \<equiv> 9"
abbreviation (input) RT_EINVAL :: rt_err where "RT_EINVAL \<equiv> 10"

abbreviation (input) RT_TICK_MAX :: rt_uint32 where "RT_TICK_MAX \<equiv> 0xFFFFFFFF"
abbreviation (input) RT_TICK_HALF :: rt_uint32 where "RT_TICK_HALF \<equiv> 0x7FFFFFFF"
abbreviation (input) RT_ALIGN_SIZE :: rt_uint32 where "RT_ALIGN_SIZE \<equiv> 4"

text \<open>\<^verbatim>\<open>RT_ALIGN\<close> and \<^verbatim>\<open>RT_ALIGN_DOWN\<close>, with C's unsigned wrap-around.\<close>

definition RT_ALIGN :: "rt_uint32 \<Rightarrow> rt_uint32 \<Rightarrow> rt_uint32" where
  "RT_ALIGN sz align = (sz + align - 1) AND NOT (align - 1)"

definition RT_ALIGN_DOWN :: "rt_uint32 \<Rightarrow> rt_uint32 \<Rightarrow> rt_uint32" where
  "RT_ALIGN_DOWN sz align = sz AND NOT (align - 1)"

text \<open>\<^verbatim>\<open>RT_ASSERT\<close>: \<open>None\<close> when the condition fails.\<close>

definition rt_assert :: "bool \<Rightarrow> unit option" where
  "rt_assert b = (if b then Some () else None)"

lemma rt_assert_simps [simp]: "rt_assert True = Some ()" "rt_assert False = None"
  by (simp_all add: rt_assert_def)

lemma rt_assert_eq_Some [simp]: "rt_assert b = Some u \<longleftrightarrow> b"
  by (simp add: rt_assert_def)

lemma rt_assert_eq_None [simp]: "rt_assert b = None \<longleftrightarrow> \<not> b"
  by (simp add: rt_assert_def)

lemma rt_assert_bind_Some [simp]:
  "(rt_assert b \<bind> f = Some r) \<longleftrightarrow> b \<and> f () = Some r"
  by (simp add: rt_assert_def)

lemma bind_Some_iff: "(m \<bind> f = Some r) \<longleftrightarrow> (\<exists>x. m = Some x \<and> f x = Some r)"
  by (cases m) auto

section \<open>Lists\<close>

lemma removeAll_notin [simp]: "x \<notin> set xs \<Longrightarrow> removeAll x xs = xs"
  by (induction xs) auto

lemma distinct_split_removeAll:
  "distinct (xs @ n # ys) \<Longrightarrow> removeAll n (xs @ n # ys) = xs @ ys"
  by (simp add: removeAll_append)

lemma removeAll_eq_Nil_iff: "removeAll x xs = [] \<longleftrightarrow> set xs \<subseteq> {x}"
  by (induction xs) auto

lemma hd_in_set_conv: "xs \<noteq> [] \<Longrightarrow> hd xs \<in> set xs"
  by simp

section \<open>Words\<close>

lemma unat_lt_32 [simp]: "unat (x :: rt_uint32) < 4294967296"
  using unsigned_less [of x] by simp

lemma unat_lt_16 [simp]: "unat (x :: rt_uint16) < 65536"
  using unsigned_less [of x] by simp

lemma unat_lt_8 [simp]: "unat (x :: rt_uint8) < 256"
  using unsigned_less [of x] by simp

lemma unat_add_small_32:
  "unat (x :: rt_uint32) + unat y < 4294967296 \<Longrightarrow> unat (x + y) = unat x + unat y"
  by (simp add: unat_word_ariths)

lemma and_not_mask_eq: "(x :: 'a::len word) AND NOT (mask n) = push_bit n (drop_bit n x)"
  by (rule bit_word_eqI) (auto simp: bit_simps)

lemma unat_and_not_mask:
  "unat ((x :: 'a::len word) AND NOT (mask n)) = unat x div 2 ^ n * 2 ^ n"
proof -
  have "unat x div 2 ^ n * 2 ^ n \<le> unat x" by simp
  then have fits: "unat x div 2 ^ n * 2 ^ n < 2 ^ LENGTH('a)"
    using unsigned_less [of x] by (rule le_less_trans)
  have self: "take_bit LENGTH('a) (unat x) = unat x"
    using unsigned_less [of x] by (simp add: take_bit_nat_eq_self)
  have "unat (push_bit n (drop_bit n x)) = take_bit LENGTH('a) (unat x div 2 ^ n * 2 ^ n)"
    by (simp only: unsigned_push_bit_eq unsigned_drop_bit_eq)
      (simp add: push_bit_eq_mult drop_bit_eq_div self)
  then show ?thesis using fits by (simp add: and_not_mask_eq take_bit_nat_eq_self)
qed

text \<open>Disjoint ranges of addresses, by the distance of their starts.\<close>

lemma word_outside:
  fixes a b :: rt_uint32
  assumes "unat a + n \<le> unat b \<or> unat b + m \<le> unat a" "unat a + n < 2 ^ 32" "0 < m"
  shows "of_nat n \<le> b - a"
proof (cases "a \<le> b")
  case True
  then have "unat (b - a) = unat b - unat a" by (rule unat_sub)
  then show ?thesis using assms True by (auto simp: word_le_nat_alt unat_of_nat)
next
  case False
  then have "unat (b - a) = unat b + 2 ^ 32 - unat a" by (subst unat_sub_if') (simp add: word_le_nat_alt)
  then show ?thesis using assms False by (simp add: word_le_nat_alt unat_of_nat)
qed

text \<open>The alignment macros at the configured alignment of four bytes.\<close>

lemma unat_align_down: "unat (RT_ALIGN_DOWN x 4) = 4 * (unat x div 4)"
  using unat_and_not_mask [of x 2] by (simp add: RT_ALIGN_DOWN_def mask_eq_exp_minus_1)

lemma unat_align:
  assumes "unat x + 3 < 2 ^ 32"
  shows "unat (RT_ALIGN x 4) = 4 * ((unat x + 3) div 4)"
proof -
  have "unat (x + 3) = unat x + 3"
    using assms by (simp add: unat_word_ariths)
  moreover have "RT_ALIGN x 4 = RT_ALIGN_DOWN (x + 3) 4"
    by (simp add: RT_ALIGN_def RT_ALIGN_DOWN_def add.commute)
  ultimately show ?thesis by (simp add: unat_align_down)
qed

end
