(* ===== verification/RtList.thy ===== *)
theory RtList
  imports Prelude
begin

text \<open>
  The intrusive doubly linked circular lists of \<^verbatim>\<open>include/rtservice.h\<close>, modelled
  with explicit pointers: a memory maps every node address to its
  \<^verbatim>\<open>struct rt_list_node\<close>, and each operation performs the source's field writes in the
  source's order.

  \<open>ring m l xs\<close> says that \<open>l\<close> heads a well-formed ring whose other nodes are
  \<open>xs\<close>, in order.  The lemmas show what every operation does to a ring, and that it
  leaves the rings it does not touch alone.  A kernel keeps many rings at once over one
  memory; \<open>rings m L\<close> relates such a memory to a table \<open>L\<close> from list heads to
  lists of nodes.  The locale \<open>node_table\<close> states what the kernel relies on, and is
  interpreted on the pointer operations and on the table operations the kernel theories
  use, so the latter are an abstraction of the former.
\<close>

section \<open>Nodes and operations\<close>

record 'a rt_list_node =
  nxt :: 'a
  prv :: 'a

type_synonym 'a list_mem = "'a \<Rightarrow> 'a rt_list_node"

abbreviation set_next :: "'a \<Rightarrow> 'a \<Rightarrow> 'a list_mem \<Rightarrow> 'a list_mem" where
  "set_next p v m \<equiv> m(p := (m p)\<lparr>nxt := v\<rparr>)"

abbreviation set_prev :: "'a \<Rightarrow> 'a \<Rightarrow> 'a list_mem \<Rightarrow> 'a list_mem" where
  "set_prev p v m \<equiv> m(p := (m p)\<lparr>prv := v\<rparr>)"

definition rt_list_init :: "'a \<Rightarrow> 'a list_mem \<Rightarrow> 'a list_mem" where
  "rt_list_init l m = set_next l l (set_prev l l m)"

definition rt_list_insert_after :: "'a \<Rightarrow> 'a \<Rightarrow> 'a list_mem \<Rightarrow> 'a list_mem" where
  "rt_list_insert_after l n m =
     (let m1 = set_prev (nxt (m l)) n m;
          m2 = set_next n (nxt (m1 l)) m1;
          m3 = set_next l n m2
      in set_prev n l m3)"

definition rt_list_insert_before :: "'a \<Rightarrow> 'a \<Rightarrow> 'a list_mem \<Rightarrow> 'a list_mem" where
  "rt_list_insert_before l n m =
     (let m1 = set_next (prv (m l)) n m;
          m2 = set_prev n (prv (m1 l)) m1;
          m3 = set_prev l n m2
      in set_next n l m3)"

definition rt_list_remove :: "'a \<Rightarrow> 'a list_mem \<Rightarrow> 'a list_mem" where
  "rt_list_remove n m =
     (let m1 = set_prev (nxt (m n)) (prv (m n)) m;
          m2 = set_next (prv (m1 n)) (nxt (m1 n)) m1
      in set_next n n (set_prev n n m2))"

definition rt_list_isempty :: "'a list_mem \<Rightarrow> 'a \<Rightarrow> bool" where
  "rt_list_isempty m l \<longleftrightarrow> nxt (m l) = l"

text \<open>The counting loop of \<^verbatim>\<open>rt_list_len\<close>; it returns only if it meets the head again.\<close>

partial_function (option) rt_list_len_loop ::
  "'a list_mem \<Rightarrow> 'a \<Rightarrow> 'a \<Rightarrow> nat \<Rightarrow> nat option" where
  "rt_list_len_loop m l p len =
     (if nxt (m p) = l then Some len else rt_list_len_loop m l (nxt (m p)) (Suc len))"

definition rt_list_len :: "'a list_mem \<Rightarrow> 'a \<Rightarrow> nat option" where
  "rt_list_len m l = rt_list_len_loop m l l 0"

section \<open>Segments and rings\<close>

fun dseg :: "'a list_mem \<Rightarrow> 'a \<Rightarrow> 'a list \<Rightarrow> 'a \<Rightarrow> bool" where
  "dseg m a [] b \<longleftrightarrow> nxt (m a) = b \<and> prv (m b) = a"
| "dseg m a (x # xs) b \<longleftrightarrow> nxt (m a) = x \<and> prv (m x) = a \<and> dseg m x xs b"

definition ring :: "'a list_mem \<Rightarrow> 'a \<Rightarrow> 'a list \<Rightarrow> bool" where
  "ring m l xs \<longleftrightarrow> distinct (l # xs) \<and> dseg m l xs l"

lemma dseg_append [simp]:
  "dseg m a (xs @ y # ys) b \<longleftrightarrow> dseg m a xs y \<and> dseg m y ys b"
  by (induction xs arbitrary: a) auto

lemma dseg_next: "dseg m a xs b \<Longrightarrow> nxt (m a) = hd (xs @ [b])"
  by (cases xs) auto

lemma dseg_prev: "dseg m a xs b \<Longrightarrow> prv (m b) = last (a # xs)"
  by (induction xs arbitrary: a) auto

text \<open>Only the forward links of the sources and the backward links of the targets matter.\<close>

lemma dseg_cong:
  assumes "\<And>x. x \<in> set (a # xs) \<Longrightarrow> nxt (m' x) = nxt (m x)"
    and "\<And>x. x \<in> set (xs @ [b]) \<Longrightarrow> prv (m' x) = prv (m x)"
  shows "dseg m' a xs b = dseg m a xs b"
  using assms by (induction xs arbitrary: a) auto

lemma ring_cong:
  assumes "\<And>x. x \<in> set (l # xs) \<Longrightarrow> m' x = m x"
  shows "ring m' l xs = ring m l xs"
proof -
  have "dseg m' l xs l = dseg m l xs l"
    by (rule dseg_cong) (use assms in auto)
  then show ?thesis by (simp add: ring_def)
qed

lemma ring_isempty [rt_list_simps]: "ring m l xs \<Longrightarrow> rt_list_isempty m l \<longleftrightarrow> xs = []"
  by (cases xs) (auto simp: ring_def rt_list_isempty_def)

lemma ring_first [rt_list_simps]: "ring m l (x # xs) \<Longrightarrow> nxt (m l) = x"
  by (simp add: ring_def)

lemma ring_init [rt_list_simps]: "ring (rt_list_init l m) l []"
  by (simp add: ring_def rt_list_init_def)

section \<open>Insertion and removal\<close>

lemma insert_after_links:
  assumes "n \<noteq> p" and "n \<noteq> nxt (m p)"
  shows "nxt (rt_list_insert_after p n m x) =
           (if x = n then nxt (m p) else if x = p then n else nxt (m x))"
    and "prv (rt_list_insert_after p n m x) =
           (if x = n then p else if x = nxt (m p) then n else prv (m x))"
  using assms by (auto simp: rt_list_insert_after_def Let_def)

lemma insert_before_links:
  assumes "n \<noteq> p" and "n \<noteq> prv (m p)"
  shows "nxt (rt_list_insert_before p n m x) =
           (if x = n then p else if x = prv (m p) then n else nxt (m x))"
    and "prv (rt_list_insert_before p n m x) =
           (if x = n then prv (m p) else if x = p then n else prv (m x))"
  using assms by (auto simp: rt_list_insert_before_def Let_def)

lemma remove_links:
  assumes "nxt (m n) \<noteq> n" and "prv (m n) \<noteq> n"
  shows "nxt (rt_list_remove n m x) =
           (if x = n then n else if x = prv (m n) then nxt (m n) else nxt (m x))"
    and "prv (rt_list_remove n m x) =
           (if x = n then n else if x = nxt (m n) then prv (m n) else prv (m x))"
  using assms by (auto simp: rt_list_remove_def Let_def)

lemma remove_unlinked:
  assumes "ring m n []"
  shows "rt_list_remove n m = m"
proof
  fix x
  have "nxt (m n) = n" "prv (m n) = n" using assms by (auto simp: ring_def)
  then show "rt_list_remove n m x = m x"
    by (cases "x = n") (auto simp: rt_list_remove_def Let_def)
qed

text \<open>Replacing the link from \<open>p\<close> to its successor by a detour through \<open>n\<close>.\<close>

lemma dseg_detour:
  assumes "dseg m p ys b" and "distinct (p # ys)" and "b \<notin> set ys"
    and "n \<noteq> p" "n \<noteq> b" "n \<notin> set ys"
    and nx: "\<And>x. nxt (m' x) = (if x = n then hd (ys @ [b]) else if x = p then n else nxt (m x))"
    and pv: "\<And>x. prv (m' x) = (if x = n then p else if x = hd (ys @ [b]) then n else prv (m x))"
  shows "dseg m' p (n # ys) b"
proof (cases ys)
  case Nil
  then show ?thesis using assms by auto
next
  case (Cons y zs)
  have "dseg m' y zs b = dseg m y zs b"
    by (rule dseg_cong) (use assms Cons in auto)
  then show ?thesis using assms Cons by auto
qed

lemma ring_detour:
  assumes ring: "ring m l (xs @ ys)" and fresh: "n \<notin> set (l # xs @ ys)"
    and nx: "\<And>x. nxt (m' x) =
       (if x = n then hd (ys @ [l]) else if x = last (l # xs) then n else nxt (m x))"
    and pv: "\<And>x. prv (m' x) =
       (if x = n then last (l # xs) else if x = hd (ys @ [l]) then n else prv (m x))"
  shows "ring m' l (xs @ n # ys)"
proof (cases xs rule: rev_cases)
  case Nil
  have "dseg m' l (n # ys) l"
    by (rule dseg_detour [of m]) (use assms Nil in \<open>auto simp: ring_def\<close>)
  then show ?thesis using ring fresh Nil by (auto simp: ring_def)
next
  case (snoc zs p)
  have old: "dseg m l zs p" "dseg m p ys l" and dist: "distinct (l # zs @ p # ys)"
    using ring snoc by (auto simp: ring_def)
  have q: "hd (ys @ [l]) \<in> set (l # ys)" by (cases ys) auto
  have "dseg m' l zs p = dseg m l zs p"
    by (rule dseg_cong) (use dist fresh snoc q nx pv in auto)
  moreover have "dseg m' p (n # ys) l"
    by (rule dseg_detour [OF old(2)]) (use dist fresh snoc nx pv in auto)
  ultimately show ?thesis using old dist fresh snoc by (auto simp: ring_def)
qed

lemma ring_succ:
  assumes "ring m l (xs @ ys)"
  shows "nxt (m (last (l # xs))) = hd (ys @ [l])"
    and "prv (m (hd (ys @ [l]))) = last (l # xs)"
proof -
  have *: "dseg m l (xs @ ys) l" using assms by (simp add: ring_def)
  show "nxt (m (last (l # xs))) = hd (ys @ [l])"
    using * by (cases xs rule: rev_cases) (auto dest: dseg_next)
  show "prv (m (hd (ys @ [l]))) = last (l # xs)"
    using * by (cases ys) (auto dest: dseg_prev)
qed

theorem ring_insert_after [rt_list_simps]:
  assumes "ring m l (xs @ ys)" and "n \<notin> set (l # xs @ ys)"
  shows "ring (rt_list_insert_after (last (l # xs)) n m) l (xs @ n # ys)"
proof (rule ring_detour [OF assms])
  have *: "nxt (m (last (l # xs))) = hd (ys @ [l])" by (rule ring_succ [OF assms(1)])
  have ne: "n \<noteq> last (l # xs)" using assms(2) last_in_set [of "l # xs"] by auto
  have ne': "n \<noteq> nxt (m (last (l # xs)))"
    unfolding * using assms(2) hd_in_set [of "ys @ [l]"] by auto
  note links = insert_after_links [where m = m and p = "last (l # xs)", OF ne ne', unfolded *]
  show "nxt (rt_list_insert_after (last (l # xs)) n m x) =
      (if x = n then hd (ys @ [l]) else if x = last (l # xs) then n else nxt (m x))"
    and "prv (rt_list_insert_after (last (l # xs)) n m x) =
      (if x = n then last (l # xs) else if x = hd (ys @ [l]) then n else prv (m x))" for x
    by (rule links)+
qed

theorem ring_insert_before [rt_list_simps]:
  assumes "ring m l (xs @ ys)" and "n \<notin> set (l # xs @ ys)"
  shows "ring (rt_list_insert_before (hd (ys @ [l])) n m) l (xs @ n # ys)"
proof (rule ring_detour [OF assms])
  have *: "prv (m (hd (ys @ [l]))) = last (l # xs)" by (rule ring_succ [OF assms(1)])
  have ne: "n \<noteq> hd (ys @ [l])" using assms(2) hd_in_set [of "ys @ [l]"] by auto
  have ne': "n \<noteq> prv (m (hd (ys @ [l])))"
    unfolding * using assms(2) last_in_set [of "l # xs"] by auto
  note links = insert_before_links [where m = m and p = "hd (ys @ [l])", OF ne ne', unfolded *]
  show "nxt (rt_list_insert_before (hd (ys @ [l])) n m x) =
      (if x = n then hd (ys @ [l]) else if x = last (l # xs) then n else nxt (m x))"
    and "prv (rt_list_insert_before (hd (ys @ [l])) n m x) =
      (if x = n then last (l # xs) else if x = hd (ys @ [l]) then n else prv (m x))" for x
    by (rule links)+
qed

text \<open>Removing a node: the ring closes up and the node is left on a ring of its own.\<close>

lemma dseg_shortcut:
  assumes "dseg m p (n # ys) b" and "distinct (p # n # ys)" and "b \<notin> set (n # ys)"
    and nx: "\<And>x. nxt (m' x) = (if x = n then n else if x = p then hd (ys @ [b]) else nxt (m x))"
    and pv: "\<And>x. prv (m' x) = (if x = n then n else if x = hd (ys @ [b]) then p else prv (m x))"
  shows "dseg m' p ys b"
proof (cases ys)
  case Nil
  then show ?thesis using assms by auto
next
  case (Cons y zs)
  have "dseg m' y zs b = dseg m y zs b"
    by (rule dseg_cong) (use assms Cons in auto)
  then show ?thesis using assms Cons by auto
qed

theorem ring_remove [rt_list_simps]:
  assumes ring: "ring m l (xs @ n # ys)"
  shows "ring (rt_list_remove n m) l (xs @ ys)" and "ring (rt_list_remove n m) n []"
proof -
  let ?m = "rt_list_remove n m" and ?p = "last (l # xs)" and ?q = "hd (ys @ [l])"
  have dist: "distinct (l # xs @ n # ys)" and seg: "dseg m l (xs @ n # ys) l"
    using ring by (auto simp: ring_def)
  have q: "nxt (m n) = ?q" and p: "prv (m n) = ?p"
    using ring_succ(1) [of m l "xs @ [n]" ys] ring_succ(2) [of m l xs "n # ys"] ring by auto
  have qn: "?q \<noteq> n" and pn: "?p \<noteq> n"
    using dist by (cases ys; cases xs rule: rev_cases; auto)+
  have nx: "nxt (?m x) = (if x = n then n else if x = ?p then ?q else nxt (m x))"
    and pv: "prv (?m x) = (if x = n then n else if x = ?q then ?p else prv (m x))" for x
    using remove_links [of m n x] q p qn pn by auto
  then show "ring ?m n []" by (simp add: ring_def)
  show "ring ?m l (xs @ ys)"
  proof (cases xs rule: rev_cases)
    case Nil
    have "dseg ?m l ys l"
      by (rule dseg_shortcut [of m l n]) (use seg dist nx pv Nil in auto)
    then show ?thesis using dist Nil by (simp add: ring_def)
  next
    case (snoc zs r)
    have hq: "?q \<in> set (l # ys)" by (cases ys) auto
    have "dseg ?m l zs r = dseg m l zs r"
      by (rule dseg_cong) (use dist nx pv snoc hq in auto)
    moreover have "dseg ?m r ys l"
      by (rule dseg_shortcut [of m r n]) (use seg dist nx pv snoc in auto)
    ultimately show ?thesis using seg dist snoc by (auto simp: ring_def)
  qed
qed

text \<open>The counting loop ends on every ring, with the number of nodes.\<close>

lemma rt_list_len_seg: "dseg m a xs l \<Longrightarrow> l \<notin> set xs \<Longrightarrow>
   rt_list_len_loop m l a k = Some (k + length xs)"
proof (induction xs arbitrary: a k)
  case Nil
  then show ?case by (simp add: rt_list_len_loop.simps)
next
  case (Cons x xs)
  then show ?case by (subst rt_list_len_loop.simps) auto
qed

theorem rt_list_len_ring [rt_list_simps]: "ring m l xs \<Longrightarrow> rt_list_len m l = Some (length xs)"
  using rt_list_len_seg [of m l xs l 0] by (simp add: rt_list_len_def ring_def)

section \<open>Frames\<close>

lemma insert_after_frame:
  "x \<notin> {n, p, nxt (m p)} \<Longrightarrow> rt_list_insert_after p n m x = m x"
  by (auto simp: rt_list_insert_after_def Let_def)

lemma insert_before_frame:
  "x \<notin> {n, p, prv (m p)} \<Longrightarrow> rt_list_insert_before p n m x = m x"
  by (auto simp: rt_list_insert_before_def Let_def)

lemma remove_frame:
  "x \<notin> {n, nxt (m n), prv (m n)} \<Longrightarrow> rt_list_remove n m x = m x"
  by (auto simp: rt_list_remove_def Let_def)

lemma ring_frame_insert_after:
  assumes "ring m l (xs @ ys)" and "p = last (l # xs)"
    and "ring m k zs" and "set (k # zs) \<inter> set (n # l # xs @ ys) = {}"
  shows "ring (rt_list_insert_after p n m) k zs"
proof -
  have "p \<in> set (l # xs)" using assms(2) last_in_set [of "l # xs"] by simp
  moreover have "nxt (m p) \<in> set (l # ys)"
    using ring_succ(1) [OF assms(1)] assms(2) hd_in_set [of "ys @ [l]"] by simp
  ultimately have "rt_list_insert_after p n m x = m x" if "x \<in> set (k # zs)" for x
    by (intro insert_after_frame) (use that assms(4) in auto)
  then show ?thesis using assms(3) ring_cong by metis
qed

lemma ring_frame_insert_before:
  assumes "ring m l (xs @ ys)" and "p = hd (ys @ [l])"
    and "ring m k zs" and "set (k # zs) \<inter> set (n # l # xs @ ys) = {}"
  shows "ring (rt_list_insert_before p n m) k zs"
proof -
  have "p \<in> set (l # ys)" using assms(2) hd_in_set [of "ys @ [l]"] by simp
  moreover have "prv (m p) \<in> set (l # xs)"
    using ring_succ(2) [OF assms(1)] assms(2) last_in_set [of "l # xs"] by simp
  ultimately have "rt_list_insert_before p n m x = m x" if "x \<in> set (k # zs)" for x
    by (intro insert_before_frame) (use that assms(4) in auto)
  then show ?thesis using assms(3) ring_cong by metis
qed

lemma ring_frame_remove:
  assumes "ring m l (xs @ n # ys)"
    and "ring m k zs" and "set (k # zs) \<inter> set (l # xs @ n # ys) = {}"
  shows "ring (rt_list_remove n m) k zs"
proof -
  have "nxt (m n) \<in> set (l # ys)"
    using ring_succ(1) [of m l "xs @ [n]" ys] assms(1) hd_in_set [of "ys @ [l]"] by simp
  moreover have "prv (m n) \<in> set (l # xs)"
    using ring_succ(2) [of m l xs "n # ys"] assms(1) last_in_set [of "l # xs"] by simp
  ultimately have "rt_list_remove n m x = m x" if "x \<in> set (k # zs)" for x
    by (intro remove_frame) (use that assms(3) in auto)
  then show ?thesis using assms(2) ring_cong by metis
qed

section \<open>Many rings over one memory\<close>

text \<open>
  Addresses of list nodes: the head of a list, or the node embedded in an object (for a
  thread, its \<^verbatim>\<open>tlist\<close> field).  A table gives the contents of every list.
\<close>

datatype ('h, 'n) addr = Head 'h | Node 'n

type_synonym ('h, 'n) table = "'h \<Rightarrow> 'n list"

definition unlinked :: "'n \<Rightarrow> ('h, 'n) table \<Rightarrow> bool" where
  "unlinked n L \<longleftrightarrow> (\<forall>h. n \<notin> set (L h))"

definition table_wf :: "('h, 'n) table \<Rightarrow> bool" where
  "table_wf L \<longleftrightarrow> (\<forall>h. distinct (L h)) \<and> (\<forall>h k. h \<noteq> k \<longrightarrow> set (L h) \<inter> set (L k) = {})"

definition rings :: "('h, 'n) addr list_mem \<Rightarrow> ('h, 'n) table \<Rightarrow> bool" where
  "rings m L \<longleftrightarrow> table_wf L \<and> (\<forall>h. ring m (Head h) (map Node (L h))) \<and>
     (\<forall>n. unlinked n L \<longrightarrow> ring m (Node n) [])"

text \<open>The table's version of the list operations.\<close>

definition tbl_append :: "'h \<Rightarrow> 'n \<Rightarrow> ('h, 'n) table \<Rightarrow> ('h, 'n) table" where
  "tbl_append h n L = L(h := L h @ [n])"

definition tbl_push :: "'h \<Rightarrow> 'n \<Rightarrow> ('h, 'n) table \<Rightarrow> ('h, 'n) table" where
  "tbl_push h n L = L(h := n # L h)"

definition tbl_remove :: "'n \<Rightarrow> ('h, 'n) table \<Rightarrow> ('h, 'n) table" where
  "tbl_remove n L = (\<lambda>h. removeAll n (L h))"

fun list_insert_before :: "'n \<Rightarrow> 'n \<Rightarrow> 'n list \<Rightarrow> 'n list" where
  "list_insert_before k n [] = []"
| "list_insert_before k n (x # xs) =
     (if x = k then n # x # xs else x # list_insert_before k n xs)"

definition tbl_insert_before :: "'n \<Rightarrow> 'n \<Rightarrow> ('h, 'n) table \<Rightarrow> ('h, 'n) table" where
  "tbl_insert_before k n L = (\<lambda>h. list_insert_before k n (L h))"

lemma list_insert_before_notin [simp]: "k \<notin> set xs \<Longrightarrow> list_insert_before k n xs = xs"
  by (induction xs) auto

lemma list_insert_before_split:
  "k \<notin> set xs \<Longrightarrow> list_insert_before k n (xs @ k # ys) = xs @ n # k # ys"
  by (induction xs) auto

lemma set_list_insert_before:
  "set (list_insert_before k n xs) = (if k \<in> set xs then insert n (set xs) else set xs)"
  by (induction xs) auto

lemma table_wf_at_most_one:
  "table_wf L \<Longrightarrow> n \<in> set (L h) \<Longrightarrow> n \<in> set (L k) \<Longrightarrow> h = k"
  by (auto simp: table_wf_def)

lemma tbl_remove_other: "table_wf L \<Longrightarrow> n \<in> set (L h) \<Longrightarrow>
   tbl_remove n L = L(h := removeAll n (L h))"
  by (rule ext) (auto simp: tbl_remove_def intro!: removeAll_notin dest: table_wf_at_most_one)

lemma tbl_remove_unlinked: "unlinked n L \<Longrightarrow> tbl_remove n L = L"
  by (auto simp: tbl_remove_def unlinked_def fun_eq_iff)

lemma unlinked_tbl_remove [simp]: "unlinked n (tbl_remove n L)"
  by (simp add: unlinked_def tbl_remove_def)

lemma table_wf_tbl_remove [simp]: "table_wf L \<Longrightarrow> table_wf (tbl_remove n L)"
  by (auto simp: table_wf_def tbl_remove_def distinct_removeAll)

lemma table_wf_tbl_append: "table_wf L \<Longrightarrow> unlinked n L \<Longrightarrow> table_wf (tbl_append h n L)"
  by (auto simp: table_wf_def tbl_append_def unlinked_def)

lemma table_wf_tbl_push: "table_wf L \<Longrightarrow> unlinked n L \<Longrightarrow> table_wf (tbl_push h n L)"
  by (auto simp: table_wf_def tbl_push_def unlinked_def)

lemma distinct_list_insert_before:
  "distinct xs \<Longrightarrow> n \<notin> set xs \<Longrightarrow> distinct (list_insert_before k n xs)"
  by (induction xs) (auto simp: set_list_insert_before)

lemma table_wf_tbl_insert_before:
  assumes "table_wf L" and "unlinked n L"
  shows "table_wf (tbl_insert_before k n L)"
proof -
  have "set (list_insert_before k n (L h)) \<inter> set (list_insert_before k n (L j)) = {}"
    if "h \<noteq> j" for h j
  proof -
    have "\<not> (k \<in> set (L h) \<and> k \<in> set (L j))" and "set (L h) \<inter> set (L j) = {}"
      using assms(1) that by (auto simp: table_wf_def)
    then show ?thesis using assms(2) by (auto simp: set_list_insert_before unlinked_def)
  qed
  then show ?thesis using assms
    by (auto simp: table_wf_def tbl_insert_before_def unlinked_def distinct_list_insert_before)
qed

lemma tbl_apply [simp]:
  "tbl_append h n L k = (if k = h then L h @ [n] else L k)"
  "tbl_push h n L k = (if k = h then n # L h else L k)"
  "tbl_remove n L k = removeAll n (L k)"
  "tbl_insert_before j n L k = list_insert_before j n (L k)"
  by (simp_all add: tbl_append_def tbl_push_def tbl_remove_def tbl_insert_before_def)

lemma unlinked_tbl_append [simp]: "unlinked j (tbl_append h n L) \<longleftrightarrow> j \<noteq> n \<and> unlinked j L"
  by (auto simp: unlinked_def tbl_append_def)

lemma unlinked_tbl_push [simp]: "unlinked j (tbl_push h n L) \<longleftrightarrow> j \<noteq> n \<and> unlinked j L"
  by (auto simp: unlinked_def tbl_push_def)

lemma unlinked_tbl_remove_iff: "unlinked j (tbl_remove n L) \<longleftrightarrow> j = n \<or> unlinked j L"
  by (auto simp: unlinked_def tbl_remove_def)

lemma unlinked_tbl_insert_before:
  "k \<in> set (L h) \<Longrightarrow> unlinked j (tbl_insert_before k n L) \<longleftrightarrow> j \<noteq> n \<and> unlinked j L"
  by (auto simp: unlinked_def tbl_insert_before_def set_list_insert_before)

section \<open>The interface of the kernel's thread lists\<close>

text \<open>
  A sequence of list operations, on any implementation and on the table.  The table refuses to
  link a node that is linked already, and to link one before a node that is not.
\<close>

datatype ('h, 'n) list_op = Append 'h 'n | Push 'h 'n | Before 'h 'n 'n | Unlink 'n

fun run_nodes :: "('h \<Rightarrow> 'n \<Rightarrow> 's \<Rightarrow> 's) \<Rightarrow> ('h \<Rightarrow> 'n \<Rightarrow> 's \<Rightarrow> 's) \<Rightarrow> ('n \<Rightarrow> 'n \<Rightarrow> 's \<Rightarrow> 's) \<Rightarrow>
    ('n \<Rightarrow> 's \<Rightarrow> 's) \<Rightarrow> ('h, 'n) list_op list \<Rightarrow> 's \<Rightarrow> 's" where
  "run_nodes ap pu be un [] s = s"
| "run_nodes ap pu be un (Append h n # ops) s = run_nodes ap pu be un ops (ap h n s)"
| "run_nodes ap pu be un (Push h n # ops) s = run_nodes ap pu be un ops (pu h n s)"
| "run_nodes ap pu be un (Before h k n # ops) s = run_nodes ap pu be un ops (be k n s)"
| "run_nodes ap pu be un (Unlink n # ops) s = run_nodes ap pu be un ops (un n s)"

inductive run_table :: "('h, 'n) list_op list \<Rightarrow> ('h, 'n) table \<Rightarrow> ('h, 'n) table \<Rightarrow> bool" where
  run_done: "run_table [] L L"
| run_append: "unlinked n L \<Longrightarrow> run_table ops (tbl_append h n L) L' \<Longrightarrow> run_table (Append h n # ops) L L'"
| run_push: "unlinked n L \<Longrightarrow> run_table ops (tbl_push h n L) L' \<Longrightarrow> run_table (Push h n # ops) L L'"
| run_before: "unlinked n L \<Longrightarrow> k \<in> set (L h) \<Longrightarrow> run_table ops (tbl_insert_before k n L) L' \<Longrightarrow>
    run_table (Before h k n # ops) L L'"
| run_unlink: "run_table ops (tbl_remove n L) L' \<Longrightarrow> run_table (Unlink n # ops) L L'"

locale node_table =
  fixes rep :: "'s \<Rightarrow> ('h, 'n) table \<Rightarrow> bool"
    and append_node :: "'h \<Rightarrow> 'n \<Rightarrow> 's \<Rightarrow> 's"
    and push_node :: "'h \<Rightarrow> 'n \<Rightarrow> 's \<Rightarrow> 's"
    and before_node :: "'n \<Rightarrow> 'n \<Rightarrow> 's \<Rightarrow> 's"
    and unlink_node :: "'n \<Rightarrow> 's \<Rightarrow> 's"
    and empty_list :: "'s \<Rightarrow> 'h \<Rightarrow> bool"
  assumes rep_wf: "rep s L \<Longrightarrow> table_wf L"
    and rep_append: "rep s L \<Longrightarrow> unlinked n L \<Longrightarrow> rep (append_node h n s) (tbl_append h n L)"
    and rep_push: "rep s L \<Longrightarrow> unlinked n L \<Longrightarrow> rep (push_node h n s) (tbl_push h n L)"
    and rep_before: "rep s L \<Longrightarrow> unlinked n L \<Longrightarrow> k \<in> set (L h) \<Longrightarrow>
       rep (before_node k n s) (tbl_insert_before k n L)"
    and rep_unlink: "rep s L \<Longrightarrow> rep (unlink_node n s) (tbl_remove n L)"
    and rep_empty: "rep s L \<Longrightarrow> empty_list s h \<longleftrightarrow> L h = []"
begin

text \<open>Every sequence of operations is simulated on the table.\<close>

lemma run_rep:
  "run_table ops L L' \<Longrightarrow> rep s L \<Longrightarrow> rep (run_nodes append_node push_node before_node unlink_node ops s) L'"
  by (induction arbitrary: s rule: run_table.induct) (auto intro: rep_append rep_push rep_before rep_unlink)

text \<open>Moving a node to the back of a list, wherever it was before.\<close>

lemma rep_move_back: "rep s L \<Longrightarrow>
   rep (append_node h n (unlink_node n s)) (tbl_append h n (tbl_remove n L))"
  by (simp add: rep_append rep_unlink)

text \<open>Taking the first node off a list leaves the rest and no other list changed.\<close>

lemma rep_take_first: "rep s L \<Longrightarrow> L h = n # ns \<Longrightarrow> rep (unlink_node n s) (L(h := ns))"
proof -
  assume s: "rep s L" and h: "L h = n # ns"
  from s have wf: "table_wf L" by (rule rep_wf)
  then have "distinct (L h)" by (simp add: table_wf_def)
  then have "tbl_remove n L = L(h := ns)"
    using h by (simp add: tbl_remove_other [OF wf, of n h])
  then show ?thesis using rep_unlink [OF s, of n] by simp
qed

text \<open>A node put at the back of an empty list is the only one there.\<close>

lemma rep_append_empty: "rep s L \<Longrightarrow> unlinked n L \<Longrightarrow> empty_list s h \<Longrightarrow>
   rep (append_node h n s) (L(h := [n]))"
  using rep_append [of s L n h] rep_empty [of s L h] by (simp add: tbl_append_def)

text \<open>Linking a node and unlinking it again restores every list.\<close>

lemma rep_append_unlink: "rep s L \<Longrightarrow> unlinked n L \<Longrightarrow> rep (unlink_node n (append_node h n s)) L"
proof -
  assume s: "rep s L" and n: "unlinked n L"
  have "tbl_remove n (tbl_append h n L) = L"
    using n by (auto simp: tbl_remove_def tbl_append_def unlinked_def fun_eq_iff)
  then show ?thesis using rep_unlink [OF rep_append [OF s n, of h], of n] by simp
qed

end

section \<open>The pointer operations implement the interface\<close>

lemma rings_disjoint: "rings m L \<Longrightarrow> h \<noteq> k \<Longrightarrow>
   set (Head h # map Node (L h)) \<inter> set (Head k # map Node (L k)) = {}"
  by (auto simp: rings_def table_wf_def)

lemma rings_ring: "rings m L \<Longrightarrow> ring m (Head h) (map Node (L h))"
  by (simp add: rings_def)

lemma ringsI:
  assumes "table_wf L" and "\<And>h. ring m (Head h) (map Node (L h))"
    and "\<And>n. unlinked n L \<Longrightarrow> ring m (Node n) []"
  shows "rings m L"
  using assms by (simp add: rings_def)

lemma rings_append:
  assumes R: "rings m L" and n: "unlinked n L"
  shows "rings (rt_list_insert_before (Head h) (Node n) m) (tbl_append h n L)"
proof -
  let ?m = "rt_list_insert_before (Head h) (Node n) m"
  have here: "ring m (Head h) (map Node (L h) @ [])" using rings_ring [OF R] by simp
  have fresh: "Node n \<notin> set (Head h # map Node (L h) @ [])"
    using n by (auto simp: unlinked_def)
  have "ring ?m (Head h) (map Node (L h @ [n]))"
    using ring_insert_before [OF here fresh] by simp
  moreover have "ring ?m (Head k) (map Node (L k))" if "k \<noteq> h" for k
    by (rule ring_frame_insert_before [OF here])
      (use rings_ring [OF R, of k] rings_disjoint [OF R that] n in \<open>auto simp: unlinked_def\<close>)
  moreover have "ring ?m (Node j) []" if "unlinked j L" "j \<noteq> n" for j
    by (rule ring_frame_insert_before [OF here])
      (use R that in \<open>auto simp: rings_def unlinked_def\<close>)
  ultimately show ?thesis
    by (intro ringsI) (use R n in \<open>auto simp: rings_def table_wf_tbl_append\<close>)
qed

lemma rings_push:
  assumes R: "rings m L" and n: "unlinked n L"
  shows "rings (rt_list_insert_after (Head h) (Node n) m) (tbl_push h n L)"
proof -
  let ?m = "rt_list_insert_after (Head h) (Node n) m"
  have here: "ring m (Head h) ([] @ map Node (L h))" using rings_ring [OF R] by simp
  have fresh: "Node n \<notin> set (Head h # [] @ map Node (L h))"
    using n by (auto simp: unlinked_def)
  have "ring ?m (Head h) (map Node (n # L h))"
    using ring_insert_after [OF here fresh] by simp
  moreover have "ring ?m (Head k) (map Node (L k))" if "k \<noteq> h" for k
    by (rule ring_frame_insert_after [OF here])
      (use rings_ring [OF R, of k] rings_disjoint [OF R that] n in \<open>auto simp: unlinked_def\<close>)
  moreover have "ring ?m (Node j) []" if "unlinked j L" "j \<noteq> n" for j
    by (rule ring_frame_insert_after [OF here])
      (use R that in \<open>auto simp: rings_def unlinked_def\<close>)
  ultimately show ?thesis
    by (intro ringsI) (use R n in \<open>auto simp: rings_def table_wf_tbl_push\<close>)
qed

lemma rings_before:
  assumes R: "rings m L" and n: "unlinked n L" and k: "k \<in> set (L h)"
  shows "rings (rt_list_insert_before (Node k) (Node n) m) (tbl_insert_before k n L)"
proof -
  let ?m = "rt_list_insert_before (Node k) (Node n) m"
  have wf: "table_wf L" using R by (simp add: rings_def)
  obtain xs ys where xy: "L h = xs @ k # ys" "k \<notin> set xs"
    using k by (meson split_list_first)
  have here: "ring m (Head h) (map Node xs @ map Node (k # ys))"
    using rings_ring [OF R, of h] xy by simp
  have fresh: "Node n \<notin> set (Head h # map Node xs @ map Node (k # ys))"
    using n xy by (auto simp: unlinked_def dest: spec [of _ h])
  have other: "k \<notin> set (L j)" if "j \<noteq> h" for j
    using wf k that by (auto dest: table_wf_at_most_one)
  have "ring ?m (Head h) (map Node (list_insert_before k n (L h)))"
    using ring_insert_before [OF here fresh] xy by (simp add: list_insert_before_split)
  moreover have "ring ?m (Head j) (map Node (L j))" if "j \<noteq> h" for j
    by (rule ring_frame_insert_before [OF here])
      (use rings_ring [OF R, of j] rings_disjoint [OF R that] n xy in
        \<open>auto simp: unlinked_def\<close>)
  moreover have "ring ?m (Node j) []" if "unlinked j L" "j \<noteq> n" for j
    by (rule ring_frame_insert_before [OF here])
      (use R that xy in \<open>auto simp: rings_def unlinked_def dest: spec [of _ h]\<close>)
  ultimately show ?thesis
    using other table_wf_tbl_insert_before [OF wf n] unlinked_tbl_insert_before [where L = L, OF k]
    by (intro ringsI) (auto, metis list_insert_before_notin)
qed

lemma rings_unlink:
  assumes R: "rings m L"
  shows "rings (rt_list_remove (Node n) m) (tbl_remove n L)"
proof (cases "unlinked n L")
  case True
  then have "rt_list_remove (Node n) m = m"
    using R by (simp add: rings_def remove_unlinked)
  then show ?thesis using R True by (simp add: tbl_remove_unlinked)
next
  case False
  let ?m = "rt_list_remove (Node n) m"
  have wf: "table_wf L" using R by (simp add: rings_def)
  from False obtain h where n: "n \<in> set (L h)" by (auto simp: unlinked_def)
  then obtain xs ys where xy: "L h = xs @ n # ys" by (meson split_list)
  have here: "ring m (Head h) (map Node xs @ Node n # map Node ys)"
    using rings_ring [OF R, of h] xy by simp
  have rest: "removeAll n (L h) = xs @ ys"
    using wf distinct_split_removeAll [of xs n ys] by (metis xy table_wf_def)
  have "ring ?m (Head h) (map Node (xs @ ys))" and own: "ring ?m (Node n) []"
    using ring_remove [OF here] by simp_all
  moreover have "ring ?m (Head k) (map Node (L k))" if "k \<noteq> h" for k
    by (rule ring_frame_remove [OF here])
      (use rings_ring [OF R, of k] rings_disjoint [OF R that] xy in auto)
  moreover have "ring ?m (Node j) []" if "unlinked j L" for j
    by (rule ring_frame_remove [OF here])
      (use R that xy in \<open>auto simp: rings_def unlinked_def dest: spec [of _ h]\<close>)
  ultimately show ?thesis using wf rest
    by (intro ringsI) (auto simp: unlinked_tbl_remove_iff, metis removeAll_notin n wf table_wf_at_most_one rest map_append)
qed

interpretation ptr: node_table rings
  "\<lambda>h n. rt_list_insert_before (Head h) (Node n)"
  "\<lambda>h n. rt_list_insert_after (Head h) (Node n)"
  "\<lambda>k n. rt_list_insert_before (Node k) (Node n)"
  "\<lambda>n. rt_list_remove (Node n)"
  "\<lambda>m h. rt_list_isempty m (Head h)"
proof unfold_locales
  show "table_wf L" if "rings m L" for m L
    using that by (simp add: rings_def)
  show "rt_list_isempty m (Head h) \<longleftrightarrow> L h = []" if "rings m L" for m L h
    using ring_isempty [OF rings_ring [OF that, of h]] by simp
qed (fact rings_append rings_push rings_before rings_unlink)+

text \<open>The table operations the kernel theories use satisfy the same interface.\<close>

interpretation tbl: node_table "\<lambda>s L. s = L \<and> table_wf L"
  tbl_append tbl_push tbl_insert_before tbl_remove "\<lambda>L h. L h = []"
  by unfold_locales
    (auto simp: table_wf_tbl_append table_wf_tbl_push table_wf_tbl_insert_before)

section \<open>Properties\<close>

text \<open>
  C36: The pointer operations on the intrusive lists implement lists: any sequence of linking a
  node at the back, at the front or before another node, and of unlinking, turns a memory that
  represents a table of lists into one that represents the table with the lists changed the same
  way; in particular the walk that counts a list ends, with its length.
\<close>

theorem rt_list_refines_table:
  assumes "rings m L" "run_table ops L L'"
  defines "m' \<equiv> run_nodes (\<lambda>h n. rt_list_insert_before (Head h) (Node n)) (\<lambda>h n. rt_list_insert_after (Head h) (Node n))
     (\<lambda>k n. rt_list_insert_before (Node k) (Node n)) (\<lambda>n. rt_list_remove (Node n)) ops m"
  shows "rings m' L' \<and> (\<forall>h. rt_list_len m' (Head h) = Some (length (L' h)) \<and> (rt_list_isempty m' (Head h) \<longleftrightarrow> L' h = []))"
proof -
  have r: "rings m' L'" unfolding m'_def by (rule ptr.run_rep [OF assms(2,1)])
  then show ?thesis using rings_ring [OF r] rt_list_len_ring ptr.rep_empty [OF r] by fastforce
qed

end
