(* ===== verification/Ffs.thy ===== *)
theory Ffs
  imports Prelude
begin

text \<open>
  Find-first-set, on which the scheduler's constant-time choice of the next thread rests:
  the Cortex-M3 version of \<^verbatim>\<open>libcpu/arm/cortex-m3/cpuport.c\<close> (bit reversal, then count
  of leading zeros), which this configuration selects, and the portable table-driven
  version of \<^verbatim>\<open>src/kservice.c\<close>.  Both are shown to compute the index, counted from one,
  of the least significant bit set.
\<close>

section \<open>The two routines\<close>

text \<open>The instructions \<^verbatim>\<open>RBIT\<close> and \<^verbatim>\<open>CLZ\<close> of the Cortex-M3.\<close>

definition rbit :: "rt_uint32 \<Rightarrow> rt_uint32" where
  "rbit v = horner_sum of_bool 2 (rev (map (bit v) [0..<32]))"

definition clz :: "rt_uint32 \<Rightarrow> nat" where
  "clz v = length (takeWhile Not (map (bit v) (rev [0..<32])))"

definition rt_ffs :: "rt_uint32 \<Rightarrow> nat" where
  "rt_ffs v = (if v = 0 then 0 else clz (rbit v) + 1)"

definition lowest_bit_bitmap :: "nat list" where
  "lowest_bit_bitmap =
  [0, 0, 1, 0, 2, 0, 1, 0, 3, 0, 1, 0, 2, 0, 1, 0,
   4, 0, 1, 0, 2, 0, 1, 0, 3, 0, 1, 0, 2, 0, 1, 0,
   5, 0, 1, 0, 2, 0, 1, 0, 3, 0, 1, 0, 2, 0, 1, 0,
   4, 0, 1, 0, 2, 0, 1, 0, 3, 0, 1, 0, 2, 0, 1, 0,
   6, 0, 1, 0, 2, 0, 1, 0, 3, 0, 1, 0, 2, 0, 1, 0,
   4, 0, 1, 0, 2, 0, 1, 0, 3, 0, 1, 0, 2, 0, 1, 0,
   5, 0, 1, 0, 2, 0, 1, 0, 3, 0, 1, 0, 2, 0, 1, 0,
   4, 0, 1, 0, 2, 0, 1, 0, 3, 0, 1, 0, 2, 0, 1, 0,
   7, 0, 1, 0, 2, 0, 1, 0, 3, 0, 1, 0, 2, 0, 1, 0,
   4, 0, 1, 0, 2, 0, 1, 0, 3, 0, 1, 0, 2, 0, 1, 0,
   5, 0, 1, 0, 2, 0, 1, 0, 3, 0, 1, 0, 2, 0, 1, 0,
   4, 0, 1, 0, 2, 0, 1, 0, 3, 0, 1, 0, 2, 0, 1, 0,
   6, 0, 1, 0, 2, 0, 1, 0, 3, 0, 1, 0, 2, 0, 1, 0,
   4, 0, 1, 0, 2, 0, 1, 0, 3, 0, 1, 0, 2, 0, 1, 0,
   5, 0, 1, 0, 2, 0, 1, 0, 3, 0, 1, 0, 2, 0, 1, 0,
   4, 0, 1, 0, 2, 0, 1, 0, 3, 0, 1, 0, 2, 0, 1, 0]"

definition rt_ffs_table :: "rt_uint32 \<Rightarrow> nat" where
  "rt_ffs_table v =
     (if v = 0 then 0
      else if v AND 0xFF \<noteq> 0 then lowest_bit_bitmap ! unat (v AND 0xFF) + 1
      else if v AND 0xFF00 \<noteq> 0 then lowest_bit_bitmap ! unat (drop_bit 8 (v AND 0xFF00)) + 9
      else if v AND 0xFF0000 \<noteq> 0
        then lowest_bit_bitmap ! unat (drop_bit 16 (v AND 0xFF0000)) + 17
      else lowest_bit_bitmap ! unat (drop_bit 24 (v AND 0xFF000000)) + 25)"

section \<open>What they compute\<close>

text \<open>\<open>first_set v k\<close>: bit \<open>k\<close> is the least significant bit set in \<open>v\<close>.\<close>

definition first_set :: "rt_uint32 \<Rightarrow> nat \<Rightarrow> bool" where
  "first_set v k \<longleftrightarrow> k < 32 \<and> bit v k \<and> (\<forall>j<k. \<not> bit v j)"

lemma first_set_unique: "first_set v j \<Longrightarrow> first_set v k \<Longrightarrow> j = k"
  by (auto simp: first_set_def) (metis linorder_neqE_nat)

lemma takeWhile_first:
  "\<exists>b\<in>set bs. b \<Longrightarrow> length (takeWhile Not bs) < length bs \<and> bs ! length (takeWhile Not bs) \<and>
     (\<forall>j < length (takeWhile Not bs). \<not> bs ! j)"
proof (induction bs)
  case (Cons b bs)
  then show ?case by (cases b) (auto simp: nth_Cons split: nat.splits)
qed simp

lemma bits_rbit: "map (bit (rbit v)) (rev [0..<32]) = map (bit v) [0..<32]"
proof (rule nth_equalityI)
  fix i assume "i < length (map (bit (rbit v)) (rev [0..<32]))"
  then have i: "i < 32" by simp
  have "bit (rbit v) (31 - i) \<longleftrightarrow> bit v i"
    using i by (auto simp: rbit_def bit_horner_sum_bit_word_iff rev_nth)
  then show "map (bit (rbit v)) (rev [0..<32]) ! i = map (bit v) [0..<32] ! i"
    using i by (simp add: rev_nth)
qed simp

lemma rt_ffs_first_set: "v \<noteq> 0 \<Longrightarrow> first_set v (rt_ffs v - 1)"
proof -
  assume "v \<noteq> 0"
  then obtain n where n: "bit v n" by (metis bit_eq_iff bit_0_eq bot_apply bot_bool_def)
  then have "n < 32" using bit_imp_le_length [of v n] by simp
  then have "\<exists>b\<in>set (map (bit v) [0..<32]). b" using n by auto
  from takeWhile_first [OF this] \<open>v \<noteq> 0\<close> show ?thesis
    by (auto simp: rt_ffs_def clz_def bits_rbit first_set_def simp del: upt.simps)
qed

lemma rt_ffs_pos: "v \<noteq> 0 \<Longrightarrow> 0 < rt_ffs v"
  by (simp add: rt_ffs_def)

text \<open>The table lists, for every byte but zero, its least significant bit set.\<close>

fun lowest_ok :: "nat \<Rightarrow> nat list \<Rightarrow> bool" where
  "lowest_ok b [] \<longleftrightarrow> True"
| "lowest_ok b (k # ks) \<longleftrightarrow> k < 8 \<and> odd (b div 2 ^ k) \<and> b mod 2 ^ k = 0 \<and> lowest_ok (b + 1) ks"

lemma lowest_bit_bitmap_ok: "lowest_ok 1 (tl lowest_bit_bitmap)"
  by (simp add: lowest_bit_bitmap_def)

lemma lowest_ok_nth: "lowest_ok b ks \<Longrightarrow> i < length ks \<Longrightarrow>
   ks ! i < 8 \<and> odd ((b + i) div 2 ^ (ks ! i)) \<and> (b + i) mod 2 ^ (ks ! i) = 0"
proof (induction ks arbitrary: b i)
  case (Cons k ks)
  then show ?case by (cases i) fastforce+
qed simp

lemma lowest_bit_byte:
  assumes "0 < b" "b < 256"
  shows "lowest_bit_bitmap ! b < 8" and "odd (b div 2 ^ (lowest_bit_bitmap ! b))"
    and "\<And>j. j < lowest_bit_bitmap ! b \<Longrightarrow> even (b div 2 ^ j)"
proof -
  have "length lowest_bit_bitmap = 256" by (simp add: lowest_bit_bitmap_def)
  then have *: "tl lowest_bit_bitmap ! (b - 1) = lowest_bit_bitmap ! b"
    "b - 1 < length (tl lowest_bit_bitmap)"
    using assms by (simp_all add: nth_tl)
  note k = lowest_ok_nth [OF lowest_bit_bitmap_ok *(2), unfolded *(1)]
  show "lowest_bit_bitmap ! b < 8" "odd (b div 2 ^ (lowest_bit_bitmap ! b))" using k assms by auto
  fix j assume j: "j < lowest_bit_bitmap ! b"
  have "(2 :: nat) ^ Suc j dvd 2 ^ (lowest_bit_bitmap ! b)" using j by (intro le_imp_power_dvd) simp
  also have "\<dots> dvd b" using k assms by (simp add: mod_eq_0_iff_dvd)
  finally show "even (b div 2 ^ j)"
    by (auto elim!: dvdE)
qed

text \<open>One byte of the word, at bit offset \<open>n\<close>, with every lower bit clear.\<close>

lemma first_set_byte:
  fixes v :: rt_uint32
  assumes n: "n + 8 \<le> 32" and b: "unat (drop_bit n v AND 0xFF) = b" and "b \<noteq> 0"
    and low: "\<And>j. j < n \<Longrightarrow> \<not> bit v j"
  shows "first_set v (lowest_bit_bitmap ! b + n)"
proof -
  have mask: "(0xFF :: rt_uint32) = mask 8" by (simp add: mask_eq_exp_minus_1)
  have b': "b = take_bit 8 (unat (drop_bit n v))"
    using b by (simp add: mask flip: take_bit_eq_mask unsigned_take_bit_eq)
  then have "b < 256" using take_bit_nat_less_exp [of 8 "unat (drop_bit n v)"] by simp
  have bits: "bit v (k + n) \<longleftrightarrow> odd (b div 2 ^ k)" if "k < 8" for k
  proof -
    have "bit b k \<longleftrightarrow> bit v (k + n)"
      using that by (simp add: b' bit_simps add.commute)
    then show ?thesis by (simp add: bit_iff_odd)
  qed
  let ?k = "lowest_bit_bitmap ! b"
  note k = lowest_bit_byte [of b]
  have "?k < 8" using k(1) \<open>b \<noteq> 0\<close> \<open>b < 256\<close> by simp
  moreover have "bit v (?k + n)" using k(2) bits [of ?k] \<open>b \<noteq> 0\<close> \<open>b < 256\<close> calculation by simp
  moreover have "\<not> bit v j" if "j < ?k + n" for j
  proof (cases "j < n")
    case False
    then have "j - n < ?k" using that by simp
    then have "even (b div 2 ^ (j - n))" using k(3) \<open>b \<noteq> 0\<close> \<open>b < 256\<close> by simp
    then show ?thesis using bits [of "j - n"] \<open>j - n < ?k\<close> \<open>?k < 8\<close> False by simp
  qed (rule low)
  ultimately show ?thesis using n by (simp add: first_set_def)
qed

text \<open>The masks of the four bytes of a word.\<close>

lemma byte_masks:
  "(0xFF :: rt_uint32) = push_bit 0 (mask 8)" "(0xFF00 :: rt_uint32) = push_bit 8 (mask 8)"
  "(0xFF0000 :: rt_uint32) = push_bit 16 (mask 8)"
  "(0xFF000000 :: rt_uint32) = push_bit 24 (mask 8)"
  by (simp_all add: mask_eq_exp_minus_1 push_bit_eq_mult)

lemma drop_masked_byte:
  "drop_bit n (push_bit n (mask 8)) = (mask 8 :: rt_uint32)" if "n + 8 \<le> 32"
  using that by (intro bit_word_eqI) (auto simp: bit_simps)

lemma masked_byte_zero:
  "(v :: rt_uint32) AND push_bit n (mask 8) = 0 \<Longrightarrow> n + 8 \<le> 32 \<Longrightarrow> n \<le> j \<Longrightarrow> j < n + 8 \<Longrightarrow> \<not> bit v j"
proof
  assume z: "v AND push_bit n (mask 8) = 0" and j: "n + 8 \<le> 32" "n \<le> j" "j < n + 8" and "bit v j"
  from j \<open>bit v j\<close> have "bit (v AND push_bit n (mask 8)) j" by (auto simp: bit_simps)
  then show False using z by (simp only: bit_0_eq bot_apply bot_bool_def)
qed

lemma masked_byte_nonzero:
  "(v :: rt_uint32) AND push_bit n (mask 8) \<noteq> 0 \<Longrightarrow> n + 8 \<le> 32 \<Longrightarrow>
    unat (drop_bit n v AND 0xFF) \<noteq> 0"
proof
  assume z: "v AND push_bit n (mask 8) \<noteq> 0" and n: "n + 8 \<le> 32"
    and "unat (drop_bit n v AND 0xFF) = 0"
  then have "drop_bit n v AND 0xFF = 0" by (simp add: unsigned_eq_0_iff)
  then have *: "bit (drop_bit n v AND mask 8) i = False" for i
    by (simp add: mask_eq_exp_minus_1)
  have "\<not> bit v (n + i)" if "i < 8" for i using * [of i] that n by (simp add: bit_simps)
  then have "\<not> bit (v AND push_bit n (mask 8)) j" for j
    by (auto simp: bit_simps) (metis le_add_diff_inverse)
  then show False using z by (simp add: bit_eq_iff)
qed

lemma rt_ffs_table_first_set: "v \<noteq> 0 \<Longrightarrow> first_set v (rt_ffs_table v - 1)"
proof -
  assume v: "v \<noteq> 0"
  let ?Z = "\<lambda>n. v AND push_bit n (mask 8) = 0"
  have low: "?Z 0 \<Longrightarrow> j < 8 \<Longrightarrow> \<not> bit v j"
    "?Z 0 \<Longrightarrow> ?Z 8 \<Longrightarrow> j < 16 \<Longrightarrow> \<not> bit v j"
    "?Z 0 \<Longrightarrow> ?Z 8 \<Longrightarrow> ?Z 16 \<Longrightarrow> j < 24 \<Longrightarrow> \<not> bit v j" for j
    using masked_byte_zero [of v 0 j] masked_byte_zero [of v 8 j] masked_byte_zero [of v 16 j]
    by force+
  consider "\<not> ?Z 0" | "?Z 0" "\<not> ?Z 8" | "?Z 0" "?Z 8" "\<not> ?Z 16"
    | "?Z 0" "?Z 8" "?Z 16" "\<not> ?Z 24"
  proof -
    have "\<exists>j. bit v j" using v by (metis bit_eq_iff bit_0_eq bot_apply bot_bool_def)
    then obtain j where j: "bit v j" "j < 32" using bit_imp_le_length [of v] by auto
    then have "\<not> (?Z 0 \<and> ?Z 8 \<and> ?Z 16 \<and> ?Z 24)"
      using low(3) [of j] masked_byte_zero [of v 24 j] by force
    then show thesis using that by blast
  qed
  then show ?thesis
  proof cases
    case 1
    then show ?thesis using first_set_byte [of 0 v] masked_byte_nonzero [of v 0] v
      by (simp add: rt_ffs_table_def byte_masks(1))
  next
    case 2
    then show ?thesis using first_set_byte [of 8 v] masked_byte_nonzero [of v 8] v low(1)
      by (simp add: rt_ffs_table_def byte_masks drop_masked_byte add.commute)
  next
    case 3
    then show ?thesis using first_set_byte [of 16 v] masked_byte_nonzero [of v 16] v low(2)
      by (simp add: rt_ffs_table_def byte_masks drop_masked_byte add.commute)
  next
    case 4
    then show ?thesis using first_set_byte [of 24 v] masked_byte_nonzero [of v 24] v low(3)
      by (simp add: rt_ffs_table_def byte_masks drop_masked_byte add.commute)
  qed
qed

text \<open>The portable routine and the Cortex-M3 one agree on every word.\<close>

lemma rt_ffs_table_eq: "rt_ffs_table v = rt_ffs v"
proof (cases "v = 0")
  case False
  have "rt_ffs_table v - 1 = rt_ffs v - 1"
    using rt_ffs_table_first_set [OF False] rt_ffs_first_set [OF False] by (rule first_set_unique)
  moreover have "0 < rt_ffs_table v" using False by (simp add: rt_ffs_table_def)
  ultimately show ?thesis using rt_ffs_pos [OF False] by simp
qed (simp add: rt_ffs_table_def rt_ffs_def)

section \<open>Properties\<close>

text \<open>
  Find-first-set: the Cortex-M3 routine and the portable, table-driven one agree on every
  32-bit word; they give 0 on 0, and otherwise one more than the index of the lowest set bit,
  which is the highest priority in the ready bitmap.
\<close>

theorem rt_ffs_lowest_bit:
  "rt_ffs_table v = rt_ffs v \<and>
   (if v = 0 then rt_ffs v = 0
    else 0 < rt_ffs v \<and> rt_ffs v \<le> 32 \<and> bit v (rt_ffs v - 1) \<and> (\<forall>j. j < rt_ffs v - 1 \<longrightarrow> \<not> bit v j))"
proof (cases "v = 0")
  case True
  then show ?thesis by (simp add: rt_ffs_table_eq [symmetric] rt_ffs_table_def)
next
  case False
  note F = rt_ffs_first_set [OF False, unfolded first_set_def] rt_ffs_pos [OF False]
  have "rt_ffs v - 1 < 32" using bit_imp_le_length [of v "rt_ffs v - 1"] F(1) by simp
  then have "rt_ffs v \<le> 32" by linarith
  then show ?thesis using F rt_ffs_table_eq False by auto
qed

end
