(* ===== verification/KernelState.thy ===== *)
theory KernelState
  imports RtList Ffs
begin

text \<open>
  The state of the kernel: the structures of \<^verbatim>\<open>include/rtdef.h\<close> as records, and the global
  variables of \<^verbatim>\<open>src/scheduler.c\<close>, \<^verbatim>\<open>src/timer.c\<close>, \<^verbatim>\<open>src/clock.c\<close>,
  \<^verbatim>\<open>src/irq.c\<close>, \<^verbatim>\<open>src/object.c\<close> and \<^verbatim>\<open>src/idle.c\<close> as the fields of
  \<open>kstate\<close>.

  A pointer to a kernel structure is an identifier (never \<^verbatim>\<open>RT_NULL\<close>, so the non-null
  assertions of the source hold by typing; a pointer that may be null is an \<open>option\<close>).
  Every structure begins with its \<^verbatim>\<open>struct rt_object\<close> header; the headers are kept in one
  map from \<open>kobj\<close>, the address of any kernel object.  The intrusive lists are kept as
  the tables of \<open>RtList\<close>, whose operations the pointer operations implement.

  Initial memory is zero, as for the statically allocated objects of a C program.
\<close>

section \<open>Objects, timers and threads\<close>

type_synonym tid = nat
type_synonym oid = nat

text \<open>A timer is the one embedded in a thread, or one the application owns.\<close>

datatype timer_id = ThreadTimer tid | UserTimer oid

datatype kobj =
    KThread tid | KSem oid | KMutex oid | KEvent oid | KMailbox oid | KMq oid
  | KMemPool oid | KDevice oid | KTimer timer_id

text \<open>The class codes of \<^verbatim>\<open>enum rt_object_class_type\<close>.\<close>

abbreviation (input) RT_Object_Class_Null :: rt_uint8 where "RT_Object_Class_Null \<equiv> 0"
abbreviation (input) RT_Object_Class_Thread :: rt_uint8 where "RT_Object_Class_Thread \<equiv> 1"
abbreviation (input) RT_Object_Class_Semaphore :: rt_uint8 where "RT_Object_Class_Semaphore \<equiv> 2"
abbreviation (input) RT_Object_Class_Mutex :: rt_uint8 where "RT_Object_Class_Mutex \<equiv> 3"
abbreviation (input) RT_Object_Class_Event :: rt_uint8 where "RT_Object_Class_Event \<equiv> 4"
abbreviation (input) RT_Object_Class_MailBox :: rt_uint8 where "RT_Object_Class_MailBox \<equiv> 5"
abbreviation (input) RT_Object_Class_MessageQueue :: rt_uint8 where
  "RT_Object_Class_MessageQueue \<equiv> 6"
abbreviation (input) RT_Object_Class_MemPool :: rt_uint8 where "RT_Object_Class_MemPool \<equiv> 8"
abbreviation (input) RT_Object_Class_Device :: rt_uint8 where "RT_Object_Class_Device \<equiv> 9"
abbreviation (input) RT_Object_Class_Timer :: rt_uint8 where "RT_Object_Class_Timer \<equiv> 10"
abbreviation (input) RT_Object_Class_Unknown :: rt_uint8 where "RT_Object_Class_Unknown \<equiv> 12"
abbreviation (input) RT_Object_Class_Static :: rt_uint8 where "RT_Object_Class_Static \<equiv> 0x80"

record rt_object =
  o_name :: "rt_uint8 list"
  o_type :: rt_uint8
  o_flag :: rt_uint8

text \<open>
  The timeout function of a timer together with its parameter: the kernel's
  \<^verbatim>\<open>rt_thread_timeout\<close> on a thread, or a function of the application.
\<close>

datatype timeout_fn = TF_thread_timeout tid | TF_user nat rt_uint32

record rt_timer =
  tm_func :: timeout_fn
  tm_init_tick :: rt_uint32
  tm_timeout_tick :: rt_uint32

abbreviation (input) RT_TIMER_FLAG_ACTIVATED :: rt_uint8 where "RT_TIMER_FLAG_ACTIVATED \<equiv> 1"
abbreviation (input) RT_TIMER_FLAG_PERIODIC :: rt_uint8 where "RT_TIMER_FLAG_PERIODIC \<equiv> 2"
abbreviation (input) RT_TIMER_FLAG_SOFT_TIMER :: rt_uint8 where "RT_TIMER_FLAG_SOFT_TIMER \<equiv> 4"

record rt_thread =
  th_sp :: rt_uint32
  th_entry :: rt_uint32
  th_parameter :: rt_uint32
  th_stack_addr :: rt_uint32
  th_stack_size :: rt_uint32
  th_error :: rt_err
  th_stat :: rt_uint8
  th_current_priority :: rt_uint8
  th_init_priority :: rt_uint8
  th_number_mask :: rt_uint32
  th_event_set :: rt_uint32
  th_event_info :: rt_uint8
  th_init_tick :: rt_uint32
  th_remaining_tick :: rt_uint32
  th_cleanup :: "nat option"
  th_user_data :: rt_uint32

abbreviation (input) RT_THREAD_INIT :: rt_uint8 where "RT_THREAD_INIT \<equiv> 0"
abbreviation (input) RT_THREAD_READY :: rt_uint8 where "RT_THREAD_READY \<equiv> 1"
abbreviation (input) RT_THREAD_SUSPEND :: rt_uint8 where "RT_THREAD_SUSPEND \<equiv> 2"
abbreviation (input) RT_THREAD_RUNNING :: rt_uint8 where "RT_THREAD_RUNNING \<equiv> 3"
abbreviation (input) RT_THREAD_CLOSE :: rt_uint8 where "RT_THREAD_CLOSE \<equiv> 4"
abbreviation (input) RT_THREAD_STAT_MASK :: rt_uint8 where "RT_THREAD_STAT_MASK \<equiv> 7"
abbreviation (input) RT_THREAD_STAT_YIELD :: rt_uint8 where "RT_THREAD_STAT_YIELD \<equiv> 8"
abbreviation (input) RT_THREAD_PRIORITY_MAX :: nat where "RT_THREAD_PRIORITY_MAX \<equiv> 32"

text \<open>
  \<^verbatim>\<open>1 << priority\<close>, the bit of a priority in the ready bitmap; the Cortex-M shift by 32 or
  more gives zero.
\<close>

definition prio_mask :: "nat \<Rightarrow> rt_uint32" where
  "prio_mask p = push_bit p 1"

section \<open>Inter-process communication and memory pools\<close>

abbreviation (input) RT_IPC_FLAG_FIFO :: rt_uint8 where "RT_IPC_FLAG_FIFO \<equiv> 0"
abbreviation (input) RT_IPC_FLAG_PRIO :: rt_uint8 where "RT_IPC_FLAG_PRIO \<equiv> 1"
abbreviation (input) RT_IPC_CMD_RESET :: int where "RT_IPC_CMD_RESET \<equiv> 1"

record rt_semaphore =
  sem_value :: rt_uint16

record rt_mutex =
  mtx_value :: rt_uint16
  mtx_original_priority :: rt_uint8
  mtx_hold :: rt_uint8
  mtx_owner :: "tid option"

record rt_event =
  ev_set :: rt_uint32

text \<open>The message pool of a mailbox is the array of its \<open>size\<close> words.\<close>

record rt_mailbox =
  mb_msg_pool :: "rt_uint32 list"
  mb_size :: rt_uint16
  mb_entry :: rt_uint16
  mb_in_offset :: rt_uint16
  mb_out_offset :: rt_uint16

text \<open>
  A message of a message queue is addressed by its slot in the pool.  \<open>msg_next\<close> is the
  \<^verbatim>\<open>next\<close> field of its \<^verbatim>\<open>struct rt_mq_message\<close>, \<open>msg_data\<close> the bytes after it.
\<close>

record rt_messagequeue =
  mq_msg_size :: rt_uint16
  mq_max_msgs :: rt_uint16
  mq_entry :: rt_uint16
  mq_head :: "nat option"
  mq_tail :: "nat option"
  mq_free :: "nat option"
  mq_next :: "nat \<Rightarrow> nat option"
  mq_data :: "nat \<Rightarrow> rt_uint8 list"

text \<open>
  A block of a memory pool is addressed by the address of its link word; \<open>mp_mem\<close> holds
  the link words: the next free block, or the pool of an allocated block.
\<close>

datatype mp_link = MpNull | MpBlock rt_uint32 | MpPool oid

record rt_mempool =
  mp_start_address :: rt_uint32
  mp_size :: rt_uint32
  mp_block_size :: rt_uint32
  mp_block_list :: mp_link
  mp_block_total_count :: rt_uint32
  mp_block_free_count :: rt_uint32

section \<open>Lists and the kernel state\<close>

text \<open>
  The heads of thread lists: the ready list of a priority
  (\<^verbatim>\<open>rt_thread_priority_table\<close>), \<^verbatim>\<open>rt_thread_defunct\<close>, the
  \<^verbatim>\<open>suspend_thread\<close> and \<^verbatim>\<open>suspend_sender_thread\<close> lists of an object, and the waiting lists
  of structures that are not kernel objects: \<^verbatim>\<open>suspended_list\<close> of a completion,
  \<^verbatim>\<open>suspended_push_list\<close> and \<^verbatim>\<open>suspended_pop_list\<close> of a data queue.
\<close>

datatype outer_list = Completion oid | PushList oid | PopList oid

datatype thead = Ready nat | Defunct | Susp kobj | SuspSender kobj | Outer outer_list

datatype tmhead = HardTimers | SoftTimers

record kstate =
  k_threads :: "tid \<Rightarrow> rt_thread"
  k_timers :: "timer_id \<Rightarrow> rt_timer"
  k_objs :: "kobj \<Rightarrow> rt_object"
  k_olists :: "(rt_uint8, kobj) table"
  k_tlists :: "(thead, tid) table"
  k_tmlists :: "(tmhead, timer_id) table"
  k_sems :: "oid \<Rightarrow> rt_semaphore"
  k_mutexes :: "oid \<Rightarrow> rt_mutex"
  k_events :: "oid \<Rightarrow> rt_event"
  k_mailboxes :: "oid \<Rightarrow> rt_mailbox"
  k_mqs :: "oid \<Rightarrow> rt_messagequeue"
  k_pools :: "oid \<Rightarrow> rt_mempool"
  k_links :: "rt_uint32 \<Rightarrow> mp_link"
  k_mem :: "rt_uint32 \<Rightarrow> rt_uint8"
  k_ready_group :: rt_uint32
  k_lock_nest :: "16 word"
  k_current :: "tid option"
  k_current_priority :: rt_uint8
  k_irq_nest :: rt_uint8
  k_tick :: rt_uint32
  k_random_nr :: rt_uint32
  k_timer_thread :: tid
  k_exit_addr :: rt_uint32
  k_freed :: "kobj list"
  k_errno :: rt_err

definition zero_thread :: rt_thread where
  "zero_thread = \<lparr>th_sp = 0, th_entry = 0, th_parameter = 0, th_stack_addr = 0,
     th_stack_size = 0, th_error = 0, th_stat = 0, th_current_priority = 0,
     th_init_priority = 0, th_number_mask = 0, th_event_set = 0, th_event_info = 0,
     th_init_tick = 0, th_remaining_tick = 0, th_cleanup = None, th_user_data = 0\<rparr>"

definition zero_object :: rt_object where
  "zero_object = \<lparr>o_name = replicate 8 0, o_type = 0, o_flag = 0\<rparr>"

definition zero_timer :: rt_timer where
  "zero_timer = \<lparr>tm_func = TF_user 0 0, tm_init_tick = 0, tm_timeout_tick = 0\<rparr>"

text \<open>
  Memory before any initialisation; the timer thread is thread 1.  \<open>k_exit_addr\<close> is the
  address of \<^verbatim>\<open>rt_thread_exit\<close>, which thread stacks are prepared to return to.
\<close>

definition zero_state :: kstate where
  "zero_state = \<lparr>k_threads = (\<lambda>_. zero_thread), k_timers = (\<lambda>_. zero_timer),
     k_objs = (\<lambda>_. zero_object), k_olists = (\<lambda>_. []), k_tlists = (\<lambda>_. []),
     k_tmlists = (\<lambda>_. []), k_sems = (\<lambda>_. \<lparr>sem_value = 0\<rparr>),
     k_mutexes = (\<lambda>_. \<lparr>mtx_value = 0, mtx_original_priority = 0, mtx_hold = 0, mtx_owner = None\<rparr>),
     k_events = (\<lambda>_. \<lparr>ev_set = 0\<rparr>),
     k_mailboxes = (\<lambda>_. \<lparr>mb_msg_pool = [], mb_size = 0, mb_entry = 0, mb_in_offset = 0,
        mb_out_offset = 0\<rparr>),
     k_mqs = (\<lambda>_. \<lparr>mq_msg_size = 0, mq_max_msgs = 0, mq_entry = 0, mq_head = None,
        mq_tail = None, mq_free = None, mq_next = (\<lambda>_. None), mq_data = (\<lambda>_. [])\<rparr>),
     k_pools = (\<lambda>_. \<lparr>mp_start_address = 0, mp_size = 0, mp_block_size = 0,
        mp_block_list = MpNull, mp_block_total_count = 0, mp_block_free_count = 0\<rparr>),
     k_links = (\<lambda>_. MpNull), k_mem = (\<lambda>_. 0),
     k_ready_group = 0, k_lock_nest = 0, k_current = None, k_current_priority = 0,
     k_irq_nest = 0, k_tick = 0, k_random_nr = 0, k_timer_thread = 1, k_exit_addr = 0, k_freed = [], k_errno = 0\<rparr>"

section \<open>Field access\<close>

definition upd_thread :: "tid \<Rightarrow> (rt_thread \<Rightarrow> rt_thread) \<Rightarrow> kstate \<Rightarrow> kstate" where
  "upd_thread t f s = s\<lparr>k_threads := (k_threads s)(t := f (k_threads s t))\<rparr>"

definition upd_timer :: "timer_id \<Rightarrow> (rt_timer \<Rightarrow> rt_timer) \<Rightarrow> kstate \<Rightarrow> kstate" where
  "upd_timer t f s = s\<lparr>k_timers := (k_timers s)(t := f (k_timers s t))\<rparr>"

definition upd_obj :: "kobj \<Rightarrow> (rt_object \<Rightarrow> rt_object) \<Rightarrow> kstate \<Rightarrow> kstate" where
  "upd_obj k f s = s\<lparr>k_objs := (k_objs s)(k := f (k_objs s k))\<rparr>"

abbreviation thread :: "kstate \<Rightarrow> tid \<Rightarrow> rt_thread" where
  "thread s t \<equiv> k_threads s t"

abbreviation oflag :: "kstate \<Rightarrow> kobj \<Rightarrow> rt_uint8" where
  "oflag s k \<equiv> o_flag (k_objs s k)"

text \<open>\<^verbatim>\<open>thread->stat & RT_THREAD_STAT_MASK\<close> and the assignment that keeps the other bits.\<close>

definition stat_of :: "rt_thread \<Rightarrow> rt_uint8" where
  "stat_of th = th_stat th AND RT_THREAD_STAT_MASK"

definition with_stat :: "rt_uint8 \<Rightarrow> rt_thread \<Rightarrow> rt_thread" where
  "with_stat v th = th\<lparr>th_stat := v OR (th_stat th AND NOT RT_THREAD_STAT_MASK)\<rparr>"

abbreviation tstat :: "kstate \<Rightarrow> tid \<Rightarrow> rt_uint8" where
  "tstat s t \<equiv> stat_of (k_threads s t)"

abbreviation tprio :: "kstate \<Rightarrow> tid \<Rightarrow> nat" where
  "tprio s t \<equiv> unat (th_current_priority (k_threads s t))"

lemma upd_thread_fields [simp]:
  "k_threads (upd_thread t f s) = (k_threads s)(t := f (k_threads s t))"
  "k_timers (upd_thread t f s) = k_timers s" "k_objs (upd_thread t f s) = k_objs s"
  "k_olists (upd_thread t f s) = k_olists s" "k_tlists (upd_thread t f s) = k_tlists s"
  "k_tmlists (upd_thread t f s) = k_tmlists s" "k_sems (upd_thread t f s) = k_sems s"
  "k_mutexes (upd_thread t f s) = k_mutexes s" "k_events (upd_thread t f s) = k_events s"
  "k_mailboxes (upd_thread t f s) = k_mailboxes s" "k_mqs (upd_thread t f s) = k_mqs s"
  "k_pools (upd_thread t f s) = k_pools s" "k_links (upd_thread t f s) = k_links s"
  "k_mem (upd_thread t f s) = k_mem s" "k_ready_group (upd_thread t f s) = k_ready_group s"
  "k_lock_nest (upd_thread t f s) = k_lock_nest s" "k_current (upd_thread t f s) = k_current s"
  "k_current_priority (upd_thread t f s) = k_current_priority s"
  "k_irq_nest (upd_thread t f s) = k_irq_nest s" "k_tick (upd_thread t f s) = k_tick s"
  "k_random_nr (upd_thread t f s) = k_random_nr s"
  "k_timer_thread (upd_thread t f s) = k_timer_thread s" "k_exit_addr (upd_thread t f s) = k_exit_addr s"
  "k_freed (upd_thread t f s) = k_freed s" "k_errno (upd_thread t f s) = k_errno s"
  by (simp_all add: upd_thread_def)

lemma upd_timer_fields [simp]:
  "k_timers (upd_timer t g s) = (k_timers s)(t := g (k_timers s t))"
  "k_threads (upd_timer t g s) = k_threads s" "k_objs (upd_timer t g s) = k_objs s"
  "k_olists (upd_timer t g s) = k_olists s" "k_tlists (upd_timer t g s) = k_tlists s"
  "k_tmlists (upd_timer t g s) = k_tmlists s" "k_sems (upd_timer t g s) = k_sems s"
  "k_mutexes (upd_timer t g s) = k_mutexes s" "k_events (upd_timer t g s) = k_events s"
  "k_mailboxes (upd_timer t g s) = k_mailboxes s" "k_mqs (upd_timer t g s) = k_mqs s"
  "k_pools (upd_timer t g s) = k_pools s" "k_links (upd_timer t g s) = k_links s"
  "k_mem (upd_timer t g s) = k_mem s" "k_ready_group (upd_timer t g s) = k_ready_group s"
  "k_lock_nest (upd_timer t g s) = k_lock_nest s" "k_current (upd_timer t g s) = k_current s"
  "k_current_priority (upd_timer t g s) = k_current_priority s"
  "k_irq_nest (upd_timer t g s) = k_irq_nest s" "k_tick (upd_timer t g s) = k_tick s"
  "k_random_nr (upd_timer t g s) = k_random_nr s"
  "k_timer_thread (upd_timer t g s) = k_timer_thread s" "k_exit_addr (upd_timer t g s) = k_exit_addr s"
  "k_freed (upd_timer t g s) = k_freed s" "k_errno (upd_timer t g s) = k_errno s"
  by (simp_all add: upd_timer_def)

lemma upd_obj_fields [simp]:
  "k_objs (upd_obj k h s) = (k_objs s)(k := h (k_objs s k))"
  "k_threads (upd_obj k h s) = k_threads s" "k_timers (upd_obj k h s) = k_timers s"
  "k_olists (upd_obj k h s) = k_olists s" "k_tlists (upd_obj k h s) = k_tlists s"
  "k_tmlists (upd_obj k h s) = k_tmlists s" "k_sems (upd_obj k h s) = k_sems s"
  "k_mutexes (upd_obj k h s) = k_mutexes s" "k_events (upd_obj k h s) = k_events s"
  "k_mailboxes (upd_obj k h s) = k_mailboxes s" "k_mqs (upd_obj k h s) = k_mqs s"
  "k_pools (upd_obj k h s) = k_pools s" "k_links (upd_obj k h s) = k_links s"
  "k_mem (upd_obj k h s) = k_mem s" "k_ready_group (upd_obj k h s) = k_ready_group s"
  "k_lock_nest (upd_obj k h s) = k_lock_nest s" "k_current (upd_obj k h s) = k_current s"
  "k_current_priority (upd_obj k h s) = k_current_priority s"
  "k_irq_nest (upd_obj k h s) = k_irq_nest s" "k_tick (upd_obj k h s) = k_tick s"
  "k_random_nr (upd_obj k h s) = k_random_nr s"
  "k_timer_thread (upd_obj k h s) = k_timer_thread s" "k_exit_addr (upd_obj k h s) = k_exit_addr s"
  "k_freed (upd_obj k h s) = k_freed s" "k_errno (upd_obj k h s) = k_errno s"
  by (simp_all add: upd_obj_def)

section \<open>State flags\<close>

lemma stat_of_with_stat [rt_flag_simps]: "stat_of (with_stat v th) = v AND 7"
proof -
  have "(v OR (x AND NOT 7)) AND 7 = v AND 7" for x :: rt_uint8
    by (rule bit_word_eqI) (auto simp: bit_simps)
  then show ?thesis by (simp add: stat_of_def with_stat_def)
qed

lemma with_stat_keeps [simp]:
  "th_sp (with_stat v th) = th_sp th" "th_error (with_stat v th) = th_error th"
  "th_stack_addr (with_stat v th) = th_stack_addr th"
  "th_stack_size (with_stat v th) = th_stack_size th"
  "th_current_priority (with_stat v th) = th_current_priority th"
  "th_init_priority (with_stat v th) = th_init_priority th"
  "th_number_mask (with_stat v th) = th_number_mask th"
  "th_event_set (with_stat v th) = th_event_set th"
  "th_event_info (with_stat v th) = th_event_info th"
  "th_init_tick (with_stat v th) = th_init_tick th"
  "th_remaining_tick (with_stat v th) = th_remaining_tick th"
  "th_cleanup (with_stat v th) = th_cleanup th"
  by (simp_all add: with_stat_def)

lemma stat_of_update [simp]:
  "stat_of (th\<lparr>th_error := e\<rparr>) = stat_of th"
  "stat_of (th\<lparr>th_current_priority := p\<rparr>) = stat_of th"
  "stat_of (th\<lparr>th_number_mask := m\<rparr>) = stat_of th"
  "stat_of (th\<lparr>th_event_set := m\<rparr>) = stat_of th"
  "stat_of (th\<lparr>th_event_info := i\<rparr>) = stat_of th"
  "stat_of (th\<lparr>th_remaining_tick := r\<rparr>) = stat_of th"
  "stat_of (th\<lparr>th_stat := x\<rparr>) = x AND 7"
  by (simp_all add: stat_of_def)

text \<open>Setting or clearing a flag bit above the state bits leaves the state as it is.\<close>

lemma stat_yield_bit [rt_flag_simps]:
  "((x :: rt_uint8) OR 8) AND 7 = x AND 7" "((x :: rt_uint8) AND NOT 8) AND 7 = x AND 7"
  "((x :: rt_uint8) AND - 9) AND 7 = x AND 7"
proof -
  show "(x OR 8) AND 7 = x AND 7" by (subst bit.conj_disj_distrib2) simp
  show "(x AND NOT 8) AND 7 = x AND 7" "(x AND - 9) AND 7 = x AND 7" by (subst and.assoc, simp)+
qed

end
