(* ===== verification/Scheduler.thy ===== *)
theory Scheduler
  imports KernelState
begin

text \<open>
  The single-core priority scheduler of \<^verbatim>\<open>src/scheduler.c\<close> and the interrupt nesting
  counter of \<^verbatim>\<open>src/irq.c\<close>.

  A section between \<^verbatim>\<open>rt_hw_interrupt_disable\<close> and \<^verbatim>\<open>rt_hw_interrupt_enable\<close> is one
  atomic update.  The context switch itself (saving and loading registers) is outside the
  model: \<open>k_current\<close> says which thread runs from here on.  \<open>None\<close> stands for a failed
  assertion, the endless loop after a detected stack overflow, and for reads the C
  standard leaves undefined (a null current thread, a priority beyond the table).

  \<open>sched_inv X\<close> is the invariant of the ready table, the ready bitmap, the thread states and
  the current thread, with the threads in \<open>X\<close> excepted because an operation is in the middle
  of moving them.
\<close>

section \<open>Operations\<close>

definition scheduler_stack_check :: "tid \<Rightarrow> kstate \<Rightarrow> unit option" where
  "scheduler_stack_check t s =
     (let th = thread s t in
      if k_mem s (th_stack_addr th) \<noteq> 0x23 \<or> th_sp th \<le> th_stack_addr th \<or>
         th_stack_addr th + th_stack_size th < th_sp th
      then None else Some ())"

definition get_highest_priority_thread :: "kstate \<Rightarrow> (tid \<times> nat) option" where
  "get_highest_priority_thread s =
     (if k_ready_group s = 0 then None
      else let p = rt_ffs (k_ready_group s) - 1 in
        (case k_tlists s (Ready p) of [] \<Rightarrow> None | t # _ \<Rightarrow> Some (t, p)))"

definition rt_system_scheduler_init :: "kstate \<Rightarrow> kstate" where
  "rt_system_scheduler_init s =
     s\<lparr>k_lock_nest := 0,
       k_tlists := (\<lambda>h. case h of Ready p \<Rightarrow> if p < RT_THREAD_PRIORITY_MAX then [] else k_tlists s h
                              | Defunct \<Rightarrow> [] | _ \<Rightarrow> k_tlists s h),
       k_ready_group := 0\<rparr>"

definition rt_schedule_insert_thread :: "tid \<Rightarrow> kstate \<Rightarrow> kstate option" where
  "rt_schedule_insert_thread t s =
     (if k_current s = Some t then Some (upd_thread t (with_stat RT_THREAD_RUNNING) s)
      else do {
        rt_assert (tprio s t < RT_THREAD_PRIORITY_MAX);
        let s = upd_thread t (with_stat RT_THREAD_READY) s;
        let s = s\<lparr>k_tlists := tbl_append (Ready (tprio s t)) t (k_tlists s)\<rparr>;
        Some (s\<lparr>k_ready_group := k_ready_group s OR th_number_mask (thread s t)\<rparr>)
      })"

definition rt_schedule_remove_thread :: "tid \<Rightarrow> kstate \<Rightarrow> kstate option" where
  "rt_schedule_remove_thread t s = do {
     rt_assert (tprio s t < RT_THREAD_PRIORITY_MAX);
     let s = s\<lparr>k_tlists := tbl_remove t (k_tlists s)\<rparr>;
     Some (if k_tlists s (Ready (tprio s t)) = []
       then s\<lparr>k_ready_group := k_ready_group s AND NOT (th_number_mask (thread s t))\<rparr>
       else s)
   }"

definition rt_system_scheduler_start :: "kstate \<Rightarrow> kstate option" where
  "rt_system_scheduler_start s = do {
     (t, p) \<leftarrow> get_highest_priority_thread s;
     let s = s\<lparr>k_current := Some t\<rparr>;
     s \<leftarrow> rt_schedule_remove_thread t s;
     Some (upd_thread t (\<lambda>th. th\<lparr>th_stat := RT_THREAD_RUNNING\<rparr>) s)
   }"

text \<open>The switch of \<^verbatim>\<open>rt_schedule\<close> to another thread.\<close>

definition schedule_switch :: "tid \<Rightarrow> tid \<Rightarrow> nat \<Rightarrow> bool \<Rightarrow> kstate \<Rightarrow> kstate option" where
  "schedule_switch from to p need_insert_from_thread s = do {
     let s = s\<lparr>k_current_priority := of_nat p, k_current := Some to\<rparr>;
     s \<leftarrow> (if need_insert_from_thread then rt_schedule_insert_thread from s else Some s);
     s \<leftarrow> rt_schedule_remove_thread to s;
     let s = upd_thread to (with_stat RT_THREAD_RUNNING) s;
     scheduler_stack_check to s;
     Some s
   }"

definition rt_schedule :: "kstate \<Rightarrow> kstate option" where
  "rt_schedule s =
     (if k_lock_nest s \<noteq> 0 \<or> k_ready_group s = 0 then Some s
      else do {
        c \<leftarrow> k_current s;
        (t, p) \<leftarrow> get_highest_priority_thread s;
        let running = (tstat s c = RT_THREAD_RUNNING);
        let to_thread =
          (if running \<and> (tprio s c < p \<or>
               tprio s c = p \<and> th_stat (thread s c) AND RT_THREAD_STAT_YIELD = 0)
           then c else t);
        let need_insert_from_thread = (running \<and> \<not> (tprio s c < p \<or>
               tprio s c = p \<and> th_stat (thread s c) AND RT_THREAD_STAT_YIELD = 0));
        let s = (if need_insert_from_thread
           then upd_thread c (\<lambda>th. th\<lparr>th_stat := th_stat th AND NOT RT_THREAD_STAT_YIELD\<rparr>) s
           else s);
        if to_thread \<noteq> c then schedule_switch c to_thread p need_insert_from_thread s
        else do {
          s \<leftarrow> rt_schedule_remove_thread c s;
          Some (upd_thread c (with_stat RT_THREAD_RUNNING) s)
        }
      })"

definition rt_enter_critical :: "kstate \<Rightarrow> kstate" where
  "rt_enter_critical s = s\<lparr>k_lock_nest := k_lock_nest s + 1\<rparr>"

definition rt_exit_critical :: "kstate \<Rightarrow> kstate option" where
  "rt_exit_critical s =
     (let s = s\<lparr>k_lock_nest := k_lock_nest s - 1\<rparr> in
      if sint (k_lock_nest s) \<le> 0
      then (let s = s\<lparr>k_lock_nest := 0\<rparr> in
            if k_current s \<noteq> None then rt_schedule s else Some s)
      else Some s)"

definition rt_critical_level :: "kstate \<Rightarrow> rt_uint16" where
  "rt_critical_level s = k_lock_nest s"

definition rt_interrupt_enter :: "kstate \<Rightarrow> kstate" where
  "rt_interrupt_enter s = s\<lparr>k_irq_nest := k_irq_nest s + 1\<rparr>"

definition rt_interrupt_leave :: "kstate \<Rightarrow> kstate" where
  "rt_interrupt_leave s = s\<lparr>k_irq_nest := k_irq_nest s - 1\<rparr>"

definition rt_interrupt_get_nest :: "kstate \<Rightarrow> rt_uint8" where
  "rt_interrupt_get_nest s = k_irq_nest s"

text \<open>The context checks of \<^verbatim>\<open>include/rtdebug.h\<close>.\<close>

definition rt_debug_not_in_interrupt :: "kstate \<Rightarrow> unit option" where
  "rt_debug_not_in_interrupt s = rt_assert (rt_interrupt_get_nest s = 0)"

definition rt_debug_in_thread_context :: "kstate \<Rightarrow> unit option" where
  "rt_debug_in_thread_context s = do {
     rt_assert (k_current s \<noteq> None);
     rt_debug_not_in_interrupt s
   }"

section \<open>The scheduler invariant\<close>

text \<open>The bit of a priority in the ready bitmap, \<^verbatim>\<open>1 << priority\<close>.\<close>

lemma bit_prio_mask [simp]: "bit (prio_mask p) q \<longleftrightarrow> q = p \<and> p < 32"
  by (auto simp: prio_mask_def bit_simps)

lemma prio_mask_nonzero [simp]: "p < 32 \<Longrightarrow> prio_mask p \<noteq> 0"
  using bit_prio_mask [of p p] by force

definition prio_ok :: "rt_thread \<Rightarrow> bool" where
  "prio_ok th \<longleftrightarrow> unat (th_init_priority th) < 32 \<and>
     (th_number_mask th = 0 \<or> th_number_mask th = prio_mask (unat (th_current_priority th))) \<and>
     (stat_of th \<in> {RT_THREAD_READY, RT_THREAD_SUSPEND, RT_THREAD_RUNNING} \<longrightarrow>
        unat (th_current_priority th) < 32 \<and>
        th_number_mask th = prio_mask (unat (th_current_priority th)))"

definition sched_inv :: "tid set \<Rightarrow> kstate \<Rightarrow> bool" where
  "sched_inv X s \<longleftrightarrow>
     table_wf (k_tlists s) \<and>
     (\<forall>p. 32 \<le> p \<longrightarrow> k_tlists s (Ready p) = []) \<and>
     (\<forall>p<32. bit (k_ready_group s) p \<longleftrightarrow> k_tlists s (Ready p) \<noteq> []) \<and>
     (\<forall>p. \<forall>t \<in> set (k_tlists s (Ready p)). tstat s t = RT_THREAD_READY \<and> tprio s t = p) \<and>
     (\<forall>k. \<forall>t \<in> set (k_tlists s (Susp k)). tstat s t = RT_THREAD_SUSPEND) \<and>
     (\<forall>k. \<forall>t \<in> set (k_tlists s (SuspSender k)). tstat s t = RT_THREAD_SUSPEND) \<and>
     (\<forall>t \<in> set (k_tlists s Defunct). tstat s t = RT_THREAD_CLOSE) \<and>
     (\<forall>t. prio_ok (thread s t)) \<and>
     (\<forall>t. t \<notin> X \<longrightarrow> tstat s t = RT_THREAD_READY \<longrightarrow> t \<in> set (k_tlists s (Ready (tprio s t)))) \<and>
     (\<forall>t. t \<notin> X \<longrightarrow> tstat s t = RT_THREAD_RUNNING \<longrightarrow> k_current s = Some t) \<and>
     (\<forall>t. t \<notin> X \<longrightarrow> k_current s = Some t \<longrightarrow> tstat s t \<noteq> RT_THREAD_READY) \<and>
     (\<forall>w. \<forall>t \<in> set (k_tlists s (Outer w)). tstat s t = RT_THREAD_SUSPEND)"

abbreviation sched_wf :: "kstate \<Rightarrow> bool" where
  "sched_wf \<equiv> sched_inv {}"

lemma sched_invD:
  assumes "sched_inv X s"
  shows "table_wf (k_tlists s)"
    and "32 \<le> p \<Longrightarrow> k_tlists s (Ready p) = []"
    and "p < 32 \<Longrightarrow> bit (k_ready_group s) p \<longleftrightarrow> k_tlists s (Ready p) \<noteq> []"
    and "t \<in> set (k_tlists s (Ready p)) \<Longrightarrow> tstat s t = RT_THREAD_READY \<and> tprio s t = p"
    and "t \<in> set (k_tlists s (Susp k)) \<Longrightarrow> tstat s t = RT_THREAD_SUSPEND"
    and "t \<in> set (k_tlists s (SuspSender k)) \<Longrightarrow> tstat s t = RT_THREAD_SUSPEND"
    and "t \<in> set (k_tlists s Defunct) \<Longrightarrow> tstat s t = RT_THREAD_CLOSE"
    and "prio_ok (thread s t)"
    and "t \<notin> X \<Longrightarrow> tstat s t = RT_THREAD_READY \<Longrightarrow> t \<in> set (k_tlists s (Ready (tprio s t)))"
    and "t \<notin> X \<Longrightarrow> tstat s t = RT_THREAD_RUNNING \<Longrightarrow> k_current s = Some t"
    and "t \<notin> X \<Longrightarrow> k_current s = Some t \<Longrightarrow> tstat s t \<noteq> RT_THREAD_READY"
    and "t \<in> set (k_tlists s (Outer w)) \<Longrightarrow> tstat s t = RT_THREAD_SUSPEND"
  using assms unfolding sched_inv_def by blast+

lemma sched_invI:
  assumes "table_wf (k_tlists s)"
    and "\<And>p. 32 \<le> p \<Longrightarrow> k_tlists s (Ready p) = []"
    and "\<And>p. p < 32 \<Longrightarrow> bit (k_ready_group s) p \<longleftrightarrow> k_tlists s (Ready p) \<noteq> []"
    and "\<And>t p. t \<in> set (k_tlists s (Ready p)) \<Longrightarrow> tstat s t = RT_THREAD_READY \<and> tprio s t = p"
    and "\<And>t k. t \<in> set (k_tlists s (Susp k)) \<Longrightarrow> tstat s t = RT_THREAD_SUSPEND"
    and "\<And>t k. t \<in> set (k_tlists s (SuspSender k)) \<Longrightarrow> tstat s t = RT_THREAD_SUSPEND"
    and "\<And>t. t \<in> set (k_tlists s Defunct) \<Longrightarrow> tstat s t = RT_THREAD_CLOSE"
    and "\<And>t. prio_ok (thread s t)"
    and "\<And>t. t \<notin> X \<Longrightarrow> tstat s t = RT_THREAD_READY \<Longrightarrow> t \<in> set (k_tlists s (Ready (tprio s t)))"
    and "\<And>t. t \<notin> X \<Longrightarrow> tstat s t = RT_THREAD_RUNNING \<Longrightarrow> k_current s = Some t"
    and "\<And>t. t \<notin> X \<Longrightarrow> k_current s = Some t \<Longrightarrow> tstat s t \<noteq> RT_THREAD_READY"
    and "\<And>t w. t \<in> set (k_tlists s (Outer w)) \<Longrightarrow> tstat s t = RT_THREAD_SUSPEND"
  shows "sched_inv X s"
  using assms unfolding sched_inv_def by blast

text \<open>The state is untouched but for fields the invariant does not mention.\<close>

lemma sched_inv_cong:
  assumes "k_threads s' = k_threads s" "k_tlists s' = k_tlists s"
    "k_ready_group s' = k_ready_group s" "k_current s' = k_current s"
  shows "sched_inv X s' = sched_inv X s"
  using assms by (simp add: sched_inv_def)

lemma sched_inv_mono: "sched_inv X s \<Longrightarrow> X \<subseteq> Y \<Longrightarrow> sched_inv Y s"
  unfolding sched_inv_def by blast

lemma prio_ok_number_mask:
  "prio_ok th \<Longrightarrow> stat_of th \<in> {RT_THREAD_READY, RT_THREAD_SUSPEND, RT_THREAD_RUNNING} \<Longrightarrow>
     unat (th_current_priority th) < 32 \<and>
     th_number_mask th = prio_mask (unat (th_current_priority th))"
  by (auto simp: prio_ok_def)

text \<open>Changing one thread's record, with its list memberships consistent with the new record.\<close>

lemma sched_inv_upd_thread:
  assumes inv: "sched_inv X s" and new: "prio_ok (f (thread s t))"
    and lists: "\<And>p. t \<in> set (k_tlists s (Ready p)) \<Longrightarrow> stat_of (f (thread s t)) = RT_THREAD_READY \<and>
       unat (th_current_priority (f (thread s t))) = p"
      "\<And>k. t \<in> set (k_tlists s (Susp k)) \<Longrightarrow> stat_of (f (thread s t)) = RT_THREAD_SUSPEND"
      "\<And>k. t \<in> set (k_tlists s (SuspSender k)) \<Longrightarrow> stat_of (f (thread s t)) = RT_THREAD_SUSPEND"
      "t \<in> set (k_tlists s Defunct) \<Longrightarrow> stat_of (f (thread s t)) = RT_THREAD_CLOSE"
      "\<And>w. t \<in> set (k_tlists s (Outer w)) \<Longrightarrow> stat_of (f (thread s t)) = RT_THREAD_SUSPEND"
    and state: "t \<notin> Y \<Longrightarrow> stat_of (f (thread s t)) = RT_THREAD_READY \<Longrightarrow>
         t \<in> set (k_tlists s (Ready (unat (th_current_priority (f (thread s t))))))"
      "t \<notin> Y \<Longrightarrow> stat_of (f (thread s t)) = RT_THREAD_RUNNING \<Longrightarrow> k_current s = Some t"
      "t \<notin> Y \<Longrightarrow> k_current s = Some t \<Longrightarrow> stat_of (f (thread s t)) \<noteq> RT_THREAD_READY"
    and X: "X \<subseteq> insert t Y"
  shows "sched_inv Y (upd_thread t f s)"
  using inv new lists state X unfolding sched_inv_def by (auto split: if_splits)

lemma sched_inv_upd_unlinked:
  assumes "sched_inv X s" "unlinked t (k_tlists s)" "prio_ok (f (thread s t))"
    and "stat_of (f (thread s t)) \<noteq> RT_THREAD_READY"
    and "stat_of (f (thread s t)) = RT_THREAD_RUNNING \<Longrightarrow> k_current s = Some t"
  shows "sched_inv (X - {t}) (upd_thread t f s)"
  by (rule sched_inv_upd_thread [OF assms(1)]) (use assms in \<open>auto simp: unlinked_def\<close>)

text \<open>Fields of a thread that the scheduler does not look at.\<close>

lemma sched_inv_upd_frame:
  assumes "sched_inv X s" "\<And>th. stat_of (f th) = stat_of th"
    "\<And>th. th_current_priority (f th) = th_current_priority th"
    "\<And>th. th_init_priority (f th) = th_init_priority th"
    "\<And>th. th_number_mask (f th) = th_number_mask th"
  shows "sched_inv X (upd_thread t f s)"
proof -
  note D = sched_invD [OF assms(1)]
  have *: "prio_ok (f (thread s t))"
    using D(8) [of t] unfolding prio_ok_def assms(2-) .
  show ?thesis
    by (rule sched_inv_upd_thread [OF assms(1)]; (simp only: assms(2-))?; use D * in blast)
qed

text \<open>Unlinking a thread; nothing else changes.\<close>

lemma bit_group_clear:
  assumes "m = 0 \<or> m = prio_mask p"
  shows "bit (g AND NOT m) q \<longleftrightarrow> bit g q \<and> (m = 0 \<or> q \<noteq> p)"
  using assms bit_imp_le_length [of g q] by (auto simp: bit_and_iff bit_not_iff)

lemma remove_thread_inv [kernel_inv]:
  assumes inv: "sched_inv X s" and r: "rt_schedule_remove_thread t s = Some s'"
  shows "sched_inv (insert t X) s'" and "unlinked t (k_tlists s')"
proof -
  let ?L = "k_tlists s" and ?p = "tprio s t" and ?m = "th_number_mask (thread s t)"
  note D = sched_invD [OF inv]
  have p: "?p < 32" using r by (simp add: rt_schedule_remove_thread_def)
  have m: "?m = 0 \<or> ?m = prio_mask ?p" using D(8) [of t] by (simp add: prio_ok_def)
  have s': "k_tlists s' = tbl_remove t ?L" "k_threads s' = k_threads s" "k_current s' = k_current s"
    "k_ready_group s' = (if removeAll t (?L (Ready ?p)) = []
       then k_ready_group s AND NOT ?m else k_ready_group s)"
    using r by (auto simp: rt_schedule_remove_thread_def Let_def)
  show "unlinked t (k_tlists s')" by (simp add: s')
  have grp: "bit (k_ready_group s') q \<longleftrightarrow> removeAll t (?L (Ready q)) \<noteq> []" if q: "q < 32" for q
  proof (cases "t \<in> set (?L (Ready q))")
    case True
    then have "tstat s t = RT_THREAD_READY" "?p = q" using D(4) by blast+
    then have "?m = prio_mask q" using prio_ok_number_mask [OF D(8) [of t]] by simp
    then show ?thesis using True q D(3) [OF q] \<open>?p = q\<close>
      by (auto simp: s' bit_group_clear [where p = q] simp del: bit_prio_mask)
  next
    case False
    have "bit (k_ready_group s) q \<longleftrightarrow> ?L (Ready q) \<noteq> []" by (rule D(3) [OF q])
    then show ?thesis using False by (auto simp: s' bit_group_clear [OF m])
  qed
  show "sched_inv (insert t X) s'"
    using D grp unfolding sched_inv_def s'(1,2,3) by auto
qed

text \<open>Linking an unlinked thread that is ready to run.\<close>

lemma insert_thread_inv [kernel_inv]:
  assumes inv: "sched_inv X s" and un: "unlinked t (k_tlists s)"
    and st: "tstat s t \<in> {RT_THREAD_READY, RT_THREAD_SUSPEND, RT_THREAD_RUNNING}"
    and r: "rt_schedule_insert_thread t s = Some s'"
  shows "sched_inv (X - {t}) s'"
proof -
  note D = sched_invD [OF inv]
  have ok: "tprio s t < 32" "th_number_mask (thread s t) = prio_mask (tprio s t)"
    using prio_ok_number_mask [OF D(8) st] by auto
  have pok: "prio_ok (with_stat v (thread s t))" for v
    using ok D(8) [of t] by (simp add: prio_ok_def)
  show ?thesis
  proof (cases "k_current s = Some t")
    case True
    then have s': "s' = upd_thread t (with_stat RT_THREAD_RUNNING) s"
      using r by (simp add: rt_schedule_insert_thread_def)
    show ?thesis unfolding s'
      by (rule sched_inv_upd_unlinked) (use inv un True pok in \<open>auto simp: rt_flag_simps\<close>)
  next
    case False
    let ?p = "tprio s t" and ?L = "k_tlists s"
    have s': "k_tlists s' = tbl_append (Ready ?p) t ?L" "k_current s' = k_current s"
      "k_threads s' = (k_threads s)(t := with_stat RT_THREAD_READY (thread s t))"
      "k_ready_group s' = k_ready_group s OR prio_mask ?p"
      using r False ok by (auto simp: rt_schedule_insert_thread_def Let_def)
    have wf: "table_wf (tbl_append (Ready ?p) t ?L)"
      using D(1) un by (rule table_wf_tbl_append)
    have grp: "bit (k_ready_group s') q \<longleftrightarrow> tbl_append (Ready ?p) t ?L (Ready q) \<noteq> []" if "q < 32" for q
      using D(3) [OF that] ok by (auto simp: s' bit_or_iff)
    have other: "t \<notin> set (?L h)" for h using un by (simp add: unlinked_def)
    have nt: "j \<noteq> t" if "j \<in> set (?L h)" for j h using other that by auto
    have st': "tstat s' t = RT_THREAD_READY" "tprio s' t = ?p" by (simp_all add: s' rt_flag_simps)
    have so: "tstat s' j = tstat s j" "tprio s' j = tprio s j" if "j \<noteq> t" for j
      using that by (simp_all add: s')
    show ?thesis
    proof (rule sched_invI)
      show "k_tlists s' (Ready q) = []" if "32 \<le> q" for q using D(2) [OF that] that ok by (simp add: s')
      show "tstat s' j = RT_THREAD_READY \<and> tprio s' j = q" if "j \<in> set (k_tlists s' (Ready q))" for j q
        using D(4) [of j q] that st' so by (cases "j = t") (auto simp: s'(1) other split: if_splits)
      show "j \<in> set (k_tlists s' (Ready (tprio s' j)))"
        if "j \<notin> X - {t}" "tstat s' j = RT_THREAD_READY" for j
        using D(9) [of j] that so by (cases "j = t") (auto simp: s'(1) st')
      show "tstat s' j = RT_THREAD_SUSPEND" if "j \<in> set (k_tlists s' (Susp k))" for j k
        using that D(5) nt so by (simp add: s'(1))
      show "tstat s' j = RT_THREAD_SUSPEND" if "j \<in> set (k_tlists s' (SuspSender k))" for j k
        using that D(6) nt so by (simp add: s'(1))
      show "tstat s' j = RT_THREAD_SUSPEND" if "j \<in> set (k_tlists s' (Outer w))" for j w
        using that D(12) nt so by (simp add: s'(1))
      show "tstat s' j = RT_THREAD_CLOSE" if "j \<in> set (k_tlists s' Defunct)" for j
        using that D(7) nt so by (simp add: s'(1))
      show "k_current s' = Some j" if "j \<notin> X - {t}" "tstat s' j = RT_THREAD_RUNNING" for j
        using that D(10) [of j] st' so by (cases "j = t") (auto simp: s'(2))
      show "tstat s' j \<noteq> RT_THREAD_READY" if "j \<notin> X - {t}" "k_current s' = Some j" for j
        using that D(11) [of j] False so by (cases "j = t") (auto simp: s'(2))
    qed (use wf grp D(8) pok in \<open>auto simp: s'(1,3)\<close>)
  qed
qed

section \<open>Choosing the next thread\<close>

lemma group_zero_iff:
  "sched_inv X s \<Longrightarrow> k_ready_group s = 0 \<longleftrightarrow> (\<forall>p. k_tlists s (Ready p) = [])"
proof -
  assume inv: "sched_inv X s"
  note D = sched_invD [OF inv]
  have "k_ready_group s = 0 \<longleftrightarrow> (\<forall>p<32. \<not> bit (k_ready_group s) p)"
    using bit_imp_le_length [of "k_ready_group s"] by (auto simp: bit_eq_iff)
  then show ?thesis using D(2,3) by (metis not_less)
qed

text \<open>The bitmap leads to the head of the first non-empty ready list.\<close>

lemma get_highest_some:
  assumes inv: "sched_inv X s" and g: "k_ready_group s \<noteq> 0"
  obtains t ts p where "get_highest_priority_thread s = Some (t, p)" "p < 32"
    "k_tlists s (Ready p) = t # ts" "\<And>q. q < p \<Longrightarrow> k_tlists s (Ready q) = []"
proof -
  let ?p = "rt_ffs (k_ready_group s) - 1"
  note D = sched_invD [OF inv]
  have f: "?p < 32" "bit (k_ready_group s) ?p" "\<forall>j<?p. \<not> bit (k_ready_group s) j"
    using rt_ffs_first_set [OF g] by (auto simp: first_set_def)
  then have ne: "k_tlists s (Ready ?p) \<noteq> []" and low: "q < ?p \<Longrightarrow> k_tlists s (Ready q) = []" for q
    using D(3) by (blast, meson f(1) less_trans)
  then obtain t ts where "k_tlists s (Ready ?p) = t # ts" by (cases "k_tlists s (Ready ?p)") auto
  then show thesis using that [of t ?p ts] f(1) low g
    by (simp add: get_highest_priority_thread_def Let_def)
qed

lemma get_highest_spec:
  assumes "sched_inv X s" and "get_highest_priority_thread s = Some (t, p)"
  shows "p < 32" "k_tlists s (Ready p) \<noteq> []" "hd (k_tlists s (Ready p)) = t"
    "t \<in> set (k_tlists s (Ready p))" "\<And>q. q < p \<Longrightarrow> k_tlists s (Ready q) = []"
    "tstat s t = RT_THREAD_READY" "tprio s t = p"
proof -
  have g: "k_ready_group s \<noteq> 0"
    using assms(2) by (auto simp: get_highest_priority_thread_def)
  obtain u us q where *: "get_highest_priority_thread s = Some (u, q)" "q < 32"
    "k_tlists s (Ready q) = u # us" "\<And>j. j < q \<Longrightarrow> k_tlists s (Ready j) = []"
    by (rule get_highest_some [OF assms(1) g]) blast
  then have [simp]: "u = t" "q = p" using assms(2) by auto
  show "p < 32" "k_tlists s (Ready p) \<noteq> []" "hd (k_tlists s (Ready p)) = t"
    "t \<in> set (k_tlists s (Ready p))" "\<And>q. q < p \<Longrightarrow> k_tlists s (Ready q) = []"
    using * by auto
  then show "tstat s t = RT_THREAD_READY" "tprio s t = p"
    using sched_invD(4) [OF assms(1), of t p] by auto
qed

lemma get_highest_le:
  assumes "sched_inv {} s" and "get_highest_priority_thread s = Some (t, p)"
    and "tstat s u = RT_THREAD_READY"
  shows "p \<le> tprio s u"
proof (rule ccontr)
  assume "\<not> p \<le> tprio s u"
  then have "k_tlists s (Ready (tprio s u)) = []" by (intro get_highest_spec(5) [OF assms(1,2)]) simp
  then show False using sched_invD(9) [OF assms(1) _ assms(3)] by auto
qed

section \<open>The scheduler keeps its invariant\<close>

lemma unlinked_if_running: "sched_inv X s \<Longrightarrow> tstat s t = RT_THREAD_RUNNING \<Longrightarrow> unlinked t (k_tlists s)"
proof -
  assume inv: "sched_inv X s" and st: "tstat s t = RT_THREAD_RUNNING"
  note D = sched_invD [OF inv]
  have "t \<notin> set (k_tlists s h)" for h
    using D(4) [of t] D(5) [of t] D(6) [of t] D(7) [of t] D(12) [of t] st by (cases h) auto
  then show ?thesis by (simp add: unlinked_def)
qed

lemma sched_inv_set_current:
  assumes "sched_inv {} s"
  shows "sched_inv (insert t (set_option (k_current s))) (s\<lparr>k_current_priority := q, k_current := Some t\<rparr>)"
  using assms unfolding sched_inv_def by auto

lemma prio_ok_with_stat:
  "prio_ok th \<Longrightarrow> stat_of th \<in> {RT_THREAD_READY, RT_THREAD_SUSPEND, RT_THREAD_RUNNING} \<Longrightarrow>
    prio_ok (with_stat v th)"
  by (auto simp: prio_ok_def)

lemma prio_ok_with_stat_idle: "prio_ok th \<Longrightarrow> v AND 7 \<notin> {1, 2, 3} \<Longrightarrow> prio_ok (with_stat v th)"
  by (auto simp: prio_ok_def rt_flag_simps)

text \<open>Taking a ready thread off its list and making it the running one.\<close>

lemma run_thread_inv:
  assumes inv: "sched_inv X s" and cur: "k_current s = Some t"
    and st: "tstat s t \<in> {RT_THREAD_READY, RT_THREAD_SUSPEND, RT_THREAD_RUNNING}"
    and r: "rt_schedule_remove_thread t s = Some s'"
  shows "sched_inv (X - {t}) (upd_thread t (with_stat RT_THREAD_RUNNING) s')"
proof -
  have 1: "sched_inv (insert t X) s'" "unlinked t (k_tlists s')" by (rule remove_thread_inv [OF inv r])+
  have 2: "k_current s' = Some t" "thread s' t = thread s t"
    using r cur by (auto simp: rt_schedule_remove_thread_def Let_def split: if_splits)
  have "sched_inv (insert t X - {t}) (upd_thread t (with_stat RT_THREAD_RUNNING) s')"
    by (rule sched_inv_upd_unlinked [OF 1])
      (use prio_ok_with_stat [of "thread s t"] sched_invD(8) [OF inv] st 2 in \<open>auto simp: rt_flag_simps\<close>)
  then show ?thesis by (rule sched_inv_mono) auto
qed

lemma schedule_switch_inv:
  assumes inv: "sched_inv {} s" and c: "k_current s = Some c" and "t \<noteq> c"
    and t: "tstat s t = RT_THREAD_READY" and need: "need \<longleftrightarrow> tstat s c = RT_THREAD_RUNNING"
    and r: "schedule_switch c t p need s = Some s'"
  shows "sched_inv {} s'"
proof -
  let ?s1 = "s\<lparr>k_current_priority := of_nat p, k_current := Some t\<rparr>"
  have i1: "sched_inv {t, c} ?s1" using sched_inv_set_current [OF inv, of t] c by (simp add: insert_commute)
  obtain s2 s3 where s2: "(if need then rt_schedule_insert_thread c ?s1 else Some ?s1) = Some s2"
    and s3: "rt_schedule_remove_thread t s2 = Some s3"
    and s': "s' = upd_thread t (with_stat RT_THREAD_RUNNING) s3"
    using r unfolding schedule_switch_def Let_def by (fastforce simp: bind_Some_iff)
  have keep: "k_current s2 = Some t \<and> tstat s2 t = RT_THREAD_READY"
    using s2 \<open>t \<noteq> c\<close> t
    by (auto simp: rt_schedule_insert_thread_def Let_def bind_Some_iff split: if_splits)
  have i2: "sched_inv {t} s2"
  proof (cases need)
    case True
    then have un: "unlinked c (k_tlists ?s1)" using unlinked_if_running [OF inv, of c] need by simp
    have "sched_inv ({t, c} - {c}) s2"
      by (rule insert_thread_inv [OF i1 un]) (use True need s2 in auto)
    then show ?thesis by (rule sched_inv_mono) auto
  next
    case False
    then have "tstat s c \<noteq> RT_THREAD_RUNNING" using need by simp
    moreover have "tstat s c \<noteq> RT_THREAD_READY" using sched_invD(11) [OF inv _ c] by simp
    ultimately show ?thesis using i1 s2 False c unfolding sched_inv_def by auto
  qed
  have "sched_inv ({t} - {t}) s'"
    unfolding s' by (rule run_thread_inv [OF i2]) (use keep s3 in auto)
  then show ?thesis by simp
qed

definition keeps_cpu :: "kstate \<Rightarrow> tid \<Rightarrow> nat \<Rightarrow> bool" where
  "keeps_cpu s c p \<longleftrightarrow> tstat s c = RT_THREAD_RUNNING \<and>
     (tprio s c < p \<or> tprio s c = p \<and> th_stat (thread s c) AND RT_THREAD_STAT_YIELD = 0)"

definition clear_yield :: "tid \<Rightarrow> kstate \<Rightarrow> kstate" where
  "clear_yield c = upd_thread c (\<lambda>th. th\<lparr>th_stat := th_stat th AND NOT RT_THREAD_STAT_YIELD\<rparr>)"

lemma clear_yield_keeps [simp]:
  "k_tlists (clear_yield c s) = k_tlists s" "k_current (clear_yield c s) = k_current s"
  "k_ready_group (clear_yield c s) = k_ready_group s" "k_mem (clear_yield c s) = k_mem s"
  "tstat (clear_yield c s) t = tstat s t" "tprio (clear_yield c s) t = tprio s t"
  "th_sp (thread (clear_yield c s) t) = th_sp (thread s t)"
  "th_stack_addr (thread (clear_yield c s) t) = th_stack_addr (thread s t)"
  "th_stack_size (thread (clear_yield c s) t) = th_stack_size (thread s t)"
  by (simp_all add: clear_yield_def rt_flag_simps stat_of_def)

lemma clear_yield_inv: "sched_inv X s \<Longrightarrow> sched_inv X (clear_yield c s)"
  unfolding clear_yield_def by (rule sched_inv_upd_frame) (auto simp: rt_flag_simps stat_of_def)

text \<open>\<^verbatim>\<open>rt_schedule\<close> with a current thread and the scheduler unlocked: who runs next.\<close>

lemma rt_schedule_unfold:
  assumes "k_lock_nest s = 0" "k_current s = Some c" "get_highest_priority_thread s = Some (t, p)"
  shows "rt_schedule s =
     (if keeps_cpu s c p \<or> t = c then
        map_option (upd_thread c (with_stat RT_THREAD_RUNNING))
          (rt_schedule_remove_thread c
             (if tstat s c = RT_THREAD_RUNNING \<and> \<not> keeps_cpu s c p then clear_yield c s else s))
      else if tstat s c = RT_THREAD_RUNNING then schedule_switch c t p True (clear_yield c s)
      else schedule_switch c t p False s)"
proof -
  have g: "k_ready_group s \<noteq> 0"
    using assms(3) by (auto simp: get_highest_priority_thread_def)
  show ?thesis
    unfolding rt_schedule_def keeps_cpu_def clear_yield_def
    using assms g by (simp add: Let_def map_option_case split: option.splits)
qed

lemma rt_schedule_idle: "k_lock_nest s \<noteq> 0 \<or> k_ready_group s = 0 \<Longrightarrow> rt_schedule s = Some s"
  by (auto simp: rt_schedule_def)

lemma rt_schedule_getE:
  assumes "rt_schedule s = Some s'" and "\<not> (k_lock_nest s \<noteq> 0 \<or> k_ready_group s = 0)"
  obtains c t p where "k_current s = Some c" "get_highest_priority_thread s = Some (t, p)"
  using assms by (auto simp: rt_schedule_def bind_Some_iff)

theorem rt_schedule_wf [kernel_inv]:
  assumes inv: "sched_wf s" and r: "rt_schedule s = Some s'"
  shows "sched_wf s'"
proof (cases "k_lock_nest s \<noteq> 0 \<or> k_ready_group s = 0")
  case True
  then show ?thesis using rt_schedule_idle r inv by simp
next
  case False
  then obtain c t p where c: "k_current s = Some c" and t: "get_highest_priority_thread s = Some (t, p)"
    using r by (auto elim: rt_schedule_getE)
  note H = get_highest_spec [OF inv t]
  have tc: "t \<noteq> c" using sched_invD(11) [OF inv _ c] H(6) by auto
  note eq = rt_schedule_unfold [OF _ c t]
  show ?thesis
  proof (cases "keeps_cpu s c p")
    case True
    then obtain s1 where s1: "rt_schedule_remove_thread c s = Some s1"
      "s' = upd_thread c (with_stat RT_THREAD_RUNNING) s1"
      using r eq False by (cases "rt_schedule_remove_thread c s") auto
    have "sched_inv ({} - {c}) s'"
      unfolding s1 by (rule run_thread_inv [OF inv c]) (use True s1 in \<open>auto simp: keeps_cpu_def\<close>)
    then show ?thesis by simp
  next
    case no: False
    show ?thesis
    proof (cases "tstat s c = RT_THREAD_RUNNING")
      case True
      then have "schedule_switch c t p True (clear_yield c s) = Some s'" using r eq False no tc by simp
      from schedule_switch_inv [OF clear_yield_inv [OF inv] _ tc _ _ this] c H(6) True
      show ?thesis by simp
    next
      case nr: False
      then have "schedule_switch c t p False s = Some s'" using r eq False no tc by simp
      from schedule_switch_inv [OF inv c tc H(6) _ this] nr show ?thesis by simp
    qed
  qed
qed

lemma enter_critical_wf [kernel_inv]: "sched_inv X s \<Longrightarrow> sched_inv X (rt_enter_critical s)"
  by (simp add: rt_enter_critical_def sched_inv_def)

lemma exit_critical_wf [kernel_inv]:
  assumes "sched_wf s" and "rt_exit_critical s = Some s'"
  shows "sched_wf s'"
proof -
  have lock: "sched_wf (s\<lparr>k_lock_nest := n\<rparr>)" for n using assms(1) by (simp add: sched_inv_def)
  show ?thesis
    using assms(2) rt_schedule_wf [OF lock [of 0]] lock
    by (auto simp: rt_exit_critical_def Let_def split: if_splits)
qed

section \<open>What the scheduler does not touch\<close>

text \<open>Only the ready table, the bitmap, the current thread and the thread states are written.\<close>

definition sched_frame :: "kstate \<Rightarrow> kstate \<Rightarrow> bool" where
  "sched_frame s s' \<longleftrightarrow>
     s' = s\<lparr>k_threads := k_threads s', k_tlists := k_tlists s', k_ready_group := k_ready_group s',
            k_current := k_current s', k_current_priority := k_current_priority s'\<rparr> \<and>
     (\<forall>t. thread s' t = (thread s t)\<lparr>th_stat := th_stat (thread s' t)\<rparr>)"

lemma sched_frame_refl [simp]: "sched_frame s s"
  by (simp add: sched_frame_def)

lemma sched_frame_trans: "sched_frame s1 s2 \<Longrightarrow> sched_frame s2 s3 \<Longrightarrow> sched_frame s1 s3"
proof -
  assume 1: "sched_frame s1 s2" and 2: "sched_frame s2 s3"
  have "thread s3 t = (thread s1 t)\<lparr>th_stat := th_stat (thread s3 t)\<rparr>" for t
  proof -
    have "thread s3 t = (thread s2 t)\<lparr>th_stat := th_stat (thread s3 t)\<rparr>"
      and "thread s2 t = (thread s1 t)\<lparr>th_stat := th_stat (thread s2 t)\<rparr>"
      using 1 2 by (auto simp: sched_frame_def)
    then show ?thesis by (cases "thread s1 t"; cases "thread s2 t"; cases "thread s3 t") simp
  qed
  moreover have "s3 = s1\<lparr>k_threads := k_threads s3, k_tlists := k_tlists s3,
      k_ready_group := k_ready_group s3, k_current := k_current s3,
      k_current_priority := k_current_priority s3\<rparr>"
    using 1 2 unfolding sched_frame_def by (cases s1; cases s2; cases s3) simp
  ultimately show ?thesis by (simp add: sched_frame_def)
qed

lemma sched_frame_fields [kernel_frame]:
  assumes "sched_frame s s'"
  shows "k_timers s' = k_timers s" "k_objs s' = k_objs s" "k_olists s' = k_olists s"
    "k_tmlists s' = k_tmlists s" "k_sems s' = k_sems s" "k_mutexes s' = k_mutexes s"
    "k_events s' = k_events s" "k_mailboxes s' = k_mailboxes s" "k_mqs s' = k_mqs s"
    "k_pools s' = k_pools s" "k_links s' = k_links s" "k_mem s' = k_mem s"
    "k_lock_nest s' = k_lock_nest s" "k_irq_nest s' = k_irq_nest s" "k_tick s' = k_tick s"
    "k_random_nr s' = k_random_nr s" "k_timer_thread s' = k_timer_thread s" "k_exit_addr s' = k_exit_addr s"
    "k_freed s' = k_freed s"
  using assms unfolding sched_frame_def by (cases s; cases s'; simp)+

lemma sched_frame_thread [kernel_frame]:
  assumes "sched_frame s s'"
  shows "th_error (thread s' t) = th_error (thread s t)"
    "th_current_priority (thread s' t) = th_current_priority (thread s t)"
    "th_init_priority (thread s' t) = th_init_priority (thread s t)"
    "th_number_mask (thread s' t) = th_number_mask (thread s t)"
    "th_event_set (thread s' t) = th_event_set (thread s t)"
    "th_event_info (thread s' t) = th_event_info (thread s t)"
    "th_sp (thread s' t) = th_sp (thread s t)"
    "th_stack_addr (thread s' t) = th_stack_addr (thread s t)"
    "th_stack_size (thread s' t) = th_stack_size (thread s t)"
    "th_init_tick (thread s' t) = th_init_tick (thread s t)"
    "th_remaining_tick (thread s' t) = th_remaining_tick (thread s t)"
    "th_cleanup (thread s' t) = th_cleanup (thread s t)"
proof -
  have *: "thread s' t = (thread s t)\<lparr>th_stat := th_stat (thread s' t)\<rparr>"
    using assms by (simp add: sched_frame_def)
  show "th_error (thread s' t) = th_error (thread s t)"
    "th_current_priority (thread s' t) = th_current_priority (thread s t)"
    "th_init_priority (thread s' t) = th_init_priority (thread s t)"
    "th_number_mask (thread s' t) = th_number_mask (thread s t)"
    "th_event_set (thread s' t) = th_event_set (thread s t)"
    "th_event_info (thread s' t) = th_event_info (thread s t)"
    "th_sp (thread s' t) = th_sp (thread s t)"
    "th_stack_addr (thread s' t) = th_stack_addr (thread s t)"
    "th_stack_size (thread s' t) = th_stack_size (thread s t)"
    "th_init_tick (thread s' t) = th_init_tick (thread s t)"
    "th_remaining_tick (thread s' t) = th_remaining_tick (thread s t)"
    "th_cleanup (thread s' t) = th_cleanup (thread s t)"
    by (subst *, simp)+
qed

lemma sched_frame_upd_stat: "sched_frame s (upd_thread t (\<lambda>th. th\<lparr>th_stat := f th\<rparr>) s)"
  by (simp add: sched_frame_def upd_thread_def)

lemma sched_frame_clear_yield: "sched_frame s (clear_yield c s)"
  unfolding clear_yield_def by (rule sched_frame_upd_stat)

lemma sched_frame_with_stat: "sched_frame s (upd_thread t (with_stat v) s)"
  by (simp add: sched_frame_def upd_thread_def with_stat_def)

lemma sched_frame_insert:
  "rt_schedule_insert_thread t s = Some s' \<Longrightarrow> sched_frame s s'"
  by (auto simp: rt_schedule_insert_thread_def Let_def sched_frame_def upd_thread_def with_stat_def
      split: if_splits)

lemma sched_frame_remove:
  "rt_schedule_remove_thread t s = Some s' \<Longrightarrow> sched_frame s s'"
  by (auto simp: rt_schedule_remove_thread_def Let_def sched_frame_def split: if_splits)

lemma sched_frame_switch:
  assumes "schedule_switch c t p need s = Some s'"
  shows "sched_frame s s'"
proof -
  let ?s1 = "s\<lparr>k_current_priority := of_nat p, k_current := Some t\<rparr>"
  obtain s2 s3 where s2: "(if need then rt_schedule_insert_thread c ?s1 else Some ?s1) = Some s2"
    and s3: "rt_schedule_remove_thread t s2 = Some s3"
    and s': "s' = upd_thread t (with_stat RT_THREAD_RUNNING) s3"
    using assms unfolding schedule_switch_def Let_def by (fastforce simp: bind_Some_iff)
  have "sched_frame s ?s1" by (simp add: sched_frame_def)
  moreover have "sched_frame ?s1 s2" using s2 by (auto simp: sched_frame_insert split: if_splits)
  moreover have "sched_frame s2 s3" using s3 by (rule sched_frame_remove)
  moreover have "sched_frame s3 s'" unfolding s' by (rule sched_frame_with_stat)
  ultimately show ?thesis by (blast intro: sched_frame_trans)
qed

lemma sched_frame_schedule:
  assumes "rt_schedule s = Some s'"
  shows "sched_frame s s'"
proof (cases "k_lock_nest s \<noteq> 0 \<or> k_ready_group s = 0")
  case True
  then show ?thesis using rt_schedule_idle assms by simp
next
  case False
  then obtain c t p where c: "k_current s = Some c" and t: "get_highest_priority_thread s = Some (t, p)"
    using assms by (auto elim: rt_schedule_getE)
  note eq = rt_schedule_unfold [OF _ c t]
  have cy: "sched_frame s (clear_yield c s)" by (rule sched_frame_clear_yield)
  show ?thesis
  proof (cases "keeps_cpu s c p \<or> t = c")
    case True
    define s0 where "s0 = (if tstat s c = RT_THREAD_RUNNING \<and> \<not> keeps_cpu s c p then clear_yield c s else s)"
    have 0: "sched_frame s s0" using cy by (simp add: s0_def)
    obtain s1 where s1: "rt_schedule_remove_thread c s0 = Some s1"
      "s' = upd_thread c (with_stat RT_THREAD_RUNNING) s1"
      using assms eq False True by (cases "rt_schedule_remove_thread c s0") (auto simp: s0_def)
    show ?thesis unfolding s1(2)
      using 0 sched_frame_remove [OF s1(1)] sched_frame_with_stat by (blast intro: sched_frame_trans)
  next
    case no: False
    then have "schedule_switch c t p True (clear_yield c s) = Some s' \<or> schedule_switch c t p False s = Some s'"
      using assms eq False by (auto split: if_splits)
    then show ?thesis using cy sched_frame_switch by (blast intro: sched_frame_trans)
  qed
qed

section \<open>The chosen thread\<close>

definition stack_ok :: "kstate \<Rightarrow> tid \<Rightarrow> bool" where
  "stack_ok s t \<longleftrightarrow> scheduler_stack_check t s = Some ()"

lemma stack_ok_frame: "sched_frame s s' \<Longrightarrow> stack_ok s' t = stack_ok s t"
  by (simp add: stack_ok_def scheduler_stack_check_def sched_frame_thread sched_frame_fields)

text \<open>Unlinking and linking succeed on every thread the scheduler knows.\<close>

lemma remove_thread_some:
  assumes "tprio s t < 32"
  obtains s' where "rt_schedule_remove_thread t s = Some s'" "k_tlists s' = tbl_remove t (k_tlists s)"
    "k_current s' = k_current s" "k_threads s' = k_threads s"
  using assms by (auto simp: rt_schedule_remove_thread_def Let_def)

lemma insert_thread_some:
  assumes "tprio s t < 32" "k_current s \<noteq> Some t"
  obtains s' where "rt_schedule_insert_thread t s = Some s'"
    "k_tlists s' = tbl_append (Ready (tprio s t)) t (k_tlists s)" "k_current s' = k_current s"
    "k_threads s' = (k_threads s)(t := with_stat RT_THREAD_READY (thread s t))"
  using assms by (auto simp: rt_schedule_insert_thread_def Let_def)

lemma schedule_switch_some:
  assumes "tprio s c < 32" "tprio s t < 32" "t \<noteq> c" "stack_ok s t"
  obtains s' where "schedule_switch c t p need s = Some s'" "k_current s' = Some t"
    "k_tlists s' = tbl_remove t
       (if need then tbl_append (Ready (tprio s c)) c (k_tlists s) else k_tlists s)"
    "k_threads s' = (k_threads s)(c := (if need then with_stat RT_THREAD_READY (thread s c) else thread s c),
       t := with_stat RT_THREAD_RUNNING (thread s t))"
proof -
  let ?s1 = "s\<lparr>k_current_priority := of_nat p, k_current := Some t\<rparr>"
  let ?L = "if need then tbl_append (Ready (tprio s c)) c (k_tlists s) else k_tlists s"
  obtain s2 where s2: "(if need then rt_schedule_insert_thread c ?s1 else Some ?s1) = Some s2"
    "k_tlists s2 = ?L" "k_current s2 = Some t"
    "k_threads s2 = (k_threads s)(c := (if need then with_stat RT_THREAD_READY (thread s c) else thread s c))"
    using assms insert_thread_some [of ?s1 c] by (cases need) auto
  then obtain s3 where s3: "rt_schedule_remove_thread t s2 = Some s3"
    "k_tlists s3 = tbl_remove t ?L" "k_current s3 = Some t" "k_threads s3 = k_threads s2"
    using assms remove_thread_some [of s2 t] by auto
  let ?s' = "upd_thread t (with_stat RT_THREAD_RUNNING) s3"
  have "sched_frame s ?s1" by (simp add: sched_frame_def)
  moreover have "sched_frame ?s1 s2" using s2(1) by (auto simp: sched_frame_insert split: if_splits)
  moreover have "sched_frame s2 s3" using s3(1) by (rule sched_frame_remove)
  ultimately have "sched_frame s ?s'"
    using sched_frame_with_stat by (blast intro: sched_frame_trans)
  then have "scheduler_stack_check t ?s' = Some ()"
    using assms(4) stack_ok_frame stack_ok_def by blast
  then have "schedule_switch c t p need s = Some ?s'"
    using s2(1) s3(1) by (simp add: schedule_switch_def Let_def)
  then show thesis using that [of ?s'] s2 s3 assms(3) by auto
qed

text \<open>
  One call of \<^verbatim>\<open>rt_schedule\<close> on a runnable system: it returns, and the thread that
  holds the processor afterwards is RUNNING and no ready thread has a higher priority.
\<close>

theorem rt_schedule_runs_highest:
  assumes inv: "sched_wf s" and lock: "k_lock_nest s = 0" and c: "k_current s = Some c"
    and some: "tstat s c = RT_THREAD_RUNNING \<or> (\<exists>t. tstat s t = RT_THREAD_READY)"
    and alive: "tprio s c < 32"
    and stacks: "\<And>t. tstat s t = RT_THREAD_READY \<Longrightarrow> stack_ok s t"
  obtains s' t where "rt_schedule s = Some s'" "k_current s' = Some t"
    "tstat s' t = RT_THREAD_RUNNING" "\<And>u. tstat s' u = RT_THREAD_READY \<Longrightarrow> tprio s' t \<le> tprio s' u"
proof (cases "k_ready_group s = 0")
  case True
  then have "\<And>t. tstat s t \<noteq> RT_THREAD_READY"
    using sched_invD(9) [OF inv] group_zero_iff [OF inv] by auto
  then show thesis using that [of s c] True some c rt_schedule_idle by auto
next
  case False
  obtain t ts p where t: "get_highest_priority_thread s = Some (t, p)"
    by (rule get_highest_some [OF inv False]) blast
  note H = get_highest_spec [OF inv t] and eq = rt_schedule_unfold [OF lock c t]
  have tc: "t \<noteq> c" using sched_invD(11) [OF inv _ c] H(6) by auto
  have low: "p \<le> tprio s u" if "tstat s u = RT_THREAD_READY" for u
    by (rule get_highest_le [OF inv t that])
  show thesis
  proof (cases "keeps_cpu s c p")
    case True
    obtain s1 where s1: "rt_schedule_remove_thread c s = Some s1" "k_current s1 = k_current s"
      "k_threads s1 = k_threads s"
      using remove_thread_some alive by metis
    let ?s' = "upd_thread c (with_stat RT_THREAD_RUNNING) s1"
    have "rt_schedule s = Some ?s'" using eq True s1 by simp
    moreover have "tprio ?s' c \<le> tprio ?s' u" if "tstat ?s' u = RT_THREAD_READY" for u
      using low [of u] that True s1 by (auto simp: keeps_cpu_def rt_flag_simps split: if_splits)
    ultimately show thesis using that [of ?s' c] c s1 by (simp add: rt_flag_simps)
  next
    case no: False
    let ?run = "tstat s c = RT_THREAD_RUNNING"
    define s0 where "s0 = (if ?run then clear_yield c s else s)"
    have "stack_ok s0 t"
      using stacks [OF H(6)] stack_ok_frame [OF sched_frame_clear_yield] by (simp add: s0_def)
    moreover have s0: "tprio s0 u = tprio s u" "tstat s0 u = tstat s u" for u by (simp_all add: s0_def)
    ultimately obtain s' where s': "schedule_switch c t p ?run s0 = Some s'" "k_current s' = Some t"
      "k_threads s' = (k_threads s0)(c := (if ?run then with_stat RT_THREAD_READY (thread s0 c)
          else thread s0 c), t := with_stat RT_THREAD_RUNNING (thread s0 t))"
      using schedule_switch_some [of s0 c t p ?run] alive H(1,7) tc by metis
    have "tprio s' t \<le> tprio s' u" if u: "tstat s' u = RT_THREAD_READY" for u
    proof -
      have "tprio s c \<ge> p" if ?run using no that by (auto simp: keeps_cpu_def)
      then show ?thesis using u low [of u] H(7) tc sched_invD(11) [OF inv _ c]
        by (auto simp: s'(3) s0 rt_flag_simps split: if_splits)
    qed
    then show thesis using that [of s' t] s' eq no tc
      by (auto simp: s0_def rt_flag_simps split: if_splits)
  qed
qed

text \<open>
  Round robin: a running thread whose time slice is used up goes to the back of its
  ready list, and the thread that was first there runs.
\<close>

theorem rt_schedule_rotates:
  assumes inv: "sched_wf s" and lock: "k_lock_nest s = 0" and c: "k_current s = Some c"
    and run: "tstat s c = RT_THREAD_RUNNING"
    and slice: "th_stat (thread s c) AND RT_THREAD_STAT_YIELD \<noteq> 0"
    and peer: "k_tlists s (Ready (tprio s c)) = t # ts"
    and top: "\<And>q. q < tprio s c \<Longrightarrow> k_tlists s (Ready q) = []"
    and stack: "stack_ok s t"
  obtains s' where "rt_schedule s = Some s'" "k_current s' = Some t"
    "k_tlists s' (Ready (tprio s c)) = ts @ [c]" "th_stat (thread s' c) AND RT_THREAD_STAT_YIELD = 0"
proof -
  let ?p = "tprio s c"
  have ok: "?p < 32" using prio_ok_number_mask [OF sched_invD(8) [OF inv], of c] run by simp
  have g: "k_ready_group s \<noteq> 0" using group_zero_iff [OF inv] peer by auto
  obtain u us q where u: "get_highest_priority_thread s = Some (u, q)" "k_tlists s (Ready q) = u # us"
    "\<And>j. j < q \<Longrightarrow> k_tlists s (Ready j) = []"
    by (rule get_highest_some [OF inv g]) blast
  have "q = ?p" using u(2,3) peer top by (metis linorder_neqE_nat list.distinct(1))
  then have [simp]: "u = t" "us = ts" using u(2) peer by auto
  have t: "get_highest_priority_thread s = Some (t, ?p)" using u \<open>q = ?p\<close> by simp
  note H = get_highest_spec [OF inv t]
  have tc: "t \<noteq> c" using H(6) run by auto
  have no: "\<not> keeps_cpu s c ?p" using slice by (simp add: keeps_cpu_def)
  have "stack_ok (clear_yield c s) t" using stack stack_ok_frame [OF sched_frame_clear_yield] by simp
  then obtain s' where s': "schedule_switch c t ?p True (clear_yield c s) = Some s'" "k_current s' = Some t"
    "k_tlists s' = tbl_remove t (tbl_append (Ready ?p) c (k_tlists s))"
    "k_threads s' = (k_threads (clear_yield c s))(c := with_stat RT_THREAD_READY (thread (clear_yield c s) c),
       t := with_stat RT_THREAD_RUNNING (thread (clear_yield c s) t))"
    using schedule_switch_some [of "clear_yield c s" c t ?p True] ok H(7) tc by auto
  have "distinct (t # ts)" using sched_invD(1) [OF inv] peer by (metis table_wf_def)
  then have "k_tlists s' (Ready ?p) = ts @ [c]" using s'(3) peer tc by simp
  moreover have "th_stat (thread s' c) AND 8 = 0"
  proof -
    have "(1 OR ((x AND - 9) AND - 8)) AND 8 = 0" for x :: rt_uint8
      by (simp add: bit.conj_disj_distrib2 and.assoc)
    then show ?thesis using tc by (simp add: s'(4) clear_yield_def with_stat_def)
  qed
  ultimately show thesis using that [of s'] s' rt_schedule_unfold [OF lock c t] no tc run by simp
qed

end
