(* ===== verification/KService.thy ===== *)
theory KService
  imports Prelude
begin

text \<open>
  The byte string routines of \<^verbatim>\<open>src/kservice.c\<close>.  A C string is the list of its bytes
  before the terminating NUL; reading at or after the end of the list gives the NUL.
\<close>

section \<open>Strings\<close>

fun rt_strncpy :: "rt_uint8 list \<Rightarrow> nat \<Rightarrow> rt_uint8 list" where
  "rt_strncpy s 0 = []"
| "rt_strncpy [] (Suc n) = replicate (Suc n) 0"
| "rt_strncpy (c # s) (Suc n) = (if c = 0 then replicate (Suc n) 0 else c # rt_strncpy s n)"

definition hd0 :: "rt_uint8 list \<Rightarrow> rt_uint8" where
  "hd0 s = (case s of [] \<Rightarrow> 0 | c # _ \<Rightarrow> c)"

fun rt_strncmp :: "rt_uint8 list \<Rightarrow> rt_uint8 list \<Rightarrow> nat \<Rightarrow> int" where
  "rt_strncmp cs ct 0 = 0"
| "rt_strncmp cs ct (Suc n) =
     (let res = sint (hd0 cs - hd0 ct) in
      if res \<noteq> 0 \<or> hd0 cs = 0 then res else rt_strncmp (tl cs) (tl ct) n)"

fun rt_strlen :: "rt_uint8 list \<Rightarrow> nat" where
  "rt_strlen [] = 0"
| "rt_strlen (c # s) = (if c = 0 then 0 else Suc (rt_strlen s))"

fun rt_strnlen :: "rt_uint8 list \<Rightarrow> nat \<Rightarrow> nat" where
  "rt_strnlen [] n = 0"
| "rt_strnlen (c # s) n = (if c \<noteq> 0 \<and> 0 < n then Suc (rt_strnlen s (n - 1)) else 0)"

fun rt_strcmp :: "rt_uint8 list \<Rightarrow> rt_uint8 list \<Rightarrow> int" where
  "rt_strcmp [] ct = - uint (hd0 ct)"
| "rt_strcmp (c # cs) ct =
     (if c \<noteq> 0 \<and> c = hd0 ct then rt_strcmp cs (tl ct) else uint c - uint (hd0 ct))"

definition to_lower :: "rt_uint8 \<Rightarrow> int" where
  "to_lower c = (if 65 \<le> c \<and> c \<le> 90 then uint c + 32 else uint c)"

fun rt_strcasecmp :: "rt_uint8 list \<Rightarrow> rt_uint8 list \<Rightarrow> int" where
  "rt_strcasecmp [] b = - to_lower (hd0 b)"
| "rt_strcasecmp (c # a) b =
     (if to_lower c = to_lower (hd0 b) \<and> to_lower c \<noteq> 0 then rt_strcasecmp a (tl b)
      else to_lower c - to_lower (hd0 b))"

fun rt_memcmp :: "rt_uint8 list \<Rightarrow> rt_uint8 list \<Rightarrow> nat \<Rightarrow> int" where
  "rt_memcmp cs ct 0 = 0"
| "rt_memcmp cs ct (Suc n) =
     (let res = uint (hd0 cs) - uint (hd0 ct) in
      if res \<noteq> 0 then res else rt_memcmp (tl cs) (tl ct) n)"

text \<open>The loop of \<^verbatim>\<open>rt_strstr\<close>: the offset of the match, or \<open>None\<close> for \<^verbatim>\<open>RT_NULL\<close>.\<close>

function rt_strstr_loop :: "rt_uint8 list \<Rightarrow> rt_uint8 list \<Rightarrow> nat \<Rightarrow> nat \<Rightarrow> nat \<Rightarrow> nat option" where
  "rt_strstr_loop s1 s2 l1 l2 k =
     (if l1 < l2 \<or> l1 = 0 then None
      else if rt_memcmp s1 s2 l2 = 0 then Some k
      else rt_strstr_loop (tl s1) s2 (l1 - 1) l2 (Suc k))"
  by pat_completeness auto
termination by (relation "measure (\<lambda>(s1, s2, l1, l2, k). l1)") auto

declare rt_strstr_loop.simps [simp del]

definition rt_strstr :: "rt_uint8 list \<Rightarrow> rt_uint8 list \<Rightarrow> nat option" where
  "rt_strstr s1 s2 =
     (if rt_strlen s2 = 0 then Some 0
      else rt_strstr_loop s1 s2 (rt_strlen s1) (rt_strlen s2) 0)"

section \<open>Correctness\<close>

text \<open>\<open>cstr s\<close>: the string without anything after an embedded NUL.\<close>

definition cstr :: "rt_uint8 list \<Rightarrow> rt_uint8 list" where
  "cstr s = takeWhile (\<lambda>c. c \<noteq> 0) s"

lemma hd0_simps [simp]: "hd0 [] = 0" "hd0 (c # s) = c"
  by (simp_all add: hd0_def)

lemma cstr_simps [simp]: "cstr [] = []" "cstr (c # s) = (if c = 0 then [] else c # cstr s)"
  by (simp_all add: cstr_def)

lemma rt_strlen_cstr: "rt_strlen s = length (cstr s)"
  by (induction s) auto

lemma rt_strnlen_min: "rt_strnlen s n = min n (rt_strlen s)"
  by (induction s n rule: rt_strnlen.induct) auto

lemma length_rt_strncpy [simp]: "length (rt_strncpy s n) = n"
  by (induction s n rule: rt_strncpy.induct) auto

lemma rt_strncpy_cstr: "rt_strncpy s n = take n (cstr s @ replicate n 0)"
proof (induction s n rule: rt_strncpy.induct)
  case (3 c s n)
  then show ?case by (simp add: take_Cons' replicate_append_same [symmetric])
qed auto

lemma sint_diff_zero: "sint (a - b) = 0 \<longleftrightarrow> (a :: rt_uint8) = b"
  by (metis eq_iff_diff_eq_0 signed_0 signed_eq_0_iff)

lemma rt_strncmp_eq: "rt_strncmp cs ct n = 0 \<longleftrightarrow> take n (cstr cs) = take n (cstr ct)"
proof (induction cs ct n rule: rt_strncmp.induct)
  case (2 cs ct n)
  then show ?case
    using sint_diff_zero [of 0 "hd0 ct"] sint_diff_zero [of "hd0 cs" 0]
    by (cases cs; cases ct) (auto simp: sint_diff_zero Let_def)
qed simp

lemma rt_strcmp_eq: "rt_strcmp cs ct = 0 \<longleftrightarrow> cstr cs = cstr ct"
proof (induction cs ct rule: rt_strcmp.induct)
  case (1 ct)
  then show ?case by (cases ct) (auto simp: unsigned_eq_0_iff)
next
  case (2 c cs ct)
  then show ?case by (cases ct) (auto simp: unsigned_eq_0_iff simp flip: word_eq_iff_unsigned)
qed

lemma rt_memcmp_eq: "n \<le> length cs \<Longrightarrow> n \<le> length ct \<Longrightarrow>
   rt_memcmp cs ct n = 0 \<longleftrightarrow> take n cs = take n ct"
proof (induction cs ct n rule: rt_memcmp.induct)
  case (2 cs ct n)
  then show ?case
    by (cases cs; cases ct) (auto simp: Let_def simp flip: word_eq_iff_unsigned)
qed simp

text \<open>A name that has been stored in an object compares equal to itself.\<close>

lemma cstr_pad: "0 \<notin> set a \<Longrightarrow> cstr (a @ replicate m 0) = a"
  by (induction a) (auto simp: cstr_def takeWhile_replicate)

lemma zero_notin_cstr [simp]: "0 \<notin> set (cstr s)"
  by (induction s) auto

lemma rt_strncmp_stored: "rt_strncmp (rt_strncpy s n) ct n = 0 \<longleftrightarrow> take n (cstr s) = take n (cstr ct)"
proof -
  have "0 \<notin> set (take n (cstr s))" by (meson in_set_takeD zero_notin_cstr)
  then have "cstr (take n (cstr s @ replicate n 0)) = take n (cstr s)"
    by (simp add: cstr_pad)
  then show ?thesis by (simp add: rt_strncmp_eq rt_strncpy_cstr)
qed

text \<open>\<^verbatim>\<open>rt_strstr\<close> finds the first occurrence.\<close>

definition occurs_at :: "rt_uint8 list \<Rightarrow> rt_uint8 list \<Rightarrow> nat \<Rightarrow> bool" where
  "occurs_at s1 s2 k \<longleftrightarrow> k + length s2 \<le> length s1 \<and> take (length s2) (drop k s1) = s2"

lemma rt_strstr_loop_some:
  assumes "l1 \<le> length s1" "length s2 = l2" "0 < l2"
  shows "rt_strstr_loop s1 s2 l1 l2 k = Some j \<longleftrightarrow>
    (\<exists>i. j = k + i \<and> i + l2 \<le> l1 \<and> take l2 (drop i s1) = s2 \<and>
        (\<forall>i'<i. take l2 (drop i' s1) \<noteq> s2))"
  using assms
proof (induction s1 s2 l1 l2 k rule: rt_strstr_loop.induct)
  case (1 s1 s2 l1 l2 k)
  show ?case
  proof (cases "l1 < l2")
    case True
    then show ?thesis by (subst rt_strstr_loop.simps) auto
  next
    case False
    then have here: "rt_memcmp s1 s2 l2 = 0 \<longleftrightarrow> take l2 s1 = s2"
      using rt_memcmp_eq [of l2 s1 s2] "1.prems" by simp
    show ?thesis
    proof (cases "take l2 s1 = s2")
      case True
      then have "rt_strstr_loop s1 s2 l1 l2 k = Some k"
        using False here "1.prems" by (subst rt_strstr_loop.simps) auto
      then show ?thesis using True False by (auto intro: gr0I) (metis drop0 gr0I)
    next
      case no: False
      then have step: "rt_strstr_loop s1 s2 l1 l2 k = rt_strstr_loop (tl s1) s2 (l1 - 1) l2 (Suc k)"
        using False here "1.prems" by (subst rt_strstr_loop.simps) auto
      have IH: "rt_strstr_loop (tl s1) s2 (l1 - 1) l2 (Suc k) = Some j \<longleftrightarrow>
        (\<exists>i. j = Suc k + i \<and> i + l2 \<le> l1 - 1 \<and> take l2 (drop i (tl s1)) = s2 \<and>
          (\<forall>i'<i. take l2 (drop i' (tl s1)) \<noteq> s2))"
        using "1.IH" False here no "1.prems" by auto
      have shift: "drop i (tl s1) = drop (Suc i) s1" for i by (simp add: drop_Suc)
      show ?thesis unfolding step IH shift
      proof (intro iffI; elim exE conjE)
        fix i assume "j = Suc k + i" "i + l2 \<le> l1 - 1" "take l2 (drop (Suc i) s1) = s2"
          "\<forall>i'<i. take l2 (drop (Suc i') s1) \<noteq> s2"
        then show "\<exists>i. j = k + i \<and> i + l2 \<le> l1 \<and> take l2 (drop i s1) = s2 \<and>
            (\<forall>i'<i. take l2 (drop i' s1) \<noteq> s2)"
          using no False "1.prems" by (intro exI [of _ "Suc i"]) (auto simp: less_Suc_eq_0_disj)
      next
        fix i assume i: "j = k + i" "i + l2 \<le> l1" "take l2 (drop i s1) = s2"
          "\<forall>i'<i. take l2 (drop i' s1) \<noteq> s2"
        then obtain i0 where "i = Suc i0" using no by (cases i) auto
        then show "\<exists>i. j = Suc k + i \<and> i + l2 \<le> l1 - 1 \<and> take l2 (drop (Suc i) s1) = s2 \<and>
            (\<forall>i'<i. take l2 (drop (Suc i') s1) \<noteq> s2)"
          using i by (intro exI [of _ i0]) auto
      qed
    qed
  qed
qed

lemma rt_strstr_first:
  assumes "0 \<notin> set s1" "0 \<notin> set s2"
  shows "rt_strstr s1 s2 = Some k \<longleftrightarrow> occurs_at s1 s2 k \<and> (\<forall>j<k. \<not> occurs_at s1 s2 j)"
proof -
  have c: "cstr s1 = s1" "cstr s2 = s2"
    using assms by (auto simp: cstr_def takeWhile_eq_all_conv)
  show ?thesis
  proof (cases "s2 = []")
    case True
    then show ?thesis by (auto simp: rt_strstr_def rt_strlen_cstr occurs_at_def)
  next
    case False
    then show ?thesis
      using rt_strstr_loop_some [of "length s1" s1 s2 "length s2" 0 k]
      by (auto simp: rt_strstr_def rt_strlen_cstr c occurs_at_def)
  qed
qed

section \<open>Properties\<close>

text \<open>
  Substring search: on two strings without a terminator inside, the search returns the
  position of the first occurrence, and nothing exactly when there is no occurrence.
\<close>

theorem rt_strstr_finds_first:
  assumes "0 \<notin> set s1" "0 \<notin> set s2"
  shows "case rt_strstr s1 s2 of
      Some k \<Rightarrow> occurs_at s1 s2 k \<and> (\<forall>j<k. \<not> occurs_at s1 s2 j)
    | None \<Rightarrow> \<forall>j. \<not> occurs_at s1 s2 j"
proof (cases "rt_strstr s1 s2")
  case None
  have "\<not> occurs_at s1 s2 j" for j
  proof
    assume "occurs_at s1 s2 j"
    then have "occurs_at s1 s2 (LEAST k. occurs_at s1 s2 k)" by (rule LeastI)
    moreover have "\<forall>i < (LEAST k. occurs_at s1 s2 k). \<not> occurs_at s1 s2 i" using not_less_Least by blast
    ultimately have "rt_strstr s1 s2 = Some (LEAST k. occurs_at s1 s2 k)" unfolding rt_strstr_first [OF assms] ..
    then show False using None by simp
  qed
  then show ?thesis using None by simp
next
  case (Some k)
  then show ?thesis using rt_strstr_first [OF assms, of k] by simp
qed

end
