(* ===== verification/KObject.thy ===== *)
theory KObject
  imports Scheduler KService
begin

text \<open>
  The kernel object container of \<^verbatim>\<open>src/object.c\<close>: one list of objects per class, with
  initialisation, allocation, removal and lookup by name.

  The memory an allocation returns is an argument of \<open>rt_object_allocate\<close> (\<open>None\<close> when
  \<^verbatim>\<open>RT_KERNEL_MALLOC\<close> fails); the allocator is the subject of another theory.
  \<open>k_freed\<close> records the objects whose memory was handed back.
\<close>

section \<open>Operations\<close>

definition object_container :: "rt_uint8 list" where
  "object_container =
     [RT_Object_Class_Thread, RT_Object_Class_Semaphore, RT_Object_Class_Mutex,
      RT_Object_Class_Event, RT_Object_Class_MailBox, RT_Object_Class_MessageQueue,
      RT_Object_Class_MemPool, RT_Object_Class_Device, RT_Object_Class_Timer]"

definition rt_object_get_information :: "rt_uint8 \<Rightarrow> rt_uint8 option" where
  "rt_object_get_information ty = (if ty \<in> set object_container then Some ty else None)"

definition rt_object_init :: "kobj \<Rightarrow> rt_uint8 \<Rightarrow> rt_uint8 list \<Rightarrow> kstate \<Rightarrow> kstate option" where
  "rt_object_init k ty name s = do {
     information \<leftarrow> rt_object_get_information ty;
     let s = rt_enter_critical s;
     rt_assert (k \<notin> set (k_olists s information));
     s \<leftarrow> rt_exit_critical s;
     let s = upd_obj k (\<lambda>ob. ob\<lparr>o_type := ty OR RT_Object_Class_Static,
                                  o_name := rt_strncpy name 8\<rparr>) s;
     Some (s\<lparr>k_olists := tbl_push information k (k_olists s)\<rparr>)
   }"

definition rt_object_detach :: "kobj \<Rightarrow> kstate \<Rightarrow> kstate" where
  "rt_object_detach k s =
     (let s = upd_obj k (\<lambda>ob. ob\<lparr>o_type := 0\<rparr>) s in
      s\<lparr>k_olists := tbl_remove k (k_olists s)\<rparr>)"

text \<open>\<^verbatim>\<open>rt_memset(object, 0, size)\<close> on the structure behind an object address.\<close>

fun clear_object :: "kobj \<Rightarrow> kstate \<Rightarrow> kstate" where
  "clear_object (KThread t) s =
     upd_obj (KTimer (ThreadTimer t)) (\<lambda>_. zero_object)
       (upd_timer (ThreadTimer t) (\<lambda>_. zero_timer) (upd_thread t (\<lambda>_. zero_thread) s))"
| "clear_object (KTimer t) s = upd_timer t (\<lambda>_. zero_timer) s"
| "clear_object (KSem i) s = s\<lparr>k_sems := (k_sems s)(i := k_sems zero_state i)\<rparr>"
| "clear_object (KMutex i) s = s\<lparr>k_mutexes := (k_mutexes s)(i := k_mutexes zero_state i)\<rparr>"
| "clear_object (KEvent i) s = s\<lparr>k_events := (k_events s)(i := k_events zero_state i)\<rparr>"
| "clear_object (KMailbox i) s = s\<lparr>k_mailboxes := (k_mailboxes s)(i := k_mailboxes zero_state i)\<rparr>"
| "clear_object (KMq i) s = s\<lparr>k_mqs := (k_mqs s)(i := k_mqs zero_state i)\<rparr>"
| "clear_object (KMemPool i) s = s\<lparr>k_pools := (k_pools s)(i := k_pools zero_state i)\<rparr>"
| "clear_object (KDevice i) s = s"

definition rt_object_allocate ::
    "rt_uint8 \<Rightarrow> rt_uint8 list \<Rightarrow> kobj option \<Rightarrow> kstate \<Rightarrow> (kobj option \<times> kstate) option" where
  "rt_object_allocate ty name alloc s = do {
     rt_debug_not_in_interrupt s;
     information \<leftarrow> rt_object_get_information ty;
     (case alloc of
        None \<Rightarrow> Some (None, s)
      | Some k \<Rightarrow>
          (let s = upd_obj k (\<lambda>_. zero_object) (clear_object k s);
               s = upd_obj k (\<lambda>ob. ob\<lparr>o_type := ty, o_flag := 0, o_name := rt_strncpy name 8\<rparr>) s
           in Some (Some k, s\<lparr>k_olists := tbl_push information k (k_olists s)\<rparr>)))
   }"

definition rt_object_delete :: "kobj \<Rightarrow> kstate \<Rightarrow> kstate option" where
  "rt_object_delete k s = do {
     rt_assert (o_type (k_objs s k) AND RT_Object_Class_Static = 0);
     let s = upd_obj k (\<lambda>ob. ob\<lparr>o_type := 0\<rparr>) s;
     let s = s\<lparr>k_olists := tbl_remove k (k_olists s)\<rparr>;
     Some (s\<lparr>k_freed := k # k_freed s\<rparr>)
   }"

definition rt_object_is_systemobject :: "kobj \<Rightarrow> kstate \<Rightarrow> bool" where
  "rt_object_is_systemobject k s \<longleftrightarrow> o_type (k_objs s k) AND RT_Object_Class_Static \<noteq> 0"

definition rt_object_get_type :: "kobj \<Rightarrow> kstate \<Rightarrow> rt_uint8" where
  "rt_object_get_type k s = o_type (k_objs s k) AND NOT RT_Object_Class_Static"

definition find_by_name :: "kstate \<Rightarrow> rt_uint8 list \<Rightarrow> kobj list \<Rightarrow> kobj option" where
  "find_by_name s name ks =
     find (\<lambda>k. rt_strncmp (o_name (k_objs s k)) name 8 = 0) ks"

definition rt_object_find ::
    "rt_uint8 list option \<Rightarrow> rt_uint8 \<Rightarrow> kstate \<Rightarrow> (kobj option \<times> kstate) option" where
  "rt_object_find name ty s =
     (case name of
        None \<Rightarrow> Some (None, s)
      | Some nm \<Rightarrow>
          if RT_Object_Class_Unknown < ty then Some (None, s)
          else do {
            rt_debug_not_in_interrupt s;
            let s = rt_enter_critical s;
            information \<leftarrow> rt_object_get_information ty;
            let r = find_by_name s nm (k_olists s information);
            s \<leftarrow> rt_exit_critical s;
            Some (r, s)
          })"

section \<open>The container invariant\<close>

text \<open>
  Every listed object carries the type of its list, the lists are disjoint, and an object on
  no list carries no type, so that the type assertions tell the two apart.
\<close>

definition objs_wf :: "kstate \<Rightarrow> bool" where
  "objs_wf s \<longleftrightarrow> table_wf (k_olists s) \<and>
     (\<forall>c. \<forall>k \<in> set (k_olists s c). rt_object_get_type k s = c \<and> c \<in> set object_container) \<and>
     (\<forall>k. unlinked k (k_olists s) \<longrightarrow> o_type (k_objs s k) = 0)"

lemma object_type_static [rt_flag_simps]:
  "((ty :: rt_uint8) OR 0x80) AND NOT 0x80 = ty AND NOT 0x80"
  "((ty :: rt_uint8) OR 0x80) AND - 129 = ty AND - 129"
  "((ty :: rt_uint8) OR 0x80) AND 0x80 = 0x80"
  by (simp_all add: bit.conj_disj_distrib2)

lemma container_types [rt_flag_simps]:
  "ty \<in> set object_container \<Longrightarrow> ty AND NOT 0x80 = ty"
  "ty \<in> set object_container \<Longrightarrow> ty AND - 129 = ty"
  "ty \<in> set object_container \<Longrightarrow> ty AND 0x80 = 0"
  "ty \<in> set object_container \<Longrightarrow> ty \<noteq> 0"
  by (auto simp: object_container_def)

lemma sched_frame_lock_step:
  "rt_exit_critical (rt_enter_critical s) = Some s' \<Longrightarrow>
     k_objs s' = k_objs s \<and> k_olists s' = k_olists s"
  by (auto simp: rt_exit_critical_def rt_enter_critical_def Let_def split: if_splits
      dest!: sched_frame_schedule dest: sched_frame_fields(2) sched_frame_fields(3))

lemma objs_wf_cong:
  "k_objs s' = k_objs s \<Longrightarrow> k_olists s' = k_olists s \<Longrightarrow> objs_wf s' = objs_wf s"
  by (simp add: objs_wf_def rt_object_get_type_def)

lemma sched_frame_objs_wf: "sched_frame s s' \<Longrightarrow> objs_wf s' = objs_wf s"
  by (rule objs_wf_cong) (simp_all add: sched_frame_fields)

text \<open>Pushing an object that is on no list, under its own type.\<close>

lemma objs_wf_push:
  assumes "objs_wf s" "unlinked k (k_olists s)" "ty \<in> set object_container"
    "k_objs s' = (k_objs s)(k := ob)" "o_type ob AND NOT 0x80 = ty"
    "k_olists s' = tbl_push ty k (k_olists s)"
  shows "objs_wf s'"
  using assms by (auto simp: objs_wf_def rt_object_get_type_def table_wf_tbl_push unlinked_def)

lemma rt_object_init_wf:
  assumes "objs_wf s" "unlinked k (k_olists s)" "rt_object_init k ty name s = Some s'"
  shows "objs_wf s'" "k_olists s' = tbl_push ty k (k_olists s)"
    "rt_object_get_type k s' = ty" "rt_object_is_systemobject k s'"
    "o_name (k_objs s' k) = rt_strncpy name 8"
proof -
  obtain s1 where ty: "ty \<in> set object_container"
    and s1: "rt_exit_critical (rt_enter_critical s) = Some s1"
    and s': "s' = (let s = upd_obj k (\<lambda>ob. ob\<lparr>o_type := ty OR 0x80, o_name := rt_strncpy name 8\<rparr>) s1
        in s\<lparr>k_olists := tbl_push ty k (k_olists s)\<rparr>)"
    using assms(3)
    by (auto simp: rt_object_init_def rt_object_get_information_def bind_Some_iff Let_def split: if_splits)
  note keep = sched_frame_lock_step [OF s1]
  show "k_olists s' = tbl_push ty k (k_olists s)" using keep by (simp add: s' Let_def)
  then show "objs_wf s'"
    by (intro objs_wf_push [OF assms(1,2) ty, of s' "(k_objs s k)\<lparr>o_type := ty OR 0x80, o_name := rt_strncpy name 8\<rparr>"])
      (use keep ty in \<open>auto simp: s' Let_def rt_flag_simps\<close>)
  show "rt_object_get_type k s' = ty" "rt_object_is_systemobject k s'"
    "o_name (k_objs s' k) = rt_strncpy name 8"
    using ty by (auto simp: s' Let_def rt_object_get_type_def rt_object_is_systemobject_def rt_flag_simps)
qed

lemma objs_wf_remove:
  assumes "objs_wf s" "k_objs s' = (k_objs s)(k := ob)" "o_type ob = 0"
    "k_olists s' = tbl_remove k (k_olists s)"
  shows "objs_wf s'"
  using assms by (auto simp: objs_wf_def rt_object_get_type_def unlinked_tbl_remove_iff)

lemma rt_object_detach_wf:
  assumes "objs_wf s"
  shows "objs_wf (rt_object_detach k s)" "unlinked k (k_olists (rt_object_detach k s))"
  using objs_wf_remove [OF assms, of "rt_object_detach k s" k]
  by (auto simp: rt_object_detach_def Let_def)

lemma rt_object_delete_wf:
  assumes "objs_wf s" "rt_object_delete k s = Some s'"
  shows "objs_wf s'" "unlinked k (k_olists s')" "k \<in> set (k_freed s')"
  using objs_wf_remove [OF assms(1), of s' k] assms(2)
  by (auto simp: rt_object_delete_def Let_def)

lemma rt_object_init_sched_wf [kernel_inv]:
  assumes "sched_wf s" "rt_object_init k ty name s = Some s'"
  shows "sched_wf s'"
proof -
  obtain s1 where "rt_exit_critical (rt_enter_critical s) = Some s1"
    and s': "k_threads s' = k_threads s1" "k_tlists s' = k_tlists s1"
      "k_ready_group s' = k_ready_group s1" "k_current s' = k_current s1"
    using assms(2) by (fastforce simp: rt_object_init_def bind_Some_iff Let_def)
  then have "sched_wf s1" using exit_critical_wf enter_critical_wf assms(1) by blast
  then show ?thesis using s' sched_inv_cong by metis
qed

lemma rt_object_detach_sched [simp]:
  "sched_inv X (rt_object_detach k s) = sched_inv X s"
  by (rule sched_inv_cong) (simp_all add: rt_object_detach_def Let_def)

text \<open>Lookup finds an initialised object by the name it was given.\<close>

lemma find_by_name_first:
  assumes "rt_strncmp (o_name (k_objs s k)) name 8 = 0"
  shows "find_by_name s name (k # ks) = Some k"
  using assms by (simp add: find_by_name_def)

end
