(* ===== verification/KTimer.thy ===== *)
theory KTimer
  imports KObject
begin

text \<open>
  The timers of \<^verbatim>\<open>src/timer.c\<close>, up to the operations that need threads: initialisation,
  creation, removal, stopping and control, and the search for the insertion point in the
  list ordered by timeout.  \<^verbatim>\<open>RT_TIMER_SKIP_LIST_LEVEL\<close> is one, so a timer list is one
  ring and the loops over the skip-list rows run once.

  Timeouts are 32-bit ticks that wrap around.  Order is taken relative to a base tick
  \<open>b\<close>: a list is in order when the offsets of its timeouts from \<open>b\<close> ascend, and every
  offset lies in the half-range window the comparison of the source needs.
\<close>

section \<open>Operations\<close>

abbreviation (input) rt_timer_list :: tmhead where "rt_timer_list \<equiv> HardTimers"
abbreviation (input) rt_soft_timer_list :: tmhead where "rt_soft_timer_list \<equiv> SoftTimers"

abbreviation timeout :: "kstate \<Rightarrow> timer_id \<Rightarrow> rt_uint32" where
  "timeout s t \<equiv> tm_timeout_tick (k_timers s t)"

abbreviation tflag :: "kstate \<Rightarrow> timer_id \<Rightarrow> rt_uint8" where
  "tflag s t \<equiv> o_flag (k_objs s (KTimer t))"

abbreviation upd_tflag :: "timer_id \<Rightarrow> (rt_uint8 \<Rightarrow> rt_uint8) \<Rightarrow> kstate \<Rightarrow> kstate" where
  "upd_tflag t f \<equiv> upd_obj (KTimer t) (\<lambda>ob. ob\<lparr>o_flag := f (o_flag ob)\<rparr>)"

definition timer_init_fields :: "timer_id \<Rightarrow> timeout_fn \<Rightarrow> rt_uint32 \<Rightarrow> rt_uint8 \<Rightarrow> kstate \<Rightarrow> kstate" where
  "timer_init_fields t func time flag s =
     upd_timer t (\<lambda>_. \<lparr>tm_func = func, tm_init_tick = time, tm_timeout_tick = 0\<rparr>)
       (upd_tflag t (\<lambda>_. flag AND NOT RT_TIMER_FLAG_ACTIVATED) s)"

definition rt_timer_list_next_timeout :: "tmhead \<Rightarrow> kstate \<Rightarrow> rt_uint32" where
  "rt_timer_list_next_timeout h s =
     (case k_tmlists s h of [] \<Rightarrow> RT_TICK_MAX | t # _ \<Rightarrow> timeout s t)"

definition timer_remove :: "timer_id \<Rightarrow> kstate \<Rightarrow> kstate" where
  "timer_remove t s = s\<lparr>k_tmlists := tbl_remove t (k_tmlists s)\<rparr>"

definition rt_timer_init ::
    "timer_id \<Rightarrow> rt_uint8 list \<Rightarrow> timeout_fn \<Rightarrow> rt_uint32 \<Rightarrow> rt_uint8 \<Rightarrow> kstate \<Rightarrow> kstate option" where
  "rt_timer_init t name func time flag s = do {
     s \<leftarrow> rt_object_init (KTimer t) RT_Object_Class_Timer name s;
     Some (timer_init_fields t func time flag s)
   }"

definition rt_timer_detach :: "timer_id \<Rightarrow> kstate \<Rightarrow> (rt_err \<times> kstate) option" where
  "rt_timer_detach t s = do {
     rt_assert (rt_object_get_type (KTimer t) s = RT_Object_Class_Timer);
     rt_assert (rt_object_is_systemobject (KTimer t) s);
     let s = timer_remove t s;
     Some (RT_EOK, rt_object_detach (KTimer t) s)
   }"

definition rt_timer_create ::
    "rt_uint8 list \<Rightarrow> timeout_fn \<Rightarrow> rt_uint32 \<Rightarrow> rt_uint8 \<Rightarrow> oid option \<Rightarrow> kstate \<Rightarrow>
       (timer_id option \<times> kstate) option" where
  "rt_timer_create name func time flag alloc s = do {
     (r, s) \<leftarrow> rt_object_allocate RT_Object_Class_Timer name
        (map_option (\<lambda>i. KTimer (UserTimer i)) alloc) s;
     (case alloc of
        None \<Rightarrow> Some (None, s)
      | Some i \<Rightarrow> Some (Some (UserTimer i), timer_init_fields (UserTimer i) func time flag s))
   }"

definition rt_timer_delete :: "timer_id \<Rightarrow> kstate \<Rightarrow> (rt_err \<times> kstate) option" where
  "rt_timer_delete t s = do {
     rt_assert (rt_object_get_type (KTimer t) s = RT_Object_Class_Timer);
     rt_assert (\<not> rt_object_is_systemobject (KTimer t) s);
     let s = timer_remove t s;
     s \<leftarrow> rt_object_delete (KTimer t) s;
     Some (RT_EOK, s)
   }"

text \<open>
  The search loop of \<^verbatim>\<open>rt_timer_start\<close>: go on past timers with the same or an earlier
  timeout, and put \<open>n\<close> in front of the first later one.
\<close>

fun timer_insert :: "(timer_id \<Rightarrow> rt_uint32) \<Rightarrow> timer_id \<Rightarrow> timer_id list \<Rightarrow> timer_id list" where
  "timer_insert tmo n [] = [n]"
| "timer_insert tmo n (t # ts) =
     (if tmo t - tmo n = 0 then t # timer_insert tmo n ts
      else if tmo t - tmo n < RT_TICK_HALF then n # t # ts
      else t # timer_insert tmo n ts)"

definition rt_timer_stop :: "timer_id \<Rightarrow> kstate \<Rightarrow> (rt_err \<times> kstate) option" where
  "rt_timer_stop t s = do {
     rt_assert (rt_object_get_type (KTimer t) s = RT_Object_Class_Timer);
     if tflag s t AND RT_TIMER_FLAG_ACTIVATED = 0 then Some (- RT_ERROR, s)
     else (let s = timer_remove t s in
           Some (RT_EOK, upd_tflag t (\<lambda>f. f AND NOT RT_TIMER_FLAG_ACTIVATED) s))
   }"

datatype timer_cmd = TIMER_SET_TIME rt_uint32 | TIMER_GET_TIME | TIMER_SET_ONESHOT
  | TIMER_SET_PERIODIC

text \<open>The second result is what the call stores through \<^verbatim>\<open>arg\<close>.\<close>

definition rt_timer_control ::
    "timer_id \<Rightarrow> timer_cmd \<Rightarrow> kstate \<Rightarrow> (rt_err \<times> rt_uint32 option \<times> kstate) option" where
  "rt_timer_control t cmd s = do {
     rt_assert (rt_object_get_type (KTimer t) s = RT_Object_Class_Timer);
     (case cmd of
        TIMER_GET_TIME \<Rightarrow> Some (RT_EOK, Some (tm_init_tick (k_timers s t)), s)
      | TIMER_SET_TIME v \<Rightarrow> Some (RT_EOK, None, upd_timer t (\<lambda>tm. tm\<lparr>tm_init_tick := v\<rparr>) s)
      | TIMER_SET_ONESHOT \<Rightarrow>
          Some (RT_EOK, None, upd_tflag t (\<lambda>f. f AND NOT RT_TIMER_FLAG_PERIODIC) s)
      | TIMER_SET_PERIODIC \<Rightarrow>
          Some (RT_EOK, None, upd_tflag t (\<lambda>f. f OR RT_TIMER_FLAG_PERIODIC) s))
   }"

definition rt_timer_next_timeout_tick :: "kstate \<Rightarrow> rt_uint32" where
  "rt_timer_next_timeout_tick s = rt_timer_list_next_timeout rt_timer_list s"

definition rt_system_timer_init :: "kstate \<Rightarrow> kstate" where
  "rt_system_timer_init s = s\<lparr>k_tmlists := (k_tmlists s)(rt_timer_list := [])\<rparr>"

section \<open>Order of a timer list\<close>

text \<open>Offsets from a base tick, and lists in order of them within the half-range window.\<close>

definition toff :: "rt_uint32 \<Rightarrow> (timer_id \<Rightarrow> rt_uint32) \<Rightarrow> timer_id \<Rightarrow> nat" where
  "toff b tmo t = unat (tmo t - b)"

definition in_window :: "rt_uint32 \<Rightarrow> (timer_id \<Rightarrow> rt_uint32) \<Rightarrow> timer_id \<Rightarrow> bool" where
  "in_window b tmo t \<longleftrightarrow> toff b tmo t < unat RT_TICK_HALF"

definition timers_ordered :: "rt_uint32 \<Rightarrow> (timer_id \<Rightarrow> rt_uint32) \<Rightarrow> timer_id list \<Rightarrow> bool" where
  "timers_ordered b tmo ts \<longleftrightarrow> (\<forall>t \<in> set ts. in_window b tmo t) \<and> sorted (map (toff b tmo) ts)"

text \<open>Within the window, the wrap-around comparison of the source is the order of the offsets.\<close>

lemma unat_diff_window:
  fixes x y :: rt_uint32
  assumes "unat x < 0x7FFFFFFF" "unat y < 0x7FFFFFFF"
  shows "x - y < 0x7FFFFFFF \<longleftrightarrow> y \<le> x"
proof (cases "y \<le> x")
  case True
  then have "unat (x - y) = unat x - unat y" by (simp add: unat_sub)
  then show ?thesis using True assms by (simp add: word_less_nat_alt)
next
  case False
  then have "unat x < unat y" by (simp add: word_le_nat_alt)
  then have "unat (x - y) = unat x + 2 ^ 32 - unat y" by (simp add: unat_sub_if')
  then show ?thesis using \<open>unat x < unat y\<close> False assms by (simp add: word_less_nat_alt)
qed

lemma timeout_compare:
  assumes "in_window b tmo t" "in_window b tmo n"
  shows "tmo t - tmo n < RT_TICK_HALF \<longleftrightarrow> toff b tmo n \<le> toff b tmo t"
    and "tmo t - tmo n = 0 \<longleftrightarrow> toff b tmo t = toff b tmo n"
proof -
  have "tmo t - tmo n = (tmo t - b) - (tmo n - b)" by simp
  then show "tmo t - tmo n < RT_TICK_HALF \<longleftrightarrow> toff b tmo n \<le> toff b tmo t"
    using unat_diff_window [of "tmo t - b" "tmo n - b"] assms
    by (simp add: in_window_def toff_def word_le_nat_alt)
  show "tmo t - tmo n = 0 \<longleftrightarrow> toff b tmo t = toff b tmo n"
    by (simp add: toff_def word_unat_eq_iff [symmetric])
qed

lemma set_timer_insert [simp]: "set (timer_insert tmo n ts) = insert n (set ts)"
  by (induction ts) auto

lemma distinct_timer_insert: "distinct ts \<Longrightarrow> n \<notin> set ts \<Longrightarrow> distinct (timer_insert tmo n ts)"
  by (induction ts) auto

text \<open>Under the window, the search loop is insertion behind the timers that are not later.\<close>

lemma timer_insert_split:
  assumes "timers_ordered b tmo ts" "in_window b tmo n"
  shows "timer_insert tmo n ts =
     takeWhile (\<lambda>t. toff b tmo t \<le> toff b tmo n) ts @ n # dropWhile (\<lambda>t. toff b tmo t \<le> toff b tmo n) ts"
  using assms
proof (induction ts)
  case (Cons t ts)
  have "timers_ordered b tmo ts" "in_window b tmo t"
    using Cons.prems(1) by (auto simp: timers_ordered_def)
  then show ?case
    using Cons timeout_compare [of b tmo t n] by auto
qed simp

lemma sorted_insert_between:
  "sorted (map f (xs @ ys)) \<Longrightarrow> \<forall>x \<in> set xs. f x \<le> f n \<Longrightarrow> \<forall>y \<in> set ys. f n \<le> f y \<Longrightarrow>
     sorted (map f (xs @ n # ys))"
  by (auto simp: sorted_append)

lemma timer_insert_ordered:
  assumes "timers_ordered b tmo ts" "in_window b tmo n"
  shows "timers_ordered b tmo (timer_insert tmo n ts)"
proof -
  let ?P = "\<lambda>t. toff b tmo t \<le> toff b tmo n"
  have so: "sorted (map (toff b tmo) ts)" using assms(1) by (simp add: timers_ordered_def)
  have "\<forall>t \<in> set (dropWhile ?P ts). toff b tmo n \<le> toff b tmo t"
    using so
  proof (induction ts)
    case (Cons t ts)
    then show ?case by (cases "?P t") (auto intro: order_trans [of _ "toff b tmo t"])
  qed simp
  moreover have "sorted (map (toff b tmo) (takeWhile ?P ts @ dropWhile ?P ts))" using so by simp
  moreover have "\<forall>t \<in> set (takeWhile ?P ts). toff b tmo t \<le> toff b tmo n" by (auto dest: set_takeWhileD)
  ultimately have "sorted (map (toff b tmo) (takeWhile ?P ts @ n # dropWhile ?P ts))"
    by (intro sorted_insert_between) simp_all
  then have "sorted (map (toff b tmo) (timer_insert tmo n ts))"
    using timer_insert_split [OF assms] by simp
  then show ?thesis using assms unfolding timers_ordered_def set_timer_insert by blast
qed

section \<open>Properties\<close>

text \<open>
  A timer is started in order: within the half-range window of the tick counter, wherever the
  counter wraps, the new timer goes after every timer that expires no later, so that timers with
  the same deadline fire in the order they were started, and before every later one; the list
  stays in the order of the deadlines.
\<close>

theorem timer_insert_stable:
  assumes "timers_ordered b tmo ts" "in_window b tmo n"
  shows "timers_ordered b tmo (timer_insert tmo n ts) \<and>
     (\<exists>xs ys. ts = xs @ ys \<and> timer_insert tmo n ts = xs @ n # ys \<and>
        (\<forall>t \<in> set xs. toff b tmo t \<le> toff b tmo n) \<and> (\<forall>t \<in> set ys. toff b tmo n < toff b tmo t))"
proof -
  let ?P = "\<lambda>t. toff b tmo t \<le> toff b tmo n"
  have later: "toff b tmo n < toff b tmo t" if t: "t \<in> set (dropWhile ?P ts)" for t
  proof -
    obtain d ds where d: "dropWhile ?P ts = d # ds" using t by (cases "dropWhile ?P ts") auto
    then have "\<not> ?P d" using hd_dropWhile [of ?P ts] by auto
    moreover have "sorted (map (toff b tmo) (takeWhile ?P ts @ d # ds))"
      using assms(1) d by (metis takeWhile_dropWhile_id timers_ordered_def)
    then have "toff b tmo d \<le> toff b tmo t" using t d by (auto simp: sorted_append)
    ultimately show ?thesis by simp
  qed
  moreover have "\<forall>t \<in> set (takeWhile ?P ts). ?P t" using set_takeWhileD by fast
  ultimately show ?thesis
    using timer_insert_ordered [OF assms] timer_insert_split [OF assms]
    by (intro conjI exI [of _ "takeWhile ?P ts"] exI [of _ "dropWhile ?P ts"]) auto
qed

end
