(* ===== verification/KernelInv.thy ===== *)
theory KernelInv
  imports KTimer
begin

text \<open>
  The invariant of the whole kernel state, \<open>kinv X\<close>: the scheduler's invariant, the timer
  lists, the object container, and the agreement between them.  The threads in \<open>X\<close> are
  excepted while an operation moves them; between operations it is \<open>kernel_wf = kinv {}\<close>.

  The lemmas give the effect of the primitive updates that the operations of the following
  theories are composed of.
\<close>

section \<open>Definition\<close>

fun class_of :: "kobj \<Rightarrow> rt_uint8" where
  "class_of (KThread _) = RT_Object_Class_Thread"
| "class_of (KSem _) = RT_Object_Class_Semaphore"
| "class_of (KMutex _) = RT_Object_Class_Mutex"
| "class_of (KEvent _) = RT_Object_Class_Event"
| "class_of (KMailbox _) = RT_Object_Class_MailBox"
| "class_of (KMq _) = RT_Object_Class_MessageQueue"
| "class_of (KMemPool _) = RT_Object_Class_MemPool"
| "class_of (KDevice _) = RT_Object_Class_Device"
| "class_of (KTimer _) = RT_Object_Class_Timer"

abbreviation listed :: "kobj \<Rightarrow> kstate \<Rightarrow> bool" where
  "listed k s \<equiv> k \<in> set (k_olists s (class_of k))"

text \<open>The objects that threads wait on.\<close>

fun waitable :: "kobj \<Rightarrow> bool" where
  "waitable (KThread _) = False"
| "waitable (KDevice _) = False"
| "waitable (KTimer _) = False"
| "waitable _ = True"

definition wait_target :: "kobj \<Rightarrow> (rt_uint8, kobj) table \<Rightarrow> bool" where
  "wait_target k L \<longleftrightarrow> waitable k \<and> k \<in> set (L (class_of k))"

text \<open>A linked timer is activated and on the list of its kind; a thread's timer is linked only
  while the thread is suspended.\<close>

definition timers_inv :: "tid set \<Rightarrow> kstate \<Rightarrow> bool" where
  "timers_inv X s \<longleftrightarrow> table_wf (k_tmlists s) \<and>
     (\<forall>h. \<forall>t \<in> set (k_tmlists s h). tflag s t AND RT_TIMER_FLAG_ACTIVATED \<noteq> 0 \<and>
        (tflag s t AND RT_TIMER_FLAG_SOFT_TIMER \<noteq> 0 \<longleftrightarrow> h = SoftTimers)) \<and>
     (\<forall>h t. ThreadTimer t \<in> set (k_tmlists s h) \<longrightarrow> h = HardTimers \<and>
        tm_func (k_timers s (ThreadTimer t)) = TF_thread_timeout t \<and>
        (t \<notin> X \<longrightarrow> tstat s t = RT_THREAD_SUSPEND))"

text \<open>
  An object that is not in the container is on no list and has no waiting threads; a thread
  that is not closed has its timer in the container.
\<close>

definition reg_inv :: "tid set \<Rightarrow> kstate \<Rightarrow> bool" where
  "reg_inv X s \<longleftrightarrow>
     (\<forall>c. \<forall>k \<in> set (k_olists s c). c = class_of k) \<and>
     (\<forall>t. \<not> listed (KThread t) s \<longrightarrow> unlinked t (k_tlists s) \<and>
        (t \<notin> X \<longrightarrow> tstat s t = RT_THREAD_INIT \<or> tstat s t = RT_THREAD_CLOSE)) \<and>
     (\<forall>t. \<not> listed (KTimer t) s \<longrightarrow> unlinked t (k_tmlists s)) \<and>
     (\<forall>k. \<not> wait_target k (k_olists s) \<longrightarrow>
        k_tlists s (Susp k) = [] \<and> k_tlists s (SuspSender k) = []) \<and>
     (\<forall>t. t \<notin> X \<longrightarrow> listed (KThread t) s \<longrightarrow> tstat s t \<noteq> RT_THREAD_CLOSE \<longrightarrow>
        listed (KTimer (ThreadTimer t)) s)"

definition kinv :: "tid set \<Rightarrow> kstate \<Rightarrow> bool" where
  "kinv X s \<longleftrightarrow> sched_inv X s \<and> timers_inv X s \<and> objs_wf s \<and> reg_inv X s"

abbreviation kernel_wf :: "kstate \<Rightarrow> bool" where
  "kernel_wf \<equiv> kinv {}"

lemma kinvI:
  "sched_inv X s \<Longrightarrow> timers_inv X s \<Longrightarrow> objs_wf s \<Longrightarrow> reg_inv X s \<Longrightarrow> kinv X s"
  by (simp add: kinv_def)

lemma kinvD:
  assumes "kinv X s"
  shows "sched_inv X s" "timers_inv X s" "objs_wf s" "reg_inv X s"
  using assms by (simp_all add: kinv_def)

lemma timers_invD:
  assumes "timers_inv X s"
  shows "table_wf (k_tmlists s)"
    and "u \<in> set (k_tmlists s h) \<Longrightarrow> tflag s u AND RT_TIMER_FLAG_ACTIVATED \<noteq> 0"
    and "u \<in> set (k_tmlists s h) \<Longrightarrow> tflag s u AND RT_TIMER_FLAG_SOFT_TIMER \<noteq> 0 \<longleftrightarrow> h = SoftTimers"
    and "ThreadTimer t \<in> set (k_tmlists s h) \<Longrightarrow> h = HardTimers"
    and "ThreadTimer t \<in> set (k_tmlists s h) \<Longrightarrow>
      tm_func (k_timers s (ThreadTimer t)) = TF_thread_timeout t"
    and "ThreadTimer t \<in> set (k_tmlists s h) \<Longrightarrow> t \<notin> X \<Longrightarrow> tstat s t = RT_THREAD_SUSPEND"
  using assms unfolding timers_inv_def by blast+

lemma reg_invD:
  assumes "reg_inv X s"
  shows "k \<in> set (k_olists s c) \<Longrightarrow> c = class_of k"
    and "\<not> listed (KThread t) s \<Longrightarrow> unlinked t (k_tlists s)"
    and "\<not> listed (KThread t) s \<Longrightarrow> t \<notin> X \<Longrightarrow> tstat s t = RT_THREAD_INIT \<or> tstat s t = RT_THREAD_CLOSE"
    and "\<not> listed (KTimer u) s \<Longrightarrow> unlinked u (k_tmlists s)"
    and "\<not> wait_target k (k_olists s) \<Longrightarrow> k_tlists s (Susp k) = []"
    and "\<not> wait_target k (k_olists s) \<Longrightarrow> k_tlists s (SuspSender k) = []"
    and "t \<notin> X \<Longrightarrow> listed (KThread t) s \<Longrightarrow> tstat s t \<noteq> RT_THREAD_CLOSE \<Longrightarrow>
      listed (KTimer (ThreadTimer t)) s"
  using assms unfolding reg_inv_def by blast+

lemma unlisted_unlinked: "reg_inv X s \<Longrightarrow> \<not> listed k s \<Longrightarrow> unlinked k (k_olists s)"
  using reg_invD(1) by (fastforce simp: unlinked_def)

lemma kinv_mono: "kinv X s \<Longrightarrow> X \<subseteq> Y \<Longrightarrow> kinv Y s"
  unfolding kinv_def timers_inv_def reg_inv_def by (blast intro: sched_inv_mono)

text \<open>The fields the invariant reads.\<close>

lemma kinv_cong:
  assumes "k_threads s' = k_threads s" "k_timers s' = k_timers s" "k_objs s' = k_objs s"
    "k_olists s' = k_olists s" "k_tlists s' = k_tlists s" "k_tmlists s' = k_tmlists s"
    "k_ready_group s' = k_ready_group s" "k_current s' = k_current s"
  shows "kinv X s' = kinv X s"
  using assms sched_inv_cong [of s' s X] objs_wf_cong [of s' s]
  by (simp add: kinv_def timers_inv_def reg_inv_def)

lemma kinv_fields [simp]:
  "kinv X (s\<lparr>k_sems := a\<rparr>) = kinv X s" "kinv X (s\<lparr>k_mutexes := b\<rparr>) = kinv X s"
  "kinv X (s\<lparr>k_events := c\<rparr>) = kinv X s" "kinv X (s\<lparr>k_mailboxes := d\<rparr>) = kinv X s"
  "kinv X (s\<lparr>k_mqs := e\<rparr>) = kinv X s" "kinv X (s\<lparr>k_pools := f\<rparr>) = kinv X s"
  "kinv X (s\<lparr>k_links := g\<rparr>) = kinv X s" "kinv X (s\<lparr>k_mem := h\<rparr>) = kinv X s"
  "kinv X (s\<lparr>k_lock_nest := i\<rparr>) = kinv X s" "kinv X (s\<lparr>k_irq_nest := j\<rparr>) = kinv X s"
  "kinv X (s\<lparr>k_tick := l\<rparr>) = kinv X s" "kinv X (s\<lparr>k_random_nr := m\<rparr>) = kinv X s"
  "kinv X (s\<lparr>k_freed := n\<rparr>) = kinv X s"
  by (rule kinv_cong; simp)+

section \<open>Threads\<close>

text \<open>Writing thread fields the kernel invariant does not mention.\<close>

lemma kinv_upd_frame:
  assumes "kinv X s" "\<And>th. stat_of (f th) = stat_of th"
    "\<And>th. th_current_priority (f th) = th_current_priority th"
    "\<And>th. th_init_priority (f th) = th_init_priority th"
    "\<And>th. th_number_mask (f th) = th_number_mask th"
  shows "kinv X (upd_thread t f s)"
proof (rule kinvI)
  show "sched_inv X (upd_thread t f s)"
    by (rule sched_inv_upd_frame [OF kinvD(1) [OF assms(1)] assms(2-)])
  have st: "tstat (upd_thread t f s) u = tstat s u" for u by (simp add: assms(2))
  show "timers_inv X (upd_thread t f s)"
    using kinvD(2) [OF assms(1)] unfolding timers_inv_def st by simp
  show "reg_inv X (upd_thread t f s)"
    using kinvD(4) [OF assms(1)] unfolding reg_inv_def st by simp
  show "objs_wf (upd_thread t f s)"
    using kinvD(3) [OF assms(1)] by (simp add: objs_wf_def rt_object_get_type_def)
qed

lemma kinv_upd_error [simp]: "kinv X s \<Longrightarrow> kinv X (upd_thread t (\<lambda>th. th\<lparr>th_error := e\<rparr>) s)"
  by (rule kinv_upd_frame) simp_all

text \<open>The state of an unlinked thread.\<close>

lemma kinv_upd_stat:
  assumes inv: "kinv X s" and un: "unlinked t (k_tlists s)" and pr: "prio_ok (f (thread s t))"
    and st: "stat_of (f (thread s t)) \<noteq> RT_THREAD_READY"
      "stat_of (f (thread s t)) = RT_THREAD_RUNNING \<Longrightarrow> k_current s = Some t"
    and tm: "stat_of (f (thread s t)) = RT_THREAD_SUSPEND \<or> unlinked (ThreadTimer t) (k_tmlists s)"
    and reg: "stat_of (f (thread s t)) \<in> {RT_THREAD_INIT, RT_THREAD_CLOSE} \<or> listed (KThread t) s"
      "stat_of (f (thread s t)) = RT_THREAD_CLOSE \<or> listed (KTimer (ThreadTimer t)) s"
  shows "kinv (X - {t}) (upd_thread t f s)"
proof (rule kinvI)
  show "sched_inv (X - {t}) (upd_thread t f s)"
    by (rule sched_inv_upd_unlinked [where f = f, OF kinvD(1) [OF inv] un pr st])
  show "timers_inv (X - {t}) (upd_thread t f s)"
    using kinvD(2) [OF inv] tm unfolding timers_inv_def by (auto simp: unlinked_def)
  show "reg_inv (X - {t}) (upd_thread t f s)"
    using kinvD(4) [OF inv] reg unfolding reg_inv_def by auto
  show "objs_wf (upd_thread t f s)"
    using kinvD(3) [OF inv] by (simp add: objs_wf_def rt_object_get_type_def)
qed

lemma removeAll_Nil_table: "L h = [] \<Longrightarrow> tbl_remove t L h = []"
  by simp

text \<open>Unlinking a thread, from the ready table or from a wait list.\<close>

lemma kinv_remove_thread [kernel_inv]:
  assumes inv: "kinv X s" and r: "rt_schedule_remove_thread t s = Some s'"
  shows "kinv (insert t X) s'" "unlinked t (k_tlists s')"
proof -
  note D = kinvD [OF inv]
  have s': "k_tlists s' = tbl_remove t (k_tlists s)" "k_threads s' = k_threads s"
    "k_timers s' = k_timers s" "k_tmlists s' = k_tmlists s" "k_objs s' = k_objs s"
    "k_olists s' = k_olists s"
    using r by (auto simp: rt_schedule_remove_thread_def Let_def)
  show "unlinked t (k_tlists s')" by (simp add: s')
  show "kinv (insert t X) s'"
  proof (rule kinvI)
    show "sched_inv (insert t X) s'" by (rule remove_thread_inv [OF D(1) r])
    show "timers_inv (insert t X) s'" using D(2) by (auto simp: timers_inv_def s')
    show "objs_wf s'" using D(3) objs_wf_cong [of s' s] by (simp add: s')
    show "reg_inv (insert t X) s'"
      using D(4) unfolding reg_inv_def s' by (auto simp: unlinked_tbl_remove_iff)
  qed
qed

lemma kinv_unlink_waiting:
  assumes inv: "kinv X s" and st: "tstat s t \<noteq> RT_THREAD_READY"
  shows "kinv X (s\<lparr>k_tlists := tbl_remove t (k_tlists s)\<rparr>)"
proof (rule kinvI)
  note D = kinvD [OF inv] and S = sched_invD [OF kinvD(1) [OF inv]]
  let ?s = "s\<lparr>k_tlists := tbl_remove t (k_tlists s)\<rparr>"
  have ready: "tbl_remove t (k_tlists s) (Ready p) = k_tlists s (Ready p)" for p
    by (simp, rule removeAll_notin) (use S(4) [of t p] st in auto)
  have "sched_inv X ?s"
  proof (rule sched_invI)
    show "k_tlists ?s (Ready p) = []" if "32 \<le> p" for p using S(2) [OF that] by simp
    show "bit (k_ready_group ?s) p \<longleftrightarrow> k_tlists ?s (Ready p) \<noteq> []" if "p < 32" for p
      using S(3) [OF that] ready by simp
    show "u \<in> set (k_tlists ?s (Ready (tprio ?s u)))" if "u \<notin> X" "tstat ?s u = RT_THREAD_READY" for u
      using S(9) [of u] that ready by simp
    show "tstat ?s u = RT_THREAD_READY \<and> tprio ?s u = p" if "u \<in> set (k_tlists ?s (Ready p))" for u p
      using S(4) [of u p] that by simp
    show "k_current ?s = Some u" if "u \<notin> X" "tstat ?s u = RT_THREAD_RUNNING" for u
      using that S(10) [of u] by simp
    show "tstat ?s u \<noteq> RT_THREAD_READY" if "u \<notin> X" "k_current ?s = Some u" for u
      using that S(11) [of u] by simp
    show "tstat ?s u = RT_THREAD_SUSPEND" if "u \<in> set (k_tlists ?s (Susp k))" for u k
      using that S(5) [of u k] by simp
    show "tstat ?s u = RT_THREAD_SUSPEND" if "u \<in> set (k_tlists ?s (SuspSender k))" for u k
      using that S(6) [of u k] by simp
    show "tstat ?s u = RT_THREAD_SUSPEND" if "u \<in> set (k_tlists ?s (Outer w))" for u w
      using that S(12) [of u w] by simp
  qed (simp_all add: S(1,7,8))
  then show "sched_inv X ?s" .
  show "timers_inv X ?s" using D(2) by (simp add: timers_inv_def)
  show "objs_wf ?s" using D(3) objs_wf_cong [of ?s s] by simp
  show "reg_inv X ?s" using D(4) unfolding reg_inv_def by (auto simp: unlinked_tbl_remove_iff)
qed

lemma kinv_insert_thread [kernel_inv]:
  assumes inv: "kinv X s" and un: "unlinked t (k_tlists s)"
    and st: "tstat s t \<in> {RT_THREAD_READY, RT_THREAD_SUSPEND, RT_THREAD_RUNNING}"
    and tm: "unlinked (ThreadTimer t) (k_tmlists s)"
    and reg: "listed (KThread t) s" "listed (KTimer (ThreadTimer t)) s"
    and r: "rt_schedule_insert_thread t s = Some s'"
  shows "kinv (X - {t}) s'"
proof -
  note D = kinvD [OF inv]
  have fr: "sched_frame s s'" using r by (rule sched_frame_insert)
  have others: "tstat s' u = tstat s u" if "u \<noteq> t" for u
    using r that by (auto simp: rt_schedule_insert_thread_def Let_def split: if_splits)
  have lists: "k_tlists s' h = k_tlists s h" if "\<forall>p. h \<noteq> Ready p" for h
    using r that by (auto simp: rt_schedule_insert_thread_def Let_def split: if_splits)
  have un': "unlinked u (k_tlists s) \<Longrightarrow> u \<noteq> t \<Longrightarrow> unlinked u (k_tlists s')" for u
    using r by (auto simp: rt_schedule_insert_thread_def Let_def split: if_splits)
  show ?thesis
  proof (rule kinvI)
    show "sched_inv (X - {t}) s'" by (rule insert_thread_inv [OF D(1) un st r])
    show "timers_inv (X - {t}) s'"
      unfolding timers_inv_def sched_frame_fields [OF fr]
      using timers_invD [OF D(2)] tm others by (metis unlinked_def Diff_iff empty_iff insert_iff)
    show "objs_wf s'" using D(3) sched_frame_objs_wf [OF fr] by simp
    show "reg_inv (X - {t}) s'"
      unfolding reg_inv_def sched_frame_fields [OF fr]
    proof (intro conjI allI impI ballI)
      fix u assume u: "\<not> listed (KThread u) s"
      then have "u \<noteq> t" using reg by auto
      then show "unlinked u (k_tlists s')" using un' reg_invD(2) [OF D(4) u] by simp
      assume "u \<notin> X - {t}"
      then show "tstat s' u = RT_THREAD_INIT \<or> tstat s' u = RT_THREAD_CLOSE"
        using reg_invD(3) [OF D(4) u] others \<open>u \<noteq> t\<close> by simp
    next
      fix u assume "u \<notin> X - {t}" "listed (KThread u) s" "tstat s' u \<noteq> RT_THREAD_CLOSE"
      then show "listed (KTimer (ThreadTimer u)) s"
        using reg(2) reg_invD(7) [OF D(4), of u] others by (cases "u = t") auto
    qed (use reg_invD [OF D(4)] lists in simp_all)
  qed
qed

text \<open>A suspended, unlinked thread goes on a wait list: one of a registered object, or one outside
  the kernel objects.\<close>

definition wait_head :: "thead \<Rightarrow> kobj \<Rightarrow> bool" where
  "wait_head h k \<longleftrightarrow> h = Susp k \<or> h = SuspSender k \<or> (\<exists>w. h = Outer w)"

abbreviation head_target :: "thead \<Rightarrow> kobj \<Rightarrow> kstate \<Rightarrow> bool" where
  "head_target h k s \<equiv> (\<exists>w. h = Outer w) \<or> wait_target k (k_olists s)"

lemma kinv_link_waiting:
  assumes inv: "kinv X s" and un: "unlinked t (k_tlists s)" and st: "tstat s t = RT_THREAD_SUSPEND"
    and h: "wait_head h k" and reg: "head_target h k s" "listed (KThread t) s"
    and L: "table_wf L'" "\<And>j. j \<noteq> h \<Longrightarrow> L' j = k_tlists s j" "set (L' h) = insert t (set (k_tlists s h))"
  shows "kinv X (s\<lparr>k_tlists := L'\<rparr>)"
proof (rule kinvI)
  note D = kinvD [OF inv] and S = sched_invD [OF kinvD(1) [OF inv]] and R = reg_invD [OF kinvD(4) [OF inv]]
  let ?s = "s\<lparr>k_tlists := L'\<rparr>"
  have ready: "L' (Ready p) = k_tlists s (Ready p)" "L' Defunct = k_tlists s Defunct" for p
    using L(2) h by (auto simp: wait_head_def)
  have members: "u \<in> set (L' j) \<Longrightarrow> u \<in> set (k_tlists s j) \<or> u = t \<and> j = h" for u j
    using L(2) [of j] L(3) by (cases "j = h") auto
  show "sched_inv X ?s"
  proof (rule sched_invI)
    show "tstat ?s u = RT_THREAD_SUSPEND" if "u \<in> set (k_tlists ?s (Susp j))" for u j
      using members [of u "Susp j"] that S(5) [of u j] st by auto
    show "tstat ?s u = RT_THREAD_SUSPEND" if "u \<in> set (k_tlists ?s (SuspSender j))" for u j
      using members [of u "SuspSender j"] that S(6) [of u j] st by auto
    show "tstat ?s u = RT_THREAD_SUSPEND" if "u \<in> set (k_tlists ?s (Outer w))" for u w
      using members [of u "Outer w"] that S(12) [of u w] st by auto
    show "tstat ?s u = RT_THREAD_READY \<and> tprio ?s u = p" if "u \<in> set (k_tlists ?s (Ready p))" for u p
      using that S(4) [of u p] by (simp add: ready)
    show "u \<in> set (k_tlists ?s (Ready (tprio ?s u)))" if "u \<notin> X" "tstat ?s u = RT_THREAD_READY" for u
      using that S(9) [of u] by (simp add: ready)
    show "k_current ?s = Some u" if "u \<notin> X" "tstat ?s u = RT_THREAD_RUNNING" for u
      using that S(10) [of u] by simp
    show "tstat ?s u \<noteq> RT_THREAD_READY" if "u \<notin> X" "k_current ?s = Some u" for u
      using that S(11) [of u] by simp
  qed (simp_all add: ready L(1) S(2,3,7,8))
  show "timers_inv X ?s" using D(2) by (simp add: timers_inv_def)
  show "objs_wf ?s" using D(3) objs_wf_cong [of ?s s] by simp
  show "reg_inv X ?s" unfolding reg_inv_def
  proof (intro conjI allI impI ballI)
    fix u assume u: "\<not> listed (KThread u) ?s"
    then show "unlinked u (k_tlists ?s)"
      using R(2) [of u] members reg(2) by (fastforce simp: unlinked_def)
    assume "u \<notin> X"
    then show "tstat ?s u = RT_THREAD_INIT \<or> tstat ?s u = RT_THREAD_CLOSE" using R(3) [of u] u by simp
  next
    fix j assume j: "\<not> wait_target j (k_olists ?s)"
    then have "h \<noteq> Susp j" "h \<noteq> SuspSender j" using reg h by (auto simp: wait_head_def)
    then show "k_tlists ?s (Susp j) = []" "k_tlists ?s (SuspSender j) = []"
      using R(5,6) [of j] j L(2) by auto
  qed (use R in auto)
qed

section \<open>The scheduler\<close>

text \<open>\<^verbatim>\<open>rt_schedule\<close> only exchanges READY and RUNNING.\<close>

definition runnable :: "rt_uint8 \<Rightarrow> bool" where
  "runnable v \<longleftrightarrow> v = RT_THREAD_READY \<or> v = RT_THREAD_RUNNING"

definition sched_step :: "kstate \<Rightarrow> kstate \<Rightarrow> bool" where
  "sched_step s s' \<longleftrightarrow> sched_frame s s' \<and>
     (\<forall>h. (\<forall>p. h \<noteq> Ready p) \<longrightarrow> k_tlists s' h = k_tlists s h) \<and>
     (\<forall>t. tstat s' t = tstat s t \<or> runnable (tstat s' t) \<and> runnable (tstat s t)) \<and>
     (\<forall>t. \<not> runnable (tstat s t) \<longrightarrow> unlinked t (k_tlists s) \<longrightarrow> unlinked t (k_tlists s'))"

lemma sched_step_refl [simp]: "sched_step s s"
  by (simp add: sched_step_def)

lemma tbl_remove_ready:
  "table_wf L \<Longrightarrow> t \<in> set (L (Ready p)) \<Longrightarrow> \<forall>q. h \<noteq> Ready q \<Longrightarrow> tbl_remove t L h = L h"
  by (metis removeAll_notin table_wf_at_most_one tbl_apply(3))

lemma schedule_switch_step:
  assumes inv: "sched_wf s" and "t \<noteq> c" and t: "t \<in> set (k_tlists s (Ready p))"
    and need: "need \<Longrightarrow> tstat s c = RT_THREAD_RUNNING"
    and r: "schedule_switch c t p need s = Some s'"
  shows "sched_step s s'"
proof -
  let ?s1 = "s\<lparr>k_current_priority := of_nat p, k_current := Some t\<rparr>"
  obtain s2 s3 where s2: "(if need then rt_schedule_insert_thread c ?s1 else Some ?s1) = Some s2"
    and s3: "rt_schedule_remove_thread t s2 = Some s3"
    and s': "s' = upd_thread t (with_stat RT_THREAD_RUNNING) s3"
    using r unfolding schedule_switch_def Let_def by (fastforce simp: bind_Some_iff)
  have L2: "k_tlists s2 = (if need then tbl_append (Ready (tprio s c)) c (k_tlists s) else k_tlists s)"
    "k_threads s2 = (k_threads s)(c := (if need then with_stat RT_THREAD_READY (thread s c) else thread s c))"
    using s2 assms(2) by (auto simp: rt_schedule_insert_thread_def Let_def split: if_splits)
  have L3: "k_tlists s3 = tbl_remove t (k_tlists s2)" "k_threads s3 = k_threads s2"
    using s3 by (auto simp: rt_schedule_remove_thread_def Let_def)
  have wf: "table_wf (k_tlists s)" using sched_invD(1) [OF inv] .
  have "k_tlists s' h = k_tlists s h" if h: "\<forall>p. h \<noteq> Ready p" for h
    using tbl_remove_ready [OF wf t h] h by (simp add: s' L3 L2)
  moreover have "tstat s t = RT_THREAD_READY" using sched_invD(4) [OF inv t] by simp
  ultimately show ?thesis
    using sched_frame_switch [OF r] need assms(2)
    by (auto simp: sched_step_def s' L3 L2 runnable_def rt_flag_simps unlinked_tbl_remove_iff)
qed

lemma rt_schedule_step:
  assumes inv: "sched_wf s" and r: "rt_schedule s = Some s'"
  shows "sched_step s s'"
proof (cases "k_lock_nest s \<noteq> 0 \<or> k_ready_group s = 0")
  case True
  then show ?thesis using rt_schedule_idle r by simp
next
  case False
  then obtain c t p where c: "k_current s = Some c" and t: "get_highest_priority_thread s = Some (t, p)"
    using r by (auto elim: rt_schedule_getE)
  note H = get_highest_spec [OF inv t] and eq = rt_schedule_unfold [OF _ c t]
  have tc: "t \<noteq> c" using sched_invD(11) [OF inv _ c] H(6) by auto
  have fr: "sched_frame s s'" using r by (rule sched_frame_schedule)
  consider "keeps_cpu s c p"
    | "tstat s c = RT_THREAD_RUNNING" "schedule_switch c t p True (clear_yield c s) = Some s'"
    | "schedule_switch c t p False s = Some s'"
    using r eq False tc by (auto split: if_splits)
  then show ?thesis
  proof cases
    case 1
    then have run: "tstat s c = RT_THREAD_RUNNING" by (simp add: keeps_cpu_def)
    then have un: "unlinked c (k_tlists s)" by (rule unlinked_if_running [OF inv])
    obtain s1 where s1: "rt_schedule_remove_thread c s = Some s1"
      "s' = upd_thread c (with_stat RT_THREAD_RUNNING) s1"
      using r eq False 1 by (cases "rt_schedule_remove_thread c s") auto
    have "k_tlists s1 = k_tlists s" "k_threads s1 = k_threads s"
      using s1(1) un by (auto simp: rt_schedule_remove_thread_def Let_def tbl_remove_unlinked)
    then show ?thesis using fr run by (auto simp: sched_step_def s1(2) rt_flag_simps)
  next
    case 2
    have "sched_step (clear_yield c s) s'"
      by (rule schedule_switch_step [OF clear_yield_inv [OF inv] tc _ _ 2(2)]) (use H 2 in auto)
    then show ?thesis using fr by (auto simp: sched_step_def)
  next
    case 3
    then show ?thesis using schedule_switch_step [OF inv tc H(4) _ 3] by simp
  qed
qed

text \<open>Threads excepted from the invariant that the scheduler will not touch.\<close>

definition idle_set :: "tid set \<Rightarrow> kstate \<Rightarrow> bool" where
  "idle_set X s \<longleftrightarrow> (\<forall>t \<in> X. (tstat s t = RT_THREAD_INIT \<or> tstat s t = RT_THREAD_CLOSE) \<and>
     unlinked t (k_tlists s) \<and> unlinked (ThreadTimer t) (k_tmlists s))"

lemma idle_set_empty [simp]: "idle_set {} s"
  by (simp add: idle_set_def)

lemma idle_set_sched: "sched_inv X s \<Longrightarrow> idle_set X s \<Longrightarrow> sched_wf s"
proof -
  assume inv: "sched_inv X s" and "idle_set X s"
  then have "tstat s t \<noteq> RT_THREAD_READY \<and> tstat s t \<noteq> RT_THREAD_RUNNING" if "t \<in> X" for t
    using that by (auto simp: idle_set_def)
  then show "sched_wf s" using inv unfolding sched_inv_def by blast
qed

lemma kinv_sched_step:
  assumes inv: "kinv X s" and idl: "idle_set X s" and wf: "sched_wf s'" and st: "sched_step s s'"
  shows "kinv X s'" "idle_set X s'"
proof -
  have fr: "sched_frame s s'" using st by (simp add: sched_step_def)
  note D = kinvD [OF inv] and T = timers_invD [OF kinvD(2) [OF inv]] and R = reg_invD [OF kinvD(4) [OF inv]]
  have idle: "tstat s' t = tstat s t" if "\<not> runnable (tstat s t)" for t
    using st that by (auto simp: sched_step_def)
  have idleX: "\<not> runnable (tstat s t)" if "t \<in> X" for t
    using idl that by (auto simp: idle_set_def runnable_def)
  show "idle_set X s'"
    using idl idle idleX st by (simp add: idle_set_def sched_frame_fields [OF fr] sched_step_def)
  show "kinv X s'"
  proof (rule kinvI)
    show "sched_inv X s'" using wf by (rule sched_inv_mono) simp
    have "tstat s' t = RT_THREAD_SUSPEND" if "ThreadTimer t \<in> set (k_tmlists s h)" "t \<notin> X" for t h
      using T(6) [OF that] idle [of t] by (simp add: runnable_def)
    then show "timers_inv X s'"
      using T(1-5) unfolding timers_inv_def sched_frame_fields [OF fr] by auto
    show "objs_wf s'" using D(3) sched_frame_objs_wf [OF fr] by simp
    have dead: "\<not> runnable (tstat s t)" if "\<not> listed (KThread t) s" for t
      using R(3) [OF that] idleX by (cases "t \<in> X") (auto simp: runnable_def)
    then have "unlinked t (k_tlists s') \<and> tstat s' t = tstat s t" if "\<not> listed (KThread t) s" for t
      using R(2) [OF that] idle [of t] that st by (auto simp: sched_step_def)
    moreover have "k_tlists s' (Susp k) = k_tlists s (Susp k)"
      "k_tlists s' (SuspSender k) = k_tlists s (SuspSender k)" for k
      using st by (simp_all add: sched_step_def)
    moreover have "listed (KTimer (ThreadTimer t)) s"
      if "t \<notin> X" "listed (KThread t) s" "tstat s' t \<noteq> RT_THREAD_CLOSE" for t
      using R(7) [of t] that idle [of t] by (cases "runnable (tstat s t)") (auto simp: runnable_def)
    ultimately show "reg_inv X s'"
      using R(1,3,4,5,6) unfolding reg_inv_def sched_frame_fields [OF fr] by simp
  qed
qed

lemma kinv_schedule_idle:
  "kinv X s \<Longrightarrow> idle_set X s \<Longrightarrow> rt_schedule s = Some s' \<Longrightarrow> kinv X s' \<and> idle_set X s'"
  using kinv_sched_step rt_schedule_wf rt_schedule_step idle_set_sched kinvD(1) by metis

lemma kinv_schedule [kernel_inv]: "kinv {} s \<Longrightarrow> rt_schedule s = Some s' \<Longrightarrow> kinv {} s'"
  using kinv_schedule_idle [of "{}"] by simp

lemma kinv_enter_critical [kernel_inv, simp]: "kinv X (rt_enter_critical s) = kinv X s"
  by (simp add: rt_enter_critical_def)

lemma kinv_exit_critical_idle:
  assumes "kinv X s" "idle_set X s" "rt_exit_critical s = Some s'"
  shows "kinv X s' \<and> idle_set X s'"
proof -
  have "idle_set X (s\<lparr>k_lock_nest := n\<rparr>)" for n using assms(2) by (simp add: idle_set_def)
  then show ?thesis using assms
    by (auto simp: rt_exit_critical_def Let_def split: if_splits dest!: kinv_schedule_idle [rotated 2])
qed

lemma kinv_exit_critical [kernel_inv]: "kinv {} s \<Longrightarrow> rt_exit_critical s = Some s' \<Longrightarrow> kinv {} s'"
  using kinv_exit_critical_idle [of "{}"] by simp

section \<open>Timers\<close>

text \<open>Updates confined to the timer lists, the timers and the flags of timer objects.\<close>

definition timer_frame :: "kstate \<Rightarrow> kstate \<Rightarrow> bool" where
  "timer_frame s s' \<longleftrightarrow>
     s' = s\<lparr>k_timers := k_timers s', k_tmlists := k_tmlists s', k_objs := k_objs s',
            k_random_nr := k_random_nr s'\<rparr> \<and>
     (\<forall>k. k_objs s' k = (k_objs s k)\<lparr>o_flag := o_flag (k_objs s' k)\<rparr>) \<and>
     (\<forall>k. (\<forall>t. k \<noteq> KTimer t) \<longrightarrow> k_objs s' k = k_objs s k)"

lemma timer_frame_refl [simp]: "timer_frame s s"
  by (simp add: timer_frame_def)

lemma timer_frame_trans: "timer_frame s1 s2 \<Longrightarrow> timer_frame s2 s3 \<Longrightarrow> timer_frame s1 s3"
proof -
  assume 1: "timer_frame s1 s2" and 2: "timer_frame s2 s3"
  have "k_objs s3 k = (k_objs s1 k)\<lparr>o_flag := o_flag (k_objs s3 k)\<rparr>" for k
  proof -
    have "k_objs s3 k = (k_objs s2 k)\<lparr>o_flag := o_flag (k_objs s3 k)\<rparr>"
      and "k_objs s2 k = (k_objs s1 k)\<lparr>o_flag := o_flag (k_objs s2 k)\<rparr>"
      using 1 2 by (auto simp: timer_frame_def)
    then show ?thesis by (cases "k_objs s1 k"; cases "k_objs s2 k"; cases "k_objs s3 k") simp
  qed
  moreover have "s3 = s1\<lparr>k_timers := k_timers s3, k_tmlists := k_tmlists s3, k_objs := k_objs s3,
      k_random_nr := k_random_nr s3\<rparr>"
    using 1 2 unfolding timer_frame_def by (cases s1; cases s2; cases s3) simp
  moreover have "(\<forall>t. k \<noteq> KTimer t) \<longrightarrow> k_objs s3 k = k_objs s1 k" for k
    using 1 2 by (simp add: timer_frame_def)
  ultimately show ?thesis unfolding timer_frame_def by blast
qed

lemma timer_frame_fields [kernel_frame]:
  assumes "timer_frame s s'"
  shows "k_threads s' = k_threads s" "k_olists s' = k_olists s" "k_tlists s' = k_tlists s"
    "k_sems s' = k_sems s" "k_mutexes s' = k_mutexes s"
    "k_events s' = k_events s" "k_mailboxes s' = k_mailboxes s" "k_mqs s' = k_mqs s"
    "k_pools s' = k_pools s" "k_links s' = k_links s" "k_mem s' = k_mem s"
    "k_ready_group s' = k_ready_group s" "k_current s' = k_current s"
    "k_current_priority s' = k_current_priority s"
    "k_lock_nest s' = k_lock_nest s" "k_irq_nest s' = k_irq_nest s" "k_tick s' = k_tick s"
    "k_timer_thread s' = k_timer_thread s" "k_freed s' = k_freed s" "k_exit_addr s' = k_exit_addr s"
  using assms unfolding timer_frame_def by (cases s; cases s'; simp)+

lemma timer_frame_type [kernel_frame]:
  assumes "timer_frame s s'"
  shows "o_type (k_objs s' k) = o_type (k_objs s k)" "o_name (k_objs s' k) = o_name (k_objs s k)"
    "rt_object_get_type k s' = rt_object_get_type k s"
    "rt_object_is_systemobject k s' = rt_object_is_systemobject k s"
proof -
  have *: "k_objs s' k = (k_objs s k)\<lparr>o_flag := o_flag (k_objs s' k)\<rparr>"
    using assms by (simp add: timer_frame_def)
  show ty: "o_type (k_objs s' k) = o_type (k_objs s k)" "o_name (k_objs s' k) = o_name (k_objs s k)"
    by (subst *, simp)+
  show "rt_object_get_type k s' = rt_object_get_type k s"
    "rt_object_is_systemobject k s' = rt_object_is_systemobject k s"
    by (simp_all add: rt_object_get_type_def rt_object_is_systemobject_def ty)
qed

lemma kinv_timer_frame:
  assumes inv: "kinv X s" and fr: "timer_frame s s'" and tm: "timers_inv X s'"
    and reg: "\<And>t. \<not> listed (KTimer t) s \<Longrightarrow> unlinked t (k_tmlists s) \<Longrightarrow> unlinked t (k_tmlists s')"
  shows "kinv X s'"
proof (rule kinvI [OF _ tm])
  note D = kinvD [OF inv] and R = reg_invD [OF kinvD(4) [OF inv]]
  show "sched_inv X s'" using D(1) sched_inv_cong [of s' s X] by (simp add: timer_frame_fields [OF fr])
  show "objs_wf s'" using D(3) by (simp add: objs_wf_def timer_frame_fields [OF fr] timer_frame_type [OF fr])
  show "reg_inv X s'" using R reg unfolding reg_inv_def timer_frame_fields [OF fr] by auto
qed

lemma timer_frame_remove: "timer_frame s (timer_remove t s)"
  by (simp add: timer_frame_def timer_remove_def)

lemma timer_frame_flag: "timer_frame s (upd_tflag t f s)"
  by (simp add: timer_frame_def upd_obj_def)

lemma timer_frame_upd: "timer_frame s (upd_timer t f s)"
  by (simp add: timer_frame_def upd_timer_def)

lemma kinv_timer_remove [kernel_inv]: "kinv X s \<Longrightarrow> kinv X (timer_remove t s)"
proof -
  assume inv: "kinv X s"
  have "timers_inv X (timer_remove t s)"
    using timers_invD [OF kinvD(2) [OF inv]] unfolding timers_inv_def
    by (auto simp: timer_remove_def)
  then show ?thesis
    by (rule kinv_timer_frame [OF inv timer_frame_remove])
      (auto simp: timer_remove_def unlinked_tbl_remove_iff)
qed

lemma unlinked_timer_remove [simp]: "unlinked t (k_tmlists (timer_remove t s))"
  by (simp add: timer_remove_def)

text \<open>The flags of a timer on no list may change freely, and so may its fields.\<close>

lemma kinv_flag_unlinked:
  assumes inv: "kinv X s" and un: "unlinked t (k_tmlists s)"
  shows "kinv X (upd_tflag t f s)"
proof -
  have "timers_inv X (upd_tflag t f s)"
    using timers_invD [OF kinvD(2) [OF inv]] un unfolding timers_inv_def unlinked_def by auto
  then show ?thesis by (rule kinv_timer_frame [OF inv timer_frame_flag]) simp
qed

lemma kinv_upd_timer:
  assumes inv: "kinv X s" and f: "\<And>tm. tm_func (f tm) = tm_func tm"
  shows "kinv X (upd_timer t f s)"
proof -
  have "timers_inv X (upd_timer t f s)"
    using timers_invD [OF kinvD(2) [OF inv]] f unfolding timers_inv_def by auto
  then show ?thesis by (rule kinv_timer_frame [OF inv timer_frame_upd]) simp
qed

lemma kinv_upd_timer_unlinked:
  assumes inv: "kinv X s" and un: "unlinked t (k_tmlists s)"
  shows "kinv X (upd_timer t f s)"
proof -
  have "timers_inv X (upd_timer t f s)"
    using timers_invD [OF kinvD(2) [OF inv]] un unfolding timers_inv_def unlinked_def by auto
  then show ?thesis by (rule kinv_timer_frame [OF inv timer_frame_upd]) simp
qed

lemma rt_timer_stop_frame:
  "rt_timer_stop t s = Some (r, s') \<Longrightarrow> timer_frame s s'"
  by (auto simp: rt_timer_stop_def Let_def split: if_splits
      intro: timer_frame_trans [OF timer_frame_remove timer_frame_flag])

lemma kinv_timer_stop [kernel_inv]:
  assumes inv: "kinv X s" and r: "rt_timer_stop t s = Some (e, s')"
  shows "kinv X s'" "unlinked t (k_tmlists s')"
proof -
  have "kinv X s' \<and> unlinked t (k_tmlists s')"
  proof (cases "tflag s t AND RT_TIMER_FLAG_ACTIVATED = 0")
    case True
    then have "s' = s" using r by (simp add: rt_timer_stop_def)
    then show ?thesis using True inv timers_invD(2) [OF kinvD(2) [OF inv], of t] by (auto simp: unlinked_def)
  next
    case False
    then have s': "s' = upd_tflag t (\<lambda>f. f AND NOT RT_TIMER_FLAG_ACTIVATED) (timer_remove t s)"
      using r by (simp add: rt_timer_stop_def Let_def)
    show ?thesis unfolding s' by (auto intro!: kinv_flag_unlinked kinv_timer_remove inv)
  qed
  then show "kinv X s'" "unlinked t (k_tmlists s')" by auto
qed

section \<open>Objects\<close>

fun thread_of :: "kobj \<Rightarrow> tid set" where
  "thread_of (KThread t) = {t}"
| "thread_of _ = {}"

text \<open>An object enters the container; its flag is kept.\<close>

lemma kinv_push_object:
  assumes inv: "kinv X s" and un: "\<not> listed k s" and thr: "thread_of k \<subseteq> X"
    and objs: "k_objs s' = (k_objs s)(k := ob)" "o_type ob AND NOT 0x80 = class_of k" "o_flag ob = oflag s k"
    and rest: "k_olists s' = tbl_push (class_of k) k (k_olists s)" "k_threads s' = k_threads s"
      "k_timers s' = k_timers s" "k_tlists s' = k_tlists s" "k_tmlists s' = k_tmlists s"
      "k_ready_group s' = k_ready_group s" "k_current s' = k_current s"
  shows "kinv X s'"
proof (rule kinvI)
  note D = kinvD [OF inv] and R = reg_invD [OF kinvD(4) [OF inv]]
  have cls: "class_of k \<in> set object_container" by (cases k) (auto simp: object_container_def)
  show "sched_inv X s'" using D(1) sched_inv_cong [of s' s X] rest by simp
  have "oflag s' j = oflag s j" for j using objs by simp
  then show "timers_inv X s'" using D(2) by (simp add: timers_inv_def rest)
  show "objs_wf s'"
    by (rule objs_wf_push [OF D(3) unlisted_unlinked [OF D(4) un] cls objs(1,2) rest(1)])
  have "\<not> wait_target j (k_olists s)" if "\<not> wait_target j (tbl_push (class_of k) k (k_olists s))" for j
    using that by (auto simp: wait_target_def split: if_splits)
  moreover have "listed (KTimer (ThreadTimer t)) s"
    if "t \<notin> X" "KThread t \<in> set (tbl_push (class_of k) k (k_olists s) 1)" "tstat s t \<noteq> RT_THREAD_CLOSE" for t
    using R(7) [of t] that thr by (auto split: if_splits)
  ultimately show "reg_inv X s'" using R(1-6) un unfolding reg_inv_def rest by auto
qed

lemma kinv_object_init [kernel_inv]:
  assumes inv: "kinv X s" and idl: "idle_set X s" and r: "rt_object_init k (class_of k) name s = Some s'"
  shows "kinv (X \<union> thread_of k) s'" "idle_set X s'" "listed k s'" "\<not> listed k s" "rt_object_get_type k s' = class_of k"
    "rt_object_is_systemobject k s'" "oflag s' k = oflag s k" "k_timers s' = k_timers s"
    "k_tmlists s' = k_tmlists s" "j \<noteq> k \<Longrightarrow> k_objs s' j = k_objs s j"
proof -
  let ?f = "\<lambda>ob. ob\<lparr>o_type := class_of k OR RT_Object_Class_Static, o_name := rt_strncpy name 8\<rparr>"
  obtain s1 where cls: "class_of k \<in> set object_container" and un: "\<not> listed k s"
    and s1: "rt_exit_critical (rt_enter_critical s) = Some s1"
    and s': "s' = (upd_obj k ?f s1)\<lparr>k_olists := tbl_push (class_of k) k (k_olists s1)\<rparr>"
    using r by (auto simp: rt_object_init_def rt_object_get_information_def bind_Some_iff Let_def
        rt_enter_critical_def split: if_splits)
  note keep = sched_frame_lock_step [OF s1]
  have i1: "kinv X s1" "idle_set X s1"
    using kinv_exit_critical_idle [OF _ _ s1, of X] inv idl by (simp_all add: idle_set_def rt_enter_critical_def)
  have tms: "k_timers s1 = k_timers s \<and> k_tmlists s1 = k_tmlists s"
    using s1 by (auto simp: rt_exit_critical_def rt_enter_critical_def Let_def split: if_splits
      dest!: sched_frame_schedule dest: sched_frame_fields(1) sched_frame_fields(4))
  show "\<not> listed k s" by (rule un)
  show "idle_set X s'" using i1(2) by (simp add: s' idle_set_def)
  show "kinv (X \<union> thread_of k) s'"
    by (rule kinv_push_object [OF kinv_mono [OF i1(1)], of "X \<union> thread_of k" k _ "?f (k_objs s1 k)"])
      (use un keep cls in \<open>auto simp: s' rt_flag_simps\<close>)
  show "listed k s'" "rt_object_get_type k s' = class_of k" "rt_object_is_systemobject k s'"
    "oflag s' k = oflag s k" "k_timers s' = k_timers s" "k_tmlists s' = k_tmlists s"
    "j \<noteq> k \<Longrightarrow> k_objs s' j = k_objs s j"
    using cls keep tms by (auto simp: s' rt_object_get_type_def rt_object_is_systemobject_def rt_flag_simps)
qed

text \<open>An object that nothing refers to leaves the container.\<close>

definition quiescent :: "tid set \<Rightarrow> kobj \<Rightarrow> kstate \<Rightarrow> bool" where
  "quiescent X k s \<longleftrightarrow>
     (\<forall>t. k = KThread t \<longrightarrow> unlinked t (k_tlists s) \<and>
        (t \<notin> X \<longrightarrow> tstat s t = RT_THREAD_INIT \<or> tstat s t = RT_THREAD_CLOSE)) \<and>
     (\<forall>t. k = KTimer t \<longrightarrow> unlinked t (k_tmlists s)) \<and>
     (\<forall>t. k = KTimer (ThreadTimer t) \<longrightarrow> t \<in> X \<or> tstat s t = RT_THREAD_CLOSE) \<and>
     k_tlists s (Susp k) = [] \<and> k_tlists s (SuspSender k) = []"

lemma kinv_drop_object:
  assumes inv: "kinv X s" and q: "quiescent X k s"
    and objs: "k_objs s' = (k_objs s)(k := ob)" "o_flag ob = oflag s k" "o_type ob = 0"
    and rest: "k_olists s' = tbl_remove k (k_olists s)" "k_threads s' = k_threads s"
      "k_timers s' = k_timers s" "k_tlists s' = k_tlists s" "k_tmlists s' = k_tmlists s"
      "k_ready_group s' = k_ready_group s" "k_current s' = k_current s"
  shows "kinv X s'"
proof (rule kinvI)
  note D = kinvD [OF inv] and R = reg_invD [OF kinvD(4) [OF inv]]
  show "sched_inv X s'" using D(1) sched_inv_cong [of s' s X] rest by simp
  have "oflag s' j = oflag s j" for j using objs by simp
  then show "timers_inv X s'" using D(2) by (simp add: timers_inv_def rest)
  show "objs_wf s'" by (rule objs_wf_remove [OF D(3) objs(1,3) rest(1)])
  have "k_tlists s (Susp j) = [] \<and> k_tlists s (SuspSender j) = []"
    if "\<not> wait_target j (tbl_remove k (k_olists s))" for j
  proof (cases "j = k")
    case False
    then have "\<not> wait_target j (k_olists s)" using that by (auto simp: wait_target_def)
    then show ?thesis using R(5,6) by simp
  qed (use q in \<open>simp add: quiescent_def\<close>)
  then show "reg_inv X s'" using R(1-4,7) q
    unfolding reg_inv_def rest quiescent_def tbl_apply set_removeAll by blast
qed

lemma kinv_object_detach [kernel_inv]:
  "kinv X s \<Longrightarrow> quiescent X k s \<Longrightarrow> kinv X (rt_object_detach k s)"
  by (rule kinv_drop_object [of X s k _ "(k_objs s k)\<lparr>o_type := 0\<rparr>"])
    (auto simp: rt_object_detach_def Let_def)

lemma kinv_object_delete [kernel_inv]:
  "kinv X s \<Longrightarrow> quiescent X k s \<Longrightarrow> rt_object_delete k s = Some s' \<Longrightarrow> kinv X s'"
  by (rule kinv_drop_object [of X s k _ "(k_objs s k)\<lparr>o_type := 0\<rparr>"])
    (auto simp: rt_object_delete_def Let_def)

definition timer_owner_off :: "tid set \<Rightarrow> timer_id \<Rightarrow> kstate \<Rightarrow> bool" where
  "timer_owner_off X t s \<longleftrightarrow> (\<forall>u. t = ThreadTimer u \<longrightarrow> u \<in> X \<or> tstat s u = RT_THREAD_CLOSE)"

lemma quiescent_timer: "kinv X s \<Longrightarrow> unlinked t (k_tmlists s) \<Longrightarrow> timer_owner_off X t s \<Longrightarrow>
   quiescent X (KTimer t) s"
  using reg_invD(5,6) [OF kinvD(4), of X s "KTimer t"] by (simp add: quiescent_def wait_target_def timer_owner_off_def)

lemma quiescent_thread: "kinv X s \<Longrightarrow> unlinked t (k_tlists s) \<Longrightarrow>
   t \<in> X \<or> tstat s t = RT_THREAD_INIT \<or> tstat s t = RT_THREAD_CLOSE \<Longrightarrow> quiescent X (KThread t) s"
  using reg_invD(5,6) [OF kinvD(4), of X s "KThread t"] by (auto simp: quiescent_def wait_target_def)

section \<open>The timer operations\<close>

lemma kinv_timer_detach [kernel_inv]:
  assumes inv: "kinv X s" and off: "timer_owner_off X t s" and r: "rt_timer_detach t s = Some (e, s')"
  shows "kinv X s'" "unlinked t (k_tmlists s')" "k_tlists s' = k_tlists s" "k_threads s' = k_threads s"
    "k_current s' = k_current s" "\<And>k. (\<forall>u. k \<noteq> KTimer u) \<Longrightarrow> k_objs s' k = k_objs s k"
proof -
  have s': "s' = rt_object_detach (KTimer t) (timer_remove t s)"
    using r by (auto simp: rt_timer_detach_def Let_def)
  have i: "kinv X (timer_remove t s)" using inv by (rule kinv_timer_remove)
  show "kinv X s'" unfolding s'
    by (rule kinv_object_detach [OF i quiescent_timer [OF i]])
      (use off in \<open>simp_all add: timer_owner_off_def timer_remove_def\<close>)
  show "unlinked t (k_tmlists s')" "k_tlists s' = k_tlists s" "k_threads s' = k_threads s"
    "k_current s' = k_current s"
    by (simp_all add: s' rt_object_detach_def Let_def timer_remove_def)
  show "k_objs s' k = k_objs s k" if "\<forall>u. k \<noteq> KTimer u" for k
    using that by (simp add: s' rt_object_detach_def Let_def timer_remove_def)
qed

lemma kinv_timer_delete [kernel_inv]:
  assumes inv: "kinv X s" and off: "timer_owner_off X t s" and r: "rt_timer_delete t s = Some (e, s')"
  shows "kinv X s'" "unlinked t (k_tmlists s')"
proof -
  obtain "rt_object_delete (KTimer t) (timer_remove t s) = Some s'"
    using r by (auto simp: rt_timer_delete_def Let_def bind_Some_iff)
  note d = this
  have i: "kinv X (timer_remove t s)" using inv by (rule kinv_timer_remove)
  show "kinv X s'" by (rule kinv_object_delete [OF i quiescent_timer [OF i] d])
      (use off in \<open>simp_all add: timer_owner_off_def timer_remove_def\<close>)
  show "unlinked t (k_tmlists s')"
    using d by (auto simp: rt_object_delete_def Let_def timer_remove_def)
qed

lemma kinv_timer_init_fields:
  "kinv X s \<Longrightarrow> unlinked t (k_tmlists s) \<Longrightarrow> kinv X (timer_init_fields t func time flag s)"
  unfolding timer_init_fields_def by (intro kinv_upd_timer_unlinked kinv_flag_unlinked) simp_all

lemma kinv_timer_init [kernel_inv]:
  assumes inv: "kinv X s" and idl: "idle_set X s" and r: "rt_timer_init t name func time flag s = Some s'"
  shows "kinv X s'" "listed (KTimer t) s'" "idle_set X s'"
proof -
  obtain s1 where s1: "rt_object_init (KTimer t) (class_of (KTimer t)) name s = Some s1"
    "s' = timer_init_fields t func time flag s1"
    using r by (auto simp: rt_timer_init_def bind_Some_iff)
  note O = kinv_object_init [OF inv idl s1(1)]
  have "unlinked t (k_tmlists s1)" using reg_invD(4) [OF kinvD(4) [OF inv] O(4)] O(9) by simp
  then show "kinv X s'" unfolding s1(2) using kinv_timer_init_fields O(1) by simp
  show "listed (KTimer t) s'" using O(3) by (simp add: s1(2) timer_init_fields_def)
  show "idle_set X s'" using O(2) by (simp add: s1(2) timer_init_fields_def idle_set_def)
qed

lemma flag_mask_keeps [rt_flag_simps]:
  "((x :: rt_uint8) AND NOT 2) AND 1 = x AND 1" "((x :: rt_uint8) AND NOT 2) AND 4 = x AND 4"
  "((x :: rt_uint8) AND - 3) AND 1 = x AND 1" "((x :: rt_uint8) AND - 3) AND 4 = x AND 4"
  "((x :: rt_uint8) OR 2) AND 1 = x AND 1" "((x :: rt_uint8) OR 2) AND 4 = x AND 4"
  by (simp_all add: and.assoc bit.conj_disj_distrib2)

lemma kinv_timer_control [kernel_inv]:
  assumes inv: "kinv X s" and r: "rt_timer_control t cmd s = Some (e, a, s')"
  shows "kinv X s'" "k_tmlists s' = k_tmlists s" "timer_frame s s'"
proof -
  have flag: "kinv X (upd_tflag t f s)" if f: "\<And>x. f x AND 1 = x AND 1" "\<And>x. f x AND 4 = x AND 4" for f
  proof -
    have "timers_inv X (upd_tflag t f s)"
      using timers_invD [OF kinvD(2) [OF inv]] f unfolding timers_inv_def by auto
    then show ?thesis by (rule kinv_timer_frame [OF inv timer_frame_flag]) simp
  qed
  have per: "kinv X (upd_tflag t (\<lambda>f. f AND NOT RT_TIMER_FLAG_PERIODIC) s)"
    "kinv X (upd_tflag t (\<lambda>f. f OR RT_TIMER_FLAG_PERIODIC) s)"
    by (rule flag; simp add: rt_flag_simps)+
  show "kinv X s'"
    using r inv per kinv_upd_timer [OF inv, of "\<lambda>tm. tm\<lparr>tm_init_tick := v\<rparr>" t for v]
    by (auto simp: rt_timer_control_def split: timer_cmd.splits)
  show "k_tmlists s' = k_tmlists s" "timer_frame s s'"
    using r timer_frame_flag [of s t "\<lambda>f. f AND NOT 2"] timer_frame_flag [of s t "\<lambda>f. f OR 2"]
    by (auto simp: rt_timer_control_def timer_frame_upd split: timer_cmd.splits)
qed

section \<open>A thread in the middle of a move\<close>

lemma kinv_upd_stat_in:
  assumes inv: "kinv X s" and t: "t \<in> X" and un: "unlinked t (k_tlists s)" and pr: "prio_ok (f (thread s t))"
  shows "kinv X (upd_thread t f s)"
proof (rule kinvI)
  note D = kinvD [OF inv]
  show "sched_inv X (upd_thread t f s)"
    by (rule sched_inv_upd_thread [OF D(1)]) (use t un pr in \<open>auto simp: unlinked_def\<close>)
  show "timers_inv X (upd_thread t f s)" using D(2) t unfolding timers_inv_def by auto
  show "objs_wf (upd_thread t f s)" using D(3) by (simp add: objs_wf_def rt_object_get_type_def)
  show "reg_inv X (upd_thread t f s)" using D(4) t unfolding reg_inv_def by auto
qed

lemma kinv_settle:
  assumes "kinv X s" "unlinked t (k_tlists s)" "tstat s t \<noteq> RT_THREAD_READY" "tstat s t \<noteq> RT_THREAD_RUNNING"
    and "tstat s t = RT_THREAD_SUSPEND \<or> unlinked (ThreadTimer t) (k_tmlists s)"
    and "tstat s t \<in> {RT_THREAD_INIT, RT_THREAD_CLOSE} \<or> listed (KThread t) s"
    and "tstat s t = RT_THREAD_CLOSE \<or> listed (KTimer (ThreadTimer t)) s"
  shows "kinv (X - {t}) s"
proof -
  have "kinv (X - {t}) (upd_thread t (\<lambda>th. th) s)"
    by (rule kinv_upd_stat) (use assms sched_invD(8) [OF kinvD(1) [OF assms(1)]] in auto)
  then show ?thesis by (simp add: upd_thread_def)
qed

lemma kinv_push_defunct:
  assumes inv: "kinv X s" and un: "unlinked t (k_tlists s)" and st: "tstat s t = RT_THREAD_CLOSE"
    and reg: "listed (KThread t) s"
  shows "kinv X (s\<lparr>k_tlists := tbl_push Defunct t (k_tlists s)\<rparr>)"
proof (rule kinvI)
  note D = kinvD [OF inv] and S = sched_invD [OF kinvD(1) [OF inv]]
  let ?s = "s\<lparr>k_tlists := tbl_push Defunct t (k_tlists s)\<rparr>"
  show "sched_inv X ?s"
  proof (rule sched_invI)
    show "tstat ?s u = RT_THREAD_CLOSE" if "u \<in> set (k_tlists ?s Defunct)" for u
      using that S(7) [of u] st by auto
    show "tstat ?s u = RT_THREAD_READY \<and> tprio ?s u = p" if "u \<in> set (k_tlists ?s (Ready p))" for u p
      using that S(4) [of u p] by simp
    show "k_current ?s = Some u" if "u \<notin> X" "tstat ?s u = RT_THREAD_RUNNING" for u
      using that S(10) [of u] by simp
    show "tstat ?s u \<noteq> RT_THREAD_READY" if "u \<notin> X" "k_current ?s = Some u" for u
      using that S(11) [of u] by simp
  qed (simp_all add: S(2,3,5,6,8,9,12) table_wf_tbl_push [OF S(1) un])
  show "timers_inv X ?s" using D(2) by (simp add: timers_inv_def)
  show "objs_wf ?s" using D(3) objs_wf_cong [of ?s s] by simp
  show "reg_inv X ?s" using D(4) reg unfolding reg_inv_def by (auto simp: unlinked_def)
qed

lemma unlinked_if_idle:
  assumes inv: "sched_inv X s" and st: "tstat s t = RT_THREAD_INIT"
  shows "unlinked t (k_tlists s)"
proof -
  note D = sched_invD [OF inv]
  have "t \<notin> set (k_tlists s h)" for h
    using D(4) [of t] D(5) [of t] D(6) [of t] D(7) [of t] D(12) [of t] st by (cases h) auto
  then show ?thesis by (simp add: unlinked_def)
qed

text \<open>A thread that is not waiting has no timer running.\<close>

lemma timer_unlinked_if_awake:
  "kinv X s \<Longrightarrow> t \<notin> X \<Longrightarrow> tstat s t \<noteq> RT_THREAD_SUSPEND \<Longrightarrow> unlinked (ThreadTimer t) (k_tmlists s)"
  using timers_invD(6) [OF kinvD(2)] by (fastforce simp: unlinked_def)

lemma listed_if_live:
  "kinv X s \<Longrightarrow> t \<notin> X \<Longrightarrow> tstat s t \<in> {RT_THREAD_READY, RT_THREAD_SUSPEND, RT_THREAD_RUNNING} \<Longrightarrow>
    listed (KThread t) s"
  using reg_invD(3) [OF kinvD(4)] by fastforce

lemma timer_listed_if_live:
  "kinv X s \<Longrightarrow> t \<notin> X \<Longrightarrow> tstat s t \<in> {RT_THREAD_READY, RT_THREAD_SUSPEND, RT_THREAD_RUNNING} \<Longrightarrow>
    listed (KTimer (ThreadTimer t)) s"
  using reg_invD(7) [OF kinvD(4)] listed_if_live by fastforce

lemma listed_if_typed:
  assumes inv: "kinv X s" and ty: "rt_object_get_type k s = class_of k"
  shows "listed k s"
proof (rule ccontr)
  assume "\<not> listed k s"
  then have "unlinked k (k_olists s)" using unlisted_unlinked kinvD(4) [OF inv] by blast
  then have "o_type (k_objs s k) = 0" using kinvD(3) [OF inv] by (simp add: objs_wf_def)
  then have "class_of k = 0" using ty by (simp add: rt_object_get_type_def)
  then show False by (cases k) auto
qed

lemma type_if_listed: "kinv X s \<Longrightarrow> listed k s \<Longrightarrow> rt_object_get_type k s = class_of k"
  using kinvD(3) by (auto simp: objs_wf_def)

section \<open>Thread timers\<close>

text \<open>
  The timer embedded in a thread is a hard timer that calls \<^verbatim>\<open>rt_thread_timeout\<close> on that
  thread, from its initialisation on.
\<close>

definition ttimers_ok :: "kstate \<Rightarrow> bool" where
  "ttimers_ok s \<longleftrightarrow> (\<forall>t. listed (KTimer (ThreadTimer t)) s \<longrightarrow>
     tm_func (k_timers s (ThreadTimer t)) = TF_thread_timeout t \<and>
     tflag s (ThreadTimer t) AND RT_TIMER_FLAG_SOFT_TIMER = 0)"

definition kernel_ok :: "kstate \<Rightarrow> bool" where
  "kernel_ok s \<longleftrightarrow> kinv {} s \<and> ttimers_ok s"

text \<open>Updates that keep what kind of timer every timer is.\<close>

definition ttimer_same :: "kstate \<Rightarrow> kstate \<Rightarrow> bool" where
  "ttimer_same s s' \<longleftrightarrow> (\<forall>t. tm_func (k_timers s' t) = tm_func (k_timers s t) \<and>
     tflag s' t AND RT_TIMER_FLAG_SOFT_TIMER = tflag s t AND RT_TIMER_FLAG_SOFT_TIMER)"

lemma ttimer_same_trans: "ttimer_same s1 s2 \<Longrightarrow> ttimer_same s2 s3 \<Longrightarrow> ttimer_same s1 s3"
  by (simp add: ttimer_same_def)

lemma kernel_okD: "kernel_ok s \<Longrightarrow> kinv {} s" "kernel_ok s \<Longrightarrow> ttimers_ok s"
  by (simp_all add: kernel_ok_def)

lemma flag_activated_soft [rt_flag_simps]:
  "((x :: rt_uint8) AND NOT 1) AND 4 = x AND 4" "((x :: rt_uint8) AND - 2) AND 4 = x AND 4"
  "((x :: rt_uint8) OR 1) AND 4 = x AND 4"
  by (simp_all add: and.assoc bit.conj_disj_distrib2)

lemma ttimer_same_stop:
  "rt_timer_stop t s = Some (r, s') \<Longrightarrow> ttimer_same s s'"
  by (auto simp: rt_timer_stop_def Let_def ttimer_same_def timer_remove_def rt_flag_simps split: if_splits)

lemma ttimer_same_control:
  "rt_timer_control t cmd s = Some (e, a, s') \<Longrightarrow> ttimer_same s s'"
  by (auto simp: rt_timer_control_def ttimer_same_def rt_flag_simps split: timer_cmd.splits)

section \<open>What scheduling and timers leave alone\<close>

text \<open>
  The frame shared by all operations built from the scheduler and the timers: no object of
  the communication layer is written, and of a thread only its state and error code.
\<close>

definition core_frame :: "kstate \<Rightarrow> kstate \<Rightarrow> bool" where
  "core_frame s s' \<longleftrightarrow>
     s' = s\<lparr>k_threads := k_threads s', k_tlists := k_tlists s', k_ready_group := k_ready_group s',
            k_current := k_current s', k_current_priority := k_current_priority s',
            k_timers := k_timers s', k_tmlists := k_tmlists s', k_objs := k_objs s',
            k_random_nr := k_random_nr s'\<rparr> \<and>
     (\<forall>t. thread s' t = (thread s t)\<lparr>th_stat := th_stat (thread s' t), th_error := th_error (thread s' t)\<rparr>) \<and>
     (\<forall>k. k_objs s' k = (k_objs s k)\<lparr>o_flag := o_flag (k_objs s' k)\<rparr>) \<and>
     (\<forall>k. (\<forall>t. k \<noteq> KTimer t) \<longrightarrow> k_objs s' k = k_objs s k) \<and>
     ttimer_same s s'"

lemma core_frame_refl [simp]: "core_frame s s"
  by (simp add: core_frame_def ttimer_same_def)

lemma core_frame_trans: "core_frame s1 s2 \<Longrightarrow> core_frame s2 s3 \<Longrightarrow> core_frame s1 s3"
proof -
  assume 1: "core_frame s1 s2" and 2: "core_frame s2 s3"
  have "k_objs s3 k = (k_objs s1 k)\<lparr>o_flag := o_flag (k_objs s3 k)\<rparr>" for k
  proof -
    have "k_objs s3 k = (k_objs s2 k)\<lparr>o_flag := o_flag (k_objs s3 k)\<rparr>"
      and "k_objs s2 k = (k_objs s1 k)\<lparr>o_flag := o_flag (k_objs s2 k)\<rparr>"
      using 1 2 by (auto simp: core_frame_def)
    then show ?thesis by (cases "k_objs s1 k"; cases "k_objs s2 k"; cases "k_objs s3 k") simp
  qed
  moreover have "thread s3 t = (thread s1 t)\<lparr>th_stat := th_stat (thread s3 t), th_error := th_error (thread s3 t)\<rparr>" for t
  proof -
    have "thread s3 t = (thread s2 t)\<lparr>th_stat := th_stat (thread s3 t), th_error := th_error (thread s3 t)\<rparr>"
      and "thread s2 t = (thread s1 t)\<lparr>th_stat := th_stat (thread s2 t), th_error := th_error (thread s2 t)\<rparr>"
      using 1 2 by (auto simp: core_frame_def)
    then show ?thesis by (cases "thread s1 t"; cases "thread s2 t"; cases "thread s3 t") simp
  qed
  moreover have "s3 = s1\<lparr>k_threads := k_threads s3, k_tlists := k_tlists s3, k_ready_group := k_ready_group s3,
            k_current := k_current s3, k_current_priority := k_current_priority s3,
            k_timers := k_timers s3, k_tmlists := k_tmlists s3, k_objs := k_objs s3,
            k_random_nr := k_random_nr s3\<rparr>"
    using 1 2 unfolding core_frame_def by (cases s1; cases s2; cases s3) simp
  moreover have "(\<forall>t. k \<noteq> KTimer t) \<longrightarrow> k_objs s3 k = k_objs s1 k" for k
    using 1 2 by (simp add: core_frame_def)
  moreover have "ttimer_same s1 s3" using 1 2 ttimer_same_trans by (auto simp: core_frame_def)
  ultimately show ?thesis unfolding core_frame_def by blast
qed

lemma core_frame_fields [kernel_frame]:
  assumes "core_frame s s'"
  shows "k_sems s' = k_sems s" "k_mutexes s' = k_mutexes s"
    "k_events s' = k_events s" "k_mailboxes s' = k_mailboxes s" "k_mqs s' = k_mqs s"
    "k_pools s' = k_pools s" "k_links s' = k_links s" "k_mem s' = k_mem s"
    "k_lock_nest s' = k_lock_nest s" "k_irq_nest s' = k_irq_nest s" "k_tick s' = k_tick s"
    "k_olists s' = k_olists s" "k_timer_thread s' = k_timer_thread s" "k_freed s' = k_freed s"
    "k_exit_addr s' = k_exit_addr s"
  using assms unfolding core_frame_def by (cases s; cases s'; simp)+

lemma core_frame_thread [kernel_frame]:
  assumes "core_frame s s'"
  shows "th_current_priority (thread s' t) = th_current_priority (thread s t)"
    "th_init_priority (thread s' t) = th_init_priority (thread s t)"
    "th_number_mask (thread s' t) = th_number_mask (thread s t)"
    "th_event_set (thread s' t) = th_event_set (thread s t)"
    "th_event_info (thread s' t) = th_event_info (thread s t)"
    "th_sp (thread s' t) = th_sp (thread s t)"
    "th_stack_addr (thread s' t) = th_stack_addr (thread s t)"
    "th_stack_size (thread s' t) = th_stack_size (thread s t)"
    "th_init_tick (thread s' t) = th_init_tick (thread s t)"
    "th_remaining_tick (thread s' t) = th_remaining_tick (thread s t)"
    "th_cleanup (thread s' t) = th_cleanup (thread s t)"
proof -
  have *: "thread s' t = (thread s t)\<lparr>th_stat := th_stat (thread s' t), th_error := th_error (thread s' t)\<rparr>"
    using assms by (simp add: core_frame_def)
  show "th_current_priority (thread s' t) = th_current_priority (thread s t)"
    "th_init_priority (thread s' t) = th_init_priority (thread s t)"
    "th_number_mask (thread s' t) = th_number_mask (thread s t)"
    "th_event_set (thread s' t) = th_event_set (thread s t)"
    "th_event_info (thread s' t) = th_event_info (thread s t)"
    "th_sp (thread s' t) = th_sp (thread s t)"
    "th_stack_addr (thread s' t) = th_stack_addr (thread s t)"
    "th_stack_size (thread s' t) = th_stack_size (thread s t)"
    "th_init_tick (thread s' t) = th_init_tick (thread s t)"
    "th_remaining_tick (thread s' t) = th_remaining_tick (thread s t)"
    "th_cleanup (thread s' t) = th_cleanup (thread s t)"
    by (subst *, simp)+
qed

lemma core_frame_type [kernel_frame]:
  assumes "core_frame s s'"
  shows "o_type (k_objs s' k) = o_type (k_objs s k)" "o_name (k_objs s' k) = o_name (k_objs s k)"
    "rt_object_get_type k s' = rt_object_get_type k s"
    "rt_object_is_systemobject k s' = rt_object_is_systemobject k s"
    "(\<forall>t. k \<noteq> KTimer t) \<Longrightarrow> oflag s' k = oflag s k"
proof -
  have *: "k_objs s' k = (k_objs s k)\<lparr>o_flag := o_flag (k_objs s' k)\<rparr>"
    using assms by (simp add: core_frame_def)
  show ty: "o_type (k_objs s' k) = o_type (k_objs s k)" "o_name (k_objs s' k) = o_name (k_objs s k)"
    by (subst *, simp)+
  show "rt_object_get_type k s' = rt_object_get_type k s"
    "rt_object_is_systemobject k s' = rt_object_is_systemobject k s"
    by (simp_all add: rt_object_get_type_def rt_object_is_systemobject_def ty)
  show "(\<forall>t. k \<noteq> KTimer t) \<Longrightarrow> oflag s' k = oflag s k" using assms by (simp add: core_frame_def)
qed

lemma core_frame_sched: "sched_frame s s' \<Longrightarrow> core_frame s s'"
proof -
  assume f: "sched_frame s s'"
  have "thread s' t = (thread s t)\<lparr>th_stat := th_stat (thread s' t), th_error := th_error (thread s' t)\<rparr>" for t
  proof -
    have "thread s' t = (thread s t)\<lparr>th_stat := th_stat (thread s' t)\<rparr>" using f by (simp add: sched_frame_def)
    then show ?thesis by (cases "thread s t"; cases "thread s' t") simp
  qed
  moreover have "s' = s\<lparr>k_threads := k_threads s', k_tlists := k_tlists s', k_ready_group := k_ready_group s',
            k_current := k_current s', k_current_priority := k_current_priority s',
            k_timers := k_timers s', k_tmlists := k_tmlists s', k_objs := k_objs s',
            k_random_nr := k_random_nr s'\<rparr>"
    using f unfolding sched_frame_def by (cases s; cases s') simp
  moreover have "k_objs s' k = (k_objs s k)\<lparr>o_flag := o_flag (k_objs s' k)\<rparr>" "k_objs s' k = k_objs s k" for k
    by (simp_all add: sched_frame_fields [OF f])
  moreover have "ttimer_same s s'" by (simp add: ttimer_same_def sched_frame_fields [OF f])
  ultimately show ?thesis unfolding core_frame_def by blast
qed

lemma core_frame_timer: "timer_frame s s' \<Longrightarrow> ttimer_same s s' \<Longrightarrow> core_frame s s'"
proof -
  assume f: "timer_frame s s'" and "ttimer_same s s'"
  have "s' = s\<lparr>k_threads := k_threads s', k_tlists := k_tlists s', k_ready_group := k_ready_group s',
            k_current := k_current s', k_current_priority := k_current_priority s',
            k_timers := k_timers s', k_tmlists := k_tmlists s', k_objs := k_objs s',
            k_random_nr := k_random_nr s'\<rparr>"
    using f unfolding timer_frame_def by (cases s; cases s') simp
  moreover have "thread s' t = (thread s t)\<lparr>th_stat := th_stat (thread s' t), th_error := th_error (thread s' t)\<rparr>" for t
    by (simp add: timer_frame_fields [OF f])
  ultimately show ?thesis using f \<open>ttimer_same s s'\<close> unfolding core_frame_def timer_frame_def by blast
qed

lemma core_frame_tlists: "core_frame s (s\<lparr>k_tlists := L\<rparr>)"
  by (simp add: core_frame_def ttimer_same_def)

lemma core_frame_error: "core_frame s (upd_thread t (\<lambda>th. th\<lparr>th_error := e\<rparr>) s)"
  by (simp add: core_frame_def upd_thread_def ttimer_same_def)

lemma ttimers_ok_core: "core_frame s s' \<Longrightarrow> ttimers_ok s \<Longrightarrow> ttimers_ok s'"
  using core_frame_fields(12) [of s s'] by (simp add: ttimers_ok_def core_frame_def ttimer_same_def)

lemma core_frame_timer_stop: "rt_timer_stop t s = Some (r, s') \<Longrightarrow> core_frame s s'"
  by (intro core_frame_timer rt_timer_stop_frame ttimer_same_stop)

lemmas core_frame_steps =
  core_frame_sched [OF sched_frame_insert] core_frame_sched [OF sched_frame_remove]
  core_frame_sched [OF sched_frame_schedule] core_frame_sched [OF sched_frame_with_stat]
  core_frame_timer_stop core_frame_tlists core_frame_error

end
