(* ===== verification/KThread.thy ===== *)
theory KThread
  imports KernelInv
begin

text \<open>
  Thread management, \<^verbatim>\<open>src/thread.c\<close>, and the stack frame a new thread starts with,
  \<^verbatim>\<open>libcpu/arm/cortex-m3/cpuport.c\<close>.  (The sleeping operations need timers and are in a
  later theory.)

  The memory of the thread stacks is \<open>k_mem\<close>, byte by byte; words are stored in little-endian
  order.  An operation that calls \<^verbatim>\<open>rt_schedule\<close> as its last step returns in the state the
  scheduler leaves.
\<close>

section \<open>The initial stack\<close>

definition store32 :: "rt_uint32 \<Rightarrow> rt_uint32 \<Rightarrow> (rt_uint32 \<Rightarrow> rt_uint8) \<Rightarrow> (rt_uint32 \<Rightarrow> rt_uint8)" where
  "store32 a v m = m(a := ucast v, a + 1 := ucast (drop_bit 8 v), a + 2 := ucast (drop_bit 16 v),
     a + 3 := ucast (drop_bit 24 v))"

definition fill_bytes :: "rt_uint32 \<Rightarrow> rt_uint8 \<Rightarrow> rt_uint32 \<Rightarrow> (rt_uint32 \<Rightarrow> rt_uint8) \<Rightarrow> (rt_uint32 \<Rightarrow> rt_uint8)" where
  "fill_bytes a c n m = (\<lambda>x. if x - a < n then c else m x)"

text \<open>Sixteen words: eight callee-saved registers, then the exception frame.\<close>

definition stack_frame_fill ::
    "rt_uint32 \<Rightarrow> rt_uint32 \<Rightarrow> rt_uint32 \<Rightarrow> rt_uint32 \<Rightarrow> (rt_uint32 \<Rightarrow> rt_uint8) \<Rightarrow> (rt_uint32 \<Rightarrow> rt_uint8)" where
  "stack_frame_fill tentry parameter texit stk m =
     (let m = fold (\<lambda>i. store32 (stk + 4 * of_nat i) 0xdeadbeef) [0..<16] m;
          m = store32 (stk + 32) parameter m;
          m = fold (\<lambda>i. store32 (stk + 4 * of_nat i) 0) [9..<13] m;
          m = store32 (stk + 52) texit m;
          m = store32 (stk + 56) tentry m
      in store32 (stk + 60) 0x01000000 m)"

definition rt_hw_stack_init ::
    "rt_uint32 \<Rightarrow> rt_uint32 \<Rightarrow> rt_uint32 \<Rightarrow> rt_uint32 \<Rightarrow> (rt_uint32 \<Rightarrow> rt_uint8) \<Rightarrow>
       rt_uint32 \<times> (rt_uint32 \<Rightarrow> rt_uint8)" where
  "rt_hw_stack_init tentry parameter stack_addr texit m =
     (let stk = RT_ALIGN_DOWN (stack_addr + 4) 8 - 64
      in (stk, stack_frame_fill tentry parameter texit stk m))"

section \<open>Initialisation\<close>

definition thread_init_fields ::
    "tid \<Rightarrow> rt_uint32 \<Rightarrow> rt_uint32 \<Rightarrow> rt_uint32 \<Rightarrow> rt_uint32 \<Rightarrow> rt_uint8 \<Rightarrow> rt_uint32 \<Rightarrow> kstate \<Rightarrow>
       kstate option" where
  "thread_init_fields t entry parameter stack_start stack_size priority tick s = do {
     let m = fill_bytes stack_start 0x23 stack_size (k_mem s);
     let (sp, m) = rt_hw_stack_init entry parameter (stack_start + stack_size - 4) (k_exit_addr s) m;
     let s = s\<lparr>k_mem := m\<rparr>;
     rt_assert (unat priority < RT_THREAD_PRIORITY_MAX);
     let s = upd_thread t (\<lambda>th. th\<lparr>th_entry := entry, th_parameter := parameter,
        th_stack_addr := stack_start, th_stack_size := stack_size, th_sp := sp,
        th_init_priority := priority, th_current_priority := priority, th_number_mask := 0,
        th_init_tick := tick, th_remaining_tick := tick, th_error := RT_EOK,
        th_stat := RT_THREAD_INIT, th_cleanup := None, th_user_data := 0\<rparr>) s;
     rt_timer_init (ThreadTimer t) (o_name (k_objs s (KThread t))) (TF_thread_timeout t) 0 0 s
   }"

definition rt_thread_init ::
    "tid \<Rightarrow> rt_uint8 list \<Rightarrow> rt_uint32 \<Rightarrow> rt_uint32 \<Rightarrow> rt_uint32 \<Rightarrow> rt_uint32 \<Rightarrow> rt_uint8 \<Rightarrow>
       rt_uint32 \<Rightarrow> kstate \<Rightarrow> (rt_err \<times> kstate) option" where
  "rt_thread_init t name entry parameter stack_start stack_size priority tick s = do {
     rt_assert (stack_start \<noteq> 0);
     s \<leftarrow> rt_object_init (KThread t) RT_Object_Class_Thread name s;
     s \<leftarrow> thread_init_fields t entry parameter stack_start stack_size priority tick s;
     Some (RT_EOK, s)
   }"

definition rt_thread_self :: "kstate \<Rightarrow> tid option" where
  "rt_thread_self s = k_current s"

text \<open>\<open>alloc\<close> and \<open>stack\<close> are the results of the two allocations.\<close>

definition rt_thread_create ::
    "rt_uint8 list \<Rightarrow> rt_uint32 \<Rightarrow> rt_uint32 \<Rightarrow> rt_uint32 \<Rightarrow> rt_uint8 \<Rightarrow> rt_uint32 \<Rightarrow>
       tid option \<Rightarrow> rt_uint32 option \<Rightarrow> kstate \<Rightarrow> (tid option \<times> kstate) option" where
  "rt_thread_create name entry parameter stack_size priority tick alloc stack s = do {
     (r, s) \<leftarrow> rt_object_allocate RT_Object_Class_Thread name (map_option KThread alloc) s;
     (case alloc of
        None \<Rightarrow> Some (None, s)
      | Some t \<Rightarrow>
          (case stack of
             None \<Rightarrow> do { s \<leftarrow> rt_object_delete (KThread t) s; Some (None, s) }
           | Some stack_start \<Rightarrow> do {
               s \<leftarrow> thread_init_fields t entry parameter stack_start stack_size priority tick s;
               Some (Some t, s)
             }))
   }"

section \<open>Suspending and resuming\<close>

definition rt_thread_suspend :: "tid \<Rightarrow> kstate \<Rightarrow> (rt_err \<times> kstate) option" where
  "rt_thread_suspend t s = do {
     rt_assert (rt_object_get_type (KThread t) s = RT_Object_Class_Thread);
     if tstat s t \<noteq> RT_THREAD_READY \<and> tstat s t \<noteq> RT_THREAD_RUNNING then Some (- RT_ERROR, s)
     else do {
       rt_assert (tstat s t = RT_THREAD_RUNNING \<longrightarrow> rt_thread_self s = Some t);
       s \<leftarrow> rt_schedule_remove_thread t s;
       let s = upd_thread t (with_stat RT_THREAD_SUSPEND) s;
       (_, s) \<leftarrow> rt_timer_stop (ThreadTimer t) s;
       Some (RT_EOK, s)
     }
   }"

definition rt_thread_resume :: "tid \<Rightarrow> kstate \<Rightarrow> (rt_err \<times> kstate) option" where
  "rt_thread_resume t s = do {
     rt_assert (rt_object_get_type (KThread t) s = RT_Object_Class_Thread);
     if tstat s t \<noteq> RT_THREAD_SUSPEND then Some (- RT_ERROR, s)
     else do {
       let s = s\<lparr>k_tlists := tbl_remove t (k_tlists s)\<rparr>;
       (_, s) \<leftarrow> rt_timer_stop (ThreadTimer t) s;
       s \<leftarrow> rt_schedule_insert_thread t s;
       Some (RT_EOK, s)
     }
   }"

definition rt_thread_startup :: "tid \<Rightarrow> kstate \<Rightarrow> (rt_err \<times> kstate) option" where
  "rt_thread_startup t s = do {
     rt_assert (tstat s t = RT_THREAD_INIT);
     rt_assert (rt_object_get_type (KThread t) s = RT_Object_Class_Thread);
     let s = upd_thread t (\<lambda>th. th\<lparr>th_current_priority := th_init_priority th,
        th_number_mask := prio_mask (unat (th_init_priority th)), th_stat := RT_THREAD_SUSPEND\<rparr>) s;
     (_, s) \<leftarrow> rt_thread_resume t s;
     s \<leftarrow> (if rt_thread_self s \<noteq> None then rt_schedule s else Some s);
     Some (RT_EOK, s)
   }"

section \<open>Ending a thread\<close>

text \<open>What the ways of ending a thread share: leave the container, or wait for the idle thread.\<close>

definition close_or_defunct :: "tid \<Rightarrow> kstate \<Rightarrow> kstate" where
  "close_or_defunct t s =
     (if rt_object_is_systemobject (KThread t) s \<and> th_cleanup (thread s t) = None
      then rt_object_detach (KThread t) s
      else s\<lparr>k_tlists := tbl_push Defunct t (k_tlists s)\<rparr>)"

definition rt_thread_exit :: "kstate \<Rightarrow> kstate option" where
  "rt_thread_exit s = do {
     t \<leftarrow> rt_thread_self s;
     s \<leftarrow> rt_schedule_remove_thread t s;
     let s = upd_thread t (\<lambda>th. th\<lparr>th_stat := RT_THREAD_CLOSE\<rparr>) s;
     (_, s) \<leftarrow> rt_timer_detach (ThreadTimer t) s;
     let s = close_or_defunct t s;
     rt_schedule s
   }"

definition rt_thread_detach :: "tid \<Rightarrow> kstate \<Rightarrow> (rt_err \<times> kstate) option" where
  "rt_thread_detach t s = do {
     rt_assert (rt_object_get_type (KThread t) s = RT_Object_Class_Thread);
     rt_assert (rt_object_is_systemobject (KThread t) s);
     s \<leftarrow> (if tstat s t \<noteq> RT_THREAD_INIT then rt_schedule_remove_thread t s else Some s);
     (_, s) \<leftarrow> rt_timer_detach (ThreadTimer t) s;
     let s = upd_thread t (\<lambda>th. th\<lparr>th_stat := RT_THREAD_CLOSE\<rparr>) s;
     Some (RT_EOK, close_or_defunct t s)
   }"

definition rt_thread_delete :: "tid \<Rightarrow> kstate \<Rightarrow> (rt_err \<times> kstate) option" where
  "rt_thread_delete t s = do {
     rt_assert (rt_object_get_type (KThread t) s = RT_Object_Class_Thread);
     rt_assert (\<not> rt_object_is_systemobject (KThread t) s);
     s \<leftarrow> (if tstat s t \<noteq> RT_THREAD_INIT then rt_schedule_remove_thread t s else Some s);
     (_, s) \<leftarrow> rt_timer_detach (ThreadTimer t) s;
     let s = upd_thread t (\<lambda>th. th\<lparr>th_stat := RT_THREAD_CLOSE\<rparr>) s;
     Some (RT_EOK, s\<lparr>k_tlists := tbl_push Defunct t (k_tlists s)\<rparr>)
   }"

definition rt_thread_yield :: "kstate \<Rightarrow> (rt_err \<times> kstate) option" where
  "rt_thread_yield s = do { s \<leftarrow> rt_schedule s; Some (RT_EOK, s) }"

section \<open>Control, timeout and lookup\<close>

datatype thread_cmd = THREAD_STARTUP | THREAD_CLOSE | THREAD_CHANGE_PRIORITY rt_uint8 | THREAD_OTHER

definition set_priority :: "rt_uint8 \<Rightarrow> rt_thread \<Rightarrow> rt_thread" where
  "set_priority p th = th\<lparr>th_current_priority := p, th_number_mask := prio_mask (unat p)\<rparr>"

definition rt_thread_control :: "tid \<Rightarrow> thread_cmd \<Rightarrow> kstate \<Rightarrow> (rt_err \<times> kstate) option" where
  "rt_thread_control t cmd s = do {
     rt_assert (rt_object_get_type (KThread t) s = RT_Object_Class_Thread);
     (case cmd of
        THREAD_CHANGE_PRIORITY p \<Rightarrow>
          if tstat s t = RT_THREAD_READY then do {
            s \<leftarrow> rt_schedule_remove_thread t s;
            let s = upd_thread t (set_priority p) s;
            s \<leftarrow> rt_schedule_insert_thread t s;
            Some (RT_EOK, s)
          }
          else Some (RT_EOK, upd_thread t (set_priority p) s)
      | THREAD_STARTUP \<Rightarrow> rt_thread_startup t s
      | THREAD_CLOSE \<Rightarrow> rt_thread_delete t s
      | THREAD_OTHER \<Rightarrow> Some (RT_EOK, s))
   }"

definition rt_thread_timeout :: "tid \<Rightarrow> kstate \<Rightarrow> kstate option" where
  "rt_thread_timeout t s = do {
     rt_assert (tstat s t = RT_THREAD_SUSPEND);
     rt_assert (rt_object_get_type (KThread t) s = RT_Object_Class_Thread);
     let s = upd_thread t (\<lambda>th. th\<lparr>th_error := - RT_ETIMEOUT\<rparr>) s;
     let s = s\<lparr>k_tlists := tbl_remove t (k_tlists s)\<rparr>;
     s \<leftarrow> rt_schedule_insert_thread t s;
     rt_schedule s
   }"

definition rt_thread_find :: "rt_uint8 list \<Rightarrow> kstate \<Rightarrow> (kobj option \<times> kstate) option" where
  "rt_thread_find name s = do {
     let s = (if rt_thread_self s \<noteq> None then rt_enter_critical s else s);
     information \<leftarrow> rt_object_get_information RT_Object_Class_Thread;
     let r = find_by_name s name (k_olists s information);
     s \<leftarrow> (if rt_thread_self s \<noteq> None then rt_exit_critical s else Some s);
     Some (r, s)
   }"

text \<open>The error number of the caller, \<^verbatim>\<open>src/kservice.c\<close>; \<open>k_errno\<close> is \<^verbatim>\<open>__rt_errno\<close>.\<close>

definition rt_get_errno :: "kstate \<Rightarrow> rt_err" where
  "rt_get_errno s =
     (if rt_interrupt_get_nest s \<noteq> 0 then k_errno s
      else (case rt_thread_self s of None \<Rightarrow> k_errno s | Some t \<Rightarrow> th_error (thread s t)))"

definition rt_set_errno :: "rt_err \<Rightarrow> kstate \<Rightarrow> kstate" where
  "rt_set_errno e s =
     (if rt_interrupt_get_nest s \<noteq> 0 then s\<lparr>k_errno := e\<rparr>
      else (case rt_thread_self s of
              None \<Rightarrow> s\<lparr>k_errno := e\<rparr>
            | Some t \<Rightarrow> upd_thread t (\<lambda>th. th\<lparr>th_error := e\<rparr>) s))"

lemma rt_errno_roundtrip: "rt_get_errno (rt_set_errno e s) = e"
  by (simp add: rt_get_errno_def rt_set_errno_def rt_interrupt_get_nest_def rt_thread_self_def split: option.splits)

section \<open>The operations keep the kernel invariant\<close>

lemma kinv_thread_suspend [kernel_inv]:
  assumes inv: "kinv {} s" and r: "rt_thread_suspend t s = Some (e, s')"
  shows "kinv {} s'"
    and "e = RT_EOK \<Longrightarrow> tstat s' t = RT_THREAD_SUSPEND \<and> unlinked t (k_tlists s') \<and>
      unlinked (ThreadTimer t) (k_tmlists s')"
    and "e \<noteq> RT_EOK \<Longrightarrow> s' = s \<and> \<not> runnable (tstat s t)"
proof -
  consider (err) "e = - RT_ERROR" "s' = s" "\<not> runnable (tstat s t)"
    | (ok) s1 r1 where "runnable (tstat s t)" "rt_schedule_remove_thread t s = Some s1"
      "rt_timer_stop (ThreadTimer t) (upd_thread t (with_stat RT_THREAD_SUSPEND) s1) = Some (r1, s')" "e = RT_EOK"
    using r by (auto simp: rt_thread_suspend_def bind_Some_iff Let_def runnable_def split: if_splits)
  then have "kinv {} s' \<and> (e = RT_EOK \<longrightarrow> tstat s' t = RT_THREAD_SUSPEND \<and> unlinked t (k_tlists s') \<and>
      unlinked (ThreadTimer t) (k_tmlists s')) \<and> (e \<noteq> RT_EOK \<longrightarrow> s' = s \<and> \<not> runnable (tstat s t))"
  proof cases
    case err
    then show ?thesis using inv by simp
  next
    case ok
    let ?s2 = "upd_thread t (with_stat RT_THREAD_SUSPEND) s1"
    have 1: "kinv {t} s1" "unlinked t (k_tlists s1)" using kinv_remove_thread [OF inv ok(2)] by auto
    have keep: "thread s1 t = thread s t" "k_olists s1 = k_olists s"
      using ok(2) by (auto simp: rt_schedule_remove_thread_def Let_def)
    have live: "listed (KThread t) s"
      by (rule listed_if_live [OF inv]) (use ok(1) in \<open>auto simp: runnable_def\<close>)
    have pok: "prio_ok (with_stat v (thread s1 t))" for v
      using prio_ok_with_stat [OF sched_invD(8) [OF kinvD(1) [OF inv]]] ok(1) keep by (auto simp: runnable_def)
    have tml: "listed (KTimer (ThreadTimer t)) s"
      by (rule timer_listed_if_live [OF inv]) (use ok(1) in \<open>auto simp: runnable_def\<close>)
    have "kinv ({t} - {t}) ?s2"
      by (rule kinv_upd_stat [OF 1]) (use pok live tml keep in \<open>auto simp: rt_flag_simps\<close>)
    then have 2: "kinv {} ?s2" by simp
    note 3 = kinv_timer_stop [OF 2 ok(3)] and F = timer_frame_fields [OF rt_timer_stop_frame [OF ok(3)]]
    show ?thesis using 3 F 1(2) ok(4) by (simp add: rt_flag_simps)
  qed
  then show "kinv {} s'"
    and "e = RT_EOK \<Longrightarrow> tstat s' t = RT_THREAD_SUSPEND \<and> unlinked t (k_tlists s') \<and>
      unlinked (ThreadTimer t) (k_tmlists s')"
    and "e \<noteq> RT_EOK \<Longrightarrow> s' = s \<and> \<not> runnable (tstat s t)"
    by auto
qed

lemma kinv_thread_resume [kernel_inv]:
  assumes inv: "kinv {} s" and r: "rt_thread_resume t s = Some (e, s')"
  shows "kinv {} s'"
proof -
  consider (err) "s' = s"
    | (ok) s1 r1 where "tstat s t = RT_THREAD_SUSPEND"
      "rt_timer_stop (ThreadTimer t) (s\<lparr>k_tlists := tbl_remove t (k_tlists s)\<rparr>) = Some (r1, s1)"
      "rt_schedule_insert_thread t s1 = Some s'"
    using r by (auto simp: rt_thread_resume_def bind_Some_iff Let_def split: if_splits)
  then show ?thesis
  proof cases
    case ok
    have live: "listed (KThread t) s" "listed (KTimer (ThreadTimer t)) s"
      using listed_if_live [OF inv] timer_listed_if_live [OF inv] ok(1) by auto
    have "kinv {} (s\<lparr>k_tlists := tbl_remove t (k_tlists s)\<rparr>)"
      by (rule kinv_unlink_waiting [OF inv]) (simp add: ok(1))
    note S = kinv_timer_stop [OF this ok(2)] and F = timer_frame_fields [OF rt_timer_stop_frame [OF ok(2)]]
    have "kinv ({} - {t}) s'"
      by (rule kinv_insert_thread [OF S(1)]) (use ok live S(2) F in auto)
    then show ?thesis by simp
  qed (use inv in simp)
qed

lemma thread_resume_frame:
  assumes "rt_thread_resume t s = Some (e, s')"
  shows "core_frame s s'"
proof -
  consider "s' = s" | s1 r1 where
      "rt_timer_stop (ThreadTimer t) (s\<lparr>k_tlists := tbl_remove t (k_tlists s)\<rparr>) = Some (r1, s1)"
      "rt_schedule_insert_thread t s1 = Some s'"
    using assms by (auto simp: rt_thread_resume_def bind_Some_iff Let_def split: if_splits)
  then show ?thesis
  proof cases
    case 2
    then show ?thesis
      using core_frame_steps(5) [OF 2(1)] core_frame_steps(1) [OF 2(2)] core_frame_tlists core_frame_trans
      by blast
  qed simp
qed

lemma thread_suspend_frame:
  assumes "rt_thread_suspend t s = Some (e, s')"
  shows "core_frame s s'" "k_current s' = k_current s"
proof -
  consider "s' = s" | s1 r1 where "rt_schedule_remove_thread t s = Some s1"
      "rt_timer_stop (ThreadTimer t) (upd_thread t (with_stat RT_THREAD_SUSPEND) s1) = Some (r1, s')"
    using assms by (auto simp: rt_thread_suspend_def bind_Some_iff Let_def split: if_splits)
  note cs = this
  show "core_frame s s'" using cs
  proof cases
    case 2
    then show ?thesis
      using core_frame_steps(2) [OF 2(1)] core_frame_steps(5) [OF 2(2)] core_frame_steps(4) core_frame_trans
      by blast
  qed simp
  show "k_current s' = k_current s" using cs
  proof cases
    case 2
    then show ?thesis using timer_frame_fields(13) [OF rt_timer_stop_frame [OF 2(2)]]
      by (auto simp: rt_schedule_remove_thread_def Let_def)
  qed simp
qed

lemma kinv_thread_startup [kernel_inv]:
  assumes inv: "kinv {} s" and r: "rt_thread_startup t s = Some (e, s')"
  shows "kinv {} s'"
proof -
  let ?f = "\<lambda>th. th\<lparr>th_current_priority := th_init_priority th,
        th_number_mask := prio_mask (unat (th_init_priority th)), th_stat := RT_THREAD_SUSPEND\<rparr>"
  obtain s2 e2 where ini: "tstat s t = RT_THREAD_INIT"
    and ty: "rt_object_get_type (KThread t) s = RT_Object_Class_Thread"
    and s2: "rt_thread_resume t (upd_thread t ?f s) = Some (e2, s2)"
    and s': "(if rt_thread_self s2 \<noteq> None then rt_schedule s2 else Some s2) = Some s'"
    using r unfolding rt_thread_startup_def Let_def by (fastforce simp: bind_Some_iff)
  have un: "unlinked t (k_tlists s)" by (rule unlinked_if_idle [OF kinvD(1) [OF inv] ini])
  have "prio_ok (?f (thread s t))" using sched_invD(8) [OF kinvD(1) [OF inv], of t] by (simp add: prio_ok_def)
  moreover have live: "listed (KThread t) s" using listed_if_typed [OF inv, of "KThread t"] ty by simp
  ultimately have "kinv {} (upd_thread t ?f s)"
    using kinv_upd_stat [OF inv un, of ?f] reg_invD(7) [OF kinvD(4) [OF inv], of t] ini by simp
  then have "kinv {} s2" using kinv_thread_resume [OF _ s2] by blast
  then show ?thesis using s' kinv_schedule by (auto split: if_splits)
qed

lemma kinv_close_or_defunct:
  assumes inv: "kinv X s" and un: "unlinked t (k_tlists s)" and st: "tstat s t = RT_THREAD_CLOSE"
    and reg: "listed (KThread t) s"
  shows "kinv X (close_or_defunct t s)"
  unfolding close_or_defunct_def
  using kinv_push_defunct [OF inv un st reg] kinv_object_detach [OF inv quiescent_thread [OF inv un]] st
  by simp

lemma prio_ok_close: "prio_ok th \<Longrightarrow> prio_ok (th\<lparr>th_stat := RT_THREAD_CLOSE\<rparr>)"
  by (simp add: prio_ok_def)

text \<open>Off the ready table, closed and with its timer detached: what every ending comes to.\<close>

lemma kinv_end_thread:
  assumes inv: "kinv {} s" and live: "listed (KThread t) s"
    and s1: "(if rm then rt_schedule_remove_thread t s else Some s) = Some s1"
    and rm: "\<not> rm \<Longrightarrow> tstat s t = RT_THREAD_INIT"
    and s2: "rt_timer_detach (ThreadTimer t) s1 = Some (e, s2)"
  shows "kinv {} (upd_thread t (\<lambda>th. th\<lparr>th_stat := RT_THREAD_CLOSE\<rparr>) s2)"
    "unlinked t (k_tlists s2)" "listed (KThread t) s2"
proof -
  have 1: "kinv {t} s1" "unlinked t (k_tlists s1)"
    using kinv_remove_thread [OF inv, of t s1] s1 rm kinv_mono [OF inv, of "{t}"]
      unlinked_if_idle [OF kinvD(1) [OF inv], of t] by (auto split: if_splits)
  have "k_olists s1 = k_olists s"
    using s1 by (auto simp: rt_schedule_remove_thread_def Let_def split: if_splits)
  note T = kinv_timer_detach [OF 1(1) _ s2]
  have off: "timer_owner_off {t} (ThreadTimer t) s1" by (simp add: timer_owner_off_def)
  show un2: "unlinked t (k_tlists s2)" using T(3) [OF off] 1(2) by simp
  have "kinv ({t} - {t}) (upd_thread t (\<lambda>th. th\<lparr>th_stat := RT_THREAD_CLOSE\<rparr>) s2)"
    by (rule kinv_upd_stat [OF T(1) [OF off] un2])
      (use prio_ok_close sched_invD(8) [OF kinvD(1) [OF T(1) [OF off]]] T(2) [OF off] in auto)
  then show "kinv {} (upd_thread t (\<lambda>th. th\<lparr>th_stat := RT_THREAD_CLOSE\<rparr>) s2)" by simp
  show "listed (KThread t) s2"
    using s2 live \<open>k_olists s1 = k_olists s\<close>
    by (auto simp: rt_timer_detach_def Let_def rt_object_detach_def timer_remove_def)
qed

lemma kinv_thread_detach [kernel_inv]:
  assumes inv: "kinv {} s" and r: "rt_thread_detach t s = Some (e, s')"
  shows "kinv {} s'"
proof -
  obtain s1 e2 s2 where ty: "rt_object_get_type (KThread t) s = RT_Object_Class_Thread"
    and s1: "(if tstat s t \<noteq> RT_THREAD_INIT then rt_schedule_remove_thread t s else Some s) = Some s1"
    and s2: "rt_timer_detach (ThreadTimer t) s1 = Some (e2, s2)"
    and s': "s' = close_or_defunct t (upd_thread t (\<lambda>th. th\<lparr>th_stat := RT_THREAD_CLOSE\<rparr>) s2)"
    using r unfolding rt_thread_detach_def Let_def by (fastforce simp: bind_Some_iff)
  have "listed (KThread t) s" using listed_if_typed [OF inv, of "KThread t"] ty by simp
  note E = kinv_end_thread [OF inv this s1 _ s2]
  show ?thesis unfolding s' by (rule kinv_close_or_defunct) (use E in auto)
qed

lemma kinv_thread_delete [kernel_inv]:
  assumes inv: "kinv {} s" and r: "rt_thread_delete t s = Some (e, s')"
  shows "kinv {} s'"
proof -
  let ?c = "upd_thread t (\<lambda>th. th\<lparr>th_stat := RT_THREAD_CLOSE\<rparr>)"
  obtain s1 e2 s2 where ty: "rt_object_get_type (KThread t) s = RT_Object_Class_Thread"
    and s1: "(if tstat s t \<noteq> RT_THREAD_INIT then rt_schedule_remove_thread t s else Some s) = Some s1"
    and s2: "rt_timer_detach (ThreadTimer t) s1 = Some (e2, s2)"
    and s': "s' = (?c s2)\<lparr>k_tlists := tbl_push Defunct t (k_tlists (?c s2))\<rparr>"
    using r unfolding rt_thread_delete_def Let_def by (fastforce simp: bind_Some_iff)
  have "listed (KThread t) s" using listed_if_typed [OF inv, of "KThread t"] ty by simp
  note E = kinv_end_thread [OF inv this s1 _ s2]
  show ?thesis unfolding s' by (rule kinv_push_defunct) (use E in auto)
qed

text \<open>Changing a priority keeps the invariant when the new priority is in range.\<close>

lemma prio_ok_set_priority: "prio_ok th \<Longrightarrow> unat p < 32 \<Longrightarrow> prio_ok (set_priority p th)"
  by (simp add: prio_ok_def set_priority_def)

lemma stat_of_set_priority [simp]: "stat_of (set_priority p th) = stat_of th"
  by (simp add: set_priority_def stat_of_def)

lemma kinv_thread_control [kernel_inv]:
  assumes inv: "kinv {} s" and r: "rt_thread_control t cmd s = Some (e, s')"
    and range: "\<And>p. cmd = THREAD_CHANGE_PRIORITY p \<Longrightarrow> unat p < 32"
  shows "kinv {} s'"
proof (cases cmd)
  case (THREAD_CHANGE_PRIORITY p)
  have p: "unat p < 32" using range THREAD_CHANGE_PRIORITY by simp
  note S = sched_invD [OF kinvD(1) [OF inv]]
  show ?thesis
  proof (cases "tstat s t = RT_THREAD_READY")
    case True
    then obtain s1 where s1: "rt_schedule_remove_thread t s = Some s1"
      and s': "rt_schedule_insert_thread t (upd_thread t (set_priority p) s1) = Some s'"
      using r THREAD_CHANGE_PRIORITY by (auto simp: rt_thread_control_def bind_Some_iff Let_def)
    have 1: "kinv {t} s1" "unlinked t (k_tlists s1)" using kinv_remove_thread [OF inv s1] by auto
    have keep: "thread s1 t = thread s t" "k_olists s1 = k_olists s" "k_tmlists s1 = k_tmlists s"
      using s1 by (auto simp: rt_schedule_remove_thread_def Let_def)
    have "kinv {t} (upd_thread t (set_priority p) s1)"
      by (rule kinv_upd_stat_in [OF 1(1) _ 1(2)]) (use prio_ok_set_priority [OF S(8) p] keep in auto)
    then have "kinv ({t} - {t}) s'"
      by (rule kinv_insert_thread [OF _ _ _ _ _ _ s'])
        (use 1(2) True keep timer_unlinked_if_awake [OF inv, of t] listed_if_live [OF inv, of t]
          timer_listed_if_live [OF inv, of t] in \<open>auto simp: set_priority_def\<close>)
    then show ?thesis by simp
  next
    case False
    then have s': "s' = upd_thread t (set_priority p) s"
      using r THREAD_CHANGE_PRIORITY by (auto simp: rt_thread_control_def)
    have "sched_wf s'" unfolding s'
    proof (rule sched_inv_upd_thread [OF kinvD(1) [OF inv]])
      show "prio_ok (set_priority p (thread s t))" by (rule prio_ok_set_priority [OF S(8) p])
      show "t \<in> set (k_tlists s (Ready q)) \<Longrightarrow> stat_of (set_priority p (thread s t)) = RT_THREAD_READY \<and>
          unat (th_current_priority (set_priority p (thread s t))) = q" for q
        using S(4) [of t q] False by simp
      show "t \<in> set (k_tlists s (Susp k)) \<Longrightarrow> stat_of (set_priority p (thread s t)) = RT_THREAD_SUSPEND" for k
        using S(5) [of t k] by simp
      show "t \<in> set (k_tlists s (SuspSender k)) \<Longrightarrow> stat_of (set_priority p (thread s t)) = RT_THREAD_SUSPEND" for k
        using S(6) [of t k] by simp
      show "t \<in> set (k_tlists s (Outer w)) \<Longrightarrow> stat_of (set_priority p (thread s t)) = RT_THREAD_SUSPEND" for w
        using S(12) [of t w] by simp
    qed (use S(7,10,11) [of t] False in auto)
    moreover have "tstat s' u = tstat s u" for u by (simp add: s' set_priority_def)
    ultimately show ?thesis using kinvD [OF inv]
      by (auto simp: kinv_def timers_inv_def reg_inv_def objs_wf_def rt_object_get_type_def s')
  qed
next
  case THREAD_STARTUP
  then have "rt_thread_startup t s = Some (e, s')" using r by (simp add: rt_thread_control_def)
  then show ?thesis by (rule kinv_thread_startup [OF inv])
next
  case THREAD_CLOSE
  then have "rt_thread_delete t s = Some (e, s')" using r by (simp add: rt_thread_control_def)
  then show ?thesis by (rule kinv_thread_delete [OF inv])
next
  case THREAD_OTHER
  then show ?thesis using r inv by (simp add: rt_thread_control_def)
qed

lemma kinv_thread_timeout [kernel_inv]:
  assumes inv: "kinv {} s" and un: "unlinked (ThreadTimer t) (k_tmlists s)"
    and r: "rt_thread_timeout t s = Some s'"
  shows "kinv {} s'"
proof -
  let ?s1 = "upd_thread t (\<lambda>th. th\<lparr>th_error := - RT_ETIMEOUT\<rparr>) s"
  obtain s2 where st: "tstat s t = RT_THREAD_SUSPEND"
    and s2: "rt_schedule_insert_thread t (?s1\<lparr>k_tlists := tbl_remove t (k_tlists ?s1)\<rparr>) = Some s2"
    and s': "rt_schedule s2 = Some s'"
    using r by (auto simp: rt_thread_timeout_def bind_Some_iff Let_def)
  have "kinv {} ?s1" using inv by (rule kinv_upd_error)
  then have 1: "kinv {} (?s1\<lparr>k_tlists := tbl_remove t (k_tlists ?s1)\<rparr>)"
    by (rule kinv_unlink_waiting) (simp add: st)
  have "kinv ({} - {t}) s2"
    by (rule kinv_insert_thread [OF 1 _ _ _ _ _ s2])
      (use st un listed_if_live [OF inv, of t] timer_listed_if_live [OF inv, of t] in auto)
  then show ?thesis using kinv_schedule [OF _ s'] by simp
qed

lemma kinv_thread_exit [kernel_inv]:
  assumes inv: "kinv {} s" and r: "rt_thread_exit s = Some s'"
    and live: "\<And>t. k_current s = Some t \<Longrightarrow> listed (KThread t) s"
  shows "kinv {} s'"
proof -
  let ?c = "\<lambda>t. upd_thread t (\<lambda>th. th\<lparr>th_stat := RT_THREAD_CLOSE\<rparr>)"
  obtain t s1 e s2 where t: "k_current s = Some t" and s1: "rt_schedule_remove_thread t s = Some s1"
    and s2: "rt_timer_detach (ThreadTimer t) (?c t s1) = Some (e, s2)"
    and s': "rt_schedule (close_or_defunct t s2) = Some s'"
    using r by (auto simp: rt_thread_exit_def rt_thread_self_def bind_Some_iff Let_def)
  have 1: "kinv {t} s1" "unlinked t (k_tlists s1)" using kinv_remove_thread [OF inv s1] by auto
  have keep: "k_olists s1 = k_olists s"
    using s1 by (auto simp: rt_schedule_remove_thread_def Let_def)
  have 2: "kinv {t} (?c t s1)"
    by (rule kinv_upd_stat_in [OF 1(1) _ 1(2)])
      (use prio_ok_close sched_invD(8) [OF kinvD(1) [OF 1(1)]] in auto)
  have off: "timer_owner_off {t} (ThreadTimer t) (?c t s1)" by (simp add: timer_owner_off_def)
  note T = kinv_timer_detach [OF 2 off s2]
  have un: "unlinked t (k_tlists s2)" "tstat s2 t = RT_THREAD_CLOSE" using T(3,4) 1(2) by simp_all
  have 3: "kinv ({t} - {t}) s2" by (rule kinv_settle [OF T(1)]) (use un T(2) in auto)
  have "listed (KThread t) s2"
    using s2 live [OF t] keep by (auto simp: rt_timer_detach_def Let_def rt_object_detach_def timer_remove_def)
  then have "kinv {} (close_or_defunct t s2)" using kinv_close_or_defunct [of "{}" s2 t] 3 un by simp
  then show ?thesis using s' by (rule kinv_schedule)
qed

section \<open>A new thread\<close>

text \<open>The frame is written within its sixteen words.\<close>

lemma store32_outside:
  assumes "64 \<le> x - stk" "unat (n :: rt_uint32) \<le> 60"
  shows "store32 (stk + n) v m x = m x"
proof -
  have "x \<noteq> stk + n + k" if "unat k < 4" for k
  proof
    assume "x = stk + n + k"
    then have "x - stk = n + k" by simp
    moreover have "unat (n + k) = unat n + unat k" using assms(2) that by (simp add: unat_word_ariths)
    ultimately show False using assms that by (simp add: word_le_nat_alt)
  qed
  from this [of 0] this [of 1] this [of 2] this [of 3] show ?thesis
    by (simp add: store32_def add.assoc)
qed

lemma store32_fold_outside:
  "64 \<le> x - stk \<Longrightarrow> \<forall>i \<in> set is. i < 16 \<Longrightarrow>
     fold (\<lambda>i. store32 (stk + 4 * of_nat i) v) is m x = m x"
proof (induction "is" arbitrary: m)
  case (Cons i "is")
  have "unat (4 * of_nat i :: rt_uint32) \<le> 60" using Cons.prems(2) by (simp add: unat_word_ariths unat_of_nat)
  then show ?case using Cons store32_outside [of x stk "4 * of_nat i"] by simp
qed simp

lemma stack_frame_fill_outside:
  assumes "64 \<le> x - stk"
  shows "stack_frame_fill te pa tx stk m x = m x"
proof -
  have "\<forall>i \<in> set [0..<16]. i < (16 :: nat)" "\<forall>i \<in> set [9..<13]. i < (16 :: nat)" by auto
  note f = store32_fold_outside [OF assms this(1)] store32_fold_outside [OF assms this(2)]
  show ?thesis
    using f store32_outside [OF assms, of 32] store32_outside [OF assms, of 52]
      store32_outside [OF assms, of 56] store32_outside [OF assms, of 60]
    by (simp add: stack_frame_fill_def Let_def del: upt.simps)
qed

lemma rt_hw_stack_init_mem:
  assumes "rt_hw_stack_init te pa sa tx m = (sp, m')"
  shows "sp = RT_ALIGN_DOWN (sa + 4) 8 - 64" "64 \<le> x - sp \<Longrightarrow> m' x = m x"
  using assms stack_frame_fill_outside [of x sp] by (auto simp: rt_hw_stack_init_def Let_def)

text \<open>A stack of at least 72 bytes that does not wrap passes the overflow check of the scheduler.\<close>

lemma initial_stack_ok:
  fixes start sz :: rt_uint32
  assumes room: "72 \<le> unat sz" "unat start + unat sz < 2 ^ 32"
    and i: "rt_hw_stack_init te pa (start + sz - 4) tx (fill_bytes start 0x23 sz m) = (sp, m')"
  shows "m' start = 0x23" "start < sp" "sp \<le> start + sz"
proof -
  have upto: "unat (start + sz) = unat start + unat sz" using room by (simp add: unat_word_ariths)
  let ?top = "RT_ALIGN_DOWN (start + sz) 8"
  have "unat ?top = 8 * (unat (start + sz) div 8)"
    using unat_and_not_mask [of "start + sz" 3] by (simp add: RT_ALIGN_DOWN_def mask_eq_exp_minus_1)
  then have top: "unat ?top \<le> unat start + unat sz" "unat start + unat sz < unat ?top + 8"
    unfolding upto by auto
  note S = rt_hw_stack_init_mem [OF i]
  have sp: "sp = ?top - 64" using S(1) by simp
  have usp: "unat sp = unat ?top - 64" unfolding sp using top room by (subst unat_sub) (auto simp: word_le_nat_alt)
  show lt: "start < sp" using usp top room by (simp add: word_less_nat_alt)
  show "sp \<le> start + sz" using usp top upto by (simp add: word_le_nat_alt)
  have "unat (start - sp) = unat start + 2 ^ 32 - unat sp"
    using lt by (subst unat_sub_if') (simp add: word_less_nat_alt)
  moreover have "unat sp \<le> 2 ^ 32 - 64 + unat start" using usp top room by simp
  ultimately have "64 \<le> start - sp" by (simp add: word_le_nat_alt)
  then have "m' start = fill_bytes start 0x23 sz m start" by (rule S(2))
  moreover have "(0 :: rt_uint32) < sz" using room by (simp add: word_less_nat_alt)
  ultimately show "m' start = 0x23" by (simp add: fill_bytes_def)
qed

lemma kinv_thread_init_fields:
  assumes inv: "kinv {t} s" and idl: "idle_set {t} s"
    and reg: "listed (KThread t) s"
    and r: "thread_init_fields t en pa st sz pr tick s = Some s'"
  shows "kinv {} s'"
proof -
  obtain sp m' where m': "rt_hw_stack_init en pa (st + sz - 4) (k_exit_addr s) (fill_bytes st 0x23 sz (k_mem s)) = (sp, m')"
    by force
  define f where "f = (\<lambda>th :: rt_thread. th\<lparr>th_entry := en, th_parameter := pa,
        th_stack_addr := st, th_stack_size := sz, th_sp := sp,
        th_init_priority := pr, th_current_priority := pr, th_number_mask := 0,
        th_init_tick := tick, th_remaining_tick := tick, th_error := RT_EOK,
        th_stat := RT_THREAD_INIT, th_cleanup := None, th_user_data := 0\<rparr>)"
  let ?s1 = "upd_thread t f (s\<lparr>k_mem := m'\<rparr>)"
  have pr: "unat pr < 32" and tm: "rt_timer_init (ThreadTimer t) (o_name (k_objs ?s1 (KThread t))) (TF_thread_timeout t) 0 0 ?s1 = Some s'"
    using r m' by (auto simp: thread_init_fields_def Let_def f_def)
  have 1: "kinv {t} ?s1"
    by (rule kinv_upd_stat_in) (use inv idl pr in \<open>auto simp: f_def prio_ok_def idle_set_def stat_of_def\<close>)
  have 2: "idle_set {t} ?s1" using idl by (simp add: idle_set_def f_def stat_of_def)
  note T = kinv_timer_init [OF 1 2 tm]
  have "kinv ({t} - {t}) s'"
    by (rule kinv_settle [OF T(1)]) (use T(2,3) in \<open>auto simp: idle_set_def\<close>)
  then show ?thesis by simp
qed

lemma kinv_thread_init [kernel_inv]:
  assumes inv: "kinv {} s" and r: "rt_thread_init t name en pa st sz pr tick s = Some (e, s')"
  shows "kinv {} s'"
proof -
  obtain s1 where s1: "rt_object_init (KThread t) (class_of (KThread t)) name s = Some s1"
    and s': "thread_init_fields t en pa st sz pr tick s1 = Some s'"
    using r by (auto simp: rt_thread_init_def bind_Some_iff)
  note O = kinv_object_init [OF inv _ s1, simplified]
  have st: "tstat s t = RT_THREAD_INIT \<or> tstat s t = RT_THREAD_CLOSE" "unlinked t (k_tlists s)"
    using reg_invD(2,3) [OF kinvD(4) [OF inv]] O(4) by auto
  then have idl: "idle_set {t} s"
    using timer_unlinked_if_awake [OF inv, of t] by (auto simp: idle_set_def)
  note P = kinv_object_init [OF kinv_mono [OF inv] idl s1]
  show ?thesis by (rule kinv_thread_init_fields [OF _ _ _ s']) (use P(1,2,3) in auto)
qed

section \<open>Properties\<close>

definition load32 :: "(rt_uint32 \<Rightarrow> rt_uint8) \<Rightarrow> rt_uint32 \<Rightarrow> rt_uint32" where
  "load32 m a = ucast (m a) OR push_bit 8 (ucast (m (a + 1))) OR push_bit 16 (ucast (m (a + 2))) OR
     push_bit 24 (ucast (m (a + 3)))"

lemma load_store_same: "load32 (store32 a v m) a = v"
proof (rule bit_word_eqI)
  fix n assume "n < LENGTH(32)"
  moreover have "n < 8 \<or> (\<exists>k. n = 8 + k \<and> k < 8) \<or> (\<exists>k. n = 16 + k \<and> k < 8) \<or> (\<exists>k. n = 24 + k)"
    by presburger
  ultimately show "bit (load32 (store32 a v m) a) n \<longleftrightarrow> bit v n" by (auto simp: load32_def store32_def bit_simps)
qed

lemma load_store_other:
  assumes "4 \<le> b - a" "4 \<le> a - b"
  shows "load32 (store32 a v m) b = load32 m b"
proof -
  have "b + i \<noteq> a + j" if "i \<in> {0, 1, 2, 3}" "j \<in> {0, 1, 2, 3}" for i j
  proof
    assume "b + i = a + j"
    then have "b - a = j - i" "a - b = i - j" by (simp_all add: algebra_simps)
    then show False using assms that by (auto simp: word_le_nat_alt)
  qed
  from this [of _ 0] this [of _ 1] this [of _ 2] this [of _ 3]
  have "store32 a v m (b + i) = m (b + i)" if "i \<in> {0, 1, 2, 3}" for i
    using that by (auto simp: store32_def)
  from this [of 0] this [of 1] this [of 2] this [of 3] show ?thesis by (simp add: load32_def)
qed

lemma initial_frame:
  assumes i: "rt_hw_stack_init en pa (start + sz - 4) tx (fill_bytes start 0x23 sz m) = (sp, m')"
    and room: "72 \<le> unat sz" "unat start + unat sz < 2 ^ 32"
  shows "load32 m' (sp + 56) = en" "load32 m' (sp + 32) = pa" "load32 m' (sp + 52) = tx"
    "m' start = 0x23" "start < sp" "sp \<le> start + sz"
proof -
  show "m' start = 0x23" "start < sp" "sp \<le> start + sz" using initial_stack_ok [OF room i] by blast+
  have m': "m' = stack_frame_fill en pa tx sp (fill_bytes start 0x23 sz m)"
    using i by (auto simp: rt_hw_stack_init_def Let_def)
  have "[9..<13] = [9, 10, 11, 12 :: nat]" by (simp add: upt_conv_Cons)
  then show "load32 m' (sp + 56) = en" "load32 m' (sp + 32) = pa" "load32 m' (sp + 52) = tx"
    by (simp_all add: m' stack_frame_fill_def Let_def load_store_same load_store_other)
qed

text \<open>Registering an object touches no stack.\<close>

lemma object_init_stack:
  assumes "rt_object_init k ty name s = Some s'"
  shows "k_mem s' = k_mem s" "k_exit_addr s' = k_exit_addr s" "th_sp (thread s' t) = th_sp (thread s t)"
    "th_stack_addr (thread s' t) = th_stack_addr (thread s t)" "th_stack_size (thread s' t) = th_stack_size (thread s t)"
proof -
  obtain i s1 where s1: "rt_exit_critical (rt_enter_critical s) = Some s1"
    and s': "s' = (let s = upd_obj k (\<lambda>ob. ob\<lparr>o_type := ty OR RT_Object_Class_Static, o_name := rt_strncpy name 8\<rparr>) s1
       in s\<lparr>k_olists := tbl_push i k (k_olists s)\<rparr>)"
    using assms by (auto simp: rt_object_init_def bind_Some_iff Let_def)
  have "\<exists>s0. sched_frame s0 s1 \<and> k_mem s0 = k_mem s \<and> k_exit_addr s0 = k_exit_addr s \<and> k_threads s0 = k_threads s"
  proof -
    let ?s0 = "(rt_enter_critical s)\<lparr>k_lock_nest := k_lock_nest (rt_enter_critical s) - 1\<rparr>"
    have "sched_frame (?s0\<lparr>k_lock_nest := 0\<rparr>) s1 \<or> s1 = ?s0 \<or> s1 = ?s0\<lparr>k_lock_nest := 0\<rparr>"
      using s1 by (auto simp: rt_exit_critical_def Let_def split: if_splits dest: sched_frame_schedule)
    then consider "sched_frame (?s0\<lparr>k_lock_nest := 0\<rparr>) s1" | "s1 = ?s0" | "s1 = ?s0\<lparr>k_lock_nest := 0\<rparr>" by blast
    then show ?thesis
    proof cases
      case 1
      then show ?thesis by (rule exI [of _ "?s0\<lparr>k_lock_nest := 0\<rparr>", OF conjI]) (simp add: rt_enter_critical_def)
    qed (rule exI [of _ s1]; simp add: rt_enter_critical_def)+
  qed
  then obtain s0 where f: "sched_frame s0 s1" "k_mem s0 = k_mem s" "k_exit_addr s0 = k_exit_addr s" "k_threads s0 = k_threads s"
    by blast
  then show "k_mem s' = k_mem s" "k_exit_addr s' = k_exit_addr s" "th_sp (thread s' t) = th_sp (thread s t)"
    "th_stack_addr (thread s' t) = th_stack_addr (thread s t)" "th_stack_size (thread s' t) = th_stack_size (thread s t)"
    using sched_frame_fields [OF f(1)] sched_frame_thread [OF f(1)] by (simp_all add: s' Let_def)
qed

text \<open>
  A freshly initialised thread can be switched to: on a stack of at least 72 bytes that does
  not wrap around the address space, the frame that the context switch restores lies inside the
  stack and holds the entry point as program counter, the parameter in the first argument
  register and the exit routine as return address, and the overflow check of the scheduler passes.
\<close>

theorem rt_thread_init_frame:
  assumes r: "rt_thread_init t name en pa start sz pr tick s = Some (e, s')"
    and room: "72 \<le> unat sz" "unat start + unat sz < 2 ^ 32"
  shows "let sp = th_sp (thread s' t) in
     load32 (k_mem s') (sp + 56) = en \<and> load32 (k_mem s') (sp + 32) = pa \<and>
     load32 (k_mem s') (sp + 52) = k_exit_addr s \<and> start < sp \<and> sp \<le> start + sz \<and> stack_ok s' t"
proof -
  obtain s1 where s1: "rt_object_init (KThread t) RT_Object_Class_Thread name s = Some s1"
    and r1: "thread_init_fields t en pa start sz pr tick s1 = Some s'"
    using r by (auto simp: rt_thread_init_def bind_Some_iff)
  obtain sp m where sp: "rt_hw_stack_init en pa (start + sz - 4) (k_exit_addr s1) (fill_bytes start 0x23 sz (k_mem s1)) = (sp, m)"
    by force
  obtain nm s2 where s': "rt_timer_init (ThreadTimer t) nm (TF_thread_timeout t) 0 0 s2 = Some s'"
    and s2: "k_mem s2 = m" "th_sp (thread s2 t) = sp" "th_stack_addr (thread s2 t) = start" "th_stack_size (thread s2 t) = sz"
    using r1 sp by (simp add: thread_init_fields_def Let_def) (elim conjE, rule that, assumption, simp_all)
  obtain s3 where s3: "rt_object_init (KTimer (ThreadTimer t)) RT_Object_Class_Timer nm s2 = Some s3"
    and s'3: "k_mem s' = k_mem s3" "k_threads s' = k_threads s3"
    using s' by (auto simp: rt_timer_init_def timer_init_fields_def bind_Some_iff Let_def)
  note F = initial_frame [OF sp room] and O = object_init_stack [OF s3]
  have "k_exit_addr s1 = k_exit_addr s" by (rule object_init_stack [OF s1])
  then show ?thesis using F O s2 s'3
    by (simp add: Let_def stack_ok_def scheduler_stack_check_def not_le not_less)
qed

end
