(* ===== verification/TimerRun.thy ===== *)
theory TimerRun
  imports KThread
begin

text \<open>
  Starting timers, the expiry loops of \<^verbatim>\<open>src/timer.c\<close>, the clock tick of
  \<^verbatim>\<open>src/clock.c\<close>, and the sleeping operations of \<^verbatim>\<open>src/thread.c\<close>.

  The timeout functions of the application are the argument \<open>cb\<close> of the expiry loops: called
  with the function's number and parameter, it gives the state after the call, or \<open>None\<close> if the
  call does not return.

  A sleeping operation is split at its call of \<^verbatim>\<open>rt_schedule\<close>: the first part ends when the
  processor is given away, and \<open>rt_thread_sleep_resume\<close> is what the thread does when it runs
  again.
\<close>

section \<open>Starting a timer\<close>

definition timer_link :: "timer_id \<Rightarrow> kstate \<Rightarrow> kstate" where
  "timer_link t s =
     (let h = (if tflag s t AND RT_TIMER_FLAG_SOFT_TIMER \<noteq> 0 then rt_soft_timer_list else rt_timer_list);
          s = s\<lparr>k_tmlists := (k_tmlists s)(h := timer_insert (timeout s) t (k_tmlists s h))\<rparr>;
          s = s\<lparr>k_random_nr := k_random_nr s + 1\<rparr>
      in upd_tflag t (\<lambda>f. f OR RT_TIMER_FLAG_ACTIVATED) s)"

definition rt_timer_start :: "timer_id \<Rightarrow> kstate \<Rightarrow> (rt_err \<times> kstate) option" where
  "rt_timer_start t s = do {
     rt_assert (rt_object_get_type (KTimer t) s = RT_Object_Class_Timer);
     let s = timer_remove t s;
     let s = upd_tflag t (\<lambda>f. f AND NOT RT_TIMER_FLAG_ACTIVATED) s;
     rt_assert (tm_init_tick (k_timers s t) < RT_TICK_HALF);
     let s = upd_timer t (\<lambda>tm. tm\<lparr>tm_timeout_tick := k_tick s + tm_init_tick tm\<rparr>) s;
     let s = timer_link t s;
     if tflag s t AND RT_TIMER_FLAG_SOFT_TIMER \<noteq> 0 \<and> tstat s (k_timer_thread s) = RT_THREAD_SUSPEND
     then do {
       (_, s) \<leftarrow> rt_thread_resume (k_timer_thread s) s;
       s \<leftarrow> rt_schedule s;
       Some (RT_EOK, s)
     }
     else Some (RT_EOK, s)
   }"

section \<open>Expiry of hard timers\<close>

type_synonym timer_callback = "nat \<Rightarrow> rt_uint32 \<Rightarrow> kstate \<Rightarrow> kstate option"

fun call_timeout :: "timer_callback \<Rightarrow> timeout_fn \<Rightarrow> kstate \<Rightarrow> kstate option" where
  "call_timeout cb (TF_thread_timeout t) s = rt_thread_timeout t s"
| "call_timeout cb (TF_user i arg) s = cb i arg s"

definition due :: "kstate \<Rightarrow> timer_id \<Rightarrow> bool" where
  "due s t \<longleftrightarrow> k_tick s - timeout s t < RT_TICK_HALF"

text \<open>What follows the timeout call: start a periodic timer again, deactivate any other.\<close>

definition timer_rearm :: "timer_id \<Rightarrow> kstate \<Rightarrow> kstate option" where
  "timer_rearm t s =
     (if tflag s t AND RT_TIMER_FLAG_PERIODIC \<noteq> 0 \<and> tflag s t AND RT_TIMER_FLAG_ACTIVATED \<noteq> 0
      then do {
        (_, s) \<leftarrow> rt_timer_start t (upd_tflag t (\<lambda>f. f AND NOT RT_TIMER_FLAG_ACTIVATED) s);
        Some s
      }
      else Some (upd_tflag t (\<lambda>f. f AND NOT RT_TIMER_FLAG_ACTIVATED) s))"

definition timer_fire :: "timer_callback \<Rightarrow> timer_id \<Rightarrow> kstate \<Rightarrow> kstate option" where
  "timer_fire cb t s = do {
     let s = timer_remove t s;
     s \<leftarrow> call_timeout cb (tm_func (k_timers s t)) s;
     timer_rearm t s
   }"

partial_function (option) rt_timer_check :: "timer_callback \<Rightarrow> kstate \<Rightarrow> kstate option" where
  "rt_timer_check cb s =
     (case k_tmlists s rt_timer_list of
        [] \<Rightarrow> Some s
      | t # _ \<Rightarrow> if due s t then do { s \<leftarrow> timer_fire cb t s; rt_timer_check cb s } else Some s)"

section \<open>Expiry of soft timers\<close>

text \<open>
  The loop keeps \<open>n\<close>, the node after the expired timer, across the call of the timeout
  function; \<open>None\<close> is the list head, which ends it.  A node that is on no list is its own
  successor.
\<close>

definition next_node :: "timer_id \<Rightarrow> timer_id list \<Rightarrow> timer_id option" where
  "next_node t ts = (case dropWhile (\<lambda>u. u \<noteq> t) ts of
     [] \<Rightarrow> Some t | [_] \<Rightarrow> None | _ # u # _ \<Rightarrow> Some u)"

partial_function (option) soft_timer_loop ::
    "timer_callback \<Rightarrow> timer_id option \<Rightarrow> kstate \<Rightarrow> kstate option" where
  "soft_timer_loop cb n s =
     (case n of
        None \<Rightarrow> Some s
      | Some t \<Rightarrow>
          if due s t then do {
            let n = next_node t (k_tmlists s rt_soft_timer_list);
            let s = timer_remove t s;
            s \<leftarrow> rt_exit_critical s;
            s \<leftarrow> call_timeout cb (tm_func (k_timers s t)) s;
            let s = rt_enter_critical s;
            s \<leftarrow> timer_rearm t s;
            soft_timer_loop cb n s
          }
          else Some s)"

definition rt_soft_timer_check :: "timer_callback \<Rightarrow> kstate \<Rightarrow> kstate option" where
  "rt_soft_timer_check cb s = do {
     let s = rt_enter_critical s;
     let n = (case k_tmlists s rt_soft_timer_list of [] \<Rightarrow> None | t # _ \<Rightarrow> Some t);
     s \<leftarrow> soft_timer_loop cb n s;
     rt_exit_critical s
   }"

section \<open>Sleeping\<close>

datatype 'r outcome = Ret 'r | Wait

text \<open>Start the timer of a suspended thread with the given number of ticks.\<close>

definition start_thread_timer :: "tid \<Rightarrow> rt_uint32 \<Rightarrow> kstate \<Rightarrow> kstate option" where
  "start_thread_timer t ticks s = do {
     (_, _, s) \<leftarrow> rt_timer_control (ThreadTimer t) (TIMER_SET_TIME ticks) s;
     (_, s) \<leftarrow> rt_timer_start (ThreadTimer t) s;
     Some s
   }"

definition rt_thread_sleep :: "rt_uint32 \<Rightarrow> kstate \<Rightarrow> (rt_err outcome \<times> kstate) option" where
  "rt_thread_sleep tick s = do {
     t \<leftarrow> rt_thread_self s;
     rt_assert (rt_object_get_type (KThread t) s = RT_Object_Class_Thread);
     (_, s) \<leftarrow> rt_thread_suspend t s;
     s \<leftarrow> start_thread_timer t tick s;
     s \<leftarrow> rt_schedule s;
     Some (Wait, s)
   }"

definition rt_thread_sleep_resume :: "tid \<Rightarrow> kstate \<Rightarrow> rt_err \<times> kstate" where
  "rt_thread_sleep_resume t s =
     (RT_EOK, if th_error (thread s t) = - RT_ETIMEOUT
              then upd_thread t (\<lambda>th. th\<lparr>th_error := RT_EOK\<rparr>) s else s)"

definition rt_thread_delay :: "rt_uint32 \<Rightarrow> kstate \<Rightarrow> (rt_err outcome \<times> kstate) option" where
  "rt_thread_delay tick s = rt_thread_sleep tick s"

text \<open>\<open>tick\<close> is the value behind the pointer argument; a call that does not wait returns the new one.\<close>

definition rt_thread_delay_until ::
    "rt_uint32 \<Rightarrow> rt_uint32 \<Rightarrow> kstate \<Rightarrow> ((rt_err \<times> rt_uint32) outcome \<times> kstate) option" where
  "rt_thread_delay_until tick inc_tick s = do {
     t \<leftarrow> rt_thread_self s;
     rt_assert (rt_object_get_type (KThread t) s = RT_Object_Class_Thread);
     if k_tick s - tick < inc_tick then do {
       let tick = k_tick s - tick + inc_tick;
       (_, s) \<leftarrow> rt_thread_suspend t s;
       s \<leftarrow> start_thread_timer t tick s;
       s \<leftarrow> rt_schedule s;
       Some (Wait, s)
     }
     else Some (Ret (RT_EOK, k_tick s), s)
   }"

definition rt_thread_delay_until_resume :: "tid \<Rightarrow> kstate \<Rightarrow> (rt_err \<times> rt_uint32) \<times> kstate" where
  "rt_thread_delay_until_resume t s =
     (let (e, s) = rt_thread_sleep_resume t s in ((e, k_tick s), s))"

section \<open>The clock\<close>

definition rt_tick_get :: "kstate \<Rightarrow> rt_uint32" where
  "rt_tick_get s = k_tick s"

definition rt_tick_set :: "rt_uint32 \<Rightarrow> kstate \<Rightarrow> kstate" where
  "rt_tick_set tick s = s\<lparr>k_tick := tick\<rparr>"

definition rt_tick_increase :: "timer_callback \<Rightarrow> kstate \<Rightarrow> kstate option" where
  "rt_tick_increase cb s = do {
     let s = s\<lparr>k_tick := k_tick s + 1\<rparr>;
     t \<leftarrow> rt_thread_self s;
     let s = upd_thread t (\<lambda>th. th\<lparr>th_remaining_tick := th_remaining_tick th - 1\<rparr>) s;
     s \<leftarrow> (if th_remaining_tick (thread s t) = 0
       then do {
         let s = upd_thread t (\<lambda>th. th\<lparr>th_remaining_tick := th_init_tick th,
            th_stat := th_stat th OR RT_THREAD_STAT_YIELD\<rparr>) s;
         (_, s) \<leftarrow> rt_thread_yield s;
         Some s
       }
       else Some s);
     rt_timer_check cb s
   }"

text \<open>\<^verbatim>\<open>RT_TICK_PER_SECOND\<close> is 1000; the arithmetic is C's on \<^verbatim>\<open>rt_int32_t\<close> and \<^verbatim>\<open>rt_tick_t\<close>.\<close>

abbreviation (input) RT_TICK_PER_SECOND :: int where "RT_TICK_PER_SECOND \<equiv> 1000"

definition rt_tick_from_millisecond :: "int \<Rightarrow> rt_uint32" where
  "rt_tick_from_millisecond ms =
     (if ms < 0 then - 1
      else word_of_int (RT_TICK_PER_SECOND * (ms div 1000)) +
           word_of_int ((RT_TICK_PER_SECOND * (ms mod 1000) + 999) div 1000))"

definition rt_thread_mdelay :: "int \<Rightarrow> kstate \<Rightarrow> (rt_err outcome \<times> kstate) option" where
  "rt_thread_mdelay ms s = rt_thread_sleep (rt_tick_from_millisecond ms) s"

text \<open>
  One round of the endless loop of the soft timer thread, up to where it gives the processor
  away (\<open>Wait\<close>) or goes straight on to check its timers.
\<close>

definition rt_thread_timer_entry_step :: "timer_callback \<Rightarrow> kstate \<Rightarrow> (unit outcome \<times> kstate) option" where
  "rt_thread_timer_entry_step cb s =
     (let next_timeout = rt_timer_list_next_timeout rt_soft_timer_list s in
      if next_timeout = RT_TICK_MAX then do {
        t \<leftarrow> rt_thread_self s;
        (_, s) \<leftarrow> rt_thread_suspend t s;
        s \<leftarrow> rt_schedule s;
        Some (Wait, s)
      }
      else if next_timeout - k_tick s < RT_TICK_HALF then do {
        (_, s) \<leftarrow> rt_thread_delay (next_timeout - k_tick s) s;
        Some (Wait, s)
      }
      else do { s \<leftarrow> rt_soft_timer_check cb s; Some (Ret (), s) })"

text \<open>The rest of the round; \<open>slept\<close> tells whether it waits in \<^verbatim>\<open>rt_thread_delay\<close>.\<close>

definition rt_thread_timer_entry_resume ::
    "timer_callback \<Rightarrow> bool \<Rightarrow> tid \<Rightarrow> kstate \<Rightarrow> kstate option" where
  "rt_thread_timer_entry_resume cb slept t s =
     rt_soft_timer_check cb (if slept then snd (rt_thread_sleep_resume t s) else s)"

definition rt_system_timer_thread_init :: "rt_uint32 \<Rightarrow> rt_uint32 \<Rightarrow> kstate \<Rightarrow> kstate option" where
  "rt_system_timer_thread_init entry stack s = do {
     let s = s\<lparr>k_tmlists := (k_tmlists s)(rt_soft_timer_list := [])\<rparr>;
     (_, s) \<leftarrow> rt_thread_init (k_timer_thread s) [116, 105, 109, 101, 114] entry 0 stack 512 4 10 s;
     (_, s) \<leftarrow> rt_thread_startup (k_timer_thread s) s;
     Some s
   }"

section \<open>Starting keeps the invariant\<close>

text \<open>Linking a timer that is on no list.\<close>

lemma timer_flag_or [rt_flag_simps]:
  "((x :: rt_uint8) OR 1) AND 1 = 1"
  by (simp add: bit.conj_disj_distrib2)

lemma timer_link_lists:
  assumes "h = (if tflag s t AND RT_TIMER_FLAG_SOFT_TIMER \<noteq> 0 then SoftTimers else HardTimers)"
  shows "k_tmlists (timer_link t s) = (k_tmlists s)(h := timer_insert (timeout s) t (k_tmlists s h))"
  using assms by (simp add: timer_link_def Let_def)

lemma timer_link_frame: "timer_frame s (timer_link t s)" "ttimer_same s (timer_link t s)"
proof -
  define h where "h = (if tflag s t AND RT_TIMER_FLAG_SOFT_TIMER \<noteq> 0 then SoftTimers else HardTimers)"
  let ?s1 = "s\<lparr>k_tmlists := (k_tmlists s)(h := timer_insert (timeout s) t (k_tmlists s h)),
      k_random_nr := k_random_nr s + 1\<rparr>"
  have l: "timer_link t s = upd_tflag t (\<lambda>f. f OR RT_TIMER_FLAG_ACTIVATED) ?s1"
    by (simp add: timer_link_def Let_def h_def)
  have "timer_frame s ?s1" by (simp add: timer_frame_def)
  then show "timer_frame s (timer_link t s)" unfolding l by (rule timer_frame_trans [OF _ timer_frame_flag])
  show "ttimer_same s (timer_link t s)" unfolding l by (simp add: ttimer_same_def rt_flag_simps)
qed

lemma table_wf_upd:
  assumes "table_wf L" "distinct xs" "set xs \<subseteq> insert n (set (L h))" "unlinked n L"
  shows "table_wf (L(h := xs))"
proof -
  have "set xs \<inter> set (L k) = {}" if "k \<noteq> h" for k
    using assms(3,4) table_wf_at_most_one [OF assms(1), of _ k h] that by (auto simp: unlinked_def)
  then show ?thesis using assms(1,2) by (auto simp: table_wf_def)
qed

lemma kinv_timer_link:
  assumes inv: "kinv X s" and un: "unlinked t (k_tmlists s)" and reg: "listed (KTimer t) s"
    and own: "\<And>u. t = ThreadTimer u \<Longrightarrow> tflag s t AND RT_TIMER_FLAG_SOFT_TIMER = 0 \<and>
      tm_func (k_timers s t) = TF_thread_timeout u \<and> (u \<notin> X \<longrightarrow> tstat s u = RT_THREAD_SUSPEND)"
  shows "kinv X (timer_link t s)"
proof (rule kinv_timer_frame [OF inv timer_link_frame(1)])
  define h where "h = (if tflag s t AND RT_TIMER_FLAG_SOFT_TIMER \<noteq> 0 then SoftTimers else HardTimers)"
  note L = timer_link_lists [OF h_def] and T = timers_invD [OF kinvD(2) [OF inv]]
  have mem: "u \<in> set (k_tmlists (timer_link t s) j) \<Longrightarrow> u \<in> set (k_tmlists s j) \<and> u \<noteq> t \<or> u = t \<and> j = h" for u j
    using un by (auto simp: L unlinked_def split: if_splits)
  have flag: "tflag (timer_link t s) u = (if u = t then tflag s t OR 1 else tflag s u)" for u
    by (simp add: timer_link_def Let_def)
  have rest: "k_timers (timer_link t s) = k_timers s" "k_threads (timer_link t s) = k_threads s"
    by (simp_all add: timer_link_def Let_def)
  have "table_wf (k_tmlists (timer_link t s))"
    unfolding L by (rule table_wf_upd [OF T(1) _ _ un])
      (use un T(1) in \<open>auto simp: distinct_timer_insert table_wf_def unlinked_def\<close>)
  moreover have "tflag (timer_link t s) u AND 1 \<noteq> 0 \<and> (tflag (timer_link t s) u AND 4 \<noteq> 0 \<longleftrightarrow> j = SoftTimers)"
    if "u \<in> set (k_tmlists (timer_link t s) j)" for u j
    using mem [OF that] T(2,3) [of u j] by (auto simp: flag rt_flag_simps h_def)
  moreover have "j = HardTimers \<and> tm_func (k_timers (timer_link t s) (ThreadTimer u)) = TF_thread_timeout u \<and>
      (u \<notin> X \<longrightarrow> tstat (timer_link t s) u = RT_THREAD_SUSPEND)"
    if "ThreadTimer u \<in> set (k_tmlists (timer_link t s) j)" for u j
    using mem [OF that] T(4-6) [of u j] own [of u] by (auto simp: rest h_def)
  ultimately show "timers_inv X (timer_link t s)" unfolding timers_inv_def by blast
  show "unlinked u (k_tmlists (timer_link t s))" if "\<not> listed (KTimer u) s" "unlinked u (k_tmlists s)" for u
    using mem [of u] that reg by (auto simp: unlinked_def)
qed

text \<open>The first part of \<^verbatim>\<open>rt_timer_start\<close>, up to the wake-up of the timer thread.\<close>

definition timer_start_link :: "timer_id \<Rightarrow> kstate \<Rightarrow> kstate" where
  "timer_start_link t s =
     timer_link t (upd_timer t (\<lambda>tm. tm\<lparr>tm_timeout_tick := k_tick s + tm_init_tick tm\<rparr>)
       (upd_tflag t (\<lambda>f. f AND NOT RT_TIMER_FLAG_ACTIVATED) (timer_remove t s)))"

lemma timer_remove_fields [simp]:
  "k_timers (timer_remove t s) = k_timers s" "k_tick (timer_remove t s) = k_tick s"
  "k_objs (timer_remove t s) = k_objs s" "k_threads (timer_remove t s) = k_threads s"
  "k_olists (timer_remove t s) = k_olists s" "k_tlists (timer_remove t s) = k_tlists s"
  "k_timer_thread (timer_remove t s) = k_timer_thread s" "k_current (timer_remove t s) = k_current s"
  by (simp_all add: timer_remove_def)

lemma rt_timer_start_unfold:
  "rt_timer_start t s = do {
     rt_assert (rt_object_get_type (KTimer t) s = RT_Object_Class_Timer);
     rt_assert (tm_init_tick (k_timers s t) < RT_TICK_HALF);
     let s = timer_start_link t s;
     if tflag s t AND RT_TIMER_FLAG_SOFT_TIMER \<noteq> 0 \<and> tstat s (k_timer_thread s) = RT_THREAD_SUSPEND
     then do {
       (_, s) \<leftarrow> rt_thread_resume (k_timer_thread s) s;
       s \<leftarrow> rt_schedule s;
       Some (RT_EOK, s)
     }
     else Some (RT_EOK, s)
   }"
  by (simp only: rt_timer_start_def timer_start_link_def Let_def upd_obj_fields timer_remove_fields
      rt_assert_simps)

lemma timer_start_link_frame: "timer_frame s (timer_start_link t s)" "ttimer_same s (timer_start_link t s)"
proof -
  let ?s1 = "upd_tflag t (\<lambda>f. f AND NOT RT_TIMER_FLAG_ACTIVATED) (timer_remove t s)"
  let ?s2 = "upd_timer t (\<lambda>tm. tm\<lparr>tm_timeout_tick := k_tick s + tm_init_tick tm\<rparr>) ?s1"
  have "timer_frame s ?s1" by (rule timer_frame_trans [OF timer_frame_remove timer_frame_flag])
  then have "timer_frame s ?s2" by (rule timer_frame_trans [OF _ timer_frame_upd])
  then show "timer_frame s (timer_start_link t s)"
    unfolding timer_start_link_def by (rule timer_frame_trans [OF _ timer_link_frame(1)])
  have "ttimer_same s ?s2" by (auto simp: ttimer_same_def timer_remove_def rt_flag_simps)
  then show "ttimer_same s (timer_start_link t s)"
    unfolding timer_start_link_def by (rule ttimer_same_trans [OF _ timer_link_frame(2)])
qed

lemma kinv_timer_start_link:
  assumes inv: "kinv X s" and reg: "listed (KTimer t) s"
    and own: "\<And>u. t = ThreadTimer u \<Longrightarrow> tflag s t AND RT_TIMER_FLAG_SOFT_TIMER = 0 \<and>
      tm_func (k_timers s t) = TF_thread_timeout u \<and> (u \<notin> X \<longrightarrow> tstat s u = RT_THREAD_SUSPEND)"
  shows "kinv X (timer_start_link t s)"
  unfolding timer_start_link_def
proof (rule kinv_timer_link)
  let ?s1 = "upd_tflag t (\<lambda>f. f AND NOT RT_TIMER_FLAG_ACTIVATED) (timer_remove t s)"
  have "kinv X ?s1" by (intro kinv_flag_unlinked kinv_timer_remove inv) simp
  then show "kinv X (upd_timer t (\<lambda>tm. tm\<lparr>tm_timeout_tick := k_tick s + tm_init_tick tm\<rparr>) ?s1)"
    by (rule kinv_upd_timer) simp
qed (use reg own in \<open>auto simp: timer_remove_def rt_flag_simps\<close>)

lemma kinv_timer_start [kernel_inv]:
  assumes ok: "kernel_ok s"
    and own: "\<And>u. t = ThreadTimer u \<Longrightarrow> tstat s u = RT_THREAD_SUSPEND"
    and r: "rt_timer_start t s = Some (e, s')"
  shows "kinv {} s'" "core_frame s s'" "e = RT_EOK"
proof -
  let ?s1 = "timer_start_link t s"
  note inv = kernel_okD(1) [OF ok]
  have ty: "rt_object_get_type (KTimer t) s = RT_Object_Class_Timer"
    using r by (auto simp: rt_timer_start_unfold)
  have reg: "listed (KTimer t) s" using listed_if_typed [OF inv, of "KTimer t"] ty by simp
  have 1: "kinv {} ?s1"
    by (rule kinv_timer_start_link [OF inv reg])
      (use own kernel_okD(2) [OF ok] reg in \<open>auto simp: ttimers_ok_def\<close>)
  have F1: "core_frame s ?s1" using timer_start_link_frame by (rule core_frame_timer)
  consider "s' = ?s1" | e2 s2 where "rt_thread_resume (k_timer_thread ?s1) ?s1 = Some (e2, s2)" "rt_schedule s2 = Some s'"
    using r by (auto simp: rt_timer_start_unfold Let_def bind_Some_iff split: if_splits)
  note cs = this
  show "e = RT_EOK" using r by (auto simp: rt_timer_start_unfold Let_def bind_Some_iff split: if_splits)
  show "kinv {} s'" using cs
  proof cases
    case 2
    then show ?thesis using kinv_schedule [OF kinv_thread_resume [OF 1 2(1)] 2(2)] by simp
  qed (use 1 in simp)
  show "core_frame s s'" using cs
  proof cases
    case 2
    then show ?thesis
      using F1 thread_resume_frame [OF 2(1)] core_frame_steps(3) [OF 2(2)] core_frame_trans by blast
  qed (use F1 in simp)
qed

lemma kernel_ok_timer_start [kernel_inv]:
  assumes "kernel_ok s" "\<And>u. t = ThreadTimer u \<Longrightarrow> tstat s u = RT_THREAD_SUSPEND"
    "rt_timer_start t s = Some (e, s')"
  shows "kernel_ok s'"
proof -
  note K = kinv_timer_start [OF assms]
  show ?thesis using K(1) ttimers_ok_core [OF K(2) kernel_okD(2) [OF assms(1)]] by (simp add: kernel_ok_def)
qed

section \<open>Operations that cannot fail\<close>

text \<open>
  A running system: the kernel invariant, a current thread, and no stack overflow.  In such a
  state the scheduler always returns.
\<close>

definition live :: "rt_uint8 \<Rightarrow> bool" where
  "live v \<longleftrightarrow> v = RT_THREAD_READY \<or> v = RT_THREAD_SUSPEND \<or> v = RT_THREAD_RUNNING"

definition sys_ok :: "kstate \<Rightarrow> bool" where
  "sys_ok s \<longleftrightarrow> kernel_ok s \<and> (\<exists>c. k_current s = Some c \<and> tprio s c < 32) \<and>
     (\<forall>t. live (tstat s t) \<longrightarrow> stack_ok s t)"

lemma sys_okD:
  assumes "sys_ok s"
  shows "kernel_ok s" "kinv {} s" "sched_wf s" "ttimers_ok s" "live (tstat s t) \<Longrightarrow> stack_ok s t"
  using assms by (auto simp: sys_ok_def kernel_ok_def kinv_def)

lemma stack_ok_core: "core_frame s s' \<Longrightarrow> stack_ok s' t = stack_ok s t"
  by (simp add: stack_ok_def scheduler_stack_check_def core_frame_thread core_frame_fields)

lemma sys_ok_step:
  assumes "sys_ok s" "kinv {} s'" "core_frame s s'"
    "\<And>t. live (tstat s' t) \<Longrightarrow> live (tstat s t)" "\<exists>c. k_current s' = Some c \<and> tprio s' c < 32"
  shows "sys_ok s'"
  using assms ttimers_ok_core [OF assms(3)] stack_ok_core [OF assms(3)]
  by (auto simp: sys_ok_def kernel_ok_def)

lemma rt_schedule_total:
  assumes ok: "sys_ok s"
  obtains s' where "rt_schedule s = Some s'" "sys_ok s'"
proof -
  note D = sys_okD [OF ok]
  obtain c where c: "k_current s = Some c" "tprio s c < 32" using ok by (auto simp: sys_ok_def)
  have ex: "\<exists>s'. rt_schedule s = Some s' \<and> (\<exists>c. k_current s' = Some c \<and> tprio s' c < 32)"
  proof (cases "k_lock_nest s \<noteq> 0 \<or> k_ready_group s = 0")
    case True
    then show ?thesis using rt_schedule_idle c by auto
  next
    case False
    obtain t ts p where t: "get_highest_priority_thread s = Some (t, p)"
      by (rule get_highest_some [OF D(3)]) (use False in auto)
    note H = get_highest_spec [OF D(3) t]
    obtain s' u where u: "rt_schedule s = Some s'" "k_current s' = Some u" "tstat s' u = RT_THREAD_RUNNING"
      by (rule rt_schedule_runs_highest [OF D(3) _ c(1) _ c(2)])
        (use False H(6) D(5) in \<open>auto simp: live_def\<close>)
    have "tprio s' u < 32"
      using prio_ok_number_mask [OF sched_invD(8) [OF rt_schedule_wf [OF D(3) u(1)]], of u] u(3) by simp
    then show ?thesis using u by blast
  qed
  then obtain s' where s': "rt_schedule s = Some s'" "\<exists>c. k_current s' = Some c \<and> tprio s' c < 32" by blast
  have st: "tstat s' t = tstat s t \<or> runnable (tstat s' t) \<and> runnable (tstat s t)" for t
    using rt_schedule_step [OF D(3) s'(1)] by (simp add: sched_step_def)
  have "live (tstat s t)" if "live (tstat s' t)" for t
    using st [of t] that by (auto simp: live_def runnable_def)
  then have "sys_ok s'"
    by (rule sys_ok_step [OF ok kinv_schedule [OF D(2) s'(1)] core_frame_steps(3) [OF s'(1)] _ s'(2)])
  then show thesis using that s'(1) by blast
qed

text \<open>Steps that leave the timers, their lists and the clock as they are, and delete no timer.\<close>

definition timers_same :: "kstate \<Rightarrow> kstate \<Rightarrow> bool" where
  "timers_same s s' \<longleftrightarrow> k_tmlists s' = k_tmlists s \<and> k_timers s' = k_timers s \<and> k_tick s' = k_tick s \<and>
     (\<forall>t. tflag s' t = tflag s t) \<and> (\<forall>t. listed (KTimer t) s \<longrightarrow> listed (KTimer t) s')"

lemma timers_same_sched: "sched_frame s s' \<Longrightarrow> timers_same s s'"
  by (simp add: timers_same_def sched_frame_fields)

lemma timers_same_trans: "timers_same s1 s2 \<Longrightarrow> timers_same s2 s3 \<Longrightarrow> timers_same s1 s3"
  by (simp add: timers_same_def)

lemma rt_thread_timeout_total:
  assumes ok: "sys_ok s" and st: "tstat s t = RT_THREAD_SUSPEND"
    and un: "unlinked (ThreadTimer t) (k_tmlists s)"
  obtains s' where "rt_thread_timeout t s = Some s'" "sys_ok s'" "timers_same s s'"
proof -
  note D = sys_okD [OF ok]
  let ?s1 = "upd_thread t (\<lambda>th. th\<lparr>th_error := - RT_ETIMEOUT\<rparr>) s"
  let ?s2 = "?s1\<lparr>k_tlists := tbl_remove t (k_tlists ?s1)\<rparr>"
  have reg: "listed (KThread t) s" "listed (KTimer (ThreadTimer t)) s"
    using listed_if_live [OF D(2), of t] timer_listed_if_live [OF D(2), of t] st by auto
  have ty: "rt_object_get_type (KThread t) s = RT_Object_Class_Thread"
    using type_if_listed [OF D(2) reg(1)] by simp
  have pr: "tprio s t < 32" using prio_ok_number_mask [OF sched_invD(8) [OF D(3)], of t] st by simp
  have 1: "kinv {} ?s1" using D(2) by (rule kinv_upd_error)
  have 2: "kinv {} ?s2" by (rule kinv_unlink_waiting [OF 1]) (simp add: st)
  obtain s3 where s3: "rt_schedule_insert_thread t ?s2 = Some s3"
    using pr by (cases "k_current s = Some t") (auto simp: rt_schedule_insert_thread_def Let_def)
  have "kinv ({} - {t}) s3"
    by (rule kinv_insert_thread [OF 2 _ _ _ _ _ s3]) (use st un reg in auto)
  then have 3: "kinv {} s3" by simp
  have F: "core_frame s s3"
    using core_frame_error core_frame_tlists core_frame_steps(1) [OF s3] core_frame_trans by blast
  have "live (tstat s u)" if "live (tstat s3 u)" for u
    using s3 that st by (auto simp: rt_schedule_insert_thread_def Let_def live_def split: if_splits)
  moreover have "k_current s3 = k_current s"
    using s3 by (auto simp: rt_schedule_insert_thread_def Let_def split: if_splits)
  ultimately have ok3: "sys_ok s3"
    using sys_ok_step [OF ok 3 F] ok core_frame_thread(1) [OF F] by (auto simp: sys_ok_def)
  obtain s' where s': "rt_schedule s3 = Some s'" "sys_ok s'" by (rule rt_schedule_total [OF ok3])
  have "timers_same s ?s2" by (simp add: timers_same_def)
  then have "timers_same s s'"
    using timers_same_sched [OF sched_frame_insert [OF s3]] timers_same_sched [OF sched_frame_schedule [OF s'(1)]]
      timers_same_trans by blast
  then show thesis using that [of s'] s' s3 st ty by (simp add: rt_thread_timeout_def Let_def)
qed

section \<open>The expiry loop\<close>

text \<open>What a timeout function may do to the timers: stop some of them, as waking a thread whose wait has
  a time limit does.  The clock, the settings of the timers and their registration stay.\<close>

definition timers_less :: "kstate \<Rightarrow> kstate \<Rightarrow> bool" where
  "timers_less s s' \<longleftrightarrow> k_timers s' = k_timers s \<and> k_tick s' = k_tick s \<and>
     (\<forall>h. \<exists>P. k_tmlists s' h = filter P (k_tmlists s h)) \<and>
     (\<forall>u. tflag s' u AND NOT RT_TIMER_FLAG_ACTIVATED = tflag s u AND NOT RT_TIMER_FLAG_ACTIVATED) \<and>
     (\<forall>u. listed (KTimer u) s \<longrightarrow> listed (KTimer u) s')"

lemma timers_same_less: "timers_same s s' \<Longrightarrow> timers_less s s'"
  by (auto simp: timers_same_def timers_less_def intro!: exI [of _ "\<lambda>_. True"])

lemma timers_less_trans:
  assumes "timers_less s1 s2" "timers_less s2 s3"
  shows "timers_less s1 s3"
proof -
  have "\<exists>P. k_tmlists s3 h = filter P (k_tmlists s1 h)" for h
  proof -
    obtain P Q where "k_tmlists s2 h = filter P (k_tmlists s1 h)" "k_tmlists s3 h = filter Q (k_tmlists s2 h)"
      using assms unfolding timers_less_def by metis
    then have "k_tmlists s3 h = filter (\<lambda>x. Q x \<and> P x) (k_tmlists s1 h)" by (simp add: conj_commute)
    then show ?thesis by blast
  qed
  then show ?thesis using assms by (simp add: timers_less_def)
qed

lemma flags_but_active:
  fixes x y :: rt_uint8
  assumes "x AND NOT 1 = y AND NOT 1"
  shows "x AND 2 = y AND 2" "x AND 4 = y AND 4"
proof -
  have "(x AND NOT 1) AND 2 = (y AND NOT 1) AND 2" "(x AND NOT 1) AND 4 = (y AND NOT 1) AND 4" using assms by simp_all
  then show "x AND 2 = y AND 2" "x AND 4 = y AND 4" by (simp_all add: and.assoc)
qed

lemma timers_lessD:
  assumes "timers_less s s'"
  shows "k_timers s' = k_timers s" "k_tick s' = k_tick s" "tflag s' u AND 2 = tflag s u AND 2"
    "tflag s' u AND 4 = tflag s u AND 4" "listed (KTimer u) s \<Longrightarrow> listed (KTimer u) s'"
    "\<exists>P. k_tmlists s' h = filter P (k_tmlists s h)" "set (k_tmlists s' h) \<subseteq> set (k_tmlists s h)"
proof -
  show "k_timers s' = k_timers s" "k_tick s' = k_tick s" "listed (KTimer u) s \<Longrightarrow> listed (KTimer u) s'"
    "\<exists>P. k_tmlists s' h = filter P (k_tmlists s h)"
    using assms by (simp_all add: timers_less_def)
  then show "set (k_tmlists s' h) \<subseteq> set (k_tmlists s h)" by auto
  have "tflag s' u AND NOT 1 = tflag s u AND NOT 1" using assms unfolding timers_less_def by blast
  then show "tflag s' u AND 2 = tflag s u AND 2" "tflag s' u AND 4 = tflag s u AND 4" by (rule flags_but_active)+
qed

text \<open>The timeout functions of the application that the loop may call: they return, keep the invariant of
  a running system, and do no more to the timers than that.\<close>

definition callback_ok :: "timer_callback \<Rightarrow> bool" where
  "callback_ok cb \<longleftrightarrow> (\<forall>i arg s. sys_ok s \<longrightarrow> (\<exists>s'. cb i arg s = Some s' \<and> sys_ok s' \<and> timers_less s s'))"

text \<open>
  Every timer can be started, a periodic one has a period, and no application timer is given
  the kernel's own timeout function; the timer of a thread is a one-shot timer.
\<close>

definition periods_ok :: "kstate \<Rightarrow> bool" where
  "periods_ok s \<longleftrightarrow> (\<forall>t \<in> set (k_tmlists s HardTimers). tm_init_tick (k_timers s t) < RT_TICK_HALF \<and>
     (tflag s t AND RT_TIMER_FLAG_PERIODIC \<noteq> 0 \<longrightarrow> 0 < tm_init_tick (k_timers s t)) \<and>
     (\<forall>u. tm_func (k_timers s t) = TF_thread_timeout u \<longrightarrow> t = ThreadTimer u) \<and>
     (\<forall>u. t = ThreadTimer u \<longrightarrow> tflag s t AND RT_TIMER_FLAG_PERIODIC = 0))"

lemma timers_same_due: "timers_same s s' \<Longrightarrow> due s' = due s"
  by (auto simp: timers_same_def due_def fun_eq_iff)

lemma flag_clear_active [rt_flag_simps]:
  "((x :: rt_uint8) AND - 2) AND 1 = 0" "((x :: rt_uint8) AND NOT 1) AND 1 = 0"
  "((x :: rt_uint8) AND - 2) AND 2 = x AND 2" "((x :: rt_uint8) AND NOT 1) AND 2 = x AND 2"
  "((x :: rt_uint8) OR 1) AND 2 = x AND 2"
  by (simp_all add: and.assoc bit.conj_disj_distrib2)

lemma sys_ok_timer_frame:
  assumes "sys_ok s" "kinv {} s'" "timer_frame s s'" "ttimer_same s s'"
  shows "sys_ok s'"
  by (rule sys_ok_step [OF assms(1,2) core_frame_timer [OF assms(3,4)]])
    (use assms(1) in \<open>auto simp: timer_frame_fields [OF assms(3)] sys_ok_def\<close>)

text \<open>Calling the timeout function of a timer just taken off the list.\<close>

lemma call_timeout_total:
  assumes ok: "sys_ok s" and cb: "callback_ok cb" and t: "t \<in> set (k_tmlists s HardTimers)"
    and own: "\<And>u. tm_func (k_timers s t) = TF_thread_timeout u \<Longrightarrow> t = ThreadTimer u"
  obtains s' where "call_timeout cb (tm_func (k_timers s t)) (timer_remove t s) = Some s'" "sys_ok s'"
    "timers_less (timer_remove t s) s'"
proof -
  note D = sys_okD [OF ok]
  have ok1: "sys_ok (timer_remove t s)"
    by (rule sys_ok_timer_frame [OF ok kinv_timer_remove [OF D(2)] timer_frame_remove])
      (simp add: ttimer_same_def)
  show thesis
  proof (cases "tm_func (k_timers s t)")
    case (TF_user i arg)
    obtain s' where "cb i arg (timer_remove t s) = Some s'" "sys_ok s'" "timers_less (timer_remove t s) s'"
      using cb ok1 unfolding callback_ok_def by blast
    then show thesis using that TF_user by simp
  next
    case (TF_thread_timeout u)
    then have tu: "t = ThreadTimer u" by (rule own)
    then have st: "tstat s u = RT_THREAD_SUSPEND"
      using timers_invD(6) [OF kinvD(2) [OF D(2)]] t by auto
    show thesis
      by (rule rt_thread_timeout_total [OF ok1, of u]) (use st tu TF_thread_timeout that timers_same_less in auto)
  qed
qed

lemma timer_start_link_fields:
  "k_tick (timer_start_link t s) = k_tick s"
  "k_timers (timer_start_link t s) =
     (k_timers s)(t := (k_timers s t)\<lparr>tm_timeout_tick := k_tick s + tm_init_tick (k_timers s t)\<rparr>)"
  "tflag (timer_start_link t s) u = (if u = t then (tflag s t AND NOT 1) OR 1 else tflag s u)"
  "tflag s t AND 4 = 0 \<Longrightarrow> k_tmlists (timer_start_link t s) =
     (tbl_remove t (k_tmlists s))(HardTimers :=
        timer_insert (timeout (timer_start_link t s)) t (removeAll t (k_tmlists s HardTimers)))"
proof -
  show t: "k_tick (timer_start_link t s) = k_tick s"
    "k_timers (timer_start_link t s) =
       (k_timers s)(t := (k_timers s t)\<lparr>tm_timeout_tick := k_tick s + tm_init_tick (k_timers s t)\<rparr>)"
    "tflag (timer_start_link t s) u = (if u = t then (tflag s t AND NOT 1) OR 1 else tflag s u)"
    by (simp_all add: timer_start_link_def timer_link_def Let_def)
  show "k_tmlists (timer_start_link t s) =
     (tbl_remove t (k_tmlists s))(HardTimers :=
        timer_insert (timeout (timer_start_link t s)) t (removeAll t (k_tmlists s HardTimers)))"
    if "tflag s t AND 4 = 0"
    using that by (simp add: timer_start_link_def timer_link_def Let_def rt_flag_simps timer_remove_def)
qed

text \<open>Restarting or deactivating a hard timer that is on no list.\<close>

lemma timer_rearm_total:
  assumes ok: "sys_ok s" and un: "unlinked t (k_tmlists s)" and reg: "listed (KTimer t) s"
    and hard: "tflag s t AND RT_TIMER_FLAG_SOFT_TIMER = 0" and tick: "tm_init_tick (k_timers s t) < RT_TICK_HALF"
    and own: "\<And>u. t = ThreadTimer u \<Longrightarrow> tflag s t AND RT_TIMER_FLAG_PERIODIC = 0"
  obtains s' where "timer_rearm t s = Some s'" "sys_ok s'" "k_tick s' = k_tick s"
    "\<And>u. u \<noteq> t \<Longrightarrow> k_timers s' u = k_timers s u \<and> tflag s' u = tflag s u"
    "k_tmlists s' SoftTimers = k_tmlists s SoftTimers"
    "tm_func (k_timers s' t) = tm_func (k_timers s t)" "tm_init_tick (k_timers s' t) = tm_init_tick (k_timers s t)"
    "tflag s' t AND RT_TIMER_FLAG_PERIODIC = tflag s t AND RT_TIMER_FLAG_PERIODIC"
    "k_tmlists s' HardTimers =
       (if tflag s t AND RT_TIMER_FLAG_PERIODIC \<noteq> 0 \<and> tflag s t AND RT_TIMER_FLAG_ACTIVATED \<noteq> 0
        then timer_insert (timeout s') t (k_tmlists s HardTimers) else k_tmlists s HardTimers)"
    "tflag s t AND RT_TIMER_FLAG_PERIODIC \<noteq> 0 \<and> tflag s t AND RT_TIMER_FLAG_ACTIVATED \<noteq> 0 \<Longrightarrow>
       timeout s' t = k_tick s + tm_init_tick (k_timers s t)"
proof -
  note D = sys_okD [OF ok]
  let ?s1 = "upd_tflag t (\<lambda>f. f AND NOT RT_TIMER_FLAG_ACTIVATED) s"
  let ?per = "tflag s t AND RT_TIMER_FLAG_PERIODIC \<noteq> 0 \<and> tflag s t AND RT_TIMER_FLAG_ACTIVATED \<noteq> 0"
  have same1: "ttimer_same s ?s1" by (simp add: ttimer_same_def rt_flag_simps)
  have i1: "kinv {} ?s1" by (rule kinv_flag_unlinked [OF D(2) un])
  have ok1: "sys_ok ?s1" by (rule sys_ok_timer_frame [OF ok i1 timer_frame_flag same1])
  show thesis
  proof (cases ?per)
    case False
    then have "timer_rearm t s = Some ?s1" by (auto simp: timer_rearm_def)
    then show thesis using that [of ?s1] ok1 False by (simp add: rt_flag_simps)
  next
    case True
    let ?s2 = "timer_start_link t ?s1"
    have not: "t \<noteq> ThreadTimer u" for u using own True by auto
    have ty: "rt_object_get_type (KTimer t) ?s1 = RT_Object_Class_Timer"
      using type_if_listed [OF i1] reg by simp
    have un1: "timer_remove t ?s1 = ?s1" using un by (simp add: timer_remove_def tbl_remove_unlinked)
    have soft: "tflag ?s2 t AND RT_TIMER_FLAG_SOFT_TIMER = 0"
      using hard timer_start_link_frame(2) [of ?s1 t] by (simp add: ttimer_same_def rt_flag_simps)
    then have st: "rt_timer_start t ?s1 = Some (RT_EOK, ?s2)"
      using ty tick by (simp add: rt_timer_start_unfold Let_def)
    then have r: "timer_rearm t s = Some ?s2" using True by (simp add: timer_rearm_def)
    have i2: "kinv {} ?s2" by (rule kinv_timer_start_link [OF i1]) (use reg not in auto)
    have ok2: "sys_ok ?s2"
      by (rule sys_ok_timer_frame [OF ok1 i2 timer_start_link_frame])
    have h1: "tflag ?s1 t AND 4 = 0" using hard by (simp add: rt_flag_simps)
    have un': "removeAll t (k_tmlists s h) = k_tmlists s h" for h using un by (simp add: unlinked_def)
    show thesis
      by (rule that [OF r ok2])
        (use True hard h1 in \<open>simp_all add: timer_start_link_fields un' rt_flag_simps\<close>)
  qed
qed

lemma rearmed_not_due: "0 < (i :: rt_uint32) \<Longrightarrow> i < 0x7FFFFFFF \<Longrightarrow> \<not> - i < 0x7FFFFFFF"
proof -
  assume "0 < i" "i < 0x7FFFFFFF"
  moreover have "unat (- i) = 2 ^ 32 - unat i" using unat_sub_if' [of 0 i] \<open>0 < i\<close>
    by (simp add: word_less_nat_alt)
  ultimately show ?thesis by (simp add: word_less_nat_alt)
qed

text \<open>One expired timer: the loop body returns, and fewer timers are due.  What is left of the list of the
  others is \<open>ts'\<close>.\<close>

lemma timer_fire_total:
  assumes ok: "sys_ok s" and cb: "callback_ok cb" and per: "periods_ok s"
    and l: "k_tmlists s HardTimers = t # ts"
  obtains s' P ts' where "timer_fire cb t s = Some s'" "sys_ok s'" "periods_ok s'" "k_tick s' = k_tick s"
    "ts' = filter P ts"
    "\<And>u. u \<in> set ts' \<Longrightarrow> k_timers s' u = k_timers s u \<and> tflag s' u AND RT_TIMER_FLAG_PERIODIC = tflag s u AND RT_TIMER_FLAG_PERIODIC"
    "filter (due s') (k_tmlists s' HardTimers) = filter (due s) ts'"
    "k_tmlists s' HardTimers = ts' \<or> k_tmlists s' HardTimers = timer_insert (timeout s') t ts' \<and>
       timeout s' t = k_tick s + tm_init_tick (k_timers s t) \<and>
       tflag s t AND RT_TIMER_FLAG_PERIODIC \<noteq> 0 \<and> tm_init_tick (k_timers s' t) = tm_init_tick (k_timers s t)"
proof -
  note D = sys_okD [OF ok] and T = timers_invD [OF kinvD(2) [OF sys_okD(2) [OF ok]]]
  have t: "t \<in> set (k_tmlists s HardTimers)" using l by simp
  have dist: "distinct (t # ts)" using T(1) l by (metis table_wf_def)
  have P: "tm_init_tick (k_timers s t) < RT_TICK_HALF"
    "tflag s t AND RT_TIMER_FLAG_PERIODIC \<noteq> 0 \<Longrightarrow> 0 < tm_init_tick (k_timers s t)"
    "\<And>u. tm_func (k_timers s t) = TF_thread_timeout u \<Longrightarrow> t = ThreadTimer u"
    "\<And>u. t = ThreadTimer u \<Longrightarrow> tflag s t AND RT_TIMER_FLAG_PERIODIC = 0"
    using per t by (auto simp: periods_ok_def)
  obtain s1 where s1: "call_timeout cb (tm_func (k_timers s t)) (timer_remove t s) = Some s1" "sys_ok s1"
    "timers_less (timer_remove t s) s1"
    by (rule call_timeout_total [OF ok cb t P(3)])
  note L = timers_lessD [OF s1(3)]
  have "k_tmlists (timer_remove t s) HardTimers = ts" using l dist by (auto simp: timer_remove_def)
  then obtain Q ts' where ts': "k_tmlists s1 HardTimers = ts'" "ts' = filter Q ts" using L(6) [of HardTimers] by auto
  have sub: "set ts' \<subseteq> set ts" using ts'(2) by auto
  have same: "k_timers s1 = k_timers s" "tflag s1 u AND 2 = tflag s u AND 2" "tflag s1 u AND 4 = tflag s u AND 4"
    "k_tick s1 = k_tick s" for u
    using L(1-4) by (simp_all add: timer_remove_def)
  have un: "unlinked t (k_tmlists s1)"
    using L(7) by (auto simp: unlinked_def timer_remove_def tbl_remove_def)
  have "listed (KTimer t) s" using reg_invD(4) [OF kinvD(4) [OF D(2)], of t] t by (auto simp: unlinked_def)
  then have reg: "listed (KTimer t) s1" using L(5) by (simp add: timer_remove_def)
  have hard: "tflag s1 t AND RT_TIMER_FLAG_SOFT_TIMER = 0" using T(3) [OF t] same(3) by simp
  obtain s' where s': "timer_rearm t s1 = Some s'" "sys_ok s'" "k_tick s' = k_tick s1"
    "\<And>u. u \<noteq> t \<Longrightarrow> k_timers s' u = k_timers s1 u \<and> tflag s' u = tflag s1 u"
    "tm_func (k_timers s' t) = tm_func (k_timers s1 t)" "tm_init_tick (k_timers s' t) = tm_init_tick (k_timers s1 t)"
    "tflag s' t AND RT_TIMER_FLAG_PERIODIC = tflag s1 t AND RT_TIMER_FLAG_PERIODIC"
    "k_tmlists s' HardTimers =
       (if tflag s1 t AND RT_TIMER_FLAG_PERIODIC \<noteq> 0 \<and> tflag s1 t AND RT_TIMER_FLAG_ACTIVATED \<noteq> 0
        then timer_insert (timeout s') t (k_tmlists s1 HardTimers) else k_tmlists s1 HardTimers)"
    "tflag s1 t AND RT_TIMER_FLAG_PERIODIC \<noteq> 0 \<and> tflag s1 t AND RT_TIMER_FLAG_ACTIVATED \<noteq> 0 \<Longrightarrow>
       timeout s' t = k_tick s1 + tm_init_tick (k_timers s1 t)"
    by (rule timer_rearm_total [OF s1(2) un reg hard]) (use P same in auto)
  have others: "k_timers s' u = k_timers s u \<and> tflag s' u AND 2 = tflag s u AND 2" if "u \<in> set ts'" for u
  proof -
    have "u \<noteq> t" using that sub dist by auto
    then show ?thesis using s'(4) [of u] same(1) same(2) [of u] by simp
  qed
  have alt: "k_tmlists s' HardTimers = ts' \<or> k_tmlists s' HardTimers = timer_insert (timeout s') t ts' \<and>
       timeout s' t = k_tick s + tm_init_tick (k_timers s t) \<and>
       tflag s t AND RT_TIMER_FLAG_PERIODIC \<noteq> 0 \<and> tm_init_tick (k_timers s' t) = tm_init_tick (k_timers s t)"
    using s'(6,8,9) same ts'(1) by auto
  have "periods_ok s'"
    unfolding periods_ok_def
  proof
    fix u assume u: "u \<in> set (k_tmlists s' HardTimers)"
    show "tm_init_tick (k_timers s' u) < RT_TICK_HALF \<and>
       (tflag s' u AND RT_TIMER_FLAG_PERIODIC \<noteq> 0 \<longrightarrow> 0 < tm_init_tick (k_timers s' u)) \<and>
       (\<forall>v. tm_func (k_timers s' u) = TF_thread_timeout v \<longrightarrow> u = ThreadTimer v) \<and>
       (\<forall>v. u = ThreadTimer v \<longrightarrow> tflag s' u AND RT_TIMER_FLAG_PERIODIC = 0)"
    proof (cases "u = t")
      case True
      have "tflag s' t AND RT_TIMER_FLAG_PERIODIC = tflag s t AND RT_TIMER_FLAG_PERIODIC"
        using s'(7) same(2) by simp
      then show ?thesis using True P s'(5,6) same(1) by auto
    next
      case False
      then have u': "u \<in> set ts'" using alt u by auto
      then have eq: "k_timers s' u = k_timers s u" "tflag s' u AND 2 = tflag s u AND 2" using others by simp_all
      have "u \<in> set ts" using u' sub by blast
      then show ?thesis unfolding eq using per l by (simp add: periods_ok_def)
    qed
  qed
  moreover have "filter (due s') (k_tmlists s' HardTimers) = filter (due s) ts'"
  proof -
    have du: "due s' u = due s u" if "u \<in> set ts'" for u
      using others [OF that] s'(3) same(4) by (simp add: due_def)
    then have f: "filter (due s') ts' = filter (due s) ts'" by (intro filter_cong) auto
    show ?thesis
    proof (cases "k_tmlists s' HardTimers = ts'")
      case False
      then have a: "k_tmlists s' HardTimers = timer_insert (timeout s') t ts'"
        "timeout s' t = k_tick s + tm_init_tick (k_timers s t)" "tflag s t AND RT_TIMER_FLAG_PERIODIC \<noteq> 0"
        using alt by auto
      then have "\<not> due s' t"
        using rearmed_not_due [OF P(2) P(1)] s'(3) same(4) by (simp add: due_def)
      then have "filter (due s') (timer_insert tmo t us) = filter (due s') us" for tmo us
        by (induction us) auto
      then show ?thesis using f a by simp
    qed (use f in simp)
  qed
  moreover have "timer_fire cb t s = Some s'" using s1(1) s'(1) by (simp add: timer_fire_def)
  ultimately show thesis using that [of s' ts' Q] s' same others alt ts'(2) by auto
qed

lemma fewer_due: "length (filter D (filter P ts)) \<le> length (filter D ts)"
  by (induction ts) auto

text \<open>The loop ends, with the first timer of the list, if any, still to come.\<close>

lemma rt_timer_check_total:
  assumes "sys_ok s" "callback_ok cb" "periods_ok s"
  shows "\<exists>s'. rt_timer_check cb s = Some s' \<and> sys_ok s' \<and> k_tick s' = k_tick s \<and>
     (\<forall>t ts. k_tmlists s' HardTimers = t # ts \<longrightarrow> \<not> due s' t)"
  using assms
proof (induction "length (filter (due s) (k_tmlists s HardTimers))" arbitrary: s rule: less_induct)
  case less
  show ?case
  proof (cases "k_tmlists s HardTimers")
    case Nil
    then show ?thesis using less.prems by (subst rt_timer_check.simps) simp
  next
    case (Cons t ts)
    show ?thesis
    proof (cases "due s t")
      case False
      then show ?thesis using less.prems Cons by (subst rt_timer_check.simps) simp
    next
      case True
      obtain s1 where s1: "timer_fire cb t s = Some s1" "sys_ok s1" "periods_ok s1" "k_tick s1 = k_tick s"
        "length (filter (due s1) (k_tmlists s1 HardTimers)) \<le> length (filter (due s) ts)"
        by (rule timer_fire_total [OF less.prems Cons]) (metis fewer_due)
      have "length (filter (due s1) (k_tmlists s1 HardTimers)) < length (filter (due s) (k_tmlists s HardTimers))"
        using s1(5) Cons True by simp
      from less.hyps [OF this s1(2) less.prems(2) s1(3)] show ?thesis
        using True Cons s1(1,4) by (subst rt_timer_check.simps) simp
    qed
  qed
qed

text \<open>With the list in order within the window, the clock comparison is the order of offsets.\<close>

definition window_ok :: "rt_uint32 \<Rightarrow> kstate \<Rightarrow> bool" where
  "window_ok b s \<longleftrightarrow> timers_ordered b (timeout s) (k_tmlists s HardTimers) \<and>
     unat (k_tick s - b) < 0x7FFFFFFF \<and>
     (\<forall>t \<in> set (k_tmlists s HardTimers). tflag s t AND RT_TIMER_FLAG_PERIODIC \<noteq> 0 \<longrightarrow>
        unat (k_tick s - b) + unat (tm_init_tick (k_timers s t)) < 0x7FFFFFFF)"

lemma due_offset:
  assumes "in_window b (timeout s) t" "unat (k_tick s - b) < 0x7FFFFFFF"
  shows "due s t \<longleftrightarrow> toff b (timeout s) t \<le> unat (k_tick s - b)"
proof -
  have "k_tick s - timeout s t = (k_tick s - b) - (timeout s t - b)" by simp
  then show ?thesis
    using unat_diff_window [of "k_tick s - b" "timeout s t - b"] assms
    by (simp add: due_def in_window_def toff_def word_le_nat_alt)
qed

lemma window_head_due:
  assumes w: "window_ok b s" and l: "k_tmlists s HardTimers = t # ts" and u: "u \<in> set ts" and d: "due s u"
  shows "due s t"
proof -
  have o: "timers_ordered b (timeout s) (t # ts)" and k: "unat (k_tick s - b) < 0x7FFFFFFF"
    using w l by (auto simp: window_ok_def)
  have "in_window b (timeout s) t" "in_window b (timeout s) u" "toff b (timeout s) t \<le> toff b (timeout s) u"
    using o u by (auto simp: timers_ordered_def)
  then show ?thesis using d due_offset [of b s] k by auto
qed

lemma timers_ordered_cong:
  "(\<And>t. t \<in> set ts \<Longrightarrow> tmo' t = tmo t) \<Longrightarrow> timers_ordered b tmo' ts = timers_ordered b tmo ts"
  unfolding timers_ordered_def in_window_def toff_def by (metis (mono_tags, lifting) map_cong)

lemma window_step:
  assumes w: "window_ok b s" and l: "k_tmlists s HardTimers = t # ts" and tick: "k_tick s' = k_tick s"
    and ts': "ts' = filter P ts"
    and same: "\<And>u. u \<in> set ts' \<Longrightarrow> k_timers s' u = k_timers s u \<and>
       tflag s' u AND RT_TIMER_FLAG_PERIODIC = tflag s u AND RT_TIMER_FLAG_PERIODIC"
    and alt: "k_tmlists s' HardTimers = ts' \<or> k_tmlists s' HardTimers = timer_insert (timeout s') t ts' \<and>
       timeout s' t = k_tick s + tm_init_tick (k_timers s t) \<and>
       tflag s t AND RT_TIMER_FLAG_PERIODIC \<noteq> 0 \<and> tm_init_tick (k_timers s' t) = tm_init_tick (k_timers s t)"
  shows "window_ok b s'"
proof -
  have sub: "set ts' \<subseteq> set ts" using ts' by auto
  have "timers_ordered b (timeout s) ts" and k: "unat (k_tick s - b) < 0x7FFFFFFF"
    using w l by (auto simp: window_ok_def timers_ordered_def)
  then have o: "timers_ordered b (timeout s) ts'" unfolding ts' by (auto simp: timers_ordered_def sorted_filter)
  have o': "timers_ordered b (timeout s') ts'"
    using o timers_ordered_cong [of ts' "timeout s'" "timeout s" b] same by simp
  have old: "\<forall>u \<in> set (t # ts'). tflag s u AND RT_TIMER_FLAG_PERIODIC \<noteq> 0 \<longrightarrow>
      unat (k_tick s - b) + unat (tm_init_tick (k_timers s u)) < 0x7FFFFFFF"
    using w l sub by (auto simp: window_ok_def)
  show ?thesis
  proof (cases "k_tmlists s' HardTimers = ts'")
    case True
    moreover have "\<forall>u \<in> set ts'. tflag s' u AND RT_TIMER_FLAG_PERIODIC \<noteq> 0 \<longrightarrow>
        unat (k_tick s' - b) + unat (tm_init_tick (k_timers s' u)) < 0x7FFFFFFF"
      using old same tick by simp
    ultimately show ?thesis using o' k tick by (simp add: window_ok_def)
  next
    case False
    then have a: "k_tmlists s' HardTimers = timer_insert (timeout s') t ts'"
      "timeout s' t = k_tick s + tm_init_tick (k_timers s t)" "tflag s t AND RT_TIMER_FLAG_PERIODIC \<noteq> 0"
      "tm_init_tick (k_timers s' t) = tm_init_tick (k_timers s t)"
      using alt by auto
    have room: "unat (k_tick s - b) + unat (tm_init_tick (k_timers s t)) < 0x7FFFFFFF"
      using w l a(3) by (simp add: window_ok_def)
    have e: "timeout s' t - b = (k_tick s - b) + tm_init_tick (k_timers s t)" using a(2) by simp
    have "toff b (timeout s') t = unat (k_tick s - b) + unat (tm_init_tick (k_timers s t))"
      unfolding toff_def e by (rule unat_add_small_32) (use room in simp)
    then have "in_window b (timeout s') t" using room by (simp add: in_window_def)
    then have "timers_ordered b (timeout s') (timer_insert (timeout s') t ts')" using o' timer_insert_ordered by blast
    moreover have "\<forall>u \<in> set (timer_insert (timeout s') t ts'). tflag s' u AND RT_TIMER_FLAG_PERIODIC \<noteq> 0 \<longrightarrow>
        unat (k_tick s' - b) + unat (tm_init_tick (k_timers s' u)) < 0x7FFFFFFF"
      using old same tick room a(4) by simp
    ultimately show ?thesis using a(1) k tick by (simp add: window_ok_def)
  qed
qed

text \<open>After the expiry loop no timer of the list is due.\<close>

lemma rt_timer_check_none_due:
  assumes "sys_ok s" "callback_ok cb" "periods_ok s" "window_ok b s"
  shows "\<exists>s'. rt_timer_check cb s = Some s' \<and> sys_ok s' \<and> window_ok b s' \<and>
     (\<forall>t \<in> set (k_tmlists s' HardTimers). \<not> due s' t)"
  using assms
proof (induction "length (filter (due s) (k_tmlists s HardTimers))" arbitrary: s rule: less_induct)
  case less
  show ?case
  proof (cases "k_tmlists s HardTimers")
    case Nil
    then show ?thesis using less.prems by (subst rt_timer_check.simps) simp
  next
    case (Cons t ts)
    show ?thesis
    proof (cases "due s t")
      case False
      then have "\<forall>u \<in> set (t # ts). \<not> due s u" using window_head_due [OF less.prems(4) Cons] by auto
      then show ?thesis using less.prems Cons False by (subst rt_timer_check.simps) simp
    next
      case True
      obtain s1 P ts' where s1: "timer_fire cb t s = Some s1" "sys_ok s1" "periods_ok s1" "k_tick s1 = k_tick s"
        "ts' = filter P ts"
        "\<And>u. u \<in> set ts' \<Longrightarrow> k_timers s1 u = k_timers s u \<and>
           tflag s1 u AND RT_TIMER_FLAG_PERIODIC = tflag s u AND RT_TIMER_FLAG_PERIODIC"
        "filter (due s1) (k_tmlists s1 HardTimers) = filter (due s) ts'"
        "k_tmlists s1 HardTimers = ts' \<or> k_tmlists s1 HardTimers = timer_insert (timeout s1) t ts' \<and>
           timeout s1 t = k_tick s + tm_init_tick (k_timers s t) \<and>
           tflag s t AND RT_TIMER_FLAG_PERIODIC \<noteq> 0 \<and> tm_init_tick (k_timers s1 t) = tm_init_tick (k_timers s t)"
        by (rule timer_fire_total [OF less.prems(1-3) Cons]) (rule that; assumption)
      have "length (filter (due s1) (k_tmlists s1 HardTimers)) < length (filter (due s) (k_tmlists s HardTimers))"
        using s1(5,7) Cons True fewer_due [of "due s" P ts] by simp
      from less.hyps [OF this s1(2) less.prems(2) s1(3) window_step [OF less.prems(4) Cons s1(4,5,6,8)]]
      show ?thesis using True Cons s1(1) by (subst rt_timer_check.simps) simp
    qed
  qed
qed

section \<open>Sleeping keeps the invariant\<close>

lemma kernel_ok_core: "kernel_ok s \<Longrightarrow> kinv {} s' \<Longrightarrow> core_frame s s' \<Longrightarrow> kernel_ok s'"
  using ttimers_ok_core by (auto simp: kernel_ok_def)

lemma kernel_ok_schedule [kernel_inv]: "kernel_ok s \<Longrightarrow> rt_schedule s = Some s' \<Longrightarrow> kernel_ok s'"
  using kernel_ok_core kinv_schedule core_frame_steps(3) kernel_okD(1) by metis

lemma kernel_ok_suspend [kernel_inv]: "kernel_ok s \<Longrightarrow> rt_thread_suspend t s = Some (e, s') \<Longrightarrow> kernel_ok s'"
  using kernel_ok_core kinv_thread_suspend(1) thread_suspend_frame(1) kernel_okD(1) by metis

lemma kernel_ok_resume [kernel_inv]: "kernel_ok s \<Longrightarrow> rt_thread_resume t s = Some (e, s') \<Longrightarrow> kernel_ok s'"
  using kernel_ok_core kinv_thread_resume thread_resume_frame kernel_okD(1) by metis

lemma kernel_ok_error [simp]: "kernel_ok s \<Longrightarrow> kernel_ok (upd_thread t (\<lambda>th. th\<lparr>th_error := e\<rparr>) s)"
  using kernel_ok_core kinv_upd_error core_frame_error kernel_okD(1) by metis

lemma start_thread_timer_ok:
  assumes ok: "kernel_ok s" and st: "tstat s t = RT_THREAD_SUSPEND"
    and r: "start_thread_timer t n s = Some s'"
  shows "kernel_ok s'" "core_frame s s'"
proof -
  obtain e1 a s1 e2 where s1: "rt_timer_control (ThreadTimer t) (TIMER_SET_TIME n) s = Some (e1, a, s1)"
    and s': "rt_timer_start (ThreadTimer t) s1 = Some (e2, s')"
    using r by (auto simp: start_thread_timer_def bind_Some_iff)
  note C = kinv_timer_control [OF kernel_okD(1) [OF ok] s1]
  have F1: "core_frame s s1" using C(3) ttimer_same_control [OF s1] by (rule core_frame_timer)
  have ok1: "kernel_ok s1" by (rule kernel_ok_core [OF ok C(1) F1])
  have st1: "tstat s1 t = RT_THREAD_SUSPEND" using st timer_frame_fields(1) [OF C(3)] by simp
  show "kernel_ok s'" by (rule kernel_ok_timer_start [OF ok1 _ s']) (use st1 in auto)
  have "core_frame s1 s'" by (rule kinv_timer_start(2) [OF ok1 _ s']) (use st1 in auto)
  then show "core_frame s s'" using F1 core_frame_trans by blast
qed

text \<open>The thread timer is a hard timer, so starting it leaves every thread and list as it is.\<close>

lemma start_thread_timer_threads:
  assumes ok: "kernel_ok s" and r: "start_thread_timer t n s = Some s'"
  shows "k_threads s' = k_threads s" "k_tlists s' = k_tlists s" "k_current s' = k_current s"
    "ThreadTimer t \<in> set (k_tmlists s' HardTimers)" "timeout s' (ThreadTimer t) = k_tick s + n"
proof -
  let ?s1 = "upd_timer (ThreadTimer t) (\<lambda>tm. tm\<lparr>tm_init_tick := n\<rparr>) s"
  let ?s2 = "timer_start_link (ThreadTimer t) ?s1"
  have ty: "rt_object_get_type (KTimer (ThreadTimer t)) s = RT_Object_Class_Timer"
    and st: "\<exists>e. rt_timer_start (ThreadTimer t) ?s1 = Some (e, s')"
    using r by (auto simp: start_thread_timer_def rt_timer_control_def bind_Some_iff)
  have "listed (KTimer (ThreadTimer t)) s"
    using listed_if_typed [OF kernel_okD(1) [OF ok], of "KTimer (ThreadTimer t)"] ty by simp
  then have hard: "tflag s (ThreadTimer t) AND 4 = 0" using kernel_okD(2) [OF ok] by (simp add: ttimers_ok_def)
  then have "tflag ?s2 (ThreadTimer t) AND 4 = 0"
    using timer_start_link_frame(2) [of ?s1 "ThreadTimer t"] by (simp add: ttimer_same_def)
  then have s': "s' = ?s2" using st by (auto simp: rt_timer_start_unfold Let_def)
  show "k_threads s' = k_threads s" "k_tlists s' = k_tlists s" "k_current s' = k_current s"
    using timer_frame_fields [OF timer_start_link_frame(1) [of ?s1 "ThreadTimer t"]] by (simp_all add: s')
  show "ThreadTimer t \<in> set (k_tmlists s' HardTimers)" "timeout s' (ThreadTimer t) = k_tick s + n"
    using hard by (simp_all add: s' timer_start_link_fields)
qed

lemma kernel_ok_sleep [kernel_inv]:
  assumes ok: "kernel_ok s" and r: "rt_thread_sleep n s = Some (out, s')"
    and run: "\<And>t. k_current s = Some t \<Longrightarrow> tstat s t = RT_THREAD_RUNNING"
  shows "kernel_ok s'"
proof -
  obtain t e1 s1 s2 where t: "k_current s = Some t" and s1: "rt_thread_suspend t s = Some (e1, s1)"
    and s2: "start_thread_timer t n s1 = Some s2" and s': "rt_schedule s2 = Some s'"
    using r by (auto simp: rt_thread_sleep_def rt_thread_self_def bind_Some_iff)
  note K = kinv_thread_suspend [OF kernel_okD(1) [OF ok] s1]
  have "e1 = RT_EOK" using K(3) run [OF t] by (auto simp: runnable_def)
  then have st: "tstat s1 t = RT_THREAD_SUSPEND" using K(2) by simp
  have "kernel_ok s1" using ok s1 by (rule kernel_ok_suspend)
  then have "kernel_ok s2" using st s2 by (rule start_thread_timer_ok)
  then show ?thesis using s' by (rule kernel_ok_schedule)
qed

lemma kernel_ok_sleep_resume [kernel_inv]:
  "kernel_ok s \<Longrightarrow> rt_thread_sleep_resume t s = (e, s') \<Longrightarrow> kernel_ok s'"
  by (auto simp: rt_thread_sleep_resume_def split: if_splits)

text \<open>One tick per millisecond in this configuration.\<close>

lemma rt_tick_from_millisecond_exact:
  assumes "0 \<le> ms"
  shows "rt_tick_from_millisecond ms = word_of_int ms"
proof -
  have "(1000 * (ms mod 1000) + 999) div 1000 = ms mod 1000" by simp
  then have "word_of_int (1000 * (ms div 1000)) + word_of_int ((1000 * (ms mod 1000) + 999) div 1000) =
      (word_of_int (1000 * (ms div 1000) + ms mod 1000) :: rt_uint32)"
    by (simp only: of_int_add)
  then show ?thesis using assms by (simp add: rt_tick_from_millisecond_def)
qed

section \<open>Properties\<close>

text \<open>
  C4: The scheduler is priority-preemptive and never stuck: in a running system that is not
  locked and has a thread to run, scheduling returns, keeps the system invariant, and leaves
  running a thread such that no ready thread has a higher priority.
\<close>

theorem rt_schedule_highest:
  assumes ok: "sys_ok s" and lock: "k_lock_nest s = 0" and c: "k_current s = Some c"
    and some: "tstat s c = RT_THREAD_RUNNING \<or> (\<exists>t. tstat s t = RT_THREAD_READY)"
  shows "\<exists>s' t. rt_schedule s = Some s' \<and> sys_ok s' \<and> k_current s' = Some t \<and> tstat s' t = RT_THREAD_RUNNING \<and>
     (\<forall>u. tstat s' u = RT_THREAD_READY \<longrightarrow> tprio s' t \<le> tprio s' u)"
proof -
  have p: "tprio s c < 32" using ok c by (auto simp: sys_ok_def)
  obtain s' t where s': "rt_schedule s = Some s'" "k_current s' = Some t" "tstat s' t = RT_THREAD_RUNNING"
    "\<And>u. tstat s' u = RT_THREAD_READY \<Longrightarrow> tprio s' t \<le> tprio s' u"
    by (rule rt_schedule_runs_highest [OF sys_okD(3) [OF ok] lock c some p])
      (use sys_okD(5) [OF ok] in \<open>auto simp: live_def\<close>)
  obtain s'' where "rt_schedule s = Some s''" "sys_ok s''" by (rule rt_schedule_total [OF ok])
  then show ?thesis using s' by auto
qed

end
