(* ===== verification/IpcBase.thy ===== *)
theory IpcBase
  imports TimerRun
begin

text \<open>
  The wait-list routines shared by the communication objects, \<^verbatim>\<open>src/ipc.c\<close>:
  suspending a thread on a list in arrival or priority order, resuming the first waiting
  thread, and resuming them all with an error.
\<close>

section \<open>Operations\<close>

text \<open>The search of the priority-ordered insertion.\<close>

fun prio_insert :: "(tid \<Rightarrow> rt_uint8) \<Rightarrow> tid \<Rightarrow> tid list \<Rightarrow> tid list" where
  "prio_insert pr t [] = [t]"
| "prio_insert pr t (x # xs) = (if pr t < pr x then t # x # xs else x # prio_insert pr t xs)"

definition wait_insert :: "kstate \<Rightarrow> rt_uint8 \<Rightarrow> tid \<Rightarrow> tid list \<Rightarrow> tid list" where
  "wait_insert s flag t ts =
     (if flag = RT_IPC_FLAG_FIFO then ts @ [t]
      else if flag = RT_IPC_FLAG_PRIO then prio_insert (\<lambda>u. th_current_priority (thread s u)) t ts
      else ts)"

definition rt_ipc_list_suspend :: "thead \<Rightarrow> tid \<Rightarrow> rt_uint8 \<Rightarrow> kstate \<Rightarrow> kstate option" where
  "rt_ipc_list_suspend h t flag s = do {
     (_, s) \<leftarrow> rt_thread_suspend t s;
     Some (s\<lparr>k_tlists := (k_tlists s)(h := wait_insert s flag t (k_tlists s h))\<rparr>)
   }"

definition rt_ipc_list_resume :: "thead \<Rightarrow> kstate \<Rightarrow> kstate option" where
  "rt_ipc_list_resume h s =
     (case k_tlists s h of
        [] \<Rightarrow> None
      | t # _ \<Rightarrow> do { (_, s) \<leftarrow> rt_thread_resume t s; Some s })"

partial_function (option) rt_ipc_list_resume_all :: "thead \<Rightarrow> kstate \<Rightarrow> kstate option" where
  "rt_ipc_list_resume_all h s =
     (case k_tlists s h of
        [] \<Rightarrow> Some s
      | t # _ \<Rightarrow> do {
          let s = upd_thread t (\<lambda>th. th\<lparr>th_error := - RT_ERROR\<rparr>) s;
          (_, s) \<leftarrow> rt_thread_resume t s;
          rt_ipc_list_resume_all h s
        })"

definition rt_ipc_object_init :: "kobj \<Rightarrow> kstate \<Rightarrow> kstate" where
  "rt_ipc_object_init k s = s\<lparr>k_tlists := (k_tlists s)(Susp k := [])\<rparr>"

text \<open>
  The waiting part the blocking operations share: suspend on the list, start the thread's timer
  when there is a time limit, give the processor away.
\<close>

definition wait_finish :: "tid \<Rightarrow> int \<Rightarrow> kstate \<Rightarrow> kstate option" where
  "wait_finish t time s = do {
     s \<leftarrow> (if 0 < time then start_thread_timer t (word_of_int time) s else Some s);
     rt_schedule s
   }"

definition wait_on :: "thead \<Rightarrow> tid \<Rightarrow> rt_uint8 \<Rightarrow> int \<Rightarrow> kstate \<Rightarrow> kstate option" where
  "wait_on h t flag time s = do {
     s \<leftarrow> rt_ipc_list_suspend h t flag s;
     wait_finish t time s
   }"

text \<open>Resume the first thread of a list, if there is one, and schedule.\<close>

definition wake_first :: "thead \<Rightarrow> kstate \<Rightarrow> kstate option" where
  "wake_first h s =
     (if k_tlists s h \<noteq> [] then do { s \<leftarrow> rt_ipc_list_resume h s; rt_schedule s } else Some s)"

text \<open>
  The waiting loops of mailboxes, message queues and memory pools run again with what is left of the
  time limit; \<open>start\<close> is the tick at which the thread was suspended.
\<close>

definition recalc_timeout :: "int \<Rightarrow> rt_uint32 \<Rightarrow> kstate \<Rightarrow> int" where
  "recalc_timeout time start s =
     (if 0 < time
      then (let tick_delta = rt_tick_get s - start;
                r = sint (word_of_int time - tick_delta :: rt_uint32)
            in if r < 0 then 0 else r)
      else time)"

lemma recalc_timeout_bounds:
  assumes "time < 0x7FFFFFFF"
  shows "recalc_timeout time start s < 0x80000000" "0 \<le> time \<Longrightarrow> 0 \<le> recalc_timeout time start s"
    "time < 0 \<Longrightarrow> recalc_timeout time start s = time"
    "unat (k_tick s - start) \<le> nat time \<Longrightarrow> 0 \<le> time \<Longrightarrow>
       recalc_timeout time start s = time - int (unat (k_tick s - start))"
proof -
  show "recalc_timeout time start s < 0x80000000"
    using assms sint_lt [of "word_of_int time - (k_tick s - start) :: rt_uint32"]
    by (auto simp: recalc_timeout_def Let_def rt_tick_get_def)
  show "0 \<le> time \<Longrightarrow> 0 \<le> recalc_timeout time start s" "time < 0 \<Longrightarrow> recalc_timeout time start s = time"
    by (auto simp: recalc_timeout_def Let_def)
  assume d: "unat (k_tick s - start) \<le> nat time" "0 \<le> time"
  have i: "int (unat (k_tick s - start)) \<le> time" using d by linarith
  have "sint (word_of_int time - (k_tick s - start) :: rt_uint32) =
      sint (word_of_int (time - int (unat (k_tick s - start))) :: rt_uint32)" by simp
  also have "\<dots> = time - int (unat (k_tick s - start))"
  proof -
    have b: "- (2 ^ 31) \<le> time - int (unat (k_tick s - start))" "time - int (unat (k_tick s - start)) < 2 ^ 31"
    proof -
      have "0 \<le> e \<Longrightarrow> e \<le> time \<Longrightarrow> - (2 ^ 31) \<le> time - e \<and> time - e < 2 ^ 31" for e
        using assms by simp
      from this [OF of_nat_0_le_iff i] show "- (2 ^ 31) \<le> time - int (unat (k_tick s - start))"
        "time - int (unat (k_tick s - start)) < 2 ^ 31" by (rule conjunct1, rule conjunct2)
    qed
    show ?thesis using signed_take_bit_int_eq_self [OF b] by (simp only: sint_sbintrunc') simp
  qed
  finally show "recalc_timeout time start s = time - int (unat (k_tick s - start))"
    using i d by (auto simp: recalc_timeout_def Let_def rt_tick_get_def)
qed

abbreviation (input) set_oflag :: "kobj \<Rightarrow> rt_uint8 \<Rightarrow> kstate \<Rightarrow> kstate" where
  "set_oflag k flag \<equiv> upd_obj k (\<lambda>ob. ob\<lparr>o_flag := flag\<rparr>)"

section \<open>Waiting order\<close>

lemma set_prio_insert [simp]: "set (prio_insert pr t xs) = insert t (set xs)"
  by (induction xs) auto

lemma sorted_prio_insert: "sorted (map pr xs) \<Longrightarrow> sorted (map pr (prio_insert pr t xs))"
  by (induction xs) fastforce+

text \<open>Behind every waiting thread of the same or a higher priority.\<close>

lemma prio_insert_split:
  "sorted (map pr xs) \<Longrightarrow>
     prio_insert pr t xs = filter (\<lambda>x. pr x \<le> pr t) xs @ t # filter (\<lambda>x. pr t < pr x) xs"
proof (induction xs)
  case (Cons x xs)
  show ?case
  proof (cases "pr t < pr x")
    case True
    then have "\<forall>y \<in> set (x # xs). pr t < pr y" using Cons.prems by (auto simp: less_le_trans)
    then have "filter (\<lambda>x. pr x \<le> pr t) (x # xs) = []" "filter (\<lambda>x. pr t < pr x) (x # xs) = x # xs"
      by (auto simp: filter_empty_conv filter_id_conv)
    then show ?thesis using True by simp
  next
    case False
    then show ?thesis using Cons by auto
  qed
qed simp

text \<open>
  What the communication objects rely on of a waiting discipline: the new thread is put somewhere
  in the list, and the threads already waiting keep their order.
\<close>

locale wait_discipline =
  fixes enq :: "tid \<Rightarrow> tid list \<Rightarrow> tid list" and ordered :: "tid list \<Rightarrow> bool"
  assumes enq_split: "\<exists>xs ys. ts = xs @ ys \<and> enq t ts = xs @ t # ys"
    and enq_ordered: "ordered ts \<Longrightarrow> ordered (enq t ts)"
begin

lemma set_enq: "set (enq t ts) = insert t (set ts)"
  using enq_split [of ts t] by auto

lemma distinct_enq: "distinct ts \<Longrightarrow> t \<notin> set ts \<Longrightarrow> distinct (enq t ts)"
  using enq_split [of ts t] by auto

lemma enq_keeps_order: "t \<notin> set ts \<Longrightarrow> removeAll t (enq t ts) = ts"
  using enq_split [of ts t] by auto

lemma set_enq_all: "set (fold enq us ts) = set us \<union> set ts"
  by (induction us arbitrary: ts) (auto simp: set_enq)

lemma ordered_enq_all: "ordered ts \<Longrightarrow> ordered (fold enq us ts)"
  by (induction us arbitrary: ts) (simp_all add: enq_ordered)

end

lemma prio_insert_append: "\<exists>xs ys. ts = xs @ ys \<and> prio_insert pr t ts = xs @ t # ys"
proof (induction ts)
  case (Cons x ts)
  then obtain xs ys where "ts = xs @ ys" "prio_insert pr t ts = xs @ t # ys" by auto
  then show ?case by (cases "pr t < pr x") (force intro: exI [of _ "x # xs"])+
qed simp

interpretation fifo: wait_discipline "\<lambda>t ts. ts @ [t]" "\<lambda>ts. True"
  by unfold_locales auto

interpretation prio: wait_discipline "prio_insert pr" "\<lambda>ts. sorted (map pr ts)"
  for pr :: "tid \<Rightarrow> rt_uint8"
  by unfold_locales (rule prio_insert_append, rule sorted_prio_insert)

lemma wait_insert_distinct: "distinct ts \<Longrightarrow> t \<notin> set ts \<Longrightarrow> distinct (wait_insert s flag t ts)"
  by (simp add: wait_insert_def prio.distinct_enq)

lemma wait_insert_cong:
  "(\<And>u. th_current_priority (thread s' u) = th_current_priority (thread s u)) \<Longrightarrow>
     wait_insert s' = wait_insert s"
  by (simp add: wait_insert_def fun_eq_iff)

lemma wait_insert_error [simp]:
  "wait_insert (upd_thread t (\<lambda>th. th\<lparr>th_error := e\<rparr>) s) = wait_insert s"
  by (rule wait_insert_cong) simp

section \<open>Suspending on a list\<close>

abbreviation ipc_flag_ok :: "rt_uint8 \<Rightarrow> bool" where
  "ipc_flag_ok flag \<equiv> flag = RT_IPC_FLAG_FIFO \<or> flag = RT_IPC_FLAG_PRIO"

lemma thread_suspend_effect:
  assumes "runnable (tstat s t)" "rt_thread_suspend t s = Some (e, s')"
  shows "e = RT_EOK" "k_tlists s' = tbl_remove t (k_tlists s)"
    "k_threads s' = (k_threads s)(t := with_stat RT_THREAD_SUSPEND (thread s t))"
proof -
  obtain s1 r1 where s1: "rt_schedule_remove_thread t s = Some s1" "e = RT_EOK"
    and s2: "rt_timer_stop (ThreadTimer t) (upd_thread t (with_stat RT_THREAD_SUSPEND) s1) = Some (r1, s')"
    using assms by (auto simp: rt_thread_suspend_def bind_Some_iff Let_def runnable_def)
  note F = timer_frame_fields [OF rt_timer_stop_frame [OF s2]]
  show "e = RT_EOK" by (rule s1(2))
  show "k_tlists s' = tbl_remove t (k_tlists s)"
    "k_threads s' = (k_threads s)(t := with_stat RT_THREAD_SUSPEND (thread s t))"
    using s1(1) F by (auto simp: rt_schedule_remove_thread_def Let_def)
qed

lemma runnable_not_waiting:
  assumes "sched_inv X s" "runnable (tstat s t)" "\<And>p. h \<noteq> Ready p"
  shows "t \<notin> set (k_tlists s h)"
  using sched_invD(5-7,12) [OF assms(1), of t] assms(2,3) by (cases h) (auto simp: runnable_def)

text \<open>Suspend a thread and put it on a wait list; \<open>ins\<close> is the place where.\<close>

lemma suspend_link_ok:
  assumes ok: "kernel_ok s" and run: "runnable (tstat s t)"
    and h: "wait_head h k" "head_target h k s"
    and ins: "\<forall>ts. set (ins ts) = insert t (set ts)" "\<forall>ts. distinct ts \<longrightarrow> t \<notin> set ts \<longrightarrow> distinct (ins ts)"
    and s1: "rt_thread_suspend t s = Some (e, s1)"
    and s': "s' = s1\<lparr>k_tlists := (k_tlists s1)(h := ins (k_tlists s1 h))\<rparr>"
  shows "kernel_ok s'" "core_frame s s'" "tstat s' t = RT_THREAD_SUSPEND" "k_current s' = k_current s"
    "k_tlists s' h = ins (k_tlists s h)"
    "\<And>j. j \<noteq> h \<Longrightarrow> \<forall>p. j \<noteq> Ready p \<Longrightarrow> k_tlists s' j = k_tlists s j"
    "\<And>u. u \<noteq> t \<Longrightarrow> thread s' u = thread s u" "th_error (thread s' t) = th_error (thread s t)"
proof -
  note E = thread_suspend_effect [OF run s1] and K = kinv_thread_suspend [OF kernel_okD(1) [OF ok] s1]
    and S = thread_suspend_frame [OF s1]
  have F: "core_frame s s1" by (rule S(1))
  have ok1: "kernel_ok s1" using ok s1 by (rule kernel_ok_suspend)
  have st: "tstat s1 t = RT_THREAD_SUSPEND" "unlinked t (k_tlists s1)" using K(2) E(1) by auto
  have keep: "k_tlists s1 j = k_tlists s j" if "\<forall>p. j \<noteq> Ready p" for j
    using runnable_not_waiting [OF kinvD(1) [OF kernel_okD(1) [OF ok]] run, of j] that by (simp add: E(2))
  have hh: "\<forall>p. h \<noteq> Ready p" using h(1) by (auto simp: wait_head_def)
  have reg: "listed (KThread t) s1" "head_target h k s1"
    using listed_if_live [OF kernel_okD(1) [OF ok], of t] run h(2) core_frame_fields(12) [OF F]
    by (auto simp: runnable_def)
  have wf: "table_wf (k_tlists s1)" using sched_invD(1) [OF kinvD(1) [OF kernel_okD(1) [OF ok1]]] .
  have "distinct (ins (k_tlists s1 h))" using wf st(2) by (intro ins(2) [rule_format]) (auto simp: table_wf_def unlinked_def)
  then have "kinv {} s'" unfolding s'
    by (intro kinv_link_waiting [OF kernel_okD(1) [OF ok1] st(2,1) h(1) reg(2,1)]
        table_wf_upd [OF wf _ _ st(2)]) (auto simp: ins(1))
  moreover show "core_frame s s'" unfolding s' using F core_frame_tlists core_frame_trans by blast
  ultimately show "kernel_ok s'" using kernel_ok_core [OF ok] by blast
  show "tstat s' t = RT_THREAD_SUSPEND" "k_current s' = k_current s" using st S(2) by (simp_all add: s')
  show "k_tlists s' h = ins (k_tlists s h)" using keep [OF hh] by (simp add: s')
  show "k_tlists s' j = k_tlists s j" if "j \<noteq> h" "\<forall>p. j \<noteq> Ready p" for j using that keep by (simp add: s')
  show "thread s' u = thread s u" if "u \<noteq> t" for u using that by (simp add: s' E(3))
  show "th_error (thread s' t) = th_error (thread s t)" by (simp add: s' E(3))
qed

lemma ipc_list_suspend_ok:
  assumes ok: "kernel_ok s" and run: "runnable (tstat s t)"
    and h: "wait_head h k" "head_target h k s" and fl: "ipc_flag_ok flag"
    and r: "rt_ipc_list_suspend h t flag s = Some s'"
  shows "kernel_ok s'" "core_frame s s'" "tstat s' t = RT_THREAD_SUSPEND" "k_current s' = k_current s"
    "k_tlists s' h = wait_insert s flag t (k_tlists s h)"
    "\<And>j. j \<noteq> h \<Longrightarrow> \<forall>p. j \<noteq> Ready p \<Longrightarrow> k_tlists s' j = k_tlists s j"
    "\<And>u. u \<noteq> t \<Longrightarrow> thread s' u = thread s u" "th_error (thread s' t) = th_error (thread s t)"
proof -
  obtain e s1 where s1: "rt_thread_suspend t s = Some (e, s1)"
    and s': "s' = s1\<lparr>k_tlists := (k_tlists s1)(h := wait_insert s1 flag t (k_tlists s1 h))\<rparr>"
    using r by (auto simp: rt_ipc_list_suspend_def bind_Some_iff)
  have "wait_insert s1 = wait_insert s"
    by (rule wait_insert_cong) (rule core_frame_thread(1) [OF thread_suspend_frame(1) [OF s1]])
  then have s'': "s' = s1\<lparr>k_tlists := (k_tlists s1)(h := wait_insert s flag t (k_tlists s1 h))\<rparr>" using s' by simp
  have ins: "\<forall>ts. set (wait_insert s flag t ts) = insert t (set ts)"
    "\<forall>ts. distinct ts \<longrightarrow> t \<notin> set ts \<longrightarrow> distinct (wait_insert s flag t ts)"
    using fl wait_insert_distinct by (auto simp: wait_insert_def)
  note L = suspend_link_ok [OF ok run h ins s1 s'']
  show "kernel_ok s'" "core_frame s s'" "tstat s' t = RT_THREAD_SUSPEND" "k_current s' = k_current s"
    "k_tlists s' h = wait_insert s flag t (k_tlists s h)" "th_error (thread s' t) = th_error (thread s t)"
    using L(1-5,8) by simp_all
  show "k_tlists s' j = k_tlists s j" if "j \<noteq> h" "\<forall>p. j \<noteq> Ready p" for j using that by (rule L(6))
  show "thread s' u = thread s u" if "u \<noteq> t" for u using that by (rule L(7))
qed

section \<open>Resuming waiting threads\<close>

text \<open>Resuming a suspended thread always succeeds.\<close>

lemma rt_thread_resume_total:
  assumes ok: "kernel_ok s" and st: "tstat s t = RT_THREAD_SUSPEND"
  obtains s' where "rt_thread_resume t s = Some (RT_EOK, s')" "kernel_ok s'" "core_frame s s'"
    "k_current s' = k_current s"
    "k_threads s' = (k_threads s)(t :=
       with_stat (if k_current s = Some t then RT_THREAD_RUNNING else RT_THREAD_READY) (thread s t))"
    "\<And>h. \<forall>p. h \<noteq> Ready p \<Longrightarrow> k_tlists s' h = removeAll t (k_tlists s h)"
proof -
  note inv = kernel_okD(1) [OF ok]
  let ?s1 = "s\<lparr>k_tlists := tbl_remove t (k_tlists s)\<rparr>"
  have reg: "listed (KThread t) s" "listed (KTimer (ThreadTimer t)) s"
    using listed_if_live [OF inv, of t] timer_listed_if_live [OF inv, of t] st by auto
  have ty: "rt_object_get_type (KThread t) s = RT_Object_Class_Thread"
    "rt_object_get_type (KTimer (ThreadTimer t)) s = RT_Object_Class_Timer"
    using type_if_listed [OF inv reg(1)] type_if_listed [OF inv reg(2)] by auto
  have pr: "tprio s t < 32" using prio_ok_number_mask [OF sched_invD(8) [OF kinvD(1) [OF inv]], of t] st by simp
  obtain r2 s2 where s2: "rt_timer_stop (ThreadTimer t) ?s1 = Some (r2, s2)"
    using ty(2) by (cases "tflag s (ThreadTimer t) AND 1 = 0")
      (auto simp: rt_timer_stop_def Let_def rt_object_get_type_def)
  note F = timer_frame_fields [OF rt_timer_stop_frame [OF s2]]
  obtain s3 where s3: "rt_schedule_insert_thread t s2 = Some s3" "k_current s3 = k_current s"
    "k_threads s3 = (k_threads s)(t :=
       with_stat (if k_current s = Some t then RT_THREAD_RUNNING else RT_THREAD_READY) (thread s t))"
    "\<And>h. \<forall>p. h \<noteq> Ready p \<Longrightarrow> k_tlists s3 h = removeAll t (k_tlists s h)"
    using pr F by (cases "k_current s = Some t") (auto simp: rt_schedule_insert_thread_def Let_def)
  have r: "rt_thread_resume t s = Some (RT_EOK, s3)"
    using ty st s2 s3(1) by (simp add: rt_thread_resume_def Let_def)
  show thesis using that [OF r kernel_ok_resume [OF ok r] thread_resume_frame [OF r] s3(2,3,4)] by blast
qed

lemma ipc_list_resume_total:
  assumes ok: "kernel_ok s" and h: "wait_head h k" and l: "k_tlists s h = t # ts"
  obtains s' where "rt_ipc_list_resume h s = Some s'" "kernel_ok s'" "core_frame s s'"
    "k_current s' = k_current s" "k_tlists s' h = ts"
    "\<And>j. j \<noteq> h \<Longrightarrow> \<forall>p. j \<noteq> Ready p \<Longrightarrow> k_tlists s' j = k_tlists s j"
    "k_threads s' = (k_threads s)(t :=
       with_stat (if k_current s = Some t then RT_THREAD_RUNNING else RT_THREAD_READY) (thread s t))"
proof -
  note S = sched_invD [OF kinvD(1) [OF kernel_okD(1) [OF ok]]]
  have st: "tstat s t = RT_THREAD_SUSPEND"
  proof -
    have "t \<in> set (k_tlists s h)" using l by simp
    then show ?thesis using h S(5,6,12) [of t] unfolding wait_head_def by blast
  qed
  have hh: "\<forall>p. h \<noteq> Ready p" using h by (auto simp: wait_head_def)
  obtain s' where s': "rt_thread_resume t s = Some (RT_EOK, s')" "kernel_ok s'" "core_frame s s'"
    "k_current s' = k_current s"
    "k_threads s' = (k_threads s)(t :=
       with_stat (if k_current s = Some t then RT_THREAD_RUNNING else RT_THREAD_READY) (thread s t))"
    "\<And>h. \<forall>p. h \<noteq> Ready p \<Longrightarrow> k_tlists s' h = removeAll t (k_tlists s h)"
    by (rule rt_thread_resume_total [OF ok st]) (rule that; assumption)
  have r: "rt_ipc_list_resume h s = Some s'" using l s'(1) by (simp add: rt_ipc_list_resume_def)
  have "distinct (t # ts)" using S(1) l by (metis table_wf_def)
  then have "k_tlists s' h = ts" using s'(6) [OF hh] l by simp
  moreover have "k_tlists s' j = k_tlists s j" if "j \<noteq> h" "\<forall>p. j \<noteq> Ready p" for j
  proof -
    have "t \<notin> set (k_tlists s j)"
      using table_wf_at_most_one [OF S(1), of t h j] l that(1) by auto
    then show ?thesis using s'(6) [OF that(2)] by simp
  qed
  ultimately show thesis using that [OF r s'(2,3,4) _ _ s'(5)] by blast
qed

text \<open>All waiting threads are resumed, with the error code, and the loop ends.\<close>

lemma ipc_list_resume_all_total:
  assumes "kernel_ok s" "wait_head h k"
  shows "\<exists>s'. rt_ipc_list_resume_all h s = Some s' \<and> kernel_ok s' \<and> core_frame s s' \<and>
     k_tlists s' h = [] \<and> k_current s' = k_current s \<and>
     (\<forall>j. j \<noteq> h \<longrightarrow> (\<forall>p. j \<noteq> Ready p) \<longrightarrow> k_tlists s' j = k_tlists s j) \<and>
     (\<forall>t \<in> set (k_tlists s h). runnable (tstat s' t) \<and> th_error (thread s' t) = - RT_ERROR) \<and>
     (\<forall>t. t \<notin> set (k_tlists s h) \<longrightarrow> thread s' t = thread s t)"
  using assms(1)
proof (induction "k_tlists s h" arbitrary: s)
  case Nil
  then show ?case by (subst rt_ipc_list_resume_all.simps) auto
next
  case (Cons t ts)
  let ?s1 = "upd_thread t (\<lambda>th. th\<lparr>th_error := - RT_ERROR\<rparr>) s"
  have ok1: "kernel_ok ?s1" using Cons.prems by simp
  have l1: "k_tlists ?s1 h = t # ts" using Cons.hyps(2) by simp
  obtain s2 where s2: "rt_ipc_list_resume h ?s1 = Some s2" "kernel_ok s2" "core_frame ?s1 s2"
    "k_current s2 = k_current ?s1" "k_tlists s2 h = ts"
    "\<And>j. j \<noteq> h \<Longrightarrow> \<forall>p. j \<noteq> Ready p \<Longrightarrow> k_tlists s2 j = k_tlists ?s1 j"
    "k_threads s2 = (k_threads ?s1)(t :=
       with_stat (if k_current ?s1 = Some t then RT_THREAD_RUNNING else RT_THREAD_READY) (thread ?s1 t))"
    by (rule ipc_list_resume_total [OF ok1 assms(2) l1]) (rule that; assumption)
  obtain s' where s': "rt_ipc_list_resume_all h s2 = Some s'" "kernel_ok s'" "core_frame s2 s'"
    "k_tlists s' h = []" "k_current s' = k_current s2"
    "\<forall>j. j \<noteq> h \<longrightarrow> (\<forall>p. j \<noteq> Ready p) \<longrightarrow> k_tlists s' j = k_tlists s2 j"
    "\<forall>t \<in> set ts. runnable (tstat s' t) \<and> th_error (thread s' t) = - RT_ERROR"
    "\<forall>t. t \<notin> set ts \<longrightarrow> thread s' t = thread s2 t"
    using Cons.hyps(1) [OF s2(5) [symmetric] s2(2)] s2(5) by auto
  have dist: "distinct (t # ts)"
    using sched_invD(1) [OF kinvD(1) [OF kernel_okD(1) [OF Cons.prems]]] Cons.hyps(2) by (metis table_wf_def)
  have step: "rt_ipc_list_resume_all h s = rt_ipc_list_resume_all h s2"
    using s2(1) l1 Cons.hyps(2) [symmetric]
    by (subst rt_ipc_list_resume_all.simps) (auto simp: rt_ipc_list_resume_def bind_Some_iff split: option.splits)
  have F: "core_frame s s'" using core_frame_error s2(3) s'(3) core_frame_trans by blast
  have t: "runnable (tstat s' t) \<and> th_error (thread s' t) = - RT_ERROR"
    using s'(8) dist s2(7) by (simp add: runnable_def rt_flag_simps)
  have others: "thread s' u = thread s u" if "u \<notin> set (t # ts)" for u
    using s'(8) that s2(7) by simp
  show ?case using step s' F t others s2(4,6) Cons.hyps(2) [symmetric] by auto
qed

section \<open>Waiting\<close>

text \<open>A suspended thread starts its timer and gives the processor away.\<close>

lemma wait_finish_ok:
  assumes ok: "kernel_ok s" and st: "tstat s t = RT_THREAD_SUSPEND" and r: "wait_finish t time s = Some s'"
  shows "kernel_ok s'" "core_frame s s'" "\<And>h. \<forall>p. h \<noteq> Ready p \<Longrightarrow> k_tlists s' h = k_tlists s h"
    "tstat s' t = RT_THREAD_SUSPEND" "\<And>u. th_error (thread s' u) = th_error (thread s u)"
    "\<And>u. tstat s' u = tstat s u \<or> runnable (tstat s' u) \<and> runnable (tstat s u)"
proof -
  obtain s2 where s2: "(if 0 < time then start_thread_timer t (word_of_int time) s else Some s) = Some s2"
    and s': "rt_schedule s2 = Some s'"
    using r by (auto simp: wait_finish_def bind_Some_iff)
  have 2: "kernel_ok s2" "core_frame s s2" "k_threads s2 = k_threads s" "k_tlists s2 = k_tlists s"
    using s2 start_thread_timer_ok [OF ok st] start_thread_timer_threads [OF ok] ok by (auto split: if_splits)
  show "kernel_ok s'" using 2(1) s' by (rule kernel_ok_schedule)
  show "core_frame s s'" using 2(2) core_frame_steps(3) [OF s'] core_frame_trans by blast
  have step: "sched_step s2 s'" by (rule rt_schedule_step [OF kinvD(1) [OF kernel_okD(1) [OF 2(1)]] s'])
  show "k_tlists s' h = k_tlists s h" if "\<forall>p. h \<noteq> Ready p" for h using step that 2(4) by (simp add: sched_step_def)
  show any: "tstat s' u = tstat s u \<or> runnable (tstat s' u) \<and> runnable (tstat s u)" for u
  proof -
    have "tstat s' u = tstat s2 u \<or> runnable (tstat s' u) \<and> runnable (tstat s2 u)"
      using step by (simp add: sched_step_def)
    then show ?thesis using 2(3) by simp
  qed
  show "tstat s' t = RT_THREAD_SUSPEND" using any [of t] st by (auto simp: runnable_def)
  have "sched_frame s2 s'" using step by (simp add: sched_step_def)
  then show "th_error (thread s' u) = th_error (thread s u)" for u using 2(3) by (simp add: sched_frame_thread)
qed

lemma wait_on_ok:
  assumes ok: "kernel_ok s" and run: "runnable (tstat s t)"
    and h: "wait_head h k" "head_target h k s" and fl: "ipc_flag_ok flag"
    and r: "wait_on h t flag time s = Some s'"
  shows "kernel_ok s'" "core_frame s s'" "k_tlists s' h = wait_insert s flag t (k_tlists s h)"
    "\<And>j. j \<noteq> h \<Longrightarrow> \<forall>p. j \<noteq> Ready p \<Longrightarrow> k_tlists s' j = k_tlists s j"
    "tstat s' t = RT_THREAD_SUSPEND" "th_error (thread s' t) = th_error (thread s t)"
    "\<And>u. u \<noteq> t \<Longrightarrow> tstat s' u = tstat s u \<or> runnable (tstat s' u) \<and> runnable (tstat s u)"
proof -
  obtain s1 where s1: "rt_ipc_list_suspend h t flag s = Some s1" and s': "wait_finish t time s1 = Some s'"
    using r by (auto simp: wait_on_def bind_Some_iff)
  note L = ipc_list_suspend_ok [OF ok run h fl s1]
  note W = wait_finish_ok [OF L(1,3) s']
  have hh: "\<forall>p. h \<noteq> Ready p" using h(1) by (auto simp: wait_head_def)
  show "kernel_ok s'" "tstat s' t = RT_THREAD_SUSPEND" by (rule W(1), rule W(4))
  show "core_frame s s'" by (rule core_frame_trans [OF L(2) W(2)])
  show "k_tlists s' h = wait_insert s flag t (k_tlists s h)" using W(3) [OF hh] L(5) by simp
  show "k_tlists s' j = k_tlists s j" if "j \<noteq> h" "\<forall>p. j \<noteq> Ready p" for j using W(3) [OF that(2)] L(6) [OF that] by simp
  show "th_error (thread s' t) = th_error (thread s t)" using W(5) L(8) by simp
  show "tstat s' u = tstat s u \<or> runnable (tstat s' u) \<and> runnable (tstat s u)" if "u \<noteq> t" for u
    using W(6) [of u] L(7) [OF that] by simp
qed

section \<open>Creating and removing communication objects\<close>

lemma exit_critical_tlists:
  assumes "sched_wf s" "rt_exit_critical s = Some s'" "\<forall>p. h \<noteq> Ready p"
  shows "k_tlists s' h = k_tlists s h"
proof -
  have wf: "sched_wf (s\<lparr>k_lock_nest := n\<rparr>)" for n using assms(1) by (simp add: sched_inv_def)
  show ?thesis using assms(2,3) rt_schedule_step [OF wf [of 0]]
    by (auto simp: rt_exit_critical_def Let_def sched_step_def split: if_splits)
qed

lemma waitable_plain: "waitable k \<Longrightarrow> k \<noteq> KThread t" "waitable k \<Longrightarrow> k \<noteq> KTimer u"
  by auto

lemma object_init_plain_ok:
  assumes ok: "kernel_ok s" and k: "\<And>t. k \<noteq> KThread t" "\<And>t. k \<noteq> KTimer t" and r: "rt_object_init k (class_of k) name s = Some s'"
  shows "kernel_ok s'" "k_tlists s' (Susp k) = []" "k_tlists s' (SuspSender k) = []" "listed k s'"
    "rt_object_get_type k s' = class_of k" "rt_object_is_systemobject k s'" "\<not> listed k s"
proof -
  note inv = kernel_okD(1) [OF ok]
  note O = kinv_object_init [OF inv _ r, simplified]
  have no: "thread_of k = {}" "\<And>t. k \<noteq> KTimer t" using k by (cases k; simp)+
  have tm: "tflag s' t = tflag s t" for t using O(10) [of "KTimer t"] no(2) [of t] by metis
  obtain s1 where s1: "rt_exit_critical (rt_enter_critical s) = Some s1"
    "k_olists s' = tbl_push (class_of k) k (k_olists s1)" "k_tlists s' = k_tlists s1"
    using r by (auto simp: rt_object_init_def bind_Some_iff Let_def rt_object_get_information_def
        split: if_splits)
  have ol: "k_olists s' = tbl_push (class_of k) k (k_olists s)"
    using s1(2) sched_frame_lock_step [OF s1(1)] by simp
  have li: "listed (KTimer t) s' \<longleftrightarrow> listed (KTimer t) s" for t
    using no(2) [of t] unfolding ol by (auto simp: tbl_push_def)
  have "ttimers_ok s'" using kernel_okD(2) [OF ok] unfolding ttimers_ok_def tm li O(8) .
  then show "kernel_ok s'" using O(1) no(1) by (simp add: kernel_ok_def)
  show "listed k s'" "rt_object_get_type k s' = class_of k" "rt_object_is_systemobject k s'" "\<not> listed k s"
    using O by auto
  have "\<not> wait_target k (k_olists s)" using O(4) by (simp add: wait_target_def)
  then have e: "k_tlists s (Susp k) = []" "k_tlists s (SuspSender k) = []"
    using reg_invD(5,6) [OF kinvD(4) [OF inv]] by auto
  have wf: "sched_wf (rt_enter_critical s)"
    using kinvD(1) [of "{}" "rt_enter_critical s"] inv by simp
  have "k_tlists s' h = k_tlists s h" if "\<forall>p. h \<noteq> Ready p" for h
    using exit_critical_tlists [OF wf s1(1) that] s1(3) by (simp add: rt_enter_critical_def)
  then show "k_tlists s' (Susp k) = []" "k_tlists s' (SuspSender k) = []" using e by auto
qed

lemma object_init_ok:
  assumes "kernel_ok s" "waitable k" "rt_object_init k (class_of k) name s = Some s'"
  shows "kernel_ok s'" "k_tlists s' (Susp k) = []" "k_tlists s' (SuspSender k) = []" "listed k s'"
    "rt_object_get_type k s' = class_of k" "rt_object_is_systemobject k s'" "\<not> listed k s"
  using object_init_plain_ok [OF assms(1) waitable_plain [OF assms(2)] assms(3)] by blast+

lemma ipc_object_init_same: "k_tlists s (Susp k) = [] \<Longrightarrow> rt_ipc_object_init k s = s"
  by (simp add: rt_ipc_object_init_def fun_upd_idem)

lemma kernel_ok_cong:
  assumes "k_threads s' = k_threads s" "k_timers s' = k_timers s" "k_objs s' = k_objs s"
    "k_olists s' = k_olists s" "k_tlists s' = k_tlists s" "k_tmlists s' = k_tmlists s"
    "k_ready_group s' = k_ready_group s" "k_current s' = k_current s"
  shows "kernel_ok s' = kernel_ok s"
  using kinv_cong [OF assms] assms by (simp add: kernel_ok_def ttimers_ok_def)

lemma kernel_ok_fields [simp]:
  "kernel_ok (s\<lparr>k_sems := a\<rparr>) = kernel_ok s" "kernel_ok (s\<lparr>k_mutexes := b\<rparr>) = kernel_ok s"
  "kernel_ok (s\<lparr>k_events := c\<rparr>) = kernel_ok s" "kernel_ok (s\<lparr>k_mailboxes := d\<rparr>) = kernel_ok s"
  "kernel_ok (s\<lparr>k_mqs := e\<rparr>) = kernel_ok s" "kernel_ok (s\<lparr>k_pools := f\<rparr>) = kernel_ok s"
  "kernel_ok (s\<lparr>k_links := g\<rparr>) = kernel_ok s" "kernel_ok (s\<lparr>k_mem := h\<rparr>) = kernel_ok s"
  "kernel_ok (s\<lparr>k_tick := l\<rparr>) = kernel_ok s" "kernel_ok (s\<lparr>k_irq_nest := j\<rparr>) = kernel_ok s"
  "kernel_ok (s\<lparr>k_lock_nest := i\<rparr>) = kernel_ok s" "kernel_ok (s\<lparr>k_freed := n\<rparr>) = kernel_ok s"
  "kernel_ok (s\<lparr>k_errno := m\<rparr>) = kernel_ok s"
  by (rule kernel_ok_cong; simp)+

lemma kernel_ok_upd_flag:
  assumes ok: "kernel_ok s" and k: "waitable k"
  shows "kernel_ok (upd_obj k (\<lambda>ob. ob\<lparr>o_flag := f\<rparr>) s)"
proof -
  let ?s = "upd_obj k (\<lambda>ob. ob\<lparr>o_flag := f\<rparr>) s"
  have no: "\<And>t. k \<noteq> KTimer t" using k by auto
  then have fl: "tflag ?s t = tflag s t" for t by (auto dest: sym)
  note D = kinvD [OF kernel_okD(1) [OF ok]]
  have "sched_wf ?s" using D(1) sched_inv_cong [of ?s s "{}"] by simp
  moreover have "timers_inv {} ?s" using D(2) unfolding timers_inv_def fl by simp
  moreover have "objs_wf ?s" using D(3) by (auto simp: objs_wf_def rt_object_get_type_def)
  moreover have "reg_inv {} ?s" using D(4) by (simp add: reg_inv_def)
  moreover have "ttimers_ok ?s" using kernel_okD(2) [OF ok] unfolding ttimers_ok_def fl by simp
  ultimately show ?thesis by (simp add: kernel_ok_def kinv_def)
qed

lemma ttimers_ok_drop:
  assumes "ttimers_ok s" "\<And>t. k \<noteq> KTimer t" "k_timers s' = k_timers s"
    "k_objs s' = (k_objs s)(k := ob)" "k_olists s' = tbl_remove k (k_olists s)"
  shows "ttimers_ok s'"
  using assms by (auto simp: ttimers_ok_def)

lemma object_detach_ok:
  assumes ok: "kernel_ok s" and k: "waitable k"
    and e: "k_tlists s (Susp k) = []" "k_tlists s (SuspSender k) = []"
  shows "kernel_ok (rt_object_detach k s)" "\<not> listed k (rt_object_detach k s)"
proof -
  have q: "quiescent {} k s" using k e by (cases k) (auto simp: quiescent_def)
  have "\<And>t. k \<noteq> KTimer t" using k by auto
  then have "ttimers_ok (rt_object_detach k s)"
    by (rule ttimers_ok_drop [OF kernel_okD(2) [OF ok], of k _ "(k_objs s k)\<lparr>o_type := 0\<rparr>"])
      (simp_all add: rt_object_detach_def Let_def)
  then show "kernel_ok (rt_object_detach k s)"
    using kinv_object_detach [OF kernel_okD(1) [OF ok] q] by (simp add: kernel_ok_def)
  show "\<not> listed k (rt_object_detach k s)" by (simp add: rt_object_detach_def Let_def)
qed

lemma object_delete_ok:
  assumes ok: "kernel_ok s" and k: "waitable k"
    and e: "k_tlists s (Susp k) = []" "k_tlists s (SuspSender k) = []" and r: "rt_object_delete k s = Some s'"
  shows "kernel_ok s'" "\<not> listed k s'" "k \<in> set (k_freed s')"
proof -
  have q: "quiescent {} k s" using k e by (cases k) (auto simp: quiescent_def)
  have "\<And>t. k \<noteq> KTimer t" using k by auto
  then have "ttimers_ok s'"
    by (rule ttimers_ok_drop [OF kernel_okD(2) [OF ok], of k _ "(k_objs s k)\<lparr>o_type := 0\<rparr>"])
      (use r in \<open>auto simp: rt_object_delete_def Let_def\<close>)
  then show "kernel_ok s'" using kinv_object_delete [OF kernel_okD(1) [OF ok] q r] by (simp add: kernel_ok_def)
  show "\<not> listed k s'" "k \<in> set (k_freed s')" using r by (auto simp: rt_object_delete_def Let_def)
qed

lemma clear_object_fields:
  assumes "waitable k"
  shows "k_threads (clear_object k s) = k_threads s" "k_timers (clear_object k s) = k_timers s"
    "k_objs (clear_object k s) = k_objs s" "k_olists (clear_object k s) = k_olists s"
    "k_tlists (clear_object k s) = k_tlists s" "k_tmlists (clear_object k s) = k_tmlists s"
    "k_ready_group (clear_object k s) = k_ready_group s" "k_current (clear_object k s) = k_current s"
    "k_mem (clear_object k s) = k_mem s" "k_irq_nest (clear_object k s) = k_irq_nest s"
  using assms by (cases k; simp)+

text \<open>Allocating an object in memory that is not in use.\<close>

lemma object_allocate_ok:
  assumes ok: "kernel_ok s" and k: "waitable k" and fresh: "\<not> listed k s"
    and r: "rt_object_allocate (class_of k) name (Some k) s = Some (a, s')"
  shows "kernel_ok s'" "a = Some k" "listed k s'" "k_tlists s' (Susp k) = []" "k_tlists s' (SuspSender k) = []"
    "rt_object_get_type k s' = class_of k" "\<not> rt_object_is_systemobject k s'" "k_tlists s' = k_tlists s"
proof -
  let ?s0 = "upd_obj k (\<lambda>ob. ob\<lparr>o_flag := 0\<rparr>) (clear_object k s)"
  let ?ob = "\<lparr>o_name = rt_strncpy name 8, o_type = class_of k, o_flag = 0\<rparr>"
  note C = clear_object_fields [OF k, of s]
  have no: "\<And>t. k \<noteq> KTimer t" "thread_of k = {}" using k by (cases k; simp)+
  have cls: "class_of k \<in> set object_container" by (cases k) (simp_all add: object_container_def)
  have ok0: "kernel_ok ?s0" by (rule kernel_ok_upd_flag [OF _ k]) (use ok kernel_ok_cong [OF C(1-8)] in simp)
  have s': "s' = (clear_object k s)\<lparr>k_objs := (k_objs s)(k := ?ob),
      k_olists := tbl_push (class_of k) k (k_olists s)\<rparr>" and a: "a = Some k"
    using r C by (auto simp: rt_object_allocate_def bind_Some_iff Let_def upd_obj_def zero_object_def
        rt_object_get_information_def split: if_splits)
  show "a = Some k" by (rule a)
  have "kinv {} s'"
    by (rule kinv_push_object [OF kernel_okD(1) [OF ok0], of k _ ?ob])
      (use fresh no(2) cls C in \<open>auto simp: s' rt_flag_simps fun_upd_twist\<close>)
  moreover have "ttimers_ok s'"
    using kernel_okD(2) [OF ok] no(1) C by (auto simp: ttimers_ok_def s' tbl_push_def)
  ultimately show "kernel_ok s'" by (simp add: kernel_ok_def)
  show "listed k s'" by (simp add: s' tbl_push_def)
  show tl: "k_tlists s' = k_tlists s" using C by (simp add: s')
  have "\<not> wait_target k (k_olists s)" using fresh by (simp add: wait_target_def)
  then show "k_tlists s' (Susp k) = []" "k_tlists s' (SuspSender k) = []"
    using reg_invD(5,6) [OF kinvD(4) [OF kernel_okD(1) [OF ok]]] by (auto simp: tl)
  show "rt_object_get_type k s' = class_of k" "\<not> rt_object_is_systemobject k s'"
    using cls by (simp_all add: s' rt_object_get_type_def rt_object_is_systemobject_def rt_flag_simps)
qed

section \<open>In a running system waiting and waking return\<close>

lemma thread_suspend_total:
  assumes ok: "kernel_ok s" and run: "tstat s t = RT_THREAD_RUNNING"
  obtains s' where "rt_thread_suspend t s = Some (RT_EOK, s')"
proof -
  note inv = kernel_okD(1) [OF ok]
  have reg: "listed (KThread t) s" "listed (KTimer (ThreadTimer t)) s"
    using listed_if_live [OF inv, of t] timer_listed_if_live [OF inv, of t] run by auto
  have ty: "rt_object_get_type (KThread t) s = RT_Object_Class_Thread"
    "rt_object_get_type (KTimer (ThreadTimer t)) s = RT_Object_Class_Timer"
    using type_if_listed [OF inv reg(1)] type_if_listed [OF inv reg(2)] by auto
  have pr: "tprio s t < 32" using prio_ok_number_mask [OF sched_invD(8) [OF kinvD(1) [OF inv]], of t] run by simp
  then obtain s1 where s1: "rt_schedule_remove_thread t s = Some s1" "k_objs s1 = k_objs s"
    by (auto simp: rt_schedule_remove_thread_def Let_def)
  obtain r s2 where "rt_timer_stop (ThreadTimer t) (upd_thread t (with_stat RT_THREAD_SUSPEND) s1) = Some (r, s2)"
    using ty(2) s1(2) by (cases "tflag s (ThreadTimer t) AND 1 = 0")
      (auto simp: rt_timer_stop_def Let_def rt_object_get_type_def)
  then show thesis
    using that ty(1) run s1(1) sched_invD(10) [OF kinvD(1) [OF inv], of t]
    by (auto simp: rt_thread_suspend_def rt_thread_self_def Let_def)
qed

lemma start_thread_timer_total:
  assumes ok: "kernel_ok s" and st: "live (tstat s t)" and n: "n < RT_TICK_HALF"
  obtains s' where "start_thread_timer t n s = Some s'"
proof -
  note inv = kernel_okD(1) [OF ok]
  have reg: "listed (KTimer (ThreadTimer t)) s"
    using timer_listed_if_live [OF inv, of t] st by (auto simp: live_def)
  have ty: "rt_object_get_type (KTimer (ThreadTimer t)) s = RT_Object_Class_Timer"
    using type_if_listed [OF inv reg] by simp
  have hard: "tflag s (ThreadTimer t) AND 4 = 0"
    using kernel_okD(2) [OF ok] reg by (simp add: ttimers_ok_def)
  let ?s1 = "upd_timer (ThreadTimer t) (\<lambda>tm. tm\<lparr>tm_init_tick := n\<rparr>) s"
  have "tflag (timer_start_link (ThreadTimer t) ?s1) (ThreadTimer t) AND 4 = 0"
    using hard by (simp add: timer_start_link_fields rt_flag_simps)
  then have "rt_timer_start (ThreadTimer t) ?s1 = Some (RT_EOK, timer_start_link (ThreadTimer t) ?s1)"
    using ty n by (simp add: rt_timer_start_unfold Let_def rt_object_get_type_def)
  then show thesis using that ty by (simp add: start_thread_timer_def rt_timer_control_def)
qed

lemma wait_finish_total:
  assumes ok: "sys_ok s" and k: "kernel_ok s1" and fr: "core_frame s s1" and cur: "k_current s1 = k_current s"
    and st: "live (tstat s t)" "tstat s1 t = RT_THREAD_SUSPEND" and oth: "\<And>u. u \<noteq> t \<Longrightarrow> thread s1 u = thread s u"
    and time: "time < 0x7FFFFFFF"
  obtains s' where "wait_finish t time s1 = Some s'" "sys_ok s'"
proof -
  have lv: "live (tstat s1 t)" using st(2) by (simp add: live_def)
  have "\<exists>s2. (if 0 < time then start_thread_timer t (word_of_int time) s1 else Some s1) = Some s2"
  proof (cases "0 < time")
    case True
    then have "(word_of_int time :: rt_uint32) < 0x7FFFFFFF"
      using time by (simp add: word_less_def uint_word_of_int_eq take_bit_int_eq_self)
    then obtain s2 where "start_thread_timer t (word_of_int time) s1 = Some s2"
      by (rule start_thread_timer_total [OF k lv])
    then show ?thesis using True by simp
  qed simp
  then obtain s2 where s2: "(if 0 < time then start_thread_timer t (word_of_int time) s1 else Some s1) = Some s2" ..
  have 2: "kernel_ok s2" "core_frame s1 s2" "k_threads s2 = k_threads s1" "k_current s2 = k_current s1"
    using s2 start_thread_timer_ok [OF k st(2)] start_thread_timer_threads [OF k] k by (auto split: if_splits)
  have fr2: "core_frame s s2" by (rule core_frame_trans [OF fr 2(2)])
  have "sys_ok s2"
  proof (rule sys_ok_step [OF ok kernel_okD(1) [OF 2(1)] fr2])
    show "live (tstat s u)" if "live (tstat s2 u)" for u
      using that st(1) oth [of u] 2(3) by (cases "u = t") auto
    show "\<exists>c. k_current s2 = Some c \<and> tprio s2 c < 32"
      using ok 2(4) cur core_frame_thread(1) [OF fr2] by (auto simp: sys_ok_def)
  qed
  then obtain s' where "rt_schedule s2 = Some s'" "sys_ok s'" by (rule rt_schedule_total)
  then show thesis using that s2 by (simp add: wait_finish_def)
qed

lemma wait_on_total:
  assumes ok: "sys_ok s" and c: "k_current s = Some t" "tstat s t = RT_THREAD_RUNNING"
    and h: "wait_head h k" "head_target h k s" and fl: "ipc_flag_ok flag"
    and time: "time < 0x7FFFFFFF"
  obtains s' where "wait_on h t flag time s = Some s'" "sys_ok s'"
proof -
  note K = sys_okD(1) [OF ok]
  obtain s0 where "rt_thread_suspend t s = Some (RT_EOK, s0)" by (rule thread_suspend_total [OF K c(2)])
  then obtain s1 where s1: "rt_ipc_list_suspend h t flag s = Some s1" by (simp add: rt_ipc_list_suspend_def)
  have run: "runnable (tstat s t)" "live (tstat s t)" using c(2) by (simp_all add: runnable_def live_def)
  note L = ipc_list_suspend_ok [OF K run(1) h fl s1]
  obtain s' where "wait_finish t time s1 = Some s'" "sys_ok s'"
    by (rule wait_finish_total [OF ok L(1,2,4) run(2) L(3) L(7) time])
  then show thesis using that s1 by (simp add: wait_on_def)
qed

lemma sys_ok_frame_step:
  assumes ok: "sys_ok s" and k: "kernel_ok s'" and fr: "core_frame s s'" and cur: "k_current s' = k_current s"
    and lv: "\<And>t. live (tstat s' t) \<Longrightarrow> live (tstat s t)"
  shows "sys_ok s'"
  by (rule sys_ok_step [OF ok kernel_okD(1) [OF k] fr lv])
    (use ok cur core_frame_thread(1) [OF fr] in \<open>auto simp: sys_ok_def\<close>)

lemma sys_ok_fields [simp]:
  "sys_ok (s\<lparr>k_sems := a\<rparr>) = sys_ok s" "sys_ok (s\<lparr>k_mutexes := b\<rparr>) = sys_ok s"
  "sys_ok (s\<lparr>k_events := c\<rparr>) = sys_ok s" "sys_ok (s\<lparr>k_mailboxes := d\<rparr>) = sys_ok s"
  "sys_ok (s\<lparr>k_mqs := e\<rparr>) = sys_ok s" "sys_ok (s\<lparr>k_pools := f\<rparr>) = sys_ok s"
  "sys_ok (s\<lparr>k_links := g\<rparr>) = sys_ok s" "sys_ok (s\<lparr>k_errno := h\<rparr>) = sys_ok s"
  by (simp_all add: sys_ok_def stack_ok_def scheduler_stack_check_def)

lemma sys_ok_error [simp]: "sys_ok s \<Longrightarrow> sys_ok (upd_thread t (\<lambda>th. th\<lparr>th_error := e\<rparr>) s)"
  by (rule sys_ok_frame_step [OF _ _ core_frame_error]) (auto simp: sys_okD split: if_splits)

text \<open>Writing thread fields that neither the scheduler nor the stack check looks at.\<close>

lemma sys_ok_upd_frame:
  assumes ok: "sys_ok s" and f: "\<And>th. stat_of (f th) = stat_of th"
    "\<And>th. th_current_priority (f th) = th_current_priority th"
    "\<And>th. th_init_priority (f th) = th_init_priority th"
    "\<And>th. th_number_mask (f th) = th_number_mask th" "\<And>th. th_sp (f th) = th_sp th"
    "\<And>th. th_stack_addr (f th) = th_stack_addr th" "\<And>th. th_stack_size (f th) = th_stack_size th"
  shows "sys_ok (upd_thread t f s)"
proof -
  let ?s = "upd_thread t f s"
  have k: "kinv {} ?s" by (rule kinv_upd_frame [OF sys_okD(2) [OF ok] f(1-4)])
  have same: "tstat ?s u = tstat s u" "tprio ?s u = tprio s u" "stack_ok ?s u = stack_ok s u" for u
    by (simp_all add: f stack_ok_def scheduler_stack_check_def Let_def)
  have "ttimers_ok ?s" using sys_okD(4) [OF ok] by (simp add: ttimers_ok_def)
  then show ?thesis using ok k unfolding sys_ok_def kernel_ok_def same by simp
qed

lemma thread_resume_run:
  assumes ok: "sys_ok s" and st: "tstat s t = RT_THREAD_SUSPEND"
  obtains s' where "rt_thread_resume t s = Some (RT_EOK, s')" "sys_ok s'" "core_frame s s'"
    "k_current s' = k_current s" "\<And>h. \<forall>p. h \<noteq> Ready p \<Longrightarrow> k_tlists s' h = removeAll t (k_tlists s h)"
    "runnable (tstat s' t)" "\<And>u. u \<noteq> t \<Longrightarrow> thread s' u = thread s u"
    "th_error (thread s' t) = th_error (thread s t)"
proof -
  obtain s' where s': "rt_thread_resume t s = Some (RT_EOK, s')" "kernel_ok s'" "core_frame s s'"
    "k_current s' = k_current s"
    "k_threads s' = (k_threads s)(t :=
       with_stat (if k_current s = Some t then RT_THREAD_RUNNING else RT_THREAD_READY) (thread s t))"
    "\<And>h. \<forall>p. h \<noteq> Ready p \<Longrightarrow> k_tlists s' h = removeAll t (k_tlists s h)"
    by (rule rt_thread_resume_total [OF sys_okD(1) [OF ok] st]) (rule that; assumption)
  have oth: "thread s' u = thread s u" if "u \<noteq> t" for u using that s'(5) by simp
  have "live (tstat s u)" if "live (tstat s' u)" for u
    using that st oth [of u] by (cases "u = t") (auto simp: live_def)
  then have "sys_ok s'" by (rule sys_ok_frame_step [OF ok s'(2,3,4)])
  moreover have "runnable (tstat s' t)" "th_error (thread s' t) = th_error (thread s t)"
    by (simp_all add: s'(5) runnable_def rt_flag_simps)
  ultimately show thesis using that [OF s'(1) _ s'(3,4,6)] oth by blast
qed

lemma waiting_suspended:
  "kernel_ok s \<Longrightarrow> wait_head h k \<Longrightarrow> t \<in> set (k_tlists s h) \<Longrightarrow> tstat s t = RT_THREAD_SUSPEND"
  using sched_invD(5,6) [OF kinvD(1) [OF kernel_okD(1)], of s t k]
    sched_invD(12) [OF kinvD(1) [OF kernel_okD(1)], of s t] by (auto simp: wait_head_def)

text \<open>The first waiting thread is made ready; the rest of the list stays as it is.\<close>

lemma ipc_list_resume_run:
  assumes ok: "sys_ok s" and h: "wait_head h k" and l: "k_tlists s h = t # ts"
  obtains s' where "rt_ipc_list_resume h s = Some s'" "sys_ok s'" "core_frame s s'"
    "k_current s' = k_current s" "k_tlists s' h = ts"
    "\<And>j. j \<noteq> h \<Longrightarrow> \<forall>p. j \<noteq> Ready p \<Longrightarrow> k_tlists s' j = k_tlists s j"
    "runnable (tstat s' t)" "\<And>u. u \<noteq> t \<Longrightarrow> thread s' u = thread s u"
    "th_error (thread s' t) = th_error (thread s t)"
proof -
  have st: "tstat s t = RT_THREAD_SUSPEND" using waiting_suspended [OF sys_okD(1) [OF ok] h, of t] l by simp
  obtain s' where s': "rt_ipc_list_resume h s = Some s'" "kernel_ok s'" "core_frame s s'"
    "k_current s' = k_current s" "k_tlists s' h = ts"
    "\<And>j. j \<noteq> h \<Longrightarrow> \<forall>p. j \<noteq> Ready p \<Longrightarrow> k_tlists s' j = k_tlists s j"
    "k_threads s' = (k_threads s)(t :=
       with_stat (if k_current s = Some t then RT_THREAD_RUNNING else RT_THREAD_READY) (thread s t))"
    by (rule ipc_list_resume_total [OF sys_okD(1) [OF ok] h l]) (rule that; assumption)
  have oth: "thread s' u = thread s u" if "u \<noteq> t" for u using that s'(7) by simp
  have "live (tstat s u)" if "live (tstat s' u)" for u
    using that st oth [of u] by (cases "u = t") (auto simp: live_def)
  then have "sys_ok s'" by (rule sys_ok_frame_step [OF ok s'(2,3,4)])
  moreover have "runnable (tstat s' t)" "th_error (thread s' t) = th_error (thread s t)"
    by (simp_all add: s'(7) runnable_def rt_flag_simps)
  ultimately show thesis using that [OF s'(1) _ s'(3-6)] oth by blast
qed

lemma ipc_list_resume_all_run:
  assumes ok: "sys_ok s" and h: "wait_head h k"
  obtains s' where "rt_ipc_list_resume_all h s = Some s'" "sys_ok s'" "core_frame s s'" "k_tlists s' h = []"
    "k_current s' = k_current s" "\<And>j. j \<noteq> h \<Longrightarrow> \<forall>p. j \<noteq> Ready p \<Longrightarrow> k_tlists s' j = k_tlists s j"
    "\<And>t. t \<in> set (k_tlists s h) \<Longrightarrow> runnable (tstat s' t) \<and> th_error (thread s' t) = - RT_ERROR"
    "\<And>t. t \<notin> set (k_tlists s h) \<Longrightarrow> thread s' t = thread s t"
proof -
  obtain s' where s': "rt_ipc_list_resume_all h s = Some s'" "kernel_ok s'" "core_frame s s'" "k_tlists s' h = []"
    "k_current s' = k_current s" "\<forall>j. j \<noteq> h \<longrightarrow> (\<forall>p. j \<noteq> Ready p) \<longrightarrow> k_tlists s' j = k_tlists s j"
    "\<forall>t \<in> set (k_tlists s h). runnable (tstat s' t) \<and> th_error (thread s' t) = - RT_ERROR"
    "\<forall>t. t \<notin> set (k_tlists s h) \<longrightarrow> thread s' t = thread s t"
    using ipc_list_resume_all_total [OF sys_okD(1) [OF ok] h] by blast
  have "live (tstat s t)" if "live (tstat s' t)" for t
    using that s'(8) waiting_suspended [OF sys_okD(1) [OF ok] h, of t]
    by (cases "t \<in> set (k_tlists s h)") (auto simp: live_def)
  then have "sys_ok s'" by (rule sys_ok_frame_step [OF ok s'(2,3,5)])
  then show thesis using that [OF s'(1) _ s'(3-5)] s'(6-8) by blast
qed

lemma rt_schedule_run:
  assumes ok: "sys_ok s"
  obtains s' where "rt_schedule s = Some s'" "sys_ok s'" "core_frame s s'"
    "\<And>h. \<forall>p. h \<noteq> Ready p \<Longrightarrow> k_tlists s' h = k_tlists s h"
    "\<And>t. runnable (tstat s' t) \<longleftrightarrow> runnable (tstat s t)" "\<And>t. th_error (thread s' t) = th_error (thread s t)"
proof -
  obtain s' where s': "rt_schedule s = Some s'" "sys_ok s'" by (rule rt_schedule_total [OF ok])
  have st: "sched_step s s'" by (rule rt_schedule_step [OF sys_okD(3) [OF ok] s'(1)])
  then have "runnable (tstat s' t) \<longleftrightarrow> runnable (tstat s t)" for t unfolding sched_step_def by metis
  moreover have "th_error (thread s' t) = th_error (thread s t)" for t
    using st sched_frame_thread by (auto simp: sched_step_def)
  ultimately show thesis
    using that [OF s' core_frame_steps(3) [OF s'(1)]] st by (auto simp: sched_step_def)
qed

section \<open>Callers and objects\<close>

text \<open>A running thread calls the kernel, in thread context; an interrupt handler may be what calls.\<close>

definition running_in :: "tid \<Rightarrow> kstate \<Rightarrow> bool" where
  "running_in t s \<longleftrightarrow> k_current s = Some t \<and> tstat s t = RT_THREAD_RUNNING \<and> k_irq_nest s = 0"

lemmas context_checks = running_in_def rt_debug_in_thread_context_def rt_debug_not_in_interrupt_def
  rt_interrupt_get_nest_def rt_thread_self_def

text \<open>The object was initialised as one of its class, with a valid waiting discipline.\<close>

definition ipc_object_ok :: "kobj \<Rightarrow> kstate \<Rightarrow> bool" where
  "ipc_object_ok k s \<longleftrightarrow> waitable k \<and> listed k s \<and> ipc_flag_ok (oflag s k)"

text \<open>Only mailboxes and message queues have a list of waiting senders.\<close>

fun has_senders :: "kobj \<Rightarrow> bool" where
  "has_senders (KMailbox _) = True"
| "has_senders (KMq _) = True"
| "has_senders _ = False"

definition senders_ok :: "kstate \<Rightarrow> bool" where
  "senders_ok s \<longleftrightarrow> (\<forall>k. k_tlists s (SuspSender k) \<noteq> [] \<longrightarrow> has_senders k)"

lemma ipc_object_okD:
  assumes "kernel_ok s" "ipc_object_ok k s"
  shows "rt_object_get_type k s = class_of k" "wait_target k (k_olists s)" "ipc_flag_ok (oflag s k)" "waitable k"
  using assms type_if_listed [OF kernel_okD(1)] by (auto simp: ipc_object_ok_def wait_target_def)

lemma ipc_object_waitable: "ipc_object_ok k s \<Longrightarrow> waitable k"
  by (simp add: ipc_object_ok_def)

lemma ipc_object_ok_core:
  assumes "core_frame s s'" "ipc_object_ok k s"
  shows "ipc_object_ok k s'"
proof -
  have "\<forall>t. k \<noteq> KTimer t" using assms(2) by (auto simp: ipc_object_ok_def)
  then show ?thesis
    using assms(2) core_frame_fields(12) [OF assms(1)] core_frame_type(5) [OF assms(1)]
    by (simp add: ipc_object_ok_def)
qed

text \<open>Removing an object wakes every waiting thread with an error.\<close>

lemma ipc_detach_total:
  assumes ok: "sys_ok s" and k: "waitable k" and sn: "k_tlists s (SuspSender k) = []"
  obtains s1 where "rt_ipc_list_resume_all (Susp k) s = Some s1" "sys_ok s1" "core_frame s s1"
    "kernel_ok (rt_object_detach k s1)" "\<not> listed k (rt_object_detach k s1)"
    "\<And>t. t \<in> set (k_tlists s (Susp k)) \<Longrightarrow> runnable (tstat s1 t) \<and> th_error (thread s1 t) = - RT_ERROR"
    "\<not> rt_object_is_systemobject k s \<Longrightarrow> \<exists>s2. rt_object_delete k s1 = Some s2 \<and> kernel_ok s2 \<and>
       \<not> listed k s2 \<and> k \<in> set (k_freed s2) \<and> k_threads s2 = k_threads s1"
proof -
  have h: "wait_head (Susp k) k" by (simp add: wait_head_def)
  obtain s1 where s1: "rt_ipc_list_resume_all (Susp k) s = Some s1" "sys_ok s1" "core_frame s s1"
    "k_tlists s1 (Susp k) = []"
    "\<And>j. j \<noteq> Susp k \<Longrightarrow> \<forall>p. j \<noteq> Ready p \<Longrightarrow> k_tlists s1 j = k_tlists s j"
    "\<And>t. t \<in> set (k_tlists s (Susp k)) \<Longrightarrow> runnable (tstat s1 t) \<and> th_error (thread s1 t) = - RT_ERROR"
    by (rule ipc_list_resume_all_run [OF ok h]) (rule that; assumption)
  have e: "k_tlists s1 (SuspSender k) = []" using s1(5) [of "SuspSender k"] sn by simp
  note D = object_detach_ok [OF sys_okD(1) [OF s1(2)] k s1(4) e]
  have "\<exists>s2. rt_object_delete k s1 = Some s2 \<and> kernel_ok s2 \<and> \<not> listed k s2 \<and> k \<in> set (k_freed s2) \<and>
      k_threads s2 = k_threads s1" if st: "\<not> rt_object_is_systemobject k s"
  proof -
    obtain s2 where s2: "rt_object_delete k s1 = Some s2" "k_threads s2 = k_threads s1"
      using st core_frame_type(4) [OF s1(3), of k]
      by (auto simp: rt_object_delete_def rt_object_is_systemobject_def Let_def)
    then show ?thesis using object_delete_ok [OF sys_okD(1) [OF s1(2)] k s1(4) e s2(1)] by auto
  qed
  then show thesis using that [OF s1(1-3) D s1(6)] by blast
qed

lemma detach_threads [simp]: "k_threads (rt_object_detach k s) = k_threads s"
  by (simp add: rt_object_detach_def Let_def)

section \<open>Building blocks of the blocking operations\<close>

text \<open>A running thread clears its error code and waits on a list of an object.\<close>

lemma wait_on_run:
  assumes ok: "sys_ok s" and k: "ipc_object_ok k s" and t: "running_in t s"
    and h: "wait_head h k" and time: "time < 0x7FFFFFFF"
  obtains s' where
    "wait_on h t (oflag s k) time (upd_thread t (\<lambda>th. th\<lparr>th_error := RT_EOK\<rparr>) s) = Some s'"
    "sys_ok s'" "core_frame s s'" "tstat s' t = RT_THREAD_SUSPEND" "th_error (thread s' t) = RT_EOK"
    "k_tlists s' h = wait_insert s (oflag s k) t (k_tlists s h)"
    "\<And>j. j \<noteq> h \<Longrightarrow> \<forall>p. j \<noteq> Ready p \<Longrightarrow> k_tlists s' j = k_tlists s j"
proof -
  let ?s1 = "upd_thread t (\<lambda>th. th\<lparr>th_error := RT_EOK\<rparr>) s"
  note I = ipc_object_okD [OF sys_okD(1) [OF ok] k]
  have ok1: "sys_ok ?s1" using ok by simp
  have c: "k_current ?s1 = Some t" "tstat ?s1 t = RT_THREAD_RUNNING" using t by (simp_all add: running_in_def)
  have tg: "head_target h k ?s1" using I by simp
  obtain s' where s': "wait_on h t (oflag s k) time ?s1 = Some s'" "sys_ok s'"
    by (rule wait_on_total [OF ok1 c h tg I(3) time])
  have run: "runnable (tstat ?s1 t)" using c by (simp add: runnable_def)
  note W = wait_on_ok [OF sys_okD(1) [OF ok1] run h tg I(3) s'(1)]
  have fr: "core_frame s s'" by (rule core_frame_trans [OF core_frame_error W(2)])
  show thesis by (rule that [OF s' fr W(5)]) (use W(3,4,6) in simp_all)
qed

lemma wake_first_run:
  assumes ok: "sys_ok s" and h: "wait_head h k"
  obtains s' where "wake_first h s = Some s'" "sys_ok s'" "core_frame s s'"
    "k_tlists s' h = tl (k_tlists s h)"
    "\<And>j. j \<noteq> h \<Longrightarrow> \<forall>p. j \<noteq> Ready p \<Longrightarrow> k_tlists s' j = k_tlists s j"
    "\<And>t ts. k_tlists s h = t # ts \<Longrightarrow> runnable (tstat s' t)"
    "\<And>t. th_error (thread s' t) = th_error (thread s t)"
proof (cases "k_tlists s h")
  case Nil
  then show thesis using that [of s] ok by (simp add: wake_first_def)
next
  case (Cons t ts)
  have hh: "\<forall>p. h \<noteq> Ready p" using h by (auto simp: wait_head_def)
  obtain s1 where s1: "rt_ipc_list_resume h s = Some s1" "sys_ok s1" "core_frame s s1"
    "k_tlists s1 h = ts" "\<And>j. j \<noteq> h \<Longrightarrow> \<forall>p. j \<noteq> Ready p \<Longrightarrow> k_tlists s1 j = k_tlists s j"
    "runnable (tstat s1 t)" "\<And>u. u \<noteq> t \<Longrightarrow> thread s1 u = thread s u"
    "th_error (thread s1 t) = th_error (thread s t)"
    by (rule ipc_list_resume_run [OF ok h Cons]) (rule that; assumption)
  obtain s2 where s2: "rt_schedule s1 = Some s2" "sys_ok s2" "core_frame s1 s2"
    "\<And>h. \<forall>p. h \<noteq> Ready p \<Longrightarrow> k_tlists s2 h = k_tlists s1 h"
    "\<And>t. runnable (tstat s2 t) \<longleftrightarrow> runnable (tstat s1 t)" "\<And>t. th_error (thread s2 t) = th_error (thread s1 t)"
    by (rule rt_schedule_run [OF s1(2)]) (rule that; assumption)
  have w: "wake_first h s = Some s2" using Cons s1(1) s2(1) by (simp add: wake_first_def)
  have e: "th_error (thread s2 u) = th_error (thread s u)" for u
    using s2(6) [of u] s1(7) [of u] s1(8) by (cases "u = t") auto
  show thesis
    by (rule that [OF w s2(2) core_frame_trans [OF s1(3) s2(3)] _ _ _ e])
      (use Cons s1(4,5,6) s2(4,5) hh in auto)
qed

lemma resume_both_run:
  assumes ok: "sys_ok s"
  obtains s1 s2 where "rt_ipc_list_resume_all (Susp k) s = Some s1"
    "rt_ipc_list_resume_all (SuspSender k) s1 = Some s2" "sys_ok s2" "core_frame s s2"
    "k_tlists s2 (Susp k) = []" "k_tlists s2 (SuspSender k) = []"
    "\<And>t. t \<in> set (k_tlists s (Susp k)) \<union> set (k_tlists s (SuspSender k)) \<Longrightarrow>
       runnable (tstat s2 t) \<and> th_error (thread s2 t) = - RT_ERROR"
proof -
  have h: "wait_head (Susp k) k" "wait_head (SuspSender k) k" by (simp_all add: wait_head_def)
  obtain s1 where s1: "rt_ipc_list_resume_all (Susp k) s = Some s1" "sys_ok s1" "core_frame s s1"
    "k_tlists s1 (Susp k) = []" "\<And>j. j \<noteq> Susp k \<Longrightarrow> \<forall>p. j \<noteq> Ready p \<Longrightarrow> k_tlists s1 j = k_tlists s j"
    "\<And>t. t \<in> set (k_tlists s (Susp k)) \<Longrightarrow> runnable (tstat s1 t) \<and> th_error (thread s1 t) = - RT_ERROR"
    by (rule ipc_list_resume_all_run [OF ok h(1)]) (rule that; assumption)
  obtain s2 where s2: "rt_ipc_list_resume_all (SuspSender k) s1 = Some s2" "sys_ok s2" "core_frame s1 s2"
    "k_tlists s2 (SuspSender k) = []"
    "\<And>j. j \<noteq> SuspSender k \<Longrightarrow> \<forall>p. j \<noteq> Ready p \<Longrightarrow> k_tlists s2 j = k_tlists s1 j"
    "\<And>t. t \<in> set (k_tlists s1 (SuspSender k)) \<Longrightarrow> runnable (tstat s2 t) \<and> th_error (thread s2 t) = - RT_ERROR"
    "\<And>t. t \<notin> set (k_tlists s1 (SuspSender k)) \<Longrightarrow> thread s2 t = thread s1 t"
    by (rule ipc_list_resume_all_run [OF s1(2) h(2)]) (rule that; assumption)
  have l: "k_tlists s1 (SuspSender k) = k_tlists s (SuspSender k)" using s1(5) [of "SuspSender k"] by simp
  have all: "runnable (tstat s2 t) \<and> th_error (thread s2 t) = - RT_ERROR"
    if "t \<in> set (k_tlists s (Susp k)) \<union> set (k_tlists s (SuspSender k))" for t
  proof (cases "t \<in> set (k_tlists s (SuspSender k))")
    case False
    then show ?thesis using that s1(6) s2(7) [of t] l by auto
  qed (use s2(6) l in simp)
  have "k_tlists s2 (Susp k) = []" using s2(5) [of "Susp k"] s1(4) by simp
  then show thesis by (rule that [OF s1(1) s2(1,2) core_frame_trans [OF s1(3) s2(3)] _ s2(4) all])
qed

section \<open>The contract of a channel\<close>

text \<open>
  A channel holds a list of items and keeps the threads that wait for an item and those that
  wait for room.  \<open>enq\<close> is where a waiting thread joins.
\<close>

fun chan_send_spec :: "(tid list \<Rightarrow> tid list) \<Rightarrow> nat \<Rightarrow> int \<Rightarrow> 'm \<Rightarrow> 'm list \<times> tid list \<times> tid list \<Rightarrow>
    rt_err outcome \<times> 'm list \<times> tid list \<times> tid list" where
  "chan_send_spec enq capacity time m (ms, receivers, senders) =
     (if length ms < capacity then (Ret RT_EOK, ms @ [m], tl receivers, senders)
      else if time = 0 then (Ret (- RT_EFULL), ms, receivers, senders)
      else (Wait, ms, receivers, enq senders))"

fun chan_recv_spec :: "(tid list \<Rightarrow> tid list) \<Rightarrow> int \<Rightarrow> 'm list \<times> tid list \<times> tid list \<Rightarrow>
    (rt_err \<times> 'm option) outcome \<times> 'm list \<times> tid list \<times> tid list" where
  "chan_recv_spec enq time (m # ms, receivers, senders) = (Ret (RT_EOK, Some m), ms, receivers, tl senders)"
| "chan_recv_spec enq time ([], receivers, senders) =
     (if time = 0 then (Ret (- RT_ETIMEOUT, None), [], receivers, senders)
      else (Wait, [], enq receivers, senders))"

end
