(* ===== verification/Semaphore.thy ===== *)
theory Semaphore
  imports IpcBase
begin

text \<open>
  Semaphores, \<^verbatim>\<open>src/ipc.c\<close>.  Taking a semaphore returns (\<open>Ret\<close>) or suspends the caller
  (\<open>Wait\<close>); \<open>rt_sem_take_resume\<close> is what a suspended caller does when it runs again.
  Application hooks are not modelled.
\<close>

section \<open>Operations\<close>

definition upd_sem :: "oid \<Rightarrow> (rt_uint16 \<Rightarrow> rt_uint16) \<Rightarrow> kstate \<Rightarrow> kstate" where
  "upd_sem i f s = s\<lparr>k_sems := (k_sems s)(i := \<lparr>sem_value = f (sem_value (k_sems s i))\<rparr>)\<rparr>"

definition rt_sem_init ::
    "oid \<Rightarrow> rt_uint8 list \<Rightarrow> rt_uint32 \<Rightarrow> rt_uint8 \<Rightarrow> kstate \<Rightarrow> (rt_err \<times> kstate) option" where
  "rt_sem_init i name value flag s = do {
     rt_assert (value < 0x10000);
     s \<leftarrow> rt_object_init (KSem i) RT_Object_Class_Semaphore name s;
     let s = rt_ipc_object_init (KSem i) s;
     let s = upd_sem i (\<lambda>_. ucast value) s;
     Some (RT_EOK, set_oflag (KSem i) flag s)
   }"

definition rt_sem_detach :: "oid \<Rightarrow> kstate \<Rightarrow> (rt_err \<times> kstate) option" where
  "rt_sem_detach i s = do {
     rt_assert (rt_object_get_type (KSem i) s = RT_Object_Class_Semaphore);
     rt_assert (rt_object_is_systemobject (KSem i) s);
     s \<leftarrow> rt_ipc_list_resume_all (Susp (KSem i)) s;
     Some (RT_EOK, rt_object_detach (KSem i) s)
   }"

definition rt_sem_create ::
    "rt_uint8 list \<Rightarrow> rt_uint32 \<Rightarrow> rt_uint8 \<Rightarrow> oid option \<Rightarrow> kstate \<Rightarrow> (oid option \<times> kstate) option" where
  "rt_sem_create name value flag alloc s = do {
     rt_debug_not_in_interrupt s;
     rt_assert (value < 0x10000);
     (_, s) \<leftarrow> rt_object_allocate RT_Object_Class_Semaphore name (map_option KSem alloc) s;
     (case alloc of
        None \<Rightarrow> Some (None, s)
      | Some i \<Rightarrow>
          (let s = rt_ipc_object_init (KSem i) s;
               s = upd_sem i (\<lambda>_. ucast value) s
           in Some (Some i, set_oflag (KSem i) flag s)))
   }"

definition rt_sem_delete :: "oid \<Rightarrow> kstate \<Rightarrow> (rt_err \<times> kstate) option" where
  "rt_sem_delete i s = do {
     rt_debug_not_in_interrupt s;
     rt_assert (rt_object_get_type (KSem i) s = RT_Object_Class_Semaphore);
     rt_assert (\<not> rt_object_is_systemobject (KSem i) s);
     s \<leftarrow> rt_ipc_list_resume_all (Susp (KSem i)) s;
     s \<leftarrow> rt_object_delete (KSem i) s;
     Some (RT_EOK, s)
   }"

definition rt_sem_take :: "oid \<Rightarrow> int \<Rightarrow> kstate \<Rightarrow> (rt_err outcome \<times> kstate) option" where
  "rt_sem_take i time s = do {
     rt_assert (rt_object_get_type (KSem i) s = RT_Object_Class_Semaphore);
     if 0 < sem_value (k_sems s i) then Some (Ret RT_EOK, upd_sem i (\<lambda>v. v - 1) s)
     else if time = 0 then Some (Ret (- RT_ETIMEOUT), s)
     else do {
       rt_debug_in_thread_context s;
       t \<leftarrow> rt_thread_self s;
       let s = upd_thread t (\<lambda>th. th\<lparr>th_error := RT_EOK\<rparr>) s;
       s \<leftarrow> wait_on (Susp (KSem i)) t (oflag s (KSem i)) time s;
       Some (Wait, s)
     }
   }"

definition rt_sem_take_resume :: "tid \<Rightarrow> kstate \<Rightarrow> rt_err" where
  "rt_sem_take_resume t s = (if th_error (thread s t) \<noteq> RT_EOK then th_error (thread s t) else RT_EOK)"

definition rt_sem_trytake :: "oid \<Rightarrow> kstate \<Rightarrow> (rt_err outcome \<times> kstate) option" where
  "rt_sem_trytake i s = rt_sem_take i 0 s"

definition rt_sem_release :: "oid \<Rightarrow> kstate \<Rightarrow> (rt_err \<times> kstate) option" where
  "rt_sem_release i s = do {
     rt_assert (rt_object_get_type (KSem i) s = RT_Object_Class_Semaphore);
     if k_tlists s (Susp (KSem i)) \<noteq> [] then do {
       s \<leftarrow> rt_ipc_list_resume (Susp (KSem i)) s;
       s \<leftarrow> rt_schedule s;
       Some (RT_EOK, s)
     }
     else Some (RT_EOK, upd_sem i (\<lambda>v. v + 1) s)
   }"

definition rt_sem_control :: "oid \<Rightarrow> int \<Rightarrow> rt_uint32 \<Rightarrow> kstate \<Rightarrow> (rt_err \<times> kstate) option" where
  "rt_sem_control i cmd arg s = do {
     rt_assert (rt_object_get_type (KSem i) s = RT_Object_Class_Semaphore);
     if cmd = RT_IPC_CMD_RESET then do {
       s \<leftarrow> rt_ipc_list_resume_all (Susp (KSem i)) s;
       let s = upd_sem i (\<lambda>_. ucast arg) s;
       s \<leftarrow> rt_schedule s;
       Some (RT_EOK, s)
     }
     else Some (- RT_ERROR, s)
   }"

section \<open>Specification\<close>

text \<open>What a semaphore is: a count, and the threads that wait for it.  Nobody waits while the count
  is positive.\<close>

definition sem_abs :: "oid \<Rightarrow> kstate \<Rightarrow> nat \<times> tid list" where
  "sem_abs i s = (unat (sem_value (k_sems s i)), k_tlists s (Susp (KSem i)))"

definition sem_inv :: "kstate \<Rightarrow> bool" where
  "sem_inv s \<longleftrightarrow> (\<forall>i. k_tlists s (Susp (KSem i)) \<noteq> [] \<longrightarrow> sem_value (k_sems s i) = 0)"

lemma upd_sem_fields [simp]:
  "k_threads (upd_sem i f s) = k_threads s" "k_objs (upd_sem i f s) = k_objs s"
  "k_olists (upd_sem i f s) = k_olists s" "k_tlists (upd_sem i f s) = k_tlists s"
  "k_current (upd_sem i f s) = k_current s"
  "sem_value (k_sems (upd_sem i f s) i) = f (sem_value (k_sems s i))"
  "j \<noteq> i \<Longrightarrow> k_sems (upd_sem i f s) j = k_sems s j"
  "kernel_ok (upd_sem i f s) = kernel_ok s" "sys_ok (upd_sem i f s) = sys_ok s"
  by (simp_all add: upd_sem_def)

text \<open>Taking: either the count goes down, or it is zero and the caller is told so, or the caller
  joins the waiting threads.\<close>

lemma rt_sem_take_available:
  assumes "kernel_ok s" "ipc_object_ok (KSem i) s" "sem_abs i s = (Suc n, q)"
  shows "\<exists>s'. rt_sem_take i time s = Some (Ret RT_EOK, s') \<and> sem_abs i s' = (n, q) \<and>
     kernel_ok s' \<and> (sys_ok s \<longrightarrow> sys_ok s') \<and> (\<forall>j. j \<noteq> i \<longrightarrow> sem_abs j s' = sem_abs j s)"
proof -
  have v: "unat (sem_value (k_sems s i)) = Suc n" using assms(3) by (simp add: sem_abs_def)
  then have "0 < sem_value (k_sems s i)" by (metis unat_eq_zero word_neq_0_conv nat.distinct(1))
  moreover then have "unat (sem_value (k_sems s i) - 1) = n" using v by (simp add: unat_minus_one)
  ultimately show ?thesis using ipc_object_okD [OF assms(1,2)] assms
    by (simp add: rt_sem_take_def sem_abs_def)
qed

lemma rt_sem_take_waits:
  assumes ok: "sys_ok s" and i: "ipc_object_ok (KSem i) s" and t: "running_in t s"
    and v: "sem_abs i s = (0, q)" and time: "time \<noteq> 0" "time < 0x7FFFFFFF"
  shows "\<exists>s'. rt_sem_take i time s = Some (Wait, s') \<and> sys_ok s' \<and>
     sem_abs i s' = (0, wait_insert s (oflag s (KSem i)) t q) \<and> tstat s' t = RT_THREAD_SUSPEND \<and>
     th_error (thread s' t) = RT_EOK \<and>
     (\<forall>j. j \<noteq> i \<longrightarrow> sem_abs j s' = sem_abs j s)"
proof -
  let ?s1 = "upd_thread t (\<lambda>th. th\<lparr>th_error := RT_EOK\<rparr>) s"
  note I = ipc_object_okD [OF sys_okD(1) [OF ok] i]
  have c: "k_current ?s1 = Some t" "tstat ?s1 t = RT_THREAD_RUNNING" using t by (simp_all add: running_in_def)
  have h: "wait_head (Susp (KSem i)) (KSem i)" by (simp add: wait_head_def)
  have tg: "head_target (Susp (KSem i)) (KSem i) ?s1" "ipc_flag_ok (oflag ?s1 (KSem i))" using I by simp_all
  have ok1: "sys_ok ?s1" using ok by simp
  obtain s' where s': "wait_on (Susp (KSem i)) t (oflag ?s1 (KSem i)) time ?s1 = Some s'" "sys_ok s'"
    by (rule wait_on_total [OF ok1 c h tg time(2)])
  have run: "runnable (tstat ?s1 t)" using c by (simp add: runnable_def)
  note W = wait_on_ok [OF sys_okD(1) [OF ok1] run h tg s'(1)]
  have "rt_sem_take i time s = Some (Wait, s')"
    using I(1) v time(1) t s'(1)
    by (simp add: rt_sem_take_def sem_abs_def running_in_def rt_debug_in_thread_context_def
        rt_debug_not_in_interrupt_def rt_interrupt_get_nest_def rt_thread_self_def unat_eq_zero)
  then show ?thesis
    using W s'(2) v core_frame_fields(1) [OF W(2)] by (simp add: sem_abs_def)
qed

lemma rt_sem_take_refused:
  assumes "kernel_ok s" "ipc_object_ok (KSem i) s" "sem_abs i s = (0, q)"
  shows "rt_sem_take i 0 s = Some (Ret (- RT_ETIMEOUT), s)"
  using ipc_object_okD [OF assms(1,2)] assms(3) by (simp add: rt_sem_take_def sem_abs_def unat_eq_zero)

text \<open>Releasing: the first waiting thread gets the unit, or the count goes up.\<close>

lemma rt_sem_release_wakes:
  assumes ok: "sys_ok s" and i: "ipc_object_ok (KSem i) s" and v: "sem_abs i s = (n, t # q)"
  shows "\<exists>s'. rt_sem_release i s = Some (RT_EOK, s') \<and> sys_ok s' \<and> sem_abs i s' = (n, q) \<and>
     runnable (tstat s' t) \<and> rt_sem_take_resume t s' = rt_sem_take_resume t s \<and>
     (\<forall>j. j \<noteq> i \<longrightarrow> sem_abs j s' = sem_abs j s)"
proof -
  note I = ipc_object_okD [OF sys_okD(1) [OF ok] i]
  have h: "wait_head (Susp (KSem i)) (KSem i)" by (simp add: wait_head_def)
  have l: "k_tlists s (Susp (KSem i)) = t # q" using v by (simp add: sem_abs_def)
  obtain s1 where s1: "rt_ipc_list_resume (Susp (KSem i)) s = Some s1" "sys_ok s1" "core_frame s s1"
    "k_tlists s1 (Susp (KSem i)) = q" "runnable (tstat s1 t)" "th_error (thread s1 t) = th_error (thread s t)"
    "\<And>j. j \<noteq> Susp (KSem i) \<Longrightarrow> \<forall>p. j \<noteq> Ready p \<Longrightarrow> k_tlists s1 j = k_tlists s j"
    by (rule ipc_list_resume_run [OF ok h l]) (rule that; assumption)
  obtain s2 where s2: "rt_schedule s1 = Some s2" "sys_ok s2" "core_frame s1 s2"
    "\<And>h. \<forall>p. h \<noteq> Ready p \<Longrightarrow> k_tlists s2 h = k_tlists s1 h"
    "\<And>t. runnable (tstat s2 t) \<longleftrightarrow> runnable (tstat s1 t)" "\<And>t. th_error (thread s2 t) = th_error (thread s1 t)"
    by (rule rt_schedule_run [OF s1(2)]) (rule that; assumption)
  have "rt_sem_release i s = Some (RT_EOK, s2)" using I(1) l s1(1) s2(1) by (simp add: rt_sem_release_def)
  then show ?thesis
    using s1 s2 v core_frame_fields(1) [OF s1(3)] core_frame_fields(1) [OF s2(3)]
    by (auto simp: sem_abs_def rt_sem_take_resume_def)
qed

lemma rt_sem_release_counts:
  assumes "kernel_ok s" "ipc_object_ok (KSem i) s" "sem_abs i s = (n, [])"
  shows "\<exists>s'. rt_sem_release i s = Some (RT_EOK, s') \<and> sem_abs i s' = ((n + 1) mod 0x10000, []) \<and>
     kernel_ok s' \<and> (sys_ok s \<longrightarrow> sys_ok s') \<and> (\<forall>j. j \<noteq> i \<longrightarrow> sem_abs j s' = sem_abs j s)"
  using ipc_object_okD [OF assms(1,2)] assms by (simp add: rt_sem_release_def sem_abs_def unat_word_ariths)

section \<open>Invariants\<close>

lemma sem_inv_abs: "sem_inv s \<longleftrightarrow> (\<forall>i. snd (sem_abs i s) \<noteq> [] \<longrightarrow> fst (sem_abs i s) = 0)"
  by (simp add: sem_inv_def sem_abs_def unat_eq_zero)

lemma rt_sem_init_ok:
  assumes ok: "kernel_ok s" and si: "sem_inv s" and r: "rt_sem_init i name value flag s = Some (e, s')"
    and f: "ipc_flag_ok flag"
  shows "kernel_ok s'" "ipc_object_ok (KSem i) s'" "sem_abs i s' = (unat value, [])" "e = RT_EOK"
proof -
  obtain s1 where v: "value < 0x10000" and s1: "rt_object_init (KSem i) (class_of (KSem i)) name s = Some s1"
    and s': "s' = set_oflag (KSem i) flag (upd_sem i (\<lambda>_. ucast value) (rt_ipc_object_init (KSem i) s1))"
    and e: "e = RT_EOK"
    using r by (auto simp: rt_sem_init_def bind_Some_iff Let_def)
  note O = object_init_ok [OF ok _ s1, simplified]
  show "kernel_ok s'" unfolding s' by (rule kernel_ok_upd_flag) (use O in \<open>simp_all add: ipc_object_init_same\<close>)
  show "ipc_object_ok (KSem i) s'" using O f by (simp add: s' ipc_object_ok_def ipc_object_init_same)
  have "unat (ucast value :: rt_uint16) = unat value"
    using v by (simp add: unsigned_ucast_eq word_less_nat_alt take_bit_nat_eq_self)
  then show "sem_abs i s' = (unat value, [])" using O by (simp add: s' sem_abs_def ipc_object_init_same)
  show "e = RT_EOK" by (rule e)
qed

lemma rt_sem_create_ok:
  assumes ok: "kernel_ok s" and fresh: "\<not> listed (KSem i) s" and f: "ipc_flag_ok flag"
    and r: "rt_sem_create name value flag (Some i) s = Some (a, s')"
  shows "kernel_ok s'" "ipc_object_ok (KSem i) s'" "sem_abs i s' = (unat value, [])" "a = Some i"
proof -
  obtain b s1 where v: "value < 0x10000"
    and s1: "rt_object_allocate (class_of (KSem i)) name (Some (KSem i)) s = Some (b, s1)"
    and s': "s' = set_oflag (KSem i) flag (upd_sem i (\<lambda>_. ucast value) (rt_ipc_object_init (KSem i) s1))"
    and a: "a = Some i"
    using r by (auto simp: rt_sem_create_def bind_Some_iff Let_def)
  note O = object_allocate_ok [OF ok _ fresh s1, simplified]
  show "kernel_ok s'" unfolding s' by (rule kernel_ok_upd_flag) (use O in \<open>simp_all add: ipc_object_init_same\<close>)
  show "ipc_object_ok (KSem i) s'" using O f by (simp add: s' ipc_object_ok_def ipc_object_init_same)
  have "unat (ucast value :: rt_uint16) = unat value"
    using v by (simp add: unsigned_ucast_eq word_less_nat_alt take_bit_nat_eq_self)
  then show "sem_abs i s' = (unat value, [])" using O by (simp add: s' sem_abs_def ipc_object_init_same)
  show "a = Some i" by (rule a)
qed

text \<open>Removing a semaphore wakes every waiting thread with an error.\<close>

lemma rt_sem_detach_wakes_all:
  assumes ok: "sys_ok s" and i: "ipc_object_ok (KSem i) s" and st: "rt_object_is_systemobject (KSem i) s"
    and sn: "senders_ok s"
  shows "\<exists>s'. rt_sem_detach i s = Some (RT_EOK, s') \<and> kernel_ok s' \<and> \<not> listed (KSem i) s' \<and>
     (\<forall>t \<in> set (snd (sem_abs i s)). runnable (tstat s' t) \<and> rt_sem_take_resume t s' = - RT_ERROR)"
proof -
  have e: "k_tlists s (SuspSender (KSem i)) = []" using sn by (auto simp: senders_ok_def)
  obtain s1 where "rt_ipc_list_resume_all (Susp (KSem i)) s = Some s1"
    "kernel_ok (rt_object_detach (KSem i) s1)" "\<not> listed (KSem i) (rt_object_detach (KSem i) s1)"
    "\<And>t. t \<in> set (k_tlists s (Susp (KSem i))) \<Longrightarrow> runnable (tstat s1 t) \<and> th_error (thread s1 t) = - RT_ERROR"
    by (rule ipc_detach_total [OF ok ipc_object_waitable [OF i] e]) (rule that; assumption)
  then show ?thesis using ipc_object_okD(1) [OF sys_okD(1) [OF ok] i] st
    by (simp add: rt_sem_detach_def sem_abs_def rt_sem_take_resume_def)
qed

lemma rt_sem_delete_wakes_all:
  assumes ok: "sys_ok s" and i: "ipc_object_ok (KSem i) s" and st: "\<not> rt_object_is_systemobject (KSem i) s"
    and sn: "senders_ok s" and irq: "k_irq_nest s = 0"
  shows "\<exists>s'. rt_sem_delete i s = Some (RT_EOK, s') \<and> kernel_ok s' \<and> \<not> listed (KSem i) s' \<and>
     KSem i \<in> set (k_freed s') \<and>
     (\<forall>t \<in> set (snd (sem_abs i s)). runnable (tstat s' t) \<and> rt_sem_take_resume t s' = - RT_ERROR)"
proof -
  have e: "k_tlists s (SuspSender (KSem i)) = []" using sn by (auto simp: senders_ok_def)
  obtain s1 where s1: "rt_ipc_list_resume_all (Susp (KSem i)) s = Some s1"
    "\<And>t. t \<in> set (k_tlists s (Susp (KSem i))) \<Longrightarrow> runnable (tstat s1 t) \<and> th_error (thread s1 t) = - RT_ERROR"
    "\<not> rt_object_is_systemobject (KSem i) s \<Longrightarrow> \<exists>s2. rt_object_delete (KSem i) s1 = Some s2 \<and> kernel_ok s2 \<and>
       \<not> listed (KSem i) s2 \<and> KSem i \<in> set (k_freed s2) \<and> k_threads s2 = k_threads s1"
    by (rule ipc_detach_total [OF ok ipc_object_waitable [OF i] e]) (rule that; assumption)
  then obtain s2 where "rt_object_delete (KSem i) s1 = Some s2" "kernel_ok s2" "\<not> listed (KSem i) s2"
    "KSem i \<in> set (k_freed s2)" "k_threads s2 = k_threads s1"
    using st by auto
  then show ?thesis using ipc_object_okD(1) [OF sys_okD(1) [OF ok] i] st irq s1(1,2)
    by (simp add: rt_sem_delete_def sem_abs_def rt_sem_take_resume_def rt_debug_not_in_interrupt_def
        rt_interrupt_get_nest_def)
qed

lemma rt_sem_reset:
  assumes ok: "sys_ok s" and i: "ipc_object_ok (KSem i) s"
  shows "\<exists>s'. rt_sem_control i RT_IPC_CMD_RESET arg s = Some (RT_EOK, s') \<and> sys_ok s' \<and>
     sem_abs i s' = (unat arg mod 0x10000, []) \<and> (\<forall>j. j \<noteq> i \<longrightarrow> sem_abs j s' = sem_abs j s) \<and>
     (\<forall>t \<in> set (snd (sem_abs i s)). runnable (tstat s' t) \<and> rt_sem_take_resume t s' = - RT_ERROR)"
proof -
  note I = ipc_object_okD [OF sys_okD(1) [OF ok] i]
  have h: "wait_head (Susp (KSem i)) (KSem i)" by (simp add: wait_head_def)
  obtain s1 where s1: "rt_ipc_list_resume_all (Susp (KSem i)) s = Some s1" "sys_ok s1" "core_frame s s1"
    "k_tlists s1 (Susp (KSem i)) = []"
    "\<And>j. j \<noteq> Susp (KSem i) \<Longrightarrow> \<forall>p. j \<noteq> Ready p \<Longrightarrow> k_tlists s1 j = k_tlists s j"
    "\<And>t. t \<in> set (k_tlists s (Susp (KSem i))) \<Longrightarrow> runnable (tstat s1 t) \<and> th_error (thread s1 t) = - RT_ERROR"
    by (rule ipc_list_resume_all_run [OF ok h]) (rule that; assumption)
  let ?s2 = "upd_sem i (\<lambda>_. ucast arg) s1"
  have "sys_ok ?s2" using s1(2) by simp
  then obtain s3 where s3: "rt_schedule ?s2 = Some s3" "sys_ok s3" "core_frame ?s2 s3"
    "\<And>h. \<forall>p. h \<noteq> Ready p \<Longrightarrow> k_tlists s3 h = k_tlists ?s2 h"
    "\<And>t. runnable (tstat s3 t) \<longleftrightarrow> runnable (tstat ?s2 t)"
    "\<And>t. th_error (thread s3 t) = th_error (thread ?s2 t)"
    by (rule rt_schedule_run) (rule that; assumption)
  have "rt_sem_control i RT_IPC_CMD_RESET arg s = Some (RT_EOK, s3)"
    using I(1) s1(1) s3(1) by (simp add: rt_sem_control_def)
  moreover have "unat (ucast arg :: rt_uint16) = unat arg mod 0x10000"
    by (simp add: unsigned_ucast_eq take_bit_eq_mod)
  ultimately show ?thesis
    using s1 s3 core_frame_fields(1) [OF s1(3)] core_frame_fields(1) [OF s3(3)]
    by (simp add: sem_abs_def rt_sem_take_resume_def)
qed

section \<open>Refinement of a counting semaphore\<close>

text \<open>
  The contract: taking gives the caller's result and the new count and queue, releasing the new
  count and queue.  The count is kept in sixteen bits.
\<close>

fun sem_take_spec :: "(tid list \<Rightarrow> tid list) \<Rightarrow> int \<Rightarrow> nat \<times> tid list \<Rightarrow> rt_err outcome \<times> nat \<times> tid list" where
  "sem_take_spec enq time (Suc n, q) = (Ret RT_EOK, n, q)"
| "sem_take_spec enq time (0, q) = (if time = 0 then (Ret (- RT_ETIMEOUT), 0, q) else (Wait, 0, enq q))"

fun sem_release_spec :: "nat \<times> tid list \<Rightarrow> nat \<times> tid list" where
  "sem_release_spec (n, []) = ((n + 1) mod 0x10000, [])"
| "sem_release_spec (n, t # q) = (n, q)"

text \<open>The abstract operations never leave a thread waiting while units are left.\<close>

lemma sem_spec_keeps:
  assumes "snd a \<noteq> [] \<longrightarrow> fst a = 0" "b = snd (sem_take_spec enq time a) \<or> b = sem_release_spec a"
  shows "snd b \<noteq> [] \<longrightarrow> fst b = 0"
  using assms
  by (cases "(enq, time, a)" rule: sem_take_spec.cases; cases a rule: sem_release_spec.cases) (auto split: if_splits)

lemma sem_inv_step:
  assumes "sem_inv s" "\<forall>j. j \<noteq> i \<longrightarrow> sem_abs j s' = sem_abs j s"
    and "sem_abs i s' = snd (sem_take_spec enq time (sem_abs i s)) \<or> sem_abs i s' = sem_release_spec (sem_abs i s)"
  shows "sem_inv s'"
proof -
  have "snd (sem_abs i s) \<noteq> [] \<longrightarrow> fst (sem_abs i s) = 0" using assms(1) by (simp add: sem_inv_abs)
  then have "snd (sem_abs i s') \<noteq> [] \<longrightarrow> fst (sem_abs i s') = 0" by (rule sem_spec_keeps [OF _ assms(3)])
  then show ?thesis using assms(1,2) unfolding sem_inv_abs by metis
qed

lemma sem_take_correct:
  assumes ok: "sys_ok s" and i: "ipc_object_ok (KSem i) s" and t: "running_in t s" and time: "time < 0x7FFFFFFF"
  shows "\<exists>r s'. rt_sem_take i time s = Some (r, s') \<and> sys_ok s' \<and>
     (r, sem_abs i s') = sem_take_spec (wait_insert s (oflag s (KSem i)) t) time (sem_abs i s) \<and>
     (\<forall>j. j \<noteq> i \<longrightarrow> sem_abs j s' = sem_abs j s) \<and> (sem_inv s \<longrightarrow> sem_inv s')"
proof -
  let ?enq = "wait_insert s (oflag s (KSem i)) t"
  obtain n q where a: "sem_abs i s = (n, q)" by force
  have "\<exists>r s'. rt_sem_take i time s = Some (r, s') \<and> sys_ok s' \<and>
     (r, sem_abs i s') = sem_take_spec ?enq time (sem_abs i s) \<and> (\<forall>j. j \<noteq> i \<longrightarrow> sem_abs j s' = sem_abs j s)"
  proof (cases n)
    case 0
    note a0 = a [unfolded 0]
    show ?thesis
    proof (cases "time = 0")
      case True
      then show ?thesis using rt_sem_take_refused [OF sys_okD(1) [OF ok] i a0] ok by (simp add: a0)
    next
      case False
      then show ?thesis using rt_sem_take_waits [OF ok i t a0 False time] by (auto simp: a0)
    qed
  next
    case (Suc m)
    show ?thesis using rt_sem_take_available [OF sys_okD(1) [OF ok] i a [unfolded Suc], of time] ok
      by (auto simp: a Suc)
  qed
  then show ?thesis using sem_inv_step [of s i _ ?enq time] by (metis snd_conv)
qed

text \<open>
  C6: Taking a semaphore from a running thread always returns to the kernel and does what the
  counting semaphore prescribes: a unit is taken if there is one, otherwise the caller is refused
  at once when it gave no time to wait, or joins the waiting threads by the order of the
  semaphore.  The system invariant is kept, no other semaphore changes, and no thread is left
  waiting on a semaphore that has units.
\<close>

theorem rt_sem_take_refines:
  assumes ok: "sys_ok s" and i: "ipc_object_ok (KSem i) s" and t: "running_in t s" and time: "time < 0x7FFFFFFF"
  shows "\<exists>r s'. rt_sem_take i time s = Some (r, s') \<and> sys_ok s' \<and>
     (r, sem_abs i s') = sem_take_spec (wait_insert s (oflag s (KSem i)) t) time (sem_abs i s) \<and>
     (\<forall>j. j \<noteq> i \<longrightarrow> sem_abs j s' = sem_abs j s) \<and> (sem_inv s \<longrightarrow> sem_inv s')"
  by (rule sem_take_correct [OF assms])

lemma sem_release_correct:
  assumes ok: "sys_ok s" and i: "ipc_object_ok (KSem i) s"
  shows "\<exists>s'. rt_sem_release i s = Some (RT_EOK, s') \<and> sys_ok s' \<and> sem_abs i s' = sem_release_spec (sem_abs i s) \<and>
     (\<forall>t q. snd (sem_abs i s) = t # q \<longrightarrow> runnable (tstat s' t) \<and> rt_sem_take_resume t s' = rt_sem_take_resume t s) \<and>
     (\<forall>j. j \<noteq> i \<longrightarrow> sem_abs j s' = sem_abs j s) \<and> (sem_inv s \<longrightarrow> sem_inv s')"
proof -
  obtain n q where a: "sem_abs i s = (n, q)" by force
  have "\<exists>s'. rt_sem_release i s = Some (RT_EOK, s') \<and> sys_ok s' \<and> sem_abs i s' = sem_release_spec (sem_abs i s) \<and>
     (\<forall>t q. snd (sem_abs i s) = t # q \<longrightarrow> runnable (tstat s' t) \<and> rt_sem_take_resume t s' = rt_sem_take_resume t s) \<and>
     (\<forall>j. j \<noteq> i \<longrightarrow> sem_abs j s' = sem_abs j s)"
  proof (cases q)
    case Nil
    show ?thesis using rt_sem_release_counts [OF sys_okD(1) [OF ok] i a [unfolded Nil]] ok by (auto simp: a Nil)
  next
    case (Cons t q')
    show ?thesis using rt_sem_release_wakes [OF ok i a [unfolded Cons]] by (auto simp: a Cons)
  qed
  then show ?thesis using sem_inv_step [of s i] by blast
qed

text \<open>
  C7: Releasing a semaphore always returns and either hands the unit to the first waiting
  thread, which becomes runnable with the result of its take unchanged, or counts it, modulo
  the sixteen bits of the counter.  No other semaphore changes, and no thread is left waiting on
  a semaphore that has units.
\<close>

theorem rt_sem_release_refines:
  assumes ok: "sys_ok s" and i: "ipc_object_ok (KSem i) s"
  shows "\<exists>s'. rt_sem_release i s = Some (RT_EOK, s') \<and> sys_ok s' \<and> sem_abs i s' = sem_release_spec (sem_abs i s) \<and>
     (\<forall>t q. snd (sem_abs i s) = t # q \<longrightarrow> runnable (tstat s' t) \<and> rt_sem_take_resume t s' = rt_sem_take_resume t s) \<and>
     (\<forall>j. j \<noteq> i \<longrightarrow> sem_abs j s' = sem_abs j s) \<and> (sem_inv s \<longrightarrow> sem_inv s')"
  by (rule sem_release_correct [OF assms])

end
