(* ===== verification/Mutex.thy ===== *)
theory Mutex
  imports IpcBase
begin

text \<open>
  Mutexes with recursive ownership and priority inheritance, \<^verbatim>\<open>src/ipc.c\<close>.
  \<open>rt_mutex_take_resume\<close> is what a suspended caller does when it runs again; a caller woken
  with \<^verbatim>\<open>-RT_EINTR\<close> goes back to \<^verbatim>\<open>__again\<close>.
\<close>

section \<open>Operations\<close>

definition upd_mutex :: "oid \<Rightarrow> (rt_mutex \<Rightarrow> rt_mutex) \<Rightarrow> kstate \<Rightarrow> kstate" where
  "upd_mutex i f s = s\<lparr>k_mutexes := (k_mutexes s)(i := f (k_mutexes s i))\<rparr>"

definition mutex_start :: rt_mutex where
  "mutex_start = \<lparr>mtx_value = 1, mtx_original_priority = 0xFF, mtx_hold = 0, mtx_owner = None\<rparr>"

definition rt_mutex_init :: "oid \<Rightarrow> rt_uint8 list \<Rightarrow> rt_uint8 \<Rightarrow> kstate \<Rightarrow> (rt_err \<times> kstate) option" where
  "rt_mutex_init i name flag s = do {
     s \<leftarrow> rt_object_init (KMutex i) RT_Object_Class_Mutex name s;
     let s = rt_ipc_object_init (KMutex i) s;
     let s = upd_mutex i (\<lambda>_. mutex_start) s;
     Some (RT_EOK, set_oflag (KMutex i) flag s)
   }"

definition rt_mutex_detach :: "oid \<Rightarrow> kstate \<Rightarrow> (rt_err \<times> kstate) option" where
  "rt_mutex_detach i s = do {
     rt_assert (rt_object_get_type (KMutex i) s = RT_Object_Class_Mutex);
     rt_assert (rt_object_is_systemobject (KMutex i) s);
     s \<leftarrow> rt_ipc_list_resume_all (Susp (KMutex i)) s;
     Some (RT_EOK, rt_object_detach (KMutex i) s)
   }"

definition rt_mutex_create ::
    "rt_uint8 list \<Rightarrow> rt_uint8 \<Rightarrow> oid option \<Rightarrow> kstate \<Rightarrow> (oid option \<times> kstate) option" where
  "rt_mutex_create name flag alloc s = do {
     rt_debug_not_in_interrupt s;
     (_, s) \<leftarrow> rt_object_allocate RT_Object_Class_Mutex name (map_option KMutex alloc) s;
     (case alloc of
        None \<Rightarrow> Some (None, s)
      | Some i \<Rightarrow>
          (let s = rt_ipc_object_init (KMutex i) s;
               s = upd_mutex i (\<lambda>_. mutex_start) s
           in Some (Some i, set_oflag (KMutex i) flag s)))
   }"

definition rt_mutex_delete :: "oid \<Rightarrow> kstate \<Rightarrow> (rt_err \<times> kstate) option" where
  "rt_mutex_delete i s = do {
     rt_debug_not_in_interrupt s;
     rt_assert (rt_object_get_type (KMutex i) s = RT_Object_Class_Mutex);
     rt_assert (\<not> rt_object_is_systemobject (KMutex i) s);
     s \<leftarrow> rt_ipc_list_resume_all (Susp (KMutex i)) s;
     s \<leftarrow> rt_object_delete (KMutex i) s;
     Some (RT_EOK, s)
   }"

text \<open>From the label \<^verbatim>\<open>__again\<close> on; reading the priority of a missing owner is an invalid access.\<close>

definition mutex_take_again :: "oid \<Rightarrow> tid \<Rightarrow> int \<Rightarrow> kstate \<Rightarrow> (rt_err outcome \<times> kstate) option" where
  "mutex_take_again i t time s =
     (if 0 < mtx_value (k_mutexes s i)
      then Some (Ret RT_EOK, upd_mutex i (\<lambda>m. m\<lparr>mtx_value := mtx_value m - 1, mtx_owner := Some t,
         mtx_original_priority := th_current_priority (thread s t), mtx_hold := mtx_hold m + 1\<rparr>) s)
      else if time = 0
      then Some (Ret (- RT_ETIMEOUT), upd_thread t (\<lambda>th. th\<lparr>th_error := - RT_ETIMEOUT\<rparr>) s)
      else do {
        ow \<leftarrow> mtx_owner (k_mutexes s i);
        s \<leftarrow> (if th_current_priority (thread s t) < th_current_priority (thread s ow)
          then do {
            (_, s) \<leftarrow> rt_thread_control ow (THREAD_CHANGE_PRIORITY (th_current_priority (thread s t))) s;
            Some s
          }
          else Some s);
        s \<leftarrow> wait_on (Susp (KMutex i)) t (oflag s (KMutex i)) time s;
        Some (Wait, s)
      })"

definition rt_mutex_take :: "oid \<Rightarrow> int \<Rightarrow> kstate \<Rightarrow> (rt_err outcome \<times> kstate) option" where
  "rt_mutex_take i time s = do {
     rt_debug_in_thread_context s;
     rt_assert (rt_object_get_type (KMutex i) s = RT_Object_Class_Mutex);
     t \<leftarrow> rt_thread_self s;
     let s = upd_thread t (\<lambda>th. th\<lparr>th_error := RT_EOK\<rparr>) s;
     if mtx_owner (k_mutexes s i) = Some t
     then Some (Ret RT_EOK, upd_mutex i (\<lambda>m. m\<lparr>mtx_hold := mtx_hold m + 1\<rparr>) s)
     else mutex_take_again i t time s
   }"

definition rt_mutex_take_resume ::
    "oid \<Rightarrow> tid \<Rightarrow> int \<Rightarrow> kstate \<Rightarrow> (rt_err outcome \<times> kstate) option" where
  "rt_mutex_take_resume i t time s =
     (if th_error (thread s t) \<noteq> RT_EOK
      then (if th_error (thread s t) = - RT_EINTR then mutex_take_again i t time s
            else Some (Ret (th_error (thread s t)), s))
      else Some (Ret RT_EOK, s))"

text \<open>The end of the last release: wake the first waiting thread as the new owner, or free the mutex.\<close>

definition mutex_hand_over :: "oid \<Rightarrow> kstate \<Rightarrow> (rt_err \<times> kstate) option" where
  "mutex_hand_over i s =
     (case k_tlists s (Susp (KMutex i)) of
        u # _ \<Rightarrow> do {
          let s = upd_mutex i (\<lambda>m. m\<lparr>mtx_owner := Some u,
             mtx_original_priority := th_current_priority (thread s u), mtx_hold := mtx_hold m + 1\<rparr>) s;
          s \<leftarrow> rt_ipc_list_resume (Susp (KMutex i)) s;
          s \<leftarrow> rt_schedule s;
          Some (RT_EOK, s)
        }
      | [] \<Rightarrow> Some (RT_EOK, upd_mutex i (\<lambda>m. m\<lparr>mtx_value := mtx_value m + 1, mtx_owner := None,
          mtx_original_priority := 0xFF\<rparr>) s))"

definition rt_mutex_release :: "oid \<Rightarrow> kstate \<Rightarrow> (rt_err \<times> kstate) option" where
  "rt_mutex_release i s = do {
     rt_assert (rt_object_get_type (KMutex i) s = RT_Object_Class_Mutex);
     rt_debug_in_thread_context s;
     t \<leftarrow> rt_thread_self s;
     if mtx_owner (k_mutexes s i) \<noteq> Some t
     then Some (- RT_ERROR, upd_thread t (\<lambda>th. th\<lparr>th_error := - RT_ERROR\<rparr>) s)
     else do {
       let s = upd_mutex i (\<lambda>m. m\<lparr>mtx_hold := mtx_hold m - 1\<rparr>) s;
       if mtx_hold (k_mutexes s i) \<noteq> 0 then Some (RT_EOK, s)
       else do {
         s \<leftarrow> (if mtx_original_priority (k_mutexes s i) \<noteq> th_current_priority (thread s t)
           then do {
             (_, s) \<leftarrow> rt_thread_control t
                (THREAD_CHANGE_PRIORITY (mtx_original_priority (k_mutexes s i))) s;
             Some s
           }
           else Some s);
         mutex_hand_over i s
       }
     }
   }"

definition rt_mutex_control :: "oid \<Rightarrow> kstate \<Rightarrow> rt_err option" where
  "rt_mutex_control i s = do {
     rt_assert (rt_object_get_type (KMutex i) s = RT_Object_Class_Mutex);
     Some (- RT_ERROR)
   }"

section \<open>Changing a priority in a running system\<close>

text \<open>What \<^verbatim>\<open>rt_thread_control\<close> changes: the thread's priority and the ready lists.\<close>

definition prio_step :: "tid \<Rightarrow> rt_uint8 \<Rightarrow> kstate \<Rightarrow> kstate \<Rightarrow> bool" where
  "prio_step t p s s' \<longleftrightarrow> k_current s' = k_current s \<and> k_irq_nest s' = k_irq_nest s \<and>
     k_mutexes s' = k_mutexes s \<and> k_olists s' = k_olists s \<and> k_objs s' = k_objs s \<and>
     (\<forall>u. tstat s' u = tstat s u \<and> th_error (thread s' u) = th_error (thread s u) \<and>
        th_current_priority (thread s' u) = (if u = t then p else th_current_priority (thread s u))) \<and>
     (\<forall>h. (\<forall>q. h \<noteq> Ready q) \<longrightarrow> k_tlists s' h = k_tlists s h)"

lemma prio_stepD:
  assumes "prio_step t p s s'"
  shows "k_current s' = k_current s" "k_irq_nest s' = k_irq_nest s"
    "k_mutexes s' = k_mutexes s" "k_olists s' = k_olists s" "k_objs s' = k_objs s"
    "tstat s' u = tstat s u" "th_error (thread s' u) = th_error (thread s u)"
    "th_current_priority (thread s' u) = (if u = t then p else th_current_priority (thread s u))"
    "\<forall>q. h \<noteq> Ready q \<Longrightarrow> k_tlists s' h = k_tlists s h"
  using assms unfolding prio_step_def by auto

lemma change_priority_run:
  assumes ok: "sys_ok s" and lv: "live (tstat s t)" and p: "unat p < 32"
  obtains s' where "rt_thread_control t (THREAD_CHANGE_PRIORITY p) s = Some (RT_EOK, s')"
    "sys_ok s'" "prio_step t p s s'"
proof -
  note inv = sys_okD(2) [OF ok]
  have ty: "rt_object_get_type (KThread t) s = RT_Object_Class_Thread"
    using type_if_listed [OF inv listed_if_live [OF inv, of t]] lv by (auto simp: live_def)
  have "\<exists>s'. rt_thread_control t (THREAD_CHANGE_PRIORITY p) s = Some (RT_EOK, s') \<and> prio_step t p s s' \<and>
      k_mem s' = k_mem s \<and> k_timers s' = k_timers s \<and> k_tmlists s' = k_tmlists s \<and>
      (\<forall>u. th_sp (thread s' u) = th_sp (thread s u) \<and> th_stack_addr (thread s' u) = th_stack_addr (thread s u) \<and>
         th_stack_size (thread s' u) = th_stack_size (thread s u))"
  proof (cases "tstat s t = RT_THREAD_READY")
    case True
    have nc: "k_current s \<noteq> Some t" using sched_invD(11) [OF sys_okD(3) [OF ok], of t] True by auto
    have tp: "tprio s t < 32" using prio_ok_number_mask [OF sched_invD(8) [OF sys_okD(3) [OF ok]], of t] True by simp
    have keep: "removeAll t (k_tlists s h) = k_tlists s h" if "\<forall>q. h \<noteq> Ready q" for h
      using runnable_not_waiting [OF sys_okD(3) [OF ok], of t h] True that by (simp add: runnable_def)
    show ?thesis using ty True nc tp p keep
      by (auto simp: rt_thread_control_def rt_schedule_remove_thread_def rt_schedule_insert_thread_def Let_def
          prio_step_def set_priority_def rt_flag_simps tbl_append_def)
  next
    case False
    then show ?thesis using ty
      by (auto simp: rt_thread_control_def prio_step_def set_priority_def stat_of_def)
  qed
  then obtain s' where s': "rt_thread_control t (THREAD_CHANGE_PRIORITY p) s = Some (RT_EOK, s')"
    and st: "prio_step t p s s'" and same: "k_mem s' = k_mem s" "k_timers s' = k_timers s" "k_tmlists s' = k_tmlists s"
    "\<And>u. th_sp (thread s' u) = th_sp (thread s u) \<and> th_stack_addr (thread s' u) = th_stack_addr (thread s u) \<and>
       th_stack_size (thread s' u) = th_stack_size (thread s u)" by blast
  have k: "kinv {} s'" by (rule kinv_thread_control [OF inv s']) (use p in simp)
  note P = prio_stepD [OF st]
  have "ttimers_ok s'" using sys_okD(4) [OF ok] by (simp add: ttimers_ok_def P same)
  moreover have "stack_ok s' u = stack_ok s u" for u
    by (simp add: stack_ok_def scheduler_stack_check_def same Let_def)
  ultimately have "sys_ok s'" using ok k p unfolding sys_ok_def kernel_ok_def by (auto simp: P)
  then show thesis using that s' st by blast
qed

section \<open>Specification\<close>

text \<open>A mutex: the owner with the number of times it holds it, and the waiting threads.\<close>

definition mutex_abs :: "oid \<Rightarrow> kstate \<Rightarrow> (tid \<times> nat) option \<times> tid list" where
  "mutex_abs i s = (map_option (\<lambda>t. (t, unat (mtx_hold (k_mutexes s i)))) (mtx_owner (k_mutexes s i)),
     k_tlists s (Susp (KMutex i)))"

definition mutex_ok :: "oid \<Rightarrow> kstate \<Rightarrow> bool" where
  "mutex_ok i s \<longleftrightarrow> (case mtx_owner (k_mutexes s i) of
     None \<Rightarrow> mtx_value (k_mutexes s i) = 1 \<and> mtx_hold (k_mutexes s i) = 0 \<and> k_tlists s (Susp (KMutex i)) = []
   | Some t \<Rightarrow> mtx_value (k_mutexes s i) = 0 \<and> mtx_hold (k_mutexes s i) \<noteq> 0 \<and> live (tstat s t) \<and>
       unat (mtx_original_priority (k_mutexes s i)) < 32 \<and> t \<notin> set (k_tlists s (Susp (KMutex i))))"

text \<open>Priority inheritance: the owner runs at the priority of every waiting thread at least, and the
  waiting threads are in priority order.\<close>

definition inherit_ok :: "oid \<Rightarrow> kstate \<Rightarrow> bool" where
  "inherit_ok i s \<longleftrightarrow>
     sorted (map (\<lambda>t. th_current_priority (thread s t)) (k_tlists s (Susp (KMutex i)))) \<and>
     (\<forall>t. mtx_owner (k_mutexes s i) = Some t \<longrightarrow> (\<forall>w \<in> set (k_tlists s (Susp (KMutex i))).
        th_current_priority (thread s t) \<le> th_current_priority (thread s w)))"

lemma upd_mutex_fields [simp]:
  "k_threads (upd_mutex i f s) = k_threads s" "k_objs (upd_mutex i f s) = k_objs s"
  "k_olists (upd_mutex i f s) = k_olists s" "k_tlists (upd_mutex i f s) = k_tlists s"
  "k_current (upd_mutex i f s) = k_current s" "k_irq_nest (upd_mutex i f s) = k_irq_nest s"
  "k_mutexes (upd_mutex i f s) i = f (k_mutexes s i)"
  "j \<noteq> i \<Longrightarrow> k_mutexes (upd_mutex i f s) j = k_mutexes s j"
  "kernel_ok (upd_mutex i f s) = kernel_ok s" "sys_ok (upd_mutex i f s) = sys_ok s"
  by (simp_all add: upd_mutex_def)

lemma running_prio: "sys_ok s \<Longrightarrow> running_in t s \<Longrightarrow> tprio s t < 32"
  by (auto simp: sys_ok_def running_in_def)

text \<open>Taking a free mutex.\<close>

lemma rt_mutex_take_free:
  assumes ok: "sys_ok s" and i: "ipc_object_ok (KMutex i) s" and t: "running_in t s"
    and m: "mutex_ok i s" and v: "mutex_abs i s = (None, q)"
  shows "\<exists>s'. rt_mutex_take i time s = Some (Ret RT_EOK, s') \<and> sys_ok s' \<and> mutex_ok i s' \<and>
     mutex_abs i s' = (Some (t, 1), []) \<and> mtx_original_priority (k_mutexes s' i) = th_current_priority (thread s t)"
proof -
  have o: "mtx_owner (k_mutexes s i) = None" using v by (simp add: mutex_abs_def)
  then have m': "mtx_value (k_mutexes s i) = 1" "mtx_hold (k_mutexes s i) = 0" "k_tlists s (Susp (KMutex i)) = []"
    using m by (simp_all add: mutex_ok_def)
  show ?thesis
    using ipc_object_okD(1) [OF sys_okD(1) [OF ok] i] t o m' running_prio [OF ok t] ok
    by (simp add: rt_mutex_take_def mutex_take_again_def context_checks mutex_abs_def mutex_ok_def live_def)
qed

text \<open>The owner takes it again.\<close>

lemma rt_mutex_take_again_owner:
  assumes ok: "sys_ok s" and i: "ipc_object_ok (KMutex i) s" and t: "running_in t s"
    and m: "mutex_ok i s" and v: "mutex_abs i s = (Some (t, n), q)" and n: "n < 255"
  shows "\<exists>s'. rt_mutex_take i time s = Some (Ret RT_EOK, s') \<and> sys_ok s' \<and> mutex_ok i s' \<and>
     mutex_abs i s' = (Some (t, Suc n), q)"
proof -
  have o: "mtx_owner (k_mutexes s i) = Some t" "unat (mtx_hold (k_mutexes s i)) = n"
    "k_tlists s (Susp (KMutex i)) = q"
    using v by (auto simp: mutex_abs_def)
  have h: "unat (mtx_hold (k_mutexes s i) + 1) = Suc n" using n o(2) by (simp add: unat_word_ariths)
  then have "mtx_hold (k_mutexes s i) + 1 \<noteq> 0" by force
  then show ?thesis
    using ipc_object_okD(1) [OF sys_okD(1) [OF ok] i] t o h ok m
    by (simp add: rt_mutex_take_def context_checks mutex_abs_def mutex_ok_def)
qed

lemma rt_mutex_take_refused:
  assumes ok: "sys_ok s" and i: "ipc_object_ok (KMutex i) s" and t: "running_in t s"
    and m: "mutex_ok i s" and v: "mutex_abs i s = (Some (u, n), q)" and u: "u \<noteq> t"
  shows "\<exists>s'. rt_mutex_take i 0 s = Some (Ret (- RT_ETIMEOUT), s') \<and> sys_ok s' \<and> mutex_ok i s' \<and>
     mutex_abs i s' = mutex_abs i s"
proof -
  have o: "mtx_owner (k_mutexes s i) = Some u" using v by (auto simp: mutex_abs_def)
  then have "mtx_value (k_mutexes s i) = 0" using m by (simp add: mutex_ok_def)
  then show ?thesis
    using ipc_object_okD(1) [OF sys_okD(1) [OF ok] i] t o u ok m
    by (simp add: rt_mutex_take_def mutex_take_again_def context_checks mutex_abs_def mutex_ok_def)
qed

text \<open>Waiting for a mutex that another thread holds: the caller joins the waiting threads, and the
  owner's priority is raised to the caller's.\<close>

lemma inherit_prio_run:
  assumes ok: "sys_ok s" and lv: "live (tstat s u)" and p: "unat p < 32" and t: "t \<noteq> u"
  obtains s' where
    "(if p < th_current_priority (thread s u)
      then do { (_, s) \<leftarrow> rt_thread_control u (THREAD_CHANGE_PRIORITY p) s; Some s } else Some s) = Some s'"
    "sys_ok s'" "prio_step u (min p (th_current_priority (thread s u))) s s'"
proof (cases "p < th_current_priority (thread s u)")
  case True
  obtain s' where "rt_thread_control u (THREAD_CHANGE_PRIORITY p) s = Some (RT_EOK, s')" "sys_ok s'" "prio_step u p s s'"
    by (rule change_priority_run [OF ok lv p])
  then show ?thesis using that True by simp
next
  case False
  then have "prio_step u (min p (th_current_priority (thread s u))) s s"
    by (simp add: prio_step_def min_def)
  then show ?thesis using that ok False by simp
qed

lemma prio_insert_cong:
  "(\<And>x. x \<in> insert t (set xs) \<Longrightarrow> pr' x = pr x) \<Longrightarrow> prio_insert pr' t xs = prio_insert pr t xs"
  by (induction xs) auto

lemma rt_mutex_take_waits:
  assumes ok: "sys_ok s" and i: "ipc_object_ok (KMutex i) s" and t: "running_in t s"
    and m: "mutex_ok i s" and v: "mutex_abs i s = (Some (u, n), q)" and u: "u \<noteq> t"
    and time: "time \<noteq> 0" "time < 0x7FFFFFFF"
  shows "\<exists>s'. rt_mutex_take i time s = Some (Wait, s') \<and> sys_ok s' \<and> mutex_ok i s' \<and>
     mutex_abs i s' = (Some (u, n), wait_insert s (oflag s (KMutex i)) t q) \<and>
     tstat s' t = RT_THREAD_SUSPEND \<and> th_error (thread s' t) = RT_EOK \<and>
     (\<forall>x. th_current_priority (thread s' x) =
        (if x = u then min (th_current_priority (thread s t)) (th_current_priority (thread s u))
         else th_current_priority (thread s x)))"
proof -
  let ?s1 = "upd_thread t (\<lambda>th. th\<lparr>th_error := RT_EOK\<rparr>) s"
  let ?p = "min (th_current_priority (thread s t)) (th_current_priority (thread s u))"
  have o: "mtx_owner (k_mutexes s i) = Some u" "unat (mtx_hold (k_mutexes s i)) = n" "k_tlists s (Susp (KMutex i)) = q"
    using v by (auto simp: mutex_abs_def)
  then have m': "mtx_value (k_mutexes s i) = 0" "live (tstat s u)" "u \<notin> set q" using m by (simp_all add: mutex_ok_def)
  have ok1: "sys_ok ?s1" using ok by simp
  have lv1: "live (tstat ?s1 u)" using m'(2) u by simp
  obtain s2 where s2: "(if th_current_priority (thread s t) < th_current_priority (thread ?s1 u)
      then do { (_, s) \<leftarrow> rt_thread_control u (THREAD_CHANGE_PRIORITY (th_current_priority (thread s t))) ?s1; Some s }
      else Some ?s1) = Some s2" "sys_ok s2"
    "prio_step u (min (th_current_priority (thread s t)) (th_current_priority (thread ?s1 u))) ?s1 s2"
    by (rule inherit_prio_run [OF ok1 lv1 running_prio [OF ok t] u [symmetric]])
  note P = prio_stepD [OF s2(3)]
  have c2: "k_current s2 = Some t" "tstat s2 t = RT_THREAD_RUNNING" using t P(1) P(6) [of t] by (simp_all add: running_in_def)
  note I = ipc_object_okD [OF sys_okD(1) [OF ok] i]
  have h: "wait_head (Susp (KMutex i)) (KMutex i)" by (simp add: wait_head_def)
  have tg: "head_target (Susp (KMutex i)) (KMutex i) s2" "ipc_flag_ok (oflag s2 (KMutex i))" using I P(4,5) by simp_all
  obtain s' where s': "wait_on (Susp (KMutex i)) t (oflag s2 (KMutex i)) time s2 = Some s'" "sys_ok s'"
    by (rule wait_on_total [OF s2(2) c2 h tg time(2)])
  have run: "runnable (tstat s2 t)" using c2 by (simp add: runnable_def)
  note W = wait_on_ok [OF sys_okD(1) [OF s2(2)] run h tg s'(1)]
  have take: "rt_mutex_take i time s = Some (Wait, s')"
  proof -
    have "mutex_take_again i t time ?s1 = Some (Wait, s')"
      using o(1) m'(1) time(1) u s2(1) s'(1) by (auto simp: mutex_take_again_def bind_Some_iff split: if_splits)
    then show ?thesis using I(1) t o(1) u by (simp add: rt_mutex_take_def context_checks)
  qed
  have fr: "k_mutexes s' = k_mutexes s" "k_tlists s2 (Susp (KMutex i)) = q"
    using core_frame_fields(2) [OF W(2)] P(3) P(9) [of "Susp (KMutex i)"] o(3) by simp_all
  have pr: "th_current_priority (thread s' x) = (if x = u then ?p else th_current_priority (thread s x))" for x
    using core_frame_thread(1) [OF W(2), of x] P(8) [of x] u by simp
  have "wait_insert s2 fl t q = wait_insert s fl t q" for fl
    unfolding wait_insert_def using P(8) m'(3) u by (auto intro!: prio_insert_cong)
  then have q': "k_tlists s' (Susp (KMutex i)) = wait_insert s (oflag s (KMutex i)) t q"
    using W(3) fr(2) P(5) by simp
  have "live (tstat s' u)"
    using W(7) [OF u] P(6) [of u] m'(2) u by (auto simp: live_def runnable_def split: if_splits)
  moreover have "u \<notin> set (wait_insert s (oflag s (KMutex i)) t q)"
    using m'(3) u by (simp add: wait_insert_def)
  ultimately have "mutex_ok i s'" using m o q' fr(1) by (simp add: mutex_ok_def)
  moreover have "th_error (thread s' t) = RT_EOK" using W(6) P(7) [of t] by simp
  moreover have "mutex_abs i s' = (Some (u, n), wait_insert s (oflag s (KMutex i)) t q)"
    using o q' fr(1) by (simp add: mutex_abs_def)
  ultimately show ?thesis using take s'(2) W(5) pr by simp
qed


text \<open>Only the owner can release.\<close>

lemma rt_mutex_release_not_owner:
  assumes ok: "sys_ok s" and i: "ipc_object_ok (KMutex i) s" and t: "running_in t s"
    and v: "mtx_owner (k_mutexes s i) \<noteq> Some t"
  shows "\<exists>s'. rt_mutex_release i s = Some (- RT_ERROR, s') \<and> sys_ok s' \<and> mutex_abs i s' = mutex_abs i s \<and>
     th_error (thread s' t) = - RT_ERROR \<and> (mutex_ok i s \<longrightarrow> mutex_ok i s')"
  using ipc_object_okD(1) [OF sys_okD(1) [OF ok] i] t v ok
  by (simp add: rt_mutex_release_def context_checks mutex_abs_def mutex_ok_def split: option.split)

lemma rt_mutex_release_nested:
  assumes ok: "sys_ok s" and i: "ipc_object_ok (KMutex i) s" and t: "running_in t s"
    and m: "mutex_ok i s" and v: "mutex_abs i s = (Some (t, Suc (Suc n)), q)"
  shows "\<exists>s'. rt_mutex_release i s = Some (RT_EOK, s') \<and> sys_ok s' \<and> mutex_ok i s' \<and>
     mutex_abs i s' = (Some (t, Suc n), q)"
proof -
  have o: "mtx_owner (k_mutexes s i) = Some t" "unat (mtx_hold (k_mutexes s i)) = Suc (Suc n)"
    "k_tlists s (Susp (KMutex i)) = q"
    using v by (auto simp: mutex_abs_def)
  then have "mtx_hold (k_mutexes s i) \<noteq> 0" by auto
  then have h: "unat (mtx_hold (k_mutexes s i) - 1) = Suc n" using o(2) by (simp add: unat_minus_one)
  then have "mtx_hold (k_mutexes s i) - 1 \<noteq> 0" by force
  then show ?thesis
    using ipc_object_okD(1) [OF sys_okD(1) [OF ok] i] t o h ok m
    by (simp add: rt_mutex_release_def context_checks mutex_abs_def mutex_ok_def)
qed

text \<open>The last release gives the owner its original priority back, and the mutex to the first waiting
  thread, if there is one.\<close>

lemma restore_prio_run:
  assumes ok: "sys_ok s" and lv: "live (tstat s t)" and p: "unat p < 32"
  obtains s' where
    "(if p \<noteq> th_current_priority (thread s t)
      then do { (_, s) \<leftarrow> rt_thread_control t (THREAD_CHANGE_PRIORITY p) s; Some s } else Some s) = Some s'"
    "sys_ok s'" "prio_step t p s s'"
proof (cases "p \<noteq> th_current_priority (thread s t)")
  case True
  obtain s' where "rt_thread_control t (THREAD_CHANGE_PRIORITY p) s = Some (RT_EOK, s')" "sys_ok s'" "prio_step t p s s'"
    by (rule change_priority_run [OF ok lv p])
  then show ?thesis using that True by simp
next
  case False
  then have "prio_step t p s s" by (simp add: prio_step_def)
  then show ?thesis using that ok False by simp
qed

lemma rt_mutex_release_last:
  assumes ok: "sys_ok s" and i: "ipc_object_ok (KMutex i) s" and t: "running_in t s"
    and m: "mutex_ok i s" and v: "mutex_abs i s = (Some (t, 1), q)"
  obtains s2 where "rt_mutex_release i s = mutex_hand_over i s2" "sys_ok s2"
    "k_mutexes s2 i = (k_mutexes s i)\<lparr>mtx_hold := 0\<rparr>" "k_tlists s2 (Susp (KMutex i)) = q"
    "prio_step t (mtx_original_priority (k_mutexes s i)) (upd_mutex i (\<lambda>m. m\<lparr>mtx_hold := mtx_hold m - 1\<rparr>) s) s2"
proof -
  let ?s1 = "upd_mutex i (\<lambda>m. m\<lparr>mtx_hold := mtx_hold m - 1\<rparr>) s"
  have o: "mtx_owner (k_mutexes s i) = Some t" "unat (mtx_hold (k_mutexes s i)) = 1" "k_tlists s (Susp (KMutex i)) = q"
    using v by (auto simp: mutex_abs_def)
  then have h: "mtx_hold (k_mutexes s i) = 1" by (metis unat_1 unsigned_word_eqI)
  have m': "unat (mtx_original_priority (k_mutexes s i)) < 32" "live (tstat s t)" using m o by (simp_all add: mutex_ok_def)
  have ok1: "sys_ok ?s1" using ok by simp
  have lv1: "live (tstat ?s1 t)" using m'(2) by simp
  obtain s2 where s2: "(if mtx_original_priority (k_mutexes s i) \<noteq> th_current_priority (thread ?s1 t)
      then do { (_, s) \<leftarrow> rt_thread_control t (THREAD_CHANGE_PRIORITY (mtx_original_priority (k_mutexes s i))) ?s1; Some s }
      else Some ?s1) = Some s2" "sys_ok s2" "prio_step t (mtx_original_priority (k_mutexes s i)) ?s1 s2"
    by (rule restore_prio_run [OF ok1 lv1 m'(1)])
  note P = prio_stepD [OF s2(3)]
  have "rt_mutex_release i s = mutex_hand_over i s2"
    using ipc_object_okD(1) [OF sys_okD(1) [OF ok] i] t o(1) h s2(1)
    by (auto simp: rt_mutex_release_def context_checks mutex_hand_over_def bind_Some_iff split: if_splits)
  moreover have "k_mutexes s2 i = (k_mutexes s i)\<lparr>mtx_hold := 0\<rparr>" using P(3) h by simp
  moreover have "k_tlists s2 (Susp (KMutex i)) = q" using P(9) [of "Susp (KMutex i)"] o(3) by simp
  ultimately show thesis using that s2(2,3) by blast
qed

lemma rt_mutex_release_free:
  assumes ok: "sys_ok s" and i: "ipc_object_ok (KMutex i) s" and t: "running_in t s"
    and m: "mutex_ok i s" and v: "mutex_abs i s = (Some (t, 1), [])"
  shows "\<exists>s'. rt_mutex_release i s = Some (RT_EOK, s') \<and> sys_ok s' \<and> mutex_ok i s' \<and>
     mutex_abs i s' = (None, []) \<and> th_current_priority (thread s' t) = mtx_original_priority (k_mutexes s i)"
proof -
  obtain s2 where s2: "rt_mutex_release i s = mutex_hand_over i s2" "sys_ok s2"
    "k_mutexes s2 i = (k_mutexes s i)\<lparr>mtx_hold := 0\<rparr>" "k_tlists s2 (Susp (KMutex i)) = []"
    "prio_step t (mtx_original_priority (k_mutexes s i)) (upd_mutex i (\<lambda>m. m\<lparr>mtx_hold := mtx_hold m - 1\<rparr>) s) s2"
    by (rule rt_mutex_release_last [OF ok i t m v]) (rule that; assumption)
  have "mtx_value (k_mutexes s i) = 0" using m v by (auto simp: mutex_abs_def mutex_ok_def)
  then show ?thesis using s2 prio_stepD(8) [OF s2(5), of t]
    by (simp add: mutex_hand_over_def mutex_abs_def mutex_ok_def)
qed

lemma rt_mutex_release_hands_over:
  assumes ok: "sys_ok s" and i: "ipc_object_ok (KMutex i) s" and t: "running_in t s"
    and m: "mutex_ok i s" and v: "mutex_abs i s = (Some (t, 1), u # q)"
  shows "\<exists>s'. rt_mutex_release i s = Some (RT_EOK, s') \<and> sys_ok s' \<and> mutex_ok i s' \<and>
     mutex_abs i s' = (Some (u, 1), q) \<and> runnable (tstat s' u) \<and> th_error (thread s' u) = th_error (thread s u) \<and>
     (\<forall>x. th_current_priority (thread s' x) =
        (if x = t then mtx_original_priority (k_mutexes s i) else th_current_priority (thread s x)))"
proof -
  obtain s2 where s2: "rt_mutex_release i s = mutex_hand_over i s2" "sys_ok s2"
    "k_mutexes s2 i = (k_mutexes s i)\<lparr>mtx_hold := 0\<rparr>" "k_tlists s2 (Susp (KMutex i)) = u # q"
    "prio_step t (mtx_original_priority (k_mutexes s i)) (upd_mutex i (\<lambda>m. m\<lparr>mtx_hold := mtx_hold m - 1\<rparr>) s) s2"
    by (rule rt_mutex_release_last [OF ok i t m v]) (rule that; assumption)
  note P = prio_stepD [OF s2(5)]
  let ?s3 = "upd_mutex i (\<lambda>m. m\<lparr>mtx_owner := Some u, mtx_original_priority := th_current_priority (thread s2 u),
     mtx_hold := mtx_hold m + 1\<rparr>) s2"
  have h: "wait_head (Susp (KMutex i)) (KMutex i)" by (simp add: wait_head_def)
  have st: "tstat s2 u = RT_THREAD_SUSPEND" using waiting_suspended [OF sys_okD(1) [OF s2(2)] h, of u] s2(4) by simp
  have pr: "tprio s2 u < 32" using prio_ok_number_mask [OF sched_invD(8) [OF sys_okD(3) [OF s2(2)]], of u] st by simp
  have dist: "distinct (u # q)" using sched_invD(1) [OF sys_okD(3) [OF s2(2)]] s2(4) by (metis table_wf_def)
  have ok3: "sys_ok ?s3" and l3: "k_tlists ?s3 (Susp (KMutex i)) = u # q" using s2 by simp_all
  obtain s4 where s4: "rt_ipc_list_resume (Susp (KMutex i)) ?s3 = Some s4" "sys_ok s4" "core_frame ?s3 s4"
    "k_tlists s4 (Susp (KMutex i)) = q" "runnable (tstat s4 u)" "th_error (thread s4 u) = th_error (thread ?s3 u)"
    by (rule ipc_list_resume_run [OF ok3 h l3]) (rule that; assumption)
  obtain s5 where s5: "rt_schedule s4 = Some s5" "sys_ok s5" "core_frame s4 s5"
    "\<And>h. \<forall>p. h \<noteq> Ready p \<Longrightarrow> k_tlists s5 h = k_tlists s4 h"
    "\<And>t. runnable (tstat s5 t) \<longleftrightarrow> runnable (tstat s4 t)" "\<And>t. th_error (thread s5 t) = th_error (thread s4 t)"
    by (rule rt_schedule_run [OF s4(2)]) (rule that; assumption)
  have rel: "rt_mutex_release i s = Some (RT_EOK, s5)"
    using s2(1,4) s4(1) s5(1) by (simp add: mutex_hand_over_def)
  have mx: "k_mutexes s5 i = (k_mutexes s i)\<lparr>mtx_owner := Some u, mtx_hold := 1,
      mtx_original_priority := th_current_priority (thread s2 u)\<rparr>"
    using core_frame_fields(2) [OF s4(3)] core_frame_fields(2) [OF s5(3)] s2(3) by simp
  have q: "k_tlists s5 (Susp (KMutex i)) = q" using s5(4) [of "Susp (KMutex i)"] s4(4) by simp
  have run: "runnable (tstat s5 u)" using s5(5) s4(5) by simp
  have "mtx_value (k_mutexes s i) = 0" using m v by (auto simp: mutex_abs_def mutex_ok_def)
  then have "mutex_ok i s5" using mx q run pr dist by (auto simp: mutex_ok_def live_def runnable_def)
  moreover have "th_error (thread s5 u) = th_error (thread s u)" using s5(6) s4(6) P(7) [of u] by simp
  moreover have "th_current_priority (thread s5 x) =
        (if x = t then mtx_original_priority (k_mutexes s i) else th_current_priority (thread s x))" for x
    using core_frame_thread(1) [OF s5(3), of x] core_frame_thread(1) [OF s4(3), of x] P(8) [of x] by simp
  ultimately show ?thesis using rel s5(2) mx q run by (simp add: mutex_abs_def)
qed

section \<open>Priority inheritance\<close>

lemma inherit_take:
  assumes ok: "sys_ok s" and i: "ipc_object_ok (KMutex i) s" and t: "running_in t s"
    and m: "mutex_ok i s" and v: "mutex_abs i s = (Some (u, n), q)" and u: "u \<noteq> t"
    and time: "time \<noteq> 0" "time < 0x7FFFFFFF" and fl: "oflag s (KMutex i) = RT_IPC_FLAG_PRIO"
    and inh: "inherit_ok i s" and r: "rt_mutex_take i time s = Some (out, s')"
  shows "inherit_ok i s'"
proof -
  obtain W: "mutex_abs i s' = (Some (u, n), wait_insert s (oflag s (KMutex i)) t q)"
    "\<And>x. th_current_priority (thread s' x) =
        (if x = u then min (th_current_priority (thread s t)) (th_current_priority (thread s u))
         else th_current_priority (thread s x))"
    using rt_mutex_take_waits [OF ok i t m v u time] r by auto
  let ?pr = "\<lambda>x. th_current_priority (thread s x)" and ?pr' = "\<lambda>x. th_current_priority (thread s' x)"
  have o: "mtx_owner (k_mutexes s i) = Some u" "k_tlists s (Susp (KMutex i)) = q" using v by (auto simp: mutex_abs_def)
  have nu: "u \<notin> set q" using m o by (simp add: mutex_ok_def)
  have o': "mtx_owner (k_mutexes s' i) = Some u" "k_tlists s' (Susp (KMutex i)) = prio_insert ?pr t q"
    using W(1) fl by (auto simp: mutex_abs_def wait_insert_def)
  have "map ?pr' (prio_insert ?pr t q) = map ?pr (prio_insert ?pr t q)"
    by (rule map_cong) (use W(2) nu u in auto)
  moreover have "sorted (map ?pr (prio_insert ?pr t q))"
    using inh o(2) by (intro sorted_prio_insert) (simp add: inherit_ok_def)
  ultimately have "sorted (map ?pr' (prio_insert ?pr t q))" by (simp only:)
  moreover have "?pr' u \<le> ?pr' w" if "w \<in> set (prio_insert ?pr t q)" for w
  proof -
    have "w = t \<or> w \<in> set q" "w \<noteq> u" using that nu u by auto
    then have "min (?pr t) (?pr u) \<le> ?pr w" using inh o by (auto simp: inherit_ok_def min.coboundedI2)
    then show ?thesis using W(2) \<open>w \<noteq> u\<close> by simp
  qed
  ultimately show ?thesis using o' by (simp add: inherit_ok_def)
qed

lemma inherit_release:
  assumes ok: "sys_ok s" and i: "ipc_object_ok (KMutex i) s" and t: "running_in t s"
    and m: "mutex_ok i s" and v: "mutex_abs i s = (Some (t, 1), u # q)" and inh: "inherit_ok i s"
    and r: "rt_mutex_release i s = Some (e, s')"
  shows "inherit_ok i s'"
proof -
  obtain R: "mutex_abs i s' = (Some (u, 1), q)"
    "\<And>x. th_current_priority (thread s' x) =
        (if x = t then mtx_original_priority (k_mutexes s i) else th_current_priority (thread s x))"
    using rt_mutex_release_hands_over [OF ok i t m v] r by auto
  have o: "mtx_owner (k_mutexes s i) = Some t" "k_tlists s (Susp (KMutex i)) = u # q" using v by (auto simp: mutex_abs_def)
  have nt: "t \<notin> set (u # q)" using m o by (simp add: mutex_ok_def)
  have o': "mtx_owner (k_mutexes s' i) = Some u" "k_tlists s' (Susp (KMutex i)) = q"
    using R(1) by (auto simp: mutex_abs_def)
  have same: "th_current_priority (thread s' x) = th_current_priority (thread s x)" if "x \<in> set (u # q)" for x
    using R(2) [of x] that nt by auto
  then have "map (\<lambda>x. th_current_priority (thread s' x)) q = map (\<lambda>x. th_current_priority (thread s x)) q" by simp
  moreover have "sorted (map (\<lambda>x. th_current_priority (thread s x)) q)" using inh o(2) by (simp add: inherit_ok_def)
  ultimately have "sorted (map (\<lambda>x. th_current_priority (thread s' x)) q)" by (simp only:)
  then show ?thesis using o' o(2) inh same by (simp add: inherit_ok_def)
qed

section \<open>Creation and removal\<close>

lemma rt_mutex_init_ok:
  assumes ok: "kernel_ok s" and r: "rt_mutex_init i name flag s = Some (e, s')" and f: "ipc_flag_ok flag"
  shows "kernel_ok s'" "ipc_object_ok (KMutex i) s'" "mutex_ok i s'" "mutex_abs i s' = (None, [])"
proof -
  obtain s1 where s1: "rt_object_init (KMutex i) (class_of (KMutex i)) name s = Some s1"
    and s': "s' = set_oflag (KMutex i) flag (upd_mutex i (\<lambda>_. mutex_start) (rt_ipc_object_init (KMutex i) s1))"
    using r by (auto simp: rt_mutex_init_def bind_Some_iff Let_def)
  note O = object_init_ok [OF ok _ s1, simplified]
  show "kernel_ok s'" unfolding s' by (rule kernel_ok_upd_flag) (use O in \<open>simp_all add: ipc_object_init_same\<close>)
  show "ipc_object_ok (KMutex i) s'" "mutex_ok i s'" "mutex_abs i s' = (None, [])"
    using O f by (simp_all add: s' ipc_object_ok_def mutex_ok_def mutex_abs_def mutex_start_def ipc_object_init_same)
qed

lemma rt_mutex_create_ok:
  assumes ok: "kernel_ok s" and fresh: "\<not> listed (KMutex i) s" and f: "ipc_flag_ok flag"
    and r: "rt_mutex_create name flag (Some i) s = Some (a, s')"
  shows "kernel_ok s'" "ipc_object_ok (KMutex i) s'" "mutex_ok i s'" "mutex_abs i s' = (None, [])"
proof -
  obtain b s1 where s1: "rt_object_allocate (class_of (KMutex i)) name (Some (KMutex i)) s = Some (b, s1)"
    and s': "s' = set_oflag (KMutex i) flag (upd_mutex i (\<lambda>_. mutex_start) (rt_ipc_object_init (KMutex i) s1))"
    using r by (auto simp: rt_mutex_create_def bind_Some_iff Let_def)
  note O = object_allocate_ok [OF ok _ fresh s1, simplified]
  show "kernel_ok s'" unfolding s' by (rule kernel_ok_upd_flag) (use O in \<open>simp_all add: ipc_object_init_same\<close>)
  show "ipc_object_ok (KMutex i) s'" "mutex_ok i s'" "mutex_abs i s' = (None, [])"
    using O f by (simp_all add: s' ipc_object_ok_def mutex_ok_def mutex_abs_def mutex_start_def ipc_object_init_same)
qed

text \<open>A thread waiting for a mutex that is removed gets the error code.\<close>

lemma rt_mutex_detach_wakes_all:
  assumes ok: "sys_ok s" and i: "ipc_object_ok (KMutex i) s" and st: "rt_object_is_systemobject (KMutex i) s"
    and sn: "senders_ok s"
  shows "\<exists>s'. rt_mutex_detach i s = Some (RT_EOK, s') \<and> kernel_ok s' \<and> \<not> listed (KMutex i) s' \<and>
     (\<forall>t \<in> set (snd (mutex_abs i s)). runnable (tstat s' t) \<and>
        rt_mutex_take_resume i t time s' = Some (Ret (- RT_ERROR), s'))"
proof -
  have e: "k_tlists s (SuspSender (KMutex i)) = []" using sn by (auto simp: senders_ok_def)
  obtain s1 where "rt_ipc_list_resume_all (Susp (KMutex i)) s = Some s1"
    "kernel_ok (rt_object_detach (KMutex i) s1)" "\<not> listed (KMutex i) (rt_object_detach (KMutex i) s1)"
    "\<And>t. t \<in> set (k_tlists s (Susp (KMutex i))) \<Longrightarrow> runnable (tstat s1 t) \<and> th_error (thread s1 t) = - RT_ERROR"
    by (rule ipc_detach_total [OF ok ipc_object_waitable [OF i] e]) (rule that; assumption)
  then show ?thesis using ipc_object_okD(1) [OF sys_okD(1) [OF ok] i] st
    by (simp add: rt_mutex_detach_def mutex_abs_def rt_mutex_take_resume_def)
qed

lemma rt_mutex_delete_wakes_all:
  assumes ok: "sys_ok s" and i: "ipc_object_ok (KMutex i) s" and st: "\<not> rt_object_is_systemobject (KMutex i) s"
    and sn: "senders_ok s" and irq: "k_irq_nest s = 0"
  shows "\<exists>s'. rt_mutex_delete i s = Some (RT_EOK, s') \<and> kernel_ok s' \<and> \<not> listed (KMutex i) s' \<and>
     (\<forall>t \<in> set (snd (mutex_abs i s)). runnable (tstat s' t) \<and> th_error (thread s' t) = - RT_ERROR)"
proof -
  have e: "k_tlists s (SuspSender (KMutex i)) = []" using sn by (auto simp: senders_ok_def)
  obtain s1 where s1: "rt_ipc_list_resume_all (Susp (KMutex i)) s = Some s1"
    "\<And>t. t \<in> set (k_tlists s (Susp (KMutex i))) \<Longrightarrow> runnable (tstat s1 t) \<and> th_error (thread s1 t) = - RT_ERROR"
    "\<not> rt_object_is_systemobject (KMutex i) s \<Longrightarrow> \<exists>s2. rt_object_delete (KMutex i) s1 = Some s2 \<and> kernel_ok s2 \<and>
       \<not> listed (KMutex i) s2 \<and> KMutex i \<in> set (k_freed s2) \<and> k_threads s2 = k_threads s1"
    by (rule ipc_detach_total [OF ok ipc_object_waitable [OF i] e]) (rule that; assumption)
  then show ?thesis using ipc_object_okD(1) [OF sys_okD(1) [OF ok] i] st irq
    by (auto simp: rt_mutex_delete_def mutex_abs_def rt_debug_not_in_interrupt_def rt_interrupt_get_nest_def)
qed

section \<open>Refinement of an owned lock\<close>

fun mutex_take_spec :: "(tid list \<Rightarrow> tid list) \<Rightarrow> tid \<Rightarrow> int \<Rightarrow> (tid \<times> nat) option \<times> tid list \<Rightarrow>
    rt_err outcome \<times> (tid \<times> nat) option \<times> tid list" where
  "mutex_take_spec enq t time (None, q) = (Ret RT_EOK, Some (t, 1), q)"
| "mutex_take_spec enq t time (Some (u, n), q) =
     (if u = t then (Ret RT_EOK, Some (t, Suc n), q)
      else if time = 0 then (Ret (- RT_ETIMEOUT), Some (u, n), q) else (Wait, Some (u, n), enq q))"

fun mutex_release_spec :: "tid \<Rightarrow> (tid \<times> nat) option \<times> tid list \<Rightarrow> rt_err \<times> (tid \<times> nat) option \<times> tid list" where
  "mutex_release_spec t (None, q) = (- RT_ERROR, None, q)"
| "mutex_release_spec t (Some (u, n), q) =
     (if u \<noteq> t then (- RT_ERROR, Some (u, n), q)
      else if 1 < n then (RT_EOK, Some (t, n - 1), q)
      else (RT_EOK, (case q of [] \<Rightarrow> (None, []) | w # q \<Rightarrow> (Some (w, 1), q))))"

lemma mutex_ok_abs:
  assumes "mutex_ok i s" "mutex_abs i s = (a, q)"
  shows "a = None \<Longrightarrow> q = []" "a = Some (u, n) \<Longrightarrow> 0 < n" "a = Some (u, n) \<Longrightarrow> mtx_owner (k_mutexes s i) = Some u"
  using assms by (auto simp: mutex_ok_def mutex_abs_def unat_gt_0 split: option.splits)

lemma mutex_take_correct:
  assumes ok: "sys_ok s" and i: "ipc_object_ok (KMutex i) s" and t: "running_in t s" and m: "mutex_ok i s"
    and time: "time < 0x7FFFFFFF" and depth: "\<forall>n q. mutex_abs i s = (Some (t, n), q) \<longrightarrow> n < 255"
  shows "\<exists>r s'. rt_mutex_take i time s = Some (r, s') \<and> sys_ok s' \<and> mutex_ok i s' \<and>
     (r, mutex_abs i s') = mutex_take_spec (wait_insert s (oflag s (KMutex i)) t) t time (mutex_abs i s)"
proof (cases "(t, mutex_abs i s)" rule: mutex_release_spec.cases)
  case (1 t' q)
  then have a: "mutex_abs i s = (None, q)" by simp
  show ?thesis using rt_mutex_take_free [OF ok i t m a, of time] mutex_ok_abs(1) [OF m a] by (auto simp: a)
next
  case (2 t' u n q)
  then have a: "mutex_abs i s = (Some (u, n), q)" by simp
  consider "u = t" | "u \<noteq> t" "time = 0" | "u \<noteq> t" "time \<noteq> 0" by blast
  then show ?thesis
  proof cases
    case 1
    then show ?thesis using rt_mutex_take_again_owner [OF ok i t m, of n q time] a depth by auto
  next
    case 2
    then show ?thesis using rt_mutex_take_refused [OF ok i t m a] by (auto simp: a)
  next
    case 3
    then show ?thesis using rt_mutex_take_waits [OF ok i t m a 3 time] by (auto simp: a)
  qed
qed

text \<open>
  C8: Taking a mutex from a running thread always returns to the kernel and does what an owned,
  recursive lock prescribes: a free mutex becomes the caller's, its owner takes it once more, and
  any other thread is refused at once or joins the waiting threads.  So a mutex never has two
  owners.  The recursion depth has to stay below 255, since it is kept in eight bits.
\<close>

theorem rt_mutex_take_refines:
  assumes ok: "sys_ok s" and i: "ipc_object_ok (KMutex i) s" and t: "running_in t s" and m: "mutex_ok i s"
    and time: "time < 0x7FFFFFFF" and depth: "\<forall>n q. mutex_abs i s = (Some (t, n), q) \<longrightarrow> n < 255"
  shows "\<exists>r s'. rt_mutex_take i time s = Some (r, s') \<and> sys_ok s' \<and> mutex_ok i s' \<and>
     (r, mutex_abs i s') = mutex_take_spec (wait_insert s (oflag s (KMutex i)) t) t time (mutex_abs i s)"
  by (rule mutex_take_correct [OF assms])

lemma mutex_release_correct:
  assumes ok: "sys_ok s" and i: "ipc_object_ok (KMutex i) s" and t: "running_in t s" and m: "mutex_ok i s"
  shows "\<exists>e s'. rt_mutex_release i s = Some (e, s') \<and> sys_ok s' \<and> mutex_ok i s' \<and>
     (e, mutex_abs i s') = mutex_release_spec t (mutex_abs i s) \<and>
     (fst (mutex_abs i s) = Some (t, 1) \<longrightarrow> th_current_priority (thread s' t) = mtx_original_priority (k_mutexes s i))"
proof (cases "(t, mutex_abs i s)" rule: mutex_release_spec.cases)
  case (1 t' q)
  then have a: "mutex_abs i s = (None, q)" by simp
  then have "mtx_owner (k_mutexes s i) \<noteq> Some t" by (auto simp: mutex_abs_def)
  then show ?thesis using rt_mutex_release_not_owner [OF ok i t] m by (auto simp: a)
next
  case (2 t' u n q)
  then have a: "mutex_abs i s = (Some (u, n), q)" by simp
  note M = mutex_ok_abs(2,3) [OF m a refl]
  consider "u \<noteq> t" | "u = t" "1 < n" | "u = t" "n = 1" using M(1) by linarith
  then show ?thesis
  proof cases
    case 1
    then show ?thesis using rt_mutex_release_not_owner [OF ok i t] m M by (auto simp: a)
  next
    case 2
    have "n = Suc (Suc (n - 2))" using 2(2) by simp
    then have "mutex_abs i s = (Some (t, Suc (Suc (n - 2))), q)" using a 2(1) by simp
    from rt_mutex_release_nested [OF ok i t m this] show ?thesis using 2 by (auto simp: a)
  next
    case 3
    show ?thesis
    proof (cases q)
      case Nil
      then show ?thesis using rt_mutex_release_free [OF ok i t m] a 3 by auto
    next
      case (Cons w q')
      then show ?thesis using rt_mutex_release_hands_over [OF ok i t m, of w q'] a 3 by auto
    qed
  qed
qed

text \<open>
  C9: Releasing a mutex from a running thread always returns: a thread that does not own it gets
  an error, a nested release only counts down, and the last one frees the mutex or hands it to
  the first waiting thread.  On the last release the caller is back at the priority it had when
  it took the mutex.
\<close>

theorem rt_mutex_release_refines:
  assumes ok: "sys_ok s" and i: "ipc_object_ok (KMutex i) s" and t: "running_in t s" and m: "mutex_ok i s"
  shows "\<exists>e s'. rt_mutex_release i s = Some (e, s') \<and> sys_ok s' \<and> mutex_ok i s' \<and>
     (e, mutex_abs i s') = mutex_release_spec t (mutex_abs i s) \<and>
     (fst (mutex_abs i s) = Some (t, 1) \<longrightarrow> th_current_priority (thread s' t) = mtx_original_priority (k_mutexes s i))"
  by (rule mutex_release_correct [OF assms])


end
