(* ===== verification/Event.thy ===== *)
theory Event
  imports IpcBase
begin

text \<open>
  Event flag groups, \<^verbatim>\<open>src/ipc.c\<close>.  A waiting thread keeps the flags it wants in
  \<open>th_event_set\<close> and how it wants them in \<open>th_event_info\<close>; sending flags walks the waiting threads
  and resumes those whose wish is fulfilled.
\<close>

abbreviation (input) RT_EVENT_FLAG_AND :: rt_uint8 where "RT_EVENT_FLAG_AND \<equiv> 1"
abbreviation (input) RT_EVENT_FLAG_OR :: rt_uint8 where "RT_EVENT_FLAG_OR \<equiv> 2"
abbreviation (input) RT_EVENT_FLAG_CLEAR :: rt_uint8 where "RT_EVENT_FLAG_CLEAR \<equiv> 4"

section \<open>Operations\<close>

definition upd_event :: "oid \<Rightarrow> (rt_uint32 \<Rightarrow> rt_uint32) \<Rightarrow> kstate \<Rightarrow> kstate" where
  "upd_event i f s = s\<lparr>k_events := (k_events s)(i := \<lparr>ev_set = f (ev_set (k_events s i))\<rparr>)\<rparr>"

definition rt_event_init :: "oid \<Rightarrow> rt_uint8 list \<Rightarrow> rt_uint8 \<Rightarrow> kstate \<Rightarrow> (rt_err \<times> kstate) option" where
  "rt_event_init i name flag s = do {
     s \<leftarrow> rt_object_init (KEvent i) RT_Object_Class_Event name s;
     let s = set_oflag (KEvent i) flag s;
     let s = rt_ipc_object_init (KEvent i) s;
     Some (RT_EOK, upd_event i (\<lambda>_. 0) s)
   }"

definition rt_event_detach :: "oid \<Rightarrow> kstate \<Rightarrow> (rt_err \<times> kstate) option" where
  "rt_event_detach i s = do {
     rt_assert (rt_object_get_type (KEvent i) s = RT_Object_Class_Event);
     rt_assert (rt_object_is_systemobject (KEvent i) s);
     s \<leftarrow> rt_ipc_list_resume_all (Susp (KEvent i)) s;
     Some (RT_EOK, rt_object_detach (KEvent i) s)
   }"

definition rt_event_create ::
    "rt_uint8 list \<Rightarrow> rt_uint8 \<Rightarrow> oid option \<Rightarrow> kstate \<Rightarrow> (oid option \<times> kstate) option" where
  "rt_event_create name flag alloc s = do {
     rt_debug_not_in_interrupt s;
     (_, s) \<leftarrow> rt_object_allocate RT_Object_Class_Event name (map_option KEvent alloc) s;
     (case alloc of
        None \<Rightarrow> Some (None, s)
      | Some i \<Rightarrow>
          (let s = set_oflag (KEvent i) flag s;
               s = rt_ipc_object_init (KEvent i) s
           in Some (Some i, upd_event i (\<lambda>_. 0) s)))
   }"

definition rt_event_delete :: "oid \<Rightarrow> kstate \<Rightarrow> (rt_err \<times> kstate) option" where
  "rt_event_delete i s = do {
     rt_assert (rt_object_get_type (KEvent i) s = RT_Object_Class_Event);
     rt_assert (\<not> rt_object_is_systemobject (KEvent i) s);
     rt_debug_not_in_interrupt s;
     s \<leftarrow> rt_ipc_list_resume_all (Susp (KEvent i)) s;
     s \<leftarrow> rt_object_delete (KEvent i) s;
     Some (RT_EOK, s)
   }"

text \<open>
  Whether the wish \<open>want\<close>, with the given options, is fulfilled by the flags \<open>cur\<close>, and what the
  thread then finds in its \<^verbatim>\<open>event_set\<close>.
\<close>

definition event_match :: "rt_uint8 \<Rightarrow> rt_uint32 \<Rightarrow> rt_uint32 \<Rightarrow> rt_uint32 option" where
  "event_match info want cur =
     (if info AND RT_EVENT_FLAG_AND \<noteq> 0
      then (if want AND cur = want then Some want else None)
      else if info AND RT_EVENT_FLAG_OR \<noteq> 0
      then (if want AND cur \<noteq> 0 then Some (want AND cur) else None)
      else None)"

text \<open>
  The loop of \<^verbatim>\<open>rt_event_send\<close> over the waiting threads.  The successor of a node is read
  before the node is unlinked and only the visited node is ever unlinked, so the loop visits the
  list as it was at the start; the flag is \<^verbatim>\<open>need_schedule\<close>.
\<close>

fun event_wake :: "oid \<Rightarrow> tid list \<Rightarrow> bool \<Rightarrow> kstate \<Rightarrow> (bool \<times> kstate) option" where
  "event_wake i [] need s = Some (need, s)"
| "event_wake i (t # ts) need s =
     (case event_match (th_event_info (thread s t)) (th_event_set (thread s t)) (ev_set (k_events s i)) of
        None \<Rightarrow> event_wake i ts need s
      | Some got \<Rightarrow> do {
          let s = upd_thread t (\<lambda>th. th\<lparr>th_event_set := got\<rparr>) s;
          let s = (if th_event_info (thread s t) AND RT_EVENT_FLAG_CLEAR \<noteq> 0
                   then upd_event i (\<lambda>v. v AND NOT got) s else s);
          (_, s) \<leftarrow> rt_thread_resume t s;
          event_wake i ts True s
        })"

definition rt_event_send :: "oid \<Rightarrow> rt_uint32 \<Rightarrow> kstate \<Rightarrow> (rt_err \<times> kstate) option" where
  "rt_event_send i evs s = do {
     rt_assert (rt_object_get_type (KEvent i) s = RT_Object_Class_Event);
     if evs = 0 then Some (- RT_ERROR, s)
     else do {
       let s = upd_event i (\<lambda>v. v OR evs) s;
       (need_schedule, s) \<leftarrow> event_wake i (k_tlists s (Susp (KEvent i))) False s;
       s \<leftarrow> (if need_schedule then rt_schedule s else Some s);
       Some (RT_EOK, s)
     }
   }"

text \<open>The second result is what is stored through \<^verbatim>\<open>recved\<close>.\<close>

definition rt_event_recv ::
    "oid \<Rightarrow> rt_uint32 \<Rightarrow> rt_uint8 \<Rightarrow> int \<Rightarrow> kstate \<Rightarrow> ((rt_err \<times> rt_uint32 option) outcome \<times> kstate) option" where
  "rt_event_recv i evs opt time s = do {
     rt_debug_in_thread_context s;
     rt_assert (rt_object_get_type (KEvent i) s = RT_Object_Class_Event);
     if evs = 0 then Some (Ret (- RT_ERROR, None), s)
     else do {
       t \<leftarrow> rt_thread_self s;
       let s = upd_thread t (\<lambda>th. th\<lparr>th_error := RT_EOK\<rparr>) s;
       let cur = ev_set (k_events s i);
       rt_assert (opt AND RT_EVENT_FLAG_AND \<noteq> 0 \<or> opt AND RT_EVENT_FLAG_OR \<noteq> 0);
       if (if opt AND RT_EVENT_FLAG_AND \<noteq> 0 then cur AND evs = evs else cur AND evs \<noteq> 0)
       then Some (Ret (RT_EOK, Some (cur AND evs)),
         if opt AND RT_EVENT_FLAG_CLEAR \<noteq> 0 then upd_event i (\<lambda>v. v AND NOT evs) s else s)
       else if time = 0
       then Some (Ret (- RT_ETIMEOUT, None), upd_thread t (\<lambda>th. th\<lparr>th_error := - RT_ETIMEOUT\<rparr>) s)
       else do {
         let s = upd_thread t (\<lambda>th. th\<lparr>th_event_set := evs, th_event_info := opt\<rparr>) s;
         s \<leftarrow> wait_on (Susp (KEvent i)) t (oflag s (KEvent i)) time s;
         Some (Wait, s)
       }
     }
   }"

definition rt_event_recv_resume :: "tid \<Rightarrow> kstate \<Rightarrow> rt_err \<times> rt_uint32 option" where
  "rt_event_recv_resume t s =
     (if th_error (thread s t) \<noteq> RT_EOK then (th_error (thread s t), None)
      else (th_error (thread s t), Some (th_event_set (thread s t))))"

definition rt_event_control :: "oid \<Rightarrow> int \<Rightarrow> kstate \<Rightarrow> (rt_err \<times> kstate) option" where
  "rt_event_control i cmd s = do {
     rt_assert (rt_object_get_type (KEvent i) s = RT_Object_Class_Event);
     if cmd = RT_IPC_CMD_RESET then do {
       s \<leftarrow> rt_ipc_list_resume_all (Susp (KEvent i)) s;
       let s = upd_event i (\<lambda>_. 0) s;
       s \<leftarrow> rt_schedule s;
       Some (RT_EOK, s)
     }
     else Some (- RT_ERROR, s)
   }"

section \<open>Specification of a scan\<close>

text \<open>
  What sending does to the waiting threads, on a map from threads to their wishes: who is woken
  with which flags, who goes on waiting, and the flags left.
\<close>

fun event_scan :: "(tid \<Rightarrow> rt_uint8 \<times> rt_uint32) \<Rightarrow> rt_uint32 \<Rightarrow> tid list \<Rightarrow>
    (tid \<times> rt_uint32) list \<times> tid list \<times> rt_uint32" where
  "event_scan wish cur [] = ([], [], cur)"
| "event_scan wish cur (t # ts) =
     (case event_match (fst (wish t)) (snd (wish t)) cur of
        None \<Rightarrow> (let (w, k, c) = event_scan wish cur ts in (w, t # k, c))
      | Some got \<Rightarrow>
          (let (w, k, c) = event_scan wish
             (if fst (wish t) AND RT_EVENT_FLAG_CLEAR \<noteq> 0 then cur AND NOT got else cur) ts
           in ((t, got) # w, k, c)))"

lemma event_match_mono: "event_match info want cur = None \<Longrightarrow> event_match info want (cur AND m) = None"
proof -
  assume a: "event_match info want cur = None"
  have "want AND cur = want" if "want AND (cur AND m) = want"
  proof -
    have "(want AND (cur AND m)) AND cur = want AND (cur AND m)"
      by (simp add: and.assoc and.commute and.left_commute)
    then show ?thesis using that by simp
  qed
  moreover have "want AND (cur AND m) = 0" if "want AND cur = 0"
    using that by (simp add: and.assoc [symmetric])
  ultimately show ?thesis using a by (auto simp: event_match_def split: if_splits)
qed

lemma event_scan_less:
  assumes "event_scan wish cur ts = (w, k, c)"
  shows "\<exists>m. c = cur AND m"
  using assms
proof (induction ts arbitrary: cur w k)
  case Nil
  then show ?case by (intro exI [of _ "- 1"]) simp
next
  case (Cons t ts)
  show ?case
  proof (cases "event_match (fst (wish t)) (snd (wish t)) cur")
    case None
    then show ?thesis using Cons.IH Cons.prems by (fastforce split: prod.splits)
  next
    case (Some got)
    let ?cur = "if fst (wish t) AND 4 \<noteq> 0 then cur AND NOT got else cur"
    obtain w' where "event_scan wish ?cur ts = (w', k, c)" using Cons.prems Some by (auto split: prod.splits)
    then obtain m where "c = ?cur AND m" using Cons.IH by blast
    then show ?thesis by (cases "fst (wish t) AND 4 \<noteq> 0") (auto simp: and.assoc)
  qed
qed

text \<open>No wake-up is lost: who goes on waiting is not satisfied by the flags left.\<close>

lemma event_scan_unmatched:
  assumes "event_scan wish cur ts = (w, k, c)" "t \<in> set k"
  shows "event_match (fst (wish t)) (snd (wish t)) c = None"
  using assms
proof (induction ts arbitrary: cur w k)
  case (Cons u ts)
  show ?case
  proof (cases "event_match (fst (wish u)) (snd (wish u)) cur")
    case None
    then obtain k' where k': "event_scan wish cur ts = (w, k', c)" "k = u # k'"
      using Cons.prems(1) by (auto split: prod.splits)
    then show ?thesis using Cons.IH [OF k'(1)] Cons.prems(2) event_scan_less [OF k'(1)] event_match_mono [OF None]
      by (cases "t = u") auto
  next
    case (Some got)
    then obtain w' where "event_scan wish (if fst (wish u) AND 4 \<noteq> 0 then cur AND NOT got else cur) ts = (w', k, c)"
      using Cons.prems(1) by (auto split: prod.splits)
    then show ?thesis using Cons.IH Cons.prems(2) by blast
  qed
qed simp

text \<open>Everyone is either woken, with flags that were set, or goes on waiting.\<close>

lemma event_scan_parts:
  assumes "event_scan wish cur ts = (w, k, c)"
  shows "set ts = fst ` set w \<union> set k"
    and "(t, got) \<in> set w \<Longrightarrow> \<exists>m. event_match (fst (wish t)) (snd (wish t)) (cur AND m) = Some got"
proof -
  have "set ts = fst ` set w \<union> set k \<and>
     ((t, got) \<in> set w \<longrightarrow> (\<exists>m. event_match (fst (wish t)) (snd (wish t)) (cur AND m) = Some got))"
    using assms
  proof (induction ts arbitrary: cur w k)
    case (Cons u ts)
    show ?case
    proof (cases "event_match (fst (wish u)) (snd (wish u)) cur")
      case None
      then obtain k' where k': "event_scan wish cur ts = (w, k', c)" "k = u # k'"
        using Cons.prems(1) by (auto split: prod.splits)
      then show ?thesis using Cons.IH [OF k'(1)] by auto
    next
      case (Some g)
      let ?cur = "if fst (wish u) AND 4 \<noteq> 0 then cur AND NOT g else cur"
      obtain w' where w': "event_scan wish ?cur ts = (w', k, c)" "w = (u, g) # w'"
        using Cons.prems(1) Some by (auto split: prod.splits)
      note IH = Cons.IH [OF w'(1)]
      have "\<exists>m. event_match (fst (wish t)) (snd (wish t)) (cur AND m) = Some got" if "(t, got) \<in> set w"
      proof (cases "(t, got) \<in> set w'")
        case True
        then obtain m where "event_match (fst (wish t)) (snd (wish t)) (?cur AND m) = Some got" using IH by blast
        then show ?thesis by (cases "fst (wish u) AND 4 \<noteq> 0") (auto simp: and.assoc)
      next
        case False
        then have "t = u" "got = g" using that w'(2) by auto
        then show ?thesis using Some by (intro exI [of _ "- 1"]) simp
      qed
      then show ?thesis using IH w'(2) by auto
    qed
  qed simp
  then show "set ts = fst ` set w \<union> set k"
    "(t, got) \<in> set w \<Longrightarrow> \<exists>m. event_match (fst (wish t)) (snd (wish t)) (cur AND m) = Some got"
    by auto
qed

lemma event_scan_disjoint:
  "event_scan wish cur ts = (w, k, c) \<Longrightarrow> distinct ts \<Longrightarrow> fst ` set w \<inter> set k = {}"
proof (induction ts arbitrary: cur w k)
  case (Cons u ts)
  show ?case
  proof (cases "event_match (fst (wish u)) (snd (wish u)) cur")
    case None
    then obtain k' where k': "event_scan wish cur ts = (w, k', c)" "k = u # k'"
      using Cons.prems(1) by (auto split: prod.splits)
    show ?thesis using Cons.IH [OF k'(1)] Cons.prems(2) event_scan_parts(1) [OF k'(1)] k'(2) by auto
  next
    case (Some g)
    then obtain w' cur' where w': "event_scan wish cur' ts = (w', k, c)" "w = (u, g) # w'"
      using Cons.prems(1) by (auto split: prod.splits)
    show ?thesis using Cons.IH [OF w'(1)] Cons.prems(2) event_scan_parts(1) [OF w'(1)] w'(2) by auto
  qed
qed simp

section \<open>The loop implements the scan\<close>

lemma upd_event_fields [simp]:
  "k_threads (upd_event i f s) = k_threads s" "k_objs (upd_event i f s) = k_objs s"
  "k_olists (upd_event i f s) = k_olists s" "k_tlists (upd_event i f s) = k_tlists s"
  "k_current (upd_event i f s) = k_current s" "k_irq_nest (upd_event i f s) = k_irq_nest s"
  "ev_set (k_events (upd_event i f s) i) = f (ev_set (k_events s i))"
  "j \<noteq> i \<Longrightarrow> k_events (upd_event i f s) j = k_events s j"
  "kernel_ok (upd_event i f s) = kernel_ok s" "sys_ok (upd_event i f s) = sys_ok s"
  by (simp_all add: upd_event_def)

abbreviation wishes :: "kstate \<Rightarrow> tid \<Rightarrow> rt_uint8 \<times> rt_uint32" where
  "wishes s t \<equiv> (th_event_info (thread s t), th_event_set (thread s t))"

lemma event_scan_cong:
  "(\<And>t. t \<in> set ts \<Longrightarrow> wish' t = wish t) \<Longrightarrow> event_scan wish' cur ts = event_scan wish cur ts"
  by (induction ts arbitrary: cur) (auto split: option.splits)

lemma event_wake_scan:
  assumes "sys_ok s" "k_tlists s (Susp (KEvent i)) = pre @ ts"
    "event_scan (wishes s) (ev_set (k_events s i)) ts = (w, k, c)"
  shows "\<exists>s'. event_wake i ts need s = Some (need \<or> w \<noteq> [], s') \<and> sys_ok s' \<and>
     k_tlists s' (Susp (KEvent i)) = pre @ k \<and> ev_set (k_events s' i) = c \<and>
     (\<forall>(t, got) \<in> set w. runnable (tstat s' t) \<and> th_event_set (thread s' t) = got \<and>
        th_error (thread s' t) = th_error (thread s t)) \<and>
     (\<forall>t. t \<notin> fst ` set w \<longrightarrow> thread s' t = thread s t)"
  using assms
proof (induction ts arbitrary: pre need s w k)
  case (Cons t ts)
  have h: "wait_head (Susp (KEvent i)) (KEvent i)" by (simp add: wait_head_def)
  show ?case
  proof (cases "event_match (th_event_info (thread s t)) (th_event_set (thread s t)) (ev_set (k_events s i))")
    case None
    then obtain k' where k': "event_scan (wishes s) (ev_set (k_events s i)) ts = (w, k', c)" "k = t # k'"
      using Cons.prems(3) by (auto split: prod.splits)
    have "k_tlists s (Susp (KEvent i)) = (pre @ [t]) @ ts" using Cons.prems(2) by simp
    from Cons.IH [OF Cons.prems(1) this k'(1), of need] show ?thesis using None k'(2) by simp
  next
    case (Some got)
    let ?cur = "if th_event_info (thread s t) AND 4 \<noteq> 0 then ev_set (k_events s i) AND NOT got else ev_set (k_events s i)"
    obtain w' where w': "event_scan (wishes s) ?cur ts = (w', k, c)" "w = (t, got) # w'"
      using Cons.prems(3) Some by (auto split: prod.splits)
    let ?s1 = "upd_thread t (\<lambda>th. th\<lparr>th_event_set := got\<rparr>) s"
    let ?s2 = "if th_event_info (thread s t) AND 4 \<noteq> 0 then upd_event i (\<lambda>v. v AND NOT got) ?s1 else ?s1"
    have s2: "sys_ok ?s2" "k_threads ?s2 = k_threads ?s1" "k_tlists ?s2 = k_tlists s" "ev_set (k_events ?s2 i) = ?cur"
      using sys_ok_upd_frame [OF Cons.prems(1), of "\<lambda>th. th\<lparr>th_event_set := got\<rparr>" t] by auto
    have dist: "distinct (pre @ t # ts)"
      using sched_invD(1) [OF sys_okD(3) [OF Cons.prems(1)]] Cons.prems(2) by (metis table_wf_def)
    have st: "tstat ?s2 t = RT_THREAD_SUSPEND"
      using waiting_suspended [OF sys_okD(1) [OF Cons.prems(1)] h, of t] Cons.prems(2) s2(2) by simp
    obtain s3 where s3: "rt_thread_resume t ?s2 = Some (RT_EOK, s3)" "sys_ok s3" "core_frame ?s2 s3"
      "\<And>h. \<forall>p. h \<noteq> Ready p \<Longrightarrow> k_tlists s3 h = removeAll t (k_tlists ?s2 h)"
      "runnable (tstat s3 t)" "\<And>u. u \<noteq> t \<Longrightarrow> thread s3 u = thread ?s2 u"
      "th_error (thread s3 t) = th_error (thread ?s2 t)"
      by (rule thread_resume_run [OF s2(1) st]) (rule that; assumption)
    have l3: "k_tlists s3 (Susp (KEvent i)) = pre @ ts"
      using s3(4) [of "Susp (KEvent i)"] s2(3) Cons.prems(2) dist by simp
    have c3: "ev_set (k_events s3 i) = ?cur" using core_frame_fields(3) [OF s3(3)] s2(4) by simp
    have o3: "thread s3 u = thread s u" if "u \<noteq> t" for u using s3(6) [OF that] s2(2) that by simp
    have e3: "th_event_set (thread s3 t) = got" "th_error (thread s3 t) = th_error (thread s t)"
      using core_frame_thread(4) [OF s3(3), of t] s3(7) s2(2) by simp_all
    have w3: "event_scan (wishes s3) (ev_set (k_events s3 i)) ts = (w', k, c)"
      unfolding c3 w'(1) [symmetric]
    proof (rule event_scan_cong)
      fix u assume "u \<in> set ts"
      then have "u \<noteq> t" using dist by auto
      then show "wishes s3 u = wishes s u" by (simp add: o3)
    qed
    obtain s' where s': "event_wake i ts True s3 = Some (True \<or> w' \<noteq> [], s')" "sys_ok s'"
      "k_tlists s' (Susp (KEvent i)) = pre @ k" "ev_set (k_events s' i) = c"
      "\<forall>(t, got) \<in> set w'. runnable (tstat s' t) \<and> th_event_set (thread s' t) = got \<and>
         th_error (thread s' t) = th_error (thread s3 t)"
      "\<forall>t. t \<notin> fst ` set w' \<longrightarrow> thread s' t = thread s3 t"
      using Cons.IH [OF s3(2) l3 w3, of True] by blast
    have sub: "fst ` set w' \<subseteq> set ts" using event_scan_parts(1) [OF w'(1)] by blast
    then have nt: "t \<notin> fst ` set w'" using dist by auto
    have "event_wake i (t # ts) need s = Some (need \<or> w \<noteq> [], s')"
      using Some s3(1) s'(1) w'(2) by (simp add: Let_def split: if_splits)
    moreover have "\<forall>(u, g) \<in> set w. runnable (tstat s' u) \<and> th_event_set (thread s' u) = g \<and>
         th_error (thread s' u) = th_error (thread s u)"
    proof (rule ballI, clarify)
      fix u g assume ug: "(u, g) \<in> set w"
      show "runnable (tstat s' u) \<and> th_event_set (thread s' u) = g \<and> th_error (thread s' u) = th_error (thread s u)"
      proof (cases "(u, g) \<in> set w'")
        case True
        then have "u \<noteq> t" using nt by force
        then show ?thesis using s'(5) True o3 [of u] by auto
      next
        case False
        then have "u = t" "g = got" using ug w'(2) by auto
        then show ?thesis using s'(6) nt s3(5) e3 by simp
      qed
    qed
    moreover have "thread s' u = thread s u" if "u \<notin> fst ` set w" for u
      using that s'(6) o3 [of u] w'(2) by auto
    ultimately show ?thesis using s'(2-4) by blast
  qed
qed simp

section \<open>Sending and receiving\<close>

definition event_abs :: "oid \<Rightarrow> kstate \<Rightarrow> rt_uint32 \<times> tid list" where
  "event_abs i s = (ev_set (k_events s i), k_tlists s (Susp (KEvent i)))"

text \<open>No thread waits for flags that are there.\<close>

definition event_inv :: "oid \<Rightarrow> kstate \<Rightarrow> bool" where
  "event_inv i s \<longleftrightarrow> (\<forall>t \<in> set (k_tlists s (Susp (KEvent i))).
     event_match (th_event_info (thread s t)) (th_event_set (thread s t)) (ev_set (k_events s i)) = None)"

text \<open>Scheduling changes neither the flags nor who waits for what.\<close>

lemma event_inv_core:
  assumes "core_frame s s'" "k_tlists s' (Susp (KEvent i)) = k_tlists s (Susp (KEvent i))" "event_inv i s"
  shows "event_inv i s'"
  using assms(3) by (simp add: event_inv_def assms(2) core_frame_fields [OF assms(1)] core_frame_thread [OF assms(1)])

lemma rt_event_send_scan:
  assumes ok: "sys_ok s" and i: "ipc_object_ok (KEvent i) s" and e: "evs \<noteq> 0"
    and sc: "event_scan (wishes s) (ev_set (k_events s i) OR evs) (k_tlists s (Susp (KEvent i))) = (w, k, c)"
  shows "\<exists>s'. rt_event_send i evs s = Some (RT_EOK, s') \<and> sys_ok s' \<and> event_abs i s' = (c, k) \<and> event_inv i s' \<and>
     (\<forall>(t, got) \<in> set w. runnable (tstat s' t) \<and> th_event_set (thread s' t) = got \<and>
        th_error (thread s' t) = th_error (thread s t))"
proof -
  let ?s1 = "upd_event i (\<lambda>v. v OR evs) s"
  have ok1: "sys_ok ?s1" using ok by simp
  have l1: "k_tlists ?s1 (Susp (KEvent i)) = [] @ k_tlists s (Susp (KEvent i))" by simp
  have sc1: "event_scan (wishes ?s1) (ev_set (k_events ?s1 i)) (k_tlists s (Susp (KEvent i))) = (w, k, c)"
    using sc by simp
  obtain s2 where s2: "event_wake i (k_tlists s (Susp (KEvent i))) False ?s1 = Some (False \<or> w \<noteq> [], s2)"
    "sys_ok s2" "k_tlists s2 (Susp (KEvent i)) = [] @ k" "ev_set (k_events s2 i) = c"
    "\<forall>(t, got) \<in> set w. runnable (tstat s2 t) \<and> th_event_set (thread s2 t) = got \<and>
       th_error (thread s2 t) = th_error (thread ?s1 t)"
    "\<forall>t. t \<notin> fst ` set w \<longrightarrow> thread s2 t = thread ?s1 t"
    using event_wake_scan [OF ok1 l1 sc1, of False] by blast
  have dist: "distinct (k_tlists s (Susp (KEvent i)))" using sched_invD(1) [OF sys_okD(3) [OF ok]] by (metis table_wf_def)
  have nw: "t \<notin> fst ` set w" if "t \<in> set k" for t using event_scan_disjoint [OF sc dist] that by blast
  have inv2: "event_inv i s2" unfolding event_inv_def
  proof
    fix t assume "t \<in> set (k_tlists s2 (Susp (KEvent i)))"
    then have t: "t \<in> set k" using s2(3) by simp
    then have "thread s2 t = thread s t" using nw s2(6) by simp
    then show "event_match (th_event_info (thread s2 t)) (th_event_set (thread s2 t)) (ev_set (k_events s2 i)) = None"
      using event_scan_unmatched [OF sc t] s2(4) by simp
  qed
  have "\<exists>s'. (if w \<noteq> [] then rt_schedule s2 else Some s2) = Some s' \<and> sys_ok s' \<and> core_frame s2 s' \<and>
      k_tlists s' (Susp (KEvent i)) = k_tlists s2 (Susp (KEvent i)) \<and>
      (\<forall>t. (runnable (tstat s' t) \<longleftrightarrow> runnable (tstat s2 t)) \<and> th_error (thread s' t) = th_error (thread s2 t))"
  proof (cases "w = []")
    case False
    obtain s' where "rt_schedule s2 = Some s'" "sys_ok s'" "core_frame s2 s'"
      "\<And>h. \<forall>p. h \<noteq> Ready p \<Longrightarrow> k_tlists s' h = k_tlists s2 h"
      "\<And>t. runnable (tstat s' t) \<longleftrightarrow> runnable (tstat s2 t)" "\<And>t. th_error (thread s' t) = th_error (thread s2 t)"
      by (rule rt_schedule_run [OF s2(2)]) (rule that; assumption)
    then show ?thesis using False by simp
  qed (simp add: s2(2))
  then obtain s' where s': "(if w \<noteq> [] then rt_schedule s2 else Some s2) = Some s'" "sys_ok s'" "core_frame s2 s'"
    "k_tlists s' (Susp (KEvent i)) = k_tlists s2 (Susp (KEvent i))"
    "\<And>t. (runnable (tstat s' t) \<longleftrightarrow> runnable (tstat s2 t)) \<and> th_error (thread s' t) = th_error (thread s2 t)" by blast
  have "rt_event_send i evs s = Some (RT_EOK, s')"
    using ipc_object_okD(1) [OF sys_okD(1) [OF ok] i] e s2(1) s'(1)
    by (simp add: rt_event_send_def Let_def split: if_splits)
  moreover have "event_abs i s' = (c, k)"
    using core_frame_fields(3) [OF s'(3)] s'(4) s2(3,4) by (simp add: event_abs_def)
  moreover have "event_inv i s'" by (rule event_inv_core [OF s'(3,4) inv2])
  moreover have "\<forall>(t, got) \<in> set w. runnable (tstat s' t) \<and> th_event_set (thread s' t) = got \<and>
        th_error (thread s' t) = th_error (thread s t)"
    using s2(5) s'(5) core_frame_thread(4) [OF s'(3)] by auto
  ultimately show ?thesis using s'(2) by blast
qed

lemma rt_event_recv_present:
  assumes ok: "sys_ok s" and i: "ipc_object_ok (KEvent i) s" and t: "running_in t s" and e: "evs \<noteq> 0"
    and m: "event_match opt evs (ev_set (k_events s i)) = Some got"
  shows "\<exists>s'. rt_event_recv i evs opt time s = Some (Ret (RT_EOK, Some got), s') \<and> sys_ok s' \<and>
     event_abs i s' = (if opt AND RT_EVENT_FLAG_CLEAR \<noteq> 0 then ev_set (k_events s i) AND NOT evs
       else ev_set (k_events s i), snd (event_abs i s)) \<and>
     (\<forall>u. th_event_info (thread s' u) = th_event_info (thread s u) \<and> th_event_set (thread s' u) = th_event_set (thread s u))"
proof -
  have "opt AND 1 \<noteq> 0 \<or> opt AND 2 \<noteq> 0" "got = ev_set (k_events s i) AND evs"
    "if opt AND 1 \<noteq> 0 then ev_set (k_events s i) AND evs = evs else ev_set (k_events s i) AND evs \<noteq> 0"
    using m by (auto simp: event_match_def and.commute split: if_splits)
  then show ?thesis using ipc_object_okD(1) [OF sys_okD(1) [OF ok] i] t e ok
    by (simp add: rt_event_recv_def context_checks event_abs_def Let_def)
qed

lemma rt_event_recv_waits:
  assumes ok: "sys_ok s" and i: "ipc_object_ok (KEvent i) s" and t: "running_in t s" and e: "evs \<noteq> 0"
    and opt: "opt AND RT_EVENT_FLAG_AND \<noteq> 0 \<or> opt AND RT_EVENT_FLAG_OR \<noteq> 0"
    and m: "event_match opt evs (ev_set (k_events s i)) = None"
    and time: "time \<noteq> 0" "time < 0x7FFFFFFF" and inv: "event_inv i s"
  shows "\<exists>s'. rt_event_recv i evs opt time s = Some (Wait, s') \<and> sys_ok s' \<and> event_inv i s' \<and>
     event_abs i s' = (ev_set (k_events s i), wait_insert s (oflag s (KEvent i)) t (snd (event_abs i s))) \<and>
     th_event_set (thread s' t) = evs \<and> th_event_info (thread s' t) = opt \<and> tstat s' t = RT_THREAD_SUSPEND"
proof -
  let ?f = "\<lambda>th. th\<lparr>th_event_set := evs, th_event_info := opt\<rparr>"
  let ?s0 = "upd_thread t (\<lambda>th. th\<lparr>th_error := RT_EOK\<rparr>) s" let ?s1 = "upd_thread t ?f ?s0"
  have ok1: "sys_ok ?s1" by (rule sys_ok_upd_frame) (use ok in \<open>simp_all add: stat_of_def\<close>)
  have c: "k_current ?s1 = Some t" "tstat ?s1 t = RT_THREAD_RUNNING"
    using t by (simp_all add: running_in_def stat_of_def)
  have h: "wait_head (Susp (KEvent i)) (KEvent i)" by (simp add: wait_head_def)
  note I = ipc_object_okD [OF sys_okD(1) [OF ok] i]
  have tg: "head_target (Susp (KEvent i)) (KEvent i) ?s1" "ipc_flag_ok (oflag ?s1 (KEvent i))" using I by simp_all
  obtain s' where s': "wait_on (Susp (KEvent i)) t (oflag ?s1 (KEvent i)) time ?s1 = Some s'" "sys_ok s'"
    by (rule wait_on_total [OF ok1 c h tg time(2)])
  have run: "runnable (tstat ?s1 t)" using c by (simp add: runnable_def)
  note W = wait_on_ok [OF sys_okD(1) [OF ok1] run h tg s'(1)]
  have wi: "wait_insert ?s1 = wait_insert s" by (rule wait_insert_cong) simp
  have q: "k_tlists s' (Susp (KEvent i)) = wait_insert s (oflag s (KEvent i)) t (k_tlists s (Susp (KEvent i)))"
    using W(3) wi by simp
  have nm: "\<not> (if opt AND 1 \<noteq> 0 then ev_set (k_events s i) AND evs = evs else ev_set (k_events s i) AND evs \<noteq> 0)"
    using m opt by (auto simp: event_match_def and.commute split: if_splits)
  have "rt_event_recv i evs opt time s = Some (Wait, s')"
    using I(1) t e opt nm time(1) s'(1) by (auto simp: rt_event_recv_def context_checks Let_def)
  moreover have th: "th_event_set (thread s' t) = evs" "th_event_info (thread s' t) = opt"
    using core_frame_thread(4,5) [OF W(2), of t] by simp_all
  moreover have ev: "k_events s' = k_events s" using core_frame_fields(3) [OF W(2)] by simp
  moreover have "event_inv i s'" unfolding event_inv_def
  proof
    fix u assume u: "u \<in> set (k_tlists s' (Susp (KEvent i)))"
    show "event_match (th_event_info (thread s' u)) (th_event_set (thread s' u)) (ev_set (k_events s' i)) = None"
    proof (cases "u = t")
      case False
      then have "u \<in> set (k_tlists s (Susp (KEvent i)))" using u I(3) unfolding q by (auto simp: wait_insert_def)
      then show ?thesis using inv core_frame_thread(4,5) [OF W(2), of u] ev False by (simp add: event_inv_def)
    qed (use m th ev in simp)
  qed
  ultimately show ?thesis using s'(2) W(5) q by (simp add: event_abs_def)
qed

section \<open>Creation, reset and removal\<close>

lemma rt_event_init_ok:
  assumes ok: "kernel_ok s" and r: "rt_event_init i name flag s = Some (e, s')" and f: "ipc_flag_ok flag"
  shows "kernel_ok s'" "ipc_object_ok (KEvent i) s'" "event_abs i s' = (0, [])"
proof -
  obtain s1 where s1: "rt_object_init (KEvent i) (class_of (KEvent i)) name s = Some s1"
    and s': "s' = upd_event i (\<lambda>_. 0) (rt_ipc_object_init (KEvent i) (set_oflag (KEvent i) flag s1))"
    using r by (auto simp: rt_event_init_def bind_Some_iff Let_def)
  note O = object_init_ok [OF ok _ s1, simplified]
  have "kernel_ok (set_oflag (KEvent i) flag s1)" by (rule kernel_ok_upd_flag) (use O in simp_all)
  then show "kernel_ok s'" "ipc_object_ok (KEvent i) s'" "event_abs i s' = (0, [])"
    using O f by (simp_all add: s' ipc_object_ok_def event_abs_def ipc_object_init_same)
qed

lemma rt_event_create_ok:
  assumes ok: "kernel_ok s" and fresh: "\<not> listed (KEvent i) s" and f: "ipc_flag_ok flag"
    and r: "rt_event_create name flag (Some i) s = Some (a, s')"
  shows "kernel_ok s'" "ipc_object_ok (KEvent i) s'" "event_abs i s' = (0, [])"
proof -
  obtain b s1 where s1: "rt_object_allocate (class_of (KEvent i)) name (Some (KEvent i)) s = Some (b, s1)"
    and s': "s' = upd_event i (\<lambda>_. 0) (rt_ipc_object_init (KEvent i) (set_oflag (KEvent i) flag s1))"
    using r by (auto simp: rt_event_create_def bind_Some_iff Let_def)
  note O = object_allocate_ok [OF ok _ fresh s1, simplified]
  have "kernel_ok (set_oflag (KEvent i) flag s1)" by (rule kernel_ok_upd_flag) (use O in simp_all)
  then show "kernel_ok s'" "ipc_object_ok (KEvent i) s'" "event_abs i s' = (0, [])"
    using O f by (simp_all add: s' ipc_object_ok_def event_abs_def ipc_object_init_same)
qed

lemma rt_event_detach_wakes_all:
  assumes ok: "sys_ok s" and i: "ipc_object_ok (KEvent i) s" and st: "rt_object_is_systemobject (KEvent i) s"
    and sn: "senders_ok s"
  shows "\<exists>s'. rt_event_detach i s = Some (RT_EOK, s') \<and> kernel_ok s' \<and> \<not> listed (KEvent i) s' \<and>
     (\<forall>t \<in> set (snd (event_abs i s)). runnable (tstat s' t) \<and> rt_event_recv_resume t s' = (- RT_ERROR, None))"
proof -
  have e: "k_tlists s (SuspSender (KEvent i)) = []" using sn by (auto simp: senders_ok_def)
  obtain s1 where "rt_ipc_list_resume_all (Susp (KEvent i)) s = Some s1"
    "kernel_ok (rt_object_detach (KEvent i) s1)" "\<not> listed (KEvent i) (rt_object_detach (KEvent i) s1)"
    "\<And>t. t \<in> set (k_tlists s (Susp (KEvent i))) \<Longrightarrow> runnable (tstat s1 t) \<and> th_error (thread s1 t) = - RT_ERROR"
    by (rule ipc_detach_total [OF ok ipc_object_waitable [OF i] e]) (rule that; assumption)
  then show ?thesis using ipc_object_okD(1) [OF sys_okD(1) [OF ok] i] st
    by (simp add: rt_event_detach_def event_abs_def rt_event_recv_resume_def)
qed

section \<open>Properties\<close>

text \<open>
  C11: No wake-up is lost: sending flags, at least one, adds them to the flags of the event set and offers the
  result to the waiting threads in the order in which they wait.  A thread whose wish matches stops
  waiting, is runnable, has an unchanged error code, and finds in its event set what its wish got;
  if it asked to clear, what it got is taken from the flags before the next thread is looked at.
  Exactly the other threads go on waiting, in their order, and none of them for flags that are
  there.  The flags afterwards are the old and the sent flags less those so consumed.
\<close>

theorem rt_event_send_no_lost_wakeup:
  assumes ok: "sys_ok s" and i: "ipc_object_ok (KEvent i) s" and e: "evs \<noteq> 0"
  shows "\<exists>s' w. rt_event_send i evs s = Some (RT_EOK, s') \<and> sys_ok s' \<and> event_inv i s' \<and>
     event_scan (wishes s) (fst (event_abs i s) OR evs) (snd (event_abs i s)) =
       (w, snd (event_abs i s'), fst (event_abs i s')) \<and>
     set (snd (event_abs i s)) = fst ` set w \<union> set (snd (event_abs i s')) \<and>
     fst ` set w \<inter> set (snd (event_abs i s')) = {} \<and>
     (\<forall>(t, got) \<in> set w. runnable (tstat s' t) \<and> th_error (thread s' t) = th_error (thread s t) \<and>
        th_event_set (thread s' t) = got \<and>
        (\<exists>m. event_match (th_event_info (thread s t)) (th_event_set (thread s t))
               ((fst (event_abs i s) OR evs) AND m) = Some got))"
proof -
  obtain w k c where sc: "event_scan (wishes s) (ev_set (k_events s i) OR evs) (k_tlists s (Susp (KEvent i))) = (w, k, c)"
    using prod_cases3 by blast
  obtain s' where s': "rt_event_send i evs s = Some (RT_EOK, s')" "sys_ok s'" "event_abs i s' = (c, k)" "event_inv i s'"
    and woken: "\<forall>(t, got) \<in> set w. runnable (tstat s' t) \<and> th_event_set (thread s' t) = got \<and>
        th_error (thread s' t) = th_error (thread s t)"
    using rt_event_send_scan [OF ok i e sc] by blast
  note P = event_scan_parts [OF sc]
  have "distinct (k_tlists s (Susp (KEvent i)))" using sched_invD(1) [OF sys_okD(3) [OF ok]] by (metis table_wf_def)
  note disj = event_scan_disjoint [OF sc this]
  have "\<forall>(t, got) \<in> set w. runnable (tstat s' t) \<and> th_error (thread s' t) = th_error (thread s t) \<and>
        th_event_set (thread s' t) = got \<and>
        (\<exists>m. event_match (th_event_info (thread s t)) (th_event_set (thread s t))
               ((ev_set (k_events s i) OR evs) AND m) = Some got)"
    using woken P(2) by fastforce
  then show ?thesis using s' sc P(1) disj by (intro exI [of _ s'] exI [of _ w]) (simp add: event_abs_def)
qed

lemma rt_event_recv_refused:
  assumes ok: "sys_ok s" and i: "ipc_object_ok (KEvent i) s" and t: "running_in t s" and e: "evs \<noteq> 0"
    and opt: "opt AND RT_EVENT_FLAG_AND \<noteq> 0 \<or> opt AND RT_EVENT_FLAG_OR \<noteq> 0"
    and m: "event_match opt evs (ev_set (k_events s i)) = None"
  shows "\<exists>s'. rt_event_recv i evs opt 0 s = Some (Ret (- RT_ETIMEOUT, None), s') \<and> sys_ok s' \<and>
     event_abs i s' = event_abs i s \<and> (event_inv i s \<longrightarrow> event_inv i s')"
proof -
  have "\<not> (if opt AND 1 \<noteq> 0 then ev_set (k_events s i) AND evs = evs else ev_set (k_events s i) AND evs \<noteq> 0)"
    using m opt by (auto simp: event_match_def and.commute split: if_splits)
  then show ?thesis using ipc_object_okD(1) [OF sys_okD(1) [OF ok] i] t e ok opt
    by (simp add: rt_event_recv_def context_checks event_abs_def event_inv_def Let_def split: if_splits)
qed

lemma event_inv_clear:
  assumes "event_inv i s" "event_abs i s' = (fst (event_abs i s) AND m, snd (event_abs i s))"
    "\<And>u. th_event_info (thread s' u) = th_event_info (thread s u) \<and> th_event_set (thread s' u) = th_event_set (thread s u)"
  shows "event_inv i s'"
  using assms event_match_mono by (auto simp: event_inv_def event_abs_def)

lemma event_recv_correct:
  assumes ok: "sys_ok s" and i: "ipc_object_ok (KEvent i) s" and t: "running_in t s" and e: "evs \<noteq> 0"
    and opt: "opt AND RT_EVENT_FLAG_AND \<noteq> 0 \<or> opt AND RT_EVENT_FLAG_OR \<noteq> 0"
    and time: "time < 0x7FFFFFFF" and inv: "event_inv i s" and a: "event_abs i s = (cur, q)"
  shows "\<exists>out s'. rt_event_recv i evs opt time s = Some (out, s') \<and> sys_ok s' \<and> event_inv i s' \<and>
     (out, event_abs i s') = (case event_match opt evs cur of
        Some got \<Rightarrow> (Ret (RT_EOK, Some got), if opt AND RT_EVENT_FLAG_CLEAR \<noteq> 0 then cur AND NOT evs else cur, q)
      | None \<Rightarrow> if time = 0 then (Ret (- RT_ETIMEOUT, None), cur, q)
                else (Wait, cur, wait_insert s (oflag s (KEvent i)) t q))"
proof -
  have c: "ev_set (k_events s i) = cur" using a by (simp add: event_abs_def)
  show ?thesis
  proof (cases "event_match opt evs cur")
    case None
    note n = None [folded c]
    show ?thesis
    proof (cases "time = 0")
      case True
      then show ?thesis using rt_event_recv_refused [OF ok i t e opt n] None a inv by auto
    next
      case False
      then show ?thesis using rt_event_recv_waits [OF ok i t e opt n False time inv] None a by (auto simp: c)
    qed
  next
    case (Some got)
    obtain s' where s': "rt_event_recv i evs opt time s = Some (Ret (RT_EOK, Some got), s')" "sys_ok s'"
      "event_abs i s' = (if opt AND RT_EVENT_FLAG_CLEAR \<noteq> 0 then cur AND NOT evs else cur, q)"
      "\<forall>u. th_event_info (thread s' u) = th_event_info (thread s u) \<and> th_event_set (thread s' u) = th_event_set (thread s u)"
      using rt_event_recv_present [OF ok i t e Some [folded c], of time] a c by auto
    have "event_inv i s'"
      by (rule event_inv_clear [OF inv, where m = "if opt AND RT_EVENT_FLAG_CLEAR \<noteq> 0 then NOT evs else NOT 0"])
        (use s'(3,4) a in auto)
    then show ?thesis using s' Some by auto
  qed
qed


end
