(* ===== verification/Fifo.thy ===== *)
theory Fifo
  imports Prelude
begin

text \<open>
  The contract of a bounded first-in-first-out buffer, which mailboxes, message queues and ring
  buffers provide, with the lemmas their users need; and the reading of a circular array as a
  list.
\<close>

section \<open>The interface\<close>

datatype 'm fifo_op = Put 'm | Get

text \<open>A sequence of operations on a buffer, with the items that come out.\<close>

fun run_fifo :: "('m \<Rightarrow> 'b \<Rightarrow> 'b) \<Rightarrow> ('b \<Rightarrow> 'm \<times> 'b) \<Rightarrow> 'm fifo_op list \<Rightarrow> 'b \<Rightarrow> 'm list \<times> 'b" where
  "run_fifo put get [] b = ([], b)"
| "run_fifo put get (Put m # ops) b = run_fifo put get ops (put m b)"
| "run_fifo put get (Get # ops) b =
     (let (m, b) = get b; (ms, b) = run_fifo put get ops b in (m # ms, b))"

text \<open>The same sequence on a list, as far as it respects the capacity.\<close>

fun run_list :: "nat \<Rightarrow> 'm fifo_op list \<Rightarrow> 'm list \<Rightarrow> ('m list \<times> 'm list) option" where
  "run_list n [] xs = Some ([], xs)"
| "run_list n (Put m # ops) xs = (if length xs < n then run_list n ops (xs @ [m]) else None)"
| "run_list n (Get # ops) xs =
     (case xs of [] \<Rightarrow> None
      | x # xs' \<Rightarrow> map_option (\<lambda>(ys, zs). (x # ys, zs)) (run_list n ops xs'))"

locale bounded_fifo =
  fixes wf :: "'b \<Rightarrow> bool" and content :: "'b \<Rightarrow> 'm list" and capacity :: "'b \<Rightarrow> nat"
    and fits :: "'b \<Rightarrow> 'm \<Rightarrow> bool" and put :: "'m \<Rightarrow> 'b \<Rightarrow> 'b" and get :: "'b \<Rightarrow> 'm \<times> 'b"
  assumes bounded: "wf b \<Longrightarrow> length (content b) \<le> capacity b"
    and put_wf: "wf b \<Longrightarrow> length (content b) < capacity b \<Longrightarrow> fits b m \<Longrightarrow> wf (put m b)"
    and put_content: "wf b \<Longrightarrow> length (content b) < capacity b \<Longrightarrow> fits b m \<Longrightarrow>
      content (put m b) = content b @ [m]"
    and put_capacity: "capacity (put m b) = capacity b"
    and put_fits: "fits (put m b) = fits b"
    and get_wf: "wf b \<Longrightarrow> content b \<noteq> [] \<Longrightarrow> wf (snd (get b))"
    and get_content: "wf b \<Longrightarrow> content b \<noteq> [] \<Longrightarrow> content b = fst (get b) # content (snd (get b))"
    and get_capacity: "capacity (snd (get b)) = capacity b"
    and get_fits: "fits (snd (get b)) = fits b"
begin

text \<open>The buffer behaves as a list of limited length under any sequence of operations.\<close>

lemma run_refines:
  "wf b \<Longrightarrow> run_list (capacity b) ops (content b) = Some (outs, xs) \<Longrightarrow>
     (\<And>m. Put m \<in> set ops \<Longrightarrow> fits b m) \<Longrightarrow>
     fst (run_fifo put get ops b) = outs \<and> wf (snd (run_fifo put get ops b)) \<and>
     content (snd (run_fifo put get ops b)) = xs"
proof (induction ops arbitrary: b outs)
  case (Cons a ops)
  show ?case
  proof (cases a)
    case (Put m)
    then have l: "length (content b) < capacity b" using Cons.prems(2) by (auto split: if_splits)
    have f: "fits b m" using Cons.prems(3) Put by simp
    show ?thesis
      using Cons.IH [of "put m b"] Cons.prems(2,3) put_wf [OF Cons.prems(1) l f] put_content [OF Cons.prems(1) l f] l Put
      by (simp add: put_capacity put_fits)
  next
    case Get
    then have ne: "content b \<noteq> []" using Cons.prems(2) by auto
    note C = get_content [OF Cons.prems(1) ne]
    obtain outs' where o: "run_list (capacity b) ops (content (snd (get b))) = Some (outs', xs)"
      "outs = fst (get b) # outs'"
      using Cons.prems(2) Get by (subst (asm) C) auto
    then show ?thesis
      using Cons.IH [of "snd (get b)" outs'] get_wf [OF Cons.prems(1) ne] Cons.prems(3) Get
      by (auto simp: get_capacity get_fits split: prod.splits)
  qed
qed simp

lemma run_puts:
  "wf b \<Longrightarrow> length (content b) + length ms \<le> capacity b \<Longrightarrow> (\<And>m. m \<in> set ms \<Longrightarrow> fits b m) \<Longrightarrow>
     wf (fold put ms b) \<and> content (fold put ms b) = content b @ ms \<and> capacity (fold put ms b) = capacity b"
proof (induction ms arbitrary: b)
  case (Cons m ms)
  then have l: "length (content b) < capacity b" and f: "fits b m" by simp_all
  show ?case
    using Cons.IH [of "put m b"] Cons.prems put_wf [OF Cons.prems(1) l f] put_content [OF Cons.prems(1) l f]
    by (simp add: put_capacity put_fits)
qed simp

text \<open>What goes in comes out, in order.\<close>

lemma run_gets:
  "wf b \<Longrightarrow> content b = xs @ ys \<Longrightarrow>
     fst (run_fifo put get (replicate (length xs) Get) b) = xs \<and>
     content (snd (run_fifo put get (replicate (length xs) Get) b)) = ys"
proof -
  have "run_list n (replicate (length xs) Get) (xs @ ys) = Some (xs, ys)" for n
    by (induction xs) auto
  then show "wf b \<Longrightarrow> content b = xs @ ys \<Longrightarrow> ?thesis"
    using run_refines [of b "replicate (length xs) Get" xs ys] by simp
qed

end

section \<open>Circular arrays\<close>

definition ring_read :: "'a list \<Rightarrow> nat \<Rightarrow> nat \<Rightarrow> 'a list" where
  "ring_read xs i n = map (\<lambda>k. xs ! ((i + k) mod length xs)) [0..<n]"

lemma length_ring_read [simp]: "length (ring_read xs i n) = n"
  by (simp add: ring_read_def)

lemma ring_read_0 [simp]: "ring_read xs i 0 = []"
  by (simp add: ring_read_def)

lemma ring_read_append:
  "ring_read xs i (Suc n) = ring_read xs i n @ [xs ! ((i + n) mod length xs)]"
  by (simp add: ring_read_def)

lemma ring_read_cons:
  assumes "i < length xs"
  shows "ring_read xs i (Suc n) = xs ! i # ring_read xs (Suc i mod length xs) n"
proof -
  have "(i + Suc k) mod length xs = (Suc i mod length xs + k) mod length xs" for k
    by (simp add: mod_add_left_eq)
  then show ?thesis using assms
    by (simp add: ring_read_def upt_conv_Cons map_Suc_upt [symmetric] del: upt_Suc)
qed

lemma ring_index_inj:
  assumes "(i + j) mod l = (i + k) mod l" "j < (l :: nat)" "k < l"
  shows "j = k"
  using assms
proof (induction j k rule: linorder_wlog)
  case (le j k)
  then have "l dvd (i + k) - (i + j)" using mod_eq_dvd_iff_nat [of "i + j" "i + k" l] by simp
  then show ?case using le by (auto dest: dvd_imp_le)
qed auto

lemma ring_read_update:
  assumes "n < length xs"
  shows "ring_read (xs[(i + n) mod length xs := v]) i n = ring_read xs i n"
proof -
  have "(i + n) mod length xs \<noteq> (i + k) mod length xs" if "k < n" for k
    using ring_index_inj [of i n "length xs" k] assms that by auto
  then show ?thesis by (simp add: ring_read_def)
qed

lemma ring_write:
  assumes "n < length xs"
  shows "ring_read (xs[(i + n) mod length xs := v]) i (Suc n) = ring_read xs i n @ [v]"
proof -
  have "(i + n) mod length xs < length xs" using assms by (intro mod_less_divisor) auto
  then show ?thesis using ring_read_update [OF assms, of i v] by (simp add: ring_read_append)
qed

text \<open>The step of an offset that is set back to zero at the end of the array.\<close>

lemma ring_step: "i < l \<Longrightarrow> (if l \<le> Suc i then 0 else Suc i) = Suc i mod (l :: nat)"
  by (auto simp: Suc_leI mod_Suc)

text \<open>Counters and offsets below a bound of the same width do not wrap.\<close>

lemma unat_inc_below:
  assumes "unat (x :: 'a::len word) < unat (y :: 'a word)"
  shows "unat (x + 1) = Suc (unat x)"
proof -
  have "Suc (unat x) < 2 ^ LENGTH('a)" using assms unsigned_less [of y] by (metis Suc_leI le_less_trans)
  then show ?thesis by (cases "LENGTH('a) = 1") (simp_all add: unat_word_ariths)
qed

lemma unat_dec_pos: "unat (x :: 'a::len word) = Suc n \<Longrightarrow> unat (x - 1) = n"
  by (metis unat_minus_one unat_0 diff_Suc_1 nat.distinct(1))

end
