(* ===== verification/Mailbox.thy ===== *)
theory Mailbox
  imports IpcBase Fifo
begin

text \<open>
  Mailboxes, \<^verbatim>\<open>src/ipc.c\<close>: a circular array of words, threads that wait for a mail
  (\<open>Susp\<close>) and threads that wait for room (\<open>SuspSender\<close>).

  The blocking calls loop: \<open>mb_send_loop\<close> and \<open>mb_recv_loop\<close> are the code from the test of the
  \<^verbatim>\<open>while\<close> on, and the \<open>_resume\<close> functions are the rest of the loop body after
  \<^verbatim>\<open>rt_schedule\<close>, followed by the next test.
\<close>

section \<open>Operations\<close>

definition upd_mb :: "oid \<Rightarrow> (rt_mailbox \<Rightarrow> rt_mailbox) \<Rightarrow> kstate \<Rightarrow> kstate" where
  "upd_mb i f s = s\<lparr>k_mailboxes := (k_mailboxes s)(i := f (k_mailboxes s i))\<rparr>"

text \<open>\<open>pool\<close> is the array the caller provides; the size is stored in 16 bits.\<close>

definition mb_start :: "rt_uint32 list \<Rightarrow> rt_uint32 \<Rightarrow> rt_mailbox" where
  "mb_start pool sz = \<lparr>mb_msg_pool = pool, mb_size = ucast sz, mb_entry = 0, mb_in_offset = 0,
     mb_out_offset = 0\<rparr>"

definition rt_mb_init ::
    "oid \<Rightarrow> rt_uint8 list \<Rightarrow> rt_uint32 list \<Rightarrow> rt_uint32 \<Rightarrow> rt_uint8 \<Rightarrow> kstate \<Rightarrow> (rt_err \<times> kstate) option" where
  "rt_mb_init i name pool sz flag s = do {
     s \<leftarrow> rt_object_init (KMailbox i) RT_Object_Class_MailBox name s;
     let s = set_oflag (KMailbox i) flag s;
     let s = rt_ipc_object_init (KMailbox i) s;
     let s = upd_mb i (\<lambda>_. mb_start pool sz) s;
     let s = s\<lparr>k_tlists := (k_tlists s)(SuspSender (KMailbox i) := [])\<rparr>;
     Some (RT_EOK, s)
   }"

definition rt_mb_detach :: "oid \<Rightarrow> kstate \<Rightarrow> (rt_err \<times> kstate) option" where
  "rt_mb_detach i s = do {
     rt_assert (rt_object_get_type (KMailbox i) s = RT_Object_Class_MailBox);
     rt_assert (rt_object_is_systemobject (KMailbox i) s);
     s \<leftarrow> rt_ipc_list_resume_all (Susp (KMailbox i)) s;
     s \<leftarrow> rt_ipc_list_resume_all (SuspSender (KMailbox i)) s;
     Some (RT_EOK, rt_object_detach (KMailbox i) s)
   }"

text \<open>\<open>pool\<close> is the result of the second allocation.\<close>

definition rt_mb_create ::
    "rt_uint8 list \<Rightarrow> rt_uint32 \<Rightarrow> rt_uint8 \<Rightarrow> oid option \<Rightarrow> rt_uint32 list option \<Rightarrow> kstate \<Rightarrow>
       (oid option \<times> kstate) option" where
  "rt_mb_create name sz flag alloc pool s = do {
     rt_debug_not_in_interrupt s;
     (_, s) \<leftarrow> rt_object_allocate RT_Object_Class_MailBox name (map_option KMailbox alloc) s;
     (case alloc of
        None \<Rightarrow> Some (None, s)
      | Some i \<Rightarrow>
          (let s = set_oflag (KMailbox i) flag s;
               s = rt_ipc_object_init (KMailbox i) s;
               s = upd_mb i (\<lambda>mb. mb\<lparr>mb_size := ucast sz\<rparr>) s
           in case pool of
                None \<Rightarrow> do { s \<leftarrow> rt_object_delete (KMailbox i) s; Some (None, s) }
              | Some p \<Rightarrow>
                  (let s = upd_mb i (\<lambda>_. mb_start p sz) s;
                       s = s\<lparr>k_tlists := (k_tlists s)(SuspSender (KMailbox i) := [])\<rparr>
                   in Some (Some i, s))))
   }"

definition rt_mb_delete :: "oid \<Rightarrow> kstate \<Rightarrow> (rt_err \<times> kstate) option" where
  "rt_mb_delete i s = do {
     rt_debug_not_in_interrupt s;
     rt_assert (rt_object_get_type (KMailbox i) s = RT_Object_Class_MailBox);
     rt_assert (\<not> rt_object_is_systemobject (KMailbox i) s);
     s \<leftarrow> rt_ipc_list_resume_all (Susp (KMailbox i)) s;
     s \<leftarrow> rt_ipc_list_resume_all (SuspSender (KMailbox i)) s;
     s \<leftarrow> rt_object_delete (KMailbox i) s;
     Some (RT_EOK, s)
   }"

text \<open>Storing a mail and fetching one, in the circular array.\<close>

definition mb_put :: "rt_uint32 \<Rightarrow> rt_mailbox \<Rightarrow> rt_mailbox" where
  "mb_put value mb =
     (let mb = mb\<lparr>mb_msg_pool := (mb_msg_pool mb)[unat (mb_in_offset mb) := value]\<rparr>;
          mb = mb\<lparr>mb_in_offset := mb_in_offset mb + 1\<rparr>;
          mb = (if mb_size mb \<le> mb_in_offset mb then mb\<lparr>mb_in_offset := 0\<rparr> else mb)
      in mb\<lparr>mb_entry := mb_entry mb + 1\<rparr>)"

definition mb_get :: "rt_mailbox \<Rightarrow> rt_uint32 \<times> rt_mailbox" where
  "mb_get mb =
     (let value = mb_msg_pool mb ! unat (mb_out_offset mb);
          mb = mb\<lparr>mb_out_offset := mb_out_offset mb + 1\<rparr>;
          mb = (if mb_size mb \<le> mb_out_offset mb then mb\<lparr>mb_out_offset := 0\<rparr> else mb)
      in (value, mb\<lparr>mb_entry := mb_entry mb - 1\<rparr>))"

definition mb_send_loop :: "oid \<Rightarrow> rt_uint32 \<Rightarrow> int \<Rightarrow> kstate \<Rightarrow> (rt_err outcome \<times> kstate) option" where
  "mb_send_loop i value time s =
     (if mb_entry (k_mailboxes s i) = mb_size (k_mailboxes s i)
      then do {
        t \<leftarrow> rt_thread_self s;
        let s = upd_thread t (\<lambda>th. th\<lparr>th_error := RT_EOK\<rparr>) s;
        if time = 0 then Some (Ret (- RT_EFULL), s)
        else do {
          rt_debug_in_thread_context s;
          s \<leftarrow> wait_on (SuspSender (KMailbox i)) t (oflag s (KMailbox i)) time s;
          Some (Wait, s)
        }
      }
      else do {
        s \<leftarrow> wake_first (Susp (KMailbox i)) (upd_mb i (mb_put value) s);
        Some (Ret RT_EOK, s)
      })"

definition rt_mb_send_wait :: "oid \<Rightarrow> rt_uint32 \<Rightarrow> int \<Rightarrow> kstate \<Rightarrow> (rt_err outcome \<times> kstate) option" where
  "rt_mb_send_wait i value time s = do {
     rt_assert (rt_object_get_type (KMailbox i) s = RT_Object_Class_MailBox);
     if mb_entry (k_mailboxes s i) = mb_size (k_mailboxes s i) \<and> time = 0
     then Some (Ret (- RT_EFULL), s)
     else mb_send_loop i value time s
   }"

definition rt_mb_send_wait_resume ::
    "oid \<Rightarrow> rt_uint32 \<Rightarrow> int \<Rightarrow> rt_uint32 \<Rightarrow> tid \<Rightarrow> kstate \<Rightarrow> (rt_err outcome \<times> kstate) option" where
  "rt_mb_send_wait_resume i value time start t s =
     (if th_error (thread s t) \<noteq> RT_EOK then Some (Ret (th_error (thread s t)), s)
      else mb_send_loop i value (recalc_timeout time start s) s)"

definition rt_mb_send :: "oid \<Rightarrow> rt_uint32 \<Rightarrow> kstate \<Rightarrow> (rt_err outcome \<times> kstate) option" where
  "rt_mb_send i value s = rt_mb_send_wait i value 0 s"

text \<open>The second result is the mail stored through \<^verbatim>\<open>value\<close>.\<close>

definition mb_recv_loop :: "oid \<Rightarrow> int \<Rightarrow> kstate \<Rightarrow> ((rt_err \<times> rt_uint32 option) outcome \<times> kstate) option" where
  "mb_recv_loop i time s =
     (if mb_entry (k_mailboxes s i) = 0
      then do {
        t \<leftarrow> rt_thread_self s;
        let s = upd_thread t (\<lambda>th. th\<lparr>th_error := RT_EOK\<rparr>) s;
        if time = 0
        then Some (Ret (- RT_ETIMEOUT, None), upd_thread t (\<lambda>th. th\<lparr>th_error := - RT_ETIMEOUT\<rparr>) s)
        else do {
          rt_debug_in_thread_context s;
          s \<leftarrow> wait_on (Susp (KMailbox i)) t (oflag s (KMailbox i)) time s;
          Some (Wait, s)
        }
      }
      else do {
        let (value, mb) = mb_get (k_mailboxes s i);
        s \<leftarrow> wake_first (SuspSender (KMailbox i)) (upd_mb i (\<lambda>_. mb) s);
        Some (Ret (RT_EOK, Some value), s)
      })"

definition rt_mb_recv :: "oid \<Rightarrow> int \<Rightarrow> kstate \<Rightarrow> ((rt_err \<times> rt_uint32 option) outcome \<times> kstate) option" where
  "rt_mb_recv i time s = do {
     rt_assert (rt_object_get_type (KMailbox i) s = RT_Object_Class_MailBox);
     if mb_entry (k_mailboxes s i) = 0 \<and> time = 0 then Some (Ret (- RT_ETIMEOUT, None), s)
     else mb_recv_loop i time s
   }"

definition rt_mb_recv_resume ::
    "oid \<Rightarrow> int \<Rightarrow> rt_uint32 \<Rightarrow> tid \<Rightarrow> kstate \<Rightarrow> ((rt_err \<times> rt_uint32 option) outcome \<times> kstate) option" where
  "rt_mb_recv_resume i time start t s =
     (if th_error (thread s t) \<noteq> RT_EOK then Some (Ret (th_error (thread s t), None), s)
      else mb_recv_loop i (recalc_timeout time start s) s)"

definition rt_mb_control :: "oid \<Rightarrow> int \<Rightarrow> kstate \<Rightarrow> (rt_err \<times> kstate) option" where
  "rt_mb_control i cmd s = do {
     rt_assert (rt_object_get_type (KMailbox i) s = RT_Object_Class_MailBox);
     if cmd = RT_IPC_CMD_RESET then do {
       s \<leftarrow> rt_ipc_list_resume_all (Susp (KMailbox i)) s;
       s \<leftarrow> rt_ipc_list_resume_all (SuspSender (KMailbox i)) s;
       let s = upd_mb i (\<lambda>mb. mb\<lparr>mb_entry := 0, mb_in_offset := 0, mb_out_offset := 0\<rparr>) s;
       s \<leftarrow> rt_schedule s;
       Some (RT_EOK, s)
     }
     else Some (- RT_ERROR, s)
   }"

section \<open>The circular array is a bounded queue\<close>

definition mb_wf :: "rt_mailbox \<Rightarrow> bool" where
  "mb_wf mb \<longleftrightarrow> length (mb_msg_pool mb) = unat (mb_size mb) \<and> mb_entry mb \<le> mb_size mb \<and>
     mb_in_offset mb < mb_size mb \<and> mb_out_offset mb < mb_size mb \<and>
     unat (mb_in_offset mb) = (unat (mb_out_offset mb) + unat (mb_entry mb)) mod unat (mb_size mb)"

definition mb_content :: "rt_mailbox \<Rightarrow> rt_uint32 list" where
  "mb_content mb = ring_read (mb_msg_pool mb) (unat (mb_out_offset mb)) (unat (mb_entry mb))"

lemma length_mb_content [simp]: "length (mb_content mb) = unat (mb_entry mb)"
  by (simp add: mb_content_def)

text \<open>The 16-bit step of an offset.\<close>

lemma offset_step:
  assumes "(x :: rt_uint16) < n"
  shows "unat (if n \<le> x + 1 then 0 else x + 1) = Suc (unat x) mod unat n" "(if n \<le> x + 1 then 0 else x + 1) < n"
proof -
  have l: "unat x < unat n" using assms by (simp add: word_less_nat_alt)
  then have s: "unat (x + 1) = Suc (unat x)" by (rule unat_inc_below)
  show "unat (if n \<le> x + 1 then 0 else x + 1) = Suc (unat x) mod unat n"
    using ring_step [OF l] s by (auto simp: word_le_nat_alt split: if_splits)
  show "(if n \<le> x + 1 then 0 else x + 1) < n"
    using assms by (auto simp: not_le) (use l in \<open>simp add: word_less_nat_alt\<close>)
qed

lemma mb_put_fields:
  assumes wf: "mb_wf mb" and room: "unat (mb_entry mb) < unat (mb_size mb)"
  shows "mb_wf (mb_put v mb)" "mb_content (mb_put v mb) = mb_content mb @ [v]"
proof -
  note W = wf [unfolded mb_wf_def]
  have e: "unat (mb_entry mb + 1) = Suc (unat (mb_entry mb))"
    using room by (rule unat_inc_below)
  have f: "mb_msg_pool (mb_put v mb) = (mb_msg_pool mb)[unat (mb_in_offset mb) := v]"
    "mb_size (mb_put v mb) = mb_size mb" "mb_entry (mb_put v mb) = mb_entry mb + 1"
    "mb_out_offset (mb_put v mb) = mb_out_offset mb"
    "mb_in_offset (mb_put v mb) = (if mb_size mb \<le> mb_in_offset mb + 1 then 0 else mb_in_offset mb + 1)"
    by (simp_all add: mb_put_def Let_def)
  have "unat (mb_in_offset (mb_put v mb)) = (unat (mb_out_offset mb) + Suc (unat (mb_entry mb))) mod unat (mb_size mb)"
    using W offset_step(1) [of "mb_in_offset mb" "mb_size mb"] f(5) by (simp add: mod_Suc_eq)
  then show "mb_wf (mb_put v mb)"
    using W f e room offset_step(2) [of "mb_in_offset mb" "mb_size mb"]
    unfolding mb_wf_def by (simp add: word_le_nat_alt del: if_split)
  show "mb_content (mb_put v mb) = mb_content mb @ [v]"
    using W room ring_write [of "unat (mb_entry mb)" "mb_msg_pool mb" "unat (mb_out_offset mb)" v]
    by (simp add: mb_content_def f e)
qed

lemma mb_get_fields:
  assumes wf: "mb_wf mb" and ne: "mb_content mb \<noteq> []"
  shows "mb_wf (snd (mb_get mb))" "mb_content mb = fst (mb_get mb) # mb_content (snd (mb_get mb))"
proof -
  note W = wf [unfolded mb_wf_def]
  obtain n where n: "unat (mb_entry mb) = Suc n" using ne by (cases "unat (mb_entry mb)") (auto simp: mb_content_def)
  then have e: "unat (mb_entry mb - 1) = n" by (rule unat_dec_pos)
  have f: "mb_msg_pool (snd (mb_get mb)) = mb_msg_pool mb" "mb_size (snd (mb_get mb)) = mb_size mb"
    "mb_entry (snd (mb_get mb)) = mb_entry mb - 1" "mb_in_offset (snd (mb_get mb)) = mb_in_offset mb"
    "mb_out_offset (snd (mb_get mb)) = (if mb_size mb \<le> mb_out_offset mb + 1 then 0 else mb_out_offset mb + 1)"
    "fst (mb_get mb) = mb_msg_pool mb ! unat (mb_out_offset mb)"
    by (simp_all add: mb_get_def Let_def)
  have o: "unat (mb_out_offset (snd (mb_get mb))) = Suc (unat (mb_out_offset mb)) mod unat (mb_size mb)"
    using W offset_step(1) [of "mb_out_offset mb" "mb_size mb"] f(5) by simp
  have "unat (mb_in_offset mb) = (Suc (unat (mb_out_offset mb)) mod unat (mb_size mb) + n) mod unat (mb_size mb)"
    using W n by (simp add: mod_add_left_eq)
  then show "mb_wf (snd (mb_get mb))"
    using W f e o n offset_step(2) [of "mb_out_offset mb" "mb_size mb"]
    unfolding mb_wf_def by (simp add: word_le_nat_alt del: if_split)
  have "unat (mb_out_offset mb) < length (mb_msg_pool mb)" using W by (simp add: word_less_nat_alt)
  then show "mb_content mb = fst (mb_get mb) # mb_content (snd (mb_get mb))"
    using W by (simp add: mb_content_def n ring_read_cons f(1,3,6) o e)
qed

interpretation mbox: bounded_fifo mb_wf mb_content "\<lambda>mb. unat (mb_size mb)" "\<lambda>_ _. True" mb_put mb_get
proof
  show "mb_wf b \<Longrightarrow> length (mb_content b) \<le> unat (mb_size b)" for b by (simp add: mb_wf_def word_le_nat_alt)
  show "unat (mb_size (mb_put m b)) = unat (mb_size b)" for m b by (simp add: mb_put_def Let_def)
  show "unat (mb_size (snd (mb_get b))) = unat (mb_size b)" for b by (simp add: mb_get_def Let_def)
qed (simp_all add: mb_put_fields, (rule mb_get_fields; assumption)+)

section \<open>Specification\<close>

text \<open>A mailbox: the mails in it, the threads that wait for one, and the threads that wait for room.\<close>

definition mb_abs :: "oid \<Rightarrow> kstate \<Rightarrow> rt_uint32 list \<times> tid list \<times> tid list" where
  "mb_abs i s = (mb_content (k_mailboxes s i), k_tlists s (Susp (KMailbox i)), k_tlists s (SuspSender (KMailbox i)))"

abbreviation mb_ok :: "oid \<Rightarrow> kstate \<Rightarrow> bool" where
  "mb_ok i s \<equiv> mb_wf (k_mailboxes s i)"

abbreviation mb_room :: "oid \<Rightarrow> kstate \<Rightarrow> bool" where
  "mb_room i s \<equiv> length (mb_content (k_mailboxes s i)) < unat (mb_size (k_mailboxes s i))"

lemma upd_mb_fields [simp]:
  "k_threads (upd_mb i f s) = k_threads s" "k_objs (upd_mb i f s) = k_objs s"
  "k_olists (upd_mb i f s) = k_olists s" "k_tlists (upd_mb i f s) = k_tlists s"
  "k_current (upd_mb i f s) = k_current s" "k_irq_nest (upd_mb i f s) = k_irq_nest s"
  "k_mailboxes (upd_mb i f s) i = f (k_mailboxes s i)"
  "j \<noteq> i \<Longrightarrow> k_mailboxes (upd_mb i f s) j = k_mailboxes s j"
  "kernel_ok (upd_mb i f s) = kernel_ok s" "sys_ok (upd_mb i f s) = sys_ok s"
  by (simp_all add: upd_mb_def)

lemma mb_heads [simp]: "wait_head (Susp (KMailbox i)) (KMailbox i)" "wait_head (SuspSender (KMailbox i)) (KMailbox i)"
  by (simp_all add: wait_head_def)

lemma mb_full_iff: "mb_wf mb \<Longrightarrow> mb_entry mb = mb_size mb \<longleftrightarrow> \<not> length (mb_content mb) < unat (mb_size mb)"
  by (auto simp: mb_wf_def word_le_nat_alt intro: unsigned_word_eqI)

lemma mb_empty_iff: "mb_entry mb = 0 \<longleftrightarrow> mb_content mb = []"
  using length_mb_content [of mb] by (metis length_0_conv unat_eq_zero)

text \<open>There is room: the mail goes to the end of the box, and the first waiting receiver is woken.\<close>

lemma mb_send_loop_room:
  assumes ok: "sys_ok s" and mb: "mb_ok i s" "mb_room i s"
  shows "\<exists>s'. mb_send_loop i v time s = Some (Ret RT_EOK, s') \<and> sys_ok s' \<and> mb_ok i s' \<and>
     mb_abs i s' = (mb_content (k_mailboxes s i) @ [v], tl (k_tlists s (Susp (KMailbox i))),
       k_tlists s (SuspSender (KMailbox i))) \<and>
     (\<forall>t ts. k_tlists s (Susp (KMailbox i)) = t # ts \<longrightarrow> runnable (tstat s' t)) \<and>
     (\<forall>t. th_error (thread s' t) = th_error (thread s t))"
proof -
  let ?s1 = "upd_mb i (mb_put v) s"
  have ok1: "sys_ok ?s1" using ok by simp
  obtain s' where s': "wake_first (Susp (KMailbox i)) ?s1 = Some s'" "sys_ok s'" "core_frame ?s1 s'"
    "k_tlists s' (Susp (KMailbox i)) = tl (k_tlists ?s1 (Susp (KMailbox i)))"
    "\<And>j. j \<noteq> Susp (KMailbox i) \<Longrightarrow> \<forall>p. j \<noteq> Ready p \<Longrightarrow> k_tlists s' j = k_tlists ?s1 j"
    "\<And>t ts. k_tlists ?s1 (Susp (KMailbox i)) = t # ts \<Longrightarrow> runnable (tstat s' t)"
    "\<And>t. th_error (thread s' t) = th_error (thread ?s1 t)"
    by (rule wake_first_run [OF ok1 mb_heads(1)]) (rule that; assumption)
  have "mb_send_loop i v time s = Some (Ret RT_EOK, s')"
    using mb_full_iff [OF mb(1)] mb(2) s'(1) by (simp add: mb_send_loop_def)
  moreover have "k_mailboxes s' i = mb_put v (k_mailboxes s i)" using core_frame_fields(4) [OF s'(3)] by simp
  ultimately show ?thesis
    using s'(2,4-7) mbox.put_wf [OF mb TrueI] mbox.put_content [OF mb TrueI] by (auto simp: mb_abs_def)
qed

lemma rt_mb_send_wait_room:
  assumes ok: "sys_ok s" and i: "ipc_object_ok (KMailbox i) s" and mb: "mb_ok i s" "mb_room i s"
  shows "rt_mb_send_wait i v time s = mb_send_loop i v time s"
  using ipc_object_okD(1) [OF sys_okD(1) [OF ok] i] mb_full_iff [OF mb(1)] mb(2) by (simp add: rt_mb_send_wait_def)

lemma rt_mb_send_full:
  assumes ok: "kernel_ok s" and i: "ipc_object_ok (KMailbox i) s" and mb: "mb_ok i s" "\<not> mb_room i s"
  shows "rt_mb_send i v s = Some (Ret (- RT_EFULL), s)"
  using ipc_object_okD(1) [OF ok i] mb_full_iff [OF mb(1)] mb(2) by (simp add: rt_mb_send_def rt_mb_send_wait_def)

text \<open>Waiting, for room or for a mail.\<close>

lemma mb_wait:
  assumes ok: "sys_ok s" and i: "ipc_object_ok (KMailbox i) s" and t: "running_in t s"
    and h: "wait_head h (KMailbox i)" and time: "time < 0x7FFFFFFF"
  obtains s' where
    "wait_on h t (oflag s (KMailbox i)) time (upd_thread t (\<lambda>th. th\<lparr>th_error := RT_EOK\<rparr>) s) = Some s'"
    "sys_ok s'" "k_mailboxes s' = k_mailboxes s" "tstat s' t = RT_THREAD_SUSPEND" "th_error (thread s' t) = RT_EOK"
    "k_tlists s' h = wait_insert s (oflag s (KMailbox i)) t (k_tlists s h)"
    "\<And>j. j \<noteq> h \<Longrightarrow> \<forall>p. j \<noteq> Ready p \<Longrightarrow> k_tlists s' j = k_tlists s j"
proof -
  obtain s' where s': "wait_on h t (oflag s (KMailbox i)) time (upd_thread t (\<lambda>th. th\<lparr>th_error := RT_EOK\<rparr>) s) = Some s'"
    "sys_ok s'" "core_frame s s'" "tstat s' t = RT_THREAD_SUSPEND" "th_error (thread s' t) = RT_EOK"
    "k_tlists s' h = wait_insert s (oflag s (KMailbox i)) t (k_tlists s h)"
    "\<And>j. j \<noteq> h \<Longrightarrow> \<forall>p. j \<noteq> Ready p \<Longrightarrow> k_tlists s' j = k_tlists s j"
    by (rule wait_on_run [OF ok i t h time]) (rule that; assumption)
  show thesis by (rule that [OF s'(1,2) core_frame_fields(4) [OF s'(3)] s'(4-7)])
qed

lemma rt_mb_send_wait_waits:
  assumes ok: "sys_ok s" and i: "ipc_object_ok (KMailbox i) s" and t: "running_in t s"
    and mb: "mb_ok i s" "\<not> mb_room i s" and time: "time \<noteq> 0" "time < 0x7FFFFFFF"
  shows "\<exists>s'. rt_mb_send_wait i v time s = Some (Wait, s') \<and> sys_ok s' \<and> mb_ok i s' \<and>
     tstat s' t = RT_THREAD_SUSPEND \<and> th_error (thread s' t) = RT_EOK \<and>
     mb_abs i s' = (mb_content (k_mailboxes s i), k_tlists s (Susp (KMailbox i)),
       wait_insert s (oflag s (KMailbox i)) t (k_tlists s (SuspSender (KMailbox i))))"
proof -
  obtain s' where s': "wait_on (SuspSender (KMailbox i)) t (oflag s (KMailbox i)) time
      (upd_thread t (\<lambda>th. th\<lparr>th_error := RT_EOK\<rparr>) s) = Some s'"
    "sys_ok s'" "k_mailboxes s' = k_mailboxes s" "tstat s' t = RT_THREAD_SUSPEND" "th_error (thread s' t) = RT_EOK"
    "k_tlists s' (SuspSender (KMailbox i)) =
       wait_insert s (oflag s (KMailbox i)) t (k_tlists s (SuspSender (KMailbox i)))"
    "\<And>j. j \<noteq> SuspSender (KMailbox i) \<Longrightarrow> \<forall>p. j \<noteq> Ready p \<Longrightarrow> k_tlists s' j = k_tlists s j"
    by (rule mb_wait [OF ok i t mb_heads(2) time(2)]) (rule that; assumption)
  show ?thesis
    using ipc_object_okD(1) [OF sys_okD(1) [OF ok] i] mb_full_iff [OF mb(1)] mb time(1) t s'
    by (simp add: rt_mb_send_wait_def mb_send_loop_def context_checks mb_abs_def)
qed

text \<open>There is a mail: the oldest one is taken out, and the first waiting sender is woken.\<close>

lemma mb_recv_loop_mail:
  assumes ok: "sys_ok s" and mb: "mb_ok i s" "mb_content (k_mailboxes s i) = m # ms"
  shows "\<exists>s'. mb_recv_loop i time s = Some (Ret (RT_EOK, Some m), s') \<and> sys_ok s' \<and> mb_ok i s' \<and>
     mb_abs i s' = (ms, k_tlists s (Susp (KMailbox i)), tl (k_tlists s (SuspSender (KMailbox i)))) \<and>
     (\<forall>t ts. k_tlists s (SuspSender (KMailbox i)) = t # ts \<longrightarrow> runnable (tstat s' t)) \<and>
     (\<forall>t. th_error (thread s' t) = th_error (thread s t))"
proof -
  have ne: "mb_content (k_mailboxes s i) \<noteq> []" using mb(2) by simp
  have g: "fst (mb_get (k_mailboxes s i)) = m" "mb_content (snd (mb_get (k_mailboxes s i))) = ms"
    using mbox.get_content [OF mb(1) ne] mb(2) by simp_all
  let ?s1 = "upd_mb i (\<lambda>_. snd (mb_get (k_mailboxes s i))) s"
  have ok1: "sys_ok ?s1" using ok by simp
  obtain s' where s': "wake_first (SuspSender (KMailbox i)) ?s1 = Some s'" "sys_ok s'" "core_frame ?s1 s'"
    "k_tlists s' (SuspSender (KMailbox i)) = tl (k_tlists ?s1 (SuspSender (KMailbox i)))"
    "\<And>j. j \<noteq> SuspSender (KMailbox i) \<Longrightarrow> \<forall>p. j \<noteq> Ready p \<Longrightarrow> k_tlists s' j = k_tlists ?s1 j"
    "\<And>t ts. k_tlists ?s1 (SuspSender (KMailbox i)) = t # ts \<Longrightarrow> runnable (tstat s' t)"
    "\<And>t. th_error (thread s' t) = th_error (thread ?s1 t)"
    by (rule wake_first_run [OF ok1 mb_heads(2)]) (rule that; assumption)
  have "mb_recv_loop i time s = Some (Ret (RT_EOK, Some m), s')"
    using ne s'(1) g(1) by (simp add: mb_recv_loop_def mb_empty_iff split_beta)
  moreover have "k_mailboxes s' i = snd (mb_get (k_mailboxes s i))" using core_frame_fields(4) [OF s'(3)] by simp
  ultimately show ?thesis
    using s'(2,4-7) mbox.get_wf [OF mb(1) ne] g(2) by (auto simp: mb_abs_def)
qed

lemma rt_mb_recv_mail:
  assumes ok: "sys_ok s" and i: "ipc_object_ok (KMailbox i) s" and m: "mb_content (k_mailboxes s i) \<noteq> []"
  shows "rt_mb_recv i time s = mb_recv_loop i time s"
  using ipc_object_okD(1) [OF sys_okD(1) [OF ok] i] m by (simp add: rt_mb_recv_def mb_empty_iff)

lemma rt_mb_recv_empty:
  assumes ok: "kernel_ok s" and i: "ipc_object_ok (KMailbox i) s" and m: "mb_content (k_mailboxes s i) = []"
  shows "rt_mb_recv i 0 s = Some (Ret (- RT_ETIMEOUT, None), s)"
  using ipc_object_okD(1) [OF ok i] m by (simp add: rt_mb_recv_def mb_empty_iff)

lemma rt_mb_recv_waits:
  assumes ok: "sys_ok s" and i: "ipc_object_ok (KMailbox i) s" and t: "running_in t s"
    and m: "mb_content (k_mailboxes s i) = []" and time: "time \<noteq> 0" "time < 0x7FFFFFFF"
  shows "\<exists>s'. rt_mb_recv i time s = Some (Wait, s') \<and> sys_ok s' \<and> k_mailboxes s' = k_mailboxes s \<and>
     tstat s' t = RT_THREAD_SUSPEND \<and> th_error (thread s' t) = RT_EOK \<and>
     mb_abs i s' = ([], wait_insert s (oflag s (KMailbox i)) t (k_tlists s (Susp (KMailbox i))),
       k_tlists s (SuspSender (KMailbox i)))"
proof -
  obtain s' where s': "wait_on (Susp (KMailbox i)) t (oflag s (KMailbox i)) time
      (upd_thread t (\<lambda>th. th\<lparr>th_error := RT_EOK\<rparr>) s) = Some s'"
    "sys_ok s'" "k_mailboxes s' = k_mailboxes s" "tstat s' t = RT_THREAD_SUSPEND" "th_error (thread s' t) = RT_EOK"
    "k_tlists s' (Susp (KMailbox i)) = wait_insert s (oflag s (KMailbox i)) t (k_tlists s (Susp (KMailbox i)))"
    "\<And>j. j \<noteq> Susp (KMailbox i) \<Longrightarrow> \<forall>p. j \<noteq> Ready p \<Longrightarrow> k_tlists s' j = k_tlists s j"
    by (rule mb_wait [OF ok i t mb_heads(1) time(2)]) (rule that; assumption)
  show ?thesis
    using ipc_object_okD(1) [OF sys_okD(1) [OF ok] i] m time(1) t s'
    by (simp add: rt_mb_recv_def mb_recv_loop_def context_checks mb_abs_def mb_empty_iff)
qed

text \<open>
  The hand-shake: a mail sent while a receiver waits on the empty box is what that receiver gets when
  it goes on.
\<close>

lemma mb_handshake:
  assumes ok: "sys_ok s" and i: "ipc_object_ok (KMailbox i) s" and mb: "mb_ok i s" "mb_abs i s = ([], t # rs, ss)"
    and e: "th_error (thread s t) = RT_EOK" and r: "rt_mb_send i v s = Some (out, s')"
  shows "\<exists>s''. rt_mb_recv_resume i time start t s' = Some (Ret (RT_EOK, Some v), s'') \<and>
     sys_ok s'' \<and> mb_abs i s'' = ([], rs, tl ss)"
proof -
  have c: "mb_content (k_mailboxes s i) = []" "k_tlists s (Susp (KMailbox i)) = t # rs"
    "k_tlists s (SuspSender (KMailbox i)) = ss" using mb(2) by (auto simp: mb_abs_def)
  have room: "mb_room i s" using mb(1) c(1) by (auto simp: mb_wf_def word_less_nat_alt)
  obtain S: "sys_ok s'" "mb_ok i s'" "mb_abs i s' = ([v], rs, ss)" "th_error (thread s' t) = RT_EOK"
    using mb_send_loop_room [OF ok mb(1) room, of v 0] r c e
    by (auto simp: rt_mb_send_def rt_mb_send_wait_room [OF ok i mb(1) room])
  have m: "mb_content (k_mailboxes s' i) = [v]" using S(3) by (simp add: mb_abs_def)
  show ?thesis using mb_recv_loop_mail [OF S(1,2) m, of "recalc_timeout time start s'"] S(3,4)
    by (auto simp: rt_mb_recv_resume_def mb_abs_def)
qed

section \<open>Creation, reset and removal\<close>

lemma mb_start_wf:
  assumes "length pool = unat sz" "0 < unat sz" "unat sz < 0x10000"
  shows "mb_wf (mb_start pool sz)" "mb_content (mb_start pool sz) = []" "unat (mb_size (mb_start pool sz)) = unat sz"
proof -
  have "unat (ucast sz :: rt_uint16) = unat sz" using assms(3) by (simp add: unsigned_ucast_eq take_bit_nat_eq_self)
  then show "mb_wf (mb_start pool sz)" "mb_content (mb_start pool sz) = []"
    "unat (mb_size (mb_start pool sz)) = unat sz"
    using assms by (simp_all add: mb_wf_def mb_start_def mb_content_def word_less_nat_alt)
qed

lemma rt_mb_init_ok:
  assumes ok: "kernel_ok s" and r: "rt_mb_init i name pool sz flag s = Some (e, s')" and f: "ipc_flag_ok flag"
    and p: "length pool = unat sz" "0 < unat sz" "unat sz < 0x10000"
  shows "kernel_ok s'" "ipc_object_ok (KMailbox i) s'" "mb_ok i s'" "mb_abs i s' = ([], [], [])"
proof -
  obtain s1 where s1: "rt_object_init (KMailbox i) (class_of (KMailbox i)) name s = Some s1"
    and s': "s' = (let s = upd_mb i (\<lambda>_. mb_start pool sz) (rt_ipc_object_init (KMailbox i)
       (set_oflag (KMailbox i) flag s1)) in s\<lparr>k_tlists := (k_tlists s)(SuspSender (KMailbox i) := [])\<rparr>)"
    using r by (auto simp: rt_mb_init_def bind_Some_iff Let_def)
  note O = object_init_ok [OF ok _ s1, simplified]
  have k: "kernel_ok (set_oflag (KMailbox i) flag s1)" by (rule kernel_ok_upd_flag) (use O in simp_all)
  have s'': "s' = upd_mb i (\<lambda>_. mb_start pool sz) (set_oflag (KMailbox i) flag s1)"
    using O by (simp add: s' ipc_object_init_same Let_def fun_upd_idem upd_mb_def)
  show "kernel_ok s'" "ipc_object_ok (KMailbox i) s'" "mb_ok i s'" "mb_abs i s' = ([], [], [])"
    using O f k mb_start_wf [OF p] by (simp_all add: s'' ipc_object_ok_def mb_abs_def)
qed

text \<open>Resetting or removing a mailbox wakes every waiting thread, receivers and senders, with an error.\<close>

lemma rt_mb_reset:
  assumes ok: "sys_ok s" and i: "ipc_object_ok (KMailbox i) s" and mb: "mb_ok i s"
  shows "\<exists>s'. rt_mb_control i RT_IPC_CMD_RESET s = Some (RT_EOK, s') \<and> sys_ok s' \<and> mb_ok i s' \<and>
     mb_abs i s' = ([], [], []) \<and>
     (\<forall>t \<in> set (k_tlists s (Susp (KMailbox i))) \<union> set (k_tlists s (SuspSender (KMailbox i))).
        runnable (tstat s' t) \<and> th_error (thread s' t) = - RT_ERROR)"
proof -
  obtain s1 s2 where s1: "rt_ipc_list_resume_all (Susp (KMailbox i)) s = Some s1"
    "rt_ipc_list_resume_all (SuspSender (KMailbox i)) s1 = Some s2" "sys_ok s2" "core_frame s s2"
    "k_tlists s2 (Susp (KMailbox i)) = []" "k_tlists s2 (SuspSender (KMailbox i)) = []"
    "\<And>t. t \<in> set (k_tlists s (Susp (KMailbox i))) \<union> set (k_tlists s (SuspSender (KMailbox i))) \<Longrightarrow>
       runnable (tstat s2 t) \<and> th_error (thread s2 t) = - RT_ERROR"
    by (rule resume_both_run [OF ok, of "KMailbox i"]) (rule that; assumption)
  let ?f = "\<lambda>mb. mb\<lparr>mb_entry := 0, mb_in_offset := 0, mb_out_offset := 0\<rparr>"
  let ?s3 = "upd_mb i ?f s2"
  have "sys_ok ?s3" using s1(3) by simp
  then obtain s4 where s4: "rt_schedule ?s3 = Some s4" "sys_ok s4" "core_frame ?s3 s4"
    "\<And>h. \<forall>p. h \<noteq> Ready p \<Longrightarrow> k_tlists s4 h = k_tlists ?s3 h"
    "\<And>t. runnable (tstat s4 t) \<longleftrightarrow> runnable (tstat ?s3 t)"
    "\<And>t. th_error (thread s4 t) = th_error (thread ?s3 t)"
    by (rule rt_schedule_run) (rule that; assumption)
  have m: "k_mailboxes s4 i = ?f (k_mailboxes s i)"
    using core_frame_fields(4) [OF s4(3)] core_frame_fields(4) [OF s1(4)] by simp
  have "mb_wf (?f mb)" "mb_content (?f mb) = []" if "mb_wf mb" for mb
    using that le_less_trans [OF word_zero_le] by (auto simp: mb_wf_def mb_content_def)
  moreover have "rt_mb_control i RT_IPC_CMD_RESET s = Some (RT_EOK, s4)"
    using ipc_object_okD(1) [OF sys_okD(1) [OF ok] i] s1(1,2) s4(1) by (simp add: rt_mb_control_def)
  ultimately show ?thesis using m mb s1(5-7) s4 by (simp add: mb_abs_def)
qed

lemma rt_mb_detach_wakes_all:
  assumes ok: "sys_ok s" and i: "ipc_object_ok (KMailbox i) s" and st: "rt_object_is_systemobject (KMailbox i) s"
  shows "\<exists>s'. rt_mb_detach i s = Some (RT_EOK, s') \<and> kernel_ok s' \<and> \<not> listed (KMailbox i) s' \<and>
     (\<forall>t \<in> set (k_tlists s (Susp (KMailbox i))) \<union> set (k_tlists s (SuspSender (KMailbox i))).
        runnable (tstat s' t) \<and> th_error (thread s' t) = - RT_ERROR)"
proof -
  obtain s1 s2 where s1: "rt_ipc_list_resume_all (Susp (KMailbox i)) s = Some s1"
    "rt_ipc_list_resume_all (SuspSender (KMailbox i)) s1 = Some s2" "sys_ok s2" "core_frame s s2"
    "k_tlists s2 (Susp (KMailbox i)) = []" "k_tlists s2 (SuspSender (KMailbox i)) = []"
    "\<And>t. t \<in> set (k_tlists s (Susp (KMailbox i))) \<union> set (k_tlists s (SuspSender (KMailbox i))) \<Longrightarrow>
       runnable (tstat s2 t) \<and> th_error (thread s2 t) = - RT_ERROR"
    by (rule resume_both_run [OF ok, of "KMailbox i"]) (rule that; assumption)
  note D = object_detach_ok [OF sys_okD(1) [OF s1(3)] _ s1(5,6), simplified]
  show ?thesis using ipc_object_okD(1) [OF sys_okD(1) [OF ok] i] st s1(1,2,7) D by (simp add: rt_mb_detach_def)
qed

section \<open>Properties\<close>

text \<open>
  The circular array of a mailbox is a bounded first-in-first-out queue: under any sequence
  of stores and fetches that respects the capacity, what comes out and what stays in is what a
  list gives, and the offsets stay within the array.
\<close>

theorem mailbox_array_is_queue:
  assumes "mb_wf mb" "run_list (unat (mb_size mb)) ops (mb_content mb) = Some (outs, xs)"
  shows "fst (run_fifo mb_put mb_get ops mb) = outs \<and> mb_wf (snd (run_fifo mb_put mb_get ops mb)) \<and>
     mb_content (snd (run_fifo mb_put mb_get ops mb)) = xs"
  by (rule mbox.run_refines [OF assms]) simp

lemma mb_send_correct:
  assumes ok: "sys_ok s" and i: "ipc_object_ok (KMailbox i) s" and t: "running_in t s" and mb: "mb_ok i s"
    and time: "time < 0x7FFFFFFF"
  shows "\<exists>r s'. rt_mb_send_wait i v time s = Some (r, s') \<and> sys_ok s' \<and> mb_ok i s' \<and>
     (r, mb_abs i s') = chan_send_spec (wait_insert s (oflag s (KMailbox i)) t) (unat (mb_size (k_mailboxes s i)))
        time v (mb_abs i s) \<and>
     (\<forall>u us. r = Ret RT_EOK \<longrightarrow> fst (snd (mb_abs i s)) = u # us \<longrightarrow> runnable (tstat s' u))"
proof (cases "mb_room i s")
  case True
  then show ?thesis
    using mb_send_loop_room [OF ok mb True, of v time] rt_mb_send_wait_room [OF ok i mb True]
    by (auto simp: mb_abs_def)
next
  case False
  show ?thesis
  proof (cases "time = 0")
    case True
    then show ?thesis
      using rt_mb_send_full [OF sys_okD(1) [OF ok] i mb False, of v] ok mb False
      by (auto simp: rt_mb_send_def mb_abs_def)
  next
    case f: False
    then show ?thesis using rt_mb_send_wait_waits [OF ok i t mb False f time, of v] False by (auto simp: mb_abs_def)
  qed
qed

text \<open>
  C13: Sending a mail from a running thread always returns to the kernel and does what a channel
  prescribes: the mail is appended and the first waiting receiver becomes runnable, or the
  mailbox is full and the caller is refused or joins the waiting senders.
\<close>

theorem rt_mb_send_wait_refines:
  assumes ok: "sys_ok s" and i: "ipc_object_ok (KMailbox i) s" and t: "running_in t s" and mb: "mb_ok i s"
    and time: "time < 0x7FFFFFFF"
  shows "\<exists>r s'. rt_mb_send_wait i v time s = Some (r, s') \<and> sys_ok s' \<and> mb_ok i s' \<and>
     (r, mb_abs i s') = chan_send_spec (wait_insert s (oflag s (KMailbox i)) t) (unat (mb_size (k_mailboxes s i)))
        time v (mb_abs i s) \<and>
     (\<forall>u us. r = Ret RT_EOK \<longrightarrow> fst (snd (mb_abs i s)) = u # us \<longrightarrow> runnable (tstat s' u))"
  by (rule mb_send_correct [OF assms])

lemma mb_recv_correct:
  assumes ok: "sys_ok s" and i: "ipc_object_ok (KMailbox i) s" and t: "running_in t s" and mb: "mb_ok i s"
    and time: "time < 0x7FFFFFFF"
  shows "\<exists>r s'. rt_mb_recv i time s = Some (r, s') \<and> sys_ok s' \<and> mb_ok i s' \<and>
     (r, mb_abs i s') = chan_recv_spec (wait_insert s (oflag s (KMailbox i)) t) time (mb_abs i s) \<and>
     (\<forall>u us. mb_content (k_mailboxes s i) \<noteq> [] \<longrightarrow> snd (snd (mb_abs i s)) = u # us \<longrightarrow> runnable (tstat s' u))"
proof (cases "mb_content (k_mailboxes s i)")
  case Nil
  show ?thesis
  proof (cases "time = 0")
    case True
    then show ?thesis using rt_mb_recv_empty [OF sys_okD(1) [OF ok] i Nil] ok mb Nil by (auto simp: mb_abs_def)
  next
    case False
    then show ?thesis using rt_mb_recv_waits [OF ok i t Nil False time] mb Nil by (auto simp: mb_abs_def)
  qed
next
  case (Cons m ms)
  then show ?thesis
    using mb_recv_loop_mail [OF ok mb Cons, of time] rt_mb_recv_mail [OF ok i, of time] by (auto simp: mb_abs_def)
qed

text \<open>
  C14: Receiving a mail from a running thread always returns to the kernel and does what a
  channel prescribes: the oldest mail is delivered and the first waiting sender becomes runnable,
  or the mailbox is empty and the caller is refused or joins the waiting receivers.
\<close>

theorem rt_mb_recv_refines:
  assumes ok: "sys_ok s" and i: "ipc_object_ok (KMailbox i) s" and t: "running_in t s" and mb: "mb_ok i s"
    and time: "time < 0x7FFFFFFF"
  shows "\<exists>r s'. rt_mb_recv i time s = Some (r, s') \<and> sys_ok s' \<and> mb_ok i s' \<and>
     (r, mb_abs i s') = chan_recv_spec (wait_insert s (oflag s (KMailbox i)) t) time (mb_abs i s) \<and>
     (\<forall>u us. mb_content (k_mailboxes s i) \<noteq> [] \<longrightarrow> snd (snd (mb_abs i s)) = u # us \<longrightarrow> runnable (tstat s' u))"
  by (rule mb_recv_correct [OF assms])

text \<open>
  The handshake of a mailbox: a mail sent to an empty mailbox is delivered to the receiver
  that waited longest by the rules of the mailbox, which returns from its call with exactly this
  mail and with success.
\<close>

theorem mailbox_handshake:
  assumes ok: "sys_ok s" and i: "ipc_object_ok (KMailbox i) s" and mb: "mb_ok i s" "mb_abs i s = ([], t # rs, ss)"
    and e: "th_error (thread s t) = RT_EOK" and r: "rt_mb_send i v s = Some (out, s')"
  shows "\<exists>s''. rt_mb_recv_resume i time start t s' = Some (Ret (RT_EOK, Some v), s'') \<and>
     sys_ok s'' \<and> mb_abs i s'' = ([], rs, tl ss)"
  by (rule mb_handshake [OF ok i mb e r])

end
