(* ===== verification/MsgQueue.thy ===== *)
theory MsgQueue
  imports IpcBase Fifo
begin

text \<open>
  Message queues, \<^verbatim>\<open>src/ipc.c\<close>.  The slots of the message pool are chained through their
  \<^verbatim>\<open>next\<close> fields into the queue of messages and the list of free slots.

  A sender works in two critical sections: it takes a free slot in the first, copies its message
  with interrupts enabled, and links the slot in the second; a receiver likewise.  The functions
  \<open>mq_take_free\<close>, \<open>mq_fill\<close>, \<open>mq_link\<close>, \<open>mq_unlink\<close> and \<open>mq_release\<close> are these sections, and the
  representation \<open>mq_rep\<close> leaves the slots in between on neither chain, so that each section is
  correct whatever other threads do meanwhile.
\<close>

section \<open>Operations on the chains\<close>

type_synonym bytes = "rt_uint8 list"

definition mq_take_free :: "rt_messagequeue \<Rightarrow> (nat \<times> rt_messagequeue) option" where
  "mq_take_free mq = (case mq_free mq of None \<Rightarrow> None
     | Some m \<Rightarrow> Some (m, mq\<lparr>mq_free := mq_next mq m\<rparr>))"

text \<open>\<^verbatim>\<open>rt_memcpy(msg + 1, buffer, size)\<close>.\<close>

definition mq_copy :: "nat \<Rightarrow> bytes \<Rightarrow> rt_messagequeue \<Rightarrow> rt_messagequeue" where
  "mq_copy m buf mq = mq\<lparr>mq_data := (mq_data mq)(m := buf @ drop (length buf) (mq_data mq m))\<rparr>"

definition mq_fill :: "nat \<Rightarrow> bytes \<Rightarrow> rt_messagequeue \<Rightarrow> rt_messagequeue" where
  "mq_fill m buf mq = mq_copy m buf (mq\<lparr>mq_next := (mq_next mq)(m := None)\<rparr>)"

definition mq_link :: "nat \<Rightarrow> rt_messagequeue \<Rightarrow> rt_messagequeue" where
  "mq_link m mq =
     (let mq = (case mq_tail mq of None \<Rightarrow> mq | Some l \<Rightarrow> mq\<lparr>mq_next := (mq_next mq)(l := Some m)\<rparr>);
          mq = mq\<lparr>mq_tail := Some m\<rparr>;
          mq = (if mq_head mq = None then mq\<lparr>mq_head := Some m\<rparr> else mq)
      in mq\<lparr>mq_entry := mq_entry mq + 1\<rparr>)"

definition mq_link_first :: "nat \<Rightarrow> rt_messagequeue \<Rightarrow> rt_messagequeue" where
  "mq_link_first m mq =
     (let mq = mq\<lparr>mq_next := (mq_next mq)(m := mq_head mq)\<rparr>;
          mq = mq\<lparr>mq_head := Some m\<rparr>;
          mq = (if mq_tail mq = None then mq\<lparr>mq_tail := Some m\<rparr> else mq)
      in mq\<lparr>mq_entry := mq_entry mq + 1\<rparr>)"

definition mq_unhead :: "nat \<Rightarrow> rt_messagequeue \<Rightarrow> rt_messagequeue" where
  "mq_unhead m mq =
     (let mq = mq\<lparr>mq_head := mq_next mq m\<rparr>
      in if mq_tail mq = Some m then mq\<lparr>mq_tail := None\<rparr> else mq)"

text \<open>An entry count that promises a message the queue does not have is an invalid access.\<close>

definition mq_unlink :: "rt_messagequeue \<Rightarrow> (nat \<times> rt_messagequeue) option" where
  "mq_unlink mq = (case mq_head mq of None \<Rightarrow> None
     | Some m \<Rightarrow> Some (m, (mq_unhead m mq)\<lparr>mq_entry := mq_entry mq - 1\<rparr>))"

definition mq_release :: "nat \<Rightarrow> rt_messagequeue \<Rightarrow> rt_messagequeue" where
  "mq_release m mq = mq\<lparr>mq_next := (mq_next mq)(m := mq_free mq), mq_free := Some m\<rparr>"

text \<open>The loop that releases all messages, of \<^verbatim>\<open>rt_mq_control\<close>.\<close>

partial_function (option) mq_drain :: "rt_messagequeue \<Rightarrow> rt_messagequeue option" where
  "mq_drain mq = (case mq_head mq of None \<Rightarrow> Some mq
     | Some m \<Rightarrow> mq_drain (mq_release m (mq_unhead m mq)))"

text \<open>The slots of a new queue, all free; \<open>data\<close> is what the memory of the pool holds.\<close>

definition mq_start :: "rt_uint16 \<Rightarrow> rt_uint16 \<Rightarrow> (nat \<Rightarrow> bytes) \<Rightarrow> rt_messagequeue" where
  "mq_start msg_size max_msgs data =
     fold mq_release [0..<unat max_msgs]
       \<lparr>mq_msg_size = msg_size, mq_max_msgs = max_msgs, mq_entry = 0, mq_head = None, mq_tail = None,
        mq_free = None, mq_next = (\<lambda>_. None), mq_data = data\<rparr>"

section \<open>Operations\<close>

definition upd_mq :: "oid \<Rightarrow> (rt_messagequeue \<Rightarrow> rt_messagequeue) \<Rightarrow> kstate \<Rightarrow> kstate" where
  "upd_mq i f s = s\<lparr>k_mqs := (k_mqs s)(i := f (k_mqs s i))\<rparr>"

definition rt_mq_init ::
    "oid \<Rightarrow> rt_uint8 list \<Rightarrow> (nat \<Rightarrow> bytes) \<Rightarrow> rt_uint32 \<Rightarrow> rt_uint32 \<Rightarrow> rt_uint8 \<Rightarrow> kstate \<Rightarrow>
       (rt_err \<times> kstate) option" where
  "rt_mq_init i name data msg_size pool_size flag s = do {
     s \<leftarrow> rt_object_init (KMq i) RT_Object_Class_MessageQueue name s;
     let s = set_oflag (KMq i) flag s;
     let s = rt_ipc_object_init (KMq i) s;
     let sz = (ucast (RT_ALIGN msg_size RT_ALIGN_SIZE) :: rt_uint16);
     let max_msgs = ucast (pool_size div (ucast sz + 4));
     let s = upd_mq i (\<lambda>_. mq_start sz max_msgs data) s;
     let s = s\<lparr>k_tlists := (k_tlists s)(SuspSender (KMq i) := [])\<rparr>;
     Some (RT_EOK, s)
   }"

definition rt_mq_detach :: "oid \<Rightarrow> kstate \<Rightarrow> (rt_err \<times> kstate) option" where
  "rt_mq_detach i s = do {
     rt_assert (rt_object_get_type (KMq i) s = RT_Object_Class_MessageQueue);
     rt_assert (rt_object_is_systemobject (KMq i) s);
     s \<leftarrow> rt_ipc_list_resume_all (Susp (KMq i)) s;
     s \<leftarrow> rt_ipc_list_resume_all (SuspSender (KMq i)) s;
     Some (RT_EOK, rt_object_detach (KMq i) s)
   }"

definition rt_mq_create ::
    "rt_uint8 list \<Rightarrow> rt_uint32 \<Rightarrow> rt_uint32 \<Rightarrow> rt_uint8 \<Rightarrow> oid option \<Rightarrow> (nat \<Rightarrow> bytes) option \<Rightarrow> kstate \<Rightarrow>
       (oid option \<times> kstate) option" where
  "rt_mq_create name msg_size max_msgs flag alloc data s = do {
     rt_debug_not_in_interrupt s;
     (_, s) \<leftarrow> rt_object_allocate RT_Object_Class_MessageQueue name (map_option KMq alloc) s;
     (case alloc of
        None \<Rightarrow> Some (None, s)
      | Some i \<Rightarrow>
          (let s = set_oflag (KMq i) flag s;
               s = rt_ipc_object_init (KMq i) s;
               sz = ucast (RT_ALIGN msg_size RT_ALIGN_SIZE);
               s = upd_mq i (\<lambda>mq. mq\<lparr>mq_msg_size := sz, mq_max_msgs := ucast max_msgs\<rparr>) s
           in case data of
                None \<Rightarrow> do { s \<leftarrow> rt_object_delete (KMq i) s; Some (None, s) }
              | Some d \<Rightarrow>
                  (let s = upd_mq i (\<lambda>_. mq_start sz (ucast max_msgs) d) s;
                       s = s\<lparr>k_tlists := (k_tlists s)(SuspSender (KMq i) := [])\<rparr>
                   in Some (Some i, s))))
   }"

definition rt_mq_delete :: "oid \<Rightarrow> kstate \<Rightarrow> (rt_err \<times> kstate) option" where
  "rt_mq_delete i s = do {
     rt_debug_not_in_interrupt s;
     rt_assert (rt_object_get_type (KMq i) s = RT_Object_Class_MessageQueue);
     rt_assert (\<not> rt_object_is_systemobject (KMq i) s);
     s \<leftarrow> rt_ipc_list_resume_all (Susp (KMq i)) s;
     s \<leftarrow> rt_ipc_list_resume_all (SuspSender (KMq i)) s;
     s \<leftarrow> rt_object_delete (KMq i) s;
     Some (RT_EOK, s)
   }"

text \<open>From the test of the \<^verbatim>\<open>while\<close> on; \<open>buffer\<close> is the message, its length the argument
  \<^verbatim>\<open>size\<close>.\<close>

definition mq_send_loop :: "oid \<Rightarrow> bytes \<Rightarrow> int \<Rightarrow> kstate \<Rightarrow> (rt_err outcome \<times> kstate) option" where
  "mq_send_loop i buffer time s =
     (case mq_take_free (k_mqs s i) of
        None \<Rightarrow> do {
          t \<leftarrow> rt_thread_self s;
          let s = upd_thread t (\<lambda>th. th\<lparr>th_error := RT_EOK\<rparr>) s;
          if time = 0 then Some (Ret (- RT_EFULL), s)
          else do {
            rt_debug_in_thread_context s;
            s \<leftarrow> wait_on (SuspSender (KMq i)) t (oflag s (KMq i)) time s;
            Some (Wait, s)
          }
        }
      | Some (m, mq) \<Rightarrow> do {
          let s = upd_mq i (\<lambda>_. mq_link m (mq_fill m buffer mq)) s;
          s \<leftarrow> wake_first (Susp (KMq i)) s;
          Some (Ret RT_EOK, s)
        })"

definition rt_mq_send_wait :: "oid \<Rightarrow> bytes \<Rightarrow> int \<Rightarrow> kstate \<Rightarrow> (rt_err outcome \<times> kstate) option" where
  "rt_mq_send_wait i buffer time s = do {
     rt_assert (rt_object_get_type (KMq i) s = RT_Object_Class_MessageQueue);
     rt_assert (length buffer \<noteq> 0);
     if unat (mq_msg_size (k_mqs s i)) < length buffer then Some (Ret (- RT_ERROR), s)
     else if mq_free (k_mqs s i) = None \<and> time = 0 then Some (Ret (- RT_EFULL), s)
     else mq_send_loop i buffer time s
   }"

definition rt_mq_send_wait_resume ::
    "oid \<Rightarrow> bytes \<Rightarrow> int \<Rightarrow> rt_uint32 \<Rightarrow> tid \<Rightarrow> kstate \<Rightarrow> (rt_err outcome \<times> kstate) option" where
  "rt_mq_send_wait_resume i buffer time start t s =
     (if th_error (thread s t) \<noteq> RT_EOK then Some (Ret (th_error (thread s t)), s)
      else mq_send_loop i buffer (recalc_timeout time start s) s)"

definition rt_mq_send :: "oid \<Rightarrow> bytes \<Rightarrow> kstate \<Rightarrow> (rt_err outcome \<times> kstate) option" where
  "rt_mq_send i buffer s = rt_mq_send_wait i buffer 0 s"

definition rt_mq_urgent :: "oid \<Rightarrow> bytes \<Rightarrow> kstate \<Rightarrow> (rt_err \<times> kstate) option" where
  "rt_mq_urgent i buffer s = do {
     rt_assert (rt_object_get_type (KMq i) s = RT_Object_Class_MessageQueue);
     rt_assert (length buffer \<noteq> 0);
     if unat (mq_msg_size (k_mqs s i)) < length buffer then Some (- RT_ERROR, s)
     else (case mq_take_free (k_mqs s i) of
        None \<Rightarrow> Some (- RT_EFULL, s)
      | Some (m, mq) \<Rightarrow> do {
          let s = upd_mq i (\<lambda>_. mq_link_first m (mq_copy m buffer mq)) s;
          s \<leftarrow> wake_first (Susp (KMq i)) s;
          Some (RT_EOK, s)
        })
   }"

text \<open>The second result is what is copied to \<^verbatim>\<open>buffer\<close>.\<close>

definition mq_recv_loop :: "oid \<Rightarrow> nat \<Rightarrow> int \<Rightarrow> kstate \<Rightarrow> ((rt_err \<times> bytes option) outcome \<times> kstate) option" where
  "mq_recv_loop i sz time s =
     (if mq_entry (k_mqs s i) = 0
      then do {
        rt_debug_in_thread_context s;
        t \<leftarrow> rt_thread_self s;
        let s = upd_thread t (\<lambda>th. th\<lparr>th_error := RT_EOK\<rparr>) s;
        if time = 0
        then Some (Ret (- RT_ETIMEOUT, None), upd_thread t (\<lambda>th. th\<lparr>th_error := - RT_ETIMEOUT\<rparr>) s)
        else do {
          s \<leftarrow> wait_on (Susp (KMq i)) t (oflag s (KMq i)) time s;
          Some (Wait, s)
        }
      }
      else do {
        (m, mq) \<leftarrow> mq_unlink (k_mqs s i);
        let data = take (if unat (mq_msg_size mq) < sz then unat (mq_msg_size mq) else sz) (mq_data mq m);
        s \<leftarrow> wake_first (SuspSender (KMq i)) (upd_mq i (\<lambda>_. mq_release m mq) s);
        Some (Ret (RT_EOK, Some data), s)
      })"

definition rt_mq_recv :: "oid \<Rightarrow> nat \<Rightarrow> int \<Rightarrow> kstate \<Rightarrow> ((rt_err \<times> bytes option) outcome \<times> kstate) option" where
  "rt_mq_recv i sz time s = do {
     rt_assert (rt_object_get_type (KMq i) s = RT_Object_Class_MessageQueue);
     rt_assert (sz \<noteq> 0);
     if mq_entry (k_mqs s i) = 0 \<and> time = 0 then Some (Ret (- RT_ETIMEOUT, None), s)
     else mq_recv_loop i sz time s
   }"

definition rt_mq_recv_resume ::
    "oid \<Rightarrow> nat \<Rightarrow> int \<Rightarrow> rt_uint32 \<Rightarrow> tid \<Rightarrow> kstate \<Rightarrow> ((rt_err \<times> bytes option) outcome \<times> kstate) option" where
  "rt_mq_recv_resume i sz time start t s =
     (if th_error (thread s t) \<noteq> RT_EOK then Some (Ret (th_error (thread s t), None), s)
      else mq_recv_loop i sz (recalc_timeout time start s) s)"

definition rt_mq_control :: "oid \<Rightarrow> int \<Rightarrow> kstate \<Rightarrow> (rt_err \<times> kstate) option" where
  "rt_mq_control i cmd s = do {
     rt_assert (rt_object_get_type (KMq i) s = RT_Object_Class_MessageQueue);
     if cmd = RT_IPC_CMD_RESET then do {
       s \<leftarrow> rt_ipc_list_resume_all (Susp (KMq i)) s;
       s \<leftarrow> rt_ipc_list_resume_all (SuspSender (KMq i)) s;
       mq \<leftarrow> mq_drain (k_mqs s i);
       let s = upd_mq i (\<lambda>_. mq\<lparr>mq_entry := 0\<rparr>) s;
       s \<leftarrow> rt_schedule s;
       Some (RT_EOK, s)
     }
     else Some (- RT_ERROR, s)
   }"

section \<open>Chains\<close>

primrec chain :: "(nat \<Rightarrow> nat option) \<Rightarrow> nat option \<Rightarrow> nat list \<Rightarrow> bool" where
  "chain nx p [] \<longleftrightarrow> p = None"
| "chain nx p (x # xs) \<longleftrightarrow> p = Some x \<and> chain nx (nx x) xs"

lemma chain_upd [simp]: "u \<notin> set xs \<Longrightarrow> chain (nx(u := v)) p xs = chain nx p xs"
  by (induction xs arbitrary: p) auto

lemma chain_unique: "chain nx p xs \<Longrightarrow> chain nx p ys \<Longrightarrow> xs = ys"
proof (induction xs arbitrary: p ys)
  case (Cons x xs)
  then show ?case by (cases ys) auto
qed (metis chain.simps(1) chain.simps(2) list.exhaust option.distinct(1))

lemma chain_snoc:
  assumes "chain nx p xs" "xs \<noteq> []" "distinct xs" "y \<notin> set xs" "nx y = None"
  shows "chain (nx(last xs := Some y)) p (xs @ [y])"
  using assms
proof (induction xs arbitrary: p)
  case (Cons x xs)
  show ?case
  proof (cases "xs = []")
    case True
    then show ?thesis using Cons.prems by auto
  next
    case False
    then have "last xs \<noteq> x" using Cons.prems(3) by auto
    then show ?thesis using Cons False by auto
  qed
qed simp

lemma chain_Nil_iff: "chain nx p xs \<Longrightarrow> p = None \<longleftrightarrow> xs = []"
  by (cases xs) auto

section \<open>The representation of a queue\<close>

text \<open>\<open>q\<close> are the slots of the queued messages in order, \<open>f\<close> the free slots; a slot on neither chain is
  being filled or read.\<close>

definition mq_rep :: "rt_messagequeue \<Rightarrow> nat list \<Rightarrow> nat list \<Rightarrow> bool" where
  "mq_rep mq q f \<longleftrightarrow> chain (mq_next mq) (mq_head mq) q \<and> chain (mq_next mq) (mq_free mq) f \<and>
     distinct (q @ f) \<and> set (q @ f) \<subseteq> {..<unat (mq_max_msgs mq)} \<and>
     mq_tail mq = (if q = [] then None else Some (last q)) \<and> unat (mq_entry mq) = length q"

lemma mq_rep_unique: "mq_rep mq q f \<Longrightarrow> mq_rep mq q' f' \<Longrightarrow> q' = q \<and> f' = f"
  unfolding mq_rep_def using chain_unique by blast

lemma mq_rep_length: "mq_rep mq q f \<Longrightarrow> length q + length f \<le> unat (mq_max_msgs mq)"
  unfolding mq_rep_def by (metis card_lessThan card_mono distinct_card finite_lessThan length_append)

lemma mq_rep_no_wrap: "mq_rep mq q f \<Longrightarrow> m \<notin> set (q @ f) \<Longrightarrow> m < unat (mq_max_msgs mq) \<Longrightarrow>
   length q < unat (mq_max_msgs mq)"
proof -
  assume r: "mq_rep mq q f" and m: "m \<notin> set (q @ f)" "m < unat (mq_max_msgs mq)"
  then have "card (set (m # q)) \<le> card {..<unat (mq_max_msgs mq)}"
    by (intro card_mono) (auto simp: mq_rep_def)
  then show ?thesis using r m by (simp add: mq_rep_def distinct_card)
qed

text \<open>The first critical section of a sender.\<close>

lemma mq_take_free_rep:
  assumes "mq_rep mq q (m # f)"
  shows "mq_take_free mq = Some (m, mq\<lparr>mq_free := mq_next mq m\<rparr>)" "mq_rep (mq\<lparr>mq_free := mq_next mq m\<rparr>) q f"
  using assms by (auto simp: mq_rep_def mq_take_free_def)

lemma mq_take_free_none: "mq_rep mq q f \<Longrightarrow> mq_take_free mq = None \<longleftrightarrow> f = []"
  by (cases f) (auto simp: mq_rep_def mq_take_free_def)

lemma mq_free_none: "mq_rep mq q f \<Longrightarrow> mq_free mq = None \<longleftrightarrow> f = []"
  using chain_Nil_iff [of "mq_next mq" "mq_free mq" f] by (auto simp: mq_rep_def)

text \<open>Filling a slot that is on neither chain.\<close>

lemma mq_fill_rep:
  assumes "mq_rep mq q f" "m \<notin> set (q @ f)"
  shows "mq_rep (mq_fill m buf mq) q f" "mq_next (mq_fill m buf mq) m = None"
    "mq_data (mq_fill m buf mq) = (mq_data mq)(m := buf @ drop (length buf) (mq_data mq m))"
  using assms by (auto simp: mq_rep_def mq_fill_def mq_copy_def)

lemma mq_copy_rep:
  assumes "mq_rep mq q f"
  shows "mq_rep (mq_copy m buf mq) q f"
    "mq_data (mq_copy m buf mq) = (mq_data mq)(m := buf @ drop (length buf) (mq_data mq m))"
  using assms by (auto simp: mq_rep_def mq_copy_def)

text \<open>The second critical section: the slot becomes the last message, or the first.\<close>

lemma mq_link_rep:
  assumes r: "mq_rep mq q f" and m: "m \<notin> set (q @ f)" "m < unat (mq_max_msgs mq)" "mq_next mq m = None"
  shows "mq_rep (mq_link m mq) (q @ [m]) f" "mq_data (mq_link m mq) = mq_data mq"
proof -
  note R = r [unfolded mq_rep_def]
  have e: "unat (mq_entry mq + 1) = Suc (length q)"
    using mq_rep_no_wrap [OF r m(1,2)] R unat_inc_below [of "mq_entry mq" "mq_max_msgs mq"] by simp
  show "mq_rep (mq_link m mq) (q @ [m]) f"
  proof (cases "q = []")
    case True
    then show ?thesis using R m e by (auto simp: mq_rep_def mq_link_def Let_def)
  next
    case False
    have h: "mq_head mq \<noteq> None" using False R chain_Nil_iff by blast
    have c: "chain ((mq_next mq)(last q := Some m)) (mq_head mq) (q @ [m])"
      by (rule chain_snoc) (use R m False in auto)
    have "last q \<notin> set f" using R False last_in_set by fastforce
    then show ?thesis using R m e c h False by (auto simp: mq_rep_def mq_link_def Let_def)
  qed
  show "mq_data (mq_link m mq) = mq_data mq" by (simp add: mq_link_def Let_def split: option.splits)
qed

lemma mq_link_first_rep:
  assumes r: "mq_rep mq q f" and m: "m \<notin> set (q @ f)" "m < unat (mq_max_msgs mq)"
  shows "mq_rep (mq_link_first m mq) (m # q) f" "mq_data (mq_link_first m mq) = mq_data mq"
proof -
  note R = r [unfolded mq_rep_def]
  have e: "unat (mq_entry mq + 1) = Suc (length q)"
    using mq_rep_no_wrap [OF r m] R unat_inc_below [of "mq_entry mq" "mq_max_msgs mq"] by simp
  show "mq_rep (mq_link_first m mq) (m # q) f" using R m e by (auto simp: mq_rep_def mq_link_first_def Let_def)
  show "mq_data (mq_link_first m mq) = mq_data mq" by (simp add: mq_link_first_def Let_def)
qed

text \<open>A receiver takes the first message off, and gives its slot back.\<close>

lemma mq_unhead_rep:
  assumes r: "mq_rep mq (m # q) f"
  shows "mq_rep ((mq_unhead m mq)\<lparr>mq_entry := mq_entry mq - 1\<rparr>) q f"
  using r unat_dec_pos [of "mq_entry mq" "length q"] by (auto simp: mq_rep_def mq_unhead_def Let_def split: if_splits)

lemma mq_unlink_rep:
  assumes r: "mq_rep mq (m # q) f"
  shows "mq_unlink mq = Some (m, (mq_unhead m mq)\<lparr>mq_entry := mq_entry mq - 1\<rparr>)"
  using r by (auto simp: mq_rep_def mq_unlink_def)

lemma mq_release_rep:
  assumes "mq_rep mq q f" "m \<notin> set (q @ f)" "m < unat (mq_max_msgs mq)"
  shows "mq_rep (mq_release m mq) q (m # f)"
  using assms by (auto simp: mq_rep_def mq_release_def)

lemma mq_sizes [simp]:
  "mq_max_msgs (mq_link m mq) = mq_max_msgs mq" "mq_msg_size (mq_link m mq) = mq_msg_size mq"
  "mq_max_msgs (mq_link_first m mq) = mq_max_msgs mq" "mq_msg_size (mq_link_first m mq) = mq_msg_size mq"
  "mq_max_msgs (mq_fill m buf mq) = mq_max_msgs mq" "mq_msg_size (mq_fill m buf mq) = mq_msg_size mq"
  "mq_max_msgs (mq_copy m buf mq) = mq_max_msgs mq" "mq_msg_size (mq_copy m buf mq) = mq_msg_size mq"
  "mq_max_msgs (mq_unhead m mq) = mq_max_msgs mq" "mq_msg_size (mq_unhead m mq) = mq_msg_size mq"
  "mq_max_msgs (mq_release m mq) = mq_max_msgs mq" "mq_msg_size (mq_release m mq) = mq_msg_size mq"
  "mq_data (mq_unhead m mq) = mq_data mq" "mq_data (mq_release m mq) = mq_data mq"
  by (auto simp: mq_link_def mq_link_first_def mq_fill_def mq_copy_def mq_unhead_def mq_release_def Let_def
      split: option.splits)

text \<open>Releasing all messages ends, with every slot of the queue free.\<close>

lemma mq_drain_total:
  assumes "chain (mq_next mq) (mq_head mq) q" "chain (mq_next mq) (mq_free mq) f" "distinct (q @ f)"
    "mq_tail mq = (if q = [] then None else Some (last q))"
  shows "\<exists>nx fr. mq_drain mq = Some (mq\<lparr>mq_head := None, mq_tail := None, mq_free := fr, mq_next := nx\<rparr>) \<and>
     chain nx fr (rev q @ f)"
  using assms
proof (induction q arbitrary: mq f)
  case Nil
  then show ?case
    by (intro exI [of _ "mq_next mq"] exI [of _ "mq_free mq"]) (subst mq_drain.simps, simp)
next
  case (Cons m q)
  let ?mq = "mq_release m (mq_unhead m mq)"
  have l: "q \<noteq> [] \<Longrightarrow> last q \<noteq> m" using Cons.prems(3) by auto
  have step: "mq_drain mq = mq_drain ?mq" using Cons.prems(1) by (subst mq_drain.simps) simp
  obtain nx fr where r: "mq_drain ?mq = Some (?mq\<lparr>mq_head := None, mq_tail := None, mq_free := fr, mq_next := nx\<rparr>)"
    "chain nx fr (rev q @ m # f)"
  proof -
    have f: "mq_next ?mq = (mq_next mq)(m := mq_free mq)" "mq_head ?mq = mq_next mq m" "mq_free ?mq = Some m"
      and tl: "mq_tail ?mq = (if q = [] then None else Some (last q))"
      using Cons.prems(4) l by (simp_all add: mq_release_def mq_unhead_def Let_def)
    have "chain (mq_next ?mq) (mq_head ?mq) q" "chain (mq_next ?mq) (mq_free ?mq) (m # f)" "distinct (q @ m # f)"
      unfolding f using Cons.prems by simp_all
    from Cons.IH [OF this tl] show thesis using that by blast
  qed
  have "?mq\<lparr>mq_head := None, mq_tail := None, mq_free := fr, mq_next := nx\<rparr> =
      mq\<lparr>mq_head := None, mq_tail := None, mq_free := fr, mq_next := nx\<rparr>"
    by (simp add: mq_release_def mq_unhead_def Let_def)
  then show ?case using step r by auto
qed

lemma mq_drain_rep:
  assumes "mq_rep mq q f"
  shows "\<exists>mq'. mq_drain mq = Some mq' \<and> mq_rep (mq'\<lparr>mq_entry := 0\<rparr>) [] (rev q @ f) \<and>
     mq_max_msgs mq' = mq_max_msgs mq \<and> mq_msg_size mq' = mq_msg_size mq \<and> mq_data mq' = mq_data mq"
  using mq_drain_total [of mq q f] assms unfolding mq_rep_def by force

lemma mq_start_rep:
  "mq_rep (mq_start sz n data) [] (rev [0..<unat n])" "mq_max_msgs (mq_start sz n data) = n"
  "mq_msg_size (mq_start sz n data) = sz" "mq_data (mq_start sz n data) = data"
proof -
  let ?mq0 = "\<lparr>mq_msg_size = sz, mq_max_msgs = n, mq_entry = 0, mq_head = None, mq_tail = None,
        mq_free = None, mq_next = (\<lambda>_. None), mq_data = data\<rparr>"
  have "mq_rep (fold mq_release [0..<k] ?mq0) [] (rev [0..<k]) \<and> mq_max_msgs (fold mq_release [0..<k] ?mq0) = n \<and>
      mq_msg_size (fold mq_release [0..<k] ?mq0) = sz \<and> mq_data (fold mq_release [0..<k] ?mq0) = data"
    if "k \<le> unat n" for k
    using that
  proof (induction k)
    case 0
    show ?case by (simp add: mq_rep_def)
  next
    case (Suc k)
    define mq where "mq = fold mq_release [0..<k] ?mq0"
    have "mq_rep mq [] (rev [0..<k])" "mq_max_msgs mq = n" "mq_msg_size mq = sz" "mq_data mq = data"
      using Suc by (simp_all add: mq_def)
    moreover have "fold mq_release [0..<Suc k] ?mq0 = mq_release k mq" by (simp add: mq_def)
    ultimately show ?case using mq_release_rep [of mq "[]" "rev [0..<k]" k] Suc.prems by simp
  qed
  from this [of "unat n"] show "mq_rep (mq_start sz n data) [] (rev [0..<unat n])"
    "mq_max_msgs (mq_start sz n data) = n" "mq_msg_size (mq_start sz n data) = sz" "mq_data (mq_start sz n data) = data"
    by (simp_all add: mq_start_def)
qed

section \<open>A message queue is a bounded queue\<close>

fun walk :: "(nat \<Rightarrow> nat option) \<Rightarrow> nat \<Rightarrow> nat option \<Rightarrow> nat list" where
  "walk nx 0 p = []"
| "walk nx (Suc n) p = (case p of None \<Rightarrow> [] | Some x \<Rightarrow> x # walk nx n (nx x))"

lemma walk_chain: "chain nx p xs \<Longrightarrow> length xs \<le> n \<Longrightarrow> walk nx n p = xs"
proof (induction xs arbitrary: p n)
  case Nil
  then show ?case by (cases n) auto
next
  case (Cons x xs)
  then show ?case by (cases n) auto
qed

definition mq_queue :: "rt_messagequeue \<Rightarrow> nat list" where
  "mq_queue mq = walk (mq_next mq) (unat (mq_max_msgs mq)) (mq_head mq)"

definition mq_frees :: "rt_messagequeue \<Rightarrow> nat list" where
  "mq_frees mq = walk (mq_next mq) (unat (mq_max_msgs mq)) (mq_free mq)"

definition mq_content :: "rt_messagequeue \<Rightarrow> bytes list" where
  "mq_content mq = map (mq_data mq) (mq_queue mq)"

text \<open>Every slot is on one of the chains and holds a message of the full size.\<close>

definition mq_wf :: "rt_messagequeue \<Rightarrow> bool" where
  "mq_wf mq \<longleftrightarrow> mq_rep mq (mq_queue mq) (mq_frees mq) \<and>
     length (mq_queue mq) + length (mq_frees mq) = unat (mq_max_msgs mq) \<and>
     (\<forall>m < unat (mq_max_msgs mq). length (mq_data mq m) = unat (mq_msg_size mq))"

lemma mq_rep_walk: "mq_rep mq q f \<Longrightarrow> mq_queue mq = q \<and> mq_frees mq = f"
  using mq_rep_length [of mq q f] by (auto simp: mq_rep_def mq_queue_def mq_frees_def intro!: walk_chain)

lemma mq_wfI:
  assumes "mq_rep mq q f" "length q + length f = unat (mq_max_msgs mq)"
    "\<And>m. m < unat (mq_max_msgs mq) \<Longrightarrow> length (mq_data mq m) = unat (mq_msg_size mq)"
  shows "mq_wf mq" "mq_queue mq = q" "mq_frees mq = f"
  using assms mq_rep_walk [OF assms(1)] by (simp_all add: mq_wf_def)

definition mq_put :: "bytes \<Rightarrow> rt_messagequeue \<Rightarrow> rt_messagequeue" where
  "mq_put buf mq = (case mq_take_free mq of None \<Rightarrow> mq | Some (m, mq) \<Rightarrow> mq_link m (mq_fill m buf mq))"

definition mq_put_first :: "bytes \<Rightarrow> rt_messagequeue \<Rightarrow> rt_messagequeue" where
  "mq_put_first buf mq = (case mq_take_free mq of None \<Rightarrow> mq | Some (m, mq) \<Rightarrow> mq_link_first m (mq_copy m buf mq))"

definition mq_get :: "rt_messagequeue \<Rightarrow> bytes \<times> rt_messagequeue" where
  "mq_get mq = (case mq_unlink mq of None \<Rightarrow> ([], mq) | Some (m, mq) \<Rightarrow> (mq_data mq m, mq_release m mq))"

text \<open>
  A message shorter than the message size leaves the rest of the slot as it was: the receiver finds the
  message followed by the old bytes of the first free slot, which is the one that is used.
\<close>

definition mq_sent :: "bytes \<Rightarrow> rt_messagequeue \<Rightarrow> bytes" where
  "mq_sent buf mq = buf @ (case mq_free mq of None \<Rightarrow> [] | Some m \<Rightarrow> drop (length buf) (mq_data mq m))"

lemma mq_put_spec:
  assumes wf: "mq_wf mq" and room: "length (mq_content mq) < unat (mq_max_msgs mq)"
    and n: "length buf \<le> unat (mq_msg_size mq)"
  shows "mq_wf (mq_put buf mq)"
    "length (mq_sent buf mq) = unat (mq_msg_size mq)" "mq_content (mq_put buf mq) = mq_content mq @ [mq_sent buf mq]"
    "mq_wf (mq_put_first buf mq)"
    "mq_content (mq_put_first buf mq) = mq_sent buf mq # mq_content mq"
    "mq_take_free mq \<noteq> None"
proof -
  let ?q = "mq_queue mq"
  obtain m f where fr: "mq_frees mq = m # f" using wf room by (cases "mq_frees mq") (auto simp: mq_wf_def mq_content_def)
  have r: "mq_rep mq ?q (m # f)" and len: "length ?q + length (m # f) = unat (mq_max_msgs mq)"
    and dat: "\<And>m. m < unat (mq_max_msgs mq) \<Longrightarrow> length (mq_data mq m) = unat (mq_msg_size mq)"
    using wf fr by (simp_all add: mq_wf_def)
  let ?mq1 = "mq\<lparr>mq_free := mq_next mq m\<rparr>" and ?old = "drop (length buf) (mq_data mq m)"
  note T = mq_take_free_rep [OF r]
  have m: "m \<notin> set (?q @ f)" "m < unat (mq_max_msgs ?mq1)" using r by (auto simp: mq_rep_def)
  note F = mq_fill_rep [OF T(2) m(1), of buf] and C = mq_copy_rep [OF T(2), of m buf]
  have mx: "m < unat (mq_max_msgs (mq_fill m buf ?mq1))" "m < unat (mq_max_msgs (mq_copy m buf ?mq1))" using m(2) by simp_all
  note L = mq_link_rep [OF F(1) m(1) mx(1) F(2)] and H = mq_link_first_rep [OF C(1) m(1) mx(2)]
  have p: "mq_put buf mq = mq_link m (mq_fill m buf ?mq1)" "mq_put_first buf mq = mq_link_first m (mq_copy m buf ?mq1)"
    using T(1) by (simp_all add: mq_put_def mq_put_first_def)
  have old: "length (buf @ ?old) = unat (mq_msg_size mq)" using n dat [of m] m(2) by simp
  have d: "mq_data (mq_put buf mq) = (mq_data mq)(m := buf @ ?old)" "mq_data (mq_put_first buf mq) = (mq_data mq)(m := buf @ ?old)"
    using L(2) H(2) F(3) C(2) by (simp_all add: p)
  have dl: "length (((mq_data mq)(m := buf @ ?old)) j) = unat (mq_msg_size mq)" if "j < unat (mq_max_msgs mq)" for j
    using dat [OF that] old by (cases "j = m") (auto simp del: length_append)
  have W: "mq_wf (mq_put buf mq)" "mq_queue (mq_put buf mq) = ?q @ [m]"
    by (rule mq_wfI [OF L(1), folded p(1)]; use len d(1) dl in \<open>simp add: p(1)\<close>)+
  have V: "mq_wf (mq_put_first buf mq)" "mq_queue (mq_put_first buf mq) = m # ?q"
    by (rule mq_wfI [OF H(1), folded p(2)]; use len d(2) dl in \<open>simp add: p(2)\<close>)+
  have keep: "map ((mq_data mq)(m := buf @ ?old)) ?q = map (mq_data mq) ?q" using m(1) by simp
  show "mq_wf (mq_put buf mq)" "mq_wf (mq_put_first buf mq)" by (rule W(1), rule V(1))
  have sent: "mq_sent buf mq = buf @ ?old" using r by (simp add: mq_sent_def mq_rep_def)
  show "length (mq_sent buf mq) = unat (mq_msg_size mq)" unfolding sent by (rule old)
  show "mq_content (mq_put buf mq) = mq_content mq @ [mq_sent buf mq]" "mq_content (mq_put_first buf mq) = mq_sent buf mq # mq_content mq"
    using keep W(2) V(2) d by (simp_all add: mq_content_def sent)
  show "mq_take_free mq \<noteq> None" using T(1) by simp
qed

lemma mq_get_spec:
  assumes wf: "mq_wf mq" and ne: "mq_content mq \<noteq> []"
  shows "mq_wf (snd (mq_get mq))" "mq_content mq = fst (mq_get mq) # mq_content (snd (mq_get mq))"
    "\<exists>m mq'. mq_unlink mq = Some (m, mq') \<and> mq_get mq = (mq_data mq' m, mq_release m mq') \<and>
       mq_msg_size mq' = mq_msg_size mq"
proof -
  let ?f = "mq_frees mq"
  obtain m q where qu: "mq_queue mq = m # q" using ne by (cases "mq_queue mq") (auto simp: mq_content_def)
  have r: "mq_rep mq (m # q) ?f" and len: "length (m # q) + length ?f = unat (mq_max_msgs mq)"
    and dat: "\<And>m. m < unat (mq_max_msgs mq) \<Longrightarrow> length (mq_data mq m) = unat (mq_msg_size mq)"
    using wf qu by (simp_all add: mq_wf_def)
  let ?mq1 = "(mq_unhead m mq)\<lparr>mq_entry := mq_entry mq - 1\<rparr>"
  note U = mq_unhead_rep [OF r] and L = mq_unlink_rep [OF r]
  have m: "m \<notin> set (q @ ?f)" "m < unat (mq_max_msgs ?mq1)" using r by (auto simp: mq_rep_def)
  note R = mq_release_rep [OF U m]
  have g: "mq_get mq = (mq_data mq m, mq_release m ?mq1)" using L by (simp add: mq_get_def)
  have W: "mq_wf (mq_release m ?mq1)" "mq_queue (mq_release m ?mq1) = q"
    by (rule mq_wfI [OF R]; use len dat in simp)+
  show "mq_wf (snd (mq_get mq))" "mq_content mq = fst (mq_get mq) # mq_content (snd (mq_get mq))"
    using W g qu by (simp_all add: mq_content_def)
  show "\<exists>m mq'. mq_unlink mq = Some (m, mq') \<and> mq_get mq = (mq_data mq' m, mq_release m mq') \<and>
       mq_msg_size mq' = mq_msg_size mq"
    using L g by simp
qed

lemma mq_put_sizes [simp]:
  "mq_max_msgs (mq_put buf mq) = mq_max_msgs mq" "mq_msg_size (mq_put buf mq) = mq_msg_size mq"
  "mq_max_msgs (snd (mq_get mq)) = mq_max_msgs mq" "mq_msg_size (snd (mq_get mq)) = mq_msg_size mq"
  by (auto simp: mq_put_def mq_get_def mq_take_free_def mq_unlink_def split: option.splits)

interpretation mqueue: bounded_fifo mq_wf mq_content "\<lambda>mq. unat (mq_max_msgs mq)"
  "\<lambda>mq buf. length buf = unat (mq_msg_size mq)" mq_put mq_get
proof
  show "length (mq_content b) \<le> unat (mq_max_msgs b)" if "mq_wf b" for b
    using that by (simp add: mq_wf_def mq_content_def)
  fix b :: rt_messagequeue and m :: bytes
  assume b: "mq_wf b" "length (mq_content b) < unat (mq_max_msgs b)" "length m = unat (mq_msg_size b)"
  then have n: "length m \<le> unat (mq_msg_size b)" by simp
  show "mq_wf (mq_put m b)" by (rule mq_put_spec(1) [OF b(1,2) n])
  show "mq_content (mq_put m b) = mq_content b @ [m]" using mq_put_spec(2,3) [OF b(1,2) n] b(3) by (simp add: mq_sent_def)
next
  fix b assume "mq_wf b" "mq_content b \<noteq> []"
  then show "mq_wf (snd (mq_get b))" "mq_content b = fst (mq_get b) # mq_content (snd (mq_get b))"
    by (rule mq_get_spec(1), rule mq_get_spec(2))
qed simp_all

section \<open>Specification\<close>

definition mq_abs :: "oid \<Rightarrow> kstate \<Rightarrow> bytes list \<times> tid list \<times> tid list" where
  "mq_abs i s = (mq_content (k_mqs s i), k_tlists s (Susp (KMq i)), k_tlists s (SuspSender (KMq i)))"

abbreviation mq_ok :: "oid \<Rightarrow> kstate \<Rightarrow> bool" where
  "mq_ok i s \<equiv> mq_wf (k_mqs s i)"

abbreviation mq_room :: "oid \<Rightarrow> kstate \<Rightarrow> bool" where
  "mq_room i s \<equiv> length (mq_content (k_mqs s i)) < unat (mq_max_msgs (k_mqs s i))"

lemma upd_mq_fields [simp]:
  "k_threads (upd_mq i f s) = k_threads s" "k_objs (upd_mq i f s) = k_objs s"
  "k_olists (upd_mq i f s) = k_olists s" "k_tlists (upd_mq i f s) = k_tlists s"
  "k_current (upd_mq i f s) = k_current s" "k_irq_nest (upd_mq i f s) = k_irq_nest s"
  "k_mqs (upd_mq i f s) i = f (k_mqs s i)" "j \<noteq> i \<Longrightarrow> k_mqs (upd_mq i f s) j = k_mqs s j"
  "kernel_ok (upd_mq i f s) = kernel_ok s" "sys_ok (upd_mq i f s) = sys_ok s"
  by (simp_all add: upd_mq_def)

lemma mq_heads [simp]: "wait_head (Susp (KMq i)) (KMq i)" "wait_head (SuspSender (KMq i)) (KMq i)"
  by (simp_all add: wait_head_def)

lemma mq_full_iff: "mq_wf mq \<Longrightarrow> mq_take_free mq = None \<longleftrightarrow> \<not> length (mq_content mq) < unat (mq_max_msgs mq)"
  "mq_wf mq \<Longrightarrow> mq_free mq = None \<longleftrightarrow> \<not> length (mq_content mq) < unat (mq_max_msgs mq)"
proof -
  assume w: "mq_wf mq"
  have "mq_frees mq = [] \<longleftrightarrow> \<not> length (mq_content mq) < unat (mq_max_msgs mq)"
    using w by (cases "mq_frees mq") (auto simp: mq_wf_def mq_content_def)
  then show "mq_take_free mq = None \<longleftrightarrow> \<not> length (mq_content mq) < unat (mq_max_msgs mq)"
    "mq_free mq = None \<longleftrightarrow> \<not> length (mq_content mq) < unat (mq_max_msgs mq)"
    using mq_take_free_none mq_free_none w unfolding mq_wf_def by blast+
qed

lemma mq_empty_iff: "mq_wf mq \<Longrightarrow> mq_entry mq = 0 \<longleftrightarrow> mq_content mq = []"
  by (auto simp: mq_wf_def mq_rep_def mq_content_def unat_eq_zero)

lemma mq_send_loop_put:
  assumes "mq_take_free (k_mqs s i) \<noteq> None"
  shows "mq_send_loop i buffer time s = do {
     s \<leftarrow> wake_first (Susp (KMq i)) (upd_mq i (mq_put buffer) s);
     Some (Ret RT_EOK, s) }"
proof -
  obtain m mq where t: "mq_take_free (k_mqs s i) = Some (m, mq)" using assms by auto
  then have "upd_mq i (\<lambda>_. mq_link m (mq_fill m buffer mq)) s = upd_mq i (mq_put buffer) s"
    by (simp add: upd_mq_def mq_put_def)
  then show ?thesis using t by (simp add: mq_send_loop_def)
qed

text \<open>There is room: the message goes to the end of the queue, and the first waiting receiver is woken.\<close>

lemma mq_send_loop_room:
  assumes ok: "sys_ok s" and mq: "mq_ok i s" "mq_room i s" and n: "length buf \<le> unat (mq_msg_size (k_mqs s i))"
  shows "\<exists>s'. mq_send_loop i buf time s = Some (Ret RT_EOK, s') \<and> sys_ok s' \<and> mq_ok i s' \<and>
     length (mq_sent buf (k_mqs s i)) = unat (mq_msg_size (k_mqs s i)) \<and>
     mq_abs i s' = (mq_content (k_mqs s i) @ [mq_sent buf (k_mqs s i)], tl (k_tlists s (Susp (KMq i))),
       k_tlists s (SuspSender (KMq i))) \<and>
     (\<forall>t ts. k_tlists s (Susp (KMq i)) = t # ts \<longrightarrow> runnable (tstat s' t)) \<and>
     (\<forall>t. th_error (thread s' t) = th_error (thread s t))"
proof -
  note P = mq_put_spec [OF mq n]
  let ?s1 = "upd_mq i (mq_put buf) s"
  have ok1: "sys_ok ?s1" using ok by simp
  obtain s' where s': "wake_first (Susp (KMq i)) ?s1 = Some s'" "sys_ok s'" "core_frame ?s1 s'"
    "k_tlists s' (Susp (KMq i)) = tl (k_tlists ?s1 (Susp (KMq i)))"
    "\<And>j. j \<noteq> Susp (KMq i) \<Longrightarrow> \<forall>p. j \<noteq> Ready p \<Longrightarrow> k_tlists s' j = k_tlists ?s1 j"
    "\<And>t ts. k_tlists ?s1 (Susp (KMq i)) = t # ts \<Longrightarrow> runnable (tstat s' t)"
    "\<And>t. th_error (thread s' t) = th_error (thread ?s1 t)"
    by (rule wake_first_run [OF ok1 mq_heads(1)]) (rule that; assumption)
  have "mq_send_loop i buf time s = Some (Ret RT_EOK, s')" using P(6) s'(1) by (simp add: mq_send_loop_put)
  moreover have "k_mqs s' i = mq_put buf (k_mqs s i)" using core_frame_fields(5) [OF s'(3)] by simp
  ultimately show ?thesis using s'(2,4-7) P(1-3) by (intro exI [of _ s']) (auto simp: mq_abs_def)
qed

lemma rt_mq_send_wait_room:
  assumes ok: "sys_ok s" and i: "ipc_object_ok (KMq i) s" and mq: "mq_ok i s" "mq_room i s"
    and n: "buf \<noteq> []" "length buf \<le> unat (mq_msg_size (k_mqs s i))"
  shows "rt_mq_send_wait i buf time s = mq_send_loop i buf time s"
  using ipc_object_okD(1) [OF sys_okD(1) [OF ok] i] mq_full_iff(2) [OF mq(1)] mq(2) n by (auto simp: rt_mq_send_wait_def)

lemma rt_mq_send_full:
  assumes ok: "kernel_ok s" and i: "ipc_object_ok (KMq i) s" and mq: "mq_ok i s" "\<not> mq_room i s"
    and n: "buf \<noteq> []" "length buf \<le> unat (mq_msg_size (k_mqs s i))"
  shows "rt_mq_send i buf s = Some (Ret (- RT_EFULL), s)"
  using ipc_object_okD(1) [OF ok i] mq_full_iff(2) [OF mq(1)] mq(2) n by (simp add: rt_mq_send_def rt_mq_send_wait_def)

lemma rt_mq_send_too_long:
  assumes ok: "kernel_ok s" and i: "ipc_object_ok (KMq i) s" and n: "unat (mq_msg_size (k_mqs s i)) < length buf"
  shows "rt_mq_send_wait i buf time s = Some (Ret (- RT_ERROR), s)" "rt_mq_urgent i buf s = Some (- RT_ERROR, s)"
  using ipc_object_okD(1) [OF ok i] n by (auto simp: rt_mq_send_wait_def rt_mq_urgent_def)

text \<open>An urgent message goes to the front.\<close>

lemma rt_mq_urgent_room:
  assumes ok: "sys_ok s" and i: "ipc_object_ok (KMq i) s" and mq: "mq_ok i s" "mq_room i s"
    and n: "buf \<noteq> []" "length buf \<le> unat (mq_msg_size (k_mqs s i))"
  shows "\<exists>s'. rt_mq_urgent i buf s = Some (RT_EOK, s') \<and> sys_ok s' \<and> mq_ok i s' \<and>
     length (mq_sent buf (k_mqs s i)) = unat (mq_msg_size (k_mqs s i)) \<and>
     mq_abs i s' = (mq_sent buf (k_mqs s i) # mq_content (k_mqs s i), tl (k_tlists s (Susp (KMq i))),
       k_tlists s (SuspSender (KMq i))) \<and> ipc_object_ok (KMq i) s' \<and>
     (\<forall>t ts. k_tlists s (Susp (KMq i)) = t # ts \<longrightarrow> runnable (tstat s' t))"
proof -
  note P = mq_put_spec [OF mq n(2)]
  let ?s1 = "upd_mq i (mq_put_first buf) s"
  have ok1: "sys_ok ?s1" using ok by simp
  obtain s' where s': "wake_first (Susp (KMq i)) ?s1 = Some s'" "sys_ok s'" "core_frame ?s1 s'"
    "k_tlists s' (Susp (KMq i)) = tl (k_tlists ?s1 (Susp (KMq i)))"
    "\<And>j. j \<noteq> Susp (KMq i) \<Longrightarrow> \<forall>p. j \<noteq> Ready p \<Longrightarrow> k_tlists s' j = k_tlists ?s1 j"
    "\<And>t ts. k_tlists ?s1 (Susp (KMq i)) = t # ts \<Longrightarrow> runnable (tstat s' t)"
    by (rule wake_first_run [OF ok1 mq_heads(1)]) (rule that; assumption)
  obtain m mq where t: "mq_take_free (k_mqs s i) = Some (m, mq)" using P(6) by auto
  then have "upd_mq i (\<lambda>_. mq_link_first m (mq_copy m buf mq)) s = ?s1"
    by (simp add: upd_mq_def mq_put_first_def)
  then have "rt_mq_urgent i buf s = Some (RT_EOK, s')"
    using ipc_object_okD(1) [OF sys_okD(1) [OF ok] i] t n s'(1) by (simp add: rt_mq_urgent_def)
  moreover have "k_mqs s' i = mq_put_first buf (k_mqs s i)" using core_frame_fields(5) [OF s'(3)] by simp
  moreover have "ipc_object_ok (KMq i) s'" by (rule ipc_object_ok_core [OF s'(3)]) (use i in \<open>simp add: ipc_object_ok_def\<close>)
  ultimately show ?thesis using s'(2,4-6) P(2,4,5) by (intro exI [of _ s']) (auto simp: mq_abs_def)
qed

lemma rt_mq_send_wait_waits:
  assumes ok: "sys_ok s" and i: "ipc_object_ok (KMq i) s" and t: "running_in t s"
    and mq: "mq_ok i s" "\<not> mq_room i s" and n: "buf \<noteq> []" "length buf \<le> unat (mq_msg_size (k_mqs s i))"
    and time: "time \<noteq> 0" "time < 0x7FFFFFFF"
  shows "\<exists>s'. rt_mq_send_wait i buf time s = Some (Wait, s') \<and> sys_ok s' \<and> mq_ok i s' \<and>
     tstat s' t = RT_THREAD_SUSPEND \<and> th_error (thread s' t) = RT_EOK \<and>
     mq_abs i s' = (mq_content (k_mqs s i), k_tlists s (Susp (KMq i)),
       wait_insert s (oflag s (KMq i)) t (k_tlists s (SuspSender (KMq i))))"
proof -
  obtain s' where s': "wait_on (SuspSender (KMq i)) t (oflag s (KMq i)) time
      (upd_thread t (\<lambda>th. th\<lparr>th_error := RT_EOK\<rparr>) s) = Some s'"
    "sys_ok s'" "core_frame s s'" "tstat s' t = RT_THREAD_SUSPEND" "th_error (thread s' t) = RT_EOK"
    "k_tlists s' (SuspSender (KMq i)) = wait_insert s (oflag s (KMq i)) t (k_tlists s (SuspSender (KMq i)))"
    "\<And>j. j \<noteq> SuspSender (KMq i) \<Longrightarrow> \<forall>p. j \<noteq> Ready p \<Longrightarrow> k_tlists s' j = k_tlists s j"
    by (rule wait_on_run [OF ok i t mq_heads(2) time(2)]) (rule that; assumption)
  show ?thesis
    using ipc_object_okD(1) [OF sys_okD(1) [OF ok] i] mq_full_iff [OF mq(1)] mq n time(1) t s'
      core_frame_fields(5) [OF s'(3)]
    by (simp add: rt_mq_send_wait_def mq_send_loop_def context_checks mq_abs_def)
qed

text \<open>There is a message: as much of the oldest one as was asked for is copied out, and its slot is
  free again.\<close>

lemma mq_recv_loop_msg:
  assumes ok: "sys_ok s" and mq: "mq_ok i s" "mq_content (k_mqs s i) = b # bs"
  shows "\<exists>s'. mq_recv_loop i sz time s = Some (Ret (RT_EOK, Some (take sz b)), s') \<and> sys_ok s' \<and> mq_ok i s' \<and>
     mq_abs i s' = (bs, k_tlists s (Susp (KMq i)), tl (k_tlists s (SuspSender (KMq i)))) \<and>
     (\<forall>t ts. k_tlists s (SuspSender (KMq i)) = t # ts \<longrightarrow> runnable (tstat s' t)) \<and>
     (\<forall>t. th_error (thread s' t) = th_error (thread s t))"
proof -
  have ne: "mq_content (k_mqs s i) \<noteq> []" using mq(2) by simp
  note G = mq_get_spec [OF mq(1) ne]
  obtain m mq' where u: "mq_unlink (k_mqs s i) = Some (m, mq')" "mq_get (k_mqs s i) = (mq_data mq' m, mq_release m mq')"
    "mq_msg_size mq' = mq_msg_size (k_mqs s i)" using G(3) by blast
  have g: "mq_data mq' m = b" "mq_content (mq_release m mq') = bs" using G(2) mq(2) u(2) by simp_all
  have "b \<in> set (mq_content (k_mqs s i))" using mq(2) by simp
  then obtain k where "k \<in> set (mq_queue (k_mqs s i))" "b = mq_data (k_mqs s i) k" by (auto simp: mq_content_def)
  then have len: "length b = unat (mq_msg_size (k_mqs s i))" using mq(1) by (auto simp: mq_wf_def mq_rep_def)
  let ?s1 = "upd_mq i (\<lambda>_. mq_release m mq') s"
  have ok1: "sys_ok ?s1" using ok by simp
  obtain s' where s': "wake_first (SuspSender (KMq i)) ?s1 = Some s'" "sys_ok s'" "core_frame ?s1 s'"
    "k_tlists s' (SuspSender (KMq i)) = tl (k_tlists ?s1 (SuspSender (KMq i)))"
    "\<And>j. j \<noteq> SuspSender (KMq i) \<Longrightarrow> \<forall>p. j \<noteq> Ready p \<Longrightarrow> k_tlists s' j = k_tlists ?s1 j"
    "\<And>t ts. k_tlists ?s1 (SuspSender (KMq i)) = t # ts \<Longrightarrow> runnable (tstat s' t)"
    "\<And>t. th_error (thread s' t) = th_error (thread ?s1 t)"
    by (rule wake_first_run [OF ok1 mq_heads(2)]) (rule that; assumption)
  have "mq_recv_loop i sz time s = Some (Ret (RT_EOK, Some (take sz b)), s')"
    using ne s'(1) u(1,3) g(1) len by (simp add: mq_recv_loop_def mq_empty_iff [OF mq(1)])
  moreover have "k_mqs s' i = mq_release m mq'" using core_frame_fields(5) [OF s'(3)] by simp
  ultimately show ?thesis using s'(2,4-7) G(1) u(2) g(2) by (auto simp: mq_abs_def)
qed

lemma rt_mq_recv_msg:
  assumes ok: "sys_ok s" and i: "ipc_object_ok (KMq i) s" and m: "mq_ok i s" "mq_content (k_mqs s i) \<noteq> []"
    and sz: "sz \<noteq> 0"
  shows "rt_mq_recv i sz time s = mq_recv_loop i sz time s"
  using ipc_object_okD(1) [OF sys_okD(1) [OF ok] i] m sz by (simp add: rt_mq_recv_def mq_empty_iff)

lemma rt_mq_recv_empty:
  assumes ok: "kernel_ok s" and i: "ipc_object_ok (KMq i) s" and m: "mq_ok i s" "mq_content (k_mqs s i) = []"
    and sz: "sz \<noteq> 0"
  shows "rt_mq_recv i sz 0 s = Some (Ret (- RT_ETIMEOUT, None), s)"
  using ipc_object_okD(1) [OF ok i] m sz by (simp add: rt_mq_recv_def mq_empty_iff)

lemma rt_mq_recv_waits:
  assumes ok: "sys_ok s" and i: "ipc_object_ok (KMq i) s" and t: "running_in t s"
    and m: "mq_ok i s" "mq_content (k_mqs s i) = []" and sz: "sz \<noteq> 0" and time: "time \<noteq> 0" "time < 0x7FFFFFFF"
  shows "\<exists>s'. rt_mq_recv i sz time s = Some (Wait, s') \<and> sys_ok s' \<and> k_mqs s' = k_mqs s \<and>
     tstat s' t = RT_THREAD_SUSPEND \<and> th_error (thread s' t) = RT_EOK \<and>
     mq_abs i s' = ([], wait_insert s (oflag s (KMq i)) t (k_tlists s (Susp (KMq i))),
       k_tlists s (SuspSender (KMq i)))"
proof -
  obtain s' where s': "wait_on (Susp (KMq i)) t (oflag s (KMq i)) time
      (upd_thread t (\<lambda>th. th\<lparr>th_error := RT_EOK\<rparr>) s) = Some s'"
    "sys_ok s'" "core_frame s s'" "tstat s' t = RT_THREAD_SUSPEND" "th_error (thread s' t) = RT_EOK"
    "k_tlists s' (Susp (KMq i)) = wait_insert s (oflag s (KMq i)) t (k_tlists s (Susp (KMq i)))"
    "\<And>j. j \<noteq> Susp (KMq i) \<Longrightarrow> \<forall>p. j \<noteq> Ready p \<Longrightarrow> k_tlists s' j = k_tlists s j"
    by (rule wait_on_run [OF ok i t mq_heads(1) time(2)]) (rule that; assumption)
  show ?thesis
    using ipc_object_okD(1) [OF sys_okD(1) [OF ok] i] m sz time(1) t s' core_frame_fields(5) [OF s'(3)]
    by (simp add: rt_mq_recv_def mq_recv_loop_def context_checks mq_abs_def mq_empty_iff)
qed

section \<open>Creation, reset and removal\<close>

lemma mq_start_wf:
  assumes "\<And>m. m < unat n \<Longrightarrow> length (data m) = unat sz"
  shows "mq_wf (mq_start sz n data)" "mq_content (mq_start sz n data) = []"
  using mq_wfI [OF mq_start_rep(1) [of sz n data]] assms by (simp_all add: mq_start_rep mq_content_def)

lemma rt_mq_init_ok:
  assumes ok: "kernel_ok s" and r: "rt_mq_init i name data msg_size pool_size flag s = Some (e, s')"
    and f: "ipc_flag_ok flag" and d: "\<And>m. length (data m) = unat (ucast (RT_ALIGN msg_size 4) :: rt_uint16)"
  shows "kernel_ok s'" "ipc_object_ok (KMq i) s'" "mq_ok i s'" "mq_abs i s' = ([], [], [])"
proof -
  let ?sz = "ucast (RT_ALIGN msg_size 4) :: rt_uint16"
  let ?mq = "mq_start ?sz (ucast (pool_size div (ucast ?sz + 4))) data"
  obtain s1 where s1: "rt_object_init (KMq i) (class_of (KMq i)) name s = Some s1"
    and s': "s' = (let s = upd_mq i (\<lambda>_. ?mq) (rt_ipc_object_init (KMq i)
       (set_oflag (KMq i) flag s1)) in s\<lparr>k_tlists := (k_tlists s)(SuspSender (KMq i) := [])\<rparr>)"
    using r by (auto simp: rt_mq_init_def bind_Some_iff Let_def)
  note O = object_init_ok [OF ok _ s1, simplified]
  have k: "kernel_ok (set_oflag (KMq i) flag s1)" by (rule kernel_ok_upd_flag) (use O in simp_all)
  have s'': "s' = upd_mq i (\<lambda>_. ?mq) (set_oflag (KMq i) flag s1)"
    using O by (simp add: s' ipc_object_init_same Let_def fun_upd_idem upd_mq_def)
  show "kernel_ok s'" "ipc_object_ok (KMq i) s'" "mq_ok i s'" "mq_abs i s' = ([], [], [])"
    using O f k mq_start_wf [OF d] by (simp_all add: s'' ipc_object_ok_def mq_abs_def)
qed

lemma rt_mq_reset:
  assumes ok: "sys_ok s" and i: "ipc_object_ok (KMq i) s" and mq: "mq_ok i s"
  shows "\<exists>s'. rt_mq_control i RT_IPC_CMD_RESET s = Some (RT_EOK, s') \<and> sys_ok s' \<and> mq_ok i s' \<and>
     mq_abs i s' = ([], [], []) \<and>
     (\<forall>t \<in> set (k_tlists s (Susp (KMq i))) \<union> set (k_tlists s (SuspSender (KMq i))).
        runnable (tstat s' t) \<and> th_error (thread s' t) = - RT_ERROR)"
proof -
  obtain s1 s2 where s1: "rt_ipc_list_resume_all (Susp (KMq i)) s = Some s1"
    "rt_ipc_list_resume_all (SuspSender (KMq i)) s1 = Some s2" "sys_ok s2" "core_frame s s2"
    "k_tlists s2 (Susp (KMq i)) = []" "k_tlists s2 (SuspSender (KMq i)) = []"
    "\<And>t. t \<in> set (k_tlists s (Susp (KMq i))) \<union> set (k_tlists s (SuspSender (KMq i))) \<Longrightarrow>
       runnable (tstat s2 t) \<and> th_error (thread s2 t) = - RT_ERROR"
    by (rule resume_both_run [OF ok, of "KMq i"]) (rule that; assumption)
  have m2: "k_mqs s2 = k_mqs s" by (rule core_frame_fields(5) [OF s1(4)])
  note W = mq [unfolded mq_wf_def]
  obtain mq' where d: "mq_drain (k_mqs s i) = Some mq'"
    "mq_rep (mq'\<lparr>mq_entry := 0\<rparr>) [] (rev (mq_queue (k_mqs s i)) @ mq_frees (k_mqs s i))"
    "mq_max_msgs mq' = mq_max_msgs (k_mqs s i)" "mq_msg_size mq' = mq_msg_size (k_mqs s i)"
    "mq_data mq' = mq_data (k_mqs s i)"
    using mq_drain_rep W by blast
  have w: "mq_wf (mq'\<lparr>mq_entry := 0\<rparr>)" "mq_queue (mq'\<lparr>mq_entry := 0\<rparr>) = []"
    by (rule mq_wfI [OF d(2)]; use W d(3-5) in simp)+
  let ?s3 = "upd_mq i (\<lambda>_. mq'\<lparr>mq_entry := 0\<rparr>) s2"
  have "sys_ok ?s3" using s1(3) by simp
  then obtain s4 where s4: "rt_schedule ?s3 = Some s4" "sys_ok s4" "core_frame ?s3 s4"
    "\<And>h. \<forall>p. h \<noteq> Ready p \<Longrightarrow> k_tlists s4 h = k_tlists ?s3 h"
    "\<And>t. runnable (tstat s4 t) \<longleftrightarrow> runnable (tstat ?s3 t)"
    "\<And>t. th_error (thread s4 t) = th_error (thread ?s3 t)"
    by (rule rt_schedule_run) (rule that; assumption)
  have m: "k_mqs s4 i = mq'\<lparr>mq_entry := 0\<rparr>" using core_frame_fields(5) [OF s4(3)] by simp
  have "rt_mq_control i RT_IPC_CMD_RESET s = Some (RT_EOK, s4)"
    using ipc_object_okD(1) [OF sys_okD(1) [OF ok] i] s1(1,2) s4(1) m2 d(1) by (simp add: rt_mq_control_def)
  then show ?thesis using m w s1(5-7) s4 by (simp add: mq_abs_def mq_content_def)
qed

lemma rt_mq_detach_wakes_all:
  assumes ok: "sys_ok s" and i: "ipc_object_ok (KMq i) s" and st: "rt_object_is_systemobject (KMq i) s"
  shows "\<exists>s'. rt_mq_detach i s = Some (RT_EOK, s') \<and> kernel_ok s' \<and> \<not> listed (KMq i) s' \<and>
     (\<forall>t \<in> set (k_tlists s (Susp (KMq i))) \<union> set (k_tlists s (SuspSender (KMq i))).
        runnable (tstat s' t) \<and> th_error (thread s' t) = - RT_ERROR)"
proof -
  obtain s1 s2 where s1: "rt_ipc_list_resume_all (Susp (KMq i)) s = Some s1"
    "rt_ipc_list_resume_all (SuspSender (KMq i)) s1 = Some s2" "sys_ok s2" "core_frame s s2"
    "k_tlists s2 (Susp (KMq i)) = []" "k_tlists s2 (SuspSender (KMq i)) = []"
    "\<And>t. t \<in> set (k_tlists s (Susp (KMq i))) \<union> set (k_tlists s (SuspSender (KMq i))) \<Longrightarrow>
       runnable (tstat s2 t) \<and> th_error (thread s2 t) = - RT_ERROR"
    by (rule resume_both_run [OF ok, of "KMq i"]) (rule that; assumption)
  note D = object_detach_ok [OF sys_okD(1) [OF s1(3)] _ s1(5,6), simplified]
  show ?thesis using ipc_object_okD(1) [OF sys_okD(1) [OF ok] i] st s1(1,2,7) D by (simp add: rt_mq_detach_def)
qed

section \<open>Properties\<close>

text \<open>
  The chained slots of a message queue are a bounded first-in-first-out queue: under any
  sequence of full-size messages stored and fetched within the capacity, what comes out and what
  stays in is what a list gives; no slot is lost or used twice.
\<close>

theorem message_chain_is_queue:
  assumes "mq_wf mq" "run_list (unat (mq_max_msgs mq)) ops (mq_content mq) = Some (outs, xs)"
    and "\<forall>m. Put m \<in> set ops \<longrightarrow> length m = unat (mq_msg_size mq)"
  shows "fst (run_fifo mq_put mq_get ops mq) = outs \<and> mq_wf (snd (run_fifo mq_put mq_get ops mq)) \<and>
     mq_content (snd (run_fifo mq_put mq_get ops mq)) = xs"
  by (rule mqueue.run_refines [OF assms(1,2)]) (use assms(3) in simp)

lemma mq_send_correct:
  assumes ok: "sys_ok s" and i: "ipc_object_ok (KMq i) s" and t: "running_in t s" and mq: "mq_ok i s"
    and buf: "buf \<noteq> []" and time: "time < 0x7FFFFFFF"
  shows "\<exists>r s'. rt_mq_send_wait i buf time s = Some (r, s') \<and> sys_ok s' \<and> mq_ok i s' \<and>
     (if unat (mq_msg_size (k_mqs s i)) < length buf then r = Ret (- RT_ERROR) \<and> s' = s
      else (mq_room i s \<longrightarrow> length (mq_sent buf (k_mqs s i)) = unat (mq_msg_size (k_mqs s i))) \<and>
        (r, mq_abs i s') = chan_send_spec (wait_insert s (oflag s (KMq i)) t) (unat (mq_max_msgs (k_mqs s i)))
           time (mq_sent buf (k_mqs s i)) (mq_abs i s)) \<and>
     (\<forall>u us. r = Ret RT_EOK \<longrightarrow> fst (snd (mq_abs i s)) = u # us \<longrightarrow> runnable (tstat s' u))"
proof (cases "unat (mq_msg_size (k_mqs s i)) < length buf")
  case True
  then show ?thesis using rt_mq_send_too_long(1) [OF sys_okD(1) [OF ok] i True, of time] ok mq by auto
next
  case False
  then have n: "length buf \<le> unat (mq_msg_size (k_mqs s i))" by simp
  consider "mq_room i s" | "\<not> mq_room i s" "time = 0" | "\<not> mq_room i s" "time \<noteq> 0" by blast
  then show ?thesis
  proof cases
    case 1
    then show ?thesis
      using mq_send_loop_room [OF ok mq 1 n, of time] rt_mq_send_wait_room [OF ok i mq 1 buf n, of time] n
      by (force simp: mq_abs_def)
  next
    case 2
    then show ?thesis
      using rt_mq_send_full [OF sys_okD(1) [OF ok] i mq 2(1) buf n] ok mq n by (auto simp: rt_mq_send_def mq_abs_def)
  next
    case 3
    then show ?thesis
      using rt_mq_send_wait_waits [OF ok i t mq 3(1) buf n 3(2) time] n by (force simp: mq_abs_def)
  qed
qed

text \<open>
  C15: Sending a message that is not empty from a running thread returns to the kernel: a message longer
  than the queue's is an error; otherwise the message goes, at its full size, to the end of the
  queue and the first waiting receiver becomes runnable, or the queue is full and the caller is
  refused or joins the waiting senders.  The bytes beyond the message are those that the slot it
  goes to, the first free one, held there before (\<open>mq_sent\<close>): the kernel copies only the message.
\<close>

theorem rt_mq_send_wait_refines:
  assumes ok: "sys_ok s" and i: "ipc_object_ok (KMq i) s" and t: "running_in t s" and mq: "mq_ok i s"
    and buf: "buf \<noteq> []" and time: "time < 0x7FFFFFFF"
  shows "\<exists>r s'. rt_mq_send_wait i buf time s = Some (r, s') \<and> sys_ok s' \<and> mq_ok i s' \<and>
     (if unat (mq_msg_size (k_mqs s i)) < length buf then r = Ret (- RT_ERROR) \<and> s' = s
      else (mq_room i s \<longrightarrow> length (mq_sent buf (k_mqs s i)) = unat (mq_msg_size (k_mqs s i))) \<and>
        (r, mq_abs i s') = chan_send_spec (wait_insert s (oflag s (KMq i)) t) (unat (mq_max_msgs (k_mqs s i)))
           time (mq_sent buf (k_mqs s i)) (mq_abs i s)) \<and>
     (\<forall>u us. r = Ret RT_EOK \<longrightarrow> fst (snd (mq_abs i s)) = u # us \<longrightarrow> runnable (tstat s' u))"
  by (rule mq_send_correct [OF assms])

lemma mq_recv_correct:
  assumes ok: "sys_ok s" and i: "ipc_object_ok (KMq i) s" and t: "running_in t s" and mq: "mq_ok i s"
    and sz: "sz \<noteq> 0" and time: "time < 0x7FFFFFFF"
  shows "\<exists>r s'. rt_mq_recv i sz time s = Some (r, s') \<and> sys_ok s' \<and> mq_ok i s' \<and>
     (r, mq_abs i s') = apfst (map_outcome (apsnd (map_option (take sz))))
        (chan_recv_spec (wait_insert s (oflag s (KMq i)) t) time (mq_abs i s)) \<and>
     (\<forall>u us. mq_content (k_mqs s i) \<noteq> [] \<longrightarrow> snd (snd (mq_abs i s)) = u # us \<longrightarrow> runnable (tstat s' u))"
proof (cases "mq_content (k_mqs s i)")
  case Nil
  show ?thesis
  proof (cases "time = 0")
    case True
    then show ?thesis using rt_mq_recv_empty [OF sys_okD(1) [OF ok] i mq Nil sz] ok mq Nil by (auto simp: mq_abs_def)
  next
    case False
    then show ?thesis using rt_mq_recv_waits [OF ok i t mq Nil sz False time] mq Nil by (auto simp: mq_abs_def)
  qed
next
  case (Cons m ms)
  then show ?thesis
    using mq_recv_loop_msg [OF ok mq Cons, of sz time] rt_mq_recv_msg [OF ok i mq _ sz, of time]
    by (auto simp: mq_abs_def)
qed


text \<open>
  An urgent message overtakes: it goes to the front of the queue, so that the next receive
  delivers it, cut to the receiver's size, and leaves the queue as it was.
\<close>

theorem rt_mq_urgent_next:
  assumes ok: "sys_ok s" and i: "ipc_object_ok (KMq i) s" and mq: "mq_ok i s" "mq_room i s"
    and n: "buf \<noteq> []" "length buf \<le> unat (mq_msg_size (k_mqs s i))" and sz: "sz \<noteq> 0" "sz \<le> length buf"
  shows "\<exists>s' s''. rt_mq_urgent i buf s = Some (RT_EOK, s') \<and>
     rt_mq_recv i sz time s' = Some (Ret (RT_EOK, Some (take sz buf)), s'') \<and> sys_ok s'' \<and> mq_ok i s'' \<and>
     mq_content (k_mqs s'' i) = mq_content (k_mqs s i)"
proof -
  obtain s' where s': "rt_mq_urgent i buf s = Some (RT_EOK, s')" "sys_ok s'" "mq_ok i s'"
    "mq_content (k_mqs s' i) = mq_sent buf (k_mqs s i) # mq_content (k_mqs s i)" "ipc_object_ok (KMq i) s'"
    using rt_mq_urgent_room [OF ok i mq n] by (auto simp: mq_abs_def)
  show ?thesis
    using mq_recv_loop_msg [OF s'(2,3,4), of sz time] rt_mq_recv_msg [OF s'(2,5,3) _ sz(1), of time] s'(1,4) sz(2)
    by (auto simp: mq_abs_def mq_sent_def)
qed

end
