(* ===== verification/MemPool.thy ===== *)
theory MemPool
  imports IpcBase Fifo
begin

text \<open>
  Fixed-size memory pools, \<^verbatim>\<open>src/mempool.c\<close>.  A block starts with a link word, kept in
  \<open>k_links\<close>: the next free block while the block is free, the pool it belongs to while it is
  allocated.  An address is a 32-bit word, the null pointer is zero.
\<close>

section \<open>Operations\<close>

definition upd_pool :: "oid \<Rightarrow> (rt_mempool \<Rightarrow> rt_mempool) \<Rightarrow> kstate \<Rightarrow> kstate" where
  "upd_pool i f s = s\<lparr>k_pools := (k_pools s)(i := f (k_pools s i))\<rparr>"

definition set_link :: "rt_uint32 \<Rightarrow> mp_link \<Rightarrow> kstate \<Rightarrow> kstate" where
  "set_link a l s = s\<lparr>k_links := (k_links s)(a := l)\<rparr>"

text \<open>The loop that chains the blocks, and the assignment after it.\<close>

definition chain_blocks ::
    "rt_uint32 \<Rightarrow> rt_uint32 \<Rightarrow> nat \<Rightarrow> (rt_uint32 \<Rightarrow> mp_link) \<Rightarrow> (rt_uint32 \<Rightarrow> mp_link)" where
  "chain_blocks start stride n links =
     (fold (\<lambda>k L. L(start + of_nat k * stride := MpBlock (start + of_nat (k + 1) * stride))) [0..<n] links)
       (start + (of_nat n - 1) * stride := MpNull)"

definition rt_mp_init ::
    "oid \<Rightarrow> rt_uint8 list \<Rightarrow> rt_uint32 \<Rightarrow> rt_uint32 \<Rightarrow> rt_uint32 \<Rightarrow> kstate \<Rightarrow> (rt_err \<times> kstate) option" where
  "rt_mp_init i name start sz block_size s = do {
     rt_assert (start \<noteq> 0);
     rt_assert (0 < sz \<and> 0 < block_size);
     s \<leftarrow> rt_object_init (KMemPool i) RT_Object_Class_MemPool name s;
     let sz = RT_ALIGN_DOWN sz RT_ALIGN_SIZE;
     let block_size = RT_ALIGN block_size RT_ALIGN_SIZE;
     let total = sz div (block_size + 4);
     let s = s\<lparr>k_tlists := (k_tlists s)(Susp (KMemPool i) := [])\<rparr>;
     let s = s\<lparr>k_links := chain_blocks start (block_size + 4) (unat total) (k_links s)\<rparr>;
     let s = upd_pool i (\<lambda>_. \<lparr>mp_start_address = start, mp_size = sz, mp_block_size = block_size,
        mp_block_list = MpBlock start, mp_block_total_count = total, mp_block_free_count = total\<rparr>) s;
     Some (RT_EOK, s)
   }"

definition rt_mp_detach :: "oid \<Rightarrow> kstate \<Rightarrow> (rt_err \<times> kstate) option" where
  "rt_mp_detach i s = do {
     rt_assert (rt_object_get_type (KMemPool i) s = RT_Object_Class_MemPool);
     rt_assert (rt_object_is_systemobject (KMemPool i) s);
     s \<leftarrow> rt_ipc_list_resume_all (Susp (KMemPool i)) s;
     Some (RT_EOK, rt_object_detach (KMemPool i) s)
   }"

text \<open>\<open>start\<close> is the result of the second allocation.\<close>

definition rt_mp_create ::
    "rt_uint8 list \<Rightarrow> rt_uint32 \<Rightarrow> rt_uint32 \<Rightarrow> oid option \<Rightarrow> rt_uint32 option \<Rightarrow> kstate \<Rightarrow>
       (oid option \<times> kstate) option" where
  "rt_mp_create name block_count block_size alloc start s = do {
     rt_debug_not_in_interrupt s;
     rt_assert (0 < block_count \<and> 0 < block_size);
     (_, s) \<leftarrow> rt_object_allocate RT_Object_Class_MemPool name (map_option KMemPool alloc) s;
     (case alloc of
        None \<Rightarrow> Some (None, s)
      | Some i \<Rightarrow>
          (let block_size = RT_ALIGN block_size RT_ALIGN_SIZE;
               sz = (block_size + 4) * block_count;
               s = upd_pool i (\<lambda>mp. mp\<lparr>mp_block_size := block_size, mp_size := sz\<rparr>) s
           in case start of
                None \<Rightarrow> do { s \<leftarrow> rt_object_delete (KMemPool i) s; Some (None, s) }
              | Some a \<Rightarrow>
                  (let s = s\<lparr>k_tlists := (k_tlists s)(Susp (KMemPool i) := [])\<rparr>;
                       s = s\<lparr>k_links := chain_blocks a (block_size + 4) (unat block_count) (k_links s)\<rparr>;
                       s = upd_pool i (\<lambda>_. \<lparr>mp_start_address = a, mp_size = sz, mp_block_size = block_size,
                          mp_block_list = MpBlock a, mp_block_total_count = block_count,
                          mp_block_free_count = block_count\<rparr>) s
                   in Some (Some i, s))))
   }"

definition rt_mp_delete :: "oid \<Rightarrow> kstate \<Rightarrow> (rt_err \<times> kstate) option" where
  "rt_mp_delete i s = do {
     rt_debug_not_in_interrupt s;
     rt_assert (rt_object_get_type (KMemPool i) s = RT_Object_Class_MemPool);
     rt_assert (\<not> rt_object_is_systemobject (KMemPool i) s);
     s \<leftarrow> rt_ipc_list_resume_all (Susp (KMemPool i)) s;
     s \<leftarrow> rt_object_delete (KMemPool i) s;
     Some (RT_EOK, s)
   }"

text \<open>Take the first block of the free list; a list that does not hold as many blocks as are counted
  trips the assertion.\<close>

definition mp_pop :: "oid \<Rightarrow> kstate \<Rightarrow> (rt_uint32 \<times> kstate) option" where
  "mp_pop i s =
     (let s = upd_pool i (\<lambda>mp. mp\<lparr>mp_block_free_count := mp_block_free_count mp - 1\<rparr>) s in
      case mp_block_list (k_pools s i) of
        MpBlock b \<Rightarrow>
          (let s = upd_pool i (\<lambda>mp. mp\<lparr>mp_block_list := k_links s b\<rparr>) s
           in Some (b + 4, set_link b (MpPool i) s))
      | _ \<Rightarrow> None)"

definition mp_alloc_loop :: "oid \<Rightarrow> int \<Rightarrow> kstate \<Rightarrow> (rt_uint32 outcome \<times> kstate) option" where
  "mp_alloc_loop i time s =
     (if mp_block_free_count (k_pools s i) = 0
      then if time = 0 then Some (Ret 0, rt_set_errno (- RT_ETIMEOUT) s)
           else do {
             rt_debug_not_in_interrupt s;
             t \<leftarrow> rt_thread_self s;
             let s = upd_thread t (\<lambda>th. th\<lparr>th_error := RT_EOK\<rparr>) s;
             (_, s) \<leftarrow> rt_thread_suspend t s;
             let s = s\<lparr>k_tlists := tbl_push (Susp (KMemPool i)) t (k_tlists s)\<rparr>;
             s \<leftarrow> wait_finish t time s;
             Some (Wait, s)
           }
      else do { (p, s) \<leftarrow> mp_pop i s; Some (Ret p, s) })"

definition rt_mp_alloc :: "oid \<Rightarrow> int \<Rightarrow> kstate \<Rightarrow> (rt_uint32 outcome \<times> kstate) option" where
  "rt_mp_alloc i time s = mp_alloc_loop i time s"

definition rt_mp_alloc_resume ::
    "oid \<Rightarrow> int \<Rightarrow> rt_uint32 \<Rightarrow> tid \<Rightarrow> kstate \<Rightarrow> (rt_uint32 outcome \<times> kstate) option" where
  "rt_mp_alloc_resume i time before_sleep t s =
     (if th_error (thread s t) \<noteq> RT_EOK then Some (Ret 0, s)
      else mp_alloc_loop i (recalc_timeout time before_sleep s) s)"

text \<open>The pool is found through the link word; a word that is no pool is an invalid access.\<close>

definition rt_mp_free :: "rt_uint32 \<Rightarrow> kstate \<Rightarrow> kstate option" where
  "rt_mp_free block s =
     (if block = 0 then Some s
      else let b = block - 4 in
        (case k_links s b of
           MpPool i \<Rightarrow> do {
             let s = upd_pool i (\<lambda>mp. mp\<lparr>mp_block_free_count := mp_block_free_count mp + 1\<rparr>) s;
             let s = set_link b (mp_block_list (k_pools s i)) s;
             let s = upd_pool i (\<lambda>mp. mp\<lparr>mp_block_list := MpBlock b\<rparr>) s;
             (case k_tlists s (Susp (KMemPool i)) of
                [] \<Rightarrow> Some s
              | t # _ \<Rightarrow> do {
                  let s = upd_thread t (\<lambda>th. th\<lparr>th_error := RT_EOK\<rparr>) s;
                  (_, s) \<leftarrow> rt_thread_resume t s;
                  rt_schedule s
                })
           }
         | _ \<Rightarrow> None))"

section \<open>The free list\<close>

primrec free_chain :: "(rt_uint32 \<Rightarrow> mp_link) \<Rightarrow> mp_link \<Rightarrow> rt_uint32 list \<Rightarrow> bool" where
  "free_chain L p [] \<longleftrightarrow> p = MpNull"
| "free_chain L p (b # bs) \<longleftrightarrow> p = MpBlock b \<and> free_chain L (L b) bs"

lemma free_chain_upd [simp]: "a \<notin> set bs \<Longrightarrow> free_chain (L(a := l)) p bs = free_chain L p bs"
  by (induction bs arbitrary: p) auto

lemma free_chain_unique: "free_chain L p bs \<Longrightarrow> free_chain L p cs \<Longrightarrow> bs = cs"
proof (induction bs arbitrary: p cs)
  case Nil
  then show ?case by (cases cs) auto
next
  case (Cons b bs)
  then show ?case by (cases cs) auto
qed

lemma free_chain_cong: "(\<And>b. b \<in> set bs \<Longrightarrow> L' b = L b) \<Longrightarrow> free_chain L' p bs = free_chain L p bs"
  by (induction bs arbitrary: p) auto

definition mp_block :: "rt_mempool \<Rightarrow> nat \<Rightarrow> rt_uint32" where
  "mp_block mp k = mp_start_address mp + of_nat k * (mp_block_size mp + 4)"

definition mp_blocks :: "rt_mempool \<Rightarrow> rt_uint32 list" where
  "mp_blocks mp = map (mp_block mp) [0..<unat (mp_block_total_count mp)]"

text \<open>
  Every block of the pool is either on the free list, which holds as many blocks as are counted, or
  carries the pool in its link word.
\<close>

definition mp_rep :: "oid \<Rightarrow> kstate \<Rightarrow> rt_uint32 list \<Rightarrow> bool" where
  "mp_rep i s f \<longleftrightarrow> free_chain (k_links s) (mp_block_list (k_pools s i)) f \<and> distinct f \<and>
     set f \<subseteq> set (mp_blocks (k_pools s i)) \<and> distinct (mp_blocks (k_pools s i)) \<and>
     unat (mp_block_free_count (k_pools s i)) = length f \<and>
     (\<forall>b \<in> set (mp_blocks (k_pools s i)) - set f. k_links s b = MpPool i)"

definition mp_allocated :: "oid \<Rightarrow> kstate \<Rightarrow> rt_uint32 set" where
  "mp_allocated i s = {b \<in> set (mp_blocks (k_pools s i)). k_links s b = MpPool i}"

lemma free_chain_links: "free_chain L p bs \<Longrightarrow> b \<in> set bs \<Longrightarrow> L b = MpNull \<or> (\<exists>c. L b = MpBlock c)"
proof (induction bs arbitrary: p)
  case (Cons a bs)
  then show ?case by (cases bs) auto
qed simp

text \<open>Conservation: the free and the allocated blocks are all the blocks of the pool.\<close>

lemma mp_conservation:
  assumes "mp_rep i s f"
  shows "set f \<inter> mp_allocated i s = {}" "set f \<union> mp_allocated i s = set (mp_blocks (k_pools s i))"
    "length f + card (mp_allocated i s) = unat (mp_block_total_count (k_pools s i))"
proof -
  note R = assms [unfolded mp_rep_def]
  show 1: "set f \<inter> mp_allocated i s = {}" using free_chain_links R by (fastforce simp: mp_allocated_def)
  show 2: "set f \<union> mp_allocated i s = set (mp_blocks (k_pools s i))" using R by (auto simp: mp_allocated_def)
  have "card (set f) + card (mp_allocated i s) = card (set (mp_blocks (k_pools s i)))"
    using card_Un_disjoint [of "set f" "mp_allocated i s"] 1 2 by (simp add: mp_allocated_def)
  then show "length f + card (mp_allocated i s) = unat (mp_block_total_count (k_pools s i))"
    using R by (simp add: distinct_card) (simp add: mp_blocks_def)
qed

lemma upd_pool_fields [simp]:
  "k_threads (upd_pool i f s) = k_threads s" "k_objs (upd_pool i f s) = k_objs s"
  "k_olists (upd_pool i f s) = k_olists s" "k_tlists (upd_pool i f s) = k_tlists s"
  "k_current (upd_pool i f s) = k_current s" "k_irq_nest (upd_pool i f s) = k_irq_nest s"
  "k_links (upd_pool i f s) = k_links s"
  "k_pools (upd_pool i f s) i = f (k_pools s i)" "j \<noteq> i \<Longrightarrow> k_pools (upd_pool i f s) j = k_pools s j"
  "kernel_ok (upd_pool i f s) = kernel_ok s" "sys_ok (upd_pool i f s) = sys_ok s"
  by (simp_all add: upd_pool_def)

lemma set_link_fields [simp]:
  "k_threads (set_link a l s) = k_threads s" "k_objs (set_link a l s) = k_objs s"
  "k_olists (set_link a l s) = k_olists s" "k_tlists (set_link a l s) = k_tlists s"
  "k_current (set_link a l s) = k_current s" "k_irq_nest (set_link a l s) = k_irq_nest s"
  "k_links (set_link a l s) = (k_links s)(a := l)" "k_pools (set_link a l s) = k_pools s"
  "kernel_ok (set_link a l s) = kernel_ok s" "sys_ok (set_link a l s) = sys_ok s"
  by (simp_all add: set_link_def)

lemma mp_blocks_cong:
  "mp_start_address mp' = mp_start_address mp \<Longrightarrow> mp_block_size mp' = mp_block_size mp \<Longrightarrow>
     mp_block_total_count mp' = mp_block_total_count mp \<Longrightarrow> mp_blocks mp' = mp_blocks mp"
  by (simp add: mp_blocks_def mp_block_def)

lemma mp_rep_cong: "k_links s' = k_links s \<Longrightarrow> k_pools s' = k_pools s \<Longrightarrow> mp_rep i s' f = mp_rep i s f"
  by (simp add: mp_rep_def)

lemma mp_pop_rep:
  assumes r: "mp_rep i s (b # f)"
  obtains s' where "mp_pop i s = Some (b + 4, s')" "mp_rep i s' f" "k_links s' b = MpPool i"
    "sys_ok s' = sys_ok s" "k_threads s' = k_threads s" "k_tlists s' = k_tlists s" "k_objs s' = k_objs s"
    "k_olists s' = k_olists s"
    "\<And>j. j \<noteq> i \<Longrightarrow> k_pools s' j = k_pools s j" "\<And>a. a \<noteq> b \<Longrightarrow> k_links s' a = k_links s a"
    "mp_blocks (k_pools s' i) = mp_blocks (k_pools s i)"
proof -
  note R = r [unfolded mp_rep_def]
  let ?s1 = "upd_pool i (\<lambda>mp. mp\<lparr>mp_block_free_count := mp_block_free_count mp - 1\<rparr>) s"
  let ?s2 = "upd_pool i (\<lambda>mp. mp\<lparr>mp_block_list := k_links s b\<rparr>) ?s1"
  let ?s' = "set_link b (MpPool i) ?s2"
  have p: "mp_pop i s = Some (b + 4, ?s')" using R by (simp add: mp_pop_def Let_def)
  have bl: "mp_blocks (k_pools ?s' i) = mp_blocks (k_pools s i)" by (rule mp_blocks_cong) simp_all
  have e: "unat (mp_block_free_count (k_pools s i) - 1) = length f"
    using R unat_dec_pos [of "mp_block_free_count (k_pools s i)" "length f"] by simp
  have "mp_rep i ?s' f" unfolding mp_rep_def bl using R e by auto
  then show thesis by (rule that [OF p]) (use bl in simp_all)
qed

lemma mp_push_rep:
  assumes r: "mp_rep i s f" and b: "b \<in> mp_allocated i s"
  defines "s' \<equiv> upd_pool i (\<lambda>mp. mp\<lparr>mp_block_list := MpBlock b\<rparr>) (set_link b (mp_block_list (k_pools s i))
     (upd_pool i (\<lambda>mp. mp\<lparr>mp_block_free_count := mp_block_free_count mp + 1\<rparr>) s))"
  shows "mp_rep i s' (b # f)"
proof -
  note R = r [unfolded mp_rep_def]
  have bl: "mp_blocks (k_pools s' i) = mp_blocks (k_pools s i)" unfolding s'_def by (rule mp_blocks_cong) simp_all
  have nb: "b \<notin> set f" "b \<in> set (mp_blocks (k_pools s i))"
    using mp_conservation(1) [OF r] b by (auto simp: mp_allocated_def)
  have "mp_allocated i s \<noteq> {}" using b by auto
  then have "0 < card (mp_allocated i s)" by (simp add: card_gt_0_iff mp_allocated_def)
  then have "length f < unat (mp_block_total_count (k_pools s i))" using mp_conservation(3) [OF r] by linarith
  then have e: "unat (mp_block_free_count (k_pools s i) + 1) = Suc (length f)"
    using R unat_inc_below [of "mp_block_free_count (k_pools s i)" "mp_block_total_count (k_pools s i)"] by simp
  show ?thesis unfolding mp_rep_def bl using R e nb by (auto simp: s'_def)
qed

section \<open>Allocating and freeing\<close>

lemma rt_mp_alloc_block:
  assumes ok: "sys_ok s" and r: "mp_rep i s (b # f)"
  shows "\<exists>s'. rt_mp_alloc i time s = Some (Ret (b + 4), s') \<and> sys_ok s' \<and> mp_rep i s' f \<and>
     mp_allocated i s' = insert b (mp_allocated i s) \<and> b \<notin> mp_allocated i s"
proof -
  obtain s' where s': "mp_pop i s = Some (b + 4, s')" "mp_rep i s' f" "k_links s' b = MpPool i" "sys_ok s' = sys_ok s"
    "\<And>a. a \<noteq> b \<Longrightarrow> k_links s' a = k_links s a" "mp_blocks (k_pools s' i) = mp_blocks (k_pools s i)"
    by (rule mp_pop_rep [OF r]) (rule that; assumption)
  have "mp_block_free_count (k_pools s i) \<noteq> 0" using r by (auto simp: mp_rep_def)
  moreover have "b \<in> set (mp_blocks (k_pools s i))" using r by (simp add: mp_rep_def)
  then have "mp_allocated i s' = insert b (mp_allocated i s)"
    unfolding mp_allocated_def s'(6) using s'(3,5) by (auto, metis)
  ultimately show ?thesis using s' ok mp_conservation(1) [OF r] by (auto simp: rt_mp_alloc_def mp_alloc_loop_def)
qed

lemma sys_ok_set_errno: "sys_ok s \<Longrightarrow> sys_ok (rt_set_errno e s)"
  by (simp add: rt_set_errno_def split: option.splits)

lemma rt_mp_alloc_refused:
  assumes ok: "sys_ok s" and r: "mp_rep i s []"
  shows "\<exists>s'. rt_mp_alloc i 0 s = Some (Ret 0, s') \<and> sys_ok s' \<and> mp_rep i s' [] \<and> rt_get_errno s' = - RT_ETIMEOUT"
proof -
  have "mp_block_free_count (k_pools s i) = 0" using r by (simp add: mp_rep_def unat_eq_zero)
  moreover have "k_links (rt_set_errno e s) = k_links s" "k_pools (rt_set_errno e s) = k_pools s" for e
    by (simp_all add: rt_set_errno_def split: option.splits)
  ultimately show ?thesis using sys_ok_set_errno [OF ok] r
      mp_rep_cong [of "rt_set_errno (- RT_ETIMEOUT) s" s i "[]"]
    by (simp add: rt_mp_alloc_def mp_alloc_loop_def rt_errno_roundtrip)
qed

text \<open>With no block left the caller waits, in front of the threads that already wait.\<close>

lemma rt_mp_alloc_waits:
  assumes ok: "sys_ok s" and i: "listed (KMemPool i) s" and t: "running_in t s" and r: "mp_rep i s []"
    and time: "time \<noteq> 0" "time < 0x7FFFFFFF"
  shows "\<exists>s'. rt_mp_alloc i time s = Some (Wait, s') \<and> sys_ok s' \<and> mp_rep i s' [] \<and>
     tstat s' t = RT_THREAD_SUSPEND \<and> th_error (thread s' t) = RT_EOK \<and>
     k_tlists s' (Susp (KMemPool i)) = t # k_tlists s (Susp (KMemPool i))"
proof -
  let ?h = "Susp (KMemPool i)" and ?s1 = "upd_thread t (\<lambda>th. th\<lparr>th_error := RT_EOK\<rparr>) s"
  have ok1: "sys_ok ?s1" using ok by simp
  have run: "tstat ?s1 t = RT_THREAD_RUNNING" "runnable (tstat ?s1 t)" "live (tstat ?s1 t)"
    using t by (simp_all add: running_in_def runnable_def live_def)
  have h: "wait_head ?h (KMemPool i)" "head_target ?h (KMemPool i) ?s1"
    using i by (simp_all add: wait_head_def wait_target_def)
  obtain s2 where s2: "rt_thread_suspend t ?s1 = Some (RT_EOK, s2)"
    by (rule thread_suspend_total [OF sys_okD(1) [OF ok1] run(1)])
  let ?s3 = "s2\<lparr>k_tlists := tbl_push ?h t (k_tlists s2)\<rparr>"
  have s3: "?s3 = s2\<lparr>k_tlists := (k_tlists s2)(?h := t # k_tlists s2 ?h)\<rparr>" by (simp add: tbl_push_def)
  have ins: "\<forall>ts. set (t # ts) = insert t (set ts)" "\<forall>ts. distinct ts \<longrightarrow> t \<notin> set ts \<longrightarrow> distinct (t # ts)" by auto
  note L = suspend_link_ok [OF sys_okD(1) [OF ok1] run(2) h ins s2 s3]
  obtain s' where s': "wait_finish t time ?s3 = Some s'" "sys_ok s'"
    by (rule wait_finish_total [OF ok1 L(1,2,4) run(3) L(3) L(7) time(2)])
  note W = wait_finish_ok [OF L(1,3) s'(1)]
  have fr: "core_frame s s'" by (rule core_frame_trans [OF core_frame_error core_frame_trans [OF L(2) W(2)]])
  have "mp_block_free_count (k_pools s i) = 0" using r by (simp add: mp_rep_def unat_eq_zero)
  then have "rt_mp_alloc i time s = Some (Wait, s')"
    using t time(1) s2 s'(1) by (simp add: rt_mp_alloc_def mp_alloc_loop_def context_checks)
  moreover have "mp_rep i s' []" using r mp_rep_cong [of s' s] core_frame_fields(6,7) [OF fr] by simp
  ultimately show ?thesis using s'(2) W(3) [of ?h] W(4) W(5) [of t] L(5) L(8) by simp
qed

text \<open>Freeing a block puts it back; the first waiting thread is made ready.\<close>

lemma rt_mp_free_block:
  assumes ok: "sys_ok s" and r: "mp_rep i s f" and b: "b \<in> mp_allocated i s" "b + 4 \<noteq> 0"
  shows "\<exists>s'. rt_mp_free (b + 4) s = Some s' \<and> sys_ok s' \<and> mp_rep i s' (b # f) \<and>
     k_tlists s' (Susp (KMemPool i)) = tl (k_tlists s (Susp (KMemPool i))) \<and>
     (\<forall>t ts. k_tlists s (Susp (KMemPool i)) = t # ts \<longrightarrow> runnable (tstat s' t) \<and> th_error (thread s' t) = RT_EOK)"
proof -
  let ?h = "Susp (KMemPool i)"
  let ?s1 = "upd_pool i (\<lambda>mp. mp\<lparr>mp_block_list := MpBlock b\<rparr>) (set_link b (mp_block_list (k_pools s i))
     (upd_pool i (\<lambda>mp. mp\<lparr>mp_block_free_count := mp_block_free_count mp + 1\<rparr>) s))"
  have r1: "mp_rep i ?s1 (b # f)" by (rule mp_push_rep [OF r b(1)])
  have ok1: "sys_ok ?s1" using ok by simp
  have l: "k_links s b = MpPool i" using b(1) by (simp add: mp_allocated_def)
  have h: "wait_head ?h (KMemPool i)" by (simp add: wait_head_def)
  show ?thesis
  proof (cases "k_tlists s ?h")
    case Nil
    then show ?thesis using b(2) l r1 ok1 by (simp add: rt_mp_free_def Let_def)
  next
    case (Cons t ts)
    let ?s2 = "upd_thread t (\<lambda>th. th\<lparr>th_error := RT_EOK\<rparr>) ?s1"
    have ok2: "sys_ok ?s2" using ok by simp
    have st: "tstat ?s2 t = RT_THREAD_SUSPEND" using waiting_suspended [OF sys_okD(1) [OF ok] h, of t] Cons by simp
    obtain s3 where s3: "rt_thread_resume t ?s2 = Some (RT_EOK, s3)" "sys_ok s3" "core_frame ?s2 s3"
      "\<And>h. \<forall>p. h \<noteq> Ready p \<Longrightarrow> k_tlists s3 h = removeAll t (k_tlists ?s2 h)"
      "runnable (tstat s3 t)" "th_error (thread s3 t) = th_error (thread ?s2 t)"
      by (rule thread_resume_run [OF ok2 st]) (rule that; assumption)
    obtain s4 where s4: "rt_schedule s3 = Some s4" "sys_ok s4" "core_frame s3 s4"
      "\<And>h. \<forall>p. h \<noteq> Ready p \<Longrightarrow> k_tlists s4 h = k_tlists s3 h"
      "\<And>t. runnable (tstat s4 t) \<longleftrightarrow> runnable (tstat s3 t)" "\<And>t. th_error (thread s4 t) = th_error (thread s3 t)"
      by (rule rt_schedule_run [OF s3(2)]) (rule that; assumption)
    have "distinct (t # ts)" using sched_invD(1) [OF sys_okD(3) [OF ok]] Cons by (metis table_wf_def)
    then have q: "k_tlists s4 ?h = ts" using s4(4) [of ?h] s3(4) [of ?h] Cons by simp
    have "rt_mp_free (b + 4) s = Some s4"
      using b(2) l Cons s3(1) s4(1) by (simp add: rt_mp_free_def Let_def)
    moreover have fr: "core_frame ?s1 s4"
      by (rule core_frame_trans [OF core_frame_error core_frame_trans [OF s3(3) s4(3)]])
    then have "mp_rep i s4 (b # f)"
      using r1 mp_rep_cong [OF core_frame_fields(7) [OF fr] core_frame_fields(6) [OF fr]] by simp
    ultimately show ?thesis using s4(2,5,6) s3(5,6) q Cons by simp
  qed
qed

text \<open>A block that is allocated and given back is the next to be allocated.\<close>

lemma rt_mp_roundtrip:
  assumes ok: "sys_ok s" and r: "mp_rep i s (b # f)" and nz: "b + 4 \<noteq> 0" and nw: "k_tlists s (Susp (KMemPool i)) = []"
  shows "\<exists>s1 s2. rt_mp_alloc i 0 s = Some (Ret (b + 4), s1) \<and> rt_mp_free (b + 4) s1 = Some s2 \<and> mp_rep i s2 (b # f)"
proof -
  obtain s1 where s1: "rt_mp_alloc i 0 s = Some (Ret (b + 4), s1)" "sys_ok s1" "mp_rep i s1 f"
    "mp_allocated i s1 = insert b (mp_allocated i s)"
    using rt_mp_alloc_block [OF ok r] by blast
  then show ?thesis using rt_mp_free_block [OF s1(2,3) _ nz] by blast
qed

section \<open>Initialisation\<close>

lemma block_inj:
  assumes "(start :: rt_uint32) + of_nat j * d = start + of_nat k * d" "j < n" "k < n" "n * unat d \<le> 2 ^ 32" "d \<noteq> 0"
  shows "j = k"
proof -
  have d: "0 < unat d" using assms(5) by (simp add: unat_gt_0)
  have u: "unat (of_nat m * d) = m * unat d" if "m < n" for m
  proof -
    have "m * unat d < n * unat d" using that d by simp
    then have "m * unat d < 2 ^ 32" using assms(4) by linarith
    then show ?thesis by (simp add: unat_word_ariths unsigned_of_nat take_bit_eq_mod mod_mult_left_eq)
  qed
  have "of_nat j * d = of_nat k * d" using assms(1) by simp
  then have "j * unat d = k * unat d" using u assms(2,3) by metis
  then show ?thesis using d by simp
qed

lemma chain_blocks_before:
  assumes "n * unat d \<le> 2 ^ 32" "d \<noteq> 0" "k < m" "m \<le> n"
  shows "fold (\<lambda>k L. L(start + of_nat k * d := MpBlock (start + of_nat (k + 1) * d))) [0..<m] L (start + of_nat k * d) =
    MpBlock (start + of_nat (k + 1) * d)"
  using assms(3,4)
proof (induction m)
  case (Suc m)
  show ?case
  proof (cases "k = m")
    case False
    then have "start + of_nat k * d \<noteq> start + of_nat m * d"
      using block_inj [OF _ _ _ assms(1,2), of start k m] Suc.prems by auto
    then show ?thesis using Suc False by simp
  qed simp
qed simp

lemma chain_blocks_free:
  assumes n: "n * unat d \<le> 2 ^ 32" "d \<noteq> 0" "0 < n"
  shows "free_chain (chain_blocks start d n L) (MpBlock start) (map (\<lambda>k. start + of_nat k * d) [0..<n])"
proof -
  let ?C = "chain_blocks start d n L" and ?a = "\<lambda>k. start + of_nat k * d :: rt_uint32"
  have last: "start + (of_nat n - 1) * d = ?a (n - 1)" using n(3) by (simp add: of_nat_diff)
  have lk: "?C (?a k) = (if k = n - 1 then MpNull else MpBlock (?a (k + 1)))" if "k < n" for k
  proof (cases "k = n - 1")
    case True
    then show ?thesis by (simp add: chain_blocks_def last del: of_nat_Suc)
  next
    case False
    then have "?a k \<noteq> ?a (n - 1)" using block_inj [OF _ _ _ n(1,2), of start k "n - 1"] that n(3) by auto
    then show ?thesis using chain_blocks_before [OF n(1,2) that order_refl, of start L] False
      unfolding chain_blocks_def last by (simp del: of_nat_Suc)
  qed
  have "free_chain ?C (if m < n then MpBlock (?a m) else MpNull) (map ?a [m..<n])" if "m \<le> n" for m
    using that
  proof (induction "n - m" arbitrary: m)
    case 0
    then show ?case by simp
  next
    case (Suc k)
    then have m: "m < n" by simp
    then have "[m..<n] = m # [Suc m..<n]" by (simp add: upt_conv_Cons)
    moreover have "free_chain ?C (if Suc m < n then MpBlock (?a (Suc m)) else MpNull) (map ?a [Suc m..<n])"
      using Suc m by (intro Suc.hyps(1)) auto
    moreover have "?C (?a m) = (if Suc m < n then MpBlock (?a (Suc m)) else MpNull)"
      using lk [OF m] m by (auto simp del: of_nat_Suc)
    ultimately show ?case using m by (simp del: of_nat_Suc)
  qed
  from this [of 0] show ?thesis using n(3) by simp
qed

lemma rt_mp_init_ok:
  assumes ok: "kernel_ok s" and r: "rt_mp_init i name start sz bsz s = Some (e, s')"
    and b: "unat bsz + 7 < 2 ^ 32" and n: "0 < mp_block_total_count (k_pools s' i)"
  shows "kernel_ok s'" "listed (KMemPool i) s'" "mp_rep i s' (mp_blocks (k_pools s' i))" "mp_allocated i s' = {}"
proof -
  let ?sz = "RT_ALIGN_DOWN sz 4" and ?d = "RT_ALIGN bsz 4 + 4"
  let ?n = "?sz div ?d"
  obtain s1 where s1: "rt_object_init (KMemPool i) (class_of (KMemPool i)) name s = Some s1"
    and s': "s' = upd_pool i (\<lambda>_. \<lparr>mp_start_address = start, mp_size = ?sz, mp_block_size = RT_ALIGN bsz 4,
        mp_block_list = MpBlock start, mp_block_total_count = ?n, mp_block_free_count = ?n\<rparr>)
      (s1\<lparr>k_tlists := (k_tlists s1)(Susp (KMemPool i) := []),
         k_links := chain_blocks start ?d (unat ?n) (k_links s1)\<rparr>)"
    using r by (auto simp: rt_mp_init_def bind_Some_iff Let_def)
  note O = object_init_ok [OF ok _ s1, simplified]
  have "s1\<lparr>k_tlists := (k_tlists s1)(Susp (KMemPool i) := [])\<rparr> = s1" using O by (simp add: fun_upd_idem)
  then have s'': "s1\<lparr>k_tlists := (k_tlists s1)(Susp (KMemPool i) := []), k_links := L\<rparr> = s1\<lparr>k_links := L\<rparr>" for L
    by metis
  show "kernel_ok s'" "listed (KMemPool i) s'" using O by (simp_all add: s' s'')
  have "unat (RT_ALIGN bsz 4) = 4 * ((unat bsz + 3) div 4)" using b by (intro unat_align) simp
  then have "unat (RT_ALIGN bsz 4) + 4 < 2 ^ 32" using b by linarith
  then have d: "unat ?d = unat (RT_ALIGN bsz 4) + 4" by (simp add: unat_word_ariths)
  then have d0: "?d \<noteq> 0" by (metis add_is_0 unat_0 zero_neq_numeral)
  have "unat ?n * unat ?d \<le> unat ?sz" by (simp add: unat_div)
  then have n1: "unat ?n * unat ?d \<le> 2 ^ 32"
    by (rule order_trans) (use less_imp_le [OF unsigned_less [of ?sz]] in simp)
  have n0: "0 < unat ?n" using n by (simp add: s' unat_gt_0)
  have bl: "mp_blocks (k_pools s' i) = map (\<lambda>k. start + of_nat k * ?d) [0..<unat ?n]"
    by (simp add: s' mp_blocks_def mp_block_def)
  have dist: "distinct (map (\<lambda>k. start + of_nat k * ?d) [0..<unat ?n])"
    unfolding distinct_map using block_inj [OF _ _ _ n1 d0, of start] by (auto intro!: inj_onI)
  show rep: "mp_rep i s' (mp_blocks (k_pools s' i))"
    unfolding mp_rep_def bl using chain_blocks_free [OF n1 d0 n0, of start "k_links s1"] dist by (simp add: s')
  show "mp_allocated i s' = {}" using mp_conservation(1,2) [OF rep] by blast
qed

section \<open>Properties\<close>

text \<open>
  C17: Allocating from a pool by a running thread always returns to the kernel: a block that was
  free, and so not in use, is handed out past its link word; or no block is free and the caller
  is refused with a timeout error or suspended.  In each case the free and the allocated blocks
  together remain all the blocks of the pool.
\<close>

theorem rt_mp_alloc_conserves:
  assumes ok: "sys_ok s" and i: "listed (KMemPool i) s" and t: "running_in t s" and r: "mp_rep i s f"
    and time: "time < 0x7FFFFFFF"
  shows "\<exists>out s' f'. rt_mp_alloc i time s = Some (out, s') \<and> sys_ok s' \<and> mp_rep i s' f' \<and>
     length f' + card (mp_allocated i s') = unat (mp_block_total_count (k_pools s' i)) \<and>
     (case f of b # bs \<Rightarrow> out = Ret (b + 4) \<and> f' = bs \<and> b \<notin> mp_allocated i s \<and>
          mp_allocated i s' = insert b (mp_allocated i s)
      | [] \<Rightarrow> f' = [] \<and> (if time = 0 then out = Ret 0 \<and> rt_get_errno s' = - RT_ETIMEOUT
          else out = Wait \<and> tstat s' t = RT_THREAD_SUSPEND))"
proof (cases f)
  case Nil
  note r0 = r [unfolded Nil]
  show ?thesis
  proof (cases "time = 0")
    case True
    then obtain s' where "rt_mp_alloc i 0 s = Some (Ret 0, s')" "sys_ok s'" "mp_rep i s' []" "rt_get_errno s' = - RT_ETIMEOUT"
      using rt_mp_alloc_refused [OF ok r0] by blast
    then show ?thesis using mp_conservation(3) [of i s' "[]"] True Nil by auto
  next
    case False
    then obtain s' where "rt_mp_alloc i time s = Some (Wait, s')" "sys_ok s'" "mp_rep i s' []" "tstat s' t = RT_THREAD_SUSPEND"
      using rt_mp_alloc_waits [OF ok i t r0 False time] by blast
    then show ?thesis using mp_conservation(3) [of i s' "[]"] False Nil by auto
  qed
next
  case (Cons b bs)
  obtain s' where s': "rt_mp_alloc i time s = Some (Ret (b + 4), s')" "sys_ok s'" "mp_rep i s' bs"
    "mp_allocated i s' = insert b (mp_allocated i s)" "b \<notin> mp_allocated i s"
    using rt_mp_alloc_block [OF ok r [unfolded Cons]] by blast
  have "length bs + card (mp_allocated i s') = unat (mp_block_total_count (k_pools s' i))"
    by (rule mp_conservation(3) [OF s'(3)])
  then show ?thesis unfolding Cons list.case using s' by blast
qed

text \<open>
  Freeing an allocated block always returns: the block is the first free one afterwards, no
  longer allocated, and the first waiting thread becomes runnable with no error; the free and the
  allocated blocks together remain all the blocks of the pool.
\<close>

theorem rt_mp_free_conserves:
  assumes ok: "sys_ok s" and r: "mp_rep i s f" and b: "b \<in> mp_allocated i s" "b + 4 \<noteq> 0"
  shows "\<exists>s'. rt_mp_free (b + 4) s = Some s' \<and> sys_ok s' \<and> mp_rep i s' (b # f) \<and> b \<notin> mp_allocated i s' \<and>
     length (b # f) + card (mp_allocated i s') = unat (mp_block_total_count (k_pools s' i)) \<and>
     (\<forall>t ts. k_tlists s (Susp (KMemPool i)) = t # ts \<longrightarrow> k_tlists s' (Susp (KMemPool i)) = ts \<and>
        runnable (tstat s' t) \<and> th_error (thread s' t) = RT_EOK)"
proof -
  obtain s' where s': "rt_mp_free (b + 4) s = Some s'" "sys_ok s'" "mp_rep i s' (b # f)"
    "k_tlists s' (Susp (KMemPool i)) = tl (k_tlists s (Susp (KMemPool i)))"
    "\<forall>t ts. k_tlists s (Susp (KMemPool i)) = t # ts \<longrightarrow> runnable (tstat s' t) \<and> th_error (thread s' t) = RT_EOK"
    using rt_mp_free_block [OF ok r b] by blast
  note C = mp_conservation(1,3) [OF s'(3)]
  show ?thesis using s' C by (intro exI [of _ s']) auto
qed

text \<open>
  A pool that is initialised consists of free blocks only, chained in the order of their
  addresses, and registered with the kernel, provided it holds at least one block.
\<close>

theorem rt_mp_init_all_free:
  assumes ok: "kernel_ok s" and r: "rt_mp_init i name start sz bsz s = Some (e, s')"
    and b: "unat bsz + 7 < 2 ^ 32" and n: "0 < mp_block_total_count (k_pools s' i)"
  shows "kernel_ok s' \<and> listed (KMemPool i) s' \<and> mp_rep i s' (mp_blocks (k_pools s' i)) \<and> mp_allocated i s' = {}"
  using rt_mp_init_ok [OF assms] by simp

end
