(* ===== verification/Sample.thy ===== *)
theory Sample
  imports Semaphore Mutex Event Mailbox MsgQueue MemPool
begin

text \<open>
  A concrete running system, on which the theorems of the development are instantiated.  The
  idle thread 0 is ready at priority 31, thread 2 runs at priority 10, and thread 3, of priority
  20, waits on the object \<open>w\<close> of its choice.  One object of each kind is registered, two
  semaphores, a free and a held mutex, and a periodic application timer that is due at tick 5.
\<close>

definition sample_thread :: "rt_uint8 \<Rightarrow> rt_uint8 \<Rightarrow> rt_thread" where
  "sample_thread p st = zero_thread\<lparr>th_stat := st, th_current_priority := p, th_init_priority := p,
     th_number_mask := prio_mask (unat p), th_sp := 0x200, th_stack_size := 0x400, th_init_tick := 10,
     th_remaining_tick := 10, th_event_set := 5, th_event_info := RT_EVENT_FLAG_OR OR RT_EVENT_FLAG_CLEAR\<rparr>"

definition sample_objects :: "(rt_uint8, kobj) table" where
  "sample_objects = (\<lambda>_. [])(
     RT_Object_Class_Thread := [KThread 0, KThread 2, KThread 3],
     RT_Object_Class_Semaphore := [KSem 0, KSem 5], RT_Object_Class_Mutex := [KMutex 0, KMutex 5],
     RT_Object_Class_Event := [KEvent 0], RT_Object_Class_MailBox := [KMailbox 0],
     RT_Object_Class_MessageQueue := [KMq 0], RT_Object_Class_MemPool := [KMemPool 0],
     RT_Object_Class_Timer := [KTimer (ThreadTimer 0), KTimer (ThreadTimer 2), KTimer (ThreadTimer 3),
       KTimer (UserTimer 0)])"

definition sample_object :: "kobj \<Rightarrow> rt_object" where
  "sample_object k =
     (if k \<in> set (sample_objects (class_of k))
      then \<lparr>o_name = replicate 8 0, o_type = class_of k OR RT_Object_Class_Static,
             o_flag = (if k = KTimer (UserTimer 0) then 3 else if k = KMutex 0 \<or> k = KMutex 5 then 1 else 0)\<rparr>
      else zero_object)"

definition sample_pool :: rt_mempool where
  "sample_pool = \<lparr>mp_start_address = 0x1000, mp_size = 24, mp_block_size = 8, mp_block_list = MpBlock 0x1000,
     mp_block_total_count = 2, mp_block_free_count = 2\<rparr>"

definition sample :: "kobj \<Rightarrow> kstate" where
  "sample w = zero_state\<lparr>
     k_threads := (\<lambda>_. zero_thread)(0 := sample_thread 31 RT_THREAD_READY,
       2 := sample_thread 10 RT_THREAD_RUNNING, 3 := sample_thread 20 RT_THREAD_SUSPEND),
     k_timers := (\<lambda>t. case t of ThreadTimer u \<Rightarrow> zero_timer\<lparr>tm_func := TF_thread_timeout u\<rparr>
       | UserTimer _ \<Rightarrow> \<lparr>tm_func = TF_user 7 0, tm_init_tick = 10, tm_timeout_tick = 5\<rparr>),
     k_objs := sample_object, k_olists := sample_objects,
     k_tlists := (\<lambda>_. [])(Ready 31 := [0], Susp w := [3]),
     k_tmlists := (\<lambda>_. [])(HardTimers := [UserTimer 0]),
     k_sems := (\<lambda>_. \<lparr>sem_value = 0\<rparr>)(5 := \<lparr>sem_value = 1\<rparr>),
     k_mutexes := (\<lambda>_. mutex_start)(0 := \<lparr>mtx_value = 0, mtx_original_priority = 10, mtx_hold = 1, mtx_owner = Some 2\<rparr>),
     k_mailboxes := (\<lambda>_. mb_start [0, 0] 2), k_mqs := (\<lambda>_. mq_start 4 2 (\<lambda>_. [0, 0, 0, 0])),
     k_pools := (\<lambda>_. sample_pool), k_links := chain_blocks 0x1000 12 2 (\<lambda>_. MpNull),
     k_mem := (\<lambda>_. 0x23), k_ready_group := prio_mask 31, k_current := Some 2, k_current_priority := 10\<rparr>"

lemmas sample_defs = sample_def sample_thread_def zero_state_def zero_thread_def zero_timer_def

lemma sample_fields:
  "k_current (sample w) = Some 2" "k_irq_nest (sample w) = 0" "k_lock_nest (sample w) = 0"
  "k_tlists (sample w) (Susp k) = (if k = w then [3] else [])" "k_tlists (sample w) (SuspSender k) = []"
  "k_tlists (sample w) Defunct = []" "k_tlists (sample w) (Ready p) = (if p = 31 then [0] else [])"
  "k_tmlists (sample w) HardTimers = [UserTimer 0]" "k_tmlists (sample w) SoftTimers = []"
  "k_objs (sample w) = sample_object" "k_olists (sample w) = sample_objects" "k_tick (sample w) = 0"
  "k_sems (sample w) 0 = \<lparr>sem_value = 0\<rparr>" "k_sems (sample w) 5 = \<lparr>sem_value = 1\<rparr>"
  "k_events (sample w) i = \<lparr>ev_set = 0\<rparr>" "k_mailboxes (sample w) i = mb_start [0, 0] 2"
  "k_mqs (sample w) i = mq_start 4 2 (\<lambda>_. [0, 0, 0, 0])" "k_pools (sample w) i = sample_pool"
  "k_ready_group (sample w) = prio_mask 31" "k_mem (sample w) a = 0x23"
  "thread (sample w) 0 = sample_thread 31 RT_THREAD_READY"
  "thread (sample w) 2 = sample_thread 10 RT_THREAD_RUNNING"
  "thread (sample w) 3 = sample_thread 20 RT_THREAD_SUSPEND"
  "k_mutexes (sample w) 0 = \<lparr>mtx_value = 0, mtx_original_priority = 10, mtx_hold = 1, mtx_owner = Some 2\<rparr>"
  "k_mutexes (sample w) 5 = mutex_start"
  "k_links (sample w) = chain_blocks 0x1000 12 2 (\<lambda>_. MpNull)"
  "k_timers (sample w) (UserTimer i) = \<lparr>tm_func = TF_user 7 0, tm_init_tick = 10, tm_timeout_tick = 5\<rparr>"
  by (simp_all add: sample_defs)

lemma sample_thread_fields [simp]:
  "th_current_priority (sample_thread p st) = p" "stat_of (sample_thread p st) = st AND 7"
  "th_stat (sample_thread p st) = st" "th_error (sample_thread p st) = 0"
  "th_event_set (sample_thread p st) = 5" "th_event_info (sample_thread p st) = 6"
  by (simp_all add: sample_thread_def zero_thread_def stat_of_def)

lemma sample_threads:
  "thread (sample w) t = (if t = 0 then sample_thread 31 1 else if t = 2 then sample_thread 10 3
     else if t = 3 then sample_thread 20 2 else zero_thread)"
  by (simp add: sample_defs)

lemma zero_thread_stat [simp]: "stat_of zero_thread = 0"
  by (simp add: zero_thread_def stat_of_def)

lemma sample_listed [simp]: "k \<in> set (sample_objects c) \<longleftrightarrow> c = class_of k \<and>
    k \<in> {KThread 0, KThread 2, KThread 3, KSem 0, KSem 5, KMutex 0, KMutex 5, KEvent 0, KMailbox 0, KMq 0,
      KMemPool 0, KTimer (ThreadTimer 0), KTimer (ThreadTimer 2), KTimer (ThreadTimer 3), KTimer (UserTimer 0)}"
  by (auto simp: sample_objects_def)

lemma sample_tlists: "t \<in> set (k_tlists (sample w) h) \<longleftrightarrow> t = 0 \<and> h = Ready 31 \<or> t = 3 \<and> h = Susp w"
  by (auto simp: sample_defs)

lemma sample_tmlists: "t \<in> set (k_tmlists (sample w) h) \<longleftrightarrow> t = UserTimer 0 \<and> h = HardTimers"
  by (auto simp: sample_defs)

lemma sample_sched: "sched_wf (sample w)"
proof (rule sched_invI)
  have "distinct (k_tlists (sample w) h)" for h by (simp add: sample_defs)
  then show "table_wf (k_tlists (sample w))" by (auto simp: table_wf_def sample_tlists disjoint_iff)
  show "bit (k_ready_group (sample w)) p \<longleftrightarrow> k_tlists (sample w) (Ready p) \<noteq> []" if "p < 32" for p
    using that by (simp add: sample_fields)
  show "prio_ok (thread (sample w) t)" for t
    by (auto simp: sample_threads prio_ok_def) (simp_all add: sample_thread_def zero_thread_def)
qed (auto simp: sample_tlists sample_threads sample_fields split: if_splits)

lemma sample_timers: "timers_inv {} (sample w)"
proof -
  have "distinct (k_tmlists (sample w) h)" for h by (simp add: sample_defs)
  then have "table_wf (k_tmlists (sample w))" by (auto simp: table_wf_def sample_tmlists disjoint_iff)
  then show ?thesis by (auto simp: timers_inv_def sample_tmlists sample_fields sample_object_def)
qed

lemma sample_objs: "objs_wf (sample w)"
proof -
  have "distinct (sample_objects c)" for c by (simp add: sample_objects_def)
  then have "table_wf (sample_objects)" by (auto simp: table_wf_def disjoint_iff)
  then show ?thesis
    by (auto simp: objs_wf_def sample_fields sample_object_def rt_object_get_type_def object_container_def
        unlinked_def zero_object_def)
qed

lemma sample_ok [simp]:
  assumes "waitable w" "w \<in> set (sample_objects (class_of w))"
  shows "sys_ok (sample w)"
proof -
  have "reg_inv {} (sample w)"
    using assms by (auto simp: reg_inv_def sample_fields sample_threads unlinked_def sample_tlists sample_tmlists wait_target_def)
  moreover have "ttimers_ok (sample w)"
    by (auto simp: ttimers_ok_def sample_fields sample_object_def) (simp_all add: sample_defs)
  moreover have "stack_ok (sample w) t" if "live (tstat (sample w) t)" for t
    using that by (auto simp: stack_ok_def scheduler_stack_check_def live_def sample_threads sample_fields split: if_splits)
      (simp_all add: sample_thread_def zero_thread_def)
  ultimately show ?thesis
    using sample_sched sample_timers sample_objs
    by (simp add: sys_ok_def kernel_ok_def kinv_def sample_fields)
qed

lemma sample_running [simp]: "running_in 2 (sample w)"
  by (simp add: running_in_def sample_fields)

lemma sample_object_ok [simp]:
  "waitable k \<Longrightarrow> k \<in> set (sample_objects (class_of k)) \<Longrightarrow> ipc_object_ok k (sample w)"
  by (auto simp: ipc_object_ok_def sample_fields sample_object_def)

text \<open>
  The same system at the end of a time slice: thread 3 is ready at the priority of the running
  thread 2, whose slice has one tick left, and no timer is active.
\<close>

definition sample_slice :: kstate where
  "sample_slice = (sample (KSem 0))\<lparr>
     k_threads := (\<lambda>_. zero_thread)(0 := sample_thread 31 RT_THREAD_READY,
       2 := (sample_thread 10 RT_THREAD_RUNNING)\<lparr>th_remaining_tick := 1\<rparr>, 3 := sample_thread 10 RT_THREAD_READY),
     k_tlists := (\<lambda>_. [])(Ready 31 := [0], Ready 10 := [3]), k_tmlists := (\<lambda>_. []),
     k_ready_group := prio_mask 31 OR prio_mask 10\<rparr>"

lemma sample_slice_threads:
  "thread sample_slice t = (if t = 0 then sample_thread 31 1 else if t = 2 then (sample_thread 10 3)\<lparr>th_remaining_tick := 1\<rparr>
     else if t = 3 then sample_thread 10 1 else zero_thread)"
  by (simp add: sample_slice_def)

lemma sample_slice_tlists:
  "t \<in> set (k_tlists sample_slice h) \<longleftrightarrow> t = 0 \<and> h = Ready 31 \<or> t = 3 \<and> h = Ready 10"
  by (auto simp: sample_slice_def)

lemma sample_slice_stat:
  "tstat sample_slice t = (if t = 0 \<or> t = 3 then 1 else if t = 2 then 3 else 0)"
  "tprio sample_slice t = (if t = 0 then 31 else if t = 2 \<or> t = 3 then 10 else 0)"
  by (simp_all add: sample_slice_threads sample_thread_def zero_thread_def stat_of_def)

lemma sample_slice_sched: "sched_wf sample_slice"
proof (rule sched_invI)
  have "distinct (k_tlists sample_slice h)" for h by (simp add: sample_slice_def)
  then show "table_wf (k_tlists sample_slice)" by (auto simp: table_wf_def sample_slice_tlists disjoint_iff)
  show "bit (k_ready_group sample_slice) p \<longleftrightarrow> k_tlists sample_slice (Ready p) \<noteq> []" if "p < 32" for p
    using that by (simp add: sample_slice_def bit_or_iff)
  show "prio_ok (thread sample_slice t)" for t
    by (auto simp: sample_slice_threads prio_ok_def) (simp_all add: sample_thread_def zero_thread_def)
  show "k_tlists sample_slice (Ready p) = []" if "32 \<le> p" for p using that by (simp add: sample_slice_def)
  show "k_current sample_slice = Some t" if "tstat sample_slice t = RT_THREAD_RUNNING" for t
    using that by (simp add: sample_slice_stat split: if_splits) (simp add: sample_slice_def sample_fields)
  show "tstat sample_slice t \<noteq> RT_THREAD_READY" if "k_current sample_slice = Some t" for t
    using that by (simp add: sample_slice_stat) (simp add: sample_slice_def sample_fields)
qed (auto simp: sample_slice_tlists sample_slice_stat split: if_splits)

lemma sample_slice_ok: "sys_ok sample_slice"
proof -
  have o: "k_objs sample_slice = sample_object" "k_olists sample_slice = sample_objects" "k_tmlists sample_slice = (\<lambda>_. [])"
    "k_timers sample_slice = k_timers (sample (KSem 0))" "k_mem sample_slice = k_mem (sample (KSem 0))"
    "k_current sample_slice = Some 2"
    by (simp_all add: sample_slice_def sample_fields)
  have "reg_inv {} sample_slice"
    by (auto simp: reg_inv_def o sample_slice_stat unlinked_def sample_slice_tlists) (simp_all add: sample_slice_def)
  moreover have "timers_inv {} sample_slice" by (simp add: timers_inv_def o table_wf_def)
  moreover have "objs_wf sample_slice" using sample_objs by (simp add: objs_wf_def rt_object_get_type_def o sample_fields)
  moreover have "ttimers_ok sample_slice"
    using sample_ok [of "KSem 0"] by (simp add: sys_ok_def kernel_ok_def ttimers_ok_def o sample_fields)
  moreover have "stack_ok sample_slice t" if "live (tstat sample_slice t)" for t
    using that by (auto simp: stack_ok_def scheduler_stack_check_def live_def sample_slice_stat split: if_splits)
      (simp_all add: sample_slice_threads o sample_fields sample_thread_def zero_thread_def)
  ultimately show ?thesis
    using sample_slice_sched by (simp add: sys_ok_def kernel_ok_def kinv_def o sample_slice_stat)
qed

end
