(* ===== verification/Clock.thy ===== *)
theory Clock
  imports IpcBase
begin

text \<open>
  What the tick interrupt does to a running system, \<^verbatim>\<open>src/clock.c\<close> on top of the scheduler and
  the timers: time slices, expiry, sleeping; and the lookup of objects in a running system.
\<close>

section \<open>Fields no invariant looks at\<close>

lemma sys_ok_counters [simp]:
  "sys_ok (s\<lparr>k_tick := n\<rparr>) = sys_ok s" "sys_ok (s\<lparr>k_irq_nest := i\<rparr>) = sys_ok s"
  "sys_ok (s\<lparr>k_lock_nest := l\<rparr>) = sys_ok s" "sys_ok (s\<lparr>k_freed := f\<rparr>) = sys_ok s"
  by (simp_all add: sys_ok_def stack_ok_def scheduler_stack_check_def)

lemma stat_of_yield [simp]: "stat_of (th\<lparr>th_stat := th_stat th OR 8\<rparr>) = stat_of th"
  by (simp add: stat_of_def bit.conj_disj_distrib2)

text \<open>The time-slice accounting of the tick handler, without the expiry of timers.\<close>

definition tick_slice :: "kstate \<Rightarrow> kstate option" where
  "tick_slice s = do {
     t \<leftarrow> rt_thread_self s;
     let s = upd_thread t (\<lambda>th. th\<lparr>th_remaining_tick := th_remaining_tick th - 1\<rparr>) s;
     if th_remaining_tick (thread s t) = 0
     then rt_schedule (upd_thread t (\<lambda>th. th\<lparr>th_remaining_tick := th_init_tick th,
       th_stat := th_stat th OR RT_THREAD_STAT_YIELD\<rparr>) s)
     else Some s
   }"

lemma rt_tick_increase_slice:
  "rt_tick_increase cb s = do { s \<leftarrow> tick_slice (s\<lparr>k_tick := k_tick s + 1\<rparr>); rt_timer_check cb s }"
  by (cases "k_current s")
    (simp_all add: rt_tick_increase_def tick_slice_def rt_thread_yield_def rt_thread_self_def Let_def Option.bind_assoc)

lemma timers_same_upd_thread [simp]: "timers_same s (upd_thread t f s)"
  by (simp add: timers_same_def)

lemma tick_slice_run:
  assumes ok: "sys_ok s"
  obtains s' where "tick_slice s = Some s'" "sys_ok s'" "timers_same s s'"
proof -
  obtain c where c: "k_current s = Some c" using ok by (auto simp: sys_ok_def)
  let ?s1 = "upd_thread c (\<lambda>th. th\<lparr>th_remaining_tick := th_remaining_tick th - 1\<rparr>) s"
  let ?s2 = "upd_thread c (\<lambda>th. th\<lparr>th_remaining_tick := th_init_tick th, th_stat := th_stat th OR RT_THREAD_STAT_YIELD\<rparr>) ?s1"
  have ok1: "sys_ok ?s1" by (rule sys_ok_upd_frame [OF ok]) (simp_all add: stat_of_def)
  have ok2: "sys_ok ?s2" by (rule sys_ok_upd_frame [OF ok1]) (simp_all add: stat_of_def bit.conj_disj_distrib2)
  obtain s3 where s3: "rt_schedule ?s2 = Some s3" "sys_ok s3" by (rule rt_schedule_total [OF ok2])
  have "timers_same s s3"
    using timers_same_trans [OF _ timers_same_sched [OF sched_frame_schedule [OF s3(1)]], of s]
      timers_same_trans [of s ?s1 ?s2] by simp
  then show thesis
    using that [of s3] that [of ?s1] s3 ok1 c
    by (cases "th_remaining_tick (thread ?s1 c) = 0") (simp_all add: tick_slice_def rt_thread_self_def Let_def)
qed

lemma periods_ok_same: "timers_same s s' \<Longrightarrow> periods_ok s' = periods_ok s"
  by (auto simp: timers_same_def periods_ok_def)

lemma window_ok_same: "timers_same s s' \<Longrightarrow> window_ok b s' = window_ok b s"
  by (auto simp: timers_same_def window_ok_def)

section \<open>Critical sections and registration\<close>

lemma critical_section_total:
  assumes ok: "sys_ok s"
  shows "\<exists>s'. rt_exit_critical (rt_enter_critical s) = Some s' \<and> sys_ok s' \<and> k_irq_nest s' = k_irq_nest s"
proof -
  have "sys_ok (s\<lparr>k_lock_nest := 0\<rparr>)" using ok by simp
  then obtain s2 where "rt_schedule (s\<lparr>k_lock_nest := 0\<rparr>) = Some s2" "sys_ok s2" by (rule rt_schedule_total)
  then show ?thesis using ok sched_frame_fields(14) [OF sched_frame_schedule, of "s\<lparr>k_lock_nest := 0\<rparr>" s2]
    by (auto simp: rt_exit_critical_def rt_enter_critical_def Let_def)
qed

lemma object_init_plain_total:
  assumes ok: "sys_ok s" and k: "\<not> listed k s" and w: "\<And>t. k \<noteq> KThread t" "\<And>t. k \<noteq> KTimer t"
  shows "\<exists>s'. rt_object_init k (class_of k) name s = Some s' \<and> sys_ok s' \<and> k_irq_nest s' = k_irq_nest s"
proof -
  have c: "class_of k \<in> set object_container" by (cases k) (simp_all add: object_container_def)
  obtain s1 where s1: "rt_exit_critical (rt_enter_critical s) = Some s1" "sys_ok s1" "k_irq_nest s1 = k_irq_nest s"
    using critical_section_total [OF ok] by blast
  define s2 where "s2 = upd_obj k (\<lambda>ob. ob\<lparr>o_type := class_of k OR RT_Object_Class_Static, o_name := rt_strncpy name 8\<rparr>) s1"
  let ?s' = "s2\<lparr>k_olists := tbl_push (class_of k) k (k_olists s2)\<rparr>"
  have r: "rt_object_init k (class_of k) name s = Some ?s'"
    using c k s1(1) by (simp add: rt_object_init_def rt_object_get_information_def s2_def) (simp add: rt_enter_critical_def)
  have "kernel_ok ?s'" using object_init_plain_ok(1) [OF sys_okD(1) [OF ok] w r] .
  then have "sys_ok ?s'"
    using s1(2) by (simp add: sys_ok_def stack_ok_def scheduler_stack_check_def s2_def)
  then show ?thesis using r s1(3) by (simp add: s2_def)
qed

lemma object_init_total:
  assumes "sys_ok s" "\<not> listed k s" "waitable k"
  shows "\<exists>s'. rt_object_init k (class_of k) name s = Some s' \<and> sys_ok s' \<and> k_irq_nest s' = k_irq_nest s"
  by (rule object_init_plain_total [OF assms(1,2) waitable_plain [OF assms(3)]])

section \<open>Properties\<close>

text \<open>
  C5: The tick interrupt is safe and complete: the tick handler returns, the system invariant
  holds again, the clock has advanced by one, and no timer that is left in the list is due.  In
  particular the expiry loop terminates.  The theorem asks three things of the application.  Its
  timeout functions satisfy \<open>callback_ok\<close>: called in a state that satisfies the invariant they
  return and keep it, leave the clock alone, and do no more to the timers than stop some of them.
  The linked timers satisfy \<open>periods_ok\<close>: a time below half the range of ticks, which for a
  periodic timer is not zero (with a zero period the timer is due again at once and the loop does
  not end), and only the own, one-shot timer of a thread calls the timeout function of the kernel.
  And \<open>window_ok\<close>: all deadlines lie within the half-range window of the tick counter.
\<close>

theorem rt_tick_increase_safe:
  assumes ok: "sys_ok s" and cb: "callback_ok cb" and per: "periods_ok s"
    and win: "window_ok b (s\<lparr>k_tick := k_tick s + 1\<rparr>)"
  shows "\<exists>s'. rt_tick_increase cb s = Some s' \<and> sys_ok s' \<and> k_tick s' = k_tick s + 1 \<and>
     (\<forall>t \<in> set (k_tmlists s' HardTimers). \<not> due s' t)"
proof -
  let ?s = "s\<lparr>k_tick := k_tick s + 1\<rparr>"
  have ok0: "sys_ok ?s" using ok by simp
  obtain s1 where s1: "tick_slice ?s = Some s1" "sys_ok s1" "timers_same ?s s1" by (rule tick_slice_run [OF ok0])
  have "periods_ok ?s" using per by (simp add: periods_ok_def)
  then have P: "periods_ok s1" "window_ok b s1" using periods_ok_same [OF s1(3)] window_ok_same [OF s1(3)] win by simp_all
  obtain s' where s': "rt_timer_check cb s1 = Some s'" "sys_ok s'" "\<forall>t \<in> set (k_tmlists s' HardTimers). \<not> due s' t"
    using rt_timer_check_none_due [OF s1(2) cb P] by blast
  have "k_tick s' = k_tick s1" using rt_timer_check_total [OF s1(2) cb P(1)] s'(1) by auto
  then show ?thesis using s1 s' by (simp add: rt_tick_increase_slice timers_same_def)
qed

text \<open>
  C37: Round robin: when the tick ends the time slice of the running thread and threads of its own
  priority are ready, no higher one is, the scheduler is not locked, and none of the timers in the
  list is due at the new tick, the first of those threads runs and the preempted thread is last in
  the line, with a full time slice.
\<close>

theorem time_slice_rotates:
  assumes ok: "sys_ok s" and lock: "k_lock_nest s = 0" and c: "k_current s = Some c" "tstat s c = RT_THREAD_RUNNING"
    and slice: "th_remaining_tick (thread s c) = 1"
    and peer: "k_tlists s (Ready (tprio s c)) = t # ts" and top: "\<forall>q < tprio s c. k_tlists s (Ready q) = []"
    and quiet: "\<forall>x \<in> set (k_tmlists s HardTimers). \<not> due (s\<lparr>k_tick := k_tick s + 1\<rparr>) x"
  shows "\<exists>s'. rt_tick_increase cb s = Some s' \<and> sys_ok s' \<and> k_current s' = Some t \<and>
     k_tlists s' (Ready (tprio s c)) = ts @ [c] \<and> th_remaining_tick (thread s' c) = th_init_tick (thread s c) \<and>
     th_stat (thread s' c) AND RT_THREAD_STAT_YIELD = 0"
proof -
  let ?s0 = "s\<lparr>k_tick := k_tick s + 1\<rparr>"
  let ?s1 = "upd_thread c (\<lambda>th. th\<lparr>th_remaining_tick := th_remaining_tick th - 1\<rparr>) ?s0"
  let ?s2 = "upd_thread c (\<lambda>th. th\<lparr>th_remaining_tick := th_init_tick th, th_stat := th_stat th OR RT_THREAD_STAT_YIELD\<rparr>) ?s1"
  have ok0: "sys_ok ?s0" using ok by simp
  have ok1: "sys_ok ?s1" by (rule sys_ok_upd_frame [OF ok0]) (simp_all add: stat_of_def)
  have ok2: "sys_ok ?s2" by (rule sys_ok_upd_frame [OF ok1]) (simp_all add: stat_of_def bit.conj_disj_distrib2)
  have same: "tprio ?s2 c = tprio s c" "tstat ?s2 c = RT_THREAD_RUNNING" using c by (simp_all add: stat_of_def bit.conj_disj_distrib2)
  have t: "tstat s t = RT_THREAD_READY" using sched_invD(4) [OF sys_okD(3) [OF ok], of t "tprio s c"] peer by simp
  have "t \<noteq> c" using t c(2) by auto
  have "live (tstat ?s2 t)" using t \<open>t \<noteq> c\<close> by (simp add: live_def)
  then have st: "stack_ok ?s2 t" by (rule sys_okD(5) [OF ok2])
  obtain s' where s': "rt_schedule ?s2 = Some s'" "k_current s' = Some t"
    "k_tlists s' (Ready (tprio ?s2 c)) = ts @ [c]" "th_stat (thread s' c) AND RT_THREAD_STAT_YIELD = 0"
  proof (rule rt_schedule_rotates [OF sys_okD(3) [OF ok2], of c t ts])
    show "th_stat (thread ?s2 c) AND RT_THREAD_STAT_YIELD \<noteq> 0" by (simp add: bit.conj_disj_distrib2)
  qed (use lock c same peer top st in simp_all)
  have ok': "sys_ok s'" using rt_schedule_total [OF ok2] s'(1) by force
  note fr = sched_frame_schedule [OF s'(1)]
  have "tick_slice ?s0 = Some s'" using c slice s'(1) by (simp add: tick_slice_def rt_thread_self_def Let_def)
  moreover have "rt_timer_check cb s' = Some s'"
  proof -
    note f = sched_frame_fields [OF fr]
    have "k_tmlists s' = k_tmlists s" "due s' x \<longleftrightarrow> due ?s0 x" for x using f by (simp_all add: due_def)
    then show ?thesis using quiet by (subst rt_timer_check.simps) (simp split: list.split)
  qed
  ultimately have "rt_tick_increase cb s = Some s'" by (simp add: rt_tick_increase_slice)
  then show ?thesis using ok' s'(2-4) same(1) sched_frame_thread(11) [OF fr, of c] by simp
qed

lemma thread_sleep_correct:
  assumes ok: "sys_ok s" and t: "running_in t s" and n: "n < RT_TICK_HALF"
  shows "\<exists>s'. rt_thread_sleep n s = Some (Wait, s') \<and> sys_ok s' \<and> tstat s' t = RT_THREAD_SUSPEND \<and>
     ThreadTimer t \<in> set (k_tmlists s' HardTimers) \<and> timeout s' (ThreadTimer t) = k_tick s + n \<and> k_tick s' = k_tick s"
proof -
  note K = sys_okD(1) [OF ok]
  have c: "k_current s = Some t" "tstat s t = RT_THREAD_RUNNING" using t by (simp_all add: running_in_def)
  have ty: "rt_object_get_type (KThread t) s = RT_Object_Class_Thread"
    using type_if_listed [OF kernel_okD(1) [OF K], of "KThread t"] listed_if_live [OF kernel_okD(1) [OF K], of t] c by auto
  obtain s1 where s1: "rt_thread_suspend t s = Some (RT_EOK, s1)" by (rule thread_suspend_total [OF K c(2)])
  have run: "runnable (tstat s t)" using c by (simp add: runnable_def)
  note E = thread_suspend_effect [OF run s1]
  have k1: "kernel_ok s1" using K s1 by (rule kernel_ok_suspend)
  have st1: "tstat s1 t = RT_THREAD_SUSPEND" using kinv_thread_suspend(2) [OF kernel_okD(1) [OF K] s1] by simp
  have lv: "live (tstat s1 t)" by (simp add: st1 live_def)
  note F1 = thread_suspend_frame [OF s1]
  obtain s2 where s2: "start_thread_timer t n s1 = Some s2" by (rule start_thread_timer_total [OF k1 lv n])
  note S2 = start_thread_timer_ok [OF k1 st1 s2] start_thread_timer_threads [OF k1 s2]
  have fr: "core_frame s s2" by (rule core_frame_trans [OF F1(1) S2(2)])
  have ok2: "sys_ok s2"
  proof (rule sys_ok_step [OF ok kernel_okD(1) [OF S2(1)] fr])
    show "live (tstat s u)" if "live (tstat s2 u)" for u
      using that c st1 by (cases "u = t") (simp_all add: S2(3) E(3) live_def)
    show "\<exists>c. k_current s2 = Some c \<and> tprio s2 c < 32"
      using ok S2(5) F1(2) core_frame_thread(1) [OF fr] by (auto simp: sys_ok_def)
  qed
  obtain s' where s': "rt_schedule s2 = Some s'" "sys_ok s'" "core_frame s2 s'"
    "\<And>h. \<forall>p. h \<noteq> Ready p \<Longrightarrow> k_tlists s' h = k_tlists s2 h"
    "\<And>t. runnable (tstat s' t) \<longleftrightarrow> runnable (tstat s2 t)" "\<And>t. th_error (thread s' t) = th_error (thread s2 t)"
    by (rule rt_schedule_run [OF ok2]) (rule that; assumption)
  have "tstat s' t = tstat s2 t \<or> runnable (tstat s' t) \<and> runnable (tstat s2 t)"
    using rt_schedule_step [OF sys_okD(3) [OF ok2] s'(1)] by (simp add: sched_step_def)
  then have "tstat s' t = tstat s2 t" using st1 S2(3) by (simp add: runnable_def)
  moreover note sched_frame_fields [OF sched_frame_schedule [OF s'(1)]]
  moreover have "k_tick s2 = k_tick s1" "k_tick s1 = k_tick s"
    using core_frame_fields [OF S2(2)] core_frame_fields [OF F1(1)] by simp_all
  ultimately show ?thesis
    using c ty s1 s2 s' st1 S2 by (simp add: rt_thread_sleep_def rt_thread_self_def)
qed

text \<open>
  Sleeping: a running thread that asks to sleep for fewer than half the range of ticks is
  suspended, its timer is in the list with the deadline \<open>n\<close> ticks from now, and the processor goes
  to another thread.
\<close>

theorem rt_thread_sleep_arms_timer:
  assumes ok: "sys_ok s" and t: "running_in t s" and n: "n < RT_TICK_HALF"
  shows "\<exists>s'. rt_thread_sleep n s = Some (Wait, s') \<and> sys_ok s' \<and> tstat s' t = RT_THREAD_SUSPEND \<and>
     ThreadTimer t \<in> set (k_tmlists s' HardTimers) \<and> timeout s' (ThreadTimer t) = k_tick s + n \<and> k_tick s' = k_tick s"
  by (rule thread_sleep_correct [OF assms])

text \<open>
  Lookup after registration: an object that was just initialised under a name is what a
  lookup of its class finds, for every name that agrees on the eight characters that are kept.
\<close>

theorem rt_object_find_after_init:
  assumes r: "rt_object_init k ty name s = Some s'" and ok: "sys_ok s'" and irq: "k_irq_nest s' = 0"
    and nm: "take 8 (cstr name') = take 8 (cstr name)"
  shows "\<exists>s''. rt_object_find (Some name') ty s' = Some (Some k, s'') \<and> sys_ok s''"
proof -
  have "\<exists>L. ty \<in> set object_container \<and> k_olists s' = tbl_push ty k L \<and> o_name (k_objs s' k) = rt_strncpy name 8"
    using r by (auto simp: rt_object_init_def rt_object_get_information_def bind_Some_iff Let_def split: if_splits)
  then obtain L where ty: "ty \<in> set object_container" and s': "k_olists s' = tbl_push ty k L"
    "o_name (k_objs s' k) = rt_strncpy name 8" by blast
  obtain s'' where s'': "rt_exit_critical (rt_enter_critical s') = Some s''" "sys_ok s''"
    using critical_section_total [OF ok] by blast
  have "find_by_name (rt_enter_critical s') name' (k # ks) = Some k" for ks
    using rt_strncmp_stored [of name 8 name'] nm s'(2) by (simp add: find_by_name_def rt_enter_critical_def)
  moreover have "\<not> RT_Object_Class_Unknown < ty" using ty by (auto simp: object_container_def)
  ultimately show ?thesis using ty s' s'' irq
    by (simp add: rt_object_find_def rt_object_get_information_def rt_debug_not_in_interrupt_def
        rt_interrupt_get_nest_def tbl_push_def rt_enter_critical_def)
qed

end
