(* ===== verification/RingBuffer.thy ===== *)
theory RingBuffer
  imports Fifo
begin

text \<open>
  The byte ring buffer of the device drivers, \<^verbatim>\<open>components/drivers/src/ringbuffer.c\<close>.  The
  indices have fifteen bits and a mirror bit each, which tells a full buffer from an empty one; the
  size is a signed 16-bit number.  Mixed expressions are computed in C's \<^verbatim>\<open>int\<close>, which no operand
  here can overflow.

  A block operation is shown to do what the same number of single-byte operations do on the
  content, and the single-byte operations satisfy the interface of a bounded queue.
\<close>

section \<open>Operations\<close>

record rt_ringbuffer =
  buffer_ptr :: "rt_uint8 list"
  read_mirror :: "1 word"
  read_index :: "15 word"
  write_mirror :: "1 word"
  write_index :: "15 word"
  buffer_size :: "16 word"

datatype rt_ringbuffer_state = RT_RINGBUFFER_EMPTY | RT_RINGBUFFER_FULL | RT_RINGBUFFER_HALFFULL

definition rt_ringbuffer_status :: "rt_ringbuffer \<Rightarrow> rt_ringbuffer_state" where
  "rt_ringbuffer_status rb =
     (if read_index rb = write_index rb
      then (if read_mirror rb = write_mirror rb then RT_RINGBUFFER_EMPTY else RT_RINGBUFFER_FULL)
      else RT_RINGBUFFER_HALFFULL)"

text \<open>\<^verbatim>\<open>rb->buffer_size\<close> as C promotes it.\<close>

abbreviation bsize :: "rt_ringbuffer \<Rightarrow> int" where
  "bsize rb \<equiv> sint (buffer_size rb)"

definition rt_ringbuffer_init :: "rt_uint8 list \<Rightarrow> rt_uint16 \<Rightarrow> rt_ringbuffer option" where
  "rt_ringbuffer_init pool sz = do {
     rt_assert (0 < sint sz);
     Some \<lparr>buffer_ptr = pool, read_mirror = 0, read_index = 0, write_mirror = 0, write_index = 0,
       buffer_size = ucast (RT_ALIGN_DOWN (word_of_int (sint sz)) RT_ALIGN_SIZE)\<rparr>
   }"

definition rt_ringbuffer_data_len :: "rt_ringbuffer \<Rightarrow> rt_uint32" where
  "rt_ringbuffer_data_len rb =
     (case rt_ringbuffer_status rb of
        RT_RINGBUFFER_EMPTY \<Rightarrow> 0
      | RT_RINGBUFFER_FULL \<Rightarrow> word_of_int (bsize rb)
      | RT_RINGBUFFER_HALFFULL \<Rightarrow>
          if read_index rb < write_index rb then word_of_int (uint (write_index rb) - uint (read_index rb))
          else word_of_int (bsize rb - (uint (read_index rb) - uint (write_index rb))))"

definition rt_ringbuffer_space_len :: "rt_ringbuffer \<Rightarrow> rt_uint32" where
  "rt_ringbuffer_space_len rb = word_of_int (bsize rb) - rt_ringbuffer_data_len rb"

definition rt_ringbuffer_get_size :: "rt_ringbuffer \<Rightarrow> rt_uint16" where
  "rt_ringbuffer_get_size rb = buffer_size rb"

text \<open>\<^verbatim>\<open>memcpy(&buf[i], xs, n)\<close> on the bytes of the buffer.\<close>

definition copy_in :: "nat \<Rightarrow> rt_uint8 list \<Rightarrow> rt_uint8 list \<Rightarrow> rt_uint8 list" where
  "copy_in i xs buf = take i buf @ xs @ drop (i + length xs) buf"

text \<open>The two copies of a block at an index, split at the end of the array.\<close>

definition copy_split :: "nat \<Rightarrow> nat \<Rightarrow> rt_uint8 list \<Rightarrow> rt_uint8 list \<Rightarrow> rt_uint8 list" where
  "copy_split i room xs buf = copy_in 0 (drop room xs) (copy_in i (take room xs) buf)"

definition rt_ringbuffer_put :: "rt_uint8 list \<Rightarrow> rt_uint16 \<Rightarrow> rt_ringbuffer \<Rightarrow> rt_uint32 \<times> rt_ringbuffer" where
  "rt_ringbuffer_put ptr len rb =
     (let sz = (ucast (rt_ringbuffer_space_len rb) :: rt_uint16) in
      if sz = 0 then (0, rb)
      else let len = (if sz < len then sz else len); room = bsize rb - uint (write_index rb) in
        if uint len < room
        then (ucast len, rb\<lparr>buffer_ptr := copy_in (unat (write_index rb)) (take (unat len) ptr) (buffer_ptr rb),
                             write_index := write_index rb + ucast len\<rparr>)
        else (ucast len, rb\<lparr>buffer_ptr := copy_split (unat (write_index rb)) (nat room) (take (unat len) ptr) (buffer_ptr rb),
                             write_mirror := NOT (write_mirror rb), write_index := word_of_int (uint len - room)\<rparr>))"

definition rt_ringbuffer_put_force :: "rt_uint8 list \<Rightarrow> rt_uint16 \<Rightarrow> rt_ringbuffer \<Rightarrow> rt_uint32 \<times> rt_ringbuffer" where
  "rt_ringbuffer_put_force ptr len rb =
     (let space_length = (ucast (rt_ringbuffer_space_len rb) :: rt_uint16);
          ptr = (if bsize rb < uint len then drop (nat (uint len - bsize rb)) ptr else ptr);
          len = (if bsize rb < uint len then buffer_size rb else len);
          room = bsize rb - uint (write_index rb) in
      if uint len < room
      then let rb = rb\<lparr>buffer_ptr := copy_in (unat (write_index rb)) (take (unat len) ptr) (buffer_ptr rb),
                        write_index := write_index rb + ucast len\<rparr>
           in (ucast len, if space_length < len then rb\<lparr>read_index := write_index rb\<rparr> else rb)
      else let rb = rb\<lparr>buffer_ptr := copy_split (unat (write_index rb)) (nat room) (take (unat len) ptr) (buffer_ptr rb),
                        write_mirror := NOT (write_mirror rb), write_index := word_of_int (uint len - room)\<rparr>
           in (ucast len, if space_length < len
                then rb\<lparr>read_mirror := NOT (read_mirror rb), read_index := write_index rb\<rparr> else rb))"

text \<open>The second result is what is stored through \<^verbatim>\<open>ptr\<close>.\<close>

definition rt_ringbuffer_get :: "rt_uint16 \<Rightarrow> rt_ringbuffer \<Rightarrow> rt_uint32 \<times> rt_uint8 list \<times> rt_ringbuffer" where
  "rt_ringbuffer_get len rb =
     (let sz = rt_ringbuffer_data_len rb in
      if sz = 0 then (0, [], rb)
      else let len = (if sz < ucast len then ucast sz else len); room = bsize rb - uint (read_index rb) in
        if uint len < room
        then (ucast len, take (unat len) (drop (unat (read_index rb)) (buffer_ptr rb)),
              rb\<lparr>read_index := read_index rb + ucast len\<rparr>)
        else (ucast len, take (nat room) (drop (unat (read_index rb)) (buffer_ptr rb)) @
                take (unat len - nat room) (buffer_ptr rb),
              rb\<lparr>read_mirror := NOT (read_mirror rb), read_index := word_of_int (uint len - room)\<rparr>))"

definition rt_ringbuffer_putchar :: "rt_uint8 \<Rightarrow> rt_ringbuffer \<Rightarrow> rt_uint32 \<times> rt_ringbuffer" where
  "rt_ringbuffer_putchar ch rb =
     (if rt_ringbuffer_space_len rb = 0 then (0, rb)
      else let i = write_index rb; rb = rb\<lparr>buffer_ptr := (buffer_ptr rb)[unat i := ch]\<rparr> in
        (1, if uint i = bsize rb - 1 then rb\<lparr>write_mirror := NOT (write_mirror rb), write_index := 0\<rparr>
            else rb\<lparr>write_index := i + 1\<rparr>))"

definition rt_ringbuffer_putchar_force :: "rt_uint8 \<Rightarrow> rt_ringbuffer \<Rightarrow> rt_uint32 \<times> rt_ringbuffer" where
  "rt_ringbuffer_putchar_force ch rb =
     (let old_state = rt_ringbuffer_status rb; i = write_index rb;
          rb = rb\<lparr>buffer_ptr := (buffer_ptr rb)[unat i := ch]\<rparr> in
      (1, if uint i = bsize rb - 1
          then let rb = rb\<lparr>write_mirror := NOT (write_mirror rb), write_index := 0\<rparr> in
            if old_state = RT_RINGBUFFER_FULL
            then rb\<lparr>read_mirror := NOT (read_mirror rb), read_index := write_index rb\<rparr> else rb
          else let rb = rb\<lparr>write_index := i + 1\<rparr> in
            if old_state = RT_RINGBUFFER_FULL then rb\<lparr>read_index := write_index rb\<rparr> else rb))"

definition rt_ringbuffer_getchar :: "rt_ringbuffer \<Rightarrow> (rt_uint32 \<times> rt_uint8 option) \<times> rt_ringbuffer" where
  "rt_ringbuffer_getchar rb =
     (if rt_ringbuffer_data_len rb = 0 then ((0, None), rb)
      else let i = read_index rb in
        ((1, Some (buffer_ptr rb ! unat i)),
         if uint i = bsize rb - 1 then rb\<lparr>read_mirror := NOT (read_mirror rb), read_index := 0\<rparr>
         else rb\<lparr>read_index := i + 1\<rparr>))"

definition rt_ringbuffer_reset :: "rt_ringbuffer \<Rightarrow> rt_ringbuffer" where
  "rt_ringbuffer_reset rb = rb\<lparr>read_mirror := 0, read_index := 0, write_mirror := 0, write_index := 0\<rparr>"

section \<open>Well-formed buffers and their content\<close>

definition rb_wf :: "rt_ringbuffer \<Rightarrow> bool" where
  "rb_wf rb \<longleftrightarrow> 0 < bsize rb \<and> int (length (buffer_ptr rb)) = bsize rb \<and>
     uint (read_index rb) < bsize rb \<and> uint (write_index rb) < bsize rb \<and>
     (if read_mirror rb = write_mirror rb then read_index rb \<le> write_index rb else write_index rb \<le> read_index rb)"

definition rb_cap :: "rt_ringbuffer \<Rightarrow> nat" where
  "rb_cap rb = nat (bsize rb)"

definition rb_count :: "rt_ringbuffer \<Rightarrow> nat" where
  "rb_count rb = (if read_mirror rb = write_mirror rb then unat (write_index rb) - unat (read_index rb)
     else rb_cap rb + unat (write_index rb) - unat (read_index rb))"

definition rb_content :: "rt_ringbuffer \<Rightarrow> rt_uint8 list" where
  "rb_content rb = ring_read (buffer_ptr rb) (unat (read_index rb)) (rb_count rb)"

lemma length_rb_content [simp]: "length (rb_content rb) = rb_count rb"
  by (simp add: rb_content_def)

lemma mirror_flip: "NOT (x :: 1 word) = y \<longleftrightarrow> x \<noteq> y" "y = NOT x \<longleftrightarrow> x \<noteq> (y :: 1 word)"
proof -
  have "x = y \<longleftrightarrow> bit x 0 = bit y 0" for x y :: "1 word"
  proof
    assume "bit x 0 = bit y 0"
    then show "x = y" by (intro bit_word_eqI) simp
  qed simp
  then show "NOT x = y \<longleftrightarrow> x \<noteq> y" "y = NOT x \<longleftrightarrow> x \<noteq> y" by (auto simp: bit_not_iff)
qed

lemma bsize_bounds: "bsize rb < 32768"
  using sint_lt [of "buffer_size rb"] by simp

lemma rb_wfD:
  assumes "rb_wf rb"
  shows "0 < rb_cap rb" "rb_cap rb < 32768" "length (buffer_ptr rb) = rb_cap rb" "bsize rb = int (rb_cap rb)"
    "unat (read_index rb) < rb_cap rb" "unat (write_index rb) < rb_cap rb"
    "read_mirror rb = write_mirror rb \<Longrightarrow> unat (read_index rb) \<le> unat (write_index rb)"
    "read_mirror rb \<noteq> write_mirror rb \<Longrightarrow> unat (write_index rb) \<le> unat (read_index rb)"
    "rb_count rb \<le> rb_cap rb"
    "unat (write_index rb) = (unat (read_index rb) + rb_count rb) mod rb_cap rb"
proof -
  note W = assms [unfolded rb_wf_def]
  show "length (buffer_ptr rb) = rb_cap rb" using W unfolding rb_cap_def by linarith
  show n: "0 < rb_cap rb" "rb_cap rb < 32768" "bsize rb = int (rb_cap rb)"
    "unat (read_index rb) < rb_cap rb" "unat (write_index rb) < rb_cap rb"
    using W bsize_bounds [of rb] by (simp_all add: rb_cap_def zless_nat_eq_int_zless nat_less_iff)
  show m: "read_mirror rb = write_mirror rb \<Longrightarrow> unat (read_index rb) \<le> unat (write_index rb)"
    "read_mirror rb \<noteq> write_mirror rb \<Longrightarrow> unat (write_index rb) \<le> unat (read_index rb)"
    using W by (auto simp: word_le_nat_alt)
  show "rb_count rb \<le> rb_cap rb"
    using n(4,5) m by (cases "read_mirror rb = write_mirror rb") (simp_all add: rb_count_def)
  show "unat (write_index rb) = (unat (read_index rb) + rb_count rb) mod rb_cap rb"
    using n(1,4,5) m by (cases "read_mirror rb = write_mirror rb") (simp_all add: rb_count_def)
qed

lemma rb_wfI:
  assumes "bsize rb = int n" "0 < n" "length (buffer_ptr rb) = n" "unat (read_index rb) < n" "unat (write_index rb) < n"
    "read_mirror rb = write_mirror rb \<Longrightarrow> unat (read_index rb) \<le> unat (write_index rb)"
    "read_mirror rb \<noteq> write_mirror rb \<Longrightarrow> unat (write_index rb) \<le> unat (read_index rb)"
  shows "rb_wf rb"
proof -
  have "uint (read_index rb) = int (unat (read_index rb))" "uint (write_index rb) = int (unat (write_index rb))" by simp_all
  then have "uint (read_index rb) < bsize rb" "uint (write_index rb) < bsize rb" using assms(1,4,5) by linarith+
  then show ?thesis unfolding rb_wf_def using assms by (auto simp: word_le_nat_alt)
qed

lemma rb_lens:
  assumes "rb_wf rb"
  shows "unat (rt_ringbuffer_data_len rb) = rb_count rb" "unat (rt_ringbuffer_space_len rb) = rb_cap rb - rb_count rb"
proof -
  note D = rb_wfD [OF assms]
  have e: "read_index rb = write_index rb \<longleftrightarrow> unat (read_index rb) = unat (write_index rb)"
    and l: "read_index rb < write_index rb \<longleftrightarrow> unat (read_index rb) < unat (write_index rb)"
    by (simp_all add: word_less_nat_alt unsigned_word_eqI [THEN iffI] word_unat_eq_iff)
  have u: "uint (write_index rb) - uint (read_index rb) = int (unat (write_index rb)) - int (unat (read_index rb))"
    "uint (read_index rb) - uint (write_index rb) = int (unat (read_index rb)) - int (unat (write_index rb))" by simp_all
  have "rt_ringbuffer_data_len rb = word_of_int (int (rb_count rb))"
  proof (cases "read_mirror rb = write_mirror rb")
    case True
    then show ?thesis using D(7) by (auto simp: rt_ringbuffer_data_len_def rt_ringbuffer_status_def rb_count_def e l u of_nat_diff
        simp del: of_nat_unat of_int_diff)
  next
    case False
    have "int (rb_cap rb + unat (write_index rb) - unat (read_index rb)) =
        int (rb_cap rb) - (int (unat (read_index rb)) - int (unat (write_index rb)))"
      using D(5,8) False by linarith
    then show ?thesis using False D(4,8) by (auto simp: rt_ringbuffer_data_len_def rt_ringbuffer_status_def rb_count_def e l u
        simp del: of_nat_unat of_int_diff)
  qed
  then have d: "rt_ringbuffer_data_len rb = word_of_nat (rb_count rb)" by simp
  show "unat (rt_ringbuffer_data_len rb) = rb_count rb"
    using D(2,9) by (simp add: d unat_of_nat)
  have "rt_ringbuffer_space_len rb = word_of_nat (rb_cap rb - rb_count rb)"
    using D(4,9) by (simp add: rt_ringbuffer_space_len_def d of_nat_diff)
  then show "unat (rt_ringbuffer_space_len rb) = rb_cap rb - rb_count rb"
    using D(2) by (simp add: unat_of_nat)
qed

section \<open>Single bytes\<close>

text \<open>Stepping an index, with the mirror bit flipped at the end of the array.\<close>

lemma index_step:
  assumes "unat (i :: 15 word) < n" "n < 32768"
  shows "i + 1 \<noteq> 0" "unat (i + 1) = Suc (unat i)"
proof -
  show "unat (i + 1) = Suc (unat i)" using assms by (simp add: unat_word_ariths)
  then show "i + 1 \<noteq> 0" by force
qed

lemma index_end: "bsize rb = int n \<Longrightarrow> uint (i :: 15 word) = bsize rb - 1 \<longleftrightarrow> Suc (unat i) = n"
proof -
  assume n: "bsize rb = int n"
  have "uint i = int (unat i)" by simp
  then show "uint i = bsize rb - 1 \<longleftrightarrow> Suc (unat i) = n" using n by linarith
qed

abbreviation putc :: "rt_uint8 \<Rightarrow> rt_ringbuffer \<Rightarrow> rt_ringbuffer" where
  "putc ch rb \<equiv> snd (rt_ringbuffer_putchar ch rb)"

abbreviation readc :: "rt_ringbuffer \<Rightarrow> rt_uint8" where
  "readc rb \<equiv> the (snd (fst (rt_ringbuffer_getchar rb)))"

abbreviation dropc :: "rt_ringbuffer \<Rightarrow> rt_ringbuffer" where
  "dropc rb \<equiv> snd (rt_ringbuffer_getchar rb)"

abbreviation getc :: "rt_ringbuffer \<Rightarrow> rt_uint8 \<times> rt_ringbuffer" where
  "getc rb \<equiv> (readc rb, dropc rb)"

lemma space_zero_iff: "rb_wf rb \<Longrightarrow> rt_ringbuffer_space_len rb = 0 \<longleftrightarrow> \<not> rb_count rb < rb_cap rb"
  using rb_lens(2) [of rb] by (metis diff_is_0_eq not_less unat_eq_zero)

lemma data_zero_iff: "rb_wf rb \<Longrightarrow> rt_ringbuffer_data_len rb = 0 \<longleftrightarrow> rb_count rb = 0"
  using rb_lens(1) [of rb] by (metis unat_eq_zero)

lemma putchar_room:
  assumes wf: "rb_wf rb" and room: "rb_count rb < rb_cap rb"
  shows "fst (rt_ringbuffer_putchar ch rb) = 1" "rb_wf (putc ch rb)" "rb_content (putc ch rb) = rb_content rb @ [ch]"
    "rb_cap (putc ch rb) = rb_cap rb"
proof -
  note D = rb_wfD [OF wf] and S = space_zero_iff [OF wf]
  note st = index_step [OF D(6,2)]
  have f: "buffer_ptr (putc ch rb) = (buffer_ptr rb)[unat (write_index rb) := ch]" "buffer_size (putc ch rb) = buffer_size rb"
    "read_index (putc ch rb) = read_index rb" "read_mirror (putc ch rb) = read_mirror rb"
    "fst (rt_ringbuffer_putchar ch rb) = 1"
    using S room by (simp_all add: rt_ringbuffer_putchar_def Let_def)
  show "fst (rt_ringbuffer_putchar ch rb) = 1" by (rule f(5))
  show c: "rb_cap (putc ch rb) = rb_cap rb" by (simp add: rb_cap_def f)
  have w: "write_index (putc ch rb) = (if Suc (unat (write_index rb)) = rb_cap rb then 0 else write_index rb + 1)"
    "write_mirror (putc ch rb) = (if Suc (unat (write_index rb)) = rb_cap rb then NOT (write_mirror rb) else write_mirror rb)"
  proof -
    have "uint (write_index rb) = bsize rb - 1 \<longleftrightarrow> Suc (unat (write_index rb)) = rb_cap rb"
      by (rule index_end [OF D(4)])
    then show "write_index (putc ch rb) = (if Suc (unat (write_index rb)) = rb_cap rb then 0 else write_index rb + 1)"
      "write_mirror (putc ch rb) = (if Suc (unat (write_index rb)) = rb_cap rb then NOT (write_mirror rb) else write_mirror rb)"
      using S room by (simp_all add: rt_ringbuffer_putchar_def Let_def)
  qed
  have cnt: "rb_count (putc ch rb) = Suc (rb_count rb)"
    using D(5-8) room st by (cases "read_mirror rb = write_mirror rb") (auto simp: rb_count_def c f w mirror_flip)
  show "rb_wf (putc ch rb)"
  proof (rule rb_wfI [where n = "rb_cap rb"])
    show "read_mirror (putc ch rb) = write_mirror (putc ch rb) \<Longrightarrow> unat (read_index (putc ch rb)) \<le> unat (write_index (putc ch rb))"
      using D(5-8) room st
      by (cases "read_mirror rb = write_mirror rb") (auto simp: f w mirror_flip rb_count_def split: if_splits)
    show "read_mirror (putc ch rb) \<noteq> write_mirror (putc ch rb) \<Longrightarrow> unat (write_index (putc ch rb)) \<le> unat (read_index (putc ch rb))"
      using D(5-8) room st
      by (cases "read_mirror rb = write_mirror rb") (auto simp: f w mirror_flip rb_count_def split: if_splits)
  qed (use D(1-6) st in \<open>simp_all add: f w\<close>)
  show "rb_content (putc ch rb) = rb_content rb @ [ch]"
    using ring_write [of "rb_count rb" "buffer_ptr rb" "unat (read_index rb)" ch] D(3,10) room
    by (simp add: rb_content_def f cnt)
qed

lemma getchar_data:
  assumes wf: "rb_wf rb" and ne: "rb_content rb \<noteq> []"
  shows "rt_ringbuffer_getchar rb = ((1, Some (readc rb)), dropc rb)" "rb_wf (dropc rb)"
    "rb_content rb = readc rb # rb_content (dropc rb)" "rb_cap (dropc rb) = rb_cap rb"
proof -
  note D = rb_wfD [OF wf] and S = data_zero_iff [OF wf]
  note st = index_step [OF D(5,2)]
  obtain n where n: "rb_count rb = Suc n" using ne by (cases "rb_count rb") (auto simp: rb_content_def)
  have r: "read_index (dropc rb) = (if Suc (unat (read_index rb)) = rb_cap rb then 0 else read_index rb + 1)"
    "read_mirror (dropc rb) = (if Suc (unat (read_index rb)) = rb_cap rb then NOT (read_mirror rb) else read_mirror rb)"
    and f: "buffer_ptr (dropc rb) = buffer_ptr rb" "buffer_size (dropc rb) = buffer_size rb"
    "write_index (dropc rb) = write_index rb" "write_mirror (dropc rb) = write_mirror rb"
    "readc rb = buffer_ptr rb ! unat (read_index rb)"
    using S n index_end [OF D(4), of "read_index rb"] by (simp_all add: rt_ringbuffer_getchar_def Let_def)
  show "rt_ringbuffer_getchar rb = ((1, Some (readc rb)), dropc rb)"
    using S n by (simp add: rt_ringbuffer_getchar_def Let_def)
  show c: "rb_cap (dropc rb) = rb_cap rb" by (simp add: rb_cap_def f)
  have cnt: "rb_count (dropc rb) = n"
    using D(5-8) n st by (cases "read_mirror rb = write_mirror rb") (auto simp: rb_count_def c f r mirror_flip split: if_splits)
  show "rb_wf (dropc rb)"
  proof (rule rb_wfI [where n = "rb_cap rb"])
    show "read_mirror (dropc rb) = write_mirror (dropc rb) \<Longrightarrow> unat (read_index (dropc rb)) \<le> unat (write_index (dropc rb))"
      using D(5-8) n st
      by (cases "read_mirror rb = write_mirror rb") (auto simp: f r mirror_flip rb_count_def split: if_splits)
    show "read_mirror (dropc rb) \<noteq> write_mirror (dropc rb) \<Longrightarrow> unat (write_index (dropc rb)) \<le> unat (read_index (dropc rb))"
      using D(5-8) n st
      by (cases "read_mirror rb = write_mirror rb") (auto simp: f r mirror_flip rb_count_def split: if_splits)
  qed (use D(1-6) st in \<open>simp_all add: f r\<close>)
  have "unat (read_index (dropc rb)) = Suc (unat (read_index rb)) mod rb_cap rb"
    using D(5) st by (auto simp: r)
  then show "rb_content rb = readc rb # rb_content (dropc rb)"
    using D(3,5) by (simp only: rb_content_def f cnt n ring_read_cons)
qed

interpretation ringbuf: bounded_fifo rb_wf rb_content rb_cap "\<lambda>_ _. True" putc getc
proof
  show "rb_wf b \<Longrightarrow> length (rb_content b) \<le> rb_cap b" for b by (simp add: rb_wfD)
  show "rb_cap (putc m b) = rb_cap b" for m b
    by (simp add: rb_cap_def rt_ringbuffer_putchar_def Let_def)
  show "rb_cap (snd (getc b)) = rb_cap b" for b
    by (simp add: rb_cap_def rt_ringbuffer_getchar_def Let_def)
  show "rb_wf b \<Longrightarrow> length (rb_content b) < rb_cap b \<Longrightarrow> rb_wf (putc m b)"
    "rb_wf b \<Longrightarrow> length (rb_content b) < rb_cap b \<Longrightarrow> rb_content (putc m b) = rb_content b @ [m]" for m b
    using putchar_room [of b m] by simp_all
  show "rb_wf b \<Longrightarrow> rb_content b \<noteq> [] \<Longrightarrow> rb_wf (snd (getc b))"
    "rb_wf b \<Longrightarrow> rb_content b \<noteq> [] \<Longrightarrow> rb_content b = fst (getc b) # rb_content (snd (getc b))" for b
    using getchar_data [of b] by simp_all
qed simp_all

section \<open>Blocks\<close>

lemma copy_in_nth:
  assumes "i + length xs \<le> length buf"
  shows "length (copy_in i xs buf) = length buf"
    "p < length buf \<Longrightarrow> copy_in i xs buf ! p = (if i \<le> p \<and> p < i + length xs then xs ! (p - i) else buf ! p)"
  using assms by (auto simp: copy_in_def nth_append)

text \<open>Storing a block at an index of a circular array, as the code does it.\<close>

definition block_store :: "nat \<Rightarrow> rt_uint8 list \<Rightarrow> rt_uint8 list \<Rightarrow> rt_uint8 list" where
  "block_store i xs buf = (if length xs < length buf - i then copy_in i xs buf
     else copy_split i (length buf - i) xs buf)"

lemma block_store_nth:
  assumes "i < length buf" "length xs \<le> length buf"
  shows "length (block_store i xs buf) = length buf"
    "p < length buf \<Longrightarrow> block_store i xs buf ! p =
       (let d = (p + length buf - i) mod length buf in if d < length xs then xs ! d else buf ! p)"
proof -
  note c = copy_in_nth [of i xs buf] copy_in_nth [of i "take (length buf - i) xs" buf]
    copy_in_nth [of 0 "drop (length buf - i) xs" "copy_in i (take (length buf - i) xs) buf"]
  show "length (block_store i xs buf) = length buf"
    using assms c by (auto simp: block_store_def copy_split_def)
  assume p: "p < length buf"
  have d: "(p + length buf - i) mod length buf = (if p < i then p + length buf - i else p - i)"
    using p assms(1) by (auto simp: mod_if)
  show "block_store i xs buf ! p =
       (let d = (p + length buf - i) mod length buf in if d < length xs then xs ! d else buf ! p)"
    using assms p c by (auto simp: block_store_def copy_split_def Let_def d add.commute)
qed

lemma int_mod_distance:
  assumes "b \<le> (n :: nat)"
  shows "int ((a + n - b) mod n) = (int a - int b) mod int n"
proof -
  have "int ((a + n - b) mod n) = (int a - int b + int n) mod int n"
    using assms by (simp add: zmod_int of_nat_diff algebra_simps)
  then show ?thesis by (simp only: mod_add_self2)
qed

lemma ring_distance:
  assumes "j \<le> (n :: nat)" "0 < n"
  shows "((r + k) mod n + n - (r + j) mod n) mod n = (k + n - j) mod n"
proof -
  have "(r + j) mod n \<le> n" using assms(2) by (simp add: less_imp_le)
  from int_mod_distance [OF this, of "(r + k) mod n"]
  have "int (((r + k) mod n + n - (r + j) mod n) mod n) = (int (r + k) mod int n - int (r + j) mod int n) mod int n"
    unfolding zmod_int [of "r + k" n] zmod_int [of "r + j" n] .
  also have "\<dots> = int ((k + n - j) mod n)" using assms(1) by (simp add: int_mod_distance mod_diff_eq)
  finally show ?thesis by simp
qed

lemma ring_read_block:
  assumes "c + length xs \<le> length buf" "0 < length buf"
  shows "ring_read (block_store ((r + c) mod length buf) xs buf) r (c + length xs) = ring_read buf r c @ xs"
proof (rule nth_equalityI)
  let ?n = "length buf" let ?i = "(r + c) mod ?n"
  have i: "?i < ?n" using assms(2) by simp
  note B = block_store_nth [OF i, of xs]
  have l: "length (block_store ?i xs buf) = ?n" using B(1) assms by simp
  fix k assume "k < length (ring_read (block_store ?i xs buf) r (c + length xs))"
  then have k: "k < c + length xs" by simp
  have "((r + k) mod ?n + ?n - ?i) mod ?n = (k + ?n - c) mod ?n" using assms by (intro ring_distance) auto
  also have "\<dots> = (if c \<le> k then k - c else k + ?n - c)" using k assms by (auto simp: mod_if)
  finally have d: "((r + k) mod ?n + ?n - ?i) mod ?n = (if c \<le> k then k - c else k + ?n - c)" .
  have "block_store ?i xs buf ! ((r + k) mod ?n) = (if c \<le> k then xs ! (k - c) else buf ! ((r + k) mod ?n))"
    using B(2) [of "(r + k) mod ?n"] assms k by (auto simp: Let_def d)
  then show "ring_read (block_store ?i xs buf) r (c + length xs) ! k = (ring_read buf r c @ xs) ! k"
    using k l by (simp add: ring_read_def nth_append)
qed simp

text \<open>The two ways in which a block moves an index forward.\<close>

definition moved :: "15 word \<Rightarrow> 1 word \<Rightarrow> nat \<Rightarrow> nat \<Rightarrow> 15 word \<times> 1 word" where
  "moved i m n k = (if k < n - unat i then (i + word_of_nat k, m) else (word_of_nat (k - (n - unat i)), NOT m))"

lemma moved_unat:
  assumes "unat i < n" "n < 32768" "k \<le> n"
  shows "unat (fst (moved i m n k)) = (if k < n - unat i then unat i + k else unat i + k - n)"
    "snd (moved i m n k) = (if k < n - unat i then m else NOT m)"
proof -
  have "unat (word_of_nat (k - (n - unat i)) :: 15 word) = k - (n - unat i)"
    unfolding unat_of_nat using assms by simp
  moreover have "unat (i + word_of_nat k) = unat i + k" if "k < n - unat i"
    using assms that by (simp add: unat_word_ariths unat_of_nat)
  ultimately show "unat (fst (moved i m n k)) = (if k < n - unat i then unat i + k else unat i + k - n)"
    using assms(1) unfolding moved_def by (simp add: add.commute del: of_nat_diff)
qed (simp add: moved_def)

lemma advance_write:
  assumes wf: "rb_wf rb" and k: "rb_count rb + k \<le> rb_cap rb" and b: "length b = rb_cap rb"
    and m: "moved (write_index rb) (write_mirror rb) (rb_cap rb) k = (i', m')"
  defines "rb' \<equiv> rb\<lparr>buffer_ptr := b, write_index := i', write_mirror := m'\<rparr>"
  shows "rb_wf rb'" "rb_count rb' = rb_count rb + k" "rb_cap rb' = rb_cap rb"
proof -
  note D = rb_wfD [OF wf]
  have kn: "k \<le> rb_cap rb" using k by simp
  note M = moved_unat [OF D(6,2) kn, of "write_mirror rb", unfolded m fst_conv snd_conv]
  show c: "rb_cap rb' = rb_cap rb" by (simp add: rb'_def rb_cap_def)
  show "rb_count rb' = rb_count rb + k"
    unfolding rb_count_def c using D(5-8) k M
    by (cases "read_mirror rb = write_mirror rb") (auto simp: rb'_def rb_count_def mirror_flip split: if_splits)
  show "rb_wf rb'"
  proof (rule rb_wfI [where n = "rb_cap rb"])
    show "read_mirror rb' = write_mirror rb' \<Longrightarrow> unat (read_index rb') \<le> unat (write_index rb')"
      using D(5-8) k M
      by (cases "read_mirror rb = write_mirror rb") (auto simp: rb'_def rb_count_def mirror_flip split: if_splits)
    show "read_mirror rb' \<noteq> write_mirror rb' \<Longrightarrow> unat (write_index rb') \<le> unat (read_index rb')"
      using D(5-8) k M
      by (cases "read_mirror rb = write_mirror rb") (auto simp: rb'_def rb_count_def mirror_flip split: if_splits)
  qed (use D(1-6) M b kn in \<open>auto simp: rb'_def\<close>)
qed

lemma advance_read:
  assumes wf: "rb_wf rb" and k: "k \<le> rb_count rb"
    and m: "moved (read_index rb) (read_mirror rb) (rb_cap rb) k = (i', m')"
  defines "rb' \<equiv> rb\<lparr>read_index := i', read_mirror := m'\<rparr>"
  shows "rb_wf rb'" "rb_count rb' = rb_count rb - k" "rb_cap rb' = rb_cap rb"
    "unat (read_index rb') = (unat (read_index rb) + k) mod rb_cap rb"
proof -
  note D = rb_wfD [OF wf]
  have kn: "k \<le> rb_cap rb" using k D(9) by simp
  note M = moved_unat [OF D(5,2) kn, of "read_mirror rb", unfolded m fst_conv snd_conv]
  show c: "rb_cap rb' = rb_cap rb" by (simp add: rb'_def rb_cap_def)
  show "rb_count rb' = rb_count rb - k"
    unfolding rb_count_def c using D(5-8) k M
    by (cases "read_mirror rb = write_mirror rb") (auto simp: rb'_def rb_count_def mirror_flip split: if_splits)
  show "rb_wf rb'"
  proof (rule rb_wfI [where n = "rb_cap rb"])
    show "read_mirror rb' = write_mirror rb' \<Longrightarrow> unat (read_index rb') \<le> unat (write_index rb')"
      using D(5-8) k M
      by (cases "read_mirror rb = write_mirror rb") (auto simp: rb'_def rb_count_def mirror_flip split: if_splits)
    show "read_mirror rb' \<noteq> write_mirror rb' \<Longrightarrow> unat (write_index rb') \<le> unat (read_index rb')"
      using D(5-8) k M
      by (cases "read_mirror rb = write_mirror rb") (auto simp: rb'_def rb_count_def mirror_flip split: if_splits)
  qed (use D(1-6) M kn in \<open>auto simp: rb'_def\<close>)
  show "unat (read_index rb') = (unat (read_index rb) + k) mod rb_cap rb"
    using M D(5) kn by (auto simp: rb'_def mod_if)
qed

lemma room_less:
  "bsize rb = int n \<Longrightarrow> uint (len :: rt_uint16) < bsize rb - uint (i :: 15 word) \<longleftrightarrow> unat len < n - unat i"
  "bsize rb = int n \<Longrightarrow> nat (bsize rb - uint i) = n - unat i"
  "bsize rb = int n \<Longrightarrow> \<not> unat len < n - unat i \<Longrightarrow> unat i \<le> n \<Longrightarrow>
     (word_of_int (uint len - (bsize rb - uint i)) :: 15 word) = word_of_nat (unat len - (n - unat i))"
proof -
  assume n: "bsize rb = int n"
  have u: "uint i = int (unat i)" "uint len = int (unat len)" by simp_all
  show "uint len < bsize rb - uint i \<longleftrightarrow> unat len < n - unat i" "nat (bsize rb - uint i) = n - unat i"
    using n u by linarith+
  assume "\<not> unat len < n - unat i" "unat i \<le> n"
  then have "uint len - (bsize rb - uint i) = int (unat len - (n - unat i))" using n u by linarith
  then show "(word_of_int (uint len - (bsize rb - uint i)) :: 15 word) = word_of_nat (unat len - (n - unat i))"
    by (simp only: of_int_of_nat_eq)
qed

text \<open>A put with the length cut to the space stores its block and moves the write index.\<close>

lemma put_moves:
  assumes wf: "rb_wf rb" and p: "unat len \<le> length ptr" and k: "k = min (unat len) (rb_cap rb - rb_count rb)" "0 < rb_cap rb - rb_count rb"
  shows "rt_ringbuffer_put ptr len rb = (word_of_nat k,
     let (i', m') = moved (write_index rb) (write_mirror rb) (rb_cap rb) k in
       rb\<lparr>buffer_ptr := block_store (unat (write_index rb)) (take k ptr) (buffer_ptr rb), write_index := i', write_mirror := m'\<rparr>)"
proof -
  note D = rb_wfD [OF wf]
  define sz where "sz = (ucast (rt_ringbuffer_space_len rb) :: rt_uint16)"
  define l where "l = (if sz < len then sz else len)"
  have s: "unat sz = rb_cap rb - rb_count rb"
    using rb_lens(2) [OF wf] D(2) by (simp add: sz_def unsigned_ucast_eq take_bit_nat_eq_self)
  have l: "unat l = k" using k(1) s by (auto simp: l_def word_less_nat_alt)
  have "sz \<noteq> 0" using s k(2) by auto
  moreover have "ucast l = (word_of_nat k :: rt_uint32)" "ucast l = (word_of_nat k :: 15 word)" by (simp_all flip: l)
  moreover have "length (take k ptr) = k" using p k(1) by simp
  ultimately show ?thesis
    unfolding rt_ringbuffer_put_def Let_def sz_def [symmetric] l_def [symmetric]
    using room_less(1,3) [OF D(4), of l "write_index rb"] room_less(2) [OF D(4), of "write_index rb"] l D(3,6)
    by (auto simp: moved_def block_store_def)
qed

lemma ringbuffer_put_ok:
  assumes wf: "rb_wf rb" and p: "unat len \<le> length ptr"
  defines "k \<equiv> min (unat len) (rb_cap rb - rb_count rb)"
  shows "\<exists>rb'. rt_ringbuffer_put ptr len rb = (word_of_nat k, rb') \<and> rb_wf rb' \<and>
     rb_content rb' = rb_content rb @ take k ptr \<and> rb_cap rb' = rb_cap rb"
proof (cases "rb_cap rb - rb_count rb = 0")
  case True
  then have "rt_ringbuffer_space_len rb = 0" using rb_lens(2) [OF wf] by (simp add: unat_eq_zero)
  then show ?thesis using wf True by (simp add: rt_ringbuffer_put_def k_def)
next
  case False
  note D = rb_wfD [OF wf]
  obtain i' m' where m: "moved (write_index rb) (write_mirror rb) (rb_cap rb) k = (i', m')" by force
  let ?b = "block_store (unat (write_index rb)) (take k ptr) (buffer_ptr rb)"
  have kk: "length (take k ptr) = k" "rb_count rb + k \<le> rb_cap rb" using p D(9) by (simp_all add: k_def)
  have b: "length ?b = rb_cap rb" using block_store_nth(1) [of "unat (write_index rb)" "buffer_ptr rb" "take k ptr"] D(3,6) kk by simp
  note A = advance_write [OF wf kk(2) b m]
  have r: "rt_ringbuffer_put ptr len rb = (word_of_nat k, rb\<lparr>buffer_ptr := ?b, write_index := i', write_mirror := m'\<rparr>)"
    using put_moves [OF wf p] False m by (simp add: k_def)
  have "ring_read ?b (unat (read_index rb)) (rb_count rb + k) = rb_content rb @ take k ptr"
    using ring_read_block [of "rb_count rb" "take k ptr" "buffer_ptr rb" "unat (read_index rb)"] D(1,3,10) kk
    by (simp add: rb_content_def)
  then show ?thesis using A(1,2,3) by (simp add: r rb_content_def)
qed

text \<open>Putting a block into a well-formed ring buffer stores as many of its bytes, in order and
  after the old content, as fit, returns that number, and keeps the buffer well-formed, also when the
  block wraps round the end of the array.\<close>

theorem rt_ringbuffer_put_appends:
  assumes wf: "rb_wf rb" and p: "unat len \<le> length ptr"
  defines "k \<equiv> min (unat len) (rb_cap rb - rb_count rb)"
  shows "fst (rt_ringbuffer_put ptr len rb) = word_of_nat k \<and> rb_wf (snd (rt_ringbuffer_put ptr len rb)) \<and>
     rb_content (snd (rt_ringbuffer_put ptr len rb)) = rb_content rb @ take k ptr"
  unfolding k_def using ringbuffer_put_ok [OF wf p] by auto

text \<open>Reading a block.\<close>

lemma take_ring_read: "k \<le> c \<Longrightarrow> take k (ring_read buf r c) = ring_read buf r k"
  by (simp add: ring_read_def take_map)

lemma drop_ring_read: "drop j (ring_read buf r c) = ring_read buf ((r + j) mod length buf) (c - j)"
proof (rule nth_equalityI)
  fix i assume "i < length (drop j (ring_read buf r c))"
  then have i: "j + i < c" by simp
  have "(r + (j + i)) mod length buf = ((r + j) mod length buf + i) mod length buf"
    by (simp add: mod_add_left_eq add.assoc)
  then show "drop j (ring_read buf r c) ! i = ring_read buf ((r + j) mod length buf) (c - j) ! i"
    using i by (simp add: ring_read_def less_diff_conv add.commute)
qed simp

lemma ring_read_split:
  assumes "r < length buf" "k \<le> length buf"
  shows "ring_read buf r k = (if k < length buf - r then take k (drop r buf)
     else take (length buf - r) (drop r buf) @ take (k - (length buf - r)) buf)"
proof (rule nth_equalityI)
  fix i assume "i < length (ring_read buf r k)"
  then have i: "i < k" by simp
  have "(r + i) mod length buf = (if r + i < length buf then r + i else r + i - length buf)"
    using assms i by (auto simp: mod_if)
  then show "ring_read buf r k ! i = (if k < length buf - r then take k (drop r buf)
     else take (length buf - r) (drop r buf) @ take (k - (length buf - r)) buf) ! i"
    using assms i by (auto simp: ring_read_def nth_append add.commute)
qed (use assms in auto)

text \<open>Getting a block from a well-formed ring buffer returns its oldest bytes, as many as were
  asked for or are there, and leaves the rest of the content in order; with putting, the ring buffer
  is a first-in-first-out queue of bytes.\<close>

theorem rt_ringbuffer_get_takes:
  fixes len :: rt_uint16
  assumes wf: "rb_wf rb"
  defines "k \<equiv> min (unat len) (rb_count rb)"
  shows "\<exists>rb'. rt_ringbuffer_get len rb = (word_of_nat k, take k (rb_content rb), rb') \<and> rb_wf rb' \<and>
     rb_content rb' = drop k (rb_content rb) \<and> rb_cap rb' = rb_cap rb"
proof (cases "rb_count rb = 0")
  case True
  then have "rt_ringbuffer_data_len rb = 0" using data_zero_iff [OF wf] by simp
  then show ?thesis using wf True by (simp add: rt_ringbuffer_get_def k_def rb_content_def)
next
  case False
  note D = rb_wfD [OF wf]
  define l where "l = (if rt_ringbuffer_data_len rb < ucast len then ucast (rt_ringbuffer_data_len rb) else len)"
  have l: "unat l = k"
  proof -
    have "unat len < 2 ^ 16" using unsigned_less [of len, where 'a = nat] by simp
    then have "unat len < 2 ^ 32" by (rule less_trans) simp
    then have "take_bit 32 (unat len) = unat len" by (rule take_bit_nat_eq_self)
    then show ?thesis using rb_lens(1) [OF wf] D(2,9)
      by (auto simp: l_def k_def word_less_nat_alt unsigned_ucast_eq take_bit_nat_eq_self)
  qed
  obtain i' m' where m: "moved (read_index rb) (read_mirror rb) (rb_cap rb) k = (i', m')" by force
  have kc: "k \<le> rb_count rb" by (simp add: k_def)
  note A = advance_read [OF wf kc m]
  let ?rb = "rb\<lparr>read_index := i', read_mirror := m'\<rparr>"
  have z: "rt_ringbuffer_data_len rb \<noteq> 0" using data_zero_iff [OF wf] False by simp
  have u: "ucast l = (word_of_nat k :: rt_uint32)" "ucast l = (word_of_nat k :: 15 word)" by (simp_all flip: l)
  have t: "take k (rb_content rb) = ring_read (buffer_ptr rb) (unat (read_index rb)) k"
    unfolding rb_content_def by (rule take_ring_read [OF kc])
  have "k \<le> rb_cap rb" using kc D(9) by simp
  then have "rt_ringbuffer_get len rb = (word_of_nat k, take k (rb_content rb), ?rb)"
    unfolding rt_ringbuffer_get_def Let_def l_def [symmetric] t
    using room_less(1,3) [OF D(4), of l "read_index rb"] room_less(2) [OF D(4), of "read_index rb"] l D(3,5) m u z
    by (auto simp: moved_def ring_read_split split: if_splits)
  moreover have "rb_content ?rb = drop k (rb_content rb)"
    using A(2,4) D(3) by (simp add: rb_content_def drop_ring_read)
  ultimately show ?thesis using A(1,3) by blast
qed

text \<open>A forced block stores the last \<^verbatim>\<open>buffer_size\<close> bytes at most, and moves the write index
as a plain put does.\<close>

lemma bsize_unat: "0 \<le> bsize rb \<Longrightarrow> unat (buffer_size rb) = nat (bsize rb)"
proof -
  assume "0 \<le> bsize rb"
  moreover have "uint (buffer_size rb) = bsize rb mod 2 ^ 16"
    using uint_word_of_int [of "bsize rb", where 'a = 16] by simp
  ultimately have "uint (buffer_size rb) = bsize rb" using bsize_bounds [of rb] by simp
  then show ?thesis by (simp flip: nat_uint_eq)
qed

lemma put_force_moves:
  assumes wf: "rb_wf rb" and p: "unat len \<le> length ptr"
    and k: "k = min (unat len) (rb_cap rb)" and xs: "xs = drop (unat len - k) (take (unat len) ptr)"
    and m: "moved (write_index rb) (write_mirror rb) (rb_cap rb) k = (i', m')"
  shows "rt_ringbuffer_put_force ptr len rb = (word_of_nat k,
     let rb1 = rb\<lparr>buffer_ptr := block_store (unat (write_index rb)) xs (buffer_ptr rb), write_index := i', write_mirror := m'\<rparr>
     in if k \<le> rb_cap rb - rb_count rb then rb1
        else rb1\<lparr>read_index := i', read_mirror := (if k < rb_cap rb - unat (write_index rb) then read_mirror rb
          else NOT (read_mirror rb))\<rparr>)"
proof -
  note D = rb_wfD [OF wf]
  define l where "l = (if bsize rb < uint len then buffer_size rb else len)"
  define q where "q = (if bsize rb < uint len then drop (nat (uint len - bsize rb)) ptr else ptr)"
  have b: "bsize rb < uint len \<longleftrightarrow> rb_cap rb < unat len" 
  proof -
    have "uint len = int (unat len)" by simp
    then show ?thesis using D(4) by linarith
  qed
  have "unat (buffer_size rb) = rb_cap rb" using bsize_unat [of rb] D(1,4) by simp
  then have l: "unat l = k" using b k by (auto simp: l_def)
  have x: "xs = take k q" and lx: "length xs = k" using b k xs p D(4) by (auto simp: q_def drop_take nat_diff_distrib)
  have s: "(ucast (rt_ringbuffer_space_len rb) :: rt_uint16) < l \<longleftrightarrow> \<not> k \<le> rb_cap rb - rb_count rb"
    using rb_lens(2) [OF wf] D(2) l by (simp add: word_less_nat_alt unsigned_ucast_eq take_bit_nat_eq_self not_le)
  have u: "ucast l = (word_of_nat k :: rt_uint32)" "ucast l = (word_of_nat k :: 15 word)" by (simp_all flip: l)
  have w: "unat (write_index rb) \<le> rb_cap rb" using D(6) by simp
  note R = room_less(1,3) [OF D(4), of l "write_index rb"] room_less(2) [OF D(4), of "write_index rb"]
  show ?thesis
  proof (cases "k < rb_cap rb - unat (write_index rb)")
    case True
    then have "block_store (unat (write_index rb)) xs (buffer_ptr rb) = copy_in (unat (write_index rb)) xs (buffer_ptr rb)"
      and "write_index rb + word_of_nat k = i'" "write_mirror rb = m'"
      using m lx D(3) by (simp_all add: block_store_def moved_def)
    then show ?thesis using True R(1) l
      unfolding rt_ringbuffer_put_force_def Let_def l_def [symmetric] q_def [symmetric] s by (simp add: u x)
  next
    case False
    then have "block_store (unat (write_index rb)) xs (buffer_ptr rb) =
        copy_split (unat (write_index rb)) (rb_cap rb - unat (write_index rb)) xs (buffer_ptr rb)"
      and "word_of_int (uint l - (bsize rb - uint (write_index rb))) = i'" "NOT (write_mirror rb) = m'"
      using m lx D(3) R(2) l w by (simp_all add: block_store_def moved_def)
    then show ?thesis using False R(1,3) l
      unfolding rt_ringbuffer_put_force_def Let_def l_def [symmetric] q_def [symmetric] s by (simp add: u x)
  qed
qed

lemma ring_read_full:
  assumes "w < length buf" "length xs \<le> length buf"
  shows "ring_read (block_store w xs buf) ((w + length xs) mod length buf) (length buf) =
     ring_read buf ((w + length xs) mod length buf) (length buf - length xs) @ xs"
proof -
  let ?n = "length buf" and ?k = "length xs"
  have "((w + ?k) mod ?n + (?n - ?k)) mod ?n = (w + ?k + (?n - ?k)) mod ?n" by (rule mod_add_left_eq)
  also have "w + ?k + (?n - ?k) = w + ?n" using assms by simp
  finally have "((w + ?k) mod ?n + (?n - ?k)) mod ?n = w" using assms by simp
  then show ?thesis
    using ring_read_block [of "?n - ?k" xs buf "(w + ?k) mod ?n"] assms by (cases buf) simp_all
qed

text \<open>C40: A forced put stores the newest bytes of the block, at most the size of the buffer.  When
  they fit, they follow the old content.  When they do not and the two mirror bits differ, the buffer
  ends full with the newest bytes of the old content and the block.  When they do not and the mirror
  bits are equal, both bits are flipped and the indices become equal: the buffer then reads as empty
  and all content is lost.\<close>

theorem rt_ringbuffer_put_force_keeps_newest:
  assumes wf: "rb_wf rb" and p: "unat len \<le> length ptr"
  defines "k \<equiv> min (unat len) (rb_cap rb)" and "rb' \<equiv> snd (rt_ringbuffer_put_force ptr len rb)"
  shows "fst (rt_ringbuffer_put_force ptr len rb) = word_of_nat k \<and> rb_wf rb' \<and> rb_cap rb' = rb_cap rb \<and>
     rb_content rb' =
       (if rb_count rb + k \<le> rb_cap rb then rb_content rb @ drop (unat len - k) (take (unat len) ptr)
        else if read_mirror rb \<noteq> write_mirror rb
        then drop (rb_count rb + k - rb_cap rb) (rb_content rb @ drop (unat len - k) (take (unat len) ptr))
        else [])"
proof -
  note D = rb_wfD [OF wf]
  let ?n = "rb_cap rb" and ?w = "unat (write_index rb)"
  define xs where "xs = drop (unat len - k) (take (unat len) ptr)"
  have lx: "length xs = k" "k \<le> ?n" using p by (auto simp: xs_def k_def)
  obtain i' m' where m: "moved (write_index rb) (write_mirror rb) ?n k = (i', m')" by force
  note M = moved_unat [OF D(6,2) lx(2), of "write_mirror rb", unfolded m fst_conv snd_conv]
  let ?b = "block_store ?w xs (buffer_ptr rb)"
  have b: "length ?b = ?n" using block_store_nth(1) [of ?w "buffer_ptr rb" xs] D(3,6) lx by simp
  let ?rb = "rb\<lparr>buffer_ptr := ?b, write_index := i', write_mirror := m'\<rparr>"
  note P = put_force_moves [OF wf p k_def [THEN meta_eq_to_obj_eq] xs_def m]
  have i: "unat i' = (?w + k) mod ?n" using M(1) D(6) lx(2) by (auto simp: mod_if)
  show ?thesis
  proof (cases "rb_count rb + k \<le> ?n")
    case True
    note A = advance_write [OF wf True b m]
    have "ring_read ?b (unat (read_index rb)) (rb_count rb + k) = rb_content rb @ xs"
      using ring_read_block [of "rb_count rb" xs "buffer_ptr rb" "unat (read_index rb)"] D(1,3,10) lx True
      by (simp add: rb_content_def)
    moreover have "rb' = ?rb" using P True D(9) by (simp add: rb'_def Let_def)
    ultimately show ?thesis using A True P by (simp add: rb_content_def xs_def)
  next
    case over: False
    define rm where "rm = (if k < ?n - ?w then read_mirror rb else NOT (read_mirror rb))"
    have r': "rb' = ?rb\<lparr>read_index := i', read_mirror := rm\<rparr>" using P over D(9) by (simp add: rb'_def rm_def Let_def)
    have c: "rb_cap rb' = ?n" by (simp add: r' rb_cap_def)
    have rm: "rm = m' \<longleftrightarrow> read_mirror rb = write_mirror rb" using M(2) by (auto simp: rm_def mirror_flip)
    have "unat i' < ?n" using i D(1) by simp
    then have wf': "rb_wf rb'" using D(1,4) b by (intro rb_wfI [where n = ?n]) (simp_all add: r')
    have cnt: "rb_count rb' = (if read_mirror rb = write_mirror rb then 0 else ?n)"
      using rm c by (simp add: rb_count_def r')
    have "rb_content rb' = drop (rb_count rb + k - ?n) (rb_content rb @ xs)" if d: "read_mirror rb \<noteq> write_mirror rb"
    proof -
      have "(?w + k) mod ?n = (unat (read_index rb) + (rb_count rb + k - ?n)) mod ?n"
      proof -
        have "(?w + k) mod ?n = (unat (read_index rb) + rb_count rb + k) mod ?n" by (simp add: D(10) mod_add_left_eq)
        also have "\<dots> = (unat (read_index rb) + (rb_count rb + k - ?n) + ?n) mod ?n" using over by (simp add: add.assoc)
        finally show ?thesis by simp
      qed
      then show ?thesis
        using ring_read_full [of ?w "buffer_ptr rb" xs] D(3,6,9) lx cnt d i over
        by (simp add: r' rb_content_def drop_ring_read)
    qed
    then show ?thesis using wf' c cnt P over by (simp add: xs_def rb_content_def)
  qed
qed


text \<open>A forced single byte is always stored: a full buffer gives up its oldest byte first, any
  other buffer appends the byte to its content.\<close>

theorem rt_ringbuffer_putchar_force_drops_oldest:
  assumes wf: "rb_wf rb"
  shows "fst (rt_ringbuffer_putchar_force ch rb) = 1 \<and> rb_wf (snd (rt_ringbuffer_putchar_force ch rb)) \<and>
     rb_content (snd (rt_ringbuffer_putchar_force ch rb)) =
       (if rb_count rb = rb_cap rb then tl (rb_content rb) else rb_content rb) @ [ch]"
proof (cases "rb_count rb = rb_cap rb")
  case True
  note D = rb_wfD [OF wf]
  have full: "read_index rb = write_index rb" "read_mirror rb \<noteq> write_mirror rb"
    using True D(1,5-8) by (cases "read_mirror rb = write_mirror rb"; simp add: rb_count_def word_unat_eq_iff)+
  have ne: "rb_content rb \<noteq> []" using True D(1) by (simp flip: length_0_conv)
  note G = getchar_data [OF wf ne]
  have len: "rb_count (dropc rb) < rb_cap (dropc rb)" using arg_cong [OF G(3), of length] G(4) True by simp
  have d: "rt_ringbuffer_data_len rb \<noteq> 0" "rt_ringbuffer_space_len (dropc rb) \<noteq> 0"
    using data_zero_iff [OF wf] True D(1) space_zero_iff [OF G(2)] len by auto
  have "snd (rt_ringbuffer_putchar_force ch rb) = putc ch (dropc rb)"
    using d full by (auto simp: rt_ringbuffer_putchar_force_def rt_ringbuffer_putchar_def rt_ringbuffer_getchar_def
        rt_ringbuffer_status_def Let_def)
  then show ?thesis using putchar_room [OF G(2) len, of ch] G(3) True
    by (simp add: rt_ringbuffer_putchar_force_def Let_def)
next
  case False
  then have room: "rb_count rb < rb_cap rb" using rb_wfD(9) [OF wf] by simp
  have "rt_ringbuffer_status rb \<noteq> RT_RINGBUFFER_FULL"
    using False rb_wfD(1) [OF wf] by (auto simp: rt_ringbuffer_status_def rb_count_def split: if_splits)
  moreover have "rt_ringbuffer_space_len rb \<noteq> 0" using space_zero_iff [OF wf] room by simp
  ultimately have "rt_ringbuffer_putchar_force ch rb = rt_ringbuffer_putchar ch rb"
    by (auto simp: rt_ringbuffer_putchar_force_def rt_ringbuffer_putchar_def Let_def)
  then show ?thesis using putchar_room [OF wf room, of ch] False by simp
qed

end
