(* ===== verification/SysFrame.thy ===== *)
theory SysFrame
  imports Clock Semaphore Mutex Event Mailbox MsgQueue
begin

text \<open>
  What a kernel call leaves alone.  The relation \<open>touches K\<close> says that between two states only the
  objects of \<open>K\<close> may have changed or got new waiting threads, that threads may have left the waiting
  lists of the others, and that no live thread died; \<open>keeps_timers\<close> that the rules on timers still
  hold.  Both compose, and every primitive of the scheduler, the timers and the waiting lists
  satisfies them from any state.  With them the calls on the objects are shown to leave the
  invariants of all other objects alone.
\<close>

section \<open>The relations\<close>

definition touches :: "kobj set \<Rightarrow> kstate \<Rightarrow> kstate \<Rightarrow> bool" where
  "touches K s s' \<longleftrightarrow> k_olists s' = k_olists s \<and> (\<forall>k. waitable k \<longrightarrow> k_objs s' k = k_objs s k) \<and>
     (\<forall>i. KSem i \<notin> K \<longrightarrow> k_sems s' i = k_sems s i) \<and>
     (\<forall>i. KMutex i \<notin> K \<longrightarrow> k_mutexes s' i = k_mutexes s i) \<and>
     (\<forall>i. KEvent i \<notin> K \<longrightarrow> k_events s' i = k_events s i) \<and>
     (\<forall>i. KMailbox i \<notin> K \<longrightarrow> k_mailboxes s' i = k_mailboxes s i) \<and>
     (\<forall>i. KMq i \<notin> K \<longrightarrow> k_mqs s' i = k_mqs s i) \<and>
     (\<forall>k. k \<notin> K \<longrightarrow> set (k_tlists s' (Susp k)) \<subseteq> set (k_tlists s (Susp k))) \<and>
     (\<forall>t. live (tstat s t) \<longrightarrow> live (tstat s' t)) \<and>
     (\<forall>i t. KEvent i \<notin> K \<longrightarrow> t \<in> set (k_tlists s' (Susp (KEvent i))) \<longrightarrow> wishes s' t = wishes s t)"

lemma touchesD:
  assumes "touches K s s'"
  shows "k_olists s' = k_olists s" "waitable k \<Longrightarrow> k_objs s' k = k_objs s k"
    "KSem i \<notin> K \<Longrightarrow> k_sems s' i = k_sems s i" "KMutex i \<notin> K \<Longrightarrow> k_mutexes s' i = k_mutexes s i"
    "KEvent i \<notin> K \<Longrightarrow> k_events s' i = k_events s i" "KMailbox i \<notin> K \<Longrightarrow> k_mailboxes s' i = k_mailboxes s i"
    "KMq i \<notin> K \<Longrightarrow> k_mqs s' i = k_mqs s i"
    "k \<notin> K \<Longrightarrow> set (k_tlists s' (Susp k)) \<subseteq> set (k_tlists s (Susp k))"
    "live (tstat s t) \<Longrightarrow> live (tstat s' t)"
    "KEvent i \<notin> K \<Longrightarrow> t \<in> set (k_tlists s' (Susp (KEvent i))) \<Longrightarrow> wishes s' t = wishes s t"
  using assms unfolding touches_def by blast+

lemma touches_refl [simp]: "touches K s s"
  by (simp add: touches_def)

lemma touches_trans [trans]:
  assumes a: "touches K s1 s2" and b: "touches K s2 s3"
  shows "touches K s1 s3"
proof -
  note A = touchesD [OF a] and B = touchesD [OF b]
  have w: "wishes s3 t = wishes s1 t" if "KEvent i \<notin> K" "t \<in> set (k_tlists s3 (Susp (KEvent i)))" for i t
  proof -
    have "t \<in> set (k_tlists s2 (Susp (KEvent i)))" using B(8) [OF that(1)] that(2) by blast
    then show ?thesis using A(10) [OF that(1)] B(10) [OF that] by simp
  qed
  show ?thesis
    unfolding touches_def using A(1-9) B(1-9) w by (simp add: subset_trans [OF B(8) A(8)])
qed

lemma touches_weaken: "touches K s s' \<Longrightarrow> K \<subseteq> L \<Longrightarrow> touches L s s'"
  unfolding touches_def by blast

text \<open>A state that differs only in the fields of a step of the scheduler.\<close>

lemma touches_fields:
  assumes "k_olists s' = k_olists s" "\<And>k. waitable k \<Longrightarrow> k_objs s' k = k_objs s k" "k_sems s' = k_sems s" "k_mutexes s' = k_mutexes s"
    "k_events s' = k_events s" "k_mailboxes s' = k_mailboxes s" "k_mqs s' = k_mqs s"
    "\<And>k. k \<notin> K \<Longrightarrow> set (k_tlists s' (Susp k)) \<subseteq> set (k_tlists s (Susp k))"
    "\<And>t. live (tstat s t) \<Longrightarrow> live (tstat s' t)" "\<And>t. wishes s' t = wishes s t"
  shows "touches K s s'"
  unfolding touches_def using assms by simp

lemma touches_upd_thread:
  assumes "\<And>th. live (stat_of th) \<Longrightarrow> live (stat_of (f th))"
    "\<And>th. th_event_set (f th) = th_event_set th" "\<And>th. th_event_info (f th) = th_event_info th"
  shows "touches K s (upd_thread t f s)"
  by (rule touches_fields) (auto simp: assms upd_thread_def)

lemma live_stat [simp]:
  "live RT_THREAD_READY" "live RT_THREAD_RUNNING" "live RT_THREAD_SUSPEND"
  by (simp_all add: live_def)

lemma touches_objects:
  "touches {KSem i} s (upd_sem i f s)" "touches {KMutex i} s (upd_mutex i g s)"
  "touches {KEvent i} s (upd_event i h s)" "touches {KMailbox i} s (upd_mb i a s)" "touches {KMq i} s (upd_mq i b s)"
  by (auto simp: touches_def upd_sem_def upd_mutex_def upd_event_def upd_mb_def upd_mq_def)

lemma touches_counters [simp]:
  "touches K s (s\<lparr>k_tick := n\<rparr>)" "touches K s (s\<lparr>k_irq_nest := i\<rparr>)" "touches K s (s\<lparr>k_lock_nest := l\<rparr>)"
  by (simp_all add: touches_def)

section \<open>Timer rules\<close>

text \<open>The linked timers can be started again, and only the timer of a thread calls the kernel's
  timeout function, once.\<close>

definition timer_rules :: "kstate \<Rightarrow> bool" where
  "timer_rules s \<longleftrightarrow> periods_ok s \<and>
     (\<forall>x u. tm_func (k_timers s x) = TF_thread_timeout u \<longrightarrow> x = ThreadTimer u) \<and>
     (\<forall>u. tflag s (ThreadTimer u) AND RT_TIMER_FLAG_PERIODIC = 0)"

definition keeps_timers :: "kstate \<Rightarrow> kstate \<Rightarrow> bool" where
  "keeps_timers s s' \<longleftrightarrow> (timer_rules s \<longrightarrow> timer_rules s')"

lemma keeps_timers_refl [simp]: "keeps_timers s s"
  by (simp add: keeps_timers_def)

lemma keeps_timers_trans [trans]: "keeps_timers s1 s2 \<Longrightarrow> keeps_timers s2 s3 \<Longrightarrow> keeps_timers s1 s3"
  by (simp add: keeps_timers_def)

lemma keeps_timers_fields:
  assumes "k_timers s' = k_timers s" "\<And>t. tflag s' t AND RT_TIMER_FLAG_PERIODIC = tflag s t AND RT_TIMER_FLAG_PERIODIC"
    "set (k_tmlists s' HardTimers) \<subseteq> set (k_tmlists s HardTimers)"
  shows "keeps_timers s s'"
  using assms unfolding keeps_timers_def timer_rules_def periods_ok_def by auto

section \<open>Primitives\<close>

text \<open>Each primitive of the scheduler and the timers, from any state in which it returns.\<close>

definition step_ok :: "kobj set \<Rightarrow> kstate \<Rightarrow> kstate \<Rightarrow> bool" where
  "step_ok K s s' \<longleftrightarrow> touches K s s' \<and> keeps_timers s s'"

lemma step_ok_refl [simp]: "step_ok K s s"
  by (simp add: step_ok_def)

lemma step_ok_trans [trans]: "step_ok K s1 s2 \<Longrightarrow> step_ok K s2 s3 \<Longrightarrow> step_ok K s1 s3"
  unfolding step_ok_def using touches_trans keeps_timers_trans by blast

lemma step_ok_weaken: "step_ok {} s s' \<Longrightarrow> step_ok K s s'"
  unfolding step_ok_def using touches_weaken by blast

lemma keeps_timers_upd_thread [simp]: "keeps_timers s (upd_thread t f s)"
  by (rule keeps_timers_fields) (simp_all add: upd_thread_def)

lemma step_ok_stat: "live v \<Longrightarrow> v AND RT_THREAD_STAT_MASK = v \<Longrightarrow> step_ok K s (upd_thread t (with_stat v) s)"
  unfolding step_ok_def
  by (intro conjI touches_upd_thread keeps_timers_upd_thread)
    (simp_all add: with_stat_def stat_of_def bit.conj_disj_distrib2 and.assoc)

lemma step_ok_error [simp]: "step_ok K s (upd_thread t (\<lambda>th. th\<lparr>th_error := e\<rparr>) s)"
  unfolding step_ok_def by (intro conjI touches_upd_thread keeps_timers_upd_thread) (simp_all add: stat_of_def)

lemma step_ok_tlists:
  "(\<And>k. k \<notin> K \<Longrightarrow> set (L (Susp k)) \<subseteq> set (k_tlists s (Susp k))) \<Longrightarrow> step_ok K s (s\<lparr>k_tlists := L\<rparr>)"
  unfolding step_ok_def by (intro conjI touches_fields keeps_timers_fields) simp_all

lemma step_ok_unlink [simp]: "step_ok K s (s\<lparr>k_tlists := tbl_remove t (k_tlists s)\<rparr>)"
  by (rule step_ok_tlists) (auto simp: tbl_remove_def)

lemma step_ok_current [simp]:
  "step_ok K s (s\<lparr>k_ready_group := g\<rparr>)" "step_ok K s (s\<lparr>k_current_priority := p, k_current := c\<rparr>)"
  "step_ok K s (s\<lparr>k_tick := n\<rparr>)" "step_ok K s (s\<lparr>k_irq_nest := i\<rparr>)" "step_ok K s (s\<lparr>k_lock_nest := l\<rparr>)"
  by (simp_all add: step_ok_def touches_def keeps_timers_fields)

lemma step_ok_remove_thread:
  assumes "rt_schedule_remove_thread t s = Some s'"
  shows "step_ok K s s'"
proof -
  let ?s = "s\<lparr>k_tlists := tbl_remove t (k_tlists s)\<rparr>"
  have "step_ok K ?s s'" using assms by (auto simp: rt_schedule_remove_thread_def Let_def split: if_splits)
  with step_ok_unlink show ?thesis by (rule step_ok_trans)
qed

lemma step_ok_insert_thread:
  assumes "rt_schedule_insert_thread t s = Some s'"
  shows "step_ok K s s'"
proof (cases "k_current s = Some t")
  case True
  then show ?thesis using assms step_ok_stat [of RT_THREAD_RUNNING K s t] by (simp add: rt_schedule_insert_thread_def)
next
  case False
  let ?s1 = "upd_thread t (with_stat RT_THREAD_READY) s"
  let ?s2 = "?s1\<lparr>k_tlists := tbl_append (Ready (tprio ?s1 t)) t (k_tlists ?s1)\<rparr>"
  have "step_ok K s ?s1" by (rule step_ok_stat) simp_all
  also have "step_ok K ?s1 ?s2" by (rule step_ok_tlists) (simp add: tbl_append_def)
  also have "step_ok K ?s2 s'" using assms False by (auto simp: rt_schedule_insert_thread_def Let_def)
  finally show ?thesis .
qed

lemma step_ok_schedule_switch:
  assumes "schedule_switch from to p need s = Some s'"
  shows "step_ok K s s'"
proof -
  let ?s1 = "s\<lparr>k_current_priority := word_of_nat p, k_current := Some to\<rparr>"
  obtain s2 s3 where s2: "(if need then rt_schedule_insert_thread from ?s1 else Some ?s1) = Some s2"
    and s3: "rt_schedule_remove_thread to s2 = Some s3" and s': "s' = upd_thread to (with_stat RT_THREAD_RUNNING) s3"
    using assms by (auto simp: schedule_switch_def Let_def bind_eq_Some_conv)
  have "step_ok K s ?s1" by simp
  also have "step_ok K ?s1 s2" using s2 step_ok_insert_thread by (auto split: if_splits)
  also have "step_ok K s2 s3" by (rule step_ok_remove_thread [OF s3])
  also have "step_ok K s3 s'" unfolding s' by (rule step_ok_stat) simp_all
  finally show ?thesis .
qed

lemma step_ok_yield: "step_ok K s (upd_thread c (\<lambda>th. th\<lparr>th_stat := th_stat th AND NOT RT_THREAD_STAT_YIELD\<rparr>) s)"
  unfolding step_ok_def by (intro conjI touches_upd_thread keeps_timers_upd_thread) (simp_all add: stat_of_def and.assoc)

lemma step_ok_schedule:
  assumes r: "rt_schedule s = Some s'"
  shows "step_ok K s s'"
proof (cases "k_lock_nest s \<noteq> 0 \<or> k_ready_group s = 0")
  case True
  then show ?thesis using r by (auto simp: rt_schedule_def)
next
  case False
  obtain c t p where c: "k_current s = Some c" "get_highest_priority_thread s = Some (t, p)"
    using r False by (auto simp: rt_schedule_def bind_eq_Some_conv)
  obtain s1 to_t need where s1: "step_ok K s s1"
    and alt: "schedule_switch c to_t p need s1 = Some s' \<or>
      (\<exists>s2. rt_schedule_remove_thread c s1 = Some s2 \<and> s' = upd_thread c (with_stat RT_THREAD_RUNNING) s2)"
    using r False c step_ok_yield [of K s c]
    by (auto simp: rt_schedule_def Let_def bind_eq_Some_conv split: if_splits intro: that [of s] that)
  then have "step_ok K s1 s'"
    using step_ok_schedule_switch step_ok_trans [OF step_ok_remove_thread step_ok_stat [of RT_THREAD_RUNNING]] by auto
  with s1 show ?thesis by (rule step_ok_trans)
qed

lemma step_ok_timer_stop:
  assumes "rt_timer_stop x s = Some (e, s')"
  shows "step_ok K s s'"
proof -
  have "s' = s \<or> s' = upd_tflag x (\<lambda>f. f AND NOT RT_TIMER_FLAG_ACTIVATED) (timer_remove x s)"
    using assms by (auto simp: rt_timer_stop_def Let_def split: if_splits)
  then show ?thesis
    unfolding step_ok_def
    by (auto intro!: touches_fields keeps_timers_fields
        simp: upd_obj_def timer_remove_def tbl_remove_def rt_flag_simps)
qed

lemma step_ok_suspend:
  assumes "rt_thread_suspend t s = Some (e, s')"
  shows "step_ok K s s'"
proof (cases "s' = s")
  case False
  obtain s1 where s1: "rt_schedule_remove_thread t s = Some s1"
    and e: "\<exists>e. rt_timer_stop (ThreadTimer t) (upd_thread t (with_stat RT_THREAD_SUSPEND) s1) = Some (e, s')"
    using assms False by (auto simp: rt_thread_suspend_def Let_def bind_eq_Some_conv split: if_splits)
  have "step_ok K s s1" by (rule step_ok_remove_thread [OF s1])
  also have "step_ok K s1 (upd_thread t (with_stat RT_THREAD_SUSPEND) s1)" by (rule step_ok_stat) simp_all
  also have "step_ok K (upd_thread t (with_stat RT_THREAD_SUSPEND) s1) s'" using e step_ok_timer_stop by blast
  finally show ?thesis .
qed simp

lemma step_ok_resume:
  assumes "rt_thread_resume t s = Some (e, s')"
  shows "step_ok K s s'"
proof (cases "s' = s")
  case False
  let ?s1 = "s\<lparr>k_tlists := tbl_remove t (k_tlists s)\<rparr>"
  obtain e2 s2 where s2: "rt_timer_stop (ThreadTimer t) ?s1 = Some (e2, s2)" "rt_schedule_insert_thread t s2 = Some s'"
    using assms False by (auto simp: rt_thread_resume_def Let_def bind_eq_Some_conv split: if_splits)
  have "step_ok K s ?s1" by simp
  also have "step_ok K ?s1 s2" by (rule step_ok_timer_stop [OF s2(1)])
  also have "step_ok K s2 s'" by (rule step_ok_insert_thread [OF s2(2)])
  finally show ?thesis .
qed simp

section \<open>Timers and waiting\<close>

text \<open>Starting a hard timer; the timer of a thread stays a one-shot timer.\<close>

lemma timer_start_hard:
  assumes r: "rt_timer_start x s = Some (e, s')" and hard: "tflag s x AND RT_TIMER_FLAG_SOFT_TIMER = 0"
  shows "s' = timer_start_link x s" "tm_init_tick (k_timers s x) < RT_TICK_HALF"
proof -
  have "tflag (timer_start_link x s) x AND RT_TIMER_FLAG_SOFT_TIMER = 0"
    using hard by (simp add: timer_start_link_fields(3) rt_flag_simps)
  then show "s' = timer_start_link x s" "tm_init_tick (k_timers s x) < RT_TICK_HALF"
    using r by (auto simp: rt_timer_start_unfold Let_def split: if_splits)
qed

lemma touches_timer_start_link: "touches K s (timer_start_link x s)"
proof -
  note F = timer_frame_fields [OF timer_start_link_frame(1) [of s x]]
  have "k_objs (timer_start_link x s) k = k_objs s k" if "waitable k" for k
    using that timer_start_link_frame(1) [of s x] unfolding timer_frame_def by (cases k) auto
  then show ?thesis by (intro touches_fields) (simp_all add: F)
qed

lemma keeps_start_thread_timer:
  assumes r: "rt_timer_start (ThreadTimer t) s = Some (e, s')" and hard: "tflag s (ThreadTimer t) AND RT_TIMER_FLAG_SOFT_TIMER = 0"
  shows "keeps_timers s s'"
proof -
  note T = timer_start_hard [OF r hard]
  note F = timer_start_link_fields
  have per: "tflag s' u AND RT_TIMER_FLAG_PERIODIC = tflag s u AND RT_TIMER_FLAG_PERIODIC" for u
    by (simp add: T(1) F(3) rt_flag_simps)
  have tick: "tm_func (k_timers s' u) = tm_func (k_timers s u)" "tm_init_tick (k_timers s' u) = tm_init_tick (k_timers s u)" for u
    by (simp_all add: T(1) F(2))
  have l: "set (k_tmlists s' HardTimers) \<subseteq> insert (ThreadTimer t) (set (k_tmlists s HardTimers))"
    using F(4) hard by (auto simp: T(1))
  show ?thesis
    unfolding keeps_timers_def timer_rules_def periods_ok_def per tick using l T(2) by auto
qed

lemma step_ok_start_thread_timer:
  assumes r: "start_thread_timer t n s = Some s'" and hard: "tflag s (ThreadTimer t) AND RT_TIMER_FLAG_SOFT_TIMER = 0"
    and out: "ThreadTimer t \<notin> set (k_tmlists s HardTimers)"
  shows "step_ok K s s'"
proof -
  let ?s1 = "upd_timer (ThreadTimer t) (\<lambda>tm. tm\<lparr>tm_init_tick := n\<rparr>) s"
  obtain e where e: "rt_timer_start (ThreadTimer t) ?s1 = Some (e, s')"
    using r by (auto simp: start_thread_timer_def rt_timer_control_def bind_eq_Some_conv)
  have h: "tflag ?s1 (ThreadTimer t) AND RT_TIMER_FLAG_SOFT_TIMER = 0" using hard by (simp add: upd_timer_def)
  have "keeps_timers s ?s1"
    using out unfolding keeps_timers_def timer_rules_def periods_ok_def by (auto simp: upd_timer_def)
  moreover have "touches K s ?s1" by (rule touches_fields) (simp_all add: upd_timer_def)
  moreover have "touches K ?s1 s'" using touches_timer_start_link timer_start_hard(1) [OF e h] by simp
  ultimately show ?thesis
    unfolding step_ok_def using keeps_start_thread_timer [OF e h] touches_trans keeps_timers_trans by blast
qed

text \<open>A suspended thread's timer is a hard timer and not linked yet.\<close>

lemma suspend_timer:
  assumes ok: "kernel_ok s" and st: "runnable (tstat s t)" and r: "rt_thread_suspend t s = Some (e, s1)"
  shows "tflag s1 (ThreadTimer t) AND RT_TIMER_FLAG_SOFT_TIMER = 0" "ThreadTimer t \<notin> set (k_tmlists s1 HardTimers)"
proof -
  note K = kernel_okD [OF ok]
  have lt: "listed (KTimer (ThreadTimer t)) s"
    using timer_listed_if_live [OF K(1), of t] st by (auto simp: runnable_def)
  then have h: "tflag s (ThreadTimer t) AND RT_TIMER_FLAG_SOFT_TIMER = 0" using K(2) by (simp add: ttimers_ok_def)
  have un: "ThreadTimer t \<notin> set (k_tmlists s HardTimers)"
    using timers_invD(6) [OF kinvD(2) [OF K(1)]] st by (auto simp: runnable_def)
  have F: "core_frame s s1" by (rule thread_suspend_frame(1) [OF r])
  then show "tflag s1 (ThreadTimer t) AND RT_TIMER_FLAG_SOFT_TIMER = 0"
    using h by (simp add: core_frame_def ttimer_same_def)
  obtain s2 e2 where s2: "rt_schedule_remove_thread t s = Some s2"
    "rt_timer_stop (ThreadTimer t) (upd_thread t (with_stat RT_THREAD_SUSPEND) s2) = Some (e2, s1)"
    using r st by (auto simp: rt_thread_suspend_def Let_def bind_eq_Some_conv runnable_def split: if_splits)
  have "k_tmlists s2 = k_tmlists s" using s2(1) by (auto simp: rt_schedule_remove_thread_def Let_def split: if_splits)
  then show "ThreadTimer t \<notin> set (k_tmlists s1 HardTimers)"
    using s2(2) un by (auto simp: rt_timer_stop_def Let_def timer_remove_def tbl_remove_def split: if_splits)
qed

lemma step_ok_wait_on:
  assumes ok: "kernel_ok s" and st: "runnable (tstat s t)" and h: "h = Susp k \<or> h = SuspSender k"
    and r: "wait_on h t flag time s = Some s'"
  shows "step_ok {k} s s'"
proof -
  obtain e s1 s3 where s1: "rt_thread_suspend t s = Some (e, s1)"
    and s3: "(if 0 < time then start_thread_timer t (word_of_int time) (s1\<lparr>k_tlists := (k_tlists s1)(h := wait_insert s1 flag t (k_tlists s1 h))\<rparr>)
       else Some (s1\<lparr>k_tlists := (k_tlists s1)(h := wait_insert s1 flag t (k_tlists s1 h))\<rparr>)) = Some s3"
    and s': "rt_schedule s3 = Some s'"
    using r by (auto simp: wait_on_def wait_finish_def rt_ipc_list_suspend_def Let_def bind_eq_Some_conv)
  let ?s2 = "s1\<lparr>k_tlists := (k_tlists s1)(h := wait_insert s1 flag t (k_tlists s1 h))\<rparr>"
  note T = suspend_timer [OF ok st s1]
  have "step_ok {k} s s1" by (rule step_ok_suspend [OF s1])
  also have "step_ok {k} s1 ?s2" by (rule step_ok_tlists) (use h in auto)
  also have "step_ok {k} ?s2 s3" using s3 T step_ok_start_thread_timer [of t _ ?s2 s3] by (auto split: if_splits)
  also have "step_ok {k} s3 s'" by (rule step_ok_schedule [OF s'])
  finally show ?thesis .
qed

lemma step_ok_sleep:
  assumes ok: "kernel_ok s" and t: "running_in t s" and r: "rt_thread_sleep n s = Some (out, s')"
  shows "step_ok {} s s'"
proof -
  obtain e s1 s2 where s1: "rt_thread_suspend t s = Some (e, s1)" and s2: "start_thread_timer t n s1 = Some s2"
    and s': "rt_schedule s2 = Some s'"
    using r t by (auto simp: rt_thread_sleep_def rt_thread_self_def running_in_def Let_def bind_eq_Some_conv)
  have st: "runnable (tstat s t)" using t by (simp add: running_in_def runnable_def)
  note T = suspend_timer [OF ok st s1]
  have "step_ok {} s s1" by (rule step_ok_suspend [OF s1])
  also have "step_ok {} s1 s2" by (rule step_ok_start_thread_timer [OF s2 T])
  also have "step_ok {} s2 s'" by (rule step_ok_schedule [OF s'])
  finally show ?thesis .
qed

lemma step_ok_list_resume:
  "rt_ipc_list_resume h s = Some s' \<Longrightarrow> step_ok K s s'"
  using step_ok_resume by (auto simp: rt_ipc_list_resume_def bind_eq_Some_conv split: list.splits)

lemma step_ok_wake_first:
  assumes "wake_first h s = Some s'"
  shows "step_ok K s s'"
proof (cases "k_tlists s h = []")
  case False
  then obtain s1 where "rt_ipc_list_resume h s = Some s1" "rt_schedule s1 = Some s'"
    using assms by (auto simp: wake_first_def bind_eq_Some_conv)
  then show ?thesis using step_ok_trans [OF step_ok_list_resume step_ok_schedule] by blast
qed (use assms in \<open>simp add: wake_first_def\<close>)

lemma step_ok_change_priority:
  assumes "rt_thread_control t (THREAD_CHANGE_PRIORITY p) s = Some (e, s')"
  shows "step_ok K s s'"
proof -
  have p: "step_ok K s (upd_thread t (set_priority p) s)" for s
    unfolding step_ok_def by (intro conjI touches_upd_thread keeps_timers_upd_thread) (simp_all add: stat_of_def set_priority_def)
  show ?thesis
  proof (cases "tstat s t = RT_THREAD_READY")
    case True
    then obtain s1 where s1: "rt_schedule_remove_thread t s = Some s1"
      "rt_schedule_insert_thread t (upd_thread t (set_priority p) s1) = Some s'"
      using assms by (auto simp: rt_thread_control_def Let_def bind_eq_Some_conv split: if_splits)
    have "step_ok K s s1" by (rule step_ok_remove_thread [OF s1(1)])
    also note p
    also have "step_ok K (upd_thread t (set_priority p) s1) s'" by (rule step_ok_insert_thread [OF s1(2)])
    finally show ?thesis .
  qed (use assms p in \<open>auto simp: rt_thread_control_def split: if_splits\<close>)
qed

section \<open>Calls on objects\<close>

lemma step_ok_objects:
  "step_ok {KSem i} s (upd_sem i f s)" "step_ok {KMutex i} s (upd_mutex i g s)"
  "step_ok {KEvent i} s (upd_event i h s)" "step_ok {KMailbox i} s (upd_mb i a s)" "step_ok {KMq i} s (upd_mq i b s)"
  unfolding step_ok_def
  by (intro conjI touches_objects keeps_timers_fields;
      simp add: upd_sem_def upd_mutex_def upd_event_def upd_mb_def upd_mq_def)+

lemma running_runnable: "running_in t s \<Longrightarrow> runnable (tstat s t)"
  by (simp add: running_in_def runnable_def)

text \<open>Waiting with the thread's error number reset.\<close>

lemma step_ok_wait:
  assumes "kernel_ok s" "running_in t s" "h = Susp k \<or> h = SuspSender k"
    "wait_on h t flag time (upd_thread t (\<lambda>th. th\<lparr>th_error := e\<rparr>) s) = Some s'"
  shows "step_ok {k} s s'"
proof -
  let ?s = "upd_thread t (\<lambda>th. th\<lparr>th_error := e\<rparr>) s"
  have "kernel_ok ?s" using assms(1) by simp
  moreover have "runnable (tstat ?s t)" using running_runnable [OF assms(2)] by (simp add: stat_of_def upd_thread_def)
  ultimately have "step_ok {k} ?s s'" by (rule step_ok_wait_on [OF _ _ assms(3,4)])
  then show ?thesis using step_ok_error step_ok_trans by blast
qed

lemma step_ok_sem_take:
  assumes "kernel_ok s" "running_in t s" "rt_sem_take i time s = Some (r, s')"
  shows "step_ok {KSem i} s s'"
  using assms step_ok_wait [OF assms(1,2), of "Susp (KSem i)" "KSem i"] step_ok_objects(1)
  by (auto simp: rt_sem_take_def rt_thread_self_def running_in_def Let_def bind_eq_Some_conv split: if_splits)

lemma step_ok_sem_release:
  assumes "rt_sem_release i s = Some (e, s')"
  shows "step_ok {KSem i} s s'"
  using assms step_ok_objects(1) step_ok_trans [OF step_ok_list_resume step_ok_schedule]
  by (auto simp: rt_sem_release_def bind_eq_Some_conv split: if_splits)

lemma step_ok_mutex_release:
  assumes r: "rt_mutex_release i s = Some (e, s')"
  shows "step_ok {KMutex i} s s'"
proof -
  have hand: "step_ok {KMutex i} s1 s'" if h: "mutex_hand_over i s1 = Some (e, s')" for s1
  proof (cases "k_tlists s1 (Susp (KMutex i))")
    case (Cons u us)
    let ?s2 = "upd_mutex i (\<lambda>m. m\<lparr>mtx_owner := Some u, mtx_original_priority := th_current_priority (thread s1 u),
      mtx_hold := mtx_hold m + 1\<rparr>) s1"
    obtain s3 where s3: "rt_ipc_list_resume (Susp (KMutex i)) ?s2 = Some s3" "rt_schedule s3 = Some s'"
      using h Cons by (auto simp: mutex_hand_over_def Let_def bind_eq_Some_conv)
    note step_ok_objects(2)
    also have "step_ok {KMutex i} ?s2 s3" by (rule step_ok_list_resume [OF s3(1)])
    also have "step_ok {KMutex i} s3 s'" by (rule step_ok_schedule [OF s3(2)])
    finally show ?thesis .
  qed (use h step_ok_objects(2) in \<open>auto simp: mutex_hand_over_def\<close>)
  obtain t where t: "k_current s = Some t" using r by (auto simp: rt_mutex_release_def rt_thread_self_def bind_eq_Some_conv)
  let ?s1 = "upd_mutex i (\<lambda>m. m\<lparr>mtx_hold := mtx_hold m - 1\<rparr>) s"
  consider "s' = upd_thread t (\<lambda>th. th\<lparr>th_error := - RT_ERROR\<rparr>) s" | "s' = ?s1"
    | s2 where "mutex_hand_over i s2 = Some (e, s')" "s2 = ?s1 \<or>
        (\<exists>e. rt_thread_control t (THREAD_CHANGE_PRIORITY (mtx_original_priority (k_mutexes ?s1 i))) ?s1 = Some (e, s2))"
    using r t by (auto simp: rt_mutex_release_def rt_thread_self_def Let_def bind_eq_Some_conv split: if_splits)
  then show ?thesis
  proof cases
    case 3
    have "step_ok {KMutex i} s ?s1" by (rule step_ok_objects)
    also have "step_ok {KMutex i} ?s1 s2" using 3(2) step_ok_change_priority by auto
    also note hand [OF 3(1)]
    finally show ?thesis .
  qed (simp_all add: step_ok_objects)
qed

lemma step_ok_mutex_take:
  assumes ok: "sys_ok s" and t: "running_in t s" and m: "mutex_ok i s" and r: "rt_mutex_take i time s = Some (out, s')"
  shows "step_ok {KMutex i} s s'"
proof -
  let ?s1 = "upd_thread t (\<lambda>th. th\<lparr>th_error := RT_EOK\<rparr>) s"
  have t1: "step_ok {KMutex i} s ?s1" by simp
  have r1: "(if mtx_owner (k_mutexes ?s1 i) = Some t
      then Some (Ret RT_EOK, upd_mutex i (\<lambda>m. m\<lparr>mtx_hold := mtx_hold m + 1\<rparr>) ?s1)
      else mutex_take_again i t time ?s1) = Some (out, s')"
    using r t by (simp add: rt_mutex_take_def rt_thread_self_def running_in_def Let_def bind_eq_Some_conv)
  show ?thesis
  proof (cases "mtx_owner (k_mutexes ?s1 i) = Some t \<or> 0 < mtx_value (k_mutexes ?s1 i) \<or> time = 0")
    case True
    have "step_ok {KMutex i} ?s1 s'"
      using r1 True step_ok_objects(2) [of i ?s1] step_ok_error [of "{KMutex i}" ?s1]
      by (auto simp: mutex_take_again_def split: if_splits)
    then show ?thesis by (rule step_ok_trans [OF t1])
  next
    case False
    obtain ow s2 where "mtx_owner (k_mutexes ?s1 i) = Some ow"
      "(if th_current_priority (thread ?s1 t) < th_current_priority (thread ?s1 ow)
        then do { (_, s) \<leftarrow> rt_thread_control ow (THREAD_CHANGE_PRIORITY (th_current_priority (thread ?s1 t))) ?s1; Some s }
        else Some ?s1) = Some s2" "wait_on (Susp (KMutex i)) t (oflag s2 (KMutex i)) time s2 = Some s'"
      using r1 False unfolding mutex_take_again_def
      by (simp only: if_False de_Morgan_disj simp_thms bind_eq_Some_conv) blast
    note 3 = this(1) this(1) this(2,3)
    have ok1: "sys_ok ?s1" using ok by simp
    have lv: "live (tstat ?s1 ow)" using m 3(1) by (auto simp: mutex_ok_def stat_of_def upd_thread_def)
    have p: "unat (th_current_priority (thread ?s1 t)) < 32" using running_prio [OF ok t] by (simp add: upd_thread_def)
    have ne: "t \<noteq> ow" using 3(1) False by auto
    obtain s3 where s3: "(if th_current_priority (thread ?s1 t) < th_current_priority (thread ?s1 ow)
        then do { (_, s) \<leftarrow> rt_thread_control ow (THREAD_CHANGE_PRIORITY (th_current_priority (thread ?s1 t))) ?s1; Some s }
        else Some ?s1) = Some s3" "sys_ok s3"
      "prio_step ow (min (th_current_priority (thread ?s1 t)) (th_current_priority (thread ?s1 ow))) ?s1 s3"
      by (rule inherit_prio_run [OF ok1 lv p ne])
    then have s2: "s3 = s2" using 3(3) by simp
    have run: "runnable (tstat s2 t)"
      using prio_stepD(6) [OF s3(3), of t] running_runnable [OF t] by (simp add: s2 stat_of_def upd_thread_def)
    have "step_ok {KMutex i} ?s1 s2"
      using 3(3) step_ok_change_priority by (auto simp: bind_eq_Some_conv split: if_splits)
    also have "step_ok {KMutex i} s2 s'"
      by (rule step_ok_wait_on [OF _ run _ 3(4)]) (use sys_okD(1) [OF s3(2)] s2 in auto)
    finally show ?thesis by (rule step_ok_trans [OF t1])
  qed
qed

lemma step_ok_mb_send_loop:
  assumes "kernel_ok s" "running_in t s" "mb_send_loop i v time s = Some (r, s')"
  shows "step_ok {KMailbox i} s s'"
  using assms(2,3) step_ok_wait [OF assms(1,2), of "SuspSender (KMailbox i)" "KMailbox i"]
    step_ok_trans [OF step_ok_objects(4) step_ok_wake_first]
  by (auto simp: mb_send_loop_def rt_thread_self_def running_in_def Let_def bind_eq_Some_conv split: if_splits)

lemma step_ok_mb_recv_loop:
  assumes "kernel_ok s" "running_in t s" "mb_recv_loop i time s = Some (r, s')"
  shows "step_ok {KMailbox i} s s'"
  using assms(2,3) step_ok_wait [OF assms(1,2), of "Susp (KMailbox i)" "KMailbox i"]
    step_ok_trans [OF step_ok_objects(4) step_ok_wake_first] step_ok_trans [OF step_ok_error step_ok_error]
  by (auto simp: mb_recv_loop_def rt_thread_self_def running_in_def Let_def bind_eq_Some_conv split: if_splits prod.splits)

lemma step_ok_mq_send_loop:
  assumes "kernel_ok s" "running_in t s" "mq_send_loop i v time s = Some (r, s')"
  shows "step_ok {KMq i} s s'"
  using assms(2,3) step_ok_wait [OF assms(1,2), of "SuspSender (KMq i)" "KMq i"]
    step_ok_trans [OF step_ok_objects(5) step_ok_wake_first]
  by (auto simp: mq_send_loop_def rt_thread_self_def running_in_def Let_def bind_eq_Some_conv
      split: if_splits option.splits prod.splits)

lemma step_ok_mq_recv_loop:
  assumes "kernel_ok s" "running_in t s" "mq_recv_loop i sz time s = Some (r, s')"
  shows "step_ok {KMq i} s s'"
  using assms(2,3) step_ok_wait [OF assms(1,2), of "Susp (KMq i)" "KMq i"]
    step_ok_trans [OF step_ok_objects(5) step_ok_wake_first] step_ok_trans [OF step_ok_error step_ok_error]
  by (auto simp: mq_recv_loop_def rt_thread_self_def running_in_def Let_def bind_eq_Some_conv split: if_splits prod.splits)

lemma step_ok_mb_send:
  "kernel_ok s \<Longrightarrow> running_in t s \<Longrightarrow> rt_mb_send_wait i v time s = Some (r, s') \<Longrightarrow> step_ok {KMailbox i} s s'"
  using step_ok_mb_send_loop [of s t i v time r s'] by (auto simp: rt_mb_send_wait_def split: if_splits)

lemma step_ok_mb_recv:
  "kernel_ok s \<Longrightarrow> running_in t s \<Longrightarrow> rt_mb_recv i time s = Some (r, s') \<Longrightarrow> step_ok {KMailbox i} s s'"
  using step_ok_mb_recv_loop [of s t i time r s'] by (auto simp: rt_mb_recv_def split: if_splits)

lemma step_ok_mq_send:
  "kernel_ok s \<Longrightarrow> running_in t s \<Longrightarrow> rt_mq_send_wait i v time s = Some (r, s') \<Longrightarrow> step_ok {KMq i} s s'"
  using step_ok_mq_send_loop [of s t i v time r s'] by (auto simp: rt_mq_send_wait_def split: if_splits)

lemma step_ok_mq_recv:
  "kernel_ok s \<Longrightarrow> running_in t s \<Longrightarrow> rt_mq_recv i sz time s = Some (r, s') \<Longrightarrow> step_ok {KMq i} s s'"
  using step_ok_mq_recv_loop [of s t i sz time r s'] by (auto simp: rt_mq_recv_def split: if_splits)

text \<open>A thread that a sent event satisfies gets its flags and leaves every waiting list.\<close>

lemma step_ok_event_deliver:
  assumes ok: "sys_ok s" and t: "t \<in> set (k_tlists s (Susp (KEvent i)))"
    and s1: "s1 = upd_thread t (\<lambda>th. th\<lparr>th_event_set := got\<rparr>) s"
    and s2: "s2 = s1 \<or> s2 = upd_event i f s1" and r: "rt_thread_resume t s2 = Some (e, s3)"
  shows "step_ok {KEvent i} s s3" "sys_ok s3" "k_tlists s3 (Susp (KEvent i)) = removeAll t (k_tlists s (Susp (KEvent i)))"
proof -
  have "sys_ok s1" unfolding s1 by (rule sys_ok_upd_frame [OF ok]) (simp_all add: stat_of_def)
  then have ok2: "sys_ok s2" using s2 by auto
  have same: "k_tlists s2 = k_tlists s" "tstat s2 u = tstat s u" "u \<noteq> t \<Longrightarrow> wishes s2 u = wishes s u" for u
    using s2 by (auto simp: s1 upd_thread_def stat_of_def)
  have st: "tstat s2 t = RT_THREAD_SUSPEND"
    using waiting_suspended [OF sys_okD(1) [OF ok] _ t] same(2) by (simp add: wait_head_def)
  obtain s3' where s3': "rt_thread_resume t s2 = Some (RT_EOK, s3')" "sys_ok s3'" "core_frame s2 s3'"
    "k_current s3' = k_current s2" "\<And>h. \<forall>p. h \<noteq> Ready p \<Longrightarrow> k_tlists s3' h = removeAll t (k_tlists s2 h)"
    "runnable (tstat s3' t)" "\<And>u. u \<noteq> t \<Longrightarrow> thread s3' u = thread s2 u" "th_error (thread s3' t) = th_error (thread s2 t)"
    by (rule thread_resume_run [OF ok2 st]) (rule that; assumption)
  then have [simp]: "s3' = s3" using r by simp
  note R = step_ok_resume [OF r, of "{KEvent i}"]
  show "sys_ok s3" "k_tlists s3 (Susp (KEvent i)) = removeAll t (k_tlists s (Susp (KEvent i)))"
    using s3'(2,5) same(1) by auto
  have k1: "keeps_timers s s1" by (simp add: s1)
  have k2: "keeps_timers s1 s2" using s2 step_ok_objects(3) by (auto simp: step_ok_def)
  note T = touchesD [OF conjunct1 [OF R [unfolded step_ok_def]]]
  have "wishes s3 u = wishes s u" if "u \<in> set (k_tlists s3 (Susp (KEvent j)))" for u j
    using s3'(5,7) that same(3) by auto
  moreover have "j \<noteq> i \<Longrightarrow> k_events s2 j = k_events s j" for j using s2 by (auto simp: s1 upd_event_def upd_thread_def split: if_splits)
  moreover have "k_sems s2 = k_sems s" "k_mutexes s2 = k_mutexes s" "k_mailboxes s2 = k_mailboxes s" "k_mqs s2 = k_mqs s"
    "k_olists s2 = k_olists s" "k_objs s2 = k_objs s"
    using s2 by (auto simp: s1 upd_event_def upd_thread_def)
  ultimately have "touches {KEvent i} s s3"
    unfolding touches_def using T same by simp
  then show "step_ok {KEvent i} s s3"
    using R k1 k2 keeps_timers_trans unfolding step_ok_def by blast
qed

lemma step_ok_event_wake:
  assumes "event_wake i ts need s = Some (need', s')" "sys_ok s" "set ts \<subseteq> set (k_tlists s (Susp (KEvent i)))" "distinct ts"
  shows "step_ok {KEvent i} s s'"
  using assms
proof (induction ts arbitrary: need s)
  case (Cons t ts)
  show ?case
  proof (cases "event_match (th_event_info (thread s t)) (th_event_set (thread s t)) (ev_set (k_events s i))")
    case None
    then show ?thesis using Cons by simp
  next
    case (Some got)
    let ?s1 = "upd_thread t (\<lambda>th. th\<lparr>th_event_set := got\<rparr>) s"
    let ?s2 = "if th_event_info (thread ?s1 t) AND RT_EVENT_FLAG_CLEAR \<noteq> 0 then upd_event i (\<lambda>v. v AND NOT got) ?s1 else ?s1"
    obtain e s3 where s3: "rt_thread_resume t ?s2 = Some (e, s3)" "event_wake i ts True s3 = Some (need', s')"
      using Cons.prems(1) Some by (auto simp: Let_def bind_eq_Some_conv)
    have t: "t \<in> set (k_tlists s (Susp (KEvent i)))" using Cons.prems(3) by simp
    note D = step_ok_event_deliver [OF Cons.prems(2) t refl _ s3(1)]
    have a: "?s2 = ?s1 \<or> ?s2 = upd_event i (\<lambda>v. v AND NOT got) ?s1" by simp
    have "set ts \<subseteq> set (k_tlists s3 (Susp (KEvent i)))" using D(3) [OF a] Cons.prems(3,4) by auto
    then have "step_ok {KEvent i} s3 s'" using Cons.IH [OF s3(2) D(2) [OF a]] Cons.prems(4) by simp
    with D(1) [OF a] show ?thesis by (rule step_ok_trans)
  qed
qed simp

lemma step_ok_event_send:
  assumes ok: "sys_ok s" and r: "rt_event_send i evs s = Some (e, s')"
  shows "step_ok {KEvent i} s s'"
proof (cases "evs = 0")
  case False
  let ?s1 = "upd_event i (\<lambda>v. v OR evs) s"
  obtain need s2 where s2: "event_wake i (k_tlists ?s1 (Susp (KEvent i))) False ?s1 = Some (need, s2)"
    "(if need then rt_schedule s2 else Some s2) = Some s'"
    using r False by (auto simp: rt_event_send_def Let_def bind_eq_Some_conv split: if_splits)
  have "distinct (k_tlists s (Susp (KEvent i)))"
    using sched_invD(1) [OF sys_okD(3) [OF ok]] by (simp add: table_wf_def)
  then have "step_ok {KEvent i} ?s1 s2" by (intro step_ok_event_wake [OF s2(1)]) (simp_all add: ok)
  moreover have "step_ok {KEvent i} s2 s'" using s2(2) step_ok_schedule by (auto split: if_splits)
  ultimately show ?thesis using step_ok_objects(3) step_ok_trans by blast
qed (use r in \<open>simp add: rt_event_send_def\<close>)

lemma step_ok_event_recv:
  assumes ok: "sys_ok s" and t: "running_in t s" and r: "rt_event_recv i evs opt time s = Some (out, s')"
  shows "step_ok {KEvent i} s s'"
proof -
  let ?s1 = "upd_thread t (\<lambda>th. th\<lparr>th_error := RT_EOK\<rparr>) s"
  let ?s2 = "upd_thread t (\<lambda>th. th\<lparr>th_event_set := evs, th_event_info := opt\<rparr>) ?s1"
  have out: "t \<notin> set (k_tlists s (Susp k))" for k
    by (rule runnable_not_waiting [OF sys_okD(3) [OF ok] running_runnable [OF t]]) simp
  have t2: "step_ok {KEvent i} ?s1 ?s2"
    unfolding step_ok_def touches_def using out by (auto simp: upd_thread_def stat_of_def intro!: keeps_timers_fields)
  have t1: "step_ok {KEvent i} s ?s1" by simp
  have w: "step_ok {KEvent i} ?s2 s'" if w: "wait_on (Susp (KEvent i)) t flag time ?s2 = Some s'" for flag
  proof -
    have "sys_ok ?s2" by (rule sys_ok_upd_frame) (use ok in \<open>simp_all add: stat_of_def\<close>)
    moreover have "runnable (tstat ?s2 t)" using running_runnable [OF t] by (simp add: upd_thread_def stat_of_def)
    ultimately show ?thesis using step_ok_wait_on [OF sys_okD(1) _ _ w] by blast
  qed
  have "step_ok {KEvent i} ?s1 s' \<or> step_ok {KEvent i} ?s2 s' \<or> s' = s"
    using r t w step_ok_objects(3) [of i ?s1] step_ok_error [of "{KEvent i}" ?s1]
    by (auto simp: rt_event_recv_def rt_thread_self_def running_in_def Let_def bind_eq_Some_conv split: if_splits)
  then show ?thesis using t1 t2 step_ok_trans by (metis step_ok_refl)
qed

section \<open>The tick\<close>

lemma step_ok_tick_slice:
  assumes r: "tick_slice s = Some s'"
  shows "step_ok K s s'"
proof -
  obtain t where t: "k_current s = Some t" using r by (auto simp: tick_slice_def rt_thread_self_def bind_eq_Some_conv)
  let ?s1 = "upd_thread t (\<lambda>th. th\<lparr>th_remaining_tick := th_remaining_tick th - 1\<rparr>) s"
  let ?s2 = "upd_thread t (\<lambda>th. th\<lparr>th_remaining_tick := th_init_tick th, th_stat := th_stat th OR RT_THREAD_STAT_YIELD\<rparr>) ?s1"
  have "step_ok K s ?s1"
    unfolding step_ok_def by (intro conjI touches_upd_thread keeps_timers_upd_thread) (simp_all add: stat_of_def)
  moreover have "step_ok K ?s1 ?s2"
    unfolding step_ok_def by (intro conjI touches_upd_thread keeps_timers_upd_thread)
      (simp_all add: stat_of_def bit.conj_disj_distrib2)
  moreover have "s' = ?s1 \<or> rt_schedule ?s2 = Some s'"
    using r t unfolding tick_slice_def rt_thread_self_def Let_def by (simp split: if_splits)
  moreover have "step_ok K ?s2 s'" if "rt_schedule ?s2 = Some s'" using that by (rule step_ok_schedule)
  ultimately show ?thesis using step_ok_trans by blast
qed

lemma touches_thread_timeout:
  assumes "rt_thread_timeout t s = Some s'"
  shows "touches K s s'"
proof -
  let ?s1 = "upd_thread t (\<lambda>th. th\<lparr>th_error := - RT_ETIMEOUT\<rparr>) s"
  let ?s2 = "?s1\<lparr>k_tlists := tbl_remove t (k_tlists ?s1)\<rparr>"
  obtain s3 where s3: "rt_schedule_insert_thread t ?s2 = Some s3" "rt_schedule s3 = Some s'"
    using assms by (auto simp: rt_thread_timeout_def Let_def bind_eq_Some_conv)
  have "step_ok K s ?s1" by simp
  also have "step_ok K ?s1 ?s2" by (rule step_ok_unlink)
  also have "step_ok K ?s2 s3" by (rule step_ok_insert_thread [OF s3(1)])
  also have "step_ok K s3 s'" by (rule step_ok_schedule [OF s3(2)])
  finally show ?thesis by (simp add: step_ok_def)
qed

lemma touches_timer_start:
  assumes "rt_timer_start x s = Some (e, s')"
  shows "touches K s s'"
proof -
  have "touches K (timer_start_link x s) s'"
  proof (cases "s' = timer_start_link x s")
    case False
    then obtain e2 s2 where "rt_thread_resume (k_timer_thread (timer_start_link x s)) (timer_start_link x s) = Some (e2, s2)"
      "rt_schedule s2 = Some s'"
      using assms by (auto simp: rt_timer_start_unfold Let_def bind_eq_Some_conv split: if_splits)
    then have "step_ok K (timer_start_link x s) s'" using step_ok_trans [OF step_ok_resume step_ok_schedule] by blast
    then show ?thesis by (simp add: step_ok_def)
  qed simp
  with touches_timer_start_link show ?thesis by (rule touches_trans)
qed

lemma touches_tflag: "touches K s (upd_tflag x f s)"
  by (rule touches_fields) (auto simp: upd_obj_def)

lemma touches_timer_rearm:
  assumes "timer_rearm x s = Some s'"
  shows "touches K s s'"
  using assms touches_tflag touches_trans [OF touches_tflag touches_timer_start]
  by (fastforce simp: timer_rearm_def bind_eq_Some_conv split: if_splits)

end
