(* ===== verification/System.thy ===== *)
theory System
  imports SysFrame
begin

text \<open>
  The kernel as a state machine.  A step is one call of the running thread or one tick interrupt;
  the calls may come in any order.  The invariant of the system is the invariant of the kernel with
  the invariants of all initialised objects; every allowed call returns and keeps it, so it holds in
  every reachable state and no assertion of the kernel fails.
\<close>

section \<open>Calls\<close>

datatype kcall =
    Tick
  | Schedule
  | EnterCritical
  | ExitCritical
  | Sleep rt_uint32
  | SemTake oid int
  | SemRelease oid
  | MutexTake oid int
  | MutexRelease oid
  | EventSend oid rt_uint32
  | EventRecv oid rt_uint32 rt_uint8 int
  | MbSend oid rt_uint32 int
  | MbSendAgain oid rt_uint32 int rt_uint32
  | MbRecv oid int
  | MbRecvAgain oid int rt_uint32
  | MqSend oid bytes int
  | MqSendAgain oid bytes int rt_uint32
  | MqUrgent oid bytes
  | MqRecv oid nat int
  | MqRecvAgain oid nat int rt_uint32

text \<open>
  The tick interrupt of the board.  The vendor library's own tick counter, which
  \<^verbatim>\<open>HAL_IncTick\<close> counts, is not part of the state.
\<close>

definition SysTick_Handler :: "timer_callback \<Rightarrow> kstate \<Rightarrow> kstate option" where
  "SysTick_Handler cb s = do {
     let s = rt_interrupt_enter s;
     s \<leftarrow> rt_tick_increase cb s;
     Some (rt_interrupt_leave s)
   }"

text \<open>The state after a call; the calls with \<open>Again\<close> are what a thread does that was woken in a
  waiting loop, with the tick at which it began to wait.\<close>

fun exec :: "timer_callback \<Rightarrow> kcall \<Rightarrow> kstate \<Rightarrow> kstate option" where
  "exec cb Tick s = SysTick_Handler cb s"
| "exec cb Schedule s = rt_schedule s"
| "exec cb EnterCritical s = Some (rt_enter_critical s)"
| "exec cb ExitCritical s = rt_exit_critical s"
| "exec cb (Sleep n) s = map_option snd (rt_thread_sleep n s)"
| "exec cb (SemTake i time) s = map_option snd (rt_sem_take i time s)"
| "exec cb (SemRelease i) s = map_option snd (rt_sem_release i s)"
| "exec cb (MutexTake i time) s = map_option snd (rt_mutex_take i time s)"
| "exec cb (MutexRelease i) s = map_option snd (rt_mutex_release i s)"
| "exec cb (EventSend i evs) s = map_option snd (rt_event_send i evs s)"
| "exec cb (EventRecv i evs opt time) s = map_option snd (rt_event_recv i evs opt time s)"
| "exec cb (MbSend i v time) s = map_option snd (rt_mb_send_wait i v time s)"
| "exec cb (MbSendAgain i v time start) s = do {
     t \<leftarrow> rt_thread_self s;
     map_option snd (rt_mb_send_wait_resume i v time start t s)
   }"
| "exec cb (MbRecv i time) s = map_option snd (rt_mb_recv i time s)"
| "exec cb (MbRecvAgain i time start) s = do {
     t \<leftarrow> rt_thread_self s;
     map_option snd (rt_mb_recv_resume i time start t s)
   }"
| "exec cb (MqSend i buf time) s = map_option snd (rt_mq_send_wait i buf time s)"
| "exec cb (MqSendAgain i buf time start) s = do {
     t \<leftarrow> rt_thread_self s;
     map_option snd (rt_mq_send_wait_resume i buf time start t s)
   }"
| "exec cb (MqUrgent i buf) s = map_option snd (rt_mq_urgent i buf s)"
| "exec cb (MqRecv i sz time) s = map_option snd (rt_mq_recv i sz time s)"
| "exec cb (MqRecvAgain i sz time start) s = do {
     t \<leftarrow> rt_thread_self s;
     map_option snd (rt_mq_recv_resume i sz time start t s)
   }"

text \<open>Some thread runs, outside interrupts.\<close>

definition caller :: "kstate \<Rightarrow> bool" where
  "caller s = (case k_current s of None \<Rightarrow> False | Some t \<Rightarrow> running_in t s)"

abbreviation time_ok :: "int \<Rightarrow> bool" where
  "time_ok time \<equiv> time < 0x7FFFFFFF"

text \<open>What a call requires of its arguments: an initialised object, a timeout the timers accept,
  the options and sizes the code asserts, and a mutex not nested too deep for its counter.\<close>

fun allowed :: "kcall \<Rightarrow> kstate \<Rightarrow> bool" where
  "allowed Tick s \<longleftrightarrow> True"
| "allowed Schedule s \<longleftrightarrow> True"
| "allowed EnterCritical s \<longleftrightarrow> True"
| "allowed ExitCritical s \<longleftrightarrow> True"
| "allowed (Sleep n) s \<longleftrightarrow> caller s \<and> n < RT_TICK_HALF"
| "allowed (SemTake i time) s \<longleftrightarrow> caller s \<and> ipc_object_ok (KSem i) s \<and> time_ok time"
| "allowed (SemRelease i) s \<longleftrightarrow> ipc_object_ok (KSem i) s"
| "allowed (MutexTake i time) s \<longleftrightarrow> caller s \<and> ipc_object_ok (KMutex i) s \<and> time_ok time \<and>
     unat (mtx_hold (k_mutexes s i)) < 255"
| "allowed (MutexRelease i) s \<longleftrightarrow> caller s \<and> ipc_object_ok (KMutex i) s"
| "allowed (EventSend i evs) s \<longleftrightarrow> ipc_object_ok (KEvent i) s"
| "allowed (EventRecv i evs opt time) s \<longleftrightarrow> caller s \<and> ipc_object_ok (KEvent i) s \<and> time_ok time \<and> evs \<noteq> 0 \<and>
     (opt AND RT_EVENT_FLAG_AND \<noteq> 0 \<or> opt AND RT_EVENT_FLAG_OR \<noteq> 0)"
| "allowed (MbSend i v time) s \<longleftrightarrow> caller s \<and> ipc_object_ok (KMailbox i) s \<and> time_ok time"
| "allowed (MbSendAgain i v time start) s \<longleftrightarrow>
     caller s \<and> ipc_object_ok (KMailbox i) s \<and> time_ok (recalc_timeout time start s)"
| "allowed (MbRecv i time) s \<longleftrightarrow> caller s \<and> ipc_object_ok (KMailbox i) s \<and> time_ok time"
| "allowed (MbRecvAgain i time start) s \<longleftrightarrow>
     caller s \<and> ipc_object_ok (KMailbox i) s \<and> time_ok (recalc_timeout time start s)"
| "allowed (MqSend i buf time) s \<longleftrightarrow> caller s \<and> ipc_object_ok (KMq i) s \<and> time_ok time \<and> buf \<noteq> []"
| "allowed (MqSendAgain i buf time start) s \<longleftrightarrow>
     caller s \<and> ipc_object_ok (KMq i) s \<and> time_ok (recalc_timeout time start s) \<and> buf \<noteq> [] \<and>
     length buf \<le> unat (mq_msg_size (k_mqs s i))"
| "allowed (MqUrgent i buf) s \<longleftrightarrow> ipc_object_ok (KMq i) s \<and> buf \<noteq> []"
| "allowed (MqRecv i sz time) s \<longleftrightarrow> caller s \<and> ipc_object_ok (KMq i) s \<and> time_ok time \<and> sz \<noteq> 0"
| "allowed (MqRecvAgain i sz time start) s \<longleftrightarrow>
     caller s \<and> ipc_object_ok (KMq i) s \<and> time_ok (recalc_timeout time start s) \<and> sz \<noteq> 0"

inductive reachable :: "timer_callback \<Rightarrow> kstate \<Rightarrow> kstate \<Rightarrow> bool" for cb s0 where
  start: "reachable cb s0 s0"
| call: "reachable cb s0 s \<Longrightarrow> allowed c s \<Longrightarrow> exec cb c s = Some s' \<Longrightarrow> reachable cb s0 s'"

section \<open>The invariant\<close>

fun object_inv :: "kobj \<Rightarrow> kstate \<Rightarrow> bool" where
  "object_inv (KSem i) s \<longleftrightarrow> (k_tlists s (Susp (KSem i)) \<noteq> [] \<longrightarrow> sem_value (k_sems s i) = 0)"
| "object_inv (KMutex i) s \<longleftrightarrow> mutex_ok i s"
| "object_inv (KEvent i) s \<longleftrightarrow> event_inv i s"
| "object_inv (KMailbox i) s \<longleftrightarrow> mb_ok i s"
| "object_inv (KMq i) s \<longleftrightarrow> mq_ok i s"
| "object_inv _ s \<longleftrightarrow> True"

definition system_inv :: "kstate \<Rightarrow> bool" where
  "system_inv s \<longleftrightarrow> sys_ok s \<and> timer_rules s \<and> (\<forall>k. ipc_object_ok k s \<longrightarrow> object_inv k s)"

text \<open>The timeout functions of the application: they return, keep the invariant, may stop timers (waking
  a thread whose wait has a time limit stops that thread's timer) but start or change none, and
  leave the clock alone.\<close>

definition callbacks_ok :: "timer_callback \<Rightarrow> bool" where
  "callbacks_ok cb \<longleftrightarrow> callback_ok cb \<and> (\<forall>i arg s s'. system_inv s \<longrightarrow> cb i arg s = Some s' \<longrightarrow> system_inv s')"

lemma system_invD:
  assumes "system_inv s"
  shows "sys_ok s" "timer_rules s" "ipc_object_ok k s \<Longrightarrow> object_inv k s"
  using assms by (simp_all add: system_inv_def)

lemma object_ok_touches:
  assumes "touches K s s'"
  shows "ipc_object_ok k s' = ipc_object_ok k s"
proof -
  note T = touchesD [OF assms]
  show ?thesis
    by (cases "waitable k") (simp_all add: ipc_object_ok_def T(1,2))
qed

lemma object_inv_touches:
  assumes t: "touches K s s'" and k: "k \<notin> K" and inv: "object_inv k s"
  shows "object_inv k s'"
proof -
  note T = touchesD [OF t]
  show ?thesis
  proof (cases k)
    case (KSem i)
    then show ?thesis using inv k T(3) T(8) [OF k] by auto
  next
    case (KMutex i)
    then show ?thesis
      using inv k T(4) T(8) [OF k] T(9) by (auto simp: mutex_ok_def split: option.splits)
  next
    case (KEvent i)
    then show ?thesis using inv k T(5) T(8) [OF k] T(10) unfolding KEvent by (auto simp: event_inv_def)
  qed (use inv k T(6,7) in auto)
qed

lemma system_inv_objects:
  assumes t: "touches {k} s s'" and inv: "\<forall>k. ipc_object_ok k s \<longrightarrow> object_inv k s"
    and k: "ipc_object_ok k s \<Longrightarrow> object_inv k s'"
  shows "\<forall>k. ipc_object_ok k s' \<longrightarrow> object_inv k s'"
  using inv k object_ok_touches [OF t] object_inv_touches [OF t] by (metis singletonD)

lemma system_inv_step:
  assumes inv: "system_inv s" and st: "step_ok {k} s s'" and ok: "sys_ok s'"
    and k: "ipc_object_ok k s \<Longrightarrow> object_inv k s'"
  shows "system_inv s'"
  using inv st ok system_inv_objects [of k s s'] k
  by (simp add: system_inv_def step_ok_def keeps_timers_def)

lemma system_inv_quiet:
  assumes inv: "system_inv s" and st: "step_ok {} s s'" and ok: "sys_ok s'"
  shows "system_inv s'"
proof (rule system_inv_step [OF inv _ ok])
  show "step_ok {KThread t} s s'" for t by (rule step_ok_weaken [OF st])
qed simp

section \<open>Every call keeps it\<close>

lemma callerE:
  assumes "caller s"
  obtains t where "running_in t s" "rt_thread_self s = Some t"
  using assms by (auto simp: caller_def rt_thread_self_def split: option.splits)

lemma sem_inv_object: "object_inv (KSem i) s \<longleftrightarrow> (snd (sem_abs i s) \<noteq> [] \<longrightarrow> fst (sem_abs i s) = 0)"
  by (simp add: sem_abs_def unat_eq_zero)

lemma sem_take_system:
  assumes inv: "system_inv s" and a: "allowed (SemTake i time) s"
  shows "\<exists>s'. exec cb (SemTake i time) s = Some s' \<and> system_inv s'"
proof -
  note D = system_invD [OF inv]
  obtain t where t: "running_in t s" using a by (auto elim: callerE)
  have i: "ipc_object_ok (KSem i) s" and time: "time < 0x7FFFFFFF" using a by auto
  obtain r s' where r: "rt_sem_take i time s = Some (r, s')" "sys_ok s'"
    "(r, sem_abs i s') = sem_take_spec (wait_insert s (oflag s (KSem i)) t) time (sem_abs i s)"
    using sem_take_correct [OF D(1) i t time] by blast
  have "sem_abs i s' = snd (sem_take_spec (wait_insert s (oflag s (KSem i)) t) time (sem_abs i s))"
    using r(3) by (metis snd_conv)
  then have "object_inv (KSem i) s'"
    using sem_spec_keeps [of "sem_abs i s" "sem_abs i s'"] D(3) [OF i] unfolding sem_inv_object by blast
  then show ?thesis
    using system_inv_step [OF inv step_ok_sem_take [OF sys_okD(1) [OF D(1)] t r(1)] r(2)] r(1) by simp
qed

lemma sem_release_system:
  assumes inv: "system_inv s" and a: "allowed (SemRelease i) s"
  shows "\<exists>s'. exec cb (SemRelease i) s = Some s' \<and> system_inv s'"
proof -
  note D = system_invD [OF inv]
  have i: "ipc_object_ok (KSem i) s" using a by simp
  obtain s' where r: "rt_sem_release i s = Some (RT_EOK, s')" "sys_ok s'" "sem_abs i s' = sem_release_spec (sem_abs i s)"
    using sem_release_correct [OF D(1) i] by blast
  have "object_inv (KSem i) s'"
    using sem_spec_keeps [of "sem_abs i s" "sem_abs i s'"] D(3) [OF i] r(3) unfolding sem_inv_object by blast
  then show ?thesis using system_inv_step [OF inv step_ok_sem_release [OF r(1)] r(2)] r(1) by simp
qed

lemma mutex_take_system:
  assumes inv: "system_inv s" and a: "allowed (MutexTake i time) s"
  shows "\<exists>s'. exec cb (MutexTake i time) s = Some s' \<and> system_inv s'"
proof -
  note D = system_invD [OF inv]
  obtain t where t: "running_in t s" using a by (auto elim: callerE)
  have i: "ipc_object_ok (KMutex i) s" and time: "time < 0x7FFFFFFF" using a by auto
  have m: "mutex_ok i s" using D(3) [OF i] by simp
  have depth: "\<forall>n q. mutex_abs i s = (Some (t, n), q) \<longrightarrow> n < 255" using a by (auto simp: mutex_abs_def)
  obtain r s' where r: "rt_mutex_take i time s = Some (r, s')" "sys_ok s'" "mutex_ok i s'"
    using mutex_take_correct [OF D(1) i t m time depth] by blast
  show ?thesis
    using system_inv_step [OF inv step_ok_mutex_take [OF D(1) t m r(1)] r(2)] r(1,3) by simp
qed

lemma mutex_release_system:
  assumes inv: "system_inv s" and a: "allowed (MutexRelease i) s"
  shows "\<exists>s'. exec cb (MutexRelease i) s = Some s' \<and> system_inv s'"
proof -
  note D = system_invD [OF inv]
  obtain t where t: "running_in t s" using a by (auto elim: callerE)
  have i: "ipc_object_ok (KMutex i) s" using a by simp
  have m: "mutex_ok i s" using D(3) [OF i] by simp
  obtain e s' where r: "rt_mutex_release i s = Some (e, s')" "sys_ok s'" "mutex_ok i s'"
    using mutex_release_correct [OF D(1) i t m] by blast
  show ?thesis using system_inv_step [OF inv step_ok_mutex_release [OF r(1)] r(2)] r(1,3) by simp
qed

lemma event_send_system:
  assumes inv: "system_inv s" and a: "allowed (EventSend i evs) s"
  shows "\<exists>s'. exec cb (EventSend i evs) s = Some s' \<and> system_inv s'"
proof (cases "evs = 0")
  case True
  have "ipc_object_ok (KEvent i) s" using a by simp
  then have "rt_object_get_type (KEvent i) s = RT_Object_Class_Event"
    using ipc_object_okD(1) [OF sys_okD(1) [OF system_invD(1) [OF inv]]] by fastforce
  then show ?thesis using True inv by (simp add: rt_event_send_def)
next
  case False
  note D = system_invD [OF inv]
  have i: "ipc_object_ok (KEvent i) s" using a by simp
  obtain w k c where sc: "event_scan (wishes s) (ev_set (k_events s i) OR evs) (k_tlists s (Susp (KEvent i))) = (w, k, c)"
    by (rule prod_cases3)
  obtain s' where r: "rt_event_send i evs s = Some (RT_EOK, s')" "sys_ok s'" "event_inv i s'"
    using rt_event_send_scan [OF D(1) i False sc] by blast
  show ?thesis using system_inv_step [OF inv step_ok_event_send [OF D(1) r(1)] r(2)] r(1,3) by simp
qed

lemma event_recv_system:
  assumes inv: "system_inv s" and a: "allowed (EventRecv i evs opt time) s"
  shows "\<exists>s'. exec cb (EventRecv i evs opt time) s = Some s' \<and> system_inv s'"
proof -
  note D = system_invD [OF inv]
  obtain t where t: "running_in t s" using a by (auto elim: callerE)
  have i: "ipc_object_ok (KEvent i) s" and p: "evs \<noteq> 0" "time < 0x7FFFFFFF"
    "opt AND RT_EVENT_FLAG_AND \<noteq> 0 \<or> opt AND RT_EVENT_FLAG_OR \<noteq> 0" using a by auto
  have e: "event_inv i s" using D(3) [OF i] by simp
  obtain cur q where ab: "event_abs i s = (cur, q)" by force
  obtain out s' where r: "rt_event_recv i evs opt time s = Some (out, s')" "sys_ok s'" "event_inv i s'"
    using event_recv_correct [OF D(1) i t p(1,3,2) e ab] by blast
  show ?thesis using system_inv_step [OF inv step_ok_event_recv [OF D(1) t r(1)] r(2)] r(1,3) by simp
qed

lemma mb_send_system:
  assumes inv: "system_inv s" and a: "allowed (MbSend i v time) s"
  shows "\<exists>s'. exec cb (MbSend i v time) s = Some s' \<and> system_inv s'"
proof -
  note D = system_invD [OF inv]
  obtain t where t: "running_in t s" using a by (auto elim: callerE)
  have i: "ipc_object_ok (KMailbox i) s" and time: "time < 0x7FFFFFFF" using a by auto
  have m: "mb_ok i s" using D(3) [OF i] by simp
  obtain r s' where r: "rt_mb_send_wait i v time s = Some (r, s')" "sys_ok s'" "mb_ok i s'"
    using mb_send_correct [OF D(1) i t m time] by blast
  show ?thesis using system_inv_step [OF inv step_ok_mb_send [OF sys_okD(1) [OF D(1)] t r(1)] r(2)] r(1,3) by simp
qed

lemma mb_recv_system:
  assumes inv: "system_inv s" and a: "allowed (MbRecv i time) s"
  shows "\<exists>s'. exec cb (MbRecv i time) s = Some s' \<and> system_inv s'"
proof -
  note D = system_invD [OF inv]
  obtain t where t: "running_in t s" using a by (auto elim: callerE)
  have i: "ipc_object_ok (KMailbox i) s" and time: "time < 0x7FFFFFFF" using a by auto
  have m: "mb_ok i s" using D(3) [OF i] by simp
  obtain r s' where r: "rt_mb_recv i time s = Some (r, s')" "sys_ok s'" "mb_ok i s'"
    using mb_recv_correct [OF D(1) i t m time] by blast
  show ?thesis using system_inv_step [OF inv step_ok_mb_recv [OF sys_okD(1) [OF D(1)] t r(1)] r(2)] r(1,3) by simp
qed

lemma mq_send_system:
  assumes inv: "system_inv s" and a: "allowed (MqSend i buf time) s"
  shows "\<exists>s'. exec cb (MqSend i buf time) s = Some s' \<and> system_inv s'"
proof -
  note D = system_invD [OF inv]
  obtain t where t: "running_in t s" using a by (auto elim: callerE)
  have i: "ipc_object_ok (KMq i) s" and p: "buf \<noteq> []" "time < 0x7FFFFFFF" using a by auto
  have m: "mq_ok i s" using D(3) [OF i] by simp
  obtain r s' where r: "rt_mq_send_wait i buf time s = Some (r, s')" "sys_ok s'" "mq_ok i s'"
    using mq_send_correct [OF D(1) i t m p] by blast
  show ?thesis using system_inv_step [OF inv step_ok_mq_send [OF sys_okD(1) [OF D(1)] t r(1)] r(2)] r(1,3) by simp
qed

lemma mq_recv_system:
  assumes inv: "system_inv s" and a: "allowed (MqRecv i sz time) s"
  shows "\<exists>s'. exec cb (MqRecv i sz time) s = Some s' \<and> system_inv s'"
proof -
  note D = system_invD [OF inv]
  obtain t where t: "running_in t s" using a by (auto elim: callerE)
  have i: "ipc_object_ok (KMq i) s" and p: "sz \<noteq> 0" "time < 0x7FFFFFFF" using a by auto
  have m: "mq_ok i s" using D(3) [OF i] by simp
  obtain r s' where r: "rt_mq_recv i sz time s = Some (r, s')" "sys_ok s'" "mq_ok i s'"
    using mq_recv_correct [OF D(1) i t m p] by blast
  show ?thesis using system_inv_step [OF inv step_ok_mq_recv [OF sys_okD(1) [OF D(1)] t r(1)] r(2)] r(1,3) by simp
qed

lemma mq_urgent_system:
  assumes inv: "system_inv s" and a: "allowed (MqUrgent i buf) s"
  shows "\<exists>s'. exec cb (MqUrgent i buf) s = Some s' \<and> system_inv s'"
proof -
  note D = system_invD [OF inv]
  have i: "ipc_object_ok (KMq i) s" and b: "buf \<noteq> []" using a by auto
  have m: "mq_ok i s" using D(3) [OF i] by simp
  have ty: "rt_object_get_type (KMq i) s = RT_Object_Class_MessageQueue"
    using ipc_object_okD(1) [OF sys_okD(1) [OF D(1)] i] by simp
  show ?thesis
  proof (cases "mq_room i s \<and> length buf \<le> unat (mq_msg_size (k_mqs s i))")
    case True
    then obtain s' where r: "rt_mq_urgent i buf s = Some (RT_EOK, s')" "sys_ok s'" "mq_ok i s'"
      using rt_mq_urgent_room [OF D(1) i m _ b] by blast
    have "step_ok {KMq i} s s'"
      using r(1) ty b True step_ok_trans [OF step_ok_objects(5) step_ok_wake_first]
      by (auto simp: rt_mq_urgent_def Let_def bind_eq_Some_conv split: option.splits if_splits)
    then show ?thesis using system_inv_step [OF inv _ r(2)] r(1,3) by simp
  next
    case False
    have "mq_take_free (k_mqs s i) = None" if "\<not> mq_room i s"
      using mq_full_iff [OF m] that by (simp add: mq_take_free_def)
    then have "\<exists>e. rt_mq_urgent i buf s = Some (e, s)"
      using False ty b by (auto simp: rt_mq_urgent_def)
    then show ?thesis using inv by auto
  qed
qed

text \<open>A woken thread that goes round its waiting loop does what a fresh call does, but that it has
  no time left when the object is still not ready.\<close>

lemma error_system: "system_inv s \<Longrightarrow> system_inv (upd_thread t (\<lambda>th. th\<lparr>th_error := e\<rparr>) s)"
  using system_inv_quiet [OF _ step_ok_error [of "{}" s t e]] system_invD(1) [of s] by simp

lemma mb_send_again_system:
  assumes inv: "system_inv s" and a: "allowed (MbSendAgain i v time start) s"
  shows "\<exists>s'. exec cb (MbSendAgain i v time start) s = Some s' \<and> system_inv s'"
proof -
  obtain t where t: "running_in t s" "rt_thread_self s = Some t" using a by (auto elim: callerE)
  let ?time = "recalc_timeout time start s"
  have i: "ipc_object_ok (KMailbox i) s" using a by simp
  have ty: "rt_object_get_type (KMailbox i) s = RT_Object_Class_MailBox"
    using ipc_object_okD(1) [OF sys_okD(1) [OF system_invD(1) [OF inv]] i] by simp
  have "\<exists>r s'. mb_send_loop i v ?time s = Some (r, s') \<and> system_inv s'"
  proof (cases "mb_entry (k_mailboxes s i) = mb_size (k_mailboxes s i) \<and> ?time = 0")
    case True
    then show ?thesis using t(2) error_system [OF inv, of t RT_EOK] by (simp add: mb_send_loop_def Let_def)
  next
    case False
    then have "rt_mb_send_wait i v ?time s = mb_send_loop i v ?time s" using ty by (auto simp: rt_mb_send_wait_def)
    then show ?thesis using mb_send_system [OF inv, of i v ?time] a by auto
  qed
  then show ?thesis using t(2) inv by (auto simp: rt_mb_send_wait_resume_def)
qed

lemma mb_recv_again_system:
  assumes inv: "system_inv s" and a: "allowed (MbRecvAgain i time start) s"
  shows "\<exists>s'. exec cb (MbRecvAgain i time start) s = Some s' \<and> system_inv s'"
proof -
  obtain t where t: "running_in t s" "rt_thread_self s = Some t" using a by (auto elim: callerE)
  let ?time = "recalc_timeout time start s"
  have i: "ipc_object_ok (KMailbox i) s" using a by simp
  have ty: "rt_object_get_type (KMailbox i) s = RT_Object_Class_MailBox"
    using ipc_object_okD(1) [OF sys_okD(1) [OF system_invD(1) [OF inv]] i] by simp
  have "\<exists>r s'. mb_recv_loop i ?time s = Some (r, s') \<and> system_inv s'"
  proof (cases "mb_entry (k_mailboxes s i) = 0 \<and> ?time = 0")
    case True
    then show ?thesis
      using t(2) error_system [OF error_system [OF inv, of t RT_EOK], of t "- RT_ETIMEOUT"]
      by (simp add: mb_recv_loop_def Let_def)
  next
    case False
    then have "rt_mb_recv i ?time s = mb_recv_loop i ?time s" using ty by (auto simp: rt_mb_recv_def)
    then show ?thesis using mb_recv_system [OF inv, of i ?time] a by auto
  qed
  then show ?thesis using t(2) inv by (auto simp: rt_mb_recv_resume_def)
qed

lemma mq_send_again_system:
  assumes inv: "system_inv s" and a: "allowed (MqSendAgain i buf time start) s"
  shows "\<exists>s'. exec cb (MqSendAgain i buf time start) s = Some s' \<and> system_inv s'"
proof -
  obtain t where t: "running_in t s" "rt_thread_self s = Some t" using a by (auto elim: callerE)
  let ?time = "recalc_timeout time start s"
  have i: "ipc_object_ok (KMq i) s" using a by simp
  have ty: "rt_object_get_type (KMq i) s = RT_Object_Class_MessageQueue"
    using ipc_object_okD(1) [OF sys_okD(1) [OF system_invD(1) [OF inv]] i] by simp
  have "\<exists>r s'. mq_send_loop i buf ?time s = Some (r, s') \<and> system_inv s'"
  proof (cases "mq_free (k_mqs s i) = None \<and> ?time = 0")
    case True
    then show ?thesis
      using t(2) error_system [OF inv, of t RT_EOK] by (simp add: mq_send_loop_def mq_take_free_def Let_def)
  next
    case False
    then have "rt_mq_send_wait i buf ?time s = mq_send_loop i buf ?time s"
      using ty a by (auto simp: rt_mq_send_wait_def)
    then show ?thesis using mq_send_system [OF inv, of i buf ?time] a by auto
  qed
  then show ?thesis using t(2) inv by (auto simp: rt_mq_send_wait_resume_def)
qed

lemma mq_recv_again_system:
  assumes inv: "system_inv s" and a: "allowed (MqRecvAgain i sz time start) s"
  shows "\<exists>s'. exec cb (MqRecvAgain i sz time start) s = Some s' \<and> system_inv s'"
proof -
  obtain t where t: "running_in t s" "rt_thread_self s = Some t" using a by (auto elim: callerE)
  let ?time = "recalc_timeout time start s"
  have i: "ipc_object_ok (KMq i) s" using a by simp
  have ty: "rt_object_get_type (KMq i) s = RT_Object_Class_MessageQueue"
    using ipc_object_okD(1) [OF sys_okD(1) [OF system_invD(1) [OF inv]] i] by simp
  have "\<exists>r s'. mq_recv_loop i sz ?time s = Some (r, s') \<and> system_inv s'"
  proof (cases "mq_entry (k_mqs s i) = 0 \<and> ?time = 0")
    case True
    then show ?thesis
      using t error_system [OF error_system [OF inv, of t RT_EOK], of t "- RT_ETIMEOUT"]
      by (simp add: mq_recv_loop_def Let_def context_checks)
  next
    case False
    then have "rt_mq_recv i sz ?time s = mq_recv_loop i sz ?time s" using ty a by (auto simp: rt_mq_recv_def)
    then show ?thesis using mq_recv_system [OF inv, of i sz ?time] a by auto
  qed
  then show ?thesis using t(2) inv by (auto simp: rt_mq_recv_resume_def)
qed

lemma schedule_system:
  assumes inv: "system_inv s"
  shows "\<exists>s'. rt_schedule s = Some s' \<and> system_inv s'"
proof -
  obtain s' where s': "rt_schedule s = Some s'" "sys_ok s'" by (rule rt_schedule_total [OF system_invD(1) [OF inv]])
  then show ?thesis using system_inv_quiet [OF inv step_ok_schedule] by blast
qed

lemma counters_system:
  assumes "system_inv s"
  shows "system_inv (s\<lparr>k_tick := n\<rparr>)" "system_inv (s\<lparr>k_irq_nest := i\<rparr>)" "system_inv (s\<lparr>k_lock_nest := l\<rparr>)"
  using assms system_invD(1) [OF assms] by (auto intro!: system_inv_quiet [OF assms])

lemma exit_critical_system:
  assumes inv: "system_inv s"
  shows "\<exists>s'. rt_exit_critical s = Some s' \<and> system_inv s'"
  using schedule_system [OF counters_system(3) [OF counters_system(3) [OF inv, of "k_lock_nest s - 1"], of 0]]
    counters_system(3) [OF inv, of "k_lock_nest s - 1"] counters_system(3) [OF inv, of 0]
  by (auto simp: rt_exit_critical_def Let_def)

lemma sleep_system:
  assumes inv: "system_inv s" and a: "allowed (Sleep n) s"
  shows "\<exists>s'. exec cb (Sleep n) s = Some s' \<and> system_inv s'"
proof -
  note D = system_invD [OF inv]
  obtain t where t: "running_in t s" using a by (auto elim: callerE)
  have n: "n < RT_TICK_HALF" using a by simp
  obtain s' where r: "rt_thread_sleep n s = Some (Wait, s')" "sys_ok s'" using thread_sleep_correct [OF D(1) t n] by blast
  show ?thesis using system_inv_quiet [OF inv step_ok_sleep [OF sys_okD(1) [OF D(1)] t r(1)] r(2)] r(1) by simp
qed

section \<open>The tick keeps it\<close>

text \<open>Starting an expired hard timer again changes neither what it calls nor of what kind it is.\<close>

lemma rearm_same:
  assumes r: "timer_rearm x s = Some s'" and hard: "tflag s x AND RT_TIMER_FLAG_SOFT_TIMER = 0"
  shows "tm_func (k_timers s' u) = tm_func (k_timers s u)"
    "tflag s' u AND RT_TIMER_FLAG_PERIODIC = tflag s u AND RT_TIMER_FLAG_PERIODIC"
proof -
  let ?s = "upd_tflag x (\<lambda>f. f AND NOT RT_TIMER_FLAG_ACTIVATED) s"
  have h: "tflag ?s x AND RT_TIMER_FLAG_SOFT_TIMER = 0" using hard by (simp add: upd_obj_def rt_flag_simps)
  have "s' = ?s \<or> s' = timer_start_link x ?s"
    using r timer_start_hard(1) [OF _ h] by (auto simp: timer_rearm_def bind_eq_Some_conv split: if_splits)
  then show "tm_func (k_timers s' u) = tm_func (k_timers s u)"
    "tflag s' u AND RT_TIMER_FLAG_PERIODIC = tflag s u AND RT_TIMER_FLAG_PERIODIC"
    by (auto simp: timer_start_link_fields(2,3) upd_obj_def rt_flag_simps)
qed

lemma timer_remove_system:
  assumes inv: "system_inv s"
  shows "system_inv (timer_remove x s)"
proof (rule system_inv_quiet [OF inv])
  show "step_ok {} s (timer_remove x s)"
    unfolding step_ok_def
    by (intro conjI touches_fields keeps_timers_fields) (auto simp: timer_remove_def tbl_remove_def)
  note ok = system_invD(1) [OF inv]
  show "sys_ok (timer_remove x s)"
    by (rule sys_ok_timer_frame [OF ok kinv_timer_remove [OF sys_okD(2) [OF ok]] timer_frame_remove])
      (simp add: ttimer_same_def)
qed

lemma timer_fire_system:
  assumes inv: "system_inv s" and cb: "callbacks_ok cb" and l: "k_tmlists s HardTimers = t # ts"
    and r: "timer_fire cb t s = Some s'"
  shows "system_inv s'"
proof -
  note D = system_invD [OF inv] and cb' = cb [unfolded callbacks_ok_def]
  have per: "periods_ok s" and fn: "\<And>x u. tm_func (k_timers s x) = TF_thread_timeout u \<Longrightarrow> x = ThreadTimer u"
    and os: "\<And>u. tflag s (ThreadTimer u) AND RT_TIMER_FLAG_PERIODIC = 0"
    using D(2) by (auto simp: timer_rules_def)
  have t: "t \<in> set (k_tmlists s HardTimers)" using l by simp
  have ok': "sys_ok s'" "periods_ok s'"
    by (rule timer_fire_total [OF D(1) conjunct1 [OF cb'] per l]; use r in simp)+
  obtain s1 where s1: "call_timeout cb (tm_func (k_timers s t)) (timer_remove t s) = Some s1" "sys_ok s1"
    "timers_less (timer_remove t s) s1"
    by (rule call_timeout_total [OF D(1) conjunct1 [OF cb'] t fn])
  have r1: "timer_rearm t s1 = Some s'" using r s1(1) by (simp add: timer_fire_def Let_def)
  have same: "k_timers s1 = k_timers s" "tflag s1 u AND 2 = tflag s u AND 2" "tflag s1 u AND 4 = tflag s u AND 4" for u
    using timers_lessD(1,3,4) [OF s1(3)] by (simp_all add: timer_remove_def)
  have hard: "tflag s1 t AND RT_TIMER_FLAG_SOFT_TIMER = 0"
    using timers_invD(3) [OF kinvD(2) [OF sys_okD(2) [OF D(1)]] t] same(3) by simp
  have "timer_rules s'"
    using ok'(2) fn os unfolding timer_rules_def rearm_same [OF r1 hard] same by blast
  moreover have "\<forall>k. ipc_object_ok k s1 \<longrightarrow> object_inv k s1"
  proof (cases "tm_func (k_timers s t)")
    case (TF_user i arg)
    then have "cb i arg (timer_remove t s) = Some s1" using s1(1) by simp
    then have "system_inv s1" using timer_remove_system [OF inv] conjunct2 [OF cb'] by blast
    then show ?thesis using system_invD(3) by blast
  next
    case (TF_thread_timeout u)
    have "touches {KThread 0} (timer_remove t s) s1" using s1(1) TF_thread_timeout by (simp add: touches_thread_timeout)
    then show ?thesis
      by (rule system_inv_objects) (use system_invD(3) [OF timer_remove_system [OF inv]] in auto)
  qed
  then have "\<forall>k. ipc_object_ok k s' \<longrightarrow> object_inv k s'"
    by (rule system_inv_objects [OF touches_timer_rearm [OF r1, of "{KThread 0}"]]) simp
  ultimately show ?thesis using ok'(1) by (simp add: system_inv_def)
qed

lemma timer_check_system:
  assumes r: "rt_timer_check cb s = Some s'" and inv: "system_inv s" and cb: "callbacks_ok cb"
  shows "system_inv s'"
proof -
  have "system_inv s \<longrightarrow> callbacks_ok cb \<longrightarrow> system_inv s'"
  proof (rule rt_timer_check.raw_induct [OF _ r], intro impI)
    fix check cb s s'
    assume IH: "\<And>cb s s'. check cb s = Some s' \<Longrightarrow> system_inv s \<longrightarrow> callbacks_ok cb \<longrightarrow> system_inv s'"
      and r: "(case k_tmlists s HardTimers of [] \<Rightarrow> Some s
        | t # _ \<Rightarrow> if due s t then do { s \<leftarrow> timer_fire cb t s; check cb s } else Some s) = Some s'"
      and inv: "system_inv s" and cb: "callbacks_ok cb"
    consider "s' = s" | t ts s1 where "k_tmlists s HardTimers = t # ts" "timer_fire cb t s = Some s1" "check cb s1 = Some s'"
      using r by (auto simp: bind_eq_Some_conv split: list.splits if_splits)
    then show "system_inv s'"
      using IH timer_fire_system [OF inv cb] inv cb by cases blast+
  qed
  then show ?thesis using inv cb by blast
qed

lemma tick_system:
  assumes inv: "system_inv s" and cb: "callbacks_ok cb"
  shows "\<exists>s'. SysTick_Handler cb s = Some s' \<and> system_inv s'"
proof -
  let ?s = "(rt_interrupt_enter s)\<lparr>k_tick := k_tick s + 1\<rparr>"
  have 1: "system_inv ?s" unfolding rt_interrupt_enter_def by (intro counters_system inv)
  obtain s1 where s1: "tick_slice ?s = Some s1" "sys_ok s1" "timers_same ?s s1"
    by (rule tick_slice_run [OF system_invD(1) [OF 1]])
  have 2: "system_inv s1" by (rule system_inv_quiet [OF 1 step_ok_tick_slice [OF s1(1)] s1(2)])
  have "callback_ok cb" "periods_ok s1" using cb system_invD(2) [OF 2] by (simp_all add: callbacks_ok_def timer_rules_def)
  then obtain s2 where s2: "rt_timer_check cb s1 = Some s2" using rt_timer_check_total [OF system_invD(1) [OF 2]] by blast
  have "system_inv s2" by (rule timer_check_system [OF s2 2 cb])
  moreover have "rt_tick_increase cb (rt_interrupt_enter s) = Some s2"
    using s1(1) s2 by (simp add: rt_tick_increase_slice rt_interrupt_enter_def)
  ultimately show ?thesis
    using counters_system(2) by (simp add: SysTick_Handler_def Let_def rt_interrupt_leave_def)
qed

text \<open>A timeout function that releases a semaphore is one of those the theorems below allow: it may wake a
  thread that waits with a time limit, and then stops this thread's timer.\<close>

lemma timers_less_stop: "rt_timer_stop x s = Some (e, s') \<Longrightarrow> timers_less s s'"
proof -
  assume r: "rt_timer_stop x s = Some (e, s')"
  show "timers_less s s'"
  proof (cases "tflag s x AND 1 = 0")
    case True
    then have "s' = s" using r by (auto simp: rt_timer_stop_def bind_Some_iff)
    then show ?thesis by (simp add: timers_same_less timers_same_def)
  next
    case False
    then have s': "s' = upd_tflag x (\<lambda>f. f AND NOT 1) (timer_remove x s)"
      using r by (auto simp: rt_timer_stop_def bind_Some_iff Let_def)
    have "\<exists>P. k_tmlists s' h = filter P (k_tmlists s h)" for h
      by (rule exI [of _ "\<lambda>y. x \<noteq> y"]) (simp add: s' timer_remove_def tbl_remove_def removeAll_filter_not_eq)
    moreover have "tflag s' u AND NOT 1 = tflag s u AND NOT 1" for u
      by (simp add: s' timer_remove_def upd_obj_def and.assoc)
    ultimately show ?thesis by (simp add: timers_less_def) (simp add: s' timer_remove_def upd_obj_def)
  qed
qed

lemma timers_less_resume:
  assumes r: "rt_thread_resume t s = Some (e, s')"
  shows "timers_less s s'"
proof (cases "tstat s t = RT_THREAD_SUSPEND")
  case False
  then have "s' = s" using r by (auto simp: rt_thread_resume_def bind_Some_iff)
  then show ?thesis by (simp add: timers_same_less timers_same_def)
next
  case True
  let ?s = "s\<lparr>k_tlists := tbl_remove t (k_tlists s)\<rparr>"
  obtain e1 s1 where s1: "rt_timer_stop (ThreadTimer t) ?s = Some (e1, s1)" "rt_schedule_insert_thread t s1 = Some s'"
    using r True by (auto simp: rt_thread_resume_def bind_Some_iff Let_def)
  have "timers_same s ?s" by (simp add: timers_same_def)
  then show ?thesis
    using timers_less_trans timers_same_less timers_less_stop [OF s1(1)] timers_same_sched [OF sched_frame_insert [OF s1(2)]]
    by blast
qed

lemma timers_less_sem_release:
  assumes r: "rt_sem_release i s = Some (e, s')"
  shows "timers_less s s'"
proof (cases "k_tlists s (Susp (KSem i))")
  case Nil
  then have "s' = upd_sem i (\<lambda>v. v + 1) s" using r by (auto simp: rt_sem_release_def bind_Some_iff)
  then show ?thesis by (simp add: timers_same_less timers_same_def upd_sem_def)
next
  case (Cons t ts)
  then obtain e1 s1 where "rt_thread_resume t s = Some (e1, s1)" "rt_schedule s1 = Some s'"
    using r by (auto simp: rt_sem_release_def rt_ipc_list_resume_def bind_Some_iff)
  then show ?thesis
    using timers_less_trans timers_same_less timers_less_resume timers_same_sched [OF sched_frame_schedule] by blast
qed

lemma callbacks_ok_release:
  "callbacks_ok (\<lambda>_ _ s. if ipc_object_ok (KSem i) s then map_option snd (rt_sem_release i s) else Some s)"
  unfolding callbacks_ok_def callback_ok_def
proof (intro conjI allI impI)
  fix s assume ok: "sys_ok s"
  show "\<exists>s'. (if ipc_object_ok (KSem i) s then map_option snd (rt_sem_release i s) else Some s) = Some s' \<and>
      sys_ok s' \<and> timers_less s s'"
  proof (cases "ipc_object_ok (KSem i) s")
    case True
    then obtain s' where "rt_sem_release i s = Some (RT_EOK, s')" "sys_ok s'" using sem_release_correct [OF ok] by blast
    then show ?thesis using True timers_less_sem_release by auto
  next
    case False
    then show ?thesis using ok by (simp add: timers_same_less timers_same_def)
  qed
next
  fix s s'
  assume inv: "system_inv s" and r: "(if ipc_object_ok (KSem i) s then map_option snd (rt_sem_release i s) else Some s) = Some s'"
  then show "system_inv s'"
    using sem_release_system [OF inv, of i undefined] by (auto split: if_splits)
qed

section \<open>Reachable states\<close>

lemmas call_system = sem_take_system sem_release_system mutex_take_system mutex_release_system
  event_send_system event_recv_system mb_send_system mb_send_again_system mb_recv_system mb_recv_again_system
  mq_send_system mq_send_again_system mq_urgent_system mq_recv_system mq_recv_again_system sleep_system

lemma exec_system:
  assumes inv: "system_inv s" and cb: "callbacks_ok cb" and a: "allowed c s"
  shows "\<exists>s'. exec cb c s = Some s' \<and> system_inv s'"
proof (cases c)
  case Tick
  then show ?thesis using tick_system [OF inv cb] by simp
next
  case Schedule
  then show ?thesis using schedule_system [OF inv] by simp
next
  case EnterCritical
  then show ?thesis using counters_system(3) [OF inv] by (simp add: rt_enter_critical_def)
next
  case ExitCritical
  then show ?thesis using exit_critical_system [OF inv] by simp
qed (insert a, hypsubst, rule call_system [OF inv], assumption)+

lemma reachable_system_inv:
  assumes "reachable cb s0 s" "system_inv s0" "callbacks_ok cb"
  shows "system_inv s"
  using assms
proof (induction rule: reachable.induct)
  case (call s c s')
  then show ?case using exec_system [of s cb c] by auto
qed

text \<open>
  C1: From a state that satisfies the system invariant, any interleaving of allowed kernel calls
  and tick interrupts leads to a state that satisfies it again; in every state so reached, every
  allowed call returns without tripping an assertion of the kernel and keeps the invariant.  This
  holds for every application whose timeout functions, which the tick interrupt calls, satisfy
  \<open>callbacks_ok\<close>: called in a state that satisfies the invariant they return and keep it, leave
  the clock alone, and do no more to the timers than stop some of them (waking a thread that waits
  with a time limit stops that thread's timer); they start, register and change no timer.
\<close>

theorem reachable_never_stuck:
  assumes "reachable cb s0 s" "system_inv s0" "callbacks_ok cb" "allowed c s"
  shows "system_inv s \<and> (\<exists>s'. exec cb c s = Some s' \<and> system_inv s')"
  using reachable_system_inv [OF assms(1-3)] exec_system assms(3,4) by blast

text \<open>
  C2: In every reachable state no wake-up is lost and mutual exclusion holds: threads wait on a
  semaphore only while it has no units, on an event set only while its flags do not satisfy them,
  on a mutex only while another live thread owns it, and an owner never waits for its own mutex.
  Reachable is meant from a state that satisfies the system invariant, by allowed calls and ticks,
  with timeout functions of the application that satisfy \<open>callbacks_ok\<close>: they return, keep the
  invariant, leave the clock alone, and do no more to the timers than stop some of them.
\<close>

theorem reachable_no_lost_wakeup:
  assumes "reachable cb s0 s" "system_inv s0" "callbacks_ok cb"
  shows "(\<forall>i. ipc_object_ok (KSem i) s \<longrightarrow> snd (sem_abs i s) \<noteq> [] \<longrightarrow> fst (sem_abs i s) = 0) \<and>
     (\<forall>i. ipc_object_ok (KEvent i) s \<longrightarrow> (\<forall>t \<in> set (snd (event_abs i s)).
        event_match (th_event_info (thread s t)) (th_event_set (thread s t)) (fst (event_abs i s)) = None)) \<and>
     (\<forall>i t. ipc_object_ok (KMutex i) s \<longrightarrow> t \<in> set (snd (mutex_abs i s)) \<longrightarrow>
        (\<exists>u n. fst (mutex_abs i s) = Some (u, n) \<and> 0 < n \<and> u \<noteq> t \<and> live (tstat s u)))"
proof (intro conjI allI impI)
  note inv = reachable_system_inv [OF assms]
  note O = system_invD(3) [OF inv]
  show "fst (sem_abs i s) = 0" if "ipc_object_ok (KSem i) s" "snd (sem_abs i s) \<noteq> []" for i
    using O [OF that(1)] that(2) unfolding sem_inv_object by blast
  show "\<forall>t \<in> set (snd (event_abs i s)).
      event_match (th_event_info (thread s t)) (th_event_set (thread s t)) (fst (event_abs i s)) = None"
    if "ipc_object_ok (KEvent i) s" for i
    using O [OF that] by (simp add: event_inv_def event_abs_def)
  show "\<exists>u n. fst (mutex_abs i s) = Some (u, n) \<and> 0 < n \<and> u \<noteq> t \<and> live (tstat s u)"
    if "ipc_object_ok (KMutex i) s" "t \<in> set (snd (mutex_abs i s))" for i t
    using O [OF that(1)] that(2) by (auto simp: mutex_ok_def mutex_abs_def unat_gt_0 split: option.splits)
qed

end
