(* ===== verification/Idle.thy ===== *)
theory Idle
  imports Clock
begin

text \<open>
  The idle thread, \<^verbatim>\<open>src/idle.c\<close>: the list of idle hooks and the clean-up of threads that have
  ended.  The hooks and the clean-up functions belong to the application and are parameters.  The
  stack of a thread that is deleted goes back to the allocator together with its object, which
  \<open>k_freed\<close> records.
\<close>

section \<open>Operations\<close>

abbreviation (input) RT_ENOSYS :: rt_err where "RT_ENOSYS \<equiv> 6"

text \<open>A slot of \<^verbatim>\<open>idle_hook_list\<close> holds a hook or a null pointer; the array has
  \<^verbatim>\<open>RT_IDLE_HOOK_LIST_SIZE\<close> slots.\<close>

fun rt_thread_idle_sethook :: "'h option \<Rightarrow> 'h option list \<Rightarrow> rt_err \<times> 'h option list" where
  "rt_thread_idle_sethook hook [] = (- RT_EFULL, [])"
| "rt_thread_idle_sethook hook (slot # slots) =
     (if slot = None then (RT_EOK, hook # slots)
      else let (ret, slots) = rt_thread_idle_sethook hook slots in (ret, slot # slots))"

fun rt_thread_idle_delhook :: "'h option \<Rightarrow> 'h option list \<Rightarrow> rt_err \<times> 'h option list" where
  "rt_thread_idle_delhook hook [] = (- RT_ENOSYS, [])"
| "rt_thread_idle_delhook hook (slot # slots) =
     (if slot = hook then (RT_EOK, None # slots)
      else let (ret, slots) = rt_thread_idle_delhook hook slots in (ret, slot # slots))"

type_synonym cleanup_fun = "nat \<Rightarrow> tid \<Rightarrow> kstate \<Rightarrow> kstate option"

text \<open>The clean-up of the first defunct thread, with the scheduler locked; the flag tells whether
  the loop goes on.\<close>

definition idle_cleanup :: "cleanup_fun \<Rightarrow> tid \<Rightarrow> kstate \<Rightarrow> (bool \<times> kstate) option" where
  "idle_cleanup cleanup t s = do {
     let s = s\<lparr>k_tlists := tbl_remove t (k_tlists s)\<rparr>;
     let s = rt_enter_critical s;
     s \<leftarrow> (case th_cleanup (thread s t) of None \<Rightarrow> Some s | Some f \<Rightarrow> cleanup f t s);
     if rt_object_is_systemobject (KThread t) s
     then do {
       let s = rt_object_detach (KThread t) s;
       s \<leftarrow> rt_exit_critical s;
       Some (False, s)
     }
     else do {
       s \<leftarrow> rt_exit_critical s;
       s \<leftarrow> rt_object_delete (KThread t) s;
       Some (True, s)
     }
   }"

partial_function (option) rt_thread_idle_excute :: "cleanup_fun \<Rightarrow> kstate \<Rightarrow> kstate option" where
  "rt_thread_idle_excute cleanup s =
     (case k_tlists s Defunct of
        [] \<Rightarrow> Some s
      | t # _ \<Rightarrow> do {
          rt_debug_not_in_interrupt s;
          (more, s) \<leftarrow> idle_cleanup cleanup t s;
          if more then rt_thread_idle_excute cleanup s else Some s
        })"

text \<open>One round of \<^verbatim>\<open>rt_thread_idle_entry\<close>.\<close>

definition rt_thread_idle_entry ::
    "('h \<Rightarrow> kstate \<Rightarrow> kstate option) \<Rightarrow> 'h option list \<Rightarrow> cleanup_fun \<Rightarrow> kstate \<Rightarrow> kstate option" where
  "rt_thread_idle_entry call hooks cleanup s = do {
     s \<leftarrow> fold (\<lambda>slot r. do { s \<leftarrow> r; case slot of None \<Rightarrow> Some s | Some h \<Rightarrow> call h s }) hooks (Some s);
     rt_thread_idle_excute cleanup s
   }"

text \<open>\<^verbatim>\<open>t\<close> is the static \<^verbatim>\<open>idle[0]\<close>, with its stack of 256 bytes; its name is \<^verbatim>\<open>tidle0\<close>.\<close>

definition rt_thread_idle_init :: "tid \<Rightarrow> rt_uint32 \<Rightarrow> rt_uint32 \<Rightarrow> kstate \<Rightarrow> kstate option" where
  "rt_thread_idle_init t entry stack s = do {
     (_, s) \<leftarrow> rt_thread_init t [116, 105, 100, 108, 101, 48] entry 0 stack 256 31 32 s;
     (_, s) \<leftarrow> rt_thread_startup t s;
     Some s
   }"

section \<open>Hooks\<close>

text \<open>The installed hooks, in the order in which the idle thread calls them.\<close>

lemma sethook_full:
  "rt_thread_idle_sethook hook slots = (ret, slots') \<Longrightarrow> None \<notin> set slots \<Longrightarrow> ret = - RT_EFULL \<and> slots' = slots"
  by (induction slots arbitrary: slots') (auto split: prod.splits)

lemma sethook_free:
  assumes "None \<in> set slots"
  shows "\<exists>xs ys. slots = xs @ None # ys \<and> None \<notin> set xs \<and> rt_thread_idle_sethook hook slots = (RT_EOK, xs @ hook # ys)"
  using assms
proof (induction slots)
  case (Cons slot slots)
  show ?case
  proof (cases slot)
    case None
    then have "slot # slots = [] @ None # slots \<and> None \<notin> set [] \<and>
        rt_thread_idle_sethook hook (slot # slots) = (RT_EOK, [] @ hook # slots)" by simp
    then show ?thesis by blast
  next
    case (Some h)
    then obtain xs ys where "slots = xs @ None # ys" "None \<notin> set xs"
      "rt_thread_idle_sethook hook slots = (RT_EOK, xs @ hook # ys)"
      using Cons by auto
    then have "slot # slots = (slot # xs) @ None # ys \<and> None \<notin> set (slot # xs) \<and>
        rt_thread_idle_sethook hook (slot # slots) = (RT_EOK, (slot # xs) @ hook # ys)" using Some by simp
    then show ?thesis by blast
  qed
qed simp

lemma delhook_found:
  assumes "hook \<in> set slots"
  shows "\<exists>xs ys. slots = xs @ hook # ys \<and> hook \<notin> set xs \<and> rt_thread_idle_delhook hook slots = (RT_EOK, xs @ None # ys)"
  using assms
proof (induction slots)
  case (Cons slot slots)
  show ?case
  proof (cases "slot = hook")
    case True
    then have "slot # slots = [] @ hook # slots \<and> hook \<notin> set [] \<and>
        rt_thread_idle_delhook hook (slot # slots) = (RT_EOK, [] @ None # slots)" by simp
    then show ?thesis by blast
  next
    case False
    then obtain xs ys where "slots = xs @ hook # ys" "hook \<notin> set xs"
      "rt_thread_idle_delhook hook slots = (RT_EOK, xs @ None # ys)"
      using Cons by auto
    then have "slot # slots = (slot # xs) @ hook # ys \<and> hook \<notin> set (slot # xs) \<and>
        rt_thread_idle_delhook hook (slot # slots) = (RT_EOK, (slot # xs) @ None # ys)" using False by simp
    then show ?thesis by blast
  qed
qed simp

lemma delhook_missing: "hook \<notin> set slots \<Longrightarrow> rt_thread_idle_delhook hook slots = (- RT_ENOSYS, slots)"
  by (induction slots) auto

section \<open>Cleaning up\<close>

text \<open>A clean-up function of the application returns, keeps the invariant, and leaves the registered
  threads, their state and the list of defunct threads alone.\<close>

definition cleanup_ok :: "cleanup_fun \<Rightarrow> bool" where
  "cleanup_ok cleanup \<longleftrightarrow> (\<forall>f t s. sys_ok s \<longrightarrow> (\<exists>s'. cleanup f t s = Some s' \<and> sys_ok s' \<and>
     k_tlists s' Defunct = k_tlists s Defunct \<and> k_irq_nest s' = k_irq_nest s \<and> k_freed s' = k_freed s \<and>
     (\<forall>u. k_objs s' (KThread u) = k_objs s (KThread u) \<and> (listed (KThread u) s' \<longleftrightarrow> listed (KThread u) s) \<and>
        (tstat s' u = RT_THREAD_CLOSE \<longleftrightarrow> tstat s u = RT_THREAD_CLOSE))))"

text \<open>What a step of the clean-up keeps of the other threads.\<close>

definition cleanup_frame :: "kstate \<Rightarrow> kstate \<Rightarrow> bool" where
  "cleanup_frame s s' \<longleftrightarrow> k_tlists s' Defunct = k_tlists s Defunct \<and> k_irq_nest s' = k_irq_nest s \<and> k_freed s' = k_freed s \<and>
     (\<forall>u. k_objs s' (KThread u) = k_objs s (KThread u) \<and> (listed (KThread u) s' \<longleftrightarrow> listed (KThread u) s) \<and>
        (tstat s' u = RT_THREAD_CLOSE \<longleftrightarrow> tstat s u = RT_THREAD_CLOSE))"

lemma cleanup_frame_refl [simp]: "cleanup_frame s s" "cleanup_frame s (rt_enter_critical s)"
  by (simp_all add: cleanup_frame_def rt_enter_critical_def)

lemma cleanup_frame_trans: "cleanup_frame s1 s2 \<Longrightarrow> cleanup_frame s2 s3 \<Longrightarrow> cleanup_frame s1 s3"
  by (simp add: cleanup_frame_def)

lemma closed_unlinked:
  assumes "sched_wf s" "tstat s t = RT_THREAD_CLOSE" "t \<notin> set (k_tlists s Defunct)"
  shows "unlinked t (k_tlists s)"
  unfolding unlinked_def
proof
  fix h
  show "t \<notin> set (k_tlists s h)"
    using sched_invD(4-6,12) [OF assms(1), of t] assms(2,3) by (cases h) auto
qed

lemma exit_critical_frame:
  assumes ok: "sys_ok s"
  obtains s' where "rt_exit_critical s = Some s'" "sys_ok s'" "cleanup_frame s s'"
proof -
  let ?s = "s\<lparr>k_lock_nest := 0\<rparr>"
  have ok0: "sys_ok ?s" using ok by simp
  obtain s1 where s1: "rt_schedule ?s = Some s1" "sys_ok s1" "core_frame ?s s1"
    "\<And>h. \<forall>p. h \<noteq> Ready p \<Longrightarrow> k_tlists s1 h = k_tlists ?s h"
    "\<And>t. runnable (tstat s1 t) \<longleftrightarrow> runnable (tstat ?s t)" "\<And>t. th_error (thread s1 t) = th_error (thread ?s t)"
    by (rule rt_schedule_run [OF ok0]) (rule that; assumption)
  have st: "tstat s1 u = tstat s u \<or> runnable (tstat s1 u) \<and> runnable (tstat s u)" for u
    using rt_schedule_step [OF _ s1(1)] sys_okD(3) [OF ok0] by (auto simp: sched_step_def)
  have f1: "cleanup_frame s s1"
    unfolding cleanup_frame_def
  proof (intro conjI allI)
    fix u
    show "tstat s1 u = RT_THREAD_CLOSE \<longleftrightarrow> tstat s u = RT_THREAD_CLOSE" using st [of u] by (auto simp: runnable_def)
    show "k_objs s1 (KThread u) = k_objs s (KThread u)" using s1(3) by (simp add: core_frame_def)
    show "listed (KThread u) s1 \<longleftrightarrow> listed (KThread u) s" by (simp add: core_frame_fields [OF s1(3)])
  qed (simp_all add: s1(4) core_frame_fields [OF s1(3)])
  have f2: "cleanup_frame s (s\<lparr>k_lock_nest := k_lock_nest s - 1\<rparr>)" by (simp add: cleanup_frame_def)
  obtain c where "k_current s = Some c" using ok by (auto simp: sys_ok_def)
  then have "(sint (k_lock_nest s - 1) \<le> 0 \<longrightarrow> rt_exit_critical s = Some s1) \<and>
      (\<not> sint (k_lock_nest s - 1) \<le> 0 \<longrightarrow> rt_exit_critical s = Some (s\<lparr>k_lock_nest := k_lock_nest s - 1\<rparr>))"
    using s1(1) by (auto simp: rt_exit_critical_def)
  then show thesis
    using that [OF _ s1(2) f1] that [OF _ _ f2] ok by (metis sys_ok_counters(3))
qed

lemma thread_object_gone:
  assumes ok: "sys_ok s" and st: "tstat s t = RT_THREAD_CLOSE" and un: "t \<notin> set (k_tlists s Defunct)"
    and s': "s' = rt_object_detach (KThread t) s \<or> rt_object_delete (KThread t) s = Some s'"
  shows "sys_ok s'" "\<not> listed (KThread t) s'" "k_tlists s' = k_tlists s" "k_irq_nest s' = k_irq_nest s" "k_threads s' = k_threads s"
    "u \<noteq> t \<Longrightarrow> k_objs s' (KThread u) = k_objs s (KThread u) \<and> (listed (KThread u) s' \<longleftrightarrow> listed (KThread u) s)"
    "k_current s' = k_current s" "k_mem s' = k_mem s"
    "k_freed s' = k_freed s \<or> k_freed s' = KThread t # k_freed s"
proof -
  note D = sys_okD [OF ok]
  have wl: "k_tlists s (Susp (KThread t)) = []" "k_tlists s (SuspSender (KThread t)) = []"
    using reg_invD(5,6) [OF kinvD(4) [OF D(2)], of "KThread t"] by (auto simp: wait_target_def)
  have q: "quiescent {} (KThread t) s" using closed_unlinked [OF D(3) st un] st wl by (simp add: quiescent_def)
  have F: "k_olists s' = tbl_remove (KThread t) (k_olists s)" "k_objs s' = (k_objs s)(KThread t := (k_objs s (KThread t))\<lparr>o_type := 0\<rparr>)"
    "k_timers s' = k_timers s"
    using s' by (auto simp: rt_object_detach_def rt_object_delete_def Let_def upd_obj_def split: if_splits)
  show G: "k_tlists s' = k_tlists s" "k_irq_nest s' = k_irq_nest s" "k_threads s' = k_threads s" "k_current s' = k_current s" "k_mem s' = k_mem s"
    "k_freed s' = k_freed s \<or> k_freed s' = KThread t # k_freed s"
    using s' by (auto simp: rt_object_detach_def rt_object_delete_def Let_def upd_obj_def split: if_splits)
  show "\<not> listed (KThread t) s'" by (simp add: F(1))
  show "u \<noteq> t \<Longrightarrow> k_objs s' (KThread u) = k_objs s (KThread u) \<and> (listed (KThread u) s' \<longleftrightarrow> listed (KThread u) s)"
    by (simp add: F)
  have "kinv {} s'"
    using s' kinv_object_detach [OF D(2) q] kinv_object_delete [OF D(2) q] by auto
  moreover have "ttimers_ok s'" by (rule ttimers_ok_drop [OF D(4) _ F(3,2,1)]) simp
  ultimately show "sys_ok s'"
    using ok unfolding sys_ok_def kernel_ok_def stack_ok_def scheduler_stack_check_def by (simp add: G)
qed

lemma idle_cleanup_total:
  assumes ok: "sys_ok s" and cl: "cleanup_ok cleanup" and l: "k_tlists s Defunct = t # ts"
  obtains s' where
    "idle_cleanup cleanup t s = Some (\<not> rt_object_is_systemobject (KThread t) s, s')" "sys_ok s'"
    "k_tlists s' Defunct = ts" "k_irq_nest s' = k_irq_nest s" "\<not> listed (KThread t) s'"
    "\<And>u. u \<noteq> t \<Longrightarrow> k_objs s' (KThread u) = k_objs s (KThread u) \<and> (listed (KThread u) s' \<longleftrightarrow> listed (KThread u) s)"
    "k_freed s' = (if rt_object_is_systemobject (KThread t) s then [] else [KThread t]) @ k_freed s"
proof -
  note D = sys_okD [OF ok]
  let ?s1 = "rt_enter_critical (s\<lparr>k_tlists := tbl_remove t (k_tlists s)\<rparr>)"
  have st: "tstat s t = RT_THREAD_CLOSE" using sched_invD(7) [OF D(3), of t] l by simp
  have dist: "distinct (t # ts)" using sched_invD(1) [OF D(3)] l by (metis table_wf_def)
  have only: "tbl_remove t (k_tlists s) Defunct = ts" using l dist by (simp add: tbl_remove_def)
  have "sys_ok (s\<lparr>k_tlists := tbl_remove t (k_tlists s)\<rparr>)"
    using kinv_unlink_waiting [OF D(2), of t] st D(4) ok
    by (simp add: sys_ok_def kernel_ok_def ttimers_ok_def stack_ok_def scheduler_stack_check_def)
  then have ok1: "sys_ok ?s1" by (simp add: rt_enter_critical_def)
  have F1: "k_tlists ?s1 Defunct = ts" "k_objs ?s1 = k_objs s" "k_olists ?s1 = k_olists s" "k_threads ?s1 = k_threads s"
    "k_irq_nest ?s1 = k_irq_nest s" "k_freed ?s1 = k_freed s"
    using only by (simp_all add: rt_enter_critical_def)
  obtain s2 where s2: "(case th_cleanup (thread ?s1 t) of None \<Rightarrow> Some ?s1 | Some f \<Rightarrow> cleanup f t ?s1) = Some s2"
    "sys_ok s2" "cleanup_frame ?s1 s2"
  proof (cases "th_cleanup (thread ?s1 t)")
    case (Some f)
    then show thesis using that cl ok1 unfolding cleanup_ok_def cleanup_frame_def by fastforce
  qed (use that ok1 in auto)
  note C2 = s2(3) [unfolded cleanup_frame_def]
  have sysob: "rt_object_is_systemobject (KThread t) s2 = rt_object_is_systemobject (KThread t) s"
    using C2 F1(2) by (simp add: rt_object_is_systemobject_def)
  have st2: "tstat s2 t = RT_THREAD_CLOSE" "t \<notin> set (k_tlists s2 Defunct)" using C2 F1(1,4) st dist by auto
  show thesis
  proof (cases "rt_object_is_systemobject (KThread t) s")
    case True
    let ?s3 = "rt_object_detach (KThread t) s2"
    note G = thread_object_gone [OF s2(2) st2, of ?s3, simplified]
    obtain s' where s': "rt_exit_critical ?s3 = Some s'" "sys_ok s'" "cleanup_frame ?s3 s'" by (rule exit_critical_frame [OF G(1)])
    note C' = s'(3) [unfolded cleanup_frame_def]
    have fr: "k_freed ?s3 = k_freed s2" by (simp add: rt_object_detach_def Let_def upd_obj_def)
    show thesis
      by (rule that [of s']) (use True s2(1) s'(1,2) C' C2 G F1 sysob fr in \<open>auto simp: idle_cleanup_def Let_def\<close>)
  next
    case False
    obtain s3 where s3: "rt_exit_critical s2 = Some s3" "sys_ok s3" "cleanup_frame s2 s3" by (rule exit_critical_frame [OF s2(2)])
    note C3 = s3(3) [unfolded cleanup_frame_def]
    have ns: "o_type (k_objs s3 (KThread t)) AND RT_Object_Class_Static = 0"
      using False sysob C3 by (simp add: rt_object_is_systemobject_def)
    then obtain s' where s': "rt_object_delete (KThread t) s3 = Some s'" "k_freed s' = KThread t # k_freed s3"
      by (auto simp: rt_object_delete_def Let_def)
    have st3: "tstat s3 t = RT_THREAD_CLOSE" "t \<notin> set (k_tlists s3 Defunct)" using C3 st2 by auto
    note G = thread_object_gone [OF s3(2) st3 disjI2 [OF s'(1)]]
    show thesis
      by (rule that [of s']) (use False s2(1) s3(1) s' C3 C2 G F1 sysob in \<open>auto simp: idle_cleanup_def Let_def\<close>)
  qed
qed

section \<open>Properties\<close>

text \<open>The threads one call cleans up: the dynamic ones at the head of the list, and the first static
  one, after which the loop returns.\<close>

definition cleaned :: "kstate \<Rightarrow> tid list" where
  "cleaned s = takeWhile (\<lambda>t. \<not> rt_object_is_systemobject (KThread t) s) (k_tlists s Defunct)"

definition left_over :: "kstate \<Rightarrow> tid list" where
  "left_over s = tl (dropWhile (\<lambda>t. \<not> rt_object_is_systemobject (KThread t) s) (k_tlists s Defunct))"

lemma idle_excute_total:
  assumes "sys_ok s" "cleanup_ok cleanup" "k_irq_nest s = 0"
  shows "\<exists>s'. rt_thread_idle_excute cleanup s = Some s' \<and> sys_ok s' \<and> k_tlists s' Defunct = left_over s \<and>
     set (k_freed s') = KThread ` set (cleaned s) \<union> set (k_freed s) \<and>
     (\<forall>t \<in> set (k_tlists s Defunct) - set (left_over s). \<not> listed (KThread t) s') \<and>
     (\<forall>t. t \<notin> set (k_tlists s Defunct) \<longrightarrow> (listed (KThread t) s' \<longleftrightarrow> listed (KThread t) s))"
  using assms
proof (induction "k_tlists s Defunct" arbitrary: s)
  case Nil
  from Nil(1) [symmetric] show ?case
    using Nil(2) by (subst rt_thread_idle_excute.simps) (simp add: cleaned_def left_over_def)
next
  case (Cons t ts)
  note l = Cons.hyps(2) [symmetric]
  have dist: "distinct (t # ts)" using sched_invD(1) [OF sys_okD(3) [OF Cons.prems(1)]] l by (metis table_wf_def)
  obtain s1 where s1: "idle_cleanup cleanup t s = Some (\<not> rt_object_is_systemobject (KThread t) s, s1)" "sys_ok s1"
    "k_tlists s1 Defunct = ts" "k_irq_nest s1 = k_irq_nest s" "\<not> listed (KThread t) s1"
    "\<And>u. u \<noteq> t \<Longrightarrow> k_objs s1 (KThread u) = k_objs s (KThread u) \<and> (listed (KThread u) s1 \<longleftrightarrow> listed (KThread u) s)"
    "k_freed s1 = (if rt_object_is_systemobject (KThread t) s then [] else [KThread t]) @ k_freed s"
    by (rule idle_cleanup_total [OF Cons.prems(1,2) l]) (rule that; assumption)
  have run: "rt_thread_idle_excute cleanup s =
      (if rt_object_is_systemobject (KThread t) s then Some s1 else rt_thread_idle_excute cleanup s1)"
    using s1(1) l Cons.prems(3)
    by (subst rt_thread_idle_excute.simps) (simp add: rt_debug_not_in_interrupt_def rt_interrupt_get_nest_def)
  show ?case
  proof (cases "rt_object_is_systemobject (KThread t) s")
    case True
    have c: "cleaned s = []" "left_over s = ts" using l True by (simp_all add: cleaned_def left_over_def)
    have "listed (KThread u) s1 \<longleftrightarrow> listed (KThread u) s" if "u \<notin> set (t # ts)" for u using s1(6) that by simp
    then show ?thesis unfolding c l using run True s1 dist by auto
  next
    case False
    have same: "rt_object_is_systemobject (KThread u) s1 = rt_object_is_systemobject (KThread u) s" if "u \<in> set ts" for u
    proof -
      have "u \<noteq> t" using that dist by auto
      then show ?thesis using s1(6) by (simp add: rt_object_is_systemobject_def)
    qed
    have "takeWhile (\<lambda>u. \<not> rt_object_is_systemobject (KThread u) s1) ts = takeWhile (\<lambda>u. \<not> rt_object_is_systemobject (KThread u) s) ts"
      "dropWhile (\<lambda>u. \<not> rt_object_is_systemobject (KThread u) s1) ts = dropWhile (\<lambda>u. \<not> rt_object_is_systemobject (KThread u) s) ts"
      using same by (auto intro: takeWhile_cong dropWhile_cong)
    then have c: "cleaned s = t # cleaned s1" "left_over s = left_over s1"
      using l False s1(3) by (simp_all add: cleaned_def left_over_def)
    obtain s' where s': "rt_thread_idle_excute cleanup s1 = Some s'" "sys_ok s'" "k_tlists s' Defunct = left_over s1"
      "set (k_freed s') = KThread ` set (cleaned s1) \<union> set (k_freed s1)"
      "\<forall>u \<in> set ts - set (left_over s1). \<not> listed (KThread u) s'"
      "\<forall>u. u \<notin> set ts \<longrightarrow> (listed (KThread u) s' \<longleftrightarrow> listed (KThread u) s1)"
      using Cons.hyps(1) [of s1] s1(2-4) Cons.prems(2,3) by auto
    have "listed (KThread u) s' \<longleftrightarrow> listed (KThread u) s" if "u \<notin> set (t # ts)" for u using s1(6) s'(6) that by simp
    moreover have "\<not> listed (KThread t) s'" using s'(6) s1(5) dist by simp
    ultimately show ?thesis unfolding c l using run False s' s1(7) by auto
  qed
qed

text \<open>
  C39: One call of the idle thread's clean-up, outside interrupts, returns and keeps the system
  invariant.  It deletes the dynamic threads at the head of the defunct list and gives their
  memory back, then stops after the first static one: every thread it took off the list has left
  the container of threads, no other thread has, and the rest of the list is unchanged.  The theorem is
  for applications whose clean-up functions, which the idle thread calls for each of these threads,
  satisfy \<open>cleanup_ok\<close>: they return, keep the invariant, release no kernel object, end, register and
  unregister no thread, and leave the list of defunct threads and the interrupt nesting as they are.
\<close>

theorem rt_thread_idle_excute_cleans:
  assumes "sys_ok s" "cleanup_ok cleanup" "k_irq_nest s = 0"
  shows "\<exists>s'. rt_thread_idle_excute cleanup s = Some s' \<and> sys_ok s' \<and> k_tlists s' Defunct = left_over s \<and>
     set (k_freed s') = KThread ` set (cleaned s) \<union> set (k_freed s) \<and>
     (\<forall>t \<in> set (k_tlists s Defunct) - set (left_over s). \<not> listed (KThread t) s') \<and>
     (\<forall>t. t \<notin> set (k_tlists s Defunct) \<longrightarrow> (listed (KThread t) s' \<longleftrightarrow> listed (KThread t) s))"
  by (rule idle_excute_total [OF assms])

text \<open>
  Installing an idle hook takes the first free slot and nothing else, and fails with
  \<^verbatim>\<open>-RT_EFULL\<close> and no change when no slot is free; deleting a hook frees its first slot, and fails
  with \<^verbatim>\<open>-RT_ENOSYS\<close> and no change when it is not installed.
\<close>

theorem rt_thread_idle_hooks:
  "(if None \<in> set slots
    then \<exists>xs ys. slots = xs @ None # ys \<and> None \<notin> set xs \<and> rt_thread_idle_sethook hook slots = (RT_EOK, xs @ hook # ys)
    else rt_thread_idle_sethook hook slots = (- RT_EFULL, slots)) \<and>
   (if hook \<in> set slots
    then \<exists>xs ys. slots = xs @ hook # ys \<and> hook \<notin> set xs \<and> rt_thread_idle_delhook hook slots = (RT_EOK, xs @ None # ys)
    else rt_thread_idle_delhook hook slots = (- RT_ENOSYS, slots))"
  using sethook_free [of slots hook] sethook_full [of hook slots] delhook_found [of hook slots] delhook_missing [of hook slots]
  by (cases "rt_thread_idle_sethook hook slots") auto

end
