(* ===== verification/Startup.thy ===== *)
theory Startup
  imports System Idle
begin

text \<open>
  The start of the system, \<^verbatim>\<open>rtthread_startup\<close> and \<^verbatim>\<open>rt_application_init\<close> of \<^verbatim>\<open>src/components.c\<close>: the
  board initialises itself, the lists are set up, the main, the timer and the idle thread are made
  and the scheduler picks the first.  The board's initialisation is a parameter.  From a board state
  without threads the start ends in a state that satisfies the system invariant, so everything that
  is shown of reachable states holds of a system that was started this way.
\<close>

section \<open>Operations\<close>

text \<open>\<open>alloc\<close> and \<open>stack\<close> are what the two allocations of \<^verbatim>\<open>rt_thread_create\<close> return; the
  stack has 2048 bytes, the priority is 10, the slice 20 ticks and the name \<^verbatim>\<open>main\<close>.\<close>

definition rt_application_init :: "rt_uint32 \<Rightarrow> tid option \<Rightarrow> rt_uint32 option \<Rightarrow> kstate \<Rightarrow> kstate option" where
  "rt_application_init entry alloc stack s = do {
     (r, s) \<leftarrow> rt_thread_create [109, 97, 105, 110] entry 0 2048 10 20 alloc stack s;
     t \<leftarrow> r;
     (_, s) \<leftarrow> rt_thread_startup t s;
     Some s
   }"

text \<open>The memory and the code addresses a start uses.\<close>

record boot_layout =
  main_entry :: rt_uint32
  main_alloc :: "tid option"
  main_stack :: "rt_uint32 option"
  timer_entry :: rt_uint32
  timer_stack :: rt_uint32
  idle_thread :: tid
  idle_entry :: rt_uint32
  idle_stack :: rt_uint32

definition rtthread_startup :: "(kstate \<Rightarrow> kstate option) \<Rightarrow> boot_layout \<Rightarrow> kstate \<Rightarrow> kstate option" where
  "rtthread_startup rt_hw_board_init lay s = do {
     s \<leftarrow> rt_hw_board_init s;
     let s = rt_system_timer_init s;
     let s = rt_system_scheduler_init s;
     s \<leftarrow> rt_application_init (main_entry lay) (main_alloc lay) (main_stack lay) s;
     s \<leftarrow> rt_system_timer_thread_init (timer_entry lay) (timer_stack lay) s;
     s \<leftarrow> rt_thread_idle_init (idle_thread lay) (idle_entry lay) (idle_stack lay) s;
     rt_system_scheduler_start s
   }"

section \<open>Before the scheduler runs\<close>

definition boot_inv :: "kstate \<Rightarrow> bool" where
  "boot_inv s \<longleftrightarrow> kernel_ok s \<and> timer_rules s \<and> k_current s = None \<and> k_lock_nest s = 0 \<and> k_irq_nest s = 0 \<and>
     (\<forall>t. live (tstat s t) \<longrightarrow> stack_ok s t) \<and> (\<forall>k. ipc_object_ok k s \<longrightarrow> object_inv k s)"

lemma boot_invD:
  assumes "boot_inv s"
  shows "kernel_ok s" "timer_rules s" "k_current s = None" "k_lock_nest s = 0" "k_irq_nest s = 0"
    "live (tstat s t) \<Longrightarrow> stack_ok s t" "ipc_object_ok k s \<Longrightarrow> object_inv k s"
  using assms by (simp_all add: boot_inv_def)

text \<open>With no current thread a critical section is no step at all.\<close>

lemma critical_boot:
  assumes "k_current s = None" "k_lock_nest s = 0"
  shows "rt_exit_critical (rt_enter_critical s) = Some s"
  using assms by (simp add: rt_exit_critical_def rt_enter_critical_def Let_def)

text \<open>A thread object that was just registered, statically or from the heap.\<close>

definition fresh_thread :: "tid \<Rightarrow> kstate \<Rightarrow> kstate \<Rightarrow> bool" where
  "fresh_thread t s s1 \<longleftrightarrow> kinv {t} s1 \<and> idle_set {t} s1 \<and>
     k_olists s1 = tbl_push RT_Object_Class_Thread (KThread t) (k_olists s) \<and>
     s1 = s\<lparr>k_threads := k_threads s1, k_timers := k_timers s1, k_objs := k_objs s1, k_olists := k_olists s1\<rparr> \<and>
     (\<forall>u. u \<noteq> t \<longrightarrow> k_threads s1 u = k_threads s u) \<and> (\<forall>x. x \<noteq> ThreadTimer t \<longrightarrow> k_timers s1 x = k_timers s x) \<and>
     (\<forall>k. k \<noteq> KThread t \<longrightarrow> k \<noteq> KTimer (ThreadTimer t) \<longrightarrow> k_objs s1 k = k_objs s k) \<and>
     rt_object_get_type (KThread t) s1 = RT_Object_Class_Thread"

lemma fresh_thread_same:
  assumes "fresh_thread t s s1"
  shows "k_mem s1 = k_mem s" "k_exit_addr s1 = k_exit_addr s" "k_current s1 = k_current s" "k_lock_nest s1 = k_lock_nest s"
    "k_irq_nest s1 = k_irq_nest s" "k_tlists s1 = k_tlists s" "k_tmlists s1 = k_tmlists s" "k_ready_group s1 = k_ready_group s"
    "k_sems s1 = k_sems s" "k_mutexes s1 = k_mutexes s" "k_events s1 = k_events s" "k_mailboxes s1 = k_mailboxes s"
    "k_mqs s1 = k_mqs s" "k_timer_thread s1 = k_timer_thread s"
proof -
  obtain a b c d where s1: "s1 = s\<lparr>k_threads := a, k_timers := b, k_objs := c, k_olists := d\<rparr>"
    using assms unfolding fresh_thread_def by blast
  show "k_mem s1 = k_mem s" "k_exit_addr s1 = k_exit_addr s" "k_current s1 = k_current s" "k_lock_nest s1 = k_lock_nest s"
    "k_irq_nest s1 = k_irq_nest s" "k_tlists s1 = k_tlists s" "k_tmlists s1 = k_tmlists s" "k_ready_group s1 = k_ready_group s"
    "k_sems s1 = k_sems s" "k_mutexes s1 = k_mutexes s" "k_events s1 = k_events s" "k_mailboxes s1 = k_mailboxes s"
    "k_mqs s1 = k_mqs s" "k_timer_thread s1 = k_timer_thread s"
    by (simp_all add: s1)
qed

lemma kinv_upd_unlisted:
  assumes inv: "kinv X s" and un: "\<not> listed k s" and ty: "o_type ob = 0"
  shows "kinv X (upd_obj k (\<lambda>_. ob) s)"
proof -
  let ?s = "upd_obj k (\<lambda>_. ob) s"
  note D = kinvD [OF inv] and R = reg_invD [OF kinvD(4) [OF inv]]
  have out: "k \<notin> set (k_olists s c)" for c using R(1) [of k c] un by auto
  have o: "objs_wf ?s"
    unfolding objs_wf_def
  proof (intro conjI allI ballI impI)
    show "table_wf (k_olists ?s)" using D(3) by (simp add: objs_wf_def)
    fix c j assume "j \<in> set (k_olists ?s c)"
    then have j: "j \<in> set (k_olists s c)" by simp
    then have "j \<noteq> k" using out by blast
    moreover have "rt_object_get_type j s = c" and c: "c \<in> set object_container"
      using D(3) j unfolding objs_wf_def by blast+
    ultimately show "rt_object_get_type j ?s = c" by (simp add: rt_object_get_type_def upd_obj_def)
    show "c \<in> set object_container" by (rule c)
  next
    fix j assume "unlinked j (k_olists ?s)"
    then have "o_type (k_objs s j) = 0" using D(3) unfolding objs_wf_def by simp
    then show "o_type (k_objs ?s j) = 0" using ty by (simp add: upd_obj_def)
  qed
  have "x \<notin> set (k_tmlists s h)" if "k = KTimer x" for x h using R(4) [of x] un that by (auto simp: unlinked_def)
  then have "timers_inv X ?s" using D(2) by (simp add: timers_inv_def) blast
  moreover have "sched_inv X ?s" using D(1) sched_inv_cong [of ?s s X] by simp
  moreover have "reg_inv X ?s" using D(4) by (simp add: reg_inv_def)
  ultimately show ?thesis using o by (simp add: kinv_def)
qed

lemma boot_idle_set:
  assumes inv: "kinv {} s" and un: "\<not> listed (KThread t) s"
  shows "idle_set {t} s"
proof -
  have "tstat s t = RT_THREAD_INIT \<or> tstat s t = RT_THREAD_CLOSE" "unlinked t (k_tlists s)"
    using reg_invD(2,3) [OF kinvD(4) [OF inv]] un by auto
  then show ?thesis using timer_unlinked_if_awake [OF inv, of t] by (auto simp: idle_set_def)
qed

lemma fresh_static:
  assumes b: "boot_inv s" and un: "\<not> listed (KThread t) s"
  shows "\<exists>s1. rt_object_init (KThread t) RT_Object_Class_Thread name s = Some s1 \<and> fresh_thread t s s1"
proof -
  note B = boot_invD [OF b] and inv = kernel_okD(1) [OF boot_invD(1) [OF b]]
  let ?s1 = "upd_obj (KThread t) (\<lambda>ob. ob\<lparr>o_type := RT_Object_Class_Thread OR RT_Object_Class_Static, o_name := rt_strncpy name 8\<rparr>) s"
  let ?s2 = "?s1\<lparr>k_olists := tbl_push RT_Object_Class_Thread (KThread t) (k_olists ?s1)\<rparr>"
  have r: "rt_object_init (KThread t) RT_Object_Class_Thread name s = Some ?s2"
    using un critical_boot [OF B(3,4)]
    by (simp add: rt_object_init_def rt_object_get_information_def object_container_def) (simp add: rt_enter_critical_def)
  note O = kinv_object_init [OF kinv_mono [OF inv, of "{t}"] boot_idle_set [OF inv un], of "KThread t", simplified, OF r]
  have "fresh_thread t s ?s2"
    unfolding fresh_thread_def using O(1,2,5) by (auto simp: upd_obj_def)
  then show ?thesis using r by blast
qed

lemma fresh_dynamic:
  assumes b: "boot_inv s" and un: "\<not> listed (KThread t) s" "\<not> listed (KTimer (ThreadTimer t)) s"
  shows "\<exists>s1. rt_object_allocate RT_Object_Class_Thread name (Some (KThread t)) s = Some (Some (KThread t), s1) \<and> fresh_thread t s s1"
proof -
  note B = boot_invD [OF b] and inv = kernel_okD(1) [OF boot_invD(1) [OF b]]
  have I: "idle_set {t} s" by (rule boot_idle_set [OF inv un(1)])
  let ?a = "upd_thread t (\<lambda>_. zero_thread) s"
  let ?b = "upd_timer (ThreadTimer t) (\<lambda>_. zero_timer) ?a"
  let ?c = "upd_obj (KTimer (ThreadTimer t)) (\<lambda>_. zero_object) ?b"
  let ?d = "upd_obj (KThread t) (\<lambda>_. zero_object) ?c"
  let ?e = "upd_obj (KThread t) (\<lambda>ob. ob\<lparr>o_type := RT_Object_Class_Thread, o_flag := 0, o_name := rt_strncpy name 8\<rparr>) ?d"
  let ?f = "?e\<lparr>k_olists := tbl_push RT_Object_Class_Thread (KThread t) (k_olists ?e)\<rparr>"
  have r: "rt_object_allocate RT_Object_Class_Thread name (Some (KThread t)) s = Some (Some (KThread t), ?f)"
    using B(5) by (simp add: rt_object_allocate_def rt_object_get_information_def object_container_def Let_def
        rt_debug_not_in_interrupt_def rt_interrupt_get_nest_def)
  have pz: "prio_ok zero_thread" by (simp add: prio_ok_def zero_thread_def stat_of_def)
  have "kinv {t} ?a"
    by (rule kinv_upd_stat_in [OF kinv_mono [OF inv]]) (use I pz in \<open>auto simp: idle_set_def\<close>)
  then have "kinv {t} ?b" by (rule kinv_upd_timer_unlinked) (use I in \<open>simp add: idle_set_def\<close>)
  then have "kinv {t} ?c" by (rule kinv_upd_unlisted) (use un in \<open>simp_all add: zero_object_def upd_timer_def upd_thread_def\<close>)
  then have d: "kinv {t} ?d"
    by (rule kinv_upd_unlisted) (use un in \<open>simp_all add: zero_object_def upd_timer_def upd_thread_def upd_obj_def\<close>)
  have "kinv {t} ?f"
    by (rule kinv_push_object [OF d, of "KThread t" _ "zero_object\<lparr>o_type := RT_Object_Class_Thread, o_name := rt_strncpy name 8\<rparr>"])
      (use un in \<open>simp_all add: upd_timer_def upd_thread_def upd_obj_def zero_object_def\<close>)
  moreover have "idle_set {t} ?f"
    using I by (simp add: idle_set_def upd_timer_def upd_thread_def upd_obj_def zero_thread_def stat_of_def)
  ultimately have "fresh_thread t s ?f"
    unfolding fresh_thread_def by (simp add: upd_timer_def upd_thread_def upd_obj_def rt_object_get_type_def)
  then show ?thesis using r by blast
qed

section \<open>A thread is made and started\<close>

text \<open>What a stack initialisation writes stays in the stack.\<close>

lemma initial_word_outside:
  fixes start sz :: rt_uint32
  assumes room: "72 \<le> unat sz" "unat start + unat sz < 2 ^ 32"
    and i: "rt_hw_stack_init te pa (start + sz - 4) tx (fill_bytes start 0x23 sz m) = (sp, m')"
    and x: "sz \<le> x - start"
  shows "m' x = m x"
proof -
  have upto: "unat (start + sz) = unat start + unat sz" using room by (simp add: unat_word_ariths)
  let ?top = "RT_ALIGN_DOWN (start + sz) 8"
  have "unat ?top = 8 * (unat (start + sz) div 8)"
    using unat_and_not_mask [of "start + sz" 3] by (simp add: RT_ALIGN_DOWN_def mask_eq_exp_minus_1)
  then have top: "unat ?top \<le> unat start + unat sz" "unat start + unat sz < unat ?top + 8"
    unfolding upto by auto
  note S = rt_hw_stack_init_mem [OF i]
  have sp: "sp = ?top - 64" using S(1) by simp
  have usp: "unat sp = unat ?top - 64" unfolding sp using top room by (subst unat_sub) (auto simp: word_le_nat_alt)
  let ?d = "sp - start"
  have d: "unat ?d = unat sp - unat start" using usp top room by (subst unat_sub) (auto simp: word_le_nat_alt)
  then have le: "unat ?d + 64 \<le> unat (x - start)" using x usp top room by (simp add: word_le_nat_alt)
  have "unat (x - sp) = unat ((x - start) - ?d)" by simp
  also have "\<dots> = unat (x - start) - unat ?d" by (rule unat_sub) (use le in \<open>simp add: word_le_nat_alt\<close>)
  finally have "64 \<le> x - sp" using le by (simp add: word_le_nat_alt)
  then have "m' x = fill_bytes start 0x23 sz m x" by (rule S(2))
  moreover have "\<not> x - start < sz" using x by (simp only: not_less)
  ultimately show ?thesis by (simp add: fill_bytes_def)
qed

text \<open>The fields of a thread between its initialisation and its start, and when it is ready.\<close>

definition born_thread :: "rt_uint32 \<Rightarrow> rt_uint32 \<Rightarrow> rt_uint32 \<Rightarrow> rt_uint32 \<Rightarrow> rt_uint32 \<Rightarrow> rt_uint8 \<Rightarrow> rt_uint32 \<Rightarrow> rt_thread \<Rightarrow> rt_thread" where
  "born_thread en pa start sz sp pr tick th = th\<lparr>th_entry := en, th_parameter := pa,
        th_stack_addr := start, th_stack_size := sz, th_sp := sp,
        th_init_priority := pr, th_current_priority := pr, th_number_mask := 0,
        th_init_tick := tick, th_remaining_tick := tick, th_error := RT_EOK,
        th_stat := RT_THREAD_INIT, th_cleanup := None, th_user_data := 0\<rparr>"

lemma born_thread_fields [simp]:
  "stat_of (born_thread en pa start sz sp pr tick th) = RT_THREAD_INIT"
  "th_stack_addr (born_thread en pa start sz sp pr tick th) = start"
  "th_stack_size (born_thread en pa start sz sp pr tick th) = sz"
  "th_sp (born_thread en pa start sz sp pr tick th) = sp"
  "th_init_priority (born_thread en pa start sz sp pr tick th) = pr"
  by (simp_all add: born_thread_def stat_of_def)

lemma boot_thread_init_fields:
  fixes t en pa start sz pr tick s
  defines "sp \<equiv> fst (rt_hw_stack_init en pa (start + sz - 4) (k_exit_addr s) (fill_bytes start 0x23 sz (k_mem s)))"
    and "m \<equiv> snd (rt_hw_stack_init en pa (start + sz - 4) (k_exit_addr s) (fill_bytes start 0x23 sz (k_mem s)))"
  assumes f: "fresh_thread t s s1" and cur: "k_current s = None" "k_lock_nest s = 0"
    and un: "\<not> listed (KTimer (ThreadTimer t)) s" and pr: "unat pr < 32"
  shows "\<exists>s2 ob. thread_init_fields t en pa start sz pr tick s1 = Some s2 \<and> o_type ob = RT_Object_Class_Timer OR RT_Object_Class_Static \<and>
     o_flag ob = 0 \<and> s2 = s1\<lparr>k_mem := m, k_threads := (k_threads s1)(t := born_thread en pa start sz sp pr tick (thread s1 t)),
       k_timers := (k_timers s1)(ThreadTimer t := \<lparr>tm_func = TF_thread_timeout t, tm_init_tick = 0, tm_timeout_tick = 0\<rparr>),
       k_objs := (k_objs s1)(KTimer (ThreadTimer t) := ob),
       k_olists := tbl_push RT_Object_Class_Timer (KTimer (ThreadTimer t)) (k_olists s1)\<rparr>"
proof -
  note S = fresh_thread_same [OF f]
  have un1: "KTimer (ThreadTimer t) \<notin> set (k_olists s1 RT_Object_Class_Timer)"
    using f un by (simp add: fresh_thread_def)
  obtain sp' m' where H: "rt_hw_stack_init en pa (start + sz - 4) (k_exit_addr s) (fill_bytes start 0x23 sz (k_mem s)) = (sp', m')"
    by (rule prod.exhaust)
  have e: "sp' = sp" "m' = m" by (simp_all add: sp_def m_def H)
  let ?th = "born_thread en pa start sz sp pr tick"
  let ?a = "upd_thread t ?th (s1\<lparr>k_mem := m\<rparr>)"
  let ?n = "o_name (k_objs s1 (KThread t))"
  let ?z = "timer_init_fields (ThreadTimer t) (TF_thread_timeout t) 0 0
      ((upd_obj (KTimer (ThreadTimer t)) (\<lambda>ob. ob\<lparr>o_type := RT_Object_Class_Timer OR RT_Object_Class_Static, o_name := rt_strncpy ?n 8\<rparr>) ?a)
         \<lparr>k_olists := tbl_push RT_Object_Class_Timer (KTimer (ThreadTimer t)) (k_olists s1)\<rparr>)"
  have crit: "rt_exit_critical (rt_enter_critical ?a) = Some ?a"
    by (rule critical_boot) (simp_all add: S cur)
  have "thread_init_fields t en pa start sz pr tick s1 = rt_timer_init (ThreadTimer t) ?n (TF_thread_timeout t) 0 0 ?a"
    using pr by (simp add: thread_init_fields_def S H e born_thread_def [abs_def])
  also have "\<dots> = Some ?z"
    using un1 crit by (simp add: rt_timer_init_def rt_object_init_def rt_object_get_information_def object_container_def)
      (simp add: rt_enter_critical_def)
  finally have r: "thread_init_fields t en pa start sz pr tick s1 = Some ?z" .
  let ?ob = "(k_objs s1 (KTimer (ThreadTimer t)))\<lparr>o_type := RT_Object_Class_Timer OR RT_Object_Class_Static, o_name := rt_strncpy ?n 8, o_flag := 0\<rparr>"
  show ?thesis
    by (rule exI, rule exI [where x = ?ob], intro conjI, rule r, simp, simp, rule kstate.equality)
      (simp_all add: timer_init_fields_def upd_timer_def upd_obj_def upd_thread_def)
qed

text \<open>Starting a thread that was just initialised: it goes to the end of the ready list of its priority.\<close>

lemma boot_thread_startup:
  assumes cur: "k_current s = None" and st: "tstat s t = RT_THREAD_INIT" and un: "unlinked t (k_tlists s)"
    and ty: "rt_object_get_type (KThread t) s = RT_Object_Class_Thread"
      "rt_object_get_type (KTimer (ThreadTimer t)) s = RT_Object_Class_Timer" "tflag s (ThreadTimer t) = 0"
    and pr: "unat (th_init_priority (thread s t)) < 32"
  shows "\<exists>th. rt_thread_startup t s = Some (RT_EOK,
       s\<lparr>k_threads := (k_threads s)(t := th),
         k_tlists := tbl_append (Ready (unat (th_init_priority (thread s t)))) t (k_tlists s),
         k_ready_group := k_ready_group s OR prio_mask (unat (th_init_priority (thread s t)))\<rparr>) \<and>
     stat_of th = RT_THREAD_READY \<and> th_current_priority th = th_init_priority (thread s t) \<and>
     th_stack_addr th = th_stack_addr (thread s t) \<and> th_stack_size th = th_stack_size (thread s t) \<and> th_sp th = th_sp (thread s t)"
proof -
  let ?p = "th_init_priority (thread s t)"
  let ?f = "\<lambda>th. th\<lparr>th_current_priority := th_init_priority th,
        th_number_mask := prio_mask (unat (th_init_priority th)), th_stat := RT_THREAD_SUSPEND\<rparr>"
  let ?a = "upd_thread t ?f s"
  let ?th = "with_stat RT_THREAD_READY (?f (thread s t))"
  let ?b = "s\<lparr>k_threads := (k_threads s)(t := ?th), k_tlists := tbl_append (Ready (unat ?p)) t (k_tlists s),
         k_ready_group := k_ready_group s OR prio_mask (unat ?p)\<rparr>"
  have a: "tstat ?a t = RT_THREAD_SUSPEND" by (simp add: stat_of_def)
  have stop: "rt_timer_stop (ThreadTimer t) ?a = Some (- RT_ERROR, ?a)"
    using ty by (simp add: rt_timer_stop_def rt_object_get_type_def upd_thread_def)
  have same: "?a\<lparr>k_tlists := tbl_remove t (k_tlists ?a)\<rparr> = ?a" by (simp add: tbl_remove_unlinked un)
  have ins: "rt_schedule_insert_thread t ?a = Some ?b"
    using pr cur by (simp add: rt_schedule_insert_thread_def Let_def upd_thread_def with_stat_def)
  have res: "rt_thread_resume t ?a = Some (RT_EOK, ?b)"
    unfolding rt_thread_resume_def same Let_def stop using a ins ty(1)
    by (simp add: rt_object_get_type_def)
  have "rt_thread_startup t s = Some (RT_EOK, ?b)"
    using st ty(1) res cur by (simp add: rt_thread_startup_def Let_def rt_thread_self_def)
  then show ?thesis by (intro exI [of _ ?th]) (simp add: with_stat_def stat_of_def)
qed

definition booted :: "tid \<Rightarrow> rt_uint32 \<Rightarrow> nat \<Rightarrow> kstate \<Rightarrow> kstate \<Rightarrow> bool" where
  "booted t start p s s' \<longleftrightarrow> boot_inv s' \<and> k_tlists s' = tbl_append (Ready p) t (k_tlists s) \<and>
     th_stack_addr (thread s' t) = start \<and> (\<forall>u. u \<noteq> t \<longrightarrow> thread s' u = thread s u) \<and>
     (\<forall>k. listed k s' \<longrightarrow> listed k s \<or> k = KThread t \<or> k = KTimer (ThreadTimer t)) \<and>
     k_tmlists s' = k_tmlists s \<and> k_timer_thread s' = k_timer_thread s"

text \<open>The timers and the objects of the application see nothing of it.\<close>

lemma boot_timers:
  assumes b: "boot_inv s" and inv: "kinv {} s'" and un: "\<not> listed (KTimer (ThreadTimer t)) s"
    and tm: "k_timers s' (ThreadTimer t) = \<lparr>tm_func = TF_thread_timeout t, tm_init_tick = 0, tm_timeout_tick = 0\<rparr>"
      "tflag s' (ThreadTimer t) = 0" "k_tmlists s' = k_tmlists s"
    and same: "\<And>x. x \<noteq> ThreadTimer t \<Longrightarrow> k_timers s' x = k_timers s x \<and> tflag s' x = tflag s x"
    and reg: "\<And>k. listed k s' \<Longrightarrow> listed k s \<or> k = KThread t \<or> k = KTimer (ThreadTimer t)"
  shows "kernel_ok s'" "timer_rules s'"
proof -
  note B = boot_invD [OF b]
  have tt: "ttimers_ok s" using kernel_okD(2) [OF B(1)] .
  have "ttimers_ok s'"
    unfolding ttimers_ok_def
  proof (intro allI impI)
    fix u assume u: "listed (KTimer (ThreadTimer u)) s'"
    show "tm_func (k_timers s' (ThreadTimer u)) = TF_thread_timeout u \<and> tflag s' (ThreadTimer u) AND RT_TIMER_FLAG_SOFT_TIMER = 0"
    proof (cases "u = t")
      case True
      then show ?thesis by (simp add: tm)
    next
      case False
      then have "listed (KTimer (ThreadTimer u)) s" using reg [OF u] by simp
      then show ?thesis using tt same [of "ThreadTimer u"] False by (simp add: ttimers_ok_def)
    qed
  qed
  then show "kernel_ok s'" using inv by (simp add: kernel_ok_def)
  have out: "ThreadTimer t \<notin> set (k_tmlists s h)" for h
    using reg_invD(4) [OF kinvD(4) [OF kernel_okD(1) [OF B(1)]] un] by (simp add: unlinked_def)
  have T: "periods_ok s" "\<And>x u. tm_func (k_timers s x) = TF_thread_timeout u \<Longrightarrow> x = ThreadTimer u"
    "\<And>u. tflag s (ThreadTimer u) AND RT_TIMER_FLAG_PERIODIC = 0"
    using B(2) unfolding timer_rules_def by blast+
  have "periods_ok s'"
    unfolding periods_ok_def tm(3)
  proof (rule ballI)
    fix x assume x: "x \<in> set (k_tmlists s HardTimers)"
    then have "x \<noteq> ThreadTimer t" using out by blast
    note eq = same [OF this, THEN conjunct1] same [OF this, THEN conjunct2]
    show "tm_init_tick (k_timers s' x) < RT_TICK_HALF \<and>
       (tflag s' x AND RT_TIMER_FLAG_PERIODIC \<noteq> 0 \<longrightarrow> 0 < tm_init_tick (k_timers s' x)) \<and>
       (\<forall>u. tm_func (k_timers s' x) = TF_thread_timeout u \<longrightarrow> x = ThreadTimer u) \<and>
       (\<forall>u. x = ThreadTimer u \<longrightarrow> tflag s' x AND RT_TIMER_FLAG_PERIODIC = 0)"
      using T(1) x unfolding periods_ok_def eq by (rule bspec)
  qed
  moreover have "x = ThreadTimer u" if "tm_func (k_timers s' x) = TF_thread_timeout u" for x u
    using that T(2) [of x u] same [of x] tm(1) by (cases "x = ThreadTimer t") simp_all
  moreover have "tflag s' (ThreadTimer u) AND RT_TIMER_FLAG_PERIODIC = 0" for u
    using T(3) [of u] same [of "ThreadTimer u"] tm(2) by (cases "u = t") simp_all
  ultimately show "timer_rules s'" unfolding timer_rules_def by blast
qed

lemma object_inv_olists [simp]: "object_inv k (s\<lparr>k_olists := L\<rparr>) = object_inv k s"
  by (cases k) (simp_all add: mutex_ok_def event_inv_def split: option.split)

lemma boot_objects:
  assumes b: "boot_inv s" and un: "unlinked t (k_tlists s)"
    and same: "k_sems s' = k_sems s" "k_mutexes s' = k_mutexes s" "k_events s' = k_events s"
      "k_mailboxes s' = k_mailboxes s" "k_mqs s' = k_mqs s" "\<And>k. k_tlists s' (Susp k) = k_tlists s (Susp k)"
      "\<And>k. waitable k \<Longrightarrow> k_objs s' k = k_objs s k" "\<And>u. u \<noteq> t \<Longrightarrow> thread s' u = thread s u"
    and st: "live (tstat s' t)"
    and reg: "\<And>k. listed k s' \<Longrightarrow> listed k s \<or> k = KThread t \<or> k = KTimer (ThreadTimer t)"
    and k: "ipc_object_ok k s'"
  shows "object_inv k s'"
proof -
  have w: "waitable k" "listed k s'" using k by (auto simp: ipc_object_ok_def)
  then have "listed k s" using reg [of k] by auto
  then have "ipc_object_ok k s" using k w same(7) [OF w(1)] by (simp add: ipc_object_ok_def)
  then have inv: "object_inv k (s\<lparr>k_olists := k_olists s'\<rparr>)" using boot_invD(7) [OF b] by simp
  have "touches {} (s\<lparr>k_olists := k_olists s'\<rparr>) s'"
    unfolding touches_def
  proof (intro conjI allI impI)
    fix u assume "live (tstat (s\<lparr>k_olists := k_olists s'\<rparr>) u)"
    then show "live (tstat s' u)" using st same(8) [of u] by (cases "u = t") simp_all
  next
    fix i u assume "u \<in> set (k_tlists s' (Susp (KEvent i)))"
    then have "u \<noteq> t" using un by (auto simp: same(6) unlinked_def)
    then show "wishes s' u = wishes (s\<lparr>k_olists := k_olists s'\<rparr>) u" using same(8) [of u] by simp
  qed (simp_all add: same)
  then show ?thesis by (rule object_inv_touches [OF _ _ inv]) simp
qed

lemma boot_start_thread:
  assumes b: "boot_inv s" and f: "fresh_thread t s s1"
    and un: "\<not> listed (KTimer (ThreadTimer t)) s" and pr: "unat pr < 32"
    and room: "72 \<le> unat sz" "unat start + unat sz < 2 ^ 32"
    and apart: "\<And>u. live (tstat s u) \<Longrightarrow> sz \<le> th_stack_addr (thread s u) - start"
  shows "\<exists>s2 s3. thread_init_fields t en pa start sz pr tick s1 = Some s2 \<and>
     rt_thread_startup t s2 = Some (RT_EOK, s3) \<and> booted t start (unat pr) s s3"
proof -
  note B = boot_invD [OF b] and S = fresh_thread_same [OF f] and F = f [unfolded fresh_thread_def]
  obtain sp m where H: "rt_hw_stack_init en pa (start + sz - 4) (k_exit_addr s) (fill_bytes start 0x23 sz (k_mem s)) = (sp, m)"
    by (rule prod.exhaust)
  obtain s2 ob where s2: "thread_init_fields t en pa start sz pr tick s1 = Some s2"
    and ob: "o_type ob = RT_Object_Class_Timer OR RT_Object_Class_Static" "o_flag ob = 0"
    and s2_eq: "s2 = s1\<lparr>k_mem := m, k_threads := (k_threads s1)(t := born_thread en pa start sz sp pr tick (thread s1 t)),
       k_timers := (k_timers s1)(ThreadTimer t := \<lparr>tm_func = TF_thread_timeout t, tm_init_tick = 0, tm_timeout_tick = 0\<rparr>),
       k_objs := (k_objs s1)(KTimer (ThreadTimer t) := ob),
       k_olists := tbl_push RT_Object_Class_Timer (KTimer (ThreadTimer t)) (k_olists s1)\<rparr>"
    using boot_thread_init_fields [OF f B(3,4) un pr, of en pa start sz tick] unfolding H by auto
  have inv2: "kinv {} s2"
    by (rule kinv_thread_init_fields [OF _ _ _ s2]) (use F in auto)
  have un1: "unlinked t (k_tlists s)" using F S(6) by (simp add: idle_set_def)
  have ty: "rt_object_get_type (KThread t) s2 = RT_Object_Class_Thread"
    using F by (simp add: s2_eq rt_object_get_type_def)
  obtain th where s3: "rt_thread_startup t s2 = Some (RT_EOK, s2\<lparr>k_threads := (k_threads s2)(t := th),
         k_tlists := tbl_append (Ready (unat pr)) t (k_tlists s2), k_ready_group := k_ready_group s2 OR prio_mask (unat pr)\<rparr>)"
    and th: "stat_of th = RT_THREAD_READY" "th_current_priority th = pr" "th_stack_addr th = start" "th_stack_size th = sz" "th_sp th = sp"
    using boot_thread_startup [of s2 t] un1 ty pr B(3) by (auto simp: s2_eq S ob rt_object_get_type_def)
  let ?s3 = "s2\<lparr>k_threads := (k_threads s2)(t := th), k_tlists := tbl_append (Ready (unat pr)) t (k_tlists s2),
     k_ready_group := k_ready_group s2 OR prio_mask (unat pr)\<rparr>"
  have reg: "listed k s \<or> k = KThread t \<or> k = KTimer (ThreadTimer t)" if "listed k ?s3" for k
    using that F by (auto simp: s2_eq split: if_splits)
  have inv: "kinv {} ?s3" by (rule kinv_thread_startup [OF inv2 s3])
  have tm: "kernel_ok ?s3" "timer_rules ?s3"
    by (rule boot_timers [OF b inv un]; use F reg ob S in \<open>simp add: s2_eq\<close>)+
  have others: "thread ?s3 u = thread s u" if "u \<noteq> t" for u using that F by (simp add: s2_eq)
  have wob: "k_objs ?s3 k = k_objs s k" if "waitable k" for k using that F by (cases k) (simp_all add: s2_eq)
  have obj: "object_inv k ?s3" if k: "ipc_object_ok k ?s3" for k
    by (rule boot_objects [OF b un1 _ _ _ _ _ _ wob others _ reg k]) (use S th in \<open>simp_all add: s2_eq\<close>)
  have stk: "stack_ok ?s3 u" if u: "live (tstat ?s3 u)" for u
  proof (cases "u = t")
    case True
    then show ?thesis
      using initial_stack_ok [OF room H] th by (simp add: stack_ok_def scheduler_stack_check_def s2_eq not_le not_less)
  next
    case False
    then have l: "live (tstat s u)" using u others by simp
    have "m (th_stack_addr (thread s u)) = k_mem s (th_stack_addr (thread s u))"
      by (rule initial_word_outside [OF room H apart [OF l]])
    then show ?thesis using B(6) [OF l] others [OF False] False F
      by (simp add: stack_ok_def scheduler_stack_check_def s2_eq)
  qed
  have "boot_inv ?s3"
    unfolding boot_inv_def using tm stk obj B(3-5) by (simp add: s2_eq S)
  then have "booted t start (unat pr) s ?s3"
    unfolding booted_def using others reg th by (simp add: s2_eq S)
  then show ?thesis using s2 s3 by blast
qed

section \<open>The first thread runs\<close>

lemma sched_inv_first:
  assumes "sched_inv {t} s" "k_current s = None"
  shows "sched_inv {t} (s\<lparr>k_current := Some t\<rparr>)"
  using assms unfolding sched_inv_def by simp

lemma kinv_first:
  assumes "kinv {t} s" "k_current s = None"
  shows "kinv {t} (s\<lparr>k_current := Some t\<rparr>)"
  using kinvD [OF assms(1)] sched_inv_first [of t s] assms(2) objs_wf_cong [of "s\<lparr>k_current := Some t\<rparr>" s]
  by (simp add: kinv_def timers_inv_def reg_inv_def)

lemma boot_scheduler_start:
  assumes b: "boot_inv s" and g: "get_highest_priority_thread s = Some (t, p)"
  shows "\<exists>s'. rt_system_scheduler_start s = Some s' \<and> system_inv s' \<and> k_current s' = Some t \<and> tprio s' t = p \<and>
     tstat s' t = RT_THREAD_RUNNING \<and> k_tlists s' = tbl_remove t (k_tlists s) \<and> (\<forall>u. tprio s' u = tprio s u)"
proof -
  note B = boot_invD [OF b] and inv = kernel_okD(1) [OF boot_invD(1) [OF b]]
  note G = get_highest_spec [OF kinvD(1) [OF inv] g]
  have p: "tprio s t < 32" using G(1,7) by simp
  obtain s1 where s1: "rt_schedule_remove_thread t s = Some s1" "k_tlists s1 = tbl_remove t (k_tlists s)"
    "k_current s1 = k_current s" "k_threads s1 = k_threads s"
    by (rule remove_thread_some [OF p])
  have c1: "rt_schedule_remove_thread t (s\<lparr>k_current := Some t\<rparr>) = Some (s1\<lparr>k_current := Some t\<rparr>)"
    using s1(1) p by (auto simp: rt_schedule_remove_thread_def Let_def)
  have same: "k_olists s1 = k_olists s" "k_objs s1 = k_objs s" "k_timers s1 = k_timers s" "k_tmlists s1 = k_tmlists s"
    "k_sems s1 = k_sems s" "k_mutexes s1 = k_mutexes s" "k_events s1 = k_events s" "k_mailboxes s1 = k_mailboxes s"
    "k_mqs s1 = k_mqs s" "k_mem s1 = k_mem s"
    using s1(1) p by (auto simp: rt_schedule_remove_thread_def Let_def)
  let ?run = "\<lambda>th. th\<lparr>th_stat := RT_THREAD_RUNNING\<rparr>"
  let ?s = "upd_thread t ?run (s1\<lparr>k_current := Some t\<rparr>)"
  have run: "rt_system_scheduler_start s = Some ?s" using g c1 by (simp add: rt_system_scheduler_start_def)
  note K = kinv_remove_thread [OF inv s1(1)]
  have st: "tstat s t = RT_THREAD_READY" by (rule G(6))
  have reg: "listed (KThread t) s" "listed (KTimer (ThreadTimer t)) s" "unlinked (ThreadTimer t) (k_tmlists s)"
    using listed_if_live [OF inv, of t] timer_listed_if_live [OF inv, of t] timer_unlinked_if_awake [OF inv, of t] st by auto
  have pok: "prio_ok (?run (thread s t))"
    using sched_invD(8) [OF kinvD(1) [OF inv], of t] st by (simp add: prio_ok_def)
  have "kinv ({t} - {t}) ?s"
    by (rule kinv_upd_stat [OF kinv_first]) (use K s1 same reg B(3) pok in \<open>simp_all add: stat_of_def\<close>)
  then have k: "kernel_ok ?s"
    using kernel_okD(2) [OF B(1)] same by (simp add: kernel_ok_def ttimers_ok_def)
  have tch: "touches {} s ?s"
    by (rule touches_fields) (use same s1 in \<open>auto simp: upd_thread_def stat_of_def\<close>)
  have ktm: "keeps_timers s ?s" by (rule keeps_timers_fields) (simp_all add: same)
  have stk: "stack_ok ?s u" if "live (tstat ?s u)" for u
  proof -
    have "live (tstat s u)" using that st s1(4) by (cases "u = t") simp_all
    then show ?thesis using B(6) [of u] s1(4) same by (auto simp: stack_ok_def scheduler_stack_check_def Let_def upd_thread_def split: if_splits)
  qed
  have "sys_ok ?s" unfolding sys_ok_def using k stk p s1(4) by simp
  moreover have "object_inv k ?s" if "ipc_object_ok k ?s" for k
    using that object_ok_touches [OF tch] object_inv_touches [OF tch] B(7) by simp
  ultimately have "system_inv ?s" using ktm B(2) by (simp add: system_inv_def keeps_timers_def)
  then show ?thesis using run s1 G(7) by (simp add: stat_of_def)
qed

section \<open>The start as a whole\<close>

text \<open>What the board's initialisation leaves: no thread, no thread timer, no active timer.\<close>

definition board_ready :: "kstate \<Rightarrow> bool" where
  "board_ready s \<longleftrightarrow> boot_inv s \<and> k_tlists s = (\<lambda>_. []) \<and> k_tmlists s = (\<lambda>_. []) \<and>
     (\<forall>t. \<not> listed (KThread t) s) \<and> (\<forall>t. \<not> listed (KTimer (ThreadTimer t)) s)"

text \<open>Stacks that fit in the address space and do not overlap.\<close>

fun stacks_apart :: "(rt_uint32 \<times> nat) list \<Rightarrow> bool" where
  "stacks_apart [] \<longleftrightarrow> True"
| "stacks_apart ((a, n) # r) \<longleftrightarrow> a \<noteq> 0 \<and> unat a + n < 2 ^ 32 \<and>
     (\<forall>(b, m) \<in> set r. unat a + n \<le> unat b \<or> unat b + m \<le> unat a) \<and> stacks_apart r"

lemma boot_init_startup:
  assumes b: "boot_inv s" and un: "\<not> listed (KThread t) s" "\<not> listed (KTimer (ThreadTimer t)) s"
    and pr: "unat pr < 32" and room: "72 \<le> unat sz" "start \<noteq> 0" "unat start + unat sz < 2 ^ 32"
    and apart: "\<And>u. live (tstat s u) \<Longrightarrow> sz \<le> th_stack_addr (thread s u) - start"
  shows "\<exists>s2 s3. rt_thread_init t name en pa start sz pr tick s = Some (RT_EOK, s2) \<and>
     rt_thread_startup t s2 = Some (RT_EOK, s3) \<and> k_timer_thread s2 = k_timer_thread s \<and> booted t start (unat pr) s s3"
    and "\<exists>s2 s3. rt_thread_create name en pa sz pr tick (Some t) (Some start) s = Some (Some t, s2) \<and>
     rt_thread_startup t s2 = Some (RT_EOK, s3) \<and> booted t start (unat pr) s s3"
proof -
  obtain s1 where s1: "rt_object_init (KThread t) RT_Object_Class_Thread name s = Some s1" "fresh_thread t s s1"
    using fresh_static [OF b un(1)] by blast
  obtain s2 s3 where "thread_init_fields t en pa start sz pr tick s1 = Some s2"
    "rt_thread_startup t s2 = Some (RT_EOK, s3)" "booted t start (unat pr) s s3"
    using boot_start_thread [OF b s1(2) un(2) pr room(1,3) apart] by blast
  moreover have "k_timer_thread s2 = k_timer_thread s"
    using boot_thread_init_fields [OF s1(2) boot_invD(3,4) [OF b] un(2) pr, of en pa start sz tick] calculation(1)
      fresh_thread_same(14) [OF s1(2)] by auto
  ultimately show "\<exists>s2 s3. rt_thread_init t name en pa start sz pr tick s = Some (RT_EOK, s2) \<and>
     rt_thread_startup t s2 = Some (RT_EOK, s3) \<and> k_timer_thread s2 = k_timer_thread s \<and> booted t start (unat pr) s s3"
    using s1(1) room(2) by (simp add: rt_thread_init_def)
  obtain s1 where s1: "rt_object_allocate RT_Object_Class_Thread name (Some (KThread t)) s = Some (Some (KThread t), s1)" "fresh_thread t s s1"
    using fresh_dynamic [OF b un] by blast
  obtain s2 s3 where "thread_init_fields t en pa start sz pr tick s1 = Some s2"
    "rt_thread_startup t s2 = Some (RT_EOK, s3)" "booted t start (unat pr) s s3"
    using boot_start_thread [OF b s1(2) un(2) pr room(1,3) apart] by blast
  then show "\<exists>s2 s3. rt_thread_create name en pa sz pr tick (Some t) (Some start) s = Some (Some t, s2) \<and>
     rt_thread_startup t s2 = Some (RT_EOK, s3) \<and> booted t start (unat pr) s s3"
    using s1(1) by (simp add: rt_thread_create_def)
qed

lemma booted_live:
  assumes "booted t start p s s'" "live (tstat s' u)"
  shows "u = t \<and> th_stack_addr (thread s' u) = start \<or> u \<noteq> t \<and> live (tstat s u) \<and> th_stack_addr (thread s' u) = th_stack_addr (thread s u)"
  using assms by (cases "u = t") (simp_all add: booted_def)

lemma board_readyD:
  assumes "board_ready s"
  shows "boot_inv s" "k_tlists s = (\<lambda>_. [])" "k_tmlists s = (\<lambda>_. [])" "\<not> listed (KThread u) s"
    "\<not> listed (KTimer (ThreadTimer u)) s" "\<not> live (tstat s u)" "rt_system_scheduler_init (rt_system_timer_init s) = s"
proof -
  show b: "boot_inv s" and E: "k_tlists s = (\<lambda>_. [])" "k_tmlists s = (\<lambda>_. [])"
    and no: "\<not> listed (KThread u) s" "\<not> listed (KTimer (ThreadTimer u)) s" for u
    using assms by (simp_all add: board_ready_def)
  note inv = kernel_okD(1) [OF boot_invD(1) [OF b]]
  have g: "k_ready_group s = 0" using group_zero_iff [OF kinvD(1) [OF inv]] E(1) by simp
  show "rt_system_scheduler_init (rt_system_timer_init s) = s"
    using boot_invD(4) [OF b] E g
    by (intro kstate.equality) (simp_all add: rt_system_scheduler_init_def rt_system_timer_init_def fun_eq_iff split: thead.split)
  show "\<not> live (tstat s u)" using reg_invD(3) [OF kinvD(4) [OF inv] no(1), of u] by (auto simp: live_def)
qed

text \<open>The three threads of a start, one after the other.\<close>

lemma boot_threads:
  assumes ready: "board_ready s" and threads: "distinct [m, k_timer_thread s, i]"
    and stacks: "stacks_apart [(ms, 2048), (ts, 512), (is, 256)]"
  shows "\<exists>s1 s2 s3. rt_application_init me (Some m) (Some ms) s = Some s1 \<and>
     rt_system_timer_thread_init te ts s1 = Some s2 \<and> rt_thread_idle_init i ie is s2 = Some s3 \<and> boot_inv s3 \<and>
     k_tlists s3 = (\<lambda>_. [])(Ready 10 := [m], Ready 4 := [k_timer_thread s], Ready 31 := [i])"
proof -
  let ?t = "k_timer_thread s"
  note E = board_readyD [OF ready]
  have st: "unat ms + 2048 < 2 ^ 32" "unat ts + 512 < 2 ^ 32" "unat is + 256 < 2 ^ 32" "ms \<noteq> 0" "ts \<noteq> 0" "is \<noteq> 0"
    "(512 :: rt_uint32) \<le> ms - ts" "(256 :: rt_uint32) \<le> ms - is" "(256 :: rt_uint32) \<le> ts - is"
    using stacks word_outside [of ts 512 ms 2048] word_outside [of "is" 256 ms 2048] word_outside [of "is" 256 ts 512] by auto
  obtain a1 s1 where a1: "rt_thread_create [109, 97, 105, 110] me 0 2048 10 20 (Some m) (Some ms) s = Some (Some m, a1)"
    "rt_thread_startup m a1 = Some (RT_EOK, s1)" and b1: "booted m ms 10 s s1"
    using boot_init_startup(2) [OF E(1,4,5), of 10 2048 ms "[109, 97, 105, 110]" me 0 20 m] st E(6) by auto
  note B1 = b1 [unfolded booted_def]
  have n1: "\<not> listed (KThread u) s1" "\<not> listed (KTimer (ThreadTimer u)) s1" if "u \<noteq> m" for u using B1 E(4,5) that by blast+
  have l1: "th_stack_addr (thread s1 u) = ms" if "live (tstat s1 u)" for u using booted_live [OF b1 that] E(6) by auto
  have soft: "s1\<lparr>k_tmlists := (k_tmlists s1)(SoftTimers := [])\<rparr> = s1" using B1 E(3) by (simp add: fun_upd_idem)
  obtain a2 s2 where a2: "rt_thread_init ?t [116, 105, 109, 101, 114] te 0 ts 512 4 10 s1 = Some (RT_EOK, a2)"
    "rt_thread_startup ?t a2 = Some (RT_EOK, s2)" "k_timer_thread a2 = ?t" and b2: "booted ?t ts 4 s1 s2"
    using boot_init_startup(1) [of s1 ?t 4 512 ts "[116, 105, 109, 101, 114]" te 0 10] n1 B1 st l1 threads by auto
  note B2 = b2 [unfolded booted_def]
  have n2: "\<not> listed (KThread i) s2" "\<not> listed (KTimer (ThreadTimer i)) s2" using B2 n1 threads by force+
  have far: "(256 :: rt_uint32) \<le> th_stack_addr (thread s2 u) - is" if "live (tstat s2 u)" for u
    using booted_live [OF b2 that] l1 st by auto
  obtain a3 s3 where a3: "rt_thread_init i [116, 105, 100, 108, 101, 48] ie 0 is 256 31 32 s2 = Some (RT_EOK, a3)"
    "rt_thread_startup i a3 = Some (RT_EOK, s3)" and b3: "booted i is 31 s2 s3"
    using boot_init_startup(1) [of s2 i 31 256 "is" "[116, 105, 100, 108, 101, 48]" ie 0 32] n2 B2 st far by auto
  note B3 = b3 [unfolded booted_def]
  have "rt_application_init me (Some m) (Some ms) s = Some s1" using a1 by (simp add: rt_application_init_def)
  moreover have "rt_system_timer_thread_init te ts s1 = Some s2" using a2 B1 soft by (simp add: rt_system_timer_thread_init_def)
  moreover have "rt_thread_idle_init i ie is s2 = Some s3" using a3 by (simp add: rt_thread_idle_init_def)
  moreover have "k_tlists s3 = (\<lambda>_. [])(Ready 10 := [m], Ready 4 := [?t], Ready 31 := [i])"
    using B1 B2 B3 E(2) by (simp add: tbl_append_def fun_eq_iff)
  ultimately show ?thesis using B3 by blast
qed

text \<open>
  C3: a start on a board without threads, with a main thread that could be allocated and three stacks
  that do not overlap, ends with the timer thread running at its priority 4, the main thread ready at
  priority 10 and the idle thread at 31, in a state of the system invariant: everything shown of
  reachable states holds from here on.
\<close>

theorem rtthread_startup_system:
  assumes board: "rt_hw_board_init s0 = Some s" "board_ready s"
    and main: "main_alloc lay = Some m" "main_stack lay = Some ms"
    and threads: "distinct [m, k_timer_thread s, idle_thread lay]"
    and stacks: "stacks_apart [(ms, 2048), (timer_stack lay, 512), (idle_stack lay, 256)]"
  shows "\<exists>s'. rtthread_startup rt_hw_board_init lay s0 = Some s' \<and> system_inv s' \<and>
     k_current s' = Some (k_timer_thread s) \<and> tprio s' (k_timer_thread s) = 4 \<and>
     k_tlists s' = (\<lambda>_. [])(Ready 10 := [m], Ready 31 := [idle_thread lay])"
proof -
  let ?t = "k_timer_thread s"
  obtain s1 s2 s3 where r: "rt_application_init (main_entry lay) (Some m) (Some ms) s = Some s1"
    "rt_system_timer_thread_init (timer_entry lay) (timer_stack lay) s1 = Some s2"
    "rt_thread_idle_init (idle_thread lay) (idle_entry lay) (idle_stack lay) s2 = Some s3"
    and b: "boot_inv s3" and L: "k_tlists s3 = (\<lambda>_. [])(Ready 10 := [m], Ready 4 := [?t], Ready 31 := [idle_thread lay])"
    using boot_threads [OF board(2) threads stacks] by blast
  have i3: "sched_inv {} s3" using b by (simp add: boot_inv_def kernel_ok_def kinv_def)
  have "k_ready_group s3 \<noteq> 0" using group_zero_iff [OF i3] L by auto
  then obtain u us q where U: "get_highest_priority_thread s3 = Some (u, q)" "k_tlists s3 (Ready q) = u # us"
    "\<And>j. j < q \<Longrightarrow> k_tlists s3 (Ready j) = []"
    by (rule get_highest_some [OF i3]) blast
  have "q = 4"
  proof (rule ccontr)
    assume "q \<noteq> 4"
    then have "4 < q" using U(2) L by (simp split: if_splits)
    then show False using U(3) [of 4] L by simp
  qed
  then have "get_highest_priority_thread s3 = Some (?t, 4)" using U(1,2) L by simp
  then obtain s' where s': "rt_system_scheduler_start s3 = Some s'" "system_inv s'" "k_current s' = Some ?t" "tprio s' ?t = 4"
    "k_tlists s' = tbl_remove ?t (k_tlists s3)"
    using boot_scheduler_start [OF b] by blast
  have "rtthread_startup rt_hw_board_init lay s0 = Some s'"
    using board(1) r s'(1) board_readyD(7) [OF board(2)] by (simp add: rtthread_startup_def main)
  moreover have "k_tlists s' = (\<lambda>_. [])(Ready 10 := [m], Ready 31 := [idle_thread lay])"
    using threads by (simp add: s'(5) L tbl_remove_def fun_eq_iff)
  ultimately show ?thesis using s' by blast
qed

end
