(* ===== verification/KMemory.thy ===== *)
theory KMemory
  imports KThread
begin

text \<open>
  Filling, copying and moving memory, \<^verbatim>\<open>rt_memset\<close>, \<^verbatim>\<open>rt_memcpy\<close> and \<^verbatim>\<open>rt_memmove\<close> of
  \<^verbatim>\<open>src/kservice.c\<close>, on the memory as a function from addresses to bytes.  The first two work word by
  word, four words at a time, when the addresses are aligned, and byte by byte otherwise; a word is
  stored in little-endian order.  Each is shown to be the update of the memory it should be.
\<close>

section \<open>Operations\<close>

type_synonym memory = "rt_uint32 \<Rightarrow> rt_uint8"

function memset_bytes :: "rt_uint32 \<Rightarrow> rt_uint8 \<Rightarrow> rt_uint32 \<Rightarrow> memory \<Rightarrow> memory" where
  "memset_bytes a d count m =
     (if count = 0 then m else memset_bytes (a + 1) d (count - 1) (m(a := d)))"
  by pat_completeness auto
termination by (relation "measure (\<lambda>(_, _, count, _). unat count)") (auto simp: measure_unat)

text \<open>Four words at a time, then one word; each loop returns the address, the rest and the memory.\<close>

function memset_quads :: "rt_uint32 \<Rightarrow> rt_uint32 \<Rightarrow> rt_uint32 \<Rightarrow> memory \<Rightarrow> rt_uint32 \<times> rt_uint32 \<times> memory" where
  "memset_quads a buffer count m =
     (if 16 \<le> count
      then memset_quads (a + 16) buffer (count - 16)
             (store32 (a + 12) buffer (store32 (a + 8) buffer (store32 (a + 4) buffer (store32 a buffer m))))
      else (a, count, m))"
  by pat_completeness auto
termination
  by (relation "measure (\<lambda>(_, _, count, _). unat count)") (auto simp: unat_sub word_le_nat_alt)

function memset_words :: "rt_uint32 \<Rightarrow> rt_uint32 \<Rightarrow> rt_uint32 \<Rightarrow> memory \<Rightarrow> rt_uint32 \<times> rt_uint32 \<times> memory" where
  "memset_words a buffer count m =
     (if 4 \<le> count then memset_words (a + 4) buffer (count - 4) (store32 a buffer m)
      else (a, count, m))"
  by pat_completeness auto
termination
  by (relation "measure (\<lambda>(_, _, count, _). unat count)") (auto simp: unat_sub word_le_nat_alt)

definition rt_memset :: "rt_uint32 \<Rightarrow> rt_uint32 \<Rightarrow> rt_uint32 \<Rightarrow> memory \<Rightarrow> memory" where
  "rt_memset s c count m =
     (let d = c AND 0xff in
      if 4 \<le> count \<and> s AND 3 = 0
      then (let buffer = push_bit 8 d OR d;
                buffer = buffer OR push_bit 16 buffer;
                (aligned_addr, count, m) = memset_quads s buffer count m;
                (aligned_addr, count, m) = memset_words aligned_addr buffer count m
            in memset_bytes aligned_addr (ucast d) count m)
      else memset_bytes s (ucast d) count m)"

function memcpy_bytes :: "rt_uint32 \<Rightarrow> rt_uint32 \<Rightarrow> rt_uint32 \<Rightarrow> memory \<Rightarrow> memory" where
  "memcpy_bytes dst src len m =
     (if len = 0 then m else memcpy_bytes (dst + 1) (src + 1) (len - 1) (m(dst := m src)))"
  by pat_completeness auto
termination by (relation "measure (\<lambda>(_, _, len, _). unat len)") (auto simp: measure_unat)

definition copy_word :: "rt_uint32 \<Rightarrow> rt_uint32 \<Rightarrow> memory \<Rightarrow> memory" where
  "copy_word dst src m = store32 dst (load32 m src) m"

function memcpy_quads :: "rt_uint32 \<Rightarrow> rt_uint32 \<Rightarrow> rt_uint32 \<Rightarrow> memory \<Rightarrow> rt_uint32 \<times> rt_uint32 \<times> rt_uint32 \<times> memory" where
  "memcpy_quads dst src len m =
     (if 16 \<le> len
      then memcpy_quads (dst + 16) (src + 16) (len - 16)
             (copy_word (dst + 12) (src + 12) (copy_word (dst + 8) (src + 8)
               (copy_word (dst + 4) (src + 4) (copy_word dst src m))))
      else (dst, src, len, m))"
  by pat_completeness auto
termination
  by (relation "measure (\<lambda>(_, _, len, _). unat len)") (auto simp: unat_sub word_le_nat_alt)

function memcpy_words :: "rt_uint32 \<Rightarrow> rt_uint32 \<Rightarrow> rt_uint32 \<Rightarrow> memory \<Rightarrow> rt_uint32 \<times> rt_uint32 \<times> rt_uint32 \<times> memory" where
  "memcpy_words dst src len m =
     (if 4 \<le> len then memcpy_words (dst + 4) (src + 4) (len - 4) (copy_word dst src m)
      else (dst, src, len, m))"
  by pat_completeness auto
termination
  by (relation "measure (\<lambda>(_, _, len, _). unat len)") (auto simp: unat_sub word_le_nat_alt)

definition rt_memcpy :: "rt_uint32 \<Rightarrow> rt_uint32 \<Rightarrow> rt_uint32 \<Rightarrow> memory \<Rightarrow> memory" where
  "rt_memcpy dst src count m =
     (if 16 \<le> count \<and> (src AND 3) OR (dst AND 3) = 0
      then (let (aligned_dst, aligned_src, len, m) = memcpy_quads dst src count m;
                (aligned_dst, aligned_src, len, m) = memcpy_words aligned_dst aligned_src len m
            in memcpy_bytes aligned_dst aligned_src len m)
      else memcpy_bytes dst src count m)"

function memmove_down :: "rt_uint32 \<Rightarrow> rt_uint32 \<Rightarrow> rt_uint32 \<Rightarrow> memory \<Rightarrow> memory" where
  "memmove_down tmp s n m =
     (if n = 0 then m else memmove_down (tmp - 1) (s - 1) (n - 1) (m(tmp - 1 := m (s - 1))))"
  by pat_completeness auto
termination by (relation "measure (\<lambda>(_, _, n, _). unat n)") (auto simp: measure_unat)

definition rt_memmove :: "rt_uint32 \<Rightarrow> rt_uint32 \<Rightarrow> rt_uint32 \<Rightarrow> memory \<Rightarrow> memory" where
  "rt_memmove dest src n m =
     (if src < dest \<and> dest < src + n then memmove_down (dest + n) (src + n) n m
      else memcpy_bytes dest src n m)"

declare memset_bytes.simps [simp del] memset_quads.simps [simp del] memset_words.simps [simp del]
  memcpy_bytes.simps [simp del] memcpy_quads.simps [simp del] memcpy_words.simps [simp del] memmove_down.simps [simp del]

section \<open>Filling\<close>

lemma word_less_split:
  fixes n k y :: "'a :: len word"
  assumes "k \<le> n"
  shows "y < n \<longleftrightarrow> y < k \<or> y - k < n - k \<and> k \<le> y"
  using assms by (auto simp: word_less_nat_alt word_le_nat_alt unat_sub not_less)

lemma fill_bytes_0 [simp]: "fill_bytes a d 0 m = m"
  by (simp add: fill_bytes_def)

lemma word_outside_shift:
  fixes y k n :: "'a :: len word"
  assumes "k \<le> n" "y < k"
  shows "n - k \<le> y - k"
proof -
  have "unat (y - k) = unat y + 2 ^ LENGTH('a) - unat k"
    using assms(2) by (subst unat_sub_if') (simp add: word_less_nat_alt)
  moreover have "unat n < 2 ^ LENGTH('a)" by (rule unsigned_less)
  ultimately have "unat n - unat k \<le> unat (y - k)" by linarith
  then show ?thesis using assms(1) by (simp add: word_le_nat_alt unat_sub)
qed

text \<open>A range is filled in two parts.\<close>

lemma fill_bytes_split:
  assumes "k \<le> n"
  shows "fill_bytes (a + k) d (n - k) (fill_bytes a d k m) = fill_bytes a d n m"
proof (rule ext)
  fix x
  have e: "x - (a + k) = x - a - k" by simp
  show "fill_bytes (a + k) d (n - k) (fill_bytes a d k m) x = fill_bytes a d n m x"
    using word_less_split [OF assms, of "x - a"] word_outside_shift [OF assms, of "x - a"]
    by (auto simp: fill_bytes_def not_less e)
qed

lemma fill_bytes_1: "m(a := d) = fill_bytes a d 1 m"
proof -
  have "x - a < 1 \<longleftrightarrow> x = a" for x by (simp add: word_less_1)
  then show ?thesis by (auto simp: fill_bytes_def fun_eq_iff)
qed

lemma memset_bytes_fills: "memset_bytes a d n m = fill_bytes a d n m"
proof (induction a d n m rule: memset_bytes.induct)
  case (1 a d n m)
  show ?case
  proof (cases "n = 0")
    case False
    then have "1 \<le> n" by (simp add: word_le_nat_alt unat_gt_0 Suc_le_eq)
    then show ?thesis using 1 False fill_bytes_split [of 1 n a d m]
      by (subst memset_bytes.simps) (simp add: fill_bytes_1)
  qed (simp add: memset_bytes.simps)
qed

text \<open>The word that holds a byte four times.\<close>

definition quad :: "rt_uint8 \<Rightarrow> rt_uint32" where
  "quad d = (let b = push_bit 8 (ucast d) OR ucast d in b OR push_bit 16 b)"

lemma quad_bytes:
  "ucast (quad d) = d" "ucast (drop_bit 8 (quad d)) = d" "ucast (drop_bit 16 (quad d)) = d" "ucast (drop_bit 24 (quad d)) = d"
  by (rule bit_word_eqI; auto simp: quad_def Let_def bit_simps dest: bit_imp_le_length)+

lemma word4_cases:
  fixes y :: rt_uint32
  shows "y < 4 \<longleftrightarrow> y = 0 \<or> y = 1 \<or> y = 2 \<or> y = 3"
proof
  assume "y < 4"
  then have "unat y < 4" by (simp add: word_less_nat_alt)
  then have "unat y = 0 \<or> unat y = 1 \<or> unat y = 2 \<or> unat y = 3" by linarith
  then show "y = 0 \<or> y = 1 \<or> y = 2 \<or> y = 3" by (simp add: word_unat_eq_iff)
qed auto

lemma word4_offset:
  fixes x a :: rt_uint32
  shows "x - a < 4 \<longleftrightarrow> x = a \<or> x = a + 1 \<or> x = a + 2 \<or> x = a + 3"
  unfolding word4_cases by (auto simp: algebra_simps)

lemma store32_fills: "store32 a (quad d) m = fill_bytes a d 4 m"
  by (auto simp: fill_bytes_def word4_offset store32_def quad_bytes fun_eq_iff)

lemma memset_quads_fills:
  assumes "memset_quads a (quad d) n m = (a', n', m')"
  shows "n' < 16 \<and> fill_bytes a' d n' m' = fill_bytes a d n m"
  using assms
proof (induction a "quad d" n m rule: memset_quads.induct)
  case (1 a n m)
  show ?case
  proof (cases "16 \<le> n")
    case True
    have four: "store32 (a + 12) (quad d) (store32 (a + 8) (quad d) (store32 (a + 4) (quad d) (store32 a (quad d) m))) = fill_bytes a d 16 m"
      using fill_bytes_split [of 4 8 a d m] fill_bytes_split [of 8 12 a d m] fill_bytes_split [of 12 16 a d m]
      by (simp add: store32_fills)
    have "memset_quads (a + 16) (quad d) (n - 16) (fill_bytes a d 16 m) = (a', n', m')"
      using 1(2) True four by (subst (asm) memset_quads.simps) simp
    from 1(1) [OF True, unfolded four, OF this] show ?thesis using fill_bytes_split [OF True, of a d m] by simp
  next
    case False
    then have "memset_quads a (quad d) n m = (a, n, m)" by (subst memset_quads.simps) (simp only: if_False)
    then show ?thesis using 1(2) False by auto
  qed
qed

lemma memset_words_fills:
  assumes "memset_words a (quad d) n m = (a', n', m')"
  shows "fill_bytes a' d n' m' = fill_bytes a d n m"
  using assms
proof (induction a "quad d" n m rule: memset_words.induct)
  case (1 a n m)
  show ?case
  proof (cases "4 \<le> n")
    case True
    have "memset_words (a + 4) (quad d) (n - 4) (fill_bytes a d 4 m) = (a', n', m')"
      using 1(2) True store32_fills by (subst (asm) memset_words.simps) simp
    from 1(1) [OF True, unfolded store32_fills, OF this] show ?thesis using fill_bytes_split [OF True, of a d m] by simp
  next
    case False
    then have "memset_words a (quad d) n m = (a, n, m)" by (subst memset_words.simps) (simp only: if_False)
    then show ?thesis using 1(2) by simp
  qed
qed

lemma rt_memset_fills: "rt_memset a c n m = fill_bytes a (ucast c) n m"
proof -
  let ?d = "ucast c :: rt_uint8"
  have ff: "(0xff :: rt_uint32) = mask 8" by (simp add: mask_eq_exp_minus_1)
  have low: "ucast (c AND 0xff) = ?d" unfolding ff by (rule bit_word_eqI) (auto simp: bit_simps)
  have b: "(push_bit 8 (c AND 0xff) OR (c AND 0xff)) OR push_bit 16 (push_bit 8 (c AND 0xff) OR (c AND 0xff)) = quad ?d"
    unfolding ff by (rule bit_word_eqI) (auto simp: quad_def Let_def bit_simps)
  obtain a1 n1 m1 where q: "memset_quads a (quad ?d) n m = (a1, n1, m1)" by (rule prod_cases3)
  obtain a2 n2 m2 where w: "memset_words a1 (quad ?d) n1 m1 = (a2, n2, m2)" by (rule prod_cases3)
  show ?thesis
    using memset_quads_fills [OF q] memset_words_fills [OF w]
    unfolding rt_memset_def Let_def low b q by (simp add: memset_bytes_fills w)
qed

section \<open>Copying\<close>

definition copy_bytes :: "rt_uint32 \<Rightarrow> rt_uint32 \<Rightarrow> rt_uint32 \<Rightarrow> memory \<Rightarrow> memory" where
  "copy_bytes d s n m = (\<lambda>x. if x - d < n then m (s + (x - d)) else m x)"

text \<open>Copying upwards reads every byte before it is overwritten.\<close>

definition upward_safe :: "rt_uint32 \<Rightarrow> rt_uint32 \<Rightarrow> rt_uint32 \<Rightarrow> bool" where
  "upward_safe d s n \<longleftrightarrow> d = s \<or> n \<le> d - s"

lemma copy_bytes_0 [simp]: "copy_bytes d s 0 m = m"
  by (simp add: copy_bytes_def)

lemma copy_bytes_split:
  assumes k: "k \<le> n" and safe: "upward_safe d s n"
  shows "copy_bytes (d + k) (s + k) (n - k) (copy_bytes d s k m) = copy_bytes d s n m"
proof (rule ext)
  fix x
  have e: "x - (d + k) = x - d - k" by simp
  show "copy_bytes (d + k) (s + k) (n - k) (copy_bytes d s k m) x = copy_bytes d s n m x"
  proof (cases "x - d - k < n - k \<and> k \<le> x - d")
    case True
    then have "x - d < n" using word_less_split [OF k, of "x - d"] by simp
    moreover from this have "copy_bytes d s k m (s + (x - d)) = m (s + (x - d))"
    proof (cases "d = s")
      case False
      then have "n \<le> d - s" using safe by (simp add: upward_safe_def)
      then have lt: "x - d < d - s" using \<open>x - d < n\<close> by simp
      then have "unat (x - d - (d - s)) = unat (x - d) + 2 ^ 32 - unat (d - s)"
        by (subst unat_sub_if') (simp add: word_less_nat_alt)
      moreover have "unat (d - s) < 2 ^ 32" using unsigned_less [of "d - s", where ?'a = nat] by simp
      moreover have "unat k \<le> unat (x - d)" using True by (simp add: word_le_nat_alt)
      ultimately have "unat k \<le> unat (x - d - (d - s))" by linarith
      moreover have "x - d - (d - s) = s + (x - d) - d" by simp
      ultimately have "\<not> s + (x - d) - d < k" by (simp add: word_less_nat_alt)
      then show ?thesis by (simp add: copy_bytes_def)
    qed (simp add: copy_bytes_def)
    moreover have "s + k + (x - (d + k)) = s + (x - d)" by simp
    ultimately show ?thesis
      unfolding copy_bytes_def [of "d + k"] copy_bytes_def [of d s n] using True by (simp add: e)
  next
    case False
    then show ?thesis using word_less_split [OF k, of "x - d"] word_outside_shift [OF k, of "x - d"]
      by (auto simp: copy_bytes_def e not_less)
  qed
qed

lemma upward_safe_le: "upward_safe d s n \<Longrightarrow> k \<le> n \<Longrightarrow> upward_safe d s k"
  by (auto simp: upward_safe_def)

lemma upward_safe_shift:
  assumes "upward_safe d s n" "k \<le> n"
  shows "upward_safe (d + k) (s + k) (n - k)"
proof -
  have "n - k \<le> n" using assms(2) by (simp add: word_le_nat_alt unat_sub)
  then show ?thesis using assms(1) by (auto simp: upward_safe_def)
qed

lemma copy_bytes_1: "m(d := m s) = copy_bytes d s 1 m"
proof -
  have "x - d < 1 \<longleftrightarrow> x = d" for x by (simp add: word_less_1)
  then show ?thesis by (auto simp: copy_bytes_def fun_eq_iff)
qed

lemma load32_bytes:
  "ucast (load32 m a) = m a" "ucast (drop_bit 8 (load32 m a)) = m (a + 1)"
  "ucast (drop_bit 16 (load32 m a)) = m (a + 2)" "ucast (drop_bit 24 (load32 m a)) = m (a + 3)"
  by (rule bit_word_eqI; auto simp: load32_def bit_simps dest: bit_imp_le_length)+

lemma copy_word_copies: "copy_word d s m = copy_bytes d s 4 m"
proof (rule ext)
  fix x
  show "copy_word d s m x = copy_bytes d s 4 m x"
    using word4_offset [of x d] by (auto simp: copy_bytes_def copy_word_def store32_def load32_bytes)
qed

lemma memcpy_bytes_copies: "upward_safe d s n \<Longrightarrow> memcpy_bytes d s n m = copy_bytes d s n m"
proof (induction d s n m rule: memcpy_bytes.induct)
  case (1 d s n m)
  show ?case
  proof (cases "n = 0")
    case False
    then have le: "1 \<le> n" by (simp add: word_le_nat_alt unat_gt_0 Suc_le_eq)
    then show ?thesis using 1 False copy_bytes_split [OF le 1(2), of m] upward_safe_shift [OF 1(2) le]
      by (subst memcpy_bytes.simps) (simp add: copy_bytes_1)
  qed (simp add: memcpy_bytes.simps)
qed

lemma memcpy_quads_copies:
  assumes "memcpy_quads d s n m = (d', s', n', m')" "upward_safe d s n"
  shows "upward_safe d' s' n' \<and> copy_bytes d' s' n' m' = copy_bytes d s n m"
  using assms
proof (induction d s n m rule: memcpy_quads.induct)
  case (1 d s n m)
  show ?case
  proof (cases "16 \<le> n")
    case True
    have S: "upward_safe d s k" if "k \<le> 16" for k using upward_safe_le [OF 1(3)] True that by simp
    have four: "copy_word (d + 12) (s + 12) (copy_word (d + 8) (s + 8) (copy_word (d + 4) (s + 4) (copy_word d s m))) = copy_bytes d s 16 m"
      using copy_bytes_split [of 4 8 d s m] copy_bytes_split [of 8 12 d s m] copy_bytes_split [of 12 16 d s m] S
      by (simp add: copy_word_copies)
    have "memcpy_quads (d + 16) (s + 16) (n - 16) (copy_bytes d s 16 m) = (d', s', n', m')"
      using 1(2) True four by (subst (asm) memcpy_quads.simps) simp
    from 1(1) [OF True, unfolded four, OF this upward_safe_shift [OF 1(3) True]] show ?thesis
      using copy_bytes_split [OF True 1(3), of m] by simp
  next
    case False
    then have "memcpy_quads d s n m = (d, s, n, m)" by (subst memcpy_quads.simps) (simp only: if_False)
    then show ?thesis using 1(2,3) by simp
  qed
qed

lemma memcpy_words_copies:
  assumes "memcpy_words d s n m = (d', s', n', m')" "upward_safe d s n"
  shows "upward_safe d' s' n' \<and> copy_bytes d' s' n' m' = copy_bytes d s n m"
  using assms
proof (induction d s n m rule: memcpy_words.induct)
  case (1 d s n m)
  show ?case
  proof (cases "4 \<le> n")
    case True
    have "memcpy_words (d + 4) (s + 4) (n - 4) (copy_bytes d s 4 m) = (d', s', n', m')"
      using 1(2) True copy_word_copies by (subst (asm) memcpy_words.simps) simp
    from 1(1) [OF True, unfolded copy_word_copies, OF this upward_safe_shift [OF 1(3) True]] show ?thesis
      using copy_bytes_split [OF True 1(3), of m] by simp
  next
    case False
    then have "memcpy_words d s n m = (d, s, n, m)" by (subst memcpy_words.simps) (simp only: if_False)
    then show ?thesis using 1(2,3) by simp
  qed
qed

lemma rt_memcpy_copies:
  assumes "upward_safe d s n"
  shows "rt_memcpy d s n m = copy_bytes d s n m"
proof -
  obtain d1 s1 n1 m1 where q: "memcpy_quads d s n m = (d1, s1, n1, m1)" by (rule prod_cases4)
  obtain d2 s2 n2 m2 where w: "memcpy_words d1 s1 n1 m1 = (d2, s2, n2, m2)" by (rule prod_cases4)
  note Q = memcpy_quads_copies [OF q assms]
  note W = memcpy_words_copies [OF w Q [THEN conjunct1]]
  show ?thesis
    using Q W memcpy_bytes_copies [OF W [THEN conjunct1]] memcpy_bytes_copies [OF assms] by (simp add: rt_memcpy_def Let_def q w)
qed

section \<open>Moving\<close>

text \<open>Downwards, from the last byte: the addresses are the ends of the ranges.\<close>

lemma copy_bytes_last:
  assumes n: "n \<noteq> 0" and safe: "n \<le> s - d"
  shows "copy_bytes d s (n - 1) (m(d + (n - 1) := m (s + (n - 1)))) = copy_bytes d s n m"
proof (rule ext)
  fix x
  have le: "1 \<le> n" using n by (simp add: word_le_nat_alt unat_gt_0 Suc_le_eq)
  have last: "x - d < n \<longleftrightarrow> x - d < n - 1 \<or> x - d = n - 1"
    using le by (auto simp: word_less_nat_alt word_unat_eq_iff unat_sub word_le_nat_alt)
  have top: "x = d + (n - 1) \<longleftrightarrow> x - d = n - 1" by (auto simp: algebra_simps)
  show "copy_bytes d s (n - 1) (m(d + (n - 1) := m (s + (n - 1)))) x = copy_bytes d s n m x"
  proof (cases "x - d < n - 1")
    case True
    have "s + (x - d) \<noteq> d + (n - 1)"
    proof
      assume "s + (x - d) = d + (n - 1)"
      then have eq: "s - d = n - 1 - (x - d)" by (simp add: algebra_simps)
      have "unat (n - 1 - (x - d)) = unat n - 1 - unat (x - d)"
        using True le by (subst unat_sub) (simp_all add: unat_sub)
      moreover have "unat n \<le> unat (n - 1 - (x - d))" using safe unfolding eq word_le_nat_alt .
      moreover have "0 < unat n" using n by (simp add: unat_gt_0)
      ultimately show False by linarith
    qed
    then show ?thesis using True last by (simp add: copy_bytes_def)
  next
    case False
    then show ?thesis unfolding copy_bytes_def last using top by simp
  qed
qed

lemma memmove_down_copies: "n \<le> s - d \<Longrightarrow> memmove_down (d + n) (s + n) n m = copy_bytes d s n m"
proof (induction "unat n" arbitrary: n m)
  case 0
  then show ?case by (simp add: memmove_down.simps unat_eq_zero)
next
  case (Suc k)
  then have n: "n \<noteq> 0" by auto
  then have le: "1 \<le> n" by (simp add: word_le_nat_alt unat_gt_0 Suc_le_eq)
  have k: "k = unat (n - 1)" using Suc(2) le by (simp add: unat_sub)
  have safe: "n - 1 \<le> s - d" using Suc(3) le by (simp add: word_le_nat_alt unat_sub)
  have "memmove_down (d + n) (s + n) n m = memmove_down (d + (n - 1)) (s + (n - 1)) (n - 1) (m(d + (n - 1) := m (s + (n - 1))))"
    using n by (subst memmove_down.simps) (simp add: add_diff_eq)
  then show ?case using Suc(1) [OF k safe] copy_bytes_last [OF n Suc(3)] by simp
qed

text \<open>The tests of the code on addresses, for ranges that do not wrap.\<close>

lemma upward_safe_if:
  assumes "unat src + unat n < 2 ^ 32" "unat dst + unat n < 2 ^ 32" "\<not> (src < dst \<and> dst < src + n)"
  shows "upward_safe dst src n"
proof -
  have top: "unat (src + n) = unat src + unat n" using assms(1) by (simp add: unat_word_ariths)
  consider "dst = src" | "dst < src" | "src + n \<le> dst" "src \<le> dst" using assms(3) by fastforce
  then show ?thesis
  proof cases
    case 2
    then have "unat (dst - src) = unat dst + 2 ^ 32 - unat src" by (subst unat_sub_if') (simp add: word_less_nat_alt)
    then have "unat n \<le> unat (dst - src)" using assms(1) by linarith
    then show ?thesis by (simp add: upward_safe_def word_le_nat_alt)
  next
    case 3
    then have "unat n \<le> unat (dst - src)" using top by (simp add: word_le_nat_alt unat_sub)
    then show ?thesis by (simp add: upward_safe_def word_le_nat_alt)
  qed (simp add: upward_safe_def)
qed

lemma downward_safe_if:
  fixes src dst n :: rt_uint32
  assumes "unat dst + unat n < 2 ^ 32" "src < dst"
  shows "n \<le> src - dst"
proof -
  have "unat (src - dst) = unat src + 2 ^ 32 - unat dst"
    using assms(2) by (subst unat_sub_if') (simp add: word_less_nat_alt)
  then have "unat n \<le> unat (src - dst)" using assms(1) by linarith
  then show ?thesis by (simp add: word_le_nat_alt)
qed

text \<open>
  C38: \<^verbatim>\<open>rt_memmove\<close> copies every byte as it was before the call, for every overlap of the two areas, and
  changes nothing outside the destination; \<^verbatim>\<open>rt_memcpy\<close> does so too, with its word-wise loops on aligned
  addresses, unless the destination starts inside the source behind its first byte; \<^verbatim>\<open>rt_memset\<close> writes the low byte of its argument
  to exactly the given range.
\<close>

theorem memory_routines_correct:
  assumes "unat src + unat n < 2 ^ 32" "unat dst + unat n < 2 ^ 32"
  shows "rt_memmove dst src n m = copy_bytes dst src n m \<and>
     (\<not> (src < dst \<and> dst < src + n) \<longrightarrow> rt_memcpy dst src n m = copy_bytes dst src n m) \<and>
     rt_memset dst c n m = fill_bytes dst (ucast c) n m"
proof (cases "src < dst \<and> dst < src + n")
  case True
  then show ?thesis
    using memmove_down_copies [OF downward_safe_if [OF assms(2)]] by (simp add: rt_memmove_def rt_memset_fills)
next
  case False
  note U = upward_safe_if [OF assms False]
  show ?thesis using False memcpy_bytes_copies [OF U] rt_memcpy_copies [OF U] by (auto simp: rt_memmove_def rt_memset_fills)
qed

end
