(* ===== verification/Heap.thy ===== *)
theory Heap
  imports KMemory Semaphore
begin

text \<open>
  The heap of the system, the small-memory allocator of \<^verbatim>\<open>src/mem.c\<close>: a chain of blocks, each behind a
  header of 12 bytes with the offsets of its neighbours, first fit from the lowest free block,
  splitting, and merging of adjacent free blocks.

  The headers are a store from addresses to header records; the data of the blocks is in the memory of
  the kernel state.  The store of headers is only written by the allocator: an application that writes
  outside its blocks is not covered.  Pointers are addresses, \<^verbatim>\<open>RT_NULL\<close> is 0, offsets are relative to
  \<^verbatim>\<open>heap_ptr\<close>.  An operation that has to wait for \<^verbatim>\<open>heap_sem\<close> returns \<open>Wait\<close>; its part under the
  semaphore, which the caller does when it runs again, is a definition of its own.

  The abstraction of a heap is the list of its blocks, each a size (with the header) and whether it is
  used.
\<close>

section \<open>Data\<close>

abbreviation (input) HEAP_MAGIC :: rt_uint16 where "HEAP_MAGIC \<equiv> 0x1ea0"
abbreviation (input) SIZEOF_STRUCT_MEM :: rt_uint32 where "SIZEOF_STRUCT_MEM \<equiv> 12"
abbreviation (input) MIN_SIZE_ALIGNED :: rt_uint32 where "MIN_SIZE_ALIGNED \<equiv> 12"

record heap_mem =
  hm_magic :: rt_uint16
  hm_used :: rt_uint16
  hm_next :: rt_uint32
  hm_prev :: rt_uint32

record heap =
  h_hdr :: "rt_uint32 \<Rightarrow> heap_mem"
  heap_ptr :: rt_uint32
  heap_end :: rt_uint32
  lfree :: rt_uint32
  heap_sem :: oid
  mem_size_aligned :: rt_uint32
  used_mem :: rt_uint32
  max_mem :: rt_uint32

definition upd_hdr :: "rt_uint32 \<Rightarrow> (heap_mem \<Rightarrow> heap_mem) \<Rightarrow> heap \<Rightarrow> heap" where
  "upd_hdr a f h = h\<lparr>h_hdr := (h_hdr h)(a := f (h_hdr h a))\<rparr>"

section \<open>Operations on the chain\<close>

text \<open>The two halves of \<^verbatim>\<open>plug_holes\<close> do the same to a block and its successor.\<close>

definition heap_join :: "rt_uint32 \<Rightarrow> rt_uint32 \<Rightarrow> heap \<Rightarrow> heap" where
  "heap_join mem nmem h =
     (let h = (if lfree h = nmem then h\<lparr>lfree := mem\<rparr> else h);
          h = upd_hdr mem (\<lambda>m. m\<lparr>hm_next := hm_next (h_hdr h nmem)\<rparr>) h
      in upd_hdr (heap_ptr h + hm_next (h_hdr h nmem)) (\<lambda>m. m\<lparr>hm_prev := mem - heap_ptr h\<rparr>) h)"

definition plug_holes :: "rt_uint32 \<Rightarrow> heap \<Rightarrow> heap option" where
  "plug_holes mem h = do {
     rt_assert (heap_ptr h \<le> mem);
     rt_assert (mem < heap_end h);
     rt_assert (hm_used (h_hdr h mem) = 0);
     let nmem = heap_ptr h + hm_next (h_hdr h mem);
     let h = (if mem \<noteq> nmem \<and> hm_used (h_hdr h nmem) = 0 \<and> nmem \<noteq> heap_end h then heap_join mem nmem h else h);
     let pmem = heap_ptr h + hm_prev (h_hdr h mem);
     Some (if pmem \<noteq> mem \<and> hm_used (h_hdr h pmem) = 0 then heap_join pmem mem h else h)
   }"

text \<open>The block at offset \<open>ptr\<close> is cut at offset \<open>ptr2\<close>; \<open>mark\<close> is what else is written to its header.\<close>

definition heap_split :: "rt_uint32 \<Rightarrow> rt_uint32 \<Rightarrow> (heap_mem \<Rightarrow> heap_mem) \<Rightarrow> heap \<Rightarrow> heap" where
  "heap_split ptr ptr2 mark h =
     (let mem = heap_ptr h + ptr; mem2 = heap_ptr h + ptr2;
          h = upd_hdr mem2 (\<lambda>_. \<lparr>hm_magic = HEAP_MAGIC, hm_used = 0, hm_next = hm_next (h_hdr h mem), hm_prev = ptr\<rparr>) h;
          h = upd_hdr mem (\<lambda>m. mark (m\<lparr>hm_next := ptr2\<rparr>)) h
      in if hm_next (h_hdr h mem2) \<noteq> mem_size_aligned h + SIZEOF_STRUCT_MEM
         then upd_hdr (heap_ptr h + hm_next (h_hdr h mem2)) (\<lambda>m. m\<lparr>hm_prev := ptr2\<rparr>) h else h)"

definition heap_count :: "rt_uint32 \<Rightarrow> heap \<Rightarrow> heap" where
  "heap_count n h =
     (let h = h\<lparr>used_mem := used_mem h + n\<rparr>
      in if max_mem h < used_mem h then h\<lparr>max_mem := used_mem h\<rparr> else h)"

text \<open>The search of \<^verbatim>\<open>rt_malloc\<close> and the loop that advances \<^verbatim>\<open>lfree\<close>.\<close>

partial_function (option) heap_search :: "rt_uint32 \<Rightarrow> rt_uint32 \<Rightarrow> heap \<Rightarrow> rt_uint32 option option" where
  "heap_search sz ptr h =
     (if ptr < mem_size_aligned h - sz
      then (let mem = h_hdr h (heap_ptr h + ptr)
            in if hm_used mem = 0 \<and> sz \<le> hm_next mem - (ptr + SIZEOF_STRUCT_MEM) then Some (Some ptr)
               else heap_search sz (hm_next mem) h)
      else Some None)"

partial_function (option) heap_advance :: "rt_uint32 \<Rightarrow> heap \<Rightarrow> rt_uint32 option" where
  "heap_advance l h =
     (if hm_used (h_hdr h l) \<noteq> 0 \<and> l \<noteq> heap_end h then heap_advance (heap_ptr h + hm_next (h_hdr h l)) h else Some l)"

text \<open>The block that was found is cut or taken whole.\<close>

definition heap_carve :: "rt_uint32 \<Rightarrow> rt_uint32 \<Rightarrow> heap \<Rightarrow> heap" where
  "heap_carve sz ptr h =
     (let mem = heap_ptr h + ptr
      in if sz + SIZEOF_STRUCT_MEM + MIN_SIZE_ALIGNED \<le> hm_next (h_hdr h mem) - (ptr + SIZEOF_STRUCT_MEM)
         then heap_count (sz + SIZEOF_STRUCT_MEM) (heap_split ptr (ptr + SIZEOF_STRUCT_MEM + sz) (\<lambda>m. m\<lparr>hm_used := 1\<rparr>) h)
         else (let h = upd_hdr mem (\<lambda>m. m\<lparr>hm_used := 1\<rparr>) h
               in heap_count (hm_next (h_hdr h mem) - (mem - heap_ptr h)) h))"

definition heap_take :: "rt_uint32 \<Rightarrow> heap \<Rightarrow> (rt_uint32 option \<times> heap) option" where
  "heap_take sz h = do {
     r \<leftarrow> heap_search sz (lfree h - heap_ptr h) h;
     (case r of
        None \<Rightarrow> Some (None, h)
      | Some ptr \<Rightarrow> do {
          let mem = heap_ptr h + ptr;
          let h = heap_carve sz ptr h;
          let h = upd_hdr mem (\<lambda>m. m\<lparr>hm_magic := HEAP_MAGIC\<rparr>) h;
          h \<leftarrow> (if mem = lfree h
               then do {
                 l \<leftarrow> heap_advance (lfree h) h;
                 rt_assert (l = heap_end h \<or> hm_used (h_hdr h l) = 0);
                 Some (h\<lparr>lfree := l\<rparr>)
               }
               else Some h);
          Some (Some mem, h)
        })
   }"

definition heap_give :: "rt_uint32 \<Rightarrow> heap \<Rightarrow> heap option" where
  "heap_give mem h = do {
     rt_assert (hm_used (h_hdr h mem) \<noteq> 0);
     rt_assert (hm_magic (h_hdr h mem) = HEAP_MAGIC);
     let h = upd_hdr mem (\<lambda>m. m\<lparr>hm_used := 0, hm_magic := HEAP_MAGIC\<rparr>) h;
     let h = (if mem < lfree h then h\<lparr>lfree := mem\<rparr> else h);
     let h = h\<lparr>used_mem := used_mem h - (hm_next (h_hdr h mem) - (mem - heap_ptr h))\<rparr>;
     plug_holes mem h
   }"

section \<open>The interface\<close>

definition rt_system_heap_init :: "rt_uint32 \<Rightarrow> rt_uint32 \<Rightarrow> kstate \<Rightarrow> heap \<Rightarrow> (kstate \<times> heap) option" where
  "rt_system_heap_init begin_addr end_addr s h = do {
     let begin_align = RT_ALIGN begin_addr RT_ALIGN_SIZE;
     let end_align = RT_ALIGN_DOWN end_addr RT_ALIGN_SIZE;
     rt_debug_not_in_interrupt s;
     if 2 * SIZEOF_STRUCT_MEM < end_align \<and> begin_align \<le> end_align - 2 * SIZEOF_STRUCT_MEM
     then do {
       let h = h\<lparr>mem_size_aligned := end_align - begin_align - 2 * SIZEOF_STRUCT_MEM, heap_ptr := begin_align\<rparr>;
       let last = mem_size_aligned h + SIZEOF_STRUCT_MEM;
       let h = upd_hdr (heap_ptr h) (\<lambda>_. \<lparr>hm_magic = HEAP_MAGIC, hm_used = 0, hm_next = last, hm_prev = 0\<rparr>) h;
       let h = h\<lparr>heap_end := heap_ptr h + last\<rparr>;
       let h = upd_hdr (heap_end h) (\<lambda>_. \<lparr>hm_magic = HEAP_MAGIC, hm_used = 1, hm_next = last, hm_prev = last\<rparr>) h;
       (_, s) \<leftarrow> rt_sem_init (heap_sem h) [104, 101, 97, 112] 1 0 s;
       Some (s, h\<lparr>lfree := heap_ptr h\<rparr>)
     }
     else Some (s, h)
   }"

definition malloc_locked :: "rt_uint32 \<Rightarrow> kstate \<Rightarrow> heap \<Rightarrow> (rt_uint32 outcome \<times> kstate \<times> heap) option" where
  "malloc_locked sz s h = do {
     (r, h) \<leftarrow> heap_take sz h;
     (_, s) \<leftarrow> rt_sem_release (heap_sem h) s;
     (case r of
        None \<Rightarrow> Some (Ret 0, s, h)
      | Some mem \<Rightarrow> do {
          rt_assert (mem + SIZEOF_STRUCT_MEM + sz \<le> heap_end h);
          rt_assert ((mem + SIZEOF_STRUCT_MEM) mod RT_ALIGN_SIZE = 0);
          rt_assert (mem AND (RT_ALIGN_SIZE - 1) = 0);
          Some (Ret (mem + SIZEOF_STRUCT_MEM), s, h)
        })
   }"

definition rt_malloc :: "rt_uint32 \<Rightarrow> kstate \<Rightarrow> heap \<Rightarrow> (rt_uint32 outcome \<times> kstate \<times> heap) option" where
  "rt_malloc sz s h =
     (if sz = 0 then Some (Ret 0, s, h)
      else do {
        rt_debug_not_in_interrupt s;
        let sz = RT_ALIGN sz RT_ALIGN_SIZE;
        if mem_size_aligned h < sz then Some (Ret 0, s, h)
        else do {
          let sz = (if sz < MIN_SIZE_ALIGNED then MIN_SIZE_ALIGNED else sz);
          (r, s) \<leftarrow> rt_sem_take (heap_sem h) (- 1) s;
          (case r of Wait \<Rightarrow> Some (Wait, s, h) | Ret _ \<Rightarrow> malloc_locked sz s h)
        }
      })"

definition free_locked :: "rt_uint32 \<Rightarrow> kstate \<Rightarrow> heap \<Rightarrow> (unit outcome \<times> kstate \<times> heap) option" where
  "free_locked mem s h = do {
     h \<leftarrow> heap_give mem h;
     (_, s) \<leftarrow> rt_sem_release (heap_sem h) s;
     Some (Ret (), s, h)
   }"

definition rt_free :: "rt_uint32 \<Rightarrow> kstate \<Rightarrow> heap \<Rightarrow> (unit outcome \<times> kstate \<times> heap) option" where
  "rt_free rmem s h =
     (if rmem = 0 then Some (Ret (), s, h)
      else do {
        rt_debug_not_in_interrupt s;
        rt_assert (rmem AND (RT_ALIGN_SIZE - 1) = 0);
        rt_assert (heap_ptr h \<le> rmem \<and> rmem < heap_end h);
        let mem = rmem - SIZEOF_STRUCT_MEM;
        (r, s) \<leftarrow> rt_sem_take (heap_sem h) (- 1) s;
        (case r of Wait \<Rightarrow> Some (Wait, s, h) | Ret _ \<Rightarrow> free_locked mem s h)
      })"

text \<open>The end of an enlarging \<^verbatim>\<open>rt_realloc\<close>, with the block that \<^verbatim>\<open>rt_malloc\<close> returned.\<close>

definition realloc_move :: "rt_uint32 \<Rightarrow> rt_uint32 \<Rightarrow> rt_uint32 \<Rightarrow> rt_uint32 \<Rightarrow> kstate \<Rightarrow> heap \<Rightarrow>
    (rt_uint32 outcome \<times> kstate \<times> heap) option" where
  "realloc_move rmem sz newsize nmem s h =
     (if nmem = 0 then Some (Ret nmem, s, h)
      else do {
        let s = s\<lparr>k_mem := rt_memcpy nmem rmem (if sz < newsize then sz else newsize) (k_mem s)\<rparr>;
        (r, s, h) \<leftarrow> rt_free rmem s h;
        (case r of Wait \<Rightarrow> Some (Wait, s, h) | Ret _ \<Rightarrow> Some (Ret nmem, s, h))
      })"

definition realloc_locked :: "rt_uint32 \<Rightarrow> rt_uint32 \<Rightarrow> kstate \<Rightarrow> heap \<Rightarrow> (rt_uint32 outcome \<times> kstate \<times> heap) option" where
  "realloc_locked rmem newsize s h =
     (if rmem < heap_ptr h \<or> heap_end h \<le> rmem then do {
        (_, s) \<leftarrow> rt_sem_release (heap_sem h) s;
        Some (Ret rmem, s, h)
      }
      else do {
        let mem = rmem - SIZEOF_STRUCT_MEM;
        let ptr = mem - heap_ptr h;
        let sz = hm_next (h_hdr h mem) - ptr - SIZEOF_STRUCT_MEM;
        if sz = newsize then do {
          (_, s) \<leftarrow> rt_sem_release (heap_sem h) s;
          Some (Ret rmem, s, h)
        }
        else if newsize + SIZEOF_STRUCT_MEM + 12 < sz then do {
          let h = h\<lparr>used_mem := used_mem h - (sz - newsize)\<rparr>;
          let ptr2 = ptr + SIZEOF_STRUCT_MEM + newsize;
          let h = heap_split ptr ptr2 (\<lambda>m. m) h;
          h \<leftarrow> plug_holes (heap_ptr h + ptr2) h;
          (_, s) \<leftarrow> rt_sem_release (heap_sem h) s;
          Some (Ret rmem, s, h)
        }
        else do {
          (_, s) \<leftarrow> rt_sem_release (heap_sem h) s;
          (r, s, h) \<leftarrow> rt_malloc newsize s h;
          (case r of Wait \<Rightarrow> Some (Wait, s, h) | Ret nmem \<Rightarrow> realloc_move rmem sz newsize nmem s h)
        }
      })"

definition rt_realloc :: "rt_uint32 \<Rightarrow> rt_uint32 \<Rightarrow> kstate \<Rightarrow> heap \<Rightarrow> (rt_uint32 outcome \<times> kstate \<times> heap) option" where
  "rt_realloc rmem newsize s h = do {
     rt_debug_not_in_interrupt s;
     let newsize = RT_ALIGN newsize RT_ALIGN_SIZE;
     if mem_size_aligned h < newsize then Some (Ret 0, s, h)
     else if newsize = 0 then do {
       (r, s, h) \<leftarrow> rt_free rmem s h;
       (case r of Wait \<Rightarrow> Some (Wait, s, h) | Ret _ \<Rightarrow> Some (Ret 0, s, h))
     }
     else if rmem = 0 then rt_malloc newsize s h
     else do {
       (r, s) \<leftarrow> rt_sem_take (heap_sem h) (- 1) s;
       (case r of Wait \<Rightarrow> Some (Wait, s, h) | Ret _ \<Rightarrow> realloc_locked rmem newsize s h)
     }
   }"

definition calloc_clear :: "rt_uint32 \<Rightarrow> rt_uint32 \<Rightarrow> kstate \<Rightarrow> kstate" where
  "calloc_clear p n s = (if p \<noteq> 0 then s\<lparr>k_mem := rt_memset p 0 n (k_mem s)\<rparr> else s)"

definition rt_calloc :: "rt_uint32 \<Rightarrow> rt_uint32 \<Rightarrow> kstate \<Rightarrow> heap \<Rightarrow> (rt_uint32 outcome \<times> kstate \<times> heap) option" where
  "rt_calloc count sz s h = do {
     (r, s, h) \<leftarrow> rt_malloc (count * sz) s h;
     (case r of Wait \<Rightarrow> Some (Wait, s, h) | Ret p \<Rightarrow> Some (Ret p, calloc_clear p (count * sz) s, h))
   }"

definition rt_memory_info :: "heap \<Rightarrow> rt_uint32 \<times> rt_uint32 \<times> rt_uint32" where
  "rt_memory_info h = (mem_size_aligned h, used_mem h, max_mem h)"

section \<open>The chain of blocks\<close>

type_synonym blocks = "(nat \<times> bool) list"

definition extent :: "blocks \<Rightarrow> nat" where
  "extent bs = sum_list (map fst bs)"

lemma extent_simps [simp]: "extent [] = 0" "extent (b # bs) = fst b + extent bs" "extent (xs @ ys) = extent xs + extent ys"
  by (simp_all add: extent_def)

text \<open>Offsets as words.\<close>

definition off :: "nat \<Rightarrow> rt_uint32" where
  "off x = of_nat x"

lemma off_eq [simp]: "x < 2 ^ 32 \<Longrightarrow> y < 2 ^ 32 \<Longrightarrow> off x = off y \<longleftrightarrow> x = y"
  by (simp add: off_def word_unat_eq_iff unat_of_nat)

lemma unat_off [simp]: "x < 2 ^ 32 \<Longrightarrow> unat (off x) = x"
  by (simp add: off_def unat_of_nat)

definition heap_header :: "nat \<Rightarrow> nat \<Rightarrow> nat \<Rightarrow> bool \<Rightarrow> heap_mem" where
  "heap_header p a n u = \<lparr>hm_magic = HEAP_MAGIC, hm_used = (if u then 1 else 0), hm_next = off (a + n), hm_prev = off p\<rparr>"

text \<open>\<open>segs m B p a bs\<close>: in the store \<open>m\<close> of a heap at \<open>B\<close>, the blocks \<open>bs\<close> lie one behind the other from
  offset \<open>a\<close> on, and the first has the block at \<open>p\<close> before it.\<close>

fun segs :: "(rt_uint32 \<Rightarrow> heap_mem) \<Rightarrow> rt_uint32 \<Rightarrow> nat \<Rightarrow> nat \<Rightarrow> blocks \<Rightarrow> bool" where
  "segs m B p a [] \<longleftrightarrow> True"
| "segs m B p a ((n, u) # bs) \<longleftrightarrow> 12 \<le> n \<and> 4 dvd n \<and> m (B + off a) = heap_header p a n u \<and> segs m B a (a + n) bs"

fun last_start :: "nat \<Rightarrow> nat \<Rightarrow> blocks \<Rightarrow> nat" where
  "last_start p a [] = p"
| "last_start p a ((n, u) # bs) = last_start a (a + n) bs"

lemma last_start_snoc [simp]: "last_start p a (xs @ [(n, u)]) = a + extent xs"
  by (induction p a xs rule: last_start.induct) simp_all

lemma segs_append: "segs m B p a (xs @ ys) \<longleftrightarrow> segs m B p a xs \<and> segs m B (last_start p a xs) (a + extent xs) ys"
  by (induction m B p a xs rule: segs.induct) (simp_all add: add.assoc)

lemma segs_sizes: "segs m B p a bs \<Longrightarrow> b \<in> set bs \<Longrightarrow> 12 \<le> fst b \<and> 4 dvd fst b"
  by (induction m B p a bs rule: segs.induct) auto

lemma segs_dvd: "segs m B p a bs \<Longrightarrow> 4 dvd extent bs"
  by (induction m B p a bs rule: segs.induct) auto

text \<open>Only the headers count.\<close>

lemma segs_agree:
  assumes "\<And>x. a \<le> x \<Longrightarrow> x < a + extent bs \<Longrightarrow> m' (B + off x) = m (B + off x)"
  shows "segs m' B p a bs = segs m B p a bs"
  using assms
proof (induction bs arbitrary: p a)
  case (Cons b bs)
  obtain n u where b: "b = (n, u)" by (cases b)
  show ?case
  proof (cases "12 \<le> n")
    case True
    then have "m' (B + off a) = m (B + off a)" using Cons.prems [of a] by (simp add: b)
    moreover have "segs m' B a (a + n) bs = segs m B a (a + n) bs" by (rule Cons.IH) (use Cons.prems b in auto)
    ultimately show ?thesis by (simp add: b)
  qed (simp add: b)
qed simp

lemma segs_reprev:
  assumes "segs m B p a bs" and "bs \<noteq> [] \<Longrightarrow> m' (B + off a) = (m (B + off a))\<lparr>hm_prev := off p'\<rparr>"
    and "\<And>x. a < x \<Longrightarrow> x < a + extent bs \<Longrightarrow> m' (B + off x) = m (B + off x)"
  shows "segs m' B p' a bs"
proof (cases bs)
  case (Cons b r)
  obtain n u where b: "b = (n, u)" by (cases b)
  have "segs m' B a (a + n) r = segs m B a (a + n) r"
    by (rule segs_agree) (use assms Cons b in auto)
  then show ?thesis using assms Cons b by (simp add: heap_header_def)
qed simp

text \<open>The heap holds the blocks \<open>bs\<close>: they fill it up to the end header, which counts as used.\<close>

definition heap_chain :: "heap \<Rightarrow> blocks \<Rightarrow> bool" where
  "heap_chain h bs \<longleftrightarrow> segs (h_hdr h) (heap_ptr h) 0 0 bs \<and> extent bs = unat (mem_size_aligned h) + 12 \<and>
     heap_end h = heap_ptr h + off (extent bs) \<and> hm_used (h_hdr h (heap_end h)) \<noteq> 0 \<and>
     unat (heap_ptr h) + extent bs + 12 < 2 ^ 32 \<and> 4 dvd unat (heap_ptr h)"

lemma heap_chainD:
  assumes "heap_chain h bs"
  shows "segs (h_hdr h) (heap_ptr h) 0 0 bs" "extent bs = unat (mem_size_aligned h) + 12"
    "heap_end h = heap_ptr h + off (extent bs)" "hm_used (h_hdr h (heap_end h)) \<noteq> 0"
    "unat (heap_ptr h) + extent bs + 12 < 2 ^ 32" "4 dvd unat (heap_ptr h)" "extent bs < 2 ^ 32"
  using assms unfolding heap_chain_def by (blast, blast, blast, blast, blast, blast, linarith)

text \<open>An update of the headers that leaves the geometry.\<close>

lemma heap_chainI:
  assumes "heap_chain h bs" "segs (h_hdr h') (heap_ptr h) 0 0 bs'" "extent bs' = extent bs"
    "heap_ptr h' = heap_ptr h" "heap_end h' = heap_end h" "mem_size_aligned h' = mem_size_aligned h"
    "hm_used (h_hdr h' (heap_end h)) = hm_used (h_hdr h (heap_end h))"
  shows "heap_chain h' bs'"
  using assms(1,2) unfolding heap_chain_def assms(3-7) by blast

lemma header_at:
  assumes "heap_chain h (xs @ (n, u) # ys)"
  shows "h_hdr h (heap_ptr h + off (extent xs)) = heap_header (last_start 0 0 xs) (extent xs) n u" "12 \<le> n" "4 dvd n"
  using heap_chainD(1) [OF assms] by (simp_all add: segs_append)

lemma upd_hdr_sel [simp]:
  "h_hdr (upd_hdr a f h) = (h_hdr h)(a := f (h_hdr h a))" "heap_ptr (upd_hdr a f h) = heap_ptr h"
  "heap_end (upd_hdr a f h) = heap_end h" "lfree (upd_hdr a f h) = lfree h" "heap_sem (upd_hdr a f h) = heap_sem h"
  "mem_size_aligned (upd_hdr a f h) = mem_size_aligned h" "used_mem (upd_hdr a f h) = used_mem h" "max_mem (upd_hdr a f h) = max_mem h"
  by (simp_all add: upd_hdr_def)

text \<open>Marking a block used or free.\<close>

lemma heap_mark:
  assumes c: "heap_chain h (xs @ (n, u) # ys)"
    and f: "f (h_hdr h (heap_ptr h + off (extent xs))) = heap_header (last_start 0 0 xs) (extent xs) n v"
  shows "heap_chain (upd_hdr (heap_ptr h + off (extent xs)) f h) (xs @ (n, v) # ys)"
proof (rule heap_chainI [OF c])
  note C = heap_chainD [OF c] and H = header_at [OF c]
  let ?a = "extent xs" and ?B = "heap_ptr h"
  let ?m = "(h_hdr h)(?B + off ?a := f (h_hdr h (?B + off ?a)))"
  have far: "?m (?B + off x) = h_hdr h (?B + off x)" if "x \<noteq> ?a" "x \<le> extent (xs @ (n, u) # ys)" for x
    using that C(7) by simp
  have "segs ?m ?B 0 0 xs = segs (h_hdr h) ?B 0 0 xs" by (rule segs_agree, rule far) simp_all
  moreover have "segs ?m ?B ?a (?a + n) ys = segs (h_hdr h) ?B ?a (?a + n) ys" by (rule segs_agree, rule far) (use H(2) in simp_all)
  ultimately show "segs (h_hdr (upd_hdr (?B + off ?a) f h)) ?B 0 0 (xs @ (n, v) # ys)"
    using C(1) H f by (simp add: segs_append)
  show "hm_used (h_hdr (upd_hdr (?B + off ?a) f h) (heap_end h)) = hm_used (h_hdr h (heap_end h))"
    using far [of "extent (xs @ (n, u) # ys)"] H(2) C(3) by simp
qed simp_all

text \<open>Joining a block with its successor.\<close>

lemma heap_join_chain:
  assumes c: "heap_chain h (xs @ (n, u) # (k, v) # ys)"
  defines "a \<equiv> heap_ptr h + off (extent xs)" and "b \<equiv> heap_ptr h + off (extent xs + n)"
  shows "heap_chain (heap_join a b h) (xs @ (n + k, u) # ys)"
    and "heap_ptr (heap_join a b h) = heap_ptr h" "heap_end (heap_join a b h) = heap_end h"
    "mem_size_aligned (heap_join a b h) = mem_size_aligned h" "used_mem (heap_join a b h) = used_mem h"
    "max_mem (heap_join a b h) = max_mem h" "heap_sem (heap_join a b h) = heap_sem h"
    "lfree (heap_join a b h) = (if lfree h = b then a else lfree h)"
proof -
  note C = heap_chainD [OF c]
  let ?a = "extent xs" and ?B = "heap_ptr h"
  let ?e = "?a + n + k"
  have Hn: "h_hdr h a = heap_header (last_start 0 0 xs) ?a n u" "12 \<le> n" "4 dvd n"
    using header_at [OF c] by (simp_all add: a_def)
  have Hk: "h_hdr h b = heap_header ?a (?a + n) k v" "12 \<le> k" "4 dvd k"
    using header_at [of h "xs @ [(n, u)]" k v ys] c by (simp_all add: b_def)
  have nx: "?B + hm_next (h_hdr h b) = ?B + off ?e" by (simp add: Hk heap_header_def)
  have top: "?e \<le> extent (xs @ (n, u) # (k, v) # ys)" by simp
  have ab: "a \<noteq> b" "?B + off ?e \<noteq> a" "?B + off ?e \<noteq> b"
    using C(7) top Hn(2) Hk(2) unfolding a_def b_def by simp_all
  define m where "m = (h_hdr h)(a := (h_hdr h a)\<lparr>hm_next := off ?e\<rparr>,
     ?B + off ?e := (h_hdr h (?B + off ?e))\<lparr>hm_prev := off ?a\<rparr>)"
  have aB: "a - ?B = off ?a" by (simp add: a_def)
  have hdr: "h_hdr (heap_join a b h) = m"
    using ab nx by (simp add: heap_join_def Let_def aB Hk heap_header_def m_def)
  have far: "m (?B + off x) = h_hdr h (?B + off x)" if "x \<noteq> ?a" "x \<noteq> ?e" "x \<le> extent (xs @ (n, u) # (k, v) # ys)" for x
    using that C(7) top by (simp add: a_def m_def)
  have ma: "m (?B + off ?a) = heap_header (last_start 0 0 xs) ?a (n + k) u"
    using ab Hn by (simp add: heap_header_def add.assoc m_def a_def)
  have me: "m (?B + off ?e) = (h_hdr h (?B + off ?e))\<lparr>hm_prev := off ?a\<rparr>" by (simp add: m_def)
  have "segs m ?B 0 0 xs = segs (h_hdr h) ?B 0 0 xs" by (rule segs_agree, rule far) simp_all
  moreover have "segs m ?B ?a ?e ys"
  proof (rule segs_reprev)
    show "segs (h_hdr h) ?B (?a + n) ?e ys" using C(1) by (simp add: segs_append)
    show "m (?B + off x) = h_hdr h (?B + off x)" if "?e < x" "x < ?e + extent ys" for x by (rule far) (use that in simp_all)
  qed (rule me)
  ultimately have S: "segs m ?B 0 0 (xs @ (n + k, u) # ys)"
    using C(1) Hn Hk ma by (simp add: segs_append add.assoc)
  have E: "hm_used (m (heap_end h)) = hm_used (h_hdr h (heap_end h))"
    using far [of "extent (xs @ (n, u) # (k, v) # ys)"] C(3) Hn(2) me by (cases "extent ys = 0") (auto simp: add.assoc)
  show geo: "heap_ptr (heap_join a b h) = heap_ptr h" "heap_end (heap_join a b h) = heap_end h"
    "mem_size_aligned (heap_join a b h) = mem_size_aligned h" "used_mem (heap_join a b h) = used_mem h"
    "max_mem (heap_join a b h) = max_mem h" "heap_sem (heap_join a b h) = heap_sem h"
    "lfree (heap_join a b h) = (if lfree h = b then a else lfree h)"
    by (simp_all add: heap_join_def Let_def)
  show "heap_chain (heap_join a b h) (xs @ (n + k, u) # ys)"
    by (rule heap_chainI [OF c]) (use S E geo hdr in simp_all)
qed

text \<open>Cutting a block in two.\<close>

lemma heap_split_chain:
  assumes c: "heap_chain h (xs @ (n, u) # ys)" and k: "12 \<le> k" "4 dvd k" "k + 12 \<le> n"
    and mk: "\<And>p a. mark ((heap_header p a n u)\<lparr>hm_next := off (a + k)\<rparr>) = heap_header p a k v"
  defines "h' \<equiv> heap_split (off (extent xs)) (off (extent xs + k)) mark h"
  shows "heap_chain h' (xs @ (k, v) # (n - k, False) # ys)"
    and "heap_ptr h' = heap_ptr h" "heap_end h' = heap_end h"
    "mem_size_aligned h' = mem_size_aligned h" "used_mem h' = used_mem h"
    "max_mem h' = max_mem h" "heap_sem h' = heap_sem h" "lfree h' = lfree h"
proof -
  note C = heap_chainD [OF c] and H = header_at [OF c]
  let ?a = "extent xs" and ?B = "heap_ptr h" and ?p = "last_start 0 0 xs"
  let ?b = "?a + k" and ?e = "?a + n"
  have top: "?e \<le> extent (xs @ (n, u) # ys)" by simp
  have ne: "?B + off ?a \<noteq> ?B + off ?b" "?B + off ?e \<noteq> ?B + off ?a" "?B + off ?e \<noteq> ?B + off ?b"
    using C(7) top k by simp_all
  have size12: "mem_size_aligned h + SIZEOF_STRUCT_MEM = off (extent (xs @ (n, u) # ys))"
    unfolding C(2) by (simp add: off_def)
  have last: "off ?e \<noteq> mem_size_aligned h + SIZEOF_STRUCT_MEM \<longleftrightarrow> extent ys \<noteq> 0"
    unfolding size12 using C(7) by simp
  show geo: "heap_ptr h' = heap_ptr h" "heap_end h' = heap_end h"
    "mem_size_aligned h' = mem_size_aligned h" "used_mem h' = used_mem h"
    "max_mem h' = max_mem h" "heap_sem h' = heap_sem h" "lfree h' = lfree h"
    by (simp_all add: h'_def heap_split_def Let_def)
  define m where "m = h_hdr h'"
  define m0 where "m0 = (h_hdr h)(?B + off ?b := heap_header ?a ?b (n - k) False, ?B + off ?a := heap_header ?p ?a k v)"
  have e1: "mark ((h_hdr h (?B + off ?a))\<lparr>hm_next := off ?b\<rparr>) = heap_header ?p ?a k v" by (simp add: H mk)
  have nx: "hm_next (h_hdr h (?B + off ?a)) = off ?e" by (simp add: H heap_header_def)
  have hdrs: "heap_header ?a ?b (n - k) False = \<lparr>hm_magic = HEAP_MAGIC, hm_used = 0, hm_next = off ?e, hm_prev = off ?a\<rparr>"
    using k(3) by (simp add: heap_header_def)
  have m: "m = (if extent ys \<noteq> 0 then m0(?B + off ?e := (h_hdr h (?B + off ?e))\<lparr>hm_prev := off ?b\<rparr>) else m0)"
    using ne last e1 nx by (simp add: m_def h'_def heap_split_def Let_def m0_def hdrs)
  have ma: "m (?B + off ?a) = heap_header ?p ?a k v" using ne by (simp add: m m0_def)
  have mb: "m (?B + off ?b) = heap_header ?a ?b (n - k) False" using ne by (simp add: m m0_def)
  have me: "m (?B + off ?e) = (h_hdr h (?B + off ?e))\<lparr>hm_prev := off ?b\<rparr>" if "extent ys \<noteq> 0" using that by (simp add: m)
  have far: "m (?B + off x) = h_hdr h (?B + off x)"
    if "x \<noteq> ?a" "x \<noteq> ?b" "x \<noteq> ?e \<or> extent ys = 0" "x \<le> extent (xs @ (n, u) # ys)" for x
  proof -
    have "?B + off x \<noteq> ?B + off ?a" "?B + off x \<noteq> ?B + off ?b" "?B + off x = ?B + off ?e \<longleftrightarrow> x = ?e"
      using that C(7) top k by simp_all
    then show ?thesis using that(3) by (auto simp: m m0_def)
  qed
  have "segs m ?B 0 0 xs = segs (h_hdr h) ?B 0 0 xs" by (rule segs_agree, rule far) (use k in simp_all)
  moreover have "segs m ?B ?b ?e ys"
  proof (rule segs_reprev)
    show "segs (h_hdr h) ?B ?a ?e ys" using C(1) by (simp add: segs_append)
    show "m (?B + off ?e) = (h_hdr h (?B + off ?e))\<lparr>hm_prev := off ?b\<rparr>" if some: "ys \<noteq> []"
    proof (rule me)
      obtain j w r where "ys = (j, w) # r" using some by (cases ys) auto
      then show "extent ys \<noteq> 0" using C(1) by (simp add: segs_append)
    qed
    show "m (?B + off x) = h_hdr h (?B + off x)" if "?e < x" "x < ?e + extent ys" for x by (rule far) (use that k in simp_all)
  qed
  ultimately have S: "segs m ?B 0 0 (xs @ (k, v) # (n - k, False) # ys)"
    using C(1) H k ma mb by (simp add: segs_append)
  have E: "hm_used (m (heap_end h)) = hm_used (h_hdr h (heap_end h))"
    using far [of "extent (xs @ (n, u) # ys)"] C(3) k by (cases "extent ys = 0") simp_all
  show "heap_chain h' (xs @ (k, v) # (n - k, False) # ys)"
    by (rule heap_chainI [OF c]) (use S E geo k in \<open>simp_all add: m_def\<close>)
qed

section \<open>Merging\<close>

definition join_next :: "nat \<Rightarrow> blocks \<Rightarrow> nat \<times> blocks" where
  "join_next n vs = (case vs of (k, False) # r \<Rightarrow> (n + k, r) | _ \<Rightarrow> (n, vs))"

abbreviation free_before :: "blocks \<Rightarrow> bool" where
  "free_before us \<equiv> us \<noteq> [] \<and> \<not> snd (last us)"

definition join_prev :: "blocks \<Rightarrow> nat \<Rightarrow> blocks \<Rightarrow> blocks" where
  "join_prev us n vs = (if free_before us then butlast us @ (fst (last us) + n, False) # vs else us @ (n, False) # vs)"

text \<open>The chain in which the block between \<open>us\<close> and \<open>vs\<close> is free and merged with its neighbours, and
  where that block starts.\<close>

definition merged :: "blocks \<Rightarrow> nat \<Rightarrow> blocks \<Rightarrow> blocks" where
  "merged us n vs = (case join_next n vs of (n', vs') \<Rightarrow> join_prev us n' vs')"

definition merged_at :: "blocks \<Rightarrow> nat" where
  "merged_at us = (if free_before us then extent (butlast us) else extent us)"

text \<open>The same heap but for the headers and \<^verbatim>\<open>lfree\<close>.\<close>

definition same_heap :: "heap \<Rightarrow> heap \<Rightarrow> bool" where
  "same_heap h h' \<longleftrightarrow> heap_ptr h' = heap_ptr h \<and> heap_end h' = heap_end h \<and> mem_size_aligned h' = mem_size_aligned h \<and>
     used_mem h' = used_mem h \<and> max_mem h' = max_mem h \<and> heap_sem h' = heap_sem h"

lemma same_heap_refl [simp]: "same_heap h h"
  by (simp add: same_heap_def)

lemma header_fields [simp]:
  "hm_next (heap_header p a n u) = off (a + n)" "hm_prev (heap_header p a n u) = off p"
  "hm_used (heap_header p a n u) = (if u then 1 else 0)" "hm_magic (heap_header p a n u) = HEAP_MAGIC"
  by (simp_all add: heap_header_def)

lemma chain_bounds:
  assumes c: "heap_chain h bs" and x: "x < extent bs"
  shows "heap_ptr h \<le> heap_ptr h + off x" "heap_ptr h + off x < heap_end h" "unat (heap_ptr h + off x) = unat (heap_ptr h) + x"
proof -
  note C = heap_chainD [OF c]
  have u: "unat (heap_ptr h + off y) = unat (heap_ptr h) + y" if "y \<le> extent bs" for y
    using C(5) that by (simp add: off_def unat_word_ariths unat_of_nat)
  show "unat (heap_ptr h + off x) = unat (heap_ptr h) + x" using u x by simp
  show "heap_ptr h \<le> heap_ptr h + off x" "heap_ptr h + off x < heap_end h"
    using u [of x] u [of "extent bs"] x by (simp_all add: word_le_nat_alt word_less_nat_alt C(3))
qed

lemma plug_forward:
  assumes c: "heap_chain h (us @ (n, False) # vs)"
  defines "mem \<equiv> heap_ptr h + off (extent us)" and "nmem \<equiv> heap_ptr h + off (extent us + n)"
  defines "h' \<equiv> (if mem \<noteq> nmem \<and> hm_used (h_hdr h nmem) = 0 \<and> nmem \<noteq> heap_end h then heap_join mem nmem h else h)"
  shows "heap_chain h' (us @ (fst (join_next n vs), False) # snd (join_next n vs))" "same_heap h h'"
    "lfree h' = (if lfree h = nmem \<and> join_next n vs \<noteq> (n, vs) then mem else lfree h)"
proof -
  note C = heap_chainD [OF c] and H = header_at [OF c]
  have ne: "mem \<noteq> nmem" using C(7) H(2) by (simp add: mem_def nmem_def)
  have "heap_chain h' (us @ (fst (join_next n vs), False) # snd (join_next n vs)) \<and> same_heap h h' \<and>
    lfree h' = (if lfree h = nmem \<and> join_next n vs \<noteq> (n, vs) then mem else lfree h)"
  proof (cases vs)
    case Nil
    then have "nmem = heap_end h" by (simp add: nmem_def C(3))
    then show ?thesis using c Nil by (simp add: h'_def join_next_def)
  next
    case (Cons b r)
    obtain k v where b: "b = (k, v)" by (cases b)
    note c' = c [unfolded Cons b]
    have Hk: "h_hdr h nmem = heap_header (extent us) (extent us + n) k v" "12 \<le> k"
      using header_at [of h "us @ [(n, False)]" k v r] c' by (simp_all add: nmem_def)
    have end_ne: "nmem \<noteq> heap_end h" using C(3,7) Hk(2) by (simp add: nmem_def Cons b)
    show ?thesis
    proof (cases v)
      case True
      then show ?thesis using c Hk by (simp add: h'_def join_next_def Cons b)
    next
      case False
      then have "h' = heap_join mem nmem h" using ne end_ne Hk by (simp add: h'_def)
      then show ?thesis using heap_join_chain [OF c'] False Hk(2)
        by (simp add: mem_def nmem_def same_heap_def join_next_def Cons b)
    qed
  qed
  then show "heap_chain h' (us @ (fst (join_next n vs), False) # snd (join_next n vs))" "same_heap h h'"
    "lfree h' = (if lfree h = nmem \<and> join_next n vs \<noteq> (n, vs) then mem else lfree h)" by blast+
qed

lemma last_start_last: "us \<noteq> [] \<Longrightarrow> last_start 0 0 us = extent (butlast us)"
  by (metis append_butlast_last_id last_start_snoc prod.collapse add_0)

lemma plug_backward:
  assumes c: "heap_chain h (us @ (n, False) # vs)"
  defines "mem \<equiv> heap_ptr h + off (extent us)"
  defines "pmem \<equiv> heap_ptr h + hm_prev (h_hdr h mem)"
  defines "h' \<equiv> (if pmem \<noteq> mem \<and> hm_used (h_hdr h pmem) = 0 then heap_join pmem mem h else h)"
  shows "heap_chain h' (join_prev us n vs)" "same_heap h h'"
    "lfree h' = (if lfree h = mem then heap_ptr h + off (merged_at us) else lfree h)"
proof -
  note C = heap_chainD [OF c] and H = header_at [OF c]
  have pm: "pmem = heap_ptr h + off (last_start 0 0 us)" by (simp add: pmem_def mem_def H)
  have "heap_chain h' (join_prev us n vs) \<and> same_heap h h' \<and>
    lfree h' = (if lfree h = mem then heap_ptr h + off (merged_at us) else lfree h)"
  proof (cases "us = []")
    case True
    then show ?thesis using c pm by (simp add: h'_def mem_def join_prev_def merged_at_def)
  next
    case False
    then obtain ws k v where us: "us = ws @ [(k, v)]" by (metis append_butlast_last_id prod.collapse)
    have c': "heap_chain h (ws @ (k, v) # (n, False) # vs)" using c by (simp add: us)
    have pmem: "pmem = heap_ptr h + off (extent ws)" and mem: "mem = heap_ptr h + off (extent ws + k)"
      by (simp_all add: pm us mem_def)
    have Hk: "h_hdr h pmem = heap_header (last_start 0 0 ws) (extent ws) k v" "12 \<le> k"
      using header_at [OF c'] by (simp_all add: pmem)
    have ne: "pmem \<noteq> mem" using C(7) Hk(2) by (simp add: pmem mem us)
    show ?thesis
    proof (cases v)
      case True
      then show ?thesis using c Hk by (simp add: h'_def join_prev_def merged_at_def us mem_def)
    next
      case v: False
      then have "h' = heap_join pmem mem h" using ne Hk by (simp add: h'_def)
      then show ?thesis using heap_join_chain [OF c'] v
        by (simp add: pmem mem same_heap_def join_prev_def merged_at_def us)
    qed
  qed
  then show "heap_chain h' (join_prev us n vs)" "same_heap h h'"
    "lfree h' = (if lfree h = mem then heap_ptr h + off (merged_at us) else lfree h)" by blast+
qed

lemma plug_holes_chain:
  assumes c: "heap_chain h (us @ (n, False) # vs)"
  shows "\<exists>h'. plug_holes (heap_ptr h + off (extent us)) h = Some h' \<and> heap_chain h' (merged us n vs) \<and> same_heap h h' \<and>
     lfree h' = (if lfree h = heap_ptr h + off (extent us) \<or> lfree h = heap_ptr h + off (extent us + n) \<and> join_next n vs \<noteq> (n, vs)
       then heap_ptr h + off (merged_at us) else lfree h)"
proof -
  note H = header_at [OF c]
  let ?mem = "heap_ptr h + off (extent us)" and ?nmem = "heap_ptr h + off (extent us + n)"
  define h1 where "h1 = (if ?mem \<noteq> ?nmem \<and> hm_used (h_hdr h ?nmem) = 0 \<and> ?nmem \<noteq> heap_end h then heap_join ?mem ?nmem h else h)"
  note F = plug_forward [OF c, folded h1_def]
  obtain n' vs' where j: "join_next n vs = (n', vs')" by (cases "join_next n vs")
  have c1: "heap_chain h1 (us @ (n', False) # vs')" and B: "heap_ptr h1 = heap_ptr h" using F(1,2) j by (simp_all add: same_heap_def)
  define h2 where "h2 = (let pmem = heap_ptr h1 + hm_prev (h_hdr h1 ?mem) in
     if pmem \<noteq> ?mem \<and> hm_used (h_hdr h1 pmem) = 0 then heap_join pmem ?mem h1 else h1)"
  note G = plug_backward [OF c1, unfolded B, folded h2_def [unfolded Let_def B]]
  have "extent us < extent (us @ (n, False) # vs)" using H(2) by simp
  note A = chain_bounds(1,2) [OF c this]
  have N: "heap_ptr h + hm_next (h_hdr h ?mem) = ?nmem" "hm_used (h_hdr h ?mem) = 0" by (simp_all add: H)
  have "plug_holes ?mem h = Some h2"
    unfolding plug_holes_def Let_def N(1) h1_def [symmetric] h2_def using A N(2) by simp
  moreover have "same_heap h h2" using F(2) G(2) by (simp add: same_heap_def)
  moreover have "heap_chain h2 (merged us n vs)" using G(1) by (simp add: merged_def j)
  ultimately show ?thesis using F(3) G(3) by auto
qed

section \<open>Searching\<close>

text \<open>The first free block with room for \<open>sz\<close> bytes whose offset passes the bound of the loop: the
  blocks before it, its size, the blocks behind it.\<close>

fun first_fit :: "nat \<Rightarrow> nat \<Rightarrow> nat \<Rightarrow> blocks \<Rightarrow> (blocks \<times> nat \<times> blocks) option" where
  "first_fit sz S a [] = None"
| "first_fit sz S a ((n, u) # bs) =
     (if a + sz < S then
        if \<not> u \<and> sz + 12 \<le> n then Some ([], n, bs)
        else map_option (\<lambda>(zs, k, ws). ((n, u) # zs, k, ws)) (first_fit sz S (a + n) bs)
      else None)"

lemma first_fit_some:
  "first_fit sz S a bs = Some (zs, n, ws) \<Longrightarrow> bs = zs @ (n, False) # ws \<and> sz + 12 \<le> n \<and> a + extent zs + sz < S \<and>
     (\<forall>(k, u) \<in> set zs. u \<or> k < sz + 12)"
  by (induction sz S a bs arbitrary: zs rule: first_fit.induct) (auto split: if_splits)

lemma first_fit_none:
  "first_fit sz S a (zs @ (n, u) # ws) = None \<Longrightarrow> a + extent zs + sz < S \<Longrightarrow> u \<or> n < sz + 12"
proof (induction zs arbitrary: a)
  case (Cons b zs)
  obtain k v where b: "b = (k, v)" by (cases b)
  have "first_fit sz S (a + k) (zs @ (n, u) # ws) = None" using Cons.prems by (auto simp: b split: if_splits)
  then show ?case using Cons.IH [of "a + k"] Cons.prems(2) by (simp add: b add.assoc)
qed (auto split: if_splits)

lemma heap_search_chain:
  assumes c: "heap_chain h (xs @ ys)" and sz: "unat sz \<le> unat (mem_size_aligned h)"
  shows "heap_search sz (off (extent xs)) h =
     Some (map_option (\<lambda>(zs, _). off (extent xs + extent zs)) (first_fit (unat sz) (unat (mem_size_aligned h)) (extent xs) ys))"
  using c
proof (induction ys arbitrary: xs)
  case Nil
  note C = heap_chainD [OF Nil]
  have "unat (off (extent xs)) = unat (mem_size_aligned h) + 12" using C(2,7) by simp
  then have "\<not> off (extent xs) < mem_size_aligned h - sz" using sz by (simp add: word_less_nat_alt unat_sub word_le_nat_alt)
  then show ?case by (subst heap_search.simps) simp
next
  case (Cons b ys)
  obtain n u where b: "b = (n, u)" by (cases b)
  note c = Cons.prems [unfolded b]
  note C = heap_chainD [OF c] and H = header_at [OF c]
  let ?a = "extent xs" and ?S = "unat (mem_size_aligned h)"
  have top: "?a + n < 2 ^ 32" using C(7) by simp
  have ua: "unat (off ?a) = ?a" using top by (simp add: off_def unat_of_nat)
  have bound: "off ?a < mem_size_aligned h - sz \<longleftrightarrow> ?a + unat sz < ?S"
    using sz by (auto simp: word_less_nat_alt unat_sub word_le_nat_alt ua)
  have "off (?a + n) - (off ?a + 12) = off (n - 12)" using H(2) by (simp add: off_def of_nat_diff)
  then have room: "sz \<le> off (?a + n) - (off ?a + 12) \<longleftrightarrow> unat sz + 12 \<le> n"
    using top H(2) by (auto simp: word_le_nat_alt)
  have IH: "heap_search sz (off (?a + n)) h = Some (map_option (\<lambda>(zs, _). off (?a + n + extent zs)) (first_fit (unat sz) ?S (?a + n) ys))"
    using Cons.IH [of "xs @ [(n, u)]"] c by simp
  show ?case
    using IH by (subst heap_search.simps) (auto simp: b bound room H Let_def option.map_comp comp_def case_prod_unfold add.assoc)
qed

text \<open>Advancing \<^verbatim>\<open>lfree\<close> skips used blocks.\<close>

lemma heap_advance_chain:
  assumes c: "heap_chain h (xs @ ys)"
  shows "heap_advance (heap_ptr h + off (extent xs)) h = Some (heap_ptr h + off (extent xs + extent (takeWhile snd ys)))"
  using c
proof (induction ys arbitrary: xs)
  case Nil
  note C = heap_chainD [OF Nil]
  show ?case by (subst heap_advance.simps) (use C(3) in simp)
next
  case (Cons b ys)
  obtain n u where b: "b = (n, u)" by (cases b)
  note c = Cons.prems [unfolded b]
  note C = heap_chainD [OF c] and H = header_at [OF c]
  have ne: "heap_ptr h + off (extent xs) \<noteq> heap_end h" using C(3,7) H(2) by simp
  have "heap_advance (heap_ptr h + off (extent xs + n)) h = Some (heap_ptr h + off (extent xs + n + extent (takeWhile snd ys)))"
    using Cons.IH [of "xs @ [(n, u)]"] c by simp
  then show ?case using ne by (subst heap_advance.simps) (simp add: b H add.assoc)
qed

section \<open>Allocating\<close>

text \<open>No two free blocks are neighbours.\<close>

definition plugged :: "blocks \<Rightarrow> bool" where
  "plugged = successively (\<lambda>b c. snd b \<or> snd c)"

lemma plugged_append:
  "plugged (xs @ ys) \<longleftrightarrow> plugged xs \<and> plugged ys \<and> (xs = [] \<or> ys = [] \<or> snd (last xs) \<or> snd (hd ys))"
  by (auto simp: plugged_def successively_append_iff)

lemma plugged_Cons: "plugged (b # bs) \<longleftrightarrow> plugged bs \<and> (bs = [] \<or> snd b \<or> snd (hd bs))"
  by (auto simp: plugged_def successively_Cons)

lemma plugged_Nil [simp]: "plugged []"
  by (simp add: plugged_def)

definition used_extent :: "blocks \<Rightarrow> nat" where
  "used_extent bs = extent (filter snd bs)"

lemma used_extent_simps [simp]:
  "used_extent [] = 0" "used_extent ((n, u) # bs) = (if u then n else 0) + used_extent bs"
  "used_extent (xs @ ys) = used_extent xs + used_extent ys"
  by (simp_all add: used_extent_def)

lemma used_extent_le: "used_extent bs \<le> extent bs"
  by (induction bs) auto

text \<open>The allocator's own invariant; \<^verbatim>\<open>lfree\<close> points to some block or to the end.\<close>

definition heap_wf :: "heap \<Rightarrow> blocks \<Rightarrow> bool" where
  "heap_wf h bs \<longleftrightarrow> heap_chain h bs \<and> plugged bs \<and> unat (used_mem h) = used_extent bs \<and> used_mem h \<le> max_mem h \<and>
     (\<exists>xs ys. bs = xs @ ys \<and> lfree h = heap_ptr h + off (extent xs))"

definition lowest_free :: "heap \<Rightarrow> blocks \<Rightarrow> bool" where
  "lowest_free h bs \<longleftrightarrow> lfree h = heap_ptr h + off (extent (takeWhile snd bs))"

definition carve :: "nat \<Rightarrow> nat \<Rightarrow> blocks" where
  "carve sz n = (if sz + 36 \<le> n then [(sz + 12, True), (n - (sz + 12), False)] else [(n, True)])"

lemma carve_facts [simp]: "sz + 12 \<le> n \<Longrightarrow> extent (carve sz n) = n" "carve sz n \<noteq> []" "snd (hd (carve sz n))"
  by (auto simp: carve_def)

lemma plugged_carve: "plugged (us @ (n, False) # vs) \<Longrightarrow> plugged (us @ carve sz n @ vs)"
  by (auto simp: plugged_append plugged_Cons carve_def)

text \<open>Counting keeps the statistics.\<close>

lemma heap_count_fields:
  "h_hdr (heap_count n h) = h_hdr h" "heap_ptr (heap_count n h) = heap_ptr h" "heap_end (heap_count n h) = heap_end h"
  "lfree (heap_count n h) = lfree h" "heap_sem (heap_count n h) = heap_sem h" "mem_size_aligned (heap_count n h) = mem_size_aligned h"
  "used_mem (heap_count n h) = used_mem h + n" "used_mem (heap_count n h) \<le> max_mem (heap_count n h)"
  by (auto simp: heap_count_def Let_def not_less)

lemma heap_chain_count [simp]: "heap_chain (heap_count n h) bs = heap_chain h bs"
  by (simp add: heap_chain_def heap_count_fields)

lemma heap_carve_chain:
  assumes c: "heap_chain h (us @ (n, False) # vs)" and fit: "unat sz + 12 \<le> n" "12 \<le> unat sz" "4 dvd unat sz" "unat sz + 24 < 2 ^ 32"
  defines "h' \<equiv> heap_carve sz (off (extent us)) h"
  shows "heap_chain h' (us @ carve (unat sz) n @ vs)"
    and "heap_ptr h' = heap_ptr h" "heap_end h' = heap_end h" "mem_size_aligned h' = mem_size_aligned h"
    "heap_sem h' = heap_sem h" "lfree h' = lfree h" "used_mem h' \<le> max_mem h'"
    "used_mem h' = used_mem h + off (used_extent (carve (unat sz) n))"
proof -
  note C = heap_chainD [OF c] and H = header_at [OF c]
  let ?a = "extent us" and ?k = "unat sz + 12"
  have top: "?a + n < 2 ^ 32" using C(7) by simp
  have szk: "sz + 12 = off ?k" "off ?a + 12 + sz = off (?a + ?k)" by (simp_all add: off_def)
  have "off (?a + n) - (off ?a + 12) = off (n - 12)" using H(2) by (simp add: off_def of_nat_diff)
  moreover have "sz + 12 + 12 = off (unat sz + 24)" by (simp add: off_def)
  ultimately have test: "sz + 12 + 12 \<le> off (?a + n) - (off ?a + 12) \<longleftrightarrow> unat sz + 36 \<le> n"
    using top fit H(2) by (auto simp: word_le_nat_alt)
  have "heap_chain h' (us @ carve (unat sz) n @ vs) \<and> heap_ptr h' = heap_ptr h \<and> heap_end h' = heap_end h \<and>
    mem_size_aligned h' = mem_size_aligned h \<and> heap_sem h' = heap_sem h \<and> lfree h' = lfree h \<and> used_mem h' \<le> max_mem h' \<and>
    used_mem h' = used_mem h + off (used_extent (carve (unat sz) n))"
  proof (cases "unat sz + 36 \<le> n")
    case True
    have h': "h' = heap_count (off ?k) (heap_split (off ?a) (off (?a + ?k)) (\<lambda>m. m\<lparr>hm_used := 1\<rparr>) h)"
      using True test by (simp add: h'_def heap_carve_def Let_def H szk)
    have k: "12 \<le> ?k" "4 dvd ?k" "?k + 12 \<le> n" using fit True by auto
    note S = heap_split_chain [OF c k, of "\<lambda>m. m\<lparr>hm_used := 1\<rparr>" True]
    have "used_mem h' \<le> max_mem h'" unfolding h' by (rule heap_count_fields(8))
    then show ?thesis using S True unfolding h' by (simp add: heap_count_fields(1-7) carve_def heap_header_def)
  next
    case False
    let ?h = "upd_hdr (heap_ptr h + off ?a) (\<lambda>m. m\<lparr>hm_used := 1\<rparr>) h"
    have h': "h' = heap_count (off n) ?h"
      using False test by (simp add: h'_def heap_carve_def Let_def H) (simp add: heap_header_def off_def)
    have "heap_chain ?h (us @ (n, True) # vs)" by (rule heap_mark [OF c]) (simp add: H(1) heap_header_def)
    moreover have "used_mem h' \<le> max_mem h'" unfolding h' by (rule heap_count_fields(8))
    ultimately show ?thesis using False unfolding h' by (simp add: heap_count_fields(1-7) carve_def)
  qed
  then show "heap_chain h' (us @ carve (unat sz) n @ vs)"
    and "heap_ptr h' = heap_ptr h" "heap_end h' = heap_end h" "mem_size_aligned h' = mem_size_aligned h"
    "heap_sem h' = heap_sem h" "lfree h' = lfree h" "used_mem h' \<le> max_mem h'"
    "used_mem h' = used_mem h + off (used_extent (carve (unat sz) n))" by blast+
qed

lemma heap_chain_fields [simp]:
  "heap_chain (h\<lparr>lfree := l\<rparr>) bs = heap_chain h bs" "heap_chain (h\<lparr>used_mem := n\<rparr>) bs = heap_chain h bs"
  by (simp_all add: heap_chain_def)

lemma extent_zero:
  assumes "heap_chain h (xs @ zs @ ys)"
  shows "extent zs = 0 \<longleftrightarrow> zs = []"
proof -
  have "12 \<le> fst b" if "b \<in> set zs" for b using segs_sizes [OF heap_chainD(1) [OF assms], of b] that by auto
  then show ?thesis by (cases zs) (simp, metis add_is_0 extent_simps(2) le_zero_eq list.set_intros(1) zero_neq_numeral list.distinct(1))
qed

text \<open>Where \<^verbatim>\<open>lfree\<close> stops is the end of the heap or a free block.\<close>

lemma skip_used:
  assumes c: "heap_chain h (xs @ ys)"
  defines "l \<equiv> heap_ptr h + off (extent xs + extent (takeWhile snd ys))"
  shows "l = heap_end h \<or> hm_used (h_hdr h l) = 0"
proof (cases "dropWhile snd ys")
  case Nil
  then have tw: "takeWhile snd ys = ys" by (simp add: dropWhile_eq_Nil_conv takeWhile_eq_all_conv)
  show ?thesis unfolding l_def tw using heap_chainD(3) [OF c] by simp
next
  case (Cons b r)
  obtain k u where b: "b = (k, u)" by (cases b)
  have "ys = takeWhile snd ys @ (k, u) # r" using Cons b by (metis takeWhile_dropWhile_id)
  moreover have "\<not> u" using hd_dropWhile [of snd ys] Cons b by simp
  ultimately show ?thesis using header_at(1) [of h "xs @ takeWhile snd ys" k u r] c by (simp add: l_def)
qed

lemma heap_wfD:
  assumes "heap_wf h bs"
  shows "heap_chain h bs" "plugged bs" "unat (used_mem h) = used_extent bs" "used_mem h \<le> max_mem h"
  using assms by (simp_all add: heap_wf_def)

lemma used_mem_add:
  assumes "unat (u :: rt_uint32) = k" "k + n < 2 ^ 32"
  shows "unat (u + off n) = k + n"
  using assms by (simp add: unat_word_ariths)

text \<open>The whole of an allocation under the semaphore.\<close>

lemma heap_take_found:
  assumes wf: "heap_wf h (xs @ ys)" and lf: "lfree h = heap_ptr h + off (extent xs)"
    and sz: "12 \<le> unat sz" "unat sz \<le> unat (mem_size_aligned h)" "4 dvd unat sz"
    and fit: "first_fit (unat sz) (unat (mem_size_aligned h)) (extent xs) ys = Some (zs, n, ws)"
  shows "\<exists>h'. heap_take sz h = Some (Some (heap_ptr h + off (extent (xs @ zs))), h') \<and>
     heap_wf h' (xs @ zs @ carve (unat sz) n @ ws) \<and> heap_ptr h' = heap_ptr h \<and> heap_end h' = heap_end h \<and>
     mem_size_aligned h' = mem_size_aligned h \<and> heap_sem h' = heap_sem h \<and>
     lfree h' = (if zs = [] then heap_ptr h + off (extent (xs @ takeWhile snd (carve (unat sz) n @ ws))) else lfree h)"
proof -
  note W = heap_wfD [OF wf] and F = first_fit_some [OF fit]
  let ?us = "xs @ zs" and ?S = "unat (mem_size_aligned h)" and ?cs = "carve (unat sz) n @ ws"
  have c: "heap_chain h (?us @ (n, False) # ws)" using W(1) F by simp
  note C = heap_chainD [OF c]
  have small: "unat sz + 24 < 2 ^ 32" using F C(2,5) by simp
  define h1 where "h1 = heap_carve sz (off (extent ?us)) h"
  note K = heap_carve_chain [OF c _ sz(1,3) small, folded h1_def]
  have K1: "heap_chain h1 (?us @ ?cs)" using K(1) F by simp
  let ?mem = "heap_ptr h + off (extent ?us)"
  have magic: "upd_hdr ?mem (\<lambda>m. m\<lparr>hm_magic := HEAP_MAGIC\<rparr>) h1 = h1"
  proof -
    obtain k r where cs: "?cs = (k, True) # r" by (cases "unat sz + 36 \<le> n") (auto simp: carve_def)
    show ?thesis using header_at(1) [OF K1 [unfolded cs]] K(2) F by (simp add: upd_hdr_def fun_upd_idem heap_header_def)
  qed
  have srch: "heap_search sz (lfree h - heap_ptr h) h = Some (Some (off (extent ?us)))"
    using heap_search_chain [OF W(1) sz(2)] fit lf by simp
  have at_lfree: "?mem = lfree h1 \<longleftrightarrow> zs = []"
    using extent_zero [OF W(1) [unfolded conjunct1 [OF F]]] C(7) by (simp add: K(6) F lf)
  define h' where "h' = (if zs = [] then h1\<lparr>lfree := heap_ptr h + off (extent (xs @ takeWhile snd ?cs))\<rparr> else h1)"
  have adv: "heap_advance (lfree h1) h1 = Some (heap_ptr h + off (extent xs + extent (takeWhile snd ?cs)))"
    "heap_ptr h + off (extent xs + extent (takeWhile snd ?cs)) = heap_end h1 \<or>
      hm_used (h_hdr h1 (heap_ptr h + off (extent xs + extent (takeWhile snd ?cs)))) = 0" if "zs = []"
    using heap_advance_chain [of h1 xs ?cs] skip_used [of h1 xs ?cs] K1 that lf K(2,6) F by auto
  have "heap_take sz h = Some (Some ?mem, h')"
    unfolding heap_take_def srch bind.bind_lunit option.case Let_def h1_def [symmetric] magic
    using at_lfree adv by (cases "zs = []") (simp_all add: h'_def)
  moreover have "heap_wf h' (xs @ zs @ ?cs)"
  proof -
    have "used_extent (?us @ (n, False) # ws) + n < 2 ^ 32"
      using used_extent_le [of xs] used_extent_le [of zs] used_extent_le [of ws] C(7) by simp
    moreover have "used_extent (carve (unat sz) n) \<le> n" using F by (auto simp: carve_def)
    ultimately have "unat (used_mem h1) = used_extent (?us @ (n, False) # ws) + used_extent (carve (unat sz) n)"
      using W(3) F K(8) used_mem_add [of "used_mem h"] by simp
    moreover have "plugged (?us @ ?cs)" using W(2) F plugged_carve [of ?us n ws] by simp
    moreover have "\<exists>as bs. xs @ zs @ ?cs = as @ bs \<and> lfree h' = heap_ptr h + off (extent as)"
    proof (cases "zs = []")
      case True
      then show ?thesis
        by (intro exI [of _ "xs @ takeWhile snd ?cs"] exI [of _ "dropWhile snd ?cs"]) (simp add: h'_def)
    next
      case False
      then show ?thesis by (intro exI [of _ xs] exI [of _ "zs @ ?cs"]) (simp add: h'_def K(6) F lf)
    qed
    moreover have "heap_chain h' (xs @ zs @ ?cs)" and hh: "heap_ptr h' = heap_ptr h" "used_mem h' = used_mem h1" "max_mem h' = max_mem h1"
      using K1 K(2) F by (cases "zs = []", simp_all add: h'_def)+
    ultimately show ?thesis unfolding heap_wf_def hh using K(7) F by simp
  qed
  ultimately show ?thesis using K(2-6) F by (auto simp: h'_def)
qed

lemma heap_take_none:
  assumes wf: "heap_wf h (xs @ ys)" and lf: "lfree h = heap_ptr h + off (extent xs)" and sz: "unat sz \<le> unat (mem_size_aligned h)"
    and fit: "first_fit (unat sz) (unat (mem_size_aligned h)) (extent xs) ys = None"
  shows "heap_take sz h = Some (None, h)"
  using heap_search_chain [OF heap_wfD(1) [OF wf] sz] fit lf by (simp add: heap_take_def)

section \<open>Freeing\<close>

lemma merged_extents:
  "extent (merged us n vs) = extent us + n + extent vs" "used_extent (merged us n vs) = used_extent us + used_extent vs"
proof -
  obtain n' vs' where j: "join_next n vs = (n', vs')" by (cases "join_next n vs")
  have v: "n' + extent vs' = n + extent vs" "used_extent vs' = used_extent vs"
    using j by (auto simp: join_next_def split: list.splits prod.splits bool.splits)
  have "extent (join_prev us n' vs') = extent us + n' + extent vs' \<and> used_extent (join_prev us n' vs') = used_extent us + used_extent vs'"
    by (cases us rule: rev_cases) (auto simp: join_prev_def)
  then show "extent (merged us n vs) = extent us + n + extent vs" "used_extent (merged us n vs) = used_extent us + used_extent vs"
    using v by (simp_all add: merged_def j)
qed

lemma plugged_merged:
  assumes "plugged (us @ (n, True) # vs)"
  shows "plugged (merged us n vs)"
proof -
  obtain n' vs' where j: "join_next n vs = (n', vs')" by (cases "join_next n vs")
  have "plugged vs' \<and> (vs' = [] \<or> snd (hd vs'))" "plugged us"
    using assms j by (auto simp: join_next_def plugged_append plugged_Cons split: list.splits prod.splits bool.splits)
  then show ?thesis
    by (cases us rule: rev_cases) (auto simp: merged_def j join_prev_def plugged_append plugged_Cons)
qed

text \<open>Where a block may be pointed at after merging.\<close>

lemma merged_cuts:
  "\<exists>ys. merged us n vs = (if free_before us then butlast us else us) @ ys"
  "us = xs @ zs \<Longrightarrow> zs \<noteq> [] \<Longrightarrow> \<exists>ys. merged us n vs = xs @ ys"
  by (auto simp: merged_def join_prev_def butlast_append split: prod.splits)

lemma merged_lowest:
  "(\<forall>b \<in> set us. snd b) \<Longrightarrow> takeWhile snd (merged us n vs) = us"
  "\<not> (\<forall>b \<in> set us. snd b) \<Longrightarrow> takeWhile snd (merged us n vs) = takeWhile snd us"
proof -
  obtain n' vs' where j: "join_next n vs = (n', vs')" by (cases "join_next n vs")
  show "takeWhile snd (merged us n vs) = us" if "\<forall>b \<in> set us. snd b"
    using that by (auto simp: merged_def j join_prev_def)
  show "takeWhile snd (merged us n vs) = takeWhile snd us" if "\<not> (\<forall>b \<in> set us. snd b)"
    using that by (cases us rule: rev_cases) (auto simp: merged_def j join_prev_def takeWhile_append)
qed

lemma cut_cases:
  assumes "us @ b # vs = xs @ ys"
  obtains zs where "us = xs @ zs" "zs \<noteq> []" | "xs = us" | zs where "xs = us @ b # zs"
  using assms by (auto simp: append_eq_append_conv2 Cons_eq_append_conv)

lemma chain_less:
  assumes "heap_chain h bs" "x \<le> extent bs" "y \<le> extent bs"
  shows "heap_ptr h + off x < heap_ptr h + off y \<longleftrightarrow> x < y" "heap_ptr h + off x = heap_ptr h + off y \<longleftrightarrow> x = y"
proof -
  note C = heap_chainD [OF assms(1)]
  have u: "unat (heap_ptr h + off z) = unat (heap_ptr h) + z" if "z \<le> extent bs" for z
    using C(5) that by (simp add: off_def unat_word_ariths unat_of_nat)
  show "heap_ptr h + off x < heap_ptr h + off y \<longleftrightarrow> x < y" using u assms(2,3) by (simp add: word_less_nat_alt)
  show "heap_ptr h + off x = heap_ptr h + off y \<longleftrightarrow> x = y" using C(7) assms(2,3) by simp
qed

lemma heap_give_steps:
  assumes wf: "heap_wf h (us @ (n, True) # vs)"
    and cut: "us @ (n, True) # vs = xs @ ys" "lfree h = heap_ptr h + off (extent xs)"
  shows "\<exists>h'. heap_give (heap_ptr h + off (extent us)) h = Some h' \<and> heap_chain h' (merged us n vs) \<and>
     heap_ptr h' = heap_ptr h \<and> heap_end h' = heap_end h \<and> mem_size_aligned h' = mem_size_aligned h \<and> heap_sem h' = heap_sem h \<and>
     max_mem h' = max_mem h \<and> used_mem h' = used_mem h - off n \<and>
     lfree h' = (if extent us \<le> extent xs then heap_ptr h + off (merged_at us) else lfree h)"
proof -
  note W = heap_wfD [OF wf]
  note C = heap_chainD [OF W(1)] and H = header_at [OF W(1)]
  let ?a = "extent us" and ?B = "heap_ptr h" and ?bs = "us @ (n, True) # vs"
  let ?mem = "?B + off ?a"
  have xs: "extent xs \<le> extent ?bs" by (simp add: cut(1))
  have less: "?mem < lfree h \<longleftrightarrow> ?a < extent xs" "?mem = lfree h \<longleftrightarrow> ?a = extent xs"
    using chain_less [OF W(1) _ xs, of ?a] by (simp_all add: cut(2))
  define g where "g = upd_hdr ?mem (\<lambda>m. m\<lparr>hm_used := 0, hm_magic := HEAP_MAGIC\<rparr>) h"
  define h1 where "h1 = (if ?mem < lfree h then g\<lparr>lfree := ?mem\<rparr> else g)\<lparr>used_mem := used_mem h - off n\<rparr>"
  have "heap_chain g (us @ (n, False) # vs)" unfolding g_def by (rule heap_mark [OF W(1)]) (simp add: H heap_header_def)
  then have c1: "heap_chain h1 (us @ (n, False) # vs)" by (simp add: h1_def)
  have gs: "heap_ptr g = ?B" "lfree g = lfree h" "used_mem g = used_mem h" "hm_next (h_hdr g ?mem) = off (?a + n)"
    by (simp_all add: g_def H heap_header_def)
  have B1: "heap_ptr h1 = ?B" by (simp add: h1_def gs)
  obtain h' where h': "plug_holes ?mem h1 = Some h'" and c': "heap_chain h' (merged us n vs)" and sm: "same_heap h1 h'"
    and lf': "lfree h' = (if lfree h1 = ?mem \<or> lfree h1 = ?B + off (?a + n) \<and> join_next n vs \<noteq> (n, vs)
      then ?B + off (merged_at us) else lfree h1)"
    using plug_holes_chain [OF c1] unfolding B1 by blast
  have "off (?a + n) - off ?a = off n" by (simp add: off_def)
  then have give: "heap_give ?mem h = Some h'"
    using h' unfolding h1_def by (cases "?mem < lfree h") (simp_all add: heap_give_def Let_def H(1) g_def [symmetric] gs)
  have lf: "lfree h' = (if ?a \<le> extent xs then ?B + off (merged_at us) else lfree h)"
  proof (cases "?a \<le> extent xs")
    case True
    then have "lfree h1 = ?mem" using less by (auto simp: h1_def gs)
    then show ?thesis using lf' True by simp
  next
    case False
    then have "lfree h1 = lfree h" "lfree h1 \<noteq> ?mem" using less by (auto simp: h1_def gs)
    moreover have "lfree h \<noteq> ?B + off (?a + n)" using False chain_less(2) [OF W(1) xs, of "?a + n"] by (simp add: cut(2))
    ultimately show ?thesis using lf' False by simp
  qed
  then show ?thesis using give c' sm B1 by (auto simp: same_heap_def h1_def g_def)
qed

lemma heap_give_spec:
  assumes wf: "heap_wf h (us @ (n, True) # vs)"
  shows "\<exists>h'. heap_give (heap_ptr h + off (extent us)) h = Some h' \<and> heap_wf h' (merged us n vs) \<and>
     heap_ptr h' = heap_ptr h \<and> heap_end h' = heap_end h \<and> mem_size_aligned h' = mem_size_aligned h \<and> heap_sem h' = heap_sem h \<and>
     max_mem h' = max_mem h \<and> (lowest_free h (us @ (n, True) # vs) \<longrightarrow> lowest_free h' (merged us n vs))"
proof -
  note W = heap_wfD [OF wf]
  note C = heap_chainD [OF W(1)]
  let ?a = "extent us" and ?B = "heap_ptr h" and ?bs = "us @ (n, True) # vs"
  obtain xs ys where cut: "?bs = xs @ ys" "lfree h = ?B + off (extent xs)" using wf by (auto simp: heap_wf_def)
  have xs: "extent xs \<le> extent ?bs" by (simp add: cut(1))
  obtain h' where give: "heap_give (?B + off ?a) h = Some h'" and c': "heap_chain h' (merged us n vs)" and B': "heap_ptr h' = ?B"
    and geo: "heap_end h' = heap_end h" "mem_size_aligned h' = mem_size_aligned h" "heap_sem h' = heap_sem h" "max_mem h' = max_mem h"
    and us: "used_mem h' = used_mem h - off n" and lf: "lfree h' = (if ?a \<le> extent xs then ?B + off (merged_at us) else lfree h)"
    using heap_give_steps [OF wf cut] by blast
  have used: "unat (used_mem h') = used_extent (merged us n vs)"
  proof -
    have n: "n < 2 ^ 32" "n \<le> unat (used_mem h)" using C(7) W(3) by simp_all
    then have "unat (used_mem h - off n) = unat (used_mem h) - n" by (subst unat_sub) (simp_all add: word_le_nat_alt)
    then show ?thesis using us W(3) by (simp add: merged_extents)
  qed
  have cut': "\<exists>as bs. merged us n vs = as @ bs \<and> lfree h' = ?B + off (extent as)"
  proof (cases "?a \<le> extent xs")
    case True
    then show ?thesis using merged_cuts(1) [of us n vs] lf by (auto simp: merged_at_def split: if_splits)
  next
    case False
    then obtain zs where "us = xs @ zs" "zs \<noteq> []" using cut(1) by (rule_tac cut_cases [OF cut(1)]) auto
    then show ?thesis using merged_cuts(2) [of us xs zs n vs] lf False cut(2) by auto
  qed
  have low: "lowest_free h' (merged us n vs)" if l: "lowest_free h ?bs"
  proof -
    let ?tw = "takeWhile snd ?bs"
    have tw: "extent ?tw \<le> extent ?bs" by (metis extent_simps(3) le_add1 takeWhile_dropWhile_id)
    then have x: "extent xs = extent ?tw" using l cut(2) chain_less(2) [OF W(1) xs tw] by (simp add: lowest_free_def)
    show ?thesis
    proof (cases "\<forall>b \<in> set us. snd b")
      case True
      then have "?tw = us @ (n, True) # takeWhile snd vs" by simp
      moreover have "merged_at us = ?a" using True by (auto simp: merged_at_def)
      ultimately show ?thesis using lf x True by (simp add: lowest_free_def merged_lowest B')
    next
      case False
      then have t: "?tw = takeWhile snd us" by (auto simp: takeWhile_append)
      have "dropWhile snd us \<noteq> []" using False by (auto simp: dropWhile_eq_Nil_conv)
      moreover have "heap_chain h (takeWhile snd us @ dropWhile snd us @ (n, True) # vs)"
        using W(1) by (metis append.assoc takeWhile_dropWhile_id)
      ultimately have "0 < extent (dropWhile snd us)" using extent_zero by blast
      moreover have "?a = extent (takeWhile snd us) + extent (dropWhile snd us)"
        by (metis extent_simps(3) takeWhile_dropWhile_id)
      ultimately have "\<not> ?a \<le> extent xs" using x t by simp
      then show ?thesis using lf cut(2) x t False by (simp add: lowest_free_def merged_lowest(2) B')
    qed
  qed
  have "used_mem h' \<le> max_mem h" using used W(3,4) by (simp add: word_le_nat_alt merged_extents)
  then have "heap_wf h' (merged us n vs)"
    unfolding heap_wf_def geo B' using c' plugged_merged [OF W(2)] used cut' by blast
  then show ?thesis using give geo B' low by blast
qed

end
