(* ===== verification/HeapCalls.thy ===== *)
theory HeapCalls
  imports Heap
begin

text \<open>
  What the calls of the heap do, seen from a caller that finds the heap's semaphore free: allocation,
  release, resizing.  The allocated areas are the data parts of the used blocks, by offset and length.
\<close>

section \<open>The semaphore\<close>

text \<open>Nobody is in the heap or waits for it, and the caller is a thread.\<close>

definition heap_idle :: "kstate \<Rightarrow> heap \<Rightarrow> bool" where
  "heap_idle s h \<longleftrightarrow> rt_object_get_type (KSem (heap_sem h)) s = RT_Object_Class_Semaphore \<and>
     sem_value (k_sems s (heap_sem h)) = 1 \<and> k_tlists s (Susp (KSem (heap_sem h))) = [] \<and> k_irq_nest s = 0"

lemma heap_sem_take:
  assumes "heap_idle s h"
  shows "rt_sem_take (heap_sem h) (- 1) s = Some (Ret RT_EOK, upd_sem (heap_sem h) (\<lambda>v. v - 1) s)"
  using assms by (simp add: heap_idle_def rt_sem_take_def)

lemma heap_sem_release:
  assumes "heap_idle s h" "heap_sem h' = heap_sem h"
  shows "rt_sem_release (heap_sem h') (upd_sem (heap_sem h) (\<lambda>v. v - 1) s) = Some (RT_EOK, s)"
proof -
  have "upd_sem (heap_sem h) (\<lambda>v. v + 1) (upd_sem (heap_sem h) (\<lambda>v. v - 1) s) = s"
    by (simp add: upd_sem_def fun_upd_idem)
  then show ?thesis using assms by (simp add: heap_idle_def rt_sem_release_def rt_object_get_type_def)
qed

lemma heap_idle_same: "heap_idle s h \<Longrightarrow> heap_sem h' = heap_sem h \<Longrightarrow> heap_idle s h'"
  by (simp add: heap_idle_def)

text \<open>A heap in which calls find everything in order: blocks \<open>bs\<close>, the lowest free block known, the
  semaphore free, room for the smallest block.\<close>

definition heap_ready :: "kstate \<Rightarrow> heap \<Rightarrow> blocks \<Rightarrow> bool" where
  "heap_ready s h bs \<longleftrightarrow> heap_wf h bs \<and> lowest_free h bs \<and> heap_idle s h \<and> 12 \<le> unat (mem_size_aligned h)"

lemma heap_readyD:
  assumes "heap_ready s h bs"
  shows "heap_wf h bs" "lowest_free h bs" "heap_idle s h" "12 \<le> unat (mem_size_aligned h)" "heap_chain h bs"
  using assms heap_wfD(1) by (auto simp: heap_ready_def)

text \<open>The initialisation makes one free block of the whole area.\<close>

lemma critical_irq:
  "rt_exit_critical (rt_enter_critical s) = Some s' \<Longrightarrow> k_irq_nest s' = k_irq_nest s"
  by (auto simp: rt_exit_critical_def rt_enter_critical_def Let_def split: if_splits
      dest!: sched_frame_schedule dest: sched_frame_fields)

lemma sem_init_irq:
  "rt_sem_init i name v f s = Some (e, s') \<Longrightarrow> k_irq_nest s' = k_irq_nest s"
  by (auto simp: rt_sem_init_def rt_object_init_def bind_Some_iff Let_def rt_ipc_object_init_def upd_sem_def upd_obj_def
      dest: critical_irq)

lemma heap_init_chain:
  assumes B: "heap_ptr h = B" "4 dvd unat B" "4 dvd S" "mem_size_aligned h = off S" "unat B + S + 24 < 2 ^ 32"
    and e: "heap_end h = B + off (S + 12)"
    and hd: "h_hdr h B = heap_header 0 0 (S + 12) False" "hm_used (h_hdr h (heap_end h)) = 1"
    and l: "lfree h = B" "used_mem h = 0"
  shows "heap_wf h [(S + 12, False)]" "lowest_free h [(S + 12, False)]"
proof -
  have z: "B + off 0 = B" by (simp add: off_def)
  have "heap_chain h [(S + 12, False)]" using assms by (simp add: heap_chain_def z)
  moreover have "\<exists>xs ys. [(S + 12, False)] = xs @ ys \<and> lfree h = heap_ptr h + off (extent xs)"
    by (rule exI [of _ "[]"]) (use l B(1) z in simp)
  ultimately show "heap_wf h [(S + 12, False)]" using l by (simp add: heap_wf_def plugged_Cons)
  show "lowest_free h [(S + 12, False)]" using l B(1) z by (simp add: lowest_free_def)
qed

lemma rt_system_heap_init_ready:
  fixes b e :: rt_uint32
  defines "ba \<equiv> 4 * ((unat b + 3) div 4)" and "ea \<equiv> 4 * (unat e div 4)"
  assumes ok: "kernel_ok s" "sem_inv s" "k_irq_nest s = 0" and h0: "used_mem h = 0"
    and room: "unat b + 3 < 2 ^ 32" "ba + 36 \<le> ea"
    and r: "rt_system_heap_init b e s h = Some (s', h')"
  shows "heap_ready s' h' [(ea - ba - 12, False)]"
proof -
  let ?b = "RT_ALIGN b 4" and ?e = "RT_ALIGN_DOWN e 4"
  define S where "S = ea - ba - 24"
  have ub: "unat ?b = ba" and ue: "unat ?e = ea" using unat_align [OF room(1)] unat_align_down [of e] by (simp_all add: ba_def ea_def)
  have "ea \<le> unat e" by (simp add: ea_def)
  also have "\<dots> < 2 ^ 32" using unsigned_less [of e, where ?'a = nat] by simp
  finally have top: "ea < 2 ^ 32" .
  have be: "?b = off ba" "?e = off ea" using ub ue by (simp_all add: off_def flip: ub ue)
  have test: "24 < ?e \<and> ?b \<le> ?e - 24"
    using ub ue room(2) by (simp add: word_less_nat_alt word_le_nat_alt unat_sub)
  have sz: "?e - ?b - 24 = off S" and last: "off S + 12 = off (S + 12)"
    using room(2) by (simp_all add: be S_def off_def of_nat_diff)
  let ?H = "h\<lparr>mem_size_aligned := off S, heap_ptr := ?b, heap_end := ?b + off (S + 12), lfree := ?b,
     h_hdr := (h_hdr h)(?b := \<lparr>hm_magic = HEAP_MAGIC, hm_used = 0, hm_next = off (S + 12), hm_prev = 0\<rparr>,
       ?b + off (S + 12) := \<lparr>hm_magic = HEAP_MAGIC, hm_used = 1, hm_next = off (S + 12), hm_prev = off (S + 12)\<rparr>)\<rparr>"
  obtain x where x: "rt_sem_init (heap_sem h) [104, 101, 97, 112] 1 0 s = Some (x, s')" and H: "h' = ?H"
    using r test ok(3) by (auto simp: rt_system_heap_init_def Let_def bind_Some_iff sz last upd_hdr_def
        rt_debug_not_in_interrupt_def rt_interrupt_get_nest_def)
  note I = rt_sem_init_ok [OF ok(1,2) x]
  have "S + 12 < 2 ^ 32" using room(2) top by (simp add: S_def)
  then have "off (S + 12) \<noteq> off 0" by simp
  then have ne: "?b + off (S + 12) \<noteq> ?b" by (simp add: off_def)
  have d: "4 dvd ba" "4 dvd S" using room(2) by (simp_all add: ba_def ea_def S_def)
  have S: "S + ba + 24 = ea" using room(2) by (simp add: S_def)
  have "heap_wf h' [(S + 12, False)]" "lowest_free h' [(S + 12, False)]"
    by (rule heap_init_chain [of h' ?b]; use d ub ne h0 top S in \<open>simp add: H heap_header_def off_def\<close>)+
  moreover have "S + 12 = ea - ba - 12" using S by simp
  moreover have "heap_idle s' h'"
    using I ipc_object_okD(1) [OF I(1,2)] ok(3) sem_init_irq [OF x]
    by (auto simp: heap_idle_def H sem_abs_def word_unat_eq_iff)
  moreover have "12 \<le> unat (mem_size_aligned h')" using room(2) top S by (simp add: H)
  ultimately show ?thesis by (simp add: heap_ready_def)
qed

section \<open>Allocated areas\<close>

fun areas :: "nat \<Rightarrow> blocks \<Rightarrow> (nat \<times> nat) set" where
  "areas a [] = {}"
| "areas a ((n, u) # bs) = (if u then {(a + 12, n - 12)} else {}) \<union> areas (a + n) bs"

lemma areas_append: "areas a (xs @ ys) = areas a xs \<union> areas (a + extent xs) ys"
  by (induction a xs rule: areas.induct) (auto simp: add.assoc)

lemma areas_bounds:
  assumes "\<And>b. b \<in> set bs \<Longrightarrow> 12 \<le> fst b" "(x, n) \<in> areas a bs"
  shows "a + 12 \<le> x \<and> x + n \<le> a + extent bs"
  using assms
proof (induction a bs rule: areas.induct)
  case (2 a n u bs)
  then show ?case by (fastforce split: if_splits)
qed simp

text \<open>What a request for \<open>sz\<close> bytes takes.\<close>

definition request :: "nat \<Rightarrow> nat" where
  "request sz = max 12 (4 * ((sz + 3) div 4))"

lemma request_ge: "sz \<le> request sz" "12 \<le> request sz" "4 dvd request sz"
  by (simp_all add: request_def max_def) presburger

lemma carve_areas:
  assumes "sz + 12 \<le> n"
  shows "\<exists>k. sz \<le> k \<and> k + 12 \<le> n \<and> areas a (carve sz n) = {(a + 12, k)}"
  using assms by (auto simp: carve_def)

section \<open>Allocation\<close>

lemma word_aligned:
  assumes "4 dvd unat (w :: rt_uint32)"
  shows "w AND 3 = 0" "w mod 4 = 0"
proof -
  have m: "unat (w mod 4) = unat w mod 4" by (simp add: unat_mod_distrib)
  then show z: "w mod 4 = 0" using assms by (simp add: word_unat_eq_iff)
  have "w AND 3 = w mod 4" using take_bit_eq_mask [of 2 w] by (simp add: mask_eq_exp_minus_1 take_bit_eq_mod)
  then show "w AND 3 = 0" using z by simp
qed

lemma block_address:
  assumes c: "heap_chain h (us @ (n, u) # vs)"
  defines "mem \<equiv> heap_ptr h + off (extent us)"
  shows "unat mem = unat (heap_ptr h) + extent us" "unat (mem + 12) = unat (heap_ptr h) + extent us + 12"
    "mem AND 3 = 0" "(mem + 12) mod 4 = 0" "(mem + 12) AND 3 = 0" "mem + 12 \<noteq> 0" "mem + 12 = heap_ptr h + off (extent us + 12)"
    "k + 12 \<le> n \<Longrightarrow> unat k' = k \<Longrightarrow> mem + 12 + k' \<le> heap_end h" "heap_ptr h \<le> mem + 12" "12 < n \<Longrightarrow> mem + 12 < heap_end h" "4 dvd unat (mem + 12)"
proof -
  note C = heap_chainD [OF c] and H = header_at [OF c]
  have d: "4 dvd extent us" using C(1) segs_dvd by (auto simp: segs_append)
  have u: "unat (heap_ptr h + off x) = unat (heap_ptr h) + x" if "x \<le> extent us + n" for x
    using C(5) that by (simp add: off_def unat_word_ariths unat_of_nat)
  show m: "unat mem = unat (heap_ptr h) + extent us" using u by (simp add: mem_def)
  show e: "mem + 12 = heap_ptr h + off (extent us + 12)" by (simp add: mem_def off_def)
  show m12: "unat (mem + 12) = unat (heap_ptr h) + extent us + 12" unfolding e using u H(2) by simp
  show d12: "4 dvd unat (mem + 12)" using d C(6) m12 by simp
  moreover have "4 dvd unat mem" using d C(6) m by simp
  ultimately show "mem AND 3 = 0" "(mem + 12) mod 4 = 0" "(mem + 12) AND 3 = 0" by (simp_all add: word_aligned)
  show "mem + 12 \<noteq> 0" using m12 by (metis add_is_0 unat_0 zero_neq_numeral)
  have en: "unat (heap_end h) = unat (heap_ptr h) + (extent us + n + extent vs)"
    using C(3,5) by (simp add: off_def unat_word_ariths unat_of_nat)
  show "mem + 12 + k' \<le> heap_end h" if "k + 12 \<le> n" "unat k' = k"
  proof -
    have "unat (mem + 12 + k') = unat (heap_ptr h) + extent us + 12 + k"
      using that C(5) m12 by (subst unat_word_ariths) simp
    then show ?thesis using en that by (simp add: word_le_nat_alt)
  qed
  show "heap_ptr h \<le> mem + 12" using m12 by (simp add: word_le_nat_alt)
  show "mem + 12 < heap_end h" if "12 < n" using m12 en that by (simp add: word_less_nat_alt)
qed

lemma malloc_size:
  assumes "unat sz + 3 < 2 ^ 32"
  shows "unat (if RT_ALIGN sz 4 < 12 then 12 else RT_ALIGN sz 4) = request (unat sz)"
    "mem_size < RT_ALIGN sz 4 \<Longrightarrow> unat mem_size < request (unat sz)"
  using unat_align [of sz] assms by (auto simp: request_def word_less_nat_alt max_def)

text \<open>The lowest free block is the first one, so the search starts before every free block.\<close>

lemma free_behind_lowest:
  assumes "bs = us @ (n, False) # vs"
  shows "\<exists>zs. us = takeWhile snd bs @ zs \<and> dropWhile snd bs = zs @ (n, False) # vs"
proof (cases "\<forall>b \<in> set us. snd b")
  case True
  then show ?thesis using assms by simp
next
  case False
  then have "takeWhile snd bs = takeWhile snd us" "dropWhile snd bs = dropWhile snd us @ (n, False) # vs"
    by (auto simp: assms takeWhile_append dropWhile_append)
  then show ?thesis by simp
qed

text \<open>A fitting block is taken, or no free block in the reach of the search is large enough.\<close>

lemma heap_take_cases:
  assumes wf: "heap_wf h bs" and low: "lowest_free h bs"
    and sz: "12 \<le> unat sz" "unat sz \<le> unat (mem_size_aligned h)" "4 dvd unat sz"
  obtains (none) "heap_take sz h = Some (None, h)"
      "\<And>us n vs. bs = us @ (n, False) # vs \<Longrightarrow> n < unat sz + 12 \<or> unat (mem_size_aligned h) \<le> extent us + unat sz"
  | (some) us n vs h' where "heap_take sz h = Some (Some (heap_ptr h + off (extent us)), h')"
      "bs = us @ (n, False) # vs" "unat sz + 12 \<le> n" "heap_wf h' (us @ carve (unat sz) n @ vs)"
      "lowest_free h' (us @ carve (unat sz) n @ vs)" "heap_ptr h' = heap_ptr h" "heap_end h' = heap_end h"
      "mem_size_aligned h' = mem_size_aligned h" "heap_sem h' = heap_sem h"
proof -
  let ?xs = "takeWhile snd bs" and ?ys = "dropWhile snd bs" and ?S = "unat (mem_size_aligned h)"
  have wf': "heap_wf h (?xs @ ?ys)" using wf by simp
  have lf: "lfree h = heap_ptr h + off (extent ?xs)" using low by (simp add: lowest_free_def)
  show thesis
  proof (cases "first_fit (unat sz) ?S (extent ?xs) ?ys")
    case None
    have "n < unat sz + 12 \<or> ?S \<le> extent us + unat sz" if bs: "bs = us @ (n, False) # vs" for us n vs
    proof -
      obtain zs where z: "us = ?xs @ zs" "?ys = zs @ (n, False) # vs" using free_behind_lowest [OF bs] by blast
      have "n < unat sz + 12" if "extent ?xs + extent zs + unat sz < ?S"
        using first_fit_none [of "unat sz" ?S "extent ?xs" zs n False vs] None z(2) that by simp
      then show ?thesis using z(1) by (metis extent_simps(3) not_less)
    qed
    then show thesis using none heap_take_none [OF wf' lf sz(2) None] by blast
  next
    case (Some r)
    obtain zs n ws where r: "r = (zs, n, ws)" by (cases r)
    note F = first_fit_some [OF Some [unfolded r]]
    let ?cs = "carve (unat sz) n @ ws"
    have bs: "bs = (?xs @ zs) @ (n, False) # ws" using F by (metis append.assoc takeWhile_dropWhile_id)
    obtain h' where h': "heap_take sz h = Some (Some (heap_ptr h + off (extent (?xs @ zs))), h')"
      "heap_wf h' (?xs @ zs @ ?cs)" "heap_ptr h' = heap_ptr h" "heap_end h' = heap_end h"
      "mem_size_aligned h' = mem_size_aligned h" "heap_sem h' = heap_sem h"
      and l: "lfree h' = (if zs = [] then heap_ptr h + off (extent (?xs @ takeWhile snd ?cs)) else lfree h)"
      using heap_take_found [OF wf' lf sz Some [unfolded r]] by blast
    have all: "\<forall>b \<in> set ?xs. snd b" by (auto dest: set_takeWhileD)
    have first: "\<not> snd (hd zs)" if "zs \<noteq> []" using hd_dropWhile [of snd bs] F that by simp
    have "takeWhile snd (?xs @ zs @ ?cs) = ?xs @ takeWhile snd (zs @ ?cs)" using all by simp
    then have "lowest_free h' (?xs @ zs @ ?cs)"
      using l lf first h'(3) by (cases zs) (simp_all add: lowest_free_def)
    then show thesis using some [of "?xs @ zs" h' n ws] h' bs F by simp
  qed
qed

lemma rt_malloc_blocks:
  assumes rdy: "heap_ready s h bs" and sz: "0 < unat sz" "unat sz + 3 < 2 ^ 32"
  obtains (none) "rt_malloc sz s h = Some (Ret 0, s, h)"
      "\<And>us n vs. bs = us @ (n, False) # vs \<Longrightarrow> n < request (unat sz) + 12 \<or> unat (mem_size_aligned h) \<le> extent us + request (unat sz)"
  | (some) us n vs h' where "rt_malloc sz s h = Some (Ret (heap_ptr h + off (extent us) + 12), s, h')"
      "bs = us @ (n, False) # vs" "request (unat sz) + 12 \<le> n" "heap_ready s h' (us @ carve (request (unat sz)) n @ vs)"
      "heap_ptr h' = heap_ptr h"
proof -
  note wf = heap_readyD(1) [OF rdy] and low = heap_readyD(2) [OF rdy] and idle = heap_readyD(3) [OF rdy] and room = heap_readyD(4) [OF rdy]
  let ?k = "request (unat sz)"
  define k where "k = (if RT_ALIGN sz 4 < 12 then 12 else RT_ALIGN sz 4)"
  have k: "unat k = ?k" using malloc_size(1) [OF sz(2)] by (simp add: k_def)
  have irq: "rt_debug_not_in_interrupt s = Some ()"
    using idle by (simp add: heap_idle_def rt_debug_not_in_interrupt_def rt_interrupt_get_nest_def)
  note C = heap_chainD [OF heap_wfD(1) [OF wf]]
  have nz: "sz \<noteq> 0" using sz(1) by auto
  show thesis
  proof (cases "mem_size_aligned h < RT_ALIGN sz 4")
    case True
    then have "rt_malloc sz s h = Some (Ret 0, s, h)" using nz irq by (simp add: rt_malloc_def)
    moreover have "n < ?k + 12" if "bs = us @ (n, False) # vs" for us n vs
      using malloc_size(2) [OF sz(2) True] C(2) that by simp
    ultimately show thesis using none by blast
  next
    case False
    then have run: "rt_malloc sz s h = malloc_locked k (upd_sem (heap_sem h) (\<lambda>v. v - 1) s) h"
      using nz irq heap_sem_take [OF idle] unfolding rt_malloc_def Let_def by (simp add: k_def)
    have "?k \<le> unat (mem_size_aligned h)"
      using False room unat_align [OF sz(2)] by (auto simp: request_def word_less_nat_alt)
    then have k3: "12 \<le> unat k" "unat k \<le> unat (mem_size_aligned h)" "4 dvd unat k" using k request_ge by simp_all
    show thesis
    proof (rule heap_take_cases [OF wf low k3])
      assume t: "heap_take k h = Some (None, h)"
        "\<And>us n vs. bs = us @ (n, False) # vs \<Longrightarrow> n < unat k + 12 \<or> unat (mem_size_aligned h) \<le> extent us + unat k"
      have "rt_malloc sz s h = Some (Ret 0, s, h)" using run t(1) heap_sem_release [OF idle refl] by (simp add: malloc_locked_def)
      then show thesis using none t(2) k by simp
    next
      fix us n vs h'
      assume t: "heap_take k h = Some (Some (heap_ptr h + off (extent us)), h')" "bs = us @ (n, False) # vs" "unat k + 12 \<le> n"
        "heap_wf h' (us @ carve (unat k) n @ vs)" "lowest_free h' (us @ carve (unat k) n @ vs)"
        "heap_ptr h' = heap_ptr h" "heap_end h' = heap_end h" "mem_size_aligned h' = mem_size_aligned h" "heap_sem h' = heap_sem h"
      note A = block_address [OF heap_wfD(1) [OF wf, unfolded t(2)]]
      have "rt_malloc sz s h = Some (Ret (heap_ptr h + off (extent us) + 12), s, h')"
        unfolding run malloc_locked_def using t(1,3,7) heap_sem_release [OF idle t(9)] A(3,4,8) by simp
      then show thesis using some t k heap_idle_same [OF idle] room by (simp add: heap_ready_def)
    qed
  qed
qed

lemma areas_split: "(x, m) \<in> areas a bs \<longleftrightarrow> (\<exists>us n vs. bs = us @ (n, True) # vs \<and> x = a + extent us + 12 \<and> m = n - 12)"
proof
  assume "(x, m) \<in> areas a bs"
  then show "\<exists>us n vs. bs = us @ (n, True) # vs \<and> x = a + extent us + 12 \<and> m = n - 12"
  proof (induction a bs rule: areas.induct)
    case (2 a n u bs)
    show ?case
    proof (cases "(x, m) \<in> areas (a + n) bs")
      case True
      then obtain us k vs where "bs = us @ (k, True) # vs" "x = a + n + extent us + 12" "m = k - 12" using "2.IH" by blast
      then show ?thesis by (intro exI [of _ "(n, u) # us"] exI [of _ k] exI [of _ vs]) simp
    next
      case False
      then have "u" "x = a + 12" "m = n - 12" using "2.prems" by (auto split: if_splits)
      then show ?thesis by (intro exI [of _ "[]"] exI [of _ n] exI [of _ bs]) simp
    qed
  qed simp
qed (auto simp: areas_append)

text \<open>A block and the areas before and behind it.\<close>

lemma areas_apart:
  assumes c: "heap_chain h (us @ (n, u) # vs)" and y: "(y, m) \<in> areas 0 us \<union> areas (extent us + n) vs"
  shows "y + m \<le> extent us \<or> extent us + n + 12 \<le> y"
proof -
  have "12 \<le> fst b" if "b \<in> set (us @ (n, u) # vs)" for b using segs_sizes [OF heap_chainD(1) [OF c] that] by simp
  then show ?thesis using y areas_bounds [of us y m 0] areas_bounds [of vs y m "extent us + n"] by auto
qed

lemma malloc_areas:
  assumes "heap_ready s h bs" "0 < unat sz" "unat sz + 3 < 2 ^ 32"
  shows "\<exists>r h' bs'. rt_malloc sz s h = Some (Ret r, s, h') \<and> heap_ready s h' bs' \<and> heap_ptr h' = heap_ptr h \<and>
     (if r = 0 then h' = h \<and> bs' = bs \<and>
        (\<forall>us n vs. bs = us @ (n, False) # vs \<longrightarrow> n < request (unat sz) + 12 \<or> unat (mem_size_aligned h) \<le> extent us + request (unat sz))
      else \<exists>x n. unat r = unat (heap_ptr h) + x \<and> 4 dvd unat r \<and> unat sz \<le> n \<and> 12 \<le> x \<and> x + n \<le> extent bs \<and>
        (\<forall>(y, m) \<in> areas 0 bs. x + n \<le> y \<or> y + m \<le> x) \<and> areas 0 bs' = insert (x, n) (areas 0 bs))"
proof (rule rt_malloc_blocks [OF assms])
  assume "rt_malloc sz s h = Some (Ret 0, s, h)"
    "\<And>us n vs. bs = us @ (n, False) # vs \<Longrightarrow> n < request (unat sz) + 12 \<or> unat (mem_size_aligned h) \<le> extent us + request (unat sz)"
  then show ?thesis using assms(1) by (intro exI [of _ 0] exI [of _ h] exI [of _ bs]) auto
next
  fix us n vs h'
  let ?k = "request (unat sz)"
  assume r: "rt_malloc sz s h = Some (Ret (heap_ptr h + off (extent us) + 12), s, h')" and bs: "bs = us @ (n, False) # vs"
    and n: "?k + 12 \<le> n" and rdy: "heap_ready s h' (us @ carve ?k n @ vs)" and ptr: "heap_ptr h' = heap_ptr h"
  note c = heap_readyD(5) [OF assms(1), unfolded bs]
  note A = block_address [OF c]
  obtain k where k: "?k \<le> k" "k + 12 \<le> n" "areas (extent us) (carve ?k n) = {(extent us + 12, k)}" using carve_areas [OF n] by blast
  have new: "areas 0 (us @ carve ?k n @ vs) = insert (extent us + 12, k) (areas 0 bs)"
    using k(3) n by (auto simp: areas_append bs)
  have far: "extent us + 12 + k \<le> y \<or> y + m \<le> extent us + 12" if "(y, m) \<in> areas 0 bs" for y m
    using areas_apart [OF c, of y m] that k(2) by (auto simp: areas_append bs)
  have "unat sz \<le> k" using k(1) request_ge(1) [of "unat sz"] by simp
  then show ?thesis using r rdy ptr A(2,6,11) k(2) new far bs
    by (intro exI [of _ "heap_ptr h + off (extent us) + 12"] exI [of _ h'] exI [of _ "us @ carve ?k n @ vs"])
      (auto intro!: exI [of _ "extent us + 12"] exI [of _ k])
qed

text \<open>The alignment of a request of nearly the whole address space wraps to 0, and the caller gets the
  smallest block there is.\<close>

lemma align_wraps:
  assumes "2 ^ 32 \<le> unat (sz :: rt_uint32) + 3"
  shows "RT_ALIGN sz 4 = 0" "sz \<noteq> 0"
proof -
  have "unat sz < 2 ^ 32" using unsigned_less [of sz, where ?'a = nat] by simp
  then have "unat sz = 2 ^ 32 - 3 \<or> unat sz = 2 ^ 32 - 2 \<or> unat sz = 2 ^ 32 - 1" using assms by linarith
  then have "sz = 0xFFFFFFFD \<or> sz = 0xFFFFFFFE \<or> sz = 0xFFFFFFFF" by (auto simp: word_unat_eq_iff)
  then show "RT_ALIGN sz 4 = 0" "sz \<noteq> 0" by (auto simp: RT_ALIGN_def)
qed

lemma rt_malloc_wraps:
  assumes "2 ^ 32 \<le> unat sz + 3" "12 \<le> unat (mem_size_aligned h)"
  shows "rt_malloc sz s h = rt_malloc 12 s h"
proof -
  have "RT_ALIGN 12 4 = 12" by (simp add: RT_ALIGN_def)
  moreover have "\<not> mem_size_aligned h < 12" using assms(2) by (simp add: word_less_nat_alt)
  ultimately show ?thesis using align_wraps [OF assms(1)] by (simp add: rt_malloc_def)
qed

lemma rt_malloc_zero: "rt_malloc 0 s h = Some (Ret 0, s, h)"
  by (simp add: rt_malloc_def)

text \<open>The length that an allocation serves: the requested one, but 12 bytes for the three largest
  requests, whose alignment wraps.\<close>

definition served :: "rt_uint32 \<Rightarrow> nat" where
  "served sz = (if unat sz + 3 < 2 ^ 32 then unat sz else 12)"

text \<open>
  C18: an allocation of any size returns, with the kernel state as it was, and keeps the heap in order.  Asked for
  0 bytes it returns a null pointer and changes nothing.  Otherwise it returns a null pointer, and
  changes nothing, only when no free block in the reach of the search is large enough; else it
  returns an aligned area of at least the served length, inside the heap, that overlaps no allocated
  area, and this area joins the allocated ones, which stay where they are.  The served length is the
  requested one, except that the three sizes above \<^verbatim>\<open>0xFFFFFFFC\<close>, whose alignment wraps, are
  served as 12 bytes.
\<close>

theorem rt_malloc_correct:
  assumes "heap_ready s h bs"
  shows "if sz = 0 then rt_malloc sz s h = Some (Ret 0, s, h)
     else \<exists>r h' bs'. rt_malloc sz s h = Some (Ret r, s, h') \<and> heap_ready s h' bs' \<and> heap_ptr h' = heap_ptr h \<and>
     (if r = 0 then h' = h \<and> bs' = bs \<and>
        (\<forall>us n vs. bs = us @ (n, False) # vs \<longrightarrow> n < request (served sz) + 12 \<or> unat (mem_size_aligned h) \<le> extent us + request (served sz))
      else \<exists>x n. unat r = unat (heap_ptr h) + x \<and> 4 dvd unat r \<and> served sz \<le> n \<and> 12 \<le> x \<and> x + n \<le> extent bs \<and>
        (\<forall>(y, m) \<in> areas 0 bs. x + n \<le> y \<or> y + m \<le> x) \<and> areas 0 bs' = insert (x, n) (areas 0 bs))"
proof -
  consider "sz = 0" | "sz \<noteq> 0" "unat sz + 3 < 2 ^ 32" | "2 ^ 32 \<le> unat sz + 3" by linarith
  then show ?thesis
  proof cases
    case 1
    then show ?thesis by (simp add: rt_malloc_zero)
  next
    case 2
    then have "served sz = unat sz" "0 < unat sz" by (simp_all add: served_def unat_gt_0)
    then show ?thesis using malloc_areas [OF assms _ 2(2)] 2(1) by (simp only: if_False)
  next
    case 3
    have "served sz = unat (12 :: rt_uint32)" using 3 by (simp add: served_def)
    moreover have "0 < unat (12 :: rt_uint32)" "unat (12 :: rt_uint32) + 3 < 2 ^ 32" by simp_all
    ultimately show ?thesis
      using malloc_areas [OF assms, of 12] rt_malloc_wraps [OF 3 heap_readyD(4) [OF assms], of s] align_wraps(2) [OF 3]
      by (simp only: if_False)
  qed
qed

section \<open>Release\<close>

lemma areas_merged: "areas 0 (merged us n vs) = areas 0 us \<union> areas (extent us + n) vs"
proof -
  obtain n' vs' where j: "join_next n vs = (n', vs')" by (cases "join_next n vs")
  have v: "areas (a + n') vs' = areas (a + n) vs" for a
    using j by (auto simp: join_next_def add.assoc split: list.splits prod.splits bool.splits)
  have "areas 0 (join_prev us n' vs') = areas 0 us \<union> areas (extent us + n') vs'"
  proof (cases "free_before us")
    case True
    then obtain ws k where us: "us = ws @ [(k, False)]" by (metis append_butlast_last_id prod.collapse)
    then show ?thesis by (simp add: join_prev_def areas_append add.assoc)
  next
    case False
    then have "join_prev us n' vs' = us @ (n', False) # vs'" by (simp only: join_prev_def if_False)
    then show ?thesis by (simp add: areas_append)
  qed
  then show ?thesis using v by (simp add: merged_def j)
qed

lemma rt_free_blocks:
  assumes rdy: "heap_ready s h (us @ (n, True) # vs)" and n: "12 < n"
  shows "\<exists>h'. rt_free (heap_ptr h + off (extent us) + 12) s h = Some (Ret (), s, h') \<and> heap_ready s h' (merged us n vs) \<and>
     max_mem h' = max_mem h"
proof -
  note R = heap_readyD [OF rdy]
  note A = block_address [OF R(5)]
  obtain h' where h': "heap_give (heap_ptr h + off (extent us)) h = Some h'" "heap_wf h' (merged us n vs)"
    "mem_size_aligned h' = mem_size_aligned h" "heap_sem h' = heap_sem h" "lowest_free h' (merged us n vs)" "max_mem h' = max_mem h"
    using heap_give_spec [OF R(1)] R(2) by blast
  have irq: "rt_debug_not_in_interrupt s = Some ()"
    using R(3) by (simp add: heap_idle_def rt_debug_not_in_interrupt_def rt_interrupt_get_nest_def)
  have "rt_free (heap_ptr h + off (extent us) + 12) s h = free_locked (heap_ptr h + off (extent us)) (upd_sem (heap_sem h) (\<lambda>v. v - 1) s) h"
    using A(5,6,9,10) n irq heap_sem_take [OF R(3)] by (simp add: rt_free_def)
  also have "\<dots> = Some (Ret (), s, h')" using h'(1) heap_sem_release [OF R(3) h'(4)] by (simp add: free_locked_def)
  finally show ?thesis using h' R(3,4) heap_idle_same [OF R(3)] by (simp add: heap_ready_def)
qed

lemma free_areas:
  assumes rdy: "heap_ready s h bs" and x: "(x, m) \<in> areas 0 bs" "0 < m"
  shows "\<exists>h' bs'. rt_free (heap_ptr h + off x) s h = Some (Ret (), s, h') \<and> heap_ready s h' bs' \<and>
     areas 0 bs' = areas 0 bs - {(x, m)} \<and> unat (used_mem h') + m + 12 = unat (used_mem h) \<and> max_mem h' = max_mem h"
proof -
  obtain us n vs where bs: "bs = us @ (n, True) # vs" and xm: "x = extent us + 12" "m = n - 12"
    using x(1) by (auto simp: areas_split)
  have n: "12 < n" using x(2) xm by simp
  have addr: "heap_ptr h + off x = heap_ptr h + off (extent us) + 12" by (simp add: xm off_def)
  obtain h' where h': "rt_free (heap_ptr h + off x) s h = Some (Ret (), s, h')" "heap_ready s h' (merged us n vs)" "max_mem h' = max_mem h"
    using rt_free_blocks [OF rdy [unfolded bs] n] unfolding addr by blast
  have "(x, m) \<notin> areas 0 us \<union> areas (extent us + n) vs"
    using areas_apart [OF heap_readyD(5) [OF rdy, unfolded bs], of x m] n xm by auto
  then have "areas 0 (merged us n vs) = areas 0 bs - {(x, m)}" using xm by (auto simp: areas_merged bs areas_append)
  moreover have "unat (used_mem h') + m + 12 = unat (used_mem h)"
    using heap_wfD(3) [OF heap_readyD(1) [OF h'(2)]] heap_wfD(3) [OF heap_readyD(1) [OF rdy]] n xm by (simp add: merged_extents bs)
  ultimately show ?thesis using h' by blast
qed

text \<open>
  C19: releasing an allocated area returns, keeps the heap in order (in particular no two free blocks are
  neighbours, and the lowest one is known), takes exactly this area from the allocated ones and
  subtracts its block from the memory in use.
\<close>

theorem rt_free_correct:
  assumes rdy: "heap_ready s h bs" and x: "(x, m) \<in> areas 0 bs" "0 < m"
  shows "\<exists>h' bs'. rt_free (heap_ptr h + off x) s h = Some (Ret (), s, h') \<and> heap_ready s h' bs' \<and>
     areas 0 bs' = areas 0 bs - {(x, m)} \<and> unat (used_mem h') + m + 12 = unat (used_mem h) \<and> max_mem h' = max_mem h"
  by (rule free_areas [OF rdy x])

lemma merged_carve:
  assumes "plugged (us @ (n, False) # vs)" "sz + 12 \<le> n"
  shows "\<exists>k ws. carve sz n @ vs = (k, True) # ws \<and> sz + 12 \<le> k \<and> merged us k ws = us @ (n, False) # vs"
proof -
  have us: "\<not> free_before us" and vs: "vs = [] \<or> snd (hd vs)"
    using assms(1) by (auto simp: plugged_append plugged_Cons)
  have "join_next n vs = (n, vs)" using vs by (cases vs) (auto simp: join_next_def split: bool.splits)
  then show ?thesis using us assms(2)
    by (cases "sz + 36 \<le> n") (auto simp: carve_def merged_def join_prev_def join_next_def)
qed

text \<open>
  An area that was allocated can be released at once, and this gives back the heap as it was before the
  allocation: the same chain of blocks, the same memory in use.
\<close>

lemma rt_malloc_free_roundtrip:
  assumes rdy: "heap_ready s h bs" and sz: "0 < unat sz" "unat sz + 3 < 2 ^ 32"
    and r: "rt_malloc sz s h = Some (Ret r, s', h')" "r \<noteq> 0"
  shows "\<exists>h''. rt_free r s' h' = Some (Ret (), s, h'') \<and> heap_ready s h'' bs \<and> used_mem h'' = used_mem h"
proof (rule rt_malloc_blocks [OF rdy sz])
  assume "rt_malloc sz s h = Some (Ret 0, s, h)"
  then show ?thesis using r by simp
next
  fix us n vs h1
  assume m: "rt_malloc sz s h = Some (Ret (heap_ptr h + off (extent us) + 12), s, h1)" and bs: "bs = us @ (n, False) # vs"
    and n: "request (unat sz) + 12 \<le> n" and rdy1: "heap_ready s h1 (us @ carve (request (unat sz)) n @ vs)"
    and ptr: "heap_ptr h1 = heap_ptr h"
  obtain k ws where k: "carve (request (unat sz)) n @ vs = (k, True) # ws" "request (unat sz) + 12 \<le> k" "merged us k ws = bs"
    using merged_carve [OF _ n, of us vs] heap_wfD(2) [OF heap_readyD(1) [OF rdy]] by (auto simp: bs)
  have "12 < k" using k(2) request_ge(2) [of "unat sz"] by linarith
  then obtain h'' where h'': "rt_free (heap_ptr h1 + off (extent us) + 12) s h1 = Some (Ret (), s, h'')" "heap_ready s h'' bs"
    using rt_free_blocks [OF rdy1 [unfolded k(1)]] k(3) by auto
  moreover have "used_mem h'' = used_mem h"
    by (rule word_unat_eq_iff [THEN iffD2]) (use heap_wfD(3) [OF heap_readyD(1) [OF h''(2)]] heap_wfD(3) [OF heap_readyD(1) [OF rdy]] in simp)
  ultimately show ?thesis using r m ptr by auto
qed

section \<open>Resizing\<close>

lemma heap_ready_mem [simp]: "heap_ready (s\<lparr>k_mem := m\<rparr>) h bs = heap_ready s h bs"
  by (simp add: heap_ready_def heap_idle_def rt_object_get_type_def)

text \<open>The block boundaries that remain when a block is cut and the rest merged.\<close>

lemma shrink_cut:
  assumes cut: "us @ (n, True) # vs = xs @ ys" and k: "k \<le> n"
    and no: "extent xs = extent us + n \<longrightarrow> join_next (n - k) vs = (n - k, vs)"
  shows "\<exists>as. (\<exists>bs. us @ (k, True) # (fst (join_next (n - k) vs), False) # snd (join_next (n - k) vs) = as @ bs) \<and> extent as = extent xs"
proof (rule cut_cases [OF cut])
  fix zs assume "us = xs @ zs" "zs \<noteq> []"
  then show ?thesis by (intro exI [of _ xs]) simp
next
  assume "xs = us"
  then show ?thesis by (intro exI [of _ us]) simp
next
  fix zs assume xs: "xs = us @ (n, True) # zs"
  then have vs: "vs = zs @ ys" using cut by simp
  show ?thesis
  proof (cases "join_next (n - k) vs = (n - k, vs)")
    case True
    then show ?thesis using k xs vs by (intro exI [of _ "us @ [(k, True), (n - k, False)] @ zs"]) simp
  next
    case joined: False
    then obtain j r where r: "vs = (j, False) # r" by (auto simp: join_next_def split: list.splits prod.splits bool.splits)
    have "zs \<noteq> []" using no joined xs by auto
    then obtain zs' where "zs = (j, False) # zs'" "r = zs' @ ys" using vs r by (cases zs) auto
    then show ?thesis using k xs r by (intro exI [of _ "us @ [(k, True), (n - k + j, False)] @ zs'"]) (simp add: join_next_def)
  qed
qed

text \<open>A used block shrinks in place; the rest becomes a free block, merged with the one behind it.\<close>

lemma heap_shrink:
  assumes wf: "heap_wf h (us @ (n, True) # vs)" and k: "12 \<le> k" "4 dvd k" "k + 12 \<le> n"
  defines "h1 \<equiv> heap_split (off (extent us)) (off (extent us + k)) (\<lambda>m. m) (h\<lparr>used_mem := used_mem h - off (n - k)\<rparr>)"
  shows "\<exists>h'. plug_holes (heap_ptr h + off (extent us + k)) h1 = Some h' \<and>
     heap_wf h' (merged (us @ [(k, True)]) (n - k) vs) \<and> heap_ptr h' = heap_ptr h \<and> heap_sem h' = heap_sem h"
proof -
  note W = heap_wfD [OF wf]
  note C = heap_chainD [OF W(1)]
  let ?h0 = "h\<lparr>used_mem := used_mem h - off (n - k)\<rparr>" and ?us = "us @ [(k, True)]"
  have c0: "heap_chain ?h0 (us @ (n, True) # vs)" using W(1) by simp
  have mk: "(heap_header p a n True)\<lparr>hm_next := off (a + k)\<rparr> = heap_header p a k True" for p a by (simp add: heap_header_def)
  note S = heap_split_chain [OF c0 k mk, folded h1_def]
  have c1: "heap_chain h1 (?us @ (n - k, False) # vs)" using S(1) by simp
  obtain h' where h': "plug_holes (heap_ptr h1 + off (extent ?us)) h1 = Some h'" "heap_chain h' (merged ?us (n - k) vs)" "same_heap h1 h'"
    and lf: "lfree h' = (if lfree h1 = heap_ptr h1 + off (extent ?us) \<or> lfree h1 = heap_ptr h1 + off (extent ?us + (n - k)) \<and> join_next (n - k) vs \<noteq> (n - k, vs)
      then heap_ptr h1 + off (merged_at ?us) else lfree h1)"
    using plug_holes_chain [OF c1] by blast
  have mg: "merged ?us (n - k) vs = ?us @ (fst (join_next (n - k) vs), False) # snd (join_next (n - k) vs)" "merged_at ?us = extent ?us"
    by (simp_all add: merged_def join_prev_def merged_at_def split: prod.split)
  obtain xs ys where cut: "us @ (n, True) # vs = xs @ ys" "lfree h = heap_ptr h + off (extent xs)"
    using wf by (auto simp: heap_wf_def)
  have cut': "\<exists>as bs. merged ?us (n - k) vs = as @ bs \<and> lfree h' = heap_ptr h + off (extent as)"
  proof (cases "lfree h' = heap_ptr h + off (extent ?us)")
    case True
    then show ?thesis using mg(1) by blast
  next
    case False
    then have l: "lfree h' = heap_ptr h + off (extent xs)"
      and no: "extent xs = extent us + n \<longrightarrow> join_next (n - k) vs = (n - k, vs)"
      using lf S(2,8) cut(2) mg(2) k(3) by (auto split: if_splits)
    show ?thesis using shrink_cut [OF cut(1) _ no] k(3) mg(1) l by auto
  qed
  have used: "unat (used_mem h') = used_extent (merged ?us (n - k) vs)"
  proof -
    have n: "n - k < 2 ^ 32" "n - k \<le> unat (used_mem h)" using C(7) W(3) by simp_all
    then have "unat (used_mem h - off (n - k)) = unat (used_mem h) - (n - k)" by (subst unat_sub) (simp_all add: word_le_nat_alt)
    then show ?thesis using h'(3) S(5) W(3) k(3) by (simp add: same_heap_def merged_extents)
  qed
  have "plugged (?us @ (n - k, True) # vs)" using W(2) by (auto simp: plugged_append plugged_Cons)
  moreover have "used_mem h' \<le> max_mem h" using used W(3,4) k(3) by (simp add: word_le_nat_alt merged_extents)
  moreover have geo: "heap_ptr h' = heap_ptr h" "max_mem h' = max_mem h" "heap_sem h' = heap_sem h"
    using h'(3) S(2,6,7) by (simp_all add: same_heap_def)
  ultimately have "heap_wf h' (merged ?us (n - k) vs)"
    unfolding heap_wf_def geo using h'(2) plugged_merged used cut' by blast
  then show ?thesis using h'(1) S(2) geo by auto
qed

text \<open>Copying a block to a disjoint area.\<close>

lemma copy_to_area:
  fixes B c :: rt_uint32 and m :: memory
  assumes fit: "unat B + x + unat c < 2 ^ 32" "unat B + y + unat c < 2 ^ 32"
    and apart: "x + unat c \<le> y \<or> y + unat c \<le> x"
  defines "M \<equiv> rt_memcpy (B + off y) (B + off x) c m"
  shows "i < unat c \<Longrightarrow> M (B + off y + off i) = m (B + off x + off i)"
    and "unat a < unat B + y \<or> unat B + y + unat c \<le> unat a \<Longrightarrow> M a = m a"
proof -
  have u: "unat (B + off z) = unat B + z" if "unat B + z < 2 ^ 32" for z
    using that by (simp add: off_def unat_word_ariths unat_of_nat)
  have U: "unat (B + off x) = unat B + x" "unat (B + off y) = unat B + y" using u fit by simp_all
  have xc: "unat (B + off x + c) = unat B + x + unat c" using U fit by (subst unat_word_ariths) simp
  have "\<not> (B + off x < B + off y \<and> B + off y < B + off x + c)" using apart U xc by (auto simp: word_less_nat_alt)
  then have M: "M = copy_bytes (B + off y) (B + off x) c m"
    unfolding M_def by (intro rt_memcpy_copies upward_safe_if) (use U fit in simp_all)
  show "M (B + off y + off i) = m (B + off x + off i)" if i: "i < unat c"
  proof -
    have "i < 2 ^ 32" using i fit by linarith
    then have "off i < c" using i by (simp add: word_less_nat_alt)
    then show ?thesis by (simp add: M copy_bytes_def)
  qed
  show "M a = m a" if "unat a < unat B + y \<or> unat B + y + unat c \<le> unat a"
  proof -
    have "of_nat (unat c) \<le> a - (B + off y)" by (rule word_outside [where m = 1]) (use that U fit in auto)
    then have "\<not> a - (B + off y) < c" by (simp only: not_less of_nat_unat ucast_id)
    then show ?thesis by (simp only: M copy_bytes_def if_False)
  qed
qed

text \<open>The kernel state after an enlargement: only the new area is written.\<close>

definition moved :: "kstate \<Rightarrow> kstate \<Rightarrow> rt_uint32 \<Rightarrow> rt_uint32 \<Rightarrow> nat \<Rightarrow> nat \<Rightarrow> bool" where
  "moved s s' p r c k \<longleftrightarrow> s' = s\<lparr>k_mem := k_mem s'\<rparr> \<and> (\<forall>i<c. k_mem s' (r + off i) = k_mem s (p + off i)) \<and>
     (\<forall>a. unat a < unat r \<or> unat r + k \<le> unat a \<longrightarrow> k_mem s' a = k_mem s a)"

lemma moved_refl: "moved s s p p c k"
  by (simp add: moved_def)

text \<open>\<open>result\<close> says what became of the area \<open>(x, m)\<close>.\<close>

definition resized :: "blocks \<Rightarrow> nat \<Rightarrow> nat \<Rightarrow> nat \<Rightarrow> kstate \<Rightarrow> heap \<Rightarrow> rt_uint32 \<Rightarrow> kstate \<Rightarrow> heap \<Rightarrow> blocks \<Rightarrow> bool" where
  "resized bs x m want s h r s' h' bs' \<longleftrightarrow> heap_wf h' bs' \<and>
     (if r = 0 then s' = s \<and> h' = h \<and> bs' = bs
      else \<exists>y k. unat r = unat (heap_ptr h) + y \<and> want \<le> k \<and> areas 0 bs' = insert (y, k) (areas 0 bs - {(x, m)}) \<and>
        moved s s' (heap_ptr h + off x) r (min m want) k)"

lemma realloc_moves:
  assumes rdy: "heap_ready s h bs" and x: "(x, m) \<in> areas 0 bs" "0 < m"
    and N: "0 < unat N" "unat N + 3 < 2 ^ 32" and size: "unat sz = m"
  shows "\<exists>nmem h1. rt_malloc N s h = Some (Ret nmem, s, h1) \<and>
     (\<exists>s' h' bs'. realloc_move (heap_ptr h + off x) sz N nmem s h1 = Some (Ret nmem, s', h') \<and> resized bs x m (unat N) s h nmem s' h' bs')"
proof -
  obtain r h1 bs1 where r: "rt_malloc N s h = Some (Ret r, s, h1)" "heap_ready s h1 bs1" "heap_ptr h1 = heap_ptr h"
    and none: "r = 0 \<Longrightarrow> h1 = h \<and> bs1 = bs"
    and some: "r \<noteq> 0 \<Longrightarrow> \<exists>y k. unat r = unat (heap_ptr h) + y \<and> unat N \<le> k \<and> y + k \<le> extent bs \<and>
        (\<forall>(z, l) \<in> areas 0 bs. y + k \<le> z \<or> z + l \<le> y) \<and> areas 0 bs1 = insert (y, k) (areas 0 bs)"
    using malloc_areas [OF rdy N] by (auto split: if_splits)
  have "\<exists>s' h' bs'. realloc_move (heap_ptr h + off x) sz N r s h1 = Some (Ret r, s', h') \<and> resized bs x m (unat N) s h r s' h' bs'"
  proof (cases "r = 0")
    case True
    then have "resized bs x m (unat N) s h r s h bs" using heap_readyD(1) [OF rdy] by (simp add: resized_def)
    then show ?thesis using True none by (auto simp: realloc_move_def)
  next
    case False
    obtain y k where y: "unat r = unat (heap_ptr h) + y" "unat N \<le> k" "y + k \<le> extent bs"
      and apart: "\<And>z l. (z, l) \<in> areas 0 bs \<Longrightarrow> y + k \<le> z \<or> z + l \<le> y" and ar: "areas 0 bs1 = insert (y, k) (areas 0 bs)"
      using some [OF False] by blast
    note C = heap_chainD [OF heap_readyD(5) [OF rdy]]
    have "unat (heap_ptr h + off y) = unat (heap_ptr h) + y"
      using C(5) y(3) by (simp add: off_def unat_word_ariths unat_of_nat)
    then have ry: "r = heap_ptr h + off y" using y(1) by (simp add: word_unat_eq_iff)
    have xm: "x + m \<le> extent bs"
      using areas_bounds [of bs x m 0] x(1) segs_sizes [OF C(1)] by simp
    let ?c = "if sz < N then sz else N"
    have c: "unat ?c = min m (unat N)" using size by (simp add: word_less_nat_alt min_def)
    let ?s = "s\<lparr>k_mem := rt_memcpy r (heap_ptr h + off x) ?c (k_mem s)\<rparr>"
    have fit: "unat (heap_ptr h) + x + unat ?c < 2 ^ 32" "unat (heap_ptr h) + y + unat ?c < 2 ^ 32" "x + unat ?c \<le> y \<or> y + unat ?c \<le> x"
      using C(5) xm y(2,3) apart [OF x(1)] unfolding c by auto
    note M = copy_to_area [OF fit, of _ "k_mem s", folded ry]
    have mv: "moved s ?s (heap_ptr h + off x) r (min m (unat N)) k"
      unfolding moved_def using M c y(1,2) by auto
    have "(x, m) \<in> areas 0 bs1" using ar x(1) by simp
    then obtain h' bs' where f: "rt_free (heap_ptr h1 + off x) ?s h1 = Some (Ret (), ?s, h')" "heap_ready ?s h' bs'"
      "areas 0 bs' = areas 0 bs1 - {(x, m)}"
      using free_areas [of ?s h1 bs1 x m] r(2) x(2) by auto
    have "(y, k) \<noteq> (x, m)" using apart [OF x(1)] x(2) by auto
    then have "areas 0 bs' = insert (y, k) (areas 0 bs - {(x, m)})" using f(3) ar by auto
    then have "resized bs x m (unat N) s h r ?s h' bs'"
      unfolding resized_def using False heap_readyD(1) [OF f(2)] y(1,2) mv by auto
    moreover have "realloc_move (heap_ptr h + off x) sz N r s h1 = Some (Ret r, ?s, h')"
      using False f(1) r(3) by (simp add: realloc_move_def)
    ultimately show ?thesis by blast
  qed
  then show ?thesis using r(1) by blast
qed

lemma heap_split_ptr [simp]: "heap_ptr (heap_split a b f h) = heap_ptr h"
  by (simp add: heap_split_def Let_def)

lemma realloc_shrinks:
  assumes rdy: "heap_ready s h (us @ (n, True) # vs)" and N: "0 < unat N" "4 dvd unat N" "unat N + 36 < n"
  defines "p \<equiv> heap_ptr h + off (extent us) + 12"
  shows "\<exists>h' bs'. realloc_locked p N (upd_sem (heap_sem h) (\<lambda>v. v - 1) s) h = Some (Ret p, s, h') \<and>
     resized (us @ (n, True) # vs) (extent us + 12) (n - 12) (unat N) s h p s h' bs'"
proof -
  note R = heap_readyD [OF rdy]
  note A = block_address [OF R(5)] and H = header_at [OF R(5)] and C = heap_chainD [OF R(5)]
  let ?B = "heap_ptr h" and ?a = "extent us" and ?k = "unat N + 12" and ?bs = "us @ (n, True) # vs"
  have k: "12 \<le> ?k" "4 dvd ?k" "?k + 12 \<le> n" using N by simp_all
  obtain h' where h': "plug_holes (?B + off (?a + ?k)) (heap_split (off ?a) (off (?a + ?k)) (\<lambda>m. m) (h\<lparr>used_mem := used_mem h - off (n - ?k)\<rparr>)) = Some h'"
    "heap_wf h' (merged (us @ [(?k, True)]) (n - ?k) vs)" "heap_sem h' = heap_sem h"
    using heap_shrink [OF R(1) k] by blast
  have sz: "off (?a + n) - off ?a - 12 = off (n - 12)" and ptr2: "off ?a + 12 + N = off (?a + ?k)"
    and less: "off (n - 12) - N = off (n - ?k)" using k(3) by (simp_all add: off_def of_nat_diff)
  have "N + 12 + 12 = off (unat N + 24)" by (simp add: off_def)
  then have test: "N + 12 + 12 < off (n - 12)" "off (n - 12) \<noteq> N" using C(7) N(3) by (auto simp: word_less_nat_alt word_unat_eq_iff)
  have run: "realloc_locked p N (upd_sem (heap_sem h) (\<lambda>v. v - 1) s) h = Some (Ret p, s, h')"
  proof -
    have "\<not> (p < ?B \<or> heap_end h \<le> p)" using A(9,10) N(3) by (auto simp: p_def not_less not_le)
    moreover have "p - 12 = ?B + off ?a" "?B + off ?a - ?B = off ?a" by (simp_all add: p_def)
    ultimately show ?thesis
      using h'(1) heap_sem_release [OF R(3) h'(3)] test
      by (simp add: realloc_locked_def Let_def H(1) sz less ptr2)
  qed
  have "areas 0 (merged (us @ [(?k, True)]) (n - ?k) vs) = insert (?a + 12, unat N) (areas 0 ?bs - {(?a + 12, n - 12)})"
    using areas_apart [OF R(5), of "?a + 12" "n - 12"] k(3) by (auto simp: areas_merged areas_append)
  moreover have "p \<noteq> 0" "unat p = unat ?B + (?a + 12)" using A(2,6) by (simp_all add: p_def)
  moreover have "moved s s (?B + off (?a + 12)) p (min (n - 12) (unat N)) (unat N)"
    unfolding p_def A(7) by (rule moved_refl)
  ultimately have "resized ?bs (?a + 12) (n - 12) (unat N) s h p s h' (merged (us @ [(?k, True)]) (n - ?k) vs)"
    unfolding resized_def using h'(2) by auto
  then show ?thesis using run by blast
qed

lemma realloc_locked_resizes:
  assumes rdy: "heap_ready s h (us @ (n, True) # vs)" and n: "12 < n"
    and N: "0 < unat N" "4 dvd unat N" "unat N \<le> unat (mem_size_aligned h)"
  defines "p \<equiv> heap_ptr h + off (extent us) + 12"
  shows "\<exists>r s' h' bs'. realloc_locked p N (upd_sem (heap_sem h) (\<lambda>v. v - 1) s) h = Some (Ret r, s', h') \<and>
     resized (us @ (n, True) # vs) (extent us + 12) (n - 12) (unat N) s h r s' h' bs'"
proof -
  note R = heap_readyD [OF rdy]
  note A = block_address [OF R(5)] and H = header_at [OF R(5)] and C = heap_chainD [OF R(5)]
  let ?bs = "us @ (n, True) # vs" and ?a = "extent us"
  have inside: "\<not> (p < heap_ptr h \<or> heap_end h \<le> p)" using A(9,10) n by (auto simp: p_def not_less not_le)
  have hdr: "p - 12 = heap_ptr h + off ?a" "heap_ptr h + off ?a - heap_ptr h = off ?a" by (simp_all add: p_def)
  have sz: "off (?a + n) - off ?a - 12 = off (n - 12)" using H(2) by (simp add: off_def of_nat_diff)
  have un: "unat (off (n - 12)) = n - 12" using C(7) by simp
  have pp: "heap_ptr h + off (?a + 12) = p" using A(7) by (simp add: p_def)
  have "N + 12 + 12 = off (unat N + 24)" by (simp add: off_def)
  moreover have "unat N + 24 < 2 ^ 32" using N(3) C(2,5) by linarith
  ultimately have test: "N + 12 + 12 < off (n - 12) \<longleftrightarrow> unat N + 36 < n" using un by (auto simp: word_less_nat_alt)
  note call = realloc_locked_def [of p N "upd_sem (heap_sem h) (\<lambda>v. v - 1) s" h]
  note rel = heap_sem_release [OF R(3) refl]
  consider (same) "off (n - 12) = N" | (shrink) "unat N + 36 < n" | (move) "off (n - 12) \<noteq> N" "\<not> unat N + 36 < n" by blast
  then show ?thesis
  proof cases
    case same
    have "areas 0 ?bs = insert (?a + 12, n - 12) (areas 0 ?bs - {(?a + 12, n - 12)})" by (auto simp: areas_append)
    moreover have "moved s s (heap_ptr h + off (?a + 12)) p (min (n - 12) (unat N)) (n - 12)"
      unfolding pp by (rule moved_refl)
    ultimately have "resized ?bs (?a + 12) (n - 12) (unat N) s h p s h ?bs"
      unfolding resized_def using R(1) A(2,6) un same by (auto simp: p_def)
    moreover have "realloc_locked p N (upd_sem (heap_sem h) (\<lambda>v. v - 1) s) h = Some (Ret p, s, h)"
      using inside rel same by (simp add: call Let_def hdr H(1) sz)
    ultimately show ?thesis by blast
  next
    case shrink
    then show ?thesis using realloc_shrinks [OF rdy N(1,2)] by (auto simp: p_def)
  next
    case move
    have x: "(?a + 12, n - 12) \<in> areas 0 ?bs" by (simp add: areas_append)
    have small: "unat N + 3 < 2 ^ 32" using N(3) C(2,5) by linarith
    obtain r h1 s' h' bs' where r: "rt_malloc N s h = Some (Ret r, s, h1)"
      "realloc_move p (off (n - 12)) N r s h1 = Some (Ret r, s', h')" "resized ?bs (?a + 12) (n - 12) (unat N) s h r s' h' bs'"
      using realloc_moves [OF rdy x _ N(1) small un] n unfolding pp by auto
    have "realloc_locked p N (upd_sem (heap_sem h) (\<lambda>v. v - 1) s) h = Some (Ret r, s', h')"
      using inside rel move test r(1,2) by (simp add: call Let_def hdr H(1) sz)
    then show ?thesis using r(3) by blast
  qed
qed

text \<open>A size that aligns to 0 releases the area.\<close>

lemma realloc_frees:
  assumes rdy: "heap_ready s h bs" and x: "(x, m) \<in> areas 0 bs" "0 < m"
    and sz: "unat newsize = 0 \<or> 2 ^ 32 \<le> unat newsize + 3"
  shows "\<exists>h' bs'. rt_realloc (heap_ptr h + off x) newsize s h = Some (Ret 0, s, h') \<and> heap_ready s h' bs' \<and>
     areas 0 bs' = areas 0 bs - {(x, m)}"
proof -
  have "RT_ALIGN newsize 4 = 0"
    using sz align_wraps(1) [of newsize] by (auto simp: RT_ALIGN_def unat_eq_0)
  moreover have "rt_debug_not_in_interrupt s = Some ()"
    using heap_readyD(3) [OF rdy] by (simp add: heap_idle_def rt_debug_not_in_interrupt_def rt_interrupt_get_nest_def)
  ultimately show ?thesis using free_areas [OF rdy x] by (auto simp: rt_realloc_def)
qed

lemma realloc_areas:
  assumes rdy: "heap_ready s h bs" and x: "(x, m) \<in> areas 0 bs" "0 < m" and sz: "0 < unat newsize" "unat newsize + 3 < 2 ^ 32"
  shows "\<exists>r s' h' bs'. rt_realloc (heap_ptr h + off x) newsize s h = Some (Ret r, s', h') \<and>
     resized bs x m (4 * ((unat newsize + 3) div 4)) s h r s' h' bs'"
proof -
  note R = heap_readyD [OF rdy]
  let ?N = "RT_ALIGN newsize 4" and ?p = "heap_ptr h + off x"
  have N: "unat ?N = 4 * ((unat newsize + 3) div 4)" "0 < unat ?N" "4 dvd unat ?N"
    using unat_align [OF sz(2)] sz(1) by simp_all
  obtain us n vs where bs: "bs = us @ (n, True) # vs" and xm: "x = extent us + 12" "m = n - 12"
    using x(1) by (auto simp: areas_split)
  have p: "?p = heap_ptr h + off (extent us) + 12" by (simp add: xm off_def)
  have irq: "rt_debug_not_in_interrupt s = Some ()"
    using R(3) by (simp add: heap_idle_def rt_debug_not_in_interrupt_def rt_interrupt_get_nest_def)
  show ?thesis
  proof (cases "mem_size_aligned h < ?N")
    case True
    then have "rt_realloc ?p newsize s h = Some (Ret 0, s, h)" using irq by (simp add: rt_realloc_def)
    then show ?thesis using R(1) by (auto simp: resized_def)
  next
    case False
    have "?p \<noteq> 0" unfolding p by (rule block_address(6) [OF R(5) [unfolded bs]])
    moreover have "?N \<noteq> 0" using N(2) by auto
    ultimately have run: "rt_realloc ?p newsize s h = realloc_locked ?p ?N (upd_sem (heap_sem h) (\<lambda>v. v - 1) s) h"
      using False irq heap_sem_take [OF R(3)] by (simp add: rt_realloc_def Let_def)
    have "unat ?N \<le> unat (mem_size_aligned h)" using False by (simp only: not_less word_le_nat_alt)
    then show ?thesis
      using realloc_locked_resizes [OF rdy [unfolded bs] _ N(2,3), folded p bs xm(1)] x(2) xm(2) unfolding run N(1) by auto
  qed
qed

text \<open>
  C20: resizing an allocated area returns.  Asked for 0 bytes, or for one of the three sizes above
  \<^verbatim>\<open>0xFFFFFFFC\<close>, whose alignment wraps to 0, it releases the area and returns a null pointer: exactly this
  area leaves the allocated ones.  For every other size a null pointer means that nothing has
  changed; otherwise the area is exchanged for one of at least the requested length, in place or
  elsewhere, which begins with the bytes of the old area, as many as the shorter of the two has; the
  other areas stay allocated, and no byte outside the new area is written.
\<close>

theorem rt_realloc_keeps_data:
  assumes rdy: "heap_ready s h bs" and x: "(x, m) \<in> areas 0 bs" "0 < m"
  shows "if unat newsize = 0 \<or> 2 ^ 32 \<le> unat newsize + 3
     then \<exists>h' bs'. rt_realloc (heap_ptr h + off x) newsize s h = Some (Ret 0, s, h') \<and> heap_ready s h' bs' \<and>
       areas 0 bs' = areas 0 bs - {(x, m)}
     else \<exists>r s' h' bs'. rt_realloc (heap_ptr h + off x) newsize s h = Some (Ret r, s', h') \<and>
       resized bs x m (4 * ((unat newsize + 3) div 4)) s h r s' h' bs'"
proof (cases "unat newsize = 0 \<or> 2 ^ 32 \<le> unat newsize + 3")
  case True
  then show ?thesis using realloc_frees [OF rdy x True] by (simp only: if_True)
next
  case False
  then have "0 < unat newsize" "unat newsize + 3 < 2 ^ 32" by linarith+
  then show ?thesis using realloc_areas [OF rdy x] False by (simp only: if_False)
qed

end
