(* ===== verification/Witness.thy ===== *)
theory Witness
  imports Sample Clock RingBuffer System Idle Startup HeapCalls
begin

text \<open>
  The properties of the kernel on concrete inputs: each theorem is applied to the sample system or
  to small data, where its hypotheses hold, and its conclusion is read off.
\<close>

section \<open>Data of the sample system\<close>

lemma sample_sems: "sem_abs 0 (sample w) = (0, if w = KSem 0 then [3] else [])"
  "sem_abs 5 (sample w) = (1, if w = KSem 5 then [3] else [])"
  by (simp_all add: sem_abs_def sample_fields)

lemma sample_flags [simp]:
  "oflag (sample w) (KSem i) = 0" "oflag (sample w) (KMutex 0) = 1" "oflag (sample w) (KMutex 5) = 1"
  "oflag (sample w) (KEvent i) = 0" "oflag (sample w) (KMailbox i) = 0" "oflag (sample w) (KMq i) = 0"
  by (simp_all add: sample_fields sample_object_def zero_object_def)

lemma sample_wait_fifo [simp]: "wait_insert s 0 t q = q @ [t]"
  by (simp add: wait_insert_def)

lemma sample_mutexes:
  "mutex_abs 0 (sample w) = (Some (2, 1), if w = KMutex 0 then [3] else [])"
  "mutex_abs 5 (sample w) = (None, if w = KMutex 5 then [3] else [])"
  by (simp_all add: mutex_abs_def sample_fields mutex_start_def)

lemma sample_mutex_ok: "w \<noteq> KMutex 5 \<Longrightarrow> mutex_ok 0 (sample w) \<and> mutex_ok 5 (sample w)"
  by (simp add: mutex_ok_def sample_fields mutex_start_def live_def)

lemma sample_event: "event_abs 0 (sample w) = (0, if w = KEvent 0 then [3] else [])"
  by (simp add: event_abs_def sample_fields)

lemma sample_event_inv: "w \<noteq> KEvent 0 \<Longrightarrow> event_inv 0 (sample w)"
  by (simp add: event_inv_def sample_fields)

lemma sample_mailbox: "mb_ok 0 (sample w)" "mb_abs 0 (sample w) = ([], if w = KMailbox 0 then [3] else [], [])"
  "mb_size (k_mailboxes (sample w) 0) = 2" "mb_entry (k_mailboxes (sample w) 0) = 0"
  using mb_start_wf [of "[0, 0]" 2] by (simp_all add: mb_abs_def sample_fields) (simp_all add: mb_start_def)

lemma sample_mq: "mq_ok 0 (sample w)" "mq_abs 0 (sample w) = ([], if w = KMq 0 then [3] else [], [])"
  "mq_msg_size (k_mqs (sample w) 0) = 4" "mq_max_msgs (k_mqs (sample w) 0) = 2"
  using mq_start_wf [of 2 "\<lambda>_. [0, 0, 0, 0]" 4] mq_start_rep(2,3) [of 4 2 "\<lambda>_. [0, 0, 0, 0]"]
  by (simp_all add: mq_abs_def sample_fields)

lemma sample_mp: "mp_rep 0 (sample w) [0x1000, 0x100C]"
proof -
  have "mp_blocks sample_pool = [0x1000, 0x100C]" by (simp add: mp_blocks_def mp_block_def sample_pool_def upt_conv_Cons)
  then show ?thesis
    by (simp add: mp_rep_def sample_fields chain_blocks_def upt_conv_Cons) (simp add: sample_pool_def)
qed

section \<open>Semaphores and mutexes\<close>

theorem rt_sem_take_refines_witness:
  "\<exists>s'. rt_sem_take 0 5 (sample (KSem 0)) = Some (Wait, s') \<and> sys_ok s' \<and> sem_abs 0 s' = (0, [3, 2])"
  using rt_sem_take_refines [of "sample (KSem 0)" 0 2 5] by (auto simp: sample_sems)

theorem rt_sem_release_refines_witness:
  "\<exists>s'. rt_sem_release 0 (sample (KSem 0)) = Some (RT_EOK, s') \<and> sys_ok s' \<and> sem_abs 0 s' = (0, []) \<and>
     runnable (tstat s' 3)"
  using rt_sem_release_refines [of "sample (KSem 0)" 0] by (auto simp: sample_sems)

theorem rt_mutex_take_refines_witness:
  "\<exists>s'. rt_mutex_take 5 0 (sample (KSem 0)) = Some (Ret RT_EOK, s') \<and> sys_ok s' \<and> mutex_abs 5 s' = (Some (2, 1), [])"
  using rt_mutex_take_refines [of "sample (KSem 0)" 5 2 0] by (auto simp: sample_mutexes sample_mutex_ok)

theorem rt_mutex_release_refines_witness:
  "\<exists>s'. rt_mutex_release 0 (sample (KMutex 0)) = Some (RT_EOK, s') \<and> sys_ok s' \<and> mutex_abs 0 s' = (Some (3, 1), [])"
  using rt_mutex_release_refines [of "sample (KMutex 0)" 0 2] by (auto simp: sample_mutexes sample_mutex_ok)

text \<open>Thread 2, of priority 10, waits for the mutex that thread 3, of priority 20, holds.\<close>

definition sample_inherit :: kstate where
  "sample_inherit = (sample (KSem 0))\<lparr>k_mutexes := (\<lambda>_. \<lparr>mtx_value = 0, mtx_original_priority = 20, mtx_hold = 1,
     mtx_owner = Some 3\<rparr>)\<rparr>"


section \<open>Events, mailboxes, message queues and pools\<close>

theorem rt_event_send_no_lost_wakeup_witness:
  "\<exists>s'. rt_event_send 0 4 (sample (KEvent 0)) = Some (RT_EOK, s') \<and> event_inv 0 s' \<and>
     set (snd (event_abs 0 s')) \<subseteq> {3}"
  using rt_event_send_no_lost_wakeup [of "sample (KEvent 0)" 0 4] by (auto simp: sample_event)


theorem mailbox_array_is_queue_witness:
  "fst (run_fifo mb_put mb_get [Put 7, Put 8, Get, Put 9, Get] (mb_start [0, 0] 2)) = [7, 8] \<and>
   mb_content (snd (run_fifo mb_put mb_get [Put 7, Put 8, Get, Put 9, Get] (mb_start [0, 0] 2))) = [9]"
  using mailbox_array_is_queue [of "mb_start [0, 0] 2" "[Put 7, Put 8, Get, Put 9, Get]" "[7, 8]" "[9]"]
    mb_start_wf [of "[0, 0]" 2] by simp

theorem rt_mb_send_wait_refines_witness:
  "\<exists>s'. rt_mb_send_wait 0 42 0 (sample (KMailbox 0)) = Some (Ret RT_EOK, s') \<and> mb_abs 0 s' = ([42], [], []) \<and>
     runnable (tstat s' 3)"
  using rt_mb_send_wait_refines [of "sample (KMailbox 0)" 0 2 0 42] by (auto simp: sample_mailbox)

theorem rt_mb_recv_refines_witness:
  "\<exists>s'. rt_mb_recv 0 9 (sample (KMailbox 0)) = Some (Wait, s') \<and> mb_abs 0 s' = ([], [3, 2], [])"
  using rt_mb_recv_refines [of "sample (KMailbox 0)" 0 2 9] by (auto simp: sample_mailbox)

theorem mailbox_handshake_witness:
  "\<exists>out s' s''. rt_mb_send 0 42 (sample (KMailbox 0)) = Some (out, s') \<and>
     rt_mb_recv_resume 0 0 0 3 s' = Some (Ret (RT_EOK, Some 42), s'') \<and> mb_abs 0 s'' = ([], [], [])"
proof -
  obtain out s' where r: "rt_mb_send 0 42 (sample (KMailbox 0)) = Some (out, s')"
    using mb_send_loop_room [of "sample (KMailbox 0)" 0 42 0] rt_mb_send_wait_room [of "sample (KMailbox 0)" 0 42 0]
      sample_mailbox [of "KMailbox 0"] by (auto simp: rt_mb_send_def mb_abs_def)
  then show ?thesis
    using mailbox_handshake [of "sample (KMailbox 0)" 0 3 "[]" "[]" 42 out s' 0 0] sample_fields(23) [of "KMailbox 0"]
    by (auto simp: sample_mailbox)
qed

theorem message_chain_is_queue_witness:
  "fst (run_fifo mq_put mq_get [Put [1, 2, 3, 4], Put [5, 6, 7, 8], Get] (mq_start 4 2 (\<lambda>_. [0, 0, 0, 0]))) = [[1, 2, 3, 4]]"
  using message_chain_is_queue [of "mq_start 4 2 (\<lambda>_. [0, 0, 0, 0])" "[Put [1, 2, 3, 4], Put [5, 6, 7, 8], Get]"
      "[[1, 2, 3, 4]]" "[[5, 6, 7, 8]]"]
    mq_start_wf [of 2 "\<lambda>_. [0, 0, 0, 0]" 4] mq_start_rep(2,3) [of 4 2 "\<lambda>_. [0, 0, 0, 0]"]
  by auto

theorem rt_mq_send_wait_refines_witness:
  "\<exists>s'. rt_mq_send_wait 0 [1, 2] 0 (sample (KMq 0)) = Some (Ret RT_EOK, s') \<and> mq_abs 0 s' = ([[1, 2, 0, 0]], [], []) \<and>
     runnable (tstat s' 3)"
proof -
  have "mq_sent [1, 2] (k_mqs (sample (KMq 0)) 0) = [1, 2, 0, 0]"
    by (simp add: sample_fields mq_sent_def mq_start_def mq_release_def upt_conv_Cons)
  then show ?thesis using rt_mq_send_wait_refines [of "sample (KMq 0)" 0 2 "[1, 2]" 0] by (auto simp: sample_mq)
qed


theorem rt_mq_urgent_next_witness:
  "\<exists>s' s''. rt_mq_urgent 0 [1, 2, 3] (sample (KSem 0)) = Some (RT_EOK, s') \<and>
     rt_mq_recv 0 2 0 s' = Some (Ret (RT_EOK, Some [1, 2]), s'') \<and> mq_content (k_mqs s'' 0) = []"
  using rt_mq_urgent_next [of "sample (KSem 0)" 0 "[1, 2, 3]" 2 0] sample_mq [of "KSem 0"]
  by (auto simp: mq_abs_def)

theorem rt_mp_alloc_conserves_witness:
  "\<exists>s'. rt_mp_alloc 0 0 (sample (KSem 0)) = Some (Ret 0x1004, s') \<and> mp_rep 0 s' [0x100C] \<and>
     0x1000 \<in> mp_allocated 0 s'"
  using rt_mp_alloc_conserves [of "sample (KSem 0)" 0 2 "[0x1000, 0x100C]" 0] by (auto simp: sample_mp sample_fields)

section \<open>Lists, strings, timers and threads\<close>

theorem rt_list_refines_table_witness:
  "rings (run_nodes (\<lambda>h n. rt_list_insert_before (Head h) (Node n)) (\<lambda>h n. rt_list_insert_after (Head h) (Node n))
     (\<lambda>k n. rt_list_insert_before (Node k) (Node n)) (\<lambda>n. rt_list_remove (Node n))
     [Append () (7 :: nat), Push () 8, Before () 7 9, Unlink 8] (\<lambda>a. \<lparr>nxt = a, prv = a\<rparr>)) (\<lambda>_. [9, 7])"
proof -
  have t: "run_table [Append () (7 :: nat), Push () 8, Before () 7 9, Unlink 8] (\<lambda>_. []) (\<lambda>_. [9, 7])"
  proof (intro run_append run_push run_before [where h = "()"] run_unlink)
    show "run_table [] (tbl_remove 8 (tbl_insert_before 7 9 (tbl_push () 8 (tbl_append () (7 :: nat) (\<lambda>_. []))))) (\<lambda>_. [9, 7])"
      using run_done [of "\<lambda>_ :: unit. [9, 7 :: nat]"]
      by (simp add: tbl_remove_def tbl_insert_before_def tbl_push_def tbl_append_def)
  qed (simp_all add: unlinked_def tbl_push_def tbl_append_def)
  have "rings (\<lambda>a. \<lparr>nxt = a, prv = a\<rparr>) (\<lambda>_ :: unit. [] :: nat list)"
    by (simp add: rings_def table_wf_def ring_def)
  from rt_list_refines_table [OF this t] show ?thesis by simp
qed

theorem rt_strstr_finds_first_witness:
  "0 \<notin> set [7, 8, 7, 8, 9 :: rt_uint8] \<and> rt_strstr [7, 8, 7, 8, 9] [7, 8, 9] = Some 2 \<and>
   occurs_at [7, 8, 7, 8, 9] [7, 8, 9] 2 \<and> \<not> occurs_at [7, 8, 7, 8, 9] [7, 8, 9] 0"
proof -
  have "rt_strstr [7, 8, 7, 8, 9] [7, 8, 9] = Some 2" by code_simp
  then show ?thesis using rt_strstr_finds_first [of "[7, 8, 7, 8, 9]" "[7, 8, 9]"] by simp
qed

theorem timer_insert_stable_witness:
  "timers_ordered 0xFFFFFFFE (\<lambda>t. if t = UserTimer 0 then 0xFFFFFFFF else 3)
     (timer_insert (\<lambda>t. if t = UserTimer 0 then 0xFFFFFFFF else 3) (UserTimer 2) [UserTimer 0, UserTimer 1])"
  using timer_insert_stable [of "0xFFFFFFFE" "\<lambda>t. if t = UserTimer 0 then 0xFFFFFFFF else 3" "[UserTimer 0, UserTimer 1]" "UserTimer 2"]
  by (simp add: timers_ordered_def in_window_def toff_def)

theorem rt_ffs_lowest_bit_witness: "rt_ffs 0x28 = rt_ffs_table 0x28 \<and> bit (0x28 :: rt_uint32) (rt_ffs 0x28 - 1)"
  using rt_ffs_lowest_bit [of "0x28"] by simp

text \<open>The block at \<open>0x1000\<close> is allocated, the one at \<open>0x100C\<close> is free, and thread 3 waits for a block.\<close>

definition sample_used :: kstate where
  "sample_used = (sample (KMemPool 0))\<lparr>k_pools := (\<lambda>_. sample_pool\<lparr>mp_block_list := MpBlock 0x100C, mp_block_free_count := 1\<rparr>),
     k_links := (\<lambda>_. MpNull)(0x1000 := MpPool 0)\<rparr>"

theorem rt_mp_free_conserves_witness:
  "\<exists>s'. rt_mp_free 0x1004 sample_used = Some s' \<and> mp_rep 0 s' [0x1000, 0x100C] \<and> runnable (tstat s' 3)"
proof -
  have "mp_blocks (sample_pool\<lparr>mp_block_list := MpBlock 0x100C, mp_block_free_count := 1\<rparr>) = [0x1000, 0x100C]"
    by (simp add: mp_blocks_def mp_block_def sample_pool_def upt_conv_Cons)
  then have "mp_rep 0 sample_used [0x100C]" "0x1000 \<in> mp_allocated 0 sample_used" "sys_ok sample_used"
    "k_tlists sample_used (Susp (KMemPool 0)) = [3]"
    by (simp_all add: mp_rep_def mp_allocated_def sample_used_def sample_fields insert_Diff_if)
  then show ?thesis using rt_mp_free_conserves [of sample_used 0 "[0x100C]" "0x1000"] by auto
qed

theorem rt_mp_init_all_free_witness:
  "\<exists>e s'. rt_mp_init 7 [112] 0x2000 40 8 (sample (KSem 0)) = Some (e, s') \<and>
     mp_rep 7 s' (mp_blocks (k_pools s' 7)) \<and> mp_allocated 7 s' = {}"
proof -
  obtain s1 where "rt_object_init (KMemPool 7) RT_Object_Class_MemPool [112] (sample (KSem 0)) = Some s1"
    using object_init_total [of "sample (KSem 0)" "KMemPool 7"] by (auto simp: sample_fields)
  then obtain e s' where "rt_mp_init 7 [112] 0x2000 40 8 (sample (KSem 0)) = Some (e, s')"
    "0 < mp_block_total_count (k_pools s' 7)"
    by (simp add: rt_mp_init_def RT_ALIGN_def RT_ALIGN_DOWN_def Let_def)
  then show ?thesis using rt_mp_init_all_free [of "sample (KSem 0)" 7 "[112]" "0x2000" 40 8 e s'] sys_okD(1) by auto
qed

theorem rt_schedule_highest_witness:
  "\<exists>s' t. rt_schedule (sample (KSem 0)) = Some s' \<and> sys_ok s' \<and> k_current s' = Some t \<and> tstat s' t = RT_THREAD_RUNNING"
  using rt_schedule_highest [of "sample (KSem 0)" 2] by (auto simp: sample_fields)

lemma callback_skip: "callback_ok (\<lambda>_ _ s. Some s)"
  by (simp add: callback_ok_def timers_same_less timers_same_def)

theorem rt_tick_increase_safe_witness:
  "\<exists>s'. rt_tick_increase (\<lambda>_ _ s. Some s) (sample (KSem 0)) = Some s' \<and> sys_ok s' \<and> k_tick s' = 1"
  using rt_tick_increase_safe [of "sample (KSem 0)" "\<lambda>_ _ s. Some s" 0] callback_skip
  by (auto simp: periods_ok_def window_ok_def timers_ordered_def in_window_def toff_def sample_fields sample_object_def)

theorem rt_thread_sleep_arms_timer_witness:
  "\<exists>s'. rt_thread_sleep 100 (sample (KSem 0)) = Some (Wait, s') \<and> sys_ok s' \<and> tstat s' 2 = RT_THREAD_SUSPEND \<and>
     ThreadTimer 2 \<in> set (k_tmlists s' HardTimers) \<and> timeout s' (ThreadTimer 2) = 100"
  using rt_thread_sleep_arms_timer [of "sample (KSem 0)" 2 100] by (auto simp: sample_fields)

theorem time_slice_rotates_witness:
  "\<exists>s'. rt_tick_increase (\<lambda>_ _ s. Some s) sample_slice = Some s' \<and> sys_ok s' \<and> k_current s' = Some 3 \<and>
     k_tlists s' (Ready 10) = [2] \<and> th_remaining_tick (thread s' 2) = 10"
proof -
  have "k_current sample_slice = Some 2" "k_lock_nest sample_slice = 0" "k_tmlists sample_slice HardTimers = []"
    "k_tlists sample_slice (Ready 10) = [3]" "\<forall>q < 10. k_tlists sample_slice (Ready q) = []"
    "th_remaining_tick (thread sample_slice 2) = 1" "th_init_tick (thread sample_slice 2) = 10"
    by (simp_all add: sample_slice_def sample_fields sample_thread_def)
  then show ?thesis
    using time_slice_rotates [of sample_slice 2 3 "[]" "\<lambda>_ _ s. Some s"] sample_slice_ok sample_slice_stat by auto
qed

theorem rt_object_find_after_init_witness:
  "\<exists>s' s''. rt_object_init (KSem 9) RT_Object_Class_Semaphore [108, 111, 99, 107] (sample (KSem 0)) = Some s' \<and>
     rt_object_find (Some [108, 111, 99, 107]) RT_Object_Class_Semaphore s' = Some (Some (KSem 9), s'')"
proof -
  obtain s' where s': "rt_object_init (KSem 9) RT_Object_Class_Semaphore [108, 111, 99, 107] (sample (KSem 0)) = Some s'"
    "sys_ok s'" "k_irq_nest s' = 0"
    using object_init_total [of "sample (KSem 0)" "KSem 9" "[108, 111, 99, 107]"] by (auto simp: sample_fields)
  then show ?thesis using rt_object_find_after_init [OF s' refl] by blast
qed

theorem rt_thread_init_frame_witness:
  "\<exists>e s'. rt_thread_init 4 [116] 0x8000 7 0x20000000 0x200 12 5 zero_state = Some (e, s') \<and>
     load32 (k_mem s') (th_sp (thread s' 4) + 56) = 0x8000 \<and> stack_ok s' 4"
proof -
  obtain sp m where "rt_hw_stack_init 0x8000 7 (0x20000000 + 0x200 - 4) 0 (fill_bytes 0x20000000 0x23 0x200 (\<lambda>_. 0)) = (sp, m)"
    by force
  then obtain e s' where "rt_thread_init 4 [116] 0x8000 7 0x20000000 0x200 12 5 zero_state = Some (e, s')"
    by (simp add: rt_thread_init_def thread_init_fields_def rt_timer_init_def rt_object_init_def rt_object_get_information_def
        object_container_def rt_exit_critical_def rt_enter_critical_def zero_state_def)
  then show ?thesis
    using rt_thread_init_frame [of 4 "[116]" "0x8000" 7 "0x20000000" "0x200" 12 5 zero_state e s'] by (auto simp: Let_def)
qed

section \<open>Ring buffer\<close>

text \<open>Two of four bytes used, and the content wraps round the end of the array.\<close>

definition sample_ring :: rt_ringbuffer where
  "sample_ring = \<lparr>buffer_ptr = [20, 0, 0, 10], read_mirror = 0, read_index = 3, write_mirror = 1,
     write_index = 1, buffer_size = 4\<rparr>"

lemma sample_ring_facts:
  "rb_wf sample_ring" "rb_cap sample_ring = 4" "rb_count sample_ring = 2" "rb_content sample_ring = [10, 20]"
  "read_mirror sample_ring \<noteq> write_mirror sample_ring"
  by (simp_all add: sample_ring_def rb_wf_def rb_cap_def rb_count_def rb_content_def ring_read_def upt_conv_Cons)

theorem rt_ringbuffer_put_appends_witness:
  "\<exists>rb. rt_ringbuffer_put [1, 2, 3] 3 sample_ring = (2, rb) \<and> rb_content rb = [10, 20, 1, 2]"
  using rt_ringbuffer_put_appends [of sample_ring 3 "[1, 2, 3]"]
  by (cases "rt_ringbuffer_put [1, 2, 3] 3 sample_ring") (simp add: sample_ring_facts)

theorem rt_ringbuffer_get_takes_witness:
  "\<exists>rb. rt_ringbuffer_get 1 sample_ring = (1, [10], rb) \<and> rb_content rb = [20]"
  using rt_ringbuffer_get_takes [of sample_ring 1] by (auto simp: sample_ring_facts)

theorem rt_ringbuffer_put_force_keeps_newest_witness:
  "\<exists>rb. rt_ringbuffer_put_force [1, 2, 3] 3 sample_ring = (3, rb) \<and> rb_content rb = [20, 1, 2, 3]"
  using rt_ringbuffer_put_force_keeps_newest [of sample_ring 3 "[1, 2, 3]"]
  by (cases "rt_ringbuffer_put_force [1, 2, 3] 3 sample_ring") (simp add: sample_ring_facts)

theorem rt_ringbuffer_putchar_force_drops_oldest_witness:
  "\<exists>rb. rt_ringbuffer_putchar_force 7 sample_ring = (1, rb) \<and> rb_content rb = [10, 20, 7]"
  using rt_ringbuffer_putchar_force_drops_oldest [of sample_ring 7]
  by (cases "rt_ringbuffer_putchar_force 7 sample_ring") (simp add: sample_ring_facts)

section \<open>The state machine\<close>

lemma callbacks_skip: "callbacks_ok (\<lambda>_ _ s. Some s)"
  using callback_skip by (simp add: callbacks_ok_def)

lemma sample_timer_rules: "timer_rules (sample w)"
proof -
  have 1: "x = ThreadTimer u" if "tm_func (k_timers (sample w) x) = TF_thread_timeout u" for x u
    using that by (cases x) (simp_all add: sample_defs)
  have 2: "periods_ok (sample w)" "tflag (sample w) (ThreadTimer u) AND 2 = 0" for u
    by (simp_all add: periods_ok_def sample_fields sample_object_def zero_object_def)
  show ?thesis unfolding timer_rules_def using 1 2 by blast
qed

lemma sample_system: "system_inv (sample (KSem 0))"
proof -
  let ?K = "{KSem 0, KSem 5, KMutex 0, KMutex 5, KEvent 0, KMailbox 0, KMq 0, KMemPool 0}"
  have 1: "object_inv k (sample (KSem 0))" if "k \<in> ?K" for k
    using that sample_mutex_ok [of "KSem 0"] sample_event_inv [of "KSem 0"] sample_mailbox(1) sample_mq(1)
    by (auto simp: sample_fields)
  have 2: "k \<in> ?K" if "ipc_object_ok k (sample (KSem 0))" for k
    using that by (cases k) (simp_all add: ipc_object_ok_def sample_fields)
  have 3: "sys_ok (sample (KSem 0))" by simp
  show ?thesis unfolding system_inv_def using 1 2 3 sample_timer_rules by blast
qed

lemma sample_allowed: "allowed (SemRelease 0) (sample (KSem 0))"
  by simp

theorem reachable_never_stuck_witness:
  "\<exists>s s'. exec (\<lambda>_ _ s. Some s) (SemRelease 0) (sample (KSem 0)) = Some s \<and>
     exec (\<lambda>_ _ s. Some s) Tick s = Some s' \<and> system_inv s'"
proof -
  note R = reachable_never_stuck [OF _ sample_system callbacks_skip]
  obtain s where s: "exec (\<lambda>_ _ s. Some s) (SemRelease 0) (sample (KSem 0)) = Some s"
    using R [OF reachable.start sample_allowed] by blast
  have "reachable (\<lambda>_ _ s. Some s) (sample (KSem 0)) s"
    by (rule reachable.call [OF reachable.start sample_allowed s])
  then show ?thesis using R [of s Tick] s by auto
qed

theorem reachable_no_lost_wakeup_witness:
  "\<exists>s. exec (\<lambda>_ _ s. Some s) (SemRelease 5) (sample (KSem 0)) = Some s \<and>
     (snd (sem_abs 0 s) \<noteq> [] \<longrightarrow> fst (sem_abs 0 s) = 0)"
proof -
  have a: "allowed (SemRelease 5) (sample (KSem 0))" by simp
  obtain s where s: "exec (\<lambda>_ _ s. Some s) (SemRelease 5) (sample (KSem 0)) = Some s"
    using exec_system [OF sample_system callbacks_skip a] by blast
  have "reachable (\<lambda>_ _ s. Some s) (sample (KSem 0)) s" by (rule reachable.call [OF reachable.start a s])
  note L = reachable_no_lost_wakeup [OF this sample_system callbacks_skip]
  have "ipc_object_ok (KSem 0) s"
    using s step_ok_sem_release [of 5 "sample (KSem 0)"] object_ok_touches [of "{KSem 5}" "sample (KSem 0)" s "KSem 0"]
    by (auto simp: step_ok_def)
  then show ?thesis using L s by blast
qed

section \<open>The idle thread\<close>

text \<open>Thread 3 of the sample system ends while it has a clean-up function.\<close>

lemma sample_ended:
  "\<exists>s. rt_thread_detach 3 (upd_thread 3 (\<lambda>th. th\<lparr>th_cleanup := Some 7\<rparr>) (sample (KSem 0))) = Some (RT_EOK, s) \<and>
     sys_ok s \<and> k_irq_nest s = 0 \<and> k_tlists s Defunct = [3] \<and> rt_object_is_systemobject (KThread 3) s"
proof -
  let ?s0 = "upd_thread 3 (\<lambda>th. th\<lparr>th_cleanup := Some 7\<rparr>) (sample (KSem 0))"
  have ok0: "sys_ok ?s0" by (rule sys_ok_upd_frame) (simp_all add: stat_of_def)
  have F: "k_objs ?s0 = sample_object" "k_olists ?s0 = sample_objects" "tstat ?s0 3 = 2" "tprio ?s0 3 = 20"
    "th_cleanup (thread ?s0 3) = Some 7" "k_current ?s0 = Some 2" "k_irq_nest ?s0 = 0" "k_tlists ?s0 Defunct = []"
    by (simp_all add: sample_fields stat_of_def)
  obtain s1 where s1: "rt_schedule_remove_thread 3 ?s0 = Some s1" "k_tlists s1 = tbl_remove 3 (k_tlists ?s0)"
    "k_threads s1 = k_threads ?s0" "k_objs s1 = k_objs ?s0" "k_olists s1 = k_olists ?s0" "k_timers s1 = k_timers ?s0"
    "k_current s1 = k_current ?s0" "k_irq_nest s1 = k_irq_nest ?s0" "k_mem s1 = k_mem ?s0"
    using F(4) by (simp add: rt_schedule_remove_thread_def Let_def)
  let ?s2 = "rt_object_detach (KTimer (ThreadTimer 3)) (timer_remove (ThreadTimer 3) s1)"
  let ?s3 = "upd_thread 3 (\<lambda>th. th\<lparr>th_stat := RT_THREAD_CLOSE\<rparr>) ?s2"
  let ?fin = "?s3\<lparr>k_tlists := tbl_push Defunct 3 (k_tlists ?s3)\<rparr>"
  have G: "k_objs ?s3 = (sample_object)(KTimer (ThreadTimer 3) := (sample_object (KTimer (ThreadTimer 3)))\<lparr>o_type := 0\<rparr>)"
    "th_cleanup (thread ?s3 3) = Some 7" "k_tlists ?s3 = tbl_remove 3 (k_tlists ?s0)"
    using F(1,5) s1(2-4) by (simp_all add: rt_object_detach_def Let_def upd_obj_def)
  have sys: "rt_object_is_systemobject (KThread 3) ?s3"
    unfolding rt_object_is_systemobject_def G(1) by (simp add: sample_object_def)
  then have c: "close_or_defunct 3 ?s3 = ?fin" using G(2) by (simp add: close_or_defunct_def)
  have "rt_timer_detach (ThreadTimer 3) s1 = Some (RT_EOK, ?s2)"
    using s1(4) F(1) by (simp add: rt_timer_detach_def rt_object_get_type_def rt_object_is_systemobject_def Let_def)
      (simp add: sample_object_def)
  moreover have "rt_object_get_type (KThread 3) ?s0 = RT_Object_Class_Thread \<and> rt_object_is_systemobject (KThread 3) ?s0"
    using F(1) by (simp add: rt_object_get_type_def rt_object_is_systemobject_def) (simp add: sample_object_def)
  ultimately have r: "rt_thread_detach 3 ?s0 = Some (RT_EOK, ?fin)"
    using F(3) s1(1) c by (simp add: rt_thread_detach_def Let_def)
  obtain s where s: "rt_thread_detach 3 ?s0 = Some (RT_EOK, s)" "k_current s = k_current ?s0" "k_irq_nest s = 0"
    "k_tlists s Defunct = [3]" "k_mem s = k_mem ?s0" "rt_object_is_systemobject (KThread 3) s"
    "k_threads s = (k_threads ?s0)(3 := (thread ?s0 3)\<lparr>th_stat := RT_THREAD_CLOSE\<rparr>)"
    "k_timers s = k_timers ?s0" "k_olists s = tbl_remove (KTimer (ThreadTimer 3)) sample_objects"
    "k_objs s = (sample_object)(KTimer (ThreadTimer 3) := (sample_object (KTimer (ThreadTimer 3)))\<lparr>o_type := 0\<rparr>)"
  proof (rule that [OF r])
    show "rt_object_is_systemobject (KThread 3) ?fin" using sys by (simp add: rt_object_is_systemobject_def)
  qed (use F s1 G in \<open>simp_all add: rt_object_detach_def Let_def upd_obj_def upd_thread_def tbl_push_def tbl_remove_def timer_remove_def\<close>)
  have "kinv {} s" by (rule kinv_thread_detach [OF sys_okD(2) [OF ok0] s(1)])
  moreover have "ttimers_ok s"
    using sys_okD(4) [OF ok0] unfolding ttimers_ok_def s(8,9,10) F(1,2) by auto
  moreover have "stack_ok s t" if "live (tstat s t)" for t
    using that sys_okD(5) [OF ok0, of t] unfolding s(7) stack_ok_def scheduler_stack_check_def s(5)
    by (auto simp: live_def stat_of_def split: if_splits)
  ultimately have "sys_ok s" using ok0 s(2,7) F(6) by (auto simp: sys_ok_def kernel_ok_def)
  then show ?thesis using s by blast
qed

theorem rt_thread_idle_excute_cleans_witness:
  "\<exists>s s'. rt_thread_detach 3 (upd_thread 3 (\<lambda>th. th\<lparr>th_cleanup := Some 7\<rparr>) (sample (KSem 0))) = Some (RT_EOK, s) \<and>
     rt_thread_idle_excute (\<lambda>_ _ s. Some s) s = Some s' \<and> sys_ok s' \<and> k_tlists s' Defunct = [] \<and> \<not> listed (KThread 3) s'"
proof -
  obtain s where s: "rt_thread_detach 3 (upd_thread 3 (\<lambda>th. th\<lparr>th_cleanup := Some 7\<rparr>) (sample (KSem 0))) = Some (RT_EOK, s)"
    "sys_ok s" "k_irq_nest s = 0" "k_tlists s Defunct = [3]" "rt_object_is_systemobject (KThread 3) s"
    using sample_ended by blast
  have "left_over s = []" using s(4,5) by (simp add: left_over_def)
  moreover have "cleanup_ok (\<lambda>_ _ s. Some s)" by (simp add: cleanup_ok_def)
  ultimately show ?thesis using rt_thread_idle_excute_cleans [OF s(2) _ s(3), of "\<lambda>_ _ s. Some s"] s(1,4) by auto
qed

theorem rt_thread_idle_hooks_witness:
  "rt_thread_idle_sethook (Some 7) [Some (3 :: nat), None] = (RT_EOK, [Some 3, Some 7]) \<and>
   rt_thread_idle_delhook (Some 7) [Some (3 :: nat), None] = (- RT_ENOSYS, [Some 3, None])"
  using rt_thread_idle_hooks [of "[Some 3, None]" "Some 7"] by simp

section \<open>Start\<close>

definition sample_layout :: boot_layout where
  "sample_layout = \<lparr>main_entry = 0x08001000, main_alloc = Some 2, main_stack = Some 0x20004000,
     timer_entry = 0x08002000, timer_stack = 0x20001000, idle_thread = 0, idle_entry = 0x08003000, idle_stack = 0x20002000\<rparr>"

lemma zero_state_ready: "board_ready zero_state"
proof -
  have s: "sched_inv {} zero_state"
    by (rule sched_invI) (simp_all add: zero_state_def table_wf_def prio_ok_def zero_thread_def stat_of_def)
  have "timers_inv {} zero_state" "reg_inv {} zero_state" "objs_wf zero_state" "ttimers_ok zero_state"
    by (simp_all add: timers_inv_def reg_inv_def objs_wf_def ttimers_ok_def zero_state_def table_wf_def unlinked_def
        stat_of_def zero_thread_def zero_object_def)
  then have "kernel_ok zero_state" using s by (simp add: kernel_ok_def kinv_def)
  moreover have "timer_rules zero_state"
    by (simp add: timer_rules_def periods_ok_def zero_state_def zero_timer_def zero_object_def)
  ultimately show ?thesis
    by (simp add: board_ready_def boot_inv_def ipc_object_ok_def zero_state_def live_def stat_of_def zero_thread_def)
qed

theorem rtthread_startup_system_witness:
  "\<exists>s'. rtthread_startup Some sample_layout zero_state = Some s' \<and> system_inv s' \<and> k_current s' = Some 1 \<and>
     tprio s' 1 = 4 \<and> k_tlists s' = (\<lambda>_. [])(Ready 10 := [2], Ready 31 := [0])"
  using rtthread_startup_system [of Some zero_state zero_state sample_layout 2 "0x20004000"] zero_state_ready
  by (simp add: sample_layout_def) (simp add: zero_state_def)

section \<open>Heap\<close>

text \<open>A heap at \<open>0x20002000\<close> with a used block of 24 bytes and a free one of 88 behind it; its semaphore is 5.\<close>

definition sample_blocks :: blocks where
  "sample_blocks = [(36, True), (100, False)]"

definition sample_heap :: heap where
  "sample_heap = \<lparr>h_hdr = (\<lambda>_. heap_header 136 136 0 True)(0x20002000 := heap_header 0 0 36 True, 0x20002024 := heap_header 0 36 100 False),
     heap_ptr = 0x20002000, heap_end = 0x20002088, lfree = 0x20002024, heap_sem = 5, mem_size_aligned = 124,
     used_mem = 36, max_mem = 36\<rparr>"

lemma sample_heap_ready: "heap_ready (sample (KSem 0)) sample_heap sample_blocks"
proof -
  have "heap_chain sample_heap sample_blocks"
    by (simp add: heap_chain_def sample_heap_def sample_blocks_def off_def)
  moreover have "lowest_free sample_heap sample_blocks"
    by (simp add: lowest_free_def sample_heap_def sample_blocks_def off_def)
  moreover have "\<exists>xs ys. sample_blocks = xs @ ys \<and> lfree sample_heap = heap_ptr sample_heap + off (extent xs)"
    by (rule exI [of _ "[(36, True)]"], rule exI [of _ "[(100, False)]"]) (simp add: sample_heap_def sample_blocks_def off_def)
  moreover have "heap_idle (sample (KSem 0)) sample_heap"
    by (simp add: heap_idle_def sample_heap_def sample_fields rt_object_get_type_def sample_object_def)
  ultimately show ?thesis
    by (simp add: heap_ready_def heap_wf_def sample_blocks_def plugged_Cons) (simp add: sample_heap_def)
qed

lemma sample_areas: "areas 0 sample_blocks = {(12, 24)}"
  by (simp add: sample_blocks_def)

theorem rt_malloc_correct_witness:
  "\<exists>r h' bs' x n. rt_malloc 20 (sample (KSem 0)) sample_heap = Some (Ret r, sample (KSem 0), h') \<and> r \<noteq> 0 \<and> 20 \<le> n \<and>
     areas 0 bs' = {(x, n), (12, 24)}"
proof -
  have "\<exists>us n vs. sample_blocks = us @ (n, False) # vs \<and> \<not> (n < request 20 + 12 \<or> 124 \<le> extent us + request 20)"
    by (rule exI [of _ "[(36, True)]"]) (simp add: sample_blocks_def request_def)
  then show ?thesis
    using rt_malloc_correct [OF sample_heap_ready, of 20] by (auto simp: sample_areas sample_heap_def served_def split: if_splits) blast+
qed

theorem rt_free_correct_witness:
  "\<exists>h' bs'. rt_free (heap_ptr sample_heap + off 12) (sample (KSem 0)) sample_heap = Some (Ret (), sample (KSem 0), h') \<and>
     heap_ready (sample (KSem 0)) h' bs' \<and> areas 0 bs' = {}"
  using rt_free_correct [OF sample_heap_ready, of 12 24] by (auto simp: sample_areas)

theorem rt_realloc_keeps_data_witness:
  "\<exists>r s' h' bs'. rt_realloc (heap_ptr sample_heap + off 12) 40 (sample (KSem 0)) sample_heap = Some (Ret r, s', h') \<and>
     resized sample_blocks 12 24 40 (sample (KSem 0)) sample_heap r s' h' bs'"
  using rt_realloc_keeps_data [OF sample_heap_ready, of 12 24 40] by (simp add: sample_areas)

theorem memory_routines_correct_witness:
  "rt_memmove 0x2000 0x2004 64 (\<lambda>a. ucast a) = copy_bytes 0x2000 0x2004 64 (\<lambda>a. ucast a) \<and>
     rt_memcpy 0x2000 0x2004 64 (\<lambda>a. ucast a) = copy_bytes 0x2000 0x2004 64 (\<lambda>a. ucast a) \<and>
     rt_memset 0x2000 7 64 (\<lambda>a. ucast a) = fill_bytes 0x2000 7 64 (\<lambda>a. ucast a)"
  using memory_routines_correct [of "0x2004" 64 "0x2000" "\<lambda>a. ucast a" 7] by simp

end
