(* ===== verification/SList.thy ===== *)
theory SList
  imports Prelude
begin

text \<open>
  The singly linked lists of \<^verbatim>\<open>include/rtservice.h\<close>, on a store that gives the
  \<^verbatim>\<open>next\<close> field of every node; a list is known by the address of its head node.  The
  loops that walk to the end of a list are partial functions: on a store whose nodes form a cycle
  they do not return, and the value is \<open>None\<close>.

  Every operation is shown to do the operation of the same name on the sequence of nodes that
  the list stands for.  The ring block buffer, the only user of these lists in the configured
  system, is modelled on sequences.
\<close>

section \<open>Operations\<close>

type_synonym 'a snext = "'a \<Rightarrow> 'a option"

definition rt_slist_init :: "'a \<Rightarrow> 'a snext \<Rightarrow> 'a snext" where
  "rt_slist_init l h = h(l := None)"

partial_function (option) rt_slist_tail :: "'a snext \<Rightarrow> 'a \<Rightarrow> 'a option" where
  "rt_slist_tail h l = (case h l of None \<Rightarrow> Some l | Some n \<Rightarrow> rt_slist_tail h n)"

definition rt_slist_append :: "'a \<Rightarrow> 'a \<Rightarrow> 'a snext \<Rightarrow> 'a snext option" where
  "rt_slist_append l n h = do {
     node \<leftarrow> rt_slist_tail h l;
     let h = h(node := Some n);
     Some (h(n := None))
   }"

definition rt_slist_insert :: "'a \<Rightarrow> 'a \<Rightarrow> 'a snext \<Rightarrow> 'a snext" where
  "rt_slist_insert l n h = (let h = h(n := h l) in h(l := Some n))"

partial_function (option) slist_len_loop :: "'a snext \<Rightarrow> 'a option \<Rightarrow> rt_uint32 \<Rightarrow> rt_uint32 option" where
  "slist_len_loop h list len =
     (case list of None \<Rightarrow> Some len | Some n \<Rightarrow> slist_len_loop h (h n) (len + 1))"

definition rt_slist_len :: "'a \<Rightarrow> 'a snext \<Rightarrow> rt_uint32 option" where
  "rt_slist_len l h = slist_len_loop h (h l) 0"

text \<open>The loop of \<^verbatim>\<open>rt_slist_remove\<close>: the node before \<open>n\<close>, or the last one.\<close>

partial_function (option) slist_before :: "'a snext \<Rightarrow> 'a \<Rightarrow> 'a \<Rightarrow> 'a option" where
  "slist_before h n node =
     (case h node of None \<Rightarrow> Some node
      | Some m \<Rightarrow> if m = n then Some node else slist_before h n m)"

definition rt_slist_remove :: "'a \<Rightarrow> 'a \<Rightarrow> 'a snext \<Rightarrow> 'a snext option" where
  "rt_slist_remove l n h = do {
     node \<leftarrow> slist_before h n l;
     (case h node of None \<Rightarrow> Some h | Some m \<Rightarrow> Some (h(node := h m)))
   }"

definition rt_slist_first :: "'a \<Rightarrow> 'a snext \<Rightarrow> 'a option" where
  "rt_slist_first l h = h l"

definition rt_slist_next :: "'a \<Rightarrow> 'a snext \<Rightarrow> 'a option" where
  "rt_slist_next n h = h n"

definition rt_slist_isempty :: "'a \<Rightarrow> 'a snext \<Rightarrow> bool" where
  "rt_slist_isempty l h \<longleftrightarrow> h l = None"

section \<open>The sequence a list stands for\<close>

fun schain :: "'a snext \<Rightarrow> 'a \<Rightarrow> 'a list \<Rightarrow> bool" where
  "schain h l [] \<longleftrightarrow> h l = None"
| "schain h l (x # xs) \<longleftrightarrow> h l = Some x \<and> schain h x xs"

definition slist :: "'a snext \<Rightarrow> 'a \<Rightarrow> 'a list \<Rightarrow> bool" where
  "slist h l xs \<longleftrightarrow> schain h l xs \<and> distinct (l # xs)"

lemma schain_cong: "(\<And>x. x \<in> set (l # xs) \<Longrightarrow> h' x = h x) \<Longrightarrow> schain h' l xs = schain h l xs"
  by (induction xs arbitrary: l) auto

lemma schain_frame [simp]: "n \<notin> set (l # xs) \<Longrightarrow> schain (h(n := v)) l xs = schain h l xs"
  by (rule schain_cong) auto

lemma slist_tail: "schain h l xs \<Longrightarrow> rt_slist_tail h l = Some (last (l # xs))"
  by (induction xs arbitrary: l) (simp_all add: rt_slist_tail.simps)

lemma schain_append_node:
  "schain h l xs \<Longrightarrow> distinct (l # xs) \<Longrightarrow> n \<notin> set (l # xs) \<Longrightarrow>
     schain (h(last (l # xs) := Some n, n := None)) l (xs @ [n])"
proof (induction xs arbitrary: l)
  case (Cons x xs)
  have "schain (h(last (x # xs) := Some n, n := None)) x (xs @ [n])"
    by (rule Cons.IH) (use Cons.prems in auto)
  moreover have "last (x # xs) \<noteq> l" using Cons.prems(2) by (metis distinct.simps(2) last_in_set list.distinct(1))
  then have "(h(last (l # x # xs) := Some n, n := None)) l = Some x" using Cons.prems by auto
  ultimately show ?case by (simp only: append_Cons schain.simps last_ConsR list.distinct not_False_eq_True)
qed simp

lemma rt_slist_append_refines:
  assumes "slist h l xs" "n \<notin> set (l # xs)"
  shows "\<exists>h'. rt_slist_append l n h = Some h' \<and> slist h' l (xs @ [n])"
proof -
  have "rt_slist_append l n h = Some (h(last (l # xs) := Some n, n := None))"
    using assms(1) slist_tail [of h l xs] unfolding rt_slist_append_def slist_def Let_def by (simp del: last.simps)
  moreover have "slist (h(last (l # xs) := Some n, n := None)) l (xs @ [n])"
    using schain_append_node [of h l xs n] assms unfolding slist_def by auto
  ultimately show ?thesis by blast
qed

lemma rt_slist_insert_refines:
  assumes "slist h l xs" "n \<notin> set (l # xs)"
  shows "slist (rt_slist_insert l n h) l (n # xs)"
  using assms by (cases xs) (auto simp: rt_slist_insert_def slist_def Let_def)

lemma slist_len_loop:
  "schain h l xs \<Longrightarrow> slist_len_loop h (h l) len = Some (len + of_nat (length xs))"
  by (induction xs arbitrary: l len) (simp_all add: slist_len_loop.simps add_ac)

lemma rt_slist_len_refines: "slist h l xs \<Longrightarrow> rt_slist_len l h = Some (of_nat (length xs))"
  using slist_len_loop [of h l xs 0] by (simp add: rt_slist_len_def slist_def)

text \<open>Removal unlinks the node, or does nothing when it is not there; the removed node keeps its
  \<^verbatim>\<open>next\<close>, so that a loop can go on from it.\<close>

lemma slist_before_notin:
  "schain h l xs \<Longrightarrow> n \<notin> set xs \<Longrightarrow> slist_before h n l = Some (last (l # xs)) \<and> h (last (l # xs)) = None"
  by (induction xs arbitrary: l) (auto simp: slist_before.simps)

lemma slist_before_in:
  "schain h l (xs @ n # ys) \<Longrightarrow> distinct (xs @ n # ys) \<Longrightarrow>
     slist_before h n l = Some (last (l # xs)) \<and> h (last (l # xs)) = Some n \<and> schain h n ys"
  by (induction xs arbitrary: l) (auto simp: slist_before.simps)

lemma schain_unlink:
  "schain h l (xs @ n # ys) \<Longrightarrow> distinct (l # xs @ n # ys) \<Longrightarrow> schain (h(last (l # xs) := h n)) l (xs @ ys)"
proof (induction xs arbitrary: l)
  case Nil
  then show ?case
  proof (cases ys)
    case (Cons a as)
    then have "schain (h(l := Some a)) a as" using Nil by simp
    then show ?thesis using Cons Nil by (simp del: fun_upd_apply) (simp add: fun_upd_def)
  qed auto
next
  case (Cons x xs)
  have "schain (h(last (x # xs) := h n)) x (xs @ ys)"
    by (rule Cons.IH) (use Cons.prems in auto)
  moreover have "last (x # xs) \<noteq> l" using Cons.prems(2)
    by (metis Un_iff distinct.simps(2) last_in_set list.distinct(1) set_append append_Cons)
  then have "(h(last (l # x # xs) := h n)) l = Some x" using Cons.prems(1) by auto
  ultimately show ?case by (simp only: append_Cons schain.simps last_ConsR list.distinct not_False_eq_True)
qed

lemma rt_slist_remove_refines:
  assumes "slist h l xs"
  shows "\<exists>h'. rt_slist_remove l n h = Some h' \<and> slist h' l (remove1 n xs) \<and> h' n = h n"
proof (cases "n \<in> set xs")
  case True
  then obtain as bs where xs: "xs = as @ n # bs" "n \<notin> set as" by (meson split_list_first)
  have c: "schain h l (as @ n # bs)" "distinct (l # as @ n # bs)" using assms xs by (auto simp: slist_def)
  have b: "slist_before h n l = Some (last (l # as))" "h (last (l # as)) = Some n"
    using slist_before_in [OF c(1)] c(2) by auto
  have r: "rt_slist_remove l n h = Some (h(last (l # as) := h n))"
    using b by (simp add: rt_slist_remove_def)
  have "n \<noteq> last (l # as)" using c(2) last_in_set [of "l # as"] by auto
  moreover have "slist (h(last (l # as) := h n)) l (remove1 n xs)"
    using schain_unlink [OF c] c(2) xs by (simp add: slist_def remove1_append)
  ultimately show ?thesis using r by (intro exI [of _ "h(last (l # as) := h n)"] conjI) simp_all
next
  case False
  then show ?thesis using assms slist_before_notin [of h l xs n]
    by (auto simp: rt_slist_remove_def slist_def remove1_idem)
qed

text \<open>All operations together.\<close>

lemma rt_slist_refines_list:
  assumes "slist h l xs"
  shows "rt_slist_first l h = (case xs of [] \<Rightarrow> None | x # _ \<Rightarrow> Some x)"
    and "rt_slist_isempty l h \<longleftrightarrow> xs = []"
    and "rt_slist_tail h l = Some (last (l # xs))"
    and "xs = as @ n # bs \<Longrightarrow> rt_slist_next n h = (case bs of [] \<Rightarrow> None | x # _ \<Rightarrow> Some x)"
    and "slist (rt_slist_init l h) l []"
proof -
  have c: "schain h l xs" using assms by (simp add: slist_def)
  show "rt_slist_first l h = (case xs of [] \<Rightarrow> None | x # _ \<Rightarrow> Some x)" "rt_slist_isempty l h \<longleftrightarrow> xs = []"
    using c by (cases xs; simp add: rt_slist_first_def rt_slist_isempty_def)+
  show "rt_slist_tail h l = Some (last (l # xs))" by (rule slist_tail [OF c])
  show "slist (rt_slist_init l h) l []" by (simp add: slist_def rt_slist_init_def)
  assume xs: "xs = as @ n # bs"
  then have "schain h n bs" using slist_before_in [of h l as n bs] assms by (simp add: slist_def)
  then show "rt_slist_next n h = (case bs of [] \<Rightarrow> None | x # _ \<Rightarrow> Some x)"
    by (cases bs) (simp_all add: rt_slist_next_def)
qed

end
