(* ===== verification/RingBlock.thy ===== *)
theory RingBlock
  imports SList
begin

text \<open>
  The ring block buffer, \<^verbatim>\<open>components/drivers/src/ringblk_buf.c\<close>: blocks of any size are cut
  one after the other from a ring of bytes, filled by a producer, and read in place and freed by a
  consumer.

  A block is known by its index in the block set, which is the array \<open>rbb_blk_set\<close>; an access
  outside the array is the value \<open>None\<close>, like a failed assertion.  The list of blocks is kept as
  the sequence of its nodes (see \<open>SList\<close>).  Addresses, sizes and counts have 32 bits, the size
  stored in a block the 24 bits of its bit field.
\<close>

section \<open>Operations\<close>

datatype rt_rbb_status = RT_RBB_BLK_UNUSED | RT_RBB_BLK_INITED | RT_RBB_BLK_PUT | RT_RBB_BLK_GET

record rt_rbb_blk =
  blk_status :: rt_rbb_status
  blk_size :: "24 word"
  blk_buf :: rt_uint32

record rt_rbb =
  rbb_buf :: rt_uint32
  rbb_buf_size :: rt_uint32
  rbb_blk_set :: "rt_rbb_blk list"
  rbb_blk_max_num :: rt_uint32
  rbb_blk_list :: "nat list"

record rt_rbb_blk_queue =
  bq_blocks :: nat
  bq_blk_num :: rt_uint32

definition blk_at :: "rt_rbb \<Rightarrow> nat \<Rightarrow> rt_rbb_blk option" where
  "blk_at r i = (if i < length (rbb_blk_set r) then Some (rbb_blk_set r ! i) else None)"

definition set_status :: "nat \<Rightarrow> rt_rbb_status \<Rightarrow> rt_rbb \<Rightarrow> rt_rbb" where
  "set_status i st r = r\<lparr>rbb_blk_set := (rbb_blk_set r)[i := (rbb_blk_set r ! i)\<lparr>blk_status := st\<rparr>]\<rparr>"

definition rt_rbb_init ::
    "rt_uint32 \<Rightarrow> rt_uint32 \<Rightarrow> rt_rbb_blk list \<Rightarrow> rt_uint32 \<Rightarrow> rt_rbb option" where
  "rt_rbb_init buf buf_size block_set blk_max_num = do {
     rt_assert (buf \<noteq> 0);
     rt_assert (unat blk_max_num \<le> length block_set);
     Some \<lparr>rbb_buf = buf, rbb_buf_size = buf_size,
       rbb_blk_set = map (\<lambda>b. b\<lparr>blk_status := RT_RBB_BLK_UNUSED\<rparr>) (take (unat blk_max_num) block_set) @
         drop (unat blk_max_num) block_set,
       rbb_blk_max_num = blk_max_num, rbb_blk_list = []\<rparr>
   }"

text \<open>The loop over the set stops at the first free block.\<close>

definition find_empty_blk_in_set :: "rt_rbb \<Rightarrow> nat option" where
  "find_empty_blk_in_set r =
     find (\<lambda>i. blk_status (rbb_blk_set r ! i) = RT_RBB_BLK_UNUSED) [0..<unat (rbb_blk_max_num r)]"

text \<open>The four assignments that give a block to the caller, the same in every branch.\<close>

definition blk_give :: "nat \<Rightarrow> rt_uint32 \<Rightarrow> rt_uint32 \<Rightarrow> rt_rbb \<Rightarrow> rt_rbb" where
  "blk_give i buf sz r = r\<lparr>rbb_blk_list := rbb_blk_list r @ [i],
     rbb_blk_set := (rbb_blk_set r)[i := \<lparr>blk_status = RT_RBB_BLK_INITED, blk_size = ucast sz, blk_buf = buf\<rparr>]\<rparr>"

definition rt_rbb_blk_alloc :: "rt_uint32 \<Rightarrow> rt_rbb \<Rightarrow> (nat option \<times> rt_rbb) option" where
  "rt_rbb_blk_alloc sz r = do {
     rt_assert (sz < 0x1000000);
     (case find_empty_blk_in_set r of
        None \<Rightarrow> Some (None, r)
      | Some new \<Rightarrow>
          if of_nat (length (rbb_blk_list r)) < rbb_blk_max_num r then
            (if 0 < length (rbb_blk_list r) then do {
               head \<leftarrow> blk_at r (hd (rbb_blk_list r));
               tail \<leftarrow> blk_at r (last (rbb_blk_list r));
               (if blk_buf head \<le> blk_buf tail then
                  let empty1 = (rbb_buf r + rbb_buf_size r) - (blk_buf tail + ucast (blk_size tail));
                      empty2 = blk_buf head - rbb_buf r in
                  if sz \<le> empty1
                  then Some (Some new, blk_give new (blk_buf tail + ucast (blk_size tail)) sz r)
                  else if sz \<le> empty2 then Some (Some new, blk_give new (rbb_buf r) sz r)
                  else Some (None, r)
                else
                  let empty1 = blk_buf head - (blk_buf tail + ucast (blk_size tail)) in
                  if sz \<le> empty1
                  then Some (Some new, blk_give new (blk_buf tail + ucast (blk_size tail)) sz r)
                  else Some (None, r))
             }
             else Some (Some new, blk_give new (rbb_buf r) sz r))
          else Some (None, r))
   }"

definition rt_rbb_blk_put :: "nat \<Rightarrow> rt_rbb \<Rightarrow> rt_rbb option" where
  "rt_rbb_blk_put i r = do {
     b \<leftarrow> blk_at r i;
     rt_assert (blk_status b = RT_RBB_BLK_INITED);
     Some (set_status i RT_RBB_BLK_PUT r)
   }"

text \<open>The loop over the list: the first block that was put.\<close>

fun blk_get_loop :: "rt_rbb \<Rightarrow> nat list \<Rightarrow> nat option option" where
  "blk_get_loop r [] = Some None"
| "blk_get_loop r (i # is) = do {
     b \<leftarrow> blk_at r i;
     if blk_status b = RT_RBB_BLK_PUT then Some (Some i) else blk_get_loop r is
   }"

definition rt_rbb_blk_get :: "rt_rbb \<Rightarrow> (nat option \<times> rt_rbb) option" where
  "rt_rbb_blk_get r =
     (if rbb_blk_list r = [] then Some (None, r)
      else do {
        b \<leftarrow> blk_get_loop r (rbb_blk_list r);
        Some (b, case b of None \<Rightarrow> r | Some i \<Rightarrow> set_status i RT_RBB_BLK_GET r)
      })"

definition rt_rbb_blk_size :: "nat \<Rightarrow> rt_rbb \<Rightarrow> rt_uint32 option" where
  "rt_rbb_blk_size i r = map_option (\<lambda>b. ucast (blk_size b)) (blk_at r i)"

definition rt_rbb_blk_buf :: "nat \<Rightarrow> rt_rbb \<Rightarrow> rt_uint32 option" where
  "rt_rbb_blk_buf i r = map_option blk_buf (blk_at r i)"

definition rt_rbb_blk_free :: "nat \<Rightarrow> rt_rbb \<Rightarrow> rt_rbb option" where
  "rt_rbb_blk_free i r = do {
     b \<leftarrow> blk_at r i;
     rt_assert (blk_status b \<noteq> RT_RBB_BLK_UNUSED);
     Some (set_status i RT_RBB_BLK_UNUSED (r\<lparr>rbb_blk_list := remove1 i (rbb_blk_list r)\<rparr>))
   }"

text \<open>
  The loop of \<^verbatim>\<open>rt_rbb_blk_queue_get\<close> over the nodes of the list: \<open>last_block\<close>, the
  bytes collected, the queue being filled, and the buffer, from whose list the blocks taken are
  removed.  A removed node keeps its \<^verbatim>\<open>next\<close>, so the loop visits the nodes of the list it
  began with.
\<close>

definition queue_take :: "nat \<Rightarrow> rt_rbb \<Rightarrow> rt_rbb" where
  "queue_take i r = set_status i RT_RBB_BLK_GET (r\<lparr>rbb_blk_list := remove1 i (rbb_blk_list r)\<rparr>)"

fun queue_get_loop ::
    "rt_uint32 \<Rightarrow> nat list \<Rightarrow> nat option \<Rightarrow> rt_uint32 \<Rightarrow> rt_rbb_blk_queue \<Rightarrow> rt_rbb \<Rightarrow>
       (rt_uint32 \<times> rt_rbb_blk_queue \<times> rt_rbb) option" where
  "queue_get_loop len [] lst tot q r = Some (tot, q, r)"
| "queue_get_loop len (i # is) None tot q r = do {
     b \<leftarrow> blk_at r i;
     (if blk_status b = RT_RBB_BLK_PUT
      then queue_get_loop len is (Some i) (tot + ucast (blk_size b))
             (q\<lparr>bq_blocks := i, bq_blk_num := 0 + 1\<rparr>) (queue_take i r)
      else queue_get_loop len is None tot q r)
   }"
| "queue_get_loop len (i # is) (Some l) tot q r = do {
     b \<leftarrow> blk_at r i;
     lb \<leftarrow> blk_at r l;
     (if blk_status b \<noteq> RT_RBB_BLK_PUT \<or> blk_buf b < blk_buf lb \<or> len < tot + ucast (blk_size b)
      then Some (tot, q, r)
      else queue_get_loop len is (Some i) (tot + ucast (blk_size b))
             (q\<lparr>bq_blk_num := bq_blk_num q + 1\<rparr>) (queue_take i r))
   }"

definition rt_rbb_blk_queue_get ::
    "rt_uint32 \<Rightarrow> rt_rbb_blk_queue \<Rightarrow> rt_rbb \<Rightarrow> (rt_uint32 \<times> rt_rbb_blk_queue \<times> rt_rbb) option" where
  "rt_rbb_blk_queue_get len q r =
     (if rbb_blk_list r = [] then Some (0, q, r) else queue_get_loop len (rbb_blk_list r) None 0 q r)"

fun queue_len_loop :: "rt_rbb \<Rightarrow> nat list \<Rightarrow> rt_uint32 \<Rightarrow> rt_uint32 option" where
  "queue_len_loop r [] tot = Some tot"
| "queue_len_loop r (i # is) tot = do { b \<leftarrow> blk_at r i; queue_len_loop r is (tot + ucast (blk_size b)) }"

text \<open>The indices of \<^verbatim>\<open>blocks[0]\<close> to \<^verbatim>\<open>blocks[blk_num - 1]\<close>.\<close>

definition queue_indices :: "rt_rbb_blk_queue \<Rightarrow> nat list" where
  "queue_indices q = [bq_blocks q..<bq_blocks q + unat (bq_blk_num q)]"

definition rt_rbb_blk_queue_len :: "rt_rbb_blk_queue \<Rightarrow> rt_rbb \<Rightarrow> rt_uint32 option" where
  "rt_rbb_blk_queue_len q r = queue_len_loop r (queue_indices q) 0"

definition rt_rbb_blk_queue_buf :: "rt_rbb_blk_queue \<Rightarrow> rt_rbb \<Rightarrow> rt_uint32 option" where
  "rt_rbb_blk_queue_buf q r = map_option blk_buf (blk_at r (bq_blocks q))"

fun queue_free_loop :: "nat list \<Rightarrow> rt_rbb \<Rightarrow> rt_rbb option" where
  "queue_free_loop [] r = Some r"
| "queue_free_loop (i # is) r = do { r \<leftarrow> rt_rbb_blk_free i r; queue_free_loop is r }"

definition rt_rbb_blk_queue_free :: "rt_rbb_blk_queue \<Rightarrow> rt_rbb \<Rightarrow> rt_rbb option" where
  "rt_rbb_blk_queue_free q r = queue_free_loop (queue_indices q) r"

fun next_queue_loop :: "rt_rbb \<Rightarrow> nat list \<Rightarrow> nat option \<Rightarrow> rt_uint32 \<Rightarrow> rt_uint32 option" where
  "next_queue_loop r [] lst tot = Some tot"
| "next_queue_loop r (i # is) None tot = do {
     b \<leftarrow> blk_at r i;
     (if blk_status b \<noteq> RT_RBB_BLK_PUT then next_queue_loop r is None tot
      else next_queue_loop r is (Some i) (tot + ucast (blk_size b)))
   }"
| "next_queue_loop r (i # is) (Some l) tot = do {
     b \<leftarrow> blk_at r i;
     lb \<leftarrow> blk_at r l;
     (if blk_status b \<noteq> RT_RBB_BLK_PUT \<or> blk_buf b < blk_buf lb then Some tot
      else next_queue_loop r is (Some i) (tot + ucast (blk_size b)))
   }"

definition rt_rbb_next_blk_queue_len :: "rt_rbb \<Rightarrow> rt_uint32 option" where
  "rt_rbb_next_blk_queue_len r =
     (if rbb_blk_list r = [] then Some 0 else next_queue_loop r (rbb_blk_list r) None 0)"

definition rt_rbb_get_buf_size :: "rt_rbb \<Rightarrow> rt_uint32" where
  "rt_rbb_get_buf_size r = rbb_buf_size r"

section \<open>The ring\<close>

text \<open>The bytes of a block as numbers.\<close>

definition b_start :: "rt_rbb \<Rightarrow> nat \<Rightarrow> nat" where
  "b_start r i = unat (blk_buf (rbb_blk_set r ! i))"

definition b_size :: "rt_rbb \<Rightarrow> nat \<Rightarrow> nat" where
  "b_size r i = unat (blk_size (rbb_blk_set r ! i))"

abbreviation b_end :: "rt_rbb \<Rightarrow> nat \<Rightarrow> nat" where
  "b_end r i \<equiv> b_start r i + b_size r i"

abbreviation b_status :: "rt_rbb \<Rightarrow> nat \<Rightarrow> rt_rbb_status" where
  "b_status r i \<equiv> blk_status (rbb_blk_set r ! i)"

text \<open>Blocks that follow one another between two addresses.\<close>

fun run :: "rt_rbb \<Rightarrow> nat \<Rightarrow> nat \<Rightarrow> nat list \<Rightarrow> bool" where
  "run r lo hi [] \<longleftrightarrow> lo \<le> hi"
| "run r lo hi (i # is) \<longleftrightarrow> lo \<le> b_start r i \<and> 0 < b_size r i \<and> run r (b_end r i) hi is"

abbreviation rbb_lo :: "rt_rbb \<Rightarrow> nat" where
  "rbb_lo r \<equiv> unat (rbb_buf r)"

abbreviation rbb_hi :: "rt_rbb \<Rightarrow> nat" where
  "rbb_hi r \<equiv> unat (rbb_buf r) + unat (rbb_buf_size r)"

text \<open>The list in the order of allocation: a run up to the end of the ring, then, when the
  allocation has wrapped round, a run below the first block.\<close>

definition ring_split :: "rt_rbb \<Rightarrow> nat list \<Rightarrow> nat list \<Rightarrow> bool" where
  "ring_split r xs ys \<longleftrightarrow> rbb_blk_list r = xs @ ys \<and> run r (rbb_lo r) (rbb_hi r) xs \<and>
     (ys \<noteq> [] \<longrightarrow> xs \<noteq> [] \<and> run r (rbb_lo r) (b_start r (hd xs)) ys)"

definition rbb_wf :: "rt_rbb \<Rightarrow> bool" where
  "rbb_wf r \<longleftrightarrow> rbb_hi r < 2 ^ 32 \<and> length (rbb_blk_set r) = unat (rbb_blk_max_num r) \<and>
     distinct (rbb_blk_list r) \<and> (\<forall>i \<in> set (rbb_blk_list r). i < length (rbb_blk_set r) \<and> b_status r i \<noteq> RT_RBB_BLK_UNUSED) \<and>
     (\<exists>xs ys. ring_split r xs ys)"

text \<open>Two blocks share no byte.\<close>

definition apart :: "rt_rbb \<Rightarrow> nat \<Rightarrow> nat \<Rightarrow> bool" where
  "apart r i j \<longleftrightarrow> b_end r i \<le> b_start r j \<or> b_end r j \<le> b_start r i"

lemma run_le: "run r lo hi xs \<Longrightarrow> lo \<le> hi"
  by (induction xs arbitrary: lo) force+

lemma run_append:
  "run r lo hi (xs @ ys) \<longleftrightarrow> (if ys = [] then run r lo hi xs
     else run r lo (b_start r (hd ys)) xs \<and> run r (b_start r (hd ys)) hi ys)"
proof (induction xs arbitrary: lo)
  case Nil
  then show ?case by (cases ys) auto
qed auto

lemma run_mono: "run r lo hi xs \<Longrightarrow> lo' \<le> lo \<Longrightarrow> hi \<le> hi' \<Longrightarrow> run r lo' hi' xs"
  by (induction xs arbitrary: lo lo') auto

lemma run_member: "run r lo hi xs \<Longrightarrow> i \<in> set xs \<Longrightarrow> lo \<le> b_start r i \<and> 0 < b_size r i \<and> b_end r i \<le> hi"
  by (induction xs arbitrary: lo) (auto dest: run_le, force)

lemma run_shrink:
  "run r lo hi xs \<Longrightarrow> (xs \<noteq> [] \<Longrightarrow> b_end r (last xs) \<le> hi') \<Longrightarrow> (xs = [] \<Longrightarrow> lo \<le> hi') \<Longrightarrow> run r lo hi' xs"
  by (induction xs arbitrary: lo) (auto split: if_splits)

lemma run_cong:
  "(\<And>i. i \<in> set xs \<Longrightarrow> b_start r' i = b_start r i \<and> b_size r' i = b_size r i) \<Longrightarrow> run r' lo hi xs = run r lo hi xs"
  by (induction xs arbitrary: lo) auto

lemma run_hd_last:
  "run r lo hi xs \<Longrightarrow> xs \<noteq> [] \<Longrightarrow> b_start r (hd xs) \<le> b_start r (last xs)"
  by (cases xs) (auto dest!: run_member [OF _ last_in_set])

lemma run_remove1: "run r lo hi xs \<Longrightarrow> run r lo hi (remove1 i xs)"
  by (induction xs arbitrary: lo) (auto intro: run_mono)

lemma run_apart: "run r lo hi xs \<Longrightarrow> i \<in> set xs \<Longrightarrow> j \<in> set xs \<Longrightarrow> i \<noteq> j \<Longrightarrow> apart r i j"
  by (induction xs arbitrary: lo) (auto simp: apart_def dest: run_member)

text \<open>The blocks of the list lie in the ring and share no byte.\<close>

lemma rbb_wf_inside:
  assumes "rbb_wf r" "i \<in> set (rbb_blk_list r)"
  shows "rbb_lo r \<le> b_start r i" "0 < b_size r i" "b_end r i \<le> rbb_hi r"
proof -
  obtain xs ys where s: "ring_split r xs ys" using assms(1) by (auto simp: rbb_wf_def)
  have "rbb_lo r \<le> b_start r i \<and> 0 < b_size r i \<and> b_end r i \<le> rbb_hi r"
  proof (cases "i \<in> set xs")
    case True
    then show ?thesis using s run_member by (auto simp: ring_split_def)
  next
    case False
    then have y: "i \<in> set ys" using s assms(2) by (auto simp: ring_split_def)
    then have "xs \<noteq> []" "run r (rbb_lo r) (b_start r (hd xs)) ys" using s by (auto simp: ring_split_def)
    moreover then have "b_end r (hd xs) \<le> rbb_hi r" using s run_member [of r _ _ xs "hd xs"] by (auto simp: ring_split_def)
    ultimately show ?thesis using run_member y by fastforce
  qed
  then show "rbb_lo r \<le> b_start r i" "0 < b_size r i" "b_end r i \<le> rbb_hi r" by auto
qed

lemma rbb_wf_apart:
  assumes "rbb_wf r" "i \<in> set (rbb_blk_list r)" "j \<in> set (rbb_blk_list r)" "i \<noteq> j"
  shows "apart r i j"
proof -
  obtain xs ys where s: "rbb_blk_list r = xs @ ys" "run r (rbb_lo r) (rbb_hi r) xs"
      "ys \<noteq> [] \<Longrightarrow> xs \<noteq> [] \<and> run r (rbb_lo r) (b_start r (hd xs)) ys"
    using assms(1) by (auto simp: rbb_wf_def ring_split_def)
  have cross: "b_end r k \<le> b_start r l" if "k \<in> set ys" "l \<in> set xs" for k l
  proof -
    have "b_end r k \<le> b_start r (hd xs)" using that s(3) run_member by (metis empty_iff empty_set)
    also have "\<dots> \<le> b_start r l"
    proof (cases xs)
      case (Cons x xs')
      then show ?thesis using that s(2) run_member [of r "b_end r x" "rbb_hi r" xs' l] by auto
    qed (use that in simp)
    finally show ?thesis .
  qed
  consider "i \<in> set xs" "j \<in> set xs" | "i \<in> set ys" "j \<in> set ys"
    | "i \<in> set xs" "j \<in> set ys" | "i \<in> set ys" "j \<in> set xs"
    using assms(2,3) s(1) by auto
  then show ?thesis
  proof cases
    case 1
    then show ?thesis using run_apart s(2) assms(4) by blast
  next
    case 2
    then have "ys \<noteq> []" by auto
    then show ?thesis using 2 run_apart s(3) assms(4) by blast
  qed (auto simp: apart_def dest: cross)
qed

section \<open>Allocation\<close>

text \<open>What allocation does to the other blocks: nothing.\<close>

lemma blk_give_fields [simp]:
  "rbb_buf (blk_give i a sz r) = rbb_buf r" "rbb_buf_size (blk_give i a sz r) = rbb_buf_size r"
  "rbb_blk_list (blk_give i a sz r) = rbb_blk_list r @ [i]" "rbb_blk_max_num (blk_give i a sz r) = rbb_blk_max_num r"
  "length (rbb_blk_set (blk_give i a sz r)) = length (rbb_blk_set r)"
  "j \<noteq> i \<Longrightarrow> rbb_blk_set (blk_give i a sz r) ! j = rbb_blk_set r ! j"
  "i < length (rbb_blk_set r) \<Longrightarrow> rbb_blk_set (blk_give i a sz r) ! i =
     \<lparr>blk_status = RT_RBB_BLK_INITED, blk_size = ucast sz, blk_buf = a\<rparr>"
  by (simp_all add: blk_give_def)

lemma blk_give_bytes [simp]:
  "j \<noteq> i \<Longrightarrow> b_start (blk_give i a sz r) j = b_start r j" "j \<noteq> i \<Longrightarrow> b_size (blk_give i a sz r) j = b_size r j"
  "i < length (rbb_blk_set r) \<Longrightarrow> b_start (blk_give i a sz r) i = unat a"
  by (simp_all add: b_start_def b_size_def)

lemma blk_give_size [simp]:
  assumes "i < length (rbb_blk_set r)" "unat sz < 2 ^ 24"
  shows "b_size (blk_give i a sz r) i = unat sz"
proof -
  have "unat (ucast sz :: 24 word) = unat sz"
    using assms(2) by (simp add: unsigned_ucast_eq take_bit_nat_eq_self)
  then show ?thesis using assms(1) by (simp add: b_size_def)
qed

lemma find_empty_blk:
  "find_empty_blk_in_set r = Some i \<Longrightarrow> i < unat (rbb_blk_max_num r) \<and> b_status r i = RT_RBB_BLK_UNUSED"
  "find_empty_blk_in_set r = None \<longleftrightarrow> (\<forall>i < unat (rbb_blk_max_num r). b_status r i \<noteq> RT_RBB_BLK_UNUSED)"
  by (auto simp: find_empty_blk_in_set_def find_Some_iff find_None_iff)

text \<open>A new block at the end of either run keeps the ring.\<close>

lemma blk_give_wf:
  assumes wf: "rbb_wf r" and i: "i < length (rbb_blk_set r)" "b_status r i = RT_RBB_BLK_UNUSED"
    and sz: "0 < unat sz" "unat sz < 2 ^ 24"
    and split: "ring_split (blk_give i a sz r) xs ys"
  shows "rbb_wf (blk_give i a sz r)"
proof -
  have "i \<notin> set (rbb_blk_list r)" using wf i by (auto simp: rbb_wf_def)
  moreover have "j < length (rbb_blk_set r) \<and> b_status (blk_give i a sz r) j \<noteq> RT_RBB_BLK_UNUSED"
    if "j \<in> insert i (set (rbb_blk_list r))" for j
    using wf i that by (cases "j = i") (auto simp: rbb_wf_def)
  ultimately show ?thesis using wf split unfolding rbb_wf_def by auto
qed

lemma run_give [simp]:
  "i \<notin> set xs \<Longrightarrow> run (blk_give i a sz r) lo hi xs = run r lo hi xs"
  by (rule run_cong) (metis blk_give_bytes(1,2))

text \<open>Why an allocation fails: all blocks of the set are taken, or the request fits neither behind
  the last block nor, when the allocation has not wrapped, before the first.\<close>

definition no_room :: "nat \<Rightarrow> rt_rbb \<Rightarrow> bool" where
  "no_room n r \<longleftrightarrow> rbb_blk_list r \<noteq> [] \<and>
     (let h = b_start r (hd (rbb_blk_list r)); t = last (rbb_blk_list r) in
      if h \<le> b_start r t then rbb_hi r < b_end r t + n \<and> h < rbb_lo r + n
      else h < b_end r t + n)"

lemma list_below_max:
  assumes "rbb_wf r" "find_empty_blk_in_set r = Some i"
  shows "of_nat (length (rbb_blk_list r)) < rbb_blk_max_num r"
proof -
  have i: "i < length (rbb_blk_set r)" "b_status r i = RT_RBB_BLK_UNUSED"
    using find_empty_blk(1) [OF assms(2)] assms(1) by (auto simp: rbb_wf_def)
  have "insert i (set (rbb_blk_list r)) \<subseteq> {..<length (rbb_blk_set r)}" "i \<notin> set (rbb_blk_list r)"
    using assms(1) i by (auto simp: rbb_wf_def)
  then have "Suc (card (set (rbb_blk_list r))) \<le> length (rbb_blk_set r)"
    by (metis card_insert_disjoint card_lessThan card_mono finite_lessThan List.finite_set)
  then have "length (rbb_blk_list r) < unat (rbb_blk_max_num r)"
    using assms(1) by (simp add: rbb_wf_def distinct_card)
  moreover have "unat (rbb_blk_max_num r) < 2 ^ 32" by simp
  ultimately show ?thesis by (simp add: word_less_nat_alt unat_of_nat)
qed

lemma blk_end_word:
  assumes "rbb_wf r" "i \<in> set (rbb_blk_list r)"
  shows "unat (blk_buf (rbb_blk_set r ! i) + ucast (blk_size (rbb_blk_set r ! i))) = b_end r i"
proof -
  have "unat (ucast (blk_size (rbb_blk_set r ! i)) :: rt_uint32) = b_size r i"
    using unsigned_less [of "blk_size (rbb_blk_set r ! i)", where ?'a = nat]
    by (simp add: b_size_def unsigned_ucast_eq take_bit_nat_eq_self)
  moreover have "b_end r i < 2 ^ 32" using rbb_wf_inside(3) [OF assms] assms(1) by (simp add: rbb_wf_def)
  ultimately show ?thesis using unat_add_small_32 by (simp add: b_start_def)
qed

text \<open>The three places a new block can go.\<close>

lemma split_give_after:
  assumes "ring_split r xs []" "xs \<noteq> []" "i \<notin> set (rbb_blk_list r)" "i < length (rbb_blk_set r)"
    "0 < unat sz" "unat sz < 2 ^ 24" "unat a = b_end r (last xs)" "unat a + unat sz \<le> rbb_hi r"
  shows "ring_split (blk_give i a sz r) (xs @ [i]) []"
proof -
  have "run r (rbb_lo r) (b_end r (last xs)) xs"
    using assms(1,2) by (auto simp: ring_split_def intro: run_shrink)
  then show ?thesis using assms by (simp add: ring_split_def run_append)
qed

lemma split_give_wrap:
  assumes "ring_split r xs ys" "xs \<noteq> []" "i \<notin> set (rbb_blk_list r)" "i < length (rbb_blk_set r)"
    "0 < unat sz" "unat sz < 2 ^ 24" "unat a + unat sz \<le> b_start r (hd xs)"
    "unat a = (if ys = [] then rbb_lo r else b_end r (last ys))"
  shows "ring_split (blk_give i a sz r) xs (ys @ [i])"
proof -
  have notin: "i \<notin> set xs" "i \<notin> set ys" "hd xs \<noteq> i" using assms(1-3) by (auto simp: ring_split_def)
  have "run r (rbb_lo r) (unat a) ys"
    using assms(1,8) by (cases "ys = []") (auto simp: ring_split_def intro: run_shrink)
  then show ?thesis using assms notin by (simp add: ring_split_def run_append)
qed

text \<open>The comparisons of the code, on numbers.\<close>

abbreviation after_last :: "rt_rbb \<Rightarrow> rt_uint32" where
  "after_last r \<equiv> blk_buf (rbb_blk_set r ! last (rbb_blk_list r)) + ucast (blk_size (rbb_blk_set r ! last (rbb_blk_list r)))"

lemma blk_alloc_eq:
  assumes wf: "rbb_wf r" and ne: "rbb_blk_list r \<noteq> []" and i: "find_empty_blk_in_set r = Some i"
    and sz: "unat sz < 2 ^ 24"
  defines "h \<equiv> hd (rbb_blk_list r)" and "t \<equiv> last (rbb_blk_list r)"
  shows "unat (after_last r) = b_end r t"
    "rt_rbb_blk_alloc sz r =
       (if b_start r h \<le> b_start r t
        then if b_end r t + unat sz \<le> rbb_hi r then Some (Some i, blk_give i (after_last r) sz r)
          else if rbb_lo r + unat sz \<le> b_start r h then Some (Some i, blk_give i (rbb_buf r) sz r)
          else Some (None, r)
        else if b_end r t + unat sz \<le> b_start r h then Some (Some i, blk_give i (after_last r) sz r)
        else Some (None, r))"
proof -
  have hin: "h \<in> set (rbb_blk_list r)" "t \<in> set (rbb_blk_list r)" using ne by (simp_all add: h_def t_def)
  have at: "blk_at r h = Some (rbb_blk_set r ! h)" "blk_at r t = Some (rbb_blk_set r ! t)"
    using hin wf by (auto simp: rbb_wf_def blk_at_def)
  show a: "unat (after_last r) = b_end r t" using blk_end_word [OF wf hin(2)] by (simp add: t_def)
  have inr: "rbb_lo r \<le> b_start r h" "b_end r t \<le> rbb_hi r"
    using rbb_wf_inside [OF wf hin(1)] rbb_wf_inside [OF wf hin(2)] by auto
  have cmp: "blk_buf (rbb_blk_set r ! h) \<le> blk_buf (rbb_blk_set r ! t) \<longleftrightarrow> b_start r h \<le> b_start r t"
    by (simp add: b_start_def word_le_nat_alt)
  have e2: "sz \<le> blk_buf (rbb_blk_set r ! h) - rbb_buf r \<longleftrightarrow> rbb_lo r + unat sz \<le> b_start r h"
    using inr(1) by (auto simp: word_le_nat_alt b_start_def unat_sub)
  have "unat (rbb_buf r + rbb_buf_size r) = rbb_hi r"
    using wf unat_add_small_32 by (simp add: rbb_wf_def)
  then have "unat (rbb_buf r + rbb_buf_size r - after_last r) = rbb_hi r - b_end r t"
    using inr(2) a by (simp add: unat_sub word_le_nat_alt)
  then have e1: "sz \<le> rbb_buf r + rbb_buf_size r - after_last r \<longleftrightarrow> b_end r t + unat sz \<le> rbb_hi r"
    using inr(2) by (auto simp: word_le_nat_alt)
  have e3: "sz \<le> blk_buf (rbb_blk_set r ! h) - after_last r \<longleftrightarrow> b_end r t + unat sz \<le> b_start r h"
    if "\<not> b_start r h \<le> b_start r t"
  proof -
    have "h \<noteq> t" using that by auto
    then have "b_end r t \<le> b_start r h"
      using rbb_wf_apart [OF wf hin] rbb_wf_inside(2) [OF wf hin(1)] that by (auto simp: apart_def)
    moreover then have "unat (blk_buf (rbb_blk_set r ! h) - after_last r) = b_start r h - b_end r t"
      using a by (simp add: unat_sub word_le_nat_alt b_start_def)
    ultimately show ?thesis by (auto simp: word_le_nat_alt)
  qed
  have szw: "sz < 0x1000000" using sz by (simp add: word_less_nat_alt)
  note alloc = rt_rbb_blk_alloc_def [of sz r] i szw list_below_max [OF wf i] ne at e1 e2 cmp
  show "rt_rbb_blk_alloc sz r =
       (if b_start r h \<le> b_start r t
        then if b_end r t + unat sz \<le> rbb_hi r then Some (Some i, blk_give i (after_last r) sz r)
          else if rbb_lo r + unat sz \<le> b_start r h then Some (Some i, blk_give i (rbb_buf r) sz r)
          else Some (None, r)
        else if b_end r t + unat sz \<le> b_start r h then Some (Some i, blk_give i (after_last r) sz r)
        else Some (None, r))"
  proof (cases "b_start r h \<le> b_start r t")
    case True
    then show ?thesis using alloc by (simp add: h_def t_def Let_def)
  next
    case False
    show ?thesis using alloc e3 [OF False] False by (simp add: h_def t_def Let_def)
  qed
qed

lemma ring_split_shape:
  assumes "ring_split r xs ys" "xs \<noteq> []"
  shows "b_start r (hd (rbb_blk_list r)) \<le> b_start r (last (rbb_blk_list r)) \<longleftrightarrow> ys = []"
proof (cases "ys = []")
  case True
  then show ?thesis using assms run_hd_last [of r _ _ xs] by (auto simp: ring_split_def)
next
  case False
  then have "b_end r (last ys) \<le> b_start r (hd xs)" "0 < b_size r (last ys)"
    using assms(1) run_member [of r _ _ ys "last ys"] by (auto simp: ring_split_def)
  then show ?thesis using assms False by (simp add: ring_split_def)
qed

lemma blk_alloc_cases:
  assumes wf: "rbb_wf r" and sz: "0 < unat sz" "unat sz < 2 ^ 24" "unat sz \<le> unat (rbb_buf_size r)"
  shows "(\<exists>i a xs ys. rt_rbb_blk_alloc sz r = Some (Some i, blk_give i a sz r) \<and> i < length (rbb_blk_set r) \<and>
       b_status r i = RT_RBB_BLK_UNUSED \<and> ring_split (blk_give i a sz r) xs ys) \<or>
     rt_rbb_blk_alloc sz r = Some (None, r) \<and>
       ((\<forall>i < length (rbb_blk_set r). b_status r i \<noteq> RT_RBB_BLK_UNUSED) \<or> no_room (unat sz) r)"
proof (cases "find_empty_blk_in_set r")
  case None
  then show ?thesis using sz wf find_empty_blk(2) [of r]
    by (simp add: rt_rbb_blk_alloc_def rbb_wf_def word_less_nat_alt)
next
  case (Some i)
  have i: "i < length (rbb_blk_set r)" "b_status r i = RT_RBB_BLK_UNUSED" "i \<notin> set (rbb_blk_list r)"
    using find_empty_blk(1) [OF Some] wf by (auto simp: rbb_wf_def)
  obtain xs ys where sp: "ring_split r xs ys" using wf by (auto simp: rbb_wf_def)
  show ?thesis
  proof (cases "xs = []")
    case True
    then have "rbb_blk_list r = []" using sp by (auto simp: ring_split_def)
    moreover then have "ring_split (blk_give i (rbb_buf r) sz r) [i] []" using i sz by (simp add: ring_split_def)
    ultimately show ?thesis using i Some sz list_below_max [OF wf Some]
      by (auto simp: rt_rbb_blk_alloc_def word_less_nat_alt)
  next
    case ne: False
    then have l: "rbb_blk_list r \<noteq> []" "hd (rbb_blk_list r) = hd xs" using sp by (auto simp: ring_split_def)
    note eq = blk_alloc_eq [OF wf l(1) Some sz(2)] and shape = ring_split_shape [OF sp ne]
    show ?thesis
    proof (cases "ys = []")
      case True
      then have t: "last (rbb_blk_list r) = last xs" using sp by (simp add: ring_split_def)
      have after: "ring_split (blk_give i (after_last r) sz r) (xs @ [i]) []"
        if "b_end r (last (rbb_blk_list r)) + unat sz \<le> rbb_hi r"
        by (rule split_give_after) (use that True sp ne i sz eq(1) t in simp_all)
      have wrap: "ring_split (blk_give i (rbb_buf r) sz r) xs ([] @ [i])"
        if "rbb_lo r + unat sz \<le> b_start r (hd (rbb_blk_list r))"
        by (rule split_give_wrap) (use that True sp ne i sz l in simp_all)
      show ?thesis using eq(2) shape True i after wrap l(1) by (auto simp: no_room_def Let_def)
    next
      case False
      then have t: "last (rbb_blk_list r) = last ys" using sp by (simp add: ring_split_def)
      have wrap: "ring_split (blk_give i (after_last r) sz r) xs (ys @ [i])"
        if "b_end r (last (rbb_blk_list r)) + unat sz \<le> b_start r (hd (rbb_blk_list r))"
        by (rule split_give_wrap) (use that False sp ne i sz l eq(1) t in simp_all)
      show ?thesis using eq(2) shape False i wrap l(1) by (auto simp: no_room_def Let_def)
    qed
  qed
qed

section \<open>The life of a block\<close>

lemma set_status_fields [simp]:
  "rbb_buf (set_status i st r) = rbb_buf r" "rbb_buf_size (set_status i st r) = rbb_buf_size r"
  "rbb_blk_list (set_status i st r) = rbb_blk_list r" "rbb_blk_max_num (set_status i st r) = rbb_blk_max_num r"
  "length (rbb_blk_set (set_status i st r)) = length (rbb_blk_set r)"
  "j \<noteq> i \<Longrightarrow> rbb_blk_set (set_status i st r) ! j = rbb_blk_set r ! j"
  "i < length (rbb_blk_set r) \<Longrightarrow> b_status (set_status i st r) i = st"
  by (simp_all add: set_status_def)

lemma set_status_bytes [simp]:
  "b_start (set_status i st r) j = b_start r j" "b_size (set_status i st r) j = b_size r j"
proof -
  have "rbb_blk_set (set_status i st r) ! j = rbb_blk_set r ! j \<or>
      rbb_blk_set (set_status i st r) ! j = (rbb_blk_set r ! j)\<lparr>blk_status := st\<rparr>"
    by (cases "i < length (rbb_blk_set r)") (simp_all add: set_status_def nth_list_update list_update_beyond)
  then show "b_start (set_status i st r) j = b_start r j" "b_size (set_status i st r) j = b_size r j"
    by (auto simp: b_start_def b_size_def)
qed

lemma set_list_bytes [simp]:
  "b_start (r\<lparr>rbb_blk_list := l\<rparr>) j = b_start r j" "b_size (r\<lparr>rbb_blk_list := l\<rparr>) j = b_size r j"
  by (simp_all add: b_start_def b_size_def)

lemma run_set_status [simp]:
  "run (set_status i st r) lo hi xs = run r lo hi xs" "run (r\<lparr>rbb_blk_list := l\<rparr>) lo hi xs = run r lo hi xs"
  by (rule run_cong; simp)+

lemma set_status_wf:
  assumes "rbb_wf r" "st \<noteq> RT_RBB_BLK_UNUSED"
  shows "rbb_wf (set_status i st r)"
proof -
  have "b_status (set_status i st r) j \<noteq> RT_RBB_BLK_UNUSED" if "j \<in> set (rbb_blk_list r)" for j
    using that assms by (cases "j = i") (auto simp: rbb_wf_def)
  then show ?thesis using assms by (auto simp: rbb_wf_def ring_split_def)
qed

text \<open>Taking a block off the list, wherever it is, leaves a ring.\<close>

lemma ring_split_remove:
  assumes sp: "ring_split r xs ys" and d: "distinct (xs @ ys)"
  shows "\<exists>xs' ys'. ring_split (r\<lparr>rbb_blk_list := remove1 i (rbb_blk_list r)\<rparr>) xs' ys'"
proof -
  have s: "rbb_blk_list r = xs @ ys" "run r (rbb_lo r) (rbb_hi r) xs"
      "ys \<noteq> [] \<Longrightarrow> xs \<noteq> [] \<and> run r (rbb_lo r) (b_start r (hd xs)) ys"
    using sp by (auto simp: ring_split_def)
  have "xs = [i]" if "i \<in> set xs" "remove1 i xs = []" using that by (cases xs) (auto split: if_splits)
  then consider "xs = [i]" "ys \<noteq> []" | "xs = [i]" "ys = []" | "i \<in> set xs" "remove1 i xs \<noteq> []" | "i \<notin> set xs"
    by blast
  then show ?thesis
  proof cases
    case 1
    then have "b_start r (hd xs) \<le> rbb_hi r" using s(2) run_le by fastforce
    then have "run r (rbb_lo r) (rbb_hi r) ys" using s(3) 1(2) run_mono by blast
    then have "ring_split (r\<lparr>rbb_blk_list := remove1 i (rbb_blk_list r)\<rparr>) ys []"
      using 1 s(1) by (simp add: ring_split_def)
    then show ?thesis by blast
  next
    case 2
    then show ?thesis using s(1) by (auto simp: ring_split_def)
  next
    case 3
    have "b_start r (hd xs) \<le> b_start r (hd (remove1 i xs))"
    proof (cases xs)
      case (Cons x xs')
      have "hd (remove1 i xs) \<in> set xs" using 3(2) by (metis hd_in_set notin_set_remove1)
      then show ?thesis using s(2) Cons run_member [of r "b_end r x" "rbb_hi r" xs' "hd (remove1 i xs)"] by auto
    qed (use 3 in simp)
    then have "ys \<noteq> [] \<Longrightarrow> run r (rbb_lo r) (b_start r (hd (remove1 i xs))) ys" using s(3) run_mono by blast
    then have "ring_split (r\<lparr>rbb_blk_list := remove1 i (rbb_blk_list r)\<rparr>) (remove1 i xs) ys"
      using 3 s(1) run_remove1 [OF s(2), of i] by (simp add: ring_split_def remove1_append)
    then show ?thesis by blast
  next
    case 4
    have "remove1 i ys \<noteq> [] \<Longrightarrow> ys \<noteq> []" by auto
    then have "ring_split (r\<lparr>rbb_blk_list := remove1 i (rbb_blk_list r)\<rparr>) xs (remove1 i ys)"
      using 4 s(1,2) s(3) run_remove1 by (simp add: ring_split_def remove1_append)
    then show ?thesis by blast
  qed
qed

lemma rbb_remove_wf:
  assumes "rbb_wf r"
  shows "rbb_wf (set_status i st (r\<lparr>rbb_blk_list := remove1 i (rbb_blk_list r)\<rparr>))"
proof -
  obtain xs ys where sp: "ring_split r xs ys" using assms by (auto simp: rbb_wf_def)
  then have "distinct (xs @ ys)" using assms by (auto simp: rbb_wf_def ring_split_def)
  then obtain xs' ys' where "ring_split (r\<lparr>rbb_blk_list := remove1 i (rbb_blk_list r)\<rparr>) xs' ys'"
    using ring_split_remove [OF sp] by blast
  then have "ring_split (set_status i st (r\<lparr>rbb_blk_list := remove1 i (rbb_blk_list r)\<rparr>)) xs' ys'"
    by (simp add: ring_split_def)
  moreover have "j \<noteq> i" if "j \<in> set (remove1 i (rbb_blk_list r))" for j
    using that assms by (auto simp: rbb_wf_def)
  ultimately show ?thesis using assms by (auto simp: rbb_wf_def set_remove1_eq intro!: exI)
qed

lemma rt_rbb_init_wf:
  assumes "rt_rbb_init buf buf_size bs n = Some r" "unat buf + unat buf_size < 2 ^ 32" "length bs = unat n"
  shows "rbb_wf r" "rbb_blk_list r = []" "\<forall>i < length (rbb_blk_set r). b_status r i = RT_RBB_BLK_UNUSED"
    "rbb_buf r = buf" "rbb_buf_size r = buf_size"
  using assms by (auto simp: rt_rbb_init_def rbb_wf_def ring_split_def)

lemma rt_rbb_blk_put_wf:
  "rbb_wf r \<Longrightarrow> rt_rbb_blk_put i r = Some r' \<Longrightarrow> rbb_wf r'"
  by (auto simp: rt_rbb_blk_put_def bind_Some_iff intro: set_status_wf)

lemma rt_rbb_blk_free_wf:
  "rbb_wf r \<Longrightarrow> rt_rbb_blk_free i r = Some r' \<Longrightarrow> rbb_wf r'"
  by (auto simp: rt_rbb_blk_free_def bind_Some_iff intro: rbb_remove_wf)

text \<open>Getting takes the oldest block that was put.\<close>

lemma blk_get_loop:
  "\<forall>i \<in> set is. i < length (rbb_blk_set r) \<Longrightarrow>
     blk_get_loop r is = Some (find (\<lambda>i. b_status r i = RT_RBB_BLK_PUT) is)"
  by (induction "is") (auto simp: blk_at_def)

lemma rt_rbb_blk_get_eq:
  assumes "rbb_wf r"
  shows "rt_rbb_blk_get r = (case find (\<lambda>i. b_status r i = RT_RBB_BLK_PUT) (rbb_blk_list r) of
     None \<Rightarrow> Some (None, r) | Some i \<Rightarrow> Some (Some i, set_status i RT_RBB_BLK_GET r))"
proof -
  have "blk_get_loop r (rbb_blk_list r) = Some (find (\<lambda>i. b_status r i = RT_RBB_BLK_PUT) (rbb_blk_list r))"
    by (rule blk_get_loop) (use assms in \<open>auto simp: rbb_wf_def\<close>)
  then show ?thesis by (simp add: rt_rbb_blk_get_def split: option.splits)
qed

section \<open>Histories\<close>

text \<open>The calls of the producer and the consumer on single blocks.\<close>

datatype rbb_call = Alloc rt_uint32 | PutBlk nat | GetBlk | FreeBlk nat

fun rbb_do :: "rbb_call \<Rightarrow> rt_rbb \<Rightarrow> rt_rbb option" where
  "rbb_do (Alloc sz) r = map_option snd (rt_rbb_blk_alloc sz r)"
| "rbb_do (PutBlk i) r = rt_rbb_blk_put i r"
| "rbb_do GetBlk r = map_option snd (rt_rbb_blk_get r)"
| "rbb_do (FreeBlk i) r = rt_rbb_blk_free i r"

fun rbb_run :: "rbb_call list \<Rightarrow> rt_rbb \<Rightarrow> rt_rbb option" where
  "rbb_run [] r = Some r"
| "rbb_run (c # cs) r = do { r \<leftarrow> rbb_do c r; rbb_run cs r }"

text \<open>Every block that somebody holds is on the list.\<close>

definition held_listed :: "rt_rbb \<Rightarrow> bool" where
  "held_listed r \<longleftrightarrow> (\<forall>i < length (rbb_blk_set r). b_status r i \<noteq> RT_RBB_BLK_UNUSED \<longrightarrow> i \<in> set (rbb_blk_list r))"

definition same_ring :: "rt_rbb \<Rightarrow> rt_rbb \<Rightarrow> bool" where
  "same_ring r r' \<longleftrightarrow> rbb_buf r' = rbb_buf r \<and> rbb_buf_size r' = rbb_buf_size r \<and>
     length (rbb_blk_set r') = length (rbb_blk_set r)"

definition rbb_ok :: "rt_rbb \<Rightarrow> bool" where
  "rbb_ok r \<longleftrightarrow> rbb_wf r \<and> held_listed r"

lemma rbb_ok_alloc:
  assumes "rbb_ok r" "rt_rbb_blk_alloc sz r = Some (res, r')" "0 < unat sz" "unat sz \<le> unat (rbb_buf_size r)"
  shows "rbb_ok r' \<and> same_ring r r'"
proof -
  have lim: "unat sz < 2 ^ 24" using assms(2) by (auto simp: rt_rbb_blk_alloc_def word_less_nat_alt)
  have wf: "rbb_wf r" and hl: "held_listed r" using assms(1) by (auto simp: rbb_ok_def)
  show ?thesis
  proof (cases res)
    case None
    then show ?thesis using blk_alloc_cases [OF wf assms(3) lim assms(4)] assms(1,2) by (auto simp: same_ring_def)
  next
    case (Some i)
    then obtain a xs ys where *: "r' = blk_give i a sz r" "i < length (rbb_blk_set r)" "b_status r i = RT_RBB_BLK_UNUSED"
        "ring_split (blk_give i a sz r) xs ys"
      using blk_alloc_cases [OF wf assms(3) lim assms(4)] assms(2) by auto
    have "j \<in> set (rbb_blk_list r')" if "j < length (rbb_blk_set r')" "b_status r' j \<noteq> RT_RBB_BLK_UNUSED" for j
      using that hl * by (cases "j = i") (auto simp: held_listed_def)
    then show ?thesis using blk_give_wf [OF wf *(2,3) assms(3) lim *(4)] * by (simp add: rbb_ok_def held_listed_def same_ring_def)
  qed
qed

lemma held_listed_status:
  "held_listed r \<Longrightarrow> b_status r i \<noteq> RT_RBB_BLK_UNUSED \<Longrightarrow> held_listed (set_status i st r)"
  unfolding held_listed_def by (metis set_status_fields(3,5,6))

lemma rbb_do_ok:
  assumes "rbb_ok r" "rbb_do c r = Some r'" "\<And>sz. c = Alloc sz \<Longrightarrow> 0 < unat sz \<and> unat sz \<le> unat (rbb_buf_size r)"
  shows "rbb_ok r' \<and> same_ring r r'"
proof (cases c)
  case (Alloc sz)
  then obtain res where "rt_rbb_blk_alloc sz r = Some (res, r')" using assms(2) by auto
  then show ?thesis using rbb_ok_alloc assms Alloc by blast
next
  case (PutBlk i)
  then show ?thesis using assms(1,2)
    by (auto simp: rt_rbb_blk_put_def bind_Some_iff rbb_ok_def same_ring_def blk_at_def split: if_splits
        intro: set_status_wf held_listed_status)
next
  case GetBlk
  then have "r' = r \<or> (\<exists>i. b_status r i = RT_RBB_BLK_PUT \<and> r' = set_status i RT_RBB_BLK_GET r)"
    using assms(1,2) rt_rbb_blk_get_eq [of r] by (auto simp: rbb_ok_def find_Some_iff split: option.splits)
  then show ?thesis using assms(1) by (auto simp: rbb_ok_def same_ring_def intro: set_status_wf held_listed_status)
next
  case (FreeBlk i)
  then have r': "r' = set_status i RT_RBB_BLK_UNUSED (r\<lparr>rbb_blk_list := remove1 i (rbb_blk_list r)\<rparr>)"
      and i: "i < length (rbb_blk_set r)"
    using assms(2) by (auto simp: rt_rbb_blk_free_def bind_Some_iff blk_at_def split: if_splits)
  have "j \<in> set (rbb_blk_list r')" if "j < length (rbb_blk_set r')" "b_status r' j \<noteq> RT_RBB_BLK_UNUSED" for j
  proof -
    have "j \<noteq> i" using that i by (auto simp: r')
    then show ?thesis using that assms(1) by (simp add: r' rbb_ok_def held_listed_def)
  qed
  then show ?thesis using assms(1) rbb_remove_wf [of r i] by (simp add: r' rbb_ok_def held_listed_def same_ring_def)
qed

lemma rbb_run_ok:
  assumes "rbb_ok r" "rbb_run cs r = Some r'" "\<And>sz. Alloc sz \<in> set cs \<Longrightarrow> 0 < unat sz \<and> unat sz \<le> unat (rbb_buf_size r)"
  shows "rbb_ok r' \<and> same_ring r r'"
  using assms
proof (induction cs arbitrary: r)
  case Nil
  then show ?case by (simp add: same_ring_def)
next
  case (Cons c cs)
  then obtain r1 where r1: "rbb_do c r = Some r1" "rbb_run cs r1 = Some r'" by (auto simp: bind_Some_iff)
  have 1: "rbb_ok r1 \<and> same_ring r r1" using rbb_do_ok [OF Cons.prems(1) r1(1)] Cons.prems(3) by auto
  then have "rbb_ok r' \<and> same_ring r1 r'" using Cons.IH r1(2) Cons.prems(3) by (auto simp: same_ring_def)
  then show ?case using 1 by (simp add: same_ring_def)
qed

text \<open>Allocation in a ring block buffer never disturbs a block in the ring.  A request of at least
  one byte that fits the buffer is answered with a free block of the set, which joins the end of the
  list with its size, lies inside the buffer and shares no byte with any other block of the list, and
  no other block changes; or with nothing, and then either every block of the set is taken or there
  is no room behind the last block nor, as long as the ring has not wrapped, before the first one.\<close>

theorem rt_rbb_blk_alloc_safe:
  assumes "rbb_wf r" "0 < unat sz" "unat sz < 2 ^ 24" "unat sz \<le> unat (rbb_buf_size r)"
  shows "\<exists>res r'. rt_rbb_blk_alloc sz r = Some (res, r') \<and> rbb_wf r' \<and>
     (case res of
        None \<Rightarrow> r' = r \<and> ((\<forall>i < length (rbb_blk_set r). b_status r i \<noteq> RT_RBB_BLK_UNUSED) \<or> no_room (unat sz) r)
      | Some i \<Rightarrow> i < length (rbb_blk_set r) \<and> b_status r i = RT_RBB_BLK_UNUSED \<and>
          b_status r' i = RT_RBB_BLK_INITED \<and> b_size r' i = unat sz \<and>
          rbb_blk_list r' = rbb_blk_list r @ [i] \<and> rbb_lo r \<le> b_start r' i \<and> b_end r' i \<le> rbb_hi r \<and>
          (\<forall>j \<in> set (rbb_blk_list r). apart r' i j) \<and> (\<forall>j. j \<noteq> i \<longrightarrow> rbb_blk_set r' ! j = rbb_blk_set r ! j))"
  using blk_alloc_cases [OF assms]
proof (elim disjE exE conjE)
  fix i a xs ys
  assume al: "rt_rbb_blk_alloc sz r = Some (Some i, blk_give i a sz r)" and i: "i < length (rbb_blk_set r)"
    "b_status r i = RT_RBB_BLK_UNUSED" and sp: "ring_split (blk_give i a sz r) xs ys"
  let ?r = "blk_give i a sz r"
  have wf: "rbb_wf ?r" by (rule blk_give_wf [OF assms(1) i assms(2,3) sp])
  have in': "i \<in> set (rbb_blk_list ?r)" by simp
  have "i \<noteq> j" if "j \<in> set (rbb_blk_list r)" for j using that i assms(1) by (auto simp: rbb_wf_def)
  then have "apart ?r i j" if "j \<in> set (rbb_blk_list r)" for j
    using that rbb_wf_apart [OF wf in', of j] by simp
  then show ?thesis using al i wf rbb_wf_inside [OF wf in'] assms(3) by (auto intro!: exI)
qed (use assms(1) in auto)

text \<open>C21: no use of a ring block buffer through calls on single blocks gives two holders the same
  memory.  From its initialisation, after any sequence of allocations of at least one byte that fit
  the buffer, puts, gets and frees in any order that meets no assertion, every block that somebody
  holds lies inside the buffer, and two of them share no byte.\<close>

theorem rbb_history_safe:
  assumes "rt_rbb_init buf buf_size bs n = Some r0" "unat buf + unat buf_size < 2 ^ 32" "length bs = unat n"
    and "rbb_run cs r0 = Some r" "\<And>sz. Alloc sz \<in> set cs \<Longrightarrow> 0 < unat sz \<and> unat sz \<le> unat buf_size"
    and held: "i < length bs" "b_status r i \<noteq> RT_RBB_BLK_UNUSED"
  shows "unat buf \<le> b_start r i \<and> 0 < b_size r i \<and> b_end r i \<le> unat buf + unat buf_size \<and>
     (\<forall>j < length bs. b_status r j \<noteq> RT_RBB_BLK_UNUSED \<longrightarrow> j \<noteq> i \<longrightarrow> apart r i j)"
proof -
  note init = rt_rbb_init_wf [OF assms(1-3)]
  have "rbb_ok r0" using init by (simp add: rbb_ok_def held_listed_def)
  then have r: "rbb_ok r" "same_ring r0 r" using rbb_run_ok [OF _ assms(4)] assms(5) init by auto
  have len: "length (rbb_blk_set r) = length bs"
    using r(2) init(1) assms(1,3) by (auto simp: same_ring_def rt_rbb_init_def)
  have wf: "rbb_wf r" using r(1) by (simp add: rbb_ok_def)
  have on: "j \<in> set (rbb_blk_list r)" if "j < length bs" "b_status r j \<noteq> RT_RBB_BLK_UNUSED" for j
    using that r(1) len by (simp add: rbb_ok_def held_listed_def)
  show ?thesis using rbb_wf_inside [OF wf on [OF held]] rbb_wf_apart [OF wf on [OF held] on] r(2) init
    by (auto simp: same_ring_def)
qed

section \<open>Queues of blocks\<close>

text \<open>The blocks from the first that was put, as long as they were put and addresses go up; with a
  bound on the bytes that does not apply to the first.\<close>

fun put_run :: "rt_rbb \<Rightarrow> nat \<Rightarrow> nat \<Rightarrow> nat list \<Rightarrow> nat list" where
  "put_run r room l [] = []"
| "put_run r room l (i # is) =
     (if b_status r i = RT_RBB_BLK_PUT \<and> b_start r l \<le> b_start r i \<and> b_size r i \<le> room
      then i # put_run r (room - b_size r i) i is else [])"

fun queue_blocks :: "rt_rbb \<Rightarrow> nat \<Rightarrow> nat list \<Rightarrow> nat list" where
  "queue_blocks r len [] = []"
| "queue_blocks r len (i # is) =
     (if b_status r i = RT_RBB_BLK_PUT then i # put_run r (len - b_size r i) i is else queue_blocks r len is)"

lemma queue_take_fields [simp]:
  "rbb_buf (queue_take i r) = rbb_buf r" "rbb_buf_size (queue_take i r) = rbb_buf_size r"
  "rbb_blk_list (queue_take i r) = remove1 i (rbb_blk_list r)"
  "length (rbb_blk_set (queue_take i r)) = length (rbb_blk_set r)"
  "j \<noteq> i \<Longrightarrow> rbb_blk_set (queue_take i r) ! j = rbb_blk_set r ! j"
  "i < length (rbb_blk_set r) \<Longrightarrow> b_status (queue_take i r) i = RT_RBB_BLK_GET"
  "b_start (queue_take i r) j = b_start r j" "b_size (queue_take i r) j = b_size r j"
  by (simp_all add: queue_take_def)

lemma fold_queue_take:
  "set qs \<subseteq> {..<length (rbb_blk_set r)} \<Longrightarrow> distinct qs \<Longrightarrow> distinct (rbb_blk_list r) \<Longrightarrow>
     rbb_blk_list (fold queue_take qs r) = filter (\<lambda>j. j \<notin> set qs) (rbb_blk_list r) \<and>
     (\<forall>j. b_status (fold queue_take qs r) j = (if j \<in> set qs then RT_RBB_BLK_GET else b_status r j)) \<and>
     (\<forall>j. b_start (fold queue_take qs r) j = b_start r j \<and> b_size (fold queue_take qs r) j = b_size r j)"
proof (induction qs arbitrary: r)
  case (Cons i qs)
  have IH: "rbb_blk_list (fold queue_take qs (queue_take i r)) = filter (\<lambda>j. j \<notin> set qs) (remove1 i (rbb_blk_list r)) \<and>
     (\<forall>j. b_status (fold queue_take qs (queue_take i r)) j = (if j \<in> set qs then RT_RBB_BLK_GET else b_status (queue_take i r) j)) \<and>
     (\<forall>j. b_start (fold queue_take qs (queue_take i r)) j = b_start r j \<and> b_size (fold queue_take qs (queue_take i r)) j = b_size r j)"
    using Cons.IH [of "queue_take i r"] Cons.prems by simp
  have "filter (\<lambda>j. j \<notin> set qs) (remove1 i (rbb_blk_list r)) = filter (\<lambda>j. j \<notin> set (i # qs)) (rbb_blk_list r)"
    using Cons.prems(3) by (auto simp: distinct_remove1_removeAll removeAll_filter_not_eq intro: filter_cong)
  moreover have "b_status (queue_take i r) j = (if j = i then RT_RBB_BLK_GET else b_status r j)" for j
    using Cons.prems(1) by simp
  ultimately show ?case using IH by auto
qed simp

lemma fold_queue_take_wf: "rbb_wf r \<Longrightarrow> rbb_wf (fold queue_take qs r)"
  by (induction qs arbitrary: r) (auto simp: queue_take_def intro: rbb_remove_wf)

lemma put_run_cong:
  "(\<And>i. i \<in> set is \<Longrightarrow> b_status r' i = b_status r i) \<Longrightarrow> (\<And>i. b_start r' i = b_start r i \<and> b_size r' i = b_size r i) \<Longrightarrow>
     put_run r' room l is = put_run r room l is"
  by (induction "is" arbitrary: room l) auto

lemma put_run_set: "set (put_run r room l is) \<subseteq> set is"
  by (induction "is" arbitrary: room l) auto

lemma put_run_distinct: "distinct is \<Longrightarrow> distinct (put_run r room l is)"
  by (induction "is" arbitrary: room l) (auto dest: subsetD [OF put_run_set])

lemma put_run_bytes: "sum_list (map (b_size r) (put_run r room l is)) \<le> room"
  by (induction "is" arbitrary: room l) (auto simp: le_diff_conv2 add.commute, metis add.commute le_diff_conv2)

lemma queue_get_loop_run:
  fixes len :: rt_uint32
  assumes "distinct (l # is)" "\<And>i. i \<in> set (l # is) \<Longrightarrow> i < length (rbb_blk_set r) \<and> 0 < b_size r i \<and> b_end r i < 2 ^ 32"
    and "\<And>i j. i \<in> set (l # is) \<Longrightarrow> j \<in> set (l # is) \<Longrightarrow> i \<noteq> j \<Longrightarrow> apart r i j" and "unat tot \<le> b_end r l"
  defines "qs \<equiv> put_run r (unat len - unat tot) l is"
  shows "\<exists>tot'. queue_get_loop len is (Some l) tot q r =
       Some (tot', q\<lparr>bq_blk_num := bq_blk_num q + of_nat (length qs)\<rparr>, fold queue_take qs r) \<and>
     unat tot' = unat tot + sum_list (map (b_size r) qs)"
  using assms(1-4) unfolding qs_def
proof (induction "is" arbitrary: l tot q r)
  case Nil
  then show ?case by simp
next
  case (Cons i js)
  have il: "i < length (rbb_blk_set r)" "l < length (rbb_blk_set r)" "0 < b_size r i" "b_end r i < 2 ^ 32"
    using Cons.prems(2) by auto
  have at: "blk_at r i = Some (rbb_blk_set r ! i)" "blk_at r l = Some (rbb_blk_set r ! l)"
    using il by (simp_all add: blk_at_def)
  have cmp: "blk_buf (rbb_blk_set r ! i) < blk_buf (rbb_blk_set r ! l) \<longleftrightarrow> b_start r i < b_start r l"
    by (simp add: b_start_def word_less_nat_alt)
  have usz: "unat (ucast (blk_size (rbb_blk_set r ! i)) :: rt_uint32) = b_size r i"
    using unsigned_less [of "blk_size (rbb_blk_set r ! i)", where ?'a = nat]
    by (simp add: b_size_def unsigned_ucast_eq take_bit_nat_eq_self)
  show ?case
  proof (cases "b_status r i = RT_RBB_BLK_PUT \<and> b_start r l \<le> b_start r i")
    case False
    then show ?thesis using at by (auto simp: cmp)
  next
    case True
    have "l \<noteq> i" using Cons.prems(1) by auto
    then have "b_end r l \<le> b_start r i" using Cons.prems(3) [of l i] True il(3) by (auto simp: apart_def)
    then have top: "unat tot + b_size r i \<le> b_end r i" using Cons.prems(4) by simp
    then have utot: "unat (tot + ucast (blk_size (rbb_blk_set r ! i))) = unat tot + b_size r i"
      using il(4) usz unat_add_small_32 by simp
    have room: "len < tot + ucast (blk_size (rbb_blk_set r ! i)) \<longleftrightarrow> \<not> b_size r i \<le> unat len - unat tot"
      using utot il(3) by (auto simp: word_less_nat_alt)
    show ?thesis
    proof (cases "b_size r i \<le> unat len - unat tot")
      case fits: True
      let ?r = "queue_take i r" and ?tot = "tot + ucast (blk_size (rbb_blk_set r ! i))"
      have pr: "put_run ?r m i js = put_run r m i js" for m
      proof (rule put_run_cong)
        show "b_status (queue_take i r) j = b_status r j" if "j \<in> set js" for j
        proof -
          have "j \<noteq> i" using that Cons.prems(1) by auto
          then show ?thesis by simp
        qed
      qed simp
      have ap: "apart ?r j k" if "j \<in> set (i # js)" "k \<in> set (i # js)" "j \<noteq> k" for j k
        using Cons.prems(3) [of j k] that by (simp add: apart_def)
      have d: "distinct (i # js)" using Cons.prems(1) by simp
      have v: "j < length (rbb_blk_set ?r) \<and> 0 < b_size ?r j \<and> b_end ?r j < 2 ^ 32" if "j \<in> set (i # js)" for j
        using Cons.prems(2) [of j] that by simp
      have "unat ?tot \<le> b_end ?r i" using top utot by simp
      note IH = Cons.IH [where q = "q\<lparr>bq_blk_num := bq_blk_num q + 1\<rparr>", OF d v ap this, unfolded pr]
      have rm: "unat len - unat ?tot = unat len - unat tot - b_size r i" using utot by simp
      have "queue_get_loop len (i # js) (Some l) tot q r =
          queue_get_loop len js (Some i) ?tot (q\<lparr>bq_blk_num := bq_blk_num q + 1\<rparr>) ?r"
        using at True fits by (simp add: cmp room)
      then show ?thesis using IH True fits utot rm by (auto simp: add_ac)
    next
      case False
      then show ?thesis using at True by (simp add: cmp room)
    qed
  qed
qed

lemma queue_blocks_set: "set (queue_blocks r len is) \<subseteq> set is"
  by (induction "is") (auto dest: subsetD [OF put_run_set])

lemma queue_blocks_distinct: "distinct is \<Longrightarrow> distinct (queue_blocks r len is)"
  by (induction "is") (auto dest: subsetD [OF put_run_set] intro: put_run_distinct)

lemma queue_blocks_bytes:
  "sum_list (map (b_size r) (queue_blocks r len is)) \<le> len \<or> length (queue_blocks r len is) = 1"
  if "\<And>i. i \<in> set is \<Longrightarrow> 0 < b_size r i"
  using that
proof (induction "is")
  case (Cons i js)
  have none: "put_run r 0 i js = []" using Cons.prems by (cases js) auto
  show ?case
  proof (cases "b_status r i = RT_RBB_BLK_PUT")
    case True
    then show ?thesis using put_run_bytes [of r "len - b_size r i" i js] none by (cases "b_size r i \<le> len") auto
  qed (use Cons in simp)
qed simp

lemma queue_blocks_put: "i \<in> set (queue_blocks r len is) \<Longrightarrow> b_status r i = RT_RBB_BLK_PUT"
proof -
  have "b_status r j = RT_RBB_BLK_PUT" if "j \<in> set (put_run r room l js)" for j room l js
    using that by (induction js arbitrary: room l) (auto split: if_splits)
  then show "i \<in> set (queue_blocks r len is) \<Longrightarrow> b_status r i = RT_RBB_BLK_PUT"
    by (induction "is") (auto split: if_splits)
qed

lemma queue_get_loop_first:
  fixes len :: rt_uint32
  assumes "distinct is" "\<And>i. i \<in> set is \<Longrightarrow> i < length (rbb_blk_set r) \<and> 0 < b_size r i \<and> b_end r i < 2 ^ 32"
    and "\<And>i j. i \<in> set is \<Longrightarrow> j \<in> set is \<Longrightarrow> i \<noteq> j \<Longrightarrow> apart r i j"
  shows "\<exists>tot'. queue_get_loop len is None 0 q r =
       Some (tot', if queue_blocks r (unat len) is = [] then q
         else \<lparr>bq_blocks = hd (queue_blocks r (unat len) is), bq_blk_num = of_nat (length (queue_blocks r (unat len) is))\<rparr>,
         fold queue_take (queue_blocks r (unat len) is) r) \<and>
     unat tot' = sum_list (map (b_size r) (queue_blocks r (unat len) is))"
  using assms
proof (induction "is")
  case (Cons i js)
  have il: "i < length (rbb_blk_set r)" using Cons.prems(2) by simp
  then have at: "blk_at r i = Some (rbb_blk_set r ! i)" by (simp add: blk_at_def)
  show ?case
  proof (cases "b_status r i = RT_RBB_BLK_PUT")
    case False
    then have eq: "queue_get_loop len (i # js) None 0 q r = queue_get_loop len js None 0 q r"
        "queue_blocks r (unat len) (i # js) = queue_blocks r (unat len) js" using at by simp_all
    show ?thesis unfolding eq
    proof (rule Cons.IH)
      show "distinct js" using Cons.prems(1) by simp
    qed (use Cons.prems(2,3) in \<open>meson list.set_intros(2)\<close>)+
  next
    case True
    let ?r = "queue_take i r" and ?n = "ucast (blk_size (rbb_blk_set r ! i)) :: rt_uint32"
    have n: "unat ?n = b_size r i"
      using unsigned_less [of "blk_size (rbb_blk_set r ! i)", where ?'a = nat]
      by (simp add: b_size_def unsigned_ucast_eq take_bit_nat_eq_self)
    have pr: "put_run ?r m i js = put_run r m i js" for m
    proof (rule put_run_cong)
      show "b_status ?r j = b_status r j" if "j \<in> set js" for j
      proof -
        have "j \<noteq> i" using that Cons.prems(1) by auto
        then show ?thesis by simp
      qed
    qed simp
    have v: "j < length (rbb_blk_set ?r) \<and> 0 < b_size ?r j \<and> b_end ?r j < 2 ^ 32" if "j \<in> set (i # js)" for j
      using Cons.prems(2) [of j] that by simp
    have ap: "apart ?r j k" if "j \<in> set (i # js)" "k \<in> set (i # js)" "j \<noteq> k" for j k
      using Cons.prems(3) [of j k] that by (simp add: apart_def)
    have "unat ?n \<le> b_end ?r i" using n by simp
    note run = queue_get_loop_run [where q = "q\<lparr>bq_blocks := i, bq_blk_num := 1\<rparr>", OF Cons.prems(1) v ap this, of len, unfolded pr]
    have step: "queue_get_loop len (i # js) None 0 q r =
        queue_get_loop len js (Some i) ?n (q\<lparr>bq_blocks := i, bq_blk_num := 1\<rparr>) ?r"
      using at True by simp
    have "b_size ?r = b_size r" by (rule ext) simp
    then show ?thesis using run True n step by (auto simp: add_ac)
  qed
qed simp

text \<open>taking a queue of blocks collects the longest run it promises.  From the first block of
  the list that was put, the call takes the blocks that follow as long as they were put, lie at higher
  addresses and keep the total within the requested length; it returns the total of their sizes, marks
  them as got, takes them off the list in place and leaves every other block alone.  The total exceeds
  the requested length only when the first block alone does, which the code does not check.\<close>

theorem rt_rbb_blk_queue_get_takes:
  assumes "rbb_wf r"
  shows "\<exists>tot q' r' qs. qs = queue_blocks r (unat len) (rbb_blk_list r) \<and> rt_rbb_blk_queue_get len q r = Some (tot, q', r') \<and>
     unat tot = sum_list (map (b_size r) qs) \<and> (unat tot \<le> unat len \<or> length qs = 1) \<and>
     (qs \<noteq> [] \<longrightarrow> bq_blocks q' = hd qs \<and> unat (bq_blk_num q') = length qs) \<and>
     rbb_wf r' \<and> rbb_blk_list r' = filter (\<lambda>i. i \<notin> set qs) (rbb_blk_list r) \<and>
     (\<forall>i. b_status r' i = (if i \<in> set qs then RT_RBB_BLK_GET else b_status r i)) \<and>
     (\<forall>i \<in> set qs. b_status r i = RT_RBB_BLK_PUT)"
proof -
  let ?l = "rbb_blk_list r" and ?qs = "queue_blocks r (unat len) (rbb_blk_list r)"
  have d: "distinct ?l" and hi: "rbb_hi r < 2 ^ 32" using assms by (auto simp: rbb_wf_def)
  have v: "i < length (rbb_blk_set r) \<and> 0 < b_size r i \<and> b_end r i < 2 ^ 32" if "i \<in> set ?l" for i
    using that assms rbb_wf_inside [OF assms that] hi by (auto simp: rbb_wf_def)
  have qs: "set ?qs \<subseteq> {..<length (rbb_blk_set r)}" "distinct ?qs" "length ?qs \<le> length ?l"
    using queue_blocks_set [of r "unat len" ?l] queue_blocks_distinct [OF d, of r "unat len"] v
    by (auto intro!: card_mono simp flip: distinct_card [OF d] distinct_card [OF queue_blocks_distinct [OF d]])
  have "length ?l \<le> length (rbb_blk_set r)"
    using card_mono [of "{..<length (rbb_blk_set r)}" "set ?l"] v by (auto simp: distinct_card [OF d])
  moreover have "length (rbb_blk_set r) < 2 ^ 32" using assms by (simp add: rbb_wf_def)
  ultimately have num: "unat (of_nat (length ?qs) :: rt_uint32) = length ?qs" using qs(3) by (simp add: unat_of_nat)
  have "\<exists>tot'. queue_get_loop len ?l None 0 q r = Some (tot', if ?qs = [] then q
        else \<lparr>bq_blocks = hd ?qs, bq_blk_num = of_nat (length ?qs)\<rparr>, fold queue_take ?qs r) \<and>
      unat tot' = sum_list (map (b_size r) ?qs)"
    by (rule queue_get_loop_first) (use d v rbb_wf_apart [OF assms] in blast)+
  then obtain tot where r: "rt_rbb_blk_queue_get len q r = Some (tot, if ?qs = [] then q
        else \<lparr>bq_blocks = hd ?qs, bq_blk_num = of_nat (length ?qs)\<rparr>, fold queue_take ?qs r)"
      "unat tot = sum_list (map (b_size r) ?qs)"
    unfolding rt_rbb_blk_queue_get_def by (cases "?l = []") auto
  have bound: "unat tot \<le> unat len \<or> length ?qs = 1" using queue_blocks_bytes [of ?l r "unat len"] v r(2) by simp
  show ?thesis
    using r bound num fold_queue_take [OF qs(1,2) d] fold_queue_take_wf [OF assms] queue_blocks_put [of _ r "unat len" ?l]
    by (intro exI [of _ tot] exI [of _ "fold queue_take ?qs r"] exI conjI) (rule refl, assumption, auto)
qed

section \<open>Concrete runs\<close>

definition blank_blk :: rt_rbb_blk where
  "blank_blk = \<lparr>blk_status = RT_RBB_BLK_UNUSED, blk_size = 0, blk_buf = 0\<rparr>"

text \<open>A buffer of 16 bytes at 0x1000 with \<open>n\<close> blocks, as the initialisation leaves it.\<close>

definition fresh_ring :: "nat \<Rightarrow> rt_rbb" where
  "fresh_ring n = \<lparr>rbb_buf = 0x1000, rbb_buf_size = 16, rbb_blk_set = replicate n blank_blk,
     rbb_blk_max_num = of_nat n, rbb_blk_list = []\<rparr>"

lemma fresh_ring_init:
  "rt_rbb_init 0x1000 16 (replicate 3 blank_blk) 3 = Some (fresh_ring 3)"
  by code_simp

lemma fresh_ring_wf: "rbb_wf (fresh_ring 3)"
  using rt_rbb_init_wf(1) [OF fresh_ring_init] by simp

text \<open>Two defects of the queues of blocks.  Taking a queue removes its blocks from the list while
  the consumer still reads them, so the next allocation hands out their memory a second time: block 0
  is got and not freed, block 1 is given to the producer, and they overlap.  And the queue is
  described as a part of the block array, although its blocks follow one another in the list and not
  in the array: here it holds the blocks 1, 2 and 0, its length is computed from the array elements
  1, 2 and 3, and freeing it fails at the assertion on block 3, which is unused.\<close>

theorem rbb_queue_defects:
  "do {
     r1 \<leftarrow> rbb_run [Alloc 8, PutBlk 0] (fresh_ring 3);
     (tot, q, r2) \<leftarrow> rt_rbb_blk_queue_get 16 \<lparr>bq_blocks = 0, bq_blk_num = 0\<rparr> r1;
     (res, r3) \<leftarrow> rt_rbb_blk_alloc 8 r2;
     Some (tot, res, b_status r3 0, b_status r3 1, apart r3 0 1)
   } = Some (8, Some 1, RT_RBB_BLK_GET, RT_RBB_BLK_INITED, False) \<and>
   do {
     r1 \<leftarrow> rbb_run [Alloc 4, Alloc 4, Alloc 4, FreeBlk 0, Alloc 4, PutBlk 1, PutBlk 2, PutBlk 0] (fresh_ring 4);
     (tot, q, r2) \<leftarrow> rt_rbb_blk_queue_get 16 \<lparr>bq_blocks = 0, bq_blk_num = 0\<rparr> r1;
     Some (rbb_blk_list r1, tot, q, rt_rbb_blk_queue_len q r2, rt_rbb_blk_queue_free q r2)
   } = Some ([1, 2, 0], 12, \<lparr>bq_blocks = 1, bq_blk_num = 3\<rparr>, Some 8, None)"
  by (rule conjI; code_simp)

text \<open>The theorems of this theory at concrete buffers.\<close>

theorem rt_rbb_blk_alloc_safe_witness:
  "\<exists>res r'. rt_rbb_blk_alloc 8 (fresh_ring 3) = Some (res, r') \<and> rbb_wf r'"
  using rt_rbb_blk_alloc_safe [of "fresh_ring 3" 8] fresh_ring_wf by (auto simp: fresh_ring_def)

theorem rbb_history_safe_witness:
  "\<exists>r. rbb_run [Alloc 4, PutBlk 0, Alloc 8, GetBlk] (fresh_ring 3) = Some r \<and> b_status r 0 \<noteq> RT_RBB_BLK_UNUSED \<and>
     b_end r 0 \<le> 0x1010 \<and> (\<forall>j < 3. b_status r j \<noteq> RT_RBB_BLK_UNUSED \<longrightarrow> j \<noteq> 0 \<longrightarrow> apart r 0 j)"
proof -
  have "map_option (\<lambda>r. b_status r 0) (rbb_run [Alloc 4, PutBlk 0, Alloc 8, GetBlk] (fresh_ring 3)) = Some RT_RBB_BLK_GET"
    by code_simp
  then obtain r where r: "rbb_run [Alloc 4, PutBlk 0, Alloc 8, GetBlk] (fresh_ring 3) = Some r" "b_status r 0 = RT_RBB_BLK_GET"
    by auto
  have "unat (0x1000 :: rt_uint32) \<le> b_start r 0 \<and> 0 < b_size r 0 \<and> b_end r 0 \<le> unat (0x1000 :: rt_uint32) + unat (16 :: rt_uint32) \<and>
     (\<forall>j < length (replicate 3 blank_blk). b_status r j \<noteq> RT_RBB_BLK_UNUSED \<longrightarrow> j \<noteq> 0 \<longrightarrow> apart r 0 j)"
    by (rule rbb_history_safe [OF fresh_ring_init _ _ r(1)]) (use r(2) in auto)
  then show ?thesis using r by auto
qed

theorem rt_rbb_blk_queue_get_takes_witness:
  "\<exists>r tot q r'. rbb_run [Alloc 8, Alloc 4, PutBlk 0] (fresh_ring 3) = Some r \<and>
     rt_rbb_blk_queue_get 16 \<lparr>bq_blocks = 0, bq_blk_num = 0\<rparr> r = Some (tot, q, r') \<and> rbb_wf r' \<and>
     bq_blocks q = 0 \<and> rbb_blk_list r' = [1]"
proof -
  have "map_option (\<lambda>r. (queue_blocks r 16 (rbb_blk_list r), rbb_blk_list r))
      (rbb_run [Alloc 8, Alloc 4, PutBlk 0] (fresh_ring 3)) = Some ([0], [0, 1])" by code_simp
  then obtain r where r: "rbb_run [Alloc 8, Alloc 4, PutBlk 0] (fresh_ring 3) = Some r"
      "queue_blocks r 16 (rbb_blk_list r) = [0]" "rbb_blk_list r = [0, 1]" by auto
  have ok: "rbb_ok (fresh_ring 3)" using fresh_ring_wf by (simp add: rbb_ok_def held_listed_def fresh_ring_def blank_blk_def)
  have "rbb_ok r \<and> same_ring (fresh_ring 3) r" by (rule rbb_run_ok [OF ok r(1)]) (auto simp: fresh_ring_def)
  then have "rbb_wf r" by (simp add: rbb_ok_def)
  from rt_rbb_blk_queue_get_takes [OF this, of 16 "\<lparr>bq_blocks = 0, bq_blk_num = 0\<rparr>"] r show ?thesis by auto
qed

end
