(* ===== verification/Device.thy ===== *)
theory Device
  imports Clock
begin

text \<open>
  The device framework, \<^verbatim>\<open>src/device.c\<close>: registration under a name, activation, opening and
  closing with a count of the users, and the dispatch of reads, writes and commands to the driver.

  The driver behind a device is a record of functions, each of which may be missing (a null pointer).
  A driver works on the whole state: the kernel, the device structures, and a part \<open>ds_driver\<close> of
  its own of any type.  What the framework relies on, that a driver leaves the structures of the
  framework alone, is the predicate \<open>driver_ok\<close>.  A driver function that does not return, because
  it stops at an assertion, is \<open>None\<close>.
\<close>

section \<open>Data\<close>

abbreviation (input) RT_DEVICE_FLAG_STANDALONE :: rt_uint16 where "RT_DEVICE_FLAG_STANDALONE \<equiv> 0x008"
abbreviation (input) RT_DEVICE_FLAG_ACTIVATED :: rt_uint16 where "RT_DEVICE_FLAG_ACTIVATED \<equiv> 0x010"
abbreviation (input) RT_DEVICE_OFLAG_CLOSE :: rt_uint16 where "RT_DEVICE_OFLAG_CLOSE \<equiv> 0x000"
abbreviation (input) RT_DEVICE_OFLAG_OPEN :: rt_uint16 where "RT_DEVICE_OFLAG_OPEN \<equiv> 0x008"
abbreviation (input) RT_DEVICE_OFLAG_MASK :: rt_uint16 where "RT_DEVICE_OFLAG_MASK \<equiv> 0xf0f"

text \<open>Callbacks are the addresses of functions, 0 for none.\<close>

record rt_device =
  dv_type :: int
  dv_flag :: rt_uint16
  dv_open_flag :: rt_uint16
  dv_ref_count :: rt_uint8
  dv_device_id :: rt_uint8
  dv_rx_indicate :: rt_uint32
  dv_tx_complete :: rt_uint32
  dv_user_data :: rt_uint32

record 'd dsys =
  ds_kernel :: kstate
  ds_devices :: "oid \<Rightarrow> rt_device"
  ds_driver :: 'd

record 'd rt_device_ops =
  op_init :: "(oid \<Rightarrow> 'd dsys \<Rightarrow> (rt_err \<times> 'd dsys) option) option"
  op_open :: "(oid \<Rightarrow> rt_uint16 \<Rightarrow> 'd dsys \<Rightarrow> (rt_err \<times> 'd dsys) option) option"
  op_close :: "(oid \<Rightarrow> 'd dsys \<Rightarrow> (rt_err \<times> 'd dsys) option) option"
  op_read :: "(oid \<Rightarrow> int \<Rightarrow> rt_uint32 \<Rightarrow> rt_uint32 \<Rightarrow> 'd dsys \<Rightarrow> (rt_uint32 \<times> 'd dsys) option) option"
  op_write :: "(oid \<Rightarrow> int \<Rightarrow> rt_uint32 \<Rightarrow> rt_uint32 \<Rightarrow> 'd dsys \<Rightarrow> (rt_uint32 \<times> 'd dsys) option) option"
  op_control :: "(oid \<Rightarrow> int \<Rightarrow> rt_uint32 \<Rightarrow> 'd dsys \<Rightarrow> (rt_err \<times> 'd dsys) option) option"

definition upd_dev :: "oid \<Rightarrow> (rt_device \<Rightarrow> rt_device) \<Rightarrow> 'd dsys \<Rightarrow> 'd dsys" where
  "upd_dev i f ds = ds\<lparr>ds_devices := (ds_devices ds)(i := f (ds_devices ds i))\<rparr>"

abbreviation dev :: "'d dsys \<Rightarrow> oid \<Rightarrow> rt_device" where
  "dev ds i \<equiv> ds_devices ds i"

text \<open>\<^verbatim>\<open>RT_ASSERT(rt_object_get_type(&dev->parent) == RT_Object_Class_Device)\<close>\<close>

definition assert_device :: "oid \<Rightarrow> 'd dsys \<Rightarrow> unit option" where
  "assert_device i ds = rt_assert (rt_object_get_type (KDevice i) (ds_kernel ds) = RT_Object_Class_Device)"

section \<open>Registration\<close>

text \<open>The cast of an object of the device list to a device.\<close>

definition as_device :: "kobj option \<Rightarrow> oid option" where
  "as_device k = (case k of Some (KDevice i) \<Rightarrow> Some i | _ \<Rightarrow> None)"

definition rt_device_find :: "rt_uint8 list \<Rightarrow> kstate \<Rightarrow> (oid option \<times> kstate) option" where
  "rt_device_find name s = do {
     let s = (if rt_thread_self s \<noteq> None then rt_enter_critical s else s);
     information \<leftarrow> rt_object_get_information RT_Object_Class_Device;
     let r = find_by_name s name (k_olists s information);
     s \<leftarrow> (if rt_thread_self s \<noteq> None then rt_exit_critical s else Some s);
     Some (as_device r, s)
   }"

definition rt_device_register ::
    "oid option \<Rightarrow> rt_uint8 list \<Rightarrow> rt_uint16 \<Rightarrow> 'd dsys \<Rightarrow> (rt_err \<times> 'd dsys) option" where
  "rt_device_register d name flags ds =
     (case d of
        None \<Rightarrow> Some (- RT_ERROR, ds)
      | Some i \<Rightarrow> do {
          (r, k) \<leftarrow> rt_device_find name (ds_kernel ds);
          let ds = ds\<lparr>ds_kernel := k\<rparr>;
          if r \<noteq> None then Some (- RT_ERROR, ds)
          else do {
            k \<leftarrow> rt_object_init (KDevice i) RT_Object_Class_Device name (ds_kernel ds);
            let ds = ds\<lparr>ds_kernel := k\<rparr>;
            Some (RT_EOK, upd_dev i (\<lambda>d. d\<lparr>dv_flag := flags, dv_ref_count := 0, dv_open_flag := 0\<rparr>) ds)
          }
        })"

definition rt_device_unregister :: "oid \<Rightarrow> 'd dsys \<Rightarrow> (rt_err \<times> 'd dsys) option" where
  "rt_device_unregister i ds = do {
     assert_device i ds;
     rt_assert (rt_object_is_systemobject (KDevice i) (ds_kernel ds));
     Some (RT_EOK, ds\<lparr>ds_kernel := rt_object_detach (KDevice i) (ds_kernel ds)\<rparr>)
   }"

definition rt_device_init_all :: rt_err where
  "rt_device_init_all = RT_EOK"

section \<open>Use\<close>

definition activated :: "rt_device \<Rightarrow> bool" where
  "activated d \<longleftrightarrow> dv_flag d AND RT_DEVICE_FLAG_ACTIVATED \<noteq> 0"

definition set_activated :: "oid \<Rightarrow> 'd dsys \<Rightarrow> 'd dsys" where
  "set_activated i = upd_dev i (\<lambda>d. d\<lparr>dv_flag := dv_flag d OR RT_DEVICE_FLAG_ACTIVATED\<rparr>)"

definition rt_device_init :: "'d rt_device_ops \<Rightarrow> oid \<Rightarrow> 'd dsys \<Rightarrow> (rt_err \<times> 'd dsys) option" where
  "rt_device_init ops i ds =
     (case op_init ops of
        None \<Rightarrow> Some (RT_EOK, ds)
      | Some device_init \<Rightarrow>
          if \<not> activated (dev ds i) then do {
            (result, ds) \<leftarrow> device_init i ds;
            Some (result, if result \<noteq> RT_EOK then ds else set_activated i ds)
          }
          else Some (RT_EOK, ds))"

text \<open>The first part of \<^verbatim>\<open>rt_device_open\<close>: initialisation if needed.  A result other than
  \<^verbatim>\<open>RT_EOK\<close> is returned to the caller at once.\<close>

definition device_activate :: "'d rt_device_ops \<Rightarrow> oid \<Rightarrow> 'd dsys \<Rightarrow> (rt_err \<times> 'd dsys) option" where
  "device_activate ops i ds =
     (if \<not> activated (dev ds i) then do {
        (result, ds) \<leftarrow> (case op_init ops of None \<Rightarrow> Some (RT_EOK, ds) | Some device_init \<Rightarrow> device_init i ds);
        Some (result, if result \<noteq> RT_EOK then ds else set_activated i ds)
      }
      else Some (RT_EOK, ds))"

definition rt_device_open ::
    "'d rt_device_ops \<Rightarrow> oid \<Rightarrow> rt_uint16 \<Rightarrow> 'd dsys \<Rightarrow> (rt_err \<times> 'd dsys) option" where
  "rt_device_open ops i flags ds = do {
     assert_device i ds;
     (result, ds) \<leftarrow> device_activate ops i ds;
     if result \<noteq> RT_EOK then Some (result, ds)
     else if dv_flag (dev ds i) AND RT_DEVICE_FLAG_STANDALONE \<noteq> 0 \<and>
       dv_open_flag (dev ds i) AND RT_DEVICE_OFLAG_OPEN \<noteq> 0
     then Some (- RT_EBUSY, ds)
     else do {
       (result, ds) \<leftarrow> (case op_open ops of
           Some device_open \<Rightarrow> device_open i flags ds
         | None \<Rightarrow> Some (RT_EOK, upd_dev i (\<lambda>d. d\<lparr>dv_open_flag := flags AND RT_DEVICE_OFLAG_MASK\<rparr>) ds));
       if result = RT_EOK \<or> result = - RT_ENOSYS then do {
         let ds = upd_dev i (\<lambda>d. d\<lparr>dv_open_flag := dv_open_flag d OR RT_DEVICE_OFLAG_OPEN\<rparr>) ds;
         let ds = upd_dev i (\<lambda>d. d\<lparr>dv_ref_count := dv_ref_count d + 1\<rparr>) ds;
         rt_assert (dv_ref_count (dev ds i) \<noteq> 0);
         Some (result, ds)
       }
       else Some (result, ds)
     }
   }"

definition rt_device_close :: "'d rt_device_ops \<Rightarrow> oid \<Rightarrow> 'd dsys \<Rightarrow> (rt_err \<times> 'd dsys) option" where
  "rt_device_close ops i ds = do {
     assert_device i ds;
     if dv_ref_count (dev ds i) = 0 then Some (- RT_ERROR, ds)
     else do {
       let ds = upd_dev i (\<lambda>d. d\<lparr>dv_ref_count := dv_ref_count d - 1\<rparr>) ds;
       if dv_ref_count (dev ds i) \<noteq> 0 then Some (RT_EOK, ds)
       else do {
         (result, ds) \<leftarrow> (case op_close ops of
             Some device_close \<Rightarrow> device_close i ds
           | None \<Rightarrow> Some (RT_EOK, ds));
         Some (result, if result = RT_EOK \<or> result = - RT_ENOSYS
           then upd_dev i (\<lambda>d. d\<lparr>dv_open_flag := RT_DEVICE_OFLAG_CLOSE\<rparr>) ds else ds)
       }
     }
   }"

text \<open>Reading and writing: not on a closed device, and only if the driver can.\<close>

definition set_errno :: "rt_err \<Rightarrow> 'd dsys \<Rightarrow> 'd dsys" where
  "set_errno e ds = ds\<lparr>ds_kernel := rt_set_errno e (ds_kernel ds)\<rparr>"

definition rt_device_read ::
    "'d rt_device_ops \<Rightarrow> oid \<Rightarrow> int \<Rightarrow> rt_uint32 \<Rightarrow> rt_uint32 \<Rightarrow> 'd dsys \<Rightarrow> (rt_uint32 \<times> 'd dsys) option" where
  "rt_device_read ops i pos buffer sz ds = do {
     assert_device i ds;
     if dv_ref_count (dev ds i) = 0 then Some (0, set_errno (- RT_ERROR) ds)
     else (case op_read ops of
         Some device_read \<Rightarrow> device_read i pos buffer sz ds
       | None \<Rightarrow> Some (0, set_errno (- RT_ENOSYS) ds))
   }"

definition rt_device_write ::
    "'d rt_device_ops \<Rightarrow> oid \<Rightarrow> int \<Rightarrow> rt_uint32 \<Rightarrow> rt_uint32 \<Rightarrow> 'd dsys \<Rightarrow> (rt_uint32 \<times> 'd dsys) option" where
  "rt_device_write ops i pos buffer sz ds = do {
     assert_device i ds;
     if dv_ref_count (dev ds i) = 0 then Some (0, set_errno (- RT_ERROR) ds)
     else (case op_write ops of
         Some device_write \<Rightarrow> device_write i pos buffer sz ds
       | None \<Rightarrow> Some (0, set_errno (- RT_ENOSYS) ds))
   }"

definition rt_device_control ::
    "'d rt_device_ops \<Rightarrow> oid \<Rightarrow> int \<Rightarrow> rt_uint32 \<Rightarrow> 'd dsys \<Rightarrow> (rt_err \<times> 'd dsys) option" where
  "rt_device_control ops i cmd arg ds = do {
     assert_device i ds;
     (case op_control ops of
         Some device_control \<Rightarrow> device_control i cmd arg ds
       | None \<Rightarrow> Some (- RT_ENOSYS, ds))
   }"

definition rt_device_set_rx_indicate :: "oid \<Rightarrow> rt_uint32 \<Rightarrow> 'd dsys \<Rightarrow> (rt_err \<times> 'd dsys) option" where
  "rt_device_set_rx_indicate i rx_ind ds = do {
     assert_device i ds;
     Some (RT_EOK, upd_dev i (\<lambda>d. d\<lparr>dv_rx_indicate := rx_ind\<rparr>) ds)
   }"

definition rt_device_set_tx_complete :: "oid \<Rightarrow> rt_uint32 \<Rightarrow> 'd dsys \<Rightarrow> (rt_err \<times> 'd dsys) option" where
  "rt_device_set_tx_complete i tx_done ds = do {
     assert_device i ds;
     Some (RT_EOK, upd_dev i (\<lambda>d. d\<lparr>dv_tx_complete := tx_done\<rparr>) ds)
   }"

section \<open>Names\<close>

lemma upd_dev_fields [simp]:
  "ds_kernel (upd_dev i f ds) = ds_kernel ds" "ds_driver (upd_dev i f ds) = ds_driver ds"
  "dev (upd_dev i f ds) i = f (dev ds i)" "j \<noteq> i \<Longrightarrow> dev (upd_dev i f ds) j = dev ds j"
  by (simp_all add: upd_dev_def)

text \<open>The names of registered devices differ in the eight characters that are compared.\<close>

definition dev_name :: "kstate \<Rightarrow> kobj \<Rightarrow> rt_uint8 list" where
  "dev_name s k = take 8 (cstr (o_name (k_objs s k)))"

definition names_unique :: "kstate \<Rightarrow> bool" where
  "names_unique s \<longleftrightarrow> inj_on (dev_name s) (set (k_olists s RT_Object_Class_Device))"

definition name_taken :: "rt_uint8 list \<Rightarrow> kstate \<Rightarrow> bool" where
  "name_taken name s \<longleftrightarrow> take 8 (cstr name) \<in> dev_name s ` set (k_olists s RT_Object_Class_Device)"

lemma find_by_name_dev:
  "find_by_name s name ks = find (\<lambda>k. dev_name s k = take 8 (cstr name)) ks"
  by (simp add: find_by_name_def dev_name_def rt_strncmp_eq)

lemma device_listed:
  assumes "sys_ok s" "k \<in> set (k_olists s RT_Object_Class_Device)"
  shows "\<exists>i. k = KDevice i"
proof -
  have "RT_Object_Class_Device = class_of k"
    using assms(2) reg_invD(1) [OF kinvD(4) [OF sys_okD(2) [OF assms(1)]]] by auto
  then show ?thesis by (cases k) auto
qed

lemma device_info: "rt_object_get_information RT_Object_Class_Device = Some RT_Object_Class_Device"
  by (simp add: rt_object_get_information_def object_container_def)

lemma rt_device_find_total:
  assumes ok: "sys_ok s"
  shows "\<exists>s'. rt_device_find name s =
       Some (as_device (find (\<lambda>k. dev_name s k = take 8 (cstr name)) (k_olists s RT_Object_Class_Device)), s') \<and>
     sys_ok s' \<and> k_objs s' = k_objs s \<and> k_olists s' = k_olists s \<and> k_irq_nest s' = k_irq_nest s"
proof -
  obtain s' where s': "rt_exit_critical (rt_enter_critical s) = Some s'" "sys_ok s'" "k_irq_nest s' = k_irq_nest s"
    using critical_section_total [OF ok] by blast
  have "k_current s \<noteq> None" using ok by (auto simp: sys_ok_def)
  then show ?thesis using s' sched_frame_lock_step [OF s'(1)]
    by (simp add: rt_device_find_def device_info rt_thread_self_def find_by_name_dev)
      (simp add: rt_enter_critical_def dev_name_def)
qed

lemma stored_name: "take 8 (cstr (rt_strncpy name 8)) = take 8 (cstr name)"
  using rt_strncmp_stored [of name 8 name] by (simp add: rt_strncmp_eq)

lemma find_none_iff_name:
  "find (\<lambda>k. dev_name s k = nm) ks = None \<longleftrightarrow> nm \<notin> dev_name s ` set ks"
  by (auto simp: find_None_iff)

lemma as_device_find:
  assumes "sys_ok s"
  shows "as_device (find (\<lambda>k. dev_name s k = nm) (k_olists s RT_Object_Class_Device)) = None \<longleftrightarrow>
     nm \<notin> dev_name s ` set (k_olists s RT_Object_Class_Device)"
proof -
  have "\<exists>i. k = KDevice i" if "find (\<lambda>k. dev_name s k = nm) (k_olists s RT_Object_Class_Device) = Some k" for k
    using that device_listed [OF assms] by (metis find_Some_iff nth_mem)
  then show ?thesis unfolding find_none_iff_name [symmetric]
    by (cases "find (\<lambda>k. dev_name s k = nm) (k_olists s RT_Object_Class_Device)") (auto simp: as_device_def)
qed

text \<open>Initialising the object of a device puts it at the front of the list, under its name.\<close>

lemma device_object_init:
  assumes ok: "sys_ok s" and un: "\<not> listed (KDevice i) s"
  shows "\<exists>s'. rt_object_init (KDevice i) RT_Object_Class_Device name s = Some s' \<and> sys_ok s' \<and>
     rt_object_get_type (KDevice i) s' = RT_Object_Class_Device \<and> rt_object_is_systemobject (KDevice i) s' \<and>
     k_olists s' = tbl_push RT_Object_Class_Device (KDevice i) (k_olists s) \<and>
     dev_name s' (KDevice i) = take 8 (cstr name) \<and>
     (\<forall>k. k \<noteq> KDevice i \<longrightarrow> k_objs s' k = k_objs s k) \<and> k_irq_nest s' = k_irq_nest s"
proof -
  obtain s' where s': "rt_object_init (KDevice i) RT_Object_Class_Device name s = Some s'" "sys_ok s'"
      "k_irq_nest s' = k_irq_nest s"
    using object_init_plain_total [OF ok un, of name] by auto
  note r = s'(1) [folded class_of.simps(8) [of i]]
  note inv = sys_okD(2) [OF ok]
  have un': "unlinked (KDevice i) (k_olists s)" by (rule unlisted_unlinked [OF kinvD(4) [OF inv] un])
  note W = rt_object_init_wf [OF kinvD(3) [OF inv] un' s'(1)]
  have "\<forall>k. k \<noteq> KDevice i \<longrightarrow> k_objs s' k = k_objs s k"
    using kinv_object_init(10) [OF inv _ r] by simp
  then show ?thesis using s' W by (auto simp: dev_name_def stored_name)
qed

text \<open>Device names are unique and registration is found again.  While the system runs,
  registering a device that is not in the list fails with \<^verbatim>\<open>RT_ERROR\<close> and registers nothing exactly when
  a registered device has a name that agrees with the given one in its first eight characters;
  otherwise it succeeds, the device is closed and has the given flags, the names stay unique, and
  looking the name up returns the device.\<close>

theorem rt_device_register_unique:
  assumes ok: "sys_ok (ds_kernel ds)" and un: "\<not> listed (KDevice i) (ds_kernel ds)"
    and uniq: "names_unique (ds_kernel ds)"
  shows "\<exists>e ds'. rt_device_register (Some i) name flags ds = Some (e, ds') \<and> sys_ok (ds_kernel ds') \<and>
     names_unique (ds_kernel ds') \<and>
     (if name_taken name (ds_kernel ds) then e = - RT_ERROR \<and> k_olists (ds_kernel ds') = k_olists (ds_kernel ds) \<and> ds_devices ds' = ds_devices ds
      else e = RT_EOK \<and> set (k_olists (ds_kernel ds') RT_Object_Class_Device) =
          insert (KDevice i) (set (k_olists (ds_kernel ds) RT_Object_Class_Device)) \<and>
        dv_flag (dev ds' i) = flags \<and> dv_ref_count (dev ds' i) = 0 \<and> dv_open_flag (dev ds' i) = 0 \<and>
        (\<exists>s'. rt_device_find name (ds_kernel ds') = Some (Some i, s')))"
proof -
  let ?s = "ds_kernel ds" and ?nm = "take 8 (cstr name)"
  obtain s1 where s1: "rt_device_find name ?s =
        Some (as_device (find (\<lambda>k. dev_name ?s k = ?nm) (k_olists ?s RT_Object_Class_Device)), s1)"
      "sys_ok s1" "k_objs s1 = k_objs ?s" "k_olists s1 = k_olists ?s"
    using rt_device_find_total [OF ok] by blast
  have nm: "dev_name s1 = dev_name ?s" using s1(3) by (simp add: dev_name_def fun_eq_iff)
  have u1: "names_unique s1" using uniq s1(4) nm by (simp add: names_unique_def)
  have t: "as_device (find (\<lambda>k. dev_name ?s k = ?nm) (k_olists ?s RT_Object_Class_Device)) = None \<longleftrightarrow> \<not> name_taken name ?s"
    by (simp only: as_device_find [OF ok] name_taken_def)
  show ?thesis
  proof (cases "name_taken name ?s")
    case True
    then show ?thesis using s1 t u1 by (simp add: rt_device_register_def)
  next
    case False
    obtain s2 where s2: "rt_object_init (KDevice i) RT_Object_Class_Device name s1 = Some s2" "sys_ok s2"
        "k_olists s2 = tbl_push RT_Object_Class_Device (KDevice i) (k_olists ?s)" "dev_name s2 (KDevice i) = ?nm"
        "\<forall>k. k \<noteq> KDevice i \<longrightarrow> k_objs s2 k = k_objs ?s k"
      using device_object_init [OF s1(2), of i name] un s1(3,4) by auto
    have keep: "dev_name s2 k = dev_name ?s k" if "k \<in> set (k_olists ?s RT_Object_Class_Device)" for k
      using that s2(5) un by (metis dev_name_def class_of.simps(8))
    have inj: "inj_on (dev_name s2) (set (k_olists ?s RT_Object_Class_Device))"
      using uniq inj_on_cong [of _ "dev_name s2" "dev_name ?s"] keep by (simp add: names_unique_def)
    have other: "dev_name s2 k \<noteq> ?nm" if "k \<in> set (k_olists ?s RT_Object_Class_Device)" for k
      using that False keep unfolding name_taken_def by (metis imageI)
    have "dev_name s2 (KDevice i) \<notin> dev_name s2 ` (set (k_olists ?s RT_Object_Class_Device) - {KDevice i})"
    proof
      assume "dev_name s2 (KDevice i) \<in> dev_name s2 ` (set (k_olists ?s RT_Object_Class_Device) - {KDevice i})"
      then obtain k where "k \<in> set (k_olists ?s RT_Object_Class_Device)" "dev_name s2 (KDevice i) = dev_name s2 k" by blast
      then show False using other [of k] s2(4) by simp
    qed
    then have u2: "names_unique s2" using s2(3) inj by (simp add: names_unique_def tbl_push_def inj_on_insert)
    have l: "k_olists s2 RT_Object_Class_Device = KDevice i # k_olists ?s RT_Object_Class_Device"
      using s2(3) by (simp add: tbl_push_def)
    obtain s3 where "rt_device_find name s2 = Some (Some i, s3)"
      using rt_device_find_total [OF s2(2), of name] l s2(4) by (auto simp: as_device_def)
    then show ?thesis using False s1 t s2 u2 l by (simp add: rt_device_register_def)
  qed
qed

section \<open>Users of a device\<close>

text \<open>What the framework keeps of an opened device: it is marked open exactly while it has users, then
  it is activated, and a stand-alone device has at most one.\<close>

definition marked_open :: "rt_device \<Rightarrow> bool" where
  "marked_open d \<longleftrightarrow> dv_open_flag d AND RT_DEVICE_OFLAG_OPEN \<noteq> 0"

definition standalone :: "rt_device \<Rightarrow> bool" where
  "standalone d \<longleftrightarrow> dv_flag d AND RT_DEVICE_FLAG_STANDALONE \<noteq> 0"

abbreviation users :: "'d dsys \<Rightarrow> oid \<Rightarrow> nat" where
  "users ds i \<equiv> unat (dv_ref_count (dev ds i))"

definition is_device :: "oid \<Rightarrow> 'd dsys \<Rightarrow> bool" where
  "is_device i ds \<longleftrightarrow> rt_object_get_type (KDevice i) (ds_kernel ds) = RT_Object_Class_Device"

definition dev_inv :: "oid \<Rightarrow> 'd dsys \<Rightarrow> bool" where
  "dev_inv i ds \<longleftrightarrow> is_device i ds \<and> (marked_open (dev ds i) \<longleftrightarrow> 0 < users ds i) \<and>
     (0 < users ds i \<longrightarrow> activated (dev ds i)) \<and> (standalone (dev ds i) \<longrightarrow> users ds i \<le> 1)"

text \<open>What a driver function leaves as it was: the type of the device object, the flags and the count
  of users.  An opening or closing function may assign the open flags as it likes when it does what it
  is asked, as those of the serial, CAN and audio drivers do: the framework sets or clears the mark that the
  device is open afterwards.  A function that fails leaves this mark as it was, and so does the
  initialisation.\<close>

definition dev_kept :: "oid \<Rightarrow> 'd dsys \<Rightarrow> 'd dsys \<Rightarrow> bool" where
  "dev_kept i ds ds' \<longleftrightarrow> is_device i ds' = is_device i ds \<and> dv_flag (dev ds' i) = dv_flag (dev ds i) \<and>
     dv_ref_count (dev ds' i) = dv_ref_count (dev ds i)"

definition dev_same :: "oid \<Rightarrow> 'd dsys \<Rightarrow> 'd dsys \<Rightarrow> bool" where
  "dev_same i ds ds' \<longleftrightarrow> dev_kept i ds ds' \<and> marked_open (dev ds' i) = marked_open (dev ds i)"

definition dev_done :: "oid \<Rightarrow> rt_err \<Rightarrow> 'd dsys \<Rightarrow> 'd dsys \<Rightarrow> bool" where
  "dev_done i r ds ds' \<longleftrightarrow> dev_kept i ds ds' \<and>
     (r \<noteq> RT_EOK \<longrightarrow> r \<noteq> - RT_ENOSYS \<longrightarrow> marked_open (dev ds' i) = marked_open (dev ds i))"

definition driver_ok :: "oid \<Rightarrow> 'd rt_device_ops \<Rightarrow> bool" where
  "driver_ok i ops \<longleftrightarrow>
     (\<forall>f ds. op_init ops = Some f \<longrightarrow> (\<exists>r ds'. f i ds = Some (r, ds') \<and> dev_same i ds ds')) \<and>
     (\<forall>f fl ds. op_open ops = Some f \<longrightarrow> (\<exists>r ds'. f i fl ds = Some (r, ds') \<and> dev_done i r ds ds')) \<and>
     (\<forall>f ds. op_close ops = Some f \<longrightarrow> (\<exists>r ds'. f i ds = Some (r, ds') \<and> dev_done i r ds ds'))"

lemma driver_okD:
  assumes "driver_ok i ops"
  shows "op_init ops = Some f \<Longrightarrow> \<exists>r ds'. f i ds = Some (r, ds') \<and> dev_same i ds ds'"
    "op_open ops = Some g \<Longrightarrow> \<exists>r ds'. g i fl ds = Some (r, ds') \<and> dev_done i r ds ds'"
    "op_close ops = Some f \<Longrightarrow> \<exists>r ds'. f i ds = Some (r, ds') \<and> dev_done i r ds ds'"
  using assms by (auto simp: driver_ok_def)

lemma dev_same_refl [simp]: "dev_same i ds ds" "dev_done i r ds ds"
  by (simp_all add: dev_same_def dev_done_def dev_kept_def)

lemma assert_device_eq [simp]: "is_device i ds \<Longrightarrow> assert_device i ds = Some ()"
  by (simp add: assert_device_def is_device_def)

lemma is_device_upd [simp]: "is_device i (upd_dev j f ds) = is_device i ds"
  by (simp add: is_device_def)

lemma activated_or [simp]:
  "activated (d\<lparr>dv_flag := dv_flag d OR 0x10\<rparr>)" "standalone (d\<lparr>dv_flag := dv_flag d OR 0x10\<rparr>) = standalone d"
  "marked_open (d\<lparr>dv_flag := fl\<rparr>) = marked_open d"
  by (simp_all add: activated_def standalone_def marked_open_def bit.conj_disj_distrib2)

lemma marked_open_or [simp]: "marked_open (d\<lparr>dv_open_flag := fl OR 8\<rparr>)" "\<not> marked_open (d\<lparr>dv_open_flag := 0\<rparr>)"
  by (simp_all add: marked_open_def bit.conj_disj_distrib2)

lemma marked_open_mask [simp]: "marked_open (d\<lparr>dv_open_flag := fl AND 0xf0f\<rparr>) \<longleftrightarrow> fl AND 8 \<noteq> 0"
  by (simp add: marked_open_def and.assoc)

lemma dev_fields [simp]:
  "activated (d\<lparr>dv_open_flag := fl\<rparr>) = activated d" "activated (d\<lparr>dv_ref_count := n\<rparr>) = activated d"
  "standalone (d\<lparr>dv_open_flag := fl\<rparr>) = standalone d" "standalone (d\<lparr>dv_ref_count := n\<rparr>) = standalone d"
  "marked_open (d\<lparr>dv_ref_count := n\<rparr>) = marked_open d"
  by (simp_all add: activated_def standalone_def marked_open_def)

lemma dev_keptD:
  assumes "dev_kept i ds ds'"
  shows "is_device i ds' = is_device i ds" "activated (dev ds' i) = activated (dev ds i)"
    "standalone (dev ds' i) = standalone (dev ds i)" "dv_ref_count (dev ds' i) = dv_ref_count (dev ds i)"
  using assms by (simp_all add: dev_kept_def activated_def standalone_def)

lemma dev_sameD:
  assumes "dev_same i ds ds'"
  shows "is_device i ds' = is_device i ds" "activated (dev ds' i) = activated (dev ds i)"
    "standalone (dev ds' i) = standalone (dev ds i)" "dv_ref_count (dev ds' i) = dv_ref_count (dev ds i)"
    "marked_open (dev ds' i) = marked_open (dev ds i)"
  using assms dev_keptD [of i ds ds'] by (simp_all add: dev_same_def)

lemma dev_doneD:
  assumes "dev_done i r ds ds'"
  shows "is_device i ds' = is_device i ds" "activated (dev ds' i) = activated (dev ds i)"
    "standalone (dev ds' i) = standalone (dev ds i)" "dv_ref_count (dev ds' i) = dv_ref_count (dev ds i)"
    "\<not> (r = RT_EOK \<or> r = - RT_ENOSYS) \<longrightarrow> marked_open (dev ds' i) = marked_open (dev ds i)"
  using assms dev_keptD [of i ds ds'] by (simp_all add: dev_done_def)

lemma device_activate_ok:
  assumes "dev_inv i ds" "driver_ok i ops"
  shows "\<exists>r ds'. device_activate ops i ds = Some (r, ds') \<and> dev_inv i ds' \<and> users ds' i = users ds i \<and>
     standalone (dev ds' i) = standalone (dev ds i) \<and> (r = RT_EOK \<longrightarrow> activated (dev ds' i)) \<and>
     (activated (dev ds i) \<longrightarrow> r = RT_EOK \<and> ds' = ds)"
proof (cases "activated (dev ds i)")
  case True
  then show ?thesis using assms(1) by (simp add: device_activate_def)
next
  case False
  obtain r ds1 where "(case op_init ops of None \<Rightarrow> Some (RT_EOK, ds) | Some f \<Rightarrow> f i ds) = Some (r, ds1)" "dev_same i ds ds1"
    using driver_okD(1) [OF assms(2)] by (cases "op_init ops") fastforce+
  then show ?thesis using assms(1) False dev_sameD [of i ds ds1]
    by (auto simp: device_activate_def dev_inv_def set_activated_def)
qed

text \<open>C22: opening counts the users and never lets a stand-alone device have two.  On a device in
  order whose driver keeps to its own business (\<open>driver_ok\<close>), with less than 255 users, opening returns and the
  device is in order again.  A result \<^verbatim>\<open>RT_EOK\<close> means one user more; a result that is neither that nor
  \<^verbatim>\<open>-RT_ENOSYS\<close> means no new user; a stand-alone device that has a user answers \<^verbatim>\<open>-RT_EBUSY\<close> and
  nothing changes, the driver not being asked.\<close>

theorem rt_device_open_counts:
  assumes inv: "dev_inv i ds" and drv: "driver_ok i ops" and room: "users ds i < 255"
  shows "\<exists>r ds'. rt_device_open ops i flags ds = Some (r, ds') \<and> dev_inv i ds' \<and>
     (users ds' i = users ds i \<or> users ds' i = users ds i + 1) \<and>
     (r = RT_EOK \<longrightarrow> users ds' i = users ds i + 1) \<and> (r \<noteq> RT_EOK \<and> r \<noteq> - RT_ENOSYS \<longrightarrow> users ds' i = users ds i) \<and>
     (standalone (dev ds i) \<and> 0 < users ds i \<longrightarrow> r = - RT_EBUSY \<and> ds' = ds)"
proof -
  obtain r1 ds1 where a: "device_activate ops i ds = Some (r1, ds1)" "dev_inv i ds1" "users ds1 i = users ds i"
      "standalone (dev ds1 i) = standalone (dev ds i)" "r1 = RT_EOK \<longrightarrow> activated (dev ds1 i)"
      "activated (dev ds i) \<longrightarrow> r1 = RT_EOK \<and> ds1 = ds"
    using device_activate_ok [OF inv drv] by blast
  have D: "assert_device i ds = Some ()" using inv by (simp add: dev_inv_def)
  show ?thesis
  proof (cases "r1 = RT_EOK")
    case False
    then have "users ds i = 0" using a(6) inv by (auto simp: dev_inv_def)
    then show ?thesis using False a D by (auto simp: rt_device_open_def)
  next
    case ok: True
    show ?thesis
    proof (cases "standalone (dev ds1 i) \<and> marked_open (dev ds1 i)")
      case True
      then have u: "0 < users ds i" using a(2,3) by (simp add: dev_inv_def)
      then have "ds1 = ds" using a(6) inv by (simp add: dev_inv_def)
      then show ?thesis using True u a ok D inv
        by (auto simp: rt_device_open_def standalone_def marked_open_def)
    next
      case False
      have alone: "standalone (dev ds i) \<longrightarrow> users ds i = 0" using False a(2-4) by (auto simp: dev_inv_def)
      obtain r2 ds2 where o: "(case op_open ops of Some f \<Rightarrow> f i flags ds1
            | None \<Rightarrow> Some (RT_EOK, upd_dev i (\<lambda>d. d\<lparr>dv_open_flag := flags AND 0xf0f\<rparr>) ds1)) = Some (r2, ds2)"
          and k: "is_device i ds2" "activated (dev ds2 i)" "standalone (dev ds2 i) = standalone (dev ds1 i)"
          "dv_ref_count (dev ds2 i) = dv_ref_count (dev ds1 i)" "\<not> (r2 = RT_EOK \<or> r2 = - RT_ENOSYS) \<longrightarrow> marked_open (dev ds2 i) = marked_open (dev ds1 i)"
      proof (cases "op_open ops")
        case None
        then show ?thesis using that a(2,5) ok by (auto simp: dev_inv_def)
      next
        case (Some f)
        then obtain r2 ds2 where "f i flags ds1 = Some (r2, ds2)" "dev_done i r2 ds1 ds2" using driver_okD(2) [OF drv] by blast
        then show ?thesis using that Some a(2,5) ok dev_doneD [of i r2 ds1 ds2] by (auto simp: dev_inv_def)
      qed
      have shut: "\<not> (dv_flag (dev ds1 i) AND 8 \<noteq> 0 \<and> dv_open_flag (dev ds1 i) AND 8 \<noteq> 0)"
        using False by (simp add: standalone_def marked_open_def)
      have n: "unat (dv_ref_count (dev ds2 i) + 1) = users ds i + 1"
        using room a(3) k(4) by (simp add: unat_word_ariths)
      then have nz: "dv_ref_count (dev ds2 i) + 1 \<noteq> 0" by auto
      show ?thesis
      proof (cases "r2 = RT_EOK \<or> r2 = - RT_ENOSYS")
        case True
        have "rt_device_open ops i flags ds = Some (r2, upd_dev i (\<lambda>d. d\<lparr>dv_ref_count := dv_ref_count d + 1\<rparr>)
            (upd_dev i (\<lambda>d. d\<lparr>dv_open_flag := dv_open_flag d OR 8\<rparr>) ds2))"
          using D a(1) ok shut o True nz by (auto simp: rt_device_open_def)
        then show ?thesis using True alone n k(1-4) nz a(4) by (auto simp: dev_inv_def)
      next
        case False
        have "rt_device_open ops i flags ds = Some (r2, ds2)" using D a(1) ok shut o False by (auto simp: rt_device_open_def)
        then show ?thesis using False alone a(2-4) k by (auto simp: dev_inv_def)
      qed
    qed
  qed
qed

text \<open>C23: closing a device in order whose driver keeps to its own business (\<open>driver_ok\<close>: its functions
  return, leave the device's type, flags and count of users alone, and change the mark that it is open
  only when they do what they are asked), in every case.  A device without users answers \<^verbatim>\<open>-RT_ERROR\<close> and nothing changes.
  With several users, one leaves: the count of users goes down by one, nothing else changes in the whole
  system, and the driver is not asked.  When the last user leaves, the driver's
  closing function decides: if it succeeds or is not implemented the device is in order and closed; if
  it fails, the user is gone although the device stays marked as open, and a stand-alone device is then
  lost: every further opening answers \<^verbatim>\<open>-RT_EBUSY\<close> and every further closing \<^verbatim>\<open>-RT_ERROR\<close>.\<close>

theorem rt_device_close_cases:
  assumes inv: "dev_inv i ds" and drv: "driver_ok i ops"
  shows "\<exists>r ds'. rt_device_close ops i ds = Some (r, ds') \<and> users ds' i = users ds i - 1 \<and>
     (users ds i = 0 \<longrightarrow> r = - RT_ERROR \<and> ds' = ds) \<and>
     (1 < users ds i \<longrightarrow> r = RT_EOK \<and> dev_inv i ds' \<and>
        ds' = upd_dev i (\<lambda>d. d\<lparr>dv_ref_count := dv_ref_count d - 1\<rparr>) ds) \<and>
     (users ds i = 1 \<longrightarrow>
        (if r = RT_EOK \<or> r = - RT_ENOSYS then dev_inv i ds' \<and> \<not> marked_open (dev ds' i)
         else marked_open (dev ds' i) \<and> \<not> dev_inv i ds' \<and> rt_device_close ops i ds' = Some (- RT_ERROR, ds') \<and>
           (standalone (dev ds' i) \<longrightarrow> rt_device_open ops i flags ds' = Some (- RT_EBUSY, ds'))))"
proof -
  have D: "assert_device i ds = Some ()" using inv by (simp add: dev_inv_def)
  let ?ds = "upd_dev i (\<lambda>d. d\<lparr>dv_ref_count := dv_ref_count d - 1\<rparr>) ds"
  show ?thesis
  proof (cases "dv_ref_count (dev ds i) = 0")
    case True
    then show ?thesis using D by (simp add: rt_device_close_def)
  next
    case False
    have n: "unat (dv_ref_count (dev ds i) - 1) = users ds i - 1" using False by (simp add: unat_minus_one)
    show ?thesis
    proof (cases "users ds i = 1")
      case several: False
      then have m: "1 < users ds i" using False by (metis One_nat_def Suc_lessI neq0_conv unat_eq_zero)
      have nz: "dv_ref_count (dev ds i) - 1 \<noteq> 0"
      proof
        assume "dv_ref_count (dev ds i) - 1 = 0"
        then show False using n m by simp
      qed
      then have "rt_device_close ops i ds = Some (RT_EOK, ?ds)" using D False by (simp add: rt_device_close_def)
      moreover have "dev_inv i ?ds" using inv m n by (auto simp: dev_inv_def)
      ultimately show ?thesis using n m by simp
    next
      case one: True
      then have z: "dv_ref_count (dev ds i) - 1 = 0" using n by (metis diff_self_eq_0 unat_eq_zero)
      obtain r ds1 where c: "(case op_close ops of Some f \<Rightarrow> f i ?ds | None \<Rightarrow> Some (RT_EOK, ?ds)) = Some (r, ds1)" "dev_done i r ?ds ds1"
        using driver_okD(3) [OF drv] by (cases "op_close ops") fastforce+
      let ?r = "if r = RT_EOK \<or> r = - RT_ENOSYS then upd_dev i (\<lambda>d. d\<lparr>dv_open_flag := 0\<rparr>) ds1 else ds1"
      have cl: "rt_device_close ops i ds = Some (r, ?r)" using D False z c(1) by (simp add: rt_device_close_def)
      have k: "is_device i ds1" "activated (dev ds1 i)" "dv_ref_count (dev ds1 i) = 0"
          "\<not> (r = RT_EOK \<or> r = - RT_ENOSYS) \<Longrightarrow> marked_open (dev ds1 i)"
        using dev_doneD [OF c(2)] inv one z by (auto simp: dev_inv_def)
      have "rt_device_close ops i ds1 = Some (- RT_ERROR, ds1)" using k by (simp add: rt_device_close_def)
      moreover have "rt_device_open ops i flags ds1 = Some (- RT_EBUSY, ds1)"
        if "standalone (dev ds1 i)" "\<not> (r = RT_EOK \<or> r = - RT_ENOSYS)"
        using k(1-3) k(4) [OF that(2)] that(1) by (simp add: rt_device_open_def device_activate_def standalone_def marked_open_def)
      ultimately show ?thesis using cl k one by (auto simp: dev_inv_def)
    qed
  qed
qed

end
