(* ===== verification/DriverAlloc.thy ===== *)
theory DriverAlloc
  imports HeapCalls RingBlock RingBuffer Device "HOL-Library.Multiset"
begin

text \<open>
  The objects of the driver library that live on the heap: creating and destroying ring buffers
  (\<^verbatim>\<open>components/drivers/src/ringbuffer.c\<close>), ring block buffers
  (\<^verbatim>\<open>components/drivers/src/ringblk_buf.c\<close>) and devices (\<^verbatim>\<open>src/device.c\<close>).

  The contract of the allocator is the locale \<open>allocator\<close>: what is allocated is a set of areas, which
  share no byte; allocation adds an area or returns 0, releasing takes it away.  The heap of \<open>Heap\<close> is
  its interpretation.  A call that has to wait for the semaphore of the heap returns \<open>Wait\<close>; what it
  does after that is not modelled.
\<close>

section \<open>Several allocations, all or none\<close>

type_synonym 'h malloc_fn = "rt_uint32 \<Rightarrow> 'h \<Rightarrow> (rt_uint32 outcome \<times> 'h) option"
type_synonym 'h free_fn = "rt_uint32 \<Rightarrow> 'h \<Rightarrow> (unit outcome \<times> 'h) option"

fun free_all :: "'h free_fn \<Rightarrow> rt_uint32 list \<Rightarrow> 'h \<Rightarrow> (unit outcome \<times> 'h) option" where
  "free_all free [] h = Some (Ret (), h)"
| "free_all free (p # ps) h = do {
     (r, h) \<leftarrow> free p h;
     (case r of Wait \<Rightarrow> Some (Wait, h) | Ret _ \<Rightarrow> free_all free ps h)
   }"

text \<open>Allocating one area after the other; when one fails, the earlier ones are released, the last
  one first, and there is no result.\<close>

fun alloc_all ::
    "'h malloc_fn \<Rightarrow> 'h free_fn \<Rightarrow> rt_uint32 list \<Rightarrow> rt_uint32 list \<Rightarrow> 'h \<Rightarrow> (rt_uint32 list option outcome \<times> 'h) option" where
  "alloc_all malloc free got [] h = Some (Ret (Some (rev got)), h)"
| "alloc_all malloc free got (sz # szs) h = do {
     (r, h) \<leftarrow> malloc sz h;
     (case r of Wait \<Rightarrow> Some (Wait, h)
      | Ret p \<Rightarrow>
          if p = 0 then do {
            (r, h) \<leftarrow> free_all free got h;
            (case r of Wait \<Rightarrow> Some (Wait, h) | Ret _ \<Rightarrow> Some (Ret None, h))
          }
          else alloc_all malloc free (p # got) szs h)
   }"

definition heap_malloc :: "(kstate \<times> heap) malloc_fn" where
  "heap_malloc sz = (\<lambda>(s, h). rt_malloc sz s h)"

definition heap_free :: "(kstate \<times> heap) free_fn" where
  "heap_free p = (\<lambda>(s, h). rt_free p s h)"

section \<open>Operations\<close>

abbreviation (input) SIZEOF_STRUCT_RT_RBB :: rt_uint32 where "SIZEOF_STRUCT_RT_RBB \<equiv> 20"
abbreviation (input) SIZEOF_STRUCT_RT_RBB_BLK :: rt_uint32 where "SIZEOF_STRUCT_RT_RBB_BLK \<equiv> 12"
abbreviation (input) SIZEOF_STRUCT_RT_RINGBUFFER :: rt_uint32 where "SIZEOF_STRUCT_RT_RINGBUFFER \<equiv> 12"

text \<open>The result is the address of the object, that of its block set, and the object; \<open>blks\<close> is what the
  memory of the block set holds.\<close>

definition rt_rbb_create ::
    "rt_uint32 \<Rightarrow> rt_uint32 \<Rightarrow> rt_rbb_blk list \<Rightarrow> kstate \<times> heap \<Rightarrow>
       ((rt_uint32 \<times> rt_uint32 \<times> rt_rbb) option outcome \<times> kstate \<times> heap) option" where
  "rt_rbb_create buf_size blk_max_num blks h = do {
     (r, h) \<leftarrow> alloc_all heap_malloc heap_free []
        [SIZEOF_STRUCT_RT_RBB, buf_size, SIZEOF_STRUCT_RT_RBB_BLK * blk_max_num] h;
     (case r of
        Ret (Some [rbb, buf, blk_set]) \<Rightarrow> do {
          r \<leftarrow> rt_rbb_init buf buf_size blks blk_max_num;
          Some (Ret (Some (rbb, blk_set, r)), h)
        }
      | Ret _ \<Rightarrow> Some (Ret None, h)
      | Wait \<Rightarrow> Some (Wait, h))
   }"

definition rt_rbb_destroy ::
    "rt_uint32 \<times> rt_uint32 \<times> rt_rbb \<Rightarrow> kstate \<times> heap \<Rightarrow> (unit outcome \<times> kstate \<times> heap) option" where
  "rt_rbb_destroy = (\<lambda>(rbb, blk_set, r) h. free_all heap_free [rbb_buf r, blk_set, rbb] h)"

text \<open>\<open>bytes\<close> is what the memory of the pool holds.\<close>

definition rt_ringbuffer_create ::
    "rt_uint16 \<Rightarrow> rt_uint8 list \<Rightarrow> kstate \<times> heap \<Rightarrow>
       ((rt_uint32 \<times> rt_uint32 \<times> rt_ringbuffer) option outcome \<times> kstate \<times> heap) option" where
  "rt_ringbuffer_create sz bytes h = do {
     rt_assert (0 < sz);
     let sz = (ucast (RT_ALIGN_DOWN (ucast sz) RT_ALIGN_SIZE) :: rt_uint16);
     (r, h) \<leftarrow> alloc_all heap_malloc heap_free [] [SIZEOF_STRUCT_RT_RINGBUFFER, ucast sz] h;
     (case r of
        Ret (Some [rb, pool]) \<Rightarrow> do {
          r \<leftarrow> rt_ringbuffer_init bytes sz;
          Some (Ret (Some (rb, pool, r)), h)
        }
      | Ret _ \<Rightarrow> Some (Ret None, h)
      | Wait \<Rightarrow> Some (Wait, h))
   }"

definition rt_ringbuffer_destroy ::
    "rt_uint32 \<times> rt_uint32 \<times> rt_ringbuffer \<Rightarrow> kstate \<times> heap \<Rightarrow> (unit outcome \<times> kstate \<times> heap) option" where
  "rt_ringbuffer_destroy = (\<lambda>(rb, pool, r) h. free_all heap_free [pool, rb] h)"

text \<open>A device made on the heap is known by its address.  The size of \<^verbatim>\<open>struct rt_device\<close>, which depends
  on how the compiler lays out its enumeration, is an argument.\<close>

definition zero_device :: rt_device where
  "zero_device = \<lparr>dv_type = 0, dv_flag = 0, dv_open_flag = 0, dv_ref_count = 0, dv_device_id = 0,
     dv_rx_indicate = 0, dv_tx_complete = 0, dv_user_data = 0\<rparr>"

definition rt_device_create ::
    "rt_uint32 \<Rightarrow> int \<Rightarrow> rt_uint32 \<Rightarrow> 'd dsys \<Rightarrow> heap \<Rightarrow> (oid option outcome \<times> 'd dsys \<times> heap) option" where
  "rt_device_create sizeof_device ty attach_size ds h = do {
     let sz = RT_ALIGN sizeof_device RT_ALIGN_SIZE;
     let attach_size = RT_ALIGN attach_size RT_ALIGN_SIZE;
     let sz = sz + attach_size;
     (r, k, h) \<leftarrow> rt_malloc sz (ds_kernel ds) h;
     let ds = ds\<lparr>ds_kernel := k\<rparr>;
     (case r of Wait \<Rightarrow> Some (Wait, ds, h)
      | Ret p \<Rightarrow>
          if p \<noteq> 0 then
            let i = unat p;
                ds = ds\<lparr>ds_kernel := upd_obj (KDevice i) (\<lambda>_. zero_object) (ds_kernel ds)\<rparr>;
                ds = upd_dev i (\<lambda>_. zero_device) ds
            in Some (Ret (Some i), upd_dev i (\<lambda>d. d\<lparr>dv_type := ty\<rparr>) ds, h)
          else Some (Ret None, ds, h))
   }"

definition rt_device_destroy :: "oid \<Rightarrow> 'd dsys \<Rightarrow> heap \<Rightarrow> (unit outcome \<times> 'd dsys \<times> heap) option" where
  "rt_device_destroy i ds h = do {
     assert_device i ds;
     rt_assert (\<not> rt_object_is_systemobject (KDevice i) (ds_kernel ds));
     let ds = ds\<lparr>ds_kernel := rt_object_detach (KDevice i) (ds_kernel ds)\<rparr>;
     (r, k, h) \<leftarrow> rt_free (of_nat i) (ds_kernel ds) h;
     Some (r, ds\<lparr>ds_kernel := k\<rparr>, h)
   }"

section \<open>The contract of the allocator\<close>

definition spans :: "(rt_uint32 \<times> nat) list \<Rightarrow> (nat \<times> nat) set" where
  "spans gs = (\<lambda>(p, n). (unat p, n)) ` set gs"

definition clear_of :: "nat \<times> nat \<Rightarrow> (nat \<times> nat) set \<Rightarrow> bool" where
  "clear_of a A \<longleftrightarrow> (\<forall>(y, m) \<in> A. fst a + snd a \<le> y \<or> y + m \<le> fst a)"

lemma spans_simps [simp]: "spans [] = {}" "spans ((p, n) # gs) = insert (unat p, n) (spans gs)"
    "spans (xs @ ys) = spans xs \<union> spans ys"
  by (auto simp: spans_def)

lemma spans_mem: "(unat p, n) \<in> spans gs \<longleftrightarrow> (p, n) \<in> set gs"
  by (auto simp: spans_def simp flip: word_unat_eq_iff)

locale allocator =
  fixes live :: "'h \<Rightarrow> (nat \<times> nat) set \<Rightarrow> bool" and malloc :: "'h malloc_fn" and free :: "'h free_fn"
  assumes malloc_law: "live h A \<Longrightarrow> unat sz + 3 < 2 ^ 32 \<Longrightarrow> \<exists>r h'. malloc sz h = Some (Ret r, h') \<and>
      (if r = 0 then live h' A
       else \<exists>n. unat sz \<le> n \<and> 0 < n \<and> clear_of (unat r, n) A \<and> live h' (insert (unat r, n) A))"
    and free_law: "live h A \<Longrightarrow> (unat p, n) \<in> A \<Longrightarrow> \<exists>h'. free p h = Some (Ret (), h') \<and> live h' (A - {(unat p, n)})"
    and live_pos: "live h A \<Longrightarrow> (x, n) \<in> A \<Longrightarrow> 0 < n"
begin

lemma new_area: "live h A \<Longrightarrow> clear_of (x, n) A \<Longrightarrow> 0 < n \<Longrightarrow> (x, m) \<notin> A"
  using live_pos by (fastforce simp: clear_of_def)

text \<open>Releasing areas gives back these areas and no other.\<close>

lemma free_all_law:
  "live h (A \<union> spans gs) \<Longrightarrow> distinct (map fst gs) \<Longrightarrow> spans gs \<inter> A = {} \<Longrightarrow>
     \<exists>h'. free_all free (map fst gs) h = Some (Ret (), h') \<and> live h' A"
proof (induction gs arbitrary: h)
  case (Cons g gs)
  obtain p n where g: "g = (p, n)" by (cases g)
  have "(unat p, n) \<notin> spans gs" using Cons.prems(2) by (force simp: g spans_mem)
  then have A: "A \<union> spans (g # gs) - {(unat p, n)} = A \<union> spans gs" using Cons.prems(3) by (auto simp: g)
  obtain h1 where h1: "free p h = Some (Ret (), h1)" "live h1 (A \<union> spans gs)"
    using free_law [OF Cons.prems(1), of p n] A by (auto simp: g)
  then show ?case using Cons.IH [OF h1(2)] Cons.prems(2,3) by (auto simp: g)
qed simp

text \<open>Allocating several areas gives all of them, apart from each other and from the rest, or leaves
  what was allocated as it was.\<close>

lemma alloc_all_law:
  "live h (A \<union> spans gs) \<Longrightarrow> distinct (map fst gs) \<Longrightarrow> spans gs \<inter> A = {} \<Longrightarrow>
     (\<And>sz. sz \<in> set szs \<Longrightarrow> unat sz + 3 < 2 ^ 32) \<Longrightarrow>
     \<exists>r h'. alloc_all malloc free (map fst gs) szs h = Some (Ret r, h') \<and>
       (case r of None \<Rightarrow> live h' A
        | Some ps \<Rightarrow> \<exists>gs'. ps = rev (map fst gs) @ map fst gs' \<and> live h' (A \<union> spans (gs @ gs')) \<and>
            distinct (map fst (gs @ gs')) \<and> spans (gs @ gs') \<inter> A = {} \<and>
            list_all2 (\<lambda>sz (p, n). unat sz \<le> n \<and> p \<noteq> 0) szs gs')"
proof (induction szs arbitrary: gs h)
  case Nil
  then show ?case by (auto intro!: exI [of _ "[]"])
next
  case (Cons sz szs)
  obtain r h1 where m: "malloc sz h = Some (Ret r, h1)" "if r = 0 then live h1 (A \<union> spans gs)
       else \<exists>n. unat sz \<le> n \<and> 0 < n \<and> clear_of (unat r, n) (A \<union> spans gs) \<and> live h1 (insert (unat r, n) (A \<union> spans gs))"
    using malloc_law [OF Cons.prems(1), of sz] Cons.prems(4) by auto
  show ?case
  proof (cases "r = 0")
    case True
    then show ?thesis using m free_all_law [of h1 A gs] Cons.prems(2,3) by auto
  next
    case False
    then obtain n where n: "unat sz \<le> n" "0 < n" "clear_of (unat r, n) (A \<union> spans gs)"
        "live h1 (insert (unat r, n) (A \<union> spans gs))"
      using m(2) by auto
    have new: "(unat r, k) \<notin> A \<union> spans gs" for k by (rule new_area [OF Cons.prems(1) n(3,2)])
    have "r \<notin> fst ` set gs" using new by (force simp: spans_def)
    then have d: "distinct (map fst ((r, n) # gs))" using Cons.prems(2) by simp
    have "live h1 (A \<union> spans ((r, n) # gs))" "spans ((r, n) # gs) \<inter> A = {}"
      using n(4) new Cons.prems(3) by auto
    note IH = Cons.IH [OF this(1) d this(2) Cons.prems(4)]
    then obtain res h2 where IH: "alloc_all malloc free (r # map fst gs) szs h1 = Some (Ret res, h2)"
        "case res of None \<Rightarrow> live h2 A
        | Some ps \<Rightarrow> \<exists>gs'. ps = rev (map fst ((r, n) # gs)) @ map fst gs' \<and> live h2 (A \<union> spans (((r, n) # gs) @ gs')) \<and>
            distinct (map fst (((r, n) # gs) @ gs')) \<and> spans (((r, n) # gs) @ gs') \<inter> A = {} \<and>
            list_all2 (\<lambda>sz (p, n). unat sz \<le> n \<and> p \<noteq> 0) szs gs'"
      by auto
    have step: "alloc_all malloc free (map fst gs) (sz # szs) h = Some (Ret res, h2)" using m(1) False IH(1) by simp
    show ?thesis
    proof (cases res)
      case None
      then show ?thesis using step IH(2) by simp
    next
      case (Some ps)
      then obtain gs' where gs': "ps = rev (map fst ((r, n) # gs)) @ map fst gs'"
          "live h2 (A \<union> spans (((r, n) # gs) @ gs'))" "distinct (map fst (((r, n) # gs) @ gs'))"
          "spans (((r, n) # gs) @ gs') \<inter> A = {}" "list_all2 (\<lambda>sz (p, n). unat sz \<le> n \<and> p \<noteq> 0) szs gs'"
        using IH(2) by auto
      have sp: "spans (gs @ (r, n) # gs') = spans (((r, n) # gs) @ gs')" by auto
      have dd: "distinct (map fst (gs @ (r, n) # gs'))" using gs'(3) by auto
      have "\<exists>gs''. ps = rev (map fst gs) @ map fst gs'' \<and> live h2 (A \<union> spans (gs @ gs'')) \<and>
            distinct (map fst (gs @ gs'')) \<and> spans (gs @ gs'') \<inter> A = {} \<and>
            list_all2 (\<lambda>sz (p, n). unat sz \<le> n \<and> p \<noteq> 0) (sz # szs) gs''"
        by (rule exI [of _ "(r, n) # gs'"]) (use gs' dd n(1) False in \<open>simp del: spans_simps add: sp\<close>)
      then show ?thesis using step Some by auto
    qed
  qed
qed

end

section \<open>The heap as an allocator\<close>

text \<open>The allocated areas of the heap, with their addresses.\<close>

definition heap_live :: "kstate \<times> heap \<Rightarrow> (nat \<times> nat) set \<Rightarrow> bool" where
  "heap_live = (\<lambda>(s, h) A. (\<forall>(x, n) \<in> A. 0 < n) \<and>
     (\<exists>bs. heap_ready s h bs \<and> A = (\<lambda>(x, n). (unat (heap_ptr h) + x, n)) ` areas 0 bs))"

lemma heap_liveI:
  "heap_ready s h bs \<Longrightarrow> A = (\<lambda>(x, n). (unat (heap_ptr h) + x, n)) ` areas 0 bs \<Longrightarrow> \<forall>(x, n) \<in> A. 0 < n \<Longrightarrow>
     heap_live (s, h) A"
  by (auto simp: heap_live_def)

lemma heap_join_ptr [simp]: "heap_ptr (heap_join a b h) = heap_ptr h"
  by (simp add: heap_join_def Let_def)

lemma plug_holes_ptr: "plug_holes m h = Some h' \<Longrightarrow> heap_ptr h' = heap_ptr h"
  unfolding plug_holes_def Let_def by (auto split: if_splits)

lemma heap_give_ptr: "heap_give m h = Some h' \<Longrightarrow> heap_ptr h' = heap_ptr h"
  unfolding heap_give_def Let_def by (auto dest!: plug_holes_ptr simp: upd_hdr_def split: if_splits)

lemma rt_free_ptr: "rt_free p s h = Some (r, s', h') \<Longrightarrow> heap_ptr h' = heap_ptr h"
  unfolding rt_free_def free_locked_def Let_def
  by (auto simp: bind_Some_iff dest!: heap_give_ptr split: if_splits) (auto simp: bind_Some_iff dest!: heap_give_ptr split: outcome.split_asm)

lemma heap_malloc_law:
  assumes l: "heap_live (s, h) A" and sz: "unat sz + 3 < 2 ^ 32"
  shows "\<exists>r h'. rt_malloc sz s h = Some (Ret r, s, h') \<and>
     (if r = 0 then heap_live (s, h') A
      else \<exists>n. unat sz \<le> n \<and> 0 < n \<and> clear_of (unat r, n) A \<and> heap_live (s, h') (insert (unat r, n) A))"
proof (cases "sz = 0")
  case True
  then show ?thesis using l by (simp add: rt_malloc_zero)
next
  case False
  then have pos: "0 < unat sz" by (simp add: unat_gt_0)
  obtain bs where bs: "heap_ready s h bs" "A = (\<lambda>(x, n). (unat (heap_ptr h) + x, n)) ` areas 0 bs" and ne: "\<forall>(x, n) \<in> A. 0 < n"
    using l by (auto simp: heap_live_def)
  obtain r h' bs' where m: "rt_malloc sz s h = Some (Ret r, s, h')" "heap_ready s h' bs'" "heap_ptr h' = heap_ptr h"
      "if r = 0 then h' = h \<and> bs' = bs \<and>
        (\<forall>us n vs. bs = us @ (n, False) # vs \<longrightarrow> n < request (unat sz) + 12 \<or> unat (mem_size_aligned h) \<le> extent us + request (unat sz))
      else \<exists>x n. unat r = unat (heap_ptr h) + x \<and> 4 dvd unat r \<and> unat sz \<le> n \<and> 12 \<le> x \<and> x + n \<le> extent bs \<and>
        (\<forall>(y, m) \<in> areas 0 bs. x + n \<le> y \<or> y + m \<le> x) \<and> areas 0 bs' = insert (x, n) (areas 0 bs)"
    using malloc_areas [OF bs(1) pos sz] by blast
  show ?thesis
  proof (cases "r = 0")
    case True
    then show ?thesis using m l by auto
  next
    case False
    then obtain x n where x: "unat r = unat (heap_ptr h) + x" "unat sz \<le> n"
        "\<forall>(y, m) \<in> areas 0 bs. x + n \<le> y \<or> y + m \<le> x" "areas 0 bs' = insert (x, n) (areas 0 bs)"
      using m(4) by auto
    have "heap_live (s, h') (insert (unat r, n) A)"
    proof (rule heap_liveI [OF m(2)])
      show "insert (unat r, n) A = (\<lambda>(x, n). (unat (heap_ptr h') + x, n)) ` areas 0 bs'"
        by (simp add: x(1,4) m(3) bs(2))
      show "\<forall>(x, n) \<in> insert (unat r, n) A. 0 < n" using ne x(2) pos by auto
    qed
    moreover have "clear_of (unat r, n) A" using x(1,3) bs(2) by (fastforce simp: clear_of_def)
    ultimately show ?thesis using m(1) x(2) pos False by auto
  qed
qed

lemma heap_free_law:
  assumes l: "heap_live (s, h) A" and p: "(unat p, n) \<in> A"
  shows "\<exists>h'. rt_free p s h = Some (Ret (), s, h') \<and> heap_live (s, h') (A - {(unat p, n)})"
proof -
  obtain bs where bs: "heap_ready s h bs" "A = (\<lambda>(x, n). (unat (heap_ptr h) + x, n)) ` areas 0 bs" and ne: "\<forall>(x, n) \<in> A. 0 < n"
    using l by (auto simp: heap_live_def)
  obtain x where x: "(x, n) \<in> areas 0 bs" "unat p = unat (heap_ptr h) + x" using p bs(2) by auto
  have "p = heap_ptr h + off x"
  proof -
    have "of_nat (unat p) = (of_nat (unat (heap_ptr h)) + of_nat x :: rt_uint32)" by (simp only: x(2) of_nat_add)
    then show ?thesis by (simp add: off_def)
  qed
  moreover have "0 < n" using p ne by auto
  ultimately obtain h' bs' where h': "rt_free p s h = Some (Ret (), s, h')" "heap_ready s h' bs'"
      "areas 0 bs' = areas 0 bs - {(x, n)}"
    using free_areas [OF bs(1) x(1)] by auto
  have "A - {(unat p, n)} = (\<lambda>(x, n). (unat (heap_ptr h) + x, n)) ` (areas 0 bs - {(x, n)})"
    using bs(2) x(2) by auto
  then have "A - {(unat p, n)} = (\<lambda>(x, n). (unat (heap_ptr h') + x, n)) ` areas 0 bs'"
    by (simp only: h'(3) rt_free_ptr [OF h'(1)])
  then have "heap_live (s, h') (A - {(unat p, n)})" by (rule heap_liveI [OF h'(2)]) (use ne in auto)
  then show ?thesis using h'(1) by blast
qed

interpretation heap: allocator heap_live heap_malloc heap_free
proof unfold_locales
  fix h :: "kstate \<times> heap" and A and sz :: rt_uint32
  assume l: "heap_live h A" and sz: "unat sz + 3 < 2 ^ 32"
  obtain s g where h: "h = (s, g)" by (cases h)
  obtain r g' where "rt_malloc sz s g = Some (Ret r, s, g')"
      "if r = 0 then heap_live (s, g') A
       else \<exists>n. unat sz \<le> n \<and> 0 < n \<and> clear_of (unat r, n) A \<and> heap_live (s, g') (insert (unat r, n) A)"
    using heap_malloc_law [OF l [unfolded h] sz] by blast
  then show "\<exists>r h'. heap_malloc sz h = Some (Ret r, h') \<and>
      (if r = 0 then heap_live h' A
       else \<exists>n. unat sz \<le> n \<and> 0 < n \<and> clear_of (unat r, n) A \<and> heap_live h' (insert (unat r, n) A))"
    by (intro exI [of _ r] exI [of _ "(s, g')"]) (simp add: heap_malloc_def h)
next
  fix h :: "kstate \<times> heap" and A n and p :: rt_uint32
  assume l: "heap_live h A" and p: "(unat p, n) \<in> A"
  obtain s g where h: "h = (s, g)" by (cases h)
  obtain g' where "rt_free p s g = Some (Ret (), s, g')" "heap_live (s, g') (A - {(unat p, n)})"
    using heap_free_law [OF l [unfolded h] p] by blast
  then show "\<exists>h'. heap_free p h = Some (Ret (), h') \<and> heap_live h' (A - {(unat p, n)})"
    by (intro exI [of _ "(s, g')"]) (simp add: heap_free_def h)
qed (auto simp: heap_live_def)

lemma heap_live_top:
  assumes "heap_live h A" "(x, n) \<in> A"
  shows "x + n < 2 ^ 32"
proof -
  obtain s g bs y where g: "h = (s, g)" "heap_ready s g bs" "(y, n) \<in> areas 0 bs" "x = unat (heap_ptr g) + y"
    using assms by (cases h) (auto simp: heap_live_def)
  note c = heap_readyD(5) [OF g(2)]
  have "12 \<le> fst b" if "b \<in> set bs" for b using segs_sizes [OF heap_chainD(1) [OF c] that] by simp
  then have "y + n \<le> extent bs" using areas_bounds [of bs y n 0] g(3) by simp
  then show ?thesis using heap_chainD(5) [OF c] g(4) by simp
qed

lemma alloc_undo: "do { (r, h) \<leftarrow> m; (case r of Wait \<Rightarrow> Some (Wait, h) | Ret _ \<Rightarrow> Some (Ret None, h)) } = Some (Ret res, h') \<Longrightarrow>
     res = None"
proof (cases m)
  case (Some rh)
  then show "do { (r, h) \<leftarrow> m; (case r of Wait \<Rightarrow> Some (Wait, h) | Ret _ \<Rightarrow> Some (Ret None, h)) } = Some (Ret res, h') \<Longrightarrow>
     res = None" by (cases rh; cases "fst rh") auto
qed simp

text \<open>A request for nothing fails.\<close>

lemma alloc_all_zero:
  assumes "alloc_all heap_malloc heap_free got [sz, 0] h = Some (Ret res, h')"
  shows "res = None"
proof -
  obtain r h1 where m: "heap_malloc sz h = Some (r, h1)" using assms by (cases "heap_malloc sz h") auto
  have z: "heap_malloc 0 h1 = Some (Ret 0, h1)" by (cases h1) (simp add: heap_malloc_def rt_malloc_zero)
  show ?thesis
  proof (cases r)
    case (Ret p)
    then show ?thesis using assms m z
      by (cases "p = 0") (auto simp del: free_all.simps dest: alloc_undo)
  qed (use assms m in simp)
qed

text \<open>The allocations of a fresh object, and their release in any order.\<close>

lemma heap_alloc_fresh:
  assumes "heap_live h A" "list_all (\<lambda>sz. unat sz + 3 < 2 ^ 32) szs"
  shows "\<exists>r h'. alloc_all heap_malloc heap_free [] szs h = Some (Ret r, h') \<and>
     (case r of None \<Rightarrow> heap_live h' A
      | Some ps \<Rightarrow> \<exists>gs. ps = map fst gs \<and> heap_live h' (A \<union> spans gs) \<and> distinct (map fst gs) \<and> spans gs \<inter> A = {} \<and>
          list_all2 (\<lambda>sz (p, n). unat sz \<le> n \<and> p \<noteq> 0) szs gs)"
proof -
  have l: "heap_live h (A \<union> spans [])" using assms(1) by simp
  have lim: "\<And>sz. sz \<in> set szs \<Longrightarrow> unat sz + 3 < 2 ^ 32" using assms(2) by (simp add: list_all_iff)
  from heap.alloc_all_law [OF l _ _ lim] show ?thesis
    by (simp only: list.map rev.simps append_Nil distinct.simps spans_simps Int_empty_left)
qed

lemma heap_free_fresh:
  assumes "heap_live h (A \<union> spans gs)" "spans gs \<inter> A = {}" "mset (map fst hs) = mset (map fst gs)" "set hs = set gs"
    "distinct (map fst gs)"
  shows "\<exists>h'. free_all heap_free (map fst hs) h = Some (Ret (), h') \<and> heap_live h' A"
proof -
  have "spans hs = spans gs" using assms(4) by (simp add: spans_def)
  moreover have "distinct (map fst hs)" using assms(3,5) mset_eq_imp_distinct_iff by blast
  ultimately show ?thesis using heap.free_all_law [of h A hs] assms(1,2) by simp
qed

section \<open>Creating and destroying\<close>

text \<open>C24: creating a ring block buffer takes all it needs from the heap or nothing.  On a heap in order
  the call returns; without a result the allocated areas are the ones before (nothing leaks, wherever
  the three allocations fail); with a result there are three new areas, for the object, for its bytes and
  for its block set, each large enough, the object is an empty ring in order, and destroying it gives
  the three areas back and no other.  The theorem is for sizes that do not wrap 32 bits when the heap
  aligns them: \<open>buf_size + 3\<close> and the size of the block set, \<open>12 * n + 3\<close>, below \<open>2 ^ 32\<close>.  The code
  multiplies the number of blocks by the size of a block without a check, so for a larger number of blocks
  it asks for a block set that is too small.\<close>

theorem rt_rbb_create_all_or_none:
  assumes l: "heap_live h A" and sz: "unat buf_size + 3 < 2 ^ 32" "12 * unat n + 3 < 2 ^ 32" and bl: "length blks = unat n"
  shows "\<exists>res h'. rt_rbb_create buf_size n blks h = Some (Ret res, h') \<and>
     (case res of None \<Rightarrow> heap_live h' A
      | Some (rbb, blk_set, r) \<Rightarrow> \<exists>n1 n2 n3. 20 \<le> n1 \<and> unat buf_size \<le> n2 \<and> 12 * unat n \<le> n3 \<and>
          {(unat rbb, n1), (rbb_lo r, n2), (unat blk_set, n3)} \<inter> A = {} \<and>
          heap_live h' (A \<union> {(unat rbb, n1), (rbb_lo r, n2), (unat blk_set, n3)}) \<and>
          rbb_wf r \<and> rbb_blk_list r = [] \<and>
          (\<exists>h''. rt_rbb_destroy (rbb, blk_set, r) h' = Some (Ret (), h'') \<and> heap_live h'' A))"
proof -
  have n12: "unat (12 * n) = 12 * unat n" using sz(2) by (simp add: unat_word_ariths)
  have lim: "list_all (\<lambda>z. unat z + 3 < 2 ^ 32) [20, buf_size, 12 * n]" using sz n12 by simp
  obtain res h' where a: "alloc_all heap_malloc heap_free [] [20, buf_size, 12 * n] h = Some (Ret res, h')"
      "case res of None \<Rightarrow> heap_live h' A
      | Some ps \<Rightarrow> \<exists>gs. ps = map fst gs \<and> heap_live h' (A \<union> spans gs) \<and> distinct (map fst gs) \<and> spans gs \<inter> A = {} \<and>
          list_all2 (\<lambda>sz (p, n). unat sz \<le> n \<and> p \<noteq> 0) [20, buf_size, 12 * n] gs"
    using heap_alloc_fresh [OF l lim] by blast
  show ?thesis
  proof (cases res)
    case None
    then show ?thesis using a by (simp add: rt_rbb_create_def)
  next
    case (Some ps)
    then obtain rbb n1 buf n2 bs n3 where ps: "ps = [rbb, buf, bs]" and lv: "heap_live h' (A \<union> spans [(rbb, n1), (buf, n2), (bs, n3)])"
        and d: "distinct [rbb, buf, bs]" and dj: "spans [(rbb, n1), (buf, n2), (bs, n3)] \<inter> A = {}"
        and big: "20 \<le> n1" "unat buf_size \<le> n2" "12 * unat n \<le> n3" and nz: "buf \<noteq> 0"
      using a(2) n12 by (auto simp: list_all2_Cons1 simp del: spans_simps)
    define r where "r = \<lparr>rbb_buf = buf, rbb_buf_size = buf_size,
       rbb_blk_set = map (\<lambda>b. b\<lparr>blk_status := RT_RBB_BLK_UNUSED\<rparr>) blks, rbb_blk_max_num = n, rbb_blk_list = []\<rparr>"
    have init: "rt_rbb_init buf buf_size blks n = Some r" using bl nz by (simp add: rt_rbb_init_def r_def)
    have "unat buf + n2 < 2 ^ 32" using heap_live_top [OF lv, of "unat buf" n2] by simp
    then have wf: "rbb_wf r" using rt_rbb_init_wf(1) [OF init _ bl] big(2) by simp
    have cr: "rt_rbb_create buf_size n blks h = Some (Ret (Some (rbb, bs, r)), h')"
      using a(1) Some ps init by (simp add: rt_rbb_create_def)
    have "\<exists>h''. free_all heap_free (map fst [(buf, n2), (bs, n3), (rbb, n1)]) h' = Some (Ret (), h'') \<and> heap_live h'' A"
      by (rule heap_free_fresh [OF lv dj]) (use d in \<open>auto simp: add_mset_commute\<close>)
    then have ds: "\<exists>h''. rt_rbb_destroy (rbb, bs, r) h' = Some (Ret (), h'') \<and> heap_live h'' A"
      by (simp add: rt_rbb_destroy_def r_def)
    have sp: "spans [(rbb, n1), (buf, n2), (bs, n3)] = {(unat rbb, n1), (rbb_lo r, n2), (unat bs, n3)}"
      by (simp add: r_def)
    have "rbb_blk_list r = []" by (simp add: r_def)
    then show ?thesis using cr ds wf lv [unfolded sp] dj [unfolded sp] big by (intro exI [of _ "Some (rbb, bs, r)"] exI [of _ h']) auto
  qed
qed

lemma aligned_pool_size:
  assumes "unat sz < 65536"
  shows "unat (ucast (RT_ALIGN_DOWN (ucast (sz :: rt_uint16)) RT_ALIGN_SIZE) :: rt_uint16) = 4 * (unat sz div 4)"
proof -
  have "unat sz < 2 ^ 32" by (rule less_le_trans [OF assms]) simp
  then have "unat (ucast sz :: rt_uint32) = unat sz" by (simp only: unsigned_ucast_eq take_bit_nat_eq_self len_of_numeral_defs) (simp add: take_bit_nat_eq_self)
  then have "unat (RT_ALIGN_DOWN (ucast sz) 4) = 4 * (unat sz div 4)" using unat_align_down [of "ucast sz"] by simp
  moreover have "4 * (unat sz div 4) < 65536" using assms by linarith
  ultimately show ?thesis by (simp add: unsigned_ucast_eq take_bit_nat_eq_self)
qed

lemma ringbuffer_init_aligned:
  assumes w: "unat w = 4 * k" "0 < k" "4 * k < 32768" and len: "length bytes = unat w"
  shows "\<exists>r. rt_ringbuffer_init bytes w = Some r \<and> rb_wf r \<and> rb_cap r = unat w \<and> rt_ringbuffer_status r = RT_RINGBUFFER_EMPTY"
proof -
  have u32: "unat (ucast w :: rt_uint32) = unat w" using w by (simp add: unsigned_ucast_eq take_bit_nat_eq_self)
  have "- 32768 \<le> uint w \<and> uint w < 32768" using w by (simp add: uint_nat)
  then have sw: "sint w = int (unat w)" by (simp add: sint_uint signed_take_bit_int_eq_self)
  have rw: "RT_ALIGN_DOWN (ucast w) 4 = (ucast w :: rt_uint32)"
  proof (rule word_unat_eq_iff [THEN iffD2])
    have "unat (RT_ALIGN_DOWN (ucast w :: rt_uint32) 4) = 4 * (unat w div 4)" by (simp only: unat_align_down u32)
    also have "\<dots> = unat (ucast w :: rt_uint32)" unfolding u32 w by simp
    finally show "unat (RT_ALIGN_DOWN (ucast w :: rt_uint32) 4) = unat (ucast w :: rt_uint32)" .
  qed
  have cc: "ucast (ucast w :: rt_uint32) = w" by (rule bit_word_eqI) (auto simp: bit_simps)
  have wp: "0 < unat w" using w by simp
  then have up: "0 < uint w" by (metis uint_nat of_nat_0_less_iff)
  let ?r = "\<lparr>buffer_ptr = bytes, read_mirror = 0, read_index = 0, write_mirror = 0, write_index = 0, buffer_size = w\<rparr>"
  have "rt_ringbuffer_init bytes w = Some ?r" using up sw by (simp add: rt_ringbuffer_init_def rw cc)
  moreover have "rb_wf ?r \<and> rb_cap ?r = unat w"
    using up wp sw len by (simp only: rb_wf_def rb_cap_def rt_ringbuffer.simps) simp
  ultimately show ?thesis by (simp add: rt_ringbuffer_status_def)
qed

text \<open>Creating a ring buffer, of fewer than 32768 bytes, takes its object and its pool from the heap
  or nothing, and destroying it gives them back.  The size is rounded down to a multiple of four, and
  when nothing is left of it there is no buffer; a buffer that is returned is empty and in order.\<close>

theorem rt_ringbuffer_create_all_or_none:
  assumes l: "heap_live h A" and sz: "0 < sz" "unat sz < 32768" and bt: "length bytes = 4 * (unat sz div 4)"
  shows "\<exists>res h'. rt_ringbuffer_create sz bytes h = Some (Ret res, h') \<and>
     (case res of None \<Rightarrow> heap_live h' A
      | Some (rb, pool, r) \<Rightarrow> \<exists>n1 n2. 12 \<le> n1 \<and> 4 * (unat sz div 4) \<le> n2 \<and>
          {(unat rb, n1), (unat pool, n2)} \<inter> A = {} \<and> heap_live h' (A \<union> {(unat rb, n1), (unat pool, n2)}) \<and>
          rb_wf r \<and> rb_cap r = 4 * (unat sz div 4) \<and> rt_ringbuffer_status r = RT_RINGBUFFER_EMPTY \<and>
          (\<exists>h''. rt_ringbuffer_destroy (rb, pool, r) h' = Some (Ret (), h'') \<and> heap_live h'' A))"
proof -
  define w :: rt_uint16 where "w = ucast (RT_ALIGN_DOWN (ucast sz) 4)"
  have uw: "unat w = 4 * (unat sz div 4)" using aligned_pool_size [of sz] by (simp add: w_def)
  have u32: "unat (ucast w :: rt_uint32) = unat w" using uw sz(2) by (simp add: unsigned_ucast_eq take_bit_nat_eq_self)
  have lim: "list_all (\<lambda>z. unat z + 3 < 2 ^ 32) [12, ucast w :: rt_uint32]" using u32 uw sz(2) by simp
  obtain res h' where a: "alloc_all heap_malloc heap_free [] [12, ucast w] h = Some (Ret res, h')"
      "case res of None \<Rightarrow> heap_live h' A
      | Some ps \<Rightarrow> \<exists>gs. ps = map fst gs \<and> heap_live h' (A \<union> spans gs) \<and> distinct (map fst gs) \<and> spans gs \<inter> A = {} \<and>
          list_all2 (\<lambda>sz (p, n). unat sz \<le> n \<and> p \<noteq> 0) [12, ucast w :: rt_uint32] gs"
    using heap_alloc_fresh [OF l lim] by blast
  have z: "(ucast (RT_ALIGN_DOWN (ucast sz) RT_ALIGN_SIZE) :: rt_uint16) = w" by (simp add: w_def)
  show ?thesis
  proof (cases res)
    case None
    then have "rt_ringbuffer_create sz bytes h = Some (Ret None, h')"
      using a(1) sz(1) by (simp del: alloc_all.simps add: rt_ringbuffer_create_def z)
    then show ?thesis using a(2) None by (intro exI [of _ None] exI [of _ h']) simp
  next
    case (Some ps)
    then obtain rb n1 pool n2 where ps: "ps = [rb, pool]" and lv: "heap_live h' (A \<union> spans [(rb, n1), (pool, n2)])"
        and d: "distinct [rb, pool]" and dj: "spans [(rb, n1), (pool, n2)] \<inter> A = {}" and big: "12 \<le> n1" "unat w \<le> n2"
      using a(2) u32 by (auto simp: list_all2_Cons1 simp del: spans_simps)
    have "w \<noteq> 0"
    proof
      assume "w = 0"
      then have z: "ucast w = (0 :: rt_uint32)" by simp
      have "res = None" by (rule alloc_all_zero [OF a(1) [unfolded z]])
      then show False using Some by simp
    qed
    then have "0 < unat w" by (simp add: unat_gt_0)
    moreover have less_4: "4 * (unat sz div 4) < 32768" using sz(2) by linarith
    ultimately obtain r where r: "rt_ringbuffer_init bytes w = Some r" "rb_wf r" "rb_cap r = unat w" "rt_ringbuffer_status r = RT_RINGBUFFER_EMPTY"
      using ringbuffer_init_aligned [OF uw _ _ bt [folded uw]] uw less_4 by auto
    have cr: "rt_ringbuffer_create sz bytes h = Some (Ret (Some (rb, pool, r)), h')"
      using a(1) Some ps r(1) sz(1) by (simp del: alloc_all.simps add: rt_ringbuffer_create_def z)
    have "\<exists>h''. free_all heap_free (map fst [(pool, n2), (rb, n1)]) h' = Some (Ret (), h'') \<and> heap_live h'' A"
      by (rule heap_free_fresh [OF lv dj]) (use d in auto)
    then have "\<exists>h''. rt_ringbuffer_destroy (rb, pool, r) h' = Some (Ret (), h'') \<and> heap_live h'' A"
      by (simp add: rt_ringbuffer_destroy_def)
    then show ?thesis using cr r lv dj big uw by (intro exI [of _ "Some (rb, pool, r)"] exI [of _ h']) auto
  qed
qed

text \<open>A device that was just created is not a device object yet, so it cannot be destroyed.\<close>

lemma device_create_not_destroyed:
  "rt_device_create so ty at ds h = Some (Ret (Some i), ds', h') \<Longrightarrow> rt_device_destroy i ds' h' = None"
proof -
  assume c: "rt_device_create so ty at ds h = Some (Ret (Some i), ds', h')"
  obtain r k h1 where m: "rt_malloc (RT_ALIGN so RT_ALIGN_SIZE + RT_ALIGN at RT_ALIGN_SIZE) (ds_kernel ds) h = Some (r, k, h1)"
    using c by (auto simp: rt_device_create_def bind_Some_iff Let_def)
  then obtain p where "r = Ret p" "p \<noteq> 0" using c by (cases r) (auto simp: rt_device_create_def Let_def split: if_splits)
  then have "o_type (k_objs (ds_kernel ds') (KDevice i)) = 0"
    using c m by (auto simp: rt_device_create_def zero_object_def Let_def)
  then show ?thesis by (simp add: rt_device_destroy_def assert_device_def rt_object_get_type_def)
qed

lemma object_init_type: "rt_object_init k ty name s = Some s' \<Longrightarrow> o_type (k_objs s' k) = ty OR RT_Object_Class_Static"
  by (auto simp: rt_object_init_def bind_Some_iff Let_def)

text \<open>No device can be destroyed.  Registration marks the object of a device as static, and
  destroying asserts that it is not; unregistering takes the type off the object, and destroying asserts
  that it has it.  So, once registered, a device made on the heap never goes back to the heap: destroying
  it stops at an assertion, before and after it is unregistered.\<close>

theorem rt_device_destroy_unusable:
  assumes "rt_device_register (Some i) name flags ds = Some (RT_EOK, ds')"
  shows "rt_device_destroy i ds' h = None \<and>
     (\<exists>ds''. rt_device_unregister i ds' = Some (RT_EOK, ds'') \<and> rt_device_destroy i ds'' h = None)"
proof -
  obtain k where "rt_object_init (KDevice i) RT_Object_Class_Device name k = Some (ds_kernel ds')"
    using assms by (auto simp: rt_device_register_def bind_Some_iff Let_def split: if_splits)
  then have "o_type (k_objs (ds_kernel ds') (KDevice i)) = 0x89" using object_init_type by fastforce
  then show ?thesis
    by (simp add: rt_device_destroy_def rt_device_unregister_def assert_device_def rt_object_get_type_def
        rt_object_is_systemobject_def rt_object_detach_def Let_def)
qed

end
