(* ===== verification/DriverWitness.thy ===== *)
theory DriverWitness
  imports Witness DriverAlloc
begin

text \<open>
  The properties of the device framework and of the driver objects at concrete inputs: a device with
  a driver whose closing fails, registration in the sample system, objects created on the sample heap.
\<close>

section \<open>Devices\<close>

text \<open>A driver that can be initialised and opened, and cannot be closed.\<close>

definition stiff_driver :: "unit rt_device_ops" where
  "stiff_driver = \<lparr>op_init = Some (\<lambda>i ds. Some (RT_EOK, ds)), op_open = None,
     op_close = Some (\<lambda>i ds. Some (- RT_ERROR, ds)), op_read = None, op_write = None, op_control = None\<rparr>"

lemma stiff_driver_ok: "driver_ok i stiff_driver"
  by (simp add: driver_ok_def stiff_driver_def)

text \<open>The sample system, where no device is registered.\<close>

definition sample_devices :: "unit dsys" where
  "sample_devices = \<lparr>ds_kernel = sample (KSem 0), ds_devices = (\<lambda>_. zero_device), ds_driver = ()\<rparr>"

lemma sample_devices_fields [simp]:
  "ds_kernel sample_devices = sample (KSem 0)" "k_olists (sample w) RT_Object_Class_Device = []"
  by (simp_all add: sample_devices_def sample_fields sample_objects_def)

lemma sample_register:
  "\<exists>ds'. rt_device_register (Some 3) [117, 97, 114, 116] 0x008 sample_devices = Some (RT_EOK, ds') \<and>
     dv_flag (dev ds' 3) = 0x008 \<and> dv_ref_count (dev ds' 3) = 0 \<and> dv_open_flag (dev ds' 3) = 0"
proof -
  have ok: "sys_ok (ds_kernel sample_devices)" by simp
  obtain s1 where s1: "rt_device_find [117, 97, 114, 116] (ds_kernel sample_devices) = Some (None, s1)" "sys_ok s1"
      "k_olists s1 = k_olists (ds_kernel sample_devices)"
    using rt_device_find_total [OF ok, of "[117, 97, 114, 116]"] by (auto simp: as_device_def)
  moreover obtain s2 where "rt_object_init (KDevice 3) RT_Object_Class_Device [117, 97, 114, 116] s1 = Some s2"
    using device_object_init [OF s1(2), of 3 "[117, 97, 114, 116]"] s1(3) by auto
  ultimately show ?thesis by (simp add: rt_device_register_def)
qed

theorem rt_device_register_unique_witness:
  "\<exists>e ds'. rt_device_register (Some 3) [117, 97, 114, 116] 0x008 sample_devices = Some (e, ds') \<and> e = RT_EOK \<and>
     (\<exists>s'. rt_device_find [117, 97, 114, 116] (ds_kernel ds') = Some (Some 3, s'))"
  using rt_device_register_unique [of sample_devices 3 "[117, 97, 114, 116]" "0x008"]
  by (simp add: names_unique_def name_taken_def) blast

theorem rt_device_destroy_unusable_witness:
  "\<exists>ds'. rt_device_register (Some 3) [117, 97, 114, 116] 0x008 sample_devices = Some (RT_EOK, ds') \<and>
     rt_device_destroy 3 ds' sample_heap = None"
proof -
  obtain ds' where "rt_device_register (Some 3) [117, 97, 114, 116] 0x008 sample_devices = Some (RT_EOK, ds')"
    using sample_register by blast
  then show ?thesis using rt_device_destroy_unusable by blast
qed

text \<open>A stand-alone device, closed, and the same device with one user.\<close>

definition one_device :: "rt_uint16 \<Rightarrow> rt_uint8 \<Rightarrow> unit dsys" where
  "one_device open_flag n = \<lparr>ds_kernel = upd_obj (KDevice 3) (\<lambda>ob. ob\<lparr>o_type := 0x89\<rparr>) zero_state,
     ds_devices = (\<lambda>_. zero_device)(3 := zero_device\<lparr>dv_flag := 0x018, dv_open_flag := open_flag, dv_ref_count := n\<rparr>),
     ds_driver = ()\<rparr>"

lemma one_device_inv: "dev_inv 3 (one_device 0 0)" "dev_inv 3 (one_device 8 1)"
  by (simp_all add: dev_inv_def one_device_def is_device_def rt_object_get_type_def marked_open_def activated_def
      standalone_def zero_device_def)

theorem rt_device_open_counts_witness:
  "(\<exists>ds'. rt_device_open stiff_driver 3 3 (one_device 0 0) = Some (RT_EOK, ds') \<and> users ds' 3 = 1) \<and>
   rt_device_open stiff_driver 3 3 (one_device 8 1) = Some (- RT_EBUSY, one_device 8 1)"
proof (rule conjI)
  have "map_option fst (rt_device_open stiff_driver 3 3 (one_device 0 0)) = Some RT_EOK"
    by (simp add: rt_device_open_def device_activate_def one_device_def stiff_driver_def assert_device_def
        rt_object_get_type_def activated_def zero_device_def)
  then show "\<exists>ds'. rt_device_open stiff_driver 3 3 (one_device 0 0) = Some (RT_EOK, ds') \<and> users ds' 3 = 1"
    using rt_device_open_counts [OF one_device_inv(1) stiff_driver_ok, of 3] by (auto simp: one_device_def zero_device_def)
  have "standalone (dev (one_device 8 1) 3) \<and> 0 < users (one_device 8 1) 3"
    by (simp add: one_device_def standalone_def)
  then show "rt_device_open stiff_driver 3 3 (one_device 8 1) = Some (- RT_EBUSY, one_device 8 1)"
    using rt_device_open_counts [OF one_device_inv(2) stiff_driver_ok, of 3] by (auto simp: one_device_def)
qed

theorem rt_device_close_cases_witness:
  "\<exists>r ds'. rt_device_close stiff_driver 3 (one_device 8 1) = Some (r, ds') \<and> r = - RT_ERROR \<and> marked_open (dev ds' 3) \<and>
     users ds' 3 = 0 \<and> rt_device_close stiff_driver 3 ds' = Some (- RT_ERROR, ds')"
proof -
  have "map_option fst (rt_device_close stiff_driver 3 (one_device 8 1)) = Some (- RT_ERROR)"
    by (simp add: rt_device_close_def one_device_def stiff_driver_def assert_device_def rt_object_get_type_def)
  then show ?thesis using rt_device_close_cases [OF one_device_inv(2) stiff_driver_ok]
    by (auto simp: one_device_def)
qed

section \<open>Driver objects on the heap\<close>

lemma sample_heap_live: "heap_live (sample (KSem 0), sample_heap) {(0x2000200C, 24)}"
  by (rule heap_liveI [OF sample_heap_ready]) (simp_all add: sample_areas sample_heap_def)

theorem rt_rbb_create_all_or_none_witness:
  "\<exists>res h'. rt_rbb_create 16 1 [blank_blk] (sample (KSem 0), sample_heap) = Some (Ret res, h') \<and>
     (res = None \<longrightarrow> heap_live h' {(0x2000200C, 24)}) \<and>
     (\<forall>ob. res = Some ob \<longrightarrow> (\<exists>h''. rt_rbb_destroy ob h' = Some (Ret (), h'') \<and> heap_live h'' {(0x2000200C, 24)}))"
  using rt_rbb_create_all_or_none [OF sample_heap_live, of 16 1 "[blank_blk]"] by (fastforce split: option.splits prod.splits)

theorem rt_ringbuffer_create_all_or_none_witness:
  "\<exists>res h'. rt_ringbuffer_create 19 (replicate 16 0) (sample (KSem 0), sample_heap) = Some (Ret res, h') \<and>
     (res = None \<longrightarrow> heap_live h' {(0x2000200C, 24)}) \<and>
     (\<forall>rb pool r. res = Some (rb, pool, r) \<longrightarrow> rb_wf r \<and> rb_cap r = 16)"
  using rt_ringbuffer_create_all_or_none [OF sample_heap_live, of 19 "replicate 16 0"] by (fastforce split: option.splits prod.splits)

end
