(* ===== verification/OuterWait.thy ===== *)
theory OuterWait
  imports Clock
begin

text \<open>
  Waiting on a list that does not belong to a kernel object.  The driver library
  (\<^verbatim>\<open>components/drivers/src\<close>) suspends threads on lists of its own: those of completions and of data
  queues.  \<open>wait_outer\<close> is the part their blocking operations share, from the reset of the error
  number to \<^verbatim>\<open>rt_schedule\<close>; waking the first thread is \<open>wake_first\<close> of the kernel objects.
\<close>

definition wait_outer :: "outer_list \<Rightarrow> tid \<Rightarrow> int \<Rightarrow> kstate \<Rightarrow> kstate option" where
  "wait_outer w t time s = do {
     let s = upd_thread t (\<lambda>th. th\<lparr>th_error := RT_EOK\<rparr>) s;
     (_, s) \<leftarrow> rt_thread_suspend t s;
     let s = s\<lparr>k_tlists := (k_tlists s)(Outer w := k_tlists s (Outer w) @ [t])\<rparr>;
     wait_finish t time s
   }"

lemma outer_head [simp]: "wait_head (Outer w) k"
  by (simp add: wait_head_def)

lemma wait_outer_eq:
  "wait_outer w t time s = wait_on (Outer w) t RT_IPC_FLAG_FIFO time (upd_thread t (\<lambda>th. th\<lparr>th_error := RT_EOK\<rparr>) s)"
  by (cases "rt_thread_suspend t (upd_thread t (\<lambda>th. th\<lparr>th_error := RT_EOK\<rparr>) s)")
    (auto simp: wait_outer_def wait_on_def rt_ipc_list_suspend_def wait_insert_def Let_def)

text \<open>A running thread goes to the end of the list; no other waiting list changes.\<close>

lemma wait_outer_run:
  assumes ok: "sys_ok s" and t: "running_in t s" and time: "time < 0x7FFFFFFF"
  obtains s' where "wait_outer w t time s = Some s'" "sys_ok s'" "core_frame s s'"
    "tstat s' t = RT_THREAD_SUSPEND" "th_error (thread s' t) = RT_EOK"
    "k_tlists s' (Outer w) = k_tlists s (Outer w) @ [t]"
    "\<And>j. j \<noteq> Outer w \<Longrightarrow> \<forall>p. j \<noteq> Ready p \<Longrightarrow> k_tlists s' j = k_tlists s j"
proof -
  let ?s1 = "upd_thread t (\<lambda>th. th\<lparr>th_error := RT_EOK\<rparr>) s"
  have ok1: "sys_ok ?s1" using ok by simp
  have c: "k_current ?s1 = Some t" "tstat ?s1 t = RT_THREAD_RUNNING" using t by (simp_all add: running_in_def)
  have tg: "head_target (Outer w) (KSem 0) ?s1" by simp
  have fl: "ipc_flag_ok RT_IPC_FLAG_FIFO" by simp
  obtain s' where s': "wait_on (Outer w) t RT_IPC_FLAG_FIFO time ?s1 = Some s'" "sys_ok s'"
    by (rule wait_on_total [OF ok1 c outer_head tg fl time])
  have run: "runnable (tstat ?s1 t)" using c by (simp add: runnable_def)
  note W = wait_on_ok [OF sys_okD(1) [OF ok1] run outer_head tg fl s'(1)]
  have fr: "core_frame s s'" by (rule core_frame_trans [OF core_frame_error W(2)])
  show thesis
    by (rule that [OF s'(1) [folded wait_outer_eq] s'(2) fr W(5)]) (use W(3,4,6) in \<open>simp_all add: wait_insert_def\<close>)
qed

lemma sched_step_suspended:
  assumes "sched_step s s'" "tstat s u = RT_THREAD_SUSPEND"
  shows "tstat s' u = RT_THREAD_SUSPEND"
proof -
  have "tstat s' u = tstat s u \<or> runnable (tstat s' u) \<and> runnable (tstat s u)" using assms(1) by (simp add: sched_step_def)
  then show ?thesis using assms(2) by (auto simp: runnable_def)
qed

text \<open>When its time is over, a waiting thread leaves the list it is in and its error number says so.\<close>

lemma timeout_leaves:
  assumes ok: "sys_ok s" and st: "tstat s t = RT_THREAD_SUSPEND" and un: "unlinked (ThreadTimer t) (k_tmlists s)"
  obtains s' where "rt_thread_timeout t s = Some s'" "sys_ok s'" "th_error (thread s' t) = - RT_ETIMEOUT"
    "runnable (tstat s' t)" "\<And>h. \<forall>p. h \<noteq> Ready p \<Longrightarrow> k_tlists s' h = removeAll t (k_tlists s h)"
    "\<And>u. u \<noteq> t \<Longrightarrow> tstat s u = RT_THREAD_SUSPEND \<Longrightarrow> tstat s' u = RT_THREAD_SUSPEND"
proof -
  obtain s' where s': "rt_thread_timeout t s = Some s'" "sys_ok s'"
    by (rule rt_thread_timeout_total [OF ok st un])
  let ?s1 = "upd_thread t (\<lambda>th. th\<lparr>th_error := - RT_ETIMEOUT\<rparr>) s"
  let ?s2 = "?s1\<lparr>k_tlists := tbl_remove t (k_tlists s)\<rparr>"
  obtain s3 where s3: "rt_schedule_insert_thread t ?s2 = Some s3" "rt_schedule s3 = Some s'"
    using s'(1) by (auto simp: rt_thread_timeout_def bind_Some_iff Let_def)
  have i: "th_error (thread s3 t) = - RT_ETIMEOUT" "runnable (tstat s3 t)"
    "\<And>h. \<forall>p. h \<noteq> Ready p \<Longrightarrow> k_tlists s3 h = removeAll t (k_tlists s h)"
    "\<And>u. u \<noteq> t \<Longrightarrow> tstat s3 u = tstat s u"
    using s3(1) by (auto simp: rt_schedule_insert_thread_def Let_def runnable_def rt_flag_simps split: if_splits)
  have "sched_inv {} (?s1\<lparr>k_tlists := tbl_remove t (k_tlists ?s1)\<rparr>)"
    using kinvD(1) [OF kinv_unlink_waiting [OF kinv_upd_error [OF sys_okD(2) [OF ok]]]] st by simp
  then have "sched_inv ({} - {t}) s3"
    using insert_thread_inv [of "{}" ?s2 t s3] s3(1) st by simp
  then have S: "sched_step s3 s'" using rt_schedule_step [OF _ s3(2)] by simp
  then have e: "th_error (thread s' t) = th_error (thread s3 t)" using sched_frame_thread by (auto simp: sched_step_def)
  have r: "runnable (tstat s' t)" using S i(2) unfolding sched_step_def by metis
  have o: "tstat s u = RT_THREAD_SUSPEND \<Longrightarrow> tstat s' u = RT_THREAD_SUSPEND" if "u \<noteq> t" for u
    using sched_step_suspended [OF S, of u] i(4) [OF that] by simp
  show thesis by (rule that [OF s' _ r _ o]) (use i S e in \<open>auto simp: sched_step_def\<close>)
qed

text \<open>Leaving a critical section: the scheduler may run, and nothing else happens.\<close>

lemma exit_critical_run:
  assumes ok: "sys_ok s"
  obtains s' where "rt_exit_critical s = Some s'" "sys_ok s'" "\<And>h. \<forall>p. h \<noteq> Ready p \<Longrightarrow> k_tlists s' h = k_tlists s h"
    "\<And>t. runnable (tstat s' t) \<longleftrightarrow> runnable (tstat s t)" "\<And>t. th_error (thread s' t) = th_error (thread s t)"
    "k_sems s' = k_sems s"
proof -
  let ?s = "s\<lparr>k_lock_nest := 0\<rparr>"
  have ok0: "sys_ok ?s" using ok by simp
  obtain s1 where s1: "rt_schedule ?s = Some s1" "sys_ok s1" "core_frame ?s s1"
    "\<And>h. \<forall>p. h \<noteq> Ready p \<Longrightarrow> k_tlists s1 h = k_tlists ?s h"
    "\<And>t. runnable (tstat s1 t) \<longleftrightarrow> runnable (tstat ?s t)" "\<And>t. th_error (thread s1 t) = th_error (thread ?s t)"
    by (rule rt_schedule_run [OF ok0]) (rule that; assumption)
  obtain c where c: "k_current s = Some c" using ok by (auto simp: sys_ok_def)
  show thesis
  proof (cases "sint (k_lock_nest s - 1) \<le> 0")
    case True
    then have "rt_exit_critical s = Some s1" using s1(1) c by (simp add: rt_exit_critical_def)
    then show thesis by (rule that) (use s1 core_frame_fields(1) [OF s1(3)] in simp_all)
  next
    case False
    then have "rt_exit_critical s = Some (s\<lparr>k_lock_nest := k_lock_nest s - 1\<rparr>)" by (simp add: rt_exit_critical_def)
    then show thesis by (rule that) (use ok in simp_all)
  qed
qed

section \<open>Suspending without a list\<close>

text \<open>A running thread suspends itself and gives the processor away; no waiting list changes.\<close>

lemma suspend_self_run:
  assumes ok: "sys_ok s" and t: "running_in t s" and time: "time < 0x7FFFFFFF"
  obtains e s1 s' where "rt_thread_suspend t s = Some (e, s1)" "wait_finish t time s1 = Some s'" "sys_ok s'"
    "tstat s' t = RT_THREAD_SUSPEND" "\<And>h. \<forall>p. h \<noteq> Ready p \<Longrightarrow> k_tlists s' h = k_tlists s h"
    "\<And>u. u \<noteq> t \<Longrightarrow> tstat s' u = tstat s u \<or> runnable (tstat s' u) \<and> runnable (tstat s u)"
proof -
  note K = sys_okD(1) [OF ok]
  have c: "k_current s = Some t" "tstat s t = RT_THREAD_RUNNING" using t by (simp_all add: running_in_def)
  have run: "runnable (tstat s t)" "live (tstat s t)" using c(2) by (simp_all add: runnable_def live_def)
  obtain s1 where s1: "rt_thread_suspend t s = Some (RT_EOK, s1)" by (rule thread_suspend_total [OF K c(2)])
  note E = thread_suspend_effect [OF run(1) s1] and S = thread_suspend_frame [OF s1]
  have ok1: "kernel_ok s1" using K s1 by (rule kernel_ok_suspend)
  have un: "tbl_remove t (k_tlists s) = k_tlists s"
    using unlinked_if_running [OF sys_okD(3) [OF ok] c(2)] by (simp add: unlinked_def fun_eq_iff removeAll_notin)
  have st: "tstat s1 t = RT_THREAD_SUSPEND" using E(3) by (simp add: rt_flag_simps)
  have oth: "thread s1 u = thread s u" if "u \<noteq> t" for u using E(3) that by simp
  obtain s' where s': "wait_finish t time s1 = Some s'" "sys_ok s'"
    by (rule wait_finish_total [OF ok ok1 S(1,2) run(2) st oth time])
  note F = wait_finish_ok [OF ok1 st s'(1)]
  have o: "tstat s' u = tstat s u \<or> runnable (tstat s' u) \<and> runnable (tstat s u)" if "u \<noteq> t" for u
    using F(6) [of u] oth [OF that] by simp
  show thesis by (rule that [OF s1 s' F(4) _ o]) (simp_all add: F(3) E(2) un)
qed

end
