(* ===== verification/Completion.thy ===== *)
theory Completion
  imports OuterWait
begin

text \<open>
  Completions, \<^verbatim>\<open>components/drivers/src/completion.c\<close>: a flag that one thread waits for, usually set
  by an interrupt handler.  The waiting list of completion \<open>i\<close> is the list \<open>Outer (Completion i)\<close> of the
  kernel state; \<open>rt_completion_wait_resume\<close> is what a suspended caller does when it runs again.
\<close>

section \<open>Operations\<close>

abbreviation (input) RT_COMPLETED :: rt_uint32 where "RT_COMPLETED \<equiv> 1"
abbreviation (input) RT_UNCOMPLETED :: rt_uint32 where "RT_UNCOMPLETED \<equiv> 0"

text \<open>The completions, each of which is its flag, and the kernel they are used on.\<close>

record csys =
  cs_flag :: "oid \<Rightarrow> rt_uint32"
  cs_kernel :: kstate

definition set_flag :: "oid \<Rightarrow> rt_uint32 \<Rightarrow> csys \<Rightarrow> csys" where
  "set_flag i v c = c\<lparr>cs_flag := (cs_flag c)(i := v)\<rparr>"

definition rt_completion_init :: "oid \<Rightarrow> csys \<Rightarrow> csys" where
  "rt_completion_init i c =
     (let c = set_flag i RT_UNCOMPLETED c;
          k = cs_kernel c
      in c\<lparr>cs_kernel := k\<lparr>k_tlists := (k_tlists k)(Outer (Completion i) := [])\<rparr>\<rparr>)"

definition rt_completion_wait :: "oid \<Rightarrow> int \<Rightarrow> csys \<Rightarrow> (rt_err outcome \<times> csys) option" where
  "rt_completion_wait i time c =
     (if cs_flag c i \<noteq> RT_COMPLETED
      then do {
        rt_assert (k_tlists (cs_kernel c) (Outer (Completion i)) = []);
        if time = 0 then Some (Ret (- RT_ETIMEOUT), c)
        else do {
          t \<leftarrow> rt_thread_self (cs_kernel c);
          rt_debug_not_in_interrupt (cs_kernel c);
          k \<leftarrow> wait_outer (Completion i) t time (cs_kernel c);
          Some (Wait, c\<lparr>cs_kernel := k\<rparr>)
        }
      }
      else Some (Ret RT_EOK, set_flag i RT_UNCOMPLETED c))"

definition rt_completion_wait_resume :: "oid \<Rightarrow> tid \<Rightarrow> csys \<Rightarrow> rt_err \<times> csys" where
  "rt_completion_wait_resume i t c = (th_error (thread (cs_kernel c) t), set_flag i RT_UNCOMPLETED c)"

definition rt_completion_done :: "oid \<Rightarrow> csys \<Rightarrow> csys option" where
  "rt_completion_done i c =
     (if cs_flag c i = RT_COMPLETED then Some c
      else do {
        let c = set_flag i RT_COMPLETED c;
        k \<leftarrow> wake_first (Outer (Completion i)) (cs_kernel c);
        Some (c\<lparr>cs_kernel := k\<rparr>)
      })"

section \<open>Specification\<close>

text \<open>A completion is done or not, and has the thread that waits for it.  No more than one waits, and
  none while it is done.\<close>

definition comp_abs :: "oid \<Rightarrow> csys \<Rightarrow> bool \<times> tid list" where
  "comp_abs i c = (cs_flag c i = RT_COMPLETED, k_tlists (cs_kernel c) (Outer (Completion i)))"

definition comp_ok :: "oid \<Rightarrow> csys \<Rightarrow> bool" where
  "comp_ok i c \<longleftrightarrow> (case comp_abs i c of (done_now, ts) \<Rightarrow> length ts \<le> 1 \<and> (done_now \<longrightarrow> ts = []))"

fun comp_wait_spec :: "int \<Rightarrow> tid \<Rightarrow> bool \<times> tid list \<Rightarrow> (rt_err outcome \<times> bool \<times> tid list) option" where
  "comp_wait_spec time t (True, ts) = Some (Ret RT_EOK, False, ts)"
| "comp_wait_spec time t (False, []) =
     Some (if time = 0 then (Ret (- RT_ETIMEOUT), False, []) else (Wait, False, [t]))"
| "comp_wait_spec time t (False, _ # _) = None"

definition comp_done_spec :: "bool \<times> tid list \<Rightarrow> bool \<times> tid list" where
  "comp_done_spec a = (True, tl (snd a))"

lemma set_flag_fields [simp]:
  "cs_kernel (set_flag i v c) = cs_kernel c" "cs_flag (set_flag i v c) i = v"
  "j \<noteq> i \<Longrightarrow> cs_flag (set_flag i v c) j = cs_flag c j"
  by (simp_all add: set_flag_def)

lemma comp_absD:
  "comp_abs i c = (d, ts) \<Longrightarrow> (cs_flag c i = RT_COMPLETED) = d \<and> k_tlists (cs_kernel c) (Outer (Completion i)) = ts"
  by (simp add: comp_abs_def)

lemma rt_completion_init_abs: "comp_abs i (rt_completion_init i c) = (False, [])" "comp_ok i (rt_completion_init i c)"
  by (simp_all add: comp_ok_def comp_abs_def rt_completion_init_def Let_def)

section \<open>Refinement\<close>

text \<open>C25: waiting for a completion refines its specification.  For a running thread, a completion that
  is done is taken (it is not done any more) and the call returns \<^verbatim>\<open>RT_EOK\<close>; one that is not done, with
  nobody waiting, makes the call return \<^verbatim>\<open>RT_ETIMEOUT\<close> when there is no time limit to wait, and else
  suspends the caller as the one waiting thread, with its error number clear; when another thread waits
  already, the assertion of the code stops the call.  The other completions are not touched.\<close>

theorem rt_completion_wait_refines:
  assumes ok: "sys_ok (cs_kernel c)" and t: "running_in t (cs_kernel c)" and co: "comp_ok i c"
    and time: "time < 0x7FFFFFFF"
  shows "case comp_wait_spec time t (comp_abs i c) of
       None \<Rightarrow> rt_completion_wait i time c = None
     | Some (r, a) \<Rightarrow> \<exists>c'. rt_completion_wait i time c = Some (r, c') \<and> comp_abs i c' = a \<and>
         sys_ok (cs_kernel c') \<and> comp_ok i c' \<and> (\<forall>j. j \<noteq> i \<longrightarrow> comp_abs j c' = comp_abs j c) \<and>
         (r = Wait \<longrightarrow> tstat (cs_kernel c') t = RT_THREAD_SUSPEND \<and> th_error (thread (cs_kernel c') t) = RT_EOK)"
proof -
  obtain d ts where a: "comp_abs i c = (d, ts)" by fastforce
  note A = comp_absD [OF a]
  show ?thesis
  proof (cases d)
    case True
    then show ?thesis using a A ok co
      by (auto simp: rt_completion_wait_def comp_ok_def comp_abs_def)
  next
    case False
    show ?thesis
    proof (cases ts)
      case (Cons u us)
      then show ?thesis using a A False by (simp add: rt_completion_wait_def)
    next
      case Nil
      show ?thesis
      proof (cases "time = 0")
        case True
        then show ?thesis using a A False Nil ok co by (auto simp: rt_completion_wait_def)
      next
        case n0: False
        obtain k where k: "wait_outer (Completion i) t time (cs_kernel c) = Some k" "sys_ok k" "core_frame (cs_kernel c) k"
          "tstat k t = RT_THREAD_SUSPEND" "th_error (thread k t) = RT_EOK"
          "k_tlists k (Outer (Completion i)) = k_tlists (cs_kernel c) (Outer (Completion i)) @ [t]"
          "\<And>j. j \<noteq> Outer (Completion i) \<Longrightarrow> \<forall>p. j \<noteq> Ready p \<Longrightarrow> k_tlists k j = k_tlists (cs_kernel c) j"
          by (rule wait_outer_run [OF ok t time]) (rule that; assumption)
        have "rt_completion_wait i time c = Some (Wait, c\<lparr>cs_kernel := k\<rparr>)"
          using A False Nil n0 t k(1) by (simp add: rt_completion_wait_def context_checks)
        then show ?thesis using a A False Nil n0 k(2,4-7) by (simp add: comp_abs_def comp_ok_def)
      qed
    qed
  qed
qed

lemma completion_done_run:
  assumes ok: "sys_ok (cs_kernel c)" and co: "comp_ok i c"
  shows "\<exists>c'. rt_completion_done i c = Some c' \<and> comp_abs i c' = comp_done_spec (comp_abs i c) \<and>
     sys_ok (cs_kernel c') \<and> comp_ok i c' \<and> (\<forall>j. j \<noteq> i \<longrightarrow> comp_abs j c' = comp_abs j c) \<and>
     (\<forall>t \<in> set (snd (comp_abs i c)). runnable (tstat (cs_kernel c') t)) \<and>
     (\<forall>t. th_error (thread (cs_kernel c') t) = th_error (thread (cs_kernel c) t))"
proof (cases "cs_flag c i = RT_COMPLETED")
  case True
  then show ?thesis using ok co by (simp add: rt_completion_done_def comp_done_spec_def comp_abs_def comp_ok_def)
next
  case False
  obtain k where k: "wake_first (Outer (Completion i)) (cs_kernel c) = Some k" "sys_ok k" "core_frame (cs_kernel c) k"
    "k_tlists k (Outer (Completion i)) = tl (k_tlists (cs_kernel c) (Outer (Completion i)))"
    "\<And>j. j \<noteq> Outer (Completion i) \<Longrightarrow> \<forall>p. j \<noteq> Ready p \<Longrightarrow> k_tlists k j = k_tlists (cs_kernel c) j"
    "\<And>t ts. k_tlists (cs_kernel c) (Outer (Completion i)) = t # ts \<Longrightarrow> runnable (tstat k t)"
    "\<And>t. th_error (thread k t) = th_error (thread (cs_kernel c) t)"
    by (rule wake_first_run [OF ok outer_head]) (rule that; assumption)
  have d: "rt_completion_done i c = Some ((set_flag i RT_COMPLETED c)\<lparr>cs_kernel := k\<rparr>)"
    using False k(1) by (simp add: rt_completion_done_def)
  have l: "length (k_tlists (cs_kernel c) (Outer (Completion i))) \<le> 1" using co by (simp add: comp_ok_def comp_abs_def)
  then have e: "tl (k_tlists (cs_kernel c) (Outer (Completion i))) = []"
    by (cases "k_tlists (cs_kernel c) (Outer (Completion i))") auto
  have r: "runnable (tstat k t)" if "t \<in> set (k_tlists (cs_kernel c) (Outer (Completion i)))" for t
    using that l k(6) by (cases "k_tlists (cs_kernel c) (Outer (Completion i))") auto
  show ?thesis unfolding d using k(2,4,5,7) e r
    by (simp add: comp_abs_def comp_ok_def comp_done_spec_def)
qed

text \<open>C26: completing refines its specification and reaches the waiting thread.  Whatever the caller, a
  thread or an interrupt handler, the completion is done afterwards and nobody waits for it; a thread
  that waited can run, and when it does it returns \<^verbatim>\<open>RT_EOK\<close> and leaves the completion not done.
  Completing twice is the same as completing once.\<close>

theorem rt_completion_done_refines:
  assumes ok: "sys_ok (cs_kernel c)" and co: "comp_ok i c"
  shows "\<exists>c'. rt_completion_done i c = Some c' \<and> comp_abs i c' = comp_done_spec (comp_abs i c) \<and>
     sys_ok (cs_kernel c') \<and> comp_ok i c' \<and> (\<forall>j. j \<noteq> i \<longrightarrow> comp_abs j c' = comp_abs j c) \<and>
     rt_completion_done i c' = Some c' \<and>
     (\<forall>t \<in> set (snd (comp_abs i c)). runnable (tstat (cs_kernel c') t) \<and>
        (th_error (thread (cs_kernel c) t) = RT_EOK \<longrightarrow>
           fst (rt_completion_wait_resume i t c') = RT_EOK \<and>
           comp_abs i (snd (rt_completion_wait_resume i t c')) = (False, [])))"
proof -
  obtain c' where c': "rt_completion_done i c = Some c'" "comp_abs i c' = comp_done_spec (comp_abs i c)"
      "sys_ok (cs_kernel c')" "comp_ok i c'" "\<forall>j. j \<noteq> i \<longrightarrow> comp_abs j c' = comp_abs j c"
      "\<forall>t \<in> set (snd (comp_abs i c)). runnable (tstat (cs_kernel c') t)"
      "\<And>t. th_error (thread (cs_kernel c') t) = th_error (thread (cs_kernel c) t)"
    using completion_done_run [OF assms] by blast
  have d: "comp_abs i c' = (True, [])" using c'(2,4) by (simp add: comp_ok_def comp_done_spec_def)
  then have "comp_abs i (snd (rt_completion_wait_resume i t c')) = (False, [])" for t
    by (simp add: rt_completion_wait_resume_def comp_abs_def)
  moreover have "rt_completion_done i c' = Some c'" using d by (simp add: rt_completion_done_def comp_abs_def)
  ultimately show ?thesis using c' by (intro exI [of _ c']) (simp add: rt_completion_wait_resume_def)
qed

text \<open>A completion can be lost.  When the time limit of the waiting thread is over and the completion
  is done before that thread runs again, the thread returns \<^verbatim>\<open>RT_ETIMEOUT\<close>, and it clears the flag on
  its way out: nothing is left of the completion, and the next wait for it times out.\<close>

theorem rt_completion_timeout_loses:
  assumes ok: "sys_ok (cs_kernel c)" and w: "comp_abs i c = (False, [t])"
    and un: "unlinked (ThreadTimer t) (k_tmlists (cs_kernel c))"
  shows "\<exists>k c1. rt_thread_timeout t (cs_kernel c) = Some k \<and> rt_completion_done i (c\<lparr>cs_kernel := k\<rparr>) = Some c1 \<and>
     comp_abs i c1 = (True, []) \<and>
     (case rt_completion_wait_resume i t c1 of (e, c2) \<Rightarrow>
        e = - RT_ETIMEOUT \<and> comp_abs i c2 = (False, []) \<and> rt_completion_wait i 0 c2 = Some (Ret (- RT_ETIMEOUT), c2))"
proof -
  note A = comp_absD [OF w]
  have st: "tstat (cs_kernel c) t = RT_THREAD_SUSPEND"
    using waiting_suspended [OF sys_okD(1) [OF ok] outer_head, of t "Completion i"] A by simp
  obtain k where k: "rt_thread_timeout t (cs_kernel c) = Some k" "sys_ok k" "th_error (thread k t) = - RT_ETIMEOUT"
    "runnable (tstat k t)" "\<And>h. \<forall>p. h \<noteq> Ready p \<Longrightarrow> k_tlists k h = removeAll t (k_tlists (cs_kernel c) h)"
    by (rule timeout_leaves [OF ok st un]) (rule that; assumption)
  let ?c = "c\<lparr>cs_kernel := k\<rparr>"
  have a: "comp_abs i ?c = (False, [])" using A k(5) by (simp add: comp_abs_def)
  obtain c1 where c1: "rt_completion_done i ?c = Some c1" "comp_abs i c1 = comp_done_spec (comp_abs i ?c)"
      "\<And>u. th_error (thread (cs_kernel c1) u) = th_error (thread k u)"
    using completion_done_run [of ?c i] k(2) a by (auto simp: comp_ok_def)
  have d: "comp_abs i c1 = (True, [])" using c1(2) a by (simp add: comp_done_spec_def)
  then show ?thesis using k(1,3) c1
    by (auto simp: rt_completion_wait_resume_def rt_completion_wait_def comp_abs_def)
qed

end
