(* ===== verification/DataQueue.thy ===== *)
theory DataQueue
  imports OuterWait Fifo HeapCalls
begin

text \<open>
  Data queues, \<^verbatim>\<open>components/drivers/src/dataqueue.c\<close>: a circular array of data items with 16-bit
  counters that are never set back, threads that wait for room (\<open>Outer (PushList i)\<close>) and for data
  (\<open>Outer (PopList i)\<close>), and a function of the application that is told of the events.

  The blocking calls loop: \<open>dq_push_loop\<close> and \<open>dq_pop_loop\<close> are the code from the test of the
  \<^verbatim>\<open>while\<close> on, and the \<open>_resume\<close> functions are the rest of the loop body after \<^verbatim>\<open>rt_schedule\<close>,
  followed by the next test.
\<close>

section \<open>Operations\<close>

abbreviation (input) RT_DATAQUEUE_EVENT_POP :: rt_uint32 where "RT_DATAQUEUE_EVENT_POP \<equiv> 1"
abbreviation (input) RT_DATAQUEUE_EVENT_PUSH :: rt_uint32 where "RT_DATAQUEUE_EVENT_PUSH \<equiv> 2"
abbreviation (input) RT_DATAQUEUE_EVENT_LWM :: rt_uint32 where "RT_DATAQUEUE_EVENT_LWM \<equiv> 3"
abbreviation (input) SIZEOF_RT_DATA_ITEM :: rt_uint32 where "SIZEOF_RT_DATA_ITEM \<equiv> 8"

text \<open>\<open>dq_items\<close> is what the array at \<open>dq_queue\<close> holds; \<open>dq_evt_notify\<close> is the address of the function
  to be told, or 0.\<close>

record rt_data_item =
  di_data_ptr :: rt_uint32
  di_data_size :: rt_uint32

record rt_data_queue =
  dq_size :: rt_uint16
  dq_lwm :: rt_uint16
  dq_waiting_lwm :: bool
  dq_get_index :: rt_uint16
  dq_put_index :: rt_uint16
  dq_queue :: rt_uint32
  dq_items :: "rt_data_item list"
  dq_evt_notify :: rt_uint32

record qsys =
  qs_queues :: "oid \<Rightarrow> rt_data_queue"
  qs_kernel :: kstate

type_synonym notify_fn = "rt_uint32 \<Rightarrow> oid \<Rightarrow> rt_uint32 \<Rightarrow> qsys \<Rightarrow> qsys option"

abbreviation dq :: "qsys \<Rightarrow> oid \<Rightarrow> rt_data_queue" where
  "dq qs i \<equiv> qs_queues qs i"

abbreviation pushers :: "qsys \<Rightarrow> oid \<Rightarrow> tid list" where
  "pushers qs i \<equiv> k_tlists (qs_kernel qs) (Outer (PushList i))"

abbreviation poppers :: "qsys \<Rightarrow> oid \<Rightarrow> tid list" where
  "poppers qs i \<equiv> k_tlists (qs_kernel qs) (Outer (PopList i))"

definition upd_dq :: "oid \<Rightarrow> (rt_data_queue \<Rightarrow> rt_data_queue) \<Rightarrow> qsys \<Rightarrow> qsys" where
  "upd_dq i f qs = qs\<lparr>qs_queues := (qs_queues qs)(i := f (qs_queues qs i))\<rparr>"

text \<open>The macro and the tests are computed in \<^verbatim>\<open>int\<close>, to which the 16-bit counters are promoted.\<close>

definition RT_DATAQUEUE_SIZE :: "rt_data_queue \<Rightarrow> int" where
  "RT_DATAQUEUE_SIZE q = uint (dq_put_index q) - uint (dq_get_index q)"

definition RT_DATAQUEUE_EMPTY :: "rt_data_queue \<Rightarrow> int" where
  "RT_DATAQUEUE_EMPTY q = uint (dq_size q) - RT_DATAQUEUE_SIZE q"

definition rt_data_queue_init ::
    "oid \<Rightarrow> rt_uint16 \<Rightarrow> rt_uint16 \<Rightarrow> rt_uint32 \<Rightarrow> rt_data_item list \<Rightarrow> qsys \<Rightarrow> heap \<Rightarrow> (rt_err outcome \<times> qsys \<times> heap) option" where
  "rt_data_queue_init i sz lwm evt_notify items qs h = do {
     let qs = upd_dq i (\<lambda>q. q\<lparr>dq_evt_notify := evt_notify, dq_size := sz, dq_lwm := lwm,
        dq_get_index := 0, dq_put_index := 0\<rparr>) qs;
     let k = qs_kernel qs;
     let qs = qs\<lparr>qs_kernel := k\<lparr>k_tlists := (k_tlists k)(Outer (PushList i) := [], Outer (PopList i) := [])\<rparr>\<rparr>;
     (r, k, h) \<leftarrow> rt_malloc (SIZEOF_RT_DATA_ITEM * ucast sz) (qs_kernel qs) h;
     let qs = qs\<lparr>qs_kernel := k\<rparr>;
     (case r of Wait \<Rightarrow> Some (Wait, qs, h)
      | Ret p \<Rightarrow> do {
          let qs = upd_dq i (\<lambda>q. q\<lparr>dq_queue := p, dq_items := items\<rparr>) qs;
          Some (Ret (if p = 0 then - RT_ENOMEM else RT_EOK), qs, h)
        })
   }"

text \<open>The place of an index in the array; there is none when the index is divided by zero or leads out
  of the array.\<close>

definition dq_slot :: "rt_uint16 \<Rightarrow> rt_data_queue \<Rightarrow> nat option" where
  "dq_slot index q =
     (if dq_size q = 0 \<or> length (dq_items q) \<le> unat (index mod dq_size q) then None
      else Some (unat (index mod dq_size q)))"

definition dq_store :: "rt_data_item \<Rightarrow> rt_data_queue \<Rightarrow> rt_data_queue option" where
  "dq_store d q = do {
     slot \<leftarrow> dq_slot (dq_put_index q) q;
     Some (q\<lparr>dq_items := (dq_items q)[slot := d], dq_put_index := dq_put_index q + 1\<rparr>)
   }"

definition dq_fetch :: "rt_data_queue \<Rightarrow> (rt_data_item \<times> rt_data_queue) option" where
  "dq_fetch q = do {
     slot \<leftarrow> dq_slot (dq_get_index q) q;
     Some (dq_items q ! slot, q\<lparr>dq_get_index := dq_get_index q + 1\<rparr>)
   }"

definition evt_notify :: "notify_fn \<Rightarrow> oid \<Rightarrow> rt_uint32 \<Rightarrow> qsys \<Rightarrow> qsys option" where
  "evt_notify nf i event qs =
     (if dq_evt_notify (dq qs i) \<noteq> 0 then nf (dq_evt_notify (dq qs i)) i event qs else Some qs)"

definition dq_wait :: "outer_list \<Rightarrow> int \<Rightarrow> qsys \<Rightarrow> qsys option" where
  "dq_wait w time qs = do {
     rt_debug_not_in_interrupt (qs_kernel qs);
     t \<leftarrow> rt_thread_self (qs_kernel qs);
     k \<leftarrow> wait_outer w t time (qs_kernel qs);
     Some (qs\<lparr>qs_kernel := k\<rparr>)
   }"

definition dq_wake :: "outer_list \<Rightarrow> qsys \<Rightarrow> qsys option" where
  "dq_wake w qs = do {
     k \<leftarrow> wake_first (Outer w) (qs_kernel qs);
     Some (qs\<lparr>qs_kernel := k\<rparr>)
   }"

definition dq_push_loop ::
    "notify_fn \<Rightarrow> oid \<Rightarrow> rt_data_item \<Rightarrow> int \<Rightarrow> qsys \<Rightarrow> (rt_err outcome \<times> qsys) option" where
  "dq_push_loop nf i d time qs =
     (if RT_DATAQUEUE_SIZE (dq qs i) = uint (dq_size (dq qs i))
      then if time = 0 then Some (Ret (- RT_ETIMEOUT), qs)
        else do { qs \<leftarrow> dq_wait (PushList i) time qs; Some (Wait, qs) }
      else do {
        q \<leftarrow> dq_store d (dq qs i);
        let qs = upd_dq i (\<lambda>_. q) qs;
        qs \<leftarrow> (if poppers qs i \<noteq> [] then dq_wake (PopList i) qs
               else evt_notify nf i RT_DATAQUEUE_EVENT_PUSH qs);
        Some (Ret RT_EOK, qs)
      })"

definition rt_data_queue_push ::
    "notify_fn \<Rightarrow> oid \<Rightarrow> rt_uint32 \<Rightarrow> rt_uint32 \<Rightarrow> int \<Rightarrow> qsys \<Rightarrow> (rt_err outcome \<times> qsys) option" where
  "rt_data_queue_push nf i data_ptr data_size time qs =
     dq_push_loop nf i \<lparr>di_data_ptr = data_ptr, di_data_size = data_size\<rparr> time qs"

definition rt_data_queue_push_resume ::
    "notify_fn \<Rightarrow> oid \<Rightarrow> rt_uint32 \<Rightarrow> rt_uint32 \<Rightarrow> int \<Rightarrow> tid \<Rightarrow> qsys \<Rightarrow> (rt_err outcome \<times> qsys) option" where
  "rt_data_queue_push_resume nf i data_ptr data_size time t qs =
     (let result = th_error (thread (qs_kernel qs) t)
      in if result \<noteq> RT_EOK then Some (Ret result, qs)
         else dq_push_loop nf i \<lparr>di_data_ptr = data_ptr, di_data_size = data_size\<rparr> time qs)"

definition dq_pop_loop ::
    "notify_fn \<Rightarrow> oid \<Rightarrow> int \<Rightarrow> qsys \<Rightarrow> ((rt_err \<times> rt_data_item option) outcome \<times> qsys) option" where
  "dq_pop_loop nf i time qs =
     (if dq_get_index (dq qs i) = dq_put_index (dq qs i)
      then if time = 0 then Some (Ret (- RT_ETIMEOUT, None), qs)
        else do { qs \<leftarrow> dq_wait (PopList i) time qs; Some (Wait, qs) }
      else do {
        (d, q) \<leftarrow> dq_fetch (dq qs i);
        let qs = upd_dq i (\<lambda>_. q) qs;
        qs \<leftarrow> (if RT_DATAQUEUE_SIZE q \<le> uint (dq_lwm q)
               then do { qs \<leftarrow> dq_wake (PushList i) qs; evt_notify nf i RT_DATAQUEUE_EVENT_LWM qs }
               else evt_notify nf i RT_DATAQUEUE_EVENT_POP qs);
        Some (Ret (RT_EOK, Some d), qs)
      })"

definition rt_data_queue_pop ::
    "notify_fn \<Rightarrow> oid \<Rightarrow> int \<Rightarrow> qsys \<Rightarrow> ((rt_err \<times> rt_data_item option) outcome \<times> qsys) option" where
  "rt_data_queue_pop nf i time qs = dq_pop_loop nf i time qs"

definition rt_data_queue_pop_resume ::
    "notify_fn \<Rightarrow> oid \<Rightarrow> int \<Rightarrow> tid \<Rightarrow> qsys \<Rightarrow> ((rt_err \<times> rt_data_item option) outcome \<times> qsys) option" where
  "rt_data_queue_pop_resume nf i time t qs =
     (let result = th_error (thread (qs_kernel qs) t)
      in if result \<noteq> RT_EOK then Some (Ret (result, None), qs) else dq_pop_loop nf i time qs)"

definition rt_data_queue_peak :: "oid \<Rightarrow> qsys \<Rightarrow> (rt_err \<times> rt_data_item option) option" where
  "rt_data_queue_peak i qs =
     (if dq_get_index (dq qs i) = dq_put_index (dq qs i) then Some (- RT_EEMPTY, None)
      else do { (d, _) \<leftarrow> dq_fetch (dq qs i); Some (RT_EOK, Some d) })"

definition rt_data_queue_reset :: "oid \<Rightarrow> qsys \<Rightarrow> qsys option" where
  "rt_data_queue_reset i qs = do {
     let k = rt_enter_critical (qs_kernel qs);
     k \<leftarrow> rt_ipc_list_resume_all (Outer (PopList i)) k;
     k \<leftarrow> rt_ipc_list_resume_all (Outer (PushList i)) k;
     k \<leftarrow> rt_exit_critical k;
     k \<leftarrow> rt_schedule k;
     Some (qs\<lparr>qs_kernel := k\<rparr>)
   }"

section \<open>The array is a bounded queue until the counters wrap\<close>

definition dq_wf :: "rt_data_queue \<Rightarrow> bool" where
  "dq_wf q \<longleftrightarrow> 0 < unat (dq_size q) \<and> length (dq_items q) = unat (dq_size q) \<and>
     unat (dq_get_index q) \<le> unat (dq_put_index q) \<and>
     unat (dq_put_index q) \<le> unat (dq_get_index q) + unat (dq_size q)"

definition dq_content :: "rt_data_queue \<Rightarrow> rt_data_item list" where
  "dq_content q = ring_read (dq_items q) (unat (dq_get_index q) mod length (dq_items q))
     (unat (dq_put_index q) - unat (dq_get_index q))"

lemma length_dq_content [simp]: "length (dq_content q) = unat (dq_put_index q) - unat (dq_get_index q)"
  by (simp add: dq_content_def)

lemma dq_size_content: "dq_wf q \<Longrightarrow> RT_DATAQUEUE_SIZE q = int (length (dq_content q))"
  unfolding RT_DATAQUEUE_SIZE_def length_dq_content
  by (simp only: uint_nat of_nat_diff dq_wf_def)

lemma dq_full_iff: "dq_wf q \<Longrightarrow> RT_DATAQUEUE_SIZE q = uint (dq_size q) \<longleftrightarrow> \<not> length (dq_content q) < unat (dq_size q)"
  using uint_nat [of "dq_size q"] by (simp only: dq_size_content of_nat_eq_iff) (auto simp: dq_wf_def)

lemma dq_empty_iff: "dq_wf q \<Longrightarrow> dq_get_index q = dq_put_index q \<longleftrightarrow> dq_content q = []"
  using length_dq_content [of q] by (metis dq_wf_def diff_is_0_eq dual_order.antisym length_0_conv order_refl unsigned_word_eqI)

lemma dq_slot_wf: "dq_wf q \<Longrightarrow> dq_slot x q = Some (unat x mod unat (dq_size q))"
  by (auto simp: dq_slot_def dq_wf_def unat_mod not_le)

text \<open>Storing appends, as long as the 16-bit counter does not wrap.\<close>

lemma dq_store_fields:
  assumes wf: "dq_wf q" and room: "length (dq_content q) < unat (dq_size q)" and lim: "unat (dq_put_index q) < 65535"
  obtains q' where "dq_store d q = Some q'" "dq_wf q'" "dq_content q' = dq_content q @ [d]"
    "dq_size q' = dq_size q" "dq_lwm q' = dq_lwm q" "dq_evt_notify q' = dq_evt_notify q"
proof -
  note W = wf [unfolded dq_wf_def]
  let ?n = "unat (dq_put_index q) - unat (dq_get_index q)" and ?l = "length (dq_items q)"
  define q' where "q' = q\<lparr>dq_items := (dq_items q)[unat (dq_put_index q) mod unat (dq_size q) := d], dq_put_index := dq_put_index q + 1\<rparr>"
  have p: "unat (dq_put_index q + 1) = Suc (unat (dq_put_index q))"
    using lim by (simp add: unat_word_ariths)
  have st: "dq_store d q = Some q'" by (simp add: dq_store_def dq_slot_wf [OF wf] q'_def)
  have "dq_wf q'" using W room p by (auto simp: dq_wf_def q'_def)
  moreover have "dq_content q' = dq_content q @ [d]"
  proof -
    have a: "(unat (dq_get_index q) mod ?l + ?n) mod ?l = unat (dq_put_index q) mod unat (dq_size q)"
      using W mod_add_left_eq [of "unat (dq_get_index q)" ?l ?n] by (simp add: le_add_diff_inverse)
    have b: "Suc (unat (dq_put_index q)) - unat (dq_get_index q) = Suc ?n" using W by (intro Suc_diff_le) simp
    show ?thesis using ring_write [of ?n "dq_items q" "unat (dq_get_index q) mod ?l" d] room W
      unfolding a by (simp add: dq_content_def q'_def p b)
  qed
  ultimately show thesis using that [of q'] st by (simp add: q'_def)
qed

text \<open>Fetching takes the oldest item.\<close>

lemma dq_fetch_fields:
  assumes wf: "dq_wf q" and ne: "dq_content q = m # ms"
  obtains q' where "dq_fetch q = Some (m, q')" "dq_wf q'" "dq_content q' = ms"
    "dq_size q' = dq_size q" "dq_lwm q' = dq_lwm q" "dq_evt_notify q' = dq_evt_notify q"
proof -
  note W = wf [unfolded dq_wf_def]
  let ?g = "unat (dq_get_index q)" and ?l = "length (dq_items q)"
  define q' where "q' = q\<lparr>dq_get_index := dq_get_index q + 1\<rparr>"
  have len: "unat (dq_put_index q) - ?g = Suc (length ms)" using ne length_dq_content [of q] by simp
  have "?g < unat (dq_put_index q)" using len by simp
  then have g: "unat (dq_get_index q + 1) = Suc ?g" by (rule unat_inc_below)
  have i: "?g mod ?l < ?l" using W by simp
  have c: "dq_content q = dq_items q ! (?g mod ?l) # ring_read (dq_items q) (Suc (?g mod ?l) mod ?l) (length ms)"
    using ring_read_cons [OF i, of "length ms"] by (simp add: dq_content_def len)
  have f: "dq_fetch q = Some (m, q')"
    using c ne W by (simp add: dq_fetch_def dq_slot_wf [OF wf] q'_def)
  have "unat (dq_put_index q) - Suc ?g = length ms" using len by simp
  then have "dq_content q' = ms" using c ne by (simp add: dq_content_def q'_def g mod_Suc_eq)
  moreover have "dq_wf q'" using W g len by (auto simp: dq_wf_def q'_def)
  ultimately show thesis using that [of q'] f by (simp add: q'_def)
qed

section \<open>Specification\<close>

text \<open>A data queue: the items in it, the threads that wait for one, and the threads that wait for
  room.  A fetch lets a pushing thread go on only when it leaves no more items than the low water mark.\<close>

definition dq_abs :: "oid \<Rightarrow> qsys \<Rightarrow> rt_data_item list \<times> tid list \<times> tid list" where
  "dq_abs i qs = (dq_content (dq qs i), poppers qs i, pushers qs i)"

fun dq_push_spec :: "nat \<Rightarrow> int \<Rightarrow> tid \<Rightarrow> 'm \<Rightarrow> 'm list \<times> tid list \<times> tid list \<Rightarrow>
    rt_err outcome \<times> 'm list \<times> tid list \<times> tid list" where
  "dq_push_spec capacity time t m (ms, pops, pushs) =
     (if length ms < capacity then (Ret RT_EOK, ms @ [m], tl pops, pushs)
      else if time = 0 then (Ret (- RT_ETIMEOUT), ms, pops, pushs)
      else (Wait, ms, pops, pushs @ [t]))"

fun dq_pop_spec :: "nat \<Rightarrow> int \<Rightarrow> tid \<Rightarrow> 'm list \<times> tid list \<times> tid list \<Rightarrow>
    (rt_err \<times> 'm option) outcome \<times> 'm list \<times> tid list \<times> tid list" where
  "dq_pop_spec lwm time t (m # ms, pops, pushs) =
     (Ret (RT_EOK, Some m), ms, pops, if length ms \<le> lwm then tl pushs else pushs)"
| "dq_pop_spec lwm time t ([], pops, pushs) =
     (if time = 0 then (Ret (- RT_ETIMEOUT, None), [], pops, pushs) else (Wait, [], pops @ [t], pushs))"

text \<open>The function that the application gives to a queue to be told of events returns, keeps the
  invariant, and leaves the queues, their waiting lists and the threads as they are.\<close>

definition notify_ok :: "notify_fn \<Rightarrow> bool" where
  "notify_ok nf \<longleftrightarrow> (\<forall>f i e qs. sys_ok (qs_kernel qs) \<longrightarrow> (\<exists>qs'. nf f i e qs = Some qs' \<and> sys_ok (qs_kernel qs') \<and>
     qs_queues qs' = qs_queues qs \<and> (\<forall>w. k_tlists (qs_kernel qs') (Outer w) = k_tlists (qs_kernel qs) (Outer w)) \<and>
     k_threads (qs_kernel qs') = k_threads (qs_kernel qs)))"

lemma upd_dq_fields [simp]:
  "qs_kernel (upd_dq i f qs) = qs_kernel qs" "dq (upd_dq i f qs) i = f (dq qs i)"
  "j \<noteq> i \<Longrightarrow> dq (upd_dq i f qs) j = dq qs j"
  by (simp_all add: upd_dq_def)

lemma evt_notify_run:
  assumes "notify_ok nf" "sys_ok (qs_kernel qs)"
  obtains qs' where "evt_notify nf i e qs = Some qs'" "sys_ok (qs_kernel qs')" "qs_queues qs' = qs_queues qs"
    "\<And>w. k_tlists (qs_kernel qs') (Outer w) = k_tlists (qs_kernel qs) (Outer w)"
    "k_threads (qs_kernel qs') = k_threads (qs_kernel qs)"
proof (cases "dq_evt_notify (dq qs i) = 0")
  case True
  then show thesis using that [of qs] assms(2) by (simp add: evt_notify_def)
next
  case False
  obtain qs' where q: "nf (dq_evt_notify (dq qs i)) i e qs = Some qs'" "sys_ok (qs_kernel qs')"
      "qs_queues qs' = qs_queues qs" "\<forall>w. k_tlists (qs_kernel qs') (Outer w) = k_tlists (qs_kernel qs) (Outer w)"
      "k_threads (qs_kernel qs') = k_threads (qs_kernel qs)"
    using assms unfolding notify_ok_def by blast
  have "evt_notify nf i e qs = Some qs'" using False q(1) by (simp add: evt_notify_def)
  then show thesis by (rule that) (use q in simp_all)
qed

lemma dq_wake_run:
  assumes ok: "sys_ok (qs_kernel qs)"
  obtains qs' where "dq_wake w qs = Some qs'" "sys_ok (qs_kernel qs')" "qs_queues qs' = qs_queues qs"
    "k_tlists (qs_kernel qs') (Outer w) = tl (k_tlists (qs_kernel qs) (Outer w))"
    "\<And>j. j \<noteq> w \<Longrightarrow> k_tlists (qs_kernel qs') (Outer j) = k_tlists (qs_kernel qs) (Outer j)"
    "\<And>t ts. k_tlists (qs_kernel qs) (Outer w) = t # ts \<Longrightarrow> runnable (tstat (qs_kernel qs') t)"
    "\<And>t. th_error (thread (qs_kernel qs') t) = th_error (thread (qs_kernel qs) t)"
proof -
  obtain k where k: "wake_first (Outer w) (qs_kernel qs) = Some k" "sys_ok k" "core_frame (qs_kernel qs) k"
    "k_tlists k (Outer w) = tl (k_tlists (qs_kernel qs) (Outer w))"
    "\<And>j. j \<noteq> Outer w \<Longrightarrow> \<forall>p. j \<noteq> Ready p \<Longrightarrow> k_tlists k j = k_tlists (qs_kernel qs) j"
    "\<And>t ts. k_tlists (qs_kernel qs) (Outer w) = t # ts \<Longrightarrow> runnable (tstat k t)"
    "\<And>t. th_error (thread k t) = th_error (thread (qs_kernel qs) t)"
    by (rule wake_first_run [OF ok outer_head]) (rule that; assumption)
  have "dq_wake w qs = Some (qs\<lparr>qs_kernel := k\<rparr>)" using k(1) by (simp add: dq_wake_def)
  then show thesis by (rule that) (use k in simp_all)
qed

lemma dq_wait_run:
  assumes ok: "sys_ok (qs_kernel qs)" and t: "running_in t (qs_kernel qs)" and time: "time < 0x7FFFFFFF"
  obtains qs' where "dq_wait w time qs = Some qs'" "sys_ok (qs_kernel qs')" "qs_queues qs' = qs_queues qs"
    "k_tlists (qs_kernel qs') (Outer w) = k_tlists (qs_kernel qs) (Outer w) @ [t]"
    "\<And>j. j \<noteq> w \<Longrightarrow> k_tlists (qs_kernel qs') (Outer j) = k_tlists (qs_kernel qs) (Outer j)"
    "tstat (qs_kernel qs') t = RT_THREAD_SUSPEND" "th_error (thread (qs_kernel qs') t) = RT_EOK"
proof -
  obtain k where k: "wait_outer w t time (qs_kernel qs) = Some k" "sys_ok k" "core_frame (qs_kernel qs) k"
    "tstat k t = RT_THREAD_SUSPEND" "th_error (thread k t) = RT_EOK"
    "k_tlists k (Outer w) = k_tlists (qs_kernel qs) (Outer w) @ [t]"
    "\<And>j. j \<noteq> Outer w \<Longrightarrow> \<forall>p. j \<noteq> Ready p \<Longrightarrow> k_tlists k j = k_tlists (qs_kernel qs) j"
    by (rule wait_outer_run [OF ok t time]) (rule that; assumption)
  have "dq_wait w time qs = Some (qs\<lparr>qs_kernel := k\<rparr>)" using t k(1) by (simp add: dq_wait_def context_checks)
  then show thesis by (rule that) (use k in simp_all)
qed

section \<open>Refinement\<close>

lemma dq_push_loop_room:
  assumes ok: "sys_ok (qs_kernel qs)" and wf: "dq_wf (dq qs i)" and nf: "notify_ok nf"
    and room: "length (dq_content (dq qs i)) < unat (dq_size (dq qs i))" and lim: "unat (dq_put_index (dq qs i)) < 65535"
  obtains qs' where "dq_push_loop nf i d time qs = Some (Ret RT_EOK, qs')" "sys_ok (qs_kernel qs')" "dq_wf (dq qs' i)"
    "dq_abs i qs' = (dq_content (dq qs i) @ [d], tl (poppers qs i), pushers qs i)"
    "\<And>t ts. poppers qs i = t # ts \<Longrightarrow> runnable (tstat (qs_kernel qs') t)"
    "\<And>t. th_error (thread (qs_kernel qs') t) = th_error (thread (qs_kernel qs) t)"
proof -
  obtain q where q: "dq_store d (dq qs i) = Some q" "dq_wf q" "dq_content q = dq_content (dq qs i) @ [d]"
    by (rule dq_store_fields [OF wf room lim, of d]) (rule that; assumption)
  let ?qs = "upd_dq i (\<lambda>_. q) qs"
  have ok1: "sys_ok (qs_kernel ?qs)" using ok by simp
  have full: "RT_DATAQUEUE_SIZE (dq qs i) \<noteq> uint (dq_size (dq qs i))" using dq_full_iff [OF wf] room by simp
  show thesis
  proof (cases "poppers qs i = []")
    case True
    obtain qs' where n: "evt_notify nf i RT_DATAQUEUE_EVENT_PUSH ?qs = Some qs'" "sys_ok (qs_kernel qs')"
      "qs_queues qs' = qs_queues ?qs" "\<And>w. k_tlists (qs_kernel qs') (Outer w) = k_tlists (qs_kernel ?qs) (Outer w)"
      "k_threads (qs_kernel qs') = k_threads (qs_kernel ?qs)"
      by (rule evt_notify_run [OF nf ok1]) (rule that; assumption)
    have "dq_push_loop nf i d time qs = Some (Ret RT_EOK, qs')"
      using full q(1) True n(1) by (simp add: dq_push_loop_def Let_def)
    then show thesis by (rule that) (use n True q in \<open>simp_all add: dq_abs_def\<close>)
  next
    case False
    obtain qs' where n: "dq_wake (PopList i) ?qs = Some qs'" "sys_ok (qs_kernel qs')" "qs_queues qs' = qs_queues ?qs"
      "k_tlists (qs_kernel qs') (Outer (PopList i)) = tl (k_tlists (qs_kernel ?qs) (Outer (PopList i)))"
      "\<And>j. j \<noteq> PopList i \<Longrightarrow> k_tlists (qs_kernel qs') (Outer j) = k_tlists (qs_kernel ?qs) (Outer j)"
      "\<And>t ts. k_tlists (qs_kernel ?qs) (Outer (PopList i)) = t # ts \<Longrightarrow> runnable (tstat (qs_kernel qs') t)"
      "\<And>t. th_error (thread (qs_kernel qs') t) = th_error (thread (qs_kernel ?qs) t)"
      by (rule dq_wake_run [OF ok1]) (rule that; assumption)
    have "dq_push_loop nf i d time qs = Some (Ret RT_EOK, qs')"
      using full q(1) False n(1) by (simp add: dq_push_loop_def Let_def)
    then show thesis by (rule that) (use n q in \<open>simp_all add: dq_abs_def\<close>)
  qed
qed

lemma dq_pop_loop_item:
  assumes ok: "sys_ok (qs_kernel qs)" and wf: "dq_wf (dq qs i)" and nf: "notify_ok nf"
    and ne: "dq_content (dq qs i) = m # ms"
  obtains qs' where "dq_pop_loop nf i time qs = Some (Ret (RT_EOK, Some m), qs')" "sys_ok (qs_kernel qs')" "dq_wf (dq qs' i)"
    "dq_abs i qs' = (ms, poppers qs i, if length ms \<le> unat (dq_lwm (dq qs i)) then tl (pushers qs i) else pushers qs i)"
    "\<And>t ts. length ms \<le> unat (dq_lwm (dq qs i)) \<Longrightarrow> pushers qs i = t # ts \<Longrightarrow> runnable (tstat (qs_kernel qs') t)"
    "\<And>t. th_error (thread (qs_kernel qs') t) = th_error (thread (qs_kernel qs) t)"
proof -
  obtain q where q: "dq_fetch (dq qs i) = Some (m, q)" "dq_wf q" "dq_content q = ms" "dq_lwm q = dq_lwm (dq qs i)"
    by (rule dq_fetch_fields [OF wf ne]) (rule that; assumption)
  let ?qs = "upd_dq i (\<lambda>_. q) qs"
  have ok1: "sys_ok (qs_kernel ?qs)" using ok by simp
  have some: "dq_get_index (dq qs i) \<noteq> dq_put_index (dq qs i)" using dq_empty_iff [OF wf] ne by simp
  have lwm: "RT_DATAQUEUE_SIZE q \<le> uint (dq_lwm q) \<longleftrightarrow> length ms \<le> unat (dq_lwm (dq qs i))"
    by (simp only: dq_size_content [OF q(2)] q(3,4) uint_nat of_nat_le_iff)
  show thesis
  proof (cases "length ms \<le> unat (dq_lwm (dq qs i))")
    case False
    obtain qs' where n: "evt_notify nf i RT_DATAQUEUE_EVENT_POP ?qs = Some qs'" "sys_ok (qs_kernel qs')"
      "qs_queues qs' = qs_queues ?qs" "\<And>w. k_tlists (qs_kernel qs') (Outer w) = k_tlists (qs_kernel ?qs) (Outer w)"
      "k_threads (qs_kernel qs') = k_threads (qs_kernel ?qs)"
      by (rule evt_notify_run [OF nf ok1]) (rule that; assumption)
    have "dq_pop_loop nf i time qs = Some (Ret (RT_EOK, Some m), qs')"
      using some q(1) False lwm n(1) by (simp add: dq_pop_loop_def Let_def)
    then show thesis by (rule that) (use n False q in \<open>simp_all add: dq_abs_def\<close>)
  next
    case True
    obtain qs1 where w: "dq_wake (PushList i) ?qs = Some qs1" "sys_ok (qs_kernel qs1)" "qs_queues qs1 = qs_queues ?qs"
      "k_tlists (qs_kernel qs1) (Outer (PushList i)) = tl (k_tlists (qs_kernel ?qs) (Outer (PushList i)))"
      "\<And>j. j \<noteq> PushList i \<Longrightarrow> k_tlists (qs_kernel qs1) (Outer j) = k_tlists (qs_kernel ?qs) (Outer j)"
      "\<And>t ts. k_tlists (qs_kernel ?qs) (Outer (PushList i)) = t # ts \<Longrightarrow> runnable (tstat (qs_kernel qs1) t)"
      "\<And>t. th_error (thread (qs_kernel qs1) t) = th_error (thread (qs_kernel ?qs) t)"
      by (rule dq_wake_run [OF ok1]) (rule that; assumption)
    obtain qs' where n: "evt_notify nf i RT_DATAQUEUE_EVENT_LWM qs1 = Some qs'" "sys_ok (qs_kernel qs')"
      "qs_queues qs' = qs_queues qs1" "\<And>w. k_tlists (qs_kernel qs') (Outer w) = k_tlists (qs_kernel qs1) (Outer w)"
      "k_threads (qs_kernel qs') = k_threads (qs_kernel qs1)"
      by (rule evt_notify_run [OF nf w(2)]) (rule that; assumption)
    have "dq_pop_loop nf i time qs = Some (Ret (RT_EOK, Some m), qs')"
      using some q(1) True lwm w(1) n(1) by (simp add: dq_pop_loop_def Let_def)
    then show thesis by (rule that) (use n w True q in \<open>simp_all add: dq_abs_def\<close>)
  qed
qed

text \<open>C27: pushing refines its specification, as long as the 16-bit counter has not reached its end.  With
  room the item goes to the end of the queue, whoever calls, and the first thread that waits for data can
  run: if the queue was empty and it waited undisturbed, that item is what it gets when it goes on.  On a
  full queue the call returns \<^verbatim>\<open>RT_ETIMEOUT\<close> without time to wait, and otherwise the caller joins the
  threads that wait for room, behind the others, with its error number clear.  The theorem is for
  applications whose notification function satisfies \<open>notify_ok\<close>: it returns, keeps the invariant of the
  running system, and leaves all threads, data queues and their waiting lists as they are (it may, say, count
  or set flags of its own, but wakes no thread), and for a time to wait below \<^verbatim>\<open>0x7FFFFFFF\<close>.\<close>

theorem rt_data_queue_push_refines:
  assumes ok: "sys_ok (qs_kernel qs)" and t: "time = 0 \<or> running_in t (qs_kernel qs)" and wf: "dq_wf (dq qs i)"
    and lim: "unat (dq_put_index (dq qs i)) < 65535" and time: "time < 0x7FFFFFFF" and nf: "notify_ok nf"
  shows "case dq_push_spec (unat (dq_size (dq qs i))) time t \<lparr>di_data_ptr = p, di_data_size = n\<rparr> (dq_abs i qs) of (r, a) \<Rightarrow>
     \<exists>qs'. rt_data_queue_push nf i p n time qs = Some (r, qs') \<and> dq_abs i qs' = a \<and>
       sys_ok (qs_kernel qs') \<and> dq_wf (dq qs' i) \<and>
       (r = Wait \<longrightarrow> tstat (qs_kernel qs') t = RT_THREAD_SUSPEND \<and> th_error (thread (qs_kernel qs') t) = RT_EOK) \<and>
       (r = Ret RT_EOK \<longrightarrow> (\<forall>u us. poppers qs i = u # us \<longrightarrow> runnable (tstat (qs_kernel qs') u) \<and>
          (dq_content (dq qs i) = [] \<longrightarrow> th_error (thread (qs_kernel qs) u) = RT_EOK \<longrightarrow>
             (\<exists>qs''. rt_data_queue_pop_resume nf i time' u qs' =
                Some (Ret (RT_EOK, Some \<lparr>di_data_ptr = p, di_data_size = n\<rparr>), qs'')))))"
proof (cases "length (dq_content (dq qs i)) < unat (dq_size (dq qs i))")
  case True
  let ?d = "\<lparr>di_data_ptr = p, di_data_size = n\<rparr>"
  obtain qs' where q: "dq_push_loop nf i ?d time qs = Some (Ret RT_EOK, qs')" "sys_ok (qs_kernel qs')" "dq_wf (dq qs' i)"
    "dq_abs i qs' = (dq_content (dq qs i) @ [?d], tl (poppers qs i), pushers qs i)"
    "\<And>t ts. poppers qs i = t # ts \<Longrightarrow> runnable (tstat (qs_kernel qs') t)"
    "\<And>t. th_error (thread (qs_kernel qs') t) = th_error (thread (qs_kernel qs) t)"
    by (rule dq_push_loop_room [OF ok wf nf True lim, of ?d time]) (rule that; assumption)
  have pop: "\<exists>qs''. rt_data_queue_pop_resume nf i time' u qs' = Some (Ret (RT_EOK, Some ?d), qs'')"
    if "dq_content (dq qs i) = []" "th_error (thread (qs_kernel qs) u) = RT_EOK" for u
  proof -
    have c: "dq_content (dq qs' i) = ?d # []" using q(4) that(1) by (simp add: dq_abs_def)
    obtain qs'' where "dq_pop_loop nf i time' qs' = Some (Ret (RT_EOK, Some ?d), qs'')"
      by (rule dq_pop_loop_item [OF q(2,3) nf c, of time']) (rule that; assumption)
    then show ?thesis using that(2) q(6) by (simp add: rt_data_queue_pop_resume_def)
  qed
  have s: "dq_push_spec (unat (dq_size (dq qs i))) time t ?d (dq_abs i qs) =
      (Ret RT_EOK, dq_content (dq qs i) @ [?d], tl (poppers qs i), pushers qs i)"
    using True by (simp add: dq_abs_def)
  have "rt_data_queue_push nf i p n time qs = Some (Ret RT_EOK, qs')" using q(1) by (simp add: rt_data_queue_push_def)
  then show ?thesis unfolding s using q(2-5) pop by auto
next
  case False
  then have full: "RT_DATAQUEUE_SIZE (dq qs i) = uint (dq_size (dq qs i))" using dq_full_iff [OF wf] by simp
  show ?thesis
  proof (cases "time = 0")
    case True
    then show ?thesis using False full ok wf
      by (auto simp: rt_data_queue_push_def dq_push_loop_def dq_abs_def)
  next
    case n0: False
    then have t': "running_in t (qs_kernel qs)" using t by simp
    obtain qs' where q: "dq_wait (PushList i) time qs = Some qs'" "sys_ok (qs_kernel qs')" "qs_queues qs' = qs_queues qs"
      "k_tlists (qs_kernel qs') (Outer (PushList i)) = k_tlists (qs_kernel qs) (Outer (PushList i)) @ [t]"
      "\<And>j. j \<noteq> PushList i \<Longrightarrow> k_tlists (qs_kernel qs') (Outer j) = k_tlists (qs_kernel qs) (Outer j)"
      "tstat (qs_kernel qs') t = RT_THREAD_SUSPEND" "th_error (thread (qs_kernel qs') t) = RT_EOK"
      by (rule dq_wait_run [OF ok t' time]) (rule that; assumption)
    have "rt_data_queue_push nf i p n time qs = Some (Wait, qs')"
      using full n0 q(1) by (simp add: rt_data_queue_push_def dq_push_loop_def)
    then show ?thesis using False n0 q wf by (simp add: dq_abs_def)
  qed
qed

text \<open>C28: popping refines its specification.  The oldest item comes out, whoever calls, and when no more
  items than the low water mark are left the first thread that waits for room can run.  On an empty
  queue the call returns \<^verbatim>\<open>RT_ETIMEOUT\<close> without time to wait, and otherwise the caller joins the
  threads that wait for data.  Looking at the queue beforehand shows the same item.  As for pushing,
  the theorem is for notification functions that satisfy \<open>notify_ok\<close>: they return, keep the invariant of the
  running system, and leave all threads, data queues and their waiting lists as they are; and for a
  time to wait below \<^verbatim>\<open>0x7FFFFFFF\<close>.\<close>

theorem rt_data_queue_pop_refines:
  assumes ok: "sys_ok (qs_kernel qs)" and t: "time = 0 \<or> running_in t (qs_kernel qs)" and wf: "dq_wf (dq qs i)"
    and time: "time < 0x7FFFFFFF" and nf: "notify_ok nf"
  shows "case dq_pop_spec (unat (dq_lwm (dq qs i))) time t (dq_abs i qs) of (r, a) \<Rightarrow>
     \<exists>qs'. rt_data_queue_pop nf i time qs = Some (r, qs') \<and> dq_abs i qs' = a \<and>
       sys_ok (qs_kernel qs') \<and> dq_wf (dq qs' i) \<and>
       (r = Wait \<longrightarrow> tstat (qs_kernel qs') t = RT_THREAD_SUSPEND \<and> th_error (thread (qs_kernel qs') t) = RT_EOK) \<and>
       (\<forall>d. r = Ret (RT_EOK, Some d) \<longrightarrow> rt_data_queue_peak i qs = Some (RT_EOK, Some d) \<and>
          (\<forall>u us. length (dq_content (dq qs' i)) \<le> unat (dq_lwm (dq qs i)) \<longrightarrow> pushers qs i = u # us \<longrightarrow>
             runnable (tstat (qs_kernel qs') u)))"
proof (cases "dq_content (dq qs i)")
  case (Cons m ms)
  obtain qs' where q: "dq_pop_loop nf i time qs = Some (Ret (RT_EOK, Some m), qs')" "sys_ok (qs_kernel qs')" "dq_wf (dq qs' i)"
    "dq_abs i qs' = (ms, poppers qs i, if length ms \<le> unat (dq_lwm (dq qs i)) then tl (pushers qs i) else pushers qs i)"
    "\<And>t ts. length ms \<le> unat (dq_lwm (dq qs i)) \<Longrightarrow> pushers qs i = t # ts \<Longrightarrow> runnable (tstat (qs_kernel qs') t)"
    "\<And>t. th_error (thread (qs_kernel qs') t) = th_error (thread (qs_kernel qs) t)"
    by (rule dq_pop_loop_item [OF ok wf nf Cons, of time]) (rule that; assumption)
  obtain q1 where f: "dq_fetch (dq qs i) = Some (m, q1)" by (rule dq_fetch_fields [OF wf Cons]) (rule that; assumption)
  have "rt_data_queue_peak i qs = Some (RT_EOK, Some m)"
    using f dq_empty_iff [OF wf] Cons by (simp add: rt_data_queue_peak_def)
  moreover have "dq_content (dq qs' i) = ms" using q(4) by (simp add: dq_abs_def)
  moreover have "dq_pop_spec (unat (dq_lwm (dq qs i))) time t (dq_abs i qs) =
     (Ret (RT_EOK, Some m), ms, poppers qs i, if length ms \<le> unat (dq_lwm (dq qs i)) then tl (pushers qs i) else pushers qs i)"
    using Cons by (simp add: dq_abs_def)
  ultimately show ?thesis using q(1-5) by (auto simp: rt_data_queue_pop_def simp del: length_dq_content)
next
  case Nil
  then have empty: "dq_get_index (dq qs i) = dq_put_index (dq qs i)" using dq_empty_iff [OF wf] by simp
  show ?thesis
  proof (cases "time = 0")
    case True
    then show ?thesis using Nil empty ok wf
      by (auto simp: rt_data_queue_pop_def dq_pop_loop_def dq_abs_def)
  next
    case False
    then have t': "running_in t (qs_kernel qs)" using t by simp
    obtain qs' where q: "dq_wait (PopList i) time qs = Some qs'" "sys_ok (qs_kernel qs')" "qs_queues qs' = qs_queues qs"
      "k_tlists (qs_kernel qs') (Outer (PopList i)) = k_tlists (qs_kernel qs) (Outer (PopList i)) @ [t]"
      "\<And>j. j \<noteq> PopList i \<Longrightarrow> k_tlists (qs_kernel qs') (Outer j) = k_tlists (qs_kernel qs) (Outer j)"
      "tstat (qs_kernel qs') t = RT_THREAD_SUSPEND" "th_error (thread (qs_kernel qs') t) = RT_EOK"
      by (rule dq_wait_run [OF ok t' time]) (rule that; assumption)
    have "rt_data_queue_pop nf i time qs = Some (Wait, qs')"
      using empty False q(1) by (simp add: rt_data_queue_pop_def dq_pop_loop_def)
    then show ?thesis using Nil False q wf by (simp add: dq_abs_def)
  qed
qed

section \<open>When the counters wrap\<close>

text \<open>C29: the counters of a data queue must not wrap while it holds items.  They are 16 bits wide and never
  set back, and their difference is taken in \<^verbatim>\<open>int\<close>.  So when the counter of the pushed items has
  reached its end with room for one item only, in a queue whose size is a power of two, two more items
  are accepted, without waiting; the second takes the place of the oldest item, and the next pop hands
  out that newest item in its stead.\<close>

theorem data_queue_wrap_overwrites:
  assumes wf: "dq_wf (dq qs i)" and pow: "unat (dq_size (dq qs i)) dvd 65536"
    and put: "dq_put_index (dq qs i) = 65535" and get: "unat (dq_get_index (dq qs i)) + unat (dq_size (dq qs i)) = 65536"
    and quiet: "poppers qs i = []" "pushers qs i = []" "dq_evt_notify (dq qs i) = 0"
  shows "Suc (length (dq_content (dq qs i))) = unat (dq_size (dq qs i)) \<and>
     (\<exists>qs1 qs2 qs3. rt_data_queue_push nf i p n 0 qs = Some (Ret RT_EOK, qs1) \<and>
        rt_data_queue_push nf i p' n' 0 qs1 = Some (Ret RT_EOK, qs2) \<and>
        rt_data_queue_pop nf i 0 qs2 = Some (Ret (RT_EOK, Some \<lparr>di_data_ptr = p', di_data_size = n'\<rparr>), qs3))"
proof -
  let ?q = "dq qs i" and ?d = "\<lparr>di_data_ptr = p, di_data_size = n\<rparr>" and ?d' = "\<lparr>di_data_ptr = p', di_data_size = n'\<rparr>"
  note W = wf [unfolded dq_wf_def]
  let ?s = "unat (dq_size ?q)"
  have len: "Suc (length (dq_content ?q)) = ?s"
  proof -
    have "unat (dq_get_index ?q) \<le> 65535" using W by (simp add: put)
    then have "Suc (65535 - unat (dq_get_index ?q)) = ?s" using get by linarith
    then show ?thesis by (simp add: put)
  qed
  have g0: "unat (dq_get_index ?q) mod ?s = 0"
  proof -
    have "?s dvd unat (dq_get_index ?q) + ?s" using pow by (simp only: get)
    then show ?thesis by (simp add: dvd_add_left_iff [OF dvd_refl])
  qed
  define q1 where "q1 = ?q\<lparr>dq_items := (dq_items ?q)[65535 mod ?s := ?d], dq_put_index := 0\<rparr>"
  define q2 where "q2 = q1\<lparr>dq_items := (dq_items q1)[0 := ?d'], dq_put_index := 1\<rparr>"
  have slot: "dq_slot x q = Some (unat x mod ?s)" if "dq_size q = dq_size ?q" "length (dq_items q) = ?s" for x q
    using that W by (auto simp: dq_slot_def unat_mod not_le)
  have f: "dq_size q1 = dq_size ?q" "dq_size q2 = dq_size ?q" "length (dq_items q1) = ?s" "length (dq_items q2) = ?s"
    "dq_get_index q1 = dq_get_index ?q" "dq_get_index q2 = dq_get_index ?q" "dq_put_index q1 = 0" "dq_put_index q2 = 1"
    "dq_evt_notify q1 = 0" "dq_evt_notify q2 = 0"
    using W quiet(3) by (simp_all add: q1_def q2_def)
  have s1: "dq_store ?d ?q = Some q1"
    using W by (simp add: dq_store_def slot q1_def put)
  have s2: "dq_store ?d' q1 = Some q2" by (simp add: dq_store_def slot f q2_def)
  have it: "dq_items q2 ! 0 = ?d'" using W f(4) by (simp add: q2_def q1_def)
  have s3: "dq_fetch q2 = Some (?d', q2\<lparr>dq_get_index := dq_get_index ?q + 1\<rparr>)"
    by (simp add: dq_fetch_def slot f g0 it)
  have n1: "RT_DATAQUEUE_SIZE ?q \<noteq> uint (dq_size ?q)" using dq_full_iff [OF wf] len by simp
  have pos: "0 < uint (dq_size ?q)" using W by (metis uint_nat of_nat_0_less_iff)
  have n2: "RT_DATAQUEUE_SIZE q1 \<noteq> uint (dq_size ?q)"
  proof -
    have "RT_DATAQUEUE_SIZE q1 = - uint (dq_get_index ?q)" by (simp add: RT_DATAQUEUE_SIZE_def f)
    then show ?thesis using pos uint_ge_0 [of "dq_get_index ?q"] by linarith
  qed
  have n3: "dq_get_index ?q \<noteq> 1"
  proof
    assume "dq_get_index ?q = 1"
    then have "?s = 65535" using get by simp
    then show False using pow by simp
  qed
  let ?qs1 = "upd_dq i (\<lambda>_. q1) qs" let ?qs2 = "upd_dq i (\<lambda>_. q2) ?qs1"
  have "rt_data_queue_push nf i p n 0 qs = Some (Ret RT_EOK, ?qs1)"
    using n1 s1 quiet f by (simp add: rt_data_queue_push_def dq_push_loop_def evt_notify_def Let_def)
  moreover have "rt_data_queue_push nf i p' n' 0 ?qs1 = Some (Ret RT_EOK, ?qs2)"
    using n2 s2 quiet f by (simp add: rt_data_queue_push_def dq_push_loop_def evt_notify_def Let_def)
  moreover have "\<exists>qs3. rt_data_queue_pop nf i 0 ?qs2 = Some (Ret (RT_EOK, Some ?d'), qs3)"
    using n3 s3 quiet f by (simp add: rt_data_queue_pop_def dq_pop_loop_def evt_notify_def dq_wake_def wake_first_def Let_def)
  ultimately show ?thesis using len by blast
qed

section \<open>Start and reset\<close>

text \<open>A queue whose array could be allocated starts empty and in order.\<close>

lemma rt_data_queue_init_wf:
  assumes "rt_data_queue_init i sz lwm f items qs h = Some (Ret RT_EOK, qs', h')" "0 < sz" "length items = unat sz"
  shows "dq_wf (dq qs' i) \<and> dq_content (dq qs' i) = [] \<and> dq_queue (dq qs' i) \<noteq> 0"
proof -
  let ?l = "(k_tlists (qs_kernel qs))(Outer (PushList i) := [], Outer (PopList i) := [])"
  obtain r k h1 where m: "rt_malloc (SIZEOF_RT_DATA_ITEM * ucast sz) (qs_kernel qs\<lparr>k_tlists := ?l\<rparr>) h = Some (r, k, h1)"
    using assms(1) by (auto simp: rt_data_queue_init_def bind_Some_iff Let_def)
  then obtain p where "r = Ret p" "p \<noteq> 0"
    using assms(1) by (cases r) (auto simp: rt_data_queue_init_def Let_def split: if_splits)
  then show ?thesis using assms m
    by (auto simp: rt_data_queue_init_def Let_def dq_wf_def dq_content_def unat_gt_0)
qed

text \<open>Resetting wakes every thread that waits, for data or for room, with an error; the items stay.\<close>

theorem rt_data_queue_reset_wakes:
  assumes ok: "sys_ok (qs_kernel qs)"
  shows "\<exists>qs'. rt_data_queue_reset i qs = Some qs' \<and> sys_ok (qs_kernel qs') \<and> dq_abs i qs' = (dq_content (dq qs i), [], []) \<and>
     (\<forall>t \<in> set (poppers qs i) \<union> set (pushers qs i).
        runnable (tstat (qs_kernel qs') t) \<and> th_error (thread (qs_kernel qs') t) = - RT_ERROR)"
proof -
  let ?k = "rt_enter_critical (qs_kernel qs)"
  have f: "k_tlists ?k = k_tlists (qs_kernel qs)" and ok0: "sys_ok ?k" using ok by (simp_all add: rt_enter_critical_def)
  obtain k1 where k1: "rt_ipc_list_resume_all (Outer (PopList i)) ?k = Some k1" "sys_ok k1" "core_frame ?k k1"
    "k_tlists k1 (Outer (PopList i)) = []" "k_current k1 = k_current ?k"
    "\<And>j. j \<noteq> Outer (PopList i) \<Longrightarrow> \<forall>p. j \<noteq> Ready p \<Longrightarrow> k_tlists k1 j = k_tlists ?k j"
    "\<And>t. t \<in> set (k_tlists ?k (Outer (PopList i))) \<Longrightarrow> runnable (tstat k1 t) \<and> th_error (thread k1 t) = - RT_ERROR"
    by (rule ipc_list_resume_all_run [OF ok0 outer_head, of "PopList i"]) (rule that; assumption)
  obtain k2 where k2: "rt_ipc_list_resume_all (Outer (PushList i)) k1 = Some k2" "sys_ok k2" "core_frame k1 k2"
    "k_tlists k2 (Outer (PushList i)) = []" "k_current k2 = k_current k1"
    "\<And>j. j \<noteq> Outer (PushList i) \<Longrightarrow> \<forall>p. j \<noteq> Ready p \<Longrightarrow> k_tlists k2 j = k_tlists k1 j"
    "\<And>t. t \<in> set (k_tlists k1 (Outer (PushList i))) \<Longrightarrow> runnable (tstat k2 t) \<and> th_error (thread k2 t) = - RT_ERROR"
    "\<And>t. t \<notin> set (k_tlists k1 (Outer (PushList i))) \<Longrightarrow> thread k2 t = thread k1 t"
    by (rule ipc_list_resume_all_run [OF k1(2) outer_head, of "PushList i"]) (rule that; assumption)
  have p: "k_tlists k1 (Outer (PushList i)) = pushers qs i" using k1(6) by (simp add: f)
  have w: "runnable (tstat k2 t) \<and> th_error (thread k2 t) = - RT_ERROR"
    if "t \<in> set (poppers qs i) \<union> set (pushers qs i)" for t
    using that k1(7) [of t, unfolded f] k2(7,8) [of t] unfolding p by (cases "t \<in> set (pushers qs i)") auto
  obtain k3 where k3: "rt_exit_critical k2 = Some k3" "sys_ok k3" "\<And>h. \<forall>p. h \<noteq> Ready p \<Longrightarrow> k_tlists k3 h = k_tlists k2 h"
    "\<And>t. runnable (tstat k3 t) \<longleftrightarrow> runnable (tstat k2 t)" "\<And>t. th_error (thread k3 t) = th_error (thread k2 t)"
    "k_sems k3 = k_sems k2"
    by (rule exit_critical_run [OF k2(2)]) (rule that; assumption)
  obtain k4 where k4: "rt_schedule k3 = Some k4" "sys_ok k4" "core_frame k3 k4"
    "\<And>h. \<forall>p. h \<noteq> Ready p \<Longrightarrow> k_tlists k4 h = k_tlists k3 h"
    "\<And>t. runnable (tstat k4 t) \<longleftrightarrow> runnable (tstat k3 t)" "\<And>t. th_error (thread k4 t) = th_error (thread k3 t)"
    by (rule rt_schedule_run [OF k3(2)]) (rule that; assumption)
  have "rt_data_queue_reset i qs = Some (qs\<lparr>qs_kernel := k4\<rparr>)"
    using k1(1) k2(1) k3(1) k4(1) by (simp add: rt_data_queue_reset_def)
  then show ?thesis using k4 k3 k2(4,6) k1(4) w by (simp add: dq_abs_def)
qed

end
