(* ===== verification/WaitQueue.thy ===== *)
theory WaitQueue
  imports OuterWait
begin

text \<open>
  Wait queues, \<^verbatim>\<open>components/drivers/src/waitqueue.c\<close>: a flag and a list of nodes, each of which names
  the thread that polls and the function that decides whether a wake-up concerns it.  The nodes of
  \<^verbatim>\<open>rt_wqueue_wait\<close> are variables on the stacks of the callers; here they are numbered, as those of
  other callers of \<^verbatim>\<open>rt_wqueue_add\<close> are.  The lists of nodes are not lists of threads: a thread that
  waits here is suspended and on no list of the kernel.
\<close>

section \<open>Operations\<close>

abbreviation (input) RT_WQ_FLAG_CLEAN :: rt_uint32 where "RT_WQ_FLAG_CLEAN \<equiv> 0"
abbreviation (input) RT_WQ_FLAG_WAKEUP :: rt_uint32 where "RT_WQ_FLAG_WAKEUP \<equiv> 1"
abbreviation (input) RT_WAITING_FOREVER :: int where "RT_WAITING_FOREVER \<equiv> - 1"

text \<open>The functions of nodes: \<^verbatim>\<open>__wqueue_default_wake\<close> or one of another component.\<close>

datatype wqueue_func = WQ_default | WQ_user rt_uint32

record rt_wqueue_node =
  wn_polling_thread :: tid
  wn_wakeup :: wqueue_func
  wn_key :: rt_uint32

text \<open>The wait queues, the nodes, the data of the functions of nodes, and the kernel.\<close>

record 'a wsys =
  ws_flag :: "oid \<Rightarrow> rt_uint32"
  ws_lists :: "(oid, nat) table"
  ws_nodes :: "nat \<Rightarrow> rt_wqueue_node"
  ws_user :: 'a
  ws_kernel :: kstate

text \<open>A function of a node is given the node and the key; it may change the data of its component, not
  the queue.\<close>

type_synonym 'a wake_fn = "rt_uint32 \<Rightarrow> rt_wqueue_node \<Rightarrow> rt_uint32 \<Rightarrow> 'a \<Rightarrow> int \<times> 'a"

definition wqueue_default_wake :: "rt_wqueue_node \<Rightarrow> rt_uint32 \<Rightarrow> int" where
  "wqueue_default_wake wait key = 0"

definition wq_flag :: "oid \<Rightarrow> rt_uint32 \<Rightarrow> 'a wsys \<Rightarrow> 'a wsys" where
  "wq_flag q v ws = ws\<lparr>ws_flag := (ws_flag ws)(q := v)\<rparr>"

definition rt_wqueue_init :: "oid \<Rightarrow> 'a wsys \<Rightarrow> 'a wsys" where
  "rt_wqueue_init q ws =
     (let ws = wq_flag q RT_WQ_FLAG_CLEAN ws in ws\<lparr>ws_lists := (ws_lists ws)(q := [])\<rparr>)"

definition rt_wqueue_add :: "oid \<Rightarrow> nat \<Rightarrow> 'a wsys \<Rightarrow> 'a wsys" where
  "rt_wqueue_add q n ws = ws\<lparr>ws_lists := tbl_append q n (ws_lists ws)\<rparr>"

definition rt_wqueue_remove :: "nat \<Rightarrow> 'a wsys \<Rightarrow> 'a wsys" where
  "rt_wqueue_remove n ws = ws\<lparr>ws_lists := tbl_remove n (ws_lists ws)\<rparr>"

definition wq_call :: "'a wake_fn \<Rightarrow> nat \<Rightarrow> rt_uint32 \<Rightarrow> 'a wsys \<Rightarrow> int \<times> 'a wsys" where
  "wq_call wk n key ws =
     (case wn_wakeup (ws_nodes ws n) of
        WQ_default \<Rightarrow> (wqueue_default_wake (ws_nodes ws n) key, ws)
      | WQ_user f \<Rightarrow> (let (r, u) = wk f (ws_nodes ws n) key (ws_user ws) in (r, ws\<lparr>ws_user := u\<rparr>)))"

text \<open>The loop over the nodes, up to the first that is woken.\<close>

fun wq_wake_loop :: "'a wake_fn \<Rightarrow> rt_uint32 \<Rightarrow> nat list \<Rightarrow> 'a wsys \<Rightarrow> (bool \<times> 'a wsys) option" where
  "wq_wake_loop wk key [] ws = Some (False, ws)"
| "wq_wake_loop wk key (n # ns) ws =
     (let (r, ws) = wq_call wk n key ws in
      if r = 0 then do {
        (_, k) \<leftarrow> rt_thread_resume (wn_polling_thread (ws_nodes ws n)) (ws_kernel ws);
        Some (True, rt_wqueue_remove n (ws\<lparr>ws_kernel := k\<rparr>))
      }
      else wq_wake_loop wk key ns ws)"

definition rt_wqueue_wakeup :: "'a wake_fn \<Rightarrow> oid \<Rightarrow> rt_uint32 \<Rightarrow> 'a wsys \<Rightarrow> 'a wsys option" where
  "rt_wqueue_wakeup wk q key ws = do {
     let ws = wq_flag q RT_WQ_FLAG_WAKEUP ws;
     (need_schedule, ws) \<leftarrow> wq_wake_loop wk key (ws_lists ws q) ws;
     if need_schedule then do { k \<leftarrow> rt_schedule (ws_kernel ws); Some (ws\<lparr>ws_kernel := k\<rparr>) }
     else Some ws
   }"

text \<open>The end of \<^verbatim>\<open>rt_wqueue_wait\<close>, which a suspended caller reaches when it runs again.\<close>

definition wqueue_wait_exit :: "oid \<Rightarrow> nat \<Rightarrow> 'a wsys \<Rightarrow> int \<times> 'a wsys" where
  "wqueue_wait_exit q n ws = (0, rt_wqueue_remove n (wq_flag q 0 ws))"

definition rt_wqueue_wait :: "oid \<Rightarrow> bool \<Rightarrow> int \<Rightarrow> nat \<Rightarrow> 'a wsys \<Rightarrow> (int outcome \<times> 'a wsys) option" where
  "rt_wqueue_wait q condition msec n ws = do {
     t \<leftarrow> rt_thread_self (ws_kernel ws);
     rt_debug_not_in_interrupt (ws_kernel ws);
     let tick = sint (rt_tick_from_millisecond msec);
     if condition \<or> tick = 0 then Some (Ret 0, ws)
     else do {
       let ws = ws\<lparr>ws_nodes := (ws_nodes ws)(n := \<lparr>wn_polling_thread = t, wn_wakeup = WQ_default, wn_key = 0\<rparr>)\<rparr>;
       if ws_flag ws q = RT_WQ_FLAG_WAKEUP
       then let (r, ws) = wqueue_wait_exit q n ws in Some (Ret r, ws)
       else do {
         let ws = rt_wqueue_add q n ws;
         (_, k) \<leftarrow> rt_thread_suspend t (ws_kernel ws);
         k \<leftarrow> (if tick \<noteq> RT_WAITING_FOREVER then start_thread_timer t (word_of_int tick) k else Some k);
         k \<leftarrow> rt_schedule k;
         Some (Wait, ws\<lparr>ws_kernel := k\<rparr>)
       }
     }
   }"

text \<open>The code starts the timer unless it waits for ever.\<close>

lemma timer_if_finite:
  assumes "time = - 1 \<or> 0 < time" "wait_finish t time k = Some k'"
  obtains k1 where "(if time \<noteq> - 1 then start_thread_timer t (word_of_int time) k else Some k) = Some k1" "rt_schedule k1 = Some k'"
  using assms by (cases "time = - 1") (auto simp: wait_finish_def bind_Some_iff)

lemma wq_fields [simp]:
  "ws_kernel (wq_flag q v ws) = ws_kernel ws" "ws_lists (wq_flag q v ws) = ws_lists ws"
  "ws_nodes (wq_flag q v ws) = ws_nodes ws" "ws_flag (wq_flag q v ws) q = v"
  "ws_kernel (rt_wqueue_remove n ws) = ws_kernel ws" "ws_flag (rt_wqueue_remove n ws) = ws_flag ws"
  "ws_lists (rt_wqueue_remove n ws) q = removeAll n (ws_lists ws q)" "ws_nodes (rt_wqueue_remove n ws) = ws_nodes ws"
  "ws_kernel (rt_wqueue_add q n ws) = ws_kernel ws" "ws_flag (rt_wqueue_add q n ws) = ws_flag ws"
  "ws_lists (rt_wqueue_add q n ws) q = ws_lists ws q @ [n]" "ws_nodes (rt_wqueue_add q n ws) = ws_nodes ws"
  by (simp_all add: wq_flag_def rt_wqueue_remove_def rt_wqueue_add_def)

text \<open>Waiting on a queue whose flag is down: the node goes to the end of the queue, and the caller is
  suspended.\<close>

lemma rt_wqueue_wait_waits:
  assumes ok: "sys_ok (ws_kernel ws)" and t: "running_in t (ws_kernel ws)"
    and tick: "sint (rt_tick_from_millisecond msec) = - 1 \<or> 0 < sint (rt_tick_from_millisecond msec)"
      "sint (rt_tick_from_millisecond msec) < 0x7FFFFFFF"
    and fl: "ws_flag ws q \<noteq> RT_WQ_FLAG_WAKEUP"
  obtains ws' where "rt_wqueue_wait q False msec n ws = Some (Wait, ws')" "sys_ok (ws_kernel ws')"
    "tstat (ws_kernel ws') t = RT_THREAD_SUSPEND" "ws_lists ws' q = ws_lists ws q @ [n]" "ws_flag ws' = ws_flag ws"
    "ws_nodes ws' = (ws_nodes ws)(n := \<lparr>wn_polling_thread = t, wn_wakeup = WQ_default, wn_key = 0\<rparr>)"
    "\<And>u. u \<noteq> t \<Longrightarrow> tstat (ws_kernel ws') u = tstat (ws_kernel ws) u \<or>
       runnable (tstat (ws_kernel ws') u) \<and> runnable (tstat (ws_kernel ws) u)"
proof -
  define tick where "tick = sint (rt_tick_from_millisecond msec)"
  note T = tick [folded tick_def]
  obtain e k1 k where k: "rt_thread_suspend t (ws_kernel ws) = Some (e, k1)" "wait_finish t tick k1 = Some k" "sys_ok k"
    "tstat k t = RT_THREAD_SUSPEND" "\<And>h. \<forall>p. h \<noteq> Ready p \<Longrightarrow> k_tlists k h = k_tlists (ws_kernel ws) h"
    "\<And>u. u \<noteq> t \<Longrightarrow> tstat k u = tstat (ws_kernel ws) u \<or> runnable (tstat k u) \<and> runnable (tstat (ws_kernel ws) u)"
    by (rule suspend_self_run [OF ok t T(2)]) (rule that; assumption)
  let ?ws = "rt_wqueue_add q n (ws\<lparr>ws_nodes := (ws_nodes ws)(n := \<lparr>wn_polling_thread = t, wn_wakeup = WQ_default, wn_key = 0\<rparr>)\<rparr>)"
  have "rt_wqueue_wait q False msec n ws = Some (Wait, ?ws\<lparr>ws_kernel := k\<rparr>)"
  proof -
    obtain k2 where k2: "(if tick \<noteq> - 1 then start_thread_timer t (word_of_int tick) k1 else Some k1) = Some k2"
      "rt_schedule k2 = Some k"
      by (rule timer_if_finite [OF T(1) k(2)])
    have "tick \<noteq> 0" using T(1) by auto
    then show ?thesis using fl t k(1) k2
      by (simp add: rt_wqueue_wait_def context_checks tick_def [symmetric] Let_def del: if_split_asm split del: if_split)
  qed
  then show thesis by (rule that) (use k in simp_all)
qed

text \<open>Waking the first node, when it is a node of \<^verbatim>\<open>rt_wqueue_wait\<close> whose thread is still suspended.\<close>

lemma rt_wqueue_wakeup_first:
  assumes ok: "sys_ok (ws_kernel ws)" and l: "ws_lists ws q = n # ns" and d: "wn_wakeup (ws_nodes ws n) = WQ_default"
    and st: "tstat (ws_kernel ws) (wn_polling_thread (ws_nodes ws n)) = RT_THREAD_SUSPEND"
  obtains ws' where "rt_wqueue_wakeup wk q key ws = Some ws'" "sys_ok (ws_kernel ws')"
    "runnable (tstat (ws_kernel ws') (wn_polling_thread (ws_nodes ws n)))"
    "ws_lists ws' q = removeAll n ns" "ws_flag ws' q = RT_WQ_FLAG_WAKEUP" "ws_nodes ws' = ws_nodes ws"
proof -
  let ?t = "wn_polling_thread (ws_nodes ws n)"
  obtain k where k: "rt_thread_resume ?t (ws_kernel ws) = Some (RT_EOK, k)" "sys_ok k" "runnable (tstat k ?t)"
    by (rule thread_resume_run [OF ok st]) (rule that; assumption)
  obtain k2 where k2: "rt_schedule k = Some k2" "sys_ok k2" "\<And>t. runnable (tstat k2 t) \<longleftrightarrow> runnable (tstat k t)"
    by (rule rt_schedule_run [OF k(2)]) (rule that; assumption)
  have "rt_wqueue_wakeup wk q key ws =
      Some (rt_wqueue_remove n ((wq_flag q RT_WQ_FLAG_WAKEUP ws)\<lparr>ws_kernel := k\<rparr>)\<lparr>ws_kernel := k2\<rparr>)"
    using l d k(1) k2(1) by (simp add: rt_wqueue_wakeup_def wq_call_def wqueue_default_wake_def)
  then show thesis by (rule that) (use k k2 l in simp_all)
qed

text \<open>C30: the order of a wake-up and the wait for it does not matter.  On a queue with no waiting thread and
  its flag down, a thread that waits first is suspended, the wake-up lets it run, and it returns 0; if
  the wake-up comes first, the wait returns 0 at once.  Either way the queue is empty again with its flag
  down, and no wake-up is lost.\<close>

theorem rt_wqueue_either_order:
  assumes ok: "sys_ok (ws_kernel ws)" and t: "running_in t (ws_kernel ws)"
    and tick: "sint (rt_tick_from_millisecond msec) = - 1 \<or> 0 < sint (rt_tick_from_millisecond msec)"
      "sint (rt_tick_from_millisecond msec) < 0x7FFFFFFF"
    and idle: "ws_flag ws q \<noteq> RT_WQ_FLAG_WAKEUP" "ws_lists ws q = []"
  shows "(\<exists>ws1 ws2 ws3. rt_wqueue_wait q False msec n ws = Some (Wait, ws1) \<and> tstat (ws_kernel ws1) t = RT_THREAD_SUSPEND \<and>
       rt_wqueue_wakeup wk q key ws1 = Some ws2 \<and> runnable (tstat (ws_kernel ws2) t) \<and>
       wqueue_wait_exit q n ws2 = (0, ws3) \<and> ws_lists ws3 q = [] \<and> ws_flag ws3 q = RT_WQ_FLAG_CLEAN) \<and>
     (\<exists>ws1 ws2. rt_wqueue_wakeup wk q key ws = Some ws1 \<and> ws_kernel ws1 = ws_kernel ws \<and>
       rt_wqueue_wait q False msec n ws1 = Some (Ret 0, ws2) \<and> ws_kernel ws2 = ws_kernel ws \<and>
       ws_lists ws2 q = [] \<and> ws_flag ws2 q = RT_WQ_FLAG_CLEAN)"
proof (intro conjI)
  obtain ws1 where w: "rt_wqueue_wait q False msec n ws = Some (Wait, ws1)" "sys_ok (ws_kernel ws1)"
    "tstat (ws_kernel ws1) t = RT_THREAD_SUSPEND" "ws_lists ws1 q = ws_lists ws q @ [n]"
    "ws_nodes ws1 = (ws_nodes ws)(n := \<lparr>wn_polling_thread = t, wn_wakeup = WQ_default, wn_key = 0\<rparr>)"
    by (rule rt_wqueue_wait_waits [OF ok t tick idle(1), of n]) (rule that; assumption)
  have l: "ws_lists ws1 q = n # []" and d: "wn_wakeup (ws_nodes ws1 n) = WQ_default"
    and p: "wn_polling_thread (ws_nodes ws1 n) = t" using w(4,5) idle(2) by simp_all
  obtain ws2 where v: "rt_wqueue_wakeup wk q key ws1 = Some ws2" "sys_ok (ws_kernel ws2)" "runnable (tstat (ws_kernel ws2) t)"
    "ws_lists ws2 q = []"
    by (rule rt_wqueue_wakeup_first [OF w(2) l d, of wk key]) (use w(3) p that in simp_all)
  show "\<exists>ws1 ws2 ws3. rt_wqueue_wait q False msec n ws = Some (Wait, ws1) \<and> tstat (ws_kernel ws1) t = RT_THREAD_SUSPEND \<and>
       rt_wqueue_wakeup wk q key ws1 = Some ws2 \<and> runnable (tstat (ws_kernel ws2) t) \<and>
       wqueue_wait_exit q n ws2 = (0, ws3) \<and> ws_lists ws3 q = [] \<and> ws_flag ws3 q = RT_WQ_FLAG_CLEAN"
    by (rule exI [of _ ws1], rule exI [of _ ws2]) (use w(1,3) v in \<open>simp add: wqueue_wait_exit_def\<close>)
  have "sint (rt_tick_from_millisecond msec) \<noteq> 0" using tick(1) by auto
  then show "\<exists>ws1 ws2. rt_wqueue_wakeup wk q key ws = Some ws1 \<and> ws_kernel ws1 = ws_kernel ws \<and>
       rt_wqueue_wait q False msec n ws1 = Some (Ret 0, ws2) \<and> ws_kernel ws2 = ws_kernel ws \<and>
       ws_lists ws2 q = [] \<and> ws_flag ws2 q = RT_WQ_FLAG_CLEAN"
    using idle(2) t by (simp add: rt_wqueue_wakeup_def rt_wqueue_wait_def context_checks wqueue_wait_exit_def Let_def)
qed

text \<open>A wake-up can be lost on a thread whose time is over.  Two threads wait on a queue; the first
  times out, but another wake-up comes before it has run and taken its node out.  The wake-up picks
  that node, though its thread runs anyway, and leaves the second thread suspended; and when the first
  thread goes on it lowers the flag: the second thread stays suspended in a queue that does not remember
  any wake-up.\<close>

theorem rt_wqueue_timeout_loses:
  assumes ok: "sys_ok (ws_kernel ws)" and l: "ws_lists ws q = [n1, n2]" and n: "n1 \<noteq> n2"
    and d: "\<And>n. n \<in> {n1, n2} \<Longrightarrow> wn_wakeup (ws_nodes ws n) = WQ_default"
    and p: "wn_polling_thread (ws_nodes ws n1) = t1" "wn_polling_thread (ws_nodes ws n2) = t2" "t1 \<noteq> t2"
    and st: "tstat (ws_kernel ws) t1 = RT_THREAD_SUSPEND" "tstat (ws_kernel ws) t2 = RT_THREAD_SUSPEND"
    and un: "unlinked (ThreadTimer t1) (k_tmlists (ws_kernel ws))"
  shows "\<exists>k ws1. rt_thread_timeout t1 (ws_kernel ws) = Some k \<and> rt_wqueue_wakeup wk q key (ws\<lparr>ws_kernel := k\<rparr>) = Some ws1 \<and>
     (case wqueue_wait_exit q n1 ws1 of (r, ws2) \<Rightarrow>
        ws_lists ws2 q = [n2] \<and> ws_flag ws2 q = RT_WQ_FLAG_CLEAN \<and> tstat (ws_kernel ws2) t2 = RT_THREAD_SUSPEND)"
proof -
  obtain k where k: "rt_thread_timeout t1 (ws_kernel ws) = Some k" "sys_ok k" "runnable (tstat k t1)"
    "\<And>u. u \<noteq> t1 \<Longrightarrow> tstat (ws_kernel ws) u = RT_THREAD_SUSPEND \<Longrightarrow> tstat k u = RT_THREAD_SUSPEND"
    by (rule timeout_leaves [OF ok st(1) un]) (rule that; assumption)
  have t2: "tstat k t2 = RT_THREAD_SUSPEND" using k(4) p(3) st(2) by metis
  have ty: "rt_object_get_type (KThread t1) k = RT_Object_Class_Thread"
    using type_if_listed [OF sys_okD(2) [OF k(2)] listed_if_live [OF sys_okD(2) [OF k(2)]]] k(3)
    by (auto simp: runnable_def)
  have r: "rt_thread_resume t1 k = Some (- RT_ERROR, k)"
    using k(3) ty by (auto simp: rt_thread_resume_def runnable_def)
  obtain k2 where k2: "rt_schedule k = Some k2" "sys_ok k2" "\<And>u. u \<noteq> t1 \<Longrightarrow> tstat k u = RT_THREAD_SUSPEND \<Longrightarrow> tstat k2 u = RT_THREAD_SUSPEND"
  proof -
    obtain k2 where k2: "rt_schedule k = Some k2" "sys_ok k2" by (rule rt_schedule_total [OF k(2)])
    have "sched_step k k2" by (rule rt_schedule_step [OF sys_okD(3) [OF k(2)] k2(1)])
    then have "\<And>u. tstat k u = RT_THREAD_SUSPEND \<Longrightarrow> tstat k2 u = RT_THREAD_SUSPEND" by (rule sched_step_suspended)
    then show thesis using that k2 by blast
  qed
  have "rt_wqueue_wakeup wk q key (ws\<lparr>ws_kernel := k\<rparr>) =
      Some (rt_wqueue_remove n1 ((wq_flag q RT_WQ_FLAG_WAKEUP (ws\<lparr>ws_kernel := k\<rparr>))\<lparr>ws_kernel := k\<rparr>)\<lparr>ws_kernel := k2\<rparr>)"
    using l d p(1) r k2(1) by (simp add: rt_wqueue_wakeup_def wq_call_def wqueue_default_wake_def)
  moreover have "tstat k2 t2 = RT_THREAD_SUSPEND" using k2(3) t2 p(3) by metis
  ultimately show ?thesis using k(1) l n by (simp add: wqueue_wait_exit_def)
qed

end
