(* ===== verification/WorkQueue.thy ===== *)
theory WorkQueue
  imports OuterWait SysFrame HeapCalls
begin

text \<open>
  Work queues, \<^verbatim>\<open>components/drivers/src/workqueue.c\<close>: works are put in a list and run one after the
  other by the thread of the queue, at once or after a delay, for which a work has a soft timer.  A work
  \<open>w\<close> and its timer \<open>UserTimer w\<close>, a queue \<open>q\<close> and its semaphore \<open>KSem q\<close> share their numbers, as the
  structures of the code contain each other.

  \<^verbatim>\<open>_workqueue_thread_entry\<close> is a state machine whose states are the places where an interrupt, or
  another thread, may come in between.
\<close>

section \<open>Data\<close>

abbreviation (input) RT_WORK_STATE_PENDING :: rt_uint16 where "RT_WORK_STATE_PENDING \<equiv> 1"
abbreviation (input) RT_WORK_STATE_SUBMITTING :: rt_uint16 where "RT_WORK_STATE_SUBMITTING \<equiv> 2"
abbreviation (input) RT_WORK_TYPE_DELAYED :: rt_uint16 where "RT_WORK_TYPE_DELAYED \<equiv> 1"

record rt_work =
  wk_func :: rt_uint32
  wk_data :: rt_uint32
  wk_flags :: rt_uint16
  wk_type :: rt_uint16
  wk_queue :: "oid option"

record rt_workqueue =
  wq_current :: "oid option"
  wq_thread :: tid

text \<open>The list \<open>wks_lists s q\<close> is \<^verbatim>\<open>work_list\<close> of queue \<open>q\<close>.  The last fields are constants of the build: the
  addresses of the timeout handler and of the entry of the threads, and \<^verbatim>\<open>EINVAL\<close> of the C library.\<close>

record wks =
  wks_lists :: "(oid, oid) table"
  wks_works :: "oid \<Rightarrow> rt_work"
  wks_queues :: "oid \<Rightarrow> rt_workqueue"
  wks_kernel :: kstate
  wks_handler :: nat
  wks_entry :: rt_uint32
  wks_EINVAL :: rt_err

abbreviation work :: "wks \<Rightarrow> oid \<Rightarrow> rt_work" where
  "work s w \<equiv> wks_works s w"

abbreviation workq :: "wks \<Rightarrow> oid \<Rightarrow> rt_workqueue" where
  "workq s q \<equiv> wks_queues s q"

abbreviation works_of :: "wks \<Rightarrow> oid \<Rightarrow> oid list" where
  "works_of s q \<equiv> wks_lists s q"

definition upd_work :: "oid \<Rightarrow> (rt_work \<Rightarrow> rt_work) \<Rightarrow> wks \<Rightarrow> wks" where
  "upd_work w f s = s\<lparr>wks_works := (wks_works s)(w := f (wks_works s w))\<rparr>"

definition upd_workq :: "oid \<Rightarrow> (rt_workqueue \<Rightarrow> rt_workqueue) \<Rightarrow> wks \<Rightarrow> wks" where
  "upd_workq q f s = s\<lparr>wks_queues := (wks_queues s)(q := f (wks_queues s q))\<rparr>"

definition on_kernel :: "(kstate \<Rightarrow> kstate option) \<Rightarrow> wks \<Rightarrow> wks option" where
  "on_kernel f s = do { k \<leftarrow> f (wks_kernel s); Some (s\<lparr>wks_kernel := k\<rparr>) }"

definition pending :: "rt_work \<Rightarrow> bool" where
  "pending w \<longleftrightarrow> wk_flags w AND RT_WORK_STATE_PENDING \<noteq> 0"

definition set_work_flag :: "rt_uint16 \<Rightarrow> rt_work \<Rightarrow> rt_work" where
  "set_work_flag v w = w\<lparr>wk_flags := wk_flags w OR v\<rparr>"

definition clear_work_flag :: "rt_uint16 \<Rightarrow> rt_work \<Rightarrow> rt_work" where
  "clear_work_flag v w = w\<lparr>wk_flags := wk_flags w AND NOT v\<rparr>"

definition rt_work_init :: "oid \<Rightarrow> rt_uint32 \<Rightarrow> rt_uint32 \<Rightarrow> wks \<Rightarrow> wks" where
  "rt_work_init w work_func work_data s =
     upd_work w (\<lambda>_. \<lparr>wk_func = work_func, wk_data = work_data, wk_flags = 0, wk_type = 0, wk_queue = None\<rparr>)
       (s\<lparr>wks_lists := tbl_remove w (wks_lists s)\<rparr>)"

definition rt_delayed_work_init :: "oid \<Rightarrow> rt_uint32 \<Rightarrow> rt_uint32 \<Rightarrow> wks \<Rightarrow> wks" where
  "rt_delayed_work_init = rt_work_init"

section \<open>The thread of a queue\<close>

text \<open>Whoever waits for the end of the current work is let go; the semaphore is at 0 afterwards.\<close>

partial_function (option) sem_drain :: "oid \<Rightarrow> kstate \<Rightarrow> (rt_err \<times> kstate) option" where
  "sem_drain i k = do {
     (r, k) \<leftarrow> rt_sem_trytake i k;
     if r = Ret (- RT_ETIMEOUT) then do { (_, k) \<leftarrow> rt_sem_release i k; sem_drain i k }
     else if r = Ret RT_EOK then Some (RT_EOK, k)
     else Some (- RT_ERROR, k)
   }"

definition workqueue_work_completion :: "oid \<Rightarrow> wks \<Rightarrow> (rt_err \<times> wks) option" where
  "workqueue_work_completion q s = do {
     let k = rt_enter_critical (wks_kernel s);
     (result, k) \<leftarrow> sem_drain q k;
     k \<leftarrow> rt_exit_critical k;
     Some (result, s\<lparr>wks_kernel := k\<rparr>)
   }"

text \<open>Where the thread is: before the test of the list, between the test and its suspension, before it
  takes a work, in the function of a work, before the acknowledgement.  The function of a work is code of
  the application.\<close>

datatype worker_pc = WQ_test | WQ_suspend | WQ_take | WQ_work oid | WQ_ack

type_synonym work_fn = "rt_uint32 \<Rightarrow> oid \<Rightarrow> rt_uint32 \<Rightarrow> wks \<Rightarrow> wks option"

fun workqueue_thread_step :: "work_fn \<Rightarrow> oid \<Rightarrow> worker_pc \<times> wks \<Rightarrow> (worker_pc \<times> wks) option" where
  "workqueue_thread_step fn q (WQ_test, s) = Some (if works_of s q = [] then WQ_suspend else WQ_take, s)"
| "workqueue_thread_step fn q (WQ_suspend, s) = do {
     t \<leftarrow> rt_thread_self (wks_kernel s);
     (_, k) \<leftarrow> rt_thread_suspend t (wks_kernel s);
     k \<leftarrow> rt_schedule k;
     Some (WQ_take, s\<lparr>wks_kernel := k\<rparr>)
   }"
| "workqueue_thread_step fn q (WQ_take, s) =
     (case works_of s q of
        [] \<Rightarrow> None
      | w # _ \<Rightarrow>
          let s = s\<lparr>wks_lists := tbl_remove w (wks_lists s)\<rparr>;
              s = upd_workq q (\<lambda>x. x\<lparr>wq_current := Some w\<rparr>) s;
              s = upd_work w (\<lambda>x. (clear_work_flag RT_WORK_STATE_PENDING x)\<lparr>wk_queue := None\<rparr>) s
          in Some (WQ_work w, s))"
| "workqueue_thread_step fn q (WQ_work w, s) = do {
     s \<leftarrow> fn (wk_func (work s w)) w (wk_data (work s w)) s;
     Some (WQ_ack, upd_workq q (\<lambda>x. x\<lparr>wq_current := None\<rparr>) s)
   }"
| "workqueue_thread_step fn q (WQ_ack, s) = do {
     (_, s) \<leftarrow> workqueue_work_completion q s;
     Some (WQ_test, s)
   }"

section \<open>Submitting and cancelling\<close>

text \<open>The thread of the queue is woken unless it is at work.\<close>

definition wake_worker :: "oid \<Rightarrow> wks \<Rightarrow> wks option" where
  "wake_worker q s =
     (if wq_current (workq s q) = None
      then on_kernel (\<lambda>k. do { (_, k) \<leftarrow> rt_thread_resume (wq_thread (workq s q)) k; rt_schedule k }) s
      else Some s)"

definition enqueue_work :: "oid \<Rightarrow> oid \<Rightarrow> wks \<Rightarrow> wks" where
  "enqueue_work q w s = s\<lparr>wks_lists := tbl_append q w (tbl_remove w (wks_lists s))\<rparr>"

definition workqueue_submit_work :: "oid \<Rightarrow> oid \<Rightarrow> wks \<Rightarrow> (rt_err \<times> wks) option" where
  "workqueue_submit_work q w s =
     (if pending (work s w) then Some (- RT_EBUSY, s)
      else if wq_current (workq s q) = Some w then Some (- RT_EBUSY, s)
      else do {
        let s = enqueue_work q w s;
        let s = upd_work w (set_work_flag RT_WORK_STATE_PENDING) s;
        s \<leftarrow> wake_worker q s;
        Some (RT_EOK, s)
      })"

definition workqueue_cancel_work :: "oid \<Rightarrow> oid \<Rightarrow> wks \<Rightarrow> rt_err \<times> wks" where
  "workqueue_cancel_work q w s =
     (if wq_current (workq s q) = Some w then (- RT_EBUSY, s)
      else
        let s = s\<lparr>wks_lists := tbl_remove w (wks_lists s)\<rparr>
        in (RT_EOK, upd_work w (clear_work_flag RT_WORK_STATE_PENDING) s))"

definition workqueue_cancel_delayed_work :: "oid \<Rightarrow> wks \<Rightarrow> (rt_err \<times> wks) option" where
  "workqueue_cancel_delayed_work w s =
     (case wk_queue (work s w) of
        None \<Rightarrow> Some (- wks_EINVAL s, s)
      | Some q \<Rightarrow> do {
          (ret, s) \<leftarrow>
            (if pending (work s w) then Some (workqueue_cancel_work q w s)
             else if wk_flags (work s w) AND RT_WORK_STATE_SUBMITTING \<noteq> 0
             then do {
               (_, k) \<leftarrow> rt_timer_stop (UserTimer w) (wks_kernel s);
               (_, k) \<leftarrow> rt_timer_detach (UserTimer w) k;
               Some (RT_EOK, upd_work w (clear_work_flag RT_WORK_STATE_SUBMITTING) (s\<lparr>wks_kernel := k\<rparr>))
             }
             else Some (RT_EOK, s));
          if ret \<noteq> RT_EOK then Some (ret, s)
          else Some (RT_EOK, upd_work w (\<lambda>x. clear_work_flag RT_WORK_STATE_PENDING (x\<lparr>wk_queue := None\<rparr>)) s)
        })"

definition work_name :: "rt_uint8 list" where
  "work_name = [0x77, 0x6F, 0x72, 0x6B, 0]"

definition workqueue_submit_delayed_work :: "oid \<Rightarrow> oid \<Rightarrow> rt_uint32 \<Rightarrow> wks \<Rightarrow> (rt_err \<times> wks) option" where
  "workqueue_submit_delayed_work q w ticks s =
     (if wk_queue (work s w) \<noteq> None \<and> wk_queue (work s w) \<noteq> Some q then Some (- RT_EINVAL, s)
      else do {
        (ret, s) \<leftarrow> (if wk_queue (work s w) = Some q then workqueue_cancel_delayed_work w s else Some (RT_EOK, s));
        if ret < 0 then Some (ret, s)
        else do {
          let s = upd_work w (\<lambda>x. x\<lparr>wk_queue := Some q\<rparr>) s;
          if ticks = 0 then workqueue_submit_work q w s
          else do {
            let s = upd_work w (set_work_flag RT_WORK_STATE_SUBMITTING) s;
            k \<leftarrow> rt_timer_init (UserTimer w) work_name (TF_user (wks_handler s) (of_nat w)) ticks
                   RT_TIMER_FLAG_SOFT_TIMER (wks_kernel s);
            (_, k) \<leftarrow> rt_timer_start (UserTimer w) k;
            Some (ret, s\<lparr>wks_kernel := k\<rparr>)
          }
        }
      })"

definition delayed_work_timeout_handler :: "oid \<Rightarrow> wks \<Rightarrow> wks option" where
  "delayed_work_timeout_handler w s = do {
     (_, k) \<leftarrow> rt_timer_stop (UserTimer w) (wks_kernel s);
     (_, k) \<leftarrow> rt_timer_detach (UserTimer w) k;
     let s = s\<lparr>wks_kernel := k\<rparr>;
     let s = upd_work w (\<lambda>x. (clear_work_flag RT_WORK_STATE_SUBMITTING x)\<lparr>wk_type := wk_type x AND NOT RT_WORK_TYPE_DELAYED\<rparr>) s;
     q \<leftarrow> wk_queue (work s w);
     (_, s) \<leftarrow> workqueue_submit_work q w s;
     Some s
   }"

section \<open>The calls of the interface\<close>

text \<open>The size of \<^verbatim>\<open>struct rt_workqueue\<close> is an argument; \<open>alloc\<close> and \<open>stack\<close> are what the creation of the
  thread gets from the heap.\<close>

definition wqueue_name :: "rt_uint8 list" where
  "wqueue_name = [0x77, 0x71, 0x75, 0x65, 0x75, 0x65, 0]"

definition rt_workqueue_create ::
    "rt_uint32 \<Rightarrow> rt_uint8 list \<Rightarrow> rt_uint16 \<Rightarrow> rt_uint8 \<Rightarrow> tid option \<Rightarrow> rt_uint32 option \<Rightarrow> wks \<Rightarrow> heap \<Rightarrow>
       (oid option outcome \<times> wks \<times> heap) option" where
  "rt_workqueue_create sizeof_queue name stack_size priority alloc stack s h = do {
     (r, k, h) \<leftarrow> rt_malloc sizeof_queue (wks_kernel s) h;
     let s = s\<lparr>wks_kernel := k\<rparr>;
     (case r of Wait \<Rightarrow> Some (Wait, s, h)
      | Ret p \<Rightarrow>
          if p = 0 then Some (Ret None, s, h)
          else do {
            let q = unat p;
            let s = s\<lparr>wks_lists := (wks_lists s)(q := [])\<rparr>;
            let s = upd_workq q (\<lambda>x. x\<lparr>wq_current := None\<rparr>) s;
            (_, k) \<leftarrow> rt_sem_init q wqueue_name 0 RT_IPC_FLAG_FIFO (wks_kernel s);
            (thr, k) \<leftarrow> rt_thread_create name (wks_entry s) p (ucast stack_size) priority 10 alloc stack k;
            let s = s\<lparr>wks_kernel := k\<rparr>;
            (case thr of
               None \<Rightarrow> do {
                 (r, k, h) \<leftarrow> rt_free p (wks_kernel s) h;
                 Some (case r of Wait \<Rightarrow> Wait | Ret _ \<Rightarrow> Ret None, s\<lparr>wks_kernel := k\<rparr>, h)
               }
             | Some t \<Rightarrow> do {
                 let s = upd_workq q (\<lambda>x. x\<lparr>wq_thread := t\<rparr>) s;
                 (_, k) \<leftarrow> rt_thread_startup t (wks_kernel s);
                 Some (Ret (Some q), s\<lparr>wks_kernel := k\<rparr>, h)
               })
          })
   }"

definition rt_workqueue_destroy :: "oid \<Rightarrow> wks \<Rightarrow> heap \<Rightarrow> (rt_err outcome \<times> wks \<times> heap) option" where
  "rt_workqueue_destroy q s h = do {
     (_, k) \<leftarrow> rt_thread_delete (wq_thread (workq s q)) (wks_kernel s);
     (r, k, h) \<leftarrow> rt_free (of_nat q) k h;
     Some (case r of Wait \<Rightarrow> Wait | Ret _ \<Rightarrow> Ret RT_EOK, s\<lparr>wks_kernel := k\<rparr>, h)
   }"

definition rt_workqueue_dowork :: "oid \<Rightarrow> oid \<Rightarrow> wks \<Rightarrow> (rt_err \<times> wks) option" where
  "rt_workqueue_dowork q w s = workqueue_submit_work q w s"

definition rt_workqueue_submit_work :: "oid \<Rightarrow> oid \<Rightarrow> rt_uint32 \<Rightarrow> wks \<Rightarrow> (rt_err \<times> wks) option" where
  "rt_workqueue_submit_work q w time s =
     (let s = (if 0 < time then upd_work w (\<lambda>x. x\<lparr>wk_type := wk_type x OR RT_WORK_TYPE_DELAYED\<rparr>) s else s)
      in if wk_type (work s w) AND RT_WORK_TYPE_DELAYED \<noteq> 0 then workqueue_submit_delayed_work q w time s
         else workqueue_submit_work q w s)"

definition rt_workqueue_critical_work :: "oid \<Rightarrow> oid \<Rightarrow> wks \<Rightarrow> (rt_err \<times> wks) option" where
  "rt_workqueue_critical_work q w s =
     (if wq_current (workq s q) = Some w then Some (- RT_EBUSY, s)
      else do {
        let s = enqueue_work q w s;
        s \<leftarrow> wake_worker q s;
        Some (RT_EOK, s)
      })"

definition rt_workqueue_cancel_work :: "oid \<Rightarrow> oid \<Rightarrow> wks \<Rightarrow> (rt_err \<times> wks) option" where
  "rt_workqueue_cancel_work q w s =
     (if wk_type (work s w) AND RT_WORK_TYPE_DELAYED \<noteq> 0 then workqueue_cancel_delayed_work w s
      else Some (workqueue_cancel_work q w s))"

text \<open>The interrupts are off around the call of \<^verbatim>\<open>rt_sem_take\<close>, so the caller clears the flag before the
  processor goes to another thread; when it runs again it returns \<^verbatim>\<open>RT_EOK\<close>.\<close>

definition rt_workqueue_cancel_work_sync :: "oid \<Rightarrow> oid \<Rightarrow> wks \<Rightarrow> (rt_err outcome \<times> wks) option" where
  "rt_workqueue_cancel_work_sync q w s = do {
     (r, s) \<leftarrow>
       (if wq_current (workq s q) = Some w
        then do { (r, k) \<leftarrow> rt_sem_take q (- 1) (wks_kernel s); Some (r, s\<lparr>wks_kernel := k\<rparr>) }
        else Some (Ret RT_EOK, s\<lparr>wks_lists := tbl_remove w (wks_lists s)\<rparr>));
     let s = upd_work w (clear_work_flag RT_WORK_STATE_PENDING) s;
     Some (case r of Wait \<Rightarrow> Wait | Ret _ \<Rightarrow> Ret RT_EOK, s)
   }"

definition rt_workqueue_cancel_all_work :: "oid \<Rightarrow> wks \<Rightarrow> (rt_err \<times> wks) option" where
  "rt_workqueue_cancel_all_work q s = do {
     let s = s\<lparr>wks_kernel := rt_enter_critical (wks_kernel s)\<rparr>;
     let s = s\<lparr>wks_lists := fold tbl_remove (works_of s q) (wks_lists s)\<rparr>;
     s \<leftarrow> on_kernel rt_exit_critical s;
     Some (RT_EOK, s)
   }"

section \<open>Completion\<close>

lemma ipc_object_ok_touches: "touches K s s' \<Longrightarrow> ipc_object_ok k s \<Longrightarrow> ipc_object_ok k s'"
  using touchesD(1,2) [of K s s'] by (simp add: ipc_object_ok_def)

lemma step_ok_exit_critical:
  assumes "rt_exit_critical s = Some s'"
  shows "step_ok K s s'"
proof -
  have "s' = s\<lparr>k_lock_nest := k_lock_nest s - 1\<rparr> \<or> s' = s\<lparr>k_lock_nest := 0\<rparr> \<or> rt_schedule (s\<lparr>k_lock_nest := 0\<rparr>) = Some s'"
    using assms by (auto simp: rt_exit_critical_def Let_def split: if_splits)
  then show ?thesis using step_ok_trans [OF step_ok_current(5) [of K s 0] step_ok_schedule] by auto
qed

text \<open>A release does not stop any thread.\<close>

lemma sem_release_keeps:
  assumes ok: "sys_ok s" and r: "rt_sem_release i s = Some (e, s')"
  shows "runnable (tstat s u) \<Longrightarrow> runnable (tstat s' u)" "th_error (thread s' u) = th_error (thread s u)"
proof -
  have "(runnable (tstat s u) \<longrightarrow> runnable (tstat s' u)) \<and> th_error (thread s' u) = th_error (thread s u)"
  proof (cases "k_tlists s (Susp (KSem i))")
    case Nil
    then show ?thesis using r by (auto simp: rt_sem_release_def)
  next
    case (Cons t ts)
    have h: "wait_head (Susp (KSem i)) (KSem i)" by (simp add: wait_head_def)
    obtain s1 where s1: "rt_ipc_list_resume (Susp (KSem i)) s = Some s1" "sys_ok s1"
      "runnable (tstat s1 t)" "\<And>u. u \<noteq> t \<Longrightarrow> thread s1 u = thread s u" "th_error (thread s1 t) = th_error (thread s t)"
      by (rule ipc_list_resume_run [OF ok h Cons]) (rule that; assumption)
    obtain s2 where s2: "rt_schedule s1 = Some s2" "\<And>t. runnable (tstat s2 t) \<longleftrightarrow> runnable (tstat s1 t)"
      "\<And>t. th_error (thread s2 t) = th_error (thread s1 t)"
      by (rule rt_schedule_run [OF s1(2)]) (rule that; assumption)
    have "s' = s2" using r Cons s1(1) s2(1) by (simp add: rt_sem_release_def)
    then show ?thesis using s1 s2 by (cases "u = t") auto
  qed
  then show "runnable (tstat s u) \<Longrightarrow> runnable (tstat s' u)" "th_error (thread s' u) = th_error (thread s u)" by auto
qed

lemma sem_trytake_one:
  assumes "kernel_ok s" "ipc_object_ok (KSem i) s" "sem_abs i s = (Suc n, q)"
  shows "rt_sem_trytake i s = Some (Ret RT_EOK, upd_sem i (\<lambda>v. v - 1) s)" "sem_abs i (upd_sem i (\<lambda>v. v - 1) s) = (n, q)"
  using rt_sem_take_available [OF assms, of 0] ipc_object_okD [OF assms(1,2)]
  by (auto simp: rt_sem_trytake_def rt_sem_take_def split: if_splits)

lemma sem_drain_run:
  assumes "sys_ok k" "ipc_object_ok (KSem i) k" "sem_abs i k = (n, ts)" "ts \<noteq> [] \<longrightarrow> n = 0"
  shows "\<exists>k'. sem_drain i k = Some (RT_EOK, k') \<and> sys_ok k' \<and> ipc_object_ok (KSem i) k' \<and> sem_abs i k' = (n - 1, []) \<and>
     (\<forall>t. t \<in> set ts \<or> runnable (tstat k t) \<longrightarrow> runnable (tstat k' t)) \<and>
     (\<forall>t. th_error (thread k' t) = th_error (thread k t))"
  using assms
proof (induction ts arbitrary: k n)
  case Nil
  note K = sys_okD(1) [OF Nil.prems(1)]
  have one: "\<exists>k'. sem_drain i k = Some (RT_EOK, k') \<and> sys_ok k' \<and> ipc_object_ok (KSem i) k' \<and> sem_abs i k' = (m, []) \<and>
     k_threads k' = k_threads k" if k: "sys_ok k" "ipc_object_ok (KSem i) k" "sem_abs i k = (Suc m, [])" for k m
  proof -
    note T = sem_trytake_one [OF sys_okD(1) [OF k(1)] k(2,3)]
    have "ipc_object_ok (KSem i) (upd_sem i (\<lambda>v. v - 1) k)"
      using k(2) by (simp add: ipc_object_ok_def)
    then show ?thesis using T k(1) by (simp add: sem_drain.simps [of i k])
  qed
  show ?case
  proof (cases n)
    case (Suc m)
    then show ?thesis using one [of k m] Nil.prems by auto
  next
    case 0
    have t: "rt_sem_trytake i k = Some (Ret (- RT_ETIMEOUT), k)"
      using rt_sem_take_refused [OF K Nil.prems(2)] Nil.prems(3) 0 by (simp add: rt_sem_trytake_def)
    obtain k1 where r: "rt_sem_release i k = Some (RT_EOK, k1)" "sem_abs i k1 = (1, [])" "sys_ok k1"
      using rt_sem_release_counts [OF K Nil.prems(2)] Nil.prems(1,3) 0 by auto
    have "ipc_object_ok (KSem i) k1"
      using ipc_object_ok_touches step_ok_sem_release [OF r(1)] Nil.prems(2) by (auto simp: step_ok_def)
    then obtain k' where k': "sem_drain i k1 = Some (RT_EOK, k')" "sys_ok k'" "ipc_object_ok (KSem i) k'" "sem_abs i k' = (0, [])"
       "k_threads k' = k_threads k1"
      using one [of k1 0] r by auto
    have "sem_drain i k = Some (RT_EOK, k')" using t r(1) k'(1) by (simp add: sem_drain.simps [of i k])
    then show ?thesis using k' 0 sem_release_keeps [OF Nil.prems(1) r(1)] by (intro exI [of _ k']) auto
  qed
next
  case (Cons t ts)
  note K = sys_okD(1) [OF Cons.prems(1)]
  have n: "n = 0" using Cons.prems(4) by simp
  have tk: "rt_sem_trytake i k = Some (Ret (- RT_ETIMEOUT), k)"
    using rt_sem_take_refused [OF K Cons.prems(2)] Cons.prems(3) n by (simp add: rt_sem_trytake_def)
  obtain k1 where r: "rt_sem_release i k = Some (RT_EOK, k1)" "sys_ok k1" "sem_abs i k1 = (0, ts)" "runnable (tstat k1 t)"
    using rt_sem_release_wakes [OF Cons.prems(1,2)] Cons.prems(3) n by blast
  have o: "ipc_object_ok (KSem i) k1"
    using ipc_object_ok_touches step_ok_sem_release [OF r(1)] Cons.prems(2) by (auto simp: step_ok_def)
  obtain k' where k': "sem_drain i k1 = Some (RT_EOK, k')" "sys_ok k'" "ipc_object_ok (KSem i) k'" "sem_abs i k' = (0, [])"
      "\<forall>u. u \<in> set ts \<or> runnable (tstat k1 u) \<longrightarrow> runnable (tstat k' u)" "\<forall>u. th_error (thread k' u) = th_error (thread k1 u)"
    using Cons.IH [OF r(2) o r(3)] by auto
  have "sem_drain i k = Some (RT_EOK, k')" using tk r(1) k'(1) by (simp add: sem_drain.simps [of i k])
  then show ?case using k' n r(4) sem_release_keeps [OF Cons.prems(1) r(1)] by (intro exI [of _ k']) auto
qed

text \<open>The semaphore of a queue: nobody waits while it counts.\<close>

definition queue_sem_ok :: "oid \<Rightarrow> kstate \<Rightarrow> bool" where
  "queue_sem_ok q k \<longleftrightarrow> ipc_object_ok (KSem q) k \<and> (snd (sem_abs q k) \<noteq> [] \<longrightarrow> fst (sem_abs q k) = 0)"

lemma work_completion_run:
  assumes ok: "sys_ok (wks_kernel s)" and sem: "queue_sem_ok q (wks_kernel s)"
  obtains k where "workqueue_work_completion q s = Some (RT_EOK, s\<lparr>wks_kernel := k\<rparr>)" "sys_ok k" "queue_sem_ok q k"
    "sem_abs q k = (fst (sem_abs q (wks_kernel s)) - 1, [])"
    "\<And>t. t \<in> set (snd (sem_abs q (wks_kernel s))) \<Longrightarrow> runnable (tstat k t) \<and>
       rt_sem_take_resume t k = rt_sem_take_resume t (wks_kernel s)"
proof -
  let ?k = "rt_enter_critical (wks_kernel s)"
  have e: "sys_ok ?k" "ipc_object_ok (KSem q) ?k" "sem_abs q ?k = sem_abs q (wks_kernel s)"
    "\<And>t. th_error (thread ?k t) = th_error (thread (wks_kernel s) t)"
    using ok sem by (simp_all add: rt_enter_critical_def queue_sem_ok_def ipc_object_ok_def sem_abs_def)
  obtain n ts where a: "sem_abs q (wks_kernel s) = (n, ts)" by fastforce
  obtain k1 where k1: "sem_drain q ?k = Some (RT_EOK, k1)" "sys_ok k1" "ipc_object_ok (KSem q) k1" "sem_abs q k1 = (n - 1, [])"
      "\<forall>t. t \<in> set ts \<or> runnable (tstat ?k t) \<longrightarrow> runnable (tstat k1 t)" "\<forall>t. th_error (thread k1 t) = th_error (thread ?k t)"
    using sem_drain_run [OF e(1,2), of n ts] e(3) a sem by (auto simp: queue_sem_ok_def)
  obtain k2 where k2: "rt_exit_critical k1 = Some k2" "sys_ok k2" "\<And>h. \<forall>p. h \<noteq> Ready p \<Longrightarrow> k_tlists k2 h = k_tlists k1 h"
    "\<And>t. runnable (tstat k2 t) \<longleftrightarrow> runnable (tstat k1 t)" "\<And>t. th_error (thread k2 t) = th_error (thread k1 t)"
    "k_sems k2 = k_sems k1"
    by (rule exit_critical_run [OF k1(2)]) (rule that; assumption)
  have s2: "sem_abs q k2 = (n - 1, [])" using k1(4) k2(3,6) by (simp add: sem_abs_def)
  have o: "ipc_object_ok (KSem q) k2"
    by (rule ipc_object_ok_touches [of "{}" k1]) (use step_ok_exit_critical [OF k2(1), of "{}"] k1(3) in \<open>simp_all add: step_ok_def\<close>)
  have w: "workqueue_work_completion q s = Some (RT_EOK, s\<lparr>wks_kernel := k2\<rparr>)"
    using k1(1) k2(1) by (simp add: workqueue_work_completion_def)
  show thesis
    by (rule that [OF w k2(2)]) (use o s2 a k1(5,6) k2(4,5) e(4) in \<open>auto simp: queue_sem_ok_def rt_sem_take_resume_def\<close>)
qed

text \<open>C31: the loop that ends a work terminates and reaches every thread that waits for the end of that
  work.  It takes and releases the semaphore of the queue in turn; on a semaphore in order it returns
  \<^verbatim>\<open>RT_EOK\<close>, whatever the number of waiting threads, each of them can run and returns what it would have
  returned, nobody waits any more, and the semaphore counts 0 (one less than before, if it counted).\<close>

theorem workqueue_work_completion_wakes_all:
  assumes ok: "sys_ok (wks_kernel s)" and sem: "queue_sem_ok q (wks_kernel s)"
  shows "\<exists>k. workqueue_work_completion q s = Some (RT_EOK, s\<lparr>wks_kernel := k\<rparr>) \<and> sys_ok k \<and> queue_sem_ok q k \<and>
     sem_abs q k = (fst (sem_abs q (wks_kernel s)) - 1, []) \<and>
     (\<forall>t \<in> set (snd (sem_abs q (wks_kernel s))). runnable (tstat k t) \<and>
        rt_sem_take_resume t k = rt_sem_take_resume t (wks_kernel s))"
proof -
  obtain k where k: "workqueue_work_completion q s = Some (RT_EOK, s\<lparr>wks_kernel := k\<rparr>)" "sys_ok k" "queue_sem_ok q k"
    "sem_abs q k = (fst (sem_abs q (wks_kernel s)) - 1, [])"
    "\<And>t. t \<in> set (snd (sem_abs q (wks_kernel s))) \<Longrightarrow> runnable (tstat k t) \<and>
       rt_sem_take_resume t k = rt_sem_take_resume t (wks_kernel s)"
    by (rule work_completion_run [OF assms]) (rule that; assumption)
  show ?thesis by (rule exI [of _ k]) (use k in blast)
qed

section \<open>Running the works\<close>

lemma upd_work_fields [simp]:
  "wks_lists (upd_work w f s) = wks_lists s" "wks_queues (upd_work w f s) = wks_queues s"
  "wks_kernel (upd_work w f s) = wks_kernel s" "work (upd_work w f s) w = f (work s w)"
  "v \<noteq> w \<Longrightarrow> work (upd_work w f s) v = work s v"
  by (simp_all add: upd_work_def)

lemma upd_workq_fields [simp]:
  "wks_lists (upd_workq q f s) = wks_lists s" "wks_works (upd_workq q f s) = wks_works s"
  "wks_kernel (upd_workq q f s) = wks_kernel s" "workq (upd_workq q f s) q = f (workq s q)"
  "p \<noteq> q \<Longrightarrow> workq (upd_workq q f s) p = workq s p"
  by (simp_all add: upd_workq_def)

lemma work_flag_simps [simp]:
  "pending (set_work_flag RT_WORK_STATE_PENDING x)" "\<not> pending (clear_work_flag RT_WORK_STATE_PENDING x)"
  "wk_queue (set_work_flag v x) = wk_queue x" "wk_queue (clear_work_flag v x) = wk_queue x"
  "pending (x\<lparr>wk_queue := qo\<rparr>) = pending x" "pending (x\<lparr>wk_type := ty\<rparr>) = pending x"
  by (simp_all add: pending_def set_work_flag_def clear_work_flag_def bit.conj_disj_distrib2 and.assoc)

text \<open>The thread goes on by itself: the works whose functions it calls, and where it is then.\<close>

fun worker_run :: "work_fn \<Rightarrow> oid \<Rightarrow> nat \<Rightarrow> worker_pc \<times> wks \<Rightarrow> (oid list \<times> worker_pc \<times> wks) option" where
  "worker_run fn q 0 st = Some ([], st)"
| "worker_run fn q (Suc n) st = do {
     st' \<leftarrow> workqueue_thread_step fn q st;
     (log, st'') \<leftarrow> worker_run fn q n st';
     Some ((case fst st of WQ_work w \<Rightarrow> w # log | _ \<Rightarrow> log), st'')
   }"

text \<open>The functions of works return, and leave the queues and the semaphore of this queue alone.\<close>

definition work_fn_ok :: "work_fn \<Rightarrow> oid \<Rightarrow> bool" where
  "work_fn_ok fn q \<longleftrightarrow> (\<forall>f w d s. sys_ok (wks_kernel s) \<longrightarrow> queue_sem_ok q (wks_kernel s) \<longrightarrow>
     (\<exists>s'. fn f w d s = Some s' \<and> sys_ok (wks_kernel s') \<and> queue_sem_ok q (wks_kernel s') \<and>
        wks_lists s' = wks_lists s \<and> wks_works s' = wks_works s \<and> wks_queues s' = wks_queues s))"

lemma worker_round:
  assumes ok: "sys_ok (wks_kernel s)" and sem: "queue_sem_ok q (wks_kernel s)" and fn: "work_fn_ok fn q"
    and l: "works_of s q = w # ws" "w \<notin> set ws"
  obtains s' where "\<And>n. worker_run fn q (4 + n) (WQ_test, s) =
      map_option (\<lambda>(log, st). (w # log, st)) (worker_run fn q n (WQ_test, s'))"
    "sys_ok (wks_kernel s')" "queue_sem_ok q (wks_kernel s')" "works_of s' q = ws" "wq_current (workq s' q) = None"
    "\<not> pending (work s' w)" "wk_queue (work s' w) = None" "\<And>v. v \<noteq> w \<Longrightarrow> work s' v = work s v"
proof -
  let ?s1 = "upd_work w (\<lambda>x. (clear_work_flag RT_WORK_STATE_PENDING x)\<lparr>wk_queue := None\<rparr>)
      (upd_workq q (\<lambda>x. x\<lparr>wq_current := Some w\<rparr>) (s\<lparr>wks_lists := tbl_remove w (wks_lists s)\<rparr>))"
  have take: "workqueue_thread_step fn q (WQ_take, s) = Some (WQ_work w, ?s1)" using l(1) by simp
  have p1: "sys_ok (wks_kernel ?s1)" "queue_sem_ok q (wks_kernel ?s1)" using ok sem by simp_all
  obtain s2 where s2: "fn (wk_func (work ?s1 w)) w (wk_data (work ?s1 w)) ?s1 = Some s2" "sys_ok (wks_kernel s2)"
      "queue_sem_ok q (wks_kernel s2)" "wks_lists s2 = wks_lists ?s1" "wks_works s2 = wks_works ?s1" "wks_queues s2 = wks_queues ?s1"
    using fn p1 unfolding work_fn_ok_def by blast
  let ?s3 = "upd_workq q (\<lambda>x. x\<lparr>wq_current := None\<rparr>) s2"
  have p3: "sys_ok (wks_kernel ?s3)" "queue_sem_ok q (wks_kernel ?s3)" using s2 by simp_all
  obtain k where k: "workqueue_work_completion q ?s3 = Some (RT_EOK, ?s3\<lparr>wks_kernel := k\<rparr>)" "sys_ok k" "queue_sem_ok q k"
    by (rule work_completion_run [OF p3]) (rule that; assumption)
  let ?s' = "?s3\<lparr>wks_kernel := k\<rparr>"
  have run: "worker_run fn q (4 + n) (WQ_test, s) = map_option (\<lambda>(log, st). (w # log, st)) (worker_run fn q n (WQ_test, ?s'))" for n
    using l(1) take s2(1) k(1)
    by (cases "worker_run fn q n (WQ_test, ?s')") (simp_all add: numeral_nat split_beta del: workqueue_thread_step.simps(3))
  have rm: "removeAll w ws = ws" using l(2) by simp
  have s2w: "work s2 v = (if v = w then (clear_work_flag RT_WORK_STATE_PENDING (work s w))\<lparr>wk_queue := None\<rparr> else work s v)" for v
    using s2(5) by (cases "v = w") simp_all
  show thesis by (rule that [of ?s', OF run]) (use k s2 s2w l(1) rm in simp_all)
qed

text \<open>C32: the thread of a queue runs the works in the order in which they were submitted, each once.  With
  works that return and leave the queue alone, it goes through its loop once per work and then finds the
  list empty; the works have been called in order, none is pending or attached to a queue any more, and
  no work is current.\<close>

theorem workqueue_runs_in_order:
  assumes "sys_ok (wks_kernel s)" "queue_sem_ok q (wks_kernel s)" "work_fn_ok fn q"
    and "works_of s q = ws" "distinct ws" "wq_current (workq s q) = None"
  shows "\<exists>s'. worker_run fn q (4 * length ws) (WQ_test, s) = Some (ws, WQ_test, s') \<and> sys_ok (wks_kernel s') \<and>
     works_of s' q = [] \<and> wq_current (workq s' q) = None \<and>
     (\<forall>w \<in> set ws. \<not> pending (work s' w) \<and> wk_queue (work s' w) = None) \<and>
     workqueue_thread_step fn q (WQ_test, s') = Some (WQ_suspend, s')"
proof -
  have "\<exists>s'. worker_run fn q (4 * length ws) (WQ_test, s) = Some (ws, WQ_test, s') \<and> sys_ok (wks_kernel s') \<and>
     works_of s' q = [] \<and> wq_current (workq s' q) = None \<and>
     (\<forall>w \<in> set ws. \<not> pending (work s' w) \<and> wk_queue (work s' w) = None) \<and> (\<forall>w. w \<notin> set ws \<longrightarrow> work s' w = work s w)"
    using assms
  proof (induction ws arbitrary: s)
    case (Cons w ws)
    have nw: "w \<notin> set ws" using Cons.prems(5) by simp
    obtain s1 where s1: "\<And>n. worker_run fn q (4 + n) (WQ_test, s) =
        map_option (\<lambda>(log, st). (w # log, st)) (worker_run fn q n (WQ_test, s1))"
      "sys_ok (wks_kernel s1)" "queue_sem_ok q (wks_kernel s1)" "works_of s1 q = ws" "wq_current (workq s1 q) = None"
      "\<not> pending (work s1 w)" "wk_queue (work s1 w) = None" "\<And>v. v \<noteq> w \<Longrightarrow> work s1 v = work s v"
      by (rule worker_round [OF Cons.prems(1,2,3,4) nw]) (rule that; assumption)
    obtain s' where s': "worker_run fn q (4 * length ws) (WQ_test, s1) = Some (ws, WQ_test, s')" "sys_ok (wks_kernel s')"
       "works_of s' q = []" "wq_current (workq s' q) = None"
       "\<forall>w \<in> set ws. \<not> pending (work s' w) \<and> wk_queue (work s' w) = None" "\<forall>w. w \<notin> set ws \<longrightarrow> work s' w = work s1 w"
      using Cons.IH [OF s1(2,3) Cons.prems(3) s1(4) _ s1(5)] Cons.prems(5) by auto
    have "worker_run fn q (4 * length (w # ws)) (WQ_test, s) = Some (w # ws, WQ_test, s')"
      using s1(1) [of "4 * length ws"] s'(1) by simp
    moreover have "work s' w = work s1 w" using s'(6) nw by blast
    ultimately show ?case using s'(2-6) s1(6-8) by (intro exI [of _ s']) auto
  qed simp
  then show ?thesis by auto
qed

section \<open>Submitting\<close>

lemma wake_worker_run:
  assumes ok: "sys_ok (wks_kernel s)" and lv: "live (tstat (wks_kernel s) (wq_thread (workq s q)))"
  obtains k where "wake_worker q s = Some (s\<lparr>wks_kernel := k\<rparr>)" "sys_ok k"
    "wq_current (workq s q) = None \<Longrightarrow> runnable (tstat k (wq_thread (workq s q)))"
proof (cases "wq_current (workq s q)")
  case None
  let ?t = "wq_thread (workq s q)" and ?k = "wks_kernel s"
  obtain e k1 where k1: "rt_thread_resume ?t ?k = Some (e, k1)" "sys_ok k1" "runnable (tstat k1 ?t)"
  proof (cases "tstat ?k ?t = RT_THREAD_SUSPEND")
    case True
    obtain k1 where "rt_thread_resume ?t ?k = Some (RT_EOK, k1)" "sys_ok k1" "runnable (tstat k1 ?t)"
      by (rule thread_resume_run [OF ok True]) (rule that; assumption)
    then show thesis using that by blast
  next
    case False
    then have r: "runnable (tstat ?k ?t)" using lv by (auto simp: live_def runnable_def)
    have "rt_object_get_type (KThread ?t) ?k = RT_Object_Class_Thread"
      using type_if_listed [OF sys_okD(2) [OF ok] listed_if_live [OF sys_okD(2) [OF ok]]] r by (auto simp: runnable_def)
    then have "rt_thread_resume ?t ?k = Some (- RT_ERROR, ?k)" using False by (simp add: rt_thread_resume_def)
    then show thesis using that ok r by blast
  qed
  obtain k2 where k2: "rt_schedule k1 = Some k2" "sys_ok k2" "\<And>t. runnable (tstat k2 t) \<longleftrightarrow> runnable (tstat k1 t)"
    by (rule rt_schedule_run [OF k1(2)]) (rule that; assumption)
  have "wake_worker q s = Some (s\<lparr>wks_kernel := k2\<rparr>)"
    using None k1(1) k2(1) by (simp add: wake_worker_def on_kernel_def)
  then show thesis by (rule that) (use k1(3) k2 in simp_all)
next
  case (Some w)
  then show thesis using that [of "wks_kernel s"] ok by (simp add: wake_worker_def)
qed

lemma workqueue_submit_run:
  assumes ok: "sys_ok (wks_kernel s)" and lv: "live (tstat (wks_kernel s) (wq_thread (workq s q)))"
    and new: "\<not> pending (work s w)" "wq_current (workq s q) \<noteq> Some w"
  obtains s' where "workqueue_submit_work q w s = Some (RT_EOK, s')" "sys_ok (wks_kernel s')"
    "works_of s' q = removeAll w (works_of s q) @ [w]" "\<And>p. p \<noteq> q \<Longrightarrow> works_of s' p = removeAll w (works_of s p)"
    "pending (work s' w)" "\<And>v. v \<noteq> w \<Longrightarrow> work s' v = work s v" "wks_queues s' = wks_queues s"
    "wq_current (workq s q) = None \<Longrightarrow> runnable (tstat (wks_kernel s') (wq_thread (workq s q)))"
proof -
  let ?s = "upd_work w (set_work_flag RT_WORK_STATE_PENDING) (enqueue_work q w s)"
  have f: "wks_kernel ?s = wks_kernel s" "wks_queues ?s = wks_queues s"
    "works_of ?s q = removeAll w (works_of s q) @ [w]" "\<And>p. p \<noteq> q \<Longrightarrow> works_of ?s p = removeAll w (works_of s p)"
    "wks_works (enqueue_work q w s) = wks_works s"
    by (simp_all add: enqueue_work_def tbl_append_def tbl_remove_def)
  obtain k where k: "wake_worker q ?s = Some (?s\<lparr>wks_kernel := k\<rparr>)" "sys_ok k"
    "wq_current (workq ?s q) = None \<Longrightarrow> runnable (tstat k (wq_thread (workq ?s q)))"
    by (rule wake_worker_run [of ?s q]) (use ok lv f that in simp_all)
  have "workqueue_submit_work q w s = Some (RT_EOK, ?s\<lparr>wks_kernel := k\<rparr>)"
    using new k(1) by (simp add: workqueue_submit_work_def Let_def)
  then show thesis by (rule that) (use k(2,3) f in simp_all)
qed

text \<open>Submitting a work puts it at the end of the list, once.  A work that is pending, or that is being
  run, is refused with \<^verbatim>\<open>RT_EBUSY\<close> and nothing changes.  Any other work becomes the last of the list of the
  queue, is on no other list and is pending; no other work changes; and when the thread of the queue is
  not at work, it can run.\<close>

theorem workqueue_submit_appends:
  assumes ok: "sys_ok (wks_kernel s)" and lv: "live (tstat (wks_kernel s) (wq_thread (workq s q)))"
  shows "if pending (work s w) \<or> wq_current (workq s q) = Some w then workqueue_submit_work q w s = Some (- RT_EBUSY, s)
     else \<exists>s'. workqueue_submit_work q w s = Some (RT_EOK, s') \<and> sys_ok (wks_kernel s') \<and>
       works_of s' q = removeAll w (works_of s q) @ [w] \<and> (\<forall>p. p \<noteq> q \<longrightarrow> works_of s' p = removeAll w (works_of s p)) \<and>
       pending (work s' w) \<and> (\<forall>v. v \<noteq> w \<longrightarrow> work s' v = work s v) \<and>
       (wq_current (workq s q) = None \<longrightarrow> runnable (tstat (wks_kernel s') (wq_thread (workq s q))))"
proof (cases "pending (work s w) \<or> wq_current (workq s q) = Some w")
  case True
  then show ?thesis by (auto simp: workqueue_submit_work_def)
next
  case False
  then have new: "\<not> pending (work s w)" "wq_current (workq s q) \<noteq> Some w" by auto
  obtain s' where s': "workqueue_submit_work q w s = Some (RT_EOK, s')" "sys_ok (wks_kernel s')"
    "works_of s' q = removeAll w (works_of s q) @ [w]" "\<And>p. p \<noteq> q \<Longrightarrow> works_of s' p = removeAll w (works_of s p)"
    "pending (work s' w)" "\<And>v. v \<noteq> w \<Longrightarrow> work s' v = work s v"
    "wq_current (workq s q) = None \<Longrightarrow> runnable (tstat (wks_kernel s') (wq_thread (workq s q)))"
    by (rule workqueue_submit_run [OF ok lv new]) (rule that; assumption)
  then have "\<exists>s'. workqueue_submit_work q w s = Some (RT_EOK, s') \<and> sys_ok (wks_kernel s') \<and>
       works_of s' q = removeAll w (works_of s q) @ [w] \<and> (\<forall>p. p \<noteq> q \<longrightarrow> works_of s' p = removeAll w (works_of s p)) \<and>
       pending (work s' w) \<and> (\<forall>v. v \<noteq> w \<longrightarrow> work s' v = work s v) \<and>
       (wq_current (workq s q) = None \<longrightarrow> runnable (tstat (wks_kernel s') (wq_thread (workq s q))))"
    by (intro exI [of _ s']) simp
  then show ?thesis unfolding if_not_P [OF False] .
qed

text \<open>Two ways a queue goes wrong after a work is taken out of it.  (1) A thread submits a work to an
  idle queue, whose thread is suspended in its loop, and cancels it before that thread runs: both calls
  return \<^verbatim>\<open>RT_EOK\<close>, the list is empty, but the thread of the queue has been woken and does not look at the
  list again: it takes the head of the empty list for a work, which is a step without a result.  (2)
  Cancelling all works of a queue empties its list, but leaves the works pending: submitting one of them
  again is refused with \<^verbatim>\<open>RT_EBUSY\<close>, to this or any queue.\<close>

theorem workqueue_cancel_defects:
  assumes ok: "sys_ok (wks_kernel s)" and st: "tstat (wks_kernel s) (wq_thread (workq s q)) = RT_THREAD_SUSPEND"
    and idle: "works_of s q = []" "wq_current (workq s q) = None" and new: "\<not> pending (work s w)"
  shows "\<exists>s1. workqueue_submit_work q w s = Some (RT_EOK, s1) \<and> works_of s1 q = [w] \<and>
     (case workqueue_cancel_work q w s1 of (e, s2) \<Rightarrow>
        e = RT_EOK \<and> works_of s2 q = [] \<and> runnable (tstat (wks_kernel s2) (wq_thread (workq s2 q))) \<and>
        workqueue_thread_step fn q (WQ_take, s2) = None) \<and>
     (\<exists>s2. rt_workqueue_cancel_all_work q s1 = Some (RT_EOK, s2) \<and> works_of s2 q = [] \<and>
        (\<forall>p. workqueue_submit_work p w s2 = Some (- RT_EBUSY, s2)))"
proof -
  have lv: "live (tstat (wks_kernel s) (wq_thread (workq s q)))" using st by simp
  have c: "wq_current (workq s q) \<noteq> Some w" using idle(2) by simp
  obtain s1 where s1: "workqueue_submit_work q w s = Some (RT_EOK, s1)" "sys_ok (wks_kernel s1)"
    "works_of s1 q = removeAll w (works_of s q) @ [w]" "pending (work s1 w)" "wks_queues s1 = wks_queues s"
    "wq_current (workq s q) = None \<Longrightarrow> runnable (tstat (wks_kernel s1) (wq_thread (workq s q)))"
    by (rule workqueue_submit_run [OF ok lv new c]) (rule that; assumption)
  have l: "works_of s1 q = [w]" using s1(3) idle(1) by simp
  have ok1: "sys_ok (rt_enter_critical (wks_kernel s1))" using s1(2) by (simp add: rt_enter_critical_def)
  obtain k where k: "rt_exit_critical (rt_enter_critical (wks_kernel s1)) = Some k" "sys_ok k"
    by (rule exit_critical_run [OF ok1]) (rule that; assumption)
  have ca: "rt_workqueue_cancel_all_work q s1 =
      Some (RT_EOK, s1\<lparr>wks_kernel := k, wks_lists := tbl_remove w (wks_lists s1)\<rparr>)"
    using k(1) l by (simp add: rt_workqueue_cancel_all_work_def on_kernel_def)
  show ?thesis using s1(1,4,5,6) l idle(2) ca by (simp add: workqueue_cancel_work_def workqueue_submit_work_def)
qed

text \<open>A work can be forgotten.  The thread of a queue finds its list empty and is interrupted before it
  suspends itself; the work that is submitted then is accepted, but waking the thread has no effect, as it
  is not suspended yet.  When the thread goes on it suspends itself all the same, with the work in its
  list, and does not run it before the next submission.\<close>

theorem workqueue_forgets_work:
  assumes ok: "sys_ok (wks_kernel s)" and run: "runnable (tstat (wks_kernel s) (wq_thread (workq s q)))"
    and idle: "works_of s q = []" "wq_current (workq s q) = None" and new: "\<not> pending (work s w)"
  shows "workqueue_thread_step fn q (WQ_test, s) = Some (WQ_suspend, s) \<and>
     (\<exists>s1. workqueue_submit_work q w s = Some (RT_EOK, s1) \<and> works_of s1 q = [w] \<and>
        (\<forall>s2. sys_ok (wks_kernel s2) \<longrightarrow> running_in (wq_thread (workq s q)) (wks_kernel s2) \<longrightarrow> wks_lists s2 = wks_lists s1 \<longrightarrow>
           (\<exists>s3. workqueue_thread_step fn q (WQ_suspend, s2) = Some (WQ_take, s3) \<and>
              tstat (wks_kernel s3) (wq_thread (workq s q)) = RT_THREAD_SUSPEND \<and> works_of s3 q = [w])))"
proof -
  let ?t = "wq_thread (workq s q)"
  have lv: "live (tstat (wks_kernel s) ?t)" using run by (auto simp: live_def runnable_def)
  have c: "wq_current (workq s q) \<noteq> Some w" using idle(2) by simp
  obtain s1 where s1: "workqueue_submit_work q w s = Some (RT_EOK, s1)" "works_of s1 q = removeAll w (works_of s q) @ [w]"
    by (rule workqueue_submit_run [OF ok lv new c]) (rule that; assumption)
  have "\<exists>s3. workqueue_thread_step fn q (WQ_suspend, s2) = Some (WQ_take, s3) \<and>
        tstat (wks_kernel s3) ?t = RT_THREAD_SUSPEND \<and> works_of s3 q = [w]"
    if s2: "sys_ok (wks_kernel s2)" "running_in ?t (wks_kernel s2)" "wks_lists s2 = wks_lists s1" for s2
  proof -
    have z: "(0 :: int) < 0x7FFFFFFF" by simp
    obtain e k k' where k: "rt_thread_suspend ?t (wks_kernel s2) = Some (e, k)" "wait_finish ?t 0 k = Some k'" "sys_ok k'"
      "tstat k' ?t = RT_THREAD_SUSPEND"
      by (rule suspend_self_run [OF s2(1,2) z]) (rule that; assumption)
    have "workqueue_thread_step fn q (WQ_suspend, s2) = Some (WQ_take, s2\<lparr>wks_kernel := k'\<rparr>)"
      using k(1,2) s2(2) by (simp add: context_checks wait_finish_def)
    then show ?thesis using k(4) s2(3) s1(2) idle(1) by simp
  qed
  then show ?thesis using s1 idle(1) by auto
qed

end
