(* ===== verification/DriverIpcWitness.thy ===== *)
theory DriverIpcWitness
  imports DriverWitness Completion DataQueue WaitQueue WorkQueue
begin

text \<open>
  The properties of completions, data queues, wait queues and work queues at concrete inputs: the sample
  system with thread 3 suspended on a list of the driver library, or on no list.
\<close>

section \<open>Kernel states\<close>

text \<open>Thread 2 runs, thread 3 is suspended and on no list.\<close>

definition sample_idle :: kstate where
  "sample_idle = (sample (KSem 0))\<lparr>k_tlists := tbl_remove 3 (k_tlists (sample (KSem 0)))\<rparr>"

definition sample_outer :: "outer_list \<Rightarrow> kstate" where
  "sample_outer w = sample_idle\<lparr>k_tlists := (k_tlists sample_idle)(Outer w := [3])\<rparr>"

lemma sample_idle_fields [simp]:
  "k_threads sample_idle = k_threads (sample (KSem 0))" "k_olists sample_idle = k_olists (sample (KSem 0))"
  "k_objs sample_idle = k_objs (sample (KSem 0))" "k_sems sample_idle = k_sems (sample (KSem 0))"
  "k_current sample_idle = Some 2" "k_irq_nest sample_idle = 0" "k_tmlists sample_idle = k_tmlists (sample (KSem 0))"
  "k_tlists sample_idle (Susp k) = []" "k_tlists sample_idle (Outer w) = []"
  by (simp_all add: sample_idle_def sample_fields) (simp add: sample_defs)

lemma sample_outer_fields [simp]:
  "k_threads (sample_outer w) = k_threads (sample (KSem 0))" "k_current (sample_outer w) = Some 2" "k_irq_nest (sample_outer w) = 0"
  "k_tmlists (sample_outer w) = k_tmlists (sample (KSem 0))"
  "k_tlists (sample_outer w) (Outer v) = (if v = w then [3] else [])"
  by (simp_all add: sample_outer_def)

lemma sample_suspended [simp]: "tstat (sample w) 3 = RT_THREAD_SUSPEND" "th_error (thread (sample w) 3) = RT_EOK"
  by (simp_all add: sample_fields)

lemma sample_timer_off [simp]: "unlinked (ThreadTimer t) (k_tmlists (sample w))"
  by (simp add: unlinked_def sample_tmlists)

lemma sample_idle_kinv: "kinv {} sample_idle"
  unfolding sample_idle_def
  by (rule kinv_unlink_waiting [OF sys_okD(2) [OF sample_ok]]) (simp_all add: sample_fields)

lemma sample_idle_ok [simp]: "sys_ok sample_idle"
proof -
  have fr: "core_frame (sample (KSem 0)) sample_idle" unfolding sample_idle_def by (rule core_frame_tlists)
  have ok: "sys_ok (sample (KSem 0))" by simp
  have "kernel_ok sample_idle" using kernel_ok_core [OF sys_okD(1) [OF ok] sample_idle_kinv fr] .
  then show ?thesis by (rule sys_ok_frame_step [OF ok _ fr]) (simp_all add: sample_fields)
qed

lemma sample_outer_ok [simp]: "sys_ok (sample_outer w)"
proof -
  note S = sched_invD [OF sys_okD(3) [OF sample_idle_ok]]
  have un: "unlinked 3 (k_tlists sample_idle)" by (simp add: sample_idle_def)
  have "kinv {} (sample_idle\<lparr>k_tlists := (k_tlists sample_idle)(Outer w := [3])\<rparr>)"
  proof (rule kinv_link_waiting [OF sample_idle_kinv un])
    show "wait_head (Outer w) (KSem 0)" "head_target (Outer w) (KSem 0) sample_idle" by simp_all
    show "listed (KThread 3) sample_idle" by (simp add: sample_fields)
    show "table_wf ((k_tlists sample_idle)(Outer w := [3]))"
      by (rule table_wf_upd [OF S(1) _ _ un]) simp_all
  qed simp_all
  then have k: "kinv {} (sample_outer w)" by (simp add: sample_outer_def)
  have fr: "core_frame sample_idle (sample_outer w)" unfolding sample_outer_def by (rule core_frame_tlists)
  have "kernel_ok (sample_outer w)" using kernel_ok_core [OF sys_okD(1) [OF sample_idle_ok] k fr] .
  then show ?thesis by (rule sys_ok_frame_step [OF sample_idle_ok _ fr]) simp_all
qed

lemma sample_driver_running [simp]: "running_in 2 sample_idle" "running_in 2 (sample_outer w)"
  by (simp_all add: running_in_def sample_fields)

section \<open>Completions\<close>

definition fresh_completion :: "kstate \<Rightarrow> csys" where
  "fresh_completion k = \<lparr>cs_flag = (\<lambda>_. RT_UNCOMPLETED), cs_kernel = k\<rparr>"

theorem rt_completion_wait_refines_witness:
  "\<exists>c'. rt_completion_wait 0 10 (fresh_completion sample_idle) = Some (Wait, c') \<and> comp_abs 0 c' = (False, [2])"
  using rt_completion_wait_refines [of "fresh_completion sample_idle" 2 0 10]
  by (simp add: fresh_completion_def comp_abs_def comp_ok_def) blast

theorem rt_completion_done_refines_witness:
  "\<exists>c'. rt_completion_done 0 (fresh_completion (sample_outer (Completion 0))) = Some c' \<and> comp_abs 0 c' = (True, []) \<and>
     runnable (tstat (cs_kernel c') 3) \<and> fst (rt_completion_wait_resume 0 3 c') = RT_EOK"
  using rt_completion_done_refines [of "fresh_completion (sample_outer (Completion 0))" 0]
  by (simp add: fresh_completion_def comp_abs_def comp_ok_def comp_done_spec_def) blast

theorem rt_completion_timeout_loses_witness:
  "\<exists>k c1. rt_thread_timeout 3 (sample_outer (Completion 0)) = Some k \<and>
     rt_completion_done 0 (fresh_completion k) = Some c1 \<and> fst (rt_completion_wait_resume 0 3 c1) = - RT_ETIMEOUT"
  using rt_completion_timeout_loses [of "fresh_completion (sample_outer (Completion 0))" 0 3]
  by (simp add: fresh_completion_def comp_abs_def split_beta) blast

section \<open>Data queues\<close>

text \<open>A queue of four items with a low water mark of one.\<close>

definition sample_item :: "rt_uint32 \<Rightarrow> rt_data_item" where
  "sample_item p = \<lparr>di_data_ptr = p, di_data_size = 16\<rparr>"

definition sample_queue :: "rt_uint16 \<Rightarrow> rt_uint16 \<Rightarrow> kstate \<Rightarrow> qsys" where
  "sample_queue get put k = \<lparr>qs_queues = (\<lambda>_. \<lparr>dq_size = 4, dq_lwm = 1, dq_waiting_lwm = False, dq_get_index = get,
     dq_put_index = put, dq_queue = 0x20001000, dq_items = map sample_item [1, 2, 3, 4], dq_evt_notify = 0\<rparr>), qs_kernel = k\<rparr>"

definition no_notify :: notify_fn where
  "no_notify f i e qs = Some qs"

lemma no_notify_ok: "notify_ok no_notify"
  by (simp add: notify_ok_def no_notify_def)

theorem rt_data_queue_push_refines_witness:
  "\<exists>qs' qs''. rt_data_queue_push no_notify 0 7 16 0 (sample_queue 0 0 (sample_outer (PopList 0))) = Some (Ret RT_EOK, qs') \<and>
     runnable (tstat (qs_kernel qs') 3) \<and>
     rt_data_queue_pop_resume no_notify 0 0 3 qs' = Some (Ret (RT_EOK, Some (sample_item 7)), qs'')"
proof -
  let ?qs = "sample_queue 0 0 (sample_outer (PopList 0))"
  have c: "dq_content (dq ?qs 0) = []" by (simp add: sample_queue_def dq_content_def)
  then have a: "dq_abs 0 ?qs = ([], [3], [])"
    by (simp add: dq_abs_def) (simp add: sample_queue_def)
  have w: "dq_wf (dq ?qs 0)" "unat (dq_put_index (dq ?qs 0)) < 65535" by (simp_all add: sample_queue_def dq_wf_def)
  have l: "unat (dq_size (dq ?qs 0)) = 4" "sys_ok (qs_kernel ?qs)" "poppers ?qs 0 = [3]"
    "th_error (thread (qs_kernel ?qs) 3) = RT_EOK"
    by (simp_all add: sample_queue_def)
  have sp: "dq_push_spec (unat (dq_size (dq ?qs 0))) 0 2 \<lparr>di_data_ptr = 7, di_data_size = 16\<rparr> (dq_abs 0 ?qs) =
      (Ret RT_EOK, [sample_item 7], [], [])"
    unfolding a l(1) by (simp add: sample_item_def)
  have t: "(0 :: int) = 0 \<or> running_in 2 (qs_kernel ?qs)" "(0 :: int) < 0x7FFFFFFF" by simp_all
  note T = rt_data_queue_push_refines [OF l(2) t(1) w t(2) no_notify_ok, of 7 16 0, unfolded sp prod.case]
  show ?thesis
  proof (rule exE [OF T], elim conjE)
    fix qs'
    assume q: "rt_data_queue_push no_notify 0 7 16 0 ?qs = Some (Ret RT_EOK, qs')"
      and r: "Ret RT_EOK = (Ret RT_EOK :: rt_err outcome) \<longrightarrow> (\<forall>u us. poppers ?qs 0 = u # us \<longrightarrow>
        runnable (tstat (qs_kernel qs') u) \<and>
        (dq_content (dq ?qs 0) = [] \<longrightarrow> th_error (thread (qs_kernel ?qs) u) = RT_EOK \<longrightarrow>
          (\<exists>qs''. rt_data_queue_pop_resume no_notify 0 0 u qs' =
             Some (Ret (RT_EOK, Some \<lparr>di_data_ptr = 7, di_data_size = 16\<rparr>), qs''))))"
    note R = r [rule_format, OF refl l(3)]
    have "\<exists>qs''. rt_data_queue_pop_resume no_notify 0 0 3 qs' = Some (Ret (RT_EOK, Some (sample_item 7)), qs'')"
      unfolding sample_item_def by (rule mp [OF mp [OF conjunct2 [OF R] c] l(4)])
    then show ?thesis using q conjunct1 [OF R] by (elim exE) (intro exI conjI)
  qed
qed

theorem rt_data_queue_pop_refines_witness:
  "\<exists>qs'. rt_data_queue_pop no_notify 0 0 (sample_queue 0 2 (sample_outer (PushList 0))) =
     Some (Ret (RT_EOK, Some (sample_item 1)), qs') \<and> runnable (tstat (qs_kernel qs') 3)"
proof -
  let ?qs = "sample_queue 0 2 (sample_outer (PushList 0))"
  have c: "dq_content (dq ?qs 0) = [sample_item 1, sample_item 2]"
    by (simp add: sample_queue_def dq_content_def ring_read_def upt_rec)
  then have a: "dq_abs 0 ?qs = ([sample_item 1, sample_item 2], [], [3])"
    by (simp add: dq_abs_def) (simp add: sample_queue_def)
  have w: "dq_wf (dq ?qs 0)" by (simp add: sample_queue_def dq_wf_def)
  have l: "unat (dq_lwm (dq ?qs 0)) = 1" "sys_ok (qs_kernel ?qs)" "pushers ?qs 0 = [3]" by (simp_all add: sample_queue_def)
  obtain qs' where q: "rt_data_queue_pop no_notify 0 0 ?qs = Some (Ret (RT_EOK, Some (sample_item 1)), qs')"
      "dq_abs 0 qs' = ([sample_item 2], [], [])"
      "\<forall>u us. length (dq_content (dq qs' 0)) \<le> 1 \<longrightarrow> pushers ?qs 0 = u # us \<longrightarrow> runnable (tstat (qs_kernel qs') u)"
    using rt_data_queue_pop_refines [OF l(2) _ w _ no_notify_ok, of 0 2] a l(1) by auto
  have "length (dq_content (dq qs' 0)) \<le> 1" using q(2) by (simp add: dq_abs_def del: length_dq_content)
  then show ?thesis using q(1,3) l(3) by blast
qed

theorem data_queue_wrap_overwrites_witness:
  "\<exists>qs1 qs2 qs3. rt_data_queue_push no_notify 0 7 16 0 (sample_queue 65532 65535 sample_idle) = Some (Ret RT_EOK, qs1) \<and>
     rt_data_queue_push no_notify 0 8 16 0 qs1 = Some (Ret RT_EOK, qs2) \<and>
     rt_data_queue_pop no_notify 0 0 qs2 = Some (Ret (RT_EOK, Some (sample_item 8)), qs3)"
proof -
  let ?qs = "sample_queue 65532 65535 sample_idle"
  have "dq_wf (dq ?qs 0)" "unat (dq_size (dq ?qs 0)) dvd 65536" "dq_put_index (dq ?qs 0) = 65535"
    "unat (dq_get_index (dq ?qs 0)) + unat (dq_size (dq ?qs 0)) = 65536" "poppers ?qs 0 = []" "pushers ?qs 0 = []"
    "dq_evt_notify (dq ?qs 0) = 0"
    by (simp_all add: sample_queue_def dq_wf_def)
  then show ?thesis using data_queue_wrap_overwrites [of ?qs 0 no_notify 7 16 8 16] by (simp add: sample_item_def)
qed

section \<open>Wait queues\<close>

definition sample_wqueue :: "nat list \<Rightarrow> kstate \<Rightarrow> unit wsys" where
  "sample_wqueue ns k = \<lparr>ws_flag = (\<lambda>_. RT_WQ_FLAG_CLEAN), ws_lists = (\<lambda>_. ns),
     ws_nodes = (\<lambda>n. \<lparr>wn_polling_thread = n, wn_wakeup = WQ_default, wn_key = 0\<rparr>), ws_user = (), ws_kernel = k\<rparr>"

definition no_wake :: "unit wake_fn" where
  "no_wake f n key u = (0, u)"

theorem rt_wqueue_either_order_witness:
  "\<exists>ws1 ws2. rt_wqueue_wait 0 False 10 2 (sample_wqueue [] sample_idle) = Some (Wait, ws1) \<and>
     rt_wqueue_wakeup no_wake 0 0 ws1 = Some ws2 \<and> runnable (tstat (ws_kernel ws2) 2)"
proof -
  have "sint (rt_tick_from_millisecond 10) = 10" by (simp add: rt_tick_from_millisecond_def)
  then show ?thesis
    using rt_wqueue_either_order [of "sample_wqueue [] sample_idle" 2 10 0 2 no_wake 0] by (simp add: sample_wqueue_def) blast
qed

text \<open>Threads 2 and 3 are both suspended.\<close>

lemma two_suspended:
  "\<exists>k. sys_ok k \<and> tstat k 2 = RT_THREAD_SUSPEND \<and> tstat k 3 = RT_THREAD_SUSPEND \<and> unlinked (ThreadTimer 3) (k_tmlists k)"
proof -
  have z: "(- 1 :: int) < 0x7FFFFFFF" by simp
  obtain e k1 k where k: "rt_thread_suspend 2 sample_idle = Some (e, k1)" "wait_finish 2 (- 1) k1 = Some k" "sys_ok k"
    "tstat k 2 = RT_THREAD_SUSPEND" "\<And>u. u \<noteq> 2 \<Longrightarrow> tstat k u = tstat sample_idle u \<or> runnable (tstat k u) \<and> runnable (tstat sample_idle u)"
    by (rule suspend_self_run [OF sample_idle_ok sample_driver_running(1) z]) (rule that; assumption)
  have "rt_schedule k1 = Some k" using k(2) by (simp add: wait_finish_def)
  then have "k_tmlists k = k_tmlists k1" using sched_frame_fields [OF sched_frame_schedule] by metis
  moreover have "set (k_tmlists k1 HardTimers) \<subseteq> set (k_tmlists sample_idle HardTimers)"
    using k(1) by (auto simp: rt_thread_suspend_def rt_timer_stop_def rt_schedule_remove_thread_def timer_remove_def
        Let_def bind_Some_iff split: if_splits)
  ultimately have "set (k_tmlists k HardTimers) \<subseteq> set (k_tmlists (sample (KSem 0)) HardTimers)" by simp
  then have "ThreadTimer 3 \<notin> set (k_tmlists k HardTimers)" using sample_tmlists [of "ThreadTimer 3" "KSem 0" HardTimers] by auto
  then have "unlinked (ThreadTimer 3) (k_tmlists k)"
    using timers_invD(4) [OF kinvD(2) [OF sys_okD(2) [OF k(3)]], of 3] by (auto simp: unlinked_def)
  moreover have "tstat k 3 = RT_THREAD_SUSPEND" using k(5) [of 3] by (auto simp: runnable_def)
  ultimately show ?thesis using k(3,4) by blast
qed

theorem rt_wqueue_timeout_loses_witness:
  "\<exists>k k' ws1. rt_thread_timeout 3 k = Some k' \<and> rt_wqueue_wakeup no_wake 0 0 (sample_wqueue [3, 2] k') = Some ws1 \<and>
     ws_lists (snd (wqueue_wait_exit 0 3 ws1)) 0 = [2] \<and> tstat (ws_kernel ws1) 2 = RT_THREAD_SUSPEND"
proof -
  obtain k where k: "sys_ok k" "tstat k 2 = RT_THREAD_SUSPEND" "tstat k 3 = RT_THREAD_SUSPEND" "unlinked (ThreadTimer 3) (k_tmlists k)"
    using two_suspended by blast
  then show ?thesis using rt_wqueue_timeout_loses [of "sample_wqueue [3, 2] k" 0 3 2 3 2 no_wake 0]
    by (simp add: sample_wqueue_def wqueue_wait_exit_def) blast
qed

section \<open>Work queues\<close>

text \<open>Queue 0, whose thread is thread \<open>t\<close>, with works that return at once.\<close>

definition sample_works :: "oid list \<Rightarrow> tid \<Rightarrow> kstate \<Rightarrow> wks" where
  "sample_works ws t k = \<lparr>wks_lists = (\<lambda>_. [])(0 := ws),
     wks_works = (\<lambda>w. \<lparr>wk_func = 1, wk_data = 0, wk_flags = (if w \<in> set ws then 1 else 0), wk_type = 0, wk_queue = None\<rparr>),
     wks_queues = (\<lambda>_. \<lparr>wq_current = None, wq_thread = t\<rparr>), wks_kernel = k, wks_handler = 5, wks_entry = 0x08001000, wks_EINVAL = 5\<rparr>"

definition idle_work :: work_fn where
  "idle_work f w d s = Some s"

lemma idle_work_ok: "work_fn_ok idle_work q"
  by (simp add: work_fn_ok_def idle_work_def)

lemma sample_works_fields [simp]:
  "wks_kernel (sample_works ws t k) = k" "works_of (sample_works ws t k) 0 = ws"
  "workq (sample_works ws t k) q = \<lparr>wq_current = None, wq_thread = t\<rparr>" "pending (work (sample_works ws t k) w) \<longleftrightarrow> w \<in> set ws"
  by (simp_all add: sample_works_def pending_def)

lemma sample_queue_sem [simp]: "queue_sem_ok 0 (sample (KSem 0))" "queue_sem_ok 0 sample_idle"
  by (simp_all add: queue_sem_ok_def sem_abs_def sample_fields ipc_object_ok_def sample_object_def)

theorem workqueue_work_completion_wakes_all_witness:
  "\<exists>k. workqueue_work_completion 0 (sample_works [] 2 (sample (KSem 0))) =
     Some (RT_EOK, (sample_works [] 2 (sample (KSem 0)))\<lparr>wks_kernel := k\<rparr>) \<and> sem_abs 0 k = (0, []) \<and> runnable (tstat k 3)"
  using workqueue_work_completion_wakes_all [of "sample_works [] 2 (sample (KSem 0))" 0]
  by (simp add: sem_abs_def sample_fields) blast

theorem workqueue_runs_in_order_witness:
  "\<exists>s'. worker_run idle_work 0 8 (WQ_test, sample_works [7, 8] 2 sample_idle) = Some ([7, 8], WQ_test, s') \<and> works_of s' 0 = []"
  using workqueue_runs_in_order [of "sample_works [7, 8] 2 sample_idle" 0 idle_work "[7, 8]"] idle_work_ok by simp blast

theorem workqueue_submit_appends_witness:
  "(\<exists>s'. workqueue_submit_work 0 9 (sample_works [7, 8] 3 sample_idle) = Some (RT_EOK, s') \<and> works_of s' 0 = [7, 8, 9]) \<and>
   workqueue_submit_work 0 7 (sample_works [7, 8] 3 sample_idle) = Some (- RT_EBUSY, sample_works [7, 8] 3 sample_idle)"
  using workqueue_submit_appends [of "sample_works [7, 8] 3 sample_idle" 0 9] workqueue_submit_appends [of "sample_works [7, 8] 3 sample_idle" 0 7]
  by simp blast

theorem workqueue_cancel_defects_witness:
  "\<exists>s1. workqueue_submit_work 0 7 (sample_works [] 3 sample_idle) = Some (RT_EOK, s1) \<and>
     workqueue_thread_step idle_work 0 (WQ_take, snd (workqueue_cancel_work 0 7 s1)) = None"
  using workqueue_cancel_defects [of "sample_works [] 3 sample_idle" 0 7 idle_work] by (simp add: split_beta) blast

theorem workqueue_forgets_work_witness:
  "\<exists>s1. workqueue_submit_work 0 7 (sample_works [] 2 sample_idle) = Some (RT_EOK, s1) \<and> works_of s1 0 = [7]"
  using workqueue_forgets_work [of "sample_works [] 2 sample_idle" 0 7 idle_work]
  by (simp add: runnable_def sample_fields) blast

end
