(* ===== verification/Pipe.thy ===== *)
theory Pipe
  imports DriverAlloc Mutex WaitQueue
begin

text \<open>
  Pipes, \<^verbatim>\<open>components/drivers/src/pipe.c\<close>, without the file operations, which are compiled for POSIX
  only: a device with a ring buffer that exists while the pipe is open, under a mutex.

  A pipe \<open>i\<close>, its device \<open>KDevice i\<close> and its lock \<open>KMutex i\<close> share their number, as the structure of the
  code contains the other two.  Each call takes the lock for ever and ignores what taking it
  returns; a caller that has to wait goes on with \<open>locked_resume\<close> when it runs again.
\<close>

section \<open>Data\<close>

abbreviation (input) RT_Device_Class_Pipe :: int where "RT_Device_Class_Pipe \<equiv> 15"
abbreviation (input) RT_DEVICE_FLAG_RDWR :: rt_uint16 where "RT_DEVICE_FLAG_RDWR \<equiv> 0x003"
abbreviation (input) RT_DEVICE_FLAG_REMOVABLE :: rt_uint16 where "RT_DEVICE_FLAG_REMOVABLE \<equiv> 0x004"

text \<open>The buffer is known with its address and the address of its array.  The two wait queues, a flag and
  the waiting nodes each, are for the file operations; here they are only initialised.\<close>

record rt_pipe_device =
  pp_is_named :: bool
  pp_fifo :: "(rt_uint32 \<times> rt_uint32 \<times> rt_ringbuffer) option"
  pp_bufsz :: rt_uint16
  pp_readers :: rt_uint8
  pp_writers :: rt_uint8
  pp_reader_queue :: "rt_uint32 \<times> nat list"
  pp_writer_queue :: "rt_uint32 \<times> nat list"

text \<open>The last fields are constants of the build: the size of \<^verbatim>\<open>rt_pipe_t\<close> and two error numbers of the C
  library.\<close>

record pipes =
  ps_pipes :: "oid \<Rightarrow> rt_pipe_device"
  ps_heap :: heap
  ps_sizeof :: rt_uint32
  ps_EINVAL :: rt_err
  ps_ENODEV :: rt_err

type_synonym psys = "pipes dsys"

abbreviation pipe :: "psys \<Rightarrow> oid \<Rightarrow> rt_pipe_device" where
  "pipe ps i \<equiv> ps_pipes (ds_driver ps) i"

definition upd_pipe :: "oid \<Rightarrow> (rt_pipe_device \<Rightarrow> rt_pipe_device) \<Rightarrow> psys \<Rightarrow> psys" where
  "upd_pipe i f ps = ps\<lparr>ds_driver := (ds_driver ps)\<lparr>ps_pipes := (ps_pipes (ds_driver ps))(i := f (pipe ps i))\<rparr>\<rparr>"

text \<open>The kernel and the heap together, for calls that allocate.\<close>

definition memory_of :: "psys \<Rightarrow> kstate \<times> heap" where
  "memory_of ps = (ds_kernel ps, ps_heap (ds_driver ps))"

definition with_memory :: "kstate \<times> heap \<Rightarrow> psys \<Rightarrow> psys" where
  "with_memory = (\<lambda>(k, h) ps. ps\<lparr>ds_kernel := k, ds_driver := (ds_driver ps)\<lparr>ps_heap := h\<rparr>\<rparr>)"

section \<open>Under the lock\<close>

definition locked :: "oid \<Rightarrow> (psys \<Rightarrow> ('r outcome \<times> psys) option) \<Rightarrow> psys \<Rightarrow> ('r outcome \<times> psys) option" where
  "locked i body ps = do {
     (r, k) \<leftarrow> rt_mutex_take i RT_WAITING_FOREVER (ds_kernel ps);
     let ps = ps\<lparr>ds_kernel := k\<rparr>;
     (case r of Wait \<Rightarrow> Some (Wait, ps) | Ret _ \<Rightarrow> body ps)
   }"

definition locked_resume ::
    "oid \<Rightarrow> tid \<Rightarrow> (psys \<Rightarrow> ('r outcome \<times> psys) option) \<Rightarrow> psys \<Rightarrow> ('r outcome \<times> psys) option" where
  "locked_resume i t body ps = do {
     (r, k) \<leftarrow> rt_mutex_take_resume i t RT_WAITING_FOREVER (ds_kernel ps);
     let ps = ps\<lparr>ds_kernel := k\<rparr>;
     (case r of Wait \<Rightarrow> Some (Wait, ps) | Ret _ \<Rightarrow> body ps)
   }"

definition unlock :: "oid \<Rightarrow> 'r \<Rightarrow> psys \<Rightarrow> ('r outcome \<times> psys) option" where
  "unlock i r ps = do { (_, k) \<leftarrow> rt_mutex_release i (ds_kernel ps); Some (Ret r, ps\<lparr>ds_kernel := k\<rparr>) }"

section \<open>Opening and closing\<close>

text \<open>\<open>bytes\<close> is what the memory of a new array holds.\<close>

definition pipe_open_body :: "rt_uint8 list \<Rightarrow> oid \<Rightarrow> psys \<Rightarrow> (rt_err outcome \<times> psys) option" where
  "pipe_open_body bytes i ps =
     (case pp_fifo (pipe ps i) of
        Some _ \<Rightarrow> unlock i RT_EOK ps
      | None \<Rightarrow> do {
          (r, m) \<leftarrow> rt_ringbuffer_create (pp_bufsz (pipe ps i)) bytes (memory_of ps);
          let ps = with_memory m ps;
          (case r of Wait \<Rightarrow> Some (Wait, ps)
           | Ret fifo \<Rightarrow> unlock i RT_EOK (upd_pipe i (\<lambda>p. p\<lparr>pp_fifo := fifo\<rparr>) ps))
        })"

definition rt_pipe_open :: "rt_uint8 list \<Rightarrow> oid option \<Rightarrow> rt_uint16 \<Rightarrow> psys \<Rightarrow> (rt_err outcome \<times> psys) option" where
  "rt_pipe_open bytes device flags ps =
     (case device of None \<Rightarrow> Some (Ret (- RT_EINVAL), ps) | Some i \<Rightarrow> locked i (pipe_open_body bytes i) ps)"

definition pipe_close_body :: "oid \<Rightarrow> psys \<Rightarrow> (rt_err outcome \<times> psys) option" where
  "pipe_close_body i ps =
     (if dv_ref_count (dev ps i) = 1
      then do {
        fifo \<leftarrow> pp_fifo (pipe ps i);
        (r, m) \<leftarrow> rt_ringbuffer_destroy fifo (memory_of ps);
        let ps = with_memory m ps;
        (case r of Wait \<Rightarrow> Some (Wait, ps)
         | Ret _ \<Rightarrow> unlock i RT_EOK (upd_pipe i (\<lambda>p. p\<lparr>pp_fifo := None\<rparr>) ps))
      }
      else unlock i RT_EOK ps)"

definition rt_pipe_close :: "oid option \<Rightarrow> psys \<Rightarrow> (rt_err outcome \<times> psys) option" where
  "rt_pipe_close device ps =
     (case device of None \<Rightarrow> Some (Ret (- RT_EINVAL), ps) | Some i \<Rightarrow> locked i (pipe_close_body i) ps)"

section \<open>Reading and writing\<close>

text \<open>The length of a transfer is a 16-bit number, the result is stored in an \<^verbatim>\<open>int\<close>.\<close>

lemma len_casts:
  "unat (ucast (x :: rt_uint16) :: rt_uint32) = unat x" "unat (ucast (y :: rt_uint32) :: rt_uint16) = unat y mod 65536"
proof -
  have "unat x < 2 ^ 16" using unsigned_less [of x] by simp
  then have "unat x < 2 ^ 32" by (rule less_trans) simp
  then show "unat (ucast x :: rt_uint32) = unat x" by (simp add: unsigned_ucast_eq take_bit_nat_eq_self)
  show "unat (ucast y :: rt_uint16) = unat y mod 65536" by (simp add: unsigned_ucast_eq take_bit_eq_mod)
qed

lemma ringbuffer_get_len: "fst (rt_ringbuffer_get len rb) \<le> ucast len"
  by (auto simp: rt_ringbuffer_get_def Let_def word_le_nat_alt word_less_nat_alt len_casts)

lemma ringbuffer_put_len: "fst (rt_ringbuffer_put xs len rb) \<le> ucast len"
  by (auto simp: rt_ringbuffer_put_def Let_def word_le_nat_alt word_less_nat_alt len_casts)

lemma transfer_less:
  fixes cnt n len :: rt_uint32
  assumes "n < cnt" "len \<le> ucast (ucast (cnt - n) :: rt_uint16)" "0 < sint len"
  shows "unat (cnt - (n + len)) < unat (cnt - n)"
proof -
  have "unat (ucast (ucast (cnt - n) :: rt_uint16) :: rt_uint32) \<le> unat (cnt - n)"
    by (simp add: len_casts)
  then have "unat len \<le> unat (cnt - n)" using assms(2) by (simp add: word_le_nat_alt)
  moreover have "len \<noteq> 0" using assms(3) by auto
  then have "0 < unat len" by (simp add: unat_gt_0)
  moreover have "cnt - (n + len) = (cnt - n) - len" by simp
  ultimately show ?thesis by (simp only: unat_sub word_le_nat_alt)
qed

function pipe_get_loop ::
    "rt_uint32 \<Rightarrow> rt_uint32 \<Rightarrow> rt_uint8 list \<Rightarrow> rt_ringbuffer \<Rightarrow> rt_uint32 \<times> rt_uint8 list \<times> rt_ringbuffer" where
  "pipe_get_loop cnt n buf rb =
     (if n < cnt
      then let (len, bs, rb') = rt_ringbuffer_get (ucast (cnt - n)) rb in
        if sint len \<le> 0 then (n, buf, rb') else pipe_get_loop cnt (n + len) (buf @ bs) rb'
      else (n, buf, rb))"
  by pat_completeness auto
termination
proof (relation "measure (\<lambda>(cnt, n, _). unat (cnt - n))", goal_cases)
  case (2 cnt n buf rb r len r' bs rb')
  have "fst (rt_ringbuffer_get (ucast (cnt - n)) rb) = len" using 2(2,3) by (metis fst_conv)
  then have "len \<le> ucast (ucast (cnt - n) :: rt_uint16)" by (metis ringbuffer_get_len)
  then show ?case using transfer_less [of n cnt len] 2(1,5) by simp
qed simp

function pipe_put_loop ::
    "rt_uint32 \<Rightarrow> rt_uint32 \<Rightarrow> rt_uint8 list \<Rightarrow> rt_ringbuffer \<Rightarrow> rt_uint32 \<times> rt_ringbuffer" where
  "pipe_put_loop cnt n pbuf rb =
     (if n < cnt
      then let (len, rb') = rt_ringbuffer_put (drop (unat n) pbuf) (ucast (cnt - n)) rb in
        if sint len \<le> 0 then (n, rb') else pipe_put_loop cnt (n + len) pbuf rb'
      else (n, rb))"
  by pat_completeness auto
termination
proof (relation "measure (\<lambda>(cnt, n, _). unat (cnt - n))", goal_cases)
  case (2 cnt n pbuf rb r len rb')
  have "fst (rt_ringbuffer_put (drop (unat n) pbuf) (ucast (cnt - n)) rb) = len" using 2(2,3) by (metis fst_conv)
  then have "len \<le> ucast (ucast (cnt - n) :: rt_uint16)" by (metis ringbuffer_put_len)
  then show ?case using transfer_less [of n cnt len] 2(1,4) by simp
qed simp

declare pipe_get_loop.simps [simp del] pipe_put_loop.simps [simp del]

text \<open>A pipe without a buffer stops at the assertion of the buffer's call.\<close>

definition pipe_read_body :: "rt_uint32 \<Rightarrow> oid \<Rightarrow> psys \<Rightarrow> ((rt_uint32 \<times> rt_uint8 list) outcome \<times> psys) option" where
  "pipe_read_body cnt i ps = do {
     (a, pool, rb) \<leftarrow> pp_fifo (pipe ps i);
     let (n, buf, rb) = pipe_get_loop cnt 0 [] rb;
     unlock i (n, buf) (upd_pipe i (\<lambda>p. p\<lparr>pp_fifo := Some (a, pool, rb)\<rparr>) ps)
   }"

definition rt_pipe_read :: "oid option \<Rightarrow> rt_uint32 \<Rightarrow> psys \<Rightarrow> ((rt_uint32 \<times> rt_uint8 list) outcome \<times> psys) option" where
  "rt_pipe_read device cnt ps =
     (case device of
        None \<Rightarrow> Some (Ret (0, []), set_errno (- ps_EINVAL (ds_driver ps)) ps)
      | Some i \<Rightarrow> if cnt = 0 then Some (Ret (0, []), ps) else locked i (pipe_read_body cnt i) ps)"

definition pipe_write_body :: "rt_uint8 list \<Rightarrow> rt_uint32 \<Rightarrow> oid \<Rightarrow> psys \<Rightarrow> (rt_uint32 outcome \<times> psys) option" where
  "pipe_write_body buffer cnt i ps = do {
     (a, pool, rb) \<leftarrow> pp_fifo (pipe ps i);
     let (n, rb) = pipe_put_loop cnt 0 buffer rb;
     unlock i n (upd_pipe i (\<lambda>p. p\<lparr>pp_fifo := Some (a, pool, rb)\<rparr>) ps)
   }"

definition rt_pipe_write :: "oid option \<Rightarrow> rt_uint8 list \<Rightarrow> rt_uint32 \<Rightarrow> psys \<Rightarrow> (rt_uint32 outcome \<times> psys) option" where
  "rt_pipe_write device buffer cnt ps =
     (case device of
        None \<Rightarrow> Some (Ret 0, set_errno (- ps_EINVAL (ds_driver ps)) ps)
      | Some i \<Rightarrow> if cnt = 0 then Some (Ret 0, ps) else locked i (pipe_write_body buffer cnt i) ps)"

definition rt_pipe_control :: "oid \<Rightarrow> int \<Rightarrow> rt_uint32 \<Rightarrow> psys \<Rightarrow> (rt_err \<times> psys) option" where
  "rt_pipe_control i cmd args ps = Some (RT_EOK, ps)"

section \<open>Creating and deleting\<close>

definition zero_pipe :: rt_pipe_device where
  "zero_pipe = \<lparr>pp_is_named = False, pp_fifo = None, pp_bufsz = 0, pp_readers = 0, pp_writers = 0,
     pp_reader_queue = (0, []), pp_writer_queue = (0, [])\<rparr>"

text \<open>\<^verbatim>\<open>rt_memset(pipe, 0, sizeof(rt_pipe_t))\<close> clears the device and the lock as well.\<close>

definition clear_pipe :: "oid \<Rightarrow> psys \<Rightarrow> psys" where
  "clear_pipe i ps =
     (let ps = ps\<lparr>ds_kernel := upd_obj (KDevice i) (\<lambda>_. zero_object) (upd_obj (KMutex i) (\<lambda>_. zero_object) (ds_kernel ps))\<rparr>
      in upd_pipe i (\<lambda>_. zero_pipe) (upd_dev i (\<lambda>_. zero_device) ps))"

definition pipe_free :: "oid \<Rightarrow> 'r \<Rightarrow> psys \<Rightarrow> ('r outcome \<times> psys) option" where
  "pipe_free i r ps = do {
     (x, m) \<leftarrow> heap_free (of_nat i) (memory_of ps);
     Some (case x of Wait \<Rightarrow> Wait | Ret _ \<Rightarrow> Ret r, with_memory m ps)
   }"

definition rt_pipe_create :: "rt_uint8 list \<Rightarrow> int \<Rightarrow> psys \<Rightarrow> (oid option outcome \<times> psys) option" where
  "rt_pipe_create name bufsz ps = do {
     (r, m) \<leftarrow> heap_malloc (ps_sizeof (ds_driver ps)) (memory_of ps);
     let ps = with_memory m ps;
     (case r of Wait \<Rightarrow> Some (Wait, ps)
      | Ret p \<Rightarrow>
          if p = 0 then Some (Ret None, ps)
          else do {
            let i = unat p;
            let ps = clear_pipe i ps;
            let ps = upd_pipe i (\<lambda>p. p\<lparr>pp_is_named := True\<rparr>) ps;
            (_, k) \<leftarrow> rt_mutex_init i name RT_IPC_FLAG_FIFO (ds_kernel ps);
            let ps = ps\<lparr>ds_kernel := k\<rparr>;
            let ps = upd_pipe i (\<lambda>p. p\<lparr>pp_reader_queue := (RT_WQ_FLAG_CLEAN, []), pp_writer_queue := (RT_WQ_FLAG_CLEAN, [])\<rparr>) ps;
            rt_assert (bufsz < 0xFFFF);
            let ps = upd_pipe i (\<lambda>p. p\<lparr>pp_bufsz := word_of_int bufsz\<rparr>) ps;
            let ps = upd_dev i (\<lambda>d. d\<lparr>dv_type := RT_Device_Class_Pipe, dv_rx_indicate := 0, dv_tx_complete := 0\<rparr>) ps;
            (e, ps) \<leftarrow> rt_device_register (Some i) name (RT_DEVICE_FLAG_RDWR OR RT_DEVICE_FLAG_REMOVABLE) ps;
            if e \<noteq> 0 then pipe_free i None ps else Some (Ret (Some i), ps)
          })
   }"

definition rt_pipe_delete :: "rt_uint8 list \<Rightarrow> psys \<Rightarrow> (rt_err outcome \<times> psys) option" where
  "rt_pipe_delete name ps = do {
     (d, k) \<leftarrow> rt_device_find name (ds_kernel ps);
     let ps = ps\<lparr>ds_kernel := k\<rparr>;
     (case d of
        None \<Rightarrow> Some (Ret (- ps_ENODEV (ds_driver ps)), ps)
      | Some i \<Rightarrow>
          if dv_type (dev ps i) \<noteq> RT_Device_Class_Pipe then Some (Ret (- ps_ENODEV (ds_driver ps)), ps)
          else if dv_ref_count (dev ps i) \<noteq> 0 then Some (Ret (- RT_EBUSY), ps)
          else do {
            (_, k) \<leftarrow> rt_mutex_detach i (ds_kernel ps);
            (_, ps) \<leftarrow> rt_device_unregister i (ps\<lparr>ds_kernel := k\<rparr>);
            (case pp_fifo (pipe ps i) of
               None \<Rightarrow> pipe_free i 0 ps
             | Some fifo \<Rightarrow> do {
                 (r, m) \<leftarrow> rt_ringbuffer_destroy fifo (memory_of ps);
                 let ps = with_memory m ps;
                 (case r of Wait \<Rightarrow> Some (Wait, ps)
                  | Ret _ \<Rightarrow> pipe_free i 0 (upd_pipe i (\<lambda>p. p\<lparr>pp_fifo := None\<rparr>) ps))
               })
          })
   }"

section \<open>The functions of the device\<close>

text \<open>The device framework reaches a pipe through these.  The user's buffer is in memory.  The interface of
  a driver has no outcome for a call that has to wait: here such a call has no result.\<close>

definition at_once :: "('r outcome \<times> psys) option \<Rightarrow> ('r \<times> psys) option" where
  "at_once x = do { (r, ps) \<leftarrow> x; (case r of Ret r \<Rightarrow> Some (r, ps) | Wait \<Rightarrow> None) }"

definition load_bytes :: "rt_uint32 \<Rightarrow> rt_uint32 \<Rightarrow> (rt_uint32 \<Rightarrow> rt_uint8) \<Rightarrow> rt_uint8 list" where
  "load_bytes a n m = map (\<lambda>j. m (a + of_nat j)) [0..<unat n]"

definition store_bytes :: "rt_uint32 \<Rightarrow> rt_uint8 list \<Rightarrow> (rt_uint32 \<Rightarrow> rt_uint8) \<Rightarrow> rt_uint32 \<Rightarrow> rt_uint8" where
  "store_bytes a xs m = (\<lambda>x. if unat (x - a) < length xs then xs ! unat (x - a) else m x)"

definition pipe_device_read :: "oid \<Rightarrow> int \<Rightarrow> rt_uint32 \<Rightarrow> rt_uint32 \<Rightarrow> psys \<Rightarrow> (rt_uint32 \<times> psys) option" where
  "pipe_device_read i pos buffer cnt ps = do {
     ((n, buf), ps) \<leftarrow> at_once (rt_pipe_read (Some i) cnt ps);
     Some (n, ps\<lparr>ds_kernel := (ds_kernel ps)\<lparr>k_mem := store_bytes buffer buf (k_mem (ds_kernel ps))\<rparr>\<rparr>)
   }"

definition pipe_ops :: "rt_uint8 list \<Rightarrow> pipes rt_device_ops" where
  "pipe_ops bytes = \<lparr>op_init = None,
     op_open = Some (\<lambda>i flags ps. at_once (rt_pipe_open bytes (Some i) flags ps)),
     op_close = Some (\<lambda>i ps. at_once (rt_pipe_close (Some i) ps)),
     op_read = Some pipe_device_read,
     op_write = Some (\<lambda>i pos buffer cnt ps.
       at_once (rt_pipe_write (Some i) (load_bytes buffer cnt (k_mem (ds_kernel ps))) cnt ps)),
     op_control = Some rt_pipe_control\<rparr>"

section \<open>Transfers\<close>

text \<open>A transfer moves the bytes of its first round.  The length of a round is cut to 16 bits, so that a
  request of \<open>n\<close> bytes moves \<open>n mod 65536\<close> at most.\<close>

lemma transfer_rest:
  assumes "k = min (unat cnt mod 65536) room" "unat n = k" "n < (cnt :: rt_uint32)"
  shows "min (unat (ucast (cnt - n) :: rt_uint16)) (room - k) = 0"
proof (cases "unat cnt mod 65536 \<le> room")
  case True
  have "unat (cnt - n) = unat cnt - unat cnt mod 65536"
    using True assms by (simp add: unat_sub less_imp_le)
  then have "unat (cnt - n) mod 65536 = 0" by (simp add: minus_mod_eq_mult_div)
  then show ?thesis by (simp add: len_casts)
next
  case False
  then show ?thesis using assms(1) by simp
qed

lemma round_len:
  fixes cnt :: rt_uint32
  assumes "k = min (unat cnt mod 65536) room"
  shows "unat (word_of_nat k :: rt_uint32) = k" "sint (word_of_nat k :: rt_uint32) \<le> 0 \<longleftrightarrow> k = 0" "k \<le> unat cnt"
proof -
  have k: "k < 65536" "k \<le> unat cnt mod 65536" using assms by (auto simp: min_less_iff_disj)
  then show u: "unat (word_of_nat k :: rt_uint32) = k" by (simp add: unat_of_nat)
  have "sint (word_of_nat k :: rt_uint32) = int k"
    using k by (simp add: signed_of_nat signed_take_bit_int_eq_self)
  then show "sint (word_of_nat k :: rt_uint32) \<le> 0 \<longleftrightarrow> k = 0" by simp
  show "k \<le> unat cnt" using k(2) mod_less_eq_dividend [of "unat cnt" 65536] by (rule order_trans)
qed

lemma pipe_put_loop_ok:
  assumes wf: "rb_wf rb" and buf: "unat cnt \<le> length buf"
    and k: "k = min (unat cnt mod 65536) (rb_cap rb - rb_count rb)"
  shows "\<exists>rb'. pipe_put_loop cnt 0 buf rb = (word_of_nat k, rb') \<and> rb_wf rb' \<and>
     rb_content rb' = rb_content rb @ take k buf \<and> rb_cap rb' = rb_cap rb"
proof (cases "cnt = 0")
  case True
  then show ?thesis using wf k by (simp add: pipe_put_loop.simps)
next
  case False
  then have pos: "0 < cnt" by (simp add: word_gt_0)
  note K = round_len [OF k]
  have l: "unat (ucast cnt :: rt_uint16) = unat cnt mod 65536" by (rule len_casts(2))
  then have "unat (ucast cnt :: rt_uint16) \<le> length buf"
    using buf mod_less_eq_dividend [of "unat cnt" 65536] by simp
  then obtain rb1 where r1: "rt_ringbuffer_put buf (ucast cnt) rb = (word_of_nat k, rb1)" "rb_wf rb1"
      "rb_content rb1 = rb_content rb @ take k buf" "rb_cap rb1 = rb_cap rb"
    using ringbuffer_put_ok [OF wf, of "ucast cnt" buf] l k by auto
  have n1: "rb_count rb1 = rb_count rb + k"
    using arg_cong [OF r1(3), of length] K(3) buf by simp
  show ?thesis
  proof (cases "k = 0 \<or> word_of_nat k \<ge> cnt")
    case True
    then show ?thesis using pos r1 K(2)
      by (auto simp: pipe_put_loop.simps [of cnt 0] pipe_put_loop.simps [of cnt "word_of_nat k"])
  next
    case False
    then have lt: "word_of_nat k < cnt" by (simp add: not_le)
    let ?l = "ucast (cnt - word_of_nat k) :: rt_uint16"
    have "unat ?l \<le> length (drop k buf)"
    proof -
      have "unat ?l \<le> unat (cnt - word_of_nat k)" by (simp add: len_casts)
      also have "\<dots> = unat cnt - k" using lt K(1) by (simp add: unat_sub less_imp_le)
      finally show ?thesis using buf by simp
    qed
    moreover have "min (unat ?l) (rb_cap rb1 - rb_count rb1) = 0"
      using transfer_rest [OF k K(1) lt] by (simp add: n1 r1(4) diff_diff_left)
    ultimately obtain rb2 where r2: "rt_ringbuffer_put (drop k buf) ?l rb1 = (0, rb2)" "rb_wf rb2"
        "rb_content rb2 = rb_content rb1" "rb_cap rb2 = rb_cap rb1"
      using ringbuffer_put_ok [OF r1(2), of ?l "drop k buf"] by auto
    have "pipe_put_loop cnt (word_of_nat k) buf rb1 = (word_of_nat k, rb2)"
      using lt r2(1) K(1) by (simp add: pipe_put_loop.simps [of cnt "word_of_nat k"])
    then have "pipe_put_loop cnt 0 buf rb = (word_of_nat k, rb2)"
      using pos r1(1) K(2) False by (simp add: pipe_put_loop.simps [of cnt 0])
    then show ?thesis using r1 r2 by simp
  qed
qed

lemma pipe_get_loop_ok:
  assumes wf: "rb_wf rb" and k: "k = min (unat cnt mod 65536) (rb_count rb)"
  shows "\<exists>rb'. pipe_get_loop cnt 0 [] rb = (word_of_nat k, take k (rb_content rb), rb') \<and> rb_wf rb' \<and>
     rb_content rb' = drop k (rb_content rb) \<and> rb_cap rb' = rb_cap rb"
proof (cases "cnt = 0")
  case True
  then show ?thesis using wf k by (simp add: pipe_get_loop.simps)
next
  case False
  then have pos: "0 < cnt" by (simp add: word_gt_0)
  note K = round_len [OF k]
  have l: "unat (ucast cnt :: rt_uint16) = unat cnt mod 65536" by (rule len_casts(2))
  obtain rb1 where r1: "rt_ringbuffer_get (ucast cnt) rb = (word_of_nat k, take k (rb_content rb), rb1)" "rb_wf rb1"
      "rb_content rb1 = drop k (rb_content rb)" "rb_cap rb1 = rb_cap rb"
    using rt_ringbuffer_get_takes [OF wf, of "ucast cnt"] l k by auto
  have n1: "rb_count rb1 = rb_count rb - k" using arg_cong [OF r1(3), of length] by simp
  show ?thesis
  proof (cases "k = 0 \<or> word_of_nat k \<ge> cnt")
    case True
    then show ?thesis using pos r1 K(2)
      by (auto simp: pipe_get_loop.simps [of cnt 0] pipe_get_loop.simps [of cnt "word_of_nat k"])
  next
    case False
    then have lt: "word_of_nat k < cnt" by (simp add: not_le)
    let ?l = "ucast (cnt - word_of_nat k) :: rt_uint16"
    have "min (unat ?l) (rb_count rb1) = 0" using transfer_rest [OF k K(1) lt] by (simp add: n1)
    then obtain rb2 where r2: "rt_ringbuffer_get ?l rb1 = (0, [], rb2)" "rb_wf rb2"
        "rb_content rb2 = rb_content rb1" "rb_cap rb2 = rb_cap rb1"
      using rt_ringbuffer_get_takes [OF r1(2), of ?l] by auto
    have "pipe_get_loop cnt (word_of_nat k) (take k (rb_content rb)) rb1 = (word_of_nat k, take k (rb_content rb), rb2)"
      using lt r2(1) by (simp add: pipe_get_loop.simps [of cnt "word_of_nat k"])
    then have "pipe_get_loop cnt 0 [] rb = (word_of_nat k, take k (rb_content rb), rb2)"
      using pos r1(1) K(2) False by (simp add: pipe_get_loop.simps [of cnt 0])
    then show ?thesis using r1 r2 by simp
  qed
qed

section \<open>The lock\<close>

text \<open>The lock of a pipe is free for the running thread.\<close>

definition lock_free :: "oid \<Rightarrow> tid \<Rightarrow> kstate \<Rightarrow> bool" where
  "lock_free i t k \<longleftrightarrow> sys_ok k \<and> running_in t k \<and> ipc_object_ok (KMutex i) k \<and>
     k_mutexes k i = mutex_start \<and> k_tlists k (Susp (KMutex i)) = []"

definition held :: "oid \<Rightarrow> tid \<Rightarrow> kstate \<Rightarrow> kstate" where
  "held i t k = upd_mutex i (\<lambda>m. m\<lparr>mtx_value := 0, mtx_owner := Some t,
     mtx_original_priority := th_current_priority (thread k t), mtx_hold := 1\<rparr>) (upd_thread t (\<lambda>th. th\<lparr>th_error := RT_EOK\<rparr>) k)"

definition released :: "tid \<Rightarrow> kstate \<Rightarrow> kstate" where
  "released t k = upd_thread t (\<lambda>th. th\<lparr>th_error := RT_EOK\<rparr>) k"

lemma lock_freeD:
  assumes "lock_free i t k"
  shows "sys_ok k" "running_in t k" "ipc_object_ok (KMutex i) k" "k_mutexes k i = mutex_start"
    "k_tlists k (Susp (KMutex i)) = []" "rt_object_get_type (KMutex i) k = RT_Object_Class_Mutex"
  using assms ipc_object_okD(1) [of k "KMutex i"] sys_okD(1) [of k] by (simp_all add: lock_free_def)

lemma lock_take: "lock_free i t k \<Longrightarrow> rt_mutex_take i time k = Some (Ret RT_EOK, held i t k)"
  using lock_freeD [of i t k]
  by (simp add: rt_mutex_take_def mutex_take_again_def context_checks held_def mutex_start_def upd_mutex_def
      rt_object_get_type_def)

lemma lock_release: "lock_free i t k \<Longrightarrow> rt_mutex_release i (held i t k) = Some (RT_EOK, released t k)"
  using lock_freeD [of i t k]
  by (simp add: rt_mutex_release_def mutex_hand_over_def context_checks held_def released_def mutex_start_def upd_mutex_def
      rt_object_get_type_def fun_upd_idem)

lemma lock_free_released: "lock_free i t k \<Longrightarrow> lock_free i t (released t k)"
  by (simp add: lock_free_def released_def running_in_def ipc_object_ok_def)

lemma locked_run:
  "lock_free i t (ds_kernel ps) \<Longrightarrow> locked i body ps = body (ps\<lparr>ds_kernel := held i t (ds_kernel ps)\<rparr>)"
  by (simp add: locked_def lock_take)

lemma unlock_run:
  "lock_free i t k \<Longrightarrow> ds_kernel ps = held i t k \<Longrightarrow> unlock i r ps = Some (Ret r, ps\<lparr>ds_kernel := released t k\<rparr>)"
  by (simp add: unlock_def lock_release)

lemma upd_pipe_fields [simp]:
  "ds_kernel (upd_pipe i f ps) = ds_kernel ps" "ds_devices (upd_pipe i f ps) = ds_devices ps"
  "pipe (upd_pipe i f ps) i = f (pipe ps i)" "ps_heap (ds_driver (upd_pipe i f ps)) = ps_heap (ds_driver ps)"
  "j \<noteq> i \<Longrightarrow> pipe (upd_pipe i f ps) j = pipe ps j"
  by (simp_all add: upd_pipe_def)

section \<open>An open pipe\<close>

definition pipe_ready :: "oid \<Rightarrow> tid \<Rightarrow> psys \<Rightarrow> bool" where
  "pipe_ready i t ps \<longleftrightarrow> lock_free i t (ds_kernel ps) \<and>
     (case pp_fifo (pipe ps i) of None \<Rightarrow> False | Some (a, pool, rb) \<Rightarrow> rb_wf rb)"

definition pipe_bytes :: "psys \<Rightarrow> oid \<Rightarrow> rt_uint8 list" where
  "pipe_bytes ps i = (case pp_fifo (pipe ps i) of None \<Rightarrow> [] | Some (a, pool, rb) \<Rightarrow> rb_content rb)"

definition pipe_cap :: "psys \<Rightarrow> oid \<Rightarrow> nat" where
  "pipe_cap ps i = (case pp_fifo (pipe ps i) of None \<Rightarrow> 0 | Some (a, pool, rb) \<Rightarrow> rb_cap rb)"

lemma pipe_readyE:
  assumes "pipe_ready i t ps"
  obtains a pool rb where "pp_fifo (pipe ps i) = Some (a, pool, rb)" "rb_wf rb" "lock_free i t (ds_kernel ps)"
    "pipe_bytes ps i = rb_content rb" "pipe_cap ps i = rb_cap rb"
  using assms by (auto simp: pipe_ready_def pipe_bytes_def pipe_cap_def split: option.splits)

lemma pipe_write_ok:
  assumes r: "pipe_ready i t ps" and buf: "unat cnt \<le> length buffer"
    and k: "k = min (unat cnt mod 65536) (pipe_cap ps i - length (pipe_bytes ps i))"
  shows "\<exists>ps'. rt_pipe_write (Some i) buffer cnt ps = Some (Ret (word_of_nat k), ps') \<and> pipe_ready i t ps' \<and>
     pipe_bytes ps' i = pipe_bytes ps i @ take k buffer \<and> pipe_cap ps' i = pipe_cap ps i \<and> ds_devices ps' = ds_devices ps"
proof (cases "cnt = 0")
  case True
  then show ?thesis using r k by (simp add: rt_pipe_write_def)
next
  case False
  obtain a pool rb where P: "pp_fifo (pipe ps i) = Some (a, pool, rb)" "rb_wf rb" "lock_free i t (ds_kernel ps)"
      "pipe_bytes ps i = rb_content rb" "pipe_cap ps i = rb_cap rb"
    by (rule pipe_readyE [OF r])
  have k': "k = min (unat cnt mod 65536) (rb_cap rb - rb_count rb)" using k P(4,5) by simp
  obtain rb' where L: "pipe_put_loop cnt 0 buffer rb = (word_of_nat k, rb')" "rb_wf rb'"
      "rb_content rb' = rb_content rb @ take k buffer" "rb_cap rb' = rb_cap rb"
    using pipe_put_loop_ok [OF P(2) buf k'] by blast
  let ?ps = "(upd_pipe i (\<lambda>p. p\<lparr>pp_fifo := Some (a, pool, rb')\<rparr>) ps)\<lparr>ds_kernel := released t (ds_kernel ps)\<rparr>"
  have "rt_pipe_write (Some i) buffer cnt ps = Some (Ret (word_of_nat k), ?ps)"
    using False P(1) L(1) unlock_run [OF P(3), of "upd_pipe i (\<lambda>p. p\<lparr>pp_fifo := Some (a, pool, rb')\<rparr>) (ps\<lparr>ds_kernel := held i t (ds_kernel ps)\<rparr>)" "word_of_nat k :: rt_uint32"]
    by (simp add: rt_pipe_write_def locked_run [OF P(3)] pipe_write_body_def) (simp add: upd_pipe_def)
  then show ?thesis using L P lock_free_released [OF P(3)]
    by (simp add: pipe_ready_def pipe_bytes_def pipe_cap_def)
qed

lemma pipe_read_ok:
  assumes r: "pipe_ready i t ps" and k: "k = min (unat cnt mod 65536) (length (pipe_bytes ps i))"
  shows "\<exists>ps'. rt_pipe_read (Some i) cnt ps = Some (Ret (word_of_nat k, take k (pipe_bytes ps i)), ps') \<and>
     pipe_ready i t ps' \<and> pipe_bytes ps' i = drop k (pipe_bytes ps i) \<and> pipe_cap ps' i = pipe_cap ps i \<and>
     ds_devices ps' = ds_devices ps"
proof (cases "cnt = 0")
  case True
  then show ?thesis using r k by (simp add: rt_pipe_read_def)
next
  case False
  obtain a pool rb where P: "pp_fifo (pipe ps i) = Some (a, pool, rb)" "rb_wf rb" "lock_free i t (ds_kernel ps)"
      "pipe_bytes ps i = rb_content rb" "pipe_cap ps i = rb_cap rb"
    by (rule pipe_readyE [OF r])
  have k': "k = min (unat cnt mod 65536) (rb_count rb)" using k P(4) by simp
  obtain rb' where L: "pipe_get_loop cnt 0 [] rb = (word_of_nat k, take k (rb_content rb), rb')" "rb_wf rb'"
      "rb_content rb' = drop k (rb_content rb)" "rb_cap rb' = rb_cap rb"
    using pipe_get_loop_ok [OF P(2) k'] by blast
  let ?ps = "(upd_pipe i (\<lambda>p. p\<lparr>pp_fifo := Some (a, pool, rb')\<rparr>) ps)\<lparr>ds_kernel := released t (ds_kernel ps)\<rparr>"
  have "rt_pipe_read (Some i) cnt ps = Some (Ret (word_of_nat k, take k (rb_content rb)), ?ps)"
    using False P(1) L(1) unlock_run [OF P(3), of "upd_pipe i (\<lambda>p. p\<lparr>pp_fifo := Some (a, pool, rb')\<rparr>) (ps\<lparr>ds_kernel := held i t (ds_kernel ps)\<rparr>)" "(word_of_nat k :: rt_uint32, take k (rb_content rb))"]
    by (simp add: rt_pipe_read_def locked_run [OF P(3)] pipe_read_body_def) (simp add: upd_pipe_def)
  then show ?thesis using L P lock_free_released [OF P(3)]
    by (simp add: pipe_ready_def pipe_bytes_def pipe_cap_def)
qed

section \<open>The stream\<close>

text \<open>Calls on an open pipe, with the bytes that were accepted and those that were delivered.  A run stops
  at a call that has to wait.\<close>

datatype pipe_call = PipePut "rt_uint8 list" | PipeGet rt_uint32

fun pipe_run :: "oid \<Rightarrow> pipe_call list \<Rightarrow> psys \<Rightarrow> (rt_uint8 list \<times> rt_uint8 list \<times> psys) option" where
  "pipe_run i [] ps = Some ([], [], ps)"
| "pipe_run i (PipePut xs # cs) ps = do {
     (n, ps) \<leftarrow> at_once (rt_pipe_write (Some i) xs (of_nat (length xs)) ps);
     (acc, del, ps) \<leftarrow> pipe_run i cs ps;
     Some (take (unat n) xs @ acc, del, ps)
   }"
| "pipe_run i (PipeGet cnt # cs) ps = do {
     ((n, xs), ps) \<leftarrow> at_once (rt_pipe_read (Some i) cnt ps);
     (acc, del, ps) \<leftarrow> pipe_run i cs ps;
     Some (acc, xs @ del, ps)
   }"

lemma at_once_Ret [simp]: "at_once (Some (Ret r, ps)) = Some (r, ps)"
  by (simp add: at_once_def)

lemma pipe_run_ok:
  "pipe_ready i t ps \<Longrightarrow> (\<forall>xs. PipePut xs \<in> set cs \<longrightarrow> length xs < 2 ^ 32) \<Longrightarrow>
     length (pipe_bytes ps i) \<le> pipe_cap ps i \<Longrightarrow>
     \<exists>acc del ps'. pipe_run i cs ps = Some (acc, del, ps') \<and> pipe_ready i t ps' \<and>
       pipe_bytes ps i @ acc = del @ pipe_bytes ps' i \<and> length (pipe_bytes ps' i) \<le> pipe_cap ps i"
proof (induction i cs ps rule: pipe_run.induct)
  case (2 i xs cs ps)
  let ?c = "of_nat (length xs) :: rt_uint32"
  have c: "unat ?c = length xs" using "2.prems"(2) by (simp add: unat_of_nat)
  define k where "k = min (unat ?c mod 65536) (pipe_cap ps i - length (pipe_bytes ps i))"
  obtain ps1 where W: "rt_pipe_write (Some i) xs ?c ps = Some (Ret (word_of_nat k), ps1)" "pipe_ready i t ps1"
      "pipe_bytes ps1 i = pipe_bytes ps i @ take k xs" "pipe_cap ps1 i = pipe_cap ps i"
    using pipe_write_ok [OF "2.prems"(1) _ k_def, of xs] c by auto
  have u: "unat (word_of_nat k :: rt_uint32) = k" by (rule round_len(1) [OF k_def])
  have "length (pipe_bytes ps1 i) \<le> pipe_cap ps1 i" using W(3,4) k_def "2.prems"(3) by simp
  then obtain acc del ps' where "pipe_run i cs ps1 = Some (acc, del, ps')" "pipe_ready i t ps'"
      "pipe_bytes ps1 i @ acc = del @ pipe_bytes ps' i" "length (pipe_bytes ps' i) \<le> pipe_cap ps1 i"
    using "2.IH" [OF _ refl W(2)] "2.prems"(2) W(1) by fastforce
  then show ?case using W u by auto
next
  case (3 i cnt cs ps)
  define k where "k = min (unat cnt mod 65536) (length (pipe_bytes ps i))"
  obtain ps1 where R: "rt_pipe_read (Some i) cnt ps = Some (Ret (word_of_nat k, take k (pipe_bytes ps i)), ps1)"
      "pipe_ready i t ps1" "pipe_bytes ps1 i = drop k (pipe_bytes ps i)" "pipe_cap ps1 i = pipe_cap ps i"
    using pipe_read_ok [OF "3.prems"(1) k_def] by blast
  have "length (pipe_bytes ps1 i) \<le> pipe_cap ps1 i" using R(3,4) "3.prems"(3) by simp
  then obtain acc del ps' where I: "pipe_run i cs ps1 = Some (acc, del, ps')" "pipe_ready i t ps'"
      "pipe_bytes ps1 i @ acc = del @ pipe_bytes ps' i" "length (pipe_bytes ps' i) \<le> pipe_cap ps1 i"
    using "3.IH" [OF _ refl refl R(2)] "3.prems"(2) R(1) by fastforce
  have "pipe_bytes ps i @ acc = take k (pipe_bytes ps i) @ del @ pipe_bytes ps' i"
    using I(3) unfolding R(3) by (metis append_assoc append_take_drop_id)
  then show ?case using R I by simp
qed simp

lemma pipe_bytes_cap: "pipe_ready i t ps \<Longrightarrow> length (pipe_bytes ps i) \<le> pipe_cap ps i"
  by (erule pipe_readyE) (simp add: rb_wfD(9))

text \<open>C33: a pipe is a first-in-first-out stream.  Under any sequence of writes and reads by the running
  thread, with the lock free, no call waits; the bytes that were delivered are, in order, the bytes that
  were in the pipe and then those that were accepted, and what is not delivered yet is in the pipe, which
  never holds more than its capacity.\<close>

theorem pipe_history_fifo:
  assumes "pipe_ready i t ps" and "\<forall>xs. PipePut xs \<in> set cs \<longrightarrow> length xs < 2 ^ 32"
  shows "\<exists>acc del ps'. pipe_run i cs ps = Some (acc, del, ps') \<and> pipe_ready i t ps' \<and>
       pipe_bytes ps i @ acc = del @ pipe_bytes ps' i \<and> length (pipe_bytes ps' i) \<le> pipe_cap ps i"
  by (rule pipe_run_ok [OF assms pipe_bytes_cap [OF assms(1)]])

text \<open>Each call moves as many bytes as it can, except that the number asked for is taken modulo 65536: a
  request for 65536 bytes moves none although there may be room, or data.\<close>

theorem pipe_transfer_counts:
  assumes r: "pipe_ready i t ps" and buf: "unat cnt \<le> length buffer"
  shows "\<exists>ps1 ps2. rt_pipe_write (Some i) buffer cnt ps =
       Some (Ret (word_of_nat (min (unat cnt mod 65536) (pipe_cap ps i - length (pipe_bytes ps i)))), ps1) \<and>
     rt_pipe_read (Some i) cnt ps =
       Some (Ret (word_of_nat (min (unat cnt mod 65536) (length (pipe_bytes ps i))),
         take (unat cnt mod 65536) (pipe_bytes ps i)), ps2)"
  using pipe_write_ok [OF r buf refl] pipe_read_ok [OF r refl, of cnt] by (auto simp: min_def)

section \<open>Waiting for the lock\<close>

text \<open>A caller that finds the lock taken waits and moves nothing.  When the lock has been handed over to it
  and it runs again, the transfer is done and the lock is given back.\<close>

theorem rt_pipe_write_waits:
  assumes ok: "sys_ok (ds_kernel ps)" and l: "ipc_object_ok (KMutex i) (ds_kernel ps)" and t: "running_in t (ds_kernel ps)"
    and m: "mutex_ok i (ds_kernel ps)" and v: "mutex_abs i (ds_kernel ps) = (Some (u, n), q)" "u \<noteq> t" and c: "cnt \<noteq> 0"
  shows "\<exists>ps'. rt_pipe_write (Some i) buffer cnt ps = Some (Wait, ps') \<and> ds_driver ps' = ds_driver ps \<and>
     sys_ok (ds_kernel ps') \<and> tstat (ds_kernel ps') t = RT_THREAD_SUSPEND \<and>
     mutex_abs i (ds_kernel ps') = (Some (u, n), wait_insert (ds_kernel ps) (oflag (ds_kernel ps) (KMutex i)) t q)"
proof -
  obtain k where "rt_mutex_take i (- 1) (ds_kernel ps) = Some (Wait, k)" "sys_ok k" "tstat k t = RT_THREAD_SUSPEND"
      "mutex_abs i k = (Some (u, n), wait_insert (ds_kernel ps) (oflag (ds_kernel ps) (KMutex i)) t q)"
    using rt_mutex_take_waits [OF ok l t m v, of "- 1"] by auto
  then show ?thesis using c by (simp add: rt_pipe_write_def locked_def)
qed

lemma pipe_write_resumes:
  assumes ok: "sys_ok (ds_kernel ps)" and l: "ipc_object_ok (KMutex i) (ds_kernel ps)" and t: "running_in t (ds_kernel ps)"
    and m: "mutex_ok i (ds_kernel ps)" and v: "mutex_abs i (ds_kernel ps) = (Some (t, 1), q)"
    and e: "th_error (thread (ds_kernel ps) t) = RT_EOK"
    and f: "pp_fifo (pipe ps i) = Some (a, pool, rb)" "rb_wf rb" and buf: "unat cnt \<le> length buffer"
    and k: "k = min (unat cnt mod 65536) (rb_cap rb - rb_count rb)"
  shows "\<exists>ps'. locked_resume i t (pipe_write_body buffer cnt i) ps = Some (Ret (word_of_nat k), ps') \<and>
     sys_ok (ds_kernel ps') \<and> pipe_bytes ps' i = pipe_bytes ps i @ take k buffer \<and>
     mutex_abs i (ds_kernel ps') = snd (mutex_release_spec t (Some (t, 1), q))"
proof -
  obtain rb' where L: "pipe_put_loop cnt 0 buffer rb = (word_of_nat k, rb')"
      "rb_content rb' = rb_content rb @ take k buffer"
    using pipe_put_loop_ok [OF f(2) buf k] by blast
  obtain r s where R: "rt_mutex_release i (ds_kernel ps) = Some (r, s)" "sys_ok s"
      "mutex_abs i s = snd (mutex_release_spec t (Some (t, 1), q))"
    using mutex_release_correct [OF ok l t m] v by (auto simp del: mutex_release_spec.simps) (metis snd_conv)
  then show ?thesis using e f(1) L
    by (simp add: locked_resume_def rt_mutex_take_resume_def pipe_write_body_def unlock_def pipe_bytes_def
        del: mutex_release_spec.simps)
qed

section \<open>Opening\<close>

text \<open>The heap that hands out areas without a change to the kernel.\<close>

definition heap_live_in :: "kstate \<Rightarrow> kstate \<times> heap \<Rightarrow> (nat \<times> nat) set \<Rightarrow> bool" where
  "heap_live_in k m A \<longleftrightarrow> fst m = k \<and> heap_live m A"

interpretation kept: allocator "heap_live_in k" heap_malloc heap_free for k
proof unfold_locales
  fix m :: "kstate \<times> heap" and A and sz :: rt_uint32
  assume l: "heap_live_in k m A" and sz: "unat sz + 3 < 2 ^ 32"
  then obtain g where m: "m = (k, g)" "heap_live (k, g) A" by (cases m) (auto simp: heap_live_in_def)
  obtain r g' where "rt_malloc sz k g = Some (Ret r, k, g')"
      "if r = 0 then heap_live (k, g') A
       else \<exists>n. unat sz \<le> n \<and> 0 < n \<and> clear_of (unat r, n) A \<and> heap_live (k, g') (insert (unat r, n) A)"
    using heap_malloc_law [OF m(2) sz] by blast
  then show "\<exists>r m'. heap_malloc sz m = Some (Ret r, m') \<and>
      (if r = 0 then heap_live_in k m' A
       else \<exists>n. unat sz \<le> n \<and> 0 < n \<and> clear_of (unat r, n) A \<and> heap_live_in k m' (insert (unat r, n) A))"
    by (intro exI [of _ r] exI [of _ "(k, g')"]) (simp add: heap_malloc_def m(1) heap_live_in_def)
next
  fix m :: "kstate \<times> heap" and A n and p :: rt_uint32
  assume l: "heap_live_in k m A" and p: "(unat p, n) \<in> A"
  then obtain g where m: "m = (k, g)" "heap_live (k, g) A" by (cases m) (auto simp: heap_live_in_def)
  obtain g' where "rt_free p k g = Some (Ret (), k, g')" "heap_live (k, g') (A - {(unat p, n)})"
    using heap_free_law [OF m(2) p] by blast
  then show "\<exists>m'. heap_free p m = Some (Ret (), m') \<and> heap_live_in k m' (A - {(unat p, n)})"
    by (intro exI [of _ "(k, g')"]) (simp add: heap_free_def m(1) heap_live_in_def)
qed (auto simp: heap_live_in_def heap_live_def)

lemma ringbuffer_create_kernel:
  assumes l: "heap_live (k, h) A" and sz: "unat sz < 32768"
    and c: "rt_ringbuffer_create sz bytes (k, h) = Some (Ret res, m)"
  shows "fst m = k"
proof -
  define w :: rt_uint16 where "w = ucast (RT_ALIGN_DOWN (ucast sz) RT_ALIGN_SIZE)"
  have "unat (ucast w :: rt_uint32) < 32768" using aligned_pool_size [of sz] sz by (simp add: w_def len_casts(1))
  then have lim: "unat x + 3 < 2 ^ 32" if "x \<in> set [SIZEOF_STRUCT_RT_RINGBUFFER, ucast w]" for x :: rt_uint32
    using that by auto
  have "heap_live_in k (k, h) (A \<union> spans [])" using l by (simp add: heap_live_in_def)
  then have "\<exists>r m'. alloc_all heap_malloc heap_free (map fst []) [SIZEOF_STRUCT_RT_RINGBUFFER, ucast w] (k, h) =
        Some (Ret r, m') \<and> fst m' = k"
    using kept.alloc_all_law [of k "(k, h)" A "[]" "[SIZEOF_STRUCT_RT_RINGBUFFER, ucast w]"] lim
    by (auto simp: heap_live_in_def split: option.splits simp del: alloc_all.simps)
  then show ?thesis using c
    by (auto simp: rt_ringbuffer_create_def w_def [symmetric] bind_Some_iff Let_def simp del: alloc_all.simps
        split: option.splits list.splits)
qed

lemma heap_live_cong:
  assumes "k_objs k' = k_objs k" "k_sems k' = k_sems k" "k_tlists k' = k_tlists k" "k_irq_nest k' = k_irq_nest k"
  shows "heap_live (k', h) A = heap_live (k, h) A"
  using assms by (simp add: heap_live_def heap_ready_def heap_idle_def rt_object_get_type_def)

lemma heap_live_lock [simp]:
  "heap_live (held i t k, h) A = heap_live (k, h) A" "heap_live (released t k, h) A = heap_live (k, h) A"
  by (rule heap_live_cong; simp add: held_def released_def upd_mutex_def)+

text \<open>C34: opening a pipe succeeds with or without memory.  On a closed pipe whose size is from 1 to
  \<^verbatim>\<open>0x7FFF\<close> bytes, with its lock free and the heap in order, opening returns \<^verbatim>\<open>RT_EOK\<close> and gives the lock
  back.  Either the pipe then has an empty buffer of its size cut to a multiple of four, in two areas
  of the heap of its own; or the heap is as it was, the pipe has no buffer, as always when its size
  is 1, 2 or 3, and every transfer stops at an assertion.  The size 0 and sizes from \<^verbatim>\<open>0x8000\<close> on are
  outside the theorem: the ring buffer has assertions against them.\<close>

theorem rt_pipe_open_memory:
  assumes l: "lock_free i t (ds_kernel ps)" and n: "pp_fifo (pipe ps i) = None" and h: "heap_live (memory_of ps) A"
    and sz: "0 < pp_bufsz (pipe ps i)" "unat (pp_bufsz (pipe ps i)) < 32768"
    and bt: "length bytes = 4 * (unat (pp_bufsz (pipe ps i)) div 4)"
  shows "\<exists>ps'. rt_pipe_open bytes (Some i) flags ps = Some (Ret RT_EOK, ps') \<and> lock_free i t (ds_kernel ps') \<and>
     (case pp_fifo (pipe ps' i) of
        None \<Rightarrow> heap_live (memory_of ps') A \<and>
          (\<forall>buffer cnt. cnt \<noteq> 0 \<longrightarrow> rt_pipe_write (Some i) buffer cnt ps' = None \<and> rt_pipe_read (Some i) cnt ps' = None)
      | Some (a, pool, rb) \<Rightarrow> 4 \<le> unat (pp_bufsz (pipe ps i)) \<and> pipe_ready i t ps' \<and> pipe_bytes ps' i = [] \<and>
          pipe_cap ps' i = 4 * (unat (pp_bufsz (pipe ps i)) div 4) \<and>
          (\<exists>n1 n2. {(unat a, n1), (unat pool, n2)} \<inter> A = {} \<and>
             heap_live (memory_of ps') (A \<union> {(unat a, n1), (unat pool, n2)})))"
proof -
  let ?sz = "pp_bufsz (pipe ps i)" and ?k = "ds_kernel ps"
  let ?ps = "ps\<lparr>ds_kernel := held i t ?k\<rparr>"
  have hm: "heap_live (memory_of ?ps) A" using h by (simp add: memory_of_def)
  obtain res m where C: "rt_ringbuffer_create ?sz bytes (memory_of ?ps) = Some (Ret res, m)"
      "case res of None \<Rightarrow> heap_live m A
      | Some (rb, pool, r) \<Rightarrow> \<exists>n1 n2. 12 \<le> n1 \<and> 4 * (unat ?sz div 4) \<le> n2 \<and>
          {(unat rb, n1), (unat pool, n2)} \<inter> A = {} \<and> heap_live m (A \<union> {(unat rb, n1), (unat pool, n2)}) \<and>
          rb_wf r \<and> rb_cap r = 4 * (unat ?sz div 4) \<and> rt_ringbuffer_status r = RT_RINGBUFFER_EMPTY \<and>
          (\<exists>h''. rt_ringbuffer_destroy (rb, pool, r) m = Some (Ret (), h'') \<and> heap_live h'' A)"
    using rt_ringbuffer_create_all_or_none [OF hm sz bt] by blast
  obtain g where m: "m = (held i t ?k, g)"
    using ringbuffer_create_kernel [OF hm [unfolded memory_of_def] sz(2) C(1) [unfolded memory_of_def]]
    by (cases m) simp
  let ?w = "with_memory m ?ps"
  let ?p = "upd_pipe i (\<lambda>p. p\<lparr>pp_fifo := res\<rparr>) ?w"
  let ?e = "?p\<lparr>ds_kernel := released t ?k\<rparr>"
  have k: "ds_kernel ?p = held i t ?k" by (simp add: with_memory_def m)
  have run: "rt_pipe_open bytes (Some i) flags ps = Some (Ret RT_EOK, ?e)"
    using n C(1) unlock_run [OF l k, of RT_EOK]
    by (simp add: rt_pipe_open_def locked_run [OF l] pipe_open_body_def)
  have e: "ds_kernel ?e = released t ?k" "pp_fifo (pipe ?e i) = res" "memory_of ?e = (released t ?k, g)"
    by (simp_all add: memory_of_def with_memory_def m)
  note lf = lock_free_released [OF l]
  show ?thesis
  proof (cases res)
    case None
    have "rt_pipe_write (Some i) buffer cnt ?e = None \<and> rt_pipe_read (Some i) cnt ?e = None" if "cnt \<noteq> 0" for buffer cnt
      using that None lf e(1) by (simp add: rt_pipe_write_def rt_pipe_read_def locked_run [where t = t] pipe_write_body_def pipe_read_body_def)
    then show ?thesis using run e None lf C(2) by (intro exI [of _ ?e]) (simp add: m)
  next
    case (Some f)
    then obtain a pool rb where f: "res = Some (a, pool, rb)" by (cases f) auto
    then obtain n1 n2 where R: "rb_wf rb" "rb_cap rb = 4 * (unat ?sz div 4)" "rt_ringbuffer_status rb = RT_RINGBUFFER_EMPTY"
        "{(unat a, n1), (unat pool, n2)} \<inter> A = {}" "heap_live (held i t ?k, g) (A \<union> {(unat a, n1), (unat pool, n2)})"
      using C(2) m by auto
    have "rb_count rb = 0"
      using R(3) by (simp add: rt_ringbuffer_status_def rb_count_def split: if_splits)
    then have c: "rb_content rb = []" by (simp flip: length_0_conv)
    have "4 \<le> unat ?sz" using rb_wfD(1) [OF R(1)] R(2) by (cases "unat ?sz < 4") auto
    then show ?thesis using run e f lf R c
      by (intro exI [of _ ?e]) (auto simp: pipe_ready_def pipe_bytes_def pipe_cap_def)
  qed
qed

section \<open>Closing\<close>

text \<open>C35: the last close of a pipe does not close it.  The framework has counted the last user out before it
  calls \<^verbatim>\<open>rt_pipe_close\<close>, which releases the buffer only when one user is left; so the buffer stays, with its
  memory and its bytes, and the next user who opens the pipe reads them.\<close>

theorem rt_pipe_last_close_keeps_buffer:
  assumes r: "pipe_ready i t ps" and d: "is_device i ps" and u: "users ps i = 1"
  shows "\<exists>ps' ps''. rt_device_close (pipe_ops bytes) i ps = Some (RT_EOK, ps') \<and> users ps' i = 0 \<and>
     pp_fifo (pipe ps' i) = pp_fifo (pipe ps i) \<and>
     rt_device_open (pipe_ops bytes) i flags ps' = Some (RT_EOK, ps'') \<and> users ps'' i = 1 \<and>
     pipe_ready i t ps'' \<and> pipe_bytes ps'' i = pipe_bytes ps i"
proof -
  have l: "lock_free i t (ds_kernel ps)" using r by (simp add: pipe_ready_def)
  let ?k = "released t (ds_kernel ps)"
  have one: "dv_ref_count (dev ps i) = 1" using u by (metis unsigned_1 word_unat_eq_iff)
  let ?d = "upd_dev i (\<lambda>d. d\<lparr>dv_ref_count := 0\<rparr>) ps"
  have down: "upd_dev i (\<lambda>d. d\<lparr>dv_ref_count := dv_ref_count d - 1\<rparr>) ps = ?d" using one by (simp add: upd_dev_def)
  have close: "rt_pipe_close (Some i) ?d = Some (Ret RT_EOK, ?d\<lparr>ds_kernel := ?k\<rparr>)"
    using l unlock_run [OF l, of "?d\<lparr>ds_kernel := held i t (ds_kernel ps)\<rparr>" RT_EOK]
    by (simp add: rt_pipe_close_def locked_run [where t = t] pipe_close_body_def upd_dev_def)
  let ?c = "upd_dev i (\<lambda>d. d\<lparr>dv_open_flag := 0\<rparr>) (?d\<lparr>ds_kernel := ?k\<rparr>)"
  have C: "rt_device_close (pipe_ops bytes) i ps = Some (RT_EOK, ?c)"
    using d one close down by (simp add: rt_device_close_def pipe_ops_def)
  have dc: "is_device i ?c"
    using d by (simp add: is_device_def rt_object_get_type_def released_def)
  have lk: "lock_free i t ?k" by (rule lock_free_released [OF l])
  obtain f where f: "pp_fifo (pipe ps i) = Some f" using r by (auto simp: pipe_ready_def split: option.splits)
  let ?a = "if activated (dev ?c i) then ?c else set_activated i ?c"
  have act: "device_activate (pipe_ops bytes) i ?c = Some (RT_EOK, ?a)"
    by (simp add: device_activate_def pipe_ops_def)
  have A: "ds_kernel ?a = ?k" "ds_driver ?a = ds_driver ps" "dv_open_flag (dev ?a i) = 0" "dv_ref_count (dev ?a i) = 0"
    by (simp_all add: set_activated_def)
  let ?o = "upd_dev i (\<lambda>d. d\<lparr>dv_ref_count := dv_ref_count d + 1\<rparr>)
     (upd_dev i (\<lambda>d. d\<lparr>dv_open_flag := dv_open_flag d OR RT_DEVICE_OFLAG_OPEN\<rparr>) (?a\<lparr>ds_kernel := released t ?k\<rparr>))"
  have "unlock i RT_EOK (?a\<lparr>ds_kernel := held i t ?k\<rparr>) = Some (Ret RT_EOK, ?a\<lparr>ds_kernel := released t ?k\<rparr>)"
    using unlock_run [OF lk, of "?a\<lparr>ds_kernel := held i t ?k\<rparr>" RT_EOK] by simp
  then have "rt_pipe_open bytes (Some i) flags ?a = Some (Ret RT_EOK, ?a\<lparr>ds_kernel := released t ?k\<rparr>)"
    using lk A(1,2) f by (simp add: rt_pipe_open_def locked_run [where t = t] pipe_open_body_def)
  then have O: "rt_device_open (pipe_ops bytes) i flags ?c = Some (RT_EOK, ?o)"
    using assert_device_eq [OF dc] act A by (simp add: rt_device_open_def pipe_ops_def)
  have "ds_kernel ?o = released t ?k" "ds_driver ?o = ds_driver ps" "users ?o i = 1" using A by simp_all
  then show ?thesis using C O f r lock_free_released [OF lk] by (auto simp: pipe_ready_def pipe_bytes_def)
qed

end
