(* ===== verification/PipeWitness.thy ===== *)
theory PipeWitness
  imports DriverIpcWitness Pipe
begin

text \<open>
  The properties of pipes at concrete inputs: a pipe with the number 5, whose device is registered in the
  sample system, whose lock is the free mutex of it, and which holds two bytes of four.
\<close>

definition pipe_name :: "rt_uint8 list" where
  "pipe_name = [0x70, 0x35, 0]"

definition sample_dev :: kstate where
  "sample_dev = (upd_obj (KDevice 5) (\<lambda>ob. ob\<lparr>o_type := 0x89, o_name := rt_strncpy pipe_name 8\<rparr>) (sample (KSem 0)))
     \<lparr>k_olists := tbl_push RT_Object_Class_Device (KDevice 5) sample_objects\<rparr>"

lemma sample_dev_init:
  "rt_object_init (KDevice 5) (class_of (KDevice 5)) pipe_name ((sample (KSem 0))\<lparr>k_lock_nest := 1\<rparr>) =
     Some (sample_dev\<lparr>k_lock_nest := 1\<rparr>)"
  by (simp add: rt_object_init_def device_info rt_enter_critical_def rt_exit_critical_def sample_dev_def upd_obj_def
      sample_fields)

lemma sample_dev_ok [simp]: "sys_ok sample_dev"
proof -
  have "sys_ok ((sample (KSem 0))\<lparr>k_lock_nest := 1\<rparr>)" by simp
  then have "sys_ok (sample_dev\<lparr>k_lock_nest := 1\<rparr>)"
    using object_init_plain_total [of "(sample (KSem 0))\<lparr>k_lock_nest := 1\<rparr>" "KDevice 5" pipe_name] sample_dev_init
    by (simp add: sample_fields)
  then show ?thesis by simp
qed

definition sample_fifo :: rt_ringbuffer where
  "sample_fifo = \<lparr>buffer_ptr = [0x41, 0x42, 0, 0], read_mirror = 0, read_index = 0, write_mirror = 0, write_index = 2,
     buffer_size = 4\<rparr>"

lemma sample_fifo_wf [simp]:
  "rb_wf sample_fifo" "rb_content sample_fifo = [0x41, 0x42]" "rb_cap sample_fifo = 4" "rb_count sample_fifo = 2"
  by (simp_all add: sample_fifo_def rb_wf_def rb_content_def rb_cap_def rb_count_def ring_read_def upt_rec)

definition sample_pipe :: "(rt_uint32 \<times> rt_uint32 \<times> rt_ringbuffer) option \<Rightarrow> psys" where
  "sample_pipe f = \<lparr>ds_kernel = sample_dev,
     ds_devices = (\<lambda>_. zero_device\<lparr>dv_type := RT_Device_Class_Pipe, dv_flag := 0x017, dv_open_flag := 0x00b, dv_ref_count := 1\<rparr>),
     ds_driver = \<lparr>ps_pipes = (\<lambda>_. zero_pipe\<lparr>pp_fifo := f, pp_bufsz := 6\<rparr>), ps_heap = sample_heap, ps_sizeof = 100,
       ps_EINVAL = 22, ps_ENODEV = 19\<rparr>\<rparr>"

lemma sample_pipe_fields [simp]:
  "ds_kernel (sample_pipe f) = sample_dev" "pp_fifo (pipe (sample_pipe f) i) = f" "pp_bufsz (pipe (sample_pipe f) i) = 6"
  "memory_of (sample_pipe f) = (sample_dev, sample_heap)" "dv_ref_count (dev (sample_pipe f) i) = 1"
  by (simp_all add: sample_pipe_def memory_of_def)

lemma sample_dev_fields:
  "k_threads sample_dev = k_threads (sample (KSem 0))" "k_tlists sample_dev = k_tlists (sample (KSem 0))"
  "k_mutexes sample_dev = k_mutexes (sample (KSem 0))" "k_sems sample_dev = k_sems (sample (KSem 0))"
  "k_current sample_dev = Some 2" "k_irq_nest sample_dev = 0" "k \<noteq> KDevice 5 \<Longrightarrow> k_objs sample_dev k = sample_object k"
  by (simp_all add: sample_dev_def upd_obj_def sample_fields)

lemma sample_lock [simp]: "lock_free 5 2 sample_dev"
proof -
  have "KMutex 5 \<in> set (k_olists sample_dev (class_of (KMutex 5)))"
    by (simp add: sample_dev_def tbl_push_def)
  then have "ipc_object_ok (KMutex 5) sample_dev"
    by (simp add: ipc_object_ok_def sample_dev_fields sample_object_def)
  then show ?thesis by (simp add: lock_free_def running_in_def sample_dev_fields sample_fields)
qed

lemma sample_pipe_ready: "pipe_ready 5 2 (sample_pipe (Some (0x1000, 0x2000, sample_fifo)))"
  by (simp add: pipe_ready_def)

theorem pipe_history_fifo_witness:
  "\<exists>acc del ps'. pipe_run 5 [PipePut [1, 2, 3], PipeGet 2] (sample_pipe (Some (0x1000, 0x2000, sample_fifo))) = Some (acc, del, ps') \<and>
     [0x41, 0x42] @ acc = del @ pipe_bytes ps' 5 \<and> length (pipe_bytes ps' 5) \<le> 4"
  using pipe_history_fifo [OF sample_pipe_ready, of "[PipePut [1, 2, 3], PipeGet 2]"]
  by (fastforce simp: pipe_bytes_def pipe_cap_def)

theorem rt_pipe_open_memory_witness:
  "\<exists>ps'. rt_pipe_open [0, 0, 0, 0] (Some 5) 3 (sample_pipe None) = Some (Ret RT_EOK, ps') \<and> lock_free 5 2 (ds_kernel ps') \<and>
     (pp_fifo (pipe ps' 5) = None \<longrightarrow> heap_live (memory_of ps') {(0x2000200C, 24)} \<and> rt_pipe_write (Some 5) [1] 1 ps' = None)"
proof -
  have "heap_live (sample_dev, sample_heap) {(0x2000200C, 24)}"
    using sample_heap_live
    by (simp add: heap_live_def heap_ready_def heap_idle_def sample_dev_fields rt_object_get_type_def sample_fields)
  then show ?thesis
    using rt_pipe_open_memory [of 5 2 "sample_pipe None" "{(0x2000200C, 24)}" "[0, 0, 0, 0]" 3]
    by (auto split: option.splits) (metis not_None_eq old.prod.exhaust zero_neq_one)
qed

theorem rt_pipe_last_close_keeps_buffer_witness:
  "\<exists>ps' ps''. rt_device_close (pipe_ops []) 5 (sample_pipe (Some (0x1000, 0x2000, sample_fifo))) = Some (RT_EOK, ps') \<and>
     users ps' 5 = 0 \<and> rt_device_open (pipe_ops []) 5 3 ps' = Some (RT_EOK, ps'') \<and> pipe_bytes ps'' 5 = [0x41, 0x42]"
proof -
  have "is_device 5 (sample_pipe (Some (0x1000, 0x2000, sample_fifo)))"
    by (simp add: is_device_def rt_object_get_type_def sample_dev_def upd_obj_def)
  then show ?thesis using rt_pipe_last_close_keeps_buffer [OF sample_pipe_ready, of "[]" 3]
    by (auto simp: pipe_bytes_def)
qed

text \<open>A write that finds the lock of thread 3.\<close>

theorem rt_pipe_write_waits_witness:
  "\<exists>ps'. rt_pipe_write (Some 0) [1] 1 ((sample_pipe None)\<lparr>ds_kernel := sample_inherit\<rparr>) = Some (Wait, ps') \<and>
     tstat (ds_kernel ps') 2 = RT_THREAD_SUSPEND"
proof -
  have "sys_ok sample_inherit" "running_in 2 sample_inherit" "ipc_object_ok (KMutex 0) sample_inherit"
    "mutex_abs 0 sample_inherit = (Some (3, 1), [])" "mutex_ok 0 sample_inherit"
    using sample_ok [of "KSem 0"] sample_running [of "KSem 0"] sample_object_ok [of "KMutex 0" "KSem 0"]
    by (simp_all add: sample_inherit_def running_in_def ipc_object_ok_def mutex_abs_def mutex_ok_def sample_fields live_def)
  then show ?thesis
    using rt_pipe_write_waits [of "(sample_pipe None)\<lparr>ds_kernel := sample_inherit\<rparr>" 0 2 3 1 "[]" 1 "[1]"] by auto
qed

end
