(* ===== verification/Spec2Isabelle.thy ===== *)
theory Spec2Isabelle
  imports PipeWitness
begin

text \<open>
  \<^bold>\<open>The RT-Thread kernel of the STM32F103 project.\<close>

  The repository is a graphical application for an STM32F103 board: the RT-Thread 4.0.2 kernel
  (\<^verbatim>\<open>src/template_LVGL/rt-thread\<close>), the LVGL graphics library, the vendor's peripheral library and
  small applications.  The development models the kernel, in the configuration of
  \<^verbatim>\<open>src/template_LVGL/rtconfig.h\<close>: one processor, 32 priorities, tick of one millisecond, soft timers
  on, a timer skip list of one level, all five communication objects, memory pools.  File names below are
  relative to the kernel's directory.

  \<^bold>\<open>State and conventions.\<close>  \<open>KernelState\<close> has the structures of \<^verbatim>\<open>include/rtdef.h\<close> as records with
  the fields' widths, and one record \<open>kstate\<close> with everything the kernel keeps: the threads, timers
  and objects by name, the lists they are linked in, the ready bitmap, the current thread, the nesting
  counters, the tick, and the memory that holds thread stacks.  A stateful function takes the state
  and returns it updated; \<open>None\<close> is an assertion of the source that fails (\<^verbatim>\<open>RT_ASSERT\<close>, or one of
  the context checks of \<^verbatim>\<open>include/rtdebug.h\<close>).  Each function runs with interrupts disabled where the
  source disables them, so that a call is one step.  A call that blocks is cut where the caller is
  suspended: it returns \<open>Wait\<close>, and a second definition, its name ending in \<open>resume\<close>, is what the
  thread does when it runs again.  A context switch is a change of \<open>k_current\<close>.  Memory an allocation
  returns, application callbacks and hooks are arguments.

  \<^bold>\<open>Parts.\<close>
  \<^item> \<open>Prelude\<close>: types, constants, alignment, shared lemmas on words, lists and the option monad.
  \<^item> \<open>RtList\<close> (\<^verbatim>\<open>include/rtservice.h\<close>): the doubly linked lists as nodes with two pointers.  A locale
    states what a table of disjoint sequences promises; the pointer operations are shown to refine it,
    and the other theories link threads, timers and objects in such tables.
  \<^item> \<open>Ffs\<close> (\<^verbatim>\<open>libcpu/arm/cortex-m3/cpuport.c\<close>, \<^verbatim>\<open>src/kservice.c\<close>): the bit scan of the scheduler in both
    its versions, equal and correct.
  \<^item> \<open>Scheduler\<close> (\<^verbatim>\<open>src/scheduler.c\<close>, \<^verbatim>\<open>src/irq.c\<close>): ready lists, the choice of the next thread, the
    scheduler lock; the invariant \<open>sched_inv\<close> ties lists, bitmap, states and priorities together.
  \<^item> \<open>KService\<close> (\<^verbatim>\<open>src/kservice.c\<close>): strings and memory comparison on byte lists.
  \<^item> \<open>KObject\<close>, \<open>KTimer\<close>, \<open>KernelInv\<close>, \<open>KThread\<close>, \<open>TimerRun\<close>, \<open>Clock\<close> (\<^verbatim>\<open>src/object.c\<close>, \<^verbatim>\<open>src/timer.c\<close>,
    \<^verbatim>\<open>src/thread.c\<close>, \<^verbatim>\<open>src/clock.c\<close>): object containers, timers and their sorted lists, the life of a
    thread, expiry, sleeping, the tick.  \<open>kinv\<close> is the invariant of the kernel; its index is the set
    of threads under construction.  \<open>sys_ok\<close> is the invariant of a running system: \<open>kinv\<close>, the
    timers of threads are of the right kind, a thread is current, and no live thread's stack has
    overflowed.
  \<^item> \<open>IpcBase\<close>, \<open>Semaphore\<close>, \<open>Mutex\<close>, \<open>Event\<close>, \<open>Mailbox\<close>, \<open>MsgQueue\<close> (\<^verbatim>\<open>src/ipc.c\<close>): waiting lists and the
    five objects.  Each object has an abstract state (a count and the waiting threads, an owner and a
    depth, a set of flags, two channels), an abstract operation, and a refinement theorem that the call
    returns and does what the abstract operation does.  \<open>Fifo\<close> is the interface of a bounded queue,
    interpreted on the mailbox array, the message chain and the ring buffer.
  \<^item> \<open>MemPool\<close> (\<^verbatim>\<open>src/mempool.c\<close>): pools of blocks, on a store of link words; free and allocated
    blocks partition the pool.
  \<^item> \<open>KMemory\<close> (\<^verbatim>\<open>src/kservice.c\<close>): filling, copying and moving memory, with the word-wise loops, shown to
    be the update of the memory they should be.
  \<^item> \<open>Heap\<close>, \<open>HeapCalls\<close> (\<^verbatim>\<open>src/mem.c\<close>): the allocator of the system's heap on a store of block headers,
    abstracted to the list of blocks; what allocation, release and resizing do to the allocated areas
    and their bytes.  The kernel's own allocations take their result as an argument, so the heap is a
    component of its own with its own state beside \<open>kstate\<close>, sharing the semaphore and the memory.
  \<^item> \<open>RingBuffer\<close> (\<^verbatim>\<open>components/drivers/src/ringbuffer.c\<close>): the driver's byte queue with mirror bits.
  \<^item> \<open>SList\<close>, \<open>RingBlock\<close> (\<^verbatim>\<open>include/rtservice.h\<close>, \<^verbatim>\<open>components/drivers/src/ringblk_buf.c\<close>): the singly
    linked lists, shown to be sequences, and the ring block buffer on them: allocation keeps the
    blocks apart under any history of single-block calls; the queues of blocks, and what is wrong with
    them.
  \<^item> \<open>Device\<close> (\<^verbatim>\<open>src/device.c\<close>): devices by name, the count of their users, the dispatch to a driver, whose
    functions are arguments; what the framework relies on is \<open>driver_ok\<close>.
  \<^item> \<open>DriverAlloc\<close>: ring buffers, ring block buffers and devices made on the heap.  The locale \<open>allocator\<close>
    states what an allocator promises, \<open>HeapCalls\<close> fulfils it, and creating an object takes all its
    areas or none.
  \<^item> \<open>OuterWait\<close>: what a thread that waits outside the five objects goes through: it is suspended on a list
    of its own, woken from it, or taken out by the timer.
  \<^item> \<open>Completion\<close> (\<^verbatim>\<open>components/drivers/src/completion.c\<close>): a flag and one waiting thread, refining an abstract
    completion that is done or not.
  \<^item> \<open>DataQueue\<close> (\<^verbatim>\<open>components/drivers/src/dataqueue.c\<close>): bounded queues of pointers between a producer and a
    consumer, refining a queue as long as the 16-bit counters stand in order; past the wrap of the
    counters the code overwrites what is queued, which is a theorem too.
  \<^item> \<open>WaitQueue\<close> (\<^verbatim>\<open>components/drivers/src/waitqueue.c\<close>): threads that wait for a wake-up, which may come first.
  \<^item> \<open>WorkQueue\<close> (\<^verbatim>\<open>components/drivers/src/workqueue.c\<close>): works that a thread of the queue runs in order.  The
    thread is a machine whose steps are the pieces of its loop between which others may run; where the
    code forgets a work or takes one from an empty list is shown on such interleavings.
  \<^item> \<open>Pipe\<close> (\<^verbatim>\<open>components/drivers/src/pipe.c\<close>): the device with a ring buffer from the heap under a mutex.
    With the lock free, writes and reads are a stream under any history of calls; what opening does
    without memory, and that the last close leaves the buffer, are theorems too.
  \<^item> \<open>Idle\<close> (\<^verbatim>\<open>src/idle.c\<close>): hooks and the clean-up of ended threads.
  \<^item> \<open>SysFrame\<close>, \<open>System\<close>: what each call leaves alone, and the kernel as a state machine over all
    calls and the tick interrupt (\<^verbatim>\<open>SysTick_Handler\<close> of \<^verbatim>\<open>drivers/drv_common.c\<close>); the system invariant
    holds in every reachable state, and no allowed call gets stuck.
  \<^item> \<open>Startup\<close> (\<^verbatim>\<open>src/components.c\<close>): the start of the system, from a board without threads to the first
    thread; it ends in the system invariant.
  \<^item> \<open>Sample\<close>, \<open>Witness\<close>, \<open>DriverWitness\<close>, \<open>DriverIpcWitness\<close>, \<open>PipeWitness\<close>: a concrete running
    system and every property applied to it.

  \<^bold>\<open>Loops and fuel.\<close>  No definition has fuel.  Loops over lists are structural; those that may run
  forever in principle (the expiry loops, waking all threads of a list, cleaning up threads,
  draining the semaphore of a work queue) are partial functions into \<open>option\<close>, and the theorems about
  them show that they return.  The expiry
  loop needs that a periodic timer has a period (\<open>periods_ok\<close>): with period zero the code loops.

  \<^bold>\<open>What the theorems ask of the application.\<close>  The kernel calls functions that are not in it.  They
  are arguments of the definitions, and the theorems about the callers hold for those that satisfy a named
  predicate, each true of a function that does nothing:
  \<^item> timeout functions of timers, called by the tick interrupt: \<open>callback_ok\<close> (\<open>TimerRun\<close>), and
    \<open>callbacks_ok\<close> (\<open>System\<close>) for reachable states.  Called in a state that satisfies the invariant they return and
    keep it, leave the clock alone, and do no more to the timers than stop some (\<open>timers_less\<close>), as
    waking a thread that waits with a time limit does.  A function that releases a semaphore is one
    (\<open>callbacks_ok_release\<close>); functions that start or change timers are not covered.
  \<^item> clean-up functions of threads, called by the idle thread: \<open>cleanup_ok\<close> (\<open>Idle\<close>).  They return, keep the invariant,
    release no object, end, register and unregister no thread, and leave the list of defunct threads alone.
  \<^item> notification functions of data queues: \<open>notify_ok\<close> (\<open>DataQueue\<close>).  They return, keep the invariant, and
    leave the threads, the data queues and their waiting lists as they are.
  \<^item> functions of device drivers: \<open>driver_ok\<close> (\<open>Device\<close>).  They return, leave the type, the flags and the count of
    users of the device alone, and change the mark that it is open only when an opening or closing
    function does what it is asked.

  The timers themselves satisfy \<open>periods_ok\<close> (\<open>TimerRun\<close>): a linked timer runs for less than half the range of the
  tick, a periodic one has a period above zero, and only a thread's own, one-shot timer calls the
  timeout function of the kernel.  For the claim that no timer is left due, the deadlines lie in a
  window of half the range (\<open>window_ok\<close>).

  \<^bold>\<open>Bounds.\<close>  Words wrap as in C.  The theorems on blocking calls need a timeout below
  \<^verbatim>\<open>0x7FFFFFFF\<close>, because \<^verbatim>\<open>rt_timer_start\<close> asserts that a timer runs for less than half the range of
  the tick;
  those on mutexes a nesting below 255.  The code checks neither.

  \<^bold>\<open>Not modelled.\<close>  The multi-core branches, signals, modules and the other heaps, which the
  configuration leaves out; object and scheduler hooks, of which none is installed; formatted output,
  the hooks of the heap, the drivers of devices; the file operations of pipes and the work queue of the
  system, which the configuration leaves out as well; what a creation does after it had to wait for the
  heap; context switching in assembly; everything outside the kernel: LVGL, the vendor library, file
  systems, network and shell, the applications.  The functions an application gives to a wait queue, a work queue or a
  data queue are arguments of the calls.
\<close>

end
